(* ===== verification/Prelude.thy ===== *)
theory Prelude
  imports Main "HOL-Library.Word"
begin

text \<open>
  Shared vocabulary of the development: the C integer types as words, memory seen
  through a pointer, and the lemma collections the component theories fill and use.

  \<^item> \<open>byte\<close>, \<open>u16\<close>, \<open>u32\<close>, \<open>u64\<close> are the unsigned C types; a signed C
    value is the \<open>sint\<close> of a word, or an \<open>int\<close> with its range written out.
  \<^item> \<open>i64\<close> is a signed 64-bit value that is only compared or copied.
  \<^item> \<open>mem\<close> is the memory a C pointer gives access to: \<open>p i\<close> is \<open>p[i]\<close>.
\<close>

unbundle bit_operations_syntax

type_synonym byte = "8 word"
type_synonym u16 = "16 word"
type_synonym u32 = "32 word"
type_synonym u64 = "64 word"

type_synonym i64 = int
type_synonym mem = "nat \<Rightarrow> byte"

text \<open>The result codes several components share.\<close>

definition SQLITE_OK :: int where "SQLITE_OK = 0"
definition SQLITE_PERM :: int where "SQLITE_PERM = 3"
definition SQLITE_BUSY :: int where "SQLITE_BUSY = 5"
definition SQLITE_NOMEM :: int where "SQLITE_NOMEM = 7"
definition SQLITE_CORRUPT :: int where "SQLITE_CORRUPT = 11"
definition SQLITE_IOERR :: int where "SQLITE_IOERR = 10"

named_theorems preserve \<open>preservation of component invariants\<close>
named_theorems frame \<open>what an operation leaves alone\<close>

text \<open>Shifting a non-zero word right makes it smaller: the measure of the shift loops.\<close>

lemma unat_drop_bit_less:
  fixes v :: "'a::len word"
  assumes "drop_bit k v \<noteq> 0" and "0 < k"
  shows "unat (drop_bit k v) < unat v"
proof -
  have "unat v \<noteq> 0" using assms(1) by (auto simp: unat_eq_zero)
  then have "unat v div 2 ^ k < unat v" using assms(2) one_less_power [of "2::nat" k] by (intro div_less_dividend) auto
  then show ?thesis unfolding unat_drop_bit_eq by (simp only: drop_bit_eq_div)
qed

lemma unat_2p: "k < LENGTH('a) \<Longrightarrow> unat (2 ^ k :: 'a::len word) = 2 ^ k"
proof -
  assume k: "k < LENGTH('a)"
  have "unat (word_of_nat (2 ^ k) :: 'a word) = 2 ^ k"
    unfolding unsigned_of_nat using k by (simp add: take_bit_nat_eq_self_iff)
  then show ?thesis by simp
qed

lemma drop_bit_zero_iff: "k < LENGTH('a) \<Longrightarrow> drop_bit k (v :: 'a::len word) = 0 \<longleftrightarrow> v < 2 ^ k"
proof -
  assume k: "k < LENGTH('a)"
  have "unat (drop_bit k v) = unat v div 2 ^ k" unfolding unat_drop_bit_eq by (simp only: drop_bit_eq_div)
  then show ?thesis
    by (simp add: word_less_nat_alt word_unat_eq_iff div_eq_0_iff unat_2p [OF k])
qed

text \<open>Counting a call in a trace that grows at its end.\<close>

lemma count_list_snoc [simp]:
  "count_list (xs @ [y]) x = count_list xs x + (if x = y then 1 else 0)"
  by (induction xs) auto

text \<open>The signed reading of a byte.\<close>

lemma sint_byte: "sint (c :: byte) = (if uint c < 128 then uint c else uint c - 256)"
proof -
  have u: "0 \<le> uint c" "uint c < 256" using uint_bounded [of c] by simp_all
  have "sint c = take_bit 8 (uint c) - 256 * of_bool (bit (uint c) 7)"
    using signed_take_bit_eq_take_bit_minus [of 7 "uint c"] by (simp add: sint_uint)
  also have "bit (uint c) 7 \<longleftrightarrow> uint c \<ge> 128"
  proof -
    have "uint c div 128 = (if uint c \<ge> 128 then 1 else 0)" using u by auto
    then show ?thesis by (simp add: bit_iff_odd)
  qed
  also have "take_bit 8 (uint c) = uint c" by (rule take_bit_int_eq_self) (use u in simp_all)
  finally show ?thesis by simp
qed

text \<open>Lists read and written by index.\<close>

lemma drop_ConsD: "drop i z = c # cs \<Longrightarrow> i < length z \<and> z ! i = c \<and> drop (Suc i) z = cs"
proof -
  assume d: "drop i z = c # cs"
  then have "i < length z" by (metis drop_all linorder_not_less list.distinct(1))
  with d Cons_nth_drop_Suc [of i z] show ?thesis by simp
qed

lemma take_Suc_update: "j < length z \<Longrightarrow> take (Suc j) (z[j := x]) = take j z @ [x]"
  by (simp add: take_Suc_conv_app_nth)

lemma length_filter_update:
  "k < length xs \<Longrightarrow>
     length (filter Q (xs[k := y])) + of_bool (Q (xs ! k)) = length (filter Q xs) + of_bool (Q y)"
proof (induction xs arbitrary: k)
  case (Cons a xs)
  then show ?case by (cases k) auto
qed simp

end
