(* ===== verification/Nif_Bridge.thy ===== *)
theory Nif_Bridge
  imports Prelude
begin

text \<open>
  The native bridge runtime/native/sqlite_nif.c: one definition per C function, over an
  explicit state (the table of connection resources, the world of the libraries the
  bridge calls, and a trace of those calls).

  The BEAM (erl_nif.h, not in the repository) and the SQLite C API the bridge calls are
  the record \<open>env\<close>: one field per called function, over a world of type \<open>'w\<close>. Nothing
  is assumed of them here; a property that needs a documented behaviour of theirs names
  it as a hypothesis. A C pointer to a connection or a statement is \<open>nat option\<close> (\<open>None\<close>
  is NULL). A call that may not return (the stepping loops) has an \<open>option\<close> result.
\<close>

section \<open>Erlang terms and the calling environment\<close>

text \<open>Terms: a float is its 64-bit pattern; \<open>Res r\<close> is a term that holds resource \<open>r\<close>.\<close>

datatype eterm =
    Atom string
  | IntT int
  | FloatT u64
  | BinT "byte list"
  | TupT "eterm list"
  | NilT
  | ConsT eterm eterm
  | ResT nat
  | OtherT nat

text \<open>The value returned to the BEAM; \<open>Undefined\<close> is an access outside an array (undefined behaviour in C).\<close>

datatype nifres = Term eterm | Badarg | Undefined

text \<open>The value handed to the sqlite3\_bind family; text and blob carry their length argument.\<close>

datatype bval = BNull | BInt int | BDouble u64 | BText "byte list" int | BBlob "byte list" int

record 'w env =
  enif_alloc :: "nat \<Rightarrow> 'w \<Rightarrow> bool \<times> 'w"
  sq_open_v2 :: "byte list \<Rightarrow> 'w \<Rightarrow> (int \<times> nat option) \<times> 'w"
  sq_close_v2 :: "nat option \<Rightarrow> 'w \<Rightarrow> 'w"
  sq_busy_timeout :: "nat option \<Rightarrow> int \<Rightarrow> 'w \<Rightarrow> 'w"
  sq_prepare_v2 :: "nat option \<Rightarrow> byte list \<Rightarrow> int \<Rightarrow> 'w \<Rightarrow> (int \<times> nat option) \<times> 'w"
  sq_bind :: "nat option \<Rightarrow> int \<Rightarrow> bval \<Rightarrow> 'w \<Rightarrow> int \<times> 'w"
  sq_step :: "nat option \<Rightarrow> 'w \<Rightarrow> int \<times> 'w"
  sq_finalize :: "nat option \<Rightarrow> 'w \<Rightarrow> 'w"
  sq_changes :: "nat option \<Rightarrow> 'w \<Rightarrow> int"
  sq_extended_errcode :: "nat \<Rightarrow> 'w \<Rightarrow> int"
  sq_errmsg :: "nat \<Rightarrow> 'w \<Rightarrow> byte list"
  sq_errstr :: "int \<Rightarrow> byte list"
  sq_column_count :: "nat option \<Rightarrow> 'w \<Rightarrow> int"
  sq_column_name :: "nat option \<Rightarrow> nat \<Rightarrow> 'w \<Rightarrow> byte list option"
  sq_column_type :: "nat option \<Rightarrow> nat \<Rightarrow> 'w \<Rightarrow> int"
  sq_column_int64 :: "nat option \<Rightarrow> nat \<Rightarrow> 'w \<Rightarrow> int"
  sq_column_double :: "nat option \<Rightarrow> nat \<Rightarrow> 'w \<Rightarrow> u64"
  sq_column_text :: "nat option \<Rightarrow> nat \<Rightarrow> 'w \<Rightarrow> byte list"
  sq_column_blob :: "nat option \<Rightarrow> nat \<Rightarrow> 'w \<Rightarrow> byte list"
  sq_column_bytes :: "nat option \<Rightarrow> nat \<Rightarrow> 'w \<Rightarrow> int"
  sq_libversion :: "byte list"

text \<open>
  The calls the trace records, with what they returned where it matters. \<open>CErr h\<close> is the
  pair sqlite3\_extended\_errcode, sqlite3\_errmsg on \<open>h\<close>; \<open>CColumn st i t\<close> the reading of
  column \<open>i\<close> by the sqlite3\_column family, decoded to \<open>t\<close>.
\<close>

datatype call =
    COpen int "nat option"
  | CClose "nat option"
  | CTimeout "nat option" int
  | CPrepare "nat option" int "nat option"
  | CBind "nat option" int bval
  | CStep "nat option" int
  | CFinalize "nat option"
  | CChanges "nat option"
  | CErr nat
  | CCount "nat option"
  | CName "nat option" nat
  | CColumn "nat option" nat eterm
  | CAlloc
  | CFree

text \<open>The connection resource, and the state of the bridge.\<close>

record conn_t =
  db :: "nat option"
  closed :: bool

record 'w nif =
  conns :: "nat \<Rightarrow> conn_t option"
  next_res :: nat
  world :: 'w
  trace :: "call list"

definition SQLITE_ROW :: int where "SQLITE_ROW = 100"
definition SQLITE_DONE :: int where "SQLITE_DONE = 101"
definition SQLITE_INTEGER :: int where "SQLITE_INTEGER = 1"
definition SQLITE_FLOAT :: int where "SQLITE_FLOAT = 2"
definition SQLITE_TEXT :: int where "SQLITE_TEXT = 3"
definition SQLITE_BLOB :: int where "SQLITE_BLOB = 4"
definition SQLITE_NULL :: int where "SQLITE_NULL = 5"
definition RIDGE_SQLITE_BUSY_TIMEOUT_MS :: int where "RIDGE_SQLITE_BUSY_TIMEOUT_MS = 5000"

lemmas sqlite_consts = SQLITE_OK_def SQLITE_ROW_def SQLITE_DONE_def SQLITE_INTEGER_def
  SQLITE_FLOAT_def SQLITE_TEXT_def SQLITE_BLOB_def SQLITE_NULL_def

text \<open>The C cast \<open>(int)n\<close> of a \<open>size_t\<close>, and \<open>(unsigned)n\<close>.\<close>

definition c_int :: "nat \<Rightarrow> int" where
  "c_int n = sint (word_of_nat n :: 32 word)"

definition c_unsigned :: "nat \<Rightarrow> nat" where
  "c_unsigned n = unat (word_of_nat n :: 32 word)"

section \<open>Calls with their trace\<close>

definition logc :: "call \<Rightarrow> 'w nif \<Rightarrow> 'w nif" where
  "logc c s = s\<lparr>trace := trace s @ [c]\<rparr>"

definition do_alloc :: "'w env \<Rightarrow> nat \<Rightarrow> 'w nif \<Rightarrow> bool \<times> 'w nif" where
  "do_alloc E n s =
     (case enif_alloc E n (world s) of
        (ok, w) \<Rightarrow> (ok, if ok then logc CAlloc (s\<lparr>world := w\<rparr>) else s\<lparr>world := w\<rparr>))"

definition do_free :: "'w nif \<Rightarrow> 'w nif" where
  "do_free s = logc CFree s"

definition do_open :: "'w env \<Rightarrow> byte list \<Rightarrow> 'w nif \<Rightarrow> (int \<times> nat option) \<times> 'w nif" where
  "do_open E p s =
     (case sq_open_v2 E p (world s) of
        ((rc, d), w) \<Rightarrow> ((rc, d), logc (COpen rc d) (s\<lparr>world := w\<rparr>)))"

definition do_close :: "'w env \<Rightarrow> nat option \<Rightarrow> 'w nif \<Rightarrow> 'w nif" where
  "do_close E d s = logc (CClose d) (s\<lparr>world := sq_close_v2 E d (world s)\<rparr>)"

definition do_timeout :: "'w env \<Rightarrow> nat option \<Rightarrow> int \<Rightarrow> 'w nif \<Rightarrow> 'w nif" where
  "do_timeout E d ms s = logc (CTimeout d ms) (s\<lparr>world := sq_busy_timeout E d ms (world s)\<rparr>)"

definition do_prepare :: "'w env \<Rightarrow> nat option \<Rightarrow> byte list \<Rightarrow> int \<Rightarrow> 'w nif \<Rightarrow> (int \<times> nat option) \<times> 'w nif" where
  "do_prepare E d sql n s =
     (case sq_prepare_v2 E d sql n (world s) of
        ((rc, st), w) \<Rightarrow> ((rc, st), logc (CPrepare d rc st) (s\<lparr>world := w\<rparr>)))"

definition do_bind :: "'w env \<Rightarrow> nat option \<Rightarrow> int \<Rightarrow> bval \<Rightarrow> 'w nif \<Rightarrow> int \<times> 'w nif" where
  "do_bind E st i v s =
     (case sq_bind E st i v (world s) of
        (rc, w) \<Rightarrow> (rc, logc (CBind st i v) (s\<lparr>world := w\<rparr>)))"

definition do_step :: "'w env \<Rightarrow> nat option \<Rightarrow> 'w nif \<Rightarrow> int \<times> 'w nif" where
  "do_step E st s =
     (case sq_step E st (world s) of
        (rc, w) \<Rightarrow> (rc, logc (CStep st rc) (s\<lparr>world := w\<rparr>)))"

definition do_finalize :: "'w env \<Rightarrow> nat option \<Rightarrow> 'w nif \<Rightarrow> 'w nif" where
  "do_finalize E st s = logc (CFinalize st) (s\<lparr>world := sq_finalize E st (world s)\<rparr>)"

definition do_changes :: "'w env \<Rightarrow> nat option \<Rightarrow> 'w nif \<Rightarrow> int \<times> 'w nif" where
  "do_changes E d s = (sq_changes E d (world s), logc (CChanges d) s)"

definition do_count :: "'w env \<Rightarrow> nat option \<Rightarrow> 'w nif \<Rightarrow> int \<times> 'w nif" where
  "do_count E st s = (sq_column_count E st (world s), logc (CCount st) s)"

lemmas call_defs = do_count_def logc_def do_alloc_def do_free_def do_open_def do_close_def do_timeout_def
  do_prepare_def do_bind_def do_step_def do_finalize_def do_changes_def

section \<open>Error terms, binding and decoding\<close>

text \<open>\<open>make_binary\<close> copies \<open>len\<close> bytes from \<open>data\<close>.\<close>

definition make_binary :: "byte list \<Rightarrow> nat \<Rightarrow> eterm" where
  "make_binary dat len = BinT (take len dat)"

definition sqlite_error_term :: "'w env \<Rightarrow> nat option \<Rightarrow> int \<Rightarrow> 'w \<Rightarrow> eterm" where
  "sqlite_error_term E d rc w =
     (let code = (case d of Some h \<Rightarrow> sq_extended_errcode E h w | None \<Rightarrow> rc);
          msg = (case d of Some h \<Rightarrow> sq_errmsg E h w | None \<Rightarrow> sq_errstr E rc)
      in TupT [Atom ''error'',
               TupT [Atom ''sqlite_error'', IntT code, make_binary msg (length msg)]])"

definition make_sqlite_error :: "'w env \<Rightarrow> nat option \<Rightarrow> int \<Rightarrow> 'w nif \<Rightarrow> eterm \<times> 'w nif" where
  "make_sqlite_error E d rc s =
     (sqlite_error_term E d rc (world s), case d of Some h \<Rightarrow> logc (CErr h) s | None \<Rightarrow> s)"

definition make_bad_param :: "eterm \<Rightarrow> eterm" where
  "make_bad_param t = TupT [Atom ''error'', TupT [Atom ''bad_param'', t]]"

text \<open>
  The connection a resource term points to. Every \<open>c->db\<close> of the code is a \<open>conn_db\<close> of the
  state at that moment. Closing is two steps, the call of sqlite3\_close\_v2 and the
  marking of the resource.
\<close>

definition conn_db :: "nat \<Rightarrow> 'w nif \<Rightarrow> nat option" where
  "conn_db r s = (case conns s r of None \<Rightarrow> None | Some c \<Rightarrow> db c)"

definition close_call :: "'w env \<Rightarrow> nat \<Rightarrow> 'w nif \<Rightarrow> 'w nif" where
  "close_call E r s = do_close E (conn_db r s) s"

definition close_mark :: "nat \<Rightarrow> 'w nif \<Rightarrow> 'w nif" where
  "close_mark r s = s\<lparr>conns := (conns s)(r \<mapsto> \<lparr>db = None, closed = True\<rparr>)\<rparr>"

text \<open>The destructor: closes the handle of a live connection, once.\<close>

definition conn_dtor :: "'w env \<Rightarrow> nat \<Rightarrow> 'w nif \<Rightarrow> 'w nif" where
  "conn_dtor E r s =
     (case conns s r of
        None \<Rightarrow> s
      | Some c \<Rightarrow> if db c \<noteq> None \<and> \<not> closed c then close_mark r (close_call E r s) else s)"

definition get_conn :: "eterm \<Rightarrow> 'w nif \<Rightarrow> nat option" where
  "get_conn t s =
     (case t of
        ResT r \<Rightarrow>
          (case conns s r of
             None \<Rightarrow> None
           | Some c \<Rightarrow> if closed c \<or> db c = None then None else Some r)
      | _ \<Rightarrow> None)"

text \<open>
  The tests of erl_nif.h used on a cell: a tuple of arity 2, an integer that fits
  \<open>ErlNifSInt64\<close>, a float, a binary.
\<close>

definition get_int64 :: "eterm \<Rightarrow> int option" where
  "get_int64 t = (case t of IntT n \<Rightarrow> if - (2 ^ 63) \<le> n \<and> n < 2 ^ 63 then Some n else None | _ \<Rightarrow> None)"

definition get_double :: "eterm \<Rightarrow> u64 option" where
  "get_double t = (case t of FloatT x \<Rightarrow> Some x | _ \<Rightarrow> None)"

definition inspect_binary :: "eterm \<Rightarrow> byte list option" where
  "inspect_binary t = (case t of BinT b \<Rightarrow> Some b | _ \<Rightarrow> None)"

text \<open>The value a cell term binds to, \<open>None\<close> for a term that is not a valid cell.\<close>

definition cell_bval :: "eterm \<Rightarrow> bval option" where
  "cell_bval t =
     (if t = Atom ''null'' then Some BNull
      else case t of
        TupT [tag, v] \<Rightarrow>
          if tag = Atom ''int'' then map_option BInt (get_int64 v)
          else if tag = Atom ''float'' then map_option BDouble (get_double v)
          else if tag = Atom ''text'' then map_option (\<lambda>b. BText b (c_int (length b))) (inspect_binary v)
          else if tag = Atom ''blob'' then map_option (\<lambda>b. BBlob b (c_int (length b))) (inspect_binary v)
          else None
      | _ \<Rightarrow> None)"

text \<open>\<open>bind_one\<close>: \<open>None\<close> is success, \<open>Some err\<close> the error term written to \<open>*err\<close>.\<close>

definition bind_one :: "'w env \<Rightarrow> nat option \<Rightarrow> nat option \<Rightarrow> int \<Rightarrow> eterm \<Rightarrow> 'w nif \<Rightarrow> eterm option \<times> 'w nif" where
  "bind_one E d st idx t s =
     (case cell_bval t of
        None \<Rightarrow> (Some (make_bad_param t), s)
      | Some v \<Rightarrow>
          (case do_bind E st idx v s of
             (rc, s1) \<Rightarrow>
               if rc \<noteq> SQLITE_OK then
                 (case make_sqlite_error E d rc s1 of (err, s2) \<Rightarrow> (Some err, s2))
               else (None, s1)))"

fun bind_loop :: "'w env \<Rightarrow> nat option \<Rightarrow> nat option \<Rightarrow> eterm \<Rightarrow> int \<Rightarrow> 'w nif \<Rightarrow> eterm option \<times> 'w nif" where
  "bind_loop E d st (ConsT hd_t tl_t) idx s =
     (case bind_one E d st idx hd_t s of
        (Some err, s1) \<Rightarrow> (Some err, s1)
      | (None, s1) \<Rightarrow> bind_loop E d st tl_t (idx + 1) s1)"
| "bind_loop E d st _ idx s = (None, s)"

definition is_list :: "eterm \<Rightarrow> bool" where
  "is_list t = (case t of NilT \<Rightarrow> True | ConsT _ _ \<Rightarrow> True | _ \<Rightarrow> False)"

definition bind_params :: "'w env \<Rightarrow> nat option \<Rightarrow> nat option \<Rightarrow> eterm \<Rightarrow> 'w nif \<Rightarrow> eterm option \<times> 'w nif" where
  "bind_params E d st params s =
     (if \<not> is_list params then (Some (make_bad_param params), s)
      else bind_loop E d st params 1 s)"

definition decode_cell :: "'w env \<Rightarrow> nat option \<Rightarrow> nat \<Rightarrow> 'w \<Rightarrow> eterm" where
  "decode_cell E st col w =
     (let ty = sq_column_type E st col w in
      if ty = SQLITE_INTEGER then TupT [Atom ''int'', IntT (sq_column_int64 E st col w)]
      else if ty = SQLITE_FLOAT then TupT [Atom ''float'', FloatT (sq_column_double E st col w)]
      else if ty = SQLITE_TEXT then
        TupT [Atom ''text'', make_binary (sq_column_text E st col w) (nat (sq_column_bytes E st col w mod 2 ^ 64))]
      else if ty = SQLITE_BLOB then
        TupT [Atom ''blob'', make_binary (sq_column_blob E st col w) (nat (sq_column_bytes E st col w mod 2 ^ 64))]
      else Atom ''null'')"

text \<open>\<open>enif_make_list_from_array\<close> of the first \<open>n\<close> entries.\<close>

definition list_from_array :: "eterm list \<Rightarrow> nat \<Rightarrow> eterm" where
  "list_from_array xs n = foldr ConsT (take n xs) NilT"

section \<open>The exported functions\<close>

definition RES_SIZE :: nat where "RES_SIZE = 16"
definition TERM_SIZE :: nat where "TERM_SIZE = 8"

definition err_closed :: nifres where
  "err_closed = Term (TupT [Atom ''error'', Atom ''closed''])"

text \<open>\<open>open_nif\<close>: the path is copied to a NUL-terminated buffer, which is freed after the call.\<close>

definition open_nif :: "'w env \<Rightarrow> eterm \<Rightarrow> 'w nif \<Rightarrow> nifres \<times> 'w nif" where
  "open_nif E arg s =
     (case inspect_binary arg of
        None \<Rightarrow> (Badarg, s)
      | Some path \<Rightarrow>
          (case do_alloc E (length path + 1) s of
             (False, s1) \<Rightarrow> (Badarg, s1)
           | (True, s1) \<Rightarrow>
               (case do_open E (path @ [0]) s1 of
                  ((rc, d), s2) \<Rightarrow>
                    let s3 = do_free s2 in
                    if rc \<noteq> SQLITE_OK then
                      (case make_sqlite_error E d rc s3 of (err, s4) \<Rightarrow> (Term err, do_close E d s4))
                    else
                      let s4 = do_timeout E d RIDGE_SQLITE_BUSY_TIMEOUT_MS s3 in
                      (case enif_alloc E RES_SIZE (world s4) of
                         (False, w) \<Rightarrow> (Badarg, do_close E d (s4\<lparr>world := w\<rparr>))
                       | (True, w) \<Rightarrow>
                           (Term (TupT [Atom ''ok'', ResT (next_res s4)]),
                            s4\<lparr>world := w,
                               conns := (conns s4)(next_res s4 \<mapsto> \<lparr>db = d, closed = False\<rparr>),
                               next_res := Suc (next_res s4)\<rparr>)))))"

definition close_nif :: "'w env \<Rightarrow> eterm \<Rightarrow> 'w nif \<Rightarrow> nifres \<times> 'w nif" where
  "close_nif E arg s =
     (case arg of
        ResT r \<Rightarrow>
          (case conns s r of
             None \<Rightarrow> (Badarg, s)
           | Some c \<Rightarrow>
               if closed c \<or> db c = None then (err_closed, s)
               else (Term (Atom ''ok''), close_mark r (close_call E r s)))
      | _ \<Rightarrow> (Badarg, s))"

text \<open>The stepping loop of \<open>exec_nif\<close>; \<open>None\<close> when SQLite keeps returning rows for ever.\<close>

partial_function (option) exec_loop :: "'w env \<Rightarrow> nat option \<Rightarrow> 'w nif \<Rightarrow> (int \<times> 'w nif) option" where
  "exec_loop E st s =
     (case do_step E st s of
        (rc, s1) \<Rightarrow> if rc = SQLITE_ROW then exec_loop E st s1 else Some (rc, s1))"

text \<open>
  \<open>exec_nif\<close> in two parts: the check by \<open>get_conn\<close>, which gives it the resource, and what it
  does then, reading \<open>c->db\<close> anew at each use. Nothing in the code holds a lock between the two.
\<close>

definition exec_checked :: "'w env \<Rightarrow> nat \<Rightarrow> eterm \<Rightarrow> eterm \<Rightarrow> 'w nif \<Rightarrow> (nifres \<times> 'w nif) option" where
  "exec_checked E r sqlt params s =
     (case inspect_binary sqlt of
        None \<Rightarrow> Some (Badarg, s)
      | Some sql \<Rightarrow>
          (case do_prepare E (conn_db r s) sql (c_int (length sql)) s of
             ((rc, st), s1) \<Rightarrow>
               if rc \<noteq> SQLITE_OK then
                 (case make_sqlite_error E (conn_db r s1) rc s1 of (err, s2) \<Rightarrow> Some (Term err, s2))
               else
                 (case bind_params E (conn_db r s1) st params s1 of
                    (Some err, s2) \<Rightarrow> Some (Term err, do_finalize E st s2)
                  | (None, s2) \<Rightarrow>
                      (case exec_loop E st s2 of
                         None \<Rightarrow> None
                       | Some (rc2, s3) \<Rightarrow>
                           if rc2 \<noteq> SQLITE_DONE then
                             (case make_sqlite_error E (conn_db r s3) rc2 s3 of
                                (err, s4) \<Rightarrow> Some (Term err, do_finalize E st s4))
                           else
                             (let s4 = do_finalize E st s3 in
                              case do_changes E (conn_db r s4) s4 of
                                (n, s5) \<Rightarrow> Some (Term (TupT [Atom ''ok'', IntT n]), s5))))))"

definition exec_nif :: "'w env \<Rightarrow> eterm \<Rightarrow> eterm \<Rightarrow> eterm \<Rightarrow> 'w nif \<Rightarrow> (nifres \<times> 'w nif) option" where
  "exec_nif E conn sqlt params s =
     (case get_conn conn s of
        None \<Rightarrow> Some (err_closed, s)
      | Some r \<Rightarrow> exec_checked E r sqlt params s)"

definition alloc_cells :: "int \<Rightarrow> nat" where
  "alloc_cells ncol = TERM_SIZE * nat (if ncol > 0 then ncol else 1)"

text \<open>The two \<open>for\<close> loops over the columns: the names, and the cells of the current row.\<close>

definition do_name :: "'w env \<Rightarrow> nat option \<Rightarrow> nat \<Rightarrow> 'w nif \<Rightarrow> eterm \<times> 'w nif" where
  "do_name E st i s =
     (case sq_column_name E st i (world s) of
        Some name \<Rightarrow> make_binary name (length name)
      | None \<Rightarrow> make_binary [] 0,
      logc (CName st i) s)"

definition do_column :: "'w env \<Rightarrow> nat option \<Rightarrow> nat \<Rightarrow> 'w nif \<Rightarrow> eterm \<times> 'w nif" where
  "do_column E st i s =
     (let t = decode_cell E st i (world s) in (t, logc (CColumn st i t) s))"

fun for_columns :: "(nat \<Rightarrow> 'w nif \<Rightarrow> eterm \<times> 'w nif) \<Rightarrow> nat list \<Rightarrow> 'w nif \<Rightarrow> eterm list \<times> 'w nif" where
  "for_columns f [] s = ([], s)"
| "for_columns f (i # is) s =
     (case f i s of (t, s1) \<Rightarrow> (case for_columns f is s1 of (ts, s2) \<Rightarrow> (t # ts, s2)))"

definition column_names :: "'w env \<Rightarrow> nat option \<Rightarrow> int \<Rightarrow> 'w nif \<Rightarrow> eterm \<times> 'w nif" where
  "column_names E st ncol s =
     (case for_columns (do_name E st) [0..<nat ncol] s of
        (names, s1) \<Rightarrow> (list_from_array names (nat ncol), s1))"

definition decode_row :: "'w env \<Rightarrow> nat option \<Rightarrow> int \<Rightarrow> 'w nif \<Rightarrow> eterm \<times> 'w nif" where
  "decode_row E st ncol s =
     (case for_columns (do_column E st) [0..<nat ncol] s of
        (cells, s1) \<Rightarrow> (list_from_array cells (nat ncol), s1))"

definition free_rows :: "nat \<Rightarrow> 'w nif \<Rightarrow> 'w nif" where
  "free_rows cap s = (if cap \<noteq> 0 then do_free s else s)"

text \<open>
  The growing array \<open>rows\<close>: \<open>cap\<close> entries are allocated (none, and the pointer NULL, when
  it is 0). \<open>grow_rows\<close> is the \<open>if (nrows == cap)\<close> step: a \<open>realloc\<close> keeps the one
  live block, and makes one where there was none.
\<close>

definition grow_rows :: "'w env \<Rightarrow> nat \<Rightarrow> nat \<Rightarrow> 'w nif \<Rightarrow> nat option \<times> 'w nif" where
  "grow_rows E nrows cap s =
     (if nrows = cap then
        let newcap = (if cap = 0 then 16 else cap * 2) in
        (case enif_alloc E (TERM_SIZE * newcap) (world s) of
           (False, w) \<Rightarrow> (None, s\<lparr>world := w\<rparr>)
         | (True, w) \<Rightarrow>
             (Some newcap, if cap = 0 then logc CAlloc (s\<lparr>world := w\<rparr>) else s\<lparr>world := w\<rparr>))
      else (Some cap, s))"

text \<open>
  \<open>rows[nrows++] = row_term\<close>: a write past the \<open>cap\<close> allocated entries is \<open>None\<close>. The loop
  ends with an allocation that failed, such a write, or the last return code and the array.
\<close>

definition put_row :: "eterm list \<Rightarrow> nat \<Rightarrow> eterm \<Rightarrow> eterm list option" where
  "put_row rows cap t = (if length rows < cap then Some (rows @ [t]) else None)"

datatype loop_exit = NoMem | Overrun | Ended int "eterm list" nat

partial_function (option) query_loop ::
  "'w env \<Rightarrow> nat option \<Rightarrow> int \<Rightarrow> eterm list \<Rightarrow> nat \<Rightarrow> 'w nif \<Rightarrow> (loop_exit \<times> 'w nif) option" where
  "query_loop E st ncol rows cap s =
     (case do_step E st s of
        (rc, s1) \<Rightarrow>
          if rc \<noteq> SQLITE_ROW then Some (Ended rc rows cap, s1)
          else
            (case do_alloc E (alloc_cells ncol) s1 of
               (ok, s2) \<Rightarrow>
                 if \<not> ok then Some (NoMem, do_finalize E st (free_rows cap s2))
                 else
                   (case decode_row E st ncol s2 of
                      (row, s3) \<Rightarrow>
                        (case grow_rows E (length rows) cap (do_free s3) of
                           (g, s4) \<Rightarrow>
                             if g = None then Some (NoMem, do_finalize E st (free_rows cap s4))
                             else
                               (case put_row rows (the g) row of
                                  None \<Rightarrow> Some (Overrun, s4)
                                | Some rows1 \<Rightarrow> query_loop E st ncol rows1 (the g) s4)))))"

text \<open>\<open>query_nif\<close> in the same two parts as \<open>exec_nif\<close>.\<close>

definition query_checked :: "'w env \<Rightarrow> nat \<Rightarrow> eterm \<Rightarrow> eterm \<Rightarrow> 'w nif \<Rightarrow> (nifres \<times> 'w nif) option" where
  "query_checked E r sqlt params s =
     (case inspect_binary sqlt of
        None \<Rightarrow> Some (Badarg, s)
      | Some sql \<Rightarrow>
          (case do_prepare E (conn_db r s) sql (c_int (length sql)) s of
             ((rc, st), s1) \<Rightarrow>
               if rc \<noteq> SQLITE_OK then
                 (case make_sqlite_error E (conn_db r s1) rc s1 of (err, s2) \<Rightarrow> Some (Term err, s2))
               else
                 (case bind_params E (conn_db r s1) st params s1 of
                    (Some err, s2) \<Rightarrow> Some (Term err, do_finalize E st s2)
                  | (None, s2) \<Rightarrow>
                      (case do_count E st s2 of
                         (ncol, s3) \<Rightarrow>
                           (case do_alloc E (alloc_cells ncol) s3 of
                              (False, s4) \<Rightarrow> Some (Badarg, do_finalize E st s4)
                            | (True, s4) \<Rightarrow>
                                (case column_names E st ncol s4 of
                                   (cols, s5) \<Rightarrow>
                                     (case query_loop E st ncol [] 0 (do_free s5) of
                                        None \<Rightarrow> None
                                      | Some (NoMem, s6) \<Rightarrow> Some (Badarg, s6)
                                      | Some (Overrun, s6) \<Rightarrow> Some (Undefined, s6)
                                      | Some (Ended rc2 rows cap, s6) \<Rightarrow>
                                          if rc2 \<noteq> SQLITE_DONE then
                                            (case make_sqlite_error E (conn_db r s6) rc2 s6 of
                                               (err, s7) \<Rightarrow>
                                                 Some (Term err, do_finalize E st (free_rows cap s7)))
                                          else
                                            Some (Term (TupT [Atom ''ok'', cols,
                                                    list_from_array rows (c_unsigned (length rows))]),
                                                  do_finalize E st (free_rows cap s6)))))))))"

definition query_nif :: "'w env \<Rightarrow> eterm \<Rightarrow> eterm \<Rightarrow> eterm \<Rightarrow> 'w nif \<Rightarrow> (nifres \<times> 'w nif) option" where
  "query_nif E conn sqlt params s =
     (case get_conn conn s of
        None \<Rightarrow> Some (err_closed, s)
      | Some r \<Rightarrow> query_checked E r sqlt params s)"

definition libversion_nif :: "'w env \<Rightarrow> nifres" where
  "libversion_nif E = Term (make_binary (sq_libversion E) (length (sq_libversion E)))"

text \<open>
  The state after \<open>load\<close>: no connection, nothing called; \<open>None\<close> (a load error) when the
  resource type cannot be opened.
\<close>

definition init_nif :: "'w \<Rightarrow> 'w nif" where
  "init_nif w = \<lparr>conns = Map.empty, next_res = 0, world = w, trace = []\<rparr>"

definition load :: "bool \<Rightarrow> 'w \<Rightarrow> 'w nif option" where
  "load res_type_ok w =
     (if \<not> res_type_ok then None
      else Some (init_nif w))"

text \<open>The dispatch table \<open>nif_funcs\<close>, and the collection of a resource by the BEAM.\<close>

datatype nif_call =
    NifOpen eterm
  | NifClose eterm
  | NifExec eterm eterm eterm
  | NifQuery eterm eterm eterm
  | NifLibversion
  | GcResource nat

fun nif_funcs :: "'w env \<Rightarrow> nif_call \<Rightarrow> 'w nif \<Rightarrow> (nifres \<times> 'w nif) option" where
  "nif_funcs E (NifOpen p) s = Some (open_nif E p s)"
| "nif_funcs E (NifClose c) s = Some (close_nif E c s)"
| "nif_funcs E (NifExec c q ps) s = exec_nif E c q ps s"
| "nif_funcs E (NifQuery c q ps) s = query_nif E c q ps s"
| "nif_funcs E NifLibversion s = Some (libversion_nif E, s)"
| "nif_funcs E (GcResource r) s =
     Some (Term (Atom ''ok''), (conn_dtor E r s)\<lparr>conns := (conns (conn_dtor E r s))(r := None)\<rparr>)"

fun nif_run :: "'w env \<Rightarrow> nif_call list \<Rightarrow> 'w nif \<Rightarrow> 'w nif option" where
  "nif_run E [] s = Some s"
| "nif_run E (c # cs) s =
     (case nif_funcs E c s of None \<Rightarrow> None | Some (_, s1) \<Rightarrow> nif_run E cs s1)"

end
