(* ===== verification/Nif_Props.thy ===== *)
theory Nif_Props
  imports Nif_Bridge
begin

text \<open>
  Lemmas about the native bridge. A locale states what a relation between two bridge
  states must satisfy for each library call; inside it the relation is lifted through
  binding, the two stepping loops and the exported functions, once. It is interpreted on
  the protocol monitor (statements and blocks) and on the frame (the connection table).
\<close>

section \<open>The call protocol as a monitor\<close>

text \<open>
  The monitor's state: the statement prepared and not yet finalized, if any; the number of
  allocated blocks; and for each connection handle how often it was opened and not yet
  closed. \<open>None\<close> is a violation: a bind, step, finalize or read (column count, name or
  value) of anything but the open statement; a second prepare or a close while one is open;
  a prepare, changes, busy\_timeout or error query on a handle that is NULL or not open; a
  close of a handle that is not open; a statement left behind by a failed prepare; or a free
  with nothing allocated.
\<close>

type_synonym mon = "nat option option \<times> nat"
type_synonym handles = "nat \<Rightarrow> nat"

definition in_use :: "handles \<Rightarrow> nat option \<Rightarrow> bool" where
  "in_use H d = (case d of None \<Rightarrow> False | Some h \<Rightarrow> 0 < H h)"

definition opened :: "nat option \<Rightarrow> handles \<Rightarrow> handles" where
  "opened d H = (case d of None \<Rightarrow> H | Some h \<Rightarrow> H(h := Suc (H h)))"

definition dropped :: "nat option \<Rightarrow> handles \<Rightarrow> handles" where
  "dropped d H = (case d of None \<Rightarrow> H | Some h \<Rightarrow> H(h := H h - 1))"

fun mon_step :: "mon \<times> handles \<Rightarrow> call \<Rightarrow> (mon \<times> handles) option" where
  "mon_step ((a, b), H) (COpen rc d) = (if a = None then Some ((a, b), opened d H) else None)"
| "mon_step ((a, b), H) (CClose d) =
     (if a = None \<and> (d = None \<or> in_use H d) then Some ((a, b), dropped d H) else None)"
| "mon_step ((a, b), H) (CTimeout d ms) = (if a = None \<and> in_use H d then Some ((a, b), H) else None)"
| "mon_step ((a, b), H) (CPrepare d rc st) =
     (if a \<noteq> None \<or> \<not> in_use H d then None
      else if rc = SQLITE_OK then Some ((Some st, b), H)
      else if st = None then Some ((None, b), H) else None)"
| "mon_step ((a, b), H) (CBind st i v) = (if a = Some st then Some ((a, b), H) else None)"
| "mon_step ((a, b), H) (CStep st rc) = (if a = Some st then Some ((a, b), H) else None)"
| "mon_step ((a, b), H) (CCount st) = (if a = Some st then Some ((a, b), H) else None)"
| "mon_step ((a, b), H) (CName st i) = (if a = Some st then Some ((a, b), H) else None)"
| "mon_step ((a, b), H) (CColumn st i t) = (if a = Some st then Some ((a, b), H) else None)"
| "mon_step ((a, b), H) (CFinalize st) = (if a = Some st then Some ((None, b), H) else None)"
| "mon_step ((a, b), H) (CChanges d) = (if in_use H d then Some ((a, b), H) else None)"
| "mon_step ((a, b), H) (CErr h) = (if 0 < H h then Some ((a, b), H) else None)"
| "mon_step ((a, b), H) CAlloc = Some ((a, Suc b), H)"
| "mon_step ((a, b), H) CFree = (if b = 0 then None else Some ((a, b - 1), H))"

fun mon_run :: "mon \<times> handles \<Rightarrow> call list \<Rightarrow> (mon \<times> handles) option" where
  "mon_run m [] = Some m"
| "mon_run m (c # cs) = (case mon_step m c of None \<Rightarrow> None | Some m1 \<Rightarrow> mon_run m1 cs)"

lemma mon_run_append:
  "mon_run m (xs @ ys) = (case mon_run m xs of None \<Rightarrow> None | Some m1 \<Rightarrow> mon_run m1 ys)"
  by (induction xs arbitrary: m) (auto split: option.splits)

text \<open>The row loop holds one block, the array, once its capacity is not 0.\<close>

definition blk :: "nat \<Rightarrow> nat" where
  "blk cap = (if cap = 0 then 0 else 1)"

fun query_exit :: "nat option \<Rightarrow> nat \<Rightarrow> loop_exit \<Rightarrow> mon" where
  "query_exit st b NoMem = (None, b)"
| "query_exit st b Overrun = (Some st, b)"
| "query_exit st b (Ended rc rows cap) = (Some st, b + blk cap)"

lemma logc_conns [simp]: "conns (logc c s) = conns s"
  by (simp add: logc_def)

lemma grow_rows_room: "grow_rows E n cap s = (Some c, s1) \<Longrightarrow> n \<le> cap \<Longrightarrow> Suc n \<le> c"
  by (auto simp: grow_rows_def Let_def split: if_splits prod.splits bool.splits)

section \<open>Relations kept by every library call\<close>

text \<open>
  \<open>U h\<close>: handle \<open>h\<close> may be used. A call on a connection is made with the \<open>db\<close> pointer the
  resource holds at that moment, so the lifted lemmas ask that the resource holds a usable one.
\<close>

locale call_relation =
  fixes R :: "mon \<Rightarrow> 'w nif \<Rightarrow> 'w nif \<Rightarrow> mon \<Rightarrow> bool" and E :: "'w env" and U :: "nat \<Rightarrow> bool"
  assumes R_refl: "R m s s m"
    and R_trans: "R m s s1 m1 \<Longrightarrow> R m1 s1 s2 m2 \<Longrightarrow> R m s s2 m2"
    and R_conns: "R m s s1 m1 \<Longrightarrow> conns s1 = conns s"
    and R_world: "R m s (s\<lparr>world := w\<rparr>) m"
    and R_block: "R (a, b) s (logc CAlloc (s\<lparr>world := w\<rparr>)) (a, Suc b)"
    and R_free: "R (a, Suc b) s (do_free s) (a, b)"
    and R_prepare: "U h \<Longrightarrow> do_prepare E (Some h) sql n s = ((rc, st), s1) \<Longrightarrow>
      R (None, b) s s1 (if rc = SQLITE_OK then Some st else None, b)"
    and R_bind: "do_bind E st i v s = (rc, s1) \<Longrightarrow> R (Some st, b) s s1 (Some st, b)"
    and R_step: "do_step E st s = (rc, s1) \<Longrightarrow> R (Some st, b) s s1 (Some st, b)"
    and R_count: "do_count E st s = (k, s1) \<Longrightarrow> R (Some st, b) s s1 (Some st, b)"
    and R_name: "do_name E st j s = (t, s1) \<Longrightarrow> R (Some st, b) s s1 (Some st, b)"
    and R_column: "do_column E st j s = (t, s1) \<Longrightarrow> R (Some st, b) s s1 (Some st, b)"
    and R_finalize: "R (Some st, b) s (do_finalize E st s) (None, b)"
    and R_changes: "U h \<Longrightarrow> do_changes E (Some h) s = (k, s1) \<Longrightarrow> R m s s1 m"
    and R_err: "U h \<Longrightarrow> R m s (logc (CErr h) s) m"
begin

lemma R_conn_db: "R m s s1 m1 \<Longrightarrow> conn_db r s1 = conn_db r s"
  by (simp add: conn_db_def R_conns)

lemma R_alloc: "do_alloc E n s = (ok, s1) \<Longrightarrow> R (a, b) s s1 (a, if ok then Suc b else b)"
  unfolding do_alloc_def by (auto split: prod.splits intro: R_world R_block)

lemma R_then_free: "R m s s1 (a, Suc b) \<Longrightarrow> R m s (do_free s1) (a, b)"
  by (erule R_trans, rule R_free)

lemma R_then_finalize: "R m s s1 (Some st, b) \<Longrightarrow> R m s (do_finalize E st s1) (None, b)"
  by (erule R_trans, rule R_finalize)

lemma R_free_rows: "R (a, b + blk cap) s (free_rows cap s) (a, b)"
  using R_free [of a b s] by (simp add: free_rows_def blk_def R_refl)

lemma R_then_free_finalize:
  "R m s s1 (Some st, b + blk cap) \<Longrightarrow> R m s (do_finalize E st (free_rows cap s1)) (None, b)"
  by (rule R_then_finalize) (erule R_trans, rule R_free_rows)

lemma R_error:
  "make_sqlite_error E (Some h) rc s = (t, s1) \<Longrightarrow> U h \<Longrightarrow> R m s s1 m"
  by (auto simp: make_sqlite_error_def intro: R_err)

lemma R_then_error:
  "R m s s1 m1 \<Longrightarrow> make_sqlite_error E (Some h) rc s1 = (t, s2) \<Longrightarrow> U h \<Longrightarrow> R m s s2 m1"
  by (erule R_trans) (rule R_error)

lemma R_for_columns:
  assumes step: "\<And>i s t s1. f i s = (t, s1) \<Longrightarrow> R m s s1 m"
  shows "for_columns f is s = (ts, s1) \<Longrightarrow> R m s s1 m"
proof (induction "is" arbitrary: s ts)
  case (Cons i "is")
  then show ?case by (auto split: prod.splits intro: R_trans step)
qed (simp add: R_refl)

lemma R_names: "column_names E st n s = (t, s1) \<Longrightarrow> R (Some st, b) s s1 (Some st, b)"
  unfolding column_names_def by (auto split: prod.splits intro: R_for_columns [OF R_name])

lemma R_row: "decode_row E st n s = (t, s1) \<Longrightarrow> R (Some st, b) s s1 (Some st, b)"
  unfolding decode_row_def by (auto split: prod.splits intro: R_for_columns [OF R_column])

lemma R_grow_rows:
  assumes "grow_rows E n cap s = (g, s1)"
  shows "R (a, b + blk cap) s s1 (a, b + blk (case g of None \<Rightarrow> cap | Some c \<Rightarrow> c))"
  using assms unfolding grow_rows_def blk_def Let_def
  by (auto split: if_splits prod.splits bool.splits intro: R_refl R_world R_block)

lemma R_bind_one:
  "bind_one E (Some h) st i t s = (e, s1) \<Longrightarrow> U h \<Longrightarrow> R (Some st, b) s s1 (Some st, b)"
  unfolding bind_one_def
  by (auto split: option.splits prod.splits if_splits intro: R_refl dest: R_bind R_error [rotated] intro: R_then_error [OF R_bind])

lemma R_bind_loop:
  "bind_loop E (Some h) st ts i s = (e, s1) \<Longrightarrow> U h \<Longrightarrow> R (Some st, b) s s1 (Some st, b)"
proof (induction ts arbitrary: i s)
  case (ConsT x t)
  obtain e0 s0 where b1: "bind_one E (Some h) st i x s = (e0, s0)" by fastforce
  have a: "R (Some st, b) s s0 (Some st, b)" by (rule R_bind_one [OF b1 ConsT.prems(2)])
  show ?case
  proof (cases e0)
    case None
    with ConsT.prems b1 have "bind_loop E (Some h) st t (i + 1) s0 = (e, s1)" by simp
    then have "R (Some st, b) s0 s1 (Some st, b)" using ConsT.prems(2) by (rule ConsT.IH)
    with a show ?thesis by (rule R_trans)
  qed (use ConsT.prems b1 a in auto)
qed (auto intro: R_refl)

lemma R_bind_params:
  "bind_params E (Some h) st ts s = (e, s1) \<Longrightarrow> U h \<Longrightarrow> R (Some st, b) s s1 (Some st, b)"
  unfolding bind_params_def by (auto split: if_splits intro: R_refl dest: R_bind_loop)

lemma R_exec_loop:
  assumes "exec_loop E st s = Some (rc, s1)"
  shows "R (Some st, b) s s1 (Some st, b)"
proof -
  let ?P = "\<lambda>E' st s r. E' = E \<longrightarrow> (case r of (rc, s1) \<Rightarrow> R (Some st, b) s s1 (Some st, b))"
  have "?P E st s r" if "exec_loop E st s = Some r" for r
  proof (rule exec_loop.raw_induct [where P = ?P, OF _ that], rule impI)
    fix f :: "'w env \<Rightarrow> nat option \<Rightarrow> 'w nif \<Rightarrow> (int \<times> 'w nif) option" and E' st s r
    assume IH: "\<And>E' st s r. f E' st s = Some r \<Longrightarrow> ?P E' st s r"
      and eq: "(case do_step E' st s of (rc, s1) \<Rightarrow> if rc = SQLITE_ROW then f E' st s1 else Some (rc, s1)) = Some r"
      and E': "E' = E"
    obtain rc0 s0 where st0: "do_step E st s = (rc0, s0)" by fastforce
    have a: "R (Some st, b) s s0 (Some st, b)" by (rule R_step [OF st0])
    show "case r of (rc, s1) \<Rightarrow> R (Some st, b) s s1 (Some st, b)"
      using eq st0 a IH [of E st s0 r] E' by (auto split: if_splits intro: R_trans)
  qed
  with assms show ?thesis by fastforce
qed

text \<open>One round of the row loop that goes on: the relation, and room for the next row.\<close>

lemma R_round:
  assumes st1: "do_step E st s = (rc, a1)" and al: "do_alloc E (alloc_cells ncol) a1 = (True, a2)"
    and ro: "decode_row E st ncol a2 = (row, a3)"
    and gr: "grow_rows E n cap (do_free a3) = (g, a4)"
  shows "R (Some st, b + blk cap) s a4 (Some st, b + blk (case g of None \<Rightarrow> cap | Some c \<Rightarrow> c))"
proof -
  have "R (Some st, b + blk cap) s a3 (Some st, Suc (b + blk cap))"
    by (rule R_trans [OF R_trans [OF R_step [OF st1]] R_row [OF ro]])
      (use R_alloc [OF al, of "Some st" "b + blk cap"] in simp)
  from R_trans [OF R_then_free [OF this] R_grow_rows [OF gr]] show ?thesis .
qed

lemma R_query_loop:
  assumes "query_loop E st ncol rows cap s = Some (q, s1)" and "length rows \<le> cap"
  shows "q \<noteq> Overrun \<and> R (Some st, b + blk cap) s s1 (query_exit st b q)"
proof -
  let ?P = "\<lambda>E' st ncol rows cap s r. E' = E \<longrightarrow> length rows \<le> cap \<longrightarrow>
    (case r of (q, s1) \<Rightarrow> q \<noteq> Overrun \<and> R (Some st, b + blk cap) s s1 (query_exit st b q))"
  have "?P E st ncol rows cap s r" if "query_loop E st ncol rows cap s = Some r" for r
  proof (rule query_loop.raw_induct [where P = ?P, OF _ that], intro impI)
    fix f :: "'w env \<Rightarrow> nat option \<Rightarrow> int \<Rightarrow> eterm list \<Rightarrow> nat \<Rightarrow> 'w nif \<Rightarrow> (loop_exit \<times> 'w nif) option"
      and E' st ncol rows cap s r
    assume IH: "\<And>E' st ncol rows cap s r. f E' st ncol rows cap s = Some r \<Longrightarrow> ?P E' st ncol rows cap s r"
      and eq: "(case do_step E' st s of
        (rc, s1) \<Rightarrow>
          if rc \<noteq> SQLITE_ROW then Some (Ended rc rows cap, s1)
          else
            (case do_alloc E' (alloc_cells ncol) s1 of
               (ok, s2) \<Rightarrow>
                 if \<not> ok then Some (NoMem, do_finalize E' st (free_rows cap s2))
                 else
                   (case decode_row E' st ncol s2 of
                      (row, s3) \<Rightarrow>
                        (case grow_rows E' (length rows) cap (do_free s3) of
                           (g, s4) \<Rightarrow>
                             if g = None then Some (NoMem, do_finalize E' st (free_rows cap s4))
                             else
                               (case put_row rows (the g) row of
                                  None \<Rightarrow> Some (Overrun, s4)
                                | Some rows1 \<Rightarrow> f E' st ncol rows1 (the g) s4))))) = Some r"
      and E': "E' = E" and le: "length rows \<le> cap"
    obtain rc a1 where st1: "do_step E st s = (rc, a1)" by fastforce
    obtain ok a2 where al: "do_alloc E (alloc_cells ncol) a1 = (ok, a2)" by fastforce
    obtain row a3 where ro: "decode_row E st ncol a2 = (row, a3)" by fastforce
    obtain g a4 where gr: "grow_rows E (length rows) cap (do_free a3) = (g, a4)" by fastforce
    have t1: "R (Some st, b + blk cap) s a1 (Some st, b + blk cap)" by (rule R_step [OF st1])
    have t2: "R (Some st, b + blk cap) s a2 (Some st, if ok then Suc (b + blk cap) else b + blk cap)"
      by (rule R_trans [OF t1 R_alloc [OF al]])
    have t3: "R (Some st, b + blk cap) s a4 (Some st, b + blk (case g of None \<Rightarrow> cap | Some c \<Rightarrow> c))" if ok
      using R_round [OF st1 _ ro gr] al that by simp
    show "case r of (q, s1) \<Rightarrow> q \<noteq> Overrun \<and> R (Some st, b + blk cap) s s1 (query_exit st b q)"
    proof (cases "rc = SQLITE_ROW \<and> ok \<and> g \<noteq> None")
      case True
      then obtain c where c: "g = Some c" by auto
      have room: "length rows < c" using grow_rows_room [of E "length rows" cap "do_free a3" c a4] gr c le by simp
      with True c eq st1 al ro gr E'
      have "f E st ncol (rows @ [row]) c a4 = Some r" by (simp add: put_row_def)
      from IH [OF this] room t3 True c show ?thesis by (auto intro: R_trans)
    next
      case False
      with eq st1 al ro gr t1 t2 t3 E' show ?thesis
        by (auto split: if_splits intro: R_then_free_finalize)
    qed
  qed
  with assms show ?thesis by fastforce
qed

lemma R_exec_checked:
  assumes ex: "exec_checked E r sqlt params s = Some (res, s1)"
    and d: "conn_db r s = Some h" and U: "U h"
  shows "R (None, b) s s1 (None, b)"
proof (cases "inspect_binary sqlt")
  case None
  with ex show ?thesis by (simp add: exec_checked_def R_refl)
next
  case (Some sql)
  obtain rc st a1 where pr: "do_prepare E (Some h) sql (c_int (length sql)) s = ((rc, st), a1)" by (metis surj_pair)
  have t1: "R (None, b) s a1 (if rc = SQLITE_OK then Some st else None, b)" by (rule R_prepare [OF U pr])
  have d1: "conn_db r a1 = Some h" using R_conn_db [OF t1] d by simp
  obtain e a2 where bi: "bind_params E (Some h) st params a1 = (e, a2)" by fastforce
  have t2: "R (None, b) s a2 (Some st, b)" if "rc = SQLITE_OK"
    using R_trans [OF t1] R_bind_params [OF bi U] that by auto
  have t3: "R (None, b) s a3 (Some st, b) \<and> conn_db r a3 = Some h"
    if "rc = SQLITE_OK" and "exec_loop E st a2 = Some (rc2, a3)" for rc2 a3
    using R_trans [OF t2 [OF that(1)] R_exec_loop [OF that(2)]] d R_conn_db by metis
  have t4: "R (None, b) s (do_finalize E st a3) (None, b) \<and> conn_db r (do_finalize E st a3) = Some h"
    if "rc = SQLITE_OK" and "exec_loop E st a2 = Some (rc2, a3)" for rc2 a3
    using R_then_finalize [of "(None, b)" s a3 st b] t3 [OF that] d R_conn_db by metis
  show ?thesis
    using ex Some d pr d1 bi t1 t2 t3 t4 U unfolding exec_checked_def Let_def
    by (auto split: option.splits prod.splits if_splits
        intro: R_then_finalize R_then_error R_then_finalize [OF R_then_error] R_trans [OF _ R_changes])
qed

lemma R_query_checked:
  assumes q: "query_checked E r sqlt ps s = Some (res, s1)"
    and d: "conn_db r s = Some h" and U: "U h"
  shows "R (None, b) s s1 (None, b)"
proof (cases "inspect_binary sqlt")
  case None
  with q show ?thesis by (simp add: query_checked_def R_refl)
next
  case (Some sql)
  obtain rc st a1 where pr: "do_prepare E (Some h) sql (c_int (length sql)) s = ((rc, st), a1)" by (metis surj_pair)
  have t1: "R (None, b) s a1 (if rc = SQLITE_OK then Some st else None, b)" by (rule R_prepare [OF U pr])
  have d1: "conn_db r a1 = Some h" using R_conn_db [OF t1] d by simp
  obtain e a2 where bi: "bind_params E (Some h) st ps a1 = (e, a2)" by fastforce
  obtain ncol a3 where co: "do_count E st a2 = (ncol, a3)" by fastforce
  obtain ok a4 where al: "do_alloc E (alloc_cells ncol) a3 = (ok, a4)" by fastforce
  obtain cols a5 where na: "column_names E st ncol a4 = (cols, a5)" by fastforce
  have t2: "R (None, b) s a2 (Some st, b)" if "rc = SQLITE_OK"
    using R_trans [OF t1] R_bind_params [OF bi U] that by auto
  have t4: "R (None, b) s a4 (Some st, if ok then Suc b else b)" if "rc = SQLITE_OK"
    by (rule R_trans [OF R_trans [OF t2 [OF that] R_count [OF co]] R_alloc [OF al]])
  have t5: "R (None, b) s (do_free a5) (Some st, b + blk 0)" if "rc = SQLITE_OK" and ok
    using R_then_free [OF R_trans [OF _ R_names [OF na]]] t4 [OF that(1)] that(2) by (simp add: blk_def)
  have t6: "x \<noteq> Overrun \<and> R (None, b) s a6 (query_exit st b x) \<and> conn_db r a6 = Some h"
    if "rc = SQLITE_OK" and ok and "query_loop E st ncol [] 0 (do_free a5) = Some (x, a6)" for x a6
    using R_query_loop [OF that(3), of b] R_trans [OF t5 [OF that(1,2)]] d R_conn_db by fastforce
  show ?thesis
    using q Some d pr d1 bi co al na t1 t2 t4 t6 U unfolding query_checked_def
    by (auto split: option.splits prod.splits if_splits bool.splits loop_exit.splits
        intro: R_then_finalize R_then_error R_then_free_finalize R_then_free_finalize [OF R_then_error])
qed

definition usable_term :: "eterm \<Rightarrow> 'w nif \<Rightarrow> bool" where
  "usable_term c s \<longleftrightarrow> (\<forall>r h. get_conn c s = Some r \<longrightarrow> conn_db r s = Some h \<longrightarrow> U h)"

lemma get_conn_db: "get_conn c s = Some r \<Longrightarrow> \<exists>h. conn_db r s = Some h"
  by (auto simp: get_conn_def conn_db_def split: eterm.splits option.splits if_splits)

lemma R_exec_nif: "exec_nif E c q ps s = Some (r, s1) \<Longrightarrow> usable_term c s \<Longrightarrow> R (None, b) s s1 (None, b)"
  using get_conn_db [of c s] unfolding exec_nif_def usable_term_def
  by (auto split: option.splits intro: R_refl dest: R_exec_checked)

lemma R_query_nif: "query_nif E c q ps s = Some (r, s1) \<Longrightarrow> usable_term c s \<Longrightarrow> R (None, b) s s1 (None, b)"
  using get_conn_db [of c s] unfolding query_nif_def usable_term_def
  by (auto split: option.splits intro: R_refl dest: R_query_checked)

end

section \<open>The monitor accepts every call\<close>

text \<open>\<open>acc m s s' m'\<close>: the calls made between \<open>s\<close> and \<open>s'\<close> take the monitor from \<open>m\<close> to \<open>m'\<close>.\<close>

definition acc :: "mon \<times> handles \<Rightarrow> 'w nif \<Rightarrow> 'w nif \<Rightarrow> mon \<times> handles \<Rightarrow> bool" where
  "acc m s s' m' \<longleftrightarrow> (\<exists>tr. trace s' = trace s @ tr \<and> mon_run m tr = Some m')"

lemma acc_trans: "acc m s s1 m1 \<Longrightarrow> acc m1 s1 s2 m2 \<Longrightarrow> acc m s s2 m2"
  unfolding acc_def by (auto simp: mon_run_append)

lemma acc_same_trace: "trace s' = trace s \<Longrightarrow> acc m s s' m"
  unfolding acc_def by (rule exI [of _ "[]"]) simp

lemma acc_logc: "trace s1 = trace s \<Longrightarrow> mon_step m c = Some m' \<Longrightarrow> acc m s (logc c s1) m'"
  unfolding acc_def logc_def by (rule exI [of _ "[c]"]) simp

lemma acc_conns [simp]: "acc m s (s1\<lparr>conns := f, next_res := k\<rparr>) m' = acc m s s1 m'"
  "acc m s (s1\<lparr>conns := f\<rparr>) m' = acc m s s1 m'"
  "acc m s (s1\<lparr>world := w\<rparr>) m' = acc m s s1 m'"
  "acc m s (s1\<lparr>world := w, conns := f, next_res := k\<rparr>) m' = acc m s s1 m'"
  by (simp_all add: acc_def)

text \<open>
  The documented behaviour of sqlite3\_prepare\_v2 (on an error \<open>*ppStmt\<close> is NULL) and of
  sqlite3\_open\_v2 (on success the handle is not NULL).
\<close>

definition prepare_error_null :: "'w env \<Rightarrow> bool" where
  "prepare_error_null E \<longleftrightarrow>
     (\<forall>d sql n w rc st w'. sq_prepare_v2 E d sql n w = ((rc, st), w') \<longrightarrow> rc \<noteq> SQLITE_OK \<longrightarrow> st = None)"

definition open_ok_handle :: "'w env \<Rightarrow> bool" where
  "open_ok_handle E \<longleftrightarrow>
     (\<forall>p w d w'. sq_open_v2 E p w = ((SQLITE_OK, d), w') \<longrightarrow> d \<noteq> None)"

lemma acc_prepare:
  assumes "do_prepare E d sql n s = ((rc, st), s1)" and "prepare_error_null E" and "in_use H d"
  shows "acc ((None, b), H) s s1 ((if rc = SQLITE_OK then Some st else None, b), H)"
  using assms unfolding do_prepare_def prepare_error_null_def
  by (auto split: prod.splits intro!: acc_logc) blast

definition protocol_rel :: "'w env \<Rightarrow> handles \<Rightarrow> mon \<Rightarrow> 'w nif \<Rightarrow> 'w nif \<Rightarrow> mon \<Rightarrow> bool" where
  "protocol_rel E H m s s' m' \<longleftrightarrow> conns s' = conns s \<and>
     (prepare_error_null E \<longrightarrow> acc (m, H) s s' (m', H))"

interpretation protocol: call_relation "protocol_rel E H" E "\<lambda>h. 0 < H h" for E :: "'w env" and H
proof unfold_locales
  fix m s s1 m1 s2 m2
  show "protocol_rel E H m s s1 m1 \<Longrightarrow> protocol_rel E H m1 s1 s2 m2 \<Longrightarrow> protocol_rel E H m s s2 m2"
    unfolding protocol_rel_def by (auto intro: acc_trans)
next
  fix h sql n s rc st s1 b
  assume "0 < H h" and pr: "do_prepare E (Some h) sql n s = ((rc, st), s1)"
  then have "in_use H (Some h)" by (simp add: in_use_def)
  with acc_prepare [OF pr] show "protocol_rel E H (None, b) s s1 (if rc = SQLITE_OK then Some st else None, b)"
    using pr unfolding protocol_rel_def by (auto simp: do_prepare_def logc_def split: prod.splits)
qed (auto simp: protocol_rel_def do_free_def do_bind_def do_step_def do_finalize_def do_changes_def
    do_count_def do_name_def do_column_def Let_def in_use_def
    split: prod.splits intro: acc_same_trace acc_logc)

section \<open>The frame: what a statement does not touch\<close>

fun opens :: "nat \<Rightarrow> call \<Rightarrow> bool" where
  "opens d (COpen rc h) = (h = Some d)"
| "opens d _ = False"

definition n_opened :: "nat \<Rightarrow> call list \<Rightarrow> nat" where
  "n_opened d tr = length (filter (opens d) tr)"

definition n_closed :: "nat \<Rightarrow> call list \<Rightarrow> nat" where
  "n_closed d tr = count_list tr (CClose (Some d))"

lemma n_opened_snoc [simp]: "n_opened d (tr @ [c]) = n_opened d tr + (if opens d c then 1 else 0)"
  by (simp add: n_opened_def)

lemma n_closed_snoc [simp]: "n_closed d (tr @ [c]) = n_closed d tr + (if c = CClose (Some d) then 1 else 0)"
  by (auto simp: n_closed_def)

definition frame_rel :: "mon \<Rightarrow> 'w nif \<Rightarrow> 'w nif \<Rightarrow> mon \<Rightarrow> bool" where
  "frame_rel m s s' m' \<longleftrightarrow> conns s' = conns s \<and> next_res s' = next_res s \<and>
     (\<forall>d. n_opened d (trace s') = n_opened d (trace s) \<and> n_closed d (trace s') = n_closed d (trace s))"

interpretation frame: call_relation frame_rel E "\<lambda>h. True" for E :: "'w env"
  by unfold_locales (auto simp: frame_rel_def call_defs do_name_def do_column_def Let_def split: prod.splits)

lemma frame_exec_nif: "exec_nif E c q ps s = Some (r, s1) \<Longrightarrow> frame_rel (None, 0) s s1 (None, 0)"
  by (rule frame.R_exec_nif) (simp_all add: frame.usable_term_def)

lemma frame_query_nif: "query_nif E c q ps s = Some (r, s1) \<Longrightarrow> frame_rel (None, 0) s s1 (None, 0)"
  by (rule frame.R_query_nif) (simp_all add: frame.usable_term_def)

section \<open>The balance of handles\<close>

definition live :: "'w nif \<Rightarrow> nat \<Rightarrow> nat set" where
  "live s d = {r. \<exists>c. conns s r = Some c \<and> \<not> closed c \<and> db c = Some d}"

definition handle_inv :: "'w nif \<Rightarrow> bool" where
  "handle_inv s \<longleftrightarrow> finite (dom (conns s)) \<and> (\<forall>r \<ge> next_res s. conns s r = None) \<and>
     (\<forall>d. n_closed d (trace s) + card (live s d) = n_opened d (trace s))"

lemma finite_live: "finite (dom (conns s)) \<Longrightarrow> finite (live s d)"
  by (rule finite_subset [of _ "dom (conns s)"]) (auto simp: live_def)

lemma handle_inv_frame: "frame_rel m s s' m' \<Longrightarrow> handle_inv s \<Longrightarrow> handle_inv s'"
  by (simp add: frame_rel_def handle_inv_def live_def)

text \<open>Marking a connection closed, with the close of its handle in the trace, keeps the balance.\<close>

lemma handle_inv_close:
  assumes inv: "handle_inv s" and r: "conns s r = Some c" "\<not> closed c" "db c = Some d0"
    and s1: "conns s1 = (conns s)(r \<mapsto> new)" "next_res s1 = next_res s"
      "trace s1 = trace s @ [CClose (Some d0)]" and c1: "closed new"
  shows "handle_inv s1"
proof -
  have fin: "finite (dom (conns s))" using inv by (simp add: handle_inv_def)
  have bal: "n_closed d (trace s) + card (live s d) = n_opened d (trace s)" for d
    using inv by (simp add: handle_inv_def)
  have fresh: "\<forall>k \<ge> next_res s. conns s k = None" using inv by (simp add: handle_inv_def)
  have live1: "live s1 d = (if d = d0 then live s d - {r} else live s d)" for d
    using r c1 by (auto simp: live_def s1(1))
  have "r \<in> live s d0" using r by (simp add: live_def)
  then have card1: "card (live s d0) = Suc (card (live s d0 - {r}))"
    by (rule card.remove [OF finite_live [OF fin]])
  have "n_closed d (trace s1) + card (live s1 d) = n_opened d (trace s1)" for d
  proof (cases "d = d0")
    case True
    have "n_closed d0 (trace s1) = Suc (n_closed d0 (trace s))" "n_opened d0 (trace s1) = n_opened d0 (trace s)"
      "card (live s1 d0) = card (live s d0 - {r})"
      by (simp_all add: s1(3) live1 del: card_Diff_insert)
    with bal [of d0] card1 show ?thesis unfolding True by linarith
  next
    case False
    with bal [of d] show ?thesis by (simp add: s1(3) live1)
  qed
  moreover have "r < next_res s" using fresh r(1) by (metis leI option.distinct(1))
  ultimately show ?thesis using fin fresh s1(1,2) by (simp add: handle_inv_def)
qed

lemma close_nif_effect:
  "conns (close_mark r (close_call E r s)) = (conns s)(r \<mapsto> \<lparr>db = None, closed = True\<rparr>)"
  "next_res (close_mark r (close_call E r s)) = next_res s"
  "trace (close_mark r (close_call E r s)) = trace s @ [CClose (conn_db r s)]"
  by (simp_all add: close_mark_def close_call_def do_close_def logc_def)

lemma handle_inv_mark_closed:
  assumes "handle_inv s" and "conns s r = Some c" "\<not> closed c" "db c \<noteq> None"
  shows "handle_inv (close_mark r (close_call E r s))"
proof -
  from assms(4) obtain d where d: "db c = Some d" by auto
  show ?thesis
    by (rule handle_inv_close [OF assms(1-3) d, where new = "\<lparr>db = None, closed = True\<rparr>"])
      (simp_all add: close_nif_effect conn_db_def assms(2) d)
qed

lemma handle_inv_dtor: "handle_inv s \<Longrightarrow> handle_inv (conn_dtor E r s)"
  by (simp add: conn_dtor_def handle_inv_mark_closed del: not_None_eq split: option.splits)

lemma handle_inv_gc:
  assumes inv: "handle_inv s"
  shows "handle_inv ((conn_dtor E r s)\<lparr>conns := (conns (conn_dtor E r s))(r := None)\<rparr>)"
proof -
  let ?t = "conn_dtor E r s"
  have "live (?t\<lparr>conns := (conns ?t)(r := None)\<rparr>) d = live ?t d" for d
    by (auto simp: live_def conn_dtor_def close_nif_effect split: option.splits if_splits)
  with handle_inv_dtor [OF inv, of E r] show ?thesis by (auto simp: handle_inv_def)
qed

lemma handle_inv_close_nif: "close_nif E t s = (res, s1) \<Longrightarrow> handle_inv s \<Longrightarrow> handle_inv s1"
  unfolding close_nif_def
  by (auto simp del: not_None_eq split: eterm.splits option.splits if_splits intro: handle_inv_mark_closed)

lemma open_nif_effect:
  assumes op: "open_nif E t s = (res, s1)"
  shows "(conns s1 = conns s \<and> next_res s1 = next_res s \<and>
      (\<forall>d. n_closed d (trace s1) + n_opened d (trace s) = n_opened d (trace s1) + n_closed d (trace s))) \<or>
    (\<exists>h. conns s1 = (conns s)(next_res s \<mapsto> \<lparr>db = h, closed = False\<rparr>) \<and>
      next_res s1 = Suc (next_res s) \<and> (\<forall>d. n_closed d (trace s1) = n_closed d (trace s)) \<and>
      (\<forall>d. n_opened d (trace s1) = n_opened d (trace s) + (if h = Some d then 1 else 0)))"
proof (cases "inspect_binary t")
  case None
  with op show ?thesis by (simp add: open_nif_def)
next
  case (Some path)
  obtain ok a1 where al: "do_alloc E (length path + 1) s = (ok, a1)" by fastforce
  obtain rc d a2 where op2: "do_open E (path @ [0]) a1 = ((rc, d), a2)" by (metis surj_pair)
  define a3 where "a3 = do_free a2"
  define a4 where "a4 = do_timeout E d RIDGE_SQLITE_BUSY_TIMEOUT_MS a3"
  obtain ok2 w where re: "enif_alloc E RES_SIZE (world a4) = (ok2, w)" by fastforce
  have t1: "frame_rel m s a1 m" for m
    using al by (auto simp: frame_rel_def do_alloc_def logc_def split: prod.splits if_splits)
  have t3: "conns a3 = conns a1" "next_res a3 = next_res a1"
    "n_closed h (trace a3) = n_closed h (trace a1)"
    "n_opened h (trace a3) = n_opened h (trace a1) + (if d = Some h then 1 else 0)" for h
    using op2 by (auto simp: a3_def do_free_def do_open_def logc_def split: prod.splits)
  obtain err ae where me: "make_sqlite_error E d rc a3 = (err, ae)" by fastforce
  have te: "frame_rel m a3 ae m" for m
    using me by (auto simp: make_sqlite_error_def frame_rel_def logc_def split: option.splits)
  have t4: "frame_rel m a3 a4 m" for m
    by (auto simp: a4_def frame_rel_def do_timeout_def logc_def)
  have cl: "conns (do_close E d x) = conns x" "next_res (do_close E d x) = next_res x"
    "n_closed h (trace (do_close E d x)) = n_closed h (trace x) + (if d = Some h then 1 else 0)"
    "n_opened h (trace (do_close E d x)) = n_opened h (trace x)" for x h
    by (auto simp: do_close_def logc_def)
  consider "\<not> ok" "s1 = a1" | "ok" "rc \<noteq> SQLITE_OK" "s1 = do_close E d ae"
    | "ok" "rc = SQLITE_OK" "\<not> ok2" "s1 = do_close E d (a4\<lparr>world := w\<rparr>)"
    | "ok" "rc = SQLITE_OK" "ok2" "s1 = a4\<lparr>world := w,
        conns := (conns a4)(next_res a4 \<mapsto> \<lparr>db = d, closed = False\<rparr>), next_res := Suc (next_res a4)\<rparr>"
    using op Some al op2 re me unfolding open_nif_def Let_def a3_def [symmetric] a4_def [symmetric]
    by (auto simp: a3_def [symmetric] a4_def [symmetric] split: if_splits bool.splits)
  then show ?thesis
    using t1 t3 te t4 cl by cases (auto simp: frame_rel_def)
qed

lemma handle_inv_open_nif:
  assumes op: "open_nif E t s = (res, s1)" and inv: "handle_inv s"
  shows "handle_inv s1"
proof -
  have fin: "finite (dom (conns s))" and fresh: "\<forall>k \<ge> next_res s. conns s k = None"
    using inv by (simp_all add: handle_inv_def)
  have nolive: "next_res s \<notin> live s d" for d using fresh by (auto simp: live_def)
  consider (same) "conns s1 = conns s" "next_res s1 = next_res s"
      "\<forall>d. n_closed d (trace s1) + n_opened d (trace s) = n_opened d (trace s1) + n_closed d (trace s)"
    | (new) h where "conns s1 = (conns s)(next_res s \<mapsto> \<lparr>db = h, closed = False\<rparr>)"
      "next_res s1 = Suc (next_res s)" "\<forall>d. n_closed d (trace s1) = n_closed d (trace s)"
      "\<forall>d. n_opened d (trace s1) = n_opened d (trace s) + (if h = Some d then 1 else 0)"
    using open_nif_effect [OF op] by blast
  then show ?thesis
  proof cases
    case same
    then have l: "live s1 d = live s d" for d by (simp add: live_def)
    have "n_closed d (trace s1) + card (live s1 d) = n_opened d (trace s1)" for d
    proof -
      have "n_closed d (trace s1) + n_opened d (trace s) = n_opened d (trace s1) + n_closed d (trace s)"
        using same(3) by blast
      moreover have "n_closed d (trace s) + card (live s d) = n_opened d (trace s)"
        using inv by (simp add: handle_inv_def)
      ultimately show ?thesis unfolding l by linarith
    qed
    with same(1,2) fin fresh show ?thesis by (auto simp: handle_inv_def)
  next
    case (new h)
    have l: "live s1 d = (if h = Some d then insert (next_res s) (live s d) else live s d)" for d
      using new(1) nolive by (auto simp: live_def split: if_splits)
    have "n_closed d (trace s1) + card (live s1 d) = n_opened d (trace s1)" for d
      using l [of d] new(3,4) inv finite_live [OF fin, of d] nolive [of d] by (auto simp: handle_inv_def)
    with new(1,2) fin fresh show ?thesis by (auto simp: handle_inv_def)
  qed
qed

lemma handle_inv_nif_funcs [preserve]:
  assumes "nif_funcs E c s = Some (r, s1)" and "handle_inv s"
  shows "handle_inv s1"
  using assms
  by (cases c) (auto intro: handle_inv_open_nif handle_inv_close_nif handle_inv_gc
      handle_inv_frame dest!: frame_exec_nif frame_query_nif)

lemma handle_inv_run [preserve]: "nif_run E cs s = Some s1 \<Longrightarrow> handle_inv s \<Longrightarrow> handle_inv s1"
proof (induction cs arbitrary: s)
  case (Cons c cs)
  then obtain r a where "nif_funcs E c s = Some (r, a)" "nif_run E cs a = Some s1"
    by (auto split: option.splits)
  with Cons show ?case by (blast intro: preserve)
qed simp

lemma handle_inv_init: "handle_inv (init_nif w)"
  by (simp add: handle_inv_def init_nif_def live_def n_opened_def n_closed_def)

section \<open>The monitor accepts every run\<close>

text \<open>The handles in use are those of the live connections.\<close>

definition live_count :: "'w nif \<Rightarrow> handles" where
  "live_count s = (\<lambda>d. card (live s d))"

lemma live_count_cong: "conns s1 = conns s \<Longrightarrow> live_count s1 = live_count s"
  by (simp add: live_count_def live_def)

lemma live_count_pos:
  assumes inv: "handle_inv s" and r: "conns s r = Some c" "\<not> closed c" "db c = Some h"
  shows "0 < live_count s h"
proof -
  have "finite (live s h)" using inv by (simp add: handle_inv_def finite_live)
  moreover have "r \<in> live s h" using r by (simp add: live_def)
  ultimately show ?thesis by (auto simp: live_count_def card_gt_0_iff)
qed

lemma live_count_opened:
  assumes inv: "handle_inv s" and c: "conns s1 = (conns s)(next_res s \<mapsto> \<lparr>db = Some h, closed = False\<rparr>)"
  shows "live_count s1 = opened (Some h) (live_count s)"
proof
  fix d
  have fresh: "next_res s \<notin> live s d" using inv by (auto simp: handle_inv_def live_def)
  have fin: "finite (live s d)" using inv by (simp add: handle_inv_def finite_live)
  have "live s1 d = (if h = d then insert (next_res s) (live s d) else live s d)"
    using fresh by (auto simp: live_def c)
  then show "live_count s1 d = opened (Some h) (live_count s) d"
    using fresh fin by (cases "h = d") (simp_all add: live_count_def opened_def)
qed

lemma live_count_closed:
  assumes inv: "handle_inv s" and r: "conns s r = Some c" "\<not> closed c" "db c = Some h"
    and s1: "conns s1 = (conns s)(r \<mapsto> new)" and new: "closed new"
  shows "live_count s1 = dropped (Some h) (live_count s)"
proof
  fix d
  have fin: "finite (live s d)" using inv by (simp add: handle_inv_def finite_live)
  have "live s1 d = (if d = h then live s d - {r} else live s d)"
    using r new by (auto simp: live_def s1)
  moreover have "r \<in> live s h" using r by (simp add: live_def)
  ultimately show "live_count s1 d = dropped (Some h) (live_count s) d"
    using fin by (simp add: live_count_def dropped_def)
qed

lemma dropped_opened [simp]: "dropped d (opened d H) = H"
  by (auto simp: dropped_def opened_def split: option.splits)

lemma in_use_opened: "d \<noteq> None \<Longrightarrow> in_use (opened d H) d"
  by (auto simp: in_use_def opened_def)

lemma acc_open_nif:
  assumes op: "open_nif E arg s = (r, s1)" and E: "open_ok_handle E"
  shows "(conns s1 = conns s \<and> acc ((None, b), H) s s1 ((None, b), H)) \<or>
    (\<exists>h. conns s1 = (conns s)(next_res s \<mapsto> \<lparr>db = Some h, closed = False\<rparr>) \<and>
      acc ((None, b), H) s s1 ((None, b), opened (Some h) H))"
proof (cases "inspect_binary arg")
  case None
  with op show ?thesis by (simp add: open_nif_def acc_same_trace)
next
  case (Some path)
  obtain ok a1 where al: "do_alloc E (length path + 1) s = (ok, a1)" by fastforce
  obtain rc d a2 where op2: "do_open E (path @ [0]) a1 = ((rc, d), a2)" by (metis surj_pair)
  define a3 where "a3 = do_free a2"
  define a4 where "a4 = do_timeout E d RIDGE_SQLITE_BUSY_TIMEOUT_MS a3"
  obtain ok2 w where re: "enif_alloc E RES_SIZE (world a4) = (ok2, w)" by fastforce
  obtain err ae where me: "make_sqlite_error E d rc a3 = (err, ae)" by fastforce
  have co: "conns a1 = conns s" "next_res a1 = next_res s" "conns a3 = conns s" "next_res a3 = next_res s"
    "conns a4 = conns s" "next_res a4 = next_res s" "conns ae = conns s"
    "conns (do_close E d x) = conns x" for x
    using al op2 me by (auto simp: a3_def a4_def call_defs make_sqlite_error_def
        split: prod.splits if_splits option.splits)
  have "\<exists>w'. sq_open_v2 E (path @ [0]) (world a1) = ((rc, d), w')"
    using op2 by (auto simp: do_open_def split: prod.splits)
  then have d: "d \<noteq> None" if "rc = SQLITE_OK"
    using E that unfolding open_ok_handle_def by blast
  have t1: "acc ((None, b), H) s a1 ((None, if ok then Suc b else b), H)"
    using al unfolding do_alloc_def by (auto split: prod.splits intro!: acc_logc acc_same_trace)
  have "acc ((None, Suc b), H) a1 a2 ((None, Suc b), opened d H)"
    using op2 unfolding do_open_def by (auto split: prod.splits intro: acc_logc)
  moreover have "acc ((None, Suc b), opened d H) a2 a3 ((None, b), opened d H)"
    unfolding do_free_def a3_def by (auto intro: acc_logc)
  ultimately have t3: "acc ((None, b), H) s a3 ((None, b), opened d H)" if ok
    using t1 that by (auto intro: acc_trans)
  have "acc ((None, b), opened d H) a3 ae ((None, b), opened d H)"
    using me by (auto simp: make_sqlite_error_def opened_def split: option.splits intro: acc_logc acc_same_trace)
  with t3 have te: "acc ((None, b), H) s ae ((None, b), opened d H)" if ok
    using that by (blast intro: acc_trans)
  have "acc ((None, b), opened d H) a3 a4 ((None, b), opened d H)" if "rc = SQLITE_OK"
    unfolding do_timeout_def a4_def using d [OF that] by (auto simp: in_use_opened intro: acc_logc)
  with t3 have t4: "acc ((None, b), H) s a4 ((None, b), opened d H)" if ok "rc = SQLITE_OK"
    using that by (blast intro: acc_trans)
  have cl: "acc ((None, b), opened d H) x (do_close E d x) ((None, b), H)" for x
    unfolding do_close_def by (cases d) (auto simp: in_use_opened opened_def dropped_def in_use_def intro: acc_logc)
  consider "\<not> ok" "s1 = a1" | "ok" "rc \<noteq> SQLITE_OK" "s1 = do_close E d ae"
    | "ok" "rc = SQLITE_OK" "\<not> ok2" "s1 = do_close E d (a4\<lparr>world := w\<rparr>)"
    | "ok" "rc = SQLITE_OK" "ok2" "s1 = a4\<lparr>world := w,
        conns := (conns a4)(next_res a4 \<mapsto> \<lparr>db = d, closed = False\<rparr>), next_res := Suc (next_res a4)\<rparr>"
    using op Some al op2 re me unfolding open_nif_def Let_def a3_def [symmetric] a4_def [symmetric]
    by (auto simp: a3_def [symmetric] a4_def [symmetric] split: if_splits bool.splits)
  then show ?thesis
  proof cases
    case 2
    then show ?thesis using co acc_trans [OF te cl] by simp
  next
    case 3
    then show ?thesis using co acc_trans [of _ s "a4\<lparr>world := w\<rparr>", OF _ cl] t4 by simp
  next
    case 4
    then show ?thesis using co t4 d by auto
  qed (use co t1 in auto)
qed

lemma acc_close_nif:
  assumes inv: "handle_inv s" and r: "conns s r = Some c" "\<not> closed c" "db c \<noteq> None"
  shows "acc ((None, b), live_count s) s (close_mark r (close_call E r s))
    ((None, b), live_count (close_mark r (close_call E r s)))" (is "acc _ _ ?s1 _")
proof -
  obtain h where h: "db c = Some h" using r(3) by auto
  have "trace ?s1 = trace s @ [CClose (Some h)]" by (simp add: close_nif_effect conn_db_def r(1) h)
  moreover have "live_count ?s1 = dropped (Some h) (live_count s)"
    by (rule live_count_closed [OF inv r(1,2) h, where new = "\<lparr>db = None, closed = True\<rparr>"])
      (simp_all add: close_nif_effect)
  moreover have "in_use (live_count s) (Some h)"
    using live_count_pos [OF inv r(1,2) h] by (simp add: in_use_def)
  ultimately show ?thesis by (simp add: acc_def)
qed

lemma live_count_gc:
  "live_count ((conn_dtor E r s)\<lparr>conns := (conns (conn_dtor E r s))(r := None)\<rparr>) = live_count (conn_dtor E r s)"
  by (rule ext) (auto simp: live_count_def live_def conn_dtor_def close_nif_effect
      split: option.splits if_splits intro!: arg_cong [where f = card])

lemma usable_live: "handle_inv s \<Longrightarrow> protocol.usable_term (live_count s) c s"
  by (auto simp: protocol.usable_term_def get_conn_def conn_db_def
      split: eterm.splits option.splits if_splits intro: live_count_pos)

lemma acc_nif_funcs:
  assumes f: "nif_funcs E c s = Some (r, s1)" and p: "prepare_error_null E" "open_ok_handle E"
    and inv: "handle_inv s"
  shows "acc ((None, b), live_count s) s s1 ((None, b), live_count s1)"
proof (cases c)
  case (NifOpen x)
  with f have "open_nif E x s = (r, s1)" by simp
  from acc_open_nif [OF this p(2), of b "live_count s"] show ?thesis
    using live_count_cong [of s1 s] live_count_opened [OF inv, of s1] by auto
next
  case (NifClose x)
  with f inv show ?thesis
    by (auto simp: close_nif_def simp del: not_None_eq split: eterm.splits option.splits if_splits
        intro: acc_close_nif acc_same_trace)
next
  case (GcResource x)
  with f have s1: "s1 = (conn_dtor E x s)\<lparr>conns := (conns (conn_dtor E x s))(x := None)\<rparr>" by simp
  have "acc ((None, b), live_count s) s (conn_dtor E x s) ((None, b), live_count (conn_dtor E x s))"
    using inv by (auto simp: conn_dtor_def simp del: not_None_eq split: option.splits intro: acc_close_nif acc_same_trace)
  then show ?thesis unfolding s1 live_count_gc by simp
next
  case (NifExec x y z)
  with f p protocol.R_exec_nif [OF _ usable_live [OF inv], of E x y z r s1 b] show ?thesis
    using live_count_cong [of s1 s] by (simp add: protocol_rel_def)
next
  case (NifQuery x y z)
  with f p protocol.R_query_nif [OF _ usable_live [OF inv], of E x y z r s1 b] show ?thesis
    using live_count_cong [of s1 s] by (simp add: protocol_rel_def)
qed (use f in \<open>auto intro: acc_same_trace\<close>)

lemma acc_nif_run:
  "nif_run E cs s = Some s1 \<Longrightarrow> prepare_error_null E \<Longrightarrow> open_ok_handle E \<Longrightarrow> handle_inv s \<Longrightarrow>
   acc ((None, b), live_count s) s s1 ((None, b), live_count s1)"
proof (induction cs arbitrary: s)
  case (Cons c cs)
  then obtain r a where a: "nif_funcs E c s = Some (r, a)" and rest: "nif_run E cs a = Some s1"
    by (auto split: option.splits)
  from acc_nif_funcs [OF a Cons.prems(2-4)]
    Cons.IH [OF rest Cons.prems(2,3) handle_inv_nif_funcs [OF a Cons.prems(4)]]
  show ?case by (rule acc_trans)
qed (simp add: acc_same_trace)

end
