(* ===== verification/Nif_Contract.thy ===== *)
theory Nif_Contract
  imports Nif_Props
begin

text \<open>
  The contract of the native bridge: what a sequence of exported calls guarantees to the
  Erlang side and to SQLite. \<open>demo_env\<close> is a small concrete SQLite, used by the witnesses.
\<close>

section \<open>A concrete environment\<close>

text \<open>
  The world counts the rows left; an open gives handle 1, a prepare gives statement 7 and
  two rows to step through, whose single column is the number of rows left.
\<close>

definition demo_env :: "nat env" where
  "demo_env = \<lparr>
     enif_alloc = (\<lambda>n w. (True, w)),
     sq_open_v2 = (\<lambda>p w. ((0, Some 1), w)),
     sq_close_v2 = (\<lambda>d w. w),
     sq_busy_timeout = (\<lambda>d ms w. w),
     sq_prepare_v2 = (\<lambda>d q n w. if d = None then ((21, None), w) else if q = [] then ((1, None), w) else ((0, Some 7), 2)),
     sq_bind = (\<lambda>st i v w. (0, w)),
     sq_step = (\<lambda>st w. if w = 0 then (101, 0) else (100, w - 1)),
     sq_finalize = (\<lambda>st w. w),
     sq_changes = (\<lambda>d w. 0),
     sq_extended_errcode = (\<lambda>d w. 1),
     sq_errmsg = (\<lambda>d w. [101]),
     sq_errstr = (\<lambda>rc. [101]),
     sq_column_count = (\<lambda>st w. 1),
     sq_column_name = (\<lambda>st i w. Some [110]),
     sq_column_type = (\<lambda>st i w. 1),
     sq_column_int64 = (\<lambda>st i w. int w),
     sq_column_double = (\<lambda>st i w. 0),
     sq_column_text = (\<lambda>st i w. []),
     sq_column_blob = (\<lambda>st i w. []),
     sq_column_bytes = (\<lambda>st i w. 0),
     sq_libversion = [51]\<rparr>"

text \<open>Equations of the bridge for evaluating a closed run.\<close>

lemmas nif_eval = demo_env_def init_nif_def open_nif_def close_nif_def exec_nif_def exec_checked_def
  query_nif_def query_checked_def get_conn_def conn_db_def close_mark_def close_call_def
  make_sqlite_error_def column_names_def decode_row_def do_name_def do_column_def put_row_def inspect_binary_def bind_params_def bind_one_def is_list_def
  cell_bval_def get_int64_def call_defs sqlite_consts free_rows_def grow_rows_def
  exec_loop.simps query_loop.simps Let_def

lemma prepare_error_null_demo: "prepare_error_null demo_env"
  by (simp add: prepare_error_null_def demo_env_def SQLITE_OK_def)

lemma open_ok_handle_demo: "open_ok_handle demo_env"
  by (simp add: open_ok_handle_def demo_env_def)

definition demo_calls :: "nif_call list" where
  "demo_calls = [NifOpen (BinT [58]), NifExec (ResT 0) (BinT [66]) (ConsT (TupT [Atom ''int'', IntT 5]) NilT),
     NifQuery (ResT 0) (BinT [67]) NilT, NifClose (ResT 0), NifExec (ResT 0) (BinT [66]) NilT]"

definition demo_state :: "nat nif" where
  "demo_state = the (nif_run demo_env demo_calls (init_nif 0))"

lemma demo_run: "nif_run demo_env demo_calls (init_nif 0) = Some demo_state"
  by (simp add: demo_state_def demo_calls_def nif_eval)

section \<open>Statements, blocks and handles\<close>

text \<open>
  C1: In any sequence of exported calls and collections, a statement is bound, stepped, read
  (column count, names, values) and finalized only while it is the open one, and every
  prepared statement is finalized exactly once; a handle is prepared on, asked for its
  changes or its last error, and closed only while it is open, that is after an open that
  returned it and before its close, and it is not closed while a statement is open; no
  block is freed that was not allocated. At the end no statement is open, no block is
  allocated, and the open handles are those of the live connections. The hypotheses are the
  documented results of sqlite3_prepare_v2 (no statement on an error) and sqlite3_open_v2 (a
  handle on success).
\<close>
theorem nif_protocol:
  assumes "nif_run E cs (init_nif w) = Some s" and "prepare_error_null E" and "open_ok_handle E"
  shows "mon_run ((None, 0), \<lambda>d. 0) (trace s) = Some ((None, 0), live_count s)"
proof -
  have "live_count (init_nif w) = (\<lambda>d. 0)" by (simp add: live_count_def live_def init_nif_def)
  with acc_nif_run [OF assms handle_inv_init, of 0] show ?thesis by (simp add: acc_def init_nif_def)
qed

lemma nif_protocol_witness:
  "nif_run demo_env demo_calls (init_nif 0) = Some demo_state \<and>
   mon_run ((None, 0), \<lambda>d. 0) (trace demo_state) = Some ((None, 0), live_count demo_state)"
  using nif_protocol [OF demo_run prepare_error_null_demo open_ok_handle_demo] demo_run by blast

text \<open>
  C21: In any sequence of exported calls and collections, the number of times
  sqlite3_close_v2 was called on a handle plus the number of live connections that hold
  it equals the number of times sqlite3_open_v2 returned it: no handle is closed twice
  and none is dropped without a close.
\<close>
theorem handles_balance:
  assumes "nif_run E cs (init_nif w) = Some s"
  shows "n_closed d (trace s) + card (live s d) = n_opened d (trace s)"
  using handle_inv_run [OF assms handle_inv_init] by (simp add: handle_inv_def)

lemma handles_balance_witness:
  "n_closed 1 (trace demo_state) + card (live demo_state 1) = n_opened 1 (trace demo_state)"
  by (rule handles_balance [OF demo_run])

section \<open>A closed connection stays closed\<close>

definition is_closed :: "'w nif \<Rightarrow> nat \<Rightarrow> bool" where
  "is_closed s r \<longleftrightarrow> (\<exists>c. conns s r = Some c \<and> (closed c \<or> db c = None))"

lemma is_closed_frame: "frame_rel m s s1 m' \<Longrightarrow> is_closed s r \<Longrightarrow> is_closed s1 r"
  by (simp add: frame_rel_def is_closed_def)

lemma is_closed_nif_funcs:
  assumes c: "nif_funcs E c s = Some (res, s1)" and inv: "handle_inv s" and r: "is_closed s r"
    and gc: "c \<noteq> GcResource r"
  shows "is_closed s1 r"
proof (cases c)
  case (NifOpen x)
  have "r \<noteq> next_res s" using inv r by (auto simp: handle_inv_def is_closed_def)
  with open_nif_effect [of E x s res s1] c r NifOpen show ?thesis by (auto simp: is_closed_def)
next
  case (NifClose x)
  with c r show ?thesis
    by (auto simp: close_nif_def is_closed_def close_nif_effect split: eterm.splits option.splits if_splits)
next
  case (GcResource x)
  with c r gc show ?thesis
    by (auto simp: conn_dtor_def is_closed_def close_nif_effect split: option.splits if_splits)
qed (use c r in \<open>auto dest!: frame_exec_nif frame_query_nif intro: is_closed_frame\<close>)

lemma is_closed_run:
  "nif_run E cs s = Some s1 \<Longrightarrow> handle_inv s \<Longrightarrow> is_closed s r \<Longrightarrow> GcResource r \<notin> set cs \<Longrightarrow> is_closed s1 r"
proof (induction cs arbitrary: s)
  case (Cons c cs)
  then obtain res a where a: "nif_funcs E c s = Some (res, a)" and "nif_run E cs a = Some s1"
    by (auto split: option.splits)
  moreover from a Cons.prems have "is_closed a r" by (auto intro: is_closed_nif_funcs)
  moreover from a Cons.prems have "handle_inv a" by (auto intro: preserve)
  ultimately show ?case using Cons by auto
qed simp

lemma is_closed_answers:
  assumes "is_closed s r"
  shows "exec_nif E (ResT r) q ps s = Some (err_closed, s)"
    and "query_nif E (ResT r) q ps s = Some (err_closed, s)"
    and "close_nif E (ResT r) s = (err_closed, s)"
  using assms by (auto simp: is_closed_def exec_nif_def query_nif_def close_nif_def get_conn_def)

text \<open>
  C19: Once nif_close has answered on a connection, then after any further calls (its
  collection apart) an exec, a query and a second close on it answer {error, closed} and
  change nothing: no library call is made on the handle.
\<close>
theorem closed_connection_stays_closed:
  assumes "nif_run E pre (init_nif w) = Some s0" and "close_nif E (ResT r) s0 = (res, s1)"
    and "res \<noteq> Badarg" and "nif_run E cs s1 = Some s2" and "GcResource r \<notin> set cs"
  shows "exec_nif E (ResT r) q ps s2 = Some (err_closed, s2) \<and>
    query_nif E (ResT r) q ps s2 = Some (err_closed, s2) \<and>
    close_nif E (ResT r) s2 = (err_closed, s2)"
proof -
  have inv0: "handle_inv s0" by (rule handle_inv_run [OF assms(1) handle_inv_init])
  then have "handle_inv s1" by (rule handle_inv_close_nif [OF assms(2)])
  moreover have "is_closed s1 r"
    using assms(2,3) by (auto simp: close_nif_def is_closed_def close_nif_effect split: option.splits if_splits)
  ultimately have "is_closed s2 r" using assms(4,5) by (blast intro: is_closed_run)
  then show ?thesis by (simp add: is_closed_answers)
qed

lemma closed_connection_stays_closed_witness:
  "\<exists>s0 res s1 s2. nif_run demo_env [NifOpen (BinT [58])] (init_nif 0) = Some s0 \<and>
     close_nif demo_env (ResT 0) s0 = (res, s1) \<and> nif_run demo_env [NifLibversion] s1 = Some s2 \<and>
     exec_nif demo_env (ResT 0) (BinT [66]) NilT s2 = Some (err_closed, s2)"
proof -
  obtain s0 where s0: "nif_run demo_env [NifOpen (BinT [58])] (init_nif 0) = Some s0"
    and c0: "conns s0 0 = Some \<lparr>db = Some 1, closed = False\<rparr>"
    by (simp add: nif_eval)
  obtain res s1 where cl: "close_nif demo_env (ResT 0) s0 = (res, s1)" by fastforce
  have "res \<noteq> Badarg" using cl c0 by (auto simp: close_nif_def)
  from closed_connection_stays_closed [OF s0 cl this, of "[NifLibversion]" s1] s0 cl
  show ?thesis by auto
qed

section \<open>Parameters and cells\<close>

text \<open>The parameter list of cells \<open>ts\<close> that ends in \<open>tail\<close> (\<open>NilT\<close> for a proper list).\<close>

definition term_list :: "eterm list \<Rightarrow> eterm \<Rightarrow> eterm" where
  "term_list ts tail = foldr ConsT ts tail"

definition no_cell :: "eterm \<Rightarrow> bool" where
  "no_cell t = (case t of ConsT _ _ \<Rightarrow> False | _ \<Rightarrow> True)"

lemma bind_loop_no_cell: "no_cell t \<Longrightarrow> bind_loop E d st t i s = (None, s)"
  by (cases t) (auto simp: no_cell_def)

lemma bind_loop_trace:
  "bind_loop E d st (term_list ts tail) i s = (None, s1) \<Longrightarrow> no_cell tail \<Longrightarrow>
   \<exists>vs. map cell_bval ts = map Some vs \<and>
        trace s1 = trace s @ map (\<lambda>(k, v). CBind st (i + int k) v) (enumerate 0 vs)"
proof (induction ts arbitrary: i s)
  case Nil
  then show ?case by (simp add: term_list_def bind_loop_no_cell)
next
  case (Cons t ts)
  from Cons.prems obtain v s2 where v: "cell_bval t = Some v"
    and s2: "trace s2 = trace s @ [CBind st i v]"
    and rest: "bind_loop E d st (term_list ts tail) (i + 1) s2 = (None, s1)"
  proof -
    obtain e s2 where b: "bind_one E d st i t s = (e, s2)" by fastforce
    with Cons.prems(1) have e: "e = None" and l: "bind_loop E d st (term_list ts tail) (i + 1) s2 = (None, s1)"
      by (auto simp: term_list_def split: option.splits)
    from b e obtain v where "cell_bval t = Some v" "trace s2 = trace s @ [CBind st i v]"
      by (auto simp: bind_one_def do_bind_def logc_def split: option.splits prod.splits if_splits)
    with l that show ?thesis by blast
  qed
  from Cons.IH [OF rest Cons.prems(2)] obtain vs where vs: "map cell_bval ts = map Some vs"
    and tr: "trace s1 = trace s2 @ map (\<lambda>(k, v). CBind st (i + 1 + int k) v) (enumerate 0 vs)" by blast
  have "enumerate 0 (v # vs) = (0, v) # map (\<lambda>(k, v). (Suc k, v)) (enumerate 0 vs)"
    by (auto simp: enumerate_Suc_eq)
  with vs v s2 tr show ?case
    by (intro exI [of _ "v # vs"]) (simp add: case_prod_beta' algebra_simps comp_def)
qed

text \<open>
  C20: When bind_params succeeds, every element of the parameter list is a valid cell and
  the calls it made are exactly one bind per element, in order, at positions 1, 2, ...
  with the value of that element.
\<close>
theorem bind_params_positions:
  assumes "bind_params E d st (term_list ts tail) s = (None, s1)" and "no_cell tail"
  shows "\<exists>vs. map cell_bval ts = map Some vs \<and>
     trace s1 = trace s @ map (\<lambda>(k, v). CBind st (1 + int k) v) (enumerate 0 vs)"
  using assms bind_loop_trace [of E d st ts tail 1 s s1]
  by (auto simp: bind_params_def split: if_splits)

definition demo_params :: "eterm list" where
  "demo_params = [TupT [Atom ''int'', IntT 5], Atom ''null'', TupT [Atom ''text'', BinT [65, 66]]]"

lemma bind_params_positions_witness:
  "\<exists>s1 vs. bind_params demo_env (Some 1) (Some 7) (term_list demo_params NilT) (init_nif 0) = (None, s1) \<and>
     map cell_bval demo_params = map Some vs \<and>
     trace s1 = map (\<lambda>(k, v). CBind (Some 7) (1 + int k) v) (enumerate 0 vs)"
proof -
  obtain s1 where s1: "bind_params demo_env (Some 1) (Some 7) (term_list demo_params NilT) (init_nif 0) = (None, s1)"
    by (simp add: nif_eval term_list_def demo_params_def)
  from bind_params_positions [OF s1] s1 show ?thesis by (auto simp: no_cell_def init_nif_def)
qed

text \<open>
  What position \<open>k\<close> of a parameter list answers once the positions before it are bound:
  \<open>bound_world\<close> is SQLite after the binds of \<open>ts\<close> from position \<open>i\<close> on.
\<close>

primrec bound_world :: "'w env \<Rightarrow> nat option \<Rightarrow> int \<Rightarrow> eterm list \<Rightarrow> 'w \<Rightarrow> 'w" where
  "bound_world E st i [] w = w"
| "bound_world E st i (t # ts) w = bound_world E st (i + 1) ts
     (case cell_bval t of None \<Rightarrow> w | Some v \<Rightarrow> snd (sq_bind E st i v w))"

definition param_error :: "'w env \<Rightarrow> nat option \<Rightarrow> nat option \<Rightarrow> int \<Rightarrow> eterm \<Rightarrow> 'w \<Rightarrow> eterm option" where
  "param_error E d st i t w =
     (case cell_bval t of
        None \<Rightarrow> Some (make_bad_param t)
      | Some v \<Rightarrow>
          let rc = fst (sq_bind E st i v w) in
          if rc = SQLITE_OK then None
          else Some (sqlite_error_term E d rc (snd (sq_bind E st i v w))))"

definition error_at :: "'w env \<Rightarrow> nat option \<Rightarrow> nat option \<Rightarrow> eterm list \<Rightarrow> 'w \<Rightarrow> nat \<Rightarrow> eterm option" where
  "error_at E d st ts w k = param_error E d st (1 + int k) (ts ! k) (bound_world E st 1 (take k ts) w)"

lemma bind_loop_result:
  assumes "no_cell tail"
  shows "fst (bind_loop E d st (term_list ts tail) i s) =
    (case find (\<lambda>k. param_error E d st (i + int k) (ts ! k) (bound_world E st i (take k ts) (world s)) \<noteq> None)
       [0..<length ts] of
       None \<Rightarrow> None
     | Some k \<Rightarrow> param_error E d st (i + int k) (ts ! k) (bound_world E st i (take k ts) (world s)))"
proof (induction ts arbitrary: i s)
  case Nil
  then show ?case using assms by (simp add: term_list_def bind_loop_no_cell)
next
  case (Cons t ts)
  obtain e s2 where b: "bind_one E d st i t s = (e, s2)" by fastforce
  have e: "e = param_error E d st i t (world s)"
    using b by (auto simp: bind_one_def param_error_def do_bind_def make_sqlite_error_def logc_def Let_def
        split: option.splits prod.splits if_splits)
  have w: "e = None \<Longrightarrow> world s2 = (case cell_bval t of None \<Rightarrow> world s | Some v \<Rightarrow> snd (sq_bind E st i v (world s)))"
    using b by (auto simp: bind_one_def do_bind_def logc_def split: option.splits prod.splits if_splits)
  have up: "[0..<length (t # ts)] = 0 # map Suc [0..<length ts]"
    by (simp add: map_Suc_upt upt_conv_Cons del: upt_Suc)
  have find_Suc: "find P (map Suc ks) = map_option Suc (find (\<lambda>k. P (Suc k)) ks)" for P and ks :: "nat list"
    by (induction ks) auto
  show ?case
  proof (cases e)
    case None
    then have "fst (bind_loop E d st (term_list (t # ts) tail) i s) = fst (bind_loop E d st (term_list ts tail) (i + 1) s2)"
      using b by (simp add: term_list_def)
    with None e w Cons.IH [of "i + 1" s2] show ?thesis
      unfolding up find_Suc find.simps by (simp add: find_Suc add.assoc split: option.splits)
  next
    case (Some err)
    then have p: "param_error E d st i t (world s) = Some err" using e by simp
    show ?thesis using b Some unfolding up by (simp add: term_list_def p)
  qed
qed

text \<open>
  C22: bind_params answers the error of the first position that fails, and success when
  none does. Position k fails with bad_param when its term is not a valid cell, and with
  sqlite_error, carrying SQLite's code and message, when SQLite refuses the bind there after
  accepting those of the earlier positions. A parameter that is not a list at all is itself
  the bad parameter. Nothing is assumed of SQLite.
\<close>
theorem bind_params_result:
  assumes "no_cell tail"
  shows "fst (bind_params E d st (term_list ts tail) s) =
    (if ts = [] \<and> tail \<noteq> NilT then Some (make_bad_param tail)
     else case find (\<lambda>k. error_at E d st ts (world s) k \<noteq> None) [0..<length ts] of
            None \<Rightarrow> None
          | Some k \<Rightarrow> error_at E d st ts (world s) k)"
  using assms bind_loop_result [OF assms, of E d st ts 1 s] unfolding error_at_def
  by (cases ts; cases tail) (auto simp: bind_params_def is_list_def term_list_def no_cell_def)

text \<open>In \<open>strict_env\<close> a bind past position 1 is out of range (SQLITE\_RANGE).\<close>

definition strict_env :: "nat env" where
  "strict_env = demo_env\<lparr>sq_bind := \<lambda>st i v w. (if i \<le> 1 then 0 else 25, w)\<rparr>"

lemma bind_params_result_witness:
  "fst (bind_params strict_env (Some 1) (Some 7)
     (term_list [TupT [Atom ''int'', IntT 5], Atom ''null'', Atom ''x''] NilT) (init_nif 0)) =
   Some (TupT [Atom ''error'', TupT [Atom ''sqlite_error'', IntT 1, BinT [101]]])"
  by (subst bind_params_result)
    (simp_all add: no_cell_def error_at_def param_error_def cell_bval_def get_int64_def strict_env_def
      demo_env_def init_nif_def sqlite_error_term_def make_binary_def SQLITE_OK_def upt_rec)

text \<open>
  What SQLite documents a column to report when it holds the value of a bind: its storage
  class, the value, and for text and blobs the number of bytes.
\<close>

definition column_holds :: "'w env \<Rightarrow> nat option \<Rightarrow> nat \<Rightarrow> 'w \<Rightarrow> bval \<Rightarrow> bool" where
  "column_holds E st col w v =
     (case v of
        BNull \<Rightarrow> sq_column_type E st col w = SQLITE_NULL
      | BInt n \<Rightarrow> sq_column_type E st col w = SQLITE_INTEGER \<and> sq_column_int64 E st col w = n
      | BDouble x \<Rightarrow> sq_column_type E st col w = SQLITE_FLOAT \<and> sq_column_double E st col w = x
      | BText b n \<Rightarrow> sq_column_type E st col w = SQLITE_TEXT \<and> 0 \<le> n \<and>
          sq_column_text E st col w = take (nat n) b \<and> sq_column_bytes E st col w = n
      | BBlob b n \<Rightarrow> sq_column_type E st col w = SQLITE_BLOB \<and> 0 \<le> n \<and>
          sq_column_blob E st col w = take (nat n) b \<and> sq_column_bytes E st col w = n)"

lemma c_int_small: "n < 2 ^ 31 \<Longrightarrow> c_int n = int n"
  by (simp add: c_int_def signed_of_nat signed_take_bit_int_eq_self)

definition cell_payload :: "eterm \<Rightarrow> nat" where
  "cell_payload t = (case t of TupT [tag, BinT b] \<Rightarrow> length b | _ \<Rightarrow> 0)"

text \<open>
  C23: A cell survives the trip: a column that holds the value a cell term was bound to
  decodes to the same term, for every valid cell whose payload is below 2 GiB.
\<close>
theorem cell_roundtrip:
  assumes "cell_bval t = Some v" and "cell_payload t < 2 ^ 31" and "column_holds E st col w v"
  shows "decode_cell E st col w = t"
proof (cases "t = Atom ''null''")
  case True
  with assms show ?thesis by (auto simp: cell_bval_def column_holds_def decode_cell_def sqlite_consts)
next
  case False
  with assms(1) obtain tag x where t: "t = TupT [tag, x]"
    by (auto simp: cell_bval_def split: eterm.splits list.splits)
  have len: "take (nat (int (length b) mod 2 ^ 64)) b = b" if "length b < 2 ^ 31" for b :: "byte list"
    using that by simp
  from assms False show ?thesis
    by (auto simp: t cell_bval_def column_holds_def decode_cell_def sqlite_consts make_binary_def
        get_int64_def get_double_def inspect_binary_def cell_payload_def c_int_small len
        split: if_splits eterm.splits)
qed

lemma cell_roundtrip_witness:
  "decode_cell demo_env (Some 7) 0 5 = TupT [Atom ''int'', IntT 5]"
  by (rule cell_roundtrip [where v = "BInt 5"])
    (simp_all add: cell_bval_def get_int64_def cell_payload_def column_holds_def demo_env_def sqlite_consts)

section \<open>The stepping loops\<close>

text \<open>The world and the return code after the \<open>k\<close>-th further step of a statement.\<close>

definition step_rc :: "'w env \<Rightarrow> nat option \<Rightarrow> 'w \<Rightarrow> nat \<Rightarrow> int" where
  "step_rc E st w k = fst (sq_step E st (((\<lambda>w. snd (sq_step E st w)) ^^ k) w))"

lemma step_rc_Suc: "step_rc E st w (Suc k) = step_rc E st (snd (sq_step E st w)) k"
  by (simp add: step_rc_def funpow_Suc_right del: funpow.simps)

lemma do_step_eq:
  "do_step E st s = (step_rc E st (world s) 0,
     logc (CStep st (step_rc E st (world s) 0)) (s\<lparr>world := snd (sq_step E st (world s))\<rparr>))"
  by (simp add: do_step_def step_rc_def split: prod.splits)

lemma exec_loop_at:
  "(\<forall>j < k. step_rc E st (world s) j = SQLITE_ROW) \<Longrightarrow> step_rc E st (world s) k \<noteq> SQLITE_ROW \<Longrightarrow>
   \<exists>s1. exec_loop E st s = Some (step_rc E st (world s) k, s1)"
proof (induction k arbitrary: s)
  case 0
  then show ?case by (simp add: exec_loop.simps do_step_eq)
next
  case (Suc k)
  let ?s = "logc (CStep st (step_rc E st (world s) 0)) (s\<lparr>world := snd (sq_step E st (world s))\<rparr>)"
  have "step_rc E st (world s) 0 = SQLITE_ROW" using Suc.prems(1) by blast
  moreover have "\<forall>j < k. step_rc E st (world ?s) j = SQLITE_ROW"
    using Suc.prems(1) by (auto simp: logc_def step_rc_Suc [symmetric])
  moreover have "step_rc E st (world ?s) k = step_rc E st (world s) (Suc k)"
    by (simp add: logc_def step_rc_Suc)
  ultimately show ?case using Suc.IH [of ?s] Suc.prems(2)
    by (simp add: exec_loop.simps [of E st s] do_step_eq)
qed

lemma exec_loop_Some_stops:
  assumes "exec_loop E st s = Some (rc, s1)"
  shows "\<exists>k. (\<forall>j < k. step_rc E st (world s) j = SQLITE_ROW) \<and> step_rc E st (world s) k = rc \<and> rc \<noteq> SQLITE_ROW"
proof -
  let ?P = "\<lambda>E st s r. \<exists>k. (\<forall>j < k. step_rc E st (world s) j = SQLITE_ROW) \<and>
    step_rc E st (world s) k = fst r \<and> fst r \<noteq> SQLITE_ROW"
  have "?P E st s (rc, s1)"
  proof (rule exec_loop.raw_induct [where P = ?P, OF _ assms])
    fix f :: "'a env \<Rightarrow> nat option \<Rightarrow> 'a nif \<Rightarrow> (int \<times> 'a nif) option" and E st s r
    assume IH: "\<And>E st s r. f E st s = Some r \<Longrightarrow> ?P E st s r"
      and eq: "(case do_step E st s of (rc, s1) \<Rightarrow> if rc = SQLITE_ROW then f E st s1 else Some (rc, s1)) = Some r"
    show "?P E st s r"
    proof (cases "step_rc E st (world s) 0 = SQLITE_ROW")
      case True
      with eq have "f E st (logc (CStep st SQLITE_ROW) (s\<lparr>world := snd (sq_step E st (world s))\<rparr>)) = Some r"
        by (simp add: do_step_eq)
      from IH [OF this] obtain k where k: "\<forall>j < k. step_rc E st (world s) (Suc j) = SQLITE_ROW"
        "step_rc E st (world s) (Suc k) = fst r" "fst r \<noteq> SQLITE_ROW"
        by (auto simp: logc_def step_rc_Suc)
      with True show ?thesis
        by (intro exI [of _ "Suc k"]) (auto simp: less_Suc_eq_0_disj)
    next
      case False
      with eq show ?thesis by (intro exI [of _ 0]) (auto simp: do_step_eq)
    qed
  qed
  then show ?thesis by simp
qed

text \<open>
  C24: The stepping loop of exec_nif returns if and only if SQLite eventually answers
  something other than SQLITE_ROW, and what it returns is the first such code.
\<close>
theorem exec_loop_returns:
  "(\<exists>s1. exec_loop E st s = Some (rc, s1)) =
   (\<exists>k. (\<forall>j < k. step_rc E st (world s) j = SQLITE_ROW) \<and> step_rc E st (world s) k = rc \<and> rc \<noteq> SQLITE_ROW)"
  using exec_loop_at [of _ E st s] exec_loop_Some_stops [of E st s rc] by blast

theorem exec_loop_returns_witness: "\<exists>s1. exec_loop demo_env (Some 7) (init_nif 2) = Some (101, s1)"
  unfolding exec_loop_returns
  by (rule exI [of _ 2])
    (simp add: demo_env_def init_nif_def step_rc_def SQLITE_ROW_def less_Suc_eq numeral_2_eq_2 all_conj_distrib)



















section \<open>A close between the check and the use\<close>

text \<open>The trace only grows.\<close>

definition grows_rel :: "mon \<Rightarrow> 'w nif \<Rightarrow> 'w nif \<Rightarrow> mon \<Rightarrow> bool" where
  "grows_rel m s s' m' \<longleftrightarrow> conns s' = conns s \<and> (\<exists>tr. trace s' = trace s @ tr)"

interpretation grows: call_relation grows_rel E "\<lambda>h. True" for E :: "'w env"
  by unfold_locales (auto simp: grows_rel_def call_defs do_name_def do_column_def Let_def split: prod.splits)

lemma exec_checked_prepares:
  assumes ex: "exec_checked E r q ps s = Some (res, s')" and q: "inspect_binary q = Some sql"
    and d: "conn_db r s = Some d"
  shows "\<exists>rc st tr. trace s' = trace s @ CPrepare (Some d) rc st # tr"
proof -
  obtain rc st a where pr: "do_prepare E (Some d) sql (c_int (length sql)) s = ((rc, st), a)" by (metis surj_pair)
  then have a: "trace a = trace s @ [CPrepare (Some d) rc st]" "conn_db r a = Some d"
    using d by (auto simp: do_prepare_def logc_def conn_db_def split: prod.splits)
  have tail: "\<exists>tr. trace x = trace a @ tr" if "grows_rel m a x m'" for x m m'
    using that by (simp add: grows_rel_def)
  have "\<exists>tr. trace s' = trace a @ tr"
  proof (cases "rc = SQLITE_OK")
    case False
    with ex q d pr a(2) show ?thesis
      by (auto simp: exec_checked_def make_sqlite_error_def logc_def)
  next
    case True
    obtain e a2 where bi: "bind_params E (Some d) st ps a = (e, a2)" by fastforce
    have "grows_rel (Some st, 0) a a2 (Some st, 0)" by (rule grows.R_bind_params [OF bi]) simp
    then have g2: "conn_db r a2 = Some d" "\<exists>tr. trace a2 = trace a @ tr"
      using a(2) by (auto simp: grows_rel_def conn_db_def)
    have g3: "conn_db r a3 = Some d \<and> (\<exists>tr. trace a3 = trace a @ tr)"
      if "exec_loop E st a2 = Some (rc2, a3)" for rc2 a3
      using grows.R_exec_loop [OF that, of 0] g2 by (auto simp: grows_rel_def conn_db_def)
    show ?thesis
      using ex q d pr True a(2) bi g2 g3
      by (auto simp: exec_checked_def Let_def make_sqlite_error_def do_finalize_def do_changes_def logc_def conn_db_def
          split: option.splits if_splits)
  qed
  with a(1) show ?thesis by auto
qed

text \<open>
  What sqlite3LockAndPrepare does with a NULL connection: it answers SQLITE\_MISUSE and gives
  no statement (sqlite3.c, lines 141696 to 141699).
\<close>

definition SQLITE_MISUSE :: int where "SQLITE_MISUSE = 21"

definition prepare_null_misuse :: "'w env \<Rightarrow> bool" where
  "prepare_null_misuse E \<longleftrightarrow>
     (\<forall>sql n w. fst (sq_prepare_v2 E None sql n w) = (SQLITE_MISUSE, None))"

text \<open>
  C26: get_conn, the calls that follow it and the two steps of a close are not one step.
  From a state with connection r open on handle d, let another scheduler run nif_close on r.
  While it is between sqlite3_close_v2 and the store of NULL, an exec on r passes its check
  and prepares its statement on the handle that has just been closed, and a second nif_close
  closes it again. When the close is complete before an exec that has already passed its
  check reads c->db, the exec prepares on NULL and, as SQLite answers misuse to that, it
  fails cleanly with that code and makes no further call.
\<close>
theorem exec_close_race:
  assumes r: "conns s r = Some c" "\<not> closed c" "db c = Some d" and q: "inspect_binary q = Some sql"
    and during: "exec_nif E (ResT r) q ps (close_call E r s) = Some (res1, s1)"
    and twice: "close_nif E (ResT r) (close_call E r s) = (res2, s2)"
    and after: "exec_checked E r q ps (close_mark r (close_call E r s)) = Some (res3, s3)"
    and misuse: "prepare_null_misuse E"
  shows "(\<exists>rc st tr. trace s1 = trace s @ CClose (Some d) # CPrepare (Some d) rc st # tr) \<and>
    trace s2 = trace s @ [CClose (Some d), CClose (Some d)] \<and>
    trace s3 = trace s @ [CClose (Some d), CPrepare None SQLITE_MISUSE None] \<and>
    res3 = Term (TupT [Atom ''error'', TupT [Atom ''sqlite_error'', IntT SQLITE_MISUSE, BinT (sq_errstr E SQLITE_MISUSE)]])"
proof -
  let ?c = "close_call E r s"
  have c: "conns ?c r = Some c" "conn_db r ?c = Some d" "trace ?c = trace s @ [CClose (Some d)]"
    using r by (simp_all add: close_call_def do_close_def logc_def conn_db_def)
  have "exec_checked E r q ps ?c = Some (res1, s1)"
    using during c r by (simp add: exec_nif_def get_conn_def)
  from exec_checked_prepares [OF this q c(2)] c(3)
  have 1: "\<exists>rc st tr. trace s1 = trace s @ CClose (Some d) # CPrepare (Some d) rc st # tr" by simp
  have 2: "trace s2 = trace s @ [CClose (Some d), CClose (Some d)]"
    using twice c r by (auto simp: close_nif_def close_nif_effect)
  let ?m = "close_mark r ?c"
  have m: "conn_db r ?m = None" "trace ?m = trace s @ [CClose (Some d)]"
    using c(3) by (simp_all add: close_mark_def conn_db_def)
  have "fst (sq_prepare_v2 E None sql (c_int (length sql)) (world ?m)) = (SQLITE_MISUSE, None)"
    using misuse by (simp add: prepare_null_misuse_def)
  then obtain w where pr: "do_prepare E None sql (c_int (length sql)) ?m =
      ((SQLITE_MISUSE, None), logc (CPrepare None SQLITE_MISUSE None) (?m\<lparr>world := w\<rparr>))"
    unfolding do_prepare_def
    by (cases "sq_prepare_v2 E None sql (c_int (length sql)) (world (close_mark r (close_call E r s)))") auto
  have ok: "SQLITE_MISUSE \<noteq> SQLITE_OK" by (simp add: SQLITE_MISUSE_def SQLITE_OK_def)
  have "conn_db r (logc (CPrepare None SQLITE_MISUSE None) (?m\<lparr>world := w\<rparr>)) = None"
    using m(1) by (simp add: logc_def conn_db_def)
  with after q m pr ok 1 2 show ?thesis
    by (auto simp: exec_checked_def make_sqlite_error_def sqlite_error_term_def make_binary_def logc_def)
qed

lemma exec_close_race_witness:
  "\<exists>s s1 s2 s3 res1 res2 res3. conns s 0 = Some \<lparr>db = Some 1, closed = False\<rparr> \<and>
     exec_nif demo_env (ResT 0) (BinT [66]) NilT (close_call demo_env 0 s) = Some (res1, s1) \<and>
     close_nif demo_env (ResT 0) (close_call demo_env 0 s) = (res2, s2) \<and>
     exec_checked demo_env 0 (BinT [66]) NilT (close_mark 0 (close_call demo_env 0 s)) = Some (res3, s3) \<and>
     (\<exists>rc st tr. trace s1 = trace s @ CClose (Some 1) # CPrepare (Some 1) rc st # tr) \<and>
     trace s2 = trace s @ [CClose (Some 1), CClose (Some 1)] \<and>
     trace s3 = trace s @ [CClose (Some 1), CPrepare None SQLITE_MISUSE None]"
proof -
  let ?s = "(init_nif (0::nat))\<lparr>conns := [0 \<mapsto> \<lparr>db = Some 1, closed = False\<rparr>], next_res := 1\<rparr>"
  have g: "conns ?s 0 = Some \<lparr>db = Some 1, closed = False\<rparr>" by simp
  have n: "\<not> closed \<lparr>db = Some 1, closed = False\<rparr>" and d: "db \<lparr>db = Some 1, closed = False\<rparr> = Some (1::nat)" by simp_all
  have b: "inspect_binary (BinT [66]) = Some [66]" by (simp add: inspect_binary_def)
  obtain res1 s1 where e1: "exec_nif demo_env (ResT 0) (BinT [66]) NilT (close_call demo_env 0 ?s) = Some (res1, s1)"
    by (simp add: nif_eval)
  obtain res2 s2 where e2: "close_nif demo_env (ResT 0) (close_call demo_env 0 ?s) = (res2, s2)" by fastforce
  obtain res3 s3 where e3: "exec_checked demo_env 0 (BinT [66]) NilT (close_mark 0 (close_call demo_env 0 ?s)) = Some (res3, s3)"
    by (simp add: nif_eval)
  have m: "prepare_null_misuse demo_env" by (simp add: prepare_null_misuse_def demo_env_def SQLITE_MISUSE_def)
  from exec_close_race [OF g n d b e1 e2 e3 m] g e1 e2 e3 show ?thesis by blast
qed

end
