(* ===== verification/Varint.thy ===== *)
theory Varint
  imports Prelude
begin

text \<open>
  The variable-length integers and the four-byte big-endian integers of sqlite3.c
  (putVarint64, sqlite3PutVarint, sqlite3GetVarint, sqlite3GetVarint32, sqlite3VarintLen,
  sqlite3Get4byte, sqlite3Put4byte): 32-bit arithmetic with the masks of the source. A
  writer takes the memory behind the pointer and returns the number of bytes written with
  the new memory; a reader returns the number of bytes read with the value.
\<close>

section \<open>Writing\<close>

text \<open>The loop of the nine-byte case: \<open>p[i]\<close> for \<open>i\<close> from 7 down to 0.\<close>

fun put9_loop :: "nat \<Rightarrow> u64 \<Rightarrow> mem \<Rightarrow> mem" where
  "put9_loop 0 v p = p"
| "put9_loop (Suc i) v p =
     put9_loop i (drop_bit 7 v) (p(i := ucast (v AND 0x7f) OR 0x80))"

text \<open>The \<open>do ... while (v != 0)\<close> loop: the groups of seven bits, least significant first.\<close>

function put_groups :: "u64 \<Rightarrow> byte list" where
  "put_groups v =
     (ucast (v AND 0x7f) OR 0x80) #
     (if drop_bit 7 v \<noteq> 0 then put_groups (drop_bit 7 v) else [])"
  by pat_completeness auto
termination by (relation "measure unat") (auto intro: unat_drop_bit_less)

declare put_groups.simps [simp del]

text \<open>Copying the groups out in reverse: \<open>p[i] = buf[j]\<close>.\<close>

definition copy_out :: "byte list \<Rightarrow> mem \<Rightarrow> mem" where
  "copy_out bs p = (\<lambda>i. if i < length bs then bs ! i else p i)"

definition putVarint64 :: "mem \<Rightarrow> u64 \<Rightarrow> nat \<times> mem" where
  "putVarint64 p v =
     (if v AND push_bit 32 0xff000000 \<noteq> 0 then
        (9, put9_loop 8 (drop_bit 8 v) (p(8 := ucast v)))
      else
        let buf = put_groups v;
            buf = buf[0 := buf ! 0 AND 0x7f]
        in (length buf, copy_out (rev buf) p))"

definition sqlite3PutVarint :: "mem \<Rightarrow> u64 \<Rightarrow> nat \<times> mem" where
  "sqlite3PutVarint p v =
     (if v \<le> 0x7f then (1, p(0 := ucast (v AND 0x7f)))
      else if v \<le> 0x3fff then
        (2, p(0 := ucast (drop_bit 7 v AND 0x7f) OR 0x80, 1 := ucast (v AND 0x7f)))
      else putVarint64 p v)"

section \<open>Reading\<close>

definition SLOT_2_0 :: u32 where "SLOT_2_0 = 0x001fc07f"
definition SLOT_4_2_0 :: u32 where "SLOT_4_2_0 = 0xf01fc07f"

text \<open>The value built from the high part \<open>s\<close> and the low part \<open>a\<close>.\<close>

definition hi_lo :: "u32 \<Rightarrow> u32 \<Rightarrow> u64" where
  "hi_lo s a = push_bit 32 (ucast s) OR ucast a"

definition sqlite3GetVarint :: "mem \<Rightarrow> nat \<times> u64" where
  "sqlite3GetVarint p =
     (if 0 \<le> sint (p 0) then (1, ucast (p 0))
      else if 0 \<le> sint (p 1) then
        (2, ucast (push_bit 7 (ucast (p 0 AND 0x7f)) OR ucast (p 1) :: u32))
      else
        let a = push_bit 14 (ucast (p 0)) :: u32;
            b = ucast (p 1) :: u32;
            a = a OR ucast (p 2)
        in if a AND 0x80 = 0 then
          (let a = a AND SLOT_2_0; b = b AND 0x7f; b = push_bit 7 b; a = a OR b
           in (3, ucast a))
        else
        let a = a AND SLOT_2_0;
            b = push_bit 14 b;
            b = b OR ucast (p 3)
        in if b AND 0x80 = 0 then
          (let b = b AND SLOT_2_0; a = push_bit 7 a; a = a OR b
           in (4, ucast a))
        else
        let b = b AND SLOT_2_0;
            s = a;
            a = push_bit 14 a;
            a = a OR ucast (p 4)
        in if a AND 0x80 = 0 then
          (let b = push_bit 7 b; a = a OR b; s = drop_bit 18 s
           in (5, hi_lo s a))
        else
        let s = push_bit 7 s;
            s = s OR b;
            b = push_bit 14 b;
            b = b OR ucast (p 5)
        in if b AND 0x80 = 0 then
          (let a = a AND SLOT_2_0; a = push_bit 7 a; a = a OR b; s = drop_bit 18 s
           in (6, hi_lo s a))
        else
        let a = push_bit 14 a;
            a = a OR ucast (p 6)
        in if a AND 0x80 = 0 then
          (let a = a AND SLOT_4_2_0; b = b AND SLOT_2_0; b = push_bit 7 b; a = a OR b;
               s = drop_bit 11 s
           in (7, hi_lo s a))
        else
        let a = a AND SLOT_2_0;
            b = push_bit 14 b;
            b = b OR ucast (p 7)
        in if b AND 0x80 = 0 then
          (let b = b AND SLOT_4_2_0; a = push_bit 7 a; a = a OR b; s = drop_bit 4 s
           in (8, hi_lo s a))
        else
        let a = push_bit 15 a;
            a = a OR ucast (p 8);
            b = b AND SLOT_2_0;
            b = push_bit 8 b;
            a = a OR b;
            s = push_bit 4 s;
            b = ucast (p 4);
            b = b AND 0x7f;
            b = drop_bit 3 b;
            s = s OR b
        in (9, hi_lo s a))"

text \<open>
  \<open>sqlite3GetVarint32\<close>: the single-byte case is handled by the macro getVarint32, as the
  source asserts.
\<close>

definition sqlite3GetVarint32 :: "mem \<Rightarrow> nat \<times> u32" where
  "sqlite3GetVarint32 p =
     (if p 1 AND 0x80 = 0 then
        (2, push_bit 7 (ucast (p 0 AND 0x7f)) OR ucast (p 1))
      else if p 2 AND 0x80 = 0 then
        (3, push_bit 14 (ucast (p 0 AND 0x7f)) OR push_bit 7 (ucast (p 1 AND 0x7f)) OR ucast (p 2))
      else
        (case sqlite3GetVarint p of
           (n, v64) \<Rightarrow>
             if v64 AND 0xffffffff \<noteq> v64 then (n, 0xffffffff) else (n, ucast v64)))"

definition getVarint32 :: "mem \<Rightarrow> nat \<times> u32" where
  "getVarint32 p = (if p 0 < 0x80 then (1, ucast (p 0)) else sqlite3GetVarint32 p)"

text \<open>\<open>for (i=1; (v >>= 7) != 0; i++)\<close>\<close>

function sqlite3VarintLen :: "u64 \<Rightarrow> nat" where
  "sqlite3VarintLen v = (if drop_bit 7 v \<noteq> 0 then Suc (sqlite3VarintLen (drop_bit 7 v)) else 1)"
  by pat_completeness auto
termination by (relation "measure unat") (auto intro: unat_drop_bit_less)

declare sqlite3VarintLen.simps [simp del]

section \<open>Four-byte big-endian integers\<close>

definition sqlite3Get4byte :: "mem \<Rightarrow> u32" where
  "sqlite3Get4byte p =
     push_bit 24 (ucast (p 0)) OR push_bit 16 (ucast (p 1)) OR push_bit 8 (ucast (p 2)) OR ucast (p 3)"

definition sqlite3Put4byte :: "mem \<Rightarrow> u32 \<Rightarrow> mem" where
  "sqlite3Put4byte p v =
     p(0 := ucast (drop_bit 24 v), 1 := ucast (drop_bit 16 v), 2 := ucast (drop_bit 8 v), 3 := ucast v)"

section \<open>The reference reading\<close>

text \<open>Groups of seven bits, most significant first; the ninth byte counts in full.\<close>

function varint_ref :: "nat \<Rightarrow> u64 \<Rightarrow> mem \<Rightarrow> nat \<times> u64" where
  "varint_ref i acc p =
     (if i \<ge> 8 then (Suc i, push_bit 8 acc OR ucast (p i))
      else if p i < 128 then (Suc i, push_bit 7 acc OR ucast (p i))
      else varint_ref (Suc i) (push_bit 7 acc OR ucast (p i AND 127)) p)"
  by pat_completeness auto
termination by (relation "measure (\<lambda>(i, acc, p). 9 - i)") auto

declare varint_ref.simps [simp del]

text \<open>Equality of words bit by bit, over the listed positions.\<close>

lemma upt_64: "[0..<64] =
    [0, 1, 2, 3, 4, 5, 6, 7, 8, 9, 10, 11, 12, 13, 14, 15, 16, 17, 18, 19, 20, 21, 22, 23, 24,
     25, 26, 27, 28, 29, 30, 31, 32, 33, 34, 35, 36, 37, 38, 39, 40, 41, 42, 43, 44, 45, 46,
     47, 48, 49, 50, 51, 52, 53, 54, 55, 56, 57, 58, 59, 60, 61, 62, 63]"
  by (simp add: upt_rec)

lemma upt_32: "[0..<32] =
    [0, 1, 2, 3, 4, 5, 6, 7, 8, 9, 10, 11, 12, 13, 14, 15, 16, 17, 18, 19, 20, 21, 22, 23, 24,
     25, 26, 27, 28, 29, 30, 31]"
  by (simp add: upt_rec)

lemma bits_eq64: "list_all (\<lambda>n. bit (x :: u64) n = bit y n) [0..<64] \<Longrightarrow> x = y"
  by (rule bit_word_eqI) (simp add: list_all_iff)

lemma bits_eq32: "list_all (\<lambda>n. bit (x :: u32) n = bit y n) [0..<32] \<Longrightarrow> x = y"
  by (rule bit_word_eqI) (simp add: list_all_iff)

lemma byte_bit_ge: "8 \<le> n \<Longrightarrow> \<not> bit (b :: byte) n"
  using bit_imp_le_length [of b n] by auto

lemma byte_lt_128: "(b :: byte) < 128 \<longleftrightarrow> \<not> bit b 7"
proof -
  have "bit b 7 = bit (unat b) 7" by (simp add: bit_unsigned_iff)
  also have "\<dots> = odd (unat b div 128)" by (simp add: bit_iff_odd)
  finally have "bit b 7 = odd (unat b div 128)" .
  moreover have "unat b < 256" using unsigned_less [of b] by simp
  ultimately show ?thesis by (auto simp: word_less_nat_alt odd_iff_mod_2_eq_one)
qed

lemma byte_sint_nonneg: "0 \<le> sint (b :: byte) \<longleftrightarrow> \<not> bit b 7"
  by (simp add: sint_uint bit_unsigned_iff)

lemma and_128_u32: "(a :: u32) AND 128 = 0 \<longleftrightarrow> \<not> bit a 7"
  using and_exp_eq_0_iff_not_bit [of a 7] by simp

lemmas varint_bits = upt_64 byte_bit_ge hi_lo_def SLOT_2_0_def SLOT_4_2_0_def bit_simps

lemma varint_ref_stop: "\<not> bit (p i) 7 \<Longrightarrow> i < 8 \<Longrightarrow> varint_ref i acc p = (i + 1, push_bit 7 acc OR ucast (p i))"
  by (simp add: varint_ref.simps byte_lt_128)

lemma varint_ref_go: "bit (p i) 7 \<Longrightarrow> i < 8 \<Longrightarrow>
    varint_ref i acc p = varint_ref (i + 1) (push_bit 7 acc OR ucast (p i AND 127)) p"
  by (simp add: varint_ref.simps [of i acc p] byte_lt_128)

lemma varint_ref_8: "varint_ref 8 acc p = (9, push_bit 8 acc OR ucast (p 8))"
  by (simp add: varint_ref.simps)

lemmas varint_eval = sqlite3GetVarint_def Let_def byte_sint_nonneg and_128_u32 bit_simps
  varint_ref_stop varint_ref_go varint_ref_8

lemma getVarint_eq_ref: "sqlite3GetVarint p = varint_ref 0 0 p"
proof -
  consider "\<not> bit (p 0) 7" | "bit (p 0) 7" "\<not> bit (p 1) 7"
    | "bit (p 0) 7" "bit (p 1) 7" "\<not> bit (p 2) 7"
    | "bit (p 0) 7" "bit (p 1) 7" "bit (p 2) 7" "\<not> bit (p 3) 7"
    | "bit (p 0) 7" "bit (p 1) 7" "bit (p 2) 7" "bit (p 3) 7" "\<not> bit (p 4) 7"
    | "bit (p 0) 7" "bit (p 1) 7" "bit (p 2) 7" "bit (p 3) 7" "bit (p 4) 7" "\<not> bit (p 5) 7"
    | "bit (p 0) 7" "bit (p 1) 7" "bit (p 2) 7" "bit (p 3) 7" "bit (p 4) 7" "bit (p 5) 7" "\<not> bit (p 6) 7"
    | "bit (p 0) 7" "bit (p 1) 7" "bit (p 2) 7" "bit (p 3) 7" "bit (p 4) 7" "bit (p 5) 7" "bit (p 6) 7" "\<not> bit (p 7) 7"
    | "bit (p 0) 7" "bit (p 1) 7" "bit (p 2) 7" "bit (p 3) 7" "bit (p 4) 7" "bit (p 5) 7" "bit (p 6) 7" "bit (p 7) 7"
    by blast
  then show ?thesis
    by cases (simp add: varint_eval del: One_nat_def; rule bits_eq64; simp add: varint_bits)+
qed

end
