(* ===== verification/Varint_Props.thy ===== *)
theory Varint_Props
  imports Varint
begin

text \<open>
  What the varint writer writes, and that the reader reads it back: the round trip, the
  number of bytes, and the frame. Also the four-byte integers.
\<close>

lemma word_bit_ge: "64 \<le> n \<Longrightarrow> \<not> bit (v :: u64) n"
  using bit_imp_le_length [of v n] by auto

section \<open>What is written\<close>

lemma bit_127_int: "bit (127 :: int) n = (n < 7)"
  using bit_mask_iff [where ?'a = int, of 7 n] by (simp add: mask_eq_exp_minus_1)

lemma bit_128_int: "bit (128 :: int) n = (n = 7)"
  using bit_exp_iff [where ?'a = int, of 7 n] by auto

lemmas bit_7 = bit_127_int bit_128_int

lemma length_put_groups: "length (put_groups v) = sqlite3VarintLen v"
proof (induction v rule: put_groups.induct)
  case (1 v)
  then show ?case by (simp add: put_groups.simps [of v] sqlite3VarintLen.simps [of v])
qed

lemma nth_put_groups:
  "j < sqlite3VarintLen v \<Longrightarrow> put_groups v ! j = ucast (drop_bit (7 * j) v AND 0x7f) OR 0x80"
proof (induction v arbitrary: j rule: put_groups.induct)
  case (1 v)
  show ?case
  proof (cases j)
    case 0
    then show ?thesis by (simp add: put_groups.simps [of v])
  next
    case (Suc k)
    with "1.prems" have nz: "drop_bit 7 v \<noteq> 0" and k: "k < sqlite3VarintLen (drop_bit 7 v)"
      by (auto simp: sqlite3VarintLen.simps [of v] split: if_splits)
    from "1.IH" [OF nz k] nz Suc show ?thesis
      by (simp add: put_groups.simps [of v] add.commute)
  qed
qed

lemma VarintLen_pos: "0 < sqlite3VarintLen v"
  by (simp add: sqlite3VarintLen.simps [of v])

lemma VarintLen_drop: "drop_bit (7 * sqlite3VarintLen v) v = 0"
proof (induction v rule: sqlite3VarintLen.induct)
  case (1 v)
  then show ?case by (simp add: sqlite3VarintLen.simps [of v] add.commute)
qed

lemma VarintLen_le: "0 < k \<Longrightarrow> drop_bit (7 * k) v = 0 \<Longrightarrow> sqlite3VarintLen v \<le> k"
proof (induction v arbitrary: k rule: sqlite3VarintLen.induct)
  case (1 v)
  show ?case
  proof (cases "drop_bit 7 v = 0")
    case False
    with "1.prems" obtain k' where k: "k = Suc k'" "0 < k'"
        by (cases k; cases "k - 1") auto
    with "1.prems" have "drop_bit (7 * k') (drop_bit 7 v) = 0" by (simp add: add.commute)
    with "1.IH" [OF False k(2)] False k(1) show ?thesis by (simp add: sqlite3VarintLen.simps [of v])
  qed (use "1.prems" in \<open>simp add: sqlite3VarintLen.simps [of v]\<close>)
qed

lemma VarintLen_gt: "drop_bit (7 * k) v \<noteq> 0 \<Longrightarrow> k < sqlite3VarintLen v"
proof (rule ccontr)
  assume nz: "drop_bit (7 * k) v \<noteq> 0" and "\<not> k < sqlite3VarintLen v"
  then obtain m where "7 * k = 7 * sqlite3VarintLen v + m" by (metis le_add_diff_inverse mult_le_mono2 not_less)
  with nz have "drop_bit m (drop_bit (7 * sqlite3VarintLen v) v) \<noteq> 0" by (simp add: add.commute)
  then show False by (simp add: VarintLen_drop)
qed

lemma top_byte_zero: "(v :: u64) AND push_bit 32 0xff000000 = 0 \<longleftrightarrow> drop_bit 56 v = 0"
proof -
  have "(v AND push_bit 32 0xff000000 = 0) = list_all (\<lambda>n. \<not> bit (v AND push_bit 32 0xff000000) n) [0..<64]"
    by (auto simp: list_all_iff intro: bit_word_eqI)
  also have "\<dots> = list_all (\<lambda>n. \<not> bit (drop_bit 56 v) n) [0..<64]"
    by (simp add: upt_64 bit_simps word_bit_ge)
  also have "\<dots> = (drop_bit 56 v = 0)"
    by (auto simp: list_all_iff intro: bit_word_eqI)
  finally show ?thesis .
qed

lemmas top_byte_zero_eval = top_byte_zero [simplified]

text \<open>The byte that holds the group of \<open>v\<close> above bit \<open>k\<close>, with and without the continuation flag.\<close>

lemma group_flag [simp]: "bit (ucast (drop_bit k (v :: u64) AND 0x7f) OR (0x80 :: byte)) 7"
  by (simp add: bit_7 bit_simps)

lemma group_step:
  "push_bit 7 (drop_bit (k + 7) (v :: u64)) OR ucast ((ucast (drop_bit k v AND 0x7f) OR (0x80 :: byte)) AND 127) = drop_bit k v"
proof (rule bit_word_eqI)
  fix n :: nat assume "n < LENGTH(64)"
  then show "bit (push_bit 7 (drop_bit (k + 7) v) OR ucast ((ucast (drop_bit k v AND 0x7f) OR (0x80 :: byte)) AND 127)) n
      = bit (drop_bit k v) n"
    by (cases "n < 7") (auto simp: bit_7 bit_simps)
qed

lemma last_group_flag [simp]: "\<not> bit ((ucast ((v :: u64) AND 0x7f) OR (0x80 :: byte)) AND 0x7f) 7"
  by (simp add: bit_7 bit_simps)

lemma last_group_step:
  "push_bit 7 (drop_bit 7 (v :: u64)) OR ucast ((ucast (v AND 0x7f) OR (0x80 :: byte)) AND 0x7f) = v"
  using group_step [of 0 v] by simp

lemma nth_put9_loop:
  "put9_loop i w p j = (if j < i then ucast (drop_bit (7 * (i - Suc j)) w AND 0x7f) OR 0x80 else p j)"
proof (induction i arbitrary: w p)
  case (Suc i)
  have "7 * (i - Suc j) + 7 = 7 * (i - j)" if "j < i" using that by auto
  then show ?case by (auto simp: Suc less_Suc_eq)
qed simp

lemma put_short:
  assumes "drop_bit 56 v = 0" and "putVarint64 p v = (n, q)"
  shows "n = sqlite3VarintLen v" and "n \<le> 8"
    and "i < n - 1 \<Longrightarrow> q i = ucast (drop_bit (7 * (n - Suc i)) v AND 0x7f) OR 0x80"
    and "q (n - 1) = (ucast (v AND 0x7f) OR 0x80) AND 0x7f"
    and "n \<le> i \<Longrightarrow> q i = p i"
proof -
  let ?buf = "(put_groups v)[0 := put_groups v ! 0 AND 0x7f]"
  have n: "n = sqlite3VarintLen v" and q: "q = copy_out (rev ?buf) p"
    using assms by (simp_all add: putVarint64_def top_byte_zero_eval Let_def length_put_groups)
  note len = length_put_groups [of v] and pos = VarintLen_pos [of v]
  show "n = sqlite3VarintLen v" by (rule n)
  show "n \<le> 8" unfolding n by (rule VarintLen_le) (use assms(1) in simp_all)
  show "i < n - 1 \<Longrightarrow> q i = ucast (drop_bit (7 * (n - Suc i)) v AND 0x7f) OR 0x80"
    by (auto simp: q copy_out_def n len rev_nth nth_put_groups)
  show "q (n - 1) = (ucast (v AND 0x7f) OR 0x80) AND 0x7f"
    using pos by (simp add: q copy_out_def n len rev_nth nth_put_groups)
  show "n \<le> i \<Longrightarrow> q i = p i" by (simp add: q copy_out_def n len)
qed

lemma read_short:
  assumes "i < n" and "n \<le> 8"
    and "\<And>i. i < n - 1 \<Longrightarrow> q i = ucast (drop_bit (7 * (n - Suc i)) v AND 0x7f) OR 0x80"
    and "q (n - 1) = (ucast (v AND 0x7f) OR 0x80) AND 0x7f"
  shows "varint_ref i (drop_bit (7 * (n - i)) v) q = (n, v)"
  using assms(1)
proof (induction "n - i" arbitrary: i)
  case (Suc k)
  show ?case
  proof (cases "i = n - 1")
    case True
    with Suc.prems have "n - i = 1" and "Suc i = n" by auto
    with True assms(2,4) show ?thesis
      by (simp add: varint_ref_stop last_group_step)
  next
    case False
    with Suc.prems have i: "i < n - 1" by auto
    then have k: "7 * (n - i) = 7 * (n - Suc i) + 7" by auto
    from i assms(2) have "varint_ref i (drop_bit (7 * (n - i)) v) q = varint_ref (Suc i) (drop_bit (7 * (n - Suc i)) v) q"
      by (simp only: k) (simp add: varint_ref_go assms(3) group_step)
    also have "\<dots> = (n, v)" using Suc i by auto
    finally show ?thesis .
  qed
qed simp

lemma read_long:
  assumes "i \<le> 8"
    and "\<And>i. i < 8 \<Longrightarrow> q i = ucast (drop_bit (7 * (8 - Suc i)) (drop_bit 8 v) AND 0x7f) OR 0x80"
    and "q 8 = ucast v"
  shows "varint_ref i (drop_bit (8 + 7 * (8 - i)) v) q = (9, v)"
  using assms(1)
proof (induction "8 - i" arbitrary: i)
  case 0
  have "push_bit 8 (drop_bit 8 v) OR ucast (ucast v :: byte) = v"
    by (rule bit_word_eqI) (auto simp: bit_simps)
  with 0 assms(3) show ?case by (simp add: varint_ref_8)
next
  case (Suc k)
  then have i: "i < 8" and k: "8 + 7 * (8 - i) = 8 + 7 * (8 - Suc i) + 7" by auto
  have "varint_ref i (drop_bit (8 + 7 * (8 - i)) v) q = varint_ref (Suc i) (drop_bit (8 + 7 * (8 - Suc i)) v) q"
    using i group_step [of "8 + 7 * (7 - i)" v] by (simp only: k) (simp add: varint_ref_go assms(2) add.commute)
  also have "\<dots> = (9, v)" using Suc.hyps(1) [of "Suc i"] Suc.hyps(2) i by simp
  finally show ?case .
qed

lemma put_long:
  assumes "drop_bit 56 v \<noteq> 0"
  shows "putVarint64 p v = (9, put9_loop 8 (drop_bit 8 v) (p(8 := ucast v)))"
  using assms by (simp add: putVarint64_def top_byte_zero_eval)

lemma VarintLen_long: "drop_bit 56 v \<noteq> 0 \<Longrightarrow> 9 \<le> sqlite3VarintLen v"
  using VarintLen_gt [of 8 v] by simp

text \<open>The one- and two-byte fast paths write what the general routine writes.\<close>

lemma sqlite3PutVarint_eq: "sqlite3PutVarint p v = putVarint64 p v"
proof -
  have z: "drop_bit 56 v = 0" if "drop_bit k v = 0" "k \<le> 56" for k
  proof -
    have "drop_bit 56 v = drop_bit (56 - k) (drop_bit k v)" using that(2) by simp
    then show ?thesis using that(1) by simp
  qed
  have g: "(ucast (v AND 0x7f) OR (0x80 :: byte)) AND 0x7f = ucast (v AND 0x7f)"
    by (rule bit_word_eqI) (auto simp: bit_7 bit_simps)
  consider "drop_bit 7 v = 0" | "drop_bit 7 v \<noteq> 0" "drop_bit 14 v = 0" | "drop_bit 14 v \<noteq> 0" by blast
  then show ?thesis
  proof cases
    case 1
    then have "v \<le> 0x7f" using drop_bit_zero_iff [of 7 v] by (simp add: word_le_nat_alt word_less_nat_alt)
    moreover have "put_groups v = [ucast (v AND 0x7f) OR 0x80]" using 1 by (simp add: put_groups.simps [of v])
    ultimately show ?thesis using z [of 7] 1 g
      by (auto simp: sqlite3PutVarint_def putVarint64_def top_byte_zero_eval copy_out_def Let_def fun_eq_iff)
  next
    case 2
    then have "\<not> v \<le> 0x7f" "v \<le> 0x3fff" using drop_bit_zero_iff [of 7 v] drop_bit_zero_iff [of 14 v]
      by (simp_all add: word_le_nat_alt word_less_nat_alt)
    moreover have "put_groups v = [ucast (v AND 0x7f) OR 0x80, ucast (drop_bit 7 v AND 0x7f) OR 0x80]"
      using 2 by (simp add: put_groups.simps [of v] put_groups.simps [of "drop_bit 7 v"])
    ultimately show ?thesis using z [of 14] 2 g
      by (auto simp: sqlite3PutVarint_def putVarint64_def top_byte_zero_eval copy_out_def Let_def fun_eq_iff less_Suc_eq)
  next
    case 3
    have "drop_bit 14 v = drop_bit 7 (drop_bit 7 v)" by simp
    with 3 have "drop_bit 7 v \<noteq> 0" by (metis drop_bit_of_0)
    with 3 have "\<not> v \<le> 0x7f" "\<not> v \<le> 0x3fff" using drop_bit_zero_iff [of 7 v] drop_bit_zero_iff [of 14 v]
      by (simp_all add: word_le_nat_alt word_less_nat_alt)
    then show ?thesis by (simp add: sqlite3PutVarint_def)
  qed
qed

lemma put_get: "case sqlite3PutVarint p v of (n, q) \<Rightarrow> sqlite3GetVarint q = (n, v)"
proof (cases "drop_bit 56 v = 0")
  case True
  obtain n q where w: "putVarint64 p v = (n, q)" by fastforce
  note s = put_short [OF True w]
  from s(1) VarintLen_pos have "0 < n" by simp
  with s have "varint_ref 0 (drop_bit (7 * (n - 0)) v) q = (n, v)" by (intro read_short) auto
  moreover have "drop_bit (7 * n) v = 0" by (simp add: s(1) VarintLen_drop)
  ultimately show ?thesis by (simp add: sqlite3PutVarint_eq w getVarint_eq_ref)
next
  case False
  have "drop_bit 64 v = 0" by (rule bit_word_eqI) (auto simp: bit_simps word_bit_ge)
  moreover have "varint_ref 0 (drop_bit (8 + 7 * (8 - 0)) v) (put9_loop 8 (drop_bit 8 v) (p(8 := ucast v))) = (9, v)"
    by (rule read_long) (simp_all add: nth_put9_loop)
  ultimately show ?thesis by (simp add: sqlite3PutVarint_eq put_long [OF False] getVarint_eq_ref)
qed

text \<open>
  C16: Reading back what the writer wrote gives the value and the same number of bytes.
\<close>
theorem varint_roundtrip:
  "case sqlite3PutVarint p v of (n, q) \<Rightarrow> sqlite3GetVarint q = (n, v)"
  by (rule put_get)

lemma VarintLen_top:
  assumes "drop_bit 56 v \<noteq> 0"
  shows "sqlite3VarintLen v = (if v < 2 ^ 63 then 9 else 10)"
proof (cases "drop_bit 63 v = 0")
  case True
  then have "sqlite3VarintLen v \<le> 9" using VarintLen_le [of 9 v] by simp
  with VarintLen_long [OF assms] True drop_bit_zero_iff [of 63 v] show ?thesis by simp
next
  case False
  have "drop_bit 70 v = 0" by (rule bit_word_eqI) (auto simp: bit_simps word_bit_ge)
  then have "sqlite3VarintLen v \<le> 10" using VarintLen_le [of 10 v] by simp
  moreover have "9 < sqlite3VarintLen v" using VarintLen_gt [of 9 v] False by simp
  moreover have "\<not> v < 2 ^ 63" using False drop_bit_zero_iff [of 63 v] by simp
  ultimately show ?thesis by simp
qed

text \<open>
  The writer writes between 1 and 9 bytes and touches no other byte; the number is
  what sqlite3VarintLen computes for values below 2^63, and one less than it computes for
  the others (10, where 9 bytes are written).
\<close>
theorem varint_write_extent:
  "case sqlite3PutVarint p v of (n, q) \<Rightarrow>
     n = (if v < 2 ^ 63 then sqlite3VarintLen v else sqlite3VarintLen v - 1) \<and>
     1 \<le> n \<and> n \<le> 9 \<and> q = override_on p q {..<n}"
proof (cases "drop_bit 56 v = 0")
  case True
  obtain n q where w: "putVarint64 p v = (n, q)" by fastforce
  have "drop_bit 7 (drop_bit 56 v) = 0" using True by simp
  then have "v < 2 ^ 63" using drop_bit_zero_iff [of 63 v] by simp
  with put_short [OF True w] VarintLen_pos [of v] show ?thesis
    by (auto simp: sqlite3PutVarint_eq w override_on_def)
next
  case False
  with VarintLen_top [OF False] show ?thesis
    by (auto simp: sqlite3PutVarint_eq put_long nth_put9_loop override_on_def)
qed

text \<open>
  C27: The unrolled reader, with its masks and its three 32-bit accumulators, computes the
  plain reading: groups of seven bits, most significant first, until a byte without the
  continuation flag, the ninth byte counting in full.
\<close>
theorem varint_reader_correct: "sqlite3GetVarint p = varint_ref 0 0 p"
  by (rule getVarint_eq_ref)

lemma varint_ref_bounds: "i \<le> 8 \<Longrightarrow> varint_ref i acc p = (n, v) \<Longrightarrow> Suc i \<le> n \<and> n \<le> 9"
proof (induction i acc p rule: varint_ref.induct)
  case (1 i acc p)
  then show ?case by (auto simp: varint_ref.simps [of i acc p] split: if_splits)
qed

lemma varint_ref_local:
  "i \<le> 8 \<Longrightarrow> varint_ref i acc p = (n, v) \<Longrightarrow> (\<And>j. j < n \<Longrightarrow> q j = p j) \<Longrightarrow> varint_ref i acc q = (n, v)"
proof (induction i acc p rule: varint_ref.induct)
  case (1 i acc p)
  have i: "q i = p i" using varint_ref_bounds [OF "1.prems"(1,2)] "1.prems"(3) by simp
  show ?case
  proof (cases "i \<ge> 8 \<or> p i < 128")
    case True
    with "1.prems"(2) i show ?thesis by (auto simp: varint_ref.simps [of i acc])
  next
    case False
    with "1.prems"(2) have "varint_ref (Suc i) (push_bit 7 acc OR ucast (p i AND 127)) p = (n, v)"
      by (simp add: varint_ref.simps [of i acc])
    with "1.IH" False "1.prems"(3) have "varint_ref (Suc i) (push_bit 7 acc OR ucast (p i AND 127)) q = (n, v)" by auto
    with False i show ?thesis by (simp add: varint_ref.simps [of i acc q])
  qed
qed

text \<open>
  The reader consumes at least one and at most nine bytes, and its answer depends on
  the bytes it consumes only: it never looks past the end of the varint.
\<close>
theorem varint_reader_bounds:
  assumes "sqlite3GetVarint p = (n, v)"
  shows "1 \<le> n \<and> n \<le> 9 \<and> (\<forall>q. (\<forall>j < n. q j = p j) \<longrightarrow> sqlite3GetVarint q = (n, v))"
proof -
  have r: "varint_ref 0 0 p = (n, v)" using assms by (simp only: getVarint_eq_ref)
  have "varint_ref 0 0 q = (n, v)" if "\<forall>j < n. q j = p j" for q
    by (rule varint_ref_local [OF _ r]) (use that in simp_all)
  moreover have "1 \<le> n" "n \<le> 9" using varint_ref_bounds [OF _ r] by simp_all
  ultimately show ?thesis unfolding getVarint_eq_ref by blast
qed

definition demo_mem :: mem where
  "demo_mem = (\<lambda>i. if i = 0 then 0x81 else if i = 1 then 0x23 else 0)"

lemma varint_reader_bounds_witness:
  "sqlite3GetVarint demo_mem = (2, 0xa3) \<and> sqlite3GetVarint (demo_mem(2 := 0xff)) = (2, 0xa3)"
proof -
  have e: "sqlite3GetVarint demo_mem = (2, 0xa3)"
    by (simp add: demo_mem_def sqlite3GetVarint_def push_bit_eq_mult)
  moreover have "\<forall>j < 2. (demo_mem(2 := 0xff)) j = demo_mem j" by simp
  ultimately show ?thesis using varint_reader_bounds [OF e] by blast
qed

lemma and_128_byte: "(b :: byte) AND 128 = 0 \<longleftrightarrow> \<not> bit b 7"
  using and_exp_eq_0_iff_not_bit [of b 7] by simp

lemma ucast_up_down: "ucast (ucast (w :: u32) :: u64) = w" "ucast (ucast (b :: byte) :: u64) = (ucast b :: u32)"
  by (rule bit_word_eqI, simp add: bit_simps)+

lemma u32_saturate: "((v :: u64) AND 0xffffffff \<noteq> v) = (\<not> v < 2 ^ 32)"
proof -
  have "v AND 0xffffffff = take_bit 32 v" using take_bit_eq_mask [of 32 v] by (simp add: mask_eq_exp_minus_1)
  moreover have "(take_bit 32 v = v) = (v < 2 ^ 32)"
    by (simp add: take_bit_eq_self_iff_drop_bit_eq_0 drop_bit_zero_iff)
  ultimately show ?thesis by simp
qed

text \<open>
  The 32-bit reader consumes the same bytes as the 64-bit one and answers its value,
  or 0xffffffff when the value does not fit 32 bits.
\<close>
theorem varint32_saturates:
  "getVarint32 p = (case sqlite3GetVarint p of (n, v) \<Rightarrow> (n, if v < 2 ^ 32 then ucast v else 0xffffffff))"
proof -
  have small: "ucast b < (2 ^ 32 :: u64)" for b :: byte
    by (rule drop_bit_zero_iff [THEN iffD1]) (simp, rule bit_word_eqI, simp add: bit_simps byte_bit_ge)
  have small32: "ucast w < (2 ^ 32 :: u64)" for w :: u32
    by (rule drop_bit_zero_iff [THEN iffD1]) (simp, rule bit_word_eqI, auto simp: bit_simps dest: bit_imp_le_length)
  consider (a) "\<not> bit (p 0) 7" | (b) "bit (p 0) 7" "\<not> bit (p 1) 7"
    | (c) "bit (p 0) 7" "bit (p 1) 7" "\<not> bit (p 2) 7" | (d) "bit (p 0) 7" "bit (p 1) 7" "bit (p 2) 7" by blast
  then show ?thesis
  proof cases
    case a
    then show ?thesis
      by (simp add: getVarint32_def sqlite3GetVarint_def byte_lt_128 byte_sint_nonneg small [simplified] ucast_up_down)
  next
    case b
    have "varint_ref 0 0 p = (2, ucast (push_bit 7 (ucast (p 0 AND 0x7f)) OR ucast (p 1) :: u32))"
      using b by (simp add: sqlite3GetVarint_def byte_sint_nonneg flip: getVarint_eq_ref)
    then show ?thesis
      using b small32 [simplified] by (simp add: getVarint32_def byte_lt_128 sqlite3GetVarint32_def and_128_byte getVarint_eq_ref ucast_up_down)
  next
    case c
    define w where "w = (push_bit 14 (ucast (p 0 AND 0x7f)) OR push_bit 7 (ucast (p 1 AND 0x7f)) OR ucast (p 2) :: u32)"
    have "varint_ref 0 0 p = (3, push_bit 7 (push_bit 7 (ucast (p 0 AND 127)) OR ucast (p 1 AND 127)) OR ucast (p 2))"
      using c by (simp add: varint_ref_go varint_ref_stop del: One_nat_def push_bit_or)
    also have "push_bit 7 (push_bit 7 (ucast (p 0 AND 127)) OR ucast (p 1 AND 127)) OR ucast (p 2) = (ucast w :: u64)"
      by (rule bits_eq64) (simp add: w_def varint_bits)
    finally have r: "varint_ref 0 0 p = (3, ucast w)" .
    with c small32 [simplified] show ?thesis
      by (simp add: getVarint32_def byte_lt_128 sqlite3GetVarint32_def and_128_byte getVarint_eq_ref ucast_up_down w_def)
  next
    case d
    then show ?thesis
      by (simp add: getVarint32_def byte_lt_128 sqlite3GetVarint32_def and_128_byte u32_saturate split: prod.splits)
  qed
qed

text \<open>
  A 32-bit integer written big-endian reads back, and only its four bytes change.
\<close>
theorem get4byte_put4byte:
  "sqlite3Get4byte (sqlite3Put4byte p v) = v \<and>
   sqlite3Put4byte p v = override_on p (sqlite3Put4byte p v) {..<4}"
proof
  show "sqlite3Get4byte (sqlite3Put4byte p v) = v"
    by (rule bits_eq32) (simp add: sqlite3Get4byte_def sqlite3Put4byte_def upt_32 bit_simps)
qed (auto simp: sqlite3Put4byte_def override_on_def)

section \<open>The bytes of a short varint\<close>

lemma getVarint32_bounds:
  assumes "getVarint32 p = (n, v)"
  shows "1 \<le> n \<and> n \<le> 9 \<and> (\<forall>q. (\<forall>j < n. q j = p j) \<longrightarrow> getVarint32 q = (n, v))"
proof -
  obtain n' v' where g: "sqlite3GetVarint p = (n', v')" by fastforce
  with assms have n: "n' = n" and v: "v = (if v' < 2 ^ 32 then ucast v' else 0xffffffff)" by (auto simp: varint32_saturates)
  from g n v have b: "1 \<le> n \<and> n \<le> 9 \<and> (\<forall>q. (\<forall>j < n. q j = p j) \<longrightarrow> sqlite3GetVarint q = (n, v'))"
    using varint_reader_bounds [of p n v'] by simp
  with v show ?thesis unfolding varint32_saturates by (auto simp del: One_nat_def)
qed

lemma getVarint32_pos: "1 \<le> fst (getVarint32 p)"
  using getVarint32_bounds [of p] by (cases "getVarint32 p") auto

definition varint_bytes :: "u64 \<Rightarrow> byte list" where
  "varint_bytes v = rev ((put_groups v)[0 := put_groups v ! 0 AND 0x7f])"

lemma length_varint_bytes: "length (varint_bytes v) = sqlite3VarintLen v"
  by (simp add: varint_bytes_def length_put_groups)

lemma put_varint_bytes:
  assumes "drop_bit 56 v = 0"
  shows "sqlite3PutVarint p v = (length (varint_bytes v), copy_out (varint_bytes v) p)"
  using assms top_byte_zero [of v] by (simp add: sqlite3PutVarint_eq putVarint64_def varint_bytes_def Let_def)

lemma get_varint_bytes:
  assumes "drop_bit 32 v = 0" and "\<forall>i < length (varint_bytes v). p i = varint_bytes v ! i"
  shows "getVarint32 p = (length (varint_bytes v), ucast v)"
proof -
  have "drop_bit 24 (drop_bit 32 v) = 0" using assms(1) by simp
  then have "drop_bit 56 v = 0" by simp
  note w = put_varint_bytes [OF this, of p]
  have "copy_out (varint_bytes v) p = p" using assms(2) by (auto simp: copy_out_def)
  with put_get [where p = p and v = v] w have "sqlite3GetVarint p = (length (varint_bytes v), v)" by simp
  then show ?thesis using assms(1) by (simp add: varint32_saturates drop_bit_zero_iff)
qed

lemma VarintLen_iff:
  assumes "0 < k" and "7 * k < 64"
  shows "sqlite3VarintLen v \<le> k \<longleftrightarrow> v < 2 ^ (7 * k)"
  using assms VarintLen_le [of k v] VarintLen_gt [of k v] drop_bit_zero_iff [of "7 * k" v] by fastforce

lemma varint_bytes_small: "v < 128 \<Longrightarrow> varint_bytes v = [ucast v]"
proof -
  assume v: "v < 128"
  then have d: "drop_bit 7 v = 0" using drop_bit_zero_iff [of 7 v] by simp
  have m: "v AND 0x7f = v"
  proof -
    have "v AND 0x7f = take_bit 7 v" using take_bit_eq_mask [of 7 v] by (simp add: mask_eq_exp_minus_1)
    with d show ?thesis by (simp add: take_bit_eq_self_iff_drop_bit_eq_0)
  qed
  have "(ucast v OR (0x80 :: byte)) AND 0x7f = ucast (v AND 0x7f)"
    by (rule bit_word_eqI) (auto simp: bit_simps bit_7)
  with d m show ?thesis by (simp add: varint_bytes_def put_groups.simps [of v])
qed

end
