(* ===== verification/Int_Util.thy ===== *)
theory Int_Util
  imports Prelude "HOL-Library.Signed_Division"
begin

text \<open>
  The overflow-checked 64-bit arithmetic and the LogEst approximations of sqlite3.c
  (util.c part). A C \<open>i64\<close> is an \<open>int\<close> in range. The checked operations have two bodies, chosen
  by the preprocessor (\<open>GCC_VERSION>=5004000 && !defined(__INTEL_COMPILER)\<close>): the parameter \<open>gcc\<close>
  is that condition. What the guards of the portable body compute stays in range (lemma
  \<open>guards_in_range\<close>).
\<close>

section \<open>Overflow-checked arithmetic\<close>

definition LARGEST_INT64 :: int where "LARGEST_INT64 = 0xffffffff + 0x7fffffff * 2 ^ 32"
definition SMALLEST_INT64 :: int where "SMALLEST_INT64 = -1 - LARGEST_INT64"

definition in_i64 :: "int \<Rightarrow> bool" where
  "in_i64 x \<longleftrightarrow> SMALLEST_INT64 \<le> x \<and> x \<le> LARGEST_INT64"

lemmas i64_defs = LARGEST_INT64_def SMALLEST_INT64_def in_i64_def

text \<open>
  The compiler builtins, as GCC documents them: the flag, and the result wrapped to 64
  bits, stored in either case.
\<close>

definition wrap64 :: "int \<Rightarrow> int" where
  "wrap64 x = signed_take_bit 63 x"

definition builtin_overflow :: "(int \<Rightarrow> int \<Rightarrow> int) \<Rightarrow> int \<Rightarrow> int \<Rightarrow> int \<times> int" where
  "builtin_overflow f iA iB = (if in_i64 (f iA iB) then 0 else 1, wrap64 (f iA iB))"

text \<open>The result: the returned flag and the new value of \<open>*pA\<close>.\<close>

definition sqlite3AddInt64 :: "bool \<Rightarrow> int \<Rightarrow> int \<Rightarrow> int \<times> int" where
  "sqlite3AddInt64 gcc iA iB =
     (if gcc then builtin_overflow (+) iA iB
      else if iB \<ge> 0 then
        (if iA > 0 \<and> LARGEST_INT64 - iA < iB then (1, iA) else (0, iA + iB))
      else
        (if iA < 0 \<and> - (iA + LARGEST_INT64) > iB + 1 then (1, iA) else (0, iA + iB)))"

definition sqlite3SubInt64 :: "bool \<Rightarrow> int \<Rightarrow> int \<Rightarrow> int \<times> int" where
  "sqlite3SubInt64 gcc iA iB =
     (if gcc then builtin_overflow (-) iA iB
      else if iB = SMALLEST_INT64 then
        (if iA \<ge> 0 then (1, iA) else (0, iA - iB))
      else sqlite3AddInt64 gcc iA (- iB))"

text \<open>C division truncates towards zero: \<open>sdiv\<close>.\<close>

definition sqlite3MulInt64 :: "bool \<Rightarrow> int \<Rightarrow> int \<Rightarrow> int \<times> int" where
  "sqlite3MulInt64 gcc iA iB =
     (if gcc then builtin_overflow (*) iA iB
      else if iB > 0 then
        (if iA > LARGEST_INT64 sdiv iB then (1, iA)
         else if iA < SMALLEST_INT64 sdiv iB then (1, iA)
         else (0, iA * iB))
      else if iB < 0 then
        (if iA > 0 then
           (if iB < SMALLEST_INT64 sdiv iA then (1, iA) else (0, iA * iB))
         else if iA < 0 then
           (if iB = SMALLEST_INT64 then (1, iA)
            else if iA = SMALLEST_INT64 then (1, iA)
            else if - iA > LARGEST_INT64 sdiv (- iB) then (1, iA)
            else (0, iA * iB))
         else (0, iA * iB))
      else (0, iA * iB))"

definition sqlite3AbsInt32 :: "int \<Rightarrow> int" where
  "sqlite3AbsInt32 x = (if x \<ge> 0 then x else if x = - (2 ^ 31) then 0x7fffffff else - x)"

section \<open>LogEst\<close>

text \<open>A LogEst is an \<open>i16\<close>; \<open>to_i16\<close> is the conversion on return.\<close>

definition to_i16 :: "int \<Rightarrow> int" where
  "to_i16 x = signed_take_bit 15 x"

definition logest_add_x :: "int list" where
  "logest_add_x = [10, 10, 9, 9, 8, 8, 7, 7, 7, 6, 6, 6, 5, 5, 5, 4, 4, 4, 4,
     3, 3, 3, 3, 3, 3, 2, 2, 2, 2, 2, 2, 2]"

definition sqlite3LogEstAdd :: "int \<Rightarrow> int \<Rightarrow> int" where
  "sqlite3LogEstAdd a b =
     (if a \<ge> b then
        (if a > b + 49 then a
         else if a > b + 31 then to_i16 (a + 1)
         else to_i16 (a + logest_add_x ! nat (a - b)))
      else
        (if b > a + 49 then b
         else if b > a + 31 then to_i16 (b + 1)
         else to_i16 (b + logest_add_x ! nat (b - a))))"

definition logest_a :: "int list" where
  "logest_a = [0, 2, 3, 5, 6, 7, 8, 9]"

text \<open>The loops of \<open>sqlite3LogEst\<close>, on the value of the \<open>u64\<close> argument.\<close>

function le_up :: "nat \<Rightarrow> int \<Rightarrow> nat \<times> int" where
  "le_up x y = (if 0 < x \<and> x < 8 then le_up (x * 2) (y - 10) else (x, y))"
  by pat_completeness auto
termination by (relation "measure (\<lambda>(x, y). 8 - x)") auto

function le_down4 :: "nat \<Rightarrow> int \<Rightarrow> nat \<times> int" where
  "le_down4 x y = (if x > 255 then le_down4 (x div 16) (y + 40) else (x, y))"
  by pat_completeness auto
termination by (relation "measure fst") auto

function le_down1 :: "nat \<Rightarrow> int \<Rightarrow> nat \<times> int" where
  "le_down1 x y = (if x > 15 then le_down1 (x div 2) (y + 10) else (x, y))"
  by pat_completeness auto
termination by (relation "measure fst") auto

declare le_up.simps [simp del] le_down4.simps [simp del] le_down1.simps [simp del]

definition sqlite3LogEst :: "u64 \<Rightarrow> int" where
  "sqlite3LogEst x =
     (if x < 2 then 0
      else
        (case (if x < 8 then le_up (unat x) 40
               else case le_down4 (unat x) 40 of (x1, y1) \<Rightarrow> le_down1 x1 y1) of
           (x2, y2) \<Rightarrow> logest_a ! (x2 mod 8) + y2 - 10))"

text \<open>The other preprocessor branch, with the builtin that counts leading zero bits.\<close>

definition builtin_clzll :: "u64 \<Rightarrow> nat" where
  "builtin_clzll x = length (takeWhile (\<lambda>i. \<not> bit x i) (rev [0..<64]))"

definition sqlite3LogEst_gcc :: "u64 \<Rightarrow> int" where
  "sqlite3LogEst_gcc x =
     (if x < 2 then 0
      else
        (case (if x < 8 then le_up (unat x) 40
               else (unat (drop_bit (60 - builtin_clzll x) x), 40 + int (60 - builtin_clzll x) * 10)) of
           (x2, y2) \<Rightarrow> logest_a ! (x2 mod 8) + y2 - 10))"

definition sqlite3LogEstToInt :: "int \<Rightarrow> u64" where
  "sqlite3LogEstToInt x =
     (let n = word_of_int (x smod 10) :: u64;
          x = x sdiv 10;
          n = (if n \<ge> 5 then n - 2 else if n \<ge> 1 then n - 1 else n)
      in if x > 60 then word_of_int LARGEST_INT64
         else if x \<ge> 3 then push_bit (nat (x - 3)) (n + 8)
         else drop_bit (nat (3 - x)) (n + 8))"

section \<open>The arithmetic is exact\<close>

text \<open>What the guards compute fits an \<open>i64\<close>, so the checks themselves do not overflow.\<close>

lemma guards_in_range:
  assumes "in_i64 a" and "in_i64 b"
  shows "0 < a \<Longrightarrow> in_i64 (LARGEST_INT64 - a)"
    and "a < 0 \<Longrightarrow> in_i64 (- (a + LARGEST_INT64))"
    and "b < 0 \<Longrightarrow> in_i64 (b + 1)"
    and "a \<noteq> SMALLEST_INT64 \<Longrightarrow> in_i64 (- a)"
  using assms by (auto simp: i64_defs)

lemma sdiv_pos: "0 \<le> a \<Longrightarrow> 0 \<le> b \<Longrightarrow> a sdiv b = a div (b :: int)"
  by (auto simp: signed_divide_int_def sgn_if)

lemma sdiv_neg: "a \<le> 0 \<Longrightarrow> 0 < b \<Longrightarrow> a sdiv b = - ((- a) div (b :: int))"
  by (auto simp: signed_divide_int_def sgn_if)

lemma less_div_mult: "0 < (b :: int) \<Longrightarrow> L div b < a \<longleftrightarrow> L < a * b"
proof -
  assume b: "0 < b"
  have "a \<le> L div b \<longleftrightarrow> a * b \<le> L"
  proof
    assume "a \<le> L div b"
    then have "a * b \<le> (L div b) * b" using b by (intro mult_right_mono) auto
    also have "\<dots> \<le> L" using b by (simp add: minus_mod_eq_div_mult [symmetric])
    finally show "a * b \<le> L" .
  next
    assume "a * b \<le> L"
    from zdiv_mono1 [OF this b] b show "a \<le> L div b" by simp
  qed
  then show ?thesis by linarith
qed

lemma less_neg_div_mult: "0 < (b :: int) \<Longrightarrow> a < - (L div b) \<longleftrightarrow> a * b < - L"
  using less_div_mult [of b L "- a"] by auto

lemma wrap64_id: "in_i64 x \<Longrightarrow> wrap64 x = x"
  unfolding wrap64_def by (rule signed_take_bit_int_eq_self) (auto simp: i64_defs)

lemma builtin_exact: "builtin_overflow f a b = (if in_i64 (f a b) then (0, f a b) else (1, wrap64 (f a b)))"
  by (simp add: builtin_overflow_def wrap64_id)

lemma AddInt64_exact:
  "in_i64 a \<Longrightarrow> in_i64 b \<Longrightarrow> sqlite3AddInt64 False a b = (if in_i64 (a + b) then (0, a + b) else (1, a))"
  by (auto simp: sqlite3AddInt64_def i64_defs)

lemma SubInt64_exact:
  "in_i64 a \<Longrightarrow> in_i64 b \<Longrightarrow> sqlite3SubInt64 False a b = (if in_i64 (a - b) then (0, a - b) else (1, a))"
  by (auto simp: sqlite3SubInt64_def AddInt64_exact guards_in_range(4)) (auto simp: i64_defs)

lemma MulInt64_exact:
  assumes "in_i64 a" and "in_i64 b"
  shows "sqlite3MulInt64 False a b = (if in_i64 (a * b) then (0, a * b) else (1, a))"
proof -
  let ?L = LARGEST_INT64
  have L: "0 \<le> ?L" "SMALLEST_INT64 = - (?L + 1)" by (simp_all add: i64_defs)
  have r: "in_i64 x \<longleftrightarrow> \<not> ?L < x \<and> \<not> x < - (?L + 1)" for x by (auto simp: i64_defs)
  consider (bp) "b > 0" | (pn) "b < 0" "a > 0" | (nn) "b < 0" "a < 0" | (z) "b < 0" "a = 0" | (b0) "b = 0" by linarith
  then show ?thesis
  proof cases
    case bp
    then show ?thesis unfolding r using L
      by (simp add: sqlite3MulInt64_def sdiv_pos sdiv_neg less_div_mult less_neg_div_mult)
  next
    case pn
    then have "a * b \<le> 0" by (simp add: mult_le_0_iff)
    with pn show ?thesis unfolding r using L
      by (simp add: sqlite3MulInt64_def sdiv_neg less_neg_div_mult mult.commute)
  next
    case nn
    then have "a * b > 0" by (simp add: mult_neg_neg)
    moreover have "?L sdiv (- b) < - a \<longleftrightarrow> ?L < a * b"
      using less_div_mult [of "- b" ?L "- a"] sdiv_pos [of ?L "- b"] nn L by simp
    moreover have "?L < a * b" if "b = - (?L + 1)" using that nn L mult_left_mono_neg [of a "-1" b] by (simp add: mult.commute)
    moreover have "?L < a * b" if "a = - (?L + 1)" using that nn L mult_right_mono_neg [of b "-1" a] by (simp add: mult.commute)
    ultimately show ?thesis unfolding r using nn L
      by (auto simp: sqlite3MulInt64_def)
  qed (auto simp: sqlite3MulInt64_def i64_defs)
qed

text \<open>
  C28: Checked addition, subtraction and multiplication, for both bodies the preprocessor
  can choose: on 64-bit operands the answer is 0 with the mathematical result when that fits
  64 bits. When it does not, the answer is 1, and *pA is unchanged in the portable body (as
  the comment on it says) but is the result wrapped to 64 bits in the body that uses the
  compiler builtin.
\<close>
theorem checked_arith_exact:
  assumes "in_i64 a" and "in_i64 b"
  shows "sqlite3AddInt64 gcc a b = (if in_i64 (a + b) then (0, a + b) else (1, if gcc then wrap64 (a + b) else a)) \<and>
    sqlite3SubInt64 gcc a b = (if in_i64 (a - b) then (0, a - b) else (1, if gcc then wrap64 (a - b) else a)) \<and>
    sqlite3MulInt64 gcc a b = (if in_i64 (a * b) then (0, a * b) else (1, if gcc then wrap64 (a * b) else a))"
proof (cases gcc)
  case True
  then show ?thesis by (simp add: sqlite3AddInt64_def sqlite3SubInt64_def sqlite3MulInt64_def builtin_exact)
next
  case False
  then show ?thesis using assms by (simp add: AddInt64_exact SubInt64_exact MulInt64_exact)
qed

lemma checked_arith_exact_witness:
  "sqlite3AddInt64 False LARGEST_INT64 1 = (1, LARGEST_INT64) \<and>
   sqlite3AddInt64 True LARGEST_INT64 1 = (1, SMALLEST_INT64) \<and>
   sqlite3SubInt64 False LARGEST_INT64 (- 1) = (1, LARGEST_INT64) \<and>
   sqlite3MulInt64 True (2 ^ 32) (- (2 ^ 31)) = (0, - (2 ^ 63))"
proof -
  have w: "wrap64 (LARGEST_INT64 + 1) = SMALLEST_INT64"
    by (simp add: wrap64_def i64_defs signed_take_bit_eq_if_positive signed_take_bit_eq_if_negative bit_iff_odd take_bit_eq_mod)
  show ?thesis
    using checked_arith_exact [of LARGEST_INT64 1 False] checked_arith_exact [of LARGEST_INT64 1 True]
      checked_arith_exact [of LARGEST_INT64 "- 1" False] checked_arith_exact [of "2 ^ 32" "- (2 ^ 31)" True]
    unfolding w by (simp add: i64_defs)
qed

text \<open>
  The two bodies give the same flag, and the same result when it is 0. On overflow they
  differ: the wrapped result is never the old value.
\<close>
theorem builtin_add_differs:
  assumes "in_i64 a" and "in_i64 b"
  shows "fst (sqlite3AddInt64 True a b) = fst (sqlite3AddInt64 False a b) \<and>
    (sqlite3AddInt64 True a b = sqlite3AddInt64 False a b \<longleftrightarrow> in_i64 (a + b))"
proof -
  have "wrap64 (a + b) \<noteq> a" if "\<not> in_i64 (a + b)"
  proof
    assume "wrap64 (a + b) = a"
    moreover have "take_bit 64 (wrap64 (a + b)) = take_bit 64 (a + b)"
      unfolding wrap64_def by (rule take_bit_signed_take_bit) simp
    ultimately have "take_bit 64 a = take_bit 64 (a + b)" by simp
    then have "(a + b) mod 2 ^ 64 = a mod 2 ^ 64" unfolding take_bit_eq_mod by (rule sym)
    then have "2 ^ 64 dvd (a + b) - a" by (simp only: mod_eq_dvd_iff)
    then obtain k where "b = 2 ^ 64 * k" by auto
    then have "b = 0" using assms(2) by (auto simp: i64_defs)
    then show False using that assms by (auto simp: i64_defs)
  qed
  then show ?thesis using assms by (auto simp: sqlite3AddInt64_def [of True] builtin_exact AddInt64_exact)
qed

lemma builtin_add_differs_witness:
  "fst (sqlite3AddInt64 True LARGEST_INT64 1) = 1 \<and>
   sqlite3AddInt64 True LARGEST_INT64 1 \<noteq> sqlite3AddInt64 False LARGEST_INT64 1"
  using builtin_add_differs [of LARGEST_INT64 1] by (simp add: i64_defs sqlite3AddInt64_def builtin_overflow_def)

section \<open>LogEst\<close>

text \<open>The loops normalise to a mantissa between 8 and 15 and count the exponent in \<open>y\<close>.\<close>

lemma le_up_norm:
  "0 < x \<Longrightarrow> x < 16 \<Longrightarrow> \<exists>k. le_up x y = (x * 2 ^ k, y - 10 * int k) \<and> 8 \<le> x * 2 ^ k \<and> x * 2 ^ k < 16"
proof (induction x y rule: le_up.induct)
  case (1 x y)
  show ?case
  proof (cases "x < 8")
    case True
    with 1 obtain k where "le_up (x * 2) (y - 10) = (x * 2 * 2 ^ k, y - 10 - 10 * int k)"
      "8 \<le> x * 2 * 2 ^ k" "x * 2 * 2 ^ k < 16" by auto
    with True 1 show ?thesis by (intro exI [of _ "Suc k"]) (simp add: le_up.simps [of x] mult.assoc)
  qed (use 1 in \<open>intro exI [of _ 0], simp add: le_up.simps [of x]\<close>)
qed

lemma le_down4_norm:
  "8 \<le> x \<Longrightarrow> \<exists>k. le_down4 x y = (x div 2 ^ k, y + 10 * int k) \<and> 8 \<le> x div 2 ^ k"
proof (induction x y rule: le_down4.induct)
  case (1 x y)
  show ?case
  proof (cases "x > 255")
    case True
    moreover from this have "8 \<le> x div 16" by linarith
    ultimately obtain k where "le_down4 (x div 16) (y + 40) = (x div 16 div 2 ^ k, y + 40 + 10 * int k)"
      "8 \<le> x div 16 div 2 ^ k" using 1 by blast
    moreover have "x div 16 div 2 ^ k = x div 2 ^ (k + 4)"
      by (simp add: div_mult2_eq [symmetric] power_add mult.commute)
    ultimately show ?thesis using True by (intro exI [of _ "k + 4"]) (simp add: le_down4.simps [of x])
  qed (use 1 in \<open>intro exI [of _ 0], simp add: le_down4.simps [of x]\<close>)
qed

lemma le_down1_norm:
  "8 \<le> x \<Longrightarrow> \<exists>k. le_down1 x y = (x div 2 ^ k, y + 10 * int k) \<and> 8 \<le> x div 2 ^ k \<and> x div 2 ^ k < 16"
proof (induction x y rule: le_down1.induct)
  case (1 x y)
  show ?case
  proof (cases "x > 15")
    case True
    moreover from this have "8 \<le> x div 2" by linarith
    ultimately obtain k where "le_down1 (x div 2) (y + 10) = (x div 2 div 2 ^ k, y + 10 + 10 * int k)"
      "8 \<le> x div 2 div 2 ^ k" "x div 2 div 2 ^ k < 16" using 1 by blast
    moreover have "x div 2 div 2 ^ k = x div 2 ^ (k + 1)"
      by (simp add: div_mult2_eq [symmetric] power_add mult.commute)
    ultimately show ?thesis using True by (intro exI [of _ "k + 1"]) (simp add: le_down1.simps [of x])
  qed (use 1 in \<open>intro exI [of _ 0], simp add: le_down1.simps [of x]\<close>)
qed

text \<open>The mantissa form of both branches.\<close>

definition logest_at :: "nat \<Rightarrow> nat \<Rightarrow> int" where
  "logest_at x e = logest_a ! (x div 2 ^ e mod 8) + 30 + 10 * int e"

lemma LogEst_large:
  assumes "8 \<le> x"
  shows "\<exists>e. sqlite3LogEst x = logest_at (unat x) e \<and> 8 \<le> unat x div 2 ^ e \<and> unat x div 2 ^ e < 16"
proof -
  from assms have x: "8 \<le> unat x" "\<not> x < 8" "\<not> x < 2" by (auto simp: word_le_nat_alt word_less_nat_alt)
  from le_down4_norm [OF x(1)] obtain k where k: "le_down4 (unat x) 40 = (unat x div 2 ^ k, 40 + 10 * int k)"
    "8 \<le> unat x div 2 ^ k" by blast
  from le_down1_norm [OF k(2)] obtain j where
    j: "le_down1 (unat x div 2 ^ k) (40 + 10 * int k) = (unat x div 2 ^ k div 2 ^ j, 40 + 10 * int k + 10 * int j)"
      "8 \<le> unat x div 2 ^ k div 2 ^ j" "unat x div 2 ^ k div 2 ^ j < 16" by blast
  have "unat x div 2 ^ k div 2 ^ j = unat x div 2 ^ (k + j)" by (simp add: div_mult2_eq [symmetric] power_add)
  with j k x show ?thesis by (intro exI [of _ "k + j"]) (simp add: sqlite3LogEst_def logest_at_def)
qed

lemma bit_le_nat: "bit (n :: nat) k \<Longrightarrow> 2 ^ k \<le> n"
  by (rule ccontr) (simp add: bit_iff_odd)

lemma clzll_top:
  assumes "x \<noteq> 0"
  shows "builtin_clzll x < 64" and "2 ^ (63 - builtin_clzll x) \<le> unat x" and "unat x < 2 ^ (64 - builtin_clzll x)"
proof -
  let ?P = "\<lambda>i. \<not> bit x i" and ?xs = "rev [0..<64]"
  let ?c = "builtin_clzll x"
  obtain i where "bit x i" using assms by (metis bit_word_eqI bit_0_eq bot_apply bot_bool_def)
  with bit_imp_le_length [OF this] have i: "i < 64" "bit x i" by simp_all
  then have "takeWhile ?P ?xs \<noteq> ?xs" by (auto simp: takeWhile_eq_all_conv)
  then show c: "?c < 64" unfolding builtin_clzll_def
    by (metis length_rev length_takeWhile_le length_upt le_neq_implies_less diff_zero takeWhile_eq_take take_all_iff order_refl)
  have "bit x (63 - ?c)"
    using nth_length_takeWhile [of ?P ?xs] c by (simp add: builtin_clzll_def rev_nth)
  then have "bit (unat x) (63 - ?c)" by (simp add: bit_unsigned_iff)
  then show "2 ^ (63 - ?c) \<le> unat x"
    by (rule bit_le_nat)
  have z: "\<not> bit x j" if "63 - ?c < j" "j < 64" for j
  proof -
    have "takeWhile ?P ?xs ! (63 - j) = ?xs ! (63 - j)"
      by (rule takeWhile_nth) (use that c in \<open>simp add: builtin_clzll_def\<close>)
    moreover have "?P (takeWhile ?P ?xs ! (63 - j))"
      using nth_mem [of "63 - j" "takeWhile ?P ?xs"] set_takeWhileD [of _ ?P ?xs] that c
      by (simp add: builtin_clzll_def)
    ultimately show ?thesis using that by (simp add: rev_nth)
  qed
  have "n < 64 - ?c" if "bit x n" "n < 64" for n using z [of n] that c by linarith
  then have "take_bit (64 - ?c) x = x"
    by (intro bit_word_eqI) (auto simp: bit_take_bit_iff)
  then have "unat x = take_bit (64 - ?c) (unat x)" by (metis unsigned_take_bit_eq)
  then show "unat x < 2 ^ (64 - ?c)" by (metis take_bit_nat_less_exp)
qed

lemma shift_norm_unique:
  assumes "8 \<le> x div 2 ^ i" "x div 2 ^ i < 16" "8 \<le> x div 2 ^ j" "x div 2 ^ j < (16 :: nat)"
  shows "i = j"
proof -
  have "\<not> i < j" if "8 \<le> x div 2 ^ j" "x div 2 ^ i < 16" for i j
  proof
    assume "i < j"
    then have "x div 2 ^ j = x div 2 ^ i div 2 ^ (j - i)"
      by (simp add: div_mult2_eq [symmetric] flip: power_add)
    moreover have "(2 :: nat) ^ 1 \<le> 2 ^ (j - i)" using \<open>i < j\<close> by (intro power_increasing) auto
    ultimately have "x div 2 ^ j \<le> x div 2 ^ i div 2" by (simp add: div_le_mono2)
    with that show False by linarith
  qed
  with assms show ?thesis by (meson linorder_neqE_nat)
qed

text \<open>
  The branch of sqlite3LogEst that counts leading zeros with a compiler builtin and
  the portable branch with its two shift loops compute the same estimate for every value.
\<close>
theorem LogEst_branches_agree: "sqlite3LogEst_gcc x = sqlite3LogEst x"
proof (cases "x < 8")
  case True
  have "le_down1 m z = (m, z)" if "m < 16" for m z using that by (simp add: le_down1.simps [of m])
  moreover have "fst (le_up (unat x) 40) < 16" if "\<not> x < 2"
    using le_up_norm [of "unat x" 40] that True by (auto simp: word_less_nat_alt)
  ultimately show ?thesis using True
    by (auto simp: sqlite3LogEst_gcc_def sqlite3LogEst_def split: prod.splits)
next
  case False
  let ?c = "builtin_clzll x" and ?n = "unat x"
  have x: "8 \<le> x" "x \<noteq> 0" "8 \<le> ?n" using False by (auto simp: word_le_nat_alt word_less_nat_alt)
  note z = clzll_top [OF x(2)]
  have c: "?c \<le> 60"
  proof (rule ccontr)
    assume "\<not> ?c \<le> 60"
    then have "(2 :: nat) ^ (64 - ?c) \<le> 2 ^ 3" by (intro power_increasing) auto
    with z(3) x(3) show False by simp
  qed
  have "(2 :: nat) ^ (63 - ?c) = 8 * 2 ^ (60 - ?c)" "(2 :: nat) ^ (64 - ?c) = 16 * 2 ^ (60 - ?c)"
    using c power_add [of "2 :: nat" 3 "60 - ?c"] power_add [of "2 :: nat" 4 "60 - ?c"] by simp_all
  with z have m: "8 \<le> ?n div 2 ^ (60 - ?c)" "?n div 2 ^ (60 - ?c) < 16"
    by (simp_all add: less_eq_div_iff_mult_less_eq div_less_iff_less_mult)
  from LogEst_large [OF x(1)] obtain e where
    e: "sqlite3LogEst x = logest_at ?n e" "8 \<le> ?n div 2 ^ e" "?n div 2 ^ e < 16" by blast
  have "e = 60 - ?c" using shift_norm_unique [OF e(2,3) m] .
  moreover have "unat (drop_bit (60 - ?c) x) = ?n div 2 ^ (60 - ?c)"
    unfolding unat_drop_bit_eq by (rule drop_bit_eq_div)
  ultimately show ?thesis using False x e(1)
    by (simp add: sqlite3LogEst_gcc_def logest_at_def word_less_nat_alt)
qed

lemma logest_table:
  assumes "8 \<le> m" "m < 16"
  shows "0 \<le> logest_a ! (m mod 8)" "2 ^ (2 * nat (logest_a ! (m mod 8) + 30)) \<le> 2 * m ^ 20"
    "(m + 1) ^ 10 \<le> 4 * 2 ^ nat (logest_a ! (m mod 8) + 30)"
proof -
  have "m = 8 \<or> m = 9 \<or> m = 10 \<or> m = 11 \<or> m = 12 \<or> m = 13 \<or> m = 14 \<or> m = 15" using assms by linarith
  then show "0 \<le> logest_a ! (m mod 8)" "2 ^ (2 * nat (logest_a ! (m mod 8) + 30)) \<le> 2 * m ^ 20"
    "(m + 1) ^ 10 \<le> 4 * 2 ^ nat (logest_a ! (m mod 8) + 30)"
    by (elim disjE; simp add: logest_a_def)+
qed

lemma logest_at_bounds:
  assumes "8 \<le> x div 2 ^ e" "x div 2 ^ e < 16"
  shows "0 \<le> logest_at x e \<and> 2 ^ (2 * nat (logest_at x e)) \<le> 2 * x ^ 20 \<and> x ^ 10 < 4 * 2 ^ nat (logest_at x e)"
proof -
  let ?m = "x div 2 ^ e" and ?a = "logest_a ! (x div 2 ^ e mod 8) + 30"
  note t = logest_table [OF assms]
  have n: "nat (logest_at x e) = nat ?a + 10 * e" using t(1) by (simp add: logest_at_def nat_add_distrib nat_mult_distrib)
  have lo: "?m * 2 ^ e \<le> x" by simp
  have hi: "x < (?m + 1) * 2 ^ e" using dividend_less_times_div [of "2 ^ e" x] by (simp add: mult.commute)
  have "2 ^ (2 * nat (logest_at x e)) = 2 ^ (2 * nat ?a) * ((2 :: nat) ^ e) ^ 20"
    unfolding n by (simp add: power_add power_mult [symmetric] algebra_simps)
  also have "\<dots> \<le> 2 * ?m ^ 20 * (2 ^ e) ^ 20" using t(2) by (intro mult_right_mono) auto
  also have "\<dots> = 2 * (?m * 2 ^ e) ^ 20" by (simp only: power_mult_distrib mult.assoc)
  also have "\<dots> \<le> 2 * x ^ 20" using lo by (intro mult_left_mono power_mono) auto
  finally have "2 ^ (2 * nat (logest_at x e)) \<le> 2 * x ^ 20" .
  moreover have "x ^ 10 < ((?m + 1) * 2 ^ e) ^ 10" using hi by (intro power_strict_mono) auto
  moreover have "((?m + 1) * 2 ^ e) ^ 10 = (?m + 1) ^ 10 * (2 ^ e) ^ 10" by (simp only: power_mult_distrib)
  moreover have "\<dots> \<le> 4 * 2 ^ nat ?a * (2 ^ e) ^ 10" using t(3) by (intro mult_right_mono) auto
  moreover have "\<dots> = 4 * 2 ^ nat (logest_at x e)"
    unfolding n by (simp add: power_add power_mult [symmetric] algebra_simps)
  moreover have "0 \<le> logest_at x e" using t(1) by (simp add: logest_at_def)
  ultimately show ?thesis by linarith
qed

text \<open>
  sqlite3LogEst approximates ten times the binary logarithm: for x not 0 its answer r
  satisfies 2^r <= sqrt 2 * x^10 and x^10 < 4 * 2^r (so r - 10 log2 x is above -2 and at
  most a half), in integers, and fits the i16 it is stored in.
\<close>
theorem LogEst_accuracy:
  assumes "x \<noteq> 0"
  shows "0 \<le> sqlite3LogEst x \<and> sqlite3LogEst x < 2 ^ 15 \<and>
    2 ^ (2 * nat (sqlite3LogEst x)) \<le> 2 * unat x ^ 20 \<and> unat x ^ 10 < 4 * 2 ^ nat (sqlite3LogEst x)"
proof (cases "x < 8")
  case True
  let ?s = "\<lambda>x. 0 \<le> sqlite3LogEst x \<and> sqlite3LogEst x < 2 ^ 15 \<and>
    2 ^ (2 * nat (sqlite3LogEst x)) \<le> 2 * unat x ^ 20 \<and> unat x ^ 10 < 4 * 2 ^ nat (sqlite3LogEst x)"
  have "unat x < 8" "unat x \<noteq> 0" using True assms by (simp_all add: word_less_nat_alt unat_eq_zero)
  then have "unat x \<in> {1, 2, 3, 4, 5, 6, 7}" by (simp only: insert_iff empty_iff simp_thms) linarith
  moreover have x: "x = word_of_nat (unat x)" by simp
  ultimately have "x \<in> {1, 2, 3, 4, 5, 6, 7}" by (metis (no_types, lifting) insert_iff empty_iff of_nat_numeral of_nat_1)
  moreover have "?s 1" "?s 2" "?s 3" "?s 4" "?s 5" "?s 6" "?s 7"
    by (simp_all add: sqlite3LogEst_def le_up.simps le_down1.simps logest_a_def)
  ultimately show ?thesis by blast
next
  case False
  then obtain e where e: "sqlite3LogEst x = logest_at (unat x) e" "8 \<le> unat x div 2 ^ e" "unat x div 2 ^ e < 16"
    using LogEst_large [of x] by (auto simp: not_less)
  note b = logest_at_bounds [OF e(2,3)]
  have "2 ^ (2 * nat (sqlite3LogEst x)) \<le> 2 * unat x ^ 20" using b e(1) by simp
  also have "\<dots> \<le> 2 * (2 ^ 64) ^ 20"
    using unsigned_less [of x, where ?'a = nat] by (intro mult_left_mono power_mono) auto
  also have "\<dots> = 2 ^ 1281" by simp
  finally have "2 * nat (sqlite3LogEst x) \<le> 1281" by (rule power_le_imp_le_exp [rotated]) simp
  with b e(1) show ?thesis by simp
qed

lemma LogEst_accuracy_witness:
  "0 \<le> sqlite3LogEst 1000 \<and> (1000 :: nat) ^ 10 < 4 * 2 ^ nat (sqlite3LogEst 1000)"
  using LogEst_accuracy [of 1000] by simp

end
