(* ===== verification/Ctype.thy ===== *)
theory Ctype
  imports Prelude
begin

text \<open>
  The character tables of global.c in sqlite3.c (ASCII build) and the macros of
  sqliteInt.h that read them, with the closed form of each.
\<close>

section \<open>The tables\<close>

definition sqlite3UpperToLower :: "nat list" where
  "sqlite3UpperToLower =
    [0, 1, 2, 3, 4, 5, 6, 7, 8, 9, 10, 11, 12, 13, 14, 15,
     16, 17, 18, 19, 20, 21, 22, 23, 24, 25, 26, 27, 28, 29, 30, 31,
     32, 33, 34, 35, 36, 37, 38, 39, 40, 41, 42, 43, 44, 45, 46, 47,
     48, 49, 50, 51, 52, 53, 54, 55, 56, 57, 58, 59, 60, 61, 62, 63,
     64, 97, 98, 99, 100, 101, 102, 103, 104, 105, 106, 107, 108, 109, 110, 111,
     112, 113, 114, 115, 116, 117, 118, 119, 120, 121, 122, 91, 92, 93, 94, 95,
     96, 97, 98, 99, 100, 101, 102, 103, 104, 105, 106, 107, 108, 109, 110, 111,
     112, 113, 114, 115, 116, 117, 118, 119, 120, 121, 122, 123, 124, 125, 126, 127,
     128, 129, 130, 131, 132, 133, 134, 135, 136, 137, 138, 139, 140, 141, 142, 143,
     144, 145, 146, 147, 148, 149, 150, 151, 152, 153, 154, 155, 156, 157, 158, 159,
     160, 161, 162, 163, 164, 165, 166, 167, 168, 169, 170, 171, 172, 173, 174, 175,
     176, 177, 178, 179, 180, 181, 182, 183, 184, 185, 186, 187, 188, 189, 190, 191,
     192, 193, 194, 195, 196, 197, 198, 199, 200, 201, 202, 203, 204, 205, 206, 207,
     208, 209, 210, 211, 212, 213, 214, 215, 216, 217, 218, 219, 220, 221, 222, 223,
     224, 225, 226, 227, 228, 229, 230, 231, 232, 233, 234, 235, 236, 237, 238, 239,
     240, 241, 242, 243, 244, 245, 246, 247, 248, 249, 250, 251, 252, 253, 254, 255] @
    [1, 0, 0, 1, 1, 0, 0, 1, 0, 1, 0, 1, 1, 0, 1, 0,
     0, 1]"

text \<open>The 18 entries after the 256 are the tables of the comparison operators.\<close>

definition OP_Ne :: nat where "OP_Ne = 52"
definition OP_Eq :: nat where "OP_Eq = 53"
definition OP_Gt :: nat where "OP_Gt = 54"
definition OP_Le :: nat where "OP_Le = 55"
definition OP_Lt :: nat where "OP_Lt = 56"
definition OP_Ge :: nat where "OP_Ge = 57"

definition sqlite3aLTb :: "nat \<Rightarrow> nat" where
  "sqlite3aLTb opc = sqlite3UpperToLower ! (256 - OP_Ne + opc)"

definition sqlite3aEQb :: "nat \<Rightarrow> nat" where
  "sqlite3aEQb opc = sqlite3UpperToLower ! (256 + 6 - OP_Ne + opc)"

definition sqlite3aGTb :: "nat \<Rightarrow> nat" where
  "sqlite3aGTb opc = sqlite3UpperToLower ! (256 + 12 - OP_Ne + opc)"

definition sqlite3CtypeMap :: "nat list" where
  "sqlite3CtypeMap =
    [0x00, 0x00, 0x00, 0x00, 0x00, 0x00, 0x00, 0x00, 0x00, 0x01, 0x01, 0x01, 0x01, 0x01, 0x00, 0x00,
     0x00, 0x00, 0x00, 0x00, 0x00, 0x00, 0x00, 0x00, 0x00, 0x00, 0x00, 0x00, 0x00, 0x00, 0x00, 0x00,
     0x01, 0x00, 0x80, 0x00, 0x40, 0x00, 0x00, 0x80, 0x00, 0x00, 0x00, 0x00, 0x00, 0x00, 0x00, 0x00,
     0x0c, 0x0c, 0x0c, 0x0c, 0x0c, 0x0c, 0x0c, 0x0c, 0x0c, 0x0c, 0x00, 0x00, 0x00, 0x00, 0x00, 0x00,
     0x00, 0x0a, 0x0a, 0x0a, 0x0a, 0x0a, 0x0a, 0x02, 0x02, 0x02, 0x02, 0x02, 0x02, 0x02, 0x02, 0x02,
     0x02, 0x02, 0x02, 0x02, 0x02, 0x02, 0x02, 0x02, 0x02, 0x02, 0x02, 0x80, 0x00, 0x00, 0x00, 0x40,
     0x80, 0x2a, 0x2a, 0x2a, 0x2a, 0x2a, 0x2a, 0x22, 0x22, 0x22, 0x22, 0x22, 0x22, 0x22, 0x22, 0x22,
     0x22, 0x22, 0x22, 0x22, 0x22, 0x22, 0x22, 0x22, 0x22, 0x22, 0x22, 0x00, 0x00, 0x00, 0x00, 0x00,
     0x40, 0x40, 0x40, 0x40, 0x40, 0x40, 0x40, 0x40, 0x40, 0x40, 0x40, 0x40, 0x40, 0x40, 0x40, 0x40,
     0x40, 0x40, 0x40, 0x40, 0x40, 0x40, 0x40, 0x40, 0x40, 0x40, 0x40, 0x40, 0x40, 0x40, 0x40, 0x40,
     0x40, 0x40, 0x40, 0x40, 0x40, 0x40, 0x40, 0x40, 0x40, 0x40, 0x40, 0x40, 0x40, 0x40, 0x40, 0x40,
     0x40, 0x40, 0x40, 0x40, 0x40, 0x40, 0x40, 0x40, 0x40, 0x40, 0x40, 0x40, 0x40, 0x40, 0x40, 0x40,
     0x40, 0x40, 0x40, 0x40, 0x40, 0x40, 0x40, 0x40, 0x40, 0x40, 0x40, 0x40, 0x40, 0x40, 0x40, 0x40,
     0x40, 0x40, 0x40, 0x40, 0x40, 0x40, 0x40, 0x40, 0x40, 0x40, 0x40, 0x40, 0x40, 0x40, 0x40, 0x40,
     0x40, 0x40, 0x40, 0x40, 0x40, 0x40, 0x40, 0x40, 0x40, 0x40, 0x40, 0x40, 0x40, 0x40, 0x40, 0x40,
     0x40, 0x40, 0x40, 0x40, 0x40, 0x40, 0x40, 0x40, 0x40, 0x40, 0x40, 0x40, 0x40, 0x40, 0x40, 0x40]"

section \<open>The macros\<close>

definition ctype_bit :: "nat \<Rightarrow> byte \<Rightarrow> bool" where
  "ctype_bit m x \<longleftrightarrow> sqlite3CtypeMap ! unat x AND m \<noteq> 0"

definition sqlite3Isspace :: "byte \<Rightarrow> bool" where "sqlite3Isspace x = ctype_bit 0x01 x"
definition sqlite3Isalnum :: "byte \<Rightarrow> bool" where "sqlite3Isalnum x = ctype_bit 0x06 x"
definition sqlite3Isalpha :: "byte \<Rightarrow> bool" where "sqlite3Isalpha x = ctype_bit 0x02 x"
definition sqlite3Isdigit :: "byte \<Rightarrow> bool" where "sqlite3Isdigit x = ctype_bit 0x04 x"
definition sqlite3Isxdigit :: "byte \<Rightarrow> bool" where "sqlite3Isxdigit x = ctype_bit 0x08 x"
definition sqlite3Isquote :: "byte \<Rightarrow> bool" where "sqlite3Isquote x = ctype_bit 0x80 x"
definition sqlite3IsIdChar :: "byte \<Rightarrow> bool" where "sqlite3IsIdChar x = ctype_bit 0x46 x"

definition sqlite3Tolower :: "byte \<Rightarrow> byte" where
  "sqlite3Tolower x = word_of_nat (sqlite3UpperToLower ! unat x)"

definition sqlite3Toupper :: "byte \<Rightarrow> byte" where
  "sqlite3Toupper x = x AND NOT (word_of_nat (sqlite3CtypeMap ! unat x) AND 0x20)"

section \<open>What they compute\<close>

text \<open>A statement about all bytes is a statement about 256 numbers.\<close>

lemma byte_table:
  assumes "map f xs = map g [0..<256]" and "unat (x :: byte) < length xs"
  shows "f (xs ! unat x) = g (unat x)"
proof -
  have "f (xs ! unat x) = map f xs ! unat x" using assms(2) by simp
  also have "\<dots> = g (unat x)" using unsigned_less [of x, where ?'a = nat] by (simp add: assms(1))
  finally show ?thesis .
qed

lemma length_ctype: "length sqlite3CtypeMap = 256" "256 \<le> length sqlite3UpperToLower"
  by (simp_all add: sqlite3CtypeMap_def sqlite3UpperToLower_def)

lemma byte_in_tables: "unat (x :: byte) < length sqlite3CtypeMap" "unat x < 256"
  using unsigned_less [of x, where ?'a = nat] by (simp_all add: length_ctype)

lemma bit_nat_iff_odd_div: "bit (v :: nat) k = odd (v div 2 ^ k)"
  by (rule bit_iff_odd)

lemma space_table: "map (\<lambda>v. bit v 0) sqlite3CtypeMap = map (\<lambda>n. 9 \<le> n \<and> n \<le> 13 \<or> n = 32) [0..<256]"
  unfolding bit_nat_iff_odd_div by code_simp

lemma alpha_table: "map (\<lambda>v. bit v 1) sqlite3CtypeMap = map (\<lambda>n. 65 \<le> n \<and> n \<le> 90 \<or> 97 \<le> n \<and> n \<le> 122) [0..<256]"
  unfolding bit_nat_iff_odd_div by code_simp

lemma digit_table: "map (\<lambda>v. bit v 2) sqlite3CtypeMap = map (\<lambda>n. 48 \<le> n \<and> n \<le> 57) [0..<256]"
  unfolding bit_nat_iff_odd_div by code_simp

lemma xdigit_table: "map (\<lambda>v. bit v 3) sqlite3CtypeMap = map (\<lambda>n. 48 \<le> n \<and> n \<le> 57 \<or> 65 \<le> n \<and> n \<le> 70 \<or> 97 \<le> n \<and> n \<le> 102) [0..<256]"
  unfolding bit_nat_iff_odd_div by code_simp

lemma lowercase_table: "map (\<lambda>v. bit v 5) sqlite3CtypeMap = map (\<lambda>n. 97 \<le> n \<and> n \<le> 122) [0..<256]"
  unfolding bit_nat_iff_odd_div by code_simp

lemma idextra_table: "map (\<lambda>v. bit v 6) sqlite3CtypeMap = map (\<lambda>n. n = 36 \<or> n = 95 \<or> 128 \<le> n) [0..<256]"
  unfolding bit_nat_iff_odd_div by code_simp

lemma quote_table: "map (\<lambda>v. bit v 7) sqlite3CtypeMap = map (\<lambda>n. n = 34 \<or> n = 39 \<or> n = 91 \<or> n = 96) [0..<256]"
  unfolding bit_nat_iff_odd_div by code_simp

lemma lower_table:
  "map (\<lambda>v. v) (take 256 sqlite3UpperToLower) = map (\<lambda>n. if 65 \<le> n \<and> n \<le> 90 then n + 32 else n) [0..<256]"
  by code_simp

lemmas ctype_tables = byte_table [OF space_table byte_in_tables(1)] byte_table [OF alpha_table byte_in_tables(1)]
  byte_table [OF digit_table byte_in_tables(1)] byte_table [OF xdigit_table byte_in_tables(1)]
  byte_table [OF lowercase_table byte_in_tables(1)] byte_table [OF idextra_table byte_in_tables(1)]
  byte_table [OF quote_table byte_in_tables(1)]

lemma and_masks:
  "(v :: nat) AND 0x01 \<noteq> 0 \<longleftrightarrow> bit v 0" "v AND 0x02 \<noteq> 0 \<longleftrightarrow> bit v 1" "v AND 0x04 \<noteq> 0 \<longleftrightarrow> bit v 2"
  "v AND 0x08 \<noteq> 0 \<longleftrightarrow> bit v 3" "v AND 0x20 \<noteq> 0 \<longleftrightarrow> bit v 5" "v AND 0x80 \<noteq> 0 \<longleftrightarrow> bit v 7"
  "v AND 0x06 \<noteq> 0 \<longleftrightarrow> bit v 1 \<or> bit v 2" "v AND 0x46 \<noteq> 0 \<longleftrightarrow> bit v 1 \<or> bit v 2 \<or> bit v 6"
proof -
  have e: "v AND 2 ^ k \<noteq> 0 \<longleftrightarrow> bit v k" for v k :: nat using and_exp_eq_0_iff_not_bit [of v k] by simp
  show "v AND 0x01 \<noteq> 0 \<longleftrightarrow> bit v 0" "v AND 0x02 \<noteq> 0 \<longleftrightarrow> bit v 1" "v AND 0x04 \<noteq> 0 \<longleftrightarrow> bit v 2"
    "v AND 0x08 \<noteq> 0 \<longleftrightarrow> bit v 3" "v AND 0x20 \<noteq> 0 \<longleftrightarrow> bit v 5" "v AND 0x80 \<noteq> 0 \<longleftrightarrow> bit v 7"
    using e [of v 0] e [of v 1] e [of v 2] e [of v 3] e [of v 5] e [of v 7] by simp_all
  have o: "v AND (a OR b) \<noteq> 0 \<longleftrightarrow> v AND a \<noteq> 0 \<or> v AND b \<noteq> 0" for v a b :: nat
    by (auto simp: bit_eq_iff bit_simps)
  have "(0x06 :: nat) = 2 ^ 1 OR 2 ^ 2" "(0x46 :: nat) = 2 ^ 1 OR (2 ^ 2 OR 2 ^ 6)" by simp_all
  then show "v AND 0x06 \<noteq> 0 \<longleftrightarrow> bit v 1 \<or> bit v 2" "v AND 0x46 \<noteq> 0 \<longleftrightarrow> bit v 1 \<or> bit v 2 \<or> bit v 6"
    by (simp_all only: o e)
qed

lemma ctype_char:
  "sqlite3Isspace x \<longleftrightarrow> 9 \<le> unat x \<and> unat x \<le> 13 \<or> unat x = 32"
  "sqlite3Isdigit x \<longleftrightarrow> 48 \<le> unat x \<and> unat x \<le> 57"
  "sqlite3Isalpha x \<longleftrightarrow> 65 \<le> unat x \<and> unat x \<le> 90 \<or> 97 \<le> unat x \<and> unat x \<le> 122"
  "sqlite3Isalnum x \<longleftrightarrow> sqlite3Isalpha x \<or> sqlite3Isdigit x"
  "sqlite3Isxdigit x \<longleftrightarrow>
    48 \<le> unat x \<and> unat x \<le> 57 \<or> 65 \<le> unat x \<and> unat x \<le> 70 \<or> 97 \<le> unat x \<and> unat x \<le> 102"
  "sqlite3Isquote x \<longleftrightarrow> unat x = 34 \<or> unat x = 39 \<or> unat x = 91 \<or> unat x = 96"
  "sqlite3IsIdChar x \<longleftrightarrow> sqlite3Isalnum x \<or> unat x = 36 \<or> unat x = 95 \<or> 128 \<le> unat x"
  unfolding sqlite3Isspace_def sqlite3Isdigit_def sqlite3Isalpha_def sqlite3Isalnum_def
    sqlite3Isxdigit_def sqlite3Isquote_def sqlite3IsIdChar_def ctype_bit_def and_masks ctype_tables
  by blast+

lemma Tolower_ascii: "sqlite3Tolower x = (if 65 \<le> unat x \<and> unat x \<le> 90 then x + 32 else x)"
proof -
  have "sqlite3UpperToLower ! unat x = take 256 sqlite3UpperToLower ! unat x" using byte_in_tables(2) by simp
  also have "\<dots> = (if 65 \<le> unat x \<and> unat x \<le> 90 then unat x + 32 else unat x)"
    by (rule byte_table [OF lower_table, of x]) (use length_ctype byte_in_tables(2) in simp)
  finally show ?thesis by (simp add: sqlite3Tolower_def)
qed

lemma clear_case_bit: "list_all (\<lambda>n. (word_of_nat n :: byte) AND NOT 0x20 = word_of_nat n - 32) [97..<123]"
  by code_simp

lemma Toupper_ascii: "sqlite3Toupper x = (if 97 \<le> unat x \<and> unat x \<le> 122 then x - 32 else x)"
proof -
  let ?v = "sqlite3CtypeMap ! unat x"
  have b: "bit ?v 5 \<longleftrightarrow> 97 \<le> unat x \<and> unat x \<le> 122" by (simp only: ctype_tables)
  have m: "(word_of_nat ?v :: byte) AND 0x20 = (if bit ?v 5 then 0x20 else 0)"
  proof (rule bit_word_eqI)
    fix n assume n: "n < LENGTH(8)"
    have "bit (0x20 :: byte) n \<longleftrightarrow> n = 5" using bit_exp_iff [of 5 n, where 'a = byte] n by auto
    then show "bit ((word_of_nat ?v :: byte) AND 0x20) n \<longleftrightarrow> bit (if bit ?v 5 then 0x20 else 0 :: byte) n"
      using n by (auto simp: bit_simps bit_of_nat_iff)
  qed
  show ?thesis
  proof (cases "bit ?v 5")
    case True
    with b have "unat x \<in> set [97..<123]" unfolding set_upt atLeastLessThan_iff by linarith
    with clear_case_bit have "(word_of_nat (unat x) :: byte) AND NOT 0x20 = word_of_nat (unat x) - 32"
      unfolding list_all_iff by blast
    with True b show ?thesis by (simp add: sqlite3Toupper_def m)
  qed (use b in \<open>auto simp: sqlite3Toupper_def m\<close>)
qed

text \<open>
  The character macros agree with the C locale: the space characters are blank, tab,
  newline, vertical tab, form feed and return; a quote is one of the four SQL quote characters;
  an identifier character is a letter, a digit, dollar, underscore or any byte above 127;
  folding to lower case changes the 26 ASCII capitals only.
\<close>
theorem ctype_classes:
  "sqlite3Isspace x = (9 \<le> unat x \<and> unat x \<le> 13 \<or> unat x = 32) \<and>
   sqlite3Isdigit x = (48 \<le> unat x \<and> unat x \<le> 57) \<and>
   sqlite3Isalpha x = (65 \<le> unat x \<and> unat x \<le> 90 \<or> 97 \<le> unat x \<and> unat x \<le> 122) \<and>
   sqlite3Isalnum x = (sqlite3Isalpha x \<or> sqlite3Isdigit x) \<and>
   sqlite3Isxdigit x = (48 \<le> unat x \<and> unat x \<le> 57 \<or> 65 \<le> unat x \<and> unat x \<le> 70 \<or> 97 \<le> unat x \<and> unat x \<le> 102) \<and>
   sqlite3Isquote x = (unat x = 34 \<or> unat x = 39 \<or> unat x = 91 \<or> unat x = 96) \<and>
   sqlite3IsIdChar x = (sqlite3Isalnum x \<or> unat x = 36 \<or> unat x = 95 \<or> 128 \<le> unat x) \<and>
   sqlite3Tolower x = (if 65 \<le> unat x \<and> unat x \<le> 90 then x + 32 else x)"
  by (simp only: ctype_char Tolower_ascii simp_thms)

text \<open>The comparison opcodes, and what their tables answer for the sign of a comparison.\<close>

definition compare_holds :: "nat \<Rightarrow> int \<Rightarrow> bool" where
  "compare_holds opc c =
     (if opc = OP_Ne then c \<noteq> 0 else if opc = OP_Eq then c = 0 else if opc = OP_Gt then c > 0
      else if opc = OP_Le then c \<le> 0 else if opc = OP_Lt then c < 0 else c \<ge> 0)"

lemma compare_tables:
  "list_all (\<lambda>opc. sqlite3aLTb opc = of_bool (compare_holds opc (- 1)) \<and>
       sqlite3aEQb opc = of_bool (compare_holds opc 0) \<and> sqlite3aGTb opc = of_bool (compare_holds opc 1))
     [OP_Ne, OP_Eq, OP_Gt, OP_Le, OP_Lt, OP_Ge]"
  by code_simp

end
