(* ===== verification/Int_Text.thy ===== *)
theory Int_Text
  imports Ctype Int_Util
begin

text \<open>
  Text and integers (util.c part of sqlite3.c): rendering and parsing of 64-bit and 32-bit
  integers, hexadecimal literals, SQL quoting, and the case-insensitive comparisons.

  A C string is the \<open>byte list\<close> before its terminator; character \<open>i\<close> is \<open>chat z i\<close>, 0 at
  the terminator, which none of the functions reads past. A buffer with a length is the list
  of that length. A C \<open>char\<close> is signed (\<open>sint\<close>) where its sign is seen.
\<close>

definition chat :: "byte list \<Rightarrow> nat \<Rightarrow> byte" where
  "chat z i = (if i < length z then z ! i else 0)"

section \<open>Rendering\<close>

text \<open>The digit loop of \<open>sqlite3Int64ToText\<close>, which fills \<open>zTemp\<close> from its end.\<close>

function int_digits :: "u64 \<Rightarrow> byte list \<Rightarrow> byte list" where
  "int_digits x acc =
     (let acc = (ucast (x mod 10) + 0x30) # acc in
      if x div 10 = 0 then acc else int_digits (x div 10) acc)"
  by pat_completeness auto
termination by (relation "measure (unat \<circ> fst)") (auto simp: unat_div word_unat_eq_iff)

declare int_digits.simps [simp del]

definition sqlite3Int64ToText :: "int \<Rightarrow> byte list" where
  "sqlite3Int64ToText v =
     (let x = (if v < 0 then (if v = SMALLEST_INT64 then push_bit 63 1 else word_of_int (- v))
               else word_of_int v) :: u64;
          zTemp = int_digits x []
      in if v < 0 then 0x2d # zTemp else zTemp)"

section \<open>Parsing decimal text\<close>

definition is_dec :: "byte \<Rightarrow> bool" where
  "is_dec c \<longleftrightarrow> sint c \<ge> 0x30 \<and> sint c \<le> 0x39"

text \<open>\<open>922337203685477580\<close>, the first 18 digits of 2^63.\<close>

definition pow63 :: "byte list" where
  "pow63 = [0x39, 0x32, 0x32, 0x33, 0x33, 0x37, 0x32, 0x30, 0x33, 0x36, 0x38, 0x35, 0x34, 0x37,
     0x37, 0x35, 0x38, 0x30]"

text \<open>The loop \<open>for(i=0; c==0 && i<18; i++)\<close>.\<close>

fun compare_prefix :: "byte list \<Rightarrow> byte list \<Rightarrow> int" where
  "compare_prefix (z # zs) (p # ps) =
     (let c = (sint z - sint p) * 10 in if c = 0 then compare_prefix zs ps else c)"
| "compare_prefix _ _ = 0"

definition compare2pow63 :: "byte list \<Rightarrow> int" where
  "compare2pow63 zNum =
     (let c = compare_prefix (take 18 zNum) pow63
      in if c = 0 then sint (zNum ! 18) - 0x38 else c)"

datatype enc = SQLITE_UTF8 | SQLITE_UTF16LE | SQLITE_UTF16BE

text \<open>
  The set-up of \<open>sqlite3Atoi64\<close>. For UTF-16 the routine looks for the first non-zero high
  byte, at \<open>i = 3 - enc, 3 - enc + 2, ...\<close>, ends the text there (\<open>zEnd = &zNum[i^1]\<close>) and
  reads the low bytes, at \<open>enc & 1\<close> and every second byte after it; the answer is those
  bytes and the flag \<open>nonNum\<close>.
\<close>

function high_scan :: "byte list \<Rightarrow> nat \<Rightarrow> nat" where
  "high_scan z i = (if i < length z \<and> z ! i = 0 then high_scan z (i + 2) else i)"
  by pat_completeness auto
termination by (relation "measure (\<lambda>(z, i). length z - i)") auto

declare high_scan.simps [simp del]

function low_bytes :: "byte list \<Rightarrow> nat \<Rightarrow> nat \<Rightarrow> byte list" where
  "low_bytes z k zEnd = (if k < zEnd \<and> k < length z then z ! k # low_bytes z (k + 2) zEnd else [])"
  by pat_completeness auto
termination by (relation "measure (\<lambda>(z, k, e). length z - k)") auto

declare low_bytes.simps [simp del]

definition atoi_text :: "byte list \<Rightarrow> enc \<Rightarrow> byte list \<times> bool" where
  "atoi_text zNum e =
     (case e of
        SQLITE_UTF8 \<Rightarrow> (zNum, False)
      | SQLITE_UTF16LE \<Rightarrow>
          (let z = take (length zNum - length zNum mod 2) zNum; i = high_scan z 1
           in (low_bytes z 0 (i XOR 1), i < length z))
      | SQLITE_UTF16BE \<Rightarrow>
          (let z = take (length zNum - length zNum mod 2) zNum; i = high_scan z 0
           in (low_bytes z 1 (i XOR 1), i < length z)))"

text \<open>
  The return code and \<open>*pNum\<close>. The digit loop accumulates in a \<open>u64\<close>, which wraps on long
  input; \<open>*pNum\<close> is then overwritten below.
\<close>

definition sqlite3Atoi64 :: "byte list \<Rightarrow> enc \<Rightarrow> int \<times> int" where
  "sqlite3Atoi64 zNum e =
     (let (z0, nonNum) = atoi_text zNum e;
          z1 = dropWhile sqlite3Isspace z0;
          neg = (z1 \<noteq> [] \<and> hd z1 = 0x2d);
          zStart = (if z1 \<noteq> [] \<and> (hd z1 = 0x2d \<or> hd z1 = 0x2b) then tl z1 else z1);
          z2 = dropWhile (\<lambda>c. c = 0x30) zStart;
          i = length (takeWhile is_dec z2);
          u = foldl (\<lambda>u c. u * 10 + word_of_int (sint c) - 0x30) (0 :: u64) (takeWhile is_dec z2);
          pNum = (if unat u > nat LARGEST_INT64 then (if neg then SMALLEST_INT64 else LARGEST_INT64)
                  else if neg then - uint u else uint u);
          rc = (if i = 0 \<and> zStart = z2 then - 1
                else if nonNum then 1
                else if list_all sqlite3Isspace (drop i z2) then 0 else 1)
      in if i < 19 then (rc, pNum)
         else
           (let c = (if i > 19 then 1 else compare2pow63 z2) in
            if c < 0 then (rc, pNum)
            else
              (let pNum = (if neg then SMALLEST_INT64 else LARGEST_INT64) in
               if c > 0 then (2, pNum) else (if neg then rc else 3, pNum))))"

section \<open>Hexadecimal\<close>

definition sqlite3HexToInt :: "byte \<Rightarrow> byte" where
  "sqlite3HexToInt h = (h + 9 * (1 AND drop_bit 6 h)) AND 0xf"

text \<open>\<open>n\<close> is the number of hexadecimal digits; the answer is the blob without its terminator.\<close>

fun hex_pairs :: "byte list \<Rightarrow> byte list" where
  "hex_pairs (a # b # zs) = (push_bit 4 (sqlite3HexToInt a) OR sqlite3HexToInt b) # hex_pairs zs"
| "hex_pairs _ = []"

definition sqlite3HexToBlob :: "byte list \<Rightarrow> byte list" where
  "sqlite3HexToBlob z = hex_pairs z"

text \<open>\<open>hexdigits\<close> and the loop of \<open>hexFunc\<close>, the SQL function \<open>hex()\<close>.\<close>

definition hexdigits :: "byte list" where
  "hexdigits = [0x30, 0x31, 0x32, 0x33, 0x34, 0x35, 0x36, 0x37, 0x38, 0x39, 0x41, 0x42, 0x43, 0x44, 0x45, 0x46]"

definition hexFunc :: "byte list \<Rightarrow> byte list" where
  "hexFunc blob = concat (map (\<lambda>c. [hexdigits ! unat (drop_bit 4 c AND 0xf), hexdigits ! unat (c AND 0xf)]) blob)"

definition sqlite3DecOrHexToI64 :: "byte list \<Rightarrow> int \<times> int" where
  "sqlite3DecOrHexToI64 z =
     (if chat z 0 = 0x30 \<and> (chat z 1 = 0x78 \<or> chat z 1 = 0x58) then
        (let z1 = dropWhile (\<lambda>c. c = 0x30) (drop 2 z);
             ds = takeWhile sqlite3Isxdigit z1;
             u = foldl (\<lambda>u c. u * 16 + ucast (sqlite3HexToInt c)) (0 :: u64) ds
         in (if length ds > 16 then 2 else if drop (length ds) z1 \<noteq> [] then 1 else 0, sint u))
      else
        (let n = length (takeWhile (\<lambda>c. c \<in> {0x2b, 0x2d, 0x20, 0x0a, 0x09} \<or> is_dec c) z);
             n = n AND 0x3fffffff;
             n = (if chat z n \<noteq> 0 then n + 1 else n)
         in sqlite3Atoi64 (take n z) SQLITE_UTF8))"

section \<open>32-bit integers\<close>

text \<open>The flag, with the new \<open>*pValue\<close> when it is true.\<close>

definition getInt32_dec :: "bool \<Rightarrow> byte list \<Rightarrow> int option" where
  "getInt32_dec neg z =
     (if \<not> sqlite3Isdigit (chat z 0) then None
      else
        (let ds = takeWhile is_dec (take 11 (dropWhile (\<lambda>c. c = 0x30) z));
             v = foldl (\<lambda>v c. v * 10 + (sint c - 0x30)) 0 ds
         in if length ds > 10 then None
            else if v - (if neg then 1 else 0) > 2147483647 then None
            else Some (if neg then - v else v)))"

definition sqlite3GetInt32 :: "byte list \<Rightarrow> int option" where
  "sqlite3GetInt32 z =
     (if chat z 0 = 0x2d then getInt32_dec True (tl z)
      else if chat z 0 = 0x2b then getInt32_dec False (tl z)
      else if chat z 0 = 0x30 \<and> (chat z 1 = 0x78 \<or> chat z 1 = 0x58) \<and> sqlite3Isxdigit (chat z 2) then
        (let z1 = dropWhile (\<lambda>c. c = 0x30) (drop 2 z);
             ds = takeWhile sqlite3Isxdigit (take 8 z1);
             u = foldl (\<lambda>u c. u * 16 + ucast (sqlite3HexToInt c)) (0 :: u32) ds
         in if u AND 0x80000000 = 0 \<and> \<not> sqlite3Isxdigit (chat z1 (length ds)) then Some (sint u) else None)
      else getInt32_dec False z)"

definition sqlite3Atoi :: "byte list \<Rightarrow> int" where
  "sqlite3Atoi z = (case sqlite3GetInt32 z of Some x \<Rightarrow> x | None \<Rightarrow> 0)"

fun getUInt32_loop :: "nat \<Rightarrow> u64 \<Rightarrow> byte list \<Rightarrow> u32 option" where
  "getUInt32_loop i v [] = (if i = 0 then None else Some (ucast v))"
| "getUInt32_loop i v (c # z) =
     (if sqlite3Isdigit c then
        (let v = v * 10 + word_of_int (sint c) - 0x30 in
         if v > 4294967296 then None else getUInt32_loop (Suc i) v z)
      else None)"

definition sqlite3GetUInt32 :: "byte list \<Rightarrow> int \<times> u32" where
  "sqlite3GetUInt32 z = (case getUInt32_loop 0 0 z of Some v \<Rightarrow> (1, v) | None \<Rightarrow> (0, 0))"

section \<open>Decimal values\<close>

fun dec_val :: "byte list \<Rightarrow> int" where
  "dec_val [] = 0"
| "dec_val (c # cs) = (sint c - 0x30) * 10 ^ length cs + dec_val cs"

lemma dec_val_append: "dec_val (xs @ ys) = dec_val xs * 10 ^ length ys + dec_val ys"
  by (induction xs) (simp_all add: power_add algebra_simps)

lemma foldl_dec: "foldl (\<lambda>v c. v * 10 + (sint c - 0x30)) a ds = a * 10 ^ length ds + dec_val ds"
  by (induction ds arbitrary: a) (simp_all add: algebra_simps)

lemma foldl_dec_word:
  "foldl (\<lambda>u c. u * 10 + word_of_int (sint c) - 0x30) (word_of_int a :: u64) ds =
   word_of_int (a * 10 ^ length ds + dec_val ds)"
proof (induction ds arbitrary: a)
  case (Cons c ds)
  have "word_of_int a * 10 + word_of_int (sint c) - 0x30 = (word_of_int (a * 10 + sint c - 0x30) :: u64)"
    by simp
  with Cons [of "a * 10 + sint c - 0x30"] show ?case by (simp add: algebra_simps)
qed simp

lemma dec_val_bounds: "list_all is_dec ds \<Longrightarrow> 0 \<le> dec_val ds \<and> dec_val ds < 10 ^ length ds"
proof (induction ds)
  case (Cons c ds)
  then have c: "0 \<le> sint c - 0x30" "sint c - 0x30 \<le> 9" by (auto simp: is_dec_def)
  have "(sint c - 0x30) * 10 ^ length ds \<le> 9 * 10 ^ length ds" using c by (intro mult_right_mono) auto
  moreover have "0 \<le> (sint c - 0x30) * 10 ^ length ds" using c by simp
  moreover have "0 \<le> dec_val ds" "dec_val ds < 10 ^ length ds" using Cons by auto
  moreover have "(10 :: int) ^ length (c # ds) = 9 * 10 ^ length ds + 10 ^ length ds" by simp
  ultimately show ?case unfolding dec_val.simps by linarith
qed simp

lemma dec_val_lower: "list_all is_dec (c # ds) \<Longrightarrow> c \<noteq> 0x30 \<Longrightarrow> 10 ^ length ds \<le> dec_val (c # ds)"
proof -
  assume a: "list_all is_dec (c # ds)" "c \<noteq> 0x30"
  have "word_of_int (sint c) \<noteq> (0x30 :: byte)" using a(2) by simp
  then have "sint c \<noteq> 0x30" by (metis word_of_int_numeral)
  with a have "1 \<le> sint c - 0x30" by (auto simp: is_dec_def)
  then have "1 * 10 ^ length ds \<le> (sint c - 0x30) * 10 ^ length ds" by (intro mult_right_mono) auto
  moreover have "0 \<le> dec_val ds" using dec_val_bounds [of ds] a by simp
  ultimately show ?thesis unfolding dec_val.simps by linarith
qed

lemma dec_val_zeros: "dec_val (dropWhile (\<lambda>c. c = 0x30) ds) = dec_val ds"
  by (induction ds) auto

lemma compare_prefix_sgn:
  "length zs = length ps \<Longrightarrow> list_all is_dec zs \<Longrightarrow> list_all is_dec ps \<Longrightarrow>
   (compare_prefix zs ps < 0 \<longleftrightarrow> dec_val zs < dec_val ps) \<and> (compare_prefix zs ps = 0 \<longleftrightarrow> dec_val zs = dec_val ps)"
proof (induction zs ps rule: list_induct2)
  case (Cons z zs p ps)
  let ?n = "10 ^ length ps :: int"
  have b: "0 \<le> dec_val zs" "dec_val zs < ?n" "0 \<le> dec_val ps" "dec_val ps < ?n"
    using dec_val_bounds [of zs] dec_val_bounds [of ps] Cons by auto
  have lt: "x * ?n + dec_val xs < y * ?n + dec_val ys"
    if "x < y" "dec_val xs < ?n" "0 \<le> dec_val ys" for x y :: int and xs ys
  proof -
    have "(x + 1) * ?n \<le> y * ?n" using that(1) by (intro mult_right_mono) auto
    with that(2,3) show ?thesis by (simp add: algebra_simps)
  qed
  consider "sint z < sint p" | "sint z = sint p" | "sint z > sint p" by linarith
  then show ?case
  proof cases
    case 1
    with lt [of "sint z - 48" "sint p - 48" zs ps] b Cons(1) show ?thesis by (auto simp: Let_def)
  next
    case 2
    with Cons show ?thesis by auto
  next
    case 3
    with lt [of "sint p - 48" "sint z - 48" ps zs] b Cons(1) show ?thesis by (auto simp: Let_def)
  qed
qed simp

lemma compare2pow63_sgn:
  assumes "list_all is_dec ds" "length ds = 19"
  shows "(compare2pow63 (ds @ zs) < 0 \<longleftrightarrow> dec_val ds < 2 ^ 63) \<and> (compare2pow63 (ds @ zs) = 0 \<longleftrightarrow> dec_val ds = 2 ^ 63)"
proof -
  let ?a = "take 18 ds" and ?c = "ds ! 18"
  have ds: "ds = ?a @ [?c]" using take_Suc_conv_app_nth [of 18 ds] assms(2) by simp
  have v: "dec_val ds = dec_val ?a * 10 + (sint ?c - 0x30)" by (subst ds, subst dec_val_append) simp
  have a: "list_all is_dec ?a" using assms(1) by (auto simp: list_all_iff dest: in_set_takeD)
  have c: "is_dec ?c" using assms by (simp add: list_all_length)
  have p: "list_all is_dec pow63" "dec_val pow63 = 922337203685477580" "length pow63 = 18"
    by (simp_all add: pow63_def is_dec_def)
  have cmp: "(compare_prefix ?a pow63 < 0 \<longleftrightarrow> dec_val ?a < dec_val pow63) \<and>
      (compare_prefix ?a pow63 = 0 \<longleftrightarrow> dec_val ?a = dec_val pow63)"
    by (rule compare_prefix_sgn) (use assms(2) p a in auto)
  have e: "compare2pow63 (ds @ zs) =
      (if compare_prefix ?a pow63 = 0 then sint ?c - 0x38 else compare_prefix ?a pow63)"
    using assms(2) by (simp add: compare2pow63_def nth_append Let_def)
  show ?thesis
    using cmp c unfolding e v p(2) by (cases "compare_prefix ?a pow63 = 0") (auto simp: is_dec_def)
qed

section \<open>What Atoi64 computes\<close>

lemma is_dec_unat: "is_dec c \<longleftrightarrow> 48 \<le> unat c \<and> unat c \<le> 57"
proof -
  define u where "u = uint c"
  have "unat c = nat u" "0 \<le> u" "u < 256" using uint_bounded [of c] by (simp_all add: u_def)
  then show ?thesis unfolding is_dec_def sint_byte u_def [symmetric] by auto
qed

lemma is_dec_not_space [simp]: "is_dec c \<Longrightarrow> \<not> sqlite3Isspace c"
  by (simp add: is_dec_unat ctype_char)

lemma sign_not_space [simp]: "\<not> sqlite3Isspace 0x2b" "\<not> sqlite3Isspace 0x2d"
  by (simp_all add: ctype_char)

lemma sign_not_dec [simp]: "\<not> is_dec 0x2b" "\<not> is_dec 0x2d" "is_dec 0x30"
  by (simp_all add: is_dec_def)

definition clamp64 :: "int \<Rightarrow> int" where
  "clamp64 v = max SMALLEST_INT64 (min LARGEST_INT64 v)"

text \<open>The answer for a text with digits: \<open>n\<close> their value, \<open>base\<close> the code when it fits.\<close>

definition atoi_answer :: "bool \<Rightarrow> int \<Rightarrow> int \<Rightarrow> int \<times> int" where
  "atoi_answer neg n bse =
     (if n > 2 ^ 63 then 2 else if n = 2 ^ 63 \<and> \<not> neg then 3 else bse, clamp64 (if neg then - n else n))"

lemma dropWhile_zero_parts:
  assumes "list_all is_dec ds" and "rest = [] \<or> \<not> is_dec (hd rest)"
  defines "ds1 \<equiv> dropWhile (\<lambda>c. c = 0x30) ds"
  shows "dropWhile (\<lambda>c. c = 0x30) (ds @ rest) = ds1 @ rest" and "takeWhile is_dec (ds1 @ rest) = ds1"
    and "list_all is_dec ds1" and "ds1 \<noteq> [] \<Longrightarrow> 10 ^ (length ds1 - 1) \<le> dec_val ds"
    and "dec_val ds < 10 ^ length ds1" and "0 \<le> dec_val ds"
proof -
  have r: "dropWhile (\<lambda>c. c = 0x30) rest = rest" using assms(2) by (cases rest) auto
  show "dropWhile (\<lambda>c. c = 0x30) (ds @ rest) = ds1 @ rest"
    using r unfolding ds1_def by (induction ds) auto
  show d: "list_all is_dec ds1"
    using assms(1) unfolding ds1_def list_all_iff by (meson set_dropWhileD)
  have "takeWhile is_dec rest = []" using assms(2) by (cases rest) auto
  with d show "takeWhile is_dec (ds1 @ rest) = ds1" by (simp add: list_all_iff)
  have v: "dec_val ds1 = dec_val ds" unfolding ds1_def by (rule dec_val_zeros)
  with dec_val_bounds [OF d] show "dec_val ds < 10 ^ length ds1" "0 \<le> dec_val ds" by auto
  show "10 ^ (length ds1 - 1) \<le> dec_val ds" if "ds1 \<noteq> []"
  proof -
    from that obtain c cs where c: "ds1 = c # cs" by (cases ds1) auto
    then have "c \<noteq> 0x30" using hd_dropWhile [of "\<lambda>c. c = 0x30" ds] by (simp add: ds1_def)
    with dec_val_lower [of c cs] c d v show ?thesis by simp
  qed
qed

lemma Atoi64_value:
  assumes t: "atoi_text zNum e = (sp @ sg @ ds @ rest, nonNum)"
    and sp: "list_all sqlite3Isspace sp" and sg: "sg \<in> {[], [0x2b], [0x2d]}"
    and ds: "ds \<noteq> []" "list_all is_dec ds" and rest: "rest = [] \<or> \<not> is_dec (hd rest)"
  shows "sqlite3Atoi64 zNum e =
    atoi_answer (sg = [0x2d]) (dec_val ds) (if nonNum \<or> \<not> list_all sqlite3Isspace rest then 1 else 0)"
proof -
  obtain d dt where d: "ds = d # dt" "is_dec d" using ds by (cases ds) auto
  then have d_sign: "d \<noteq> 0x2d" "d \<noteq> 0x2b" by auto
  define ds1 where "ds1 = dropWhile (\<lambda>c. c = 0x30) ds"
  note p = dropWhile_zero_parts [OF ds(2) rest, folded ds1_def]
  have z1: "dropWhile sqlite3Isspace (sp @ sg @ ds @ rest) = sg @ ds @ rest"
    using sp sg d by (auto simp: list_all_iff dropWhile_append)
  let ?neg = "sg = [0x2d]" and ?n = "dec_val ds"
  let ?base = "if nonNum \<or> \<not> list_all sqlite3Isspace rest then 1 else 0 :: int"
  let ?u = "word_of_int ?n :: u64"
  let ?pNum = "if unat ?u > nat LARGEST_INT64 then (if ?neg then SMALLEST_INT64 else LARGEST_INT64)
    else if ?neg then - uint ?u else uint ?u"
  have sgn: "(sg @ ds @ rest \<noteq> [] \<and> hd (sg @ ds @ rest) = 0x2d) = ?neg"
    "(if sg @ ds @ rest \<noteq> [] \<and> (hd (sg @ ds @ rest) = 0x2d \<or> hd (sg @ ds @ rest) = 0x2b)
      then tl (sg @ ds @ rest) else sg @ ds @ rest) = ds @ rest"
    using sg d d_sign by auto
  have "dec_val ds1 = ?n" unfolding ds1_def by (rule dec_val_zeros)
  then have u: "foldl (\<lambda>u c. u * 10 + word_of_int (sint c) - 0x30) (0 :: u64) ds1 = ?u"
    using foldl_dec_word [of 0 ds1] by simp
  have "length ds1 = 0 \<and> ds @ rest = ds1 @ rest \<longleftrightarrow> False" using ds(1) by auto
  then have a: "sqlite3Atoi64 zNum e =
     (if length ds1 < 19 then (?base, ?pNum)
      else
        (let c = (if length ds1 > 19 then 1 else compare2pow63 (ds1 @ rest)) in
         if c < 0 then (?base, ?pNum)
         else
           (let pNum = (if ?neg then SMALLEST_INT64 else LARGEST_INT64) in
            if c > 0 then (2, pNum) else (if ?neg then ?base else 3, pNum))))"
    unfolding sqlite3Atoi64_def t prod.case Let_def z1 sgn p(1,2) u by auto
  have small: "?pNum = clamp64 (if ?neg then - ?n else ?n)" if "?n < 2 ^ 63"
  proof -
    have "uint ?u = ?n" using p(6) that by (simp add: uint_word_of_int_eq take_bit_int_eq_self)
    moreover have "unat ?u = nat ?n" using calculation by (simp add: unat_eq_nat_uint)
    ultimately show ?thesis using p(6) that by (auto simp: clamp64_def i64_defs)
  qed
  consider (lt) "length ds1 < 19" | (eq) "length ds1 = 19" | (gt) "length ds1 > 19" by linarith
  then show ?thesis
  proof cases
    case lt
    then have "(10 :: int) ^ length ds1 \<le> 10 ^ 18" by (intro power_increasing) auto
    with p(5) have "?n < 2 ^ 63" by simp
    with lt small show ?thesis by (simp add: a atoi_answer_def)
  next
    case eq
    note c = compare2pow63_sgn [OF p(3) eq, of rest, unfolded \<open>dec_val ds1 = ?n\<close>]
    show ?thesis
    proof (cases "?n < 2 ^ 63")
      case True
      with c eq small show ?thesis by (simp add: a atoi_answer_def)
    next
      case False
      with c eq show ?thesis by (auto simp: a atoi_answer_def clamp64_def i64_defs)
    qed
  next
    case gt
    then have "(10 :: int) ^ 19 \<le> 10 ^ (length ds1 - 1)" by (intro power_increasing) auto
    moreover have "ds1 \<noteq> []" using gt by auto
    ultimately have "?n > 2 ^ 63" using p(4) by simp
    with gt show ?thesis by (auto simp: a atoi_answer_def clamp64_def i64_defs)
  qed
qed

text \<open>
  C29: sqlite3Atoi64 on any text of the form spaces, optional sign, digits, rest: *pNum is
  the value of the digits with their sign, clamped to 64 bits; the answer is 2 when the
  magnitude is above 2^63, 3 for a positive 2^63, and otherwise 0 or, when something other than
  spaces follows (or a UTF-16 high byte was set), 1. Length, leading zeros and the wrap of
  the 64-bit accumulator make no difference.
\<close>
theorem Atoi64_correct:
  assumes "atoi_text zNum e = (sp @ sg @ ds @ rest, nonNum)"
    and "list_all sqlite3Isspace sp" and "sg \<in> {[], [0x2b], [0x2d]}"
    and "ds \<noteq> []" and "list_all is_dec ds" and "rest = [] \<or> \<not> is_dec (hd rest)"
  shows "sqlite3Atoi64 zNum e =
    atoi_answer (sg = [0x2d]) (dec_val ds) (if nonNum \<or> \<not> list_all sqlite3Isspace rest then 1 else 0)"
  by (rule Atoi64_value [OF assms])

lemma Atoi64_correct_witness:
  "sqlite3Atoi64 [0x20, 0x2d, 0x30, 0x37, 0x78] SQLITE_UTF8 = (1, - 7)"
  using Atoi64_correct [of "[0x20, 0x2d, 0x30, 0x37, 0x78]" SQLITE_UTF8 "[0x20]" "[0x2d]" "[0x30, 0x37]" "[0x78]" False]
  by (simp add: atoi_text_def ctype_char is_dec_def atoi_answer_def clamp64_def i64_defs)

section \<open>Rendering and reading back\<close>

lemma digit_byte:
  "sint (ucast ((x :: u64) mod 10) + 0x30 :: byte) = uint x mod 10 + 48"
proof -
  have "(ucast (x mod 10) + 0x30 :: byte) = word_of_int (uint x mod 10 + 48)"
    by (simp add: ucast_eq uint_mod)
  moreover have "signed_take_bit 7 (uint x mod 10 + 48) = uint x mod 10 + 48"
    by (rule signed_take_bit_int_eq_self) (use pos_mod_bound [of 10 "uint x"] in auto)
  moreover have "sint (word_of_int k :: byte) = signed_take_bit 7 k" for k
    by (simp add: sint_sbintrunc')
  ultimately show ?thesis by metis
qed

lemma int_digits_value:
  "dec_val (int_digits x acc) = uint x * 10 ^ length acc + dec_val acc \<and> int_digits x acc \<noteq> [] \<and>
   (list_all is_dec acc \<longrightarrow> list_all is_dec (int_digits x acc))"
proof (induction x acc rule: int_digits.induct)
  case (1 x acc)
  let ?d = "ucast (x mod 10) + 0x30 :: byte"
  have d: "dec_val (?d # acc) = uint x mod 10 * 10 ^ length acc + dec_val acc" "is_dec ?d"
    using pos_mod_bound [of 10 "uint x"] by (simp_all add: digit_byte is_dec_def)
  have q: "uint (x div 10) = uint x div 10" by (simp add: uint_div)
  have m: "uint x div 10 * 10 + uint x mod 10 = uint x" by simp
  show ?case
  proof (cases "x div 10 = 0")
    case True
    with q have "uint x div 10 = 0" by simp
    with m have "uint x = uint x mod 10" by linarith
    with True d show ?thesis by (simp add: int_digits.simps [of x] Let_def)
  next
    case False
    note IH = "1.IH" [OF refl False]
    have "uint (x div 10) * 10 ^ length (?d # acc) + dec_val (?d # acc) =
        (uint x div 10 * 10 + uint x mod 10) * 10 ^ length acc + dec_val acc"
      unfolding d(1) q by (simp only: distrib_right list.size power_add power_one_right mult.assoc
        add.assoc mult.commute [of "10 ^ length acc" 10] One_nat_def add_0_right power_Suc0_right)
    then have "uint (x div 10) * 10 ^ length (?d # acc) + dec_val (?d # acc) = uint x * 10 ^ length acc + dec_val acc"
      unfolding m .
    with IH False d(2) show ?thesis by (simp only: int_digits.simps [of x] Let_def if_False list_all_iff list.set ball_simps insert_iff empty_iff simp_thms) blast
  qed
qed

text \<open>
  C30: Every 64-bit integer, the smallest one included, is read back from its rendering.
\<close>
theorem Int64ToText_roundtrip:
  assumes "in_i64 v"
  shows "sqlite3Atoi64 (sqlite3Int64ToText v) SQLITE_UTF8 = (0, v)"
proof -
  let ?x = "word_of_int \<bar>v\<bar> :: u64"
  have x: "uint ?x = \<bar>v\<bar>"
    unfolding uint_word_of_int_eq by (rule take_bit_int_eq_self) (use assms in \<open>auto simp: i64_defs\<close>)
  have e: "sqlite3Int64ToText v = [] @ (if v < 0 then [0x2d] else []) @ int_digits ?x [] @ []"
    by (simp add: sqlite3Int64ToText_def Let_def i64_defs push_bit_eq_mult)
  note d = int_digits_value [of ?x "[]"]
  have "sqlite3Atoi64 (sqlite3Int64ToText v) SQLITE_UTF8 =
      atoi_answer ((if v < 0 then [0x2d :: byte] else []) = [0x2d]) (dec_val (int_digits ?x [])) (if False \<or> \<not> list_all sqlite3Isspace ([] :: byte list) then 1 else 0)"
    by (rule Atoi64_value [where sp = "[]" and rest = "[]"]) (use d in \<open>simp_all add: atoi_text_def e\<close>)
  with x d assms show ?thesis by (auto simp: atoi_answer_def clamp64_def i64_defs)
qed

lemma Int64ToText_roundtrip_witness:
  "sqlite3Atoi64 (sqlite3Int64ToText (- (2 ^ 63))) SQLITE_UTF8 = (0, - (2 ^ 63))"
  by (rule Int64ToText_roundtrip) (simp add: i64_defs)

section \<open>UTF-16 input\<close>

text \<open>A UTF-16 text as its code units, low byte first.\<close>

definition utf16le :: "(byte \<times> byte) list \<Rightarrow> byte list" where
  "utf16le us = concat (map (\<lambda>(lo, hi). [lo, hi]) us)"

definition utf16be :: "(byte \<times> byte) list \<Rightarrow> byte list" where
  "utf16be us = concat (map (\<lambda>(lo, hi). [hi, lo]) us)"

lemma utf16_nth:
  "k < length us \<Longrightarrow> utf16le us ! (2 * k) = fst (us ! k) \<and> utf16le us ! Suc (2 * k) = snd (us ! k) \<and>
     utf16be us ! (2 * k) = snd (us ! k) \<and> utf16be us ! Suc (2 * k) = fst (us ! k)"
proof (induction us arbitrary: k)
  case (Cons u us)
  then show ?case by (cases k) (auto simp: utf16le_def utf16be_def split: prod.splits)
qed simp

lemma utf16_length: "length (utf16le us) = 2 * length us" "length (utf16be us) = 2 * length us"
  by (induction us) (auto simp: utf16le_def utf16be_def)

definition ascii_units :: "(byte \<times> byte) list \<Rightarrow> nat" where
  "ascii_units us = length (takeWhile (\<lambda>u. snd u = 0) us)"

lemma high_scan_stop:
  assumes "\<And>j. k \<le> j \<Longrightarrow> j < n \<Longrightarrow> b + 2 * j < length z \<and> z ! (b + 2 * j) = 0"
    and "b + 2 * n < length z \<Longrightarrow> z ! (b + 2 * n) \<noteq> 0" and "k \<le> n"
  shows "high_scan z (b + 2 * k) = b + 2 * n"
  using assms(1,3)
proof (induction "n - k" arbitrary: k)
  case 0
  with assms(2) show ?case by (auto simp: high_scan.simps [of z "b + 2 * k"])
next
  case (Suc m)
  then have "high_scan z (b + 2 * Suc k) = b + 2 * n" by (intro Suc.hyps(1)) auto
  moreover have "b + 2 * k < length z \<and> z ! (b + 2 * k) = 0" using Suc by auto
  ultimately show ?case by (simp add: high_scan.simps [of z "b + 2 * k"])
qed

lemma low_bytes_map:
  assumes "\<And>j. j < n \<Longrightarrow> b + 2 * j < length z \<and> b + 2 * j < e" and "\<not> (b + 2 * n < e \<and> b + 2 * n < length z)"
    and "k \<le> n"
  shows "low_bytes z (b + 2 * k) e = map (\<lambda>j. z ! (b + 2 * j)) [k..<n]"
  using assms(3)
proof (induction "n - k" arbitrary: k)
  case 0
  with assms(2) show ?case by (simp add: low_bytes.simps [of z "b + 2 * k"])
next
  case (Suc m)
  then have "low_bytes z (b + 2 * Suc k) e = map (\<lambda>j. z ! (b + 2 * j)) [Suc k..<n]" by (intro Suc.hyps(1)) auto
  with Suc assms(1) [of k] show ?case by (simp add: low_bytes.simps [of z "b + 2 * k"] upt_conv_Cons)
qed

lemma atoi_text_utf16:
  "atoi_text (utf16le us) SQLITE_UTF16LE = (map fst (take (ascii_units us) us), ascii_units us < length us)"
  "atoi_text (utf16be us) SQLITE_UTF16BE = (map fst (take (ascii_units us) us), ascii_units us < length us)"
proof -
  let ?n = "ascii_units us"
  have n: "?n \<le> length us" by (simp add: ascii_units_def length_takeWhile_le)
  have z: "snd (us ! j) = 0" if "j < ?n" for j
    using set_takeWhileD [of "takeWhile (\<lambda>u. snd u = 0) us ! j" "\<lambda>u. snd u = 0" us] that
      nth_mem [of j "takeWhile (\<lambda>u. snd u = 0) us"] by (simp add: ascii_units_def takeWhile_nth)
  have nz: "snd (us ! ?n) \<noteq> 0" if "?n < length us"
    using nth_length_takeWhile [of "\<lambda>u. snd u = 0" us] that by (simp add: ascii_units_def)
  have ev: "length (utf16le us) mod 2 = 0" "length (utf16be us) mod 2 = 0" by (simp_all add: utf16_length)
  have hl: "high_scan (utf16le us) (1 + 2 * 0) = 1 + 2 * ?n"
    by (rule high_scan_stop) (use n z nz utf16_nth in \<open>auto simp: utf16_length\<close>)
  have hb: "high_scan (utf16be us) (0 + 2 * 0) = 0 + 2 * ?n"
    by (rule high_scan_stop) (use n z nz utf16_nth in \<open>auto simp: utf16_length\<close>)
  have ll: "low_bytes (utf16le us) (0 + 2 * 0) (2 * ?n) = map (\<lambda>j. utf16le us ! (0 + 2 * j)) [0..<?n]"
    by (rule low_bytes_map) (use n in \<open>auto simp: utf16_length\<close>)
  have lb: "low_bytes (utf16be us) (1 + 2 * 0) (Suc (2 * ?n)) = map (\<lambda>j. utf16be us ! (1 + 2 * j)) [0..<?n]"
    by (rule low_bytes_map) (use n in \<open>auto simp: utf16_length\<close>)
  have tk: "map (\<lambda>j. fst (us ! j)) [0..<?n] = map fst (take ?n us)"
    by (rule nth_equalityI) (use n in auto)
  have x: "(1 + 2 * ?n) XOR 1 = 2 * ?n" "(2 * ?n) XOR 1 = Suc (2 * ?n)"
    using xor_one_eq [of "1 + 2 * ?n"] xor_one_eq [of "2 * ?n"] by simp_all
  have m: "map (\<lambda>j. utf16le us ! (0 + 2 * j)) [0..<?n] = map fst (take ?n us)"
    "map (\<lambda>j. utf16be us ! (1 + 2 * j)) [0..<?n] = map fst (take ?n us)"
    unfolding tk [symmetric] using n utf16_nth by auto
  show "atoi_text (utf16le us) SQLITE_UTF16LE = (map fst (take ?n us), ?n < length us)"
    using hl ll x m ev by (auto simp: atoi_text_def Let_def utf16_length)
  show "atoi_text (utf16be us) SQLITE_UTF16BE = (map fst (take ?n us), ?n < length us)"
    using hb lb x m ev by (auto simp: atoi_text_def Let_def utf16_length)
qed

lemma Atoi64_text: "atoi_text z e = atoi_text z1 e1 \<Longrightarrow> sqlite3Atoi64 z e = sqlite3Atoi64 z1 e1"
  unfolding sqlite3Atoi64_def by simp

text \<open>
  The byte order of UTF-16 makes no difference to sqlite3Atoi64, and a UTF-16 text
  whose high bytes are all zero is converted as the UTF-8 text of its low bytes.
\<close>
theorem Atoi64_encodings:
  "sqlite3Atoi64 (utf16le us) SQLITE_UTF16LE = sqlite3Atoi64 (utf16be us) SQLITE_UTF16BE \<and>
   sqlite3Atoi64 (utf16le (map (\<lambda>c. (c, 0)) cs)) SQLITE_UTF16LE = sqlite3Atoi64 cs SQLITE_UTF8"
proof -
  have a: "ascii_units (map (\<lambda>c. (c, 0)) cs) = length cs"
    by (simp add: ascii_units_def takeWhile_map comp_def takeWhile_eq_all_conv [THEN iffD2])
  have "atoi_text (utf16le (map (\<lambda>c. (c, 0)) cs)) SQLITE_UTF16LE = (cs, False)"
    using atoi_text_utf16(1) [of "map (\<lambda>c. (c, 0)) cs"] by (simp add: a comp_def)
  then have b: "atoi_text (utf16le (map (\<lambda>c. (c, 0)) cs)) SQLITE_UTF16LE = atoi_text cs SQLITE_UTF8"
    by (simp add: atoi_text_def)
  have c: "atoi_text (utf16le us) SQLITE_UTF16LE = atoi_text (utf16be us) SQLITE_UTF16BE"
    by (simp only: atoi_text_utf16)
  show ?thesis using Atoi64_text [OF b] Atoi64_text [OF c] by simp
qed

section \<open>Hexadecimal\<close>

lemma HexToInt_table: "list_all (\<lambda>n. sqlite3HexToInt (hexdigits ! n) = word_of_nat n) [0..<16]"
  by code_simp

lemma HexToInt_digits: "n < 16 \<Longrightarrow> sqlite3HexToInt (hexdigits ! n) = word_of_nat n"
  using HexToInt_table by (simp add: list_all_iff del: upt.simps)

lemma nibble: "unat (x AND 0xf :: byte) < 16"
proof -
  have "x AND 0xf = take_bit 4 x" using take_bit_eq_mask [of 4 x] by (simp add: mask_eq_exp_minus_1)
  then show ?thesis by (simp add: unsigned_take_bit_eq take_bit_nat_less_exp [of 4, simplified])
qed

lemma nibbles_join: "push_bit 4 (drop_bit 4 c AND 0xf) OR (c AND 0xf) = (c :: byte)"
proof -
  have m: "x AND 0xf = take_bit 4 x" for x :: byte
    using take_bit_eq_mask [of 4 x] by (simp add: mask_eq_exp_minus_1)
  show ?thesis unfolding m
    by (rule bit_word_eqI) (auto simp: bit_simps)
qed

text \<open>
  A blob literal read from the text the SQL function hex() makes of a blob is that blob.
\<close>
theorem HexToBlob_roundtrip: "sqlite3HexToBlob (hexFunc blob) = blob"
  unfolding sqlite3HexToBlob_def
proof (induction blob)
  case (Cons c blob)
  have n: "sqlite3HexToInt (hexdigits ! unat (x AND 0xf)) = x AND 0xf" for x :: byte
    using HexToInt_digits [OF nibble, of x] by simp
  have "hex_pairs (hexFunc (c # blob)) =
      (push_bit 4 (drop_bit 4 c AND 0xf) OR (c AND 0xf)) # hex_pairs (hexFunc blob)"
    unfolding hexFunc_def list.map concat.simps append_Cons append_Nil hex_pairs.simps n ..
  with Cons show ?case by (simp only: nibbles_join)
qed (simp add: hexFunc_def)

section \<open>32-bit integers\<close>

lemma digit_is_dec [simp]: "sqlite3Isdigit c = is_dec c"
  by (simp add: ctype_char is_dec_unat)

lemma takeWhile_take: "takeWhile P (take n xs) = take n (takeWhile P xs)"
  by (induction xs arbitrary: n) (auto simp: take_Cons split: nat.split)

lemma getInt32_dec_value:
  assumes "ds \<noteq> []" "list_all is_dec ds" "rest = [] \<or> \<not> is_dec (hd rest)"
  shows "getInt32_dec neg (ds @ rest) =
    (let v = (if neg then - dec_val ds else dec_val ds) in if - (2 ^ 31) \<le> v \<and> v < 2 ^ 31 then Some v else None)"
proof -
  define ds1 where "ds1 = dropWhile (\<lambda>c. c = 0x30) ds"
  note p = dropWhile_zero_parts [OF assms(2,3), folded ds1_def]
  have d: "is_dec (chat (ds @ rest) 0)" using assms(1,2) by (cases ds) (auto simp: chat_def)
  have t: "takeWhile is_dec (take 11 (ds1 @ rest)) = take 11 ds1" by (simp only: takeWhile_take p(2))
  have v: "dec_val ds1 = dec_val ds" unfolding ds1_def by (rule dec_val_zeros)
  show ?thesis
  proof (cases "length ds1 > 10")
    case True
    then have "(10 :: int) ^ 10 \<le> 10 ^ (length ds1 - 1)" by (intro power_increasing) auto
    moreover have "ds1 \<noteq> []" using True by auto
    ultimately have "dec_val ds \<ge> 10 ^ 10" using p(4) by linarith
    with True d show ?thesis unfolding getInt32_dec_def p(1) t Let_def by simp
  next
    case False
    then have "foldl (\<lambda>v c. v * 10 + (sint c - 0x30)) 0 (take 11 ds1) = dec_val ds"
      using foldl_dec [of 0 ds1] v by simp
    with False d p(6) show ?thesis unfolding getInt32_dec_def p(1) t Let_def by auto
  qed
qed

text \<open>
  sqlite3GetInt32 on a decimal text, optional sign, digits and anything after them,
  answers the value exactly when it fits a 32-bit int.
\<close>
theorem GetInt32_correct:
  assumes "sg \<in> {[], [0x2b], [0x2d]}" and "ds \<noteq> []" and "list_all is_dec ds"
    and "rest = [] \<or> \<not> is_dec (hd rest)"
    and "\<not> (sg = [] \<and> ds = [0x30] \<and> rest \<noteq> [] \<and> (hd rest = 0x78 \<or> hd rest = 0x58))"
  shows "sqlite3GetInt32 (sg @ ds @ rest) =
    (let v = (if sg = [0x2d] then - dec_val ds else dec_val ds) in
     if - (2 ^ 31) \<le> v \<and> v < 2 ^ 31 then Some v else None)"
proof -
  note g = getInt32_dec_value [OF assms(2,3,4)]
  obtain d dt where d: "ds = d # dt" "is_dec d" using assms(2,3) by (cases ds) auto
  then have s: "d \<noteq> 0x2d" "d \<noteq> 0x2b" by auto
  consider (minus) "sg = [0x2d]" | (plus) "sg = [0x2b]" | (none) "sg = []" using assms(1) by auto
  then show ?thesis
  proof cases
    case none
    have "\<not> (chat (ds @ rest) 0 = 0x30 \<and> (chat (ds @ rest) 1 = 0x78 \<or> chat (ds @ rest) 1 = 0x58))"
    proof (cases dt)
      case Nil
      with assms(5) none d show ?thesis by (cases rest) (auto simp: chat_def)
    next
      case (Cons e et)
      with assms(3) d(1) have "is_dec e" by simp
      with Cons d(1) show ?thesis by (auto simp: chat_def is_dec_def)
    qed
    moreover have "chat (ds @ rest) 0 = d" using d by (simp add: chat_def)
    ultimately show ?thesis using none s g by (auto simp: sqlite3GetInt32_def)
  qed (use g in \<open>simp_all add: sqlite3GetInt32_def chat_def\<close>)
qed

lemma GetInt32_correct_witness:
  "sqlite3GetInt32 [0x2d, 0x32, 0x31, 0x34, 0x37, 0x34, 0x38, 0x33, 0x36, 0x34, 0x38] = Some (- (2 ^ 31))"
  using GetInt32_correct [of "[0x2d]" "[0x32, 0x31, 0x34, 0x37, 0x34, 0x38, 0x33, 0x36, 0x34, 0x38]" "[]"]
  by (simp add: is_dec_def)

lemma getUInt32_loop_value:
  assumes "uint v \<le> 2 ^ 32"
  shows "getUInt32_loop i v z =
    (let t = uint v * 10 ^ length z + dec_val z in
     if list_all is_dec z \<and> 0 < i + length z \<and> t \<le> 2 ^ 32 then Some (word_of_int t) else None)"
  using assms
proof (induction z arbitrary: i v)
  case Nil
  then show ?case by simp
next
  case (Cons c z)
  show ?case
  proof (cases "is_dec c")
    case True
    then have c: "0 \<le> sint c - 0x30" "sint c - 0x30 \<le> 9" by (auto simp: is_dec_def)
    let ?v = "v * 10 + word_of_int (sint c) - 0x30"
    have w: "?v = word_of_int (uint v * 10 + sint c - 0x30)" by simp
    have v0: "0 \<le> uint v * 10" by simp
    have uv: "uint ?v = uint v * 10 + sint c - 0x30"
      unfolding w uint_word_of_int_eq
      by (rule take_bit_int_eq_self) (use c Cons.prems v0 in linarith, use c Cons.prems in simp)
    have t: "uint v * 10 ^ length (c # z) + dec_val (c # z) = uint ?v * 10 ^ length z + dec_val z"
      unfolding uv by (simp add: algebra_simps)
    have "uint (4294967296 :: u64) = 2 ^ 32" by simp
    then have g: "?v > 4294967296 \<longleftrightarrow> \<not> uint ?v \<le> 2 ^ 32" by (simp only: word_less_alt not_le)
    have l: "getUInt32_loop i v (c # z) = (if ?v > 4294967296 then None else getUInt32_loop (Suc i) ?v z)"
      using True by (simp add: Let_def)
    show ?thesis
    proof (cases "uint ?v \<le> 2 ^ 32")
      case True
      from Cons.IH [OF True, of "Suc i"] \<open>is_dec c\<close> True show ?thesis
        unfolding l g t by simp
    next
      case False
      then have n: "getUInt32_loop i v (c # z) = None" unfolding l g by simp
      show ?thesis
      proof (cases "list_all is_dec z")
        case True
        have "uint ?v * 1 \<le> uint ?v * 10 ^ length z" by (intro mult_left_mono) simp_all
        with dec_val_bounds [OF True] have "uint ?v \<le> uint ?v * 10 ^ length z + dec_val z" by linarith
        with False show ?thesis unfolding n t Let_def by simp
      qed (unfold n Let_def, simp)
    qed
  qed simp
qed

text \<open>
  sqlite3GetUInt32 accepts the decimal texts without sign whose value is at most
  2^32. The bound is one too large: for 2^32 itself, which does not fit, it answers true
  with the value 0.
\<close>
theorem GetUInt32_correct:
  "sqlite3GetUInt32 z =
    (if z \<noteq> [] \<and> list_all is_dec z \<and> dec_val z \<le> 2 ^ 32 then (1, word_of_int (dec_val z)) else (0, 0))"
  using getUInt32_loop_value [of 0 0 z] by (simp add: sqlite3GetUInt32_def Let_def)

lemma GetUInt32_two_32: "sqlite3GetUInt32 [0x34, 0x32, 0x39, 0x34, 0x39, 0x36, 0x37, 0x32, 0x39, 0x36] = (1, 0)"
  using getUInt32_loop_value [of 0 0 "[0x34, 0x32, 0x39, 0x34, 0x39, 0x36, 0x37, 0x32, 0x39, 0x36]"]
  by (simp add: sqlite3GetUInt32_def is_dec_def)

end
