(* ===== verification/Str_Util.thy ===== *)
theory Str_Util
  imports Int_Text "HOL-Library.List_Lexorder"
begin

text \<open>
  Case-insensitive comparison and hashing of identifiers, and the removal of SQL quotes
  (util.c part of sqlite3.c). Strings as in \<open>Int_Text\<close>; a NULL pointer is \<open>None\<close>.
\<close>

section \<open>Comparison and hash\<close>

lemma Tolower_zero: "sqlite3Tolower x = 0 \<longleftrightarrow> x = 0"
proof -
  have "x + 32 \<noteq> 0" if "65 \<le> unat x" "unat x \<le> 90"
  proof
    assume "x + 32 = 0"
    then have "x = - 32" by (simp add: add_eq_0_iff2)
    then show False using that by simp
  qed
  then show ?thesis by (auto simp: Tolower_ascii)
qed

lemma Tolower_0: "sqlite3Tolower 0 = 0"
  by (simp add: Tolower_zero)

lemma Tolower_pos: "c \<noteq> 0 \<Longrightarrow> 0 < uint (sqlite3Tolower c)"
  using Tolower_zero [of c] uint_nonnegative [of "sqlite3Tolower c"]
  by (metis order_le_less uint_0_iff)

lemma uint_Tolower_eq: "uint (sqlite3Tolower c) - uint (sqlite3Tolower x) = 0 \<longleftrightarrow> sqlite3Tolower c = sqlite3Tolower x"
  by (simp add: word_uint_eq_iff)

function sqlite3StrICmp :: "byte list \<Rightarrow> byte list \<Rightarrow> int" where
  "sqlite3StrICmp a b =
     (let c = chat a 0; x = chat b 0 in
      if c = x then (if c = 0 then 0 else sqlite3StrICmp (tl a) (tl b))
      else
        (let d = uint (sqlite3Tolower c) - uint (sqlite3Tolower x) in
         if d \<noteq> 0 then d else sqlite3StrICmp (tl a) (tl b)))"
  by pat_completeness auto
termination
  by (relation "measure (\<lambda>(a, b). length a)") (auto simp: chat_def Tolower_0 split: if_splits dest: Tolower_pos)

declare sqlite3StrICmp.simps [simp del]

definition sqlite3_stricmp :: "byte list option \<Rightarrow> byte list option \<Rightarrow> int" where
  "sqlite3_stricmp zLeft zRight =
     (case zLeft of
        None \<Rightarrow> (if zRight \<noteq> None then - 1 else 0)
      | Some l \<Rightarrow> (case zRight of None \<Rightarrow> 1 | Some r \<Rightarrow> sqlite3StrICmp l r))"

text \<open>The loop of \<open>sqlite3_strnicmp\<close> and its final test of \<open>N\<close>.\<close>

function strnicmp_loop :: "byte list \<Rightarrow> byte list \<Rightarrow> int \<Rightarrow> int" where
  "strnicmp_loop a b N =
     (if N > 0 then
        (if chat a 0 \<noteq> 0 \<and> sqlite3Tolower (chat a 0) = sqlite3Tolower (chat b 0)
         then strnicmp_loop (tl a) (tl b) (N - 1)
         else uint (sqlite3Tolower (chat a 0)) - uint (sqlite3Tolower (chat b 0)))
      else 0)"
  by pat_completeness auto
termination by (relation "measure (\<lambda>(a, b, N). nat N)") auto

declare strnicmp_loop.simps [simp del]

definition sqlite3_strnicmp :: "byte list option \<Rightarrow> byte list option \<Rightarrow> int \<Rightarrow> int" where
  "sqlite3_strnicmp zLeft zRight N =
     (case zLeft of
        None \<Rightarrow> (if zRight \<noteq> None then - 1 else 0)
      | Some l \<Rightarrow> (case zRight of None \<Rightarrow> 1 | Some r \<Rightarrow> strnicmp_loop l r N))"

definition sqlite3StrIHash :: "byte list option \<Rightarrow> byte" where
  "sqlite3StrIHash z = (case z of None \<Rightarrow> 0 | Some s \<Rightarrow> foldl (\<lambda>h c. h + sqlite3Tolower c) 0 s)"

section \<open>Quotes\<close>

text \<open>
  The loop of \<open>sqlite3Dequote\<close>, in place. \<open>None\<close> is reaching the terminator before the
  closing quote, which the source asserts does not happen. The answer is the text before the new terminator.
\<close>

function dequote_loop :: "byte \<Rightarrow> nat \<Rightarrow> nat \<Rightarrow> byte list \<Rightarrow> byte list option" where
  "dequote_loop q i j z =
     (if i \<ge> length z then None
      else if z ! i = q then
        (if chat z (i + 1) = q then dequote_loop q (i + 2) (j + 1) (z[j := q])
         else Some (take j z))
      else dequote_loop q (i + 1) (j + 1) (z[j := z ! i]))"
  by pat_completeness auto
termination by (relation "measure (\<lambda>(q, i, j, z). length z - i)") auto

declare dequote_loop.simps [simp del]

definition sqlite3Dequote :: "byte list \<Rightarrow> byte list option" where
  "sqlite3Dequote z =
     (let q = chat z 0 in
      if \<not> sqlite3Isquote q then Some z
      else dequote_loop (if q = 0x5b then 0x5d else q) 1 0 z)"

text \<open>\<open>sqlite3DequoteToken\<close>, on the \<open>n\<close> bytes of the token.\<close>

definition sqlite3DequoteToken :: "byte list \<Rightarrow> byte list" where
  "sqlite3DequoteToken p =
     (if length p < 2 then p
      else if \<not> sqlite3Isquote (p ! 0) then p
      else if list_ex sqlite3Isquote (butlast (tl p)) then p
      else butlast (tl p))"

section \<open>What they compute\<close>

abbreviation fold_case :: "byte list \<Rightarrow> byte list" where
  "fold_case s \<equiv> map sqlite3Tolower s"

lemma StrICmp_rec:
  "sqlite3StrICmp [] [] = 0"
  "c \<noteq> 0 \<Longrightarrow> sqlite3StrICmp (c # a) [] = uint (sqlite3Tolower c)"
  "c \<noteq> 0 \<Longrightarrow> sqlite3StrICmp [] (c # a) = - uint (sqlite3Tolower c)"
  "c \<noteq> 0 \<Longrightarrow> sqlite3StrICmp (c # a) (x # b) =
     (if sqlite3Tolower c = sqlite3Tolower x then sqlite3StrICmp a b
      else uint (sqlite3Tolower c) - uint (sqlite3Tolower x))"
proof -
  show "sqlite3StrICmp [] [] = 0" by (simp add: sqlite3StrICmp.simps [of "[]"] chat_def)
  assume c: "c \<noteq> 0"
  note p = Tolower_pos [OF c]
  show "sqlite3StrICmp (c # a) [] = uint (sqlite3Tolower c)"
    using c p by (simp add: sqlite3StrICmp.simps [of "c # a"] chat_def Tolower_0)
  show "sqlite3StrICmp [] (c # a) = - uint (sqlite3Tolower c)"
    using c p by (simp add: sqlite3StrICmp.simps [of "[]"] chat_def Tolower_0)
  show "sqlite3StrICmp (c # a) (x # b) = (if sqlite3Tolower c = sqlite3Tolower x then sqlite3StrICmp a b
      else uint (sqlite3Tolower c) - uint (sqlite3Tolower x))"
    using c uint_Tolower_eq [of c x] by (simp add: sqlite3StrICmp.simps [of "c # a"] chat_def Let_def)
qed

lemma StrICmp_order:
  "0 \<notin> set a \<Longrightarrow> 0 \<notin> set b \<Longrightarrow>
   (sqlite3StrICmp a b = 0 \<longleftrightarrow> fold_case a = fold_case b) \<and> (sqlite3StrICmp a b < 0 \<longleftrightarrow> fold_case a < fold_case b)"
proof (induction a arbitrary: b)
  case Nil
  then show ?case
    by (cases b) (use Tolower_pos in \<open>force simp: StrICmp_rec\<close>)+
next
  case (Cons c a)
  show ?case
  proof (cases b)
    case Nil
    with Cons Tolower_pos [of c] show ?thesis by (auto simp: StrICmp_rec)
  next
    case [simp]: (Cons x b1)
    show ?thesis
      using Cons.IH [of b1] Cons.prems
      by (auto simp: StrICmp_rec word_less_alt word_uint_eq_iff)
  qed
qed

lemma StrIHash_fold: "foldl (\<lambda>h c. h + sqlite3Tolower c) h s = foldl (+) h (fold_case s)"
  by (induction s arbitrary: h) auto

text \<open>
  C31: sqlite3StrICmp is the lexicographic order of the case-folded strings: it answers 0
  exactly for strings equal up to ASCII case, a negative number exactly when the first comes before,
  and strings it calls equal have the same sqlite3StrIHash.
\<close>
theorem StrICmp_correct:
  assumes "0 \<notin> set a" and "0 \<notin> set b"
  shows "(sqlite3StrICmp a b = 0 \<longleftrightarrow> fold_case a = fold_case b) \<and>
    (sqlite3StrICmp a b < 0 \<longleftrightarrow> fold_case a < fold_case b) \<and>
    (sqlite3StrICmp a b = 0 \<longrightarrow> sqlite3StrIHash (Some a) = sqlite3StrIHash (Some b))"
  using StrICmp_order [OF assms] by (auto simp: sqlite3StrIHash_def StrIHash_fold)

lemma StrICmp_correct_witness:
  "sqlite3StrICmp [0x41, 0x62] [0x61, 0x42] = 0 \<and> sqlite3StrIHash (Some [0x41, 0x62]) = sqlite3StrIHash (Some [0x61, 0x42])"
  using StrICmp_correct [of "[0x41, 0x62]" "[0x61, 0x42]"] by (simp add: Tolower_ascii)

section \<open>Quoting and dequoting\<close>

text \<open>The text with its closing quote doubled wherever it occurs.\<close>

definition escape_quote :: "byte \<Rightarrow> byte list \<Rightarrow> byte list" where
  "escape_quote q s = concat (map (\<lambda>c. if c = q then [q, q] else [c]) s)"

lemma dequote_loop_correct:
  assumes "q \<noteq> 0" and "rest = [] \<or> hd rest \<noteq> q"
  shows "drop i z = escape_quote q s @ q # rest \<Longrightarrow> j < i \<Longrightarrow> i \<le> length z \<Longrightarrow>
    dequote_loop q i j z = Some (take j z @ s)"
proof (induction s arbitrary: i j z)
  case Nil
  then have i: "i < length z" "z ! i = q" "drop (Suc i) z = rest"
    using drop_ConsD [of i z q rest] by (simp_all add: escape_quote_def)
  have "chat z (Suc i) \<noteq> q"
  proof (cases rest)
    case Nil
    with i assms(1) show ?thesis by (simp add: chat_def)
  next
    case (Cons r rs)
    with i drop_ConsD [of "Suc i" z r rs] assms(2) show ?thesis by (simp add: chat_def)
  qed
  with i show ?case by (simp add: dequote_loop.simps [of q i j z])
next
  case (Cons c s)
  let ?t = "escape_quote q s @ q # rest"
  show ?case
  proof (cases "c = q")
    case True
    with Cons.prems(1) have "drop i z = q # q # ?t" by (simp add: escape_quote_def)
    note a = drop_ConsD [OF this]
    then have b: "Suc i < length z" "z ! Suc i = q" "drop (Suc (Suc i)) z = ?t"
      using drop_ConsD [of "Suc i" z q ?t] by simp_all
    have "dequote_loop q (i + 2) (j + 1) (z[j := q]) = Some (take (j + 1) (z[j := q]) @ s)"
      by (rule Cons.IH) (use b Cons.prems(2) in auto)
    moreover have "j < length z" using a Cons.prems(2) by simp
    ultimately show ?thesis using a b True
      by (simp add: dequote_loop.simps [of q i j z] chat_def take_Suc_update)
  next
    case False
    with Cons.prems(1) have "drop i z = c # ?t" by (simp add: escape_quote_def)
    note a = drop_ConsD [OF this]
    have "dequote_loop q (i + 1) (j + 1) (z[j := c]) = Some (take (j + 1) (z[j := c]) @ s)"
      by (rule Cons.IH) (use a Cons.prems(2) in auto)
    moreover have "j < length z" using a Cons.prems(2) by simp
    ultimately show ?thesis using a False
      by (simp add: dequote_loop.simps [of q i j z] take_Suc_update)
  qed
qed

text \<open>
  sqlite3Dequote undoes SQL quoting: of an opening quote, a text with its closing quote
  doubled and the closing quote, it leaves the text, whatever follows the closing quote.
\<close>
theorem Dequote_roundtrip:
  assumes "(op, q) \<in> {(0x22, 0x22), (0x27, 0x27), (0x60, 0x60), (0x5b, 0x5d)}"
    and "rest = [] \<or> hd rest \<noteq> q"
  shows "sqlite3Dequote (op # escape_quote q s @ q # rest) = Some s"
proof -
  have "dequote_loop q 1 0 (op # escape_quote q s @ q # rest) = Some (take 0 (op # escape_quote q s @ q # rest) @ s)"
    by (rule dequote_loop_correct [where rest = rest]) (use assms in auto)
  moreover have "sqlite3Isquote op" "(if op = 0x5b then 0x5d else op) = q"
    using assms(1) by (auto simp: ctype_char)
  ultimately show ?thesis by (simp add: sqlite3Dequote_def chat_def)
qed

lemma Dequote_roundtrip_witness: "sqlite3Dequote [0x22, 0x61, 0x22, 0x22, 0x62, 0x22] = Some [0x61, 0x22, 0x62]"
  using Dequote_roundtrip [where op = "0x22" and q = "0x22" and rest = "[]" and s = "[0x61, 0x22, 0x62]"]
  by (simp add: escape_quote_def)

end
