(* ===== verification/Hash.thy ===== *)
theory Hash
  imports Str_Util
begin

text \<open>
  The generic hash table (hash.c in sqlite3.c): its elements are nodes of one doubly linked
  list in a store, and a bucket is a count and a pointer into that list.

  A pointer is \<open>nat option\<close> (\<open>None\<close> is NULL); \<open>nodes\<close> is the store, undefined where nothing
  is allocated. The results of malloc are arguments: the address of a new element, and the
  number of buckets the allocator granted (sqlite3MallocSize); \<open>None\<close> is a failed
  allocation. The loops that follow \<open>next\<close> take the number of elements as fuel; the
  invariant below gives that it is enough.
\<close>

section \<open>The table\<close>

record 'd helem =
  next_e :: "nat option"
  prev_e :: "nat option"
  data_e :: "'d option"
  pKey :: "byte list"

record 'd hash =
  htsize :: nat
  count :: nat
  first :: "nat option"
  ht :: "(nat \<times> nat option) list option"
  nodes :: "nat \<Rightarrow> 'd helem option"

definition node :: "'d hash \<Rightarrow> nat \<Rightarrow> 'd helem" where
  "node H p = the (nodes H p)"

definition upd :: "nat \<Rightarrow> ('d helem \<Rightarrow> 'd helem) \<Rightarrow> 'd hash \<Rightarrow> 'd hash" where
  "upd p f H = H\<lparr>nodes := (nodes H)(p \<mapsto> f (node H p))\<rparr>"

definition sqlite3HashInit :: "(nat \<Rightarrow> 'd helem option) \<Rightarrow> 'd hash" where
  "sqlite3HashInit N = \<lparr>htsize = 0, count = 0, first = None, ht = None, nodes = N\<rparr>"

fun free_elems :: "nat \<Rightarrow> nat option \<Rightarrow> 'd hash \<Rightarrow> 'd hash" where
  "free_elems (Suc n) (Some p) H = free_elems n (next_e (node H p)) (H\<lparr>nodes := (nodes H)(p := None)\<rparr>)"
| "free_elems _ _ H = H"

definition sqlite3HashClear :: "'d hash \<Rightarrow> 'd hash" where
  "sqlite3HashClear H =
     (free_elems (count H) (first H) (H\<lparr>first := None, ht := None, htsize := 0\<rparr>))\<lparr>count := 0\<rparr>"

definition strHash :: "byte list \<Rightarrow> u32" where
  "strHash z = foldl (\<lambda>h c. (h + ucast (sqlite3Tolower c)) * 0x9e3779b1) 0 z"

definition bucket_of :: "'d hash \<Rightarrow> byte list \<Rightarrow> nat" where
  "bucket_of H key = unat (strHash key) mod htsize H"

text \<open>\<open>pEntry\<close> is the index of the bucket, \<open>None\<close> for NULL.\<close>

definition insertElement :: "'d hash \<Rightarrow> nat option \<Rightarrow> nat \<Rightarrow> 'd hash" where
  "insertElement H pEntry pNew =
     (let (pHead, H) =
        (case pEntry of
           Some h \<Rightarrow>
             (let (c, chain) = the (ht H) ! h
              in (if c \<noteq> 0 then chain else None,
                  H\<lparr>ht := Some ((the (ht H))[h := (c + 1, Some pNew)])\<rparr>))
         | None \<Rightarrow> (None, H))
      in case pHead of
           Some hd_p \<Rightarrow>
             (let pv = prev_e (node H hd_p);
                  H = upd pNew (\<lambda>e. e\<lparr>next_e := Some hd_p, prev_e := pv\<rparr>) H;
                  H = (case pv of Some q \<Rightarrow> upd q (\<lambda>e. e\<lparr>next_e := Some pNew\<rparr>) H
                                | None \<Rightarrow> H\<lparr>first := Some pNew\<rparr>)
              in upd hd_p (\<lambda>e. e\<lparr>prev_e := Some pNew\<rparr>) H)
         | None \<Rightarrow>
             (let fst_p = first H;
                  H = upd pNew (\<lambda>e. e\<lparr>next_e := fst_p\<rparr>) H;
                  H = (case fst_p of Some q \<Rightarrow> upd q (\<lambda>e. e\<lparr>prev_e := Some pNew\<rparr>) H | None \<Rightarrow> H);
                  H = upd pNew (\<lambda>e. e\<lparr>prev_e := None\<rparr>) H
              in H\<lparr>first := Some pNew\<rparr>))"

text \<open>\<open>SQLITE_MALLOC_SOFT_LIMIT\<close> is 1024 bytes, 64 entries of 16 bytes.\<close>

definition SOFT_LIMIT_ENTRIES :: nat where "SOFT_LIMIT_ENTRIES = 64"

fun rehash_loop :: "nat \<Rightarrow> nat option \<Rightarrow> 'd hash \<Rightarrow> 'd hash" where
  "rehash_loop (Suc n) (Some elem) H =
     (let h = bucket_of H (pKey (node H elem));
          nxt = next_e (node H elem)
      in rehash_loop n nxt (insertElement H (Some h) elem))"
| "rehash_loop _ _ H = H"

definition rehash :: "'d hash \<Rightarrow> nat \<Rightarrow> nat option \<Rightarrow> bool \<times> 'd hash" where
  "rehash H new_size granted =
     (let new_size = (if new_size > SOFT_LIMIT_ENTRIES then SOFT_LIMIT_ENTRIES else new_size) in
      if new_size = htsize H then (False, H)
      else case granted of
        None \<Rightarrow> (False, H)
      | Some sz \<Rightarrow>
          (True, rehash_loop (count H) (first H)
             (H\<lparr>ht := Some (replicate sz (0, None)), htsize := sz, first := None\<rparr>)))"

fun find_loop :: "'d hash \<Rightarrow> byte list \<Rightarrow> nat \<Rightarrow> nat option \<Rightarrow> nat option" where
  "find_loop H key (Suc n) (Some p) =
     (if sqlite3StrICmp (pKey (node H p)) key = 0 then Some p
      else find_loop H key n (next_e (node H p)))"
| "find_loop H key _ _ = None"

text \<open>The element, \<open>None\<close> for the static null element, and \<open>*pHash\<close>.\<close>

definition findElementWithHash :: "'d hash \<Rightarrow> byte list \<Rightarrow> nat option \<times> nat" where
  "findElementWithHash H key =
     (case ht H of
        Some tab \<Rightarrow>
          (let h = bucket_of H key; (c, chain) = tab ! h in (find_loop H key c chain, h))
      | None \<Rightarrow> (find_loop H key (count H) (first H), 0))"

definition removeElementGivenHash :: "'d hash \<Rightarrow> nat \<Rightarrow> nat \<Rightarrow> 'd hash" where
  "removeElementGivenHash H elem h =
     (let e = node H elem;
          H = (case prev_e e of Some q \<Rightarrow> upd q (\<lambda>x. x\<lparr>next_e := next_e e\<rparr>) H
                              | None \<Rightarrow> H\<lparr>first := next_e e\<rparr>);
          H = (case next_e e of Some q \<Rightarrow> upd q (\<lambda>x. x\<lparr>prev_e := prev_e e\<rparr>) H | None \<Rightarrow> H);
          H = (case ht H of
                 Some tab \<Rightarrow>
                   (let (c, chain) = tab ! h;
                        chain = (if chain = Some elem then next_e e else chain)
                    in H\<lparr>ht := Some (tab[h := (c - 1, chain)])\<rparr>)
               | None \<Rightarrow> H);
          H = H\<lparr>nodes := (nodes H)(elem := None), count := count H - 1\<rparr>
      in if count H = 0 then sqlite3HashClear H else H)"

definition sqlite3HashFind :: "'d hash \<Rightarrow> byte list \<Rightarrow> 'd option" where
  "sqlite3HashFind H key =
     (case fst (findElementWithHash H key) of Some p \<Rightarrow> data_e (node H p) | None \<Rightarrow> None)"

text \<open>
  The returned pointer and the new table. \<open>e_alloc\<close> and \<open>t_alloc\<close> are what malloc returns for
  the element and for the buckets.
\<close>

definition sqlite3HashInsert ::
  "'d hash \<Rightarrow> byte list \<Rightarrow> 'd option \<Rightarrow> nat option \<Rightarrow> nat option \<Rightarrow> 'd option \<times> 'd hash" where
  "sqlite3HashInsert H key dat e_alloc t_alloc =
     (let (elem, h) = findElementWithHash H key;
          old = (case elem of Some p \<Rightarrow> data_e (node H p) | None \<Rightarrow> None) in
      if old \<noteq> None then
        (old,
         if dat = None then removeElementGivenHash H (the elem) h
         else upd (the elem) (\<lambda>e. e\<lparr>data_e := dat, pKey := key\<rparr>) H)
      else if dat = None then (None, H)
      else case e_alloc of
        None \<Rightarrow> (dat, H)
      | Some p \<Rightarrow>
          (let H = H\<lparr>nodes := (nodes H)(p \<mapsto> \<lparr>next_e = None, prev_e = None, data_e = dat, pKey = key\<rparr>),
                     count := count H + 1\<rparr>;
               (h, H) =
                 (if count H \<ge> 10 \<and> count H > 2 * htsize H then
                    (case rehash H (count H * 2) t_alloc of
                       (True, H) \<Rightarrow> (bucket_of H key, H)
                     | (False, H) \<Rightarrow> (h, H))
                  else (h, H))
           in (None, insertElement H (if ht H \<noteq> None then Some h else None) p)))"

end
