(* ===== verification/Hash_Props.thy ===== *)
theory Hash_Props
  imports Hash
begin

text \<open>
  The hash table implements a finite map from case-folded keys to data: the linked list and
  bucket invariant, its preservation by every operation, and the map each operation computes.
\<close>

section \<open>Doubly linked segments\<close>

text \<open>
  \<open>dll N prv f xs nxt\<close>: from pointer \<open>f\<close> the store holds the nodes \<open>xs\<close>, linked both ways,
  the first with previous pointer \<open>prv\<close> and the last with next pointer \<open>nxt\<close>.
\<close>

fun dll :: "(nat \<Rightarrow> 'd helem option) \<Rightarrow> nat option \<Rightarrow> nat option \<Rightarrow> nat list \<Rightarrow> nat option \<Rightarrow> bool" where
  "dll N prv f [] nxt = (f = nxt)"
| "dll N prv f (x # xs) nxt =
     (f = Some x \<and> (\<exists>e. N x = Some e \<and> prev_e e = prv \<and> dll N (Some x) (next_e e) xs nxt))"

definition headp :: "nat list \<Rightarrow> nat option \<Rightarrow> nat option" where
  "headp xs nxt = (if xs = [] then nxt else Some (hd xs))"

definition lastp :: "nat option \<Rightarrow> nat list \<Rightarrow> nat option" where
  "lastp prv xs = (if xs = [] then prv else Some (last xs))"

lemma headp_simps [simp]: "headp [] n = n" "headp (x # xs) n = Some x"
  by (simp_all add: headp_def)

lemma lastp_simps [simp]: "lastp p [] = p" "lastp p (xs @ [x]) = Some x"
  by (simp_all add: lastp_def)

lemma dll_head: "dll N prv f xs nxt \<Longrightarrow> f = headp xs nxt"
  by (cases xs) auto

lemma dll_append:
  "dll N prv f (xs @ ys) nxt \<longleftrightarrow> dll N prv f xs (headp ys nxt) \<and> dll N (lastp prv xs) (headp ys nxt) ys nxt"
proof (induction xs arbitrary: prv f)
  case Nil
  then show ?case by (auto dest: dll_head)
next
  case (Cons x xs)
  have "lastp prv (x # xs) = lastp (Some x) xs" by (simp add: lastp_def)
  with Cons show ?case by auto
qed

lemma dll_frame: "(\<And>x. x \<in> set xs \<Longrightarrow> M x = N x) \<Longrightarrow> dll N prv f xs nxt \<Longrightarrow> dll M prv f xs nxt"
  by (induction xs arbitrary: prv f) auto

lemma dll_alloc: "dll N prv f xs nxt \<Longrightarrow> x \<in> set xs \<Longrightarrow> N x \<noteq> None"
  by (induction xs arbitrary: prv f) auto

lemma dll_set_prev:
  assumes "dll N prv f (x # xs) nxt" and "x \<notin> set xs"
  shows "dll (N(x \<mapsto> (the (N x))\<lparr>prev_e := q\<rparr>)) q f (x # xs) nxt"
proof -
  from assms(1) obtain e where e: "f = Some x" "N x = Some e" "dll N (Some x) (next_e e) xs nxt" by auto
  have "dll (N(x \<mapsto> (the (N x))\<lparr>prev_e := q\<rparr>)) (Some x) (next_e e) xs nxt"
    by (rule dll_frame [OF _ e(3)]) (use assms(2) in auto)
  with e show ?thesis by simp
qed

lemma dll_set_next:
  assumes "dll N prv f (xs @ [x]) nxt" and "x \<notin> set xs"
  shows "dll (N(x \<mapsto> (the (N x))\<lparr>next_e := q\<rparr>)) prv f (xs @ [x]) q"
proof -
  from assms(1) have "dll N prv f xs (Some x)" "dll N (lastp prv xs) (Some x) [x] nxt"
    by (simp_all add: dll_append del: dll.simps)
  moreover from this(1) have "dll (N(x \<mapsto> (the (N x))\<lparr>next_e := q\<rparr>)) prv f xs (Some x)"
    by (rule dll_frame [rotated]) (use assms(2) in auto)
  ultimately show ?thesis by (auto simp: dll_append)
qed

text \<open>What a change of links leaves alone: the key and the data of a node.\<close>

definition payload :: "'d helem \<Rightarrow> byte list \<times> 'd option" where
  "payload e = (pKey e, data_e e)"

definition same_payload :: "(nat \<Rightarrow> 'd helem option) \<Rightarrow> (nat \<Rightarrow> 'd helem option) \<Rightarrow> bool" where
  "same_payload M N \<longleftrightarrow> (\<forall>x. map_option payload (M x) = map_option payload (N x))"

lemma same_payload_trans: "same_payload L M \<Longrightarrow> same_payload M N \<Longrightarrow> same_payload L N"
  by (simp add: same_payload_def)

lemma same_payload_upd:
  "N x \<noteq> None \<Longrightarrow> payload (f (the (N x))) = payload (the (N x)) \<Longrightarrow> same_payload (N(x \<mapsto> f (the (N x)))) N"
  by (auto simp: same_payload_def)

lemma same_payload_node:
  "same_payload M N \<Longrightarrow> N x \<noteq> None \<Longrightarrow> pKey (the (M x)) = pKey (the (N x)) \<and> data_e (the (M x)) = data_e (the (N x))"
  by (cases "M x"; cases "N x") (auto simp: same_payload_def payload_def dest!: spec [of _ x])

section \<open>Inserting into and removing from the list\<close>

definition ins_before :: "nat \<Rightarrow> nat \<Rightarrow> nat list \<Rightarrow> nat list" where
  "ins_before p n xs = takeWhile (\<lambda>x. x \<noteq> p) xs @ n # dropWhile (\<lambda>x. x \<noteq> p) xs"

lemma ins_before_split: "p \<notin> set as \<Longrightarrow> ins_before p n (as @ p # bs) = as @ n # p # bs"
  by (auto simp: ins_before_def takeWhile_append dropWhile_append)

text \<open>Linking the allocated node \<open>n\<close> before \<open>p\<close>.\<close>

lemma dll_insert_before:
  assumes d: "dll N None f (as @ p # bs) None" and dist: "distinct (as @ p # bs)" and n: "n \<notin> set (as @ p # bs)"
    and N: "N n = Some e"
  defines "pv \<equiv> prev_e (the (N p))"
  defines "N1 \<equiv> N(n \<mapsto> e\<lparr>next_e := Some p, prev_e := pv\<rparr>)"
  defines "N2 \<equiv> (case pv of Some q \<Rightarrow> N1(q \<mapsto> (the (N1 q))\<lparr>next_e := Some n\<rparr>) | None \<Rightarrow> N1)"
  defines "N3 \<equiv> N2(p \<mapsto> (the (N2 p))\<lparr>prev_e := Some n\<rparr>)"
  shows "dll N3 None (if pv = None then Some n else f) (as @ n # p # bs) None" and "same_payload N3 N"
    and "z \<notin> set (as @ n # p # bs) \<Longrightarrow> N3 z = N z"
proof -
  from d have d1: "dll N None f as (Some p)" and d2: "dll N (lastp None as) (Some p) (p # bs) None"
    by (simp_all add: dll_append del: dll.simps)
  from d2 obtain ep where ep: "N p = Some ep" "prev_e ep = lastp None as" by auto
  then have pv: "pv = lastp None as" by (simp add: pv_def)
  have d2': "dll N2 (lastp None as) (Some p) (p # bs) None"
  proof (rule dll_frame [OF _ d2])
    fix x assume "x \<in> set (p # bs)"
    moreover have "y \<in> set as" if "pv = Some y" for y using that pv by (auto simp: lastp_def split: if_splits)
    ultimately have "x \<noteq> n" "pv \<noteq> Some x" using n dist by auto
    then show "N2 x = N x" by (auto simp: N2_def N1_def split: option.split)
  qed
  have "dll (N2(p \<mapsto> (the (N2 p))\<lparr>prev_e := Some n\<rparr>)) (Some n) (Some p) (p # bs) None"
    by (rule dll_set_prev [OF d2']) (use dist in simp)
  then have d3: "dll N3 (Some n) (Some p) (p # bs) None" by (simp only: N3_def)
  have nn: "N3 n = Some (e\<lparr>next_e := Some p, prev_e := pv\<rparr>)"
  proof -
    have "pv \<noteq> Some n" using n pv by (auto simp: lastp_def)
    moreover have "p \<noteq> n" using n by auto
    ultimately show ?thesis by (auto simp: N3_def N2_def N1_def split: option.split)
  qed
  have d4: "dll N3 None (if pv = None then Some n else f) as (Some n)"
  proof (cases as rule: rev_cases)
    case Nil
    with pv show ?thesis by simp
  next
    case (snoc as1 a)
    have "dll N1 None f (as1 @ [a]) (Some p)"
      by (rule dll_frame [OF _ d1 [unfolded snoc]]) (use n snoc in \<open>auto simp: N1_def\<close>)
    then have "dll (N1(a \<mapsto> (the (N1 a))\<lparr>next_e := Some n\<rparr>)) None f (as1 @ [a]) (Some n)"
      by (rule dll_set_next) (use dist snoc in auto)
    then have "dll N2 None f as (Some n)" using pv snoc by (simp add: N2_def)
    then have "dll N3 None f as (Some n)" by (rule dll_frame [rotated]) (use dist in \<open>auto simp: N3_def\<close>)
    with pv snoc show ?thesis by simp
  qed
  show "dll N3 None (if pv = None then Some n else f) (as @ n # p # bs) None"
    using d3 d4 nn pv by (auto simp: dll_append)
  have "pv = Some y \<Longrightarrow> y \<in> set as" for y using pv by (auto simp: lastp_def split: if_splits)
  then show "z \<notin> set (as @ n # p # bs) \<Longrightarrow> N3 z = N z"
    by (auto simp: N3_def N2_def N1_def split: option.split)
  have "same_payload N1 N" using N by (auto simp: same_payload_def N1_def payload_def)
  moreover have "same_payload N2 N1"
  proof (cases pv)
    case (Some q)
    then have "q \<in> set as" using pv by (auto simp: lastp_def split: if_splits)
    then have "N1 q \<noteq> None" using dll_alloc [OF d1] by (auto simp: N1_def)
    with Some show ?thesis by (auto simp: N2_def same_payload_def payload_def)
  qed (simp add: N2_def same_payload_def)
  moreover have "same_payload N3 N2"
  proof -
    have "N2 p \<noteq> None" using d2' by auto
    then show ?thesis by (auto simp: N3_def same_payload_def payload_def)
  qed
  ultimately show "same_payload N3 N" using same_payload_trans by blast
qed

text \<open>Linking the allocated node \<open>n\<close> at the head.\<close>

lemma dll_insert_head:
  assumes d: "dll N None f xs None" and dist: "distinct xs" and n: "n \<notin> set xs" and N: "N n = Some e"
  defines "N1 \<equiv> N(n \<mapsto> e\<lparr>next_e := f\<rparr>)"
  defines "N2 \<equiv> (case f of Some q \<Rightarrow> N1(q \<mapsto> (the (N1 q))\<lparr>prev_e := Some n\<rparr>) | None \<Rightarrow> N1)"
  defines "N3 \<equiv> N2(n \<mapsto> (the (N2 n))\<lparr>prev_e := None\<rparr>)"
  shows "dll N3 None (Some n) (n # xs) None" and "same_payload N3 N"
    and "z \<notin> set (n # xs) \<Longrightarrow> N3 z = N z"
proof -
  have d1: "dll N1 None f xs None" by (rule dll_frame [OF _ d]) (use n in \<open>auto simp: N1_def\<close>)
  have d2: "dll N2 (Some n) f xs None"
  proof (cases xs)
    case Nil
    with d show ?thesis by (simp add: N2_def)
  next
    case (Cons q qs)
    have "dll (N1(q \<mapsto> (the (N1 q))\<lparr>prev_e := Some n\<rparr>)) (Some n) f (q # qs) None"
      by (rule dll_set_prev) (use d1 Cons dist in auto)
    with Cons d show ?thesis by (simp add: N2_def)
  qed
  have fn: "f \<noteq> Some n" using dll_head [OF d] n by (cases xs) auto
  then have n2: "N2 n = Some (e\<lparr>next_e := f\<rparr>)" by (auto simp: N2_def N1_def split: option.split)
  have "dll N3 (Some n) f xs None" by (rule dll_frame [OF _ d2]) (use n in \<open>auto simp: N3_def\<close>)
  with n2 show "dll N3 None (Some n) (n # xs) None" by (simp add: N3_def)
  have "f = Some y \<Longrightarrow> y \<in> set xs" for y using dll_head [OF d] by (cases xs) auto
  then show "z \<notin> set (n # xs) \<Longrightarrow> N3 z = N z"
    by (auto simp: N3_def N2_def N1_def split: option.split)
  have "same_payload N1 N" using N by (auto simp: same_payload_def N1_def payload_def)
  moreover have "same_payload N2 N1"
  proof (cases f)
    case (Some q)
    then have "q \<in> set xs" using dll_head [OF d] by (cases xs) auto
    then have "N1 q \<noteq> None" using dll_alloc [OF d1] by auto
    with Some show ?thesis by (auto simp: N2_def same_payload_def payload_def)
  qed (simp add: N2_def same_payload_def)
  moreover have "same_payload N3 N2" using n2 by (auto simp: N3_def same_payload_def payload_def)
  ultimately show "same_payload N3 N" using same_payload_trans by blast
qed

text \<open>Unlinking a node.\<close>

lemma dll_unlink:
  assumes d: "dll N None f (as @ x # bs) None" and dist: "distinct (as @ x # bs)"
  defines "e \<equiv> the (N x)"
  defines "N1 \<equiv> (case prev_e e of Some q \<Rightarrow> N(q \<mapsto> (the (N q))\<lparr>next_e := next_e e\<rparr>) | None \<Rightarrow> N)"
  defines "N2 \<equiv> (case next_e e of Some q \<Rightarrow> N1(q \<mapsto> (the (N1 q))\<lparr>prev_e := prev_e e\<rparr>) | None \<Rightarrow> N1)"
  shows "dll N2 None (if prev_e e = None then next_e e else f) (as @ bs) None" and "same_payload N2 N"
    and "next_e e = headp bs None"
proof -
  from d have d1: "dll N None f as (Some x)" and d2: "dll N (lastp None as) (Some x) (x # bs) None"
    by (simp_all add: dll_append del: dll.simps)
  from d2 have e: "N x = Some e" "prev_e e = lastp None as" and d3: "dll N (Some x) (next_e e) bs None"
    by (auto simp: e_def)
  from d3 have nx: "next_e e = headp bs None" by (rule dll_head)
  then show "next_e e = headp bs None" .
  have la: "lastp None as = Some q \<Longrightarrow> q \<in> set as" for q by (auto simp: lastp_def split: if_splits)
  have a1: "dll N1 None (if prev_e e = None then next_e e else f) as (next_e e)"
  proof (cases as rule: rev_cases)
    case Nil
    with e show ?thesis by simp
  next
    case (snoc as1 a)
    have "dll (N(a \<mapsto> (the (N a))\<lparr>next_e := next_e e\<rparr>)) None f (as1 @ [a]) (next_e e)"
      by (rule dll_set_next) (use d1 snoc dist in auto)
    with e snoc show ?thesis by (simp add: N1_def)
  qed
  have b1: "dll N1 (Some x) (next_e e) bs None"
    by (rule dll_frame [OF _ d3]) (use e dist in \<open>auto simp: N1_def split: option.split dest!: la\<close>)
  have b2: "dll N2 (lastp None as) (next_e e) bs None"
  proof (cases bs)
    case Nil
    with nx show ?thesis by (simp add: N2_def)
  next
    case (Cons q qs)
    have "dll (N1(q \<mapsto> (the (N1 q))\<lparr>prev_e := prev_e e\<rparr>)) (prev_e e) (next_e e) (q # qs) None"
      by (rule dll_set_prev) (use b1 Cons dist in auto)
    with Cons nx e show ?thesis by (simp add: N2_def)
  qed
  have a2: "dll N2 None (if prev_e e = None then next_e e else f) as (next_e e)"
    by (rule dll_frame [OF _ a1]) (use nx dist in \<open>auto simp: N2_def headp_def split: option.split\<close>)
  show "dll N2 None (if prev_e e = None then next_e e else f) (as @ bs) None"
    using a2 b2 nx by (simp add: dll_append)
  have "same_payload N1 N"
  proof (cases "prev_e e")
    case (Some q)
    then have "N q \<noteq> None" using dll_alloc [OF d1] la e by auto
    with Some show ?thesis by (auto simp: N1_def same_payload_def payload_def)
  qed (simp add: N1_def same_payload_def)
  moreover have "same_payload N2 N1"
  proof (cases "next_e e")
    case (Some q)
    then have "q \<in> set bs" using nx by (cases bs) auto
    then have "N1 q \<noteq> None" using dll_alloc [OF b1] by auto
    with Some show ?thesis by (auto simp: N2_def same_payload_def payload_def)
  qed (simp add: N2_def same_payload_def)
  ultimately show "same_payload N2 N" using same_payload_trans by blast
qed

section \<open>Buckets as runs of the list\<close>

text \<open>
  \<open>contig P xs\<close>: the elements satisfying \<open>P\<close> stand together; \<open>settled P xs\<close>: they stand
  together at the head.
\<close>

fun settled :: "('a \<Rightarrow> bool) \<Rightarrow> 'a list \<Rightarrow> bool" where
  "settled P [] = True"
| "settled P (x # xs) = (if P x then settled P xs else filter P xs = [])"

fun contig :: "('a \<Rightarrow> bool) \<Rightarrow> 'a list \<Rightarrow> bool" where
  "contig P [] = True"
| "contig P (x # xs) = (if P x then settled P xs else contig P xs)"

lemma none_settled: "filter P xs = [] \<Longrightarrow> settled P xs"
  by (cases xs) (auto split: if_splits)

lemma none_contig: "filter P xs = [] \<Longrightarrow> contig P xs"
  by (induction xs) (auto split: if_splits)

lemma settled_contig: "settled P xs \<Longrightarrow> contig P xs"
  by (cases xs) (auto simp: none_contig split: if_splits)

lemma settled_split: "settled P xs \<Longrightarrow> \<exists>cs. xs = filter P xs @ cs \<and> filter P cs = []"
proof (induction xs)
  case (Cons x xs)
  show ?case
  proof (cases "P x")
    case False
    with Cons.prems show ?thesis by (intro exI [of _ "x # xs"]) simp
  qed (use Cons in auto)
qed simp

lemma contig_split: "contig P xs \<Longrightarrow> \<exists>as cs. xs = as @ filter P xs @ cs \<and> filter P as = [] \<and> filter P cs = []"
proof (induction xs)
  case (Cons x xs)
  show ?case
  proof (cases "P x")
    case True
    with Cons.prems settled_split [of P xs] obtain cs where "xs = filter P xs @ cs" "filter P cs = []" by auto
    with True show ?thesis by (intro exI [of _ "[]"] exI [of _ cs]) simp
  next
    case False
    with Cons obtain as cs where "xs = as @ filter P xs @ cs" "filter P as = []" "filter P cs = []" by auto
    with False show ?thesis by (intro exI [of _ "x # as"] exI [of _ cs]) simp
  qed
qed simp

text \<open>Putting a node before \<open>p\<close>, or taking one out, keeps the runs.\<close>

lemma settled_insert: "settled P (as @ p # bs) \<Longrightarrow> \<not> P n \<Longrightarrow> \<not> P p \<Longrightarrow> settled P (as @ n # p # bs)"
  by (induction as) (auto split: if_splits)

lemma contig_insert_other:
  "contig P (as @ p # bs) \<Longrightarrow> \<not> P n \<Longrightarrow> (P p \<Longrightarrow> filter P as = []) \<Longrightarrow> contig P (as @ n # p # bs)"
  by (induction as) (auto intro: settled_insert split: if_splits)

lemma contig_insert: "contig P (as @ p # bs) \<Longrightarrow> P n \<Longrightarrow> P p \<Longrightarrow> filter P as = [] \<Longrightarrow> contig P (as @ n # p # bs)"
  by (induction as) (auto split: if_splits)

lemma settled_remove: "settled P (as @ x # bs) \<Longrightarrow> settled P (as @ bs)"
  by (induction as) (auto simp: none_settled split: if_splits)

lemma contig_remove: "contig P (as @ x # bs) \<Longrightarrow> contig P (as @ bs)"
  by (induction as) (auto simp: settled_remove settled_contig split: if_splits)

section \<open>The representation invariant\<close>

definition hkey :: "(nat \<Rightarrow> 'd helem option) \<Rightarrow> nat \<Rightarrow> byte list" where
  "hkey N x = pKey (the (N x))"

definition in_bucket :: "(nat \<Rightarrow> 'd helem option) \<Rightarrow> nat \<Rightarrow> nat \<Rightarrow> nat \<Rightarrow> bool" where
  "in_bucket N m h x \<longleftrightarrow> unat (strHash (hkey N x)) mod m = h"

definition bucket_ok :: "(nat \<Rightarrow> bool) \<Rightarrow> nat list \<Rightarrow> nat \<times> nat option \<Rightarrow> bool" where
  "bucket_ok P xs b \<longleftrightarrow> contig P xs \<and> fst b = length (filter P xs) \<and>
     (filter P xs \<noteq> [] \<longrightarrow> snd b = Some (hd (filter P xs)))"

definition buckets :: "(nat \<Rightarrow> 'd helem option) \<Rightarrow> nat \<Rightarrow> (nat \<times> nat option) list \<Rightarrow> nat list \<Rightarrow> bool" where
  "buckets N m tab xs \<longleftrightarrow> 0 < m \<and> length tab = m \<and> (\<forall>h < m. bucket_ok (in_bucket N m h) xs (tab ! h))"

text \<open>The elements, in list order, of a well-linked table.\<close>

definition linked :: "'d hash \<Rightarrow> nat list \<Rightarrow> bool" where
  "linked H xs \<longleftrightarrow> dll (nodes H) None (first H) xs None \<and> distinct xs \<and>
     (case ht H of None \<Rightarrow> htsize H = 0 | Some tab \<Rightarrow> buckets (nodes H) (htsize H) tab xs)"

lemma in_bucket_same:
  "same_payload M N \<Longrightarrow> N x \<noteq> None \<Longrightarrow> in_bucket M m h x = in_bucket N m h x"
  using same_payload_node [of M N x] by (simp add: in_bucket_def hkey_def)

lemma contig_cong: "(\<And>x. x \<in> set xs \<Longrightarrow> P x = Q x) \<Longrightarrow> contig P xs = contig Q xs"
proof -
  have s: "(\<And>x. x \<in> set xs \<Longrightarrow> P x = Q x) \<Longrightarrow> settled P xs = settled Q xs" for xs
    by (induction xs) (auto simp: filter_empty_conv)
  show "(\<And>x. x \<in> set xs \<Longrightarrow> P x = Q x) \<Longrightarrow> contig P xs = contig Q xs"
    by (induction xs) (simp_all add: s)
qed

lemma bucket_ok_cong: "(\<And>x. x \<in> set xs \<Longrightarrow> P x = Q x) \<Longrightarrow> bucket_ok P xs b = bucket_ok Q xs b"
  using contig_cong [of xs P Q] filter_cong [of xs xs P Q] by (simp add: bucket_ok_def)

lemma buckets_same:
  assumes "same_payload M N" and "\<And>x. x \<in> set xs \<Longrightarrow> N x \<noteq> None"
  shows "buckets M m tab xs = buckets N m tab xs"
proof -
  have "bucket_ok (in_bucket M m h) xs b = bucket_ok (in_bucket N m h) xs b" for h b
    by (rule bucket_ok_cong) (use assms in_bucket_same in blast)
  then show ?thesis by (simp add: buckets_def)
qed

text \<open>What inserting \<open>n\<close> into its bucket does to every bucket.\<close>

lemma bucket_ok_insert_before:
  assumes "bucket_ok P (as @ p # bs) (c, ch)" and "P n" "P p" "filter P as = []"
  shows "bucket_ok P (as @ n # p # bs) (c + 1, Some n)"
  using assms contig_insert [of P as p bs n] by (simp add: bucket_ok_def)

lemma bucket_ok_insert_other:
  assumes "bucket_ok P (as @ p # bs) b" and "\<not> P n" and "\<not> P p"
  shows "bucket_ok P (as @ n # p # bs) b"
  using assms contig_insert_other [of P as p bs n] by (simp add: bucket_ok_def)

lemma bucket_ok_head:
  "bucket_ok P xs (c, ch) \<Longrightarrow> P n \<Longrightarrow> c = 0 \<Longrightarrow> bucket_ok P (n # xs) (c + 1, Some n)"
  by (simp add: bucket_ok_def none_settled)

lemma bucket_ok_head_other: "bucket_ok P xs b \<Longrightarrow> \<not> P n \<Longrightarrow> bucket_ok P (n # xs) b"
  by (simp add: bucket_ok_def)

lemma bucket_ok_nonempty:
  assumes "bucket_ok P xs (c, ch)" and "c \<noteq> 0"
  shows "\<exists>as p bs. xs = as @ p # bs \<and> ch = Some p \<and> P p \<and> filter P as = []"
proof -
  from assms contig_split [of P xs] obtain as cs where
    s: "xs = as @ filter P xs @ cs" "filter P as = []" by (auto simp: bucket_ok_def)
  from assms obtain p ps where f: "filter P xs = p # ps" by (cases "filter P xs") (auto simp: bucket_ok_def)
  then have "P p" by (metis filter_eq_ConsD)
  with s f assms show ?thesis by (intro exI [of _ as] exI [of _ p] exI [of _ "ps @ cs"]) (simp add: bucket_ok_def)
qed

section \<open>The operations\<close>

lemmas hash_upd = upd_def node_def

text \<open>The link part of insertElement, on any bucket table.\<close>

lemma insertElement_links:
  assumes l: "dll (nodes H) None (first H) xs None" "distinct xs" and n: "n \<notin> set xs" "nodes H n = Some e"
    and b: "pHead = None \<and> ys = n # xs \<or> (\<exists>p as bs. pHead = Some p \<and> xs = as @ p # bs \<and> ys = as @ n # p # bs)"
    and q: "pEntry = None \<and> pHead = None \<and> tab = ht H \<or>
      (\<exists>h c ch. pEntry = Some h \<and> the (ht H) ! h = (c, ch) \<and> pHead = (if c \<noteq> 0 then ch else None) \<and>
        tab = Some ((the (ht H))[h := (c + 1, Some n)]))"
  shows "dll (nodes (insertElement H pEntry n)) None (first (insertElement H pEntry n)) ys None"
    and "same_payload (nodes (insertElement H pEntry n)) (nodes H)"
    and "ht (insertElement H pEntry n) = tab" and "htsize (insertElement H pEntry n) = htsize H"
    and "count (insertElement H pEntry n) = count H"
    and "z \<notin> set ys \<Longrightarrow> nodes (insertElement H pEntry n) z = nodes H z"
proof -
  let ?H = "H\<lparr>ht := tab\<rparr>"
  define G where "G = (case pHead of
      Some p \<Rightarrow>
        (let pv = prev_e (the (nodes ?H p));
             H1 = upd n (\<lambda>e. e\<lparr>next_e := Some p, prev_e := pv\<rparr>) ?H;
             H2 = (case pv of Some q \<Rightarrow> upd q (\<lambda>e. e\<lparr>next_e := Some n\<rparr>) H1 | None \<Rightarrow> H1\<lparr>first := Some n\<rparr>)
         in upd p (\<lambda>e. e\<lparr>prev_e := Some n\<rparr>) H2)
    | None \<Rightarrow>
        (let H1 = upd n (\<lambda>e. e\<lparr>next_e := first ?H\<rparr>) ?H;
             H2 = (case first ?H of Some q \<Rightarrow> upd q (\<lambda>e. e\<lparr>prev_e := Some n\<rparr>) H1 | None \<Rightarrow> H1);
             H3 = upd n (\<lambda>e. e\<lparr>prev_e := None\<rparr>) H2
         in H3\<lparr>first := Some n\<rparr>))"
  have i: "insertElement H pEntry n = G"
    using q by (auto simp: insertElement_def G_def Let_def node_def split: option.split)
  have m: "dll (nodes G) None (first G) ys None \<and> same_payload (nodes G) (nodes H) \<and>
      ht G = tab \<and> htsize G = htsize H \<and> count G = count H \<and> (z \<notin> set ys \<longrightarrow> nodes G z = nodes H z)"
  proof (cases pHead)
    case None
    with b have y: "ys = n # xs" by auto
    note I = dll_insert_head [OF l n]
    show ?thesis
    proof (cases "first H")
      case None
      with \<open>pHead = None\<close> y n I(1,2) I(3) [of z] show ?thesis by (auto simp: G_def hash_upd Let_def)
    next
      case (Some r)
      with \<open>pHead = None\<close> y n I(1,2) I(3) [of z] show ?thesis by (auto simp: G_def hash_upd Let_def)
    qed
  next
    case (Some p)
    with b obtain as bs where x: "xs = as @ p # bs" "ys = as @ n # p # bs" by auto
    note I = dll_insert_before [OF l(1) [unfolded x] l(2) [unfolded x] n(1) [unfolded x] n(2)]
    show ?thesis
    proof (cases "prev_e (the (nodes H p))")
      case None
      with Some x n I(1,2) I(3) [of z] show ?thesis by (auto simp: G_def hash_upd Let_def)
    next
      case (Some r)
      with \<open>pHead = Some p\<close> x n I(1,2) I(3) [of z] show ?thesis by (auto simp: G_def hash_upd Let_def)
    qed
  qed
  then show "dll (nodes (insertElement H pEntry n)) None (first (insertElement H pEntry n)) ys None"
    "same_payload (nodes (insertElement H pEntry n)) (nodes H)"
    "ht (insertElement H pEntry n) = tab" "htsize (insertElement H pEntry n) = htsize H"
    "count (insertElement H pEntry n) = count H"
    "z \<notin> set ys \<Longrightarrow> nodes (insertElement H pEntry n) z = nodes H z"
    unfolding i by blast+
qed

text \<open>What an insertion of \<open>n\<close> gives: the elements, and nothing else changed.\<close>

definition inserted :: "'d hash \<Rightarrow> nat list \<Rightarrow> nat \<Rightarrow> 'd hash \<Rightarrow> nat list \<Rightarrow> bool" where
  "inserted H xs n G ys \<longleftrightarrow> linked G ys \<and> set ys = insert n (set xs) \<and> same_payload (nodes G) (nodes H) \<and>
     htsize G = htsize H \<and> count G = count H \<and> (ht G = None \<longleftrightarrow> ht H = None) \<and>
     (\<forall>z. z \<notin> set ys \<longrightarrow> nodes G z = nodes H z)"

lemma insertElement_linked:
  assumes l: "linked H xs" and n: "n \<notin> set xs" "nodes H n = Some e"
    and pe: "pEntry = (if ht H \<noteq> None then Some (bucket_of H (pKey e)) else None)"
  shows "\<exists>ys. inserted H xs n (insertElement H pEntry n) ys"
proof (cases "ht H")
  case None
  with l have d: "dll (nodes H) None (first H) xs None" "distinct xs" "htsize H = 0" by (auto simp: linked_def)
  have "pEntry = None" using pe None by simp
  note I = insertElement_links [OF d(1,2) n, of None "n # xs" pEntry "ht H"]
  show ?thesis
    by (rule exI [of _ "n # xs"]) (use I \<open>pEntry = None\<close> d n None in \<open>auto simp: inserted_def linked_def\<close>)
next
  case (Some tab)
  let ?m = "htsize H" and ?N = "nodes H"
  from l Some have d: "dll ?N None (first H) xs None" "distinct xs"
    and b: "0 < ?m" "length tab = ?m" "\<And>h. h < ?m \<Longrightarrow> bucket_ok (in_bucket ?N ?m h) xs (tab ! h)"
    by (auto simp: linked_def buckets_def)
  define h where "h = bucket_of H (pKey e)"
  have h: "h < ?m" "pEntry = Some h" using b(1) pe Some by (simp_all add: h_def bucket_of_def)
  have nh: "in_bucket ?N ?m k n \<longleftrightarrow> k = h" for k by (auto simp: in_bucket_def hkey_def n h_def bucket_of_def)
  obtain c ch where t: "tab ! h = (c, ch)" by fastforce
  let ?tab = "tab[h := (c + 1, Some n)]"
  have fin: "\<exists>ys. inserted H xs n (insertElement H pEntry n) ys"
    if ys: "set ys = insert n (set xs)" "distinct ys"
      and hd_cases: "pHead = None \<and> ys = n # xs \<or> (\<exists>p as bs. pHead = Some p \<and> xs = as @ p # bs \<and> ys = as @ n # p # bs)"
      and hd_ch: "pHead = (if c \<noteq> 0 then ch else None)"
      and ok: "\<And>k. k < ?m \<Longrightarrow> bucket_ok (in_bucket ?N ?m k) ys (?tab ! k)" for ys pHead
  proof -
    have "\<exists>h c ch. pEntry = Some h \<and> the (ht H) ! h = (c, ch) \<and> pHead = (if c \<noteq> 0 then ch else None) \<and>
        Some ?tab = Some ((the (ht H))[h := (c + 1, Some n)])"
      using h t Some hd_ch by auto
    note I = insertElement_links [OF d n hd_cases disjI2 [OF this]]
    have alloc: "?N x \<noteq> None" if "x \<in> set ys" for x using that ys(1) n(2) dll_alloc [OF d(1)] by auto
    have "buckets ?N ?m ?tab ys" using b ok by (simp add: buckets_def)
    with buckets_same [OF I(2) alloc] have "buckets (nodes (insertElement H pEntry n)) ?m ?tab ys" by blast
    with I ys Some show ?thesis by (intro exI [of _ ys]) (auto simp: inserted_def linked_def)
  qed
  show ?thesis
  proof (cases "c = 0")
    case True
    show ?thesis
    proof (rule fin [of "n # xs" None])
      fix k assume k: "k < ?m"
      show "bucket_ok (in_bucket ?N ?m k) (n # xs) (?tab ! k)"
      proof (cases "k = h")
        case True
        with \<open>c = 0\<close> b(3) [OF h(1)] t h nh bucket_ok_head [of "in_bucket ?N ?m h" xs c ch n] b(2)
        show ?thesis by simp
      next
        case False
        with b(3) [OF k] nh show ?thesis by (simp add: bucket_ok_head_other)
      qed
    qed (use n d True in auto)
  next
    case False
    from bucket_ok_nonempty [OF b(3) [OF h(1), unfolded t] False] obtain as p bs where
      s: "xs = as @ p # bs" "ch = Some p" "in_bucket ?N ?m h p" "filter (in_bucket ?N ?m h) as = []" by blast
    show ?thesis
    proof (rule fin [of "as @ n # p # bs" "Some p"])
      fix k assume k: "k < ?m"
      show "bucket_ok (in_bucket ?N ?m k) (as @ n # p # bs) (?tab ! k)"
      proof (cases "k = h")
        case True
        with b(3) [OF h(1)] t h nh s b(2) bucket_ok_insert_before [of "in_bucket ?N ?m h" as p bs c ch n]
        show ?thesis by simp
      next
        case k_other: False
        then have "\<not> in_bucket ?N ?m k p" using s(3) by (simp add: in_bucket_def)
        with b(3) [OF k] nh k_other s(1) show ?thesis by (simp add: bucket_ok_insert_other)
      qed
    qed (use n d s False in auto)
  qed
qed

text \<open>The elements still to be moved by rehash are a segment of their own.\<close>

lemma rehash_loop_linked:
  assumes "linked H zs" and "dll (nodes H) prv f ys None" and "distinct ys" and "set ys \<inter> set zs = {}"
    and "ht H \<noteq> None" and "length ys \<le> n"
  shows "\<exists>ws. linked (rehash_loop n f H) ws \<and> set ws = set ys \<union> set zs \<and> same_payload (nodes (rehash_loop n f H)) (nodes H) \<and>
    htsize (rehash_loop n f H) = htsize H \<and> count (rehash_loop n f H) = count H \<and> ht (rehash_loop n f H) \<noteq> None \<and>
    (\<forall>z. z \<notin> set ys \<union> set zs \<longrightarrow> nodes (rehash_loop n f H) z = nodes H z)"
  using assms
proof (induction ys arbitrary: n f H zs prv)
  case Nil
  then show ?case by (intro exI [of _ zs]) (simp add: same_payload_def)
next
  case (Cons y ys)
  then obtain e where e: "f = Some y" "nodes H y = Some e" "dll (nodes H) (Some y) (next_e e) ys None" by auto
  obtain k where k: "n = Suc k" using Cons.prems(6) by (cases n) auto
  let ?G = "insertElement H (Some (bucket_of H (pKey e))) y"
  have "\<exists>us. inserted H zs y ?G us"
    by (rule insertElement_linked [OF Cons.prems(1) _ e(2)]) (use Cons.prems(4,5) in auto)
  then obtain us where "inserted H zs y ?G us" by blast
  then have us: "linked ?G us" "set us = insert y (set zs)" "same_payload (nodes ?G) (nodes H)"
    "htsize ?G = htsize H" "count ?G = count H" "ht ?G \<noteq> None" "\<forall>z. z \<notin> set us \<longrightarrow> nodes ?G z = nodes H z"
    using Cons.prems(5) by (auto simp: inserted_def)
  have "dll (nodes ?G) (Some y) (next_e e) ys None"
    by (rule dll_frame [OF _ e(3)]) (use us Cons.prems(3,4) in auto)
  from Cons.IH [OF us(1) this _ _ us(6), of k] Cons.prems(3,4,6) us(2) k obtain ws where
    ws: "linked (rehash_loop k (next_e e) ?G) ws" "set ws = set ys \<union> set us"
      "same_payload (nodes (rehash_loop k (next_e e) ?G)) (nodes ?G)"
      "htsize (rehash_loop k (next_e e) ?G) = htsize ?G" "count (rehash_loop k (next_e e) ?G) = count ?G"
      "ht (rehash_loop k (next_e e) ?G) \<noteq> None"
      "\<forall>z. z \<notin> set ys \<union> set us \<longrightarrow> nodes (rehash_loop k (next_e e) ?G) z = nodes ?G z" by auto
  have r: "rehash_loop n f H = rehash_loop k (next_e e) ?G" using e k by (simp add: node_def Let_def)
  show ?case unfolding r
    by (rule exI [of _ ws]) (use ws us same_payload_trans [OF ws(3) us(3)] in auto)
qed

section \<open>The map a table stands for\<close>

text \<open>The elements in list order, read off the links.\<close>

fun walk :: "(nat \<Rightarrow> 'd helem option) \<Rightarrow> nat \<Rightarrow> nat option \<Rightarrow> nat list" where
  "walk N (Suc n) (Some p) = p # walk N n (next_e (the (N p)))"
| "walk N _ _ = []"

definition elems :: "'d hash \<Rightarrow> nat list" where
  "elems H = walk (nodes H) (count H) (first H)"

definition hfold :: "'d hash \<Rightarrow> nat \<Rightarrow> byte list" where
  "hfold H x = fold_case (hkey (nodes H) x)"

definition hdata :: "'d hash \<Rightarrow> nat \<Rightarrow> 'd option" where
  "hdata H x = data_e (the (nodes H x))"

definition habs :: "'d hash \<Rightarrow> byte list \<Rightarrow> 'd option" where
  "habs H key =
     (case filter (\<lambda>x. hfold H x = fold_case key) (elems H) of [] \<Rightarrow> None | x # _ \<Rightarrow> hdata H x)"

definition hash_inv :: "'d hash \<Rightarrow> bool" where
  "hash_inv H \<longleftrightarrow> linked H (elems H) \<and> length (elems H) = count H \<and>
     (\<forall>x \<in> set (elems H). hdata H x \<noteq> None \<and> 0 \<notin> set (hkey (nodes H) x)) \<and> inj_on (hfold H) (set (elems H))"

lemma walk_dll: "dll N prv f xs None \<Longrightarrow> length xs \<le> n \<Longrightarrow> walk N n f = xs"
proof (induction xs arbitrary: n f prv)
  case (Cons x xs)
  then show ?case by (cases n) auto
qed simp

lemma hash_invI:
  assumes "linked H xs" and "length xs = count H"
    and "\<And>x. x \<in> set xs \<Longrightarrow> hdata H x \<noteq> None \<and> 0 \<notin> set (hkey (nodes H) x)" and "inj_on (hfold H) (set xs)"
  shows "hash_inv H" and "elems H = xs"
proof -
  show "elems H = xs"
    unfolding elems_def by (rule walk_dll [of _ None]) (use assms(1,2) in \<open>auto simp: linked_def\<close>)
  with assms show "hash_inv H" by (simp add: hash_inv_def)
qed

lemma habs_Some:
  assumes "hash_inv H"
  shows "habs H key = Some d \<longleftrightarrow> (\<exists>x \<in> set (elems H). hfold H x = fold_case key \<and> hdata H x = Some d)"
proof (cases "filter (\<lambda>x. hfold H x = fold_case key) (elems H)")
  case Nil
  then show ?thesis by (auto simp: habs_def filter_empty_conv)
next
  case (Cons x xs)
  then have x: "x \<in> set (elems H)" "hfold H x = fold_case key" by (auto dest: filter_eq_ConsD)
  have inj: "inj_on (hfold H) (set (elems H))" using assms unfolding hash_inv_def by blast
  have "y = x" if "y \<in> set (elems H)" "hfold H y = fold_case key" for y
    by (rule inj_onD [OF inj _ that(1) x(1)]) (simp only: that(2) x(2))
  moreover have "habs H key = hdata H x" using Cons by (simp add: habs_def)
  ultimately show ?thesis using x by metis
qed

lemma habs_None:
  assumes "hash_inv H"
  shows "habs H key = None \<longleftrightarrow> (\<forall>x \<in> set (elems H). hfold H x \<noteq> fold_case key)"
proof -
  have "\<exists>d. hdata H x = Some d" if "x \<in> set (elems H)" for x using assms that by (auto simp: hash_inv_def)
  then show ?thesis using habs_Some [OF assms, of key] by (metis not_Some_eq)
qed

lemma habs_eqI:
  assumes "hash_inv H" and "\<And>d. v = Some d \<longleftrightarrow> (\<exists>x \<in> set (elems H). hfold H x = fold_case key \<and> hdata H x = Some d)"
  shows "habs H key = v"
proof -
  have "habs H key = Some d \<longleftrightarrow> v = Some d" for d using habs_Some [OF assms(1), of key d] assms(2) [of d] by simp
  then show ?thesis by (metis not_Some_eq)
qed

section \<open>Lookup\<close>

lemma strHash_fold: "fold_case a = fold_case b \<Longrightarrow> strHash a = strHash b"
proof -
  have "strHash z = foldl (\<lambda>h c. (h + ucast c) * 0x9e3779b1) 0 (fold_case z)" for z
  proof -
    have "foldl (\<lambda>h c. (h + ucast (sqlite3Tolower c)) * 0x9e3779b1) h z =
        foldl (\<lambda>h c. (h + ucast c) * 0x9e3779b1) h (fold_case z)" for h :: u32
      by (induction z arbitrary: h) auto
    then show ?thesis by (simp add: strHash_def)
  qed
  then show "fold_case a = fold_case b \<Longrightarrow> strHash a = strHash b" by simp
qed

lemma find_loop_segment:
  assumes "dll (nodes H) prv f ys nxt"
  shows "find_loop H key (length ys) f = List.find (\<lambda>x. sqlite3StrICmp (hkey (nodes H) x) key = 0) ys"
  using assms by (induction ys arbitrary: f prv) (auto simp: hkey_def node_def)

lemma find_correct:
  assumes inv: "hash_inv H" and key: "0 \<notin> set key"
  shows "case fst (findElementWithHash H key) of
      Some p \<Rightarrow> p \<in> set (elems H) \<and> hfold H p = fold_case key
    | None \<Rightarrow> (\<forall>x \<in> set (elems H). hfold H x \<noteq> fold_case key)"
    and "ht H \<noteq> None \<Longrightarrow> snd (findElementWithHash H key) = bucket_of H key"
proof -
  let ?xs = "elems H" and ?N = "nodes H" and ?m = "htsize H"
  let ?E = "\<lambda>x. sqlite3StrICmp (hkey ?N x) key = 0"
  from inv have l: "dll ?N None (first H) ?xs None" and len: "length ?xs = count H"
    and k0: "\<And>x. x \<in> set ?xs \<Longrightarrow> 0 \<notin> set (hkey ?N x)" by (auto simp: hash_inv_def linked_def)
  have E: "?E x \<longleftrightarrow> hfold H x = fold_case key" if "x \<in> set ?xs" for x
    using StrICmp_order [OF k0 [OF that] key] by (simp add: hfold_def)
  have res: "case List.find ?E ys of Some p \<Rightarrow> p \<in> set ?xs \<and> hfold H p = fold_case key
      | None \<Rightarrow> (\<forall>x \<in> set ?xs. hfold H x \<noteq> fold_case key)"
    if "set ys \<subseteq> set ?xs" "\<And>x. x \<in> set ?xs \<Longrightarrow> hfold H x = fold_case key \<Longrightarrow> x \<in> set ys" for ys
  proof (cases "List.find ?E ys")
    case None
    then have "\<not> ?E x" if "x \<in> set ys" for x using that by (auto simp: find_None_iff)
    with that(2) E None show ?thesis by auto
  next
    case (Some p)
    then have "p \<in> set ys" "?E p" by (auto simp: find_Some_iff)
    with that(1) E Some show ?thesis by auto
  qed
  show "case fst (findElementWithHash H key) of
      Some p \<Rightarrow> p \<in> set ?xs \<and> hfold H p = fold_case key
    | None \<Rightarrow> (\<forall>x \<in> set ?xs. hfold H x \<noteq> fold_case key)"
  proof (cases "ht H")
    case None
    with find_loop_segment [OF l, of key] len res [of ?xs] show ?thesis
      by (simp add: findElementWithHash_def)
  next
    case (Some tab)
    let ?h = "bucket_of H key"
    let ?P = "in_bucket ?N ?m ?h"
    obtain c ch where t: "tab ! ?h = (c, ch)" by fastforce
    from inv Some have b: "0 < ?m" "\<And>h. h < ?m \<Longrightarrow> bucket_ok (in_bucket ?N ?m h) ?xs (tab ! h)"
      by (auto simp: hash_inv_def linked_def buckets_def)
    then have ok: "bucket_ok ?P ?xs (c, ch)" using t b(2) [of ?h] by (simp add: bucket_of_def)
    then obtain as cs where s: "?xs = as @ filter ?P ?xs @ cs" using contig_split by (metis bucket_ok_def)
    have "find_loop H key c ch = List.find ?E (filter ?P ?xs)"
    proof (cases "filter ?P ?xs = []")
      case True
      with ok show ?thesis by (simp add: bucket_ok_def)
    next
      case False
      from l have "dll ?N (lastp None as) (headp (filter ?P ?xs @ cs) None) (filter ?P ?xs @ cs) None"
        by (subst (asm) s) (simp only: dll_append)
      then have "dll ?N (lastp None as) (headp (filter ?P ?xs @ cs) None) (filter ?P ?xs) (headp cs None)"
        by (simp only: dll_append)
      moreover have "headp (filter ?P ?xs @ cs) None = ch" using False ok by (simp add: headp_def bucket_ok_def)
      ultimately have "find_loop H key (length (filter ?P ?xs)) ch = List.find ?E (filter ?P ?xs)"
        using find_loop_segment by metis
      with ok show ?thesis by (simp add: bucket_ok_def)
    qed
    moreover have "?P x" if "hfold H x = fold_case key" for x
      using strHash_fold [of "hkey ?N x" key] that by (simp add: in_bucket_def bucket_of_def hfold_def)
    ultimately show ?thesis using res [of "filter ?P ?xs"] Some t by (simp add: findElementWithHash_def Let_def)
  qed
  show "ht H \<noteq> None \<Longrightarrow> snd (findElementWithHash H key) = bucket_of H key"
    by (auto simp: findElementWithHash_def Let_def split: prod.splits)
qed

lemma HashFind_habs:
  assumes "hash_inv H" and "0 \<notin> set key"
  shows "sqlite3HashFind H key = habs H key"
proof (cases "fst (findElementWithHash H key)")
  case None
  with find_correct(1) [OF assms] habs_None [OF assms(1), of key] show ?thesis by (simp add: sqlite3HashFind_def)
next
  case (Some p)
  with find_correct(1) [OF assms] have p: "p \<in> set (elems H)" "hfold H p = fold_case key" by auto
  then obtain d where "hdata H p = Some d" using assms(1) by (auto simp: hash_inv_def)
  with p habs_Some [OF assms(1), of key d] Some show ?thesis
    by (auto simp: sqlite3HashFind_def node_def hdata_def)
qed

section \<open>Change\<close>

text \<open>What a successful update at \<open>key\<close> does to the map.\<close>

definition updates :: "'d hash \<Rightarrow> byte list \<Rightarrow> 'd option \<Rightarrow> 'd hash \<Rightarrow> bool" where
  "updates H key v G \<longleftrightarrow> hash_inv G \<and>
     (\<forall>k. habs G k = (if fold_case k = fold_case key then v else habs H k))"

lemma HashInit_inv: "hash_inv (sqlite3HashInit N)" "habs (sqlite3HashInit N) k = None"
  by (simp_all add: hash_inv_def sqlite3HashInit_def elems_def linked_def habs_def)

lemma free_elems_empty:
  "first (free_elems n p H) = first H" "ht (free_elems n p H) = ht H" "htsize (free_elems n p H) = htsize H"
  by (induction n p H rule: free_elems.induct) simp_all

lemma HashClear_inv: "hash_inv (sqlite3HashClear H)" "habs (sqlite3HashClear H) k = None"
  by (simp_all add: hash_inv_def sqlite3HashClear_def elems_def linked_def habs_def free_elems_empty)

lemma node_fields:
  assumes "same_payload M (nodes H)" and "nodes H x \<noteq> None"
  shows "hkey M x = hkey (nodes H) x" and "data_e (the (M x)) = hdata H x"
  using same_payload_node [OF assms] by (simp_all add: hkey_def hdata_def)

lemma bucket_ok_remove:
  assumes "bucket_ok P (as @ x # bs) (c, ch)" and "P x" and "x \<notin> set as" and "nx = headp bs None"
  shows "bucket_ok P (as @ bs) (c - 1, if ch = Some x then nx else ch)"
proof -
  have c: "contig P (as @ x # bs)" "c = length (filter P (as @ x # bs))" "ch = Some (hd (filter P (as @ x # bs)))"
    using assms(1,2) by (auto simp: bucket_ok_def)
  have r: "contig P (as @ bs)" by (rule contig_remove [OF c(1)])
  have s: "settled P bs" if "filter P as = []"
    using c(1) that assms(2) by (induction as) (auto split: if_splits)
  show ?thesis
  proof (cases "filter P as = []")
    case True
    then have "ch = Some x" using c(3) assms(2) by simp
    moreover have "nx = Some (hd (filter P bs))" if "filter P bs \<noteq> []"
      using s [OF True] that assms(4) by (cases bs) (auto split: if_splits)
    ultimately show ?thesis using r c(2) True assms(2) by (simp add: bucket_ok_def)
  next
    case False
    then have "hd (filter P (as @ x # bs)) \<in> set as" by (metis filter_append filter_is_subset hd_append2 list.set_sel(1) subsetD)
    then have "ch \<noteq> Some x" using c(3) assms(3) by auto
    with r c False assms(2) show ?thesis by (auto simp: bucket_ok_def)
  qed
qed

lemma bucket_ok_remove_other:
  "bucket_ok P (as @ x # bs) b \<Longrightarrow> \<not> P x \<Longrightarrow> bucket_ok P (as @ bs) b"
  using contig_remove [of P as x bs] by (auto simp: bucket_ok_def)

text \<open>Removing an element, short of the final clearing of an empty table.\<close>

lemma remove_linked:
  assumes inv: "linked H (as @ x # bs)" and h: "ht H \<noteq> None \<Longrightarrow> h = bucket_of H (hkey (nodes H) x)"
    and cnt: "count H = Suc (length (as @ bs))"
  shows "\<exists>G. removeElementGivenHash H x h = (if as @ bs = [] then sqlite3HashClear G else G) \<and>
    linked G (as @ bs) \<and> count G = length (as @ bs) \<and>
    (\<forall>y \<in> set (as @ bs). hkey (nodes G) y = hkey (nodes H) y \<and> hdata G y = hdata H y)"
proof -
  let ?N = "nodes H" and ?e = "the (nodes H x)" and ?xs = "as @ x # bs"
  from inv have l: "dll ?N None (first H) ?xs None" "distinct ?xs" by (auto simp: linked_def)
  note U = dll_unlink [OF l]
  let ?N1 = "case prev_e ?e of Some q \<Rightarrow> ?N(q \<mapsto> (the (?N q))\<lparr>next_e := next_e ?e\<rparr>) | None \<Rightarrow> ?N"
  let ?N2 = "case next_e ?e of Some q \<Rightarrow> ?N1(q \<mapsto> (the (?N1 q))\<lparr>prev_e := prev_e ?e\<rparr>) | None \<Rightarrow> ?N1"
  let ?f = "if prev_e ?e = None then next_e ?e else first H"
  let ?tab = "case ht H of Some tab \<Rightarrow>
      (let (c, chain) = tab ! h in Some (tab[h := (c - 1, if chain = Some x then next_e ?e else chain)])) | None \<Rightarrow> None"
  define G where "G = H\<lparr>nodes := ?N2(x := None), first := ?f, ht := ?tab, count := count H - 1\<rparr>"
  have g: "nodes G = ?N2(x := None)" "first G = ?f" "ht G = ?tab" "count G = length (as @ bs)" "htsize G = htsize H"
    using cnt by (simp_all add: G_def)
  have r: "removeElementGivenHash H x h = (if count G = 0 then sqlite3HashClear G else G)"
    by (cases "prev_e ?e"; cases "next_e ?e"; cases "ht H")
      (auto simp: removeElementGivenHash_def G_def hash_upd Let_def split: prod.splits
        intro!: arg_cong [where f = sqlite3HashClear] hash.equality)
  have alloc: "?N y \<noteq> None" if "y \<in> set (as @ bs)" for y using dll_alloc [OF l(1)] that by auto
  have fields: "hkey (nodes G) y = hkey ?N y \<and> hdata G y = hdata H y" if "y \<in> set (as @ bs)" for y
  proof -
    have "y \<noteq> x" using that l(2) by auto
    with node_fields [OF U(2) alloc [OF that]] show ?thesis unfolding g(1) hkey_def hdata_def by simp
  qed
  have "dll (nodes G) None (first G) (as @ bs) None"
    unfolding g(1,2) by (rule dll_frame [OF _ U(1)]) (use l(2) in auto)
  moreover have "case ht G of None \<Rightarrow> htsize G = 0 | Some tab \<Rightarrow> buckets (nodes G) (htsize G) tab (as @ bs)"
  proof (cases "ht H")
    case None
    with inv show ?thesis by (simp add: g linked_def)
  next
    case (Some tab)
    obtain c ch where t: "tab ! h = (c, ch)" by fastforce
    from inv Some have b: "0 < htsize H" "length tab = htsize H"
      "\<And>k. k < htsize H \<Longrightarrow> bucket_ok (in_bucket ?N (htsize H) k) ?xs (tab ! k)"
      by (auto simp: linked_def buckets_def)
    have hh: "h < htsize H" "in_bucket ?N (htsize H) k x \<longleftrightarrow> k = h" for k
      using h Some b(1) by (auto simp: bucket_of_def in_bucket_def)
    have "bucket_ok (in_bucket (nodes G) (htsize H) k) (as @ bs)
        (tab[h := (c - 1, if ch = Some x then next_e ?e else ch)] ! k)" if k: "k < htsize H" for k
    proof -
      have "bucket_ok (in_bucket ?N (htsize H) k) (as @ bs)
          (tab[h := (c - 1, if ch = Some x then next_e ?e else ch)] ! k)"
      proof (cases "k = h")
        case True
        have "bucket_ok (in_bucket ?N (htsize H) h) (as @ bs) (c - 1, if ch = Some x then next_e ?e else ch)"
          by (rule bucket_ok_remove) (use b(3) [OF hh(1)] t hh l(2) U(3) in auto)
        with True hh(1) b(2) show ?thesis by simp
      next
        case False
        with b(3) [OF k] hh(2) show ?thesis by (simp add: bucket_ok_remove_other)
      qed
      moreover have "in_bucket (nodes G) (htsize H) k y = in_bucket ?N (htsize H) k y" if "y \<in> set (as @ bs)" for y
        using fields [OF that] by (simp add: in_bucket_def)
      ultimately show ?thesis using bucket_ok_cong by blast
    qed
    with Some t b show ?thesis by (simp add: g buckets_def)
  qed
  ultimately have "linked G (as @ bs)" using l(2) by (simp add: linked_def)
  with r fields g(4) show ?thesis by (intro exI [of _ G]) simp
qed

lemma remove_updates:
  assumes inv: "hash_inv H" and x: "x \<in> set (elems H)" "hfold H x = fold_case key"
    and h: "ht H \<noteq> None \<Longrightarrow> h = bucket_of H key"
  shows "updates H key None (removeElementGivenHash H x h)"
proof -
  from inv have l: "linked H (elems H)" and len: "length (elems H) = count H"
    and ok: "\<And>y. y \<in> set (elems H) \<Longrightarrow> hdata H y \<noteq> None \<and> 0 \<notin> set (hkey (nodes H) y)"
    and inj: "inj_on (hfold H) (set (elems H))" by (auto simp: hash_inv_def)
  obtain as bs where s: "elems H = as @ x # bs" using x(1) by (auto simp: in_set_conv_decomp)
  have hx: "ht H \<noteq> None \<Longrightarrow> h = bucket_of H (hkey (nodes H) x)"
    using h strHash_fold [of "hkey (nodes H) x" key] x(2) by (auto simp: hfold_def bucket_of_def)
  have "count H = Suc (length (as @ bs))" using len s by simp
  from remove_linked [OF l [unfolded s] hx this] obtain G where
    r: "removeElementGivenHash H x h = (if as @ bs = [] then sqlite3HashClear G else G)" and
    G: "linked G (as @ bs)" "count G = length (as @ bs)"
      "\<And>y. y \<in> set (as @ bs) \<Longrightarrow> hkey (nodes G) y = hkey (nodes H) y \<and> hdata G y = hdata H y" by blast
  have sub: "set (as @ bs) = set (elems H) - {x}" using l s by (auto simp: linked_def)
  have f: "hfold G y = hfold H y" if "y \<in> set (as @ bs)" for y using G(3) [OF that] by (simp add: hfold_def)
  have Ginv: "hash_inv G" "elems G = as @ bs"
  proof -
    have "inj_on (hfold G) (set (as @ bs))"
    proof -
      have "inj_on (hfold H) (set (as @ bs))" by (rule inj_on_subset [OF inj]) (use sub in blast)
      with inj_on_cong [of "set (as @ bs)" "hfold G" "hfold H"] f show ?thesis by blast
    qed
    moreover have "hdata G y \<noteq> None \<and> 0 \<notin> set (hkey (nodes G) y)" if "y \<in> set (as @ bs)" for y
      using G(3) [OF that] ok [of y] that sub by auto
    ultimately show "hash_inv G" "elems G = as @ bs" using hash_invI [OF G(1)] G(2) by auto
  qed
  have others: "hfold H y \<noteq> fold_case key" if "y \<in> set (as @ bs)" for y
    using inj_onD [OF inj, of y x] that x sub by auto
  have a: "habs G k = (if fold_case k = fold_case key then None else habs H k)" for k
  proof (cases "fold_case k = fold_case key")
    case True
    have "habs G k = None" unfolding habs_None [OF Ginv(1)] using f others Ginv(2) True by auto
    with True show ?thesis by simp
  next
    case False
    have "habs G k = habs H k"
    proof (rule habs_eqI [OF Ginv(1)])
      fix d
      show "habs H k = Some d \<longleftrightarrow> (\<exists>y \<in> set (elems G). hfold G y = fold_case k \<and> hdata G y = Some d)"
        unfolding habs_Some [OF inv] Ginv(2) using f G(3) sub False x(2) by (metis Diff_iff singletonD)
    qed
    with False show ?thesis by simp
  qed
  show ?thesis
  proof (cases "as @ bs = []")
    case True
    then have "habs G k = None" for k using habs_None [OF Ginv(1)] Ginv(2) by simp
    with a True r HashClear_inv show ?thesis by (metis updates_def)
  next
    case False
    then have "removeElementGivenHash H x h = G" unfolding r by (rule if_not_P)
    then show ?thesis using a Ginv(1) by (simp add: updates_def)
  qed
qed

lemma replace_updates:
  assumes inv: "hash_inv H" and x: "x \<in> set (elems H)" "hfold H x = fold_case key" and key: "0 \<notin> set key"
    and d: "dat \<noteq> None"
  shows "updates H key dat (upd x (\<lambda>e. e\<lparr>data_e := dat, pKey := key\<rparr>) H)"
proof -
  let ?G = "upd x (\<lambda>e. e\<lparr>data_e := dat, pKey := key\<rparr>) H" and ?xs = "elems H"
  from inv have l: "linked H ?xs" and len: "length ?xs = count H"
    and ok: "\<And>y. y \<in> set ?xs \<Longrightarrow> hdata H y \<noteq> None \<and> 0 \<notin> set (hkey (nodes H) y)"
    and inj: "inj_on (hfold H) (set ?xs)" by (auto simp: hash_inv_def)
  have dl: "dll (nodes H) None (first H) ?xs None" "distinct ?xs" using l by (auto simp: linked_def)
  have "dll (nodes ?G) prv f ys nxt" if "dll (nodes H) prv f ys nxt" for prv f ys nxt
    using that by (induction ys arbitrary: prv f) (auto simp: hash_upd)
  with dl have d1: "dll (nodes ?G) None (first ?G) ?xs None" by (simp add: upd_def)
  have k: "hkey (nodes ?G) y = (if y = x then key else hkey (nodes H) y)" for y by (simp add: hkey_def upd_def)
  have f: "hfold ?G y = hfold H y" for y using x(2) by (simp add: hfold_def k)
  have b: "in_bucket (nodes ?G) m h y = in_bucket (nodes H) m h y" for m h y
    using strHash_fold [of "hkey (nodes ?G) y" "hkey (nodes H) y"] f [of y] by (simp add: in_bucket_def hfold_def)
  have same: "ht ?G = ht H" "htsize ?G = htsize H" "count ?G = count H" by (simp_all add: upd_def)
  have "in_bucket (nodes ?G) = in_bucket (nodes H)" using b by blast
  then have "linked ?G ?xs" using l d1 dl(2) by (simp add: linked_def same buckets_def split: option.splits)
  moreover have hd: "hdata ?G y = (if y = x then dat else hdata H y)" for y by (simp add: hdata_def upd_def)
  moreover have "hdata ?G y \<noteq> None \<and> 0 \<notin> set (hkey (nodes ?G) y)" if "y \<in> set ?xs" for y
    using ok [OF that] key d hd k by auto
  moreover have "inj_on (hfold ?G) (set ?xs)" using inj f by (simp add: inj_on_def)
  ultimately have G: "hash_inv ?G" "elems ?G = ?xs" using hash_invI [of ?G ?xs] len same by auto
  have uniq: "y = x" if "y \<in> set ?xs" "hfold H y = fold_case key" for y
    using inj_onD [OF inj, of y x] that x by simp
  have "habs ?G k = (if fold_case k = fold_case key then dat else habs H k)" for k
  proof (rule habs_eqI [OF G(1)])
    fix v
    show "(if fold_case k = fold_case key then dat else habs H k) = Some v \<longleftrightarrow>
        (\<exists>y \<in> set (elems ?G). hfold ?G y = fold_case k \<and> hdata ?G y = Some v)"
    proof (cases "fold_case k = fold_case key")
      case True
      then show ?thesis unfolding G(2) f hd if_P [OF True] using x uniq by (metis (full_types))
    next
      case False
      then have "y \<noteq> x" if "hfold H y = fold_case k" for y using that x(2) by auto
      then show ?thesis unfolding G(2) f hd habs_Some [OF inv] if_not_P [OF False] by (metis (full_types))
    qed
  qed
  with G(1) show ?thesis by (simp add: updates_def)
qed

text \<open>A table whose buckets have been thrown away is still linked, and rehash puts them back.\<close>

lemma rehash_linked:
  assumes l: "linked H xs" and len: "length xs \<le> count H" and g: "\<And>sz. granted = Some sz \<Longrightarrow> 0 < sz"
    and r: "rehash H m granted = (ok, G)"
  shows "\<exists>ys. linked G ys \<and> set ys = set xs \<and> same_payload (nodes G) (nodes H) \<and> count G = count H \<and>
    (\<forall>z. z \<notin> set xs \<longrightarrow> nodes G z = nodes H z) \<and> (ok \<longrightarrow> ht G \<noteq> None) \<and> (\<not> ok \<longrightarrow> G = H)"
proof (cases ok)
  case False
  with r have "G = H" by (auto simp: rehash_def Let_def split: if_splits option.splits)
  with l False show ?thesis by (intro exI [of _ xs]) (simp add: same_payload_def)
next
  case True
  with r obtain sz where sz: "granted = Some sz" and
    G: "G = rehash_loop (count H) (first H) (H\<lparr>ht := Some (replicate sz (0, None)), htsize := sz, first := None\<rparr>)"
    by (auto simp: rehash_def Let_def split: if_splits option.splits)
  let ?H = "H\<lparr>ht := Some (replicate sz (0, None)), htsize := sz, first := None\<rparr>"
  have "linked ?H []" using g [OF sz] by (simp add: linked_def buckets_def bucket_ok_def)
  from rehash_loop_linked [OF this, of None "first H" xs "count H"] l len obtain ws where
    "linked G ws" "set ws = set xs" "same_payload (nodes G) (nodes ?H)" "count G = count ?H" "ht G \<noteq> None"
    "\<forall>z. z \<notin> set xs \<longrightarrow> nodes G z = nodes ?H z"
    unfolding G by (auto simp: linked_def)
  with True show ?thesis by (intro exI [of _ ws]) simp
qed

lemma insert_new:
  assumes inv: "hash_inv H" and key: "0 \<notin> set key" and absent: "habs H key = None"
    and d: "dat \<noteq> None" and p: "p \<notin> set (elems H)" and g: "\<And>sz. t_alloc = Some sz \<Longrightarrow> 0 < sz"
    and ins: "sqlite3HashInsert H key dat (Some p) t_alloc = (r, G)"
  shows "r = None \<and> updates H key dat G"
proof -
  let ?xs = "elems H"
  define e where "e = \<lparr>next_e = None, prev_e = None, data_e = dat, pKey = key\<rparr>"
  define H1 where "H1 = H\<lparr>nodes := (nodes H)(p \<mapsto> e), count := count H + 1\<rparr>"
  from inv have l: "linked H ?xs" and len: "length ?xs = count H"
    and ok: "\<And>y. y \<in> set ?xs \<Longrightarrow> hdata H y \<noteq> None \<and> 0 \<notin> set (hkey (nodes H) y)"
    and inj: "inj_on (hfold H) (set ?xs)" by (auto simp: hash_inv_def)
  have alloc: "nodes H y \<noteq> None" if "y \<in> set ?xs" for y using l that dll_alloc by (auto simp: linked_def)
  note pn = p
  have l1: "linked H1 ?xs"
  proof -
    have "dll (nodes H1) None (first H1) ?xs None"
      by (rule dll_frame [of _ _ "nodes H"]) (use l pn in \<open>auto simp: H1_def linked_def\<close>)
    moreover have "buckets (nodes H1) m tab ?xs = buckets (nodes H) m tab ?xs" for m tab
    proof -
      have "bucket_ok (in_bucket (nodes H1) m h) ?xs b = bucket_ok (in_bucket (nodes H) m h) ?xs b" for h b
        by (rule bucket_ok_cong) (use pn in \<open>auto simp: in_bucket_def hkey_def H1_def\<close>)
      then show ?thesis by (simp add: buckets_def)
    qed
    ultimately show ?thesis using l by (auto simp: linked_def H1_def split: option.splits)
  qed
  obtain el h where f: "findElementWithHash H key = (el, h)" by fastforce
  have el: "el = None"
    using find_correct(1) [OF inv key] absent habs_None [OF inv, of key] f by (cases el) auto
  have hb: "ht H \<noteq> None \<Longrightarrow> h = bucket_of H key" using find_correct(2) [OF inv key] f by simp
  obtain b G1 where rh: "(if count H1 \<ge> 10 \<and> count H1 > 2 * htsize H1 then rehash H1 (count H1 * 2) t_alloc else (False, H1)) = (b, G1)"
    by fastforce
  obtain ys where ys: "linked G1 ys" "set ys = set ?xs" "same_payload (nodes G1) (nodes H1)" "count G1 = count H1"
    "\<And>z. z \<notin> set ?xs \<Longrightarrow> nodes G1 z = nodes H1 z" "b \<Longrightarrow> ht G1 \<noteq> None" "\<not> b \<Longrightarrow> G1 = H1"
  proof (cases "count H1 \<ge> 10 \<and> count H1 > 2 * htsize H1")
    case True
    with rh have "rehash H1 (count H1 * 2) t_alloc = (b, G1)" by simp
    from rehash_linked [OF l1 _ g this] len that show thesis by (auto simp: H1_def)
  next
    case False
    with rh have "b = False" "G1 = H1" by auto
    with that [of ?xs] l1 show thesis by (simp add: same_payload_def)
  qed
  let ?h = "if b then bucket_of G1 key else h"
  have "(r, G) = (None, insertElement G1 (if ht G1 \<noteq> None then Some ?h else None) p)"
    using ins f el d rh by (auto simp: sqlite3HashInsert_def Let_def H1_def e_def split: if_splits prod.splits bool.splits)
  moreover have "?h = bucket_of G1 key" if "ht G1 \<noteq> None"
    using ys(7) hb that by (auto simp: H1_def bucket_of_def)
  ultimately have rG: "r = None" "G = insertElement G1 (if ht G1 \<noteq> None then Some (bucket_of G1 (pKey e)) else None) p"
    by (auto simp: e_def)
  have pe: "nodes G1 p = Some e" using ys(5) [OF pn] by (simp add: H1_def)
  have "\<exists>zs. inserted G1 ys p G zs"
    unfolding rG(2) by (rule insertElement_linked [OF ys(1) _ pe]) (use pn ys(2) in simp_all)
  then obtain zs where z: "linked G zs" "set zs = insert p (set ?xs)" "same_payload (nodes G) (nodes G1)" "count G = count H1"
    using ys(2,4) by (auto simp: inserted_def)
  have pay: "hkey (nodes G) y = hkey (nodes H1) y \<and> hdata G y = hdata H1 y" if "y \<in> set zs" for y
  proof -
    have "nodes H1 y \<noteq> None" using that z(2) alloc by (auto simp: H1_def)
    with node_fields [OF same_payload_trans [OF z(3) ys(3)]] show ?thesis by (simp add: hdata_def)
  qed
  have kd: "hfold G y = (if y = p then fold_case key else hfold H y) \<and> hdata G y = (if y = p then dat else hdata H y) \<and>
      hkey (nodes G) y = (if y = p then key else hkey (nodes H) y)" if "y \<in> set zs" for y
    using pay [OF that] by (simp add: hfold_def hkey_def hdata_def H1_def e_def)
  have no_key: "hfold H y \<noteq> fold_case key" if "y \<in> set ?xs" for y using absent habs_None [OF inv, of key] that by blast
  have "length zs = Suc (length ?xs)"
    using z(1,2) pn l distinct_card [of zs] distinct_card [of ?xs] by (simp add: linked_def)
  then have lz: "length zs = count G" using z(4) len by (simp add: H1_def)
  have "inj_on (hfold G) (set zs)"
    unfolding inj_on_def using kd no_key inj inj_onD [OF inj] z(2) by (metis insert_iff)
  moreover have "hdata G y \<noteq> None \<and> 0 \<notin> set (hkey (nodes G) y)" if "y \<in> set zs" for y
    using kd [OF that] ok [of y] key d that z(2) by auto
  ultimately have Gi: "hash_inv G" "elems G = zs" using hash_invI [OF z(1) lz] by auto
  have "habs G k = (if fold_case k = fold_case key then dat else habs H k)" for k
  proof (rule habs_eqI [OF Gi(1)])
    fix v
    have "(\<exists>y \<in> set zs. hfold G y = fold_case k \<and> hdata G y = Some v) \<longleftrightarrow>
        (fold_case key = fold_case k \<and> dat = Some v) \<or> (\<exists>y \<in> set ?xs. hfold H y = fold_case k \<and> hdata H y = Some v)"
      using kd z(2) pn by (metis insert_iff)
    then show "(if fold_case k = fold_case key then dat else habs H k) = Some v \<longleftrightarrow>
        (\<exists>y \<in> set (elems G). hfold G y = fold_case k \<and> hdata G y = Some v)"
      unfolding Gi(2) using no_key habs_Some [OF inv, of k v] by auto
  qed
  with Gi(1) rG(1) show ?thesis by (simp add: updates_def)
qed

lemma HashInsert_effect:
  assumes inv: "hash_inv H" and key: "0 \<notin> set key"
    and fresh: "\<And>p. e_alloc = Some p \<Longrightarrow> p \<notin> set (elems H)" and g: "\<And>sz. t_alloc = Some sz \<Longrightarrow> 0 < sz"
  shows "sqlite3HashFind H key = habs H key \<and>
    (case sqlite3HashInsert H key dat e_alloc t_alloc of (r, G) \<Rightarrow>
       if habs H key = None \<and> dat \<noteq> None \<and> e_alloc = None then r = dat \<and> G = H
       else r = habs H key \<and> updates H key dat G)"
proof -
  obtain r G where ins: "sqlite3HashInsert H key dat e_alloc t_alloc = (r, G)" by fastforce
  obtain el h where f: "findElementWithHash H key = (el, h)" by fastforce
  have hb: "ht H \<noteq> None \<Longrightarrow> h = bucket_of H key" using find_correct(2) [OF inv key] f by simp
  have "if habs H key = None \<and> dat \<noteq> None \<and> e_alloc = None then r = dat \<and> G = H
      else r = habs H key \<and> updates H key dat G"
  proof (cases el)
    case None
    with find_correct(1) [OF inv key] f habs_None [OF inv] have n: "habs H key = None" by simp
    have id: "updates H key None H"
    proof -
      have "habs H k = None" if "fold_case k = fold_case key" for k
        using n that habs_None [OF inv, of k] habs_None [OF inv, of key] by simp
      with inv show ?thesis by (simp add: updates_def)
    qed
    show ?thesis
    proof (cases "dat = None \<or> e_alloc = None")
      case True
      with ins f None id n show ?thesis by (auto simp: sqlite3HashInsert_def Let_def)
    next
      case False
      then obtain p where p: "e_alloc = Some p" by auto
      from insert_new [OF inv key n _ fresh [OF p] g ins [unfolded p]] False n p show ?thesis by simp
    qed
  next
    case (Some x)
    with find_correct(1) [OF inv key] f have x: "x \<in> set (elems H)" "hfold H x = fold_case key" by auto
    then obtain d where d: "hdata H x = Some d" using inv by (auto simp: hash_inv_def)
    with habs_Some [OF inv, of key d] x have a: "habs H key = Some d" by blast
    have "r = Some d \<and> G = (if dat = None then removeElementGivenHash H x h
        else upd x (\<lambda>e. e\<lparr>data_e := dat, pKey := key\<rparr>) H)"
      using ins f Some d by (auto simp: sqlite3HashInsert_def Let_def node_def hdata_def)
    with a remove_updates [OF inv x hb] replace_updates [OF inv x key, of dat] show ?thesis by auto
  qed
  with HashFind_habs [OF inv key] ins show ?thesis by simp
qed

section \<open>The map as an interface\<close>

text \<open>
  What a client of a map whose keys are compared by an equivalence may rely on; the
  client's lemma is the value found after any history of updates.
\<close>

locale folded_map =
  fixes inv :: "'s \<Rightarrow> bool" and ok_key :: "'k \<Rightarrow> bool" and same :: "'k \<Rightarrow> 'k \<Rightarrow> bool"
    and look :: "'s \<Rightarrow> 'k \<Rightarrow> 'v option" and put :: "'s \<Rightarrow> 'k \<Rightarrow> 'v option \<Rightarrow> 's" and empty :: 's
  assumes inv_empty: "inv empty" and look_empty: "ok_key k \<Longrightarrow> look empty k = None"
    and inv_put: "inv s \<Longrightarrow> ok_key k \<Longrightarrow> inv (put s k v)"
    and look_put: "inv s \<Longrightarrow> ok_key k \<Longrightarrow> ok_key j \<Longrightarrow> look (put s k v) j = (if same j k then v else look s j)"
begin

definition history :: "('k \<times> 'v option) list \<Rightarrow> 's" where
  "history ops = foldl (\<lambda>s (k, v). put s k v) empty ops"

lemma history_snoc: "history (ops @ [(k, v)]) = put (history ops) k v"
  by (simp add: history_def)

lemma history_inv: "\<forall>(k, v) \<in> set ops. ok_key k \<Longrightarrow> inv (history ops)"
proof (induction ops rule: rev_induct)
  case Nil
  then show ?case by (simp add: history_def inv_empty)
next
  case (snoc kv ops)
  then show ?case by (cases kv) (auto simp: history_snoc inv_put)
qed

lemma look_history:
  assumes "\<forall>(k, v) \<in> set ops. ok_key k" and "ok_key j"
  shows "look (history ops) j =
    (let hits = filter (\<lambda>(k, v). same j k) ops in if hits = [] then None else snd (last hits))"
  using assms(1)
proof (induction ops rule: rev_induct)
  case Nil
  then show ?case by (simp add: history_def look_empty assms(2))
next
  case (snoc kv ops)
  obtain k v where kv: "kv = (k, v)" by fastforce
  with snoc have ok: "ok_key k" "inv (history ops)" using history_inv [of ops] by auto
  show ?case
    using snoc ok assms(2) by (auto simp: kv history_snoc look_put Let_def)
qed

end

text \<open>The table with an allocator that does not fail: a fresh address, and the buckets asked for.\<close>

definition fresh_addr :: "'d hash \<Rightarrow> nat" where
  "fresh_addr H = Suc (foldr max (elems H) 0)"

definition hash_put :: "'d hash \<Rightarrow> byte list \<Rightarrow> 'd option \<Rightarrow> 'd hash" where
  "hash_put H key dat = snd (sqlite3HashInsert H key dat (Some (fresh_addr H)) (Some (min SOFT_LIMIT_ENTRIES (2 * Suc (count H)))))"

lemma fresh_addr_fresh: "fresh_addr H \<notin> set (elems H)"
proof -
  have "x \<in> set xs \<Longrightarrow> x \<le> foldr max xs 0" for x :: nat and xs by (induction xs) auto
  then show ?thesis by (fastforce simp: fresh_addr_def)
qed

lemma hash_put_updates:
  assumes "hash_inv H" and "0 \<notin> set key"
  shows "updates H key dat (hash_put H key dat)"
proof -
  let ?sz = "min SOFT_LIMIT_ENTRIES (2 * Suc (count H))"
  obtain r G where ins: "sqlite3HashInsert H key dat (Some (fresh_addr H)) (Some ?sz) = (r, G)" by fastforce
  have "0 < ?sz" by (simp add: SOFT_LIMIT_ENTRIES_def)
  with HashInsert_effect [OF assms, of "Some (fresh_addr H)" "Some ?sz" dat] fresh_addr_fresh [of H]
  have "updates H key dat G" unfolding ins by simp
  then show ?thesis unfolding hash_put_def ins by simp
qed

interpretation ht: folded_map hash_inv "\<lambda>k :: byte list. 0 \<notin> set k" "\<lambda>j k. fold_case j = fold_case k" sqlite3HashFind
  hash_put "sqlite3HashInit Map.empty"
proof
  show "hash_inv (sqlite3HashInit Map.empty)" by (rule HashInit_inv)
  show "sqlite3HashFind (sqlite3HashInit Map.empty) k = None" if "0 \<notin> set k" for k
    using HashFind_habs [OF HashInit_inv(1) that] HashInit_inv(2) by metis
  fix H :: "'a hash" and k j :: "byte list" and v
  assume a: "hash_inv H" "0 \<notin> set k"
  then show "hash_inv (hash_put H k v)" using hash_put_updates by (auto simp: updates_def)
  assume "0 \<notin> set j"
  with a hash_put_updates [OF a, of v] show
    "sqlite3HashFind (hash_put H k v) j = (if fold_case j = fold_case k then v else sqlite3HashFind H j)"
    by (simp add: updates_def HashFind_habs)
qed

text \<open>
  C9: sqlite3HashFind answers what the map holds under the key up to ASCII case, and
  sqlite3HashInsert answers the old value and stores the new one (or removes the key for a NULL value),
  leaving every other key alone; when the allocation of the element fails it answers the
  new value and the map is unchanged, and a failed allocation of buckets changes nothing.
  The invariant (links, buckets, distinct keys) is kept in every case.
\<close>
theorem HashInsert_correct:
  assumes "hash_inv H" and "0 \<notin> set key"
    and "\<And>p. e_alloc = Some p \<Longrightarrow> p \<notin> set (elems H)" and "\<And>sz. t_alloc = Some sz \<Longrightarrow> 0 < sz"
  shows "sqlite3HashFind H key = habs H key \<and>
    (case sqlite3HashInsert H key dat e_alloc t_alloc of (r, G) \<Rightarrow>
       if habs H key = None \<and> dat \<noteq> None \<and> e_alloc = None then r = dat \<and> G = H
       else r = habs H key \<and> updates H key dat G)"
  by (rule HashInsert_effect [OF assms])

lemma HashInsert_correct_witness:
  "case sqlite3HashInsert (sqlite3HashInit Map.empty) [0x41] (Some (7 :: nat)) (Some 1) None of (r, G) \<Rightarrow>
     r = None \<and> habs G [0x61] = Some 7"
proof -
  let ?H = "sqlite3HashInit Map.empty :: nat hash"
  have e: "elems ?H = []" by (simp add: elems_def sqlite3HashInit_def)
  have "sqlite3HashFind ?H [0x41] = habs ?H [0x41] \<and>
    (case sqlite3HashInsert ?H [0x41] (Some 7) (Some 1) None of (r, G) \<Rightarrow>
       if habs ?H [0x41] = None \<and> Some (7 :: nat) \<noteq> None \<and> Some (1 :: nat) = None then r = Some 7 \<and> G = ?H
       else r = habs ?H [0x41] \<and> updates ?H [0x41] (Some 7) G)"
    by (rule HashInsert_correct) (use HashInit_inv(1) e in simp_all)
  then show ?thesis by (auto simp: HashInit_inv(2) updates_def Tolower_ascii split: prod.splits)
qed

text \<open>
  C32: After any sequence of insertions, replacements and removals on an empty table, through
  every growth of the bucket array, a lookup answers the last value written under a key equal up to
  ASCII case, and NULL when there is none or the last was a removal.
\<close>
theorem Hash_history:
  assumes "\<forall>(k, v) \<in> set ops. 0 \<notin> set k" and "0 \<notin> set j"
  shows "sqlite3HashFind (foldl (\<lambda>H (k, v). hash_put H k v) (sqlite3HashInit Map.empty) ops) j =
    (let hits = filter (\<lambda>(k, v). fold_case j = fold_case k) ops in if hits = [] then None else snd (last hits))"
  using ht.look_history [OF assms] by (simp only: ht.history_def)

lemma Hash_history_witness:
  "sqlite3HashFind (foldl (\<lambda>H (k, v). hash_put H k v) (sqlite3HashInit Map.empty)
     [([0x41], Some (1 :: nat)), ([0x42], Some 2), ([0x61], Some 3), ([0x62], None)]) [0x41] = Some 3"
  using Hash_history [of "[([0x41], Some (1 :: nat)), ([0x42], Some 2), ([0x61], Some 3), ([0x62], None)]" "[0x41]"]
  by (simp add: Tolower_ascii)

end
