(* ===== verification/Complete.thy ===== *)
theory Complete
  imports Str_Util "HOL-Library.Sublist"
begin

text \<open>
  sqlite3_complete (complete.c in sqlite3.c): the tokens it cuts a statement text into, its
  state machine of eight states, and the language the machine accepts. The text is the
  \<open>byte list\<close> before the terminator.
\<close>

section \<open>Tokens\<close>

definition tkSEMI :: nat where "tkSEMI = 0"
definition tkWS :: nat where "tkWS = 1"
definition tkOTHER :: nat where "tkOTHER = 2"
definition tkEXPLAIN :: nat where "tkEXPLAIN = 3"
definition tkCREATE :: nat where "tkCREATE = 4"
definition tkTEMP :: nat where "tkTEMP = 5"
definition tkTRIGGER :: nat where "tkTRIGGER = 6"
definition tkEND :: nat where "tkEND = 7"

lemmas tk_defs = tkSEMI_def tkWS_def tkOTHER_def tkEXPLAIN_def tkCREATE_def tkTEMP_def tkTRIGGER_def tkEND_def

text \<open>ASCII text as bytes.\<close>

definition ascii :: "string \<Rightarrow> byte list" where
  "ascii s = map (\<lambda>c. word_of_nat (of_char c)) s"

definition StrNICmp_eq :: "byte list \<Rightarrow> string \<Rightarrow> bool" where
  "StrNICmp_eq z kw \<longleftrightarrow> sqlite3_strnicmp (Some z) (Some (ascii kw)) (int (length kw)) = 0"

text \<open>The switch on the first letter of an identifier of \<open>nId\<close> characters.\<close>

definition keyword_token :: "byte list \<Rightarrow> nat \<Rightarrow> nat" where
  "keyword_token z nId =
     (let c = chat z 0 in
      if c = 0x63 \<or> c = 0x43 then
        (if nId = 6 \<and> StrNICmp_eq z ''create'' then tkCREATE else tkOTHER)
      else if c = 0x74 \<or> c = 0x54 then
        (if nId = 7 \<and> StrNICmp_eq z ''trigger'' then tkTRIGGER
         else if nId = 4 \<and> StrNICmp_eq z ''temp'' then tkTEMP
         else if nId = 9 \<and> StrNICmp_eq z ''temporary'' then tkTEMP
         else tkOTHER)
      else if c = 0x65 \<or> c = 0x45 then
        (if nId = 3 \<and> StrNICmp_eq z ''end'' then tkEND
         else if nId = 7 \<and> StrNICmp_eq z ''explain'' then tkEXPLAIN
         else tkOTHER)
      else tkOTHER)"

text \<open>The loop over a C comment: the text from the closing star on, \<open>[]\<close> at the terminator.\<close>

fun comment_end :: "byte list \<Rightarrow> byte list" where
  "comment_end [] = []"
| "comment_end (c # z) = (if c \<noteq> 0x2a \<or> chat z 0 \<noteq> 0x2f then comment_end z else c # z)"

text \<open>
  One turn of the loop, up to the state change: the token and the text after it, or one of
  the two early returns.
\<close>

datatype scan = Token nat "byte list" | Return0 | ReturnState

definition next_token :: "byte list \<Rightarrow> scan" where
  "next_token z =
     (let c = hd z; z1 = tl z in
      if c = 0x3b then Token tkSEMI z1
      else if c = 0x20 \<or> c = 0x0d \<or> c = 0x09 \<or> c = 0x0a \<or> c = 0x0c then Token tkWS z1
      else if c = 0x2f then
        (if chat z 1 \<noteq> 0x2a then Token tkOTHER z1
         else (case comment_end (drop 2 z) of [] \<Rightarrow> Return0 | s # r \<Rightarrow> Token tkWS (tl r)))
      else if c = 0x2d then
        (if chat z 1 \<noteq> 0x2d then Token tkOTHER z1
         else (case dropWhile (\<lambda>b. b \<noteq> 0x0a) z of [] \<Rightarrow> ReturnState | nl # r \<Rightarrow> Token tkWS r))
      else if c = 0x5b then
        (case dropWhile (\<lambda>b. b \<noteq> 0x5d) z1 of [] \<Rightarrow> Return0 | q # r \<Rightarrow> Token tkOTHER r)
      else if c = 0x60 \<or> c = 0x22 \<or> c = 0x27 then
        (case dropWhile (\<lambda>b. b \<noteq> c) z1 of [] \<Rightarrow> Return0 | q # r \<Rightarrow> Token tkOTHER r)
      else if sqlite3IsIdChar c then
        (let nId = 1 + length (takeWhile sqlite3IsIdChar z1)
         in Token (keyword_token z nId) (drop nId z))
      else Token tkOTHER z1)"

section \<open>The state machine\<close>

definition trans :: "nat list list" where
  "trans =
    [[1, 0, 2, 3, 4, 2, 2, 2],
     [1, 1, 2, 3, 4, 2, 2, 2],
     [1, 2, 2, 2, 2, 2, 2, 2],
     [1, 3, 3, 2, 4, 2, 2, 2],
     [1, 4, 2, 2, 2, 4, 5, 2],
     [6, 5, 5, 5, 5, 5, 5, 5],
     [6, 6, 5, 5, 5, 5, 5, 7],
     [1, 7, 5, 5, 5, 5, 5, 5]]"

definition step_state :: "nat \<Rightarrow> nat \<Rightarrow> nat" where
  "step_state state token = trans ! state ! token"

lemma comment_end_length: "length (comment_end z) \<le> length z"
  by (induction z) auto

lemma next_token_shorter: "z \<noteq> [] \<Longrightarrow> next_token z = Token t r \<Longrightarrow> length r < length z"
proof -
  assume z: "z \<noteq> []" and n: "next_token z = Token t r"
  have c: "comment_end (drop 2 z) = s # u \<Longrightarrow> length (tl u) < length z" for s u
    using comment_end_length [of "drop 2 z"] by simp
  have d: "dropWhile P y = s # u \<Longrightarrow> length u < length y" for P s u and y :: "byte list"
    using length_dropWhile_le [of P y] by simp
  from z have t: "length (tl z) < length z" by simp
  from n z show ?thesis
    unfolding next_token_def Let_def
    by (auto split: if_splits list.splits dest!: c d intro: less_trans [OF _ t])
qed

function complete_loop :: "nat \<Rightarrow> byte list \<Rightarrow> bool" where
  "complete_loop state z =
     (if z = [] then state = 1
      else case next_token z of
        Token t r \<Rightarrow> complete_loop (step_state state t) r
      | Return0 \<Rightarrow> False
      | ReturnState \<Rightarrow> state = 1)"
  by pat_completeness auto
termination by (relation "measure (\<lambda>(s, z). length z)") (auto dest: next_token_shorter)

declare complete_loop.simps [simp del]

definition sqlite3_complete :: "byte list \<Rightarrow> bool" where
  "sqlite3_complete zSql = complete_loop 0 zSql"

section \<open>The language of complete texts\<close>

text \<open>The tokens of a text; \<open>None\<close> when a comment, a string or a quoted name does not end.\<close>

function tokens :: "byte list \<Rightarrow> nat list option" where
  "tokens z =
     (if z = [] then Some []
      else case next_token z of
        Token t r \<Rightarrow> map_option (\<lambda>ts. t # ts) (tokens r)
      | Return0 \<Rightarrow> None
      | ReturnState \<Rightarrow> Some [])"
  by pat_completeness auto
termination by (relation "measure length") (auto dest: next_token_shorter)

declare tokens.simps [simp del]

definition run :: "nat \<Rightarrow> nat list \<Rightarrow> nat" where
  "run s ts = foldl step_state s ts"

lemma run_simps [simp]: "run s [] = s" "run s (t # ts) = run (step_state s t) ts"
  by (simp_all add: run_def)

lemma run_append: "run s (xs @ ys) = run (run s xs) ys"
  by (simp add: run_def)

lemma complete_loop_run: "complete_loop s z = (case tokens z of None \<Rightarrow> False | Some ts \<Rightarrow> run s ts = 1)"
proof (induction s z rule: complete_loop.induct)
  case (1 s z)
  show ?case
  proof (cases "z = []")
    case True
    then show ?thesis by (simp add: complete_loop.simps [of s "[]"] tokens.simps [of "[]"])
  next
    case False
    show ?thesis
    proof (cases "next_token z")
      case (Token t r)
      with 1 [OF False Token] False show ?thesis
        by (simp add: complete_loop.simps [of s z] tokens.simps [of z] split: option.splits)
    qed (use False in \<open>simp_all add: complete_loop.simps [of s z] tokens.simps [of z]\<close>)
  qed
qed

text \<open>
  The statements: \<open>trigger_head\<close> recognises \<open>[EXPLAIN OTHER*] CREATE TEMP* TRIGGER\<close> at the
  start of a statement; a statement with that head runs to the first \<open>; END ;\<close> after it, any
  other one to its first semicolon.
\<close>

fun after_create :: "nat list \<Rightarrow> bool" where
  "after_create (t # ts) = (if t = tkTEMP then after_create ts else t = tkTRIGGER)"
| "after_create [] = False"

fun after_explain :: "nat list \<Rightarrow> bool" where
  "after_explain (t # ts) = (if t = tkOTHER then after_explain ts else t = tkCREATE \<and> after_create ts)"
| "after_explain [] = False"

fun trigger_head :: "nat list \<Rightarrow> bool" where
  "trigger_head (t # ts) = (if t = tkEXPLAIN then after_explain ts else t = tkCREATE \<and> after_create ts)"
| "trigger_head [] = False"

inductive stmt :: "nat list \<Rightarrow> bool" where
  plain: "tkSEMI \<notin> set ts \<Longrightarrow> \<not> trigger_head ts \<Longrightarrow> stmt (ts @ [tkSEMI])"
| trigger: "tkSEMI \<notin> set ts \<Longrightarrow> trigger_head ts \<Longrightarrow> hd (b @ [tkSEMI]) = tkSEMI \<Longrightarrow>
    \<not> sublist [tkSEMI, tkEND, tkSEMI] (b @ [tkSEMI, tkEND]) \<Longrightarrow> stmt (ts @ b @ [tkSEMI, tkEND, tkSEMI])"

text \<open>A non-empty sequence of statements, with the tokens in range.\<close>

definition statements :: "nat list \<Rightarrow> bool" where
  "statements ts \<longleftrightarrow> ts \<noteq> [] \<and> (\<exists>ss. ts = concat ss \<and> (\<forall>s \<in> set ss. stmt s))"

definition token_ok :: "nat \<Rightarrow> bool" where
  "token_ok t \<longleftrightarrow> t < 8 \<and> t \<noteq> tkWS"

lemma token_cases:
  assumes "token_ok t"
  obtains "t = tkSEMI" | "t = tkOTHER" | "t = tkEXPLAIN" | "t = tkCREATE" | "t = tkTEMP" | "t = tkTRIGGER" | "t = tkEND"
  using assms unfolding token_ok_def tk_defs by fastforce

lemma machine:
  "step_state 2 t = (if t = tkSEMI then 1 else 2)" if "token_ok t"
  using that by (cases rule: token_cases) (simp_all add: step_state_def trans_def tk_defs)

lemma machine_CREATE:
  "step_state 4 t = (if t = tkSEMI then 1 else if t = tkTEMP then 4 else if t = tkTRIGGER then 5 else 2)" if "token_ok t"
  using that by (cases rule: token_cases) (simp_all add: step_state_def trans_def tk_defs)

lemma machine_EXPLAIN:
  "step_state 3 t = (if t = tkSEMI then 1 else if t = tkOTHER then 3 else if t = tkCREATE then 4 else 2)" if "token_ok t"
  using that by (cases rule: token_cases) (simp_all add: step_state_def trans_def tk_defs)

lemma machine_START:
  "step_state s t = (if t = tkSEMI then 1 else if t = tkEXPLAIN then 3 else if t = tkCREATE then 4 else 2)"
  if "token_ok t" "s = 0 \<or> s = 1"
  using that by (cases rule: token_cases) (auto simp add: step_state_def trans_def tk_defs)

lemma machine_TRIGGER: "step_state 5 t = (if t = tkSEMI then 6 else 5)" if "token_ok t"
  using that by (cases rule: token_cases) (simp_all add: step_state_def trans_def tk_defs)

lemma machine_SEMI: "step_state 6 t = (if t = tkSEMI then 6 else if t = tkEND then 7 else 5)" if "token_ok t"
  using that by (cases rule: token_cases) (simp_all add: step_state_def trans_def tk_defs)

lemma machine_END: "step_state 7 t = (if t = tkSEMI then 1 else 5)" if "token_ok t"
  using that by (cases rule: token_cases) (simp_all add: step_state_def trans_def tk_defs)

lemma tk_distinct:
  "tkTEMP \<noteq> tkTRIGGER" "tkEXPLAIN \<noteq> tkCREATE" "tkOTHER \<noteq> tkCREATE" "tkEND \<noteq> tkSEMI"
  by (simp_all add: tk_defs)

text \<open>Before the first semicolon of a statement.\<close>

lemma run_NORMAL: "list_all token_ok ts \<Longrightarrow> tkSEMI \<notin> set ts \<Longrightarrow> run 2 ts = 2"
  by (induction ts) (auto simp: machine)

lemma run_TRIGGER: "list_all token_ok ts \<Longrightarrow> tkSEMI \<notin> set ts \<Longrightarrow> run 5 ts = 5"
  by (induction ts) (auto simp: machine_TRIGGER)

lemma run_CREATE:
  "list_all token_ok ts \<Longrightarrow> tkSEMI \<notin> set ts \<Longrightarrow> run 4 ts \<in> {2, 4, 5} \<and> (run 4 ts = 5 \<longleftrightarrow> after_create ts)"
  by (induction ts) (auto simp: machine_CREATE run_NORMAL run_TRIGGER)

lemma run_EXPLAIN:
  "list_all token_ok ts \<Longrightarrow> tkSEMI \<notin> set ts \<Longrightarrow> run 3 ts \<in> {2, 3, 4, 5} \<and> (run 3 ts = 5 \<longleftrightarrow> after_explain ts)"
proof (induction ts)
  case (Cons t ts)
  with run_CREATE [of ts] show ?case by (auto simp: machine_EXPLAIN run_NORMAL)
qed simp

lemma run_START:
  assumes "list_all token_ok ts" "tkSEMI \<notin> set ts" "s = 0 \<or> s = 1"
  shows "if ts = [] then run s ts = s else run s ts \<in> {2, 3, 4, 5} \<and> (run s ts = 5 \<longleftrightarrow> trigger_head ts)"
proof (cases ts)
  case (Cons t us)
  with assms run_CREATE [of us] run_EXPLAIN [of us] tk_distinct show ?thesis
    by (auto simp: machine_START run_NORMAL)
qed (use assms in simp)

text \<open>Inside a trigger: from state 5 on, the machine stops at the first \<open>; END ;\<close>.\<close>

abbreviation SES :: "nat list" where
  "SES \<equiv> [tkSEMI, tkEND, tkSEMI]"

text \<open>The tokens \<open>pre @ us\<close> split at their first \<open>; END ;\<close>, and the rest is accepted.\<close>

definition first_end :: "nat list \<Rightarrow> bool" where
  "first_end us \<longleftrightarrow> (\<exists>b r. us = b @ SES @ r \<and> \<not> sublist SES (b @ [tkSEMI, tkEND]) \<and> run 1 r = 1)"

lemma first_end_Cons:
  assumes "first_end us" and "\<not> prefix SES (t # us)"
  shows "first_end (t # us)"
proof -
  from assms(1) obtain b r where b: "us = b @ SES @ r" "\<not> sublist SES (b @ [tkSEMI, tkEND])" "run 1 r = 1"
    by (auto simp: first_end_def)
  have "\<not> prefix SES (t # b @ [tkSEMI, tkEND])"
  proof
    assume "prefix SES (t # b @ [tkSEMI, tkEND])"
    then have "prefix SES ((t # b @ [tkSEMI, tkEND]) @ tkSEMI # r)" by (rule prefix_prefix)
    with assms(2) b(1) show False by simp
  qed
  with b show ?thesis unfolding first_end_def
    by (intro exI [of _ "t # b"] exI [of _ r]) (simp add: sublist_Cons_right)
qed

lemma run_body:
  "list_all token_ok us \<Longrightarrow>
     (run 5 us = 1 \<longrightarrow> first_end us) \<and> (run 6 us = 1 \<longrightarrow> first_end (tkSEMI # us)) \<and>
     (run 7 us = 1 \<longrightarrow> first_end (tkSEMI # tkEND # us))"
proof (induction us)
  case (Cons t us)
  then have t: "token_ok t" and IH: "run 5 us = 1 \<Longrightarrow> first_end us" "run 6 us = 1 \<Longrightarrow> first_end (tkSEMI # us)"
    "run 7 us = 1 \<Longrightarrow> first_end (tkSEMI # tkEND # us)" by auto
  have other: "first_end (t # us)" if "t \<noteq> tkSEMI" "run 5 us = 1"
    by (rule first_end_Cons [OF IH(1)]) (use that in auto)
  have a: "run 5 (t # us) = 1 \<Longrightarrow> first_end (t # us)"
    using t IH(2) other by (auto simp: machine_TRIGGER split: if_splits)
  have b: "first_end (tkSEMI # t # us)" if r: "run 6 (t # us) = 1"
  proof -
    consider "t = tkSEMI" "run 6 us = 1" | "t = tkEND" "run 7 us = 1" | "t \<noteq> tkSEMI" "t \<noteq> tkEND" "run 5 us = 1"
      using r t by (auto simp: machine_SEMI split: if_splits)
    then show ?thesis
    proof cases
      case 1
      show ?thesis unfolding 1(1) by (rule first_end_Cons) (use 1 IH(2) tk_distinct in auto)
    next
      case 2
      with IH(3) show ?thesis by simp
    next
      case 3
      show ?thesis by (rule first_end_Cons) (use 3 other in auto)
    qed
  qed
  have c: "first_end (tkSEMI # tkEND # t # us)" if r: "run 7 (t # us) = 1"
  proof (cases "t = tkSEMI")
    case True
    with r t have "run 1 us = 1" by (simp add: machine_END)
    with True tk_distinct show ?thesis unfolding first_end_def
      by (intro exI [of _ "[]"] exI [of _ us]) (auto simp: sublist_Cons_right)
  next
    case False
    with r t other have "first_end (t # us)" by (simp add: machine_END)
    then have "first_end (tkEND # t # us)" by (rule first_end_Cons) (use tk_distinct in auto)
    then show ?thesis by (rule first_end_Cons) (use False in auto)
  qed
  from a b c show ?case by blast
qed simp

text \<open>Conversely, without a \<open>; END ;\<close> the state inside a trigger tells the last tokens.\<close>

lemma run_body_state:
  "list_all token_ok us \<Longrightarrow> \<not> sublist SES us \<Longrightarrow>
   run 5 us = (if suffix [tkSEMI, tkEND] us then 7 else if suffix [tkSEMI] us then 6 else 5)"
proof (induction us rule: rev_induct)
  case (snoc t us)
  then have t: "token_ok t" and ok: "list_all token_ok us" by auto
  have "\<not> sublist SES us" using snoc.prems(2) sublist_order.order.trans [of SES us "us @ [t]"] by auto
  with snoc ok have r: "run 5 us = (if suffix [tkSEMI, tkEND] us then 7 else if suffix [tkSEMI] us then 6 else 5)" by simp
  have s2: "suffix [tkSEMI, tkEND] (us @ [t]) \<longleftrightarrow> t = tkEND \<and> suffix [tkSEMI] us"
    by (auto simp: suffix_def append_eq_append_conv2 Cons_eq_append_conv)
  have s1: "suffix [tkSEMI] (us @ [t]) \<longleftrightarrow> t = tkSEMI" by (auto simp: suffix_def)
  have x: "\<not> (suffix [tkSEMI, tkEND] us \<and> t = tkSEMI)"
  proof
    assume "suffix [tkSEMI, tkEND] us \<and> t = tkSEMI"
    then obtain zs where "us @ [t] = zs @ SES @ []" by (auto simp: suffix_def)
    then have "sublist SES (us @ [t])" unfolding sublist_def by blast
    with snoc.prems(2) show False by simp
  qed
  have y: "\<not> (suffix [tkSEMI, tkEND] us \<and> suffix [tkSEMI] us)" using tk_distinct by (auto simp: suffix_def append_eq_append_conv2 Cons_eq_append_conv)
  show ?case unfolding run_append r s1 s2 using x y t tk_distinct
    by (auto simp: machine_TRIGGER machine_SEMI machine_END)
qed simp

lemma run_trigger_end:
  assumes "list_all token_ok (b @ [tkSEMI, tkEND])" and "\<not> sublist SES (b @ [tkSEMI, tkEND])"
  shows "run 5 (b @ SES) = 1"
proof -
  have "run 5 (b @ [tkSEMI, tkEND]) = 7" using run_body_state [OF assms] by (simp add: suffix_def)
  moreover have "b @ SES = (b @ [tkSEMI, tkEND]) @ [tkSEMI]" by simp
  ultimately have "run 5 (b @ SES) = step_state 7 tkSEMI" unfolding run_append by simp
  then show ?thesis by (simp add: step_state_def trans_def tk_defs)
qed

lemma stmt_run:
  assumes "stmt ts" and "list_all token_ok ts" and "s = 0 \<or> s = 1"
  shows "run s ts = 1"
  using assms(1)
proof cases
  case (plain us)
  have m: "token_ok tkSEMI" by (simp add: token_ok_def tk_defs)
  have "run s us \<in> {0, 1, 2, 3, 4}"
    using run_START [of us s] plain assms(2,3) by (auto split: if_splits)
  with m plain show ?thesis
    by (auto simp: run_append machine machine_START machine_CREATE machine_EXPLAIN)
next
  case (trigger us b)
  then have "us \<noteq> []" by auto
  with run_START [of us s] trigger assms(2,3) have "run s us = 5" by auto
  moreover have "run 5 (b @ SES) = 1" by (rule run_trigger_end) (use trigger assms(2) in auto)
  ultimately show ?thesis using trigger by (simp add: run_append)
qed

lemma split_first:
  obtains h d where "ts = h @ d" "x \<notin> set h" "d = [] \<or> (\<exists>r. d = x # r)"
proof
  show "ts = takeWhile (\<lambda>t. t \<noteq> x) ts @ dropWhile (\<lambda>t. t \<noteq> x) ts" by simp
  show "x \<notin> set (takeWhile (\<lambda>t. t \<noteq> x) ts)" by (auto dest: set_takeWhileD)
  show "dropWhile (\<lambda>t. t \<noteq> x) ts = [] \<or> (\<exists>r. dropWhile (\<lambda>t. t \<noteq> x) ts = x # r)"
    using hd_dropWhile [of "\<lambda>t. t \<noteq> x" ts] by (cases "dropWhile (\<lambda>t. t \<noteq> x) ts") auto
qed

lemma run_first_stmt:
  assumes "list_all token_ok ts" and "run 1 ts = 1" and "ts \<noteq> []"
  shows "\<exists>u r. ts = u @ r \<and> stmt u \<and> u \<noteq> [] \<and> run 1 r = 1"
proof -
  obtain h d where ts: "ts = h @ d" and h: "tkSEMI \<notin> set h" and d: "d = [] \<or> (\<exists>r. d = tkSEMI # r)"
    by (rule split_first)
  then have ok: "list_all token_ok h" "list_all token_ok d" using assms(1) by auto
  note S = run_START [OF ok(1) h, of 1]
  from d show ?thesis
  proof
    assume "d = []"
    with ts S assms(2,3) show ?thesis by auto
  next
    assume "\<exists>r. d = tkSEMI # r"
    then obtain r where r: "d = tkSEMI # r" by blast
    have rr: "run (run 1 h) (tkSEMI # r) = 1" using assms(2) ts r by (simp add: run_append)
    show ?thesis
    proof (cases "trigger_head h")
      case False
      then have "run 1 h \<in> {1, 2, 3, 4}" using S by (auto split: if_splits)
      with rr ok r have "run 1 r = 1"
        by (auto simp: machine machine_START machine_CREATE machine_EXPLAIN)
      with stmt.plain [OF h False] ts r show ?thesis
        by (intro exI [of _ "h @ [tkSEMI]"] exI [of _ r]) simp
    next
      case True
      then have "h \<noteq> []" by auto
      with True have "run 1 h = 5" using S by auto
      with rr run_body [of d] ok r have "first_end (tkSEMI # r)" by simp
      then obtain b r1 where b: "tkSEMI # r = b @ SES @ r1" "\<not> sublist SES (b @ [tkSEMI, tkEND])" "run 1 r1 = 1"
        by (auto simp: first_end_def)
      then have "hd (b @ [tkSEMI]) = tkSEMI" by (cases b) auto
      with stmt.trigger [OF h True this b(2)] b ts r show ?thesis
        by (intro exI [of _ "h @ b @ SES"] exI [of _ r1]) simp
    qed
  qed
qed

lemma run_statements:
  assumes "list_all token_ok ts" and "ts \<noteq> []"
  shows "run 0 ts = 1 \<longleftrightarrow> statements ts"
proof -
  have fwd: "\<exists>ss. ts = concat ss \<and> (\<forall>s \<in> set ss. stmt s)" if "list_all token_ok ts" "run 1 ts = 1" for ts
    using that
  proof (induction "length ts" arbitrary: ts rule: less_induct)
    case less
    show ?case
    proof (cases "ts = []")
      case True
      then show ?thesis by (intro exI [of _ "[]"]) simp
    next
      case False
      with run_first_stmt less.prems obtain u r where u: "ts = u @ r" "stmt u" "u \<noteq> []" "run 1 r = 1" by blast
      have r: "length r < length ts" "list_all token_ok r" using u(1,3) less.prems(1) by auto
      from less.hyps [OF r u(4)] obtain ss where "r = concat ss" "\<forall>s \<in> set ss. stmt s" by blast
      with u show ?thesis by (intro exI [of _ "u # ss"]) simp
    qed
  qed
  have bwd: "run 1 (concat ss) = 1" if "\<forall>s \<in> set ss. stmt s" "list_all token_ok (concat ss)" for ss
    using that by (induction ss) (auto simp: run_append stmt_run)
  have s01: "run 0 ts = run 1 ts"
  proof (cases ts)
    case (Cons t us)
    with assms(1) show ?thesis by (simp add: machine_START)
  qed (use assms(2) in simp)
  show ?thesis unfolding s01 statements_def using fwd [of ts] bwd assms by blast
qed

lemma keyword_token_ok: "token_ok (keyword_token z n)"
  by (simp add: keyword_token_def Let_def token_ok_def tk_defs)

lemma next_token_range: "next_token z = Token t r \<Longrightarrow> t = tkWS \<or> token_ok t"
  using keyword_token_ok [of z]
  by (auto simp: next_token_def Let_def token_ok_def tk_defs split: if_splits list.splits)

lemma tokens_range: "tokens z = Some ts \<Longrightarrow> list_all (\<lambda>t. t = tkWS \<or> token_ok t) ts"
proof (induction z arbitrary: ts rule: tokens.induct)
  case (1 z)
  show ?case
  proof (cases "z = []")
    case True
    with "1.prems" show ?thesis by (simp add: tokens.simps [of "[]"])
  next
    case False
    with 1 next_token_range [of z] show ?thesis
      by (auto simp: tokens.simps [of z] split: scan.splits)
  qed
qed

text \<open>White space does not change the state.\<close>

lemma run_range: "list_all (\<lambda>t. t = tkWS \<or> token_ok t) ts \<Longrightarrow> s < 8 \<Longrightarrow>
   run s ts = run s (filter (\<lambda>t. t \<noteq> tkWS) ts) \<and> run s ts < 8"
proof (induction ts arbitrary: s)
  case (Cons t ts)
  have s: "s \<in> {0, 1, 2, 3, 4, 5, 6, 7}" using Cons.prems(2) by auto
  have w: "step_state s tkWS = s" using s by (auto simp: step_state_def trans_def tk_defs)
  have "step_state s t < 8"
  proof (cases "t = tkWS")
    case True
    with w Cons.prems(2) show ?thesis by simp
  next
    case False
    with Cons.prems(1) have "token_ok t" by simp
    with s show ?thesis
      by (auto simp: machine machine_START machine_CREATE machine_EXPLAIN machine_TRIGGER machine_SEMI machine_END)
  qed
  with Cons.IH [of "step_state s t"] Cons.prems w show ?case by (cases "t = tkWS") auto
qed simp

text \<open>
  C10: sqlite3_complete accepts exactly the texts whose comments, strings and quoted names
  all end and whose tokens, white space apart, are a non-empty sequence of statements: a
  statement ends with its first semicolon, except that one starting with CREATE [TEMP]
  TRIGGER (possibly under EXPLAIN) ends with the first ; END ; after its head.
\<close>
theorem complete_language:
  "sqlite3_complete z =
    (case tokens z of None \<Rightarrow> False | Some ts \<Rightarrow> statements (filter (\<lambda>t. t \<noteq> tkWS) ts))"
proof (cases "tokens z")
  case None
  then show ?thesis by (simp add: sqlite3_complete_def complete_loop_run)
next
  case (Some ts)
  let ?us = "filter (\<lambda>t. t \<noteq> tkWS) ts"
  have r: "list_all (\<lambda>t. t = tkWS \<or> token_ok t) ts" by (rule tokens_range [OF Some])
  then have "list_all token_ok ?us" by (auto simp: list_all_iff)
  moreover have "run 0 ts = run 0 ?us" using run_range [OF r, of 0] by simp
  ultimately show ?thesis using Some run_statements [of ?us]
    by (cases "?us = []") (auto simp: sqlite3_complete_def complete_loop_run statements_def)
qed

end
