(* ===== verification/Unix_Lock.thy ===== *)
theory Unix_Lock
  imports Prelude
begin

text \<open>
  The database file locks of the unix VFS (os_unix.c in sqlite3.c): findInodeInfo,
  unixFileLock, unixLock, posixUnlock, unixCheckReservedLock and unixClose, written as
  programs that call fcntl and close, and the system of processes that run them.

  A \<open>call\<close> is a C function up to its next request to the operating system: \<open>Setlk\<close> is
  fcntl(F_SETLK), \<open>Getlk\<close> is fcntl(F_GETLK), \<open>Close_fd\<close> is close. What a request answers is an
  argument of the rest of the call, so that other processes run between any two requests.
\<close>

section \<open>Requests to the operating system\<close>

datatype ltype = F_UNLCK | F_RDLCK | F_WRLCK

datatype errno = EACCES | EAGAIN | ETIMEDOUT | EBUSY | EINTR | ENOLCK | EPERM | Other_errno nat

record flock =
  l_type :: ltype
  l_start :: int
  l_len :: int

datatype 'a call =
    Return 'a
  | Setlk int flock "errno option \<Rightarrow> 'a call"
  | Getlk int flock "errno + ltype \<Rightarrow> 'a call"
  | Close_fd int "'a call"

section \<open>Locks and files\<close>

definition NO_LOCK :: nat where "NO_LOCK = 0"
definition SHARED_LOCK :: nat where "SHARED_LOCK = 1"
definition RESERVED_LOCK :: nat where "RESERVED_LOCK = 2"
definition PENDING_LOCK :: nat where "PENDING_LOCK = 3"
definition EXCLUSIVE_LOCK :: nat where "EXCLUSIVE_LOCK = 4"

lemmas lock_defs = NO_LOCK_def SHARED_LOCK_def RESERVED_LOCK_def PENDING_LOCK_def EXCLUSIVE_LOCK_def

definition PENDING_BYTE :: int where "PENDING_BYTE = 0x40000000"
definition RESERVED_BYTE :: int where "RESERVED_BYTE = PENDING_BYTE + 1"
definition SHARED_FIRST :: int where "SHARED_FIRST = PENDING_BYTE + 2"
definition SHARED_SIZE :: int where "SHARED_SIZE = 510"

lemmas byte_defs = PENDING_BYTE_def RESERVED_BYTE_def SHARED_FIRST_def SHARED_SIZE_def

definition SQLITE_IOERR_UNLOCK :: int where "SQLITE_IOERR_UNLOCK = SQLITE_IOERR + 8 * 256"
definition SQLITE_IOERR_RDLOCK :: int where "SQLITE_IOERR_RDLOCK = SQLITE_IOERR + 9 * 256"
definition SQLITE_IOERR_CHECKRESERVEDLOCK :: int where
  "SQLITE_IOERR_CHECKRESERVEDLOCK = SQLITE_IOERR + 14 * 256"
definition SQLITE_IOERR_LOCK :: int where "SQLITE_IOERR_LOCK = SQLITE_IOERR + 15 * 256"

lemmas rc_defs = SQLITE_OK_def SQLITE_PERM_def SQLITE_BUSY_def SQLITE_NOMEM_def SQLITE_IOERR_def
  SQLITE_IOERR_UNLOCK_def SQLITE_IOERR_RDLOCK_def SQLITE_IOERR_CHECKRESERVEDLOCK_def SQLITE_IOERR_LOCK_def

definition UNIXFILE_EXCL :: u16 where "UNIXFILE_EXCL = 0x01"
definition UNIXFILE_RDONLY :: u16 where "UNIXFILE_RDONLY = 0x02"

type_synonym fileId = "nat \<times> nat"

text \<open>The fields of struct unixFile and struct unixInodeInfo the locks use; the \<open>eFileLock\<close> of the
  inode is \<open>iFileLock\<close>.\<close>

record unixFile =
  pInode :: fileId
  h :: int
  eFileLock :: nat
  ctrlFlags :: u16
  lastErrno :: "errno option"

record unixInodeInfo =
  fileId :: fileId
  nShared :: int
  nLock :: int
  iFileLock :: nat
  bProcessLock :: bool
  pUnused :: "int list"
  nRef :: int

definition sqliteErrorFromPosixError :: "errno \<Rightarrow> int \<Rightarrow> int" where
  "sqliteErrorFromPosixError posixError sqliteIOErr =
     (case posixError of
        EPERM \<Rightarrow> SQLITE_PERM
      | Other_errno _ \<Rightarrow> sqliteIOErr
      | _ \<Rightarrow> SQLITE_BUSY)"

definition storeLastErrno :: "unixFile \<Rightarrow> errno \<Rightarrow> unixFile" where
  "storeLastErrno pFile e = pFile\<lparr>lastErrno := Some e\<rparr>"

text \<open>A request that failed, as unixLock reports it.\<close>

definition lock_error :: "unixFile \<Rightarrow> errno \<Rightarrow> int \<times> unixFile" where
  "lock_error pFile tErrno =
     (let rc = sqliteErrorFromPosixError tErrno SQLITE_IOERR_LOCK in
      (rc, if rc \<noteq> SQLITE_BUSY then storeLastErrno pFile tErrno else pFile))"

section \<open>Locking\<close>

definition excl_mode :: "unixFile \<Rightarrow> bool" where
  "excl_mode pFile \<longleftrightarrow> ctrlFlags pFile AND (UNIXFILE_EXCL OR UNIXFILE_RDONLY) = UNIXFILE_EXCL"

text \<open>\<open>K\<close> is what the caller does with the result: \<open>None\<close> is 0, \<open>Some e\<close> is -1 with errno \<open>e\<close>.\<close>

definition unixFileLock ::
  "unixFile \<Rightarrow> unixInodeInfo \<Rightarrow> flock \<Rightarrow> (errno option \<Rightarrow> unixInodeInfo \<Rightarrow> 'a call) \<Rightarrow> 'a call" where
  "unixFileLock pFile inode pLock K =
     (if excl_mode pFile then
        (if \<not> bProcessLock inode then
           Setlk (h pFile) \<lparr>l_type = F_WRLCK, l_start = SHARED_FIRST, l_len = SHARED_SIZE\<rparr>
             (\<lambda>r. case r of
                Some e \<Rightarrow> K (Some e) inode
              | None \<Rightarrow> K None (inode\<lparr>bProcessLock := True, nLock := nLock inode + 1\<rparr>))
         else K None inode)
      else Setlk (h pFile) pLock (\<lambda>r. K r inode))"

type_synonym lock_result = "int \<times> unixFile \<times> unixInodeInfo"

text \<open>The end of unixLock: the read lock on the shared range, or the write lock of a writer.\<close>

definition lock_shared :: "unixFile \<Rightarrow> unixInodeInfo \<Rightarrow> lock_result call" where
  "lock_shared pFile inode =
     unixFileLock pFile inode \<lparr>l_type = F_RDLCK, l_start = SHARED_FIRST, l_len = SHARED_SIZE\<rparr>
       (\<lambda>r inode.
          unixFileLock pFile inode \<lparr>l_type = F_UNLCK, l_start = PENDING_BYTE, l_len = 1\<rparr>
            (\<lambda>r1 inode. case r of
               Some e \<Rightarrow> (case lock_error pFile e of (rc, pFile) \<Rightarrow> Return (rc, pFile, inode))
             | None \<Rightarrow> (case r1 of
                   Some e \<Rightarrow> Return (SQLITE_IOERR_UNLOCK, storeLastErrno pFile e, inode)
                 | None \<Rightarrow> Return (SQLITE_OK, pFile\<lparr>eFileLock := SHARED_LOCK\<rparr>,
                     inode\<lparr>nLock := nLock inode + 1, nShared := 1, iFileLock := SHARED_LOCK\<rparr>))))"

definition lock_write :: "unixFile \<Rightarrow> unixInodeInfo \<Rightarrow> nat \<Rightarrow> lock_result call" where
  "lock_write pFile inode lvl =
     (if lvl = EXCLUSIVE_LOCK \<and> nShared inode > 1 then Return (SQLITE_BUSY, pFile, inode)
      else unixFileLock pFile inode
        (if lvl = RESERVED_LOCK then \<lparr>l_type = F_WRLCK, l_start = RESERVED_BYTE, l_len = 1\<rparr>
         else \<lparr>l_type = F_WRLCK, l_start = SHARED_FIRST, l_len = SHARED_SIZE\<rparr>)
        (\<lambda>r inode. case r of
           Some e \<Rightarrow> (case lock_error pFile e of (rc, pFile) \<Rightarrow> Return (rc, pFile, inode))
         | None \<Rightarrow> Return (SQLITE_OK, pFile\<lparr>eFileLock := lvl\<rparr>, inode\<lparr>iFileLock := lvl\<rparr>)))"

definition unixLock :: "unixFile \<Rightarrow> unixInodeInfo \<Rightarrow> nat \<Rightarrow> lock_result call" where
  "unixLock pFile inode lvl =
     (if eFileLock pFile \<ge> lvl then Return (SQLITE_OK, pFile, inode)
      else if eFileLock pFile \<noteq> iFileLock inode \<and> (iFileLock inode \<ge> PENDING_LOCK \<or> lvl > SHARED_LOCK)
      then Return (SQLITE_BUSY, pFile, inode)
      else if lvl = SHARED_LOCK \<and> (iFileLock inode = SHARED_LOCK \<or> iFileLock inode = RESERVED_LOCK)
      then Return (SQLITE_OK, pFile\<lparr>eFileLock := SHARED_LOCK\<rparr>,
             inode\<lparr>nShared := nShared inode + 1, nLock := nLock inode + 1\<rparr>)
      else if lvl = SHARED_LOCK \<or> (lvl = EXCLUSIVE_LOCK \<and> eFileLock pFile = RESERVED_LOCK)
      then unixFileLock pFile inode
             \<lparr>l_type = (if lvl = SHARED_LOCK then F_RDLCK else F_WRLCK), l_start = PENDING_BYTE, l_len = 1\<rparr>
             (\<lambda>r inode. case r of
                Some e \<Rightarrow> (case lock_error pFile e of (rc, pFile) \<Rightarrow> Return (rc, pFile, inode))
              | None \<Rightarrow>
                  if lvl = EXCLUSIVE_LOCK
                  then lock_write (pFile\<lparr>eFileLock := PENDING_LOCK\<rparr>) (inode\<lparr>iFileLock := PENDING_LOCK\<rparr>) lvl
                  else lock_shared pFile inode)
      else lock_write pFile inode lvl)"

section \<open>Unlocking and closing\<close>

primrec close_all :: "int list \<Rightarrow> 'a call \<Rightarrow> 'a call" where
  "close_all [] K = K"
| "close_all (fd # fds) K = Close_fd fd (close_all fds K)"

definition closePendingFds :: "unixInodeInfo \<Rightarrow> (unixInodeInfo \<Rightarrow> 'a call) \<Rightarrow> 'a call" where
  "closePendingFds inode K = close_all (pUnused inode) (K (inode\<lparr>pUnused := []\<rparr>))"

text \<open>The part of posixUnlock for \<open>NO_LOCK\<close>, from the decrement of the shared counter on.\<close>

definition unlock_count :: "int \<Rightarrow> unixFile \<Rightarrow> unixInodeInfo \<Rightarrow> lock_result call" where
  "unlock_count rc pFile inode =
     (let inode = inode\<lparr>nLock := nLock inode - 1\<rparr>;
          done = (\<lambda>inode. Return (rc, if rc = SQLITE_OK then pFile\<lparr>eFileLock := NO_LOCK\<rparr> else pFile, inode))
      in if nLock inode = 0 then closePendingFds inode done else done inode)"

definition unlock_shared :: "unixFile \<Rightarrow> unixInodeInfo \<Rightarrow> lock_result call" where
  "unlock_shared pFile inode =
     (let inode = inode\<lparr>nShared := nShared inode - 1\<rparr> in
      if nShared inode = 0 then
        unixFileLock pFile inode \<lparr>l_type = F_UNLCK, l_start = 0, l_len = 0\<rparr>
          (\<lambda>r inode. case r of
             None \<Rightarrow> unlock_count SQLITE_OK pFile (inode\<lparr>iFileLock := NO_LOCK\<rparr>)
           | Some e \<Rightarrow> unlock_count SQLITE_IOERR_UNLOCK
               ((storeLastErrno pFile e)\<lparr>eFileLock := NO_LOCK\<rparr>) (inode\<lparr>iFileLock := NO_LOCK\<rparr>))
      else unlock_count SQLITE_OK pFile inode)"

definition unlock_writer :: "unixFile \<Rightarrow> unixInodeInfo \<Rightarrow> nat \<Rightarrow> lock_result call" where
  "unlock_writer pFile inode lvl =
     unixFileLock pFile inode \<lparr>l_type = F_UNLCK, l_start = PENDING_BYTE, l_len = 2\<rparr>
       (\<lambda>r inode. case r of
          Some e \<Rightarrow> Return (SQLITE_IOERR_UNLOCK, storeLastErrno pFile e, inode)
        | None \<Rightarrow>
            (let inode = inode\<lparr>iFileLock := SHARED_LOCK\<rparr> in
             if lvl = NO_LOCK then unlock_shared pFile inode
             else Return (SQLITE_OK, pFile\<lparr>eFileLock := lvl\<rparr>, inode)))"

text \<open>The write lock on the shared range becomes a read lock.\<close>

definition unlock_downgrade :: "unixFile \<Rightarrow> unixInodeInfo \<Rightarrow> nat \<Rightarrow> lock_result call" where
  "unlock_downgrade pFile inode lvl =
     unixFileLock pFile inode \<lparr>l_type = F_RDLCK, l_start = SHARED_FIRST, l_len = SHARED_SIZE\<rparr>
       (\<lambda>r inode. case r of
          Some e \<Rightarrow> Return (SQLITE_IOERR_RDLOCK, storeLastErrno pFile e, inode)
        | None \<Rightarrow> unlock_writer pFile inode lvl)"

definition posixUnlock :: "unixFile \<Rightarrow> unixInodeInfo \<Rightarrow> nat \<Rightarrow> lock_result call" where
  "posixUnlock pFile inode lvl =
     (if eFileLock pFile \<le> lvl then Return (SQLITE_OK, pFile, inode)
      else if eFileLock pFile > SHARED_LOCK then
        (if lvl = SHARED_LOCK then unlock_downgrade pFile inode lvl else unlock_writer pFile inode lvl)
      else unlock_shared pFile inode)"

definition unixUnlock :: "unixFile \<Rightarrow> unixInodeInfo \<Rightarrow> nat \<Rightarrow> lock_result call" where
  "unixUnlock pFile inode lvl = posixUnlock pFile inode lvl"

definition unixCheckReservedLock :: "unixFile \<Rightarrow> unixInodeInfo \<Rightarrow> (int \<times> bool \<times> unixFile) call" where
  "unixCheckReservedLock pFile inode =
     (if iFileLock inode > SHARED_LOCK then Return (SQLITE_OK, True, pFile)
      else if \<not> bProcessLock inode then
        Getlk (h pFile) \<lparr>l_type = F_WRLCK, l_start = RESERVED_BYTE, l_len = 1\<rparr>
          (\<lambda>r. case r of
             Inl e \<Rightarrow> Return (SQLITE_IOERR_CHECKRESERVEDLOCK, False, storeLastErrno pFile e)
           | Inr t \<Rightarrow> Return (SQLITE_OK, t \<noteq> F_UNLCK, pFile))
      else Return (SQLITE_OK, False, pFile))"

definition setPendingFd :: "unixFile \<Rightarrow> unixInodeInfo \<Rightarrow> unixFile \<times> unixInodeInfo" where
  "setPendingFd pFile inode = (pFile\<lparr>h := - 1\<rparr>, inode\<lparr>pUnused := h pFile # pUnused inode\<rparr>)"

text \<open>unixClose between the two mutexes: the descriptor of a file with outstanding locks is deferred.\<close>

definition close_defer :: "unixFile \<Rightarrow> unixInodeInfo \<Rightarrow> unixFile \<times> unixInodeInfo" where
  "close_defer pFile inode = (if nLock inode \<noteq> 0 then setPendingFd pFile inode else (pFile, inode))"

section \<open>The list of inodes of a process\<close>

text \<open>\<open>inodeList\<close>, most recent first; an inode is found by its \<open>fileId\<close>.\<close>

definition get_inode :: "fileId \<Rightarrow> unixInodeInfo list \<Rightarrow> unixInodeInfo option" where
  "get_inode f inodeList = find (\<lambda>i. fileId i = f) inodeList"

definition set_inode :: "unixInodeInfo \<Rightarrow> unixInodeInfo list \<Rightarrow> unixInodeInfo list" where
  "set_inode inode inodeList = map (\<lambda>i. if fileId i = fileId inode then inode else i) inodeList"

definition new_inode :: "fileId \<Rightarrow> unixInodeInfo" where
  "new_inode f = \<lparr>fileId = f, nShared = 0, nLock = 0, iFileLock = 0, bProcessLock = False, pUnused = [], nRef = 1\<rparr>"

text \<open>\<open>st\<close> is what fstat gives: the identity of the file, or an errno; \<open>alloc\<close> whether the
  allocations of the inode and of its mutex succeed.\<close>

definition findInodeInfo ::
  "errno + fileId \<Rightarrow> bool \<Rightarrow> unixFile \<Rightarrow> unixInodeInfo list \<Rightarrow> int \<times> unixFile \<times> unixInodeInfo list" where
  "findInodeInfo st alloc pFile inodeList =
     (case st of
        Inl e \<Rightarrow> (SQLITE_IOERR, storeLastErrno pFile e, inodeList)
      | Inr f \<Rightarrow>
          (case get_inode f inodeList of
             None \<Rightarrow> if alloc then (SQLITE_OK, pFile\<lparr>pInode := f\<rparr>, new_inode f # inodeList)
                     else (SQLITE_NOMEM, pFile, inodeList)
           | Some inode \<Rightarrow> (SQLITE_OK, pFile\<lparr>pInode := f\<rparr>, set_inode (inode\<lparr>nRef := nRef inode + 1\<rparr>) inodeList)))"

text \<open>The list without the file's reference, and the descriptors closed.\<close>

definition releaseInodeInfo :: "unixFile \<Rightarrow> unixInodeInfo list \<Rightarrow> unixInodeInfo list \<times> int list" where
  "releaseInodeInfo pFile inodeList =
     (case get_inode (pInode pFile) inodeList of
        None \<Rightarrow> (inodeList, [])
      | Some inode \<Rightarrow>
          (let inode = inode\<lparr>nRef := nRef inode - 1\<rparr> in
           if nRef inode = 0
           then (filter (\<lambda>i. fileId i \<noteq> fileId inode) inodeList, pUnused inode)
           else (set_inode inode inodeList, [])))"

definition closeUnixFile :: "unixFile \<Rightarrow> int list" where
  "closeUnixFile pFile = (if h pFile \<ge> 0 then [h pFile] else [])"

text \<open>The part of fillInUnixFile for a file with posix locks; \<open>excl\<close> is the test for the VFS
  named unix-excl. When findInodeInfo fails, the descriptor is closed.\<close>

definition fillInUnixFile ::
  "errno + fileId \<Rightarrow> bool \<Rightarrow> int \<Rightarrow> u16 \<Rightarrow> bool \<Rightarrow> unixInodeInfo list \<Rightarrow>
   (int \<times> unixFile \<times> unixInodeInfo list) \<times> int list" where
  "fillInUnixFile st alloc fd flags excl inodeList =
     (let pNew = \<lparr>pInode = (0, 0), h = fd, eFileLock = NO_LOCK,
                  ctrlFlags = (if excl then flags OR UNIXFILE_EXCL else flags), lastErrno = None\<rparr>
      in case findInodeInfo st alloc pNew inodeList of
           (rc, pNew, inodeList) \<Rightarrow>
             ((rc, pNew\<lparr>lastErrno := None\<rparr>, inodeList), if rc \<noteq> SQLITE_OK then [fd] else []))"

section \<open>Processes sharing a database file\<close>

text \<open>
  One file and the processes that have it open. Of a process, the slots of its file handles,
  its \<open>inodeList\<close>, the locks the kernel holds for it on each byte of the file, the lock call
  it is in (at most one: \<open>pLockMutex\<close>), and a close between its two mutexes.
\<close>

datatype operation = Lock nat | Unlock nat | Close

record proc =
  inodeList :: "unixInodeInfo list"
  files :: "unixFile option list"
  held :: "int \<Rightarrow> ltype"
  running :: "(nat \<times> operation \<times> lock_result call) option"
  closing :: "(nat \<times> bool) option"

type_synonym system = "proc list"

text \<open>
  What fcntl does, by POSIX: a lock is refused when another process holds a conflicting one on
  some byte of the range, else it replaces what the process itself holds there; closing any
  descriptor of the file drops all locks of the process. Every request may also fail for a
  reason of its own. The modes of a run:
  \<^item> \<open>atomic_close\<close>: no lock call of the process starts between the deferral test of a close and
    the close of the descriptor;
  \<^item> \<open>unlock_fails\<close>: F_UNLCK may fail; \<open>fstat_fails\<close>: fstat may fail;
  \<^item> \<open>mixed_modes\<close>: handles of unix and unix-excl in one process; otherwise \<open>exclusive p\<close> is the
    mode of process \<open>p\<close>.
\<close>

record config =
  dbfile :: fileId
  atomic_close :: bool
  unlock_fails :: bool
  fstat_fails :: bool
  mixed_modes :: bool
  exclusive :: "nat \<Rightarrow> bool"

definition in_range :: "flock \<Rightarrow> int \<Rightarrow> bool" where
  "in_range fl b \<longleftrightarrow> l_start fl \<le> b \<and> (l_len fl = 0 \<or> b < l_start fl + l_len fl)"

definition set_lock :: "flock \<Rightarrow> (int \<Rightarrow> ltype) \<Rightarrow> int \<Rightarrow> ltype" where
  "set_lock fl L = (\<lambda>b. if in_range fl b then l_type fl else L b)"

definition drop_locks :: "int list \<Rightarrow> (int \<Rightarrow> ltype) \<Rightarrow> int \<Rightarrow> ltype" where
  "drop_locks fds L = (if fds = [] then L else (\<lambda>b. F_UNLCK))"

fun compatible :: "ltype \<Rightarrow> ltype \<Rightarrow> bool" where
  "compatible F_UNLCK t = True"
| "compatible F_RDLCK t = (t \<noteq> F_WRLCK)"
| "compatible F_WRLCK t = (t = F_UNLCK)"

text \<open>The code asks for read and write locks on bounded ranges only.\<close>

definition grantable :: "flock \<Rightarrow> (int \<Rightarrow> ltype) \<Rightarrow> bool" where
  "grantable fl L \<longleftrightarrow> l_type fl = F_UNLCK \<or>
     (0 < l_len fl \<and> list_all (\<lambda>b. compatible (l_type fl) (L b)) [l_start fl .. l_start fl + l_len fl - 1])"

definition others_allow :: "system \<Rightarrow> nat \<Rightarrow> flock \<Rightarrow> bool" where
  "others_allow s p fl \<longleftrightarrow> list_all (\<lambda>q. q = p \<or> grantable fl (held (s ! q))) [0..<length s]"

text \<open>The calls a client makes: the assertions at the start of unixLock and posixUnlock.\<close>

definition call_ok :: "unixFile \<Rightarrow> operation \<Rightarrow> bool" where
  "call_ok u oper =
     (case oper of
        Lock l \<Rightarrow> (l = SHARED_LOCK \<or> l = RESERVED_LOCK \<or> l = EXCLUSIVE_LOCK) \<and>
          (eFileLock u \<noteq> NO_LOCK \<or> l = SHARED_LOCK) \<and> (l \<noteq> RESERVED_LOCK \<or> eFileLock u = SHARED_LOCK)
      | Unlock l \<Rightarrow> l \<le> SHARED_LOCK
      | Close \<Rightarrow> True)"

definition start_call :: "unixFile \<Rightarrow> unixInodeInfo \<Rightarrow> operation \<Rightarrow> lock_result call" where
  "start_call u i oper =
     (case oper of Lock l \<Rightarrow> unixLock u i l | Unlock l \<Rightarrow> unixUnlock u i l | Close \<Rightarrow> unixUnlock u i NO_LOCK)"

datatype event =
    Open nat nat int u16 bool "errno option" bool
  | Start nat nat operation
  | Kernel nat "errno option"
  | Finish nat
  | Defer nat
  | Release nat

definition slot :: "proc \<Rightarrow> nat \<Rightarrow> unixFile option" where
  "slot P k = (if k < length (files P) then files P ! k else None)"

definition open_step :: "config \<Rightarrow> nat \<Rightarrow> nat \<Rightarrow> int \<Rightarrow> u16 \<Rightarrow> bool \<Rightarrow> errno option \<Rightarrow> bool \<Rightarrow> proc \<Rightarrow> proc option" where
  "open_step c p k fd flags excl err alloc P =
     (if k < length (files P) \<and> files P ! k = None \<and> 0 \<le> fd \<and> (err = None \<or> fstat_fails c) then
        (case fillInUnixFile (case err of Some e \<Rightarrow> Inl e | None \<Rightarrow> Inr (dbfile c)) alloc fd flags excl (inodeList P) of
           ((rc, u, inodes), fds) \<Rightarrow>
             if rc = SQLITE_OK \<and> \<not> (mixed_modes c \<or> excl_mode u = exclusive c p) then None
             else Some (P\<lparr>inodeList := inodes, held := drop_locks fds (held P),
                          files := (files P)[k := if rc = SQLITE_OK then Some u else None]\<rparr>))
      else None)"

definition start_step :: "config \<Rightarrow> nat \<Rightarrow> operation \<Rightarrow> proc \<Rightarrow> proc option" where
  "start_step c k oper P =
     (case slot P k of
        None \<Rightarrow> None
      | Some u \<Rightarrow>
          (case get_inode (pInode u) (inodeList P) of
             None \<Rightarrow> None
           | Some i \<Rightarrow>
               if call_ok u oper \<and> running P = None \<and>
                  (case closing P of None \<Rightarrow> True
                   | Some (k', deferred) \<Rightarrow> k' \<noteq> k \<and> oper \<noteq> Close \<and> \<not> (deferred \<and> atomic_close c))
               then Some (P\<lparr>running := Some (k, oper, start_call u i oper)\<rparr>)
               else None))"

text \<open>The next request of the running call; \<open>ok\<close> says whether the other processes allow it.\<close>

definition kernel_step :: "config \<Rightarrow> (flock \<Rightarrow> bool) \<Rightarrow> errno option \<Rightarrow> proc \<Rightarrow> proc option" where
  "kernel_step c ok err P =
     (case running P of
        Some (k, oper, Setlk fd fl K) \<Rightarrow>
          (case err of
             None \<Rightarrow> if ok fl then Some (P\<lparr>held := set_lock fl (held P), running := Some (k, oper, K None)\<rparr>) else None
           | Some e \<Rightarrow> if l_type fl \<noteq> F_UNLCK \<or> unlock_fails c then Some (P\<lparr>running := Some (k, oper, K (Some e))\<rparr>) else None)
      | Some (k, oper, Close_fd fd K) \<Rightarrow>
          Some (P\<lparr>held := drop_locks [fd] (held P), running := Some (k, oper, K)\<rparr>)
      | _ \<Rightarrow> None)"

text \<open>The call returns: its handle and its inode are written back; the reference count belongs to
  open and close, which do not hold \<open>pLockMutex\<close>.\<close>

definition finish_step :: "proc \<Rightarrow> proc option" where
  "finish_step P =
     (case running P of
        Some (k, oper, Return (rc, u, i)) \<Rightarrow>
          (case get_inode (fileId i) (inodeList P) of
             None \<Rightarrow> None
           | Some old \<Rightarrow>
               Some (P\<lparr>files := (files P)[k := Some u], inodeList := set_inode (i\<lparr>nRef := nRef old\<rparr>) (inodeList P),
                       running := None, closing := if oper = Close then Some (k, False) else closing P\<rparr>))
      | _ \<Rightarrow> None)"

definition defer_step :: "proc \<Rightarrow> proc option" where
  "defer_step P =
     (case closing P of
        Some (k, False) \<Rightarrow>
          (case slot P k of
             None \<Rightarrow> None
           | Some u \<Rightarrow>
               (case get_inode (pInode u) (inodeList P) of
                  None \<Rightarrow> None
                | Some i \<Rightarrow>
                    if running P = None then
                      (case close_defer u i of (u, i) \<Rightarrow>
                         Some (P\<lparr>files := (files P)[k := Some u], inodeList := set_inode i (inodeList P),
                                 closing := Some (k, True)\<rparr>))
                    else None))
      | _ \<Rightarrow> None)"

definition release_step :: "proc \<Rightarrow> proc option" where
  "release_step P =
     (case closing P of
        Some (k, True) \<Rightarrow>
          (case slot P k of
             None \<Rightarrow> None
           | Some u \<Rightarrow>
               (case releaseInodeInfo u (inodeList P) of (inodes, fds) \<Rightarrow>
                  Some (P\<lparr>inodeList := inodes, held := drop_locks (fds @ closeUnixFile u) (held P),
                          files := (files P)[k := None], closing := None\<rparr>)))
      | _ \<Rightarrow> None)"

fun event_proc :: "event \<Rightarrow> nat" where
  "event_proc (Open p k fd flags excl err alloc) = p"
| "event_proc (Start p k oper) = p"
| "event_proc (Kernel p err) = p"
| "event_proc (Finish p) = p"
| "event_proc (Defer p) = p"
| "event_proc (Release p) = p"

fun proc_step :: "config \<Rightarrow> (flock \<Rightarrow> bool) \<Rightarrow> event \<Rightarrow> proc \<Rightarrow> proc option" where
  "proc_step c ok (Open p k fd flags excl err alloc) P = open_step c p k fd flags excl err alloc P"
| "proc_step c ok (Start p k oper) P = start_step c k oper P"
| "proc_step c ok (Kernel p err) P = kernel_step c ok err P"
| "proc_step c ok (Finish p) P = finish_step P"
| "proc_step c ok (Defer p) P = defer_step P"
| "proc_step c ok (Release p) P = release_step P"

definition sys_step :: "config \<Rightarrow> event \<Rightarrow> system \<Rightarrow> system option" where
  "sys_step c ev s =
     (let p = event_proc ev in
      if p < length s then
        map_option (\<lambda>P. s[p := P]) (proc_step c (others_allow s p) ev (s ! p))
      else None)"

fun run_events :: "config \<Rightarrow> event list \<Rightarrow> system \<Rightarrow> system option" where
  "run_events c [] s = Some s"
| "run_events c (ev # evs) s = (case sys_step c ev s of None \<Rightarrow> None | Some s' \<Rightarrow> run_events c evs s')"

text \<open>\<open>n\<close> processes with room for \<open>m\<close> handles each, nothing open.\<close>

definition new_proc :: "nat \<Rightarrow> proc" where
  "new_proc m = \<lparr>inodeList = [], files = replicate m None, held = (\<lambda>b. F_UNLCK), running = None, closing = None\<rparr>"

definition start_system :: "nat \<Rightarrow> nat \<Rightarrow> system" where
  "start_system n m = replicate n (new_proc m)"

text \<open>The lock a handle may rely on: what its unlock in progress leaves it, else its level.\<close>

definition claim :: "proc \<Rightarrow> nat \<Rightarrow> nat" where
  "claim P k =
     (case slot P k of
        None \<Rightarrow> NO_LOCK
      | Some u \<Rightarrow>
          (case running P of
             Some (k', oper, K) \<Rightarrow>
               if k' = k then (case oper of Lock l \<Rightarrow> eFileLock u | Unlock l \<Rightarrow> min l (eFileLock u) | Close \<Rightarrow> NO_LOCK)
               else eFileLock u
           | None \<Rightarrow> eFileLock u))"

end
