(* ===== verification/Unix_Lock_Props.thy ===== *)
theory Unix_Lock_Props
  imports Unix_Lock
begin

text \<open>
  Mutual exclusion of the unix file locks. The invariant of a process has two parts: its own
  records (levels, counters, references), which hold between calls, and what the kernel holds
  for it, which a call keeps at each of its requests (\<open>always\<close>). Other processes enter only
  through the compatibility of the kernel's locks.
\<close>

section \<open>The locks on the three regions\<close>

definition shared_range :: "int set" where
  "shared_range = {SHARED_FIRST ..< SHARED_FIRST + SHARED_SIZE}"

definition shared_held :: "(int \<Rightarrow> ltype) \<Rightarrow> bool" where
  "shared_held L \<longleftrightarrow> (\<forall>b \<in> shared_range. L b \<noteq> F_UNLCK)"

definition shared_written :: "(int \<Rightarrow> ltype) \<Rightarrow> bool" where
  "shared_written L \<longleftrightarrow> (\<forall>b \<in> shared_range. L b = F_WRLCK)"

abbreviation no_locks :: "int \<Rightarrow> ltype" where
  "no_locks \<equiv> (\<lambda>b. F_UNLCK)"

definition unlocked :: "(int \<Rightarrow> ltype) \<Rightarrow> bool" where
  "unlocked L \<longleftrightarrow> (\<forall>b \<ge> 0. L b = F_UNLCK)"

abbreviation shared_lock :: "ltype \<Rightarrow> flock" where
  "shared_lock t \<equiv> \<lparr>l_type = t, l_start = SHARED_FIRST, l_len = SHARED_SIZE\<rparr>"

abbreviation pending_lock :: "ltype \<Rightarrow> flock" where
  "pending_lock t \<equiv> \<lparr>l_type = t, l_start = PENDING_BYTE, l_len = 1\<rparr>"

abbreviation reserved_lock :: "ltype \<Rightarrow> flock" where
  "reserved_lock t \<equiv> \<lparr>l_type = t, l_start = RESERVED_BYTE, l_len = 1\<rparr>"

abbreviation writer_unlock :: flock where
  "writer_unlock \<equiv> \<lparr>l_type = F_UNLCK, l_start = PENDING_BYTE, l_len = 2\<rparr>"

abbreviation unlock_everything :: flock where
  "unlock_everything \<equiv> \<lparr>l_type = F_UNLCK, l_start = 0, l_len = 0\<rparr>"

lemmas region_defs = set_lock_def in_range_def shared_held_def shared_written_def shared_range_def byte_defs

lemma set_shared [simp]:
  "shared_held (set_lock (shared_lock t) L) \<longleftrightarrow> t \<noteq> F_UNLCK"
  "shared_written (set_lock (shared_lock t) L) \<longleftrightarrow> t = F_WRLCK"
  "set_lock (shared_lock t) L PENDING_BYTE = L PENDING_BYTE"
  "set_lock (shared_lock t) L RESERVED_BYTE = L RESERVED_BYTE"
  by (auto simp: region_defs)

lemma set_pending [simp]:
  "shared_held (set_lock (pending_lock t) L) \<longleftrightarrow> shared_held L"
  "shared_written (set_lock (pending_lock t) L) \<longleftrightarrow> shared_written L"
  "set_lock (pending_lock t) L PENDING_BYTE = t"
  "set_lock (pending_lock t) L RESERVED_BYTE = L RESERVED_BYTE"
  by (auto simp: region_defs)

lemma set_reserved [simp]:
  "shared_held (set_lock (reserved_lock t) L) \<longleftrightarrow> shared_held L"
  "shared_written (set_lock (reserved_lock t) L) \<longleftrightarrow> shared_written L"
  "set_lock (reserved_lock t) L PENDING_BYTE = L PENDING_BYTE"
  "set_lock (reserved_lock t) L RESERVED_BYTE = t"
  by (auto simp: region_defs)

lemma set_writer_unlock [simp]:
  "shared_held (set_lock writer_unlock L) \<longleftrightarrow> shared_held L"
  "shared_written (set_lock writer_unlock L) \<longleftrightarrow> shared_written L"
  by (auto simp: region_defs)

lemma set_unlocked [simp]:
  "unlocked no_locks" "unlocked (set_lock unlock_everything L)"
  "unlocked L \<Longrightarrow> unlocked (set_lock (pending_lock F_UNLCK) (set_lock (pending_lock F_RDLCK) L))"
  "unlocked L \<Longrightarrow> unlocked (set_lock writer_unlock L)"
  by (auto simp: unlocked_def set_lock_def in_range_def)

text \<open>Two processes cannot hold the shared range against each other.\<close>

lemma shared_written_held: "shared_written L \<Longrightarrow> shared_held L"
  by (auto simp: shared_written_def shared_held_def)

lemma shared_conflict:
  assumes "shared_written L" and "shared_held M" and "\<And>b. L b = F_WRLCK \<Longrightarrow> M b = F_UNLCK"
  shows False
proof -
  have "SHARED_FIRST \<in> shared_range" by (simp add: shared_range_def byte_defs)
  with assms show False by (auto simp: shared_written_def shared_held_def)
qed

section \<open>The invariant of a process\<close>

text \<open>What the kernel holds for a process whose handles rely on level \<open>cl\<close>.\<close>

definition backed :: "bool \<Rightarrow> nat \<Rightarrow> (int \<Rightarrow> ltype) \<Rightarrow> bool" where
  "backed x cl L \<longleftrightarrow>
     (1 \<le> cl \<longrightarrow> shared_held L) \<and> (cl = 4 \<longrightarrow> shared_written L) \<and>
     (2 \<le> cl \<and> cl \<le> 3 \<longrightarrow> (if x then shared_written L else L RESERVED_BYTE = F_WRLCK)) \<and>
     (cl = 3 \<and> \<not> x \<longrightarrow> L PENDING_BYTE = F_WRLCK)"

lemma backed_zero [simp]: "backed x 0 L"
  by (simp add: backed_def)

definition lock_inv :: "bool \<Rightarrow> unixInodeInfo \<Rightarrow> (int \<Rightarrow> ltype) \<Rightarrow> bool" where
  "lock_inv x i L \<longleftrightarrow>
     backed x (iFileLock i) L \<and> (bProcessLock i \<longrightarrow> x \<and> shared_written L) \<and>
     (x \<and> 1 \<le> iFileLock i \<longrightarrow> bProcessLock i) \<and> (\<not> x \<and> iFileLock i = 0 \<longrightarrow> unlocked L)"

text \<open>
  The counters of the inode, from the level \<open>l\<close> of one handle and a summary of the others:
  \<open>n1\<close> of them have a lock, \<open>n2\<close> one above SHARED, \<open>m\<close> is the highest level.
\<close>

definition sum_inv :: "nat \<Rightarrow> nat \<Rightarrow> nat \<Rightarrow> nat \<Rightarrow> unixInodeInfo \<Rightarrow> bool" where
  "sum_inv l n1 n2 m i \<longleftrightarrow>
     nShared i = of_bool (1 \<le> l) + int n1 \<and> nLock i = nShared i + of_bool (bProcessLock i) \<and>
     l \<le> iFileLock i \<and> m \<le> iFileLock i \<and> (iFileLock i = l \<or> iFileLock i = m) \<and>
     (2 \<le> l \<longrightarrow> n2 = 0) \<and> n2 \<le> 1 \<and> (iFileLock i = 4 \<longrightarrow> nShared i = 1) \<and> iFileLock i \<le> 4"

definition rest_ok :: "nat \<Rightarrow> nat \<Rightarrow> nat \<Rightarrow> bool" where
  "rest_ok n1 n2 m \<longleftrightarrow> (n1 = 0 \<longleftrightarrow> m = 0) \<and> (n2 = 0 \<longleftrightarrow> m \<le> 1) \<and> n2 \<le> n1"

text \<open>A call keeps \<open>I\<close> at each request, and \<open>Q\<close> holds of its result, when F_UNLCK does not fail.\<close>

primrec always :: "((int \<Rightarrow> ltype) \<Rightarrow> bool) \<Rightarrow> ('a \<Rightarrow> (int \<Rightarrow> ltype) \<Rightarrow> bool) \<Rightarrow> 'a call \<Rightarrow> (int \<Rightarrow> ltype) \<Rightarrow> bool" where
  "always I Q (Return r) = (\<lambda>L. I L \<and> Q r L)"
| "always I Q (Setlk fd fl K) =
     (\<lambda>L. I L \<and> always I Q (K None) (set_lock fl L) \<and> (l_type fl = F_UNLCK \<or> (\<forall>e. always I Q (K (Some e)) L)))"
| "always I Q (Getlk fd fl K) = (\<lambda>L. I L \<and> (\<forall>r. always I Q (K r) L))"
| "always I Q (Close_fd fd K) = (\<lambda>L. I L \<and> always I Q K no_locks)"

lemma always_I: "always I Q K L \<Longrightarrow> I L"
  by (cases K) auto

lemma always_unixFileLock:
  "always I Q (unixFileLock u i fl K) L \<longleftrightarrow>
     (if excl_mode u then
        (if bProcessLock i then always I Q (K None i) L
         else I L \<and> always I Q (K None (i\<lparr>bProcessLock := True, nLock := nLock i + 1\<rparr>)) (set_lock (shared_lock F_WRLCK) L) \<and>
              (\<forall>e. always I Q (K (Some e) i) L))
      else I L \<and> always I Q (K None i) (set_lock fl L) \<and> (l_type fl = F_UNLCK \<or> (\<forall>e. always I Q (K (Some e) i) L)))"
  by (simp add: unixFileLock_def)

lemma always_close_all:
  "always I Q (close_all fds K) L \<longleftrightarrow>
     (if fds = [] then always I Q K L else I L \<and> I no_locks \<and> always I Q K no_locks)"
proof (induction fds arbitrary: L)
  case (Cons fd fds)
  then show ?case by (auto dest: always_I)
qed simp

text \<open>What a call leaves: the same handle and inode, the counters in order, the locks backed.\<close>

definition result_ok :: "bool \<Rightarrow> nat \<Rightarrow> nat \<Rightarrow> nat \<Rightarrow> unixFile \<Rightarrow> unixInodeInfo \<Rightarrow> lock_result \<Rightarrow> (int \<Rightarrow> ltype) \<Rightarrow> bool" where
  "result_ok x n1 n2 m u i r L \<longleftrightarrow>
     (case r of (rc, u', i') \<Rightarrow>
        pInode u' = pInode u \<and> ctrlFlags u' = ctrlFlags u \<and> h u' = h u \<and> fileId i' = fileId i \<and>
        sum_inv (eFileLock u') n1 n2 m i' \<and> lock_inv x i' L)"

lemma excl_mode_update [simp]:
  "excl_mode (u\<lparr>eFileLock := l\<rparr>) = excl_mode u" "excl_mode (u\<lparr>lastErrno := e\<rparr>) = excl_mode u"
  by (simp_all add: excl_mode_def)

lemma lock_error_update:
  "\<exists>le. snd (lock_error u e) = u\<lparr>lastErrno := le\<rparr>"
  by (auto simp: lock_error_def Let_def storeLastErrno_def intro: exI [of _ "lastErrno u"])

lemmas call_defs = sum_inv_def lock_inv_def backed_def result_ok_def rest_ok_def lock_defs

lemma result_ok_same:
  "fileId j = fileId i \<Longrightarrow> result_ok x n1 n2 m u j = result_ok x n1 n2 m u i"
  "pInode v = pInode u \<Longrightarrow> ctrlFlags v = ctrlFlags u \<Longrightarrow> h v = h u \<Longrightarrow> result_ok x n1 n2 m v = result_ok x n1 n2 m u"
  by (auto simp: result_ok_def fun_eq_iff)

text \<open>A handle with an error number differs in nothing the invariant reads.\<close>

lemma result_ok_errno [simp]:
  "result_ok x n1 n2 m u i (rc, u'\<lparr>lastErrno := e\<rparr>, i') L = result_ok x n1 n2 m u i (rc, u', i') L"
  "result_ok x n1 n2 m u i (case lock_error u' e' of (rc, u) \<Rightarrow> (rc, u, i')) L = result_ok x n1 n2 m u i (0, u', i') L"
  by (auto simp: result_ok_def lock_error_def storeLastErrno_def Let_def)

lemma always_lock_error [simp]:
  "always I (result_ok x n1 n2 m u i) (case lock_error u' e of (rc, u1) \<Rightarrow> Return (rc, u1, i')) L \<longleftrightarrow>
     I L \<and> result_ok x n1 n2 m u i (0, u', i') L"
  by (auto simp: result_ok_def lock_error_def storeLastErrno_def Let_def)

section \<open>Each call keeps the invariant\<close>

lemma lock_write_always:
  assumes "sum_inv (eFileLock u) n1 n2 m i" and "rest_ok n1 n2 m" and "lock_inv x i L"
    and "excl_mode u = x" and "eFileLock u = iFileLock i" and "1 \<le> eFileLock u" and "cl \<le> eFileLock u"
    and "lvl = 2 \<and> eFileLock u = 1 \<or> lvl = 4 \<and> eFileLock u < 4"
    and "pInode u = pInode u0" "ctrlFlags u = ctrlFlags u0" "h u = h u0" "fileId i = fileId i0"
  shows "always (backed x cl) (result_ok x n1 n2 m u0 i0) (lock_write u i lvl) L"
proof (cases "lvl = 4 \<and> 1 < nShared i")
  case True
  with assms show ?thesis by (simp add: lock_write_def lock_defs) (auto simp: call_defs)
next
  case False
  have l: "eFileLock u \<in> {1, 2, 3}" "cl \<in> {0, 1, 2, 3}" using assms(6,7,8) by auto
  have c: "nShared i = 1 + int n1" "nLock i = nShared i + of_bool (bProcessLock i)" "m \<le> eFileLock u"
      "2 \<le> eFileLock u \<longrightarrow> n2 = 0"
    using assms(1,5,6) by (auto simp: sum_inv_def)
  have n: "lvl = 4 \<longrightarrow> n1 = 0 \<and> m = 0 \<and> n2 = 0" "lvl = 2 \<longrightarrow> m \<le> 1 \<and> n2 = 0"
    using False c assms(2,8) by (auto simp: rest_ok_def)
  have b: "shared_held L" "bProcessLock i \<longrightarrow> x \<and> shared_written L" "x \<longrightarrow> bProcessLock i"
      "\<not> x \<and> 2 \<le> eFileLock u \<longrightarrow> L RESERVED_BYTE = F_WRLCK" "\<not> x \<and> eFileLock u = 3 \<longrightarrow> L PENDING_BYTE = F_WRLCK"
    using assms(3,5,6,8) by (auto simp: lock_inv_def backed_def)
  have I: "backed x cl L" using b l assms(7) by (auto simp: backed_def)
  have s2: "sum_inv (eFileLock u) n1 n2 m i" by (rule assms(1))
  from assms(8) have s: "sum_inv lvl n1 n2 m (i\<lparr>iFileLock := lvl\<rparr>)"
    by (elim disjE conjE) (use c n l in \<open>simp_all add: sum_inv_def\<close>)
  let ?fl = "if lvl = RESERVED_LOCK then reserved_lock F_WRLCK else shared_lock F_WRLCK"
  let ?M = "if x then L else set_lock ?fl L"
  have M1: "backed x cl (set_lock ?fl L)"
    using I by (auto simp: backed_def lock_defs)
  have M2: "lock_inv x (i\<lparr>iFileLock := lvl\<rparr>) ?M"
    using assms(8) b by (cases x) (auto simp: lock_inv_def backed_def lock_defs)
  note M = M1 M2
  show ?thesis
  proof (cases x)
    case True
    with False assms(3-) b I M s s2 show ?thesis
      by (simp add: lock_write_def always_unixFileLock result_ok_def lock_defs)
  next
    case f: False
    with False assms(3-) b I M s s2 show ?thesis
      by (auto simp: lock_write_def always_unixFileLock result_ok_def lock_defs)
  qed
qed

lemma lock_shared_always:
  assumes "sum_inv (eFileLock u) n1 n2 m i" and "rest_ok n1 n2 m" and "lock_inv x i L0"
    and "excl_mode u = x" and "iFileLock i = 0" and "cl = 0" and "x \<longrightarrow> bProcessLock i"
    and "L = (if x then L0 else set_lock (pending_lock F_RDLCK) L0)"
  shows "always (backed x cl) (result_ok x n1 n2 m u i) (lock_shared u i) L"
proof (cases x)
  case True
  with assms show ?thesis unfolding lock_shared_def
    by (auto simp: always_unixFileLock call_defs shared_written_held)
next
  case False
  with assms show ?thesis unfolding lock_shared_def
    by (auto simp: always_unixFileLock call_defs)
qed

lemma lock_counted:
  assumes "sum_inv 0 n1 n2 m i" and "rest_ok n1 n2 m" and "lock_inv x i L" and "iFileLock i = 1 \<or> iFileLock i = 2"
  shows "sum_inv 1 n1 n2 m (i\<lparr>nShared := nShared i + 1, nLock := nLock i + 1\<rparr>)"
    "lock_inv x (i\<lparr>nShared := nShared i + 1, nLock := nLock i + 1\<rparr>) L"
  using assms(4) by (elim disjE; use assms in \<open>simp_all add: sum_inv_def lock_inv_def rest_ok_def backed_def\<close>)+

lemma lock_pending:
  assumes "sum_inv 2 n1 n2 m i" and "rest_ok n1 n2 m" and "lock_inv x i L"
  shows "sum_inv 3 n1 n2 m (i\<lparr>iFileLock := 3\<rparr>)"
    "lock_inv x (i\<lparr>iFileLock := 3\<rparr>) (if x then L else set_lock (pending_lock F_WRLCK) L)"
  using assms by (auto simp: sum_inv_def lock_inv_def rest_ok_def backed_def)

lemma unixLock_always:
  assumes S: "sum_inv (eFileLock u) n1 n2 m i" and R: "rest_ok n1 n2 m" and V: "lock_inv x i L"
    and X: "excl_mode u = x" and C: "call_ok u (Lock lvl)"
  shows "always (backed x (iFileLock i)) (result_ok x n1 n2 m u i) (unixLock u i lvl) L"
proof -
  have b: "backed x (iFileLock i) L" using V by (simp add: lock_inv_def)
  have same: "result_ok x n1 n2 m u i (rc, u, i) L" for rc using S V by (simp add: result_ok_def)
  from C have lvl: "lvl = 1 \<or> lvl = 2 \<and> eFileLock u = 1 \<or> lvl = 4 \<and> 1 \<le> eFileLock u"
    by (auto simp: call_ok_def lock_defs)
  consider (held) "lvl \<le> eFileLock u" | (busy) "eFileLock u < lvl" "eFileLock u \<noteq> iFileLock i \<and> (iFileLock i \<ge> 3 \<or> lvl > 1)"
    | (counted) "eFileLock u < lvl" "lvl = 1" "iFileLock i = 1 \<or> iFileLock i = 2"
    | (shared) "eFileLock u < lvl" "lvl = 1" "iFileLock i = 0" | (pending) "lvl = 4" "eFileLock u = 2" "iFileLock i = 2"
    | (upgrade) "eFileLock u < lvl" "eFileLock u = iFileLock i" "lvl = 2 \<and> eFileLock u = 1 \<or> lvl = 4 \<and> (eFileLock u = 1 \<or> eFileLock u = 3)"
  proof (cases "lvl \<le> eFileLock u \<or> eFileLock u \<noteq> iFileLock i \<and> (iFileLock i \<ge> 3 \<or> lvl > 1)")
    case True
    then show ?thesis using that(1,2) by (cases "lvl \<le> eFileLock u") auto
  next
    case False
    then have e: "eFileLock u < lvl" "eFileLock u = iFileLock i \<or> iFileLock i < 3 \<and> \<not> lvl > 1" by auto
    from lvl show ?thesis
    proof (elim disjE conjE)
      assume "lvl = 1"
      with e have "iFileLock i = 0 \<or> iFileLock i = 1 \<or> iFileLock i = 2" by linarith
      then show thesis using e \<open>lvl = 1\<close> that(3,4) by (elim disjE) simp_all
    next
      assume "lvl = 2" "eFileLock u = 1"
      with e that(6) show ?thesis by simp
    next
      assume "lvl = 4" "1 \<le> eFileLock u"
      moreover from this e have "eFileLock u = 1 \<or> eFileLock u = 2 \<or> eFileLock u = 3" by linarith
      ultimately show ?thesis using e that(5,6) by (elim disjE) simp_all
    qed
  qed
  then show ?thesis
  proof cases
    case held
    with b same show ?thesis by (simp add: unixLock_def)
  next
    case busy
    with b same show ?thesis by (simp add: unixLock_def lock_defs)
  next
    case counted
    then have "eFileLock u = 0" by simp
    with counted lock_counted [of n1 n2 m i x L] S R V b show ?thesis
      by (auto simp: unixLock_def lock_defs result_ok_def)
  next
    case shared
    then have z: "eFileLock u = 0" "lvl = 1" "iFileLock i = 0" by simp_all
    show ?thesis
    proof (cases x)
      case f: False
      then have "always (backed x 0) (result_ok x n1 n2 m u i) (lock_shared u i) (set_lock (pending_lock F_RDLCK) L)"
        using S R V X z by (intro lock_shared_always) auto
      with f z b X same show ?thesis
        by (simp add: unixLock_def always_unixFileLock lock_defs)
    next
      case True
      let ?j = "i\<lparr>bProcessLock := True, nLock := nLock i + 1\<rparr>" and ?M = "set_lock (shared_lock F_WRLCK) L"
      show ?thesis
      proof (cases "bProcessLock i")
        case b1: True
        then have "always (backed x 0) (result_ok x n1 n2 m u i) (lock_shared u i) L"
          using S R V X z True by (intro lock_shared_always) auto
        with True b1 z b X show ?thesis by (simp add: unixLock_def always_unixFileLock lock_defs)
      next
        case b1: False
        have "always (backed x 0) (result_ok x n1 n2 m u ?j) (lock_shared u ?j) ?M"
          by (rule lock_shared_always [where ?L0.0 = ?M]) (use S R V X z True b1 in \<open>auto simp: sum_inv_def lock_inv_def backed_def\<close>)
        then have "always (backed x 0) (result_ok x n1 n2 m u i) (lock_shared u ?j) ?M"
          using result_ok_same(1) [of ?j i] by simp
        with True b1 z b X same show ?thesis by (simp add: unixLock_def always_unixFileLock lock_defs)
      qed
    qed
  next
    case pending
    let ?u = "u\<lparr>eFileLock := 3\<rparr>" and ?i = "i\<lparr>iFileLock := 3\<rparr>"
    let ?M = "if x then L else set_lock (pending_lock F_WRLCK) L"
    have p: "sum_inv 3 n1 n2 m ?i" "lock_inv x ?i ?M" using lock_pending [of n1 n2 m i x L] S R V pending by simp_all
    have "always (backed x 2) (result_ok x n1 n2 m u i) (lock_write ?u ?i 4) ?M"
      by (rule lock_write_always) (use p R X in auto)
    moreover have "x \<longrightarrow> bProcessLock i" using V pending by (simp add: lock_inv_def)
    ultimately show ?thesis using pending X b same
      by (cases x) (simp_all add: unixLock_def always_unixFileLock lock_defs)
  next
    case upgrade
    then have "always (backed x (iFileLock i)) (result_ok x n1 n2 m u i) (lock_write u i lvl) L"
      by (intro lock_write_always) (use S R V X in auto)
    with upgrade show ?thesis by (auto simp: unixLock_def lock_defs)
  qed
qed

text \<open>Before the shared counter is decremented: the handle's own lock is counted, the level of the
  inode is already that of the others.\<close>

definition unlock_pre :: "bool \<Rightarrow> nat \<Rightarrow> nat \<Rightarrow> nat \<Rightarrow> unixInodeInfo \<Rightarrow> (int \<Rightarrow> ltype) \<Rightarrow> bool" where
  "unlock_pre x n1 n2 m i L \<longleftrightarrow>
     nShared i = 1 + int n1 \<and> nLock i = nShared i + of_bool (bProcessLock i) \<and> (0 < n1 \<longrightarrow> iFileLock i = m) \<and>
     n2 \<le> 1 \<and> m \<le> 3 \<and> (bProcessLock i \<longrightarrow> x \<and> shared_written L) \<and> (x \<longrightarrow> bProcessLock i) \<and> backed x m L"

lemma unlock_shared_always:
  assumes P: "unlock_pre x n1 n2 m i L" and R: "rest_ok n1 n2 m" and X: "excl_mode u = x" and F: "fileId i = fileId i0"
    and U: "pInode u = pInode u0" "ctrlFlags u = ctrlFlags u0" "h u = h u0"
  shows "always (backed x m) (\<lambda>r L. result_ok x n1 n2 m u0 i0 r L \<and> eFileLock (fst (snd r)) = 0) (unlock_shared u i) L"
proof (cases "n1 = 0")
  case False
  let ?i = "i\<lparr>nShared := nShared i - 1, nLock := nLock i - 1\<rparr>"
  have "sum_inv 0 n1 n2 m ?i" "lock_inv x ?i L" using P R False
    by (simp_all add: unlock_pre_def rest_ok_def sum_inv_def lock_inv_def)
  moreover have "nShared i - 1 \<noteq> 0" "nLock i - 1 \<noteq> 0" using P False by (auto simp: unlock_pre_def)
  ultimately show ?thesis using P F U
    by (simp add: unlock_shared_def unlock_count_def Let_def result_ok_def unlock_pre_def lock_defs)
next
  case True
  then have m: "m = 0" "n2 = 0" using R by (auto simp: rest_ok_def)
  show ?thesis
  proof (cases x)
    case True
    let ?i = "i\<lparr>nShared := nShared i - 1, iFileLock := 0, nLock := nLock i - 1\<rparr>"
    have b: "bProcessLock i" "nShared i = 1" "nLock i = 2" using P True \<open>n1 = 0\<close> by (auto simp: unlock_pre_def)
    have "sum_inv 0 n1 n2 m ?i" "lock_inv x ?i L" using P \<open>n1 = 0\<close> m True b
      by (simp_all add: unlock_pre_def sum_inv_def lock_inv_def backed_def)
    with b P F U X True show ?thesis
      by (simp add: unlock_shared_def unlock_count_def always_unixFileLock result_ok_def unlock_pre_def lock_defs)
  next
    case f: False
    let ?M = "set_lock unlock_everything L"
    have b: "\<not> bProcessLock i" "nShared i = 1" "nLock i = 1" using P f \<open>n1 = 0\<close> by (auto simp: unlock_pre_def)
    have "sum_inv 0 n1 n2 m (i\<lparr>nShared := 0, iFileLock := 0, nLock := 0, pUnused := fds\<rparr>)"
      "lock_inv x (i\<lparr>nShared := 0, iFileLock := 0, nLock := 0, pUnused := fds\<rparr>) ?M"
      "lock_inv x (i\<lparr>nShared := 0, iFileLock := 0, nLock := 0, pUnused := fds\<rparr>) no_locks" for fds
      using b m \<open>n1 = 0\<close> f by (simp_all add: sum_inv_def lock_inv_def backed_def)
    moreover have "backed x m K" for K using m by (simp add: backed_def)
    ultimately show ?thesis using b F U X f
      by (simp add: unlock_shared_def unlock_count_def closePendingFds_def always_unixFileLock always_close_all
          result_ok_def lock_defs)
  qed
qed

lemma unlock_writer_pre:
  assumes "sum_inv l n1 n2 m i" and "rest_ok n1 n2 m" and "lock_inv x i L" and "2 \<le> l"
  shows "unlock_pre x n1 n2 m (i\<lparr>iFileLock := 1\<rparr>) (if x then L else set_lock writer_unlock L)"
    "iFileLock i = l" "m \<le> 1" "x \<longleftrightarrow> bProcessLock i"
proof -
  have m: "m \<le> 1" "iFileLock i = l" using assms by (auto simp: sum_inv_def rest_ok_def)
  then show "m \<le> 1" "iFileLock i = l" by simp_all
  have "0 < n1 \<longleftrightarrow> m = 1" using m assms(2) by (auto simp: rest_ok_def)
  moreover have "n2 = 0" using m assms(2) by (auto simp: rest_ok_def)
  ultimately show "unlock_pre x n1 n2 m (i\<lparr>iFileLock := 1\<rparr>) (if x then L else set_lock writer_unlock L)"
    using assms m by (auto simp: unlock_pre_def sum_inv_def lock_inv_def backed_def)
  show "x \<longleftrightarrow> bProcessLock i" using assms(3,4) m by (auto simp: lock_inv_def)
qed

abbreviation unlock_ok :: "bool \<Rightarrow> nat \<Rightarrow> nat \<Rightarrow> nat \<Rightarrow> unixFile \<Rightarrow> unixInodeInfo \<Rightarrow> nat \<Rightarrow> lock_result \<Rightarrow> (int \<Rightarrow> ltype) \<Rightarrow> bool" where
  "unlock_ok x n1 n2 m u i lvl \<equiv>
     (\<lambda>r L. result_ok x n1 n2 m u i r L \<and> (lvl = 0 \<longrightarrow> eFileLock (fst (snd r)) = 0))"

lemma unlock_to_none:
  assumes "unlock_pre x n1 n2 m i L" and "rest_ok n1 n2 m" and "excl_mode u = x" and "fileId i = fileId i0"
  shows "always (backed x m) (unlock_ok x n1 n2 m u i0 0) (unlock_shared u i) L"
  using unlock_shared_always [OF assms(1-4), of u] by simp

lemma unlock_to_shared:
  assumes S: "sum_inv l n1 n2 m i" and R: "rest_ok n1 n2 m" and V: "lock_inv x i L" and l: "2 \<le> l"
  shows "sum_inv 1 n1 n2 m (i\<lparr>iFileLock := 1\<rparr>)" "x \<Longrightarrow> lock_inv x (i\<lparr>iFileLock := 1\<rparr>) L"
    "\<not> x \<Longrightarrow> lock_inv x (i\<lparr>iFileLock := 1\<rparr>) (set_lock writer_unlock (set_lock (shared_lock F_RDLCK) L))"
    "backed x 1 L"
proof -
  note p = unlock_writer_pre [OF S R V l]
  have n2: "n2 = 0" using p(3) R by (simp add: rest_ok_def)
  show "sum_inv 1 n1 n2 m (i\<lparr>iFileLock := 1\<rparr>)" using S p(2,3) n2 l by (simp add: sum_inv_def)
  have h: "shared_held L" using V l p(2) by (simp add: lock_inv_def backed_def)
  then show "backed x 1 L" by (simp add: backed_def)
  from h p(4) V show "x \<Longrightarrow> lock_inv x (i\<lparr>iFileLock := 1\<rparr>) L" by (simp add: lock_inv_def backed_def)
  from p(4) show "\<not> x \<Longrightarrow> lock_inv x (i\<lparr>iFileLock := 1\<rparr>) (set_lock writer_unlock (set_lock (shared_lock F_RDLCK) L))"
    by (simp add: lock_inv_def backed_def)
qed

lemma unlock_shared_pre:
  assumes S: "sum_inv 1 n1 n2 m i" and R: "rest_ok n1 n2 m" and V: "lock_inv x i L"
  shows "unlock_pre x n1 n2 m i L"
proof -
  have i1: "1 \<le> iFileLock i" using S by (simp add: sum_inv_def)
  have m: "m \<le> 3" "0 < n1 \<longrightarrow> iFileLock i = m" "m = iFileLock i \<or> m = 0"
  proof (atomize (full), cases "m = 0")
    case True
    then show "m \<le> 3 \<and> (0 < n1 \<longrightarrow> iFileLock i = m) \<and> (m = iFileLock i \<or> m = 0)"
      using R by (simp add: rest_ok_def)
  next
    case False
    then have "iFileLock i = m" using S by (auto simp: sum_inv_def)
    moreover have "m \<le> 4" "nShared i = 1 + int n1" "iFileLock i = 4 \<longrightarrow> nShared i = 1"
      using S by (auto simp: sum_inv_def)
    moreover from this False R have "m \<noteq> 4" using calculation(1) by (auto simp: rest_ok_def)
    ultimately show "m \<le> 3 \<and> (0 < n1 \<longrightarrow> iFileLock i = m) \<and> (m = iFileLock i \<or> m = 0)" by simp
  qed
  have "backed x (iFileLock i) L" using V by (simp add: lock_inv_def)
  with m(3) have "backed x m L" by (metis backed_zero)
  moreover have "nShared i = 1 + int n1" "nLock i = nShared i + of_bool (bProcessLock i)" "n2 \<le> 1"
    using S by (simp_all add: sum_inv_def)
  moreover have "bProcessLock i \<longrightarrow> x \<and> shared_written L" "x \<longrightarrow> bProcessLock i"
    using V i1 by (simp_all add: lock_inv_def)
  ultimately show ?thesis using m(1,2) by (simp add: unlock_pre_def)
qed

lemma posixUnlock_always:
  assumes S: "sum_inv (eFileLock u) n1 n2 m i" and R: "rest_ok n1 n2 m" and V: "lock_inv x i L"
    and X: "excl_mode u = x" and l: "lvl \<le> 1"
  shows "always (backed x (max (min lvl (eFileLock u)) m)) (unlock_ok x n1 n2 m u i lvl) (posixUnlock u i lvl) L"
proof -
  have b: "backed x (iFileLock i) L" using V by (simp add: lock_inv_def)
  have same: "result_ok x n1 n2 m u i (rc, u, i) L" for rc using S V by (simp add: result_ok_def)
  consider (held) "eFileLock u \<le> lvl" | (last) "eFileLock u = 1" "lvl = 0" | (down) "2 \<le> eFileLock u" "lvl = 1"
    | (all) "2 \<le> eFileLock u" "lvl = 0"
    using l by (cases "eFileLock u \<le> lvl"; cases "lvl = 0"; cases "2 \<le> eFileLock u") auto
  then show ?thesis
  proof cases
    case held
    then have "max (min lvl (eFileLock u)) m = iFileLock i" using S by (auto simp: sum_inv_def)
    with held b same show ?thesis by (simp add: posixUnlock_def)
  next
    case last
    with unlock_to_none [OF unlock_shared_pre [OF _ R V] R X refl] S show ?thesis
      by (simp add: posixUnlock_def lock_defs)
  next
    case all
    note p = unlock_writer_pre [OF S R V all(1)]
    let ?i = "i\<lparr>iFileLock := 1\<rparr>" and ?M = "if x then L else set_lock writer_unlock L"
    have n: "always (backed x m) (unlock_ok x n1 n2 m u i 0) (unlock_shared u ?i) ?M"
      by (rule unlock_to_none [OF p(1) R X]) simp
    have "backed x m L" using p(2,3) b all by (auto simp: backed_def)
    with n all X p(4) show ?thesis
      by (cases x) (simp_all add: posixUnlock_def unlock_downgrade_def unlock_writer_def always_unixFileLock lock_defs)
  next
    case down
    note p = unlock_writer_pre [OF S R V down(1)] and q = unlock_to_shared [OF S R V down(1)]
    have cl: "max (min lvl (eFileLock u)) m = 1" using down p(3) by simp
    have "backed x 1 (set_lock (shared_lock F_RDLCK) L)" "backed x 1 (set_lock writer_unlock (set_lock (shared_lock F_RDLCK) L))"
      by (simp_all add: backed_def)
    with down X p(4) q same show ?thesis unfolding cl
      by (cases x) (simp_all add: posixUnlock_def unlock_downgrade_def unlock_writer_def always_unixFileLock lock_defs storeLastErrno_def result_ok_def)
  qed
qed

end
