(* ===== verification/Unix_Lock_Safety.thy ===== *)
theory Unix_Lock_Safety
  imports Unix_Lock_Props
begin

text \<open>
  Mutual exclusion in every run of a system of processes that share a database file: the
  invariant of a process is kept by each of its events, the compatibility of the kernel's
  locks by each grant.
\<close>

section \<open>Levels of the handles of a process\<close>

definition level :: "unixFile option \<Rightarrow> nat" where
  "level f = (case f of None \<Rightarrow> 0 | Some u \<Rightarrow> eFileLock u)"

definition levels :: "proc \<Rightarrow> nat list" where
  "levels P = map level (files P)"

definition count_from :: "nat \<Rightarrow> nat list \<Rightarrow> nat" where
  "count_from n ls = length (filter (\<lambda>l. n \<le> l) ls)"

definition highest :: "nat list \<Rightarrow> nat" where
  "highest ls = foldr max ls 0"

text \<open>The counters of the inode, from all levels.\<close>

definition counts_ok :: "nat list \<Rightarrow> unixInodeInfo \<Rightarrow> bool" where
  "counts_ok ls i \<longleftrightarrow>
     nShared i = int (count_from 1 ls) \<and> nLock i = nShared i + of_bool (bProcessLock i) \<and> iFileLock i = highest ls \<and>
     count_from 2 ls \<le> 1 \<and> (iFileLock i = 4 \<longrightarrow> nShared i = 1) \<and> iFileLock i \<le> 4"

lemma count_from_split: "k < length ls \<Longrightarrow> 0 < n \<Longrightarrow> count_from n ls = of_bool (n \<le> ls ! k) + count_from n (ls[k := 0])"
proof (induction ls arbitrary: k)
  case (Cons a ls)
  then show ?case by (cases k) (auto simp: count_from_def)
qed simp

lemma highest_split: "k < length ls \<Longrightarrow> highest ls = max (ls ! k) (highest (ls[k := 0]))"
proof (induction ls arbitrary: k)
  case (Cons a ls)
  then show ?case by (cases k) (auto simp: highest_def)
qed simp

lemma highest_ge: "l \<in> set ls \<Longrightarrow> l \<le> highest ls"
  by (induction ls) (auto simp: highest_def)

lemma highest_count: "(1 \<le> n \<and> count_from n ls = 0) \<longleftrightarrow> (1 \<le> n \<and> highest ls < n)"
  by (induction ls) (auto simp: highest_def count_from_def)

lemma rest_ok_levels: "rest_ok (count_from 1 ls) (count_from 2 ls) (highest ls)"
proof -
  have "count_from 2 ls \<le> count_from 1 ls" by (induction ls) (auto simp: count_from_def)
  with highest_count [of 1 ls] highest_count [of 2 ls] show ?thesis by (auto simp: rest_ok_def)
qed

abbreviation sum_at :: "nat \<Rightarrow> nat list \<Rightarrow> unixInodeInfo \<Rightarrow> bool" where
  "sum_at l rest i \<equiv> sum_inv l (count_from 1 rest) (count_from 2 rest) (highest rest) i"

lemma counts_ok_at:
  assumes "k < length ls"
  shows "counts_ok ls i \<longleftrightarrow> sum_at (ls ! k) (ls[k := 0]) i"
  using count_from_split [OF assms, of 1] count_from_split [OF assms, of 2] highest_split [OF assms]
  unfolding counts_ok_def sum_inv_def by (auto simp: max_def)

lemma counts_ok_update:
  assumes "k < length ls"
  shows "counts_ok (ls[k := l]) i \<longleftrightarrow> sum_at l (ls[k := 0]) i"
  using counts_ok_at [of k "ls[k := l]" i] assms by simp

lemma counts_ok_nRef [simp]: "counts_ok ls (i\<lparr>nRef := n\<rparr>) = counts_ok ls i"
  by (simp add: counts_ok_def)

lemma levels_update: "levels (P\<lparr>files := (files P)[k := f]\<rparr>) = (levels P)[k := level f]"
  by (simp add: levels_def map_update)

lemma slot_Some: "slot P k = Some u \<longleftrightarrow> k < length (files P) \<and> files P ! k = Some u"
  by (auto simp: slot_def)

lemma levels_slot: "slot P k = Some u \<Longrightarrow> k < length (levels P) \<and> levels P ! k = eFileLock u"
  by (simp add: levels_def slot_Some level_def)

section \<open>The invariant\<close>

definition refs :: "proc \<Rightarrow> nat" where
  "refs P = length (filter (\<lambda>f. f \<noteq> None) (files P))"

definition records_ok :: "config \<Rightarrow> nat \<Rightarrow> proc \<Rightarrow> bool" where
  "records_ok c p P \<longleftrightarrow>
     (\<forall>u. Some u \<in> set (files P) \<longrightarrow> pInode u = dbfile c \<and> excl_mode u = exclusive c p) \<and>
     (case inodeList P of
        [] \<Rightarrow> refs P = 0
      | i # is \<Rightarrow> is = [] \<and> fileId i = dbfile c \<and> 0 < refs P \<and> nRef i = int (refs P) \<and> counts_ok (levels P) i)"

abbreviation others :: "proc \<Rightarrow> nat \<Rightarrow> nat list" where
  "others P k \<equiv> (levels P)[k := 0]"

definition call_inv :: "bool \<Rightarrow> proc \<Rightarrow> nat \<Rightarrow> operation \<Rightarrow> unixFile \<Rightarrow> unixInodeInfo \<Rightarrow> lock_result call \<Rightarrow> (int \<Rightarrow> ltype) \<Rightarrow> bool" where
  "call_inv x P k oper u i K L \<longleftrightarrow>
     always (backed x (max (claim P k) (highest (others P k))))
       (\<lambda>r L. result_ok x (count_from 1 (others P k)) (count_from 2 (others P k)) (highest (others P k)) u i r L \<and>
              (oper = Close \<longrightarrow> eFileLock (fst (snd r)) = 0)) K L"

definition locks_ok :: "config \<Rightarrow> nat \<Rightarrow> proc \<Rightarrow> bool" where
  "locks_ok c p P \<longleftrightarrow>
     (case running P of
        None \<Rightarrow> (case inodeList P of [] \<Rightarrow> exclusive c p \<or> unlocked (held P) | i # is \<Rightarrow> lock_inv (exclusive c p) i (held P))
      | Some (k, oper, K) \<Rightarrow>
          (\<exists>u i. slot P k = Some u \<and> inodeList P = [i] \<and> call_inv (exclusive c p) P k oper u i K (held P)))"

definition closing_ok :: "proc \<Rightarrow> bool" where
  "closing_ok P \<longleftrightarrow>
     (\<forall>k u. slot P k = Some u \<and> closing P \<noteq> Some (k, True) \<longrightarrow> 0 \<le> h u) \<and>
     (case closing P of
        None \<Rightarrow> True
      | Some (k, deferred) \<Rightarrow>
          (\<exists>u i. slot P k = Some u \<and> inodeList P = [i] \<and> eFileLock u = 0 \<and>
             (\<forall>oper K. running P \<noteq> Some (k, oper, K)) \<and>
             (deferred \<longrightarrow> running P = None \<and> (0 \<le> h u \<longleftrightarrow> nLock i = 0))))"

definition proc_inv :: "config \<Rightarrow> nat \<Rightarrow> proc \<Rightarrow> bool" where
  "proc_inv c p P \<longleftrightarrow> records_ok c p P \<and> locks_ok c p P \<and> closing_ok P"

definition safe_config :: "config \<Rightarrow> bool" where
  "safe_config c \<longleftrightarrow> atomic_close c \<and> \<not> unlock_fails c \<and> \<not> fstat_fails c \<and> \<not> mixed_modes c"

text \<open>An open handle, its inode and its counters.\<close>

lemma open_handle:
  assumes "records_ok c p P" and "slot P k = Some u"
  obtains i where "inodeList P = [i]" "fileId i = dbfile c" "pInode u = dbfile c" "excl_mode u = exclusive c p"
    "get_inode (dbfile c) (inodeList P) = Some i" "sum_at (eFileLock u) (others P k) i" "counts_ok (levels P) i"
    "0 < refs P" "nRef i = int (refs P)"
proof -
  have mem: "Some u \<in> set (files P)" using assms(2) by (metis nth_mem slot_Some)
  then have "0 < refs P" by (auto simp: refs_def filter_empty_conv)
  with assms(1) obtain i where i: "inodeList P = [i]" "fileId i = dbfile c" "nRef i = int (refs P)" "counts_ok (levels P) i"
    by (auto simp: records_ok_def split: list.splits)
  moreover have "sum_at (eFileLock u) (others P k) i"
    using counts_ok_at [of k "levels P" i] levels_slot [OF assms(2)] i by simp
  moreover have "get_inode (dbfile c) (inodeList P) = Some i" using i by (simp add: get_inode_def)
  ultimately show ?thesis using that assms(1) mem \<open>0 < refs P\<close> by (auto simp: records_ok_def)
qed

section \<open>Each event of a process keeps the invariant\<close>

lemma refs_update:
  assumes "k < length (files P)"
  shows "refs (P\<lparr>files := (files P)[k := f]\<rparr>) + of_bool (files P ! k \<noteq> None) = refs P + of_bool (f \<noteq> None)"
  using length_filter_update [OF assms, of "\<lambda>f. f \<noteq> None" f] by (simp add: refs_def)

lemma slot_frame [simp]:
  "slot (P\<lparr>running := r\<rparr>) k = slot P k" "slot (P\<lparr>held := L\<rparr>) k = slot P k"
  "slot (P\<lparr>inodeList := is\<rparr>) k = slot P k" "slot (P\<lparr>closing := z\<rparr>) k = slot P k"
  "slot (P\<lparr>files := (files P)[j := f]\<rparr>) k = (if k = j \<and> j < length (files P) then f else slot P k)"
  by (auto simp: slot_def)

lemma levels_frame [simp]:
  "levels (P\<lparr>running := r\<rparr>) = levels P" "levels (P\<lparr>held := L\<rparr>) = levels P"
  "levels (P\<lparr>inodeList := is\<rparr>) = levels P" "levels (P\<lparr>closing := z\<rparr>) = levels P"
  "refs (P\<lparr>running := r\<rparr>) = refs P" "refs (P\<lparr>held := L\<rparr>) = refs P"
  "refs (P\<lparr>inodeList := is\<rparr>) = refs P" "refs (P\<lparr>closing := z\<rparr>) = refs P"
  by (simp_all add: levels_def refs_def)

text \<open>A handle written back with its inode.\<close>

lemma records_ok_write:
  assumes R: "records_ok c p P" and k: "slot P k = Some u0" and i0: "inodeList P = [i0]"
    and u: "pInode u = dbfile c" "excl_mode u = exclusive c p" and i: "fileId i = dbfile c" "nRef i = nRef i0"
    and S: "sum_at (eFileLock u) (others P k) i"
  shows "records_ok c p (P\<lparr>files := (files P)[k := Some u], inodeList := [i]\<rparr>)"
proof -
  let ?P = "P\<lparr>files := (files P)[k := Some u]\<rparr>"
  have kl: "k < length (files P)" "files P ! k = Some u0" using k by (auto simp: slot_Some)
  have "refs ?P = refs P" using refs_update [OF kl(1), of "Some u"] kl(2) by simp
  moreover have "counts_ok (levels ?P) i" unfolding levels_update
    using counts_ok_update [of k "levels P" "eFileLock u" i] S levels_slot [OF k] by (simp add: level_def)
  ultimately show ?thesis using R u i i0 set_update_subset_insert [of "files P" k "Some u"]
    by (auto simp: records_ok_def levels_def refs_def)
qed

text \<open>A call that does not touch the levels keeps the position of a running call.\<close>

lemma call_inv_levels:
  assumes "levels P' = levels P" and "claim P' k = claim P k" and "fileId i' = fileId i"
  shows "call_inv x P' k oper u i' K L = call_inv x P k oper u i K L"
  using assms by (simp add: call_inv_def result_ok_same(1) [of i' i])

lemma start_call_inv:
  assumes R: "records_ok c p P" and k: "slot P k = Some u" and i: "inodeList P = [i]" and V: "lock_inv (exclusive c p) i L"
    and C: "call_ok u oper"
  shows "call_inv (exclusive c p) (P\<lparr>running := Some (k, oper, start_call u i oper)\<rparr>) k oper u i (start_call u i oper) L"
proof -
  let ?P = "P\<lparr>running := Some (k, oper, start_call u i oper)\<rparr>"
  obtain j where "inodeList P = [j]" "sum_at (eFileLock u) (others P k) j" and x: "excl_mode u = exclusive c p"
    by (rule open_handle [OF R k])
  with i have S: "sum_at (eFileLock u) (others P k) i" by simp
  have sl: "slot ?P k = Some u" "levels ?P = levels P" using k by simp_all
  note lock = unixLock_always [OF S rest_ok_levels V x] and unlock = posixUnlock_always [OF S rest_ok_levels V x]
  show ?thesis
  proof (cases oper)
    case (Lock l)
    have "iFileLock i = max (eFileLock u) (highest (others P k))" using S by (auto simp: sum_inv_def max_def)
    with lock [of l] C Lock sl show ?thesis
      by (simp add: call_inv_def start_call_def claim_def)
  next
    case (Unlock l)
    with C have "l \<le> 1" by (simp add: call_ok_def lock_defs)
    have "always I (\<lambda>r L. Q r L \<and> Z r L) K M \<Longrightarrow> always I Q K M" for I Q Z and K :: "lock_result call" and M
      by (induction K arbitrary: M) auto
    with unlock [OF \<open>l \<le> 1\<close>] Unlock sl show ?thesis
      by (auto simp: call_inv_def start_call_def claim_def unixUnlock_def)
  next
    case Close
    with unlock [of 0] sl show ?thesis
      by (simp add: call_inv_def start_call_def claim_def unixUnlock_def lock_defs)
  qed
qed

lemma start_inv:
  assumes P: "proc_inv c p P" and s: "start_step c k oper P = Some P'" and c: "safe_config c"
  shows "proc_inv c p P'"
proof -
  from s obtain u i where k: "slot P k = Some u" and g: "get_inode (pInode u) (inodeList P) = Some i"
    and C: "call_ok u oper" and r: "running P = None"
    and cl: "case closing P of None \<Rightarrow> True | Some (k', deferred) \<Rightarrow> k' \<noteq> k \<and> oper \<noteq> Close \<and> \<not> (deferred \<and> atomic_close c)"
    and P': "P' = P\<lparr>running := Some (k, oper, start_call u i oper)\<rparr>"
    by (auto simp: start_step_def split: option.splits if_splits)
  have R: "records_ok c p P" using P by (simp add: proc_inv_def)
  obtain j where "inodeList P = [j]" "pInode u = dbfile c" "get_inode (dbfile c) (inodeList P) = Some j"
    by (rule open_handle [OF R k])
  with g have i: "inodeList P = [i]" by simp
  have V: "lock_inv (exclusive c p) i (held P)" using P r i by (simp add: proc_inv_def locks_ok_def)
  have "locks_ok c p P'" using start_call_inv [OF R k i V C] k i by (simp add: locks_ok_def P')
  moreover have "records_ok c p P'" using R by (simp add: P' records_ok_def split: list.splits)
  moreover have "closing_ok P'" using P cl c k by (auto simp: P' proc_inv_def closing_ok_def safe_config_def split: option.splits)
  ultimately show ?thesis by (simp add: proc_inv_def)
qed

lemma kernel_inv:
  assumes P: "proc_inv c p P" and s: "kernel_step c ok err P = Some P'" and c: "safe_config c"
  shows "proc_inv c p P'"
proof -
  from s obtain k oper K where r: "running P = Some (k, oper, K)" by (auto simp: kernel_step_def split: option.splits)
  with P obtain u i where u: "slot P k = Some u" "inodeList P = [i]" "call_inv (exclusive c p) P k oper u i K (held P)"
    by (auto simp: proc_inv_def locks_ok_def)
  obtain K' L' where P': "P' = P\<lparr>held := L', running := Some (k, oper, K')\<rparr>"
    and st: "\<And>I Q. always I Q K (held P) \<Longrightarrow> always I Q K' L'"
  proof (cases K)
    case (Setlk fd fl G)
    show ?thesis
    proof (cases err)
      case None
      with s r Setlk that [of "G None" "set_lock fl (held P)"] show ?thesis
        by (simp add: kernel_step_def split: if_splits)
    next
      case (Some e)
      with s r Setlk c have "l_type fl \<noteq> F_UNLCK" "P' = P\<lparr>running := Some (k, oper, G (Some e))\<rparr>"
        by (simp_all add: kernel_step_def safe_config_def split: if_splits)
      with Setlk that [of "G (Some e)" "held P"] show ?thesis by simp
    qed
  next
    case (Close_fd fd G)
    with s r that [of G no_locks] show ?thesis by (simp add: kernel_step_def drop_locks_def)
  qed (use s r in \<open>simp_all add: kernel_step_def\<close>)
  have cl: "claim P' k = claim P k" using r by (simp add: claim_def P' split: option.splits)
  have "call_inv (exclusive c p) P k oper u i K' L'" using u(3) st unfolding call_inv_def by blast
  then have "call_inv (exclusive c p) P' k oper u i K' L'"
    using call_inv_levels [of P' P k i i] cl by (simp add: P')
  then have "locks_ok c p P'" using u by (simp add: locks_ok_def P')
  moreover have "records_ok c p P'" using P by (simp add: P' proc_inv_def records_ok_def split: list.splits)
  moreover have "closing_ok P'" using P r by (auto simp: P' proc_inv_def closing_ok_def split: option.splits)
  ultimately show ?thesis by (simp add: proc_inv_def)
qed

lemma lock_inv_frame [simp]:
  "lock_inv x (i\<lparr>nRef := n\<rparr>) L = lock_inv x i L" "lock_inv x (i\<lparr>pUnused := fds\<rparr>) L = lock_inv x i L"
  by (simp_all add: lock_inv_def)

lemma sum_inv_frame [simp]:
  "sum_inv l n1 n2 m (i\<lparr>nRef := n\<rparr>) = sum_inv l n1 n2 m i" "sum_inv l n1 n2 m (i\<lparr>pUnused := fds\<rparr>) = sum_inv l n1 n2 m i"
  by (simp_all add: sum_inv_def)

lemma set_inode_one: "fileId j = fileId i \<Longrightarrow> set_inode j [i] = [j]"
  by (simp add: set_inode_def)

lemma records_ok_frame [simp]:
  "records_ok c p (P\<lparr>running := r\<rparr>) = records_ok c p P" "records_ok c p (P\<lparr>held := L\<rparr>) = records_ok c p P"
  "records_ok c p (P\<lparr>closing := z\<rparr>) = records_ok c p P"
  by (simp_all add: records_ok_def split: list.splits)

lemma finish_inv:
  assumes P: "proc_inv c p P" and s: "finish_step P = Some P'"
  shows "proc_inv c p P'"
proof -
  from s obtain k oper rc u' i' where r: "running P = Some (k, oper, Return (rc, u', i'))"
    by (auto simp: finish_step_def split: option.splits call.splits prod.splits)
  with P obtain u i where k: "slot P k = Some u" and i: "inodeList P = [i]"
    and q: "call_inv (exclusive c p) P k oper u i (Return (rc, u', i')) (held P)"
    by (auto simp: proc_inv_def locks_ok_def)
  have R: "records_ok c p P" using P by (simp add: proc_inv_def)
  have o: "pInode u = dbfile c" "excl_mode u = exclusive c p" "fileId i = dbfile c"
    using open_handle [OF R k] i by (metis, metis, metis list.inject)
  from q have z: "pInode u' = pInode u" "excl_mode u' = excl_mode u" "h u' = h u" "fileId i' = fileId i"
      "sum_at (eFileLock u') (others P k) i'" "lock_inv (exclusive c p) i' (held P)" "oper = Close \<longrightarrow> eFileLock u' = 0"
    by (auto simp: call_inv_def result_ok_def excl_mode_def)
  let ?i = "i'\<lparr>nRef := nRef i\<rparr>"
  have P': "P' = P\<lparr>files := (files P)[k := Some u'], inodeList := [?i]\<rparr>
      \<lparr>running := None, closing := if oper = Close then Some (k, False) else closing P\<rparr>"
    using s r i z(4) by (auto simp: finish_step_def get_inode_def set_inode_def)
  have "records_ok c p P'" unfolding P'
    using records_ok_write [OF R k i, of u' ?i] z o by simp
  moreover have "locks_ok c p P'" using z(6) by (simp add: P' locks_ok_def)
  moreover have "closing_ok P'"
  proof -
    have cl: "closing_ok P" using P by (simp add: proc_inv_def)
    then have nk: "closing P \<noteq> Some (k, d)" for d using r by (auto simp: closing_ok_def)
    have nd: "closing P \<noteq> Some (k2, True)" for k2 using cl r by (auto simp: closing_ok_def)
    have kl: "k < length (files P)" using k by (simp add: slot_Some)
    have "0 \<le> h u'" using cl k nk z(3) by (auto simp: closing_ok_def)
    with cl kl nk nd z(7) k show ?thesis
      by (auto simp: P' closing_ok_def split: option.splits)
  qed
  ultimately show ?thesis by (simp add: proc_inv_def)
qed

lemma defer_inv:
  assumes P: "proc_inv c p P" and s: "defer_step P = Some P'"
  shows "proc_inv c p P'"
proof -
  from s obtain k u i0 where z: "closing P = Some (k, False)" and k: "slot P k = Some u"
    and g: "get_inode (pInode u) (inodeList P) = Some i0" and r: "running P = None"
    by (auto simp: defer_step_def split: option.splits bool.splits if_splits)
  have R: "records_ok c p P" and cl: "closing_ok P" using P by (simp_all add: proc_inv_def)
  obtain i where i: "inodeList P = [i]" "fileId i = dbfile c" "pInode u = dbfile c" "excl_mode u = exclusive c p"
    "get_inode (dbfile c) (inodeList P) = Some i" "sum_at (eFileLock u) (others P k) i"
    by (rule open_handle [OF R k])
  then have i0: "i0 = i" using g by simp
  obtain u' i' where d: "close_defer u i = (u', i')" by (cases "close_defer u i")
  then have f: "pInode u' = pInode u" "excl_mode u' = excl_mode u" "eFileLock u' = eFileLock u" "fileId i' = fileId i"
      "nRef i' = nRef i" "sum_at l rest i' = sum_at l rest i" "lock_inv x i' L = lock_inv x i L"
      "nLock i' = nLock i" "h u' = (if nLock i = 0 then h u else - 1)" for l rest x L
    by (auto simp: close_defer_def setPendingFd_def excl_mode_def split: if_splits)
  have P': "P' = P\<lparr>files := (files P)[k := Some u'], inodeList := [i']\<rparr>\<lparr>closing := Some (k, True)\<rparr>"
    using s z k r i g d f(4) i0 by (simp add: defer_step_def set_inode_one)
  have "records_ok c p P'" unfolding P' using records_ok_write [OF R k i(1), of u' i'] i f by simp
  moreover have "locks_ok c p P'" using P r i f by (simp add: P' proc_inv_def locks_ok_def)
  moreover have "closing_ok P'" using cl z k r i(1) f by (auto simp: P' closing_ok_def slot_Some)
  ultimately show ?thesis by (simp add: proc_inv_def)
qed

lemma refs_zero: "refs P = 0 \<Longrightarrow> highest (levels P) = 0 \<and> count_from 1 (levels P) = 0 \<and> slot P k = None"
proof -
  assume "refs P = 0"
  then have n: "\<forall>f \<in> set (files P). f = None" by (simp add: refs_def filter_empty_conv)
  then have "\<forall>l \<in> set (levels P). l = 0" by (auto simp: levels_def level_def)
  moreover have "(\<forall>l \<in> set ls. l = 0) \<Longrightarrow> highest ls = 0 \<and> count_from 1 ls = 0" for ls
    by (induction ls) (auto simp: highest_def count_from_def)
  ultimately have "highest (levels P) = 0 \<and> count_from 1 (levels P) = 0" by blast
  moreover have "slot P k = None" using n nth_mem by (auto simp: slot_def)
  ultimately show ?thesis by simp
qed

lemma release_inv:
  assumes P: "proc_inv c p P" and s: "release_step P = Some P'"
  shows "proc_inv c p P'"
proof -
  from s obtain k u where z: "closing P = Some (k, True)" and k: "slot P k = Some u"
    by (auto simp: release_step_def split: option.splits bool.splits)
  have R: "records_ok c p P" and cl: "closing_ok P" using P by (simp_all add: proc_inv_def)
  obtain i where i: "inodeList P = [i]" "fileId i = dbfile c" "pInode u = dbfile c"
    "get_inode (dbfile c) (inodeList P) = Some i" "sum_at (eFileLock u) (others P k) i" "counts_ok (levels P) i"
    "0 < refs P" "nRef i = int (refs P)"
    by (rule open_handle [OF R k])
  from cl z k i(1) have d: "eFileLock u = 0" "running P = None" "0 \<le> h u \<longleftrightarrow> nLock i = 0"
    by (auto simp: closing_ok_def)
  have V: "lock_inv (exclusive c p) i (held P)" using P d(2) i(1) by (simp add: proc_inv_def locks_ok_def)
  let ?P = "P\<lparr>files := (files P)[k := None]\<rparr>"
  have kl: "k < length (files P)" "files P ! k = Some u" using k by (auto simp: slot_Some)
  have rf: "refs ?P + 1 = refs P" using refs_update [OF kl(1), of None] kl(2) by simp
  have lv: "levels ?P = levels P" unfolding levels_update
    using levels_slot [OF k] d(1) by (simp add: level_def list_update_same_conv)
  have fl: "\<forall>u. Some u \<in> set (files ?P) \<longrightarrow> Some u \<in> set (files P)"
    using set_update_subset_insert [of "files P" k None] by auto
  have free: "lock_inv (exclusive c p) i no_locks" "unlocked no_locks" if "nLock i = 0"
  proof -
    have "int (count_from 1 (levels P)) + of_bool (bProcessLock i) = 0" using i(6) that by (simp add: counts_ok_def)
    then have "\<not> bProcessLock i" "count_from 1 (levels P) = 0" by (auto split: if_splits simp: of_bool_def)
    then have "iFileLock i = 0" "\<not> bProcessLock i" using i(6) highest_count [of 1 "levels P"] by (auto simp: counts_ok_def)
    then show "lock_inv (exclusive c p) i no_locks" "unlocked no_locks" by (simp_all add: lock_inv_def)
  qed
  have cls: "closing_ok (P\<lparr>inodeList := is, held := L, files := (files P)[k := None], closing := None\<rparr>)" for "is" L
    using cl z kl(1) by (auto simp: closing_ok_def slot_def nth_list_update split: if_splits)
  show ?thesis
  proof (cases "refs P = 1")
    case True
    let ?L = "drop_locks (pUnused i @ closeUnixFile u) (held P)"
    have P': "P' = P\<lparr>inodeList := [], held := ?L, files := (files P)[k := None], closing := None\<rparr>"
      using s z k i True by (simp add: release_step_def releaseInodeInfo_def)
    have zr: "refs ?P = 0" using rf True by simp
    have un: "exclusive c p \<or> unlocked ?L"
    proof (cases "exclusive c p")
      case False
      then have "\<not> bProcessLock i" using V by (simp add: lock_inv_def)
      moreover have "count_from 1 (levels P) = 0" using refs_zero [OF zr] lv by simp
      ultimately have "nLock i = 0" using i(6) by (simp add: counts_ok_def)
      then have "closeUnixFile u \<noteq> []" using d(3) by (simp add: closeUnixFile_def)
      then show ?thesis by (simp add: drop_locks_def unlocked_def)
    qed simp
    have "records_ok c p P'" using zr fl R by (auto simp: P' records_ok_def refs_def)
    moreover have "locks_ok c p P'" using un d(2) by (simp add: P' locks_ok_def)
    ultimately show ?thesis using cls by (simp add: proc_inv_def P')
  next
    case False
    let ?i = "i\<lparr>nRef := nRef i - 1\<rparr>" and ?L = "drop_locks (closeUnixFile u) (held P)"
    have P': "P' = P\<lparr>inodeList := [?i], held := ?L, files := (files P)[k := None], closing := None\<rparr>"
      using s z k i False by (simp add: release_step_def releaseInodeInfo_def set_inode_one)
    have "int (refs ?P) = nRef i - 1" using rf i(8) by linarith
    moreover have "0 < refs ?P" using rf False i(7) by linarith
    ultimately have "records_ok c p P'" using R fl i(1,2,6) lv by (auto simp: P' records_ok_def refs_def levels_def)
    moreover have "lock_inv (exclusive c p) i ?L"
      using V d(3) free by (auto simp: drop_locks_def closeUnixFile_def split: if_splits)
    then have "locks_ok c p P'" using d(2) by (simp add: P' locks_ok_def)
    ultimately show ?thesis using cls by (simp add: proc_inv_def P')
  qed
qed

text \<open>Opening adds a handle without a lock.\<close>

lemma claim_open:
  "slot P j = None \<Longrightarrow> k \<noteq> j \<Longrightarrow> claim (P\<lparr>inodeList := is, held := L, files := (files P)[j := f]\<rparr>) k = claim P k"
  by (simp add: claim_def slot_def split: option.splits)

lemma open_inv:
  assumes P: "proc_inv c p P" and s: "open_step c p k fd flags excl err alloc P = Some P'" and c: "safe_config c"
  shows "proc_inv c p P'"
proof -
  from s c have k: "k < length (files P)" "files P ! k = None" "0 \<le> fd" "err = None"
    by (auto simp: open_step_def safe_config_def split: if_splits)
  have R: "records_ok c p P" and cl: "closing_ok P" and V: "locks_ok c p P" using P by (simp_all add: proc_inv_def)
  define u where "u = \<lparr>pInode = dbfile c, h = fd, eFileLock = NO_LOCK,
    ctrlFlags = (if excl then flags OR UNIXFILE_EXCL else flags), lastErrno = None\<rparr>"
  have sk: "slot P k = None" using k by (simp add: slot_def)
  have lv: "levels (P\<lparr>files := (files P)[k := Some u]\<rparr>) = levels P" unfolding levels_update
    using k by (simp add: level_def levels_def u_def lock_defs list_update_same_conv)
  have fl: "\<forall>v. Some v \<in> set ((files P)[k := Some u]) \<longrightarrow> v = u \<or> Some v \<in> set (files P)"
    using set_update_subset_insert [of "files P" k "Some u"] by auto
  have rf: "refs (P\<lparr>files := (files P)[k := Some u]\<rparr>) = refs P + 1"
    using refs_update [OF k(1), of "Some u"] k(2) by simp
  note frame = levels_def refs_def
  show ?thesis
  proof (cases "inodeList P")
    case Nil
    have none: "refs P = 0" using R Nil by (simp add: records_ok_def)
    then have nr: "running P = None" "closing P = None"
      using V cl refs_zero [OF none] by (auto simp: locks_ok_def closing_ok_def split: option.splits)
    show ?thesis
    proof (cases alloc)
      case True
      have P': "P' = P\<lparr>inodeList := [new_inode (dbfile c)], held := held P, files := (files P)[k := Some u]\<rparr>"
        and m: "excl_mode u = exclusive c p"
        using s c k Nil True by (auto simp: open_step_def fillInUnixFile_def findInodeInfo_def get_inode_def
            rc_defs safe_config_def drop_locks_def u_def Let_def excl_mode_def split: if_splits)
      have "counts_ok (levels P) (new_inode (dbfile c))" using refs_zero [OF none] highest_count [of 2 "levels P"]
        by (simp add: counts_ok_def new_inode_def)
      then have "records_ok c p P'" using R fl lv rf none m
        by (auto simp: P' records_ok_def new_inode_def frame u_def)
      moreover have "locks_ok c p P'" using V nr Nil
        by (auto simp: P' locks_ok_def lock_inv_def new_inode_def)
      moreover have "closing_ok P'" using cl nr k by (auto simp: P' closing_ok_def slot_def u_def nth_list_update split: if_splits)
      ultimately show ?thesis by (simp add: proc_inv_def)
    next
      case False
      have P': "P' = P\<lparr>held := no_locks\<rparr>"
        using s c k Nil False list_update_id [of "files P" k]
        by (auto simp: open_step_def fillInUnixFile_def findInodeInfo_def get_inode_def rc_defs drop_locks_def Let_def split: if_splits)
      have "locks_ok c p P'" using nr Nil by (simp add: P' locks_ok_def)
      moreover have "closing_ok P'" using cl nr by (simp add: P' closing_ok_def)
      ultimately show ?thesis using R by (simp add: proc_inv_def P')
    qed
  next
    case (Cons i rest)
    have i: "inodeList P = [i]" "fileId i = dbfile c" "0 < refs P" "nRef i = int (refs P)" "counts_ok (levels P) i"
      using R Cons by (simp_all add: records_ok_def)
    let ?i = "i\<lparr>nRef := nRef i + 1\<rparr>"
    have P': "P' = P\<lparr>inodeList := [?i], held := held P, files := (files P)[k := Some u]\<rparr>"
      and m: "excl_mode u = exclusive c p"
      using s c k i by (auto simp: open_step_def fillInUnixFile_def findInodeInfo_def get_inode_def set_inode_def
          rc_defs safe_config_def drop_locks_def u_def Let_def excl_mode_def split: if_splits)
    have lP: "levels P' = levels P" using lv by (simp add: P' levels_def)
    have sl: "slot P' j = (if j = k then Some u else slot P j)" for j using k by (simp add: P' slot_def)
    have "records_ok c p P'" using R fl lv rf i m by (auto simp: P' records_ok_def frame u_def)
    moreover have "locks_ok c p P'"
    proof (cases "running P")
      case None
      with V i show ?thesis by (simp add: P' locks_ok_def)
    next
      case (Some r)
      then obtain j oper K where r: "running P = Some (j, oper, K)" by (cases r) auto
      with V i obtain v where v: "slot P j = Some v" "call_inv (exclusive c p) P j oper v i K (held P)"
        by (auto simp: locks_ok_def)
      then have "j \<noteq> k" using sk by auto
      then have "claim P' j = claim P j" unfolding P' by (rule claim_open [OF sk])
      then have "call_inv (exclusive c p) P' j oper v ?i K (held P)"
        using v(2) call_inv_levels [OF lP, of j ?i i] by simp
      with r v sl \<open>j \<noteq> k\<close> show ?thesis by (simp add: locks_ok_def P')
    qed
    moreover have "closing_ok P'"
    proof -
      have f: "closing P' = closing P" "running P' = running P" "inodeList P' = [?i]" "h u = fd"
        by (simp_all add: P' u_def)
      show ?thesis using cl i(1) k(3) sk by (auto simp: closing_ok_def sl f split: option.splits)
    qed
    ultimately show ?thesis by (simp add: proc_inv_def)
  qed
qed

lemma proc_step_inv:
  "proc_inv c p P \<Longrightarrow> proc_step c ok ev P = Some P' \<Longrightarrow> safe_config c \<Longrightarrow> event_proc ev = p \<Longrightarrow> proc_inv c p P'"
  by (cases ev) (auto intro: open_inv start_inv kernel_inv finish_inv defer_inv release_inv)

section \<open>Runs\<close>

definition compatible_locks :: "system \<Rightarrow> bool" where
  "compatible_locks s \<longleftrightarrow>
     (\<forall>p < length s. \<forall>q < length s. p \<noteq> q \<longrightarrow> (\<forall>b. held (s ! p) b = F_WRLCK \<longrightarrow> held (s ! q) b = F_UNLCK))"

definition sys_inv :: "config \<Rightarrow> system \<Rightarrow> bool" where
  "sys_inv c s \<longleftrightarrow> compatible_locks s \<and> (\<forall>p < length s. proc_inv c p (s ! p))"

lemma grant_ok:
  assumes "others_allow s p fl" and "q < length s" "q \<noteq> p" and "in_range fl b" and "l_type fl \<noteq> F_UNLCK"
  shows "compatible (l_type fl) (held (s ! q) b)"
proof -
  have "grantable fl (held (s ! q))" using assms(1-3) by (auto simp: others_allow_def list_all_iff)
  with assms(4,5) show ?thesis by (auto simp: grantable_def list_all_iff in_range_def)
qed

text \<open>An event keeps, drops or is granted the lock on a byte.\<close>

lemma proc_step_held:
  assumes "proc_step c (others_allow s p) ev P = Some P'"
  shows "held P' b = held P b \<or> held P' b = F_UNLCK \<or> (\<forall>q < length s. q \<noteq> p \<longrightarrow> compatible (held P' b) (held (s ! q) b))"
  using assms
proof (cases ev)
  case (Kernel q err)
  with assms have s: "kernel_step c (others_allow s p) err P = Some P'" by simp
  then consider fl where "others_allow s p fl" "held P' = set_lock fl (held P)" | "held P' = held P" | "held P' = no_locks"
    by (auto simp: kernel_step_def drop_locks_def split: option.splits call.splits if_splits)
  then show ?thesis
  proof cases
    case (1 fl)
    then show ?thesis using grant_ok [of s p fl _ b] by (cases "in_range fl b"; cases "l_type fl") (auto simp: set_lock_def)
  qed auto
qed (auto simp: open_step_def start_step_def finish_step_def defer_step_def release_step_def drop_locks_def
    split: option.splits if_splits prod.splits call.splits bool.splits)

lemma sys_step_inv:
  assumes I: "sys_inv c s" and s: "sys_step c ev s = Some s'" and c: "safe_config c"
  shows "sys_inv c s'"
proof -
  let ?p = "event_proc ev"
  from s obtain P' where p: "?p < length s" and st: "proc_step c (others_allow s ?p) ev (s ! ?p) = Some P'" and s': "s' = s[?p := P']"
    by (auto simp: sys_step_def Let_def split: if_splits)
  have "proc_inv c ?p P'" using proc_step_inv [OF _ st c refl] I p by (simp add: sys_inv_def)
  then have "\<forall>q < length s'. proc_inv c q (s' ! q)" using I p by (auto simp: s' sys_inv_def nth_list_update)
  moreover have "compatible_locks s'"
  proof -
    have C: "held (s ! q) b = F_WRLCK \<Longrightarrow> held (s ! r) b = F_UNLCK" if "q < length s" "r < length s" "q \<noteq> r" for q r b
      using I that by (simp add: sys_inv_def compatible_locks_def)
    have N: "(held P' b = F_WRLCK \<longrightarrow> held (s ! q) b = F_UNLCK) \<and> (held (s ! q) b = F_WRLCK \<longrightarrow> held P' b = F_UNLCK)"
      if q: "q < length s" "q \<noteq> ?p" for q b
      using proc_step_held [OF st, of b] C [OF p q(1)] C [OF q(1) p] q by (cases "held P' b") auto
    show ?thesis unfolding compatible_locks_def
    proof (intro allI impI)
      fix q r b assume q: "q < length s'" "r < length s'" "q \<noteq> r" and w: "held (s' ! q) b = F_WRLCK"
      consider "q = ?p" "r \<noteq> ?p" | "q \<noteq> ?p" "r = ?p" | "q \<noteq> ?p" "r \<noteq> ?p" using q(3) by blast
      then show "held (s' ! r) b = F_UNLCK"
      proof cases
        case 1
        then show ?thesis using w q p N [of r b] by (simp add: s')
      next
        case 2
        then show ?thesis using w q p N [of q b] by (simp add: s')
      next
        case 3
        then show ?thesis using w q C by (simp add: s')
      qed
    qed
  qed
  ultimately show ?thesis by (simp add: sys_inv_def)
qed

lemma start_system_inv: "sys_inv c (start_system n m)"
proof -
  have "(\<forall>u. Some u \<in> set (files (new_proc m)) \<longrightarrow> False)" by (auto simp: new_proc_def)
  moreover have "refs (new_proc m) = 0" by (simp add: refs_def new_proc_def)
  moreover have "slot (new_proc m) k = None" for k by (simp add: slot_def new_proc_def)
  ultimately have "proc_inv c p (new_proc m)" for p
    by (auto simp: proc_inv_def records_ok_def locks_ok_def closing_ok_def new_proc_def unlocked_def)
  then show ?thesis by (auto simp: sys_inv_def compatible_locks_def start_system_def new_proc_def)
qed

lemma run_events_inv: "sys_inv c s \<Longrightarrow> safe_config c \<Longrightarrow> run_events c evs s = Some s' \<Longrightarrow> sys_inv c s' \<and> length s' = length s"
proof (induction evs arbitrary: s)
  case (Cons ev evs)
  then obtain s1 where s1: "sys_step c ev s = Some s1" "run_events c evs s1 = Some s'" by (auto split: option.splits)
  then have "length s1 = length s" by (auto simp: sys_step_def Let_def split: if_splits)
  with Cons.IH [of s1] sys_step_inv [OF Cons.prems(1) s1(1) Cons.prems(2)] Cons.prems(2) s1 show ?case by simp
qed simp

section \<open>Mutual exclusion\<close>

text \<open>What the handles of a process rely on, and what the kernel holds for it.\<close>

lemma claim_le_level: "claim P k \<le> level (slot P k)"
  by (auto simp: claim_def level_def lock_defs split: option.splits operation.splits)

lemma claims_backed:
  assumes "proc_inv c p P" and "slot P k \<noteq> None"
  obtains cl where "claim P k \<le> cl" "backed (exclusive c p) cl (held P)" "cl \<le> 4"
proof -
  from assms(2) obtain u where u: "slot P k = Some u" by auto
  have R: "records_ok c p P" and V: "locks_ok c p P" using assms(1) by (simp_all add: proc_inv_def)
  obtain i where i: "inodeList P = [i]" "sum_at (eFileLock u) (others P k) i" "counts_ok (levels P) i"
    by (rule open_handle [OF R u])
  have lk: "claim P k \<le> eFileLock u" using claim_le_level [of P k] u by (simp add: level_def)
  have hi: "highest (levels P) \<le> 4" using i(3) by (simp add: counts_ok_def)
  show ?thesis
  proof (cases "running P")
    case None
    with V i(1) have "backed (exclusive c p) (iFileLock i) (held P)" by (simp add: locks_ok_def lock_inv_def)
    moreover have "eFileLock u \<le> iFileLock i" "iFileLock i \<le> 4" using i(2,3) by (simp_all add: sum_inv_def counts_ok_def)
    ultimately show ?thesis using that lk by (meson order_trans)
  next
    case (Some r)
    then obtain j oper K where r: "running P = Some (j, oper, K)" by (cases r) auto
    with V i(1) obtain v where v: "slot P j = Some v" "call_inv (exclusive c p) P j oper v i K (held P)"
      by (auto simp: locks_ok_def)
    let ?cl = "max (claim P j) (highest (others P j))"
    have b: "backed (exclusive c p) ?cl (held P)" using v(2) always_I unfolding call_inv_def by blast
    have "claim P k \<le> ?cl"
    proof (cases "k = j")
      case False
      then have "eFileLock u \<in> set (others P j)"
        using levels_slot [OF u] by (metis length_list_update nth_list_update_neq nth_mem)
      with lk highest_ge show ?thesis by fastforce
    qed simp
    moreover have "?cl \<le> 4"
    proof -
      have "claim P j \<le> levels P ! j" using claim_le_level [of P j] levels_slot [OF v(1)] v(1) by (simp add: level_def)
      with highest_split [of j "levels P"] levels_slot [OF v(1)] hi show ?thesis by simp
    qed
    ultimately show ?thesis using that b by blast
  qed
qed

text \<open>Two handles of one process.\<close>

lemma claims_in_process:
  assumes P: "proc_inv c p P" and kj: "k \<noteq> j"
  shows "(claim P k = 4 \<longrightarrow> claim P j = 0) \<and> \<not> (2 \<le> claim P k \<and> 2 \<le> claim P j)"
proof (cases "slot P k = None \<or> slot P j = None")
  case True
  then have "claim P k = 0 \<or> claim P j = 0" by (auto simp: claim_def lock_defs)
  moreover have "claim P j = 4 \<longrightarrow> False" if "slot P j = None" using that by (simp add: claim_def lock_defs)
  ultimately show ?thesis using True by (auto simp: claim_def lock_defs)
next
  case False
  then obtain u v where u: "slot P k = Some u" and v: "slot P j = Some v" by auto
  have R: "records_ok c p P" using P by (simp add: proc_inv_def)
  obtain i where i: "sum_at (eFileLock u) (others P k) i" by (rule open_handle [OF R u])
  have le: "claim P k \<le> eFileLock u" "claim P j \<le> eFileLock v"
    using claim_le_level [of P k] claim_le_level [of P j] u v by (simp_all add: level_def)
  have mem: "eFileLock v \<in> set (others P k)"
    using levels_slot [OF v] kj by (metis length_list_update nth_list_update_neq nth_mem)
  have c1: "1 \<le> eFileLock v \<longrightarrow> count_from 1 (others P k) \<noteq> 0" and c2: "2 \<le> eFileLock v \<longrightarrow> count_from 2 (others P k) \<noteq> 0"
    using mem by (auto simp: count_from_def filter_empty_conv)
  have "\<not> (2 \<le> eFileLock u \<and> 2 \<le> eFileLock v)" using i c2 by (auto simp: sum_inv_def)
  moreover have "eFileLock u = 4 \<longrightarrow> eFileLock v = 0"
  proof
    assume "eFileLock u = 4"
    with i have "iFileLock i = 4" by (auto simp: sum_inv_def)
    with i \<open>eFileLock u = 4\<close> have "count_from 1 (others P k) = 0" by (auto simp: sum_inv_def)
    with c1 show "eFileLock v = 0" by (cases "eFileLock v") auto
  qed
  moreover have "eFileLock u \<le> 4" using i by (auto simp: sum_inv_def)
  ultimately show ?thesis using le by auto
qed

text \<open>Two processes.\<close>

lemma backed_writer:
  assumes "backed x a L" and "a \<le> 4"
  shows "2 \<le> a \<longrightarrow> shared_written L \<or> L RESERVED_BYTE = F_WRLCK"
proof (cases "a = 4")
  case False
  with assms show ?thesis by (cases x) (simp_all add: backed_def)
qed (use assms in \<open>simp add: backed_def\<close>)

lemma claims_across:
  assumes P: "proc_inv c p P" and Q: "proc_inv c q Q" and kP: "slot P k \<noteq> None" and jQ: "slot Q j \<noteq> None"
    and C: "\<And>b. held P b = F_WRLCK \<Longrightarrow> held Q b = F_UNLCK" and D: "\<And>b. held Q b = F_WRLCK \<Longrightarrow> held P b = F_UNLCK"
  shows "(claim P k = 4 \<longrightarrow> claim Q j = 0) \<and> \<not> (2 \<le> claim P k \<and> 2 \<le> claim Q j)"
proof -
  obtain a where a: "claim P k \<le> a" "backed (exclusive c p) a (held P)" "a \<le> 4" by (rule claims_backed [OF P kP])
  obtain b where b: "claim Q j \<le> b" "backed (exclusive c q) b (held Q)" "b \<le> 4" by (rule claims_backed [OF Q jQ])
  have x: "\<not> (shared_written (held P) \<and> shared_held (held Q))" using shared_conflict C by blast
  have y: "\<not> (shared_written (held Q) \<and> shared_held (held P))" using shared_conflict D by blast
  have h: "1 \<le> a \<longrightarrow> shared_held (held P)" "1 \<le> b \<longrightarrow> shared_held (held Q)"
    using a(2) b(2) by (auto simp: backed_def)
  have w: "2 \<le> a \<longrightarrow> shared_written (held P) \<or> held P RESERVED_BYTE = F_WRLCK"
    "2 \<le> b \<longrightarrow> shared_written (held Q) \<or> held Q RESERVED_BYTE = F_WRLCK"
    using backed_writer [OF a(2,3)] backed_writer [OF b(2,3)] by blast+
  have r: "\<not> (held P RESERVED_BYTE = F_WRLCK \<and> held Q RESERVED_BYTE = F_WRLCK)" using C by auto
  have "\<not> (2 \<le> a \<and> 2 \<le> b)"
  proof
    assume ab: "2 \<le> a \<and> 2 \<le> b"
    then have "shared_held (held P)" "shared_held (held Q)" using h by linarith+
    with ab w x y r show False by blast
  qed
  moreover have "a = 4 \<longrightarrow> b = 0"
  proof
    assume "a = 4"
    then have "shared_written (held P)" using a(2) by (simp add: backed_def)
    with x h(2) show "b = 0" by (cases b) auto
  qed
  ultimately show ?thesis using a(1,3) b(1) by (metis le_antisym le_trans le_zero_eq)
qed

end
