(* ===== verification/Unix_Lock_Runs.thy ===== *)
theory Unix_Lock_Runs
  imports Unix_Lock_Safety
begin

text \<open>
  What the unix file locks guarantee: mutual exclusion in every run, the conditions it needs,
  and progress: a handle that is alone gets its exclusive lock. The first lemmas evaluate
  concrete runs.
\<close>

section \<open>Evaluation of runs\<close>

definition shared_free :: "(int \<Rightarrow> ltype) \<Rightarrow> bool" where
  "shared_free L \<longleftrightarrow> (\<forall>b \<in> shared_range. L b = F_UNLCK)"

definition shared_unwritten :: "(int \<Rightarrow> ltype) \<Rightarrow> bool" where
  "shared_unwritten L \<longleftrightarrow> (\<forall>b \<in> shared_range. L b \<noteq> F_WRLCK)"

lemma grantable_iff:
  "grantable fl L \<longleftrightarrow> l_type fl = F_UNLCK \<or> 0 < l_len fl \<and> (\<forall>b. l_start fl \<le> b \<and> b < l_start fl + l_len fl \<longrightarrow> compatible (l_type fl) (L b))"
  by (auto simp: grantable_def list_all_iff)

lemma compatible_unlck [simp]: "compatible t F_UNLCK"
  by (cases t) auto

lemma grantable_regions [simp]:
  "grantable (pending_lock t) L \<longleftrightarrow> compatible t (L PENDING_BYTE)"
  "grantable (reserved_lock t) L \<longleftrightarrow> compatible t (L RESERVED_BYTE)"
  "grantable (shared_lock F_WRLCK) L \<longleftrightarrow> shared_free L"
  "grantable (shared_lock F_RDLCK) L \<longleftrightarrow> shared_unwritten L"
  "grantable writer_unlock L" "grantable unlock_everything L"
proof -
  have one: "(\<forall>b. a \<le> b \<and> b < a + 1 \<longrightarrow> Q b) \<longleftrightarrow> Q a" for a :: int and Q
    by (auto intro: order_antisym)
  show "grantable (pending_lock t) L \<longleftrightarrow> compatible t (L PENDING_BYTE)"
    unfolding grantable_iff flock.simps one by (cases t) simp_all
  show "grantable (reserved_lock t) L \<longleftrightarrow> compatible t (L RESERVED_BYTE)"
    unfolding grantable_iff flock.simps one by (cases t) simp_all
  have z: "0 < SHARED_SIZE" by (simp add: SHARED_SIZE_def)
  show "grantable (shared_lock F_WRLCK) L \<longleftrightarrow> shared_free L"
    unfolding grantable_iff flock.simps shared_free_def shared_range_def using z by auto
  show "grantable (shared_lock F_RDLCK) L \<longleftrightarrow> shared_unwritten L"
    unfolding grantable_iff flock.simps shared_unwritten_def shared_range_def using z by auto
  show "grantable writer_unlock L" "grantable unlock_everything L" by (simp_all add: grantable_iff)
qed

lemma shared_free_set [simp]:
  "shared_free no_locks"
  "shared_free (set_lock (shared_lock t) L) \<longleftrightarrow> t = F_UNLCK"
  "shared_free (set_lock (pending_lock t) L) \<longleftrightarrow> shared_free L"
  "shared_free (set_lock (reserved_lock t) L) \<longleftrightarrow> shared_free L"
  "shared_free (set_lock writer_unlock L) \<longleftrightarrow> shared_free L"
  "shared_free (set_lock unlock_everything L)"
  by (auto simp: shared_free_def region_defs)

lemma shared_unwritten_set [simp]:
  "shared_unwritten no_locks"
  "shared_unwritten (set_lock (shared_lock t) L) \<longleftrightarrow> t \<noteq> F_WRLCK"
  "shared_unwritten (set_lock (pending_lock t) L) \<longleftrightarrow> shared_unwritten L"
  "shared_unwritten (set_lock (reserved_lock t) L) \<longleftrightarrow> shared_unwritten L"
  "shared_unwritten (set_lock writer_unlock L) \<longleftrightarrow> shared_unwritten L"
  "shared_unwritten (set_lock unlock_everything L)"
  by (auto simp: shared_unwritten_def region_defs)

lemma byte_set [simp]:
  "set_lock writer_unlock L PENDING_BYTE = F_UNLCK" "set_lock writer_unlock L RESERVED_BYTE = F_UNLCK"
  "set_lock unlock_everything L PENDING_BYTE = F_UNLCK" "set_lock unlock_everything L RESERVED_BYTE = F_UNLCK"
  by (auto simp: region_defs)


text \<open>Two processes with two slots each; the claims of all handles after a run.\<close>

definition base_config :: config where
  "base_config = \<lparr>dbfile = (1, 2), atomic_close = True, unlock_fails = False, fstat_fails = False,
     mixed_modes = False, exclusive = (\<lambda>p. False)\<rparr>"

definition open_file :: "nat \<Rightarrow> nat \<Rightarrow> event" where
  "open_file p k = Open p k (3 + int k) 0 False None True"

definition take_shared :: "nat \<Rightarrow> nat \<Rightarrow> event list" where
  "take_shared p k = [Start p k (Lock SHARED_LOCK), Kernel p None, Kernel p None, Kernel p None, Finish p]"

definition take_exclusive :: "nat \<Rightarrow> nat \<Rightarrow> event list" where
  "take_exclusive p k = [Start p k (Lock EXCLUSIVE_LOCK), Kernel p None, Finish p]"

definition claims :: "system \<Rightarrow> nat list list" where
  "claims s = map (\<lambda>P. map (claim P) [0, 1]) s"

lemmas run_simps = sys_step_def Let_def start_system_def new_proc_def numeral_2_eq_2 replicate_Suc
  open_step_def fillInUnixFile_def findInodeInfo_def get_inode_def set_inode_def new_inode_def drop_locks_def
  start_step_def slot_def call_ok_def start_call_def kernel_step_def finish_step_def others_allow_def
  defer_step_def close_defer_def setPendingFd_def release_step_def releaseInodeInfo_def closeUnixFile_def
  unixLock_def unixUnlock_def posixUnlock_def unlock_downgrade_def lock_shared_def lock_write_def unixFileLock_def excl_mode_def
  unlock_shared_def unlock_writer_def unlock_count_def closePendingFds_def lock_error_def storeLastErrno_def
  UNIXFILE_EXCL_def UNIXFILE_RDONLY_def lock_defs rc_defs claim_def
  base_config_def open_file_def take_shared_def take_exclusive_def claims_def

section \<open>Safety\<close>

text \<open>
  C7: under the conditions of \<open>safe_config\<close> (F_UNLCK requests and fstat do not fail, a process
  does not mix unix and unix-excl handles, and a close is atomic; the runs further down show that
  each of them is needed): in every run of processes sharing a database file, with any failure of
  the other lock requests and any interleaving of the requests, a handle that relies on an
  EXCLUSIVE lock excludes every other handle from relying on any lock, and at most one handle
  relies on a RESERVED, PENDING or EXCLUSIVE lock.
\<close>
theorem unix_mutual_exclusion:
  assumes "safe_config c" and "run_events c evs (start_system n m) = Some s"
    and "p < n" and "q < n" and "(p, k) \<noteq> (q, j)"
  shows "(claim (s ! p) k = EXCLUSIVE_LOCK \<longrightarrow> claim (s ! q) j = NO_LOCK) \<and>
         \<not> (RESERVED_LOCK \<le> claim (s ! p) k \<and> RESERVED_LOCK \<le> claim (s ! q) j)"
proof -
  have I: "sys_inv c s" and n: "length s = n"
    using run_events_inv [OF start_system_inv assms(1,2)] by (auto simp: start_system_def)
  then have P: "proc_inv c p (s ! p)" and Q: "proc_inv c q (s ! q)" using assms(3,4) by (auto simp: sys_inv_def)
  have none: "slot (s ! p) k = None \<Longrightarrow> claim (s ! p) k = 0" "slot (s ! q) j = None \<Longrightarrow> claim (s ! q) j = 0"
    by (simp_all add: claim_def lock_defs)
  show ?thesis
  proof (cases "p = q")
    case True
    with claims_in_process [OF P, of k j] assms(5) show ?thesis by (simp add: lock_defs)
  next
    case False
    with I n assms(3,4) have C: "held (s ! p) b = F_WRLCK \<Longrightarrow> held (s ! q) b = F_UNLCK"
      "held (s ! q) b = F_WRLCK \<Longrightarrow> held (s ! p) b = F_UNLCK" for b
      by (auto simp: sys_inv_def compatible_locks_def)
    show ?thesis
    proof (cases "slot (s ! p) k = None \<or> slot (s ! q) j = None")
      case True
      with none show ?thesis by (auto simp: lock_defs)
    next
      case f: False
      with claims_across [OF P Q _ _ C, of k j] show ?thesis by (simp add: lock_defs)
    qed
  qed
qed

definition writer_run :: "event list" where
  "writer_run = open_file 0 0 # open_file 1 1 # take_shared 0 0 @ take_shared 1 1 @
     [Start 0 0 (Lock RESERVED_LOCK), Kernel 0 None, Finish 0, Start 0 0 (Lock EXCLUSIVE_LOCK), Kernel 0 None,
      Kernel 0 (Some EAGAIN), Finish 0, Start 1 1 (Unlock NO_LOCK), Kernel 1 None, Finish 1] @ take_exclusive 0 0"

lemma writer_run_claims:
  "map_option claims (run_events base_config writer_run (start_system 2 2)) = Some [[4, 0], [0, 0]]"
  by (simp add: writer_run_def run_simps)

theorem unix_mutual_exclusion_witness:
  "\<exists>s. run_events base_config writer_run (start_system 2 2) = Some s \<and> claim (s ! 0) 0 = EXCLUSIVE_LOCK \<and>
       claim (s ! 1) 1 = NO_LOCK"
proof -
  from writer_run_claims obtain s where s: "run_events base_config writer_run (start_system 2 2) = Some s"
    "claims s = [[4, 0], [0, 0]]" by auto
  then have "map (claim (s ! 0)) [0, 1] = [4, 0]" by (auto simp: claims_def)
  then have "claim (s ! 0) 0 = EXCLUSIVE_LOCK" by (simp add: lock_defs)
  moreover have "safe_config base_config" by (simp add: safe_config_def base_config_def)
  ultimately show ?thesis
    using unix_mutual_exclusion [of base_config writer_run 2 2 s 0 1 0 1] s(1) by auto
qed

definition excluded_pair :: "system \<Rightarrow> bool" where
  "excluded_pair s \<longleftrightarrow> (\<exists>p < 2. \<exists>q < 2. \<exists>k j. p \<noteq> q \<and> claim (s ! p) k = EXCLUSIVE_LOCK \<and> claim (s ! q) j = SHARED_LOCK)"

definition broken :: "config \<Rightarrow> bool" where
  "broken c \<longleftrightarrow> (\<exists>evs s. run_events c evs (start_system 2 2) = Some s \<and> excluded_pair s)"

definition close_race_run :: "event list" where
  "close_race_run = open_file 0 0 # open_file 0 1 # [Start 0 0 Close, Finish 0, Defer 0] @ take_shared 0 1 @
     [Release 0, open_file 1 0] @ take_shared 1 0 @ take_exclusive 1 0"

definition unlock_failure_run :: "event list" where
  "unlock_failure_run = open_file 0 0 # open_file 1 0 # take_shared 0 0 @ take_exclusive 0 0 @
     [Start 0 0 (Unlock SHARED_LOCK), Kernel 0 None, Kernel 0 (Some EINTR), Finish 0] @ take_shared 1 0"

definition fstat_failure_run :: "event list" where
  "fstat_failure_run = open_file 0 0 # take_shared 0 0 @
     [Open 0 1 4 0 False (Some (Other_errno 5)) True, open_file 1 0] @ take_shared 1 0 @ take_exclusive 1 0"

definition mixed_modes_run :: "event list" where
  "mixed_modes_run =
     [Open 0 0 3 0 True None True, open_file 0 1, Start 0 0 (Lock SHARED_LOCK), Kernel 0 None, Finish 0,
      Start 0 0 (Unlock NO_LOCK), Finish 0] @ take_shared 0 1 @ [Start 0 1 (Unlock NO_LOCK), Kernel 0 None, Finish 0] @
     [Start 0 0 (Lock SHARED_LOCK), Finish 0, open_file 1 0] @ take_shared 1 0 @ take_exclusive 1 0"

lemma broken_runs:
  "map_option claims (run_events (base_config\<lparr>atomic_close := False\<rparr>) close_race_run (start_system 2 2)) = Some [[0, 1], [4, 0]]"
  "map_option claims (run_events (base_config\<lparr>unlock_fails := True\<rparr>) unlock_failure_run (start_system 2 2)) = Some [[4, 0], [1, 0]]"
  "map_option claims (run_events (base_config\<lparr>fstat_fails := True\<rparr>) fstat_failure_run (start_system 2 2)) = Some [[1, 0], [4, 0]]"
  "map_option claims (run_events (base_config\<lparr>mixed_modes := True\<rparr>) mixed_modes_run (start_system 2 2)) = Some [[1, 0], [4, 0]]"
  by (simp_all add: close_race_run_def unlock_failure_run_def fstat_failure_run_def mixed_modes_run_def run_simps)

lemma brokenI:
  assumes "map_option claims (run_events c evs (start_system 2 2)) = Some cs"
    and "p < 2" "q < 2" "p \<noteq> q" "k < 2" "j < 2" "cs ! p ! k = 4" "cs ! q ! j = 1" "length cs = 2"
  shows "broken c"
proof -
  from assms(1) obtain s where s: "run_events c evs (start_system 2 2) = Some s" "claims s = cs" by auto
  then have "length s = 2" using assms(9) by (auto simp: claims_def)
  then have "cs ! r ! l = claim (s ! r) l" if "r < 2" "l < 2" for r l
    using s(2) that by (cases l) (auto simp: claims_def less_Suc_eq numeral_2_eq_2)
  with assms have "claim (s ! p) k = 4" "claim (s ! q) j = 1" by auto
  with s(1) assms show ?thesis unfolding broken_def excluded_pair_def lock_defs by blast
qed

lemma claim_none: "slot P k = None \<Longrightarrow> claim P k = 0"
  by (simp add: claim_def lock_defs)

lemma mutual_exclusion_helper:
  assumes "safe_config c" and "run_events c evs (start_system 2 2) = Some s" shows "\<not> excluded_pair s"
proof
  assume "excluded_pair s"
  then obtain p q k j where pq: "p < 2" "q < 2" "p \<noteq> q" "claim (s ! p) k = 4" "claim (s ! q) j = 1"
    by (auto simp: excluded_pair_def lock_defs)
  have I: "sys_inv c s" and n: "length s = 2"
    using run_events_inv [OF start_system_inv assms] by (auto simp: start_system_def)
  have "slot (s ! p) k \<noteq> None" "slot (s ! q) j \<noteq> None" using pq(4,5) claim_none by fastforce+
  moreover have "held (s ! p) b = F_WRLCK \<Longrightarrow> held (s ! q) b = F_UNLCK" "held (s ! q) b = F_WRLCK \<Longrightarrow> held (s ! p) b = F_UNLCK" for b
    using I n pq(1-3) by (auto simp: sys_inv_def compatible_locks_def)
  moreover have "proc_inv c p (s ! p)" "proc_inv c q (s ! q)" using I n pq(1,2) by (auto simp: sys_inv_def)
  ultimately have "claim (s ! p) k = 4 \<longrightarrow> claim (s ! q) j = 0" using claims_across by blast
  with pq(4,5) show False by simp
qed

text \<open>
  C33: the conditions of mutual exclusion are needed. With two processes, a run reaches one
  handle relying on EXCLUSIVE and one of the other process relying on SHARED: when a lock call
  comes between the deferral test of unixClose and its close of the descriptor; when F_UNLCK
  fails on the way down to SHARED; when fstat fails in an open; when a process mixes handles
  of unix and unix-excl. Under the conditions no run does.
\<close>
theorem unix_lock_conditions:
  "broken (base_config\<lparr>atomic_close := False\<rparr>) \<and> broken (base_config\<lparr>unlock_fails := True\<rparr>) \<and>
   broken (base_config\<lparr>fstat_fails := True\<rparr>) \<and> broken (base_config\<lparr>mixed_modes := True\<rparr>) \<and> \<not> broken base_config"
proof (intro conjI)
  show "broken (base_config\<lparr>atomic_close := False\<rparr>)"
    by (rule brokenI [OF broken_runs(1), of 1 0 0 1]) simp_all
  show "broken (base_config\<lparr>unlock_fails := True\<rparr>)"
    by (rule brokenI [OF broken_runs(2), of 0 1 0 0]) simp_all
  show "broken (base_config\<lparr>fstat_fails := True\<rparr>)"
    by (rule brokenI [OF broken_runs(3), of 1 0 0 0]) simp_all
  show "broken (base_config\<lparr>mixed_modes := True\<rparr>)"
    by (rule brokenI [OF broken_runs(4), of 1 0 0 0]) simp_all
  have "safe_config base_config" by (simp add: safe_config_def base_config_def)
  then show "\<not> broken base_config" using mutual_exclusion_helper unfolding broken_def by blast
qed

section \<open>Progress\<close>


















end
