(* ===== verification/Rowset.thy ===== *)
theory Rowset
  imports Prelude "HOL-Library.Sublist"
begin

text \<open>
  The set of rowids of rowset.c (in sqlite3.c). An entry list linked by \<open>pRight\<close> is the list
  of its rowids, a tree of entries is a \<open>tree\<close>, the forest is the list of the trees its nodes
  carry in \<open>pLeft\<close> (\<open>Leaf\<close> is a null pointer). Rowids are i64 values, only compared and copied.
  What malloc answers is an argument.
\<close>

section \<open>State\<close>

datatype tree = Leaf | Node (left: tree) i64 (right: tree)

definition ROWSET_ENTRY_PER_CHUNK :: nat where "ROWSET_ENTRY_PER_CHUNK = (1024 - 8) div 24"
definition ROWSET_SORTED :: u16 where "ROWSET_SORTED = 0x01"
definition ROWSET_NEXT :: u16 where "ROWSET_NEXT = 0x02"

text \<open>\<open>pChunk\<close> lists the addresses of the chunks; \<open>pLast\<close> is the rowid of the last entry.\<close>

record RowSet =
  pChunk :: "nat list"
  pEntry :: "i64 list"
  pLast :: "i64 option"
  nFresh :: nat
  pForest :: "tree list"
  rsFlags :: u16
  iBatch :: int

text \<open>sizeof(RowSet) is 56; \<open>N\<close> is the size malloc really gave, \<open>alloc\<close> whether it succeeded.\<close>

definition sqlite3RowSetInit :: "bool \<Rightarrow> nat \<Rightarrow> RowSet option" where
  "sqlite3RowSetInit alloc N =
     (if alloc then
        Some \<lparr>pChunk = [], pEntry = [], pLast = None, nFresh = ((N - 56) div 24) mod 2 ^ 16, pForest = [],
              rsFlags = ROWSET_SORTED, iBatch = 0\<rparr>
      else None)"

text \<open>The cleared set and the chunks freed.\<close>

definition sqlite3RowSetClear :: "RowSet \<Rightarrow> RowSet \<times> nat list" where
  "sqlite3RowSetClear p =
     (p\<lparr>pChunk := [], nFresh := 0, pEntry := [], pLast := None, pForest := [], rsFlags := ROWSET_SORTED\<rparr>, pChunk p)"

text \<open>Everything freed: the chunks, then the object at \<open>self\<close>.\<close>

definition sqlite3RowSetDelete :: "nat \<Rightarrow> RowSet \<Rightarrow> nat list" where
  "sqlite3RowSetDelete self p = snd (sqlite3RowSetClear p) @ [self]"

text \<open>An entry is taken from the pool, which is refilled with a chunk when it is empty; \<open>new\<close> is
  what malloc gives for one. \<open>None\<close> is out of memory.\<close>

definition rowSetEntryAlloc :: "nat option \<Rightarrow> RowSet \<Rightarrow> RowSet option" where
  "rowSetEntryAlloc new p =
     (if nFresh p = 0 then
        (case new of
           None \<Rightarrow> None
         | Some a \<Rightarrow> Some (p\<lparr>pChunk := a # pChunk p, nFresh := ROWSET_ENTRY_PER_CHUNK - 1\<rparr>))
      else Some (p\<lparr>nFresh := nFresh p - 1\<rparr>))"

definition sqlite3RowSetInsert :: "nat option \<Rightarrow> i64 \<Rightarrow> RowSet \<Rightarrow> RowSet" where
  "sqlite3RowSetInsert new rowid p =
     (case rowSetEntryAlloc new p of
        None \<Rightarrow> p
      | Some p \<Rightarrow>
          (case pLast p of
             Some v \<Rightarrow> p\<lparr>pEntry := pEntry p @ [rowid], pLast := Some rowid,
                         rsFlags := (if rowid \<le> v then rsFlags p AND NOT ROWSET_SORTED else rsFlags p)\<rparr>
           | None \<Rightarrow> p\<lparr>pEntry := [rowid], pLast := Some rowid\<rparr>))"

section \<open>Sorting\<close>

text \<open>Both lists have an entry (the code asserts it).\<close>

function rowSetEntryMerge :: "i64 list \<Rightarrow> i64 list \<Rightarrow> i64 list" where
  "rowSetEntryMerge (a # pA) (b # pB) =
     (if a \<le> b then
        (if a < b then [a] else []) @ (if pA = [] then b # pB else rowSetEntryMerge pA (b # pB))
      else
        b # (if pB = [] then a # pA else rowSetEntryMerge (a # pA) pB))"
| "rowSetEntryMerge [] pB = pB"
| "rowSetEntryMerge (a # pA) [] = a # pA"
  by pat_completeness auto
termination by (relation "measure (\<lambda>(pA, pB). length pA + length pB)") auto

text \<open>One entry goes through the buckets; \<open>None\<close> is a write past the last bucket.\<close>

fun bucket_insert :: "i64 list list \<Rightarrow> i64 list \<Rightarrow> i64 list list option" where
  "bucket_insert [] pIn = None"
| "bucket_insert (b # aBucket) pIn =
     (if b = [] then Some (pIn # aBucket)
      else map_option (\<lambda>bs. [] # bs) (bucket_insert aBucket (rowSetEntryMerge b pIn)))"

fun sort_loop :: "i64 list list \<Rightarrow> i64 list \<Rightarrow> i64 list list option" where
  "sort_loop aBucket [] = Some aBucket"
| "sort_loop aBucket (v # pIn) =
     (case bucket_insert aBucket [v] of None \<Rightarrow> None | Some aBucket \<Rightarrow> sort_loop aBucket pIn)"

fun merge_buckets :: "i64 list \<Rightarrow> i64 list list \<Rightarrow> i64 list" where
  "merge_buckets pIn [] = pIn"
| "merge_buckets pIn (b # aBucket) =
     (if b = [] then merge_buckets pIn aBucket
      else merge_buckets (if pIn \<noteq> [] then rowSetEntryMerge pIn b else b) aBucket)"

definition rowSetEntrySort :: "i64 list \<Rightarrow> i64 list option" where
  "rowSetEntrySort pIn =
     map_option (\<lambda>aBucket. merge_buckets (hd aBucket) (tl aBucket)) (sort_loop (replicate 40 []) pIn)"

section \<open>Trees\<close>

fun rowSetTreeToList :: "tree \<Rightarrow> i64 list" where
  "rowSetTreeToList Leaf = []"
| "rowSetTreeToList (Node l v r) =
     (if l \<noteq> Leaf then rowSetTreeToList l else []) @ [v] @ (if r \<noteq> Leaf then rowSetTreeToList r else [])"

text \<open>The tree and the unused entries.\<close>

fun rowSetNDeepTree :: "nat \<Rightarrow> i64 list \<Rightarrow> tree \<times> i64 list" where
  "rowSetNDeepTree iDepth [] = (Leaf, [])"
| "rowSetNDeepTree 0 (v # ppList) = (Node Leaf v Leaf, ppList)"
| "rowSetNDeepTree (Suc 0) (v # ppList) = (Node Leaf v Leaf, ppList)"
| "rowSetNDeepTree (Suc (Suc d)) (v # ppList) =
     (case rowSetNDeepTree (Suc d) (v # ppList) of
        (pLeft, []) \<Rightarrow> (pLeft, [])
      | (pLeft, w # ppList) \<Rightarrow>
          (case rowSetNDeepTree (Suc d) ppList of (pRight, ppList) \<Rightarrow> (Node pLeft w pRight, ppList)))"

lemma NDeepTree_length: "length (snd (rowSetNDeepTree d xs)) \<le> length xs"
proof (induction d xs rule: rowSetNDeepTree.induct)
  case (4 d v xs)
  then show ?case
    by (fastforce split: prod.splits list.splits)
qed auto

lemma NDeepTree_rest: "(r, zs) = rowSetNDeepTree d ys \<Longrightarrow> length zs < Suc (length ys)"
  using NDeepTree_length [of d ys] by (metis le_imp_less_Suc snd_conv)

function list_to_tree_loop :: "tree \<Rightarrow> nat \<Rightarrow> i64 list \<Rightarrow> tree" where
  "list_to_tree_loop p iDepth pList =
     (case pList of
        [] \<Rightarrow> p
      | v # pList \<Rightarrow>
          (case rowSetNDeepTree iDepth pList of
             (pRight, pList) \<Rightarrow> list_to_tree_loop (Node p v pRight) (iDepth + 1) pList))"
  by pat_completeness auto
termination by (relation "measure (\<lambda>(p, d, xs). length xs)") (auto dest: NDeepTree_rest)

declare list_to_tree_loop.simps [simp del]

definition rowSetListToTree :: "i64 list \<Rightarrow> tree" where
  "rowSetListToTree pList = list_to_tree_loop (Node Leaf (hd pList) Leaf) 1 (tl pList)"

section \<open>Reading\<close>

text \<open>The result, the rowid written, the set, and the chunks freed. \<open>None\<close> is a sort that
  overruns its buckets.\<close>

definition sqlite3RowSetNext :: "RowSet \<Rightarrow> (int \<times> i64 option \<times> RowSet \<times> nat list) option" where
  "sqlite3RowSetNext p =
     (case (if rsFlags p AND ROWSET_NEXT = 0 then
              (case (if rsFlags p AND ROWSET_SORTED = 0 then rowSetEntrySort (pEntry p) else Some (pEntry p)) of
                 None \<Rightarrow> None
               | Some es \<Rightarrow> Some (p\<lparr>pEntry := es, rsFlags := rsFlags p OR (ROWSET_SORTED OR ROWSET_NEXT)\<rparr>))
            else Some p) of
        None \<Rightarrow> None
      | Some p \<Rightarrow>
          (case pEntry p of
             [] \<Rightarrow> Some (0, None, p, [])
           | v # es \<Rightarrow>
               (if es = [] then
                  (case sqlite3RowSetClear (p\<lparr>pEntry := es\<rparr>) of (p, freed) \<Rightarrow> Some (1, Some v, p, freed))
                else Some (1, Some v, p\<lparr>pEntry := es\<rparr>, []))))"

text \<open>The loop over the forest: the entries \<open>p\<close> go into the first free place, merged with the
  trees before it; \<open>Some p\<close> is left when there is none.\<close>

fun forest_insert :: "tree list \<Rightarrow> i64 list \<Rightarrow> tree list \<times> i64 list option" where
  "forest_insert [] p = ([], Some p)"
| "forest_insert (t # us) p =
     (if t = Leaf then (rowSetListToTree p # us, None)
      else (case forest_insert us (rowSetEntryMerge (rowSetTreeToList t) p) of (ts, rest) \<Rightarrow> (Leaf # ts, rest)))"

text \<open>The first part of sqlite3RowSetTest, when the batch number changes.\<close>

definition new_batch :: "nat option \<Rightarrow> RowSet \<Rightarrow> RowSet option" where
  "new_batch new p =
     (if pEntry p = [] then Some p
      else
        (case (if rsFlags p AND ROWSET_SORTED = 0 then rowSetEntrySort (pEntry p) else Some (pEntry p)) of
           None \<Rightarrow> None
         | Some es \<Rightarrow>
             (case forest_insert (pForest p) es of
                (ts, rest) \<Rightarrow>
                  Some ((case rest of
                     None \<Rightarrow> p\<lparr>pForest := ts\<rparr>
                   | Some es \<Rightarrow>
                       (case rowSetEntryAlloc new p of
                          None \<Rightarrow> p\<lparr>pForest := ts\<rparr>
                        | Some p \<Rightarrow> p\<lparr>pForest := ts @ [rowSetListToTree es]\<rparr>))
                   \<lparr>pEntry := [], pLast := None, rsFlags := rsFlags p OR ROWSET_SORTED\<rparr>))))"

fun tree_search :: "tree \<Rightarrow> i64 \<Rightarrow> bool" where
  "tree_search Leaf iRowid = False"
| "tree_search (Node l v r) iRowid =
     (if v < iRowid then tree_search r iRowid
      else if v > iRowid then tree_search l iRowid
      else True)"

definition sqlite3RowSetTest :: "nat option \<Rightarrow> int \<Rightarrow> i64 \<Rightarrow> RowSet \<Rightarrow> (bool \<times> RowSet) option" where
  "sqlite3RowSetTest new batch iRowid p =
     (case (if batch \<noteq> iBatch p then map_option (\<lambda>p. p\<lparr>iBatch := batch\<rparr>) (new_batch new p) else Some p) of
        None \<Rightarrow> None
      | Some p \<Rightarrow> Some (list_ex (\<lambda>t. tree_search t iRowid) (pForest p), p))"

end
