(* ===== verification/Rowset_Props.thy ===== *)
theory Rowset_Props
  imports Rowset
begin

text \<open>
  Correctness of the rowid set: the bucket merge sort, the balanced trees, the forest, and the
  two ways the set is used: tested by batches, or drained in order.
\<close>

section \<open>Merging and sorting\<close>

abbreviation ascending :: "i64 list \<Rightarrow> bool" where
  "ascending xs \<equiv> sorted_wrt (<) xs"

lemma set_Merge [simp]: "set (rowSetEntryMerge xs ys) = set xs \<union> set ys"
proof (induction xs ys rule: rowSetEntryMerge.induct)
  case (1 a pA b pB)
  consider "a < b" | "a = b" | "b < a" by linarith
  then show ?case
  proof cases
    case 1
    with "1.IH"(1) show ?thesis by (cases "pA = []") auto
  next
    case 2
    with "1.IH"(1) show ?thesis by (cases "pA = []") auto
  next
    case 3
    with "1.IH"(2) show ?thesis by (cases "pB = []") auto
  qed
qed simp_all

lemma Merge_Nil [simp]: "rowSetEntryMerge xs [] = xs"
  by (cases xs) auto

lemma Merge_empty [simp]: "rowSetEntryMerge xs ys = [] \<longleftrightarrow> xs = [] \<and> ys = []"
  by (induction xs ys rule: rowSetEntryMerge.induct) auto

lemma ascending_Merge: "ascending xs \<Longrightarrow> ascending ys \<Longrightarrow> ascending (rowSetEntryMerge xs ys)"
proof (induction xs ys rule: rowSetEntryMerge.induct)
  case (1 a pA b pB)
  consider "a < b" | "a = b" | "b < a" by linarith
  then show ?case
  proof cases
    case 1
    with "1.IH"(1) "1.prems" show ?thesis by (cases "pA = []") auto
  next
    case 2
    with "1.IH"(1) "1.prems" show ?thesis by (cases "pA = []") auto
  next
    case 3
    with "1.IH"(2) "1.prems" show ?thesis by (cases "pB = []") auto
  qed
qed simp_all

text \<open>The buckets are a binary counter of the entries sorted so far.\<close>

fun counter :: "i64 list list \<Rightarrow> nat" where
  "counter [] = 0"
| "counter (b # bs) = (if b = [] then 0 else 1) + 2 * counter bs"

definition buckets_ok :: "i64 list list \<Rightarrow> bool" where
  "buckets_ok bs \<longleftrightarrow> (\<forall>b \<in> set bs. ascending b)"

lemma bucket_insert_ok:
  assumes "buckets_ok bs" and "ascending p" and "p \<noteq> []" and "counter bs + 1 < 2 ^ length bs"
  shows "\<exists>bs'. bucket_insert bs p = Some bs' \<and> buckets_ok bs' \<and> counter bs' = counter bs + 1 \<and>
           length bs' = length bs \<and> \<Union> (set ` set bs') = \<Union> (set ` set bs) \<union> set p"
  using assms
proof (induction bs arbitrary: p)
  case (Cons b bs)
  show ?case
  proof (cases "b = []")
    case True
    with Cons.prems show ?thesis by (auto simp: buckets_ok_def)
  next
    case False
    have "buckets_ok bs" "ascending (rowSetEntryMerge b p)" "counter bs + 1 < 2 ^ length bs"
      using Cons.prems False by (auto simp: buckets_ok_def ascending_Merge)
    with Cons.IH [of "rowSetEntryMerge b p"] Cons.prems(3) obtain bs' where
      "bucket_insert bs (rowSetEntryMerge b p) = Some bs'" "buckets_ok bs'" "counter bs' = counter bs + 1"
      "length bs' = length bs" "\<Union> (set ` set bs') = \<Union> (set ` set bs) \<union> (set b \<union> set p)" by auto
    with False show ?thesis by (auto simp: buckets_ok_def)
  qed
qed simp

lemma sort_loop_ok:
  assumes "buckets_ok bs" and "counter bs + length xs < 2 ^ length bs"
  shows "\<exists>bs'. sort_loop bs xs = Some bs' \<and> buckets_ok bs' \<and> length bs' = length bs \<and>
           \<Union> (set ` set bs') = \<Union> (set ` set bs) \<union> set xs"
  using assms
proof (induction xs arbitrary: bs)
  case (Cons v xs)
  obtain bs' where b: "bucket_insert bs [v] = Some bs'" "buckets_ok bs'" "counter bs' = counter bs + 1"
    "length bs' = length bs" "\<Union> (set ` set bs') = \<Union> (set ` set bs) \<union> {v}"
    using bucket_insert_ok [OF Cons.prems(1), of "[v]"] Cons.prems(2) by auto
  with Cons.IH [OF b(2)] Cons.prems(2) show ?case by auto
qed auto

lemma merge_buckets_ok:
  "ascending p \<Longrightarrow> buckets_ok bs \<Longrightarrow>
     ascending (merge_buckets p bs) \<and> set (merge_buckets p bs) = set p \<union> \<Union> (set ` set bs)"
proof (induction bs arbitrary: p)
  case (Cons b bs)
  then show ?case by (auto simp: buckets_ok_def ascending_Merge)
qed simp

lemma Sort_correct:
  assumes "length xs < 2 ^ 40"
  shows "\<exists>ys. rowSetEntrySort xs = Some ys \<and> ascending ys \<and> set ys = set xs"
proof -
  have c: "counter (replicate n []) = 0" for n by (induction n) auto
  have "buckets_ok (replicate 40 [])" by (simp add: buckets_ok_def)
  with sort_loop_ok [of "replicate 40 []" xs] c assms obtain bs where
    bs: "sort_loop (replicate 40 []) xs = Some bs" "buckets_ok bs" "length bs = 40" "\<Union> (set ` set bs) = set xs"
    by auto
  then obtain b cs where "bs = b # cs" by (cases bs) auto
  with merge_buckets_ok [of b cs] bs show ?thesis by (auto simp: rowSetEntrySort_def buckets_ok_def)
qed

section \<open>Trees\<close>

lemma TreeToList_Node [simp]: "rowSetTreeToList (Node l v r) = rowSetTreeToList l @ v # rowSetTreeToList r"
  by (cases l; cases r) auto

declare rowSetTreeToList.simps(2) [simp del]

lemma NDeepTree_list: "rowSetTreeToList (fst (rowSetNDeepTree d xs)) @ snd (rowSetNDeepTree d xs) = xs"
proof (induction d xs rule: rowSetNDeepTree.induct)
  case (4 d v xs)
  then show ?case by (fastforce split: prod.splits list.splits)
qed auto

lemma list_to_tree_loop_list:
  "rowSetTreeToList (list_to_tree_loop p d xs) = rowSetTreeToList p @ xs"
proof (induction p d xs rule: list_to_tree_loop.induct)
  case (1 p d xs)
  show ?case
  proof (cases xs)
    case (Cons v ys)
    obtain r zs where r: "rowSetNDeepTree d ys = (r, zs)" by (cases "rowSetNDeepTree d ys")
    with NDeepTree_list [of d ys] 1 [OF Cons] Cons show ?thesis
      by (subst list_to_tree_loop.simps) auto
  qed (simp add: list_to_tree_loop.simps [of p d "[]"])
qed

lemma ListToTree_list: "xs \<noteq> [] \<Longrightarrow> rowSetTreeToList (rowSetListToTree xs) = xs"
  by (simp add: rowSetListToTree_def list_to_tree_loop_list)

lemma ListToTree_nonempty: "rowSetListToTree xs \<noteq> Leaf"
proof -
  have "p \<noteq> Leaf \<Longrightarrow> list_to_tree_loop p d xs \<noteq> Leaf" for p d xs
    by (induction p d xs rule: list_to_tree_loop.induct)
      (subst list_to_tree_loop.simps, auto split: list.splits prod.splits)
  then show ?thesis by (simp add: rowSetListToTree_def)
qed

lemma tree_search_correct: "ascending (rowSetTreeToList t) \<Longrightarrow> tree_search t x \<longleftrightarrow> x \<in> set (rowSetTreeToList t)"
  by (induction t) (auto simp: sorted_wrt_append)

text \<open>A tree of depth \<open>d\<close> is full unless the list ran out, so the trees are balanced.\<close>

fun height :: "tree \<Rightarrow> nat" where
  "height Leaf = 0"
| "height (Node l v r) = Suc (max (height l) (height r))"

lemma NDeepTree_height:
  "0 < d \<Longrightarrow> height (fst (rowSetNDeepTree d xs)) \<le> d \<and>
     (snd (rowSetNDeepTree d xs) \<noteq> [] \<longrightarrow> length (rowSetTreeToList (fst (rowSetNDeepTree d xs))) + 1 = 2 ^ d)"
proof (induction d xs rule: rowSetNDeepTree.induct)
  case (4 d v xs)
  show ?case
  proof (cases "rowSetNDeepTree (Suc d) (v # xs)")
    case (Pair l ys)
    show ?thesis
    proof (cases ys)
      case Nil
      with Pair 4(1) show ?thesis by simp
    next
      case (Cons w zs)
      obtain r us where r: "rowSetNDeepTree (Suc d) zs = (r, us)" by (cases "rowSetNDeepTree (Suc d) zs")
      with Pair Cons 4(1) 4(2) [of l ys w zs] show ?thesis by auto
    qed
  qed
qed auto

lemma list_to_tree_height:
  assumes "height p \<le> d" and "length (rowSetTreeToList p) + 1 = 2 ^ d" and "0 < d"
  shows "2 ^ (height (list_to_tree_loop p d xs) - 1) \<le> length (rowSetTreeToList p) + length xs"
  using assms
proof (induction p d xs rule: list_to_tree_loop.induct)
  case (1 p d xs)
  have base: "2 ^ (height p - 1) \<le> length (rowSetTreeToList p)"
  proof -
    have "(2::nat) ^ (height p - 1) \<le> 2 ^ (d - 1)" using 1(2) by (intro power_increasing) auto
    moreover have "(2::nat) ^ d = 2 * 2 ^ (d - 1)" using 1(4) by (cases d) auto
    moreover have "(1::nat) \<le> 2 ^ (d - 1)" by simp
    ultimately show ?thesis using 1(3) by linarith
  qed
  show ?case
  proof (cases xs)
    case Nil
    with base show ?thesis by (simp add: list_to_tree_loop.simps [of p d "[]"])
  next
    case (Cons v ys)
    obtain r zs where r: "rowSetNDeepTree d ys = (r, zs)" by (cases "rowSetNDeepTree d ys")
    have h: "height r \<le> d" "zs \<noteq> [] \<longrightarrow> length (rowSetTreeToList r) + 1 = 2 ^ d"
      using NDeepTree_height [OF 1(4), of ys] r by auto
    have len: "length ys = length (rowSetTreeToList r) + length zs"
      using NDeepTree_list [of d ys] r by (metis fst_conv length_append snd_conv)
    have st: "list_to_tree_loop p d xs = list_to_tree_loop (Node p v r) (d + 1) zs"
      using Cons r by (subst list_to_tree_loop.simps) simp
    show ?thesis
    proof (cases "zs = []")
      case True
      have "(2::nat) ^ (height (Node p v r) - 1) \<le> 2 ^ d" using h(1) 1(2) by (intro power_increasing) auto
      moreover have "(2::nat) ^ d \<le> length (rowSetTreeToList p) + length xs" using 1(3) Cons by simp
      ultimately have "2 ^ (height (Node p v r) - 1) \<le> length (rowSetTreeToList p) + length xs" by (rule order_trans)
      then show ?thesis using st True by (simp add: list_to_tree_loop.simps [of _ _ "[]"] del: height.simps)
    next
      case False
      have "2 ^ (height (list_to_tree_loop (Node p v r) (d + 1) zs) - 1) \<le> length (rowSetTreeToList (Node p v r)) + length zs"
        using h False 1(2,3) by (intro 1(1) [OF Cons r [symmetric]]) auto
      then show ?thesis using st Cons len by simp
    qed
  qed
qed

section \<open>The forest\<close>

definition forest_set :: "tree list \<Rightarrow> i64 set" where
  "forest_set ts = (\<Union>t \<in> set ts. set (rowSetTreeToList t))"

definition forest_ok :: "tree list \<Rightarrow> bool" where
  "forest_ok ts \<longleftrightarrow> (\<forall>t \<in> set ts. ascending (rowSetTreeToList t))"

lemma forest_simps [simp]:
  "forest_set [] = {}" "forest_set (t # ts) = set (rowSetTreeToList t) \<union> forest_set ts"
  "forest_set (ts @ us) = forest_set ts \<union> forest_set us"
  "forest_ok []" "forest_ok (t # ts) \<longleftrightarrow> ascending (rowSetTreeToList t) \<and> forest_ok ts"
  "forest_ok (ts @ us) \<longleftrightarrow> forest_ok ts \<and> forest_ok us"
  by (auto simp: forest_set_def forest_ok_def)

lemma forest_search: "forest_ok ts \<Longrightarrow> list_ex (\<lambda>t. tree_search t x) ts \<longleftrightarrow> x \<in> forest_set ts"
  by (induction ts) (auto simp: tree_search_correct)

lemma forest_insert_ok:
  assumes "forest_ok ts" and "ascending p" and "p \<noteq> []" and "forest_insert ts p = (us, rest)"
  shows "forest_ok us \<and>
    (case rest of None \<Rightarrow> forest_set us = forest_set ts \<union> set p
     | Some q \<Rightarrow> ascending q \<and> q \<noteq> [] \<and> forest_set us \<union> set q = forest_set ts \<union> set p)"
  using assms
proof (induction ts arbitrary: p us rest)
  case (Cons t ts)
  show ?case
  proof (cases "t = Leaf")
    case True
    with Cons.prems show ?thesis by (auto simp: ListToTree_list)
  next
    case False
    let ?q = "rowSetEntryMerge (rowSetTreeToList t) p"
    obtain vs r where v: "forest_insert ts ?q = (vs, r)" by (cases "forest_insert ts ?q")
    have q: "ascending ?q" "?q \<noteq> []" "forest_ok ts" using Cons.prems by (auto simp: ascending_Merge)
    have u: "us = Leaf # vs" "rest = r" using v False Cons.prems(4) by auto
    note IH = Cons.IH [OF q(3,1,2) v]
    have s: "forest_set us = forest_set vs" "forest_ok us = forest_ok vs" unfolding u by simp_all
    have e: "forest_set ts \<union> set ?q = forest_set (t # ts) \<union> set p" by auto
    show ?thesis
    proof (cases r)
      case None
      then show ?thesis using IH unfolding s e u(2) by simp
    next
      case (Some x)
      then show ?thesis using IH unfolding s e u(2) by simp
    qed
  qed
qed auto

section \<open>The set\<close>

lemma flags_nonzero [simp]: "ROWSET_SORTED \<noteq> 0" "ROWSET_NEXT \<noteq> 0"
  by (simp_all add: ROWSET_SORTED_def ROWSET_NEXT_def)

lemma flags [simp]:
  "(f AND NOT ROWSET_SORTED) AND ROWSET_NEXT = f AND ROWSET_NEXT" "(f AND NOT ROWSET_SORTED) AND ROWSET_SORTED = 0"
  "(f OR ROWSET_SORTED) AND ROWSET_NEXT = f AND ROWSET_NEXT" "(f OR ROWSET_SORTED) AND ROWSET_SORTED \<noteq> 0"
  "(f OR (ROWSET_SORTED OR ROWSET_NEXT)) AND ROWSET_NEXT \<noteq> 0"
  "ROWSET_SORTED AND ROWSET_SORTED \<noteq> 0" "ROWSET_SORTED AND ROWSET_NEXT = 0"
proof -
  have n: "ROWSET_SORTED AND ROWSET_NEXT = 0" by (simp add: ROWSET_SORTED_def ROWSET_NEXT_def)
  then show "ROWSET_SORTED AND ROWSET_NEXT = 0" .
  show "ROWSET_SORTED AND ROWSET_SORTED \<noteq> 0" by (simp add: ROWSET_SORTED_def)
  show "(f AND NOT ROWSET_SORTED) AND ROWSET_NEXT = f AND ROWSET_NEXT"
    by (simp add: and.assoc ROWSET_SORTED_def ROWSET_NEXT_def)
  show "(f AND NOT ROWSET_SORTED) AND ROWSET_SORTED = 0" by (simp add: and.assoc)
  show "(f OR ROWSET_SORTED) AND ROWSET_NEXT = f AND ROWSET_NEXT"
    using n by (simp add: bit.conj_disj_distrib2)
  have a: "ROWSET_SORTED = ROWSET_SORTED AND ((f OR ROWSET_SORTED) AND ROWSET_SORTED)"
    by (rule bit_word_eqI) (auto simp: bit_simps)
  then show "(f OR ROWSET_SORTED) AND ROWSET_SORTED \<noteq> 0"
    by (metis and_zero_eq flags_nonzero(1))
  have "ROWSET_NEXT = ROWSET_NEXT AND ((f OR (ROWSET_SORTED OR ROWSET_NEXT)) AND ROWSET_NEXT)"
    by (rule bit_word_eqI) (auto simp: bit_simps)
  then show "(f OR (ROWSET_SORTED OR ROWSET_NEXT)) AND ROWSET_NEXT \<noteq> 0"
    by (metis and_zero_eq flags_nonzero(2))
qed

definition rowset_inv :: "nat \<Rightarrow> RowSet \<Rightarrow> bool" where
  "rowset_inv n p \<longleftrightarrow>
     rsFlags p AND ROWSET_NEXT = 0 \<and> pLast p = (if pEntry p = [] then None else Some (last (pEntry p))) \<and>
     (rsFlags p AND ROWSET_SORTED \<noteq> 0 \<longrightarrow> ascending (pEntry p)) \<and> forest_ok (pForest p) \<and> length (pEntry p) \<le> n"

definition rowset_seen :: "RowSet \<Rightarrow> i64 set" where
  "rowset_seen p = forest_set (pForest p)"

definition rowset_pending :: "RowSet \<Rightarrow> i64 set" where
  "rowset_pending p = set (pEntry p)"

lemma EntryAlloc_frame:
  assumes "rowSetEntryAlloc (Some a) p = q"
  shows "\<exists>r. q = Some r \<and> pEntry r = pEntry p \<and> pLast r = pLast p \<and> pForest r = pForest p \<and> rsFlags r = rsFlags p \<and>
    iBatch r = iBatch p"
  using assms by (auto simp: rowSetEntryAlloc_def)

lemma ascending_snoc: "ascending xs \<Longrightarrow> (xs \<noteq> [] \<Longrightarrow> last xs < x) \<Longrightarrow> ascending (xs @ [x])"
  by (cases xs rule: rev_cases) (auto simp: sorted_wrt_append)

lemma Insert_ok:
  assumes I: "rowset_inv n p"
  shows "rowset_inv (Suc n) (sqlite3RowSetInsert (Some a) v p)"
    "rowset_seen (sqlite3RowSetInsert (Some a) v p) = rowset_seen p"
    "rowset_pending (sqlite3RowSetInsert (Some a) v p) = insert v (rowset_pending p)"
    "iBatch (sqlite3RowSetInsert (Some a) v p) = iBatch p"
    "pEntry (sqlite3RowSetInsert (Some a) v p) = pEntry p @ [v]"
proof -
  obtain q where q: "rowSetEntryAlloc (Some a) p = Some q" "pEntry q = pEntry p" "pLast q = pLast p" "pForest q = pForest p"
    "rsFlags q = rsFlags p" "iBatch q = iBatch p" using EntryAlloc_frame by blast
  note d = sqlite3RowSetInsert_def rowset_inv_def rowset_seen_def rowset_pending_def
  show "rowset_inv (Suc n) (sqlite3RowSetInsert (Some a) v p)"
    using I q ascending_snoc [of "pEntry p" v] by (auto simp: d not_le split: option.splits if_splits)
  show "rowset_seen (sqlite3RowSetInsert (Some a) v p) = rowset_seen p" using q by (auto simp: d split: option.splits)
  show "iBatch (sqlite3RowSetInsert (Some a) v p) = iBatch p" using q by (auto simp: d split: option.splits)
  show "pEntry (sqlite3RowSetInsert (Some a) v p) = pEntry p @ [v]"
    using I q by (auto simp: d split: option.splits if_splits)
  then show "rowset_pending (sqlite3RowSetInsert (Some a) v p) = insert v (rowset_pending p)" by (simp add: d)
qed

text \<open>The entries in order, sorted or not.\<close>

lemma sorted_entries:
  assumes "rowset_inv n p" and "n < 2 ^ 40"
  obtains es where "(if rsFlags p AND ROWSET_SORTED = 0 then rowSetEntrySort (pEntry p) else Some (pEntry p)) = Some es"
    "ascending es" "set es = set (pEntry p)"
proof (cases "rsFlags p AND ROWSET_SORTED = 0")
  case True
  have "length (pEntry p) < 2 ^ 40" using assms by (auto simp: rowset_inv_def)
  from Sort_correct [OF this] obtain ys where "rowSetEntrySort (pEntry p) = Some ys" "ascending ys" "set ys = set (pEntry p)"
    by blast
  with True that show ?thesis by simp
next
  case False
  with assms(1) that show ?thesis by (simp add: rowset_inv_def)
qed

lemma new_batch_ok:
  assumes I: "rowset_inv n p" and n: "n < 2 ^ 40"
  shows "\<exists>q. new_batch (Some a) p = Some q \<and> rowset_inv n q \<and> rowset_seen q = rowset_seen p \<union> rowset_pending p \<and>
    rowset_pending q = {}"
proof (cases "pEntry p = []")
  case True
  with I show ?thesis by (auto simp: new_batch_def rowset_pending_def)
next
  case False
  obtain es where es: "(if rsFlags p AND ROWSET_SORTED = 0 then rowSetEntrySort (pEntry p) else Some (pEntry p)) = Some es"
    "ascending es" "set es = set (pEntry p)" by (rule sorted_entries [OF I n])
  obtain ts rest where f: "forest_insert (pForest p) es = (ts, rest)" by (cases "forest_insert (pForest p) es")
  have "es \<noteq> []" "forest_ok (pForest p)" using es(3) False I by (auto simp: rowset_inv_def)
  note F = forest_insert_ok [OF this(2) es(2) this(1) f]
  show ?thesis
  proof (cases rest)
    case None
    with F f es False I show ?thesis
      by (auto simp: new_batch_def rowset_inv_def rowset_seen_def rowset_pending_def)
  next
    case (Some zs)
    obtain q where q: "rowSetEntryAlloc (Some a) p = Some q" "pForest q = pForest p" "rsFlags q = rsFlags p"
      using EntryAlloc_frame by blast
    with Some F f es False I show ?thesis
      by (auto simp: new_batch_def rowset_inv_def rowset_seen_def rowset_pending_def ListToTree_list)
  qed
qed

lemma Test_ok:
  assumes I: "rowset_inv n p" and n: "n < 2 ^ 40"
    and V_def: "V = (if b = iBatch p then rowset_seen p else rowset_seen p \<union> rowset_pending p)"
  shows "\<exists>q. sqlite3RowSetTest (Some a) b r p = Some (r \<in> V, q) \<and> rowset_inv n q \<and> rowset_seen q = V \<and>
    rowset_pending q = (if b = iBatch p then rowset_pending p else {}) \<and> iBatch q = b"
proof (cases "b = iBatch p")
  case True
  with I show ?thesis
    by (auto simp: sqlite3RowSetTest_def V_def rowset_seen_def rowset_inv_def forest_search)
next
  case False
  obtain q where q: "new_batch (Some a) p = Some q" "rowset_inv n q" "rowset_seen q = rowset_seen p \<union> rowset_pending p"
    "rowset_pending q = {}" using new_batch_ok [OF I n] by blast
  let ?q = "q\<lparr>iBatch := b\<rparr>"
  have "rowset_inv n ?q" "rowset_seen ?q = rowset_seen q" "rowset_pending ?q = rowset_pending q"
    using q(2) by (simp_all add: rowset_inv_def rowset_seen_def rowset_pending_def)
  moreover have "list_ex (\<lambda>t. tree_search t r) (pForest q) \<longleftrightarrow> r \<in> rowset_seen q"
    using q(2) by (simp add: rowset_inv_def rowset_seen_def forest_search)
  ultimately show ?thesis using False q by (simp add: sqlite3RowSetTest_def V_def)
qed

section \<open>Sets tested by batches\<close>

datatype rs_op = Insert nat i64 | Test nat int i64

text \<open>The answers of a sequence of operations; the first argument of each is the address malloc
  gives if the operation needs memory.\<close>

fun answers :: "(nat \<Rightarrow> i64 \<Rightarrow> 's \<Rightarrow> 's) \<Rightarrow> (nat \<Rightarrow> int \<Rightarrow> i64 \<Rightarrow> 's \<Rightarrow> (bool \<times> 's) option) \<Rightarrow> rs_op list \<Rightarrow> 's \<Rightarrow> bool list option" where
  "answers ins tst [] s = Some []"
| "answers ins tst (Insert a v # ops) s = answers ins tst ops (ins a v s)"
| "answers ins tst (Test a b r # ops) s =
     (case tst a b r s of None \<Rightarrow> None | Some (x, s') \<Rightarrow> map_option (\<lambda>xs. x # xs) (answers ins tst ops s'))"

text \<open>The specification: a test sees the rowids inserted before the last change of the batch number.\<close>

fun expected :: "i64 set \<Rightarrow> i64 set \<Rightarrow> int \<Rightarrow> rs_op list \<Rightarrow> bool list" where
  "expected V E b [] = []"
| "expected V E b (Insert a v # ops) = expected V (insert v E) b ops"
| "expected V E b (Test a c r # ops) =
     (if c = b then (r \<in> V) # expected V E b ops else (r \<in> V \<union> E) # expected (V \<union> E) {} c ops)"

text \<open>The contract of such a set, of room for \<open>bound\<close> insertions.\<close>

locale batched_set =
  fixes inv :: "nat \<Rightarrow> 's \<Rightarrow> bool" and seen pending :: "'s \<Rightarrow> i64 set" and batch :: "'s \<Rightarrow> int"
    and ins :: "nat \<Rightarrow> i64 \<Rightarrow> 's \<Rightarrow> 's" and tst :: "nat \<Rightarrow> int \<Rightarrow> i64 \<Rightarrow> 's \<Rightarrow> (bool \<times> 's) option" and bound :: nat
  assumes ins_inv: "inv n s \<Longrightarrow> inv (Suc n) (ins a v s)"
    and ins_seen: "inv n s \<Longrightarrow> seen (ins a v s) = seen s"
    and ins_pending: "inv n s \<Longrightarrow> pending (ins a v s) = insert v (pending s)"
    and ins_batch: "inv n s \<Longrightarrow> batch (ins a v s) = batch s"
    and tst_same: "inv n s \<Longrightarrow> n < bound \<Longrightarrow>
      \<exists>s'. tst a (batch s) r s = Some (r \<in> seen s, s') \<and> inv n s' \<and> seen s' = seen s \<and> pending s' = pending s \<and> batch s' = batch s"
    and tst_new: "inv n s \<Longrightarrow> n < bound \<Longrightarrow> b \<noteq> batch s \<Longrightarrow>
      \<exists>s'. tst a b r s = Some (r \<in> seen s \<union> pending s, s') \<and> inv n s' \<and> seen s' = seen s \<union> pending s \<and>
           pending s' = {} \<and> batch s' = b"
begin

lemma answers_expected:
  "inv n s \<Longrightarrow> n + length ops < bound \<Longrightarrow> answers ins tst ops s = Some (expected (seen s) (pending s) (batch s) ops)"
proof (induction ops arbitrary: n s)
  case (Cons oper ops)
  show ?case
  proof (cases oper)
    case (Insert a v)
    with Cons.IH [OF ins_inv [OF Cons.prems(1)]] Cons.prems show ?thesis
      by (simp add: ins_seen [OF Cons.prems(1)] ins_pending [OF Cons.prems(1)] ins_batch [OF Cons.prems(1)])
  next
    case (Test a b r)
    have n: "n < bound" "n + length ops < bound" using Cons.prems(2) by simp_all
    show ?thesis
    proof (cases "b = batch s")
      case True
      obtain s' where "tst a (batch s) r s = Some (r \<in> seen s, s')" "inv n s'" "seen s' = seen s" "pending s' = pending s"
        "batch s' = batch s" using tst_same [OF Cons.prems(1) n(1)] by blast
      with True Test Cons.IH [of n s'] n show ?thesis by simp
    next
      case False
      obtain s' where "tst a b r s = Some (r \<in> seen s \<union> pending s, s')" "inv n s'" "seen s' = seen s \<union> pending s"
        "pending s' = {}" "batch s' = b" using tst_new [OF Cons.prems(1) n(1) False] by blast
      with False Test Cons.IH [of n s'] n show ?thesis by simp
    qed
  qed
qed simp

end

interpretation rowset: batched_set rowset_inv rowset_seen rowset_pending iBatch
  "\<lambda>a. sqlite3RowSetInsert (Some a)" "\<lambda>a. sqlite3RowSetTest (Some a)" "2 ^ 40"
proof
  show "rowset_inv n s \<Longrightarrow> n < 2 ^ 40 \<Longrightarrow> \<exists>s'. sqlite3RowSetTest (Some a) (iBatch s) r s = Some (r \<in> rowset_seen s, s') \<and>
      rowset_inv n s' \<and> rowset_seen s' = rowset_seen s \<and> rowset_pending s' = rowset_pending s \<and> iBatch s' = iBatch s" for n s a r
    using Test_ok [of n s _ "iBatch s" a r] by simp
  show "rowset_inv n s \<Longrightarrow> n < 2 ^ 40 \<Longrightarrow> b \<noteq> iBatch s \<Longrightarrow>
      \<exists>s'. sqlite3RowSetTest (Some a) b r s = Some (r \<in> rowset_seen s \<union> rowset_pending s, s') \<and> rowset_inv n s' \<and>
      rowset_seen s' = rowset_seen s \<union> rowset_pending s \<and> rowset_pending s' = {} \<and> iBatch s' = b" for n s b a r
    using Test_ok [of n s _ b a r] by simp
qed (simp_all add: Insert_ok)

lemma Init_inv:
  assumes "sqlite3RowSetInit True N = Some p"
  shows "rowset_inv 0 p" "rowset_seen p = {}" "rowset_pending p = {}" "iBatch p = 0" "pEntry p = []" "pChunk p = []"
  using assms by (auto simp: sqlite3RowSetInit_def rowset_inv_def rowset_seen_def rowset_pending_def)

text \<open>
  C15: over any sequence of fewer than 2^40 insertions and tests, with memory for each, a test
  answers whether its rowid was inserted before the last change of the batch number.
\<close>
theorem RowSetTest_history:
  assumes "sqlite3RowSetInit True N = Some p" and "length ops < 2 ^ 40"
  shows "answers (\<lambda>a. sqlite3RowSetInsert (Some a)) (\<lambda>a. sqlite3RowSetTest (Some a)) ops p = Some (expected {} {} 0 ops)"
  using rowset.answers_expected [OF Init_inv(1) [OF assms(1)], of ops] assms(2) Init_inv [OF assms(1)] by simp

theorem RowSetTest_history_witness:
  "\<exists>p. sqlite3RowSetInit True 128 = Some p \<and>
     answers (\<lambda>a. sqlite3RowSetInsert (Some a)) (\<lambda>a. sqlite3RowSetTest (Some a))
       [Insert 8 5, Insert 8 3, Insert 8 5, Test 8 1 3, Insert 8 4, Test 8 1 4, Test 8 2 4] p = Some [True, False, True]"
proof -
  obtain p where p: "sqlite3RowSetInit True 128 = Some p" by (simp add: sqlite3RowSetInit_def)
  with RowSetTest_history [OF p, of "[Insert 8 5, Insert 8 3, Insert 8 5, Test 8 1 3, Insert 8 4, Test 8 1 4, Test 8 2 4]"]
  show ?thesis by simp
qed

section \<open>Draining the set in order\<close>

text \<open>sqlite3RowSetNext until it answers 0: the rowids and the chunks freed.\<close>

fun drain :: "nat \<Rightarrow> RowSet \<Rightarrow> (i64 list \<times> nat list) option" where
  "drain 0 p = None"
| "drain (Suc n) p =
     (case sqlite3RowSetNext p of
        None \<Rightarrow> None
      | Some (rc, v, p, freed) \<Rightarrow>
          if rc = 0 then Some ([], freed)
          else map_option (\<lambda>(vs, fs). (the v # vs, freed @ fs)) (drain n p))"

lemma drain_started:
  assumes "rsFlags p AND ROWSET_NEXT \<noteq> 0" and "length (pEntry p) < n"
  shows "drain n p = Some (pEntry p, if pEntry p = [] then [] else pChunk p)"
  using assms
proof (induction n arbitrary: p)
  case (Suc n)
  show ?case
  proof (cases "pEntry p")
    case Nil
    with Suc.prems show ?thesis by (simp add: sqlite3RowSetNext_def)
  next
    case (Cons v es)
    show ?thesis
    proof (cases "es = []")
      case True
      have "\<exists>m. n = Suc m" using Suc.prems(2) Cons by (cases n) auto
      with True Cons Suc.prems(1) show ?thesis
        by (auto simp: sqlite3RowSetNext_def sqlite3RowSetClear_def)
    next
      case False
      with Cons Suc.prems Suc.IH [of "p\<lparr>pEntry := es\<rparr>"] show ?thesis by (simp add: sqlite3RowSetNext_def)
    qed
  qed
qed simp

lemma drain_sorted:
  assumes I: "rowset_inv n p" and n: "n < 2 ^ 40" and m: "length (pEntry p) < m"
  shows "drain m p = Some (sorted_list_of_set (set (pEntry p)), if pEntry p = [] then [] else pChunk p)"
proof -
  obtain es where es: "(if rsFlags p AND ROWSET_SORTED = 0 then rowSetEntrySort (pEntry p) else Some (pEntry p)) = Some es"
    "ascending es" "set es = set (pEntry p)" by (rule sorted_entries [OF I n])
  let ?q = "p\<lparr>pEntry := es, rsFlags := rsFlags p OR (ROWSET_SORTED OR ROWSET_NEXT)\<rparr>"
  have eq: "es = sorted_list_of_set (set (pEntry p))"
    using es(2,3) by (metis sorted_list_of_set.idem_if_sorted_distinct strict_sorted_iff)
  have len: "length es \<le> length (pEntry p)" using es(2,3)
    by (metis card_length distinct_card strict_sorted_iff)
  have "sqlite3RowSetNext p = sqlite3RowSetNext ?q" using I es(1) by (simp add: sqlite3RowSetNext_def rowset_inv_def)
  then have "drain m p = drain m ?q" by (cases m) simp_all
  also have "\<dots> = Some (es, if es = [] then [] else pChunk p)" using drain_started [of ?q m] len m by simp
  finally show ?thesis using eq es(3) by auto
qed

definition insert_all :: "(nat \<times> i64) list \<Rightarrow> RowSet \<Rightarrow> RowSet" where
  "insert_all avs p = fold (\<lambda>(a, v). sqlite3RowSetInsert (Some a) v) avs p"

lemma insert_all_ok:
  "rowset_inv n p \<Longrightarrow> rowset_inv (n + length avs) (insert_all avs p) \<and> pEntry (insert_all avs p) = pEntry p @ map snd avs"
proof (induction avs arbitrary: n p)
  case (Cons av avs)
  obtain a v where "av = (a, v)" by (cases av)
  with Cons.IH [OF Insert_ok(1) [OF Cons.prems, of a v]] Insert_ok(5) [OF Cons.prems, of a v] show ?case
    by (simp add: insert_all_def)
qed (simp add: insert_all_def)

text \<open>
  sqlite3RowSetNext enumerates the rowids inserted, in ascending order and without
  duplicates, then answers 0; with the last rowid it frees every chunk the set had allocated.
\<close>
theorem RowSetNext_drains:
  assumes "sqlite3RowSetInit True N = Some p" and "length avs < 2 ^ 40"
  shows "drain (length avs + 1) (insert_all avs p) =
    Some (sorted_list_of_set (set (map snd avs)), if avs = [] then [] else pChunk (insert_all avs p))"
proof -
  have I: "rowset_inv (length avs) (insert_all avs p)" "pEntry (insert_all avs p) = map snd avs"
    using insert_all_ok [OF Init_inv(1) [OF assms(1)], of avs] Init_inv(5) [OF assms(1)] by simp_all
  then show ?thesis using drain_sorted [OF I(1) assms(2), of "length avs + 1"] by simp
qed

theorem RowSetNext_drains_witness:
  "\<exists>p. sqlite3RowSetInit True 56 = Some p \<and> drain 4 (insert_all [(8, 5), (9, 3), (10, 5)] p) = Some ([3, 5], [8])"
proof -
  obtain p where p: "sqlite3RowSetInit True 56 = Some p" by (simp add: sqlite3RowSetInit_def)
  moreover have "sorted_list_of_set {5, 3 :: int} = [3, 5]"
    using sorted_list_of_set.idem_if_sorted_distinct [of "[3, 5 :: int]"] by (simp add: insert_commute)
  moreover have "pChunk (insert_all [(8, 5), (9, 3), (10, 5)] p) = [8]"
    using p by (auto simp: insert_all_def sqlite3RowSetInit_def sqlite3RowSetInsert_def rowSetEntryAlloc_def
        ROWSET_ENTRY_PER_CHUNK_def)
  moreover have "drain (length [(8 :: nat, 5 :: int), (9, 3), (10, 5)] + 1) (insert_all [(8, 5), (9, 3), (10, 5)] p) =
      Some (sorted_list_of_set (set (map snd [(8 :: nat, 5 :: int), (9, 3), (10, 5)])),
        if [(8 :: nat, 5 :: int), (9, 3), (10, 5)] = [] then [] else pChunk (insert_all [(8, 5), (9, 3), (10, 5)] p))"
    by (rule RowSetNext_drains [OF p]) simp
  moreover have "length [(8 :: nat, 5 :: int), (9, 3), (10, 5)] + 1 = 4"
    "set (map snd [(8 :: nat, 5 :: int), (9, 3), (10, 5)]) = {5, 3}" by auto
  ultimately show ?thesis by (simp only: list.distinct if_False) blast
qed

text \<open>
  The trees rowSetListToTree builds are balanced: one of height h holds at least 2^(h-1)
  rowids. So rowSetTreeToList and rowSetNDeepTree never recurse deeper than 64 levels.
\<close>
theorem ListToTree_balanced:
  assumes "xs \<noteq> []"
  shows "rowSetTreeToList (rowSetListToTree xs) = xs \<and> 2 ^ (height (rowSetListToTree xs) - 1) \<le> length xs"
proof -
  have "2 ^ (height (list_to_tree_loop (Node Leaf (hd xs) Leaf) 1 (tl xs)) - 1) \<le>
      length (rowSetTreeToList (Node Leaf (hd xs) Leaf)) + length (tl xs)"
    by (rule list_to_tree_height) simp_all
  moreover have "Suc (length (tl xs)) = length xs" using assms by (cases xs) simp_all
  ultimately show ?thesis using ListToTree_list [OF assms] by (simp add: rowSetListToTree_def)
qed

theorem ListToTree_balanced_witness:
  "rowSetTreeToList (rowSetListToTree [1, 2, 3, 4, 5]) = [1, 2, 3, 4, 5] \<and>
   (2 :: nat) ^ (height (rowSetListToTree [1, 2, 3, 4, 5]) - 1) \<le> 5"
  using ListToTree_balanced [of "[1, 2, 3, 4, 5]"] by simp

end
