(* ===== verification/Bitvec.thy ===== *)
theory Bitvec
  imports Prelude
begin

text \<open>
  The bitmaps of bitvec.c (in sqlite3.c), over the 512 bytes of a 64-bit build: bitmap, hash
  table and tree of sub-bitmaps. The union of the structure is
  a datatype, one constructor per reading; zeroed memory is written in the reading the code
  uses next. \<open>oom\<close> says which of the calls to malloc fail, a counter runs with it. A probe that
  finds no free slot and a recursion that exceeds its fuel give \<open>None\<close>: the C code would not
  return.
\<close>

section \<open>Data\<close>

definition BITVEC_SZ :: nat where "BITVEC_SZ = 512"
definition BITVEC_USIZE :: nat where "BITVEC_USIZE = ((BITVEC_SZ - 3 * 4) div 8) * 8"
definition BITVEC_SZELEM :: nat where "BITVEC_SZELEM = 8"
definition BITVEC_NELEM :: nat where "BITVEC_NELEM = BITVEC_USIZE"
definition BITVEC_NBIT :: nat where "BITVEC_NBIT = BITVEC_NELEM * BITVEC_SZELEM"
definition BITVEC_NINT :: nat where "BITVEC_NINT = BITVEC_USIZE div 4"
definition BITVEC_MXHASH :: nat where "BITVEC_MXHASH = BITVEC_NINT div 2"
definition BITVEC_NPTR :: nat where "BITVEC_NPTR = BITVEC_USIZE div 8"

lemma bitvec_sizes [simp]:
  "BITVEC_NELEM = 496" "BITVEC_NBIT = 3968" "BITVEC_NINT = 124" "BITVEC_MXHASH = 62" "BITVEC_NPTR = 62" "BITVEC_SZELEM = 8"
  by (simp_all add: BITVEC_SZ_def BITVEC_USIZE_def BITVEC_SZELEM_def BITVEC_NELEM_def BITVEC_NBIT_def
      BITVEC_NINT_def BITVEC_MXHASH_def BITVEC_NPTR_def)

definition BITVEC_HASH :: "u32 \<Rightarrow> nat" where
  "BITVEC_HASH x = unat x mod BITVEC_NINT"

datatype Bitvec = Bitvec (iSize: u32) (nSet: u32) (iDivisor: u32) (u: bitvec_union)
and bitvec_union = ABitmap "byte list" | AHash "u32 list" | ApSub "Bitvec option list"

definition zero_hash :: "u32 list" where
  "zero_hash = replicate BITVEC_NINT 0"

text \<open>sqlite3BitvecCreate when malloc succeeds.\<close>

definition sqlite3BitvecCreate :: "u32 \<Rightarrow> Bitvec" where
  "sqlite3BitvecCreate sz =
     Bitvec sz 0 0 (if unat sz \<le> BITVEC_NBIT then ABitmap (replicate BITVEC_NELEM 0) else AHash zero_hash)"

text \<open>The first slot, from \<open>h\<close> on and around, that is free or holds \<open>i\<close>.\<close>

fun hash_probe :: "nat \<Rightarrow> u32 list \<Rightarrow> u32 \<Rightarrow> nat \<Rightarrow> nat option" where
  "hash_probe 0 aHash i h = None"
| "hash_probe (Suc n) aHash i h =
     (if aHash ! h = 0 \<or> aHash ! h = i then Some h else hash_probe n aHash i ((h + 1) mod BITVEC_NINT))"

section \<open>Testing a bit\<close>

lemma sub_size: "k < length subs \<Longrightarrow> subs ! k = Some p \<Longrightarrow> size p < size (ApSub subs)"
proof -
  assume "k < length subs" "subs ! k = Some p"
  then have "Some p \<in> set subs" by (metis nth_mem)
  then have "size_option size (Some p) \<le> size_list (size_option size) subs"
    by (rule size_list_estimation') simp
  then show ?thesis by simp
qed

text \<open>The walk down and the test of bit \<open>i\<close>, counted from 0.\<close>

function bitvec_lookup :: "Bitvec \<Rightarrow> u32 \<Rightarrow> bool option" where
  "bitvec_lookup (Bitvec sz n d un) i =
     (if d \<noteq> 0 then
        (case un of
           ApSub subs \<Rightarrow>
             (if unat (i div d) < length subs then
                (case subs ! unat (i div d) of None \<Rightarrow> Some False | Some p \<Rightarrow> bitvec_lookup p (i mod d))
              else None)
         | _ \<Rightarrow> None)
      else
        (case un of
           ABitmap aBitmap \<Rightarrow> Some (aBitmap ! (unat i div BITVEC_SZELEM) AND push_bit (unat (i AND 7)) 1 \<noteq> 0)
         | AHash aHash \<Rightarrow> map_option (\<lambda>h. aHash ! h \<noteq> 0) (hash_probe BITVEC_NINT aHash (i + 1) (BITVEC_HASH i))
         | ApSub _ \<Rightarrow> None))"
  by pat_completeness auto
termination
  by (relation "measure (\<lambda>(p, i). size p)") (auto dest: sub_size)

definition sqlite3BitvecTestNotNull :: "Bitvec \<Rightarrow> u32 \<Rightarrow> bool option" where
  "sqlite3BitvecTestNotNull p i =
     (if i - 1 \<ge> iSize p then Some False else bitvec_lookup p (i - 1))"

definition sqlite3BitvecTest :: "Bitvec option \<Rightarrow> u32 \<Rightarrow> bool option" where
  "sqlite3BitvecTest p i = (case p of None \<Rightarrow> Some False | Some p \<Rightarrow> sqlite3BitvecTestNotNull p i)"

section \<open>Setting and clearing\<close>

type_synonym set_result = "(int \<times> Bitvec \<times> nat) option"

text \<open>The code after the walk, for a hash table: \<open>rehash\<close> is what it does when the table is too full.\<close>

definition hash_set :: "u32 \<Rightarrow> u32 \<Rightarrow> u32 list \<Rightarrow> u32 \<Rightarrow> nat \<Rightarrow> (unit \<Rightarrow> set_result) \<Rightarrow> set_result" where
  "hash_set sz n aHash i cnt rehash =
     (let h = BITVEC_HASH i;
          set_end = (\<lambda>h. Some (SQLITE_OK, Bitvec sz (n + 1) 0 (AHash (aHash[h := i + 1])), cnt))
      in if aHash ! h = 0 then
           (if unat n < BITVEC_NINT - 1 then set_end h
            else if unat n \<ge> BITVEC_MXHASH then rehash () else set_end h)
         else
           (case hash_probe BITVEC_NINT aHash (i + 1) h of
              None \<Rightarrow> None
            | Some h \<Rightarrow>
                if aHash ! h = i + 1 then Some (SQLITE_OK, Bitvec sz n 0 (AHash aHash), cnt)
                else if unat n \<ge> BITVEC_MXHASH then rehash () else set_end h))"

text \<open>
  The divisor of a table that is split. \<open>BITVEC_NPTR\<close> is a quotient of sizes, of the 64 bits of
  size_t, so the sum is taken in 64 bits; the quotient is stored in 32.
\<close>

definition split_divisor :: "u32 \<Rightarrow> u32" where
  "split_divisor sz = ucast ((ucast sz + of_nat BITVEC_NPTR - 1 :: 64 word) div of_nat BITVEC_NPTR)"

text \<open>The loop that puts the old values back; the result codes are or-ed.\<close>

fun reinsert :: "(nat \<Rightarrow> Bitvec \<Rightarrow> u32 \<Rightarrow> set_result) \<Rightarrow> u32 list \<Rightarrow> int \<times> Bitvec \<times> nat \<Rightarrow> set_result" where
  "reinsert st [] r = Some r"
| "reinsert st (v # aiValues) (rc, p, cnt) =
     (if v = 0 then reinsert st aiValues (rc, p, cnt)
      else (case st cnt p v of
              None \<Rightarrow> None
            | Some (rc', p, cnt) \<Rightarrow> reinsert st aiValues (rc OR rc', p, cnt)))"

fun sqlite3BitvecSet :: "nat \<Rightarrow> (nat \<Rightarrow> bool) \<Rightarrow> nat \<Rightarrow> Bitvec \<Rightarrow> u32 \<Rightarrow> set_result" where
  "sqlite3BitvecSet 0 oom cnt p i = None"
| "sqlite3BitvecSet (Suc fuel) oom cnt (Bitvec sz n d un) i =
     (let i = i - 1 in
      if unat sz > BITVEC_NBIT \<and> d \<noteq> 0 then
        (case un of
           ApSub subs \<Rightarrow>
             (let bin = unat (i div d) in
              if bin < length subs then
                (case subs ! bin of
                   None \<Rightarrow>
                     if oom cnt then Some (SQLITE_NOMEM, Bitvec sz n d un, cnt + 1)
                     else (case sqlite3BitvecSet fuel oom (cnt + 1) (sqlite3BitvecCreate d) (i mod d + 1) of
                             None \<Rightarrow> None
                           | Some (rc, q, cnt) \<Rightarrow> Some (rc, Bitvec sz n d (ApSub (subs[bin := Some q])), cnt))
                 | Some q \<Rightarrow>
                     (case sqlite3BitvecSet fuel oom cnt q (i mod d + 1) of
                        None \<Rightarrow> None
                      | Some (rc, q, cnt) \<Rightarrow> Some (rc, Bitvec sz n d (ApSub (subs[bin := Some q])), cnt)))
              else None)
         | _ \<Rightarrow> None)
      else
        (case un of
           ABitmap aBitmap \<Rightarrow>
             (let k = unat i div BITVEC_SZELEM in
              Some (SQLITE_OK, Bitvec sz n d (ABitmap (aBitmap[k := aBitmap ! k OR push_bit (unat (i AND 7)) 1])), cnt))
         | AHash aHash \<Rightarrow>
             hash_set sz n aHash i cnt
               (\<lambda>_. if oom cnt then Some (SQLITE_NOMEM, Bitvec sz n d un, cnt + 1)
                    else
                      (let d = split_divisor sz;
                           p = Bitvec sz n d (if d = 0 then AHash zero_hash else ApSub (replicate BITVEC_NPTR None))
                       in case sqlite3BitvecSet fuel oom (cnt + 1) p (i + 1) of
                            None \<Rightarrow> None
                          | Some r \<Rightarrow> reinsert (\<lambda>cnt p v. sqlite3BitvecSet fuel oom cnt p v) aHash r))
         | ApSub _ \<Rightarrow> None))"

text \<open>Enough fuel for every size: the tree of the largest has five levels.\<close>

definition set_fuel :: nat where "set_fuel = 10"

text \<open>The rebuilding loop of sqlite3BitvecClear.\<close>

fun rebuild :: "u32 list \<Rightarrow> u32 \<Rightarrow> u32 list \<times> u32 \<Rightarrow> (u32 list \<times> u32) option" where
  "rebuild [] i r = Some r"
| "rebuild (v # aiValues) i (aHash, n) =
     (if v \<noteq> 0 \<and> v \<noteq> i + 1 then
        (case hash_probe BITVEC_NINT aHash 0 (BITVEC_HASH (v - 1)) of
           None \<Rightarrow> None
         | Some h \<Rightarrow> rebuild aiValues i (aHash[h := v], n + 1))
      else rebuild aiValues i (aHash, n))"

text \<open>The walk down and the clearing of bit \<open>i\<close>, counted from 0.\<close>

function bitvec_clear :: "Bitvec \<Rightarrow> u32 \<Rightarrow> Bitvec option" where
  "bitvec_clear (Bitvec sz n d un) i =
     (if d \<noteq> 0 then
        (case un of
           ApSub subs \<Rightarrow>
             (if unat (i div d) < length subs then
                (case subs ! unat (i div d) of
                   None \<Rightarrow> Some (Bitvec sz n d un)
                 | Some p \<Rightarrow>
                     map_option (\<lambda>q. Bitvec sz n d (ApSub (subs[unat (i div d) := Some q]))) (bitvec_clear p (i mod d)))
              else None)
         | _ \<Rightarrow> None)
      else
        (case un of
           ABitmap aBitmap \<Rightarrow>
             (let k = unat i div BITVEC_SZELEM in
              Some (Bitvec sz n d (ABitmap (aBitmap[k := aBitmap ! k AND NOT (push_bit (unat (i AND 7)) 1)]))))
         | AHash aHash \<Rightarrow> map_option (\<lambda>(a, n). Bitvec sz n d (AHash a)) (rebuild aHash i (zero_hash, 0))
         | ApSub _ \<Rightarrow> None))"
  by pat_completeness auto
termination
  by (relation "measure (\<lambda>(p, i). size p)") (auto dest: sub_size)

definition sqlite3BitvecClear :: "Bitvec \<Rightarrow> u32 \<Rightarrow> Bitvec option" where
  "sqlite3BitvecClear p i = bitvec_clear p (i - 1)"

text \<open>The number of objects freed.\<close>

fun sqlite3BitvecDestroy :: "Bitvec \<Rightarrow> nat" where
  "sqlite3BitvecDestroy (Bitvec sz n d un) =
     (case un of
        ApSub subs \<Rightarrow> if d \<noteq> 0 then sum_list (map (\<lambda>q. case q of None \<Rightarrow> 0 | Some p \<Rightarrow> sqlite3BitvecDestroy p) subs) + 1 else 1
      | _ \<Rightarrow> 1)"

definition sqlite3BitvecSize :: "Bitvec \<Rightarrow> u32" where
  "sqlite3BitvecSize p = iSize p"

end
