(* ===== verification/Bitvec_Props.thy ===== *)
theory Bitvec_Props
  imports Bitvec
begin

text \<open>
  Correctness of the bitmaps: each of the three representations answers for a set of bits, and
  setting and clearing a bit change that set by the bit, conversions included.
\<close>

section \<open>The hash table\<close>

text \<open>\<open>r\<close> is the first slot on the way from \<open>hv\<close> that satisfies \<open>Q\<close>.\<close>

definition first_slot :: "(nat \<Rightarrow> bool) \<Rightarrow> nat \<Rightarrow> nat \<Rightarrow> nat \<Rightarrow> bool" where
  "first_slot Q hv m r \<longleftrightarrow> r = (hv + m) mod 124 \<and> Q r \<and> (\<forall>j < m. \<not> Q ((hv + j) mod 124))"

lemma hash_probe_first:
  "hash_probe n a i h = Some r \<Longrightarrow> h < 124 \<Longrightarrow> \<exists>m < n. first_slot (\<lambda>k. a ! k = 0 \<or> a ! k = i) h m r"
proof (induction n a i h rule: hash_probe.induct)
  case (2 n a i h)
  show ?case
  proof (cases "a ! h = 0 \<or> a ! h = i")
    case True
    with 2(2,3) show ?thesis by (intro exI [of _ 0]) (auto simp: first_slot_def)
  next
    case False
    with 2 obtain m where m: "m < n" "first_slot (\<lambda>k. a ! k = 0 \<or> a ! k = i) ((h + 1) mod 124) m r" by auto
    have s: "((h + 1) mod 124 + j) mod 124 = (h + Suc j) mod 124" for j by presburger
    have "\<forall>j < Suc m. \<not> (a ! ((h + j) mod 124) = 0 \<or> a ! ((h + j) mod 124) = i)"
    proof (intro allI impI)
      fix j assume "j < Suc m"
      then show "\<not> (a ! ((h + j) mod 124) = 0 \<or> a ! ((h + j) mod 124) = i)"
        using False 2(3) m(2) s by (cases j) (auto simp: first_slot_def)
    qed
    with m s [of m] show ?thesis by (intro exI [of _ "Suc m"]) (auto simp: first_slot_def)
  qed
qed simp

lemma hash_probe_ends:
  "m < n \<Longrightarrow> h < 124 \<Longrightarrow> a ! ((h + m) mod 124) = 0 \<Longrightarrow> hash_probe n a i h \<noteq> None"
proof (induction n a i h arbitrary: m rule: hash_probe.induct)
  case (2 n a i h)
  show ?case
  proof (cases "a ! h = 0 \<or> a ! h = i")
    case False
    with 2 obtain k where k: "m = Suc k" by (cases m) auto
    have "((h + 1) mod 124 + k) mod 124 = (h + Suc k) mod 124" by presburger
    with 2(1) [of k] 2(2-4) False k show ?thesis by simp
  qed simp
qed simp

lemma slot_distance: "h < 124 \<Longrightarrow> k < 124 \<Longrightarrow> \<exists>m < 124. (h + m) mod 124 = (k :: nat)"
proof (cases "h \<le> k")
  case True
  then show "h < 124 \<Longrightarrow> k < 124 \<Longrightarrow> ?thesis" by (intro exI [of _ "k - h"]) simp
next
  case False
  then show "h < 124 \<Longrightarrow> k < 124 \<Longrightarrow> ?thesis" by (intro exI [of _ "k + 124 - h"]) simp
qed

definition used :: "u32 list \<Rightarrow> nat" where
  "used a = length (filter (\<lambda>v. v \<noteq> 0) a)"

definition hash_ok :: "u32 \<Rightarrow> u32 \<Rightarrow> u32 list \<Rightarrow> bool" where
  "hash_ok sz n a \<longleftrightarrow>
     length a = 124 \<and> unat n = used a \<and> used a \<le> 123 \<and> (\<forall>v \<in> set a. v \<le> sz) \<and>
     (\<forall>k < 124. \<forall>l < 124. a ! k \<noteq> 0 \<longrightarrow> a ! k = a ! l \<longrightarrow> k = l) \<and>
     (\<forall>k < 124. a ! k \<noteq> 0 \<longrightarrow>
        (\<exists>m. k = (BITVEC_HASH (a ! k - 1) + m) mod 124 \<and> (\<forall>j < m. a ! ((BITVEC_HASH (a ! k - 1) + j) mod 124) \<noteq> 0)))"

lemma hash_less [simp]: "BITVEC_HASH x < 124"
  by (simp add: BITVEC_HASH_def)

lemma free_slot: "hash_ok sz n a \<Longrightarrow> \<exists>k < 124. a ! k = 0"
proof (rule ccontr)
  assume h: "hash_ok sz n a" and "\<not> ?thesis"
  then have "\<forall>v \<in> set a. v \<noteq> 0" by (auto simp: hash_ok_def in_set_conv_nth)
  then have "used a = length a" by (simp add: used_def filter_id_conv)
  moreover have "used a \<le> 123" "length a = 124" using h by (simp_all add: hash_ok_def)
  ultimately show False by linarith
qed

lemma probe_total:
  assumes "hash_ok sz n a" and "h < 124"
  obtains m r where "hash_probe BITVEC_NINT a i h = Some r" "r < 124" "first_slot (\<lambda>k. a ! k = 0 \<or> a ! k = i) h m r"
proof -
  obtain k where k: "k < 124" "a ! k = 0" using free_slot [OF assms(1)] by blast
  obtain m where "m < 124" "(h + m) mod 124 = k" using slot_distance [OF assms(2) k(1)] by blast
  with hash_probe_ends [of m 124 h a i] k assms(2) obtain r where r: "hash_probe BITVEC_NINT a i h = Some r" by auto
  with hash_probe_first [of 124 a i h r] assms(2) obtain m where "first_slot (\<lambda>k. a ! k = 0 \<or> a ! k = i) h m r" by auto
  with r that show ?thesis by (auto simp: first_slot_def)
qed

lemma hash_lookup:
  assumes H: "hash_ok sz n a" and i: "i + 1 \<noteq> 0"
  shows "map_option (\<lambda>h. a ! h \<noteq> 0) (hash_probe BITVEC_NINT a (i + 1) (BITVEC_HASH i)) = Some (i + 1 \<in> set a)"
proof -
  obtain m r where r: "hash_probe BITVEC_NINT a (i + 1) (BITVEC_HASH i) = Some r" "r < 124"
    and f: "first_slot (\<lambda>k. a ! k = 0 \<or> a ! k = i + 1) (BITVEC_HASH i) m r"
    by (rule probe_total [OF H hash_less])
  have len: "length a = 124" using H by (simp add: hash_ok_def)
  have "a ! r \<noteq> 0 \<longleftrightarrow> i + 1 \<in> set a"
  proof
    assume "a ! r \<noteq> 0"
    then have "a ! r = i + 1" using f unfolding first_slot_def by blast
    then show "i + 1 \<in> set a" using r(2) len nth_mem by metis
  next
    assume "i + 1 \<in> set a"
    then obtain k where k: "k < 124" "a ! k = i + 1" using len by (auto simp: in_set_conv_nth)
    with H i obtain m' where m': "k = (BITVEC_HASH i + m') mod 124" "\<forall>j < m'. a ! ((BITVEC_HASH i + j) mod 124) \<noteq> 0"
      unfolding hash_ok_def by (metis add_diff_cancel_right')
    show "a ! r \<noteq> 0"
    proof (cases "m < m'")
      case True
      with m'(2) f show ?thesis by (simp add: first_slot_def)
    next
      case False
      then have "m' = m" using f k m'(1) by (auto simp: first_slot_def not_less le_less)
      with f m'(1) k i show ?thesis by (simp add: first_slot_def)
    qed
  qed
  with r show ?thesis by simp
qed

lemma hash_insert:
  assumes H: "hash_ok sz n a" and f: "first_slot (\<lambda>k. a ! k = 0) (BITVEC_HASH (v - 1)) m r" and v: "v \<noteq> 0" "v \<le> sz"
    and new: "v \<notin> set a" and full: "used a < 123"
  shows "hash_ok sz (n + 1) (a[r := v])" "set (a[r := v]) - {0} = insert v (set a - {0})" "used (a[r := v]) = used a + 1"
proof -
  have len: "length a = 124" and r: "r < 124" "a ! r = 0" using H f by (auto simp: hash_ok_def first_slot_def)
  show u: "used (a[r := v]) = used a + 1"
    using length_filter_update [of r a "\<lambda>v. v \<noteq> 0" v] len r v by (simp add: used_def)
  have nn: "unat (n + 1) = unat n + 1" using H full by (simp add: hash_ok_def unat_plus_if')
  have keep: "a ! k \<noteq> 0 \<Longrightarrow> a[r := v] ! k \<noteq> 0" for k using v r len by (cases "k = r") auto
  have path: "\<exists>m. k = (BITVEC_HASH (a[r := v] ! k - 1) + m) mod 124 \<and>
      (\<forall>j < m. a[r := v] ! ((BITVEC_HASH (a[r := v] ! k - 1) + j) mod 124) \<noteq> 0)"
    if k: "k < 124" "a[r := v] ! k \<noteq> 0" for k
  proof (cases "k = r")
    case True
    with f keep len r show ?thesis by (intro exI [of _ m]) (auto simp: first_slot_def)
  next
    case False
    with k have ak: "a ! k \<noteq> 0" "a[r := v] ! k = a ! k" by auto
    with H k(1) obtain m' where "k = (BITVEC_HASH (a ! k - 1) + m') mod 124"
      "\<forall>j < m'. a ! ((BITVEC_HASH (a ! k - 1) + j) mod 124) \<noteq> 0" unfolding hash_ok_def by blast
    with ak keep show ?thesis by (intro exI [of _ m']) auto
  qed
  have dist: "k = l" if kl: "k < 124" "l < 124" "a[r := v] ! k \<noteq> 0" "a[r := v] ! k = a[r := v] ! l" for k l
  proof -
    have "a ! k \<noteq> v" "a ! l \<noteq> v" using new kl(1,2) len nth_mem by metis+
    then show "k = l" using kl H len r by (auto simp: hash_ok_def nth_list_update split: if_splits)
  qed
  have "\<forall>w \<in> set (a[r := v]). w \<le> sz" using H v(2) set_update_subset_insert [of a r v] by (auto simp: hash_ok_def)
  then show "hash_ok sz (n + 1) (a[r := v])"
    using H u nn full len path dist by (simp add: hash_ok_def)
  show "set (a[r := v]) - {0} = insert v (set a - {0})"
  proof (intro equalityI subsetI)
    fix w assume "w \<in> set (a[r := v]) - {0}"
    then show "w \<in> insert v (set a - {0})" using set_update_subset_insert [of a r v] by auto
  next
    fix w assume w: "w \<in> insert v (set a - {0})"
    show "w \<in> set (a[r := v]) - {0}"
    proof (cases "w = v")
      case True
      then show ?thesis using v len r set_update_memI [of r a v] by auto
    next
      case False
      with w obtain k where "k < 124" "a ! k = w" "w \<noteq> 0" using len by (auto simp: in_set_conv_nth)
      then show ?thesis using r len by (metis DiffI length_list_update nth_list_update_neq nth_mem singletonD)
    qed
  qed
qed

lemma zero_hash_ok: "hash_ok sz 0 zero_hash" "set zero_hash = {0}" "used zero_hash = 0"
  by (auto simp: hash_ok_def zero_hash_def used_def)

section \<open>Well-formed bitmaps\<close>

text \<open>The largest size: every one of 32 bits. The sum in the divisor does not wrap around in 64 bits.\<close>

definition max_size :: nat where "max_size = 2 ^ 32 - 1"

lemma unat_le_max [simp]: "unat (sz :: u32) \<le> max_size"
  using unsigned_less [of sz, where ?'a = nat] by (simp add: max_size_def)

inductive bv_ok :: "Bitvec \<Rightarrow> bool" where
  bitmap: "unat sz \<le> 3968 \<Longrightarrow> length xs = 496 \<Longrightarrow> bv_ok (Bitvec sz n 0 (ABitmap xs))"
| hash: "3968 < unat sz \<Longrightarrow> unat sz \<le> max_size \<Longrightarrow> hash_ok sz n a \<Longrightarrow> bv_ok (Bitvec sz n 0 (AHash a))"
| split: "3968 < unat sz \<Longrightarrow> unat sz \<le> max_size \<Longrightarrow> length subs = 62 \<Longrightarrow> d = split_divisor sz \<Longrightarrow>
    (\<And>k q. k < 62 \<Longrightarrow> subs ! k = Some q \<Longrightarrow> bv_ok q \<and> iSize q = d) \<Longrightarrow> bv_ok (Bitvec sz n d (ApSub subs))"

inductive_cases bv_ok_cases: "bv_ok (Bitvec sz n d un)"

lemma divisor:
  assumes "3968 < unat sz" and "unat sz \<le> max_size"
  shows "unat (split_divisor sz) = (unat sz + 61) div 62" "split_divisor sz \<noteq> 0" "64 < unat (split_divisor sz)"
    "unat (split_divisor sz) \<le> max_size" "unat (split_divisor sz) < unat sz" "unat sz \<le> 62 * unat (split_divisor sz)"
proof -
  have e: "(ucast sz :: 64 word) + of_nat BITVEC_NPTR - 1 = (ucast sz :: 64 word) + 61" by simp
  have s: "unat sz < 2 ^ 32" using unsigned_less [of sz, where ?'a = nat] by simp
  have w: "unat ((ucast sz :: 64 word)) = unat sz" using s by (simp add: unsigned_ucast_eq take_bit_eq_mod)
  have "unat ((ucast sz :: 64 word) + 61) = unat sz + 61" using s w by (simp add: unat_plus_if')
  then have "unat (((ucast sz :: 64 word) + of_nat BITVEC_NPTR - 1) div of_nat BITVEC_NPTR) = (unat sz + 61) div 62"
    unfolding e by (simp add: unat_div)
  moreover have "(unat sz + 61) div 62 < 2 ^ 32" using s by linarith
  ultimately show d: "unat (split_divisor sz) = (unat sz + 61) div 62"
    by (simp add: split_divisor_def unsigned_ucast_eq take_bit_eq_mod)
  show "64 < unat (split_divisor sz)" unfolding d using assms(1) by linarith
  then show "split_divisor sz \<noteq> 0" by auto
  show "unat (split_divisor sz) < unat sz" unfolding d using assms(1) by linarith
  then show "unat (split_divisor sz) \<le> max_size" using assms(2) by linarith
  show "unat sz \<le> 62 * unat (split_divisor sz)" unfolding d by linarith
qed

lemma sub_index:
  assumes "3968 < unat sz" and "unat sz \<le> max_size" and "i < sz"
  shows "unat (i div split_divisor sz) < 62" "i mod split_divisor sz < split_divisor sz"
proof -
  note d = divisor [OF assms(1,2)]
  have "unat i < 62 * unat (split_divisor sz)" using d(6) assms(3) by (simp add: word_less_nat_alt)
  then show "unat (i div split_divisor sz) < 62" using d(3) by (simp add: unat_div less_mult_imp_div_less mult.commute)
  show "i mod split_divisor sz < split_divisor sz"
    using d(3) by (simp add: word_less_nat_alt unat_mod)
qed

lemma sub_index_eq:
  "unat (i div d) = unat (j div d) \<Longrightarrow> i mod d = j mod d \<Longrightarrow> i = (j :: u32)"
proof -
  assume a: "unat (i div d) = unat (j div d)" "i mod d = j mod d"
  then have "unat i div unat d = unat j div unat d" "unat i mod unat d = unat j mod unat d"
    by (simp_all add: unat_div flip: unat_mod)
  then have "unat i = unat j" by (metis div_mult_mod_eq)
  then show ?thesis by (simp add: word_unat_eq_iff)
qed

text \<open>The bits of a bitmap.\<close>

abbreviation has_bit :: "Bitvec \<Rightarrow> u32 \<Rightarrow> bool" where
  "has_bit p i \<equiv> bitvec_lookup p i = Some True"

declare bitvec_lookup.simps [simp del] bitvec_clear.simps [simp del]

lemma succ_nonzero: "i < sz \<Longrightarrow> i + 1 \<noteq> (0 :: u32)"
proof
  assume "i < sz" "i + 1 = 0"
  then have "i = - 1" by (simp add: eq_neg_iff_add_eq_0)
  with \<open>i < sz\<close> show False by (simp add: not_less word_order.extremum)
qed

lemma lookup_hash:
  assumes "hash_ok sz n a" and "i < sz"
  shows "bitvec_lookup (Bitvec sz n 0 (AHash a)) i = Some (i + 1 \<in> set a)"
proof -
  have "i + 1 \<noteq> 0" using succ_nonzero [OF assms(2)] .
  with hash_lookup [OF assms(1), of i] show ?thesis by (simp add: bitvec_lookup.simps)
qed

lemma lookup_split:
  assumes "3968 < unat sz" and "unat sz \<le> max_size" and "length subs = 62" and "i < sz"
  shows "bitvec_lookup (Bitvec sz n (split_divisor sz) (ApSub subs)) i =
    (case subs ! unat (i div split_divisor sz) of None \<Rightarrow> Some False | Some p \<Rightarrow> bitvec_lookup p (i mod split_divisor sz))"
  using assms divisor(2) [OF assms(1,2)] sub_index(1) [OF assms(1,2,4)] by (simp add: bitvec_lookup.simps)

text \<open>Every test of a well-formed bitmap returns.\<close>

lemma lookup_total: "bv_ok p \<Longrightarrow> i < iSize p \<Longrightarrow> bitvec_lookup p i \<noteq> None"
proof (induction p arbitrary: i rule: bv_ok.induct)
  case (split sz subs d n)
  then have "unat (i div d) < 62" "i mod d < d" using sub_index by auto
  with split lookup_split [OF split(1-3), of i n] show ?case by (auto split: option.splits)
next
  case (hash sz n a)
  then show ?case by (simp add: lookup_hash)
qed (simp add: bitvec_lookup.simps)

lemma lookup_bit: "bv_ok p \<Longrightarrow> i < iSize p \<Longrightarrow> bitvec_lookup p i = Some (has_bit p i)"
  using lookup_total [of p i] by auto

lemma create_ok: "unat d \<le> max_size \<Longrightarrow> bv_ok (sqlite3BitvecCreate d) \<and> iSize (sqlite3BitvecCreate d) = d"
  by (auto simp: sqlite3BitvecCreate_def zero_hash_ok intro: bitmap hash)

text \<open>Bits of a byte array.\<close>

definition array_bit :: "byte list \<Rightarrow> u32 \<Rightarrow> bool" where
  "array_bit xs i \<longleftrightarrow> bit (xs ! (unat i div 8)) (unat i mod 8)"

lemma and7: "unat (i AND 7 :: u32) = unat i mod 8"
proof -
  have "i AND 7 = take_bit 3 i" by (simp add: take_bit_eq_mask mask_eq_exp_minus_1 and.commute)
  then show ?thesis by (simp add: take_bit_eq_mod unat_mod)
qed

lemma lookup_bitmap: "bitvec_lookup (Bitvec sz n 0 (ABitmap xs)) i = Some (array_bit xs i)"
  by (simp add: bitvec_lookup.simps and7 bit_iff_and_push_bit_not_eq_0 array_bit_def)

lemma array_bit_set:
  assumes "length xs = 496" and "unat i < 3968" and "unat j < 3968"
  shows "array_bit (xs[unat i div 8 := xs ! (unat i div 8) OR push_bit (unat i mod 8) 1]) j \<longleftrightarrow> j = i \<or> array_bit xs j"
    "array_bit (xs[unat i div 8 := xs ! (unat i div 8) AND NOT (push_bit (unat i mod 8) 1)]) j \<longleftrightarrow> j \<noteq> i \<and> array_bit xs j"
proof -
  have ij: "j = i \<longleftrightarrow> unat j div 8 = unat i div 8 \<and> unat j mod 8 = unat i mod 8"
    by (metis div_mult_mod_eq word_unat_eq_iff)
  have l: "unat i div 8 < length xs" using assms by simp
  have b: "unat j mod 8 < 8" by simp
  show "array_bit (xs[unat i div 8 := xs ! (unat i div 8) OR push_bit (unat i mod 8) 1]) j \<longleftrightarrow> j = i \<or> array_bit xs j"
    using l b by (auto simp: array_bit_def ij nth_list_update bit_simps)
  show "array_bit (xs[unat i div 8 := xs ! (unat i div 8) AND NOT (push_bit (unat i mod 8) 1)]) j \<longleftrightarrow> j \<noteq> i \<and> array_bit xs j"
    using l b by (auto simp: array_bit_def ij nth_list_update bit_simps)
qed

section \<open>Setting a bit\<close>

text \<open>The recursion a bitmap of a size needs: two levels for each level of the tree.\<close>

fun size_fuel :: "nat \<Rightarrow> nat" where
  "size_fuel s = (if s \<le> 3968 then 1 else 2 + size_fuel ((s + 61) div 62))"

declare size_fuel.simps [simp del]

lemma size_fuel_mono: "s \<le> t \<Longrightarrow> size_fuel s \<le> size_fuel t"
proof (induction t arbitrary: s rule: size_fuel.induct)
  case (1 t)
  show ?case
  proof (cases "s \<le> 3968")
    case True
    then show ?thesis by (simp add: size_fuel.simps [of s] size_fuel.simps [of t])
  next
    case False
    with 1 have "size_fuel ((s + 61) div 62) \<le> size_fuel ((t + 61) div 62)" by (intro 1(1) div_le_mono) auto
    with False 1 show ?thesis by (simp add: size_fuel.simps [of s] size_fuel.simps [of t])
  qed
qed

lemma size_fuel_max: "size_fuel max_size = 9"
  by (simp add: max_size_def size_fuel.simps)

definition fuel_for :: "Bitvec \<Rightarrow> nat" where
  "fuel_for p = (if iDivisor p \<noteq> 0 then 1 + size_fuel (unat (iDivisor p)) else size_fuel (unat (iSize p)))"

lemma split_fuel:
  assumes "3968 < unat sz" and "unat sz \<le> max_size"
  shows "size_fuel (unat sz) = 2 + size_fuel (unat (split_divisor sz))"
  using assms divisor(1) [OF assms] by (simp add: size_fuel.simps [of "unat sz"])

lemma fuel_for_le: "bv_ok p \<Longrightarrow> fuel_for p \<le> size_fuel (unat (iSize p))"
  by (cases rule: bv_ok.cases) (auto simp: fuel_for_def split_fuel)

text \<open>What setting bit \<open>i\<close> (counted from 1) does; when memory runs out bits may be lost, none appears.\<close>

definition set_spec :: "Bitvec \<Rightarrow> u32 \<Rightarrow> set_result \<Rightarrow> bool" where
  "set_spec p i r \<longleftrightarrow>
     (\<exists>rc q cnt. r = Some (rc, q, cnt) \<and> bv_ok q \<and> iSize q = iSize p \<and> (iDivisor p \<noteq> 0 \<longrightarrow> iDivisor q = iDivisor p) \<and>
        (rc = SQLITE_OK \<or> rc = SQLITE_NOMEM) \<and>
        (rc = SQLITE_OK \<longrightarrow> (\<forall>j < iSize p. has_bit q j \<longleftrightarrow> j + 1 = i \<or> has_bit p j)) \<and>
        (\<forall>j < iSize p. has_bit q j \<longrightarrow> j + 1 = i \<or> has_bit p j))"

lemma nomem [simp]: "SQLITE_NOMEM \<noteq> SQLITE_OK" "SQLITE_OK \<noteq> SQLITE_NOMEM"
  by (simp_all add: SQLITE_OK_def SQLITE_NOMEM_def)

lemma set_specI:
  assumes "r = Some (SQLITE_OK, q, cnt)" "bv_ok q" "iSize q = iSize p" "iDivisor p \<noteq> 0 \<longrightarrow> iDivisor q = iDivisor p"
    and "\<And>j. j < iSize p \<Longrightarrow> has_bit q j \<longleftrightarrow> j + 1 = i \<or> has_bit p j"
  shows "set_spec p i r"
  using assms by (auto simp: set_spec_def)

lemma hash_set_cases:
  assumes H: "hash_ok sz n a" and i: "i < sz"
  shows "(\<exists>a' n'. hash_set sz n a i cnt re = Some (SQLITE_OK, Bitvec sz n' 0 (AHash a'), cnt) \<and> hash_ok sz n' a' \<and>
            set a' - {0} = insert (i + 1) (set a - {0})) \<or>
         hash_set sz n a i cnt re = re ()"
proof -
  have i0: "i + 1 \<noteq> 0" "i + 1 \<le> sz" "i + 1 - 1 = i"
    using succ_nonzero [OF i] inc_le [OF i] by simp_all
  obtain m r where r: "hash_probe BITVEC_NINT a (i + 1) (BITVEC_HASH i) = Some r" "r < 124"
    and f: "first_slot (\<lambda>k. a ! k = 0 \<or> a ! k = i + 1) (BITVEC_HASH i) m r"
    by (rule probe_total [OF H hash_less])
  have mem: "a ! r \<noteq> 0 \<longleftrightarrow> i + 1 \<in> set a" using hash_lookup [OF H i0(1)] r by simp
  have n: "unat n = used a" using H by (simp add: hash_ok_def)
  have put: "hash_ok sz (n + 1) (a[r := i + 1]) \<and> set (a[r := i + 1]) - {0} = insert (i + 1) (set a - {0})"
    if "a ! r = 0" "used a < 123"
  proof -
    have "i + 1 \<notin> set a" using mem that by simp
    moreover have "first_slot (\<lambda>k. a ! k = 0) (BITVEC_HASH (i + 1 - 1)) m r" using f that i0(3) by (auto simp: first_slot_def)
    ultimately show ?thesis using hash_insert [OF H _ i0(1,2) _ that(2)] by simp
  qed
  show ?thesis
  proof (cases "a ! BITVEC_HASH i = 0")
    case True
    then have "r = BITVEC_HASH i" using r(1) by (simp add: hash_probe.simps(2) [of 123, simplified])
    with True put n show ?thesis by (auto simp: hash_set_def Let_def)
  next
    case False
    show ?thesis
    proof (cases "a ! r = i + 1")
      case True
      with False r H i0 mem show ?thesis by (auto simp: hash_set_def Let_def intro!: exI [of _ a] exI [of _ n])
    next
      case nr: False
      then have "a ! r = 0" using f by (auto simp: first_slot_def)
      with False r put n nr show ?thesis by (auto simp: hash_set_def Let_def)
    qed
  qed
qed

lemma reinsert_ok:
  assumes st: "\<And>cnt q v. bv_ok q \<Longrightarrow> iSize q = sz \<Longrightarrow> iDivisor q = d \<Longrightarrow> v \<noteq> 0 \<Longrightarrow> v \<le> sz \<Longrightarrow> set_spec q v (st cnt q v)"
    and d: "d \<noteq> 0" and vs: "\<forall>v \<in> set vs. v \<le> sz" and p: "bv_ok p" "iSize p = sz" "iDivisor p = d"
    and rc: "rc = SQLITE_OK \<or> rc = SQLITE_NOMEM"
  shows "\<exists>rc' q cnt'. reinsert st vs (rc, p, cnt) = Some (rc', q, cnt') \<and> bv_ok q \<and> iSize q = sz \<and> iDivisor q = d \<and>
    (rc' = SQLITE_OK \<or> rc' = SQLITE_NOMEM) \<and>
    (rc' = SQLITE_OK \<longrightarrow> rc = SQLITE_OK \<and> (\<forall>j < sz. has_bit q j \<longleftrightarrow> j + 1 \<in> set vs - {0} \<or> has_bit p j)) \<and>
    (\<forall>j < sz. has_bit q j \<longrightarrow> j + 1 \<in> set vs - {0} \<or> has_bit p j)"
  using vs p rc
proof (induction vs arbitrary: rc p cnt)
  case (Cons v vs)
  show ?case
  proof (cases "v = 0")
    case True
    with Cons.IH [OF _ Cons.prems(2-5), of cnt] Cons.prems(1) show ?thesis by auto
  next
    case False
    have "set_spec p v (st cnt p v)" using st Cons.prems False by simp
    then obtain rc1 p1 c1 where s: "st cnt p v = Some (rc1, p1, c1)" "bv_ok p1" "iSize p1 = sz" "iDivisor p1 = d"
      "rc1 = SQLITE_OK \<or> rc1 = SQLITE_NOMEM"
      "rc1 = SQLITE_OK \<longrightarrow> (\<forall>j < sz. has_bit p1 j \<longleftrightarrow> j + 1 = v \<or> has_bit p j)"
      "\<forall>j < sz. has_bit p1 j \<longrightarrow> j + 1 = v \<or> has_bit p j"
      using Cons.prems d by (auto simp: set_spec_def)
    have r: "rc OR rc1 = SQLITE_OK \<or> rc OR rc1 = SQLITE_NOMEM" "rc OR rc1 = SQLITE_OK \<longleftrightarrow> rc = SQLITE_OK \<and> rc1 = SQLITE_OK"
      using Cons.prems(5) s(5) by (auto simp: SQLITE_OK_def SQLITE_NOMEM_def)
    from Cons.IH [OF _ s(2-4) r(1), of c1] Cons.prems(1) obtain rc' q cnt' where
      q: "reinsert st vs (rc OR rc1, p1, c1) = Some (rc', q, cnt')" "bv_ok q" "iSize q = sz" "iDivisor q = d"
      "rc' = SQLITE_OK \<or> rc' = SQLITE_NOMEM"
      "rc' = SQLITE_OK \<longrightarrow> rc OR rc1 = SQLITE_OK \<and> (\<forall>j < sz. has_bit q j \<longleftrightarrow> j + 1 \<in> set vs - {0} \<or> has_bit p1 j)"
      "\<forall>j < sz. has_bit q j \<longrightarrow> j + 1 \<in> set vs - {0} \<or> has_bit p1 j" by auto
    have "rc' = SQLITE_OK \<longrightarrow> rc = SQLITE_OK \<and> (\<forall>j < sz. has_bit q j \<longleftrightarrow> j + 1 \<in> set (v # vs) - {0} \<or> has_bit p j)"
      using q(6) s(6) r(2) False by auto
    moreover have "\<forall>j < sz. has_bit q j \<longrightarrow> j + 1 \<in> set (v # vs) - {0} \<or> has_bit p j" using q(7) s(7) False by auto
    ultimately show ?thesis using q(1-5) s(1) False by auto
  qed
qed auto

lemma empty_split:
  assumes "3968 < unat sz" and "unat sz \<le> max_size"
  shows "bv_ok (Bitvec sz n (split_divisor sz) (ApSub (replicate 62 None)))"
    "j < sz \<Longrightarrow> bitvec_lookup (Bitvec sz n (split_divisor sz) (ApSub (replicate 62 None))) j = Some False"
proof -
  show "bv_ok (Bitvec sz n (split_divisor sz) (ApSub (replicate 62 None)))" using assms by (intro split) auto
  show "j < sz \<Longrightarrow> bitvec_lookup (Bitvec sz n (split_divisor sz) (ApSub (replicate 62 None))) j = Some False"
    using lookup_split [OF assms, of "replicate 62 None"] sub_index(1) [OF assms] by simp
qed

lemma create_lookup: "unat d \<le> max_size \<Longrightarrow> j < d \<Longrightarrow> bitvec_lookup (sqlite3BitvecCreate d) j = Some False"
proof (cases "unat d \<le> 3968")
  case True
  assume "j < d"
  with True have "unat j div 8 < 496" by (simp add: word_less_nat_alt)
  with True show ?thesis by (simp add: sqlite3BitvecCreate_def lookup_bitmap array_bit_def)
next
  case False
  assume "j < d"
  with succ_nonzero [OF this] lookup_hash [OF zero_hash_ok(1) this] False show ?thesis
    by (simp add: sqlite3BitvecCreate_def zero_hash_ok(2))
qed

text \<open>A bit set in a sub-bitmap.\<close>

lemma set_sub:
  assumes s: "3968 < unat sz" "unat sz \<le> max_size" "length subs = 62"
    and subs: "\<And>k q. k < 62 \<Longrightarrow> subs ! k = Some q \<Longrightarrow> bv_ok q \<and> iSize q = split_divisor sz"
    and i: "i < sz" and q: "bv_ok q" "iSize q = split_divisor sz"
    and old: "\<And>j. j < split_divisor sz \<Longrightarrow>
       has_bit q j \<longleftrightarrow> (case subs ! unat (i div split_divisor sz) of None \<Rightarrow> False | Some p \<Rightarrow> has_bit p j)"
    and spec: "set_spec q (i mod split_divisor sz + 1) r"
  shows "set_spec (Bitvec sz n (split_divisor sz) (ApSub subs)) (i + 1)
    (case r of None \<Rightarrow> None
     | Some (rc, q, cnt) \<Rightarrow> Some (rc, Bitvec sz n (split_divisor sz) (ApSub (subs[unat (i div split_divisor sz) := Some q])), cnt))"
proof -
  let ?d = "split_divisor sz" and ?b = "unat (i div split_divisor sz)"
  from spec q obtain rc q1 cnt where r: "r = Some (rc, q1, cnt)" "bv_ok q1" "iSize q1 = ?d" "rc = SQLITE_OK \<or> rc = SQLITE_NOMEM"
    "rc = SQLITE_OK \<longrightarrow> (\<forall>j < ?d. has_bit q1 j \<longleftrightarrow> j + 1 = i mod ?d + 1 \<or> has_bit q j)"
    "\<forall>j < ?d. has_bit q1 j \<longrightarrow> j + 1 = i mod ?d + 1 \<or> has_bit q j"
    by (auto simp: set_spec_def)
  let ?subs = "subs[?b := Some q1]"
  have b: "?b < 62" by (rule sub_index(1) [OF s(1,2) i])
  have ok: "bv_ok (Bitvec sz n ?d (ApSub ?subs))"
    using s r subs b by (intro split) (auto simp: nth_list_update split: if_splits)
  have look: "has_bit (Bitvec sz n ?d (ApSub ?subs)) j =
      (if unat (j div ?d) = ?b then has_bit q1 (j mod ?d) else has_bit (Bitvec sz n ?d (ApSub subs)) j)" if "j < sz" for j
    using lookup_split [OF s(1,2) _ that] s(3) b by (auto simp: nth_list_update)
  have same: "has_bit (Bitvec sz n ?d (ApSub subs)) j = has_bit q (j mod ?d)" if "j < sz" "unat (j div ?d) = ?b" for j
    using lookup_split [OF s(1-3) that(1), of n] that(2) old [OF sub_index(2) [OF s(1,2) that(1)]]
    by (auto split: option.splits)
  have eq: "j mod ?d + 1 = i mod ?d + 1 \<longleftrightarrow> j + 1 = i + 1" if "unat (j div ?d) = ?b" for j
    using sub_index_eq [OF that] by auto
  have md: "j mod ?d < ?d" if "j < sz" for j by (rule sub_index(2) [OF s(1,2) that])
  have up: "has_bit (Bitvec sz n ?d (ApSub ?subs)) j \<longleftrightarrow> j + 1 = i + 1 \<or> has_bit (Bitvec sz n ?d (ApSub subs)) j"
    if "rc = SQLITE_OK" "j < sz" for j
    using r(5) md [OF that(2)] look [OF that(2)] same [OF that(2)] eq that(1) by (cases "unat (j div ?d) = ?b") auto
  moreover have "has_bit (Bitvec sz n ?d (ApSub ?subs)) j \<longrightarrow> j + 1 = i + 1 \<or> has_bit (Bitvec sz n ?d (ApSub subs)) j"
    if "j < sz" for j
    using r(6) md [OF that] look [OF that] same [OF that] eq by (cases "unat (j div ?d) = ?b") auto
  ultimately show ?thesis using r(1,4) ok by (simp add: set_spec_def)
qed

lemma Set_ok:
  "bv_ok p \<Longrightarrow> i < iSize p \<Longrightarrow> fuel_for p \<le> fuel \<Longrightarrow> set_spec p (i + 1) (sqlite3BitvecSet fuel oom cnt p (i + 1))"
proof (induction fuel arbitrary: p i cnt)
  case 0
  then show ?case by (simp add: fuel_for_def size_fuel.simps split: if_splits)
next
  case (Suc fuel)
  from Suc.prems(1) show ?case
  proof cases
    case (bitmap sz xs n)
    have j: "unat j < 3968" if "j < sz" for j using that bitmap(2) by (simp add: word_less_nat_alt)
    let ?xs = "xs[unat i div 8 := xs ! (unat i div 8) OR push_bit (unat i mod 8) 1]"
    have "sqlite3BitvecSet (Suc fuel) oom cnt p (i + 1) = Some (SQLITE_OK, Bitvec sz n 0 (ABitmap ?xs), cnt)"
      by (simp add: bitmap(1) and7 Let_def)
    then show ?thesis
      using bitmap Suc.prems(2) j array_bit_set(1) [OF bitmap(3)]
      by (intro set_specI) (auto simp: lookup_bitmap intro: bv_ok.bitmap)
  next
    case (split sz subs d n)
    have i: "i < sz" using Suc.prems(2) split(1) by simp
    have fuel: "size_fuel (unat d) \<le> fuel" using Suc.prems(3) divisor(2) [OF split(2,3)] split(1,5) by (simp add: fuel_for_def)
    have d: "d \<noteq> 0" "unat d \<le> max_size" using divisor [OF split(2,3)] split(5) by simp_all
    have b: "unat (i div d) < 62" "i mod d < d" using sub_index [OF split(2,3) i] split(5) by simp_all
    show ?thesis
    proof (cases "subs ! unat (i div d)")
      case (Some q)
      have q: "bv_ok q" "iSize q = d" using split(6) [OF b(1) Some] by simp_all
      have "fuel_for q \<le> fuel" using fuel_for_le [OF q(1)] q(2) fuel by simp
      then have "set_spec q (i mod d + 1) (sqlite3BitvecSet fuel oom cnt q (i mod d + 1))"
        using Suc.IH [OF q(1), of "i mod d" cnt] q(2) b(2) by simp
      from set_sub [OF split(2-4) split(6) [unfolded split(5)] i q [unfolded split(5)] _ this [unfolded split(5)], where n = n] Some split b d
      show ?thesis by simp
    next
      case None
      show ?thesis
      proof (cases "oom cnt")
        case True
        with None split b d Suc.prems(1) show ?thesis by (simp add: set_spec_def)
      next
        case False
        let ?q = "sqlite3BitvecCreate d"
        have q: "bv_ok ?q" "iSize ?q = d" using create_ok [OF d(2)] by simp_all
        have "fuel_for ?q \<le> fuel" using fuel_for_le [OF q(1)] q(2) fuel by simp
        then have "set_spec ?q (i mod d + 1) (sqlite3BitvecSet fuel oom (cnt + 1) ?q (i mod d + 1))"
          using Suc.IH [OF q(1), of "i mod d" "cnt + 1"] q(2) b(2) by simp
        from set_sub [OF split(2-4) split(6) [unfolded split(5)] i q [unfolded split(5)] _ this [unfolded split(5)], where n = n]
          None False split b d create_lookup [OF d(2)]
        show ?thesis by simp
      qed
    qed
  next
    case (hash sz n a)
    have i: "i < sz" using Suc.prems(2) hash(1) by simp
    define d where "d = split_divisor sz"
    have d: "d \<noteq> 0" using divisor [OF hash(2,3)] d_def by simp
    define re where "re = (\<lambda>_ :: unit. if oom cnt then Some (SQLITE_NOMEM, Bitvec sz n 0 (AHash a), cnt + 1)
      else case sqlite3BitvecSet fuel oom (cnt + 1) (Bitvec sz n d (ApSub (replicate 62 None))) (i + 1) of
             None \<Rightarrow> None | Some r \<Rightarrow> reinsert (\<lambda>cnt p v. sqlite3BitvecSet fuel oom cnt p v) a r)"
    have st: "sqlite3BitvecSet (Suc fuel) oom cnt p (i + 1) = hash_set sz n a i cnt re"
      using d by (simp add: hash(1) re_def d_def Let_def)
    have fuel: "1 + size_fuel (unat d) \<le> fuel"
      using Suc.prems(3) split_fuel [OF hash(2,3)] hash(1) by (simp add: fuel_for_def d_def)
    have look: "bitvec_lookup p j = Some (j + 1 \<in> set a)" if "j < sz" for j
      using lookup_hash [OF hash(4) that] hash(1) by simp
    have nz: "j + 1 \<in> set a - {0} \<longleftrightarrow> j + 1 \<in> set a" if "j < sz" for j using succ_nonzero [OF that] by simp
    from hash_set_cases [OF hash(4) i, of cnt re] show ?thesis
    proof (elim disjE exE conjE)
      fix a' n' assume h: "hash_set sz n a i cnt re = Some (SQLITE_OK, Bitvec sz n' 0 (AHash a'), cnt)" "hash_ok sz n' a'"
        "set a' - {0} = insert (i + 1) (set a - {0})"
      have "j + 1 \<in> set a' \<longleftrightarrow> j + 1 = i + 1 \<or> j + 1 \<in> set a" if "j < sz" for j
        using h(3) succ_nonzero [OF that] by blast
      then show ?thesis unfolding st
        by (intro set_specI [OF h(1)]) (use hash h(2) look lookup_hash [OF h(2)] in \<open>auto intro: bv_ok.hash\<close>)
    next
      assume re: "hash_set sz n a i cnt re = re ()"
      show ?thesis
      proof (cases "oom cnt")
        case True
        then show ?thesis using Suc.prems(1) unfolding st re by (simp add: re_def set_spec_def hash(1))
      next
        case False
        let ?p = "Bitvec sz n d (ApSub (replicate 62 None))"
        have p: "bv_ok ?p" "\<And>j. j < sz \<Longrightarrow> bitvec_lookup ?p j = Some False"
          unfolding d_def using empty_split(1) [OF hash(2,3)] empty_split(2) [OF hash(2,3)] by auto
        have IH: "set_spec q v (sqlite3BitvecSet fuel oom c q v)"
          if q: "bv_ok q" "iSize q = sz" "iDivisor q = d" "v \<noteq> 0" "v \<le> sz" for c q v
        proof -
          have "v - 1 < sz" using q(4,5) by (simp add: word_less_nat_alt word_le_nat_alt unat_minus_one)
            (metis Suc_pred bot_nat_0.not_eq_extremum lessI order_less_le_trans unat_eq_zero)
          with Suc.IH [OF q(1), of "v - 1" c] q fuel d show ?thesis by (simp add: fuel_for_def)
        qed
        have "set_spec ?p (i + 1) (sqlite3BitvecSet fuel oom (cnt + 1) ?p (i + 1))"
          using IH [of ?p "i + 1" "cnt + 1"] p(1) succ_nonzero [OF i] inc_le [OF i] by simp
        then obtain rc q c where q: "sqlite3BitvecSet fuel oom (cnt + 1) ?p (i + 1) = Some (rc, q, c)" "bv_ok q" "iSize q = sz"
          "iDivisor q = d" "rc = SQLITE_OK \<or> rc = SQLITE_NOMEM"
          "rc = SQLITE_OK \<longrightarrow> (\<forall>j < sz. has_bit q j \<longleftrightarrow> j + 1 = i + 1)" "\<forall>j < sz. has_bit q j \<longrightarrow> j + 1 = i + 1"
          using d p(2) by (auto simp: set_spec_def)
        have vs: "\<forall>v \<in> set a. v \<le> sz" using hash(4) by (simp add: hash_ok_def)
        obtain rc' q' c' where
          q': "reinsert (\<lambda>cnt p v. sqlite3BitvecSet fuel oom cnt p v) a (rc, q, c) = Some (rc', q', c')" "bv_ok q'" "iSize q' = sz"
          "rc' = SQLITE_OK \<or> rc' = SQLITE_NOMEM"
          "rc' = SQLITE_OK \<longrightarrow> rc = SQLITE_OK \<and> (\<forall>j < sz. has_bit q' j \<longleftrightarrow> j + 1 \<in> set a - {0} \<or> has_bit q j)"
          "\<forall>j < sz. has_bit q' j \<longrightarrow> j + 1 \<in> set a - {0} \<or> has_bit q j"
          using reinsert_ok [of sz d "\<lambda>cnt p v. sqlite3BitvecSet fuel oom cnt p v" a q rc c, OF IH d vs q(2-5)] by blast
        have "rc' = SQLITE_OK \<longrightarrow> (\<forall>j < sz. has_bit q' j \<longleftrightarrow> j + 1 = i + 1 \<or> has_bit p j)"
          using q'(5) q(6) look nz by auto
        moreover have "\<forall>j < sz. has_bit q' j \<longrightarrow> j + 1 = i + 1 \<or> has_bit p j"
          using q'(6) q(7) look nz by auto
        ultimately show ?thesis unfolding st re using False q(1) q'(1-4)
          by (simp add: re_def set_spec_def hash(1))
      qed
    qed
  qed
qed

section \<open>Clearing a bit\<close>

lemma rebuild_ok:
  assumes "hash_ok sz m b" and "length vs + used b \<le> 124" and "0 \<in> set vs \<or> used b + length vs \<le> 123"
    and "\<forall>v \<in> set vs. v \<le> sz" and "\<And>v. v \<in> set vs \<Longrightarrow> v \<noteq> 0 \<Longrightarrow> v \<notin> set b" and "distinct (filter (\<lambda>v. v \<noteq> 0) vs)"
  shows "\<exists>b' m'. rebuild vs i (b, m) = Some (b', m') \<and> hash_ok sz m' b' \<and>
    set b' - {0} = (set b - {0}) \<union> {v \<in> set vs. v \<noteq> 0 \<and> v \<noteq> i + 1}"
  using assms
proof (induction vs arbitrary: b m)
  case (Cons v vs)
  show ?case
  proof (cases "v \<noteq> 0 \<and> v \<noteq> i + 1")
    case True
    obtain k r where r: "hash_probe BITVEC_NINT b 0 (BITVEC_HASH (v - 1)) = Some r"
      and f: "first_slot (\<lambda>k. b ! k = 0 \<or> b ! k = 0) (BITVEC_HASH (v - 1)) k r"
      by (rule probe_total [OF Cons.prems(1) hash_less])
    have full: "used b < 123" using Cons.prems(2,3) True by (cases vs) auto
    note h = hash_insert [OF Cons.prems(1) f [simplified] conjunct1 [OF True] _ _ full]
    have hv: "v \<le> sz" "v \<notin> set b" using Cons.prems(4,5) True by auto
    have fresh: "\<And>w. w \<in> set vs \<Longrightarrow> w \<noteq> 0 \<Longrightarrow> w \<notin> set (b[r := v])"
      using Cons.prems(5,6) True set_update_subset_insert [of b r v] by auto
    have "length vs + used (b[r := v]) \<le> 124" "0 \<in> set vs \<or> used (b[r := v]) + length vs \<le> 123"
      "\<forall>w \<in> set vs. w \<le> sz" "distinct (filter (\<lambda>v. v \<noteq> 0) vs)"
      using Cons.prems(2,3,4,6) True h(3) [OF hv] by auto
    with Cons.IH [OF h(1) [OF hv] _ _ _ fresh] obtain b' m' where
      "rebuild vs i (b[r := v], m + 1) = Some (b', m')" "hash_ok sz m' b'"
      "set b' - {0} = (set (b[r := v]) - {0}) \<union> {v \<in> set vs. v \<noteq> 0 \<and> v \<noteq> i + 1}" by blast
    then show ?thesis using True r h(2) [OF hv] by auto
  next
    case False
    have "used b \<le> 123" using Cons.prems(1) by (simp add: hash_ok_def)
    then have "0 \<in> set vs \<or> used b + length vs \<le> 123" using Cons.prems(2) by (cases vs) auto
    moreover have "distinct (filter (\<lambda>v. v \<noteq> 0) vs)" using Cons.prems(6) by (simp split: if_splits)
    moreover have "length vs + used b \<le> 124" "\<forall>w \<in> set vs. w \<le> sz" using Cons.prems(2,4) by simp_all
    moreover have "\<And>w. w \<in> set vs \<Longrightarrow> w \<noteq> 0 \<Longrightarrow> w \<notin> set b" using Cons.prems(5) by simp
    ultimately obtain b' m' where "rebuild vs i (b, m) = Some (b', m')" "hash_ok sz m' b'"
      "set b' - {0} = (set b - {0}) \<union> {v \<in> set vs. v \<noteq> 0 \<and> v \<noteq> i + 1}"
      using Cons.IH [OF Cons.prems(1)] by blast
    moreover have "rebuild (v # vs) i (b, m) = rebuild vs i (b, m)" using False by auto
    moreover have "{w \<in> set (v # vs). w \<noteq> 0 \<and> w \<noteq> i + 1} = {w \<in> set vs. w \<noteq> 0 \<and> w \<noteq> i + 1}" using False by auto
    ultimately show ?thesis by metis
  qed
qed simp

lemma nonzero_distinct:
  "(\<And>k l. k < length a \<Longrightarrow> l < length a \<Longrightarrow> a ! k \<noteq> 0 \<Longrightarrow> a ! k = a ! l \<Longrightarrow> k = l) \<Longrightarrow> distinct (filter (\<lambda>v. v \<noteq> (0 :: u32)) a)"
proof (induction a)
  case (Cons v a)
  have "distinct (filter (\<lambda>v. v \<noteq> 0) a)"
    by (rule Cons.IH) (use Cons.prems in \<open>metis Suc_less_eq length_Cons nat.inject nth_Cons_Suc\<close>)
  moreover have "v \<noteq> 0 \<longrightarrow> v \<notin> set a"
    using Cons.prems [of 0] by (auto simp: in_set_conv_nth) (metis Suc_less_eq nat.distinct(1) nth_Cons_Suc)
  ultimately show ?case by auto
qed simp

lemma Clear_ok:
  "bv_ok p \<Longrightarrow> i < iSize p \<Longrightarrow>
     \<exists>q. bitvec_clear p i = Some q \<and> bv_ok q \<and> iSize q = iSize p \<and> iDivisor q = iDivisor p \<and>
       (\<forall>j < iSize p. has_bit q j \<longleftrightarrow> j \<noteq> i \<and> has_bit p j)"
proof (induction p arbitrary: i rule: bv_ok.induct)
  case (bitmap sz xs n)
  have j: "unat j < 3968" if "j < sz" for j using that bitmap(1) by (simp add: word_less_nat_alt)
  let ?xs = "xs[unat i div 8 := xs ! (unat i div 8) AND NOT (push_bit (unat i mod 8) 1)]"
  have "bitvec_clear (Bitvec sz n 0 (ABitmap xs)) i = Some (Bitvec sz n 0 (ABitmap ?xs))"
    by (simp add: bitvec_clear.simps and7 Let_def)
  then show ?case using bitmap j array_bit_set(2) [OF bitmap(2)] by (auto simp: lookup_bitmap intro: bv_ok.bitmap)
next
  case (hash sz n a)
  have i: "i < sz" using hash(4) by simp
  obtain k where k: "k < 124" "a ! k = 0" using free_slot [OF hash(3)] by blast
  have a: "length a = 124" "\<forall>v \<in> set a. v \<le> sz" using hash(3) by (simp_all add: hash_ok_def)
  have z: "0 \<in> set a" using nth_mem [of k a] k a(1) by simp
  have inj: "k = l" if "k < length a" "l < length a" "a ! k \<noteq> 0" "a ! k = a ! l" for k l
    using hash(3) that a(1) by (auto simp: hash_ok_def)
  have dist: "distinct (filter (\<lambda>v. v \<noteq> 0) a)" by (rule nonzero_distinct) (rule inj)
  have fresh: "v \<notin> set zero_hash" if "v \<in> set a" "v \<noteq> 0" for v using that(2) by (simp add: zero_hash_ok(2))
  have room: "length a + used zero_hash \<le> 124" "0 \<in> set a \<or> used zero_hash + length a \<le> 123"
    using a(1) z by (simp_all add: zero_hash_ok(3))
  have e: "set zero_hash - {0} = {}" by (simp add: zero_hash_ok(2))
  have "\<exists>b m. rebuild a i (zero_hash, 0) = Some (b, m) \<and> hash_ok sz m b \<and>
      set b - {0} = (set zero_hash - {0}) \<union> {v \<in> set a. v \<noteq> 0 \<and> v \<noteq> i + 1}"
    by (rule rebuild_ok [OF zero_hash_ok(1) room a(2) _ dist]) (rule fresh)
  then obtain b m where
    b: "rebuild a i (zero_hash, 0) = Some (b, m)" "hash_ok sz m b" "set b - {0} = {v \<in> set a. v \<noteq> 0 \<and> v \<noteq> i + 1}"
    unfolding e Un_empty_left by (elim exE conjE)
  have "j + 1 \<in> set b \<longleftrightarrow> j \<noteq> i \<and> j + 1 \<in> set a" if "j < sz" for j
  proof -
    have "j + 1 \<in> set b \<longleftrightarrow> j + 1 \<in> set b - {0}" using succ_nonzero [OF that] by blast
    also have "\<dots> \<longleftrightarrow> j + 1 \<in> set a \<and> j + 1 \<noteq> i + 1" unfolding b(3) using succ_nonzero [OF that] by blast
    finally show ?thesis by (simp only: add_right_cancel conj_commute)
  qed
  with b lookup_hash [OF hash(3)] lookup_hash [OF b(2)] hash(1,2) show ?case
    by (auto simp: bitvec_clear.simps intro: bv_ok.hash)
next
  case (split sz subs d n)
  have i: "i < sz" using split(6) by simp
  have d: "d \<noteq> 0" "unat (i div d) < 62" "i mod d < d" using divisor(2) sub_index split i by auto
  note look = lookup_split [OF split(1-3)]
  show ?case
  proof (cases "subs ! unat (i div d)")
    case None
    have "\<not> has_bit (Bitvec sz n d (ApSub subs)) i" using look [OF i] None split(4) by simp
    then have "\<forall>j < sz. has_bit (Bitvec sz n d (ApSub subs)) j \<longleftrightarrow> j \<noteq> i \<and> has_bit (Bitvec sz n d (ApSub subs)) j" by auto
    moreover have "bv_ok (Bitvec sz n d (ApSub subs))" using split by (intro bv_ok.split) auto
    ultimately show ?thesis using None d split(3) by (simp add: bitvec_clear.simps)
  next
    case (Some q)
    note S = split(5) [OF d(2) Some]
    have q: "bv_ok q" "iSize q = d" using S by simp_all
    from S d(3) obtain q1 where q1: "bitvec_clear q (i mod d) = Some q1" "bv_ok q1" "iSize q1 = d"
      "\<forall>j < d. has_bit q1 j \<longleftrightarrow> j \<noteq> i mod d \<and> has_bit q j" by blast
    let ?subs = "subs[unat (i div d) := Some q1]"
    have ok: "bv_ok (Bitvec sz n d (ApSub ?subs))"
      using split(1-5) q1 d by (intro bv_ok.split) (auto simp: nth_list_update split: if_splits)
    have "has_bit (Bitvec sz n d (ApSub ?subs)) j \<longleftrightarrow> j \<noteq> i \<and> has_bit (Bitvec sz n d (ApSub subs)) j" if j: "j < sz" for j
    proof -
      have jm: "j mod d < d" using sub_index(2) [OF split(1,2) j] split(4) by simp
      have l: "bitvec_lookup (Bitvec sz n d (ApSub ?subs)) j =
          (case ?subs ! unat (j div d) of None \<Rightarrow> Some False | Some p \<Rightarrow> bitvec_lookup p (j mod d))"
        using lookup_split [OF split(1,2) _ j, of ?subs n, folded split(4)] split(3) by simp
      show ?thesis
      proof (cases "unat (j div d) = unat (i div d)")
        case True
        then show ?thesis using l look [OF j, of n] Some split(3,4) d(2) q1(4) jm sub_index_eq [OF True] by auto
      next
        case False
        then have "j \<noteq> i" by auto
        with False show ?thesis using l look [OF j, of n] split(3,4) d(2) by auto
      qed
    qed
    with ok q1(1) Some d split(3) show ?thesis by (simp add: bitvec_clear.simps)
  qed
qed

end
