(* ===== verification/Bitvec_Runs.thy ===== *)
theory Bitvec_Runs
  imports Bitvec_Props
begin

text \<open>
  The contract of a bit vector and what a client learns from it: over any sequence of settings
  and clearings a test answers for the last operation on its bit. The bitmaps of bitvec.c are
  an instance, whatever their size and whichever calls to malloc fail.
\<close>

section \<open>The contract\<close>

datatype bv_op = SetBit u32 | ClearBit u32

fun op_bit :: "bv_op \<Rightarrow> u32" where
  "op_bit (SetBit i) = i"
| "op_bit (ClearBit i) = i"

fun abs_op :: "bv_op \<Rightarrow> u32 set \<Rightarrow> u32 set" where
  "abs_op (SetBit i) B = insert i B"
| "abs_op (ClearBit i) B = B - {i}"

text \<open>\<open>setb\<close> answers whether it succeeded; \<open>'r\<close> is the state of the allocator.\<close>

locale bit_vector =
  fixes ok :: "'v \<Rightarrow> bool"
    and width :: "'v \<Rightarrow> u32"
    and test :: "'v \<Rightarrow> u32 \<Rightarrow> bool option"
    and setb :: "'v \<Rightarrow> u32 \<Rightarrow> 'r \<Rightarrow> (bool \<times> 'v \<times> 'r) option"
    and clear :: "'v \<Rightarrow> u32 \<Rightarrow> 'v option"
  assumes test_total: "ok v \<Longrightarrow> test v i \<noteq> None"
    and test_range: "ok v \<Longrightarrow> test v i = Some True \<Longrightarrow> 1 \<le> i \<and> i \<le> width v"
    and set_law: "ok v \<Longrightarrow> 1 \<le> i \<Longrightarrow> i \<le> width v \<Longrightarrow>
      \<exists>b w r'. setb v i r = Some (b, w, r') \<and> ok w \<and> width w = width v \<and>
        (\<forall>j. test w j = Some True \<longrightarrow> j = i \<or> test v j = Some True) \<and>
        (b \<longrightarrow> (\<forall>j. j = i \<or> test v j = Some True \<longrightarrow> test w j = Some True))"
    and clear_law: "ok v \<Longrightarrow> 1 \<le> i \<Longrightarrow> i \<le> width v \<Longrightarrow>
      \<exists>w. clear v i = Some w \<and> ok w \<and> width w = width v \<and>
        (\<forall>j. test w j = Some True \<longleftrightarrow> j \<noteq> i \<and> test v j = Some True)"
begin

definition bits :: "'v \<Rightarrow> u32 set" where
  "bits v = {i. test v i = Some True}"

lemma test_bits: "ok v \<Longrightarrow> test v i = Some (i \<in> bits v)"
  using test_total [of v i] by (auto simp: bits_def)

fun run :: "bv_op list \<Rightarrow> bool \<times> 'v \<times> 'r \<Rightarrow> (bool \<times> 'v \<times> 'r) option" where
  "run [] s = Some s"
| "run (SetBit i # ops) (b, v, r) =
     (case setb v i r of None \<Rightarrow> None | Some (b', w, r') \<Rightarrow> run ops (b \<and> b', w, r'))"
| "run (ClearBit i # ops) (b, v, r) =
     (case clear v i of None \<Rightarrow> None | Some w \<Rightarrow> run ops (b, w, r))"

lemma abs_mono: "B \<subseteq> C \<Longrightarrow> fold abs_op ops B \<subseteq> fold abs_op ops C"
proof (induction ops arbitrary: B C)
  case (Cons op ops)
  then have "abs_op op B \<subseteq> abs_op op C" by (cases op) auto
  with Cons.IH show ?case by simp
qed simp

lemma run_history:
  assumes "ok v" and "\<forall>op \<in> set ops. 1 \<le> op_bit op \<and> op_bit op \<le> width v"
  shows "\<exists>b' w r'. run ops (b, v, r) = Some (b', w, r') \<and> ok w \<and> width w = width v \<and>
    bits w \<subseteq> fold abs_op ops (bits v) \<and> (b' \<longrightarrow> b \<and> bits w = fold abs_op ops (bits v))"
  using assms
proof (induction ops arbitrary: b v r)
  case (Cons op ops)
  show ?case
  proof (cases op)
    case (SetBit i)
    with set_law [OF Cons.prems(1), of i r] Cons.prems(2) obtain b1 w r1 where
      w: "setb v i r = Some (b1, w, r1)" "ok w" "width w = width v"
        "\<forall>j. test w j = Some True \<longrightarrow> j = i \<or> test v j = Some True"
        "b1 \<longrightarrow> (\<forall>j. j = i \<or> test v j = Some True \<longrightarrow> test w j = Some True)" by auto
    note s = w(1-3)
    have s4: "bits w \<subseteq> insert i (bits v)" using w(4) by (auto simp: bits_def)
    have s5: "b1 \<longrightarrow> insert i (bits v) \<subseteq> bits w" using w(5) by (auto simp: bits_def)
    from s Cons.IH [of w "b \<and> b1" r1] Cons.prems(2) obtain b' w' r' where
      t: "run ops (b \<and> b1, w, r1) = Some (b', w', r')" "ok w'" "width w' = width w"
        "bits w' \<subseteq> fold abs_op ops (bits w)" "b' \<longrightarrow> (b \<and> b1) \<and> bits w' = fold abs_op ops (bits w)" by auto
    have "bits w' \<subseteq> fold abs_op ops (insert i (bits v))" using t(4) abs_mono [OF s4] by blast
    moreover have "b' \<longrightarrow> b \<and> bits w' = fold abs_op ops (insert i (bits v))"
      using t(5) s4 s5 by (metis subset_antisym)
    ultimately show ?thesis using SetBit s t by simp
  next
    case (ClearBit i)
    with clear_law [OF Cons.prems(1), of i] Cons.prems(2) obtain w where
      s: "clear v i = Some w" "ok w" "width w = width v" "bits w = bits v - {i}" by (auto simp: bits_def)
    with Cons.IH [of w b r] Cons.prems(2) ClearBit show ?thesis by simp
  qed
qed simp

end

section \<open>The bitmaps\<close>

lemma index_range: "1 \<le> i \<and> i \<le> n \<longleftrightarrow> i - 1 < (n :: u32)"
proof (cases "i = 0")
  case True
  then show ?thesis by (simp add: word_order.extremum leD)
next
  case False
  then have "unat (i - 1) = unat i - 1" "unat i \<noteq> 0" by (simp_all add: unat_minus_one unat_eq_zero)
  then show ?thesis by (auto simp: word_le_nat_alt word_less_nat_alt)
qed

lemma Test_lookup:
  "sqlite3BitvecTest (Some p) i = (if 1 \<le> i \<and> i \<le> iSize p then bitvec_lookup p (i - 1) else Some False)"
  unfolding index_range by (simp add: sqlite3BitvecTest_def sqlite3BitvecTestNotNull_def not_le [symmetric])

lemma enough_fuel: "bv_ok p \<Longrightarrow> fuel_for p \<le> set_fuel"
  using fuel_for_le [of p] size_fuel_mono [OF unat_le_max, of "iSize p"] size_fuel_max by (simp add: set_fuel_def)

text \<open>Setting a bit as the client sees it: the result code is 0 or not.\<close>

definition set_bit_oom :: "(nat \<Rightarrow> bool) \<Rightarrow> Bitvec \<Rightarrow> u32 \<Rightarrow> nat \<Rightarrow> (bool \<times> Bitvec \<times> nat) option" where
  "set_bit_oom oom p i cnt = map_option (\<lambda>(rc, q, cnt). (rc = SQLITE_OK, q, cnt)) (sqlite3BitvecSet set_fuel oom cnt p i)"

interpretation bv: bit_vector bv_ok iSize "\<lambda>p. sqlite3BitvecTest (Some p)" "set_bit_oom oom" sqlite3BitvecClear for oom
proof
  fix v i assume "bv_ok v"
  then show "sqlite3BitvecTest (Some v) i \<noteq> None" using lookup_total [of v "i - 1"] index_range [of i "iSize v"] by (auto simp: Test_lookup)
next
  fix v i assume "bv_ok v" "sqlite3BitvecTest (Some v) i = Some True"
  then show "1 \<le> i \<and> i \<le> iSize v" by (auto simp: Test_lookup split: if_splits)
next
  fix v i and r :: nat assume v: "bv_ok v" and i: "1 \<le> i" "i \<le> iSize v"
  have "i - 1 < iSize v" using i index_range by blast
  from Set_ok [OF v this enough_fuel [OF v], of oom r] obtain rc w r' where
    w: "sqlite3BitvecSet set_fuel oom r v i = Some (rc, w, r')" "bv_ok w" "iSize w = iSize v"
      "rc = SQLITE_OK \<longrightarrow> (\<forall>j < iSize v. has_bit w j \<longleftrightarrow> j + 1 = i \<or> has_bit v j)"
      "\<forall>j < iSize v. has_bit w j \<longrightarrow> j + 1 = i \<or> has_bit v j" by (auto simp: set_spec_def)
  have "set_bit_oom oom v i r = Some (rc = SQLITE_OK, w, r')" using w(1) by (simp add: set_bit_oom_def)
  moreover have "sqlite3BitvecTest (Some w) j = Some True \<longrightarrow> j = i \<or> sqlite3BitvecTest (Some v) j = Some True" for j
    using w(3) w(5) [rule_format, of "j - 1"] index_range [of j "iSize v"] by (auto simp: Test_lookup)
  moreover have "rc = SQLITE_OK \<longrightarrow> (\<forall>j. j = i \<or> sqlite3BitvecTest (Some v) j = Some True \<longrightarrow> sqlite3BitvecTest (Some w) j = Some True)"
    using w(3,4) i index_range by (auto simp: Test_lookup split: if_splits)
  ultimately show "\<exists>b w r'. set_bit_oom oom v i r = Some (b, w, r') \<and> bv_ok w \<and> iSize w = iSize v \<and>
      (\<forall>j. sqlite3BitvecTest (Some w) j = Some True \<longrightarrow> j = i \<or> sqlite3BitvecTest (Some v) j = Some True) \<and>
      (b \<longrightarrow> (\<forall>j. j = i \<or> sqlite3BitvecTest (Some v) j = Some True \<longrightarrow> sqlite3BitvecTest (Some w) j = Some True))"
    using w(2,3) by (intro exI [of _ "rc = SQLITE_OK"] exI [of _ w] exI [of _ r']) simp
next
  fix v i assume v: "bv_ok v" and i: "1 \<le> i" "i \<le> iSize v"
  have "i - 1 < iSize v" using i index_range by blast
  from Clear_ok [OF v this] obtain w where w: "sqlite3BitvecClear v i = Some w" "bv_ok w" "iSize w = iSize v"
    "\<forall>j < iSize v. has_bit w j \<longleftrightarrow> j \<noteq> i - 1 \<and> has_bit v j" by (auto simp: sqlite3BitvecClear_def)
  have "sqlite3BitvecTest (Some w) j = Some True \<longleftrightarrow> j \<noteq> i \<and> sqlite3BitvecTest (Some v) j = Some True" for j
    using w(3) w(4) [rule_format, of "j - 1"] index_range [of j "iSize v"] i by (auto simp: Test_lookup)
  with w show "\<exists>w. sqlite3BitvecClear v i = Some w \<and> bv_ok w \<and> iSize w = iSize v \<and>
      (\<forall>j. sqlite3BitvecTest (Some w) j = Some True \<longleftrightarrow> j \<noteq> i \<and> sqlite3BitvecTest (Some v) j = Some True)" by blast
qed

lemma create_bits: "bv.bits (sqlite3BitvecCreate sz) = {}"
  using create_ok [of sz] create_lookup [of sz] index_range by (auto simp: bv.bits_def Test_lookup split: if_splits)

text \<open>A client's run: settings and clearings one after the other.\<close>

fun bv_run :: "(nat \<Rightarrow> bool) \<Rightarrow> bv_op list \<Rightarrow> bool \<times> Bitvec \<times> nat \<Rightarrow> (bool \<times> Bitvec \<times> nat) option" where
  "bv_run oom [] s = Some s"
| "bv_run oom (SetBit i # ops) (b, p, cnt) =
     (case sqlite3BitvecSet set_fuel oom cnt p i of
        None \<Rightarrow> None | Some (rc, p, cnt) \<Rightarrow> bv_run oom ops (b \<and> rc = SQLITE_OK, p, cnt))"
| "bv_run oom (ClearBit i # ops) (b, p, cnt) =
     (case sqlite3BitvecClear p i of None \<Rightarrow> None | Some p \<Rightarrow> bv_run oom ops (b, p, cnt))"

lemma bv_run_eq: "bv_run oom ops (b, p, cnt) = bv.run oom ops (b, p, cnt)"
proof (induction ops arbitrary: b p cnt)
  case (Cons op ops)
  show ?case
  proof (cases op)
    case (SetBit i)
    show ?thesis unfolding SetBit bv.run.simps bv_run.simps Cons.IH
      by (cases "sqlite3BitvecSet set_fuel oom cnt p i") (simp_all add: set_bit_oom_def split_def)
  next
    case (ClearBit i)
    show ?thesis unfolding ClearBit bv.run.simps bv_run.simps Cons.IH by (cases "sqlite3BitvecClear p i") simp_all
  qed
qed simp

section \<open>The properties\<close>

text \<open>C8: whatever the size of a bitmap, whatever calls to malloc fail and whatever bits in range
  are set and cleared in whatever order, every call returns; a test, of any index, answers
  whether it is in a set \<open>B\<close> that holds no bit the operations do not set, and that is exactly
  what the operations make of the empty set when every setting answered SQLITE_OK. The
  conversions from a hash table to a tree and the rebuilding of a hash table lose nothing.\<close>

theorem Bitvec_history:
  assumes "\<forall>op \<in> set ops. 1 \<le> op_bit op \<and> op_bit op \<le> sz"
  shows "\<exists>all_ok p cnt' B. bv_run oom ops (True, sqlite3BitvecCreate sz, cnt) = Some (all_ok, p, cnt') \<and>
    (\<forall>i. sqlite3BitvecTest (Some p) i = Some (i \<in> B)) \<and>
    B \<subseteq> fold abs_op ops {} \<and> (all_ok \<longrightarrow> B = fold abs_op ops {})"
proof -
  have c: "bv_ok (sqlite3BitvecCreate sz)" "iSize (sqlite3BitvecCreate sz) = sz" using create_ok [of sz] by simp_all
  from bv.run_history [OF c(1), where ops = ops and b = True and oom = oom and r = cnt] assms c(2) create_bits [of sz] obtain b p r where
    r: "bv_run oom ops (True, sqlite3BitvecCreate sz, cnt) = Some (b, p, r)" "bv_ok p"
      "bv.bits p \<subseteq> fold abs_op ops {}" "b \<longrightarrow> bv.bits p = fold abs_op ops {}" by (auto simp: bv_run_eq)
  then show ?thesis using bv.test_bits [OF r(2)] by blast
qed

lemma Bitvec_history_witness:
  "\<exists>all_ok p cnt' B. bv_run (\<lambda>n. n = 1) [SetBit 7, SetBit 5000, ClearBit 7, SetBit 131] (True, sqlite3BitvecCreate 5000, 0) = Some (all_ok, p, cnt') \<and>
    (\<forall>i. sqlite3BitvecTest (Some p) i = Some (i \<in> B)) \<and> B \<subseteq> {131, 5000} \<and> \<not> (all_ok \<and> B \<noteq> {131, 5000})"
proof -
  let ?ops = "[SetBit 7, SetBit 5000, ClearBit 7, SetBit 131]"
  have e: "fold abs_op ?ops {} = {131, 5000}" by auto
  have r: "\<forall>op \<in> set ?ops. 1 \<le> op_bit op \<and> op_bit op \<le> 5000" by simp
  show ?thesis using Bitvec_history [OF r, of "\<lambda>n. n = 1" 0] unfolding e imp_conv_disj de_Morgan_conj not_not .
qed

text \<open>C35: the well-formedness of bitmaps (the representation fits the size, a hash table has a free
  slot and reaches each of its values by probing, a sub-bitmap has the size of the divisor) holds
  after creation and is kept by setting and clearing a bit in range, failures of malloc included;
  the size never changes, and a setting answers SQLITE_OK or SQLITE_NOMEM.\<close>

theorem Bitvec_wf:
  assumes "bv_ok p" and "1 \<le> i" and "i \<le> iSize p"
  shows "bv_ok (sqlite3BitvecCreate sz) \<and> sqlite3BitvecSize (sqlite3BitvecCreate sz) = sz \<and>
    (\<exists>q. sqlite3BitvecClear p i = Some q \<and> bv_ok q \<and> sqlite3BitvecSize q = sqlite3BitvecSize p) \<and>
    (\<exists>rc q cnt'. sqlite3BitvecSet set_fuel oom cnt p i = Some (rc, q, cnt') \<and> bv_ok q \<and>
       sqlite3BitvecSize q = sqlite3BitvecSize p \<and> rc \<in> {SQLITE_OK, SQLITE_NOMEM})"
proof -
  have i: "i - 1 < iSize p" using assms(2,3) index_range by blast
  show ?thesis using create_ok [of sz] Set_ok [OF assms(1) i enough_fuel [OF assms(1)], of oom cnt] Clear_ok [OF assms(1) i]
    by (auto simp: sqlite3BitvecSize_def sqlite3BitvecClear_def set_spec_def)
qed

lemma Bitvec_wf_witness:
  "\<exists>rc q cnt'. sqlite3BitvecSet set_fuel (\<lambda>_. False) 0 (sqlite3BitvecCreate 10000) 9999 = Some (rc, q, cnt') \<and> bv_ok q \<and>
     rc \<in> {SQLITE_OK, SQLITE_NOMEM}"
proof -
  have "bv_ok (sqlite3BitvecCreate 10000)" "iSize (sqlite3BitvecCreate 10000) = 10000" using create_ok [OF unat_le_max, of 10000] by blast+
  with Bitvec_wf [of "sqlite3BitvecCreate 10000" 9999 0 "\<lambda>_. False" 0] show ?thesis by auto
qed

end
