(* ===== verification/Utf.thy ===== *)
theory Utf
  imports Prelude
begin

text \<open>
  Text encodings (utf.c in sqlite3.c): reading and writing characters in UTF-8 and UTF-16, also
  malformed ones, and the translation of a string. A string is the list of its bytes
  before the terminator, so reading at its end gives 0.
\<close>

section \<open>UTF-8\<close>

definition sqlite3Utf8Trans1 :: "nat list" where
  "sqlite3Utf8Trans1 =
     [0x00, 0x01, 0x02, 0x03, 0x04, 0x05, 0x06, 0x07,
      0x08, 0x09, 0x0a, 0x0b, 0x0c, 0x0d, 0x0e, 0x0f,
      0x10, 0x11, 0x12, 0x13, 0x14, 0x15, 0x16, 0x17,
      0x18, 0x19, 0x1a, 0x1b, 0x1c, 0x1d, 0x1e, 0x1f,
      0x00, 0x01, 0x02, 0x03, 0x04, 0x05, 0x06, 0x07,
      0x08, 0x09, 0x0a, 0x0b, 0x0c, 0x0d, 0x0e, 0x0f,
      0x00, 0x01, 0x02, 0x03, 0x04, 0x05, 0x06, 0x07,
      0x00, 0x01, 0x02, 0x03, 0x00, 0x01, 0x00, 0x00]"

definition continues :: "byte \<Rightarrow> bool" where
  "continues b \<longleftrightarrow> b AND 0xc0 = 0x80"

text \<open>The loop over the bytes that continue a character.\<close>

fun utf8_tail :: "u32 \<Rightarrow> byte list \<Rightarrow> u32 \<times> byte list" where
  "utf8_tail c [] = (c, [])"
| "utf8_tail c (b # z) = (if continues b then utf8_tail (push_bit 6 c + (0x3f AND ucast b)) z else (c, b # z))"

definition utf8_value :: "u32 \<Rightarrow> u32" where
  "utf8_value c = (if c < 0x80 \<or> c AND 0xFFFFF800 = 0xD800 \<or> c AND 0xFFFFFFFE = 0xFFFE then 0xFFFD else c)"

fun sqlite3Utf8Read :: "byte list \<Rightarrow> u32 \<times> byte list" where
  "sqlite3Utf8Read [] = (0, [])"
| "sqlite3Utf8Read (b # z) =
     (if b \<ge> 0xc0 then (let (c, z) = utf8_tail (of_nat (sqlite3Utf8Trans1 ! (unat b - 0xc0))) z in (utf8_value c, z))
      else (ucast b, z))"

fun SQLITE_SKIP_UTF8 :: "byte list \<Rightarrow> byte list" where
  "SQLITE_SKIP_UTF8 [] = []"
| "SQLITE_SKIP_UTF8 (b # z) = (if b \<ge> 0xc0 then dropWhile continues z else z)"

definition WRITE_UTF8 :: "u32 \<Rightarrow> byte list" where
  "WRITE_UTF8 c =
     (if c < 0x80 then [ucast (c AND 0xFF)]
      else if c < 0x800 then [0xC0 + ucast (drop_bit 6 c AND 0x1F), 0x80 + ucast (c AND 0x3F)]
      else if c < 0x10000 then
        [0xE0 + ucast (drop_bit 12 c AND 0x0F), 0x80 + ucast (drop_bit 6 c AND 0x3F), 0x80 + ucast (c AND 0x3F)]
      else
        [0xF0 + ucast (drop_bit 18 c AND 0x07), 0x80 + ucast (drop_bit 12 c AND 0x3F),
         0x80 + ucast (drop_bit 6 c AND 0x3F), 0x80 + ucast (c AND 0x3F)])"

lemma length_dropWhile_cont: "length (dropWhile continues z) \<le> length z"
  by (rule length_dropWhile_le)

lemma utf8_tail_rest: "snd (utf8_tail c z) = dropWhile continues z"
  by (induction c z rule: utf8_tail.induct) auto

lemma read_skip: "snd (sqlite3Utf8Read z) = SQLITE_SKIP_UTF8 z"
  by (cases z) (simp_all add: utf8_tail_rest case_prod_beta Let_def)

lemma skip_shorter: "z \<noteq> [] \<Longrightarrow> length (SQLITE_SKIP_UTF8 z) < length z"
  using length_dropWhile_cont by (cases z) (auto simp: less_Suc_eq_le)

lemma read_shorter: "sqlite3Utf8Read z = (c, z') \<Longrightarrow> z \<noteq> [] \<Longrightarrow> length z' < length z"
  using skip_shorter [of z] read_skip [of z] by simp

text \<open>The loop of sqlite3Utf8CharLen; \<open>n\<close> is the number of bytes before \<open>zTerm\<close>.\<close>

function char_len :: "byte list \<Rightarrow> int \<Rightarrow> nat" where
  "char_len z n = (if z = [] \<or> hd z = 0 \<or> n \<le> 0 then 0
     else Suc (char_len (SQLITE_SKIP_UTF8 z) (n - int (length z - length (SQLITE_SKIP_UTF8 z)))))"
  by pat_completeness auto
termination by (relation "measure (\<lambda>(z, n). length z)") (auto simp: skip_shorter)

declare char_len.simps [simp del]

definition sqlite3Utf8CharLen :: "byte list \<Rightarrow> int \<Rightarrow> nat" where
  "sqlite3Utf8CharLen zIn nByte = char_len zIn (if nByte \<ge> 0 then nByte else int (length zIn) + 1)"

section \<open>UTF-16\<close>

definition WRITE_UTF16LE :: "u32 \<Rightarrow> byte list" where
  "WRITE_UTF16LE c =
     (if c \<le> 0xFFFF then [ucast (c AND 0x00FF), ucast (drop_bit 8 c AND 0x00FF)]
      else [ucast ((drop_bit 10 c AND 0x003F) + (drop_bit 10 (c - 0x10000) AND 0x00C0)),
            ucast (0x00D8 + (drop_bit 18 (c - 0x10000) AND 0x03)),
            ucast (c AND 0x00FF), ucast (0x00DC + (drop_bit 8 c AND 0x03))])"

definition WRITE_UTF16BE :: "u32 \<Rightarrow> byte list" where
  "WRITE_UTF16BE c =
     (if c \<le> 0xFFFF then [ucast (drop_bit 8 c AND 0x00FF), ucast (c AND 0x00FF)]
      else [ucast (0x00D8 + (drop_bit 18 (c - 0x10000) AND 0x03)),
            ucast ((drop_bit 10 c AND 0x003F) + (drop_bit 10 (c - 0x10000) AND 0x00C0)),
            ucast (0x00DC + (drop_bit 8 c AND 0x03)), ucast (c AND 0x00FF)])"

text \<open>A character from two units; a unit is two bytes in either order.\<close>

definition surrogate :: "u32 \<Rightarrow> bool" where
  "surrogate c \<longleftrightarrow> c \<ge> 0xd800 \<and> c < 0xe000"

definition combine :: "u32 \<Rightarrow> u32 \<Rightarrow> u32" where
  "combine c c2 = (c2 AND 0x03FF) + push_bit 10 (c AND 0x003F) + push_bit 10 ((c AND 0x03C0) + 0x0040)"

fun utf16_to_8 :: "(byte \<Rightarrow> byte \<Rightarrow> u32) \<Rightarrow> byte list \<Rightarrow> byte list" where
  "utf16_to_8 two (a # b # x # y # z) =
     (if surrogate (two a b) then WRITE_UTF8 (combine (two a b) (two x y)) @ utf16_to_8 two z
      else WRITE_UTF8 (two a b) @ utf16_to_8 two (x # y # z))"
| "utf16_to_8 two [a, b] = WRITE_UTF8 (two a b)"
| "utf16_to_8 two _ = []"

definition le_unit :: "byte \<Rightarrow> byte \<Rightarrow> u32" where
  "le_unit a b = ucast a + push_bit 8 (ucast b)"

definition be_unit :: "byte \<Rightarrow> byte \<Rightarrow> u32" where
  "be_unit a b = push_bit 8 (ucast a) + ucast b"

function utf8_to_16 :: "(u32 \<Rightarrow> byte list) \<Rightarrow> byte list \<Rightarrow> byte list" where
  "utf8_to_16 wr z = (if z = [] then [] else wr (fst (sqlite3Utf8Read z)) @ utf8_to_16 wr (snd (sqlite3Utf8Read z)))"
  by pat_completeness auto
termination by (relation "measure (\<lambda>(wr, z). length z)") (auto simp: read_skip skip_shorter)

declare utf8_to_16.simps [simp del]

fun swap_bytes :: "byte list \<Rightarrow> byte list" where
  "swap_bytes (a # b # z) = b # a # swap_bytes z"
| "swap_bytes z = z"

section \<open>Translation\<close>

datatype text_enc = SQLITE_UTF8 | SQLITE_UTF16LE | SQLITE_UTF16BE

text \<open>
  sqlite3VdbeMemTranslate: the bytes of the string and its encoding. Between the UTF-16 encodings the bytes are swapped in
  place; an odd last byte stays where it is. Otherwise \<open>len\<close> is the size of the buffer
  that is allocated. \<open>oom\<close> says that an allocation fails.
\<close>

definition translate_len :: "text_enc \<Rightarrow> byte list \<Rightarrow> nat" where
  "translate_len desiredEnc z = (if desiredEnc = SQLITE_UTF8 then 2 * (length z - length z mod 2) + 1 else 2 * length z + 2)"

definition sqlite3VdbeMemTranslate :: "bool \<Rightarrow> text_enc \<Rightarrow> text_enc \<Rightarrow> byte list \<Rightarrow> int \<times> text_enc \<times> byte list" where
  "sqlite3VdbeMemTranslate oom enc desiredEnc z =
     (if oom then (SQLITE_NOMEM, enc, if desiredEnc = SQLITE_UTF8 then take (length z - length z mod 2) z else z)
      else (SQLITE_OK, desiredEnc,
        case (enc, desiredEnc) of
          (SQLITE_UTF8, SQLITE_UTF16LE) \<Rightarrow> utf8_to_16 WRITE_UTF16LE z
        | (SQLITE_UTF8, _) \<Rightarrow> utf8_to_16 WRITE_UTF16BE z
        | (SQLITE_UTF16LE, SQLITE_UTF8) \<Rightarrow> utf16_to_8 le_unit (take (length z - length z mod 2) z)
        | (SQLITE_UTF16BE, SQLITE_UTF8) \<Rightarrow> utf16_to_8 be_unit (take (length z - length z mod 2) z)
        | _ \<Rightarrow> swap_bytes z))"

end
