(* ===== verification/Like.thy ===== *)
theory Like
  imports Utf Ctype
begin

text \<open>
  LIKE and GLOB (func.c in sqlite3.c): patternCompare on the bytes of a pattern and a string, the two
  functions of the interface and the SQL function. A pointer into a string is what is left
  of the string; \<open>peek\<close> is the byte it points to. \<open>sqlite3_like_count\<close> is for tests only.
\<close>

record compareInfo =
  matchAll :: byte
  matchOne :: byte
  matchSet :: byte
  noCase :: bool

definition globInfo :: compareInfo where
  "globInfo = \<lparr>matchAll = 0x2A, matchOne = 0x3F, matchSet = 0x5B, noCase = False\<rparr>"

definition likeInfoNorm :: compareInfo where
  "likeInfoNorm = \<lparr>matchAll = 0x25, matchOne = 0x5F, matchSet = 0, noCase = True\<rparr>"

definition likeInfoAlt :: compareInfo where
  "likeInfoAlt = \<lparr>matchAll = 0x25, matchOne = 0x5F, matchSet = 0, noCase = False\<rparr>"

definition SQLITE_MATCH :: int where "SQLITE_MATCH = 0"
definition SQLITE_NOMATCH :: int where "SQLITE_NOMATCH = 1"
definition SQLITE_NOWILDCARDMATCH :: int where "SQLITE_NOWILDCARDMATCH = 2"

definition peek :: "byte list \<Rightarrow> byte" where
  "peek z = (case z of [] \<Rightarrow> 0 | b # t \<Rightarrow> b)"

definition Utf8Read :: "byte list \<Rightarrow> u32 \<times> byte list" where
  "Utf8Read z = (if z \<noteq> [] \<and> peek z < 0x80 then (ucast (peek z), tl z) else sqlite3Utf8Read z)"

lemma Utf8Read_eq [simp]: "Utf8Read z = sqlite3Utf8Read z"
  by (cases z) (auto simp: Utf8Read_def peek_def word_less_nat_alt word_le_nat_alt)

lemma nonzero_shorter: "(c, z') = sqlite3Utf8Read z \<Longrightarrow> c \<noteq> 0 \<Longrightarrow> length z' < length z"
  using read_shorter [of z c z'] by (cases z) auto

lemma read_le: "sqlite3Utf8Read z = (c, z') \<Longrightarrow> length z' \<le> length z"
  using read_shorter [of z c z'] by (cases z) auto

section \<open>Sets of characters\<close>

text \<open>The loop over the members of a set: \<open>c\<close> is the character of the string, \<open>c2\<close> that of the pattern.\<close>

function set_loop :: "u32 \<Rightarrow> u32 \<Rightarrow> byte list \<Rightarrow> u32 \<Rightarrow> bool \<Rightarrow> u32 \<times> byte list \<times> bool" where
  "set_loop c c2 zPattern prior_c seen =
     (if c2 \<noteq> 0 \<and> c2 \<noteq> 0x5D then
        (if c2 = 0x2D \<and> peek zPattern \<noteq> 0x5D \<and> peek zPattern \<noteq> 0 \<and> prior_c > 0 then
           (let (c2, zPattern) = sqlite3Utf8Read zPattern;
                seen = (seen \<or> (c \<ge> prior_c \<and> c \<le> c2));
                (c2, zPattern) = sqlite3Utf8Read zPattern
            in set_loop c c2 zPattern 0 seen)
         else
           (let seen = (seen \<or> c = c2);
                prior_c = c2;
                (c2, zPattern) = sqlite3Utf8Read zPattern
            in set_loop c c2 zPattern prior_c seen))
      else (c2, zPattern, seen))"
  by pat_completeness auto
termination
proof (relation "measure (\<lambda>(c, c2, z, p, s). if c2 = 0 then 0 else Suc (length z))", goal_cases)
  case (2 c c2 z p s x c2' z' s' y c3 z'')
  have "length z'' \<le> length z'" using read_shorter [of z' c3 z''] 2(6,7) by (cases "z' = []") auto
  moreover have "length z' < length z" using read_shorter [of z c2' z'] 2(2,3,4) by (cases "z = []") (auto simp: peek_def)
  ultimately show ?case using 2(1) by simp
next
  case (3 c c2 z p s s' p' x c3 z')
  then show ?case using read_shorter [of z c3 z'] by (cases "z = []") auto
qed simp

declare set_loop.simps [simp del]

definition set_match :: "u32 \<Rightarrow> byte list \<Rightarrow> bool \<times> byte list" where
  "set_match c zPattern =
     (let (c2, zPattern) = sqlite3Utf8Read zPattern;
          (invert, c2, zPattern) =
            (if c2 = 0x5E then (case sqlite3Utf8Read zPattern of (c2, z) \<Rightarrow> (True, c2, z)) else (False, c2, zPattern));
          (seen, c2, zPattern) =
            (if c2 = 0x5D then (case sqlite3Utf8Read zPattern of (c2, z) \<Rightarrow> (c = 0x5D, c2, z)) else (False, c2, zPattern));
          (c2, zPattern, seen) = set_loop c c2 zPattern 0 seen
      in (c2 \<noteq> 0 \<and> seen \<noteq> invert, zPattern))"

lemma set_loop_le: "set_loop c c2 z p s = (c', z', s') \<Longrightarrow> length z' \<le> length z"
proof (induction c c2 z p s rule: set_loop.induct)
  case (1 c c2 z p s)
  obtain c3 z3 where r: "sqlite3Utf8Read z = (c3, z3)" by fastforce
  obtain c4 z4 where r': "sqlite3Utf8Read z3 = (c4, z4)" by fastforce
  note IH = 1(1) [OF _ _ r [symmetric] refl refl r' [symmetric] refl] 1(2) [OF _ _ refl refl r [symmetric] refl]
  show ?case
    using 1(3) IH read_le [OF r] read_le [OF r'] by (auto simp: set_loop.simps [of c c2 z p s] r r' Let_def split: if_splits)
qed

lemma set_match_le: "set_match c z = (b, z') \<Longrightarrow> length z' \<le> length z"
proof -
  assume a: "set_match c z = (b, z')"
  obtain c1 z1 where r1: "sqlite3Utf8Read z = (c1, z1)" by fastforce
  obtain c2 z2 where r2: "sqlite3Utf8Read z1 = (c2, z2)" by fastforce
  obtain c3 z3 where r3: "sqlite3Utf8Read z2 = (c3, z3)" by fastforce
  show ?thesis using a r1 r2 r3 read_le [OF r1] read_le [OF r2] read_le [OF r3] set_loop_le
    by (fastforce simp: set_match_def Let_def split: if_splits prod.splits)
qed

section \<open>Comparing\<close>

text \<open>
  After a wildcard: past the wildcards that follow, and as many characters as there are wildcards for one; \<open>None\<close> when the
  string is too short. \<open>matchAll\<close> is not 0 where this loop is entered.
\<close>

function star_loop :: "compareInfo \<Rightarrow> byte list \<Rightarrow> byte list \<Rightarrow> (u32 \<times> byte list \<times> byte list) option" where
  "star_loop pInfo zPattern zString =
     (let (c, zPattern) = Utf8Read zPattern
      in if c \<noteq> 0 \<and> (c = ucast (matchAll pInfo) \<or> c = ucast (matchOne pInfo) \<and> matchOne pInfo \<noteq> 0) then
           (if c = ucast (matchOne pInfo) then
              (case sqlite3Utf8Read zString of
                 (c2, zString) \<Rightarrow> if c2 = 0 then None else star_loop pInfo zPattern zString)
            else star_loop pInfo zPattern zString)
         else Some (c, zPattern, zString))"
  by pat_completeness auto
termination by (relation "measure (\<lambda>(i, p, z). length p)") (auto dest: nonzero_shorter)

declare star_loop.simps [simp del]

lemma star_loop_le: "star_loop i p z = Some (c, p', z') \<Longrightarrow> length p' \<le> length p \<and> (c \<noteq> 0 \<longrightarrow> length p' < length p)"
proof (induction i p z rule: star_loop.induct)
  case (1 i p z)
  obtain c1 p1 where r: "sqlite3Utf8Read p = (c1, p1)" by fastforce
  obtain c2 z2 where r': "sqlite3Utf8Read z = (c2, z2)" by fastforce
  have r0: "(c1, p1) = Utf8Read p" using r by simp
  note IH = 1(1) [OF r0 refl _ _ r' [symmetric]] 1(2) [OF r0 refl]
  have "c1 \<noteq> 0 \<longrightarrow> length p1 < length p" using nonzero_shorter [OF r [symmetric]] by blast
  then show ?case
    using 1(3) IH read_le [OF r] by (auto simp: star_loop.simps [of i p z] r r' Let_def split: if_splits)
qed

lemma peek_skip: "peek z \<noteq> 0 \<Longrightarrow> length (SQLITE_SKIP_UTF8 z) < length z"
  using skip_shorter [of z] by (cases z) (auto simp: peek_def)

lemma tail_shorter: "peek (dropWhile P z) \<noteq> 0 \<Longrightarrow> length (tl (dropWhile P z)) < length z"
  using length_dropWhile_le [of P z] by (cases "dropWhile P z") (auto simp: peek_def)

text \<open>The bytes at which strcspn stops.\<close>

definition zStop :: "compareInfo \<Rightarrow> u32 \<Rightarrow> byte list" where
  "zStop pInfo c = (if noCase pInfo then [sqlite3Toupper (ucast c), sqlite3Tolower (ucast c)] else [ucast c])"

text \<open>The character of the string fits a character of the pattern; \<open>escaped\<close> says that the latter was escaped.\<close>

definition same_char :: "compareInfo \<Rightarrow> bool \<Rightarrow> u32 \<Rightarrow> u32 \<Rightarrow> bool" where
  "same_char pInfo escaped c c2 \<longleftrightarrow>
     c = c2 \<or> noCase pInfo \<and> sqlite3Tolower (ucast c) = sqlite3Tolower (ucast c2) \<and> c < 0x80 \<and> c2 < 0x80 \<or>
     c = ucast (matchOne pInfo) \<and> \<not> escaped \<and> c2 \<noteq> 0"

text \<open>
  The loop of patternCompare, and its two searches: for a set after a wildcard, and for the first
  character after a wildcard. \<open>zEscaped\<close> is the pointer past the last escaped character.
\<close>

function (sequential) compare_loop :: "compareInfo \<Rightarrow> u32 \<Rightarrow> byte list option \<Rightarrow> byte list \<Rightarrow> byte list \<Rightarrow> int"
  and search_set :: "compareInfo \<Rightarrow> u32 \<Rightarrow> byte list \<Rightarrow> byte list \<Rightarrow> int"
  and search_char :: "compareInfo \<Rightarrow> u32 \<Rightarrow> u32 \<Rightarrow> byte list \<Rightarrow> byte list \<Rightarrow> int" where
  "compare_loop pInfo matchOther zEscaped zPattern zString =
     (case Utf8Read zPattern of (c, p) \<Rightarrow>
        if c = 0 then (if peek zString = 0 then SQLITE_MATCH else SQLITE_NOMATCH)
        else if c = ucast (matchAll pInfo) then
          (case star_loop pInfo p zString of
             None \<Rightarrow> SQLITE_NOWILDCARDMATCH
           | Some (c, p, z) \<Rightarrow>
               if c = 0 then SQLITE_MATCH
               else if c = matchOther then
                 (if matchSet pInfo = 0 then
                    (case sqlite3Utf8Read p of (c, p') \<Rightarrow>
                       if c = 0 then SQLITE_NOWILDCARDMATCH else search_char pInfo matchOther c p' z)
                  else search_set pInfo matchOther (ucast matchOther # p) z)
               else search_char pInfo matchOther c p z)
        else if c = matchOther \<and> matchSet pInfo \<noteq> 0 then
          (case sqlite3Utf8Read zString of (c, z) \<Rightarrow>
             if c = 0 then SQLITE_NOMATCH
             else (case set_match c p of (ok, p') \<Rightarrow>
               if ok then compare_loop pInfo matchOther zEscaped p' z else SQLITE_NOMATCH))
        else if c = matchOther then
          (case sqlite3Utf8Read p of (c, p') \<Rightarrow>
             if c = 0 then SQLITE_NOMATCH
             else (case Utf8Read zString of (c2, z) \<Rightarrow>
               if same_char pInfo True c c2 then compare_loop pInfo matchOther (Some p') p' z else SQLITE_NOMATCH))
        else
          (case Utf8Read zString of (c2, z) \<Rightarrow>
             if same_char pInfo (zEscaped = Some p) c c2 then compare_loop pInfo matchOther zEscaped p z else SQLITE_NOMATCH))"
| "search_set pInfo matchOther zPattern zString =
     (if peek zString = 0 then SQLITE_NOWILDCARDMATCH
      else (let bMatch = compare_loop pInfo matchOther None zPattern zString
            in if bMatch \<noteq> SQLITE_NOMATCH then bMatch
               else search_set pInfo matchOther zPattern (SQLITE_SKIP_UTF8 zString)))"
| "search_char pInfo matchOther c zPattern zString =
     (if c < 0x80 then
        (let z = dropWhile (\<lambda>b. b \<noteq> 0 \<and> b \<notin> set (zStop pInfo c)) zString
         in if peek z = 0 then SQLITE_NOWILDCARDMATCH
            else (let bMatch = compare_loop pInfo matchOther None zPattern (tl z)
                  in if bMatch \<noteq> SQLITE_NOMATCH then bMatch else search_char pInfo matchOther c zPattern (tl z)))
      else
        (case Utf8Read zString of (c2, z) \<Rightarrow>
           if c2 = 0 then SQLITE_NOWILDCARDMATCH
           else if c2 \<noteq> c then search_char pInfo matchOther c zPattern z
           else (let bMatch = compare_loop pInfo matchOther None zPattern z
                 in if bMatch \<noteq> SQLITE_NOMATCH then bMatch else search_char pInfo matchOther c zPattern z)))"
  by pat_completeness auto
termination
proof (relation "inv_image (less_than <*lex*> less_than <*lex*> less_than)
    (\<lambda>x. case x of Inl (i, m, e, p, z) \<Rightarrow> (length p, length z, 0)
      | Inr (Inl (i, m, p, z)) \<Rightarrow> (length p, length z, 1 :: nat)
      | Inr (Inr (i, m, c, p, z)) \<Rightarrow> (length p, length z, 1))")
qed (auto dest!: nonzero_shorter star_loop_le set_match_le [OF sym] peek_skip tail_shorter)

declare compare_loop.simps [simp del] search_set.simps [simp del] search_char.simps [simp del]

definition patternCompare :: "compareInfo \<Rightarrow> u32 \<Rightarrow> byte list \<Rightarrow> byte list \<Rightarrow> int" where
  "patternCompare pInfo matchOther zPattern zString = compare_loop pInfo matchOther None zPattern zString"

section \<open>The interface\<close>

text \<open>A null pointer is \<open>None\<close>.\<close>

definition sqlite3_strglob :: "byte list option \<Rightarrow> byte list option \<Rightarrow> int" where
  "sqlite3_strglob zGlobPattern zString =
     (case zString of
        None \<Rightarrow> if zGlobPattern \<noteq> None then 1 else 0
      | Some z \<Rightarrow> (case zGlobPattern of None \<Rightarrow> 1 | Some p \<Rightarrow> patternCompare globInfo 0x5B p z))"

definition sqlite3_strlike :: "byte list option \<Rightarrow> byte list option \<Rightarrow> u32 \<Rightarrow> int" where
  "sqlite3_strlike zPattern zStr esc =
     (case zStr of
        None \<Rightarrow> if zPattern \<noteq> None then 1 else 0
      | Some z \<Rightarrow> (case zPattern of None \<Rightarrow> 1 | Some p \<Rightarrow> patternCompare likeInfoNorm esc p z))"

text \<open>
  The SQL function: \<open>argv0\<close> is the pattern, \<open>argv1\<close> the string, \<open>argv2\<close> the escape character where there is
  one; \<open>None\<close> is NULL. \<open>limit\<close> is the limit on the length of patterns.
\<close>

datatype like_result = Like_error string | Like_null | Like_int int

definition escape_info :: "u32 \<Rightarrow> compareInfo \<Rightarrow> compareInfo" where
  "escape_info escape pInfo =
     (if escape = ucast (matchAll pInfo) \<or> escape = ucast (matchOne pInfo)
      then pInfo\<lparr>matchAll := (if escape = ucast (matchAll pInfo) then 0 else matchAll pInfo),
                 matchOne := (if escape = ucast (matchOne pInfo) then 0 else matchOne pInfo)\<rparr>
      else pInfo)"

definition like_compare :: "compareInfo \<Rightarrow> u32 \<Rightarrow> byte list option \<Rightarrow> byte list option \<Rightarrow> like_result" where
  "like_compare pInfo escape zB zA =
     (case (zA, zB) of
        (Some zA, Some zB) \<Rightarrow> Like_int (if patternCompare pInfo escape zB zA = SQLITE_MATCH then 1 else 0)
      | _ \<Rightarrow> Like_null)"

definition likeFunc :: "compareInfo \<Rightarrow> nat \<Rightarrow> byte list option \<Rightarrow> byte list option \<Rightarrow> byte list option option \<Rightarrow> like_result" where
  "likeFunc pInfo limit argv0 argv1 argv2 =
     (if length (case argv0 of None \<Rightarrow> [] | Some z \<Rightarrow> z) > limit then Like_error ''LIKE or GLOB pattern too complex''
      else
        (case argv2 of
           None \<Rightarrow> like_compare pInfo (ucast (matchSet pInfo)) argv0 argv1
         | Some None \<Rightarrow> Like_null
         | Some (Some zEsc) \<Rightarrow>
             if sqlite3Utf8CharLen zEsc (-1) \<noteq> 1 then Like_error ''ESCAPE expression must be a single character''
             else (let escape = fst (sqlite3Utf8Read zEsc)
                   in like_compare (escape_info escape pInfo) escape argv0 argv1)))"

end
