(* ===== verification/Utf_Props.thy ===== *)
theory Utf_Props
  imports Utf
begin

text \<open>
  What the encodings promise: a character that is written is read back, in UTF-8 and through UTF-16, and
  the buffer for a translation is large enough for every input, malformed ones included.
\<close>

section \<open>Bytes of UTF-8\<close>

lemma cont_table: "list_all (\<lambda>n. continues (0x80 + word_of_nat n) \<and> (0x3f :: u32) AND ucast (0x80 + word_of_nat n :: byte) = word_of_nat n) [0..<64]"
  by code_simp

lemma lead_table:
  "list_all (\<lambda>n. (0xC0 :: byte) \<le> 0xC0 + word_of_nat n \<and> sqlite3Utf8Trans1 ! (unat (0xC0 + word_of_nat n :: byte) - 0xc0) = n) [0..<32]"
  "list_all (\<lambda>n. (0xC0 :: byte) \<le> 0xE0 + word_of_nat n \<and> sqlite3Utf8Trans1 ! (unat (0xE0 + word_of_nat n :: byte) - 0xc0) = n) [0..<16]"
  "list_all (\<lambda>n. (0xC0 :: byte) \<le> 0xF0 + word_of_nat n \<and> sqlite3Utf8Trans1 ! (unat (0xF0 + word_of_nat n :: byte) - 0xc0) = n) [0..<8]"
  by code_simp+

lemma table_entry: "list_all P [0..<k] \<Longrightarrow> n < k \<Longrightarrow> P n"
  by (simp add: list_all_iff)

lemma tail_cont: "n < 64 \<Longrightarrow> utf8_tail (word_of_nat a) ((0x80 + word_of_nat n) # z) = utf8_tail (word_of_nat (a * 64 + n)) z"
  using table_entry [OF cont_table, of n] by (simp add: push_bit_eq_mult mult.commute)

lemma tail_end: "z = [] \<or> \<not> continues (hd z) \<Longrightarrow> utf8_tail c z = (c, z)"
  by (cases z) auto

lemma mask_nat: "(ucast (drop_bit k (c :: u32) AND mask j) :: byte) = word_of_nat (unat c div 2 ^ k mod 2 ^ j)"
proof -
  have "unat (drop_bit k c AND mask j) = unat c div 2 ^ k mod 2 ^ j"
    unfolding take_bit_eq_mask [symmetric] unsigned_take_bit_eq unat_drop_bit_eq by (simp only: take_bit_eq_mod drop_bit_eq_div)
  then show ?thesis by (metis of_nat_unat)
qed

lemma masks: "(0x3F :: u32) = mask 6" "(0x1F :: u32) = mask 5" "(0x0F :: u32) = mask 4" "(0x07 :: u32) = mask 3" "(0xFF :: u32) = mask 8"
  by (simp_all add: mask_numeral)

lemma write_cases:
  "c < 0x80 \<Longrightarrow> WRITE_UTF8 c = [word_of_nat (unat c mod 256)]"
  "\<not> c < 0x80 \<Longrightarrow> c < 0x800 \<Longrightarrow> WRITE_UTF8 c = [0xC0 + word_of_nat (unat c div 64 mod 32), 0x80 + word_of_nat (unat c mod 64)]"
  "\<not> c < 0x800 \<Longrightarrow> c < 0x10000 \<Longrightarrow> WRITE_UTF8 c =
    [0xE0 + word_of_nat (unat c div 4096 mod 16), 0x80 + word_of_nat (unat c div 64 mod 64), 0x80 + word_of_nat (unat c mod 64)]"
  "\<not> c < 0x10000 \<Longrightarrow> WRITE_UTF8 c =
    [0xF0 + word_of_nat (unat c div 262144 mod 8), 0x80 + word_of_nat (unat c div 4096 mod 64),
     0x80 + word_of_nat (unat c div 64 mod 64), 0x80 + word_of_nat (unat c mod 64)]"
proof -
  have lt: "\<not> c < 0x800 \<Longrightarrow> \<not> c < 0x80" "\<not> c < 0x10000 \<Longrightarrow> \<not> c < 0x800" by (simp_all add: word_less_nat_alt)
  note m = mask_nat [of 0 c 6] mask_nat [of 0 c 8] mask_nat [of 6 c 5] mask_nat [of 6 c 6] mask_nat [of 12 c 4] mask_nat [of 12 c 6] mask_nat [of 18 c 3]
  show "c < 0x80 \<Longrightarrow> WRITE_UTF8 c = [word_of_nat (unat c mod 256)]" using m by (simp add: WRITE_UTF8_def masks)
  show "\<not> c < 0x80 \<Longrightarrow> c < 0x800 \<Longrightarrow> WRITE_UTF8 c = [0xC0 + word_of_nat (unat c div 64 mod 32), 0x80 + word_of_nat (unat c mod 64)]"
    using m by (simp add: WRITE_UTF8_def masks)
  show "\<not> c < 0x800 \<Longrightarrow> c < 0x10000 \<Longrightarrow> WRITE_UTF8 c =
    [0xE0 + word_of_nat (unat c div 4096 mod 16), 0x80 + word_of_nat (unat c div 64 mod 64), 0x80 + word_of_nat (unat c mod 64)]"
    using m lt by (simp add: WRITE_UTF8_def masks)
  show "\<not> c < 0x10000 \<Longrightarrow> WRITE_UTF8 c =
    [0xF0 + word_of_nat (unat c div 262144 mod 8), 0x80 + word_of_nat (unat c div 4096 mod 64),
     0x80 + word_of_nat (unat c div 64 mod 64), 0x80 + word_of_nat (unat c mod 64)]"
    using m lt by (simp add: WRITE_UTF8_def masks)
qed

lemma split_64: "n div (k * 64) * 64 + n div k mod 64 = n div (k :: nat)"
  by (simp only: div_mult2_eq div_mult_mod_eq)

lemma read_write:
  assumes "c < 0x200000" and "z = [] \<or> \<not> continues (hd z)"
  shows "sqlite3Utf8Read (WRITE_UTF8 c @ z) = (if c < 0x80 then c else utf8_value c, z)"
proof -
  have c: "unat c < 0x200000" using assms(1) by (simp add: word_less_nat_alt)
  consider "c < 0x80" | "\<not> c < 0x80" "c < 0x800" | "\<not> c < 0x800" "c < 0x10000" | "\<not> c < 0x10000" by blast
  then show ?thesis
  proof cases
    case 1
    then have "unat c < 128" by (simp add: word_less_nat_alt)
    then have u: "unat (word_of_nat (unat c mod 256) :: byte) = unat c" by (simp add: unsigned_ucast_eq take_bit_nat_eq_self)
    then have "\<not> (0xC0 :: byte) \<le> word_of_nat (unat c mod 256)" using \<open>unat c < 128\<close> by (simp add: word_le_nat_alt)
    moreover have "ucast (word_of_nat (unat c mod 256) :: byte) = c" by (metis u of_nat_unat ucast_id)
    ultimately show ?thesis using 1 by (simp add: write_cases)
  next
    case 2
    have n: "unat c div 64 < 32" using 2(2) by (simp add: word_less_nat_alt)
    with 2 table_entry [OF lead_table(1) n] show ?thesis
      by (simp add: write_cases tail_cont tail_end [OF assms(2)] del: of_nat_add of_nat_mult utf8_tail.simps)
  next
    case 3
    have n: "unat c div 4096 < 16" using 3(2) by (simp add: word_less_nat_alt)
    have v: "(unat c div 4096 * 64 + unat c div 64 mod 64) * 64 + unat c mod 64 = unat c" using split_64 [of "unat c" 4096] split_64 [of "unat c" 64] split_64 [of "unat c" 1] by simp
    then have v': "4096 * (unat c div 4096) + unat c div 64 mod 64 * 64 + unat c mod 64 = unat c" by (simp add: distrib_right)
    have "\<not> c < 0x80" using 3(1) by (simp add: word_less_nat_alt)
    with 3 table_entry [OF lead_table(2) n] n show ?thesis
      by (simp add: write_cases tail_cont tail_end [OF assms(2)] v' del: of_nat_add of_nat_mult utf8_tail.simps)
  next
    case 4
    have n: "unat c div 262144 < 8" using c by simp
    have v: "((unat c div 262144 * 64 + unat c div 4096 mod 64) * 64 + unat c div 64 mod 64) * 64 + unat c mod 64 = unat c" using split_64 [of "unat c" 4096] split_64 [of "unat c" 64] split_64 [of "unat c" 1] by simp
    then have v': "262144 * (unat c div 262144) + 4096 * (unat c div 4096 mod 64) + unat c div 64 mod 64 * 64 + unat c mod 64 = unat c" by (simp add: distrib_right)
    have "\<not> c < 0x80" using 4 by (simp add: word_less_nat_alt)
    with 4 table_entry [OF lead_table(3) n] n show ?thesis
      by (simp add: write_cases tail_cont tail_end [OF assms(2)] v' del: of_nat_add of_nat_mult utf8_tail.simps)
  qed
qed

section \<open>Strings of characters\<close>

text \<open>The characters of a string, as the routines read them.\<close>

function codes :: "byte list \<Rightarrow> u32 list" where
  "codes z = (if z = [] then [] else fst (sqlite3Utf8Read z) # codes (snd (sqlite3Utf8Read z)))"
  by pat_completeness auto
termination by (relation "measure length") (auto simp: read_skip skip_shorter)

declare codes.simps [simp del]

lemma codes_Nil [simp]: "codes [] = []"
  by (simp add: codes.simps)

lemma codes_step: "z \<noteq> [] \<Longrightarrow> codes z = fst (sqlite3Utf8Read z) # codes (snd (sqlite3Utf8Read z))"
  by (subst codes.simps) simp

lemma to_16_codes: "utf8_to_16 wr z = concat (map wr (codes z))"
proof (induction wr z rule: utf8_to_16.induct)
  case (1 wr z)
  then show ?case by (subst utf8_to_16.simps) (auto simp: codes_step)
qed

text \<open>The characters that every encoding keeps; U+FFFE and U+FFFF are replaced.\<close>

definition scalar :: "u32 \<Rightarrow> bool" where
  "scalar c \<longleftrightarrow> c < 0x110000 \<and> \<not> surrogate c \<and> c \<noteq> 0xFFFE \<and> c \<noteq> 0xFFFF"

lemma high_bits: "(c :: u32) AND NOT (mask k) = v \<Longrightarrow> unat c div 2 ^ k = unat v div 2 ^ k"
proof -
  assume v: "c AND NOT (mask k) = v"
  have "drop_bit k (c AND NOT (mask k)) = drop_bit k c" by (rule bit_word_eqI) (auto simp: bit_simps dest: bit_imp_le_length)
  then have "unat (drop_bit k c) = unat (drop_bit k v)" using v by simp
  then show ?thesis unfolding unat_drop_bit_eq by (simp only: drop_bit_eq_div)
qed

lemma scalar_value: "scalar c \<Longrightarrow> \<not> c < 0x80 \<Longrightarrow> utf8_value c = c"
proof -
  assume s: "scalar c" and c: "\<not> c < 0x80"
  have m: "(0xFFFFF800 :: u32) = NOT (mask 11)" "(0xFFFFFFFE :: u32) = NOT (mask 1)" by (simp_all add: mask_numeral)
  have "c AND 0xFFFFF800 \<noteq> 0xD800"
  proof
    assume "c AND 0xFFFFF800 = 0xD800"
    then have "unat c div 2048 = 27" using high_bits [of c 11 "0xD800"] by (simp add: m)
    then have "55296 \<le> unat c" "unat c < 57344" by linarith+
    with s show False by (simp add: scalar_def surrogate_def word_less_nat_alt word_le_nat_alt)
  qed
  moreover have "c AND 0xFFFFFFFE \<noteq> 0xFFFE"
  proof
    assume "c AND 0xFFFFFFFE = 0xFFFE"
    then have "unat c div 2 = 32767" using high_bits [of c 1 "0xFFFE"] by (simp add: m)
    then have "unat c = 65534 \<or> unat c = 65535" by linarith
    with s show False by (auto simp: scalar_def word_unat_eq_iff)
  qed
  ultimately show "utf8_value c = c" using c by (simp add: utf8_value_def)
qed

lemma write_starts: "WRITE_UTF8 c \<noteq> [] \<and> \<not> continues (hd (WRITE_UTF8 c))"
proof -
  have lead: "\<not> continues (word_of_nat n)" if "n < 128 \<or> 192 \<le> n" "n < 256" for n
  proof -
    have "list_all (\<lambda>n. continues (word_of_nat n) \<longrightarrow> 128 \<le> n \<and> n < 192) [0..<256]" by code_simp
    with that show ?thesis by (auto dest!: table_entry [of _ 256 n])
  qed
  have a: "(0xC0 :: byte) + word_of_nat n = word_of_nat (192 + n)" "(0xE0 :: byte) + word_of_nat n = word_of_nat (224 + n)"
    "(0xF0 :: byte) + word_of_nat n = word_of_nat (240 + n)" for n by simp_all
  consider "c < 0x80" | "\<not> c < 0x80" "c < 0x800" | "\<not> c < 0x800" "c < 0x10000" | "\<not> c < 0x10000" by blast
  then show ?thesis
  proof cases
    case 1
    then show ?thesis using lead [of "unat c mod 256"] by (simp add: write_cases word_less_nat_alt)
  qed (simp_all add: write_cases a lead del: of_nat_add)
qed

lemma codes_write: "\<forall>c \<in> set cs. scalar c \<Longrightarrow> codes (concat (map WRITE_UTF8 cs)) = cs"
proof (induction cs)
  case (Cons c cs)
  let ?z = "concat (map WRITE_UTF8 cs)"
  have "?z = [] \<or> \<not> continues (hd ?z)" using write_starts [of "hd cs"] by (cases cs) simp_all
  moreover have "c < 0x200000" using Cons.prems by (simp add: scalar_def word_less_nat_alt)
  ultimately have "sqlite3Utf8Read (WRITE_UTF8 c @ ?z) = (c, ?z)" using read_write [of c ?z] scalar_value [of c] Cons.prems by auto
  then show ?case using Cons write_starts [of c] by (simp add: codes_step)
qed simp

section \<open>UTF-16\<close>

lemma byte_value: "n < 256 \<Longrightarrow> (ucast (word_of_nat n :: byte) :: u32) = word_of_nat n"
proof -
  assume "n < 256"
  then have "unat (word_of_nat n :: byte) = n" by (simp add: unsigned_of_nat take_bit_nat_eq_self)
  then show "(ucast (word_of_nat n :: byte) :: u32) = word_of_nat n" by (metis of_nat_unat)
qed

lemma units: "a < 256 \<Longrightarrow> b < 256 \<Longrightarrow> le_unit (word_of_nat a) (word_of_nat b) = word_of_nat (a + 256 * b)"
  "a < 256 \<Longrightarrow> b < 256 \<Longrightarrow> be_unit (word_of_nat b) (word_of_nat a) = word_of_nat (a + 256 * b)"
  by (simp_all add: le_unit_def be_unit_def byte_value push_bit_eq_mult del: of_nat_unat)

lemma mask_unat: "unat ((c :: u32) AND mask j) = unat c mod 2 ^ j"
  unfolding take_bit_eq_mask [symmetric] unsigned_take_bit_eq by (simp only: take_bit_eq_mod)

lemma low_mask: "drop_bit k (c :: u32) AND mask j = word_of_nat (unat c div 2 ^ k mod 2 ^ j)"
proof -
  have "unat (drop_bit k c AND mask j) = unat c div 2 ^ k mod 2 ^ j"
    unfolding mask_unat unat_drop_bit_eq by (simp only: drop_bit_eq_div)
  then show ?thesis by (metis of_nat_unat ucast_id)
qed

lemma high_mask: "k + j \<le> 32 \<Longrightarrow> (c :: u32) AND push_bit k (mask j) = word_of_nat (unat c div 2 ^ k mod 2 ^ j * 2 ^ k)"
proof -
  assume "k + j \<le> 32"
  have "c AND push_bit k (mask j) = push_bit k (drop_bit k c AND mask j)" by (rule bit_word_eqI) (auto simp: bit_simps)
  also have "drop_bit k c AND mask j = word_of_nat (unat c div 2 ^ k mod 2 ^ j)" by (rule low_mask)
  finally show ?thesis by (simp add: push_bit_eq_mult mult.commute)
qed

lemma mid_mask: "k + j \<le> 32 \<Longrightarrow> drop_bit m (c :: u32) AND push_bit k (mask j) = word_of_nat (unat c div 2 ^ m div 2 ^ k mod 2 ^ j * 2 ^ k)"
  using high_mask [of k j "drop_bit m c"] unfolding unat_drop_bit_eq by (simp only: drop_bit_eq_div)

lemma wide_masks: "(0x00FF :: u32) = mask 8" "(0x03FF :: u32) = mask 10" "(0x003F :: u32) = mask 6" "(0x03 :: u32) = mask 2"
  "(0x00C0 :: u32) = push_bit 6 (mask 2)" "(0x03C0 :: u32) = push_bit 6 (mask 4)"
  by (simp_all add: mask_numeral)

text \<open>The two surrogates of \<open>0x10000 + d\<close>.\<close>

lemma combine_nat: "d < 0x100000 \<Longrightarrow> combine (word_of_nat (0xD800 + d div 1024)) (word_of_nat (0xDC00 + d mod 1024)) = word_of_nat (0x10000 + d)"
proof -
  assume d: "d < 0x100000"
  let ?c = "word_of_nat (0xD800 + d div 1024) :: u32" and ?c2 = "word_of_nat (0xDC00 + d mod 1024) :: u32"
  have u: "unat ?c = 0xD800 + d div 1024" "unat ?c2 = 0xDC00 + d mod 1024"
    using d by (simp_all add: unsigned_of_nat take_bit_nat_eq_self del: of_nat_add)
  have m: "?c2 AND mask 10 = word_of_nat (d mod 1024)" "?c AND mask 6 = word_of_nat (d div 1024 mod 64)"
    using low_mask [of 0 ?c2 10] low_mask [of 0 ?c 6] u by (simp_all add: mod_add_eq [symmetric] del: of_nat_add)
  have h: "?c AND push_bit 6 (mask 4) = word_of_nat (d div 65536 * 64)"
  proof -
    have "(0xD800 + d div 1024) div 64 mod 16 = d div 65536"
    proof -
      have "(0xD800 + d div 1024) div 64 = 864 + d div 65536" by (simp add: div_mult2_eq [of d 1024 64, simplified] div_add1_eq)
      moreover have "d div 65536 < 16" using d by simp
      ultimately show ?thesis using mod_mult_self2 [of "d div 65536" 16 54] by (simp add: add.commute)
    qed
    then show ?thesis using high_mask [of 6 4 ?c] u by (simp del: of_nat_add)
  qed
  have e: "d mod 1024 + d div 1024 mod 64 * 1024 + (d div 65536 * 64 + 64) * 1024 = 0x10000 + d"
  proof -
    have "d div 1024 = d div 65536 * 64 + d div 1024 mod 64" using split_64 [of d 1024] by simp
    then have "d div 1024 * 1024 = (d div 65536 * 64 + d div 1024 mod 64) * 1024" by simp
    then show ?thesis using div_mult_mod_eq [of d 1024] by (simp add: distrib_right)
  qed
  have "combine ?c ?c2 = word_of_nat (d mod 1024 + d div 1024 mod 64 * 1024 + (d div 65536 * 64 + 64) * 1024)"
    unfolding combine_def wide_masks m h by (simp add: push_bit_eq_mult mult.commute)
  then show ?thesis by (simp only: e)
qed

lemma narrow: "ucast (word_of_nat n :: u32) = (word_of_nat n :: byte)"
proof (rule word_unat_eq_iff [THEN iffD2])
  show "unat (ucast (word_of_nat n :: u32) :: byte) = unat (word_of_nat n :: byte)"
    unfolding unsigned_ucast_eq unsigned_of_nat by simp
qed

lemma narrow_sum: "ucast (numeral k + word_of_nat n :: u32) = (numeral k + word_of_nat n :: byte)"
  using narrow [of "numeral k + n"] by simp

lemma write16:
  assumes "c < 0x110000"
  shows "if c \<le> 0xFFFF
    then WRITE_UTF16LE c = [word_of_nat (unat c mod 256), word_of_nat (unat c div 256 mod 256)] \<and>
      WRITE_UTF16BE c = [word_of_nat (unat c div 256 mod 256), word_of_nat (unat c mod 256)]
    else \<exists>d < 0x100000. unat c = 0x10000 + d \<and>
      WRITE_UTF16LE c = [word_of_nat (d div 1024 mod 256), word_of_nat (0xD8 + d div 262144), word_of_nat (d mod 256), word_of_nat (0xDC + d div 256 mod 4)] \<and>
      WRITE_UTF16BE c = [word_of_nat (0xD8 + d div 262144), word_of_nat (d div 1024 mod 256), word_of_nat (0xDC + d div 256 mod 4), word_of_nat (d mod 256)]"
proof (cases "c \<le> 0xFFFF")
  case True
  then show ?thesis using mask_nat [of 0 c 8] mask_nat [of 8 c 8] by (simp add: WRITE_UTF16LE_def WRITE_UTF16BE_def wide_masks)
next
  case False
  define d where "d = unat c - 0x10000"
  have u: "unat c = 0x10000 + d" "d < 0x100000" using assms False by (simp_all add: d_def word_less_nat_alt word_le_nat_alt)
  have s: "unat (c - 0x10000) = d" using u by (simp add: unat_sub word_le_nat_alt)
  have 1: "(drop_bit 10 c AND mask 6) + (drop_bit 10 (c - 0x10000) AND push_bit 6 (mask 2)) = word_of_nat (d div 1024 mod 256)"
  proof -
    have "drop_bit 10 c AND mask 6 = word_of_nat (unat c div 1024 mod 64)"
      using low_mask [of 10 c 6] by simp
    moreover have "unat c div 1024 mod 64 = d div 1024 mod 64" by (simp add: u(1) div_add1_eq mod_add_eq [symmetric])
    moreover have "drop_bit 10 (c - 0x10000) AND push_bit 6 (mask 2) = word_of_nat (d div 1024 div 64 mod 4 * 64)"
      using mid_mask [of 6 2 10 "c - 0x10000"] unfolding s by simp
    moreover have "d div 1024 mod 64 + d div 1024 div 64 mod 4 * 64 = d div 1024 mod 256"
      using mod_mult2_eq [of "d div 1024" 64 4] by simp
    ultimately show ?thesis by (metis of_nat_add)
  qed
  have 2: "drop_bit 18 (c - 0x10000) AND mask 2 = word_of_nat (d div 262144)"
    using low_mask [of 18 "c - 0x10000" 2] u(2) unfolding s by simp
  have 3: "c AND mask 8 = word_of_nat (d mod 256)" using low_mask [of 0 c 8] u by (simp add: mod_add_eq [symmetric])
  have 4: "drop_bit 8 c AND mask 2 = word_of_nat (d div 256 mod 4)"
    using low_mask [of 8 c 2] u by (simp add: div_add1_eq mod_add_eq [symmetric])
  show ?thesis
    using False u 1 2 3 4 narrow narrow_sum by (auto simp del: of_nat_unat simp: WRITE_UTF16LE_def WRITE_UTF16BE_def wide_masks intro!: exI [of _ d])
qed

lemma bmp_step: "even (length z) \<Longrightarrow> \<not> surrogate (two a b) \<Longrightarrow> utf16_to_8 two (a # b # z) = WRITE_UTF8 (two a b) @ utf16_to_8 two z"
  by (cases "(two, a # b # z)" rule: utf16_to_8.cases) auto

lemma surrogate_nat: "surrogate (word_of_nat n) \<longleftrightarrow> 0xD800 \<le> n \<and> n < 0xE000" if "n < 0x10000"
  using that by (simp add: surrogate_def word_le_nat_alt word_less_nat_alt unsigned_of_nat take_bit_nat_eq_self)

lemma pair_units:
  "d div 1024 mod 256 + 256 * (0xD8 + d div 262144) = 0xD800 + d div (1024 :: nat)"
  "d mod 256 + 256 * (0xDC + d div 256 mod 4) = 0xDC00 + d mod (1024 :: nat)"
proof -
  have "d div 262144 = d div 1024 div 256" using div_mult2_eq [of d 1024 256] by simp
  then show "d div 1024 mod 256 + 256 * (0xD8 + d div 262144) = 0xD800 + d div 1024" using div_mult_mod_eq [of "d div 1024" 256] by simp
  show "d mod 256 + 256 * (0xDC + d div 256 mod 4) = 0xDC00 + d mod 1024" using mod_mult2_eq [of d 256 4] by simp
qed

lemma read16_step:
  assumes c: "scalar c" and z: "even (length z)"
  shows "utf16_to_8 le_unit (WRITE_UTF16LE c @ z) = WRITE_UTF8 c @ utf16_to_8 le_unit z"
    and "utf16_to_8 be_unit (WRITE_UTF16BE c @ z) = WRITE_UTF8 c @ utf16_to_8 be_unit z"
proof -
  have c_max: "c < 0x110000" using c by (simp add: scalar_def)
  have restored: "word_of_nat (unat c) = c" by (metis of_nat_unat ucast_id)
  have "utf16_to_8 le_unit (WRITE_UTF16LE c @ z) = WRITE_UTF8 c @ utf16_to_8 le_unit z \<and>
    utf16_to_8 be_unit (WRITE_UTF16BE c @ z) = WRITE_UTF8 c @ utf16_to_8 be_unit z"
  proof (cases "c \<le> 0xFFFF")
    case True
    have s: "unat c mod 256 + 256 * (unat c div 256 mod 256) = unat c"
    proof -
      have "unat c div 256 < 256" using True by (simp add: word_le_nat_alt)
      then show ?thesis using div_mult_mod_eq [of "unat c" 256] by simp
    qed
    have u: "le_unit (word_of_nat (unat c mod 256)) (word_of_nat (unat c div 256 mod 256)) = c"
      "be_unit (word_of_nat (unat c div 256 mod 256)) (word_of_nat (unat c mod 256)) = c"
      using units [of "unat c mod 256" "unat c div 256 mod 256"] by (simp_all only: s restored)
    have "\<not> surrogate c" using c by (simp add: scalar_def)
    then show ?thesis using write16 [OF c_max] True bmp_step [OF z] u by (simp del: of_nat_unat)
  next
    case False
    then obtain d where d: "d < 0x100000" "unat c = 0x10000 + d"
      "WRITE_UTF16LE c = [word_of_nat (d div 1024 mod 256), word_of_nat (0xD8 + d div 262144), word_of_nat (d mod 256), word_of_nat (0xDC + d div 256 mod 4)]"
      "WRITE_UTF16BE c = [word_of_nat (0xD8 + d div 262144), word_of_nat (d div 1024 mod 256), word_of_nat (0xDC + d div 256 mod 4), word_of_nat (d mod 256)]"
      using write16 [OF c_max] by auto
    have b: "d div 1024 mod 256 < 256" "0xD8 + d div 262144 < 256" "d mod 256 < 256" "0xDC + d div 256 mod 4 < 256" using d(1) by simp_all
    have u: "le_unit (word_of_nat (d div 1024 mod 256)) (word_of_nat (0xD8 + d div 262144)) = word_of_nat (0xD800 + d div 1024)"
      "le_unit (word_of_nat (d mod 256)) (word_of_nat (0xDC + d div 256 mod 4)) = word_of_nat (0xDC00 + d mod 1024)"
      "be_unit (word_of_nat (0xD8 + d div 262144)) (word_of_nat (d div 1024 mod 256)) = word_of_nat (0xD800 + d div 1024)"
      "be_unit (word_of_nat (0xDC + d div 256 mod 4)) (word_of_nat (d mod 256)) = word_of_nat (0xDC00 + d mod 1024)"
      unfolding units [OF b(1,2)] units [OF b(3,4)] pair_units by (rule refl)+
    have s: "surrogate (word_of_nat (0xD800 + d div 1024))" using d(1) by (subst surrogate_nat) simp_all
    have "combine (word_of_nat (0xD800 + d div 1024)) (word_of_nat (0xDC00 + d mod 1024)) = c"
      unfolding combine_nat [OF d(1)] d(2) [symmetric] by (rule restored)
    with s u show ?thesis unfolding d(3,4) by (simp del: of_nat_add)
  qed
  then show "utf16_to_8 le_unit (WRITE_UTF16LE c @ z) = WRITE_UTF8 c @ utf16_to_8 le_unit z"
    "utf16_to_8 be_unit (WRITE_UTF16BE c @ z) = WRITE_UTF8 c @ utf16_to_8 be_unit z" by simp_all
qed

lemma even16: "even (length (WRITE_UTF16LE c))" "even (length (WRITE_UTF16BE c))"
  by (simp_all add: WRITE_UTF16LE_def WRITE_UTF16BE_def)

lemma even_concat: "\<forall>c. even (length (wr c)) \<Longrightarrow> even (length (concat (map wr cs)))"
  by (induction cs) simp_all

lemma read16: "\<forall>c \<in> set cs. scalar c \<Longrightarrow>
  utf16_to_8 le_unit (concat (map WRITE_UTF16LE cs)) = concat (map WRITE_UTF8 cs) \<and>
  utf16_to_8 be_unit (concat (map WRITE_UTF16BE cs)) = concat (map WRITE_UTF8 cs)"
  by (induction cs) (simp_all add: read16_step even_concat even16)

lemma swap_step: "swap_bytes (WRITE_UTF16LE c @ z) = WRITE_UTF16BE c @ swap_bytes z" "swap_bytes (WRITE_UTF16BE c @ z) = WRITE_UTF16LE c @ swap_bytes z"
  by (simp_all add: WRITE_UTF16LE_def WRITE_UTF16BE_def)

lemma swap16: "swap_bytes (concat (map WRITE_UTF16LE cs)) = concat (map WRITE_UTF16BE cs)"
  "swap_bytes (concat (map WRITE_UTF16BE cs)) = concat (map WRITE_UTF16LE cs)"
  by (induction cs) (simp_all add: swap_step)

section \<open>Translation\<close>

definition encoded :: "text_enc \<Rightarrow> u32 list \<Rightarrow> byte list" where
  "encoded e cs = concat (map (case e of SQLITE_UTF8 \<Rightarrow> WRITE_UTF8 | SQLITE_UTF16LE \<Rightarrow> WRITE_UTF16LE | SQLITE_UTF16BE \<Rightarrow> WRITE_UTF16BE) cs)"

text \<open>C40: sqlite3VdbeMemTranslate translates a string of any characters (except the surrogates and U+FFFE,
  U+FFFF) from each encoding into each other one, so that going there and back gives
  the same bytes.\<close>

theorem translate_correct:
  assumes "\<forall>c \<in> set cs. scalar c" and "e \<noteq> d"
  shows "sqlite3VdbeMemTranslate False e d (encoded e cs) = (SQLITE_OK, d, encoded d cs)"
proof -
  have "even (length (encoded e cs))" if "e \<noteq> SQLITE_UTF8" using that by (cases e) (auto simp: encoded_def intro!: even_concat [rule_format] even16)
  then have "e \<noteq> SQLITE_UTF8 \<Longrightarrow> take (length (encoded e cs) - length (encoded e cs) mod 2) (encoded e cs) = encoded e cs" by simp
  then show ?thesis using assms codes_write read16 swap16
    by (cases e; cases d) (simp_all add: sqlite3VdbeMemTranslate_def encoded_def to_16_codes)
qed

lemma translate_correct_witness:
  "sqlite3VdbeMemTranslate False SQLITE_UTF8 SQLITE_UTF16LE (encoded SQLITE_UTF8 [0x41, 0xE9, 0x20AC, 0x1F600]) =
    (SQLITE_OK, SQLITE_UTF16LE, encoded SQLITE_UTF16LE [0x41, 0xE9, 0x20AC, 0x1F600]) \<and>
   encoded SQLITE_UTF8 [0x1F600] = [0xF0, 0x9F, 0x98, 0x80] \<and> encoded SQLITE_UTF16LE [0x1F600] = [0x3D, 0xD8, 0x00, 0xDE]"
  using translate_correct [of "[0x41, 0xE9, 0x20AC, 0x1F600]" SQLITE_UTF8 SQLITE_UTF16LE]
  by (simp add: scalar_def surrogate_def) code_simp

lemma write_lengths: "length (WRITE_UTF8 c) \<le> 4" "length (WRITE_UTF16LE c) \<le> 4" "length (WRITE_UTF16BE c) \<le> 4"
  "c \<le> 0xFFFF \<Longrightarrow> length (WRITE_UTF16LE c) = 2" "c \<le> 0xFFFF \<Longrightarrow> length (WRITE_UTF16BE c) = 2"
  by (simp_all add: WRITE_UTF8_def WRITE_UTF16LE_def WRITE_UTF16BE_def)

lemma to_8_length: "length (utf16_to_8 two z) \<le> 2 * length z"
proof (induction two z rule: utf16_to_8.induct)
  case (1 two a b x y z)
  then show ?case using write_lengths(1) [of "two a b"] write_lengths(1) [of "combine (two a b) (two x y)"] by auto
qed (use write_lengths(1) in auto)

text \<open>A character above U+FFFF takes more than one byte of UTF-8, whatever the bytes are.\<close>

lemma lead_small: "list_all (\<lambda>v. v < 0x80) sqlite3Utf8Trans1"
  by code_simp

lemma read_wide:
  assumes "z \<noteq> []" and "0xFFFF < fst (sqlite3Utf8Read z)"
  shows "length (snd (sqlite3Utf8Read z)) + 2 \<le> length z"
proof (rule ccontr)
  assume short: "\<not> length (snd (sqlite3Utf8Read z)) + 2 \<le> length z"
  obtain b t where z: "z = b # t" using assms(1) by (cases z) auto
  have "ucast b \<le> (0xFFFF :: u32)"
    using unsigned_less [of b, where 'a = nat] by (simp add: word_le_nat_alt unsigned_ucast_eq take_bit_nat_eq_self)
  with assms(2) z have b: "b \<ge> 0xc0" by (auto split: if_splits)
  define v where "v = sqlite3Utf8Trans1 ! (unat b - 0xc0)"
  have "unat b - 0xc0 < length sqlite3Utf8Trans1" using unsigned_less [of b, where 'a = nat] by (simp add: sqlite3Utf8Trans1_def)
  then have v: "v < 0x80" using lead_small by (simp add: v_def list_all_length)
  have "dropWhile continues t = t"
  proof (cases t)
    case (Cons a l)
    have "length (dropWhile continues t) + 2 > length z" using short [unfolded read_skip] b z by simp
    then show ?thesis using Cons z length_dropWhile_le [of continues l] by (auto split: if_splits)
  qed simp
  then have "utf8_tail (word_of_nat v) t = (word_of_nat v, t)" by (intro tail_end) (metis dropWhile_eq_self_iff)
  moreover have "word_of_nat v < (0x80 :: u32)" using v by (simp add: word_less_nat_alt unsigned_of_nat take_bit_nat_eq_self)
  ultimately have "fst (sqlite3Utf8Read z) = 0xFFFD" using b by (simp add: z v_def utf8_value_def)
  with assms(2) show False by simp
qed

lemma to_16_length:
  assumes "\<forall>c. length (wr c) \<le> 4 \<and> (c \<le> 0xFFFF \<longrightarrow> length (wr c) = 2)"
  shows "length (utf8_to_16 wr z) \<le> 2 * length z"
  using assms
proof (induction wr z rule: utf8_to_16.induct)
  case (1 wr z)
  show ?case
  proof (cases "z = []")
    case False
    let ?c = "fst (sqlite3Utf8Read z)" and ?r = "snd (sqlite3Utf8Read z)"
    have "length (wr ?c) + 2 * length ?r \<le> 2 * length z"
    proof (cases "?c \<le> 0xFFFF")
      case True
      then show ?thesis using 1(2) skip_shorter [OF False] by (auto simp: read_skip)
    next
      case False
      then have "length ?r + 2 \<le> length z" using read_wide [of z] \<open>z \<noteq> []\<close> by simp
      then show ?thesis using 1(2) [THEN spec, of ?c] by linarith
    qed
    then show ?thesis using 1 False by (subst utf8_to_16.simps) auto
  qed (simp add: utf8_to_16.simps)
qed

text \<open>C13: The buffer that sqlite3VdbeMemTranslate allocates is large enough for its result with the
  terminator, for every string of bytes, malformed text and truncated characters included.\<close>

theorem translate_fits:
  assumes "sqlite3VdbeMemTranslate False e d z = (rc, e', z')" and "e = SQLITE_UTF8 \<longleftrightarrow> d \<noteq> SQLITE_UTF8"
  shows "length z' + (if d = SQLITE_UTF8 then 1 else 2) \<le> translate_len d z"
proof -
  let ?z = "take (length z - length z mod 2) z"
  have "length (utf16_to_8 two ?z) \<le> 2 * (length z - length z mod 2)" for two using to_8_length [of two ?z] by simp
  moreover have "length (utf8_to_16 WRITE_UTF16LE z) \<le> 2 * length z" "length (utf8_to_16 WRITE_UTF16BE z) \<le> 2 * length z"
    using to_16_length write_lengths by blast+
  ultimately show ?thesis using assms by (cases e; cases d) (auto simp: sqlite3VdbeMemTranslate_def translate_len_def)
qed

lemma translate_fits_witness:
  "case sqlite3VdbeMemTranslate False SQLITE_UTF8 SQLITE_UTF16LE [0xDF, 0xBF, 0xBF, 0xF8, 0x41] of (rc, e', z') \<Rightarrow> length z' + 2 \<le> 12"
proof -
  obtain rc e' z' where t: "sqlite3VdbeMemTranslate False SQLITE_UTF8 SQLITE_UTF16LE [0xDF, 0xBF, 0xBF, 0xF8, 0x41] = (rc, e', z')"
    by (metis prod_cases3)
  show ?thesis using translate_fits [OF t] t by (simp add: translate_len_def)
qed

end
