(* ===== verification/Like_Props.thy ===== *)
theory Like_Props
  imports Like Utf_Props
begin

text \<open>
  LIKE and GLOB against their definition: a pattern is a list of tokens on the characters of the text, matched
  by trying every position after a wildcard. patternCompare works on bytes, tries only the positions where
  the next character can match and gives up early; it answers the same.
\<close>

section \<open>Patterns\<close>

datatype tok = Lit u32 | One | All | Members bool "(u32 \<times> u32) list" | Bad

text \<open>The members of a set, up to its end; the first argument is the character before, or 0.\<close>

fun members :: "u32 \<Rightarrow> u32 list \<Rightarrow> ((u32 \<times> u32) list \<times> u32 list) option" where
  "members prior [] = None"
| "members prior [c] = (if c = 0x5D then Some ([], []) else None)"
| "members prior (c # d # cs) =
     (if c = 0x5D then Some ([], d # cs)
      else if c = 0x2D \<and> d \<noteq> 0x5D \<and> prior > 0 then map_option (apfst (Cons (prior, d))) (members 0 cs)
      else map_option (apfst (Cons (c, c))) (members c (d # cs)))"

definition close_first :: "u32 list \<Rightarrow> (u32 \<times> u32) list \<times> u32 list" where
  "close_first cs = (if cs \<noteq> [] \<and> hd cs = 0x5D then ([(0x5D, 0x5D)], tl cs) else ([], cs))"

definition parse_set :: "u32 list \<Rightarrow> (tok \<times> u32 list) option" where
  "parse_set cs =
     (let invert = (cs \<noteq> [] \<and> hd cs = 0x5E);
          (first, cs) = close_first (if invert then tl cs else cs)
      in map_option (\<lambda>(ms, cs). (Members invert (first @ ms), cs)) (members 0 cs))"

lemma members_shorter: "members prior cs = Some (ms, cs') \<Longrightarrow> length cs' < length cs"
  by (induction prior cs arbitrary: ms cs' rule: members.induct) (fastforce split: if_splits)+

lemma parse_set_shorter: "parse_set cs = Some (t, cs') \<Longrightarrow> length cs' < length cs"
  by (auto simp: parse_set_def close_first_def Let_def split: if_splits dest!: members_shorter)

function parse :: "compareInfo \<Rightarrow> u32 \<Rightarrow> u32 list \<Rightarrow> tok list" where
  "parse pInfo other [] = []"
| "parse pInfo other (c # cs) =
     (if c = ucast (matchAll pInfo) then All # parse pInfo other cs
      else if c = other \<and> matchSet pInfo \<noteq> 0 then
        (case parse_set cs of None \<Rightarrow> [Bad] | Some (t, cs) \<Rightarrow> t # parse pInfo other cs)
      else if c = other then (case cs of [] \<Rightarrow> [Bad] | d # cs \<Rightarrow> Lit d # parse pInfo other cs)
      else (if c = ucast (matchOne pInfo) then One else Lit c) # parse pInfo other cs)"
  by pat_completeness auto
termination by (relation "measure (\<lambda>(i, other, cs). length cs)") (auto dest: parse_set_shorter)

fun tok_match :: "compareInfo \<Rightarrow> tok \<Rightarrow> u32 \<Rightarrow> bool" where
  "tok_match pInfo (Lit d) c \<longleftrightarrow> d = c \<or> noCase pInfo \<and> d < 0x80 \<and> c < 0x80 \<and> sqlite3Tolower (ucast d) = sqlite3Tolower (ucast c)"
| "tok_match pInfo One c \<longleftrightarrow> True"
| "tok_match pInfo All c \<longleftrightarrow> True"
| "tok_match pInfo (Members invert ms) c \<longleftrightarrow> list_ex (\<lambda>(lo, hi). lo \<le> c \<and> c \<le> hi) ms \<noteq> invert"
| "tok_match pInfo Bad c \<longleftrightarrow> False"

fun matches :: "compareInfo \<Rightarrow> tok list \<Rightarrow> u32 list \<Rightarrow> bool" where
  "matches pInfo [] cs \<longleftrightarrow> cs = []"
| "matches pInfo (t # ts) [] \<longleftrightarrow> t = All \<and> matches pInfo ts []"
| "matches pInfo (t # ts) (c # cs) \<longleftrightarrow>
     (if t = All then matches pInfo ts (c # cs) \<or> matches pInfo (All # ts) cs else tok_match pInfo t c \<and> matches pInfo ts cs)"

text \<open>A wildcard absorbs any part at the front.\<close>

lemma all_drop: "matches i (All # ts) cs \<longleftrightarrow> (\<exists>k \<le> length cs. matches i ts (drop k cs))"
proof (induction cs)
  case (Cons c cs)
  have "(\<exists>k \<le> length (c # cs). matches i ts (drop k (c # cs))) \<longleftrightarrow> matches i ts (c # cs) \<or> (\<exists>k \<le> length cs. matches i ts (drop k cs))"
    by (metis (no_types, lifting) drop0 drop_Suc_Cons length_Cons not0_implies_Suc Suc_le_mono le0)
  then show ?case using Cons by simp
qed simp

lemma all_absorb: "matches i (All # ts) (drop k cs) \<Longrightarrow> matches i (All # ts) cs"
proof -
  assume "matches i (All # ts) (drop k cs)"
  then obtain j where "j \<le> length (drop k cs)" "matches i ts (drop j (drop k cs))" unfolding all_drop by blast
  then show ?thesis unfolding all_drop by (intro exI [of _ "min (length cs) (k + j)"]) (auto simp: add.commute min_def)
qed

lemma all_all: "matches i (All # All # ts) cs \<longleftrightarrow> matches i (All # ts) cs"
proof
  assume "matches i (All # All # ts) cs"
  then obtain k where "matches i (All # ts) (drop k cs)" unfolding all_drop [of _ "All # ts"] by blast
  then show "matches i (All # ts) cs" by (rule all_absorb)
next
  assume "matches i (All # ts) cs"
  then have "matches i (All # ts) (drop 0 cs)" by simp
  then show "matches i (All # All # ts) cs" unfolding all_drop [of _ "All # ts"] by blast
qed

lemma all_one: "matches i (All # One # ts) cs \<longleftrightarrow> (case cs of [] \<Rightarrow> False | c # cs' \<Rightarrow> matches i (All # ts) cs')"
proof (induction cs)
  case (Cons c cs)
  then show ?case by (cases cs) auto
qed simp

lemma all_end: "matches i [All] cs"
  by (induction cs) auto

section \<open>Bytes and characters\<close>

abbreviation no_nul :: "byte list \<Rightarrow> bool" where
  "no_nul z \<equiv> 0 \<notin> set z"

lemma value_high: "0x80 \<le> utf8_value c"
  by (auto simp: utf8_value_def not_less)

lemma unat_char: "unat (ucast (b :: byte) :: u32) = unat b"
  using unsigned_less [of b, where 'a = nat] by (simp add: unsigned_ucast_eq take_bit_nat_eq_self)

lemma skip_subset: "set (SQLITE_SKIP_UTF8 z) \<subseteq> set z"
  by (cases z) (auto dest: set_dropWhileD)

lemma read_char:
  assumes "sqlite3Utf8Read z = (c, z')" and "no_nul z"
  shows "no_nul z' \<and> (if c = 0 then z = [] \<and> z' = [] else z \<noteq> [] \<and> codes z = c # codes z')"
proof (cases z)
  case (Cons b t)
  have "c \<noteq> 0"
  proof
    assume "c = 0"
    moreover have "b \<noteq> 0" using Cons assms(2) by auto
    then have "ucast b \<noteq> (0 :: u32)" using unat_char [of b] by (metis unat_eq_zero unsigned_0)
    moreover have "utf8_value v \<noteq> 0" for v using value_high [of v] by auto
    ultimately show False using assms(1) Cons by (auto simp: Let_def split: if_splits prod.splits)
  qed
  moreover have "set z' \<subseteq> set z"
    using assms(1) read_skip [of z] skip_subset [of z] by simp
  ultimately show ?thesis using assms Cons by (auto simp: codes_step)
qed (use assms in simp)

lemma peek_0: "no_nul z \<Longrightarrow> peek z = 0 \<longleftrightarrow> z = []"
  by (cases z) (auto simp: peek_def)

text \<open>An ASCII character is its byte.\<close>

lemma ascii_char:
  assumes "z \<noteq> []" and "v < 0x80"
  shows "hd (codes z) = ucast v \<longleftrightarrow> hd z = v"
proof -
  obtain b t where z: "z = b # t" using assms(1) by (cases z) auto
  have u: "unat (ucast v :: u32) = unat v" "unat (ucast b :: u32) = unat b" "unat v < 128"
    using assms(2) by (simp_all add: unat_char word_less_nat_alt)
  show ?thesis
  proof (cases "b \<ge> 0xc0")
    case True
    then have "0x80 \<le> hd (codes z)" using value_high by (simp add: z codes_step case_prod_beta Let_def)
    then have "hd (codes z) \<noteq> ucast v" using u by (auto simp: word_le_nat_alt)
    moreover have "b \<noteq> v" using True u by (auto simp: word_le_nat_alt)
    ultimately show ?thesis by (simp add: z)
  next
    case False
    then show ?thesis using u by (simp add: z codes_step word_unat_eq_iff)
  qed
qed

lemma codes_empty: "codes z = [] \<longleftrightarrow> z = []"
  by (cases "z = []") (simp_all add: codes_step)

section \<open>Sets\<close>

definition current :: "u32 \<Rightarrow> byte list \<Rightarrow> u32 list" where
  "current c z = (if c = 0 then [] else c # codes z)"

lemma read_current: "sqlite3Utf8Read z = (c, z') \<Longrightarrow> no_nul z \<Longrightarrow> codes z = current c z' \<and> no_nul z'"
  using read_char [of z c z'] by (auto simp: current_def split: if_splits)

definition in_set :: "u32 \<Rightarrow> (u32 \<times> u32) list \<Rightarrow> bool" where
  "in_set c ms \<longleftrightarrow> list_ex (\<lambda>(lo, hi). lo \<le> c \<and> c \<le> hi) ms"

lemma in_set_simps [simp]: "\<not> in_set c []" "in_set c ((lo, hi) # ms) \<longleftrightarrow> lo \<le> c \<and> c \<le> hi \<or> in_set c ms"
  by (simp_all add: in_set_def)

lemma in_set_point: "(d :: u32) \<le> c \<and> c \<le> d \<longleftrightarrow> c = d"
  by auto

definition set_result :: "u32 \<Rightarrow> bool \<Rightarrow> ((u32 \<times> u32) list \<times> u32 list) option \<Rightarrow> u32 \<times> byte list \<times> bool \<Rightarrow> bool" where
  "set_result c seen r out \<longleftrightarrow>
     (case out of (c', p', s') \<Rightarrow> no_nul p' \<and>
       (case r of None \<Rightarrow> c' = 0 | Some (ms, cs') \<Rightarrow> c' = 0x5D \<and> codes p' = cs' \<and> s' = (seen \<or> in_set c ms)))"

lemma set_loop_ok: "no_nul p \<Longrightarrow> set_result c seen (members prior (current c2 p)) (set_loop c c2 p prior seen)"
proof (induction c c2 p prior seen rule: set_loop.induct)
  case (1 c c2 p prior seen)
  obtain c3 p3 where r: "sqlite3Utf8Read p = (c3, p3)" by fastforce
  obtain c4 p4 where r': "sqlite3Utf8Read p3 = (c4, p4)" by fastforce
  note IH = 1(1) [OF _ _ r [symmetric] refl refl r' [symmetric] refl] 1(2) [OF _ _ refl refl r [symmetric] refl]
  have e: "codes p = current c3 p3" "no_nul p3" using read_current [OF r 1(3)] by simp_all
  have e': "codes p3 = current c4 p4" "no_nul p4" using read_current [OF r' e(2)] by simp_all
  show ?case
  proof (cases "c2 \<noteq> 0 \<and> c2 \<noteq> 0x5D")
    case False
    then show ?thesis
      using 1(3) by (cases "codes p") (auto simp: set_loop.simps [of c c2 p prior seen] set_result_def current_def)
  next
    case go: True
    show ?thesis
    proof (cases "c2 = 0x2D \<and> peek p \<noteq> 0x5D \<and> peek p \<noteq> 0 \<and> prior > 0")
      case True
      then have p: "p \<noteq> []" "hd p \<noteq> 0x5D" using 1(3) by (cases p; auto simp: peek_def)+
      then have "hd (codes p) \<noteq> 0x5D" using ascii_char [of p "0x5D"] by simp
      moreover have "c3 \<noteq> 0" using read_char [OF r 1(3)] p(1) by auto
      ultimately have m: "members prior (current c2 p) = map_option (apfst (Cons (prior, c3))) (members 0 (codes p3))"
        using True go e(1) by (simp add: current_def)
      have st: "set_loop c c2 p prior seen = set_loop c c4 p4 0 (seen \<or> (c \<ge> prior \<and> c \<le> c3))"
        by (subst set_loop.simps) (use True go r r' in simp)
      show ?thesis
        using IH(1) [OF go True e'(2)] unfolding st m e'(1) by (auto simp: set_result_def split: option.splits prod.splits)
    next
      case False
      have m: "members prior (current c2 p) = map_option (apfst (Cons (c2, c2))) (members c2 (codes p))"
      proof (cases "p = []")
        case True
        then show ?thesis using go by (simp add: current_def)
      next
        case ne: False
        have "peek p \<noteq> 0" using ne 1(3) peek_0 by blast
        moreover have "peek p \<noteq> 0x5D \<longleftrightarrow> hd (codes p) \<noteq> 0x5D" using ascii_char [OF ne, of "0x5D"] ne by (cases p) (auto simp: peek_def)
        ultimately have "\<not> (c2 = 0x2D \<and> hd (codes p) \<noteq> 0x5D \<and> prior > 0)" using False by blast
        moreover obtain d cs where "codes p = d # cs" using codes_empty ne by (cases "codes p") auto
        ultimately show ?thesis using go by (auto simp: current_def)
      qed
      have st: "set_loop c c2 p prior seen = set_loop c c3 p3 c2 (seen \<or> c = c2)"
        by (subst set_loop.simps) (use False go r in auto)
      show ?thesis
        using IH(2) [OF go False e(2)] unfolding st m e(1) by (auto simp: set_result_def in_set_point split: option.splits prod.splits)
    qed
  qed
qed

lemma set_match_ok:
  assumes "no_nul p" and "set_match c p = (ok, p')"
  shows "no_nul p' \<and> (case parse_set (codes p) of None \<Rightarrow> \<not> ok | Some (t, cs) \<Rightarrow> ok = tok_match i t c \<and> codes p' = cs)"
proof -
  obtain c1 p1 where r1: "sqlite3Utf8Read p = (c1, p1)" by fastforce
  define inv where "inv \<longleftrightarrow> c1 = 0x5E"
  obtain c2 p2 where r2: "(if c1 = 0x5E then sqlite3Utf8Read p1 else (c1, p1)) = (c2, p2)" by fastforce
  obtain c3 p3 where r3: "(if c2 = 0x5D then sqlite3Utf8Read p2 else (c2, p2)) = (c3, p3)" by fastforce
  define seen where "seen \<longleftrightarrow> c2 = 0x5D \<and> c = 0x5D"
  obtain c4 p4 s4 where l: "set_loop c c3 p3 0 seen = (c4, p4, s4)" by (metis prod_cases3)
  have e1: "codes p = current c1 p1" "no_nul p1" using read_current [OF r1 assms(1)] by simp_all
  have e2: "(if inv then tl (codes p) else codes p) = current c2 p2" "no_nul p2"
    using r2 e1 read_current [of p1 c2 p2] by (auto simp: inv_def current_def split: if_splits)
  have e3: "snd (close_first (current c2 p2)) = current c3 p3" "no_nul p3" "fst (close_first (current c2 p2)) = (if c2 = 0x5D then [(0x5D, 0x5D)] else [])"
    using r3 e2(2) read_current [of p2 c3 p3] by (auto simp: close_first_def current_def split: if_splits)
  have m: "ok = (c4 \<noteq> 0 \<and> s4 \<noteq> inv)" "p' = p4"
    using assms(2) r1 r2 r3 l by (auto simp: set_match_def inv_def seen_def Let_def split: if_splits)
  have i: "inv \<longleftrightarrow> codes p \<noteq> [] \<and> hd (codes p) = 0x5E" using e1(1) by (auto simp: inv_def current_def)
  have r: "set_result c seen (members 0 (current c3 p3)) (c4, p4, s4)" using set_loop_ok [OF e3(2), of c seen 0 c3] l by simp
  have ps: "parse_set (codes p) = map_option (\<lambda>(ms, cs). (Members inv (fst (close_first (current c2 p2)) @ ms), cs)) (members 0 (current c3 p3))"
    unfolding parse_set_def i [symmetric] Let_def e2(1) e3(1) [symmetric] by (simp add: case_prod_beta)
  show ?thesis
    using r m e3(3) unfolding ps by (auto simp: set_result_def seen_def in_set_def split: option.splits)
qed

section \<open>The searches\<close>

definition low :: "nat \<Rightarrow> nat" where "low n = (if 65 \<le> n \<and> n \<le> 90 then n + 32 else n)"
definition up :: "nat \<Rightarrow> nat" where "up n = (if 97 \<le> n \<and> n \<le> 122 then n - 32 else n)"

lemma unat_case: "unat (sqlite3Tolower b) = low (unat b)" "unat (sqlite3Toupper b) = up (unat b)"
proof -
  show "unat (sqlite3Tolower b) = low (unat b)"
    unfolding Tolower_ascii low_def using unat_add_lem [of b 32] by auto
  show "unat (sqlite3Toupper b) = up (unat b)"
    unfolding Toupper_ascii up_def by (auto simp: unat_sub word_le_nat_alt)
qed

lemma case_fold: "n < 128 \<Longrightarrow> m = n \<or> m < 128 \<and> low n = low m \<longleftrightarrow> m = up n \<or> m = low n"
  unfolding low_def up_def by presburger

lemma byte_of_char: "c < 0x80 \<Longrightarrow> unat (ucast (c :: u32) :: byte) = unat c"
proof -
  assume "c < 0x80"
  then have "unat c < 128" by (simp add: word_less_nat_alt)
  then show ?thesis by (simp add: unsigned_ucast_eq take_bit_nat_eq_self)
qed

lemma same_word: "(x :: u32) = ucast (b :: byte) \<longleftrightarrow> unat x = unat b"
  using unat_char [of b] by (metis word_unat_eq_iff)

lemma stop_char:
  assumes "c < 0x80"
  shows "tok_match i (Lit c) x \<longleftrightarrow> (\<exists>b \<in> set (zStop i c). x = ucast b)" and "b \<in> set (zStop i c) \<Longrightarrow> b < 0x80"
    and "c \<noteq> 0 \<Longrightarrow> b \<in> set (zStop i c) \<Longrightarrow> b \<noteq> 0"
proof -
  have n: "unat c < 128" using assms by (simp add: word_less_nat_alt)
  have fold: "x < 0x80 \<and> sqlite3Tolower (ucast c) = sqlite3Tolower (ucast x) \<longleftrightarrow> unat x < 128 \<and> low (unat c) = low (unat x)"
    by (cases "x < 0x80") (auto simp: word_unat_eq_iff unat_case byte_of_char [OF assms] byte_of_char word_less_nat_alt)
  show "tok_match i (Lit c) x \<longleftrightarrow> (\<exists>b \<in> set (zStop i c). x = ucast b)"
  proof (cases "noCase i")
    case True
    have "tok_match i (Lit c) x \<longleftrightarrow> unat x = unat c \<or> unat x < 128 \<and> low (unat c) = low (unat x)"
      using True assms fold by (auto simp: word_unat_eq_iff)
    then show ?thesis unfolding case_fold [OF n] using True by (simp add: zStop_def same_word unat_case byte_of_char [OF assms])
  next
    case False
    then have "tok_match i (Lit c) x \<longleftrightarrow> unat x = unat c" by (auto simp: word_unat_eq_iff)
    then show ?thesis using False by (simp add: zStop_def same_word byte_of_char [OF assms])
  qed
  show "b < 0x80" if "b \<in> set (zStop i c)"
    using that n by (auto simp: zStop_def word_less_nat_alt unat_case byte_of_char [OF assms] low_def up_def split: if_splits)
  show "b \<noteq> 0" if "c \<noteq> 0" "b \<in> set (zStop i c)"
  proof
    assume "b = 0"
    then have "unat b = 0" by simp
    then have "unat c = 0" using that(2) by (auto simp: zStop_def unat_case byte_of_char [OF assms] low_def up_def split: if_splits)
    then show False using that(1) by (simp add: unat_eq_zero)
  qed
qed

lemma cont_high: "list_all (\<lambda>n. continues (word_of_nat n) \<longrightarrow> 128 \<le> n) [0..<256]"
  by code_simp

lemma mask_cont: "continues b \<Longrightarrow> 128 \<le> unat b"
  using table_entry [OF cont_high, of "unat b"] unsigned_less [of b, where 'a = nat] by simp

lemma cspn_continues: "\<forall>b \<in> S. b < 0x80 \<Longrightarrow> no_nul t \<Longrightarrow>
  dropWhile (\<lambda>b. b \<noteq> 0 \<and> b \<notin> S) (dropWhile continues t) = dropWhile (\<lambda>b. b \<noteq> 0 \<and> b \<notin> S) t"
proof (induction t)
  case (Cons b t)
  have "continues b \<Longrightarrow> \<not> b < 0x80" using mask_cont [of b] by (auto simp: word_less_nat_alt)
  with Cons show ?case by auto
qed simp

lemma codes_cspn:
  assumes "\<forall>b \<in> S. b < 0x80"
  shows "no_nul z \<Longrightarrow> codes (dropWhile (\<lambda>b. b \<noteq> 0 \<and> b \<notin> S) z) = dropWhile (\<lambda>x. \<forall>b \<in> S. x \<noteq> ucast b) (codes z)"
proof (induction z rule: codes.induct)
  case (1 z)
  show ?case
  proof (cases z)
    case (Cons b t)
    obtain c z' where r: "sqlite3Utf8Read z = (c, z')" by fastforce
    have cz: "codes z = c # codes z'" "no_nul z'" using read_char [OF r 1(2)] Cons by (auto split: if_splits)
    have ne: "z \<noteq> []" using Cons by simp
    have IH: "codes (dropWhile (\<lambda>b. b \<noteq> 0 \<and> b \<notin> S) z') = dropWhile (\<lambda>x. \<forall>b \<in> S. x \<noteq> ucast b) (codes z')"
      using 1(1) [OF ne] cz(2) r by simp
    have c: "c = ucast v \<longleftrightarrow> b = v" if "v \<in> S" for v using ascii_char [OF ne, of v] that assms cz(1) Cons by auto
    have bt: "b \<noteq> 0" "no_nul t" using 1(2) Cons by auto
    show ?thesis
    proof (cases "b \<in> S")
      case True
      then have "\<not> (\<forall>b \<in> S. c \<noteq> ucast b)" using c by blast
      then show ?thesis using True Cons cz(1) by auto
    next
      case False
      then have "\<forall>b \<in> S. c \<noteq> ucast b" using c by blast
      moreover have "dropWhile (\<lambda>b. b \<noteq> 0 \<and> b \<notin> S) z' = dropWhile (\<lambda>b. b \<noteq> 0 \<and> b \<notin> S) t"
        using read_skip [of z] r Cons cspn_continues [OF assms bt(2)] by (auto split: if_splits)
      ultimately show ?thesis using False bt Cons cz(1) IH by simp
    qed
  qed simp
qed

lemma all_skip: "\<not> tok_match i t c \<Longrightarrow> t \<noteq> All \<Longrightarrow> matches i (All # t # ts) (c # cs) \<longleftrightarrow> matches i (All # t # ts) cs"
  by simp

lemma all_dropWhile: "t \<noteq> All \<Longrightarrow> matches i (All # t # ts) (dropWhile (\<lambda>x. \<not> tok_match i t x) cs) \<longleftrightarrow> matches i (All # t # ts) cs"
  by (induction cs) auto

lemma all_later: "t \<noteq> All \<Longrightarrow> matches i (All # t # ts) cs \<Longrightarrow> \<exists>k. matches i ts (drop k cs)"
proof -
  assume t: "t \<noteq> All" and "matches i (All # t # ts) cs"
  then obtain k where "matches i (t # ts) (drop k cs)" unfolding all_drop [of _ "t # ts"] by blast
  then obtain c r where "drop k cs = c # r" "matches i ts r" using t by (cases "drop k cs") auto
  then have "matches i ts (drop (Suc k) cs)" by (metis drop_Suc tl_drop list.sel(3))
  then show ?thesis by blast
qed

section \<open>Comparing\<close>

text \<open>
  What the callers see to: the characters with a meaning are different (0 is none), and there are sets only
  where the other special character is the bracket.
\<close>

definition info_ok :: "compareInfo \<Rightarrow> u32 \<Rightarrow> bool" where
  "info_ok i other \<longleftrightarrow>
     (matchOne i = 0 \<or> matchAll i \<noteq> matchOne i \<and> other \<noteq> ucast (matchOne i)) \<and> (matchSet i \<noteq> 0 \<longrightarrow> other = 0x5B)"

lemma ucast_zero: "(ucast (b :: byte) :: u32) = 0 \<longleftrightarrow> b = 0"
  using unat_char [of b] by (metis unat_eq_zero unsigned_0)

lemma ucast_same: "(ucast (a :: byte) :: u32) = ucast b \<longleftrightarrow> a = b"
  using same_word [of "ucast a" b] by (simp add: unat_char word_unat_eq_iff)

definition star_result :: "compareInfo \<Rightarrow> u32 \<Rightarrow> byte list \<Rightarrow> byte list \<Rightarrow> (u32 \<times> byte list \<times> byte list) option \<Rightarrow> bool" where
  "star_result i other p z r \<longleftrightarrow>
     (case r of
        None \<Rightarrow> \<not> matches i (All # parse i other (codes p)) (codes z)
      | Some (c, p', z') \<Rightarrow> no_nul p' \<and> no_nul z' \<and>
          (matches i (All # parse i other (codes p)) (codes z) \<longleftrightarrow> matches i (All # parse i other (current c p')) (codes z')) \<and>
          (c \<noteq> 0 \<longrightarrow> c \<noteq> ucast (matchAll i) \<and> c \<noteq> ucast (matchOne i)))"

lemma star_loop_ok: "info_ok i other \<Longrightarrow> no_nul p \<Longrightarrow> no_nul z \<Longrightarrow> star_result i other p z (star_loop i p z)"
proof (induction i p z rule: star_loop.induct)
  case (1 i p z)
  obtain c1 p1 where r: "sqlite3Utf8Read p = (c1, p1)" by fastforce
  obtain c2 z2 where r': "sqlite3Utf8Read z = (c2, z2)" by fastforce
  have r0: "(c1, p1) = Utf8Read p" using r by simp
  note IH = 1(1) [OF r0 refl _ _ r' [symmetric]] 1(2) [OF r0 refl]
  have e: "codes p = current c1 p1" "no_nul p1" using read_current [OF r 1(4)] by simp_all
  have e': "codes z = current c2 z2" "no_nul z2" using read_current [OF r' 1(5)] by simp_all
  show ?case
  proof (cases "c1 \<noteq> 0 \<and> (c1 = ucast (matchAll i) \<or> c1 = ucast (matchOne i) \<and> matchOne i \<noteq> 0)")
    case False
    then have "star_loop i p z = Some (c1, p1, z)" by (subst star_loop.simps) (use r in \<open>auto simp: ucast_zero\<close>)
    then show ?thesis using False e 1(5) by (auto simp: star_result_def ucast_zero)
  next
    case go: True
    show ?thesis
    proof (cases "c1 = ucast (matchOne i)")
      case True
      have "matchOne i \<noteq> 0" using go True by (auto simp: ucast_zero)
      then have ok: "c1 \<noteq> ucast (matchAll i)" "c1 \<noteq> other" using 1(3) True by (auto simp: info_ok_def ucast_same)
      have p: "parse i other (codes p) = One # parse i other (codes p1)" using e(1) go True ok by (simp add: current_def)
      show ?thesis
      proof (cases "c2 = 0")
        case z: True
        then have "star_loop i p z = None" by (subst star_loop.simps) (use r r' go True in simp)
        then show ?thesis using z e'(1) unfolding star_result_def p all_one by (simp add: current_def)
      next
        case z: False
        then have "star_loop i p z = star_loop i p1 z2" by (subst star_loop.simps) (use r r' go True in simp)
        moreover have "matches i (All # parse i other (codes p)) (codes z) \<longleftrightarrow> matches i (All # parse i other (codes p1)) (codes z2)"
          using z e'(1) unfolding p all_one by (simp add: current_def)
        ultimately show ?thesis using IH(1) [OF go True z 1(3) e(2) e'(2)] unfolding star_result_def by (auto split: option.splits)
      qed
    next
      case False
      then have all: "c1 = ucast (matchAll i)" using go by blast
      have p: "parse i other (codes p) = All # parse i other (codes p1)" using e(1) go all by (simp add: current_def)
      have "star_loop i p z = star_loop i p1 z" by (subst star_loop.simps) (use r go False in auto)
      then show ?thesis using IH(2) [OF go False 1(3) e(2) 1(5)] unfolding star_result_def p all_all by simp
    qed
  qed
qed

definition outcome :: "compareInfo \<Rightarrow> tok list \<Rightarrow> u32 list \<Rightarrow> int \<Rightarrow> bool" where
  "outcome i ts cs r \<longleftrightarrow>
     (r = SQLITE_MATCH \<longleftrightarrow> matches i ts cs) \<and> (r = SQLITE_NOWILDCARDMATCH \<longrightarrow> (\<forall>k. \<not> matches i ts (drop k cs))) \<and>
     r \<in> {SQLITE_MATCH, SQLITE_NOMATCH, SQLITE_NOWILDCARDMATCH}"

definition search_outcome :: "compareInfo \<Rightarrow> tok list \<Rightarrow> u32 list \<Rightarrow> int \<Rightarrow> bool" where
  "search_outcome i ts cs r \<longleftrightarrow> (r = SQLITE_MATCH \<longleftrightarrow> matches i (All # ts) cs) \<and> r \<in> {SQLITE_MATCH, SQLITE_NOWILDCARDMATCH}"

lemma codes_distinct [simp]: "SQLITE_MATCH \<noteq> SQLITE_NOMATCH" "SQLITE_NOMATCH \<noteq> SQLITE_MATCH" "SQLITE_MATCH \<noteq> SQLITE_NOWILDCARDMATCH"
  "SQLITE_NOWILDCARDMATCH \<noteq> SQLITE_MATCH" "SQLITE_NOMATCH \<noteq> SQLITE_NOWILDCARDMATCH" "SQLITE_NOWILDCARDMATCH \<noteq> SQLITE_NOMATCH"
  by (simp_all add: SQLITE_MATCH_def SQLITE_NOMATCH_def SQLITE_NOWILDCARDMATCH_def)

lemma search_is_outcome: "search_outcome i ts cs r \<Longrightarrow> outcome i (All # ts) cs r"
  by (auto simp: search_outcome_def outcome_def dest: all_absorb)

lemma outcome_none: "matches i ts cs = False \<Longrightarrow> outcome i ts cs SQLITE_NOMATCH"
  by (simp add: outcome_def)

lemma outcome_step:
  assumes "outcome i ts cs r" and "t \<noteq> All" and "tok_match i t c"
  shows "outcome i (t # ts) (c # cs) r"
proof -
  have "\<not> matches i (t # ts) (drop k (c # cs))" if "\<forall>k. \<not> matches i ts (drop k cs)" for k
  proof (cases k)
    case 0
    then show ?thesis using that [THEN spec, of 0] assms(2) by simp
  next
    case (Suc j)
    then show ?thesis using that [THEN spec, of "Suc j"] assms(2)
      by (cases "drop j cs") (auto simp: drop_Suc simp flip: tl_drop)
  qed
  with assms show ?thesis by (auto simp: outcome_def)
qed

text \<open>One character of the string against one token.\<close>

lemma ucast_ucast: "c < 0x80 \<Longrightarrow> (ucast (ucast (c :: u32) :: byte) :: u32) = c"
  using byte_of_char [of c] unat_char [of "ucast c"] by (metis word_unat_eq_iff)

lemma lower_zero: "(c :: u32) < 0x80 \<Longrightarrow> c \<noteq> 0 \<Longrightarrow> sqlite3Tolower (ucast c) \<noteq> sqlite3Tolower (ucast (0 :: u32))"
proof
  assume c: "c < 0x80" "c \<noteq> 0" and "sqlite3Tolower (ucast c) = sqlite3Tolower (ucast (0 :: u32))"
  then have "low (unat c) = low 0" using unat_case(1) [of "ucast c"] unat_case(1) [of 0] byte_of_char [OF c(1)] by simp
  then have "unat c = 0" by (simp add: low_def split: if_splits)
  with c(2) show False by (simp add: unat_eq_zero)
qed

lemma same_tok:
  assumes "c \<noteq> 0"
  shows "same_char i e c c2 \<longleftrightarrow> c2 \<noteq> 0 \<and> tok_match i (if c = ucast (matchOne i) \<and> \<not> e then One else Lit c) c2"
proof (cases "c2 = 0")
  case True
  then show ?thesis using assms lower_zero [of c] by (auto simp: same_char_def)
next
  case False
  then show ?thesis by (auto simp: same_char_def)
qed

lemma step_ok:
  assumes "no_nul z" and "sqlite3Utf8Read z = (c2, z1)" and "t \<noteq> All" and "b \<longleftrightarrow> c2 \<noteq> 0 \<and> tok_match i t c2"
    and "b \<Longrightarrow> no_nul z1 \<Longrightarrow> outcome i ts (codes z1) r"
  shows "outcome i (t # ts) (codes z) (if b then r else SQLITE_NOMATCH)"
proof -
  have e: "codes z = current c2 z1" "no_nul z1" using read_current [OF assms(2,1)] by simp_all
  show ?thesis
  proof (cases b)
    case True
    then show ?thesis using outcome_step [OF assms(5) [OF True e(2)] assms(3), of c2] assms(4) e(1) by (simp add: current_def)
  next
    case False
    then show ?thesis using e(1) assms(3,4) by (auto simp: current_def intro!: outcome_none)
  qed
qed

lemma all_bad: "\<not> matches i [All, Bad] cs"
  by (induction cs) auto

definition good_loop :: "compareInfo \<Rightarrow> u32 \<Rightarrow> byte list option \<Rightarrow> byte list \<Rightarrow> byte list \<Rightarrow> bool" where
  "good_loop i other esc p z \<longleftrightarrow>
     (info_ok i other \<longrightarrow> no_nul p \<longrightarrow> no_nul z \<longrightarrow> (\<forall>q. esc = Some q \<longrightarrow> length p \<le> length q) \<longrightarrow>
      outcome i (parse i other (codes p)) (codes z) (compare_loop i other esc p z))"

definition good_set :: "compareInfo \<Rightarrow> u32 \<Rightarrow> byte list \<Rightarrow> byte list \<Rightarrow> bool" where
  "good_set i other p z \<longleftrightarrow>
     (info_ok i other \<longrightarrow> no_nul p \<longrightarrow> no_nul z \<longrightarrow> \<not> matches i (parse i other (codes p)) [] \<longrightarrow>
      search_outcome i (parse i other (codes p)) (codes z) (search_set i other p z))"

definition good_char :: "compareInfo \<Rightarrow> u32 \<Rightarrow> u32 \<Rightarrow> byte list \<Rightarrow> byte list \<Rightarrow> bool" where
  "good_char i other c p z \<longleftrightarrow>
     (info_ok i other \<longrightarrow> no_nul p \<longrightarrow> no_nul z \<longrightarrow> c \<noteq> 0 \<longrightarrow>
      search_outcome i (Lit c # parse i other (codes p)) (codes z) (search_char i other c p z))"

lemma search_set_step:
  assumes "peek z \<noteq> 0 \<Longrightarrow> good_loop i other None p z"
    and "peek z \<noteq> 0 \<Longrightarrow> compare_loop i other None p z = SQLITE_NOMATCH \<Longrightarrow> good_set i other p (SQLITE_SKIP_UTF8 z)"
  shows "good_set i other p z"
  unfolding good_set_def
proof (intro impI)
  assume ok: "info_ok i other" "no_nul p" "no_nul z" and ne: "\<not> matches i (parse i other (codes p)) []"
  let ?ts = "parse i other (codes p)"
  show "search_outcome i ?ts (codes z) (search_set i other p z)"
  proof (cases "peek z = 0")
    case True
    then have "z = []" using peek_0 [OF ok(3)] by simp
    then show ?thesis using True ne by (simp add: search_outcome_def search_set.simps [of i other p])
  next
    case False
    let ?r = "compare_loop i other None p z"
    obtain c z' where r: "sqlite3Utf8Read z = (c, z')" by fastforce
    have cz: "codes z = c # codes z'" "no_nul z'" "SQLITE_SKIP_UTF8 z = z'"
      using read_char [OF r ok(3)] False read_skip [of z] r by (auto simp: peek_def split: if_splits)
    have st: "search_set i other p z = (if ?r \<noteq> SQLITE_NOMATCH then ?r else search_set i other p z')"
      by (subst search_set.simps) (use False cz(3) in \<open>simp add: Let_def\<close>)
    have o: "outcome i ?ts (codes z) ?r" using assms(1) [OF False] ok by (simp add: good_loop_def)
    show ?thesis
    proof (cases "?r = SQLITE_NOMATCH")
      case True
      then have "search_outcome i ?ts (codes z') (search_set i other p z')" using assms(2) [OF False True] ok(1,2) ne cz(2,3) by (simp add: good_set_def)
      moreover have "\<not> matches i ?ts (codes z)" using o True by (simp add: outcome_def)
      ultimately show ?thesis using True cz(1) unfolding st by (auto simp: search_outcome_def)
    next
      case r': False
      have "matches i (All # ?ts) (codes z) \<longleftrightarrow> (\<exists>k \<le> length (codes z). matches i ?ts (drop k (codes z)))" by (rule all_drop)
      then show ?thesis using o r' unfolding st by (auto simp: outcome_def search_outcome_def dest: spec [of _ 0])
    qed
  qed
qed

lemma search_char_step:
  assumes "\<And>x. c < 0x80 \<Longrightarrow> x = dropWhile (\<lambda>b. b \<noteq> 0 \<and> b \<notin> set (zStop i c)) z \<Longrightarrow> peek x \<noteq> 0 \<Longrightarrow> good_loop i other None p (tl x)"
    and "\<And>x. c < 0x80 \<Longrightarrow> x = dropWhile (\<lambda>b. b \<noteq> 0 \<and> b \<notin> set (zStop i c)) z \<Longrightarrow> peek x \<noteq> 0 \<Longrightarrow>
      compare_loop i other None p (tl x) = SQLITE_NOMATCH \<Longrightarrow> good_char i other c p (tl x)"
    and "\<And>x y. \<not> c < 0x80 \<Longrightarrow> sqlite3Utf8Read z = (x, y) \<Longrightarrow> x \<noteq> 0 \<Longrightarrow> x \<noteq> c \<Longrightarrow> good_char i other c p y"
    and "\<And>y. \<not> c < 0x80 \<Longrightarrow> sqlite3Utf8Read z = (c, y) \<Longrightarrow> good_loop i other None p y"
    and "\<And>y. \<not> c < 0x80 \<Longrightarrow> sqlite3Utf8Read z = (c, y) \<Longrightarrow> compare_loop i other None p y = SQLITE_NOMATCH \<Longrightarrow> good_char i other c p y"
  shows "good_char i other c p z"
  unfolding good_char_def
proof (intro impI)
  assume ok: "info_ok i other" "no_nul p" "no_nul z" and c0: "c \<noteq> 0"
  let ?ts = "parse i other (codes p)"
  have found: "search_outcome i (Lit c # ?ts) (x # codes y) (if r \<noteq> SQLITE_NOMATCH then r else search_char i other c p y)"
    if x: "tok_match i (Lit c) x" and o: "outcome i ?ts (codes y) r"
      and s: "r = SQLITE_NOMATCH \<Longrightarrow> search_outcome i (Lit c # ?ts) (codes y) (search_char i other c p y)" for x y r
  proof (cases "r = SQLITE_NOWILDCARDMATCH")
    case True
    then have "\<not> matches i ?ts (codes y)" "\<not> matches i (All # Lit c # ?ts) (codes y)"
      using o all_later [of "Lit c" i ?ts "codes y"] by (auto simp: outcome_def dest: spec [of _ 0])
    then show ?thesis using True by (simp add: search_outcome_def)
  next
    case False
    then show ?thesis using o s x by (auto simp: outcome_def search_outcome_def)
  qed
  show "search_outcome i (Lit c # ?ts) (codes z) (search_char i other c p z)"
  proof (cases "c < 0x80")
    case True
    define z1 where "z1 = dropWhile (\<lambda>b. b \<noteq> 0 \<and> b \<notin> set (zStop i c)) z"
    have nn: "no_nul z1" using ok(3) by (auto simp: z1_def dest: set_dropWhileD)
    have "codes z1 = dropWhile (\<lambda>x. \<not> tok_match i (Lit c) x) (codes z)"
      unfolding z1_def stop_char(1) [OF True] using codes_cspn [of "set (zStop i c)" z] stop_char(2) [OF True] ok(3) by simp
    then have m: "matches i (All # Lit c # ?ts) (codes z1) \<longleftrightarrow> matches i (All # Lit c # ?ts) (codes z)"
      using all_dropWhile [of "Lit c" i ?ts "codes z"] by simp
    show ?thesis
    proof (cases "peek z1 = 0")
      case e: True
      then have "z1 = []" using peek_0 [OF nn] by simp
      moreover have "search_char i other c p z = SQLITE_NOWILDCARDMATCH" by (subst search_char.simps) (use True e in \<open>simp add: z1_def\<close>)
      ultimately show ?thesis using m by (simp add: search_outcome_def)
    next
      case e: False
      then obtain b t where z1: "z1 = b # t" using peek_0 [OF nn] by (cases z1) auto
      have b: "b \<in> set (zStop i c)" using z1 nn hd_dropWhile [of "\<lambda>b. b \<noteq> 0 \<and> b \<notin> set (zStop i c)" z] unfolding z1_def [symmetric] by auto
      have "b < 0x80" by (rule stop_char(2) [OF True b])
      then have cz: "codes z1 = ucast b # codes t" by (auto simp: z1 codes_step word_less_nat_alt word_le_nat_alt)
      have x: "tok_match i (Lit c) (ucast b)" using stop_char(1) [OF True] b by blast
      have t: "no_nul t" "tl z1 = t" using nn z1 by auto
      have "outcome i ?ts (codes t) (compare_loop i other None p t)" using assms(1) [OF True z1_def e] ok(1,2) t by (simp add: good_loop_def)
      moreover have "compare_loop i other None p t = SQLITE_NOMATCH \<Longrightarrow> search_outcome i (Lit c # ?ts) (codes t) (search_char i other c p t)"
        using assms(2) [OF True z1_def e] ok(1,2) t c0 by (simp add: good_char_def)
      ultimately have "search_outcome i (Lit c # ?ts) (codes z1)
          (if compare_loop i other None p t \<noteq> SQLITE_NOMATCH then compare_loop i other None p t else search_char i other c p t)"
        unfolding cz by (intro found [OF x])
      moreover have "search_char i other c p z =
          (if compare_loop i other None p t \<noteq> SQLITE_NOMATCH then compare_loop i other None p t else search_char i other c p t)"
        by (subst search_char.simps) (use True e t in \<open>simp add: z1_def Let_def\<close>)
      ultimately have "search_outcome i (Lit c # ?ts) (codes z1) (search_char i other c p z)" by (simp only:)
      then show ?thesis using m by (simp only: search_outcome_def)
    qed
  next
    case False
    obtain x y where r: "sqlite3Utf8Read z = (x, y)" by fastforce
    have e: "codes z = current x y" "no_nul y" using read_current [OF r ok(3)] by simp_all
    have tm: "tok_match i (Lit c) v \<longleftrightarrow> v = c" for v using False by auto
    consider "x = 0" | "x \<noteq> 0" "x \<noteq> c" | "x = c" by blast
    then show ?thesis
    proof cases
      case 1
      then have "search_char i other c p z = SQLITE_NOWILDCARDMATCH" by (subst search_char.simps) (use False r in simp)
      then show ?thesis using 1 e(1) by (simp add: search_outcome_def current_def)
    next
      case 2
      then have "search_outcome i (Lit c # ?ts) (codes y) (search_char i other c p y)" using assms(3) [OF False r] ok(1,2) e(2) c0 by (simp add: good_char_def)
      moreover have "search_char i other c p z = search_char i other c p y" by (subst search_char.simps) (use False r 2 in simp)
      ultimately show ?thesis using e(1) 2 tm [of x] by (auto simp: search_outcome_def current_def)
    next
      case 3
      have o: "outcome i ?ts (codes y) (compare_loop i other None p y)" using assms(4) [OF False] r 3 ok(1,2) e(2) by (simp add: good_loop_def)
      have s: "compare_loop i other None p y = SQLITE_NOMATCH \<Longrightarrow> search_outcome i (Lit c # ?ts) (codes y) (search_char i other c p y)"
        using assms(5) [OF False] r 3 ok(1,2) e(2) c0 by (simp add: good_char_def)
      have "search_char i other c p z =
          (if compare_loop i other None p y \<noteq> SQLITE_NOMATCH then compare_loop i other None p y else search_char i other c p y)"
        by (subst search_char.simps) (use False r 3 c0 in \<open>simp add: Let_def\<close>)
      then show ?thesis using found [OF _ o s] tm 3 c0 e(1) by (simp add: current_def)
    qed
  qed
qed

lemma parse_set_members: "parse_set cs = Some (t, cs') \<Longrightarrow> \<exists>inv ms. t = Members inv ms"
  by (auto simp: parse_set_def Let_def split: prod.splits)

lemma parse_bracket:
  "matchSet i \<noteq> 0 \<Longrightarrow> other \<noteq> ucast (matchAll i) \<Longrightarrow>
   parse i other (other # cs) = (case parse_set cs of None \<Rightarrow> [Bad] | Some (t, cs) \<Rightarrow> t # parse i other cs)"
  by simp

text \<open>After a wildcard: the rest of the pattern starts with a set, an escaped or a plain character.\<close>

lemma star_step:
  assumes ok: "info_ok i other" "no_nul p" "no_nul z" and c: "c \<noteq> 0" "c \<noteq> ucast (matchAll i)" "c \<noteq> ucast (matchOne i)"
    and 1: "\<And>c' p'. c = other \<Longrightarrow> matchSet i = 0 \<Longrightarrow> (c', p') = sqlite3Utf8Read p \<Longrightarrow> c' \<noteq> 0 \<Longrightarrow> good_char i other c' p' z"
    and 2: "c = other \<Longrightarrow> matchSet i \<noteq> 0 \<Longrightarrow> good_set i other (ucast other # p) z"
    and 3: "c \<noteq> other \<Longrightarrow> good_char i other c p z"
  shows "search_outcome i (parse i other (current c p)) (codes z)
    (if c = other then
       (if matchSet i = 0 then (case sqlite3Utf8Read p of (c, p') \<Rightarrow> if c = 0 then SQLITE_NOWILDCARDMATCH else search_char i other c p' z)
        else search_set i other (ucast other # p) z)
     else search_char i other c p z)"
proof -
  have cur: "current c p = c # codes p" using c(1) by (simp add: current_def)
  consider "c = other" "matchSet i = 0" | "c = other" "matchSet i \<noteq> 0" | "c \<noteq> other" by blast
  then show ?thesis
  proof cases
    case a: 1
    obtain c' p' where r: "sqlite3Utf8Read p = (c', p')" by fastforce
    have e: "codes p = current c' p'" "no_nul p'" using read_current [OF r ok(2)] by simp_all
    show ?thesis
    proof (cases "c' = 0")
      case True
      then have "parse i other (current c p) = [Bad]" using a c e(1) by (simp add: cur current_def)
      then show ?thesis using a r True all_bad by (simp add: search_outcome_def)
    next
      case False
      then have "parse i other (current c p) = Lit c' # parse i other (codes p')" using a c e(1) by (simp add: cur current_def)
      moreover have "good_char i other c' p' z" using 1 [OF a r [symmetric] False] .
      ultimately show ?thesis using a r False ok e(2) by (simp add: good_char_def)
    qed
  next
    case a: 2
    then have o: "other = 0x5B" using ok(1) by (simp add: info_ok_def)
    have b: "codes (ucast other # p) = c # codes p" "no_nul (ucast other # p)" using ok(2) a(1) by (simp_all add: o codes_step word_le_nat_alt)
    have "\<not> matches i (parse i other (c # codes p)) []"
      using a c parse_bracket [OF a(2), of other "codes p"] parse_set_members by (fastforce split: option.splits)
    then have "search_outcome i (parse i other (codes (ucast other # p))) (codes z) (search_set i other (ucast other # p) z)"
      using 2 [OF a] ok(1,3) b by (simp only: good_set_def simp_thms)
    then show ?thesis using a unfolding cur b(1) by simp
  next
    case a: 3
    then have "parse i other (current c p) = Lit c # parse i other (codes p)" using c by (simp add: cur)
    then show ?thesis using 3 [OF a] a ok c(1) by (simp add: good_char_def)
  qed
qed

lemma loop_step:
  assumes ok: "info_ok i other" "no_nul p" "no_nul z" "\<forall>q. esc = Some q \<longrightarrow> length p \<le> length q"
    and r: "sqlite3Utf8Read p = (c, p1)"
    and 1: "\<And>c' p' z' c'' p''. c \<noteq> 0 \<Longrightarrow> c = ucast (matchAll i) \<Longrightarrow> star_loop i p1 z = Some (c', p', z') \<Longrightarrow> c' \<noteq> 0 \<Longrightarrow>
      c' = other \<Longrightarrow> matchSet i = 0 \<Longrightarrow> (c'', p'') = sqlite3Utf8Read p' \<Longrightarrow> c'' \<noteq> 0 \<Longrightarrow> good_char i other c'' p'' z'"
    and 2: "\<And>c' p' z'. c \<noteq> 0 \<Longrightarrow> c = ucast (matchAll i) \<Longrightarrow> star_loop i p1 z = Some (c', p', z') \<Longrightarrow> c' \<noteq> 0 \<Longrightarrow>
      c' = other \<Longrightarrow> matchSet i \<noteq> 0 \<Longrightarrow> good_set i other (ucast other # p') z'"
    and 3: "\<And>c' p' z'. c \<noteq> 0 \<Longrightarrow> c = ucast (matchAll i) \<Longrightarrow> star_loop i p1 z = Some (c', p', z') \<Longrightarrow> c' \<noteq> 0 \<Longrightarrow>
      c' \<noteq> other \<Longrightarrow> good_char i other c' p' z'"
    and 4: "\<And>c' z' b p'. c \<noteq> 0 \<Longrightarrow> c \<noteq> ucast (matchAll i) \<Longrightarrow> c = other \<Longrightarrow> matchSet i \<noteq> 0 \<Longrightarrow> sqlite3Utf8Read z = (c', z') \<Longrightarrow> c' \<noteq> 0 \<Longrightarrow>
      set_match c' p1 = (b, p') \<Longrightarrow> b \<Longrightarrow> good_loop i other esc p' z'"
    and 5: "\<And>c' p' c2 z'. c \<noteq> 0 \<Longrightarrow> c \<noteq> ucast (matchAll i) \<Longrightarrow> c = other \<Longrightarrow> matchSet i = 0 \<Longrightarrow> sqlite3Utf8Read p1 = (c', p') \<Longrightarrow> c' \<noteq> 0 \<Longrightarrow>
      sqlite3Utf8Read z = (c2, z') \<Longrightarrow> same_char i True c' c2 \<Longrightarrow> good_loop i other (Some p') p' z'"
    and 6: "\<And>c2 z'. c \<noteq> 0 \<Longrightarrow> c \<noteq> ucast (matchAll i) \<Longrightarrow> c \<noteq> other \<Longrightarrow> sqlite3Utf8Read z = (c2, z') \<Longrightarrow>
      same_char i (esc = Some p1) c c2 \<Longrightarrow> good_loop i other esc p1 z'"
  shows "outcome i (parse i other (codes p)) (codes z) (compare_loop i other esc p z)"
proof -
  have e: "codes p = current c p1" "no_nul p1" using read_current [OF r ok(2)] by simp_all
  obtain c2 z1 where rz: "sqlite3Utf8Read z = (c2, z1)" by fastforce
  have ez: "codes z = current c2 z1" "no_nul z1" using read_current [OF rz ok(3)] by simp_all
  consider "c = 0" | "c \<noteq> 0" "c = ucast (matchAll i)" | "c \<noteq> 0" "c \<noteq> ucast (matchAll i)" "c = other" "matchSet i \<noteq> 0"
    | "c \<noteq> 0" "c \<noteq> ucast (matchAll i)" "c = other" "matchSet i = 0" | "c \<noteq> 0" "c \<noteq> ucast (matchAll i)" "c \<noteq> other" by blast
  then show ?thesis
  proof cases
    case a: 1
    then have "compare_loop i other esc p z = (if peek z = 0 then SQLITE_MATCH else SQLITE_NOMATCH)"
      by (subst compare_loop.simps) (use r in simp)
    then show ?thesis using a e(1) peek_0 [OF ok(3)] codes_empty [of z] by (simp add: current_def outcome_def)
  next
    case a: 2
    have p: "parse i other (codes p) = All # parse i other (codes p1)" using a e(1) by (simp add: current_def)
    have st: "star_result i other p1 z (star_loop i p1 z)" by (rule star_loop_ok [OF ok(1) e(2) ok(3)])
    have "search_outcome i (parse i other (codes p1)) (codes z) (compare_loop i other esc p z)"
    proof (cases "star_loop i p1 z")
      case None
      then have "compare_loop i other esc p z = SQLITE_NOWILDCARDMATCH" by (subst compare_loop.simps) (use r a in simp)
      then show ?thesis using st None by (simp add: star_result_def search_outcome_def)
    next
      case (Some x)
      obtain c' p' z' where x: "star_loop i p1 z = Some (c', p', z')" using Some by (cases x) auto
      have s: "no_nul p'" "no_nul z'" "c' \<noteq> 0 \<longrightarrow> c' \<noteq> ucast (matchAll i) \<and> c' \<noteq> ucast (matchOne i)"
        "matches i (All # parse i other (codes p1)) (codes z) \<longleftrightarrow> matches i (All # parse i other (current c' p')) (codes z')"
        using st x by (simp_all add: star_result_def)
      have eq: "compare_loop i other esc p z =
        (if c' = 0 then SQLITE_MATCH
         else if c' = other then
           (if matchSet i = 0 then (case sqlite3Utf8Read p' of (c, p'') \<Rightarrow> if c = 0 then SQLITE_NOWILDCARDMATCH else search_char i other c p'' z')
            else search_set i other (ucast other # p') z')
         else search_char i other c' p' z')"
        by (subst compare_loop.simps) (use r a x in simp)
      show ?thesis
      proof (cases "c' = 0")
        case True
        then show ?thesis using s(4) all_end unfolding eq by (simp add: search_outcome_def current_def)
      next
        case False
        then have "search_outcome i (parse i other (current c' p')) (codes z') (compare_loop i other esc p z)"
          unfolding eq if_not_P [OF False] using s(3) by (intro star_step [OF ok(1) s(1,2)] 1 [OF a x] 2 [OF a x] 3 [OF a x]) auto
        then show ?thesis using s(4) by (simp only: search_outcome_def)
      qed
    qed
    then show ?thesis unfolding p by (rule search_is_outcome)
  next
    case a: 3
    obtain b p' where m: "set_match c2 p1 = (b, p')" by fastforce
    have p: "parse i other (codes p) = (case parse_set (codes p1) of None \<Rightarrow> [Bad] | Some (t, cs) \<Rightarrow> t # parse i other cs)"
      using a e(1) by (simp add: current_def)
    have sm: "no_nul p' \<and> (case parse_set (codes p1) of None \<Rightarrow> \<not> b | Some (t, cs) \<Rightarrow> b = tok_match i t c2 \<and> codes p' = cs)"
      by (rule set_match_ok [OF e(2) m])
    have eq: "compare_loop i other esc p z = (if c2 \<noteq> 0 \<and> b then compare_loop i other esc p' z1 else SQLITE_NOMATCH)"
      by (subst compare_loop.simps) (use r a rz m in simp)
    show ?thesis
    proof (cases "parse_set (codes p1)")
      case None
      have "\<not> matches i [Bad] cs" for cs by (cases cs) auto
      then show ?thesis using None sm unfolding eq p by (simp add: outcome_def)
    next
      case (Some x)
      then obtain t cs where x: "parse_set (codes p1) = Some (t, cs)" by (cases x) auto
      have t: "t \<noteq> All" using parse_set_members [OF x] by auto
      have b: "b = tok_match i t c2" "codes p' = cs" "no_nul p'" using sm x by auto
      have len: "\<forall>q. esc = Some q \<longrightarrow> length p' \<le> length q" using ok(4) set_match_le [OF m] read_le [OF r] by fastforce
      have "outcome i (t # parse i other cs) (codes z) (if c2 \<noteq> 0 \<and> b then compare_loop i other esc p' z1 else SQLITE_NOMATCH)"
      proof (rule step_ok [OF ok(3) rz t])
        assume "c2 \<noteq> 0 \<and> b" and "no_nul z1"
        then show "outcome i (parse i other cs) (codes z1) (compare_loop i other esc p' z1)"
          using 4 [OF a rz _ m] ok(1) b(2,3) len by (simp add: good_loop_def)
      qed (use b(1) in simp)
      then show ?thesis unfolding eq p x by simp
    qed
  next
    case a: 4
    obtain c' p' where r': "sqlite3Utf8Read p1 = (c', p')" by fastforce
    have e': "codes p1 = current c' p'" "no_nul p'" using read_current [OF r' e(2)] by simp_all
    have eq: "compare_loop i other esc p z =
        (if c' \<noteq> 0 \<and> same_char i True c' c2 then compare_loop i other (Some p') p' z1 else SQLITE_NOMATCH)"
      by (subst compare_loop.simps) (use r a rz r' in simp)
    show ?thesis
    proof (cases "c' = 0")
      case True
      have "\<not> matches i [Bad] cs" for cs by (cases cs) auto
      then show ?thesis using True a e(1) e'(1) unfolding eq by (simp add: current_def outcome_def)
    next
      case False
      have p: "parse i other (codes p) = Lit c' # parse i other (codes p')" using a False e(1) e'(1) by (simp add: current_def)
      have "outcome i (Lit c' # parse i other (codes p')) (codes z) (if same_char i True c' c2 then compare_loop i other (Some p') p' z1 else SQLITE_NOMATCH)"
      proof (rule step_ok [OF ok(3) rz])
        show "same_char i True c' c2 \<longleftrightarrow> c2 \<noteq> 0 \<and> tok_match i (Lit c') c2" using same_tok [OF False, of i True c2] by simp
        assume "same_char i True c' c2" and "no_nul z1"
        then show "outcome i (parse i other (codes p')) (codes z1) (compare_loop i other (Some p') p' z1)"
          using 5 [OF a r' False rz] ok(1) e'(2) by (simp add: good_loop_def)
      qed simp
      then show ?thesis unfolding eq p using False by simp
    qed
  next
    case a: 5
    have "length p1 < length p" using nonzero_shorter [OF r [symmetric] a(1)] .
    then have esc: "esc \<noteq> Some p1" "\<forall>q. esc = Some q \<longrightarrow> length p1 \<le> length q" using ok(4) by force+
    have eq: "compare_loop i other esc p z = (if same_char i (esc = Some p1) c c2 then compare_loop i other esc p1 z1 else SQLITE_NOMATCH)"
      by (subst compare_loop.simps) (use r a rz in simp)
    let ?t = "if c = ucast (matchOne i) then One else Lit c"
    have p: "parse i other (codes p) = ?t # parse i other (codes p1)" using a e(1) by (simp add: current_def)
    show ?thesis unfolding eq p
    proof (rule step_ok [OF ok(3) rz])
      show "same_char i (esc = Some p1) c c2 \<longleftrightarrow> c2 \<noteq> 0 \<and> tok_match i ?t c2" using same_tok [OF a(1), of i "esc = Some p1" c2] esc(1) by simp
      assume "same_char i (esc = Some p1) c c2" and "no_nul z1"
      then show "outcome i (parse i other (codes p1)) (codes z1) (compare_loop i other esc p1 z1)"
        using 6 [OF a rz] ok(1) e(2) esc(2) by (simp add: good_loop_def)
    qed simp
  qed
qed

lemma compare_good:
  "good_loop i other esc p z" "good_set i other p z" "good_char i other c p z"
proof (induction i other esc p z and i other p z and i other c p z rule: compare_loop_search_set_search_char.induct)
  case (1 i other esc p z)
  obtain c p1 where r: "sqlite3Utf8Read p = (c, p1)" by fastforce
  then have r0: "(c, p1) = Utf8Read p" by simp
  show ?case
    unfolding good_loop_def
  proof (intro impI, rule loop_step [OF _ _ _ _ r])
    fix c' p' z' c'' p''
    assume "c \<noteq> 0" "c = ucast (matchAll i)" "star_loop i p1 z = Some (c', p', z')" "c' \<noteq> 0" "c' = other" "matchSet i = 0"
      "(c'', p'') = sqlite3Utf8Read p'" "c'' \<noteq> 0"
    then show "good_char i other c'' p'' z'" by (rule 1(1) [OF r0 _ _ _ refl refl])
  next
    fix c' p' z'
    assume "c \<noteq> 0" "c = ucast (matchAll i)" "star_loop i p1 z = Some (c', p', z')" "c' \<noteq> 0" "c' = other" "matchSet i \<noteq> 0"
    then show "good_set i other (ucast other # p') z'" by (rule 1(2) [OF r0 _ _ _ refl refl])
  next
    fix c' p' z'
    assume "c \<noteq> 0" "c = ucast (matchAll i)" "star_loop i p1 z = Some (c', p', z')" "c' \<noteq> 0" "c' \<noteq> other"
    then show "good_char i other c' p' z'" by (rule 1(3) [OF r0 _ _ _ refl refl])
  next
    fix c' z' b p'
    assume "c \<noteq> 0" "c \<noteq> ucast (matchAll i)" "c = other" "matchSet i \<noteq> 0" "sqlite3Utf8Read z = (c', z')" "c' \<noteq> 0"
      "set_match c' p1 = (b, p')" b
    then show "good_loop i other esc p' z'" by (intro 1(4) [OF r0, of c' z' b p']) simp_all
  next
    fix c' p' c2 z'
    assume "c \<noteq> 0" "c \<noteq> ucast (matchAll i)" "c = other" "matchSet i = 0" "sqlite3Utf8Read p1 = (c', p')" "c' \<noteq> 0"
      "sqlite3Utf8Read z = (c2, z')" "same_char i True c' c2"
    then show "good_loop i other (Some p') p' z'" by (intro 1(5) [OF r0, of c' p' c2 z']) simp_all
  next
    fix c2 z'
    assume "c \<noteq> 0" "c \<noteq> ucast (matchAll i)" "c \<noteq> other" "sqlite3Utf8Read z = (c2, z')" "same_char i (esc = Some p1) c c2"
    then show "good_loop i other esc p1 z'" by (intro 1(6) [OF r0, of c2 z']) simp_all
  qed
next
  case (2 i other p z)
  show ?case by (rule search_set_step) (use 2 in simp_all)
next
  case (3 i other c p z)
  show ?case
  proof (rule search_char_step)
    fix x y assume "\<not> c < 0x80" "sqlite3Utf8Read z = (x, y)" "x \<noteq> 0" "x \<noteq> c"
    then show "good_char i other c p y" by (intro 3(3) [of x y]) simp_all
  next
    fix y assume "\<not> c < 0x80" "sqlite3Utf8Read z = (c, y)"
    then show "good_loop i other None p y" by (intro 3(4) [of c y]) auto
  next
    fix y assume "\<not> c < 0x80" "sqlite3Utf8Read z = (c, y)" "compare_loop i other None p y = SQLITE_NOMATCH"
    then show "good_char i other c p y" by (intro 3(5) [of c y]) auto
  qed (use 3(1,2) in simp_all)
qed

section \<open>The interface\<close>

text \<open>C11: patternCompare answers MATCH exactly when the pattern matches the string: when the tokens of the pattern (characters,
  escaped characters, sets with ranges, wildcards) can be laid over the characters of the string, tried at
  every position after a wildcard, in any UTF-8 text, malformed text included. When it answers
  NOWILDCARDMATCH, the result that makes the outer searches give up, the pattern matches no suffix of the
  string either.\<close>

theorem patternCompare_correct:
  assumes "info_ok i other" and "no_nul p" and "no_nul z"
  shows "(patternCompare i other p z = SQLITE_MATCH \<longleftrightarrow> matches i (parse i other (codes p)) (codes z)) \<and>
    (patternCompare i other p z = SQLITE_NOWILDCARDMATCH \<longrightarrow> (\<forall>k. \<not> matches i (parse i other (codes p)) (drop k (codes z))))"
  using compare_good(1) [of i other None p z] assms by (auto simp: good_loop_def outcome_def patternCompare_def)

lemma glob_ok: "info_ok globInfo 0x5B"
  by (simp add: info_ok_def globInfo_def)

lemma patternCompare_correct_witness:
  "patternCompare globInfo 0x5B [0x2A, 0x5B, 0x62, 0x2D, 0x64, 0x5D, 0x3F] [0x61, 0x63, 0xC3, 0xA9] = SQLITE_MATCH \<and>
   patternCompare globInfo 0x5B [0x2A, 0x5B, 0x5E, 0x62, 0x2D, 0x64, 0x5D] [0x61, 0x63] \<noteq> SQLITE_MATCH"
proof -
  have "matches globInfo (parse globInfo 0x5B (codes [0x2A, 0x5B, 0x62, 0x2D, 0x64, 0x5D, 0x3F])) (codes [0x61, 0x63, 0xC3, 0xA9])"
    "\<not> matches globInfo (parse globInfo 0x5B (codes [0x2A, 0x5B, 0x5E, 0x62, 0x2D, 0x64, 0x5D])) (codes [0x61, 0x63])"
    by code_simp+
  then show ?thesis
    using patternCompare_correct [OF glob_ok, of "[0x2A, 0x5B, 0x62, 0x2D, 0x64, 0x5D, 0x3F]" "[0x61, 0x63, 0xC3, 0xA9]"]
      patternCompare_correct [OF glob_ok, of "[0x2A, 0x5B, 0x5E, 0x62, 0x2D, 0x64, 0x5D]" "[0x61, 0x63]"] by simp
qed

lemma char_len_codes: "no_nul z \<Longrightarrow> int (length z) \<le> n \<Longrightarrow> char_len z n = length (codes z)"
proof (induction z n rule: char_len.induct)
  case (1 z n)
  show ?case
  proof (cases "z = []")
    case False
    let ?r = "SQLITE_SKIP_UTF8 z"
    have l: "length ?r < length z" "no_nul ?r" "hd z \<noteq> 0" "\<not> n \<le> 0"
      using skip_shorter [OF False] skip_subset [of z] 1(2,3) False by (auto dest: hd_in_set)
    have "char_len ?r (n - int (length z - length ?r)) = length (codes ?r)" using 1(1) l 1(3) False by simp
    then have "char_len z n = Suc (length (codes ?r))" using False l by (subst char_len.simps) simp
    then show ?thesis using codes_step [OF False] by (simp add: read_skip)
  qed (simp add: char_len.simps)
qed

lemma escape_info_ok: "matchSet i = 0 \<Longrightarrow> matchAll i \<noteq> matchOne i \<Longrightarrow> info_ok (escape_info c i) c"
  by (auto simp: info_ok_def escape_info_def)

text \<open>C39: The SQL function like(P, Z, E) matches with the character E as the escape, which takes its special
  meaning away from a wildcard that is the same character; it refuses a pattern that is too long and an escape
  that is not a single character.\<close>

theorem likeFunc_correct:
  assumes "i \<in> {likeInfoNorm, likeInfoAlt}" and "no_nul p" and "no_nul z" and "no_nul e"
  shows "likeFunc i limit (Some p) (Some z) (Some (Some e)) =
    (if length p > limit then Like_error ''LIKE or GLOB pattern too complex''
     else case codes e of
       [c] \<Rightarrow> Like_int (if matches (escape_info c i) (parse (escape_info c i) c (codes p)) (codes z) then 1 else 0)
     | _ \<Rightarrow> Like_error ''ESCAPE expression must be a single character'')"
proof -
  have n: "sqlite3Utf8CharLen e (-1) = length (codes e)" using char_len_codes [OF assms(4)] by (simp add: sqlite3Utf8CharLen_def)
  have h: "fst (sqlite3Utf8Read e) = hd (codes e)" if "length (codes e) = 1" using that codes_step [of e] by (cases "e = []") simp_all
  have "info_ok (escape_info c i) c" for c using assms(1) by (intro escape_info_ok) (auto simp: likeInfoNorm_def likeInfoAlt_def)
  then have m: "patternCompare (escape_info c i) c p z = SQLITE_MATCH \<longleftrightarrow> matches (escape_info c i) (parse (escape_info c i) c (codes p)) (codes z)" for c
    using compare_good(1) [of "escape_info c i" c None p z] assms(2,3) by (simp add: good_loop_def outcome_def patternCompare_def)
  show ?thesis
  proof (cases "codes e")
    case (Cons c cs)
    then show ?thesis using n h m by (cases cs) (simp_all add: likeFunc_def like_compare_def Let_def)
  qed (simp add: likeFunc_def n)
qed

lemma likeFunc_correct_witness:
  "likeFunc likeInfoNorm 100 (Some [0x25, 0x5C, 0x25]) (Some [0x35, 0x30, 0x25]) (Some (Some [0x5C])) = Like_int 1"
proof -
  have "codes [0x5C] = [0x5C]" "matches (escape_info 0x5C likeInfoNorm) (parse (escape_info 0x5C likeInfoNorm) 0x5C (codes [0x25, 0x5C, 0x25])) (codes [0x35, 0x30, 0x25])"
    by code_simp+
  then show ?thesis using likeFunc_correct [of likeInfoNorm "[0x25, 0x5C, 0x25]" "[0x35, 0x30, 0x25]" "[0x5C]" 100] by simp
qed

text \<open>
  sqlite3_strlike does not look at an escape that is a wildcard: for the percent sign its answer is not that of
  the operator with the same escape.
\<close>

lemma strlike_escape:
  "sqlite3_strlike (Some [0x25, 0x25]) (Some [0x78]) 0x25 = 0"
  "likeFunc likeInfoNorm 100 (Some [0x25, 0x25]) (Some [0x78]) (Some (Some [0x25])) = Like_int 0"
  by code_simp+

end
