(* ===== verification/Double.thy ===== *)
theory Double
  imports Prelude
begin

text \<open>
  The doubles a record stores and compares. A double is its 64 bits; \<open>dval\<close> is its value in units of the
  smallest one, two to the power of minus 1074, so that every finite double, every comparison of two of them and every
  comparison with an integer is exact arithmetic on integers. An infinity has
  the value its bits give, which lies beyond every finite double. The conversions are those of C: from an integer by rounding
  to nearest, ties to even, to an integer by cutting off.
\<close>

definition EXP754 :: u64 where "EXP754 = push_bit 52 0x7ff"
definition MAN754 :: u64 where "MAN754 = push_bit 52 1 - 1"

definition SIGN754 :: u64 where "SIGN754 = push_bit 63 1"

definition IsNaN :: "u64 \<Rightarrow> bool" where
  "IsNaN x \<longleftrightarrow> x AND EXP754 = EXP754 \<and> x AND MAN754 \<noteq> 0"

definition sqlite3IsNaN :: "u64 \<Rightarrow> bool" where
  "sqlite3IsNaN x = IsNaN x"

definition dexp :: "u64 \<Rightarrow> nat" where "dexp r = unat (drop_bit 52 r AND 0x7ff)"
definition dfrac :: "u64 \<Rightarrow> nat" where "dfrac r = unat (r AND MAN754)"

definition dmag :: "u64 \<Rightarrow> nat" where
  "dmag r = (if dexp r = 0 then dfrac r else (2 ^ 52 + dfrac r) * 2 ^ (dexp r - 1))"

definition dval :: "u64 \<Rightarrow> int" where
  "dval r = (if bit r 63 then - int (dmag r) else int (dmag r))"

definition dless :: "u64 \<Rightarrow> u64 \<Rightarrow> bool" where
  "dless a b \<longleftrightarrow> \<not> IsNaN a \<and> \<not> IsNaN b \<and> dval a < dval b"

definition dunit :: int where "dunit = 2 ^ 1074"

text \<open>Converting.\<close>

fun log2 :: "nat \<Rightarrow> nat" where
  "log2 n = (if n \<le> 1 then 0 else Suc (log2 (n div 2)))"

declare log2.simps [simp del]

definition round_even :: "nat \<Rightarrow> nat \<Rightarrow> nat" where
  "round_even n s =
     (let q = n div 2 ^ s; r = n mod 2 ^ s
      in if 2 * r > 2 ^ s \<or> 2 * r = 2 ^ s \<and> odd q then q + 1 else q)"

definition double_mag :: "nat \<Rightarrow> u64" where
  "double_mag n =
     (if n = 0 then 0
      else (let k = log2 n; m = (if k \<le> 52 then n * 2 ^ (52 - k) else round_even n (k - 52))
            in of_nat ((k + 1022) * 2 ^ 52 + m)))"

definition double_of_int :: "int \<Rightarrow> u64" where
  "double_of_int i = (if i < 0 then double_mag (nat (- i)) OR SIGN754 else double_mag (nat i))"

definition int_of_double :: "u64 \<Rightarrow> int" where
  "int_of_double r = (if dval r < 0 then - (- dval r div dunit) else dval r div dunit)"

section \<open>Comparing an integer with a double\<close>

definition two63 :: u64 where "two63 = 0x43E0000000000000"
definition minus_two63 :: u64 where "minus_two63 = 0xC3E0000000000000"

text \<open>
  \<open>bUseLongDouble\<close> says that the type long double has 64 bits of precision or more, which hold every 64-bit integer.
\<close>

definition sqlite3IntFloatCompare :: "bool \<Rightarrow> i64 \<Rightarrow> u64 \<Rightarrow> int" where
  "sqlite3IntFloatCompare bUseLongDouble i r =
     (if sqlite3IsNaN r then 1
      else if bUseLongDouble then
        (let x = i * dunit in if x < dval r then - 1 else if x > dval r then 1 else 0)
      else if dless r minus_two63 then 1
      else if \<not> dless r two63 then - 1
      else
        (let y = int_of_double r
         in if i < y then - 1
            else if i > y then 1
            else (let s = double_of_int i in if dless s r then - 1 else if dless r s then 1 else 0)))"

section \<open>The bits of a double\<close>

lemma dfrac_eq: "dfrac r = unat r mod 2 ^ 52"
proof -
  have "MAN754 = mask 52" by (simp add: MAN754_def mask_eq_exp_minus_1)
  then have "r AND MAN754 = take_bit 52 r" by (simp only: take_bit_eq_mask)
  then show ?thesis unfolding dfrac_def by (simp only: unsigned_take_bit_eq take_bit_eq_mod [where ?'a = nat])
qed

lemma dexp_eq: "dexp r = unat r div 2 ^ 52 mod 2 ^ 11"
proof -
  have m: "(0x7ff :: u64) = mask 11" by (simp add: mask_eq_exp_minus_1)
  have "drop_bit 52 r AND 0x7ff = take_bit 11 (drop_bit 52 r)" unfolding m by (simp only: take_bit_eq_mask)
  then show ?thesis unfolding dexp_def by (simp only: unsigned_take_bit_eq unat_drop_bit_eq take_bit_eq_mod [where ?'a = nat] drop_bit_eq_div [where ?'a = nat])
qed

lemma dfrac_less: "dfrac r < 2 ^ 52" unfolding dfrac_eq by simp

lemma dexp_less: "dexp r < 2048" unfolding dexp_eq by simp

text \<open>A double from its fields.\<close>

lemma fields_of_nat:
  assumes "e < 2048" and "f < 2 ^ 52"
  shows "dexp (of_nat (e * 2 ^ 52 + f)) = e" and "dfrac (of_nat (e * 2 ^ 52 + f)) = f"
    and "\<not> bit (of_nat (e * 2 ^ 52 + f) :: u64) 63"
proof -
  have le: "e * 2 ^ 52 + f < 2 ^ 63"
  proof -
    have "e * 2 ^ 52 \<le> 2047 * 2 ^ 52" using assms(1) by (intro mult_le_mono1) simp
    with assms(2) show ?thesis by simp
  qed
  then have u: "unat (of_nat (e * 2 ^ 52 + f) :: u64) = e * 2 ^ 52 + f"
    unfolding unsigned_of_nat by (simp add: take_bit_nat_eq_self_iff)
  show "dexp (of_nat (e * 2 ^ 52 + f)) = e" unfolding dexp_eq u using assms by simp
  show "dfrac (of_nat (e * 2 ^ 52 + f)) = f" unfolding dfrac_eq u using assms by simp
  have "bit (of_nat (e * 2 ^ 52 + f) :: u64) 63 = bit (unat (of_nat (e * 2 ^ 52 + f) :: u64)) 63"
    by (simp only: bit_unsigned_iff) simp
  also have "\<dots> = odd ((e * 2 ^ 52 + f) div 2 ^ 63)" unfolding u bit_iff_odd ..
  also have "(e * 2 ^ 52 + f) div 2 ^ 63 = 0" using le by (intro div_less)
  finally show "\<not> bit (of_nat (e * 2 ^ 52 + f) :: u64) 63" by simp
qed

text \<open>Doubles are bounded, and large ones are integers with at most 53 significant bits.\<close>

lemma sign_bit_exp: "bit (x :: u64) 63 \<Longrightarrow> \<not> bit (x AND EXP754) 63"
  by (simp add: EXP754_def bit_simps)

lemma dmag_big:
  assumes "dmag r \<ge> 2 ^ 53 * 2 ^ 1074" and "dmag r \<le> 2 ^ 63 * 2 ^ 1074"
  obtains m s where "dmag r = m * 2 ^ s * 2 ^ 1074" and "2 ^ 52 \<le> m" and "m < 2 ^ 53" and "s \<le> 11"
proof -
  let ?m = "2 ^ 52 + dfrac r"
  have m: "2 ^ 52 \<le> ?m" "?m < 2 ^ 53" using dfrac_less [of r] by simp_all
  have e: "dexp r \<noteq> 0"
  proof
    assume "dexp r = 0"
    then have "dmag r < 2 ^ 52" using dfrac_less by (simp add: dmag_def)
    moreover have "(2 :: nat) ^ 52 \<le> 2 ^ 53 * 2 ^ 1074" unfolding power_add [symmetric] by (intro power_increasing) simp_all
    ultimately show False using assms(1) by linarith
  qed
  then have d: "dmag r = ?m * 2 ^ (dexp r - 1)" by (simp add: dmag_def)
  have lo: "1074 < dexp r - 1"
  proof (rule ccontr)
    assume "\<not> ?thesis"
    then have "(2 :: nat) ^ (dexp r - 1) \<le> 2 ^ 1074" by (intro power_increasing) simp_all
    then have "?m * 2 ^ (dexp r - 1) \<le> ?m * 2 ^ 1074" by (rule mult_le_mono2)
    also have "\<dots> < 2 ^ 53 * 2 ^ 1074" using m(2) by (intro mult_less_mono1) simp_all
    finally show False using assms(1) d by linarith
  qed
  have hi: "dexp r - 1 \<le> 1085"
  proof (rule ccontr)
    assume "\<not> ?thesis"
    then have "(2 :: nat) ^ 1086 \<le> 2 ^ (dexp r - 1)" by (intro power_increasing) simp_all
    then have "2 ^ 52 * 2 ^ 1086 \<le> ?m * 2 ^ (dexp r - 1)" using m(1) by (intro mult_le_mono)
    moreover have "(2 :: nat) ^ 63 * 2 ^ 1074 < 2 ^ 52 * 2 ^ 1086" unfolding power_add [symmetric] by (intro power_strict_increasing) simp_all
    ultimately show False using assms(2) d by linarith
  qed
  have "(2 :: nat) ^ (dexp r - 1) = 2 ^ (dexp r - 1 - 1074) * 2 ^ 1074" unfolding power_add [symmetric] using lo by simp
  with d have "dmag r = ?m * 2 ^ (dexp r - 1 - 1074) * 2 ^ 1074" by (simp only: mult.assoc)
  with m lo hi show thesis by (intro that [of ?m "dexp r - 1 - 1074"]) simp_all
qed

section \<open>Exact conversions\<close>

lemma log2_eq: "2 ^ k \<le> n \<Longrightarrow> n < 2 ^ Suc k \<Longrightarrow> log2 n = k"
proof (induction k arbitrary: n)
  case 0
  then show ?case by (simp add: log2.simps [of n])
next
  case (Suc k)
  have "2 ^ k \<le> n div 2" "n div 2 < 2 ^ Suc k" using Suc.prems by (simp_all add: less_mult_imp_div_less)
  then have "log2 (n div 2) = k" by (rule Suc.IH)
  moreover have "1 < n"
  proof -
    have "(1 :: nat) \<le> 2 ^ k" by simp
    with Suc.prems(1) show ?thesis unfolding power_Suc by linarith
  qed
  ultimately show ?case by (simp add: log2.simps [of n])
qed

lemma log2_bounds: "n \<noteq> 0 \<Longrightarrow> 2 ^ log2 n \<le> n \<and> n < 2 ^ Suc (log2 n)"
proof (induction n rule: log2.induct)
  case (1 n)
  show ?case
  proof (cases "n \<le> 1")
    case True
    with 1 show ?thesis by (simp add: log2.simps [of n])
  next
    case False
    with 1 have "2 ^ log2 (n div 2) \<le> n div 2 \<and> n div 2 < 2 ^ Suc (log2 (n div 2))" by auto
    with False show ?thesis by (auto simp: log2.simps [of n])
  qed
qed

text \<open>An integer of at most 53 significant bits is converted without rounding.\<close>

lemma double_mag_exact:
  assumes "n = m * 2 ^ s" and "2 ^ 52 \<le> m * 2 ^ t" and "m * 2 ^ t < 2 ^ 53" and "t \<le> 52" and "s = 0 \<or> t = 0" and "s \<le> 11"
  shows "int (dmag (double_mag n)) = int n * dunit" and "\<not> bit (double_mag n) 63" and "dexp (double_mag n) < 2047"
proof -
  define k where "k = 52 + s - t"
  define w where "w = m * 2 ^ t"
  have m0: "n \<noteq> 0" using assms(1,2) by (cases "m = 0") auto
  have nt: "n * 2 ^ t = w * 2 ^ s" unfolding w_def assms(1) by simp
  have pk: "(2 :: nat) ^ k * 2 ^ t = 2 ^ 52 * 2 ^ s" unfolding k_def power_add [symmetric] using assms(4) by simp
  have "2 ^ k * 2 ^ t \<le> n * 2 ^ t" unfolding nt pk using assms(2) unfolding w_def by (rule mult_le_mono1)
  then have lo: "2 ^ k \<le> n" by simp
  have "n * 2 ^ t < 2 ^ 53 * 2 ^ s" unfolding nt using assms(3) unfolding w_def by (rule mult_less_mono1) simp
  also have "\<dots> = 2 * (2 ^ 52 * 2 ^ s)" by simp
  also have "\<dots> = 2 * (2 ^ k * 2 ^ t)" unfolding pk ..
  finally have hi: "n < 2 ^ Suc k" by simp
  note k = log2_eq [OF lo hi]
  have mm: "(if k \<le> 52 then n * 2 ^ (52 - k) else round_even n (k - 52)) = w"
  proof (cases "s = 0")
    case True
    then show ?thesis using assms(1,4) by (simp add: k_def w_def)
  next
    case False
    with assms(5) have "t = 0" by simp
    with False assms(1) show ?thesis by (simp add: k_def w_def round_even_def)
  qed
  have b: "double_mag n = of_nat ((k + 1023) * 2 ^ 52 + (w - 2 ^ 52))"
  proof -
    have "(k + 1022) * 2 ^ 52 + w = (k + 1023) * 2 ^ 52 + (w - 2 ^ 52)" using assms(2) unfolding w_def [symmetric] by simp
    then show ?thesis unfolding double_mag_def Let_def k mm using m0 by (simp only: if_False)
  qed
  have fw: "k + 1023 < 2048" "w - 2 ^ 52 < 2 ^ 52" using assms(3,6) unfolding w_def [symmetric] k_def by simp_all
  note f = fields_of_nat [OF fw, folded b]
  show "\<not> bit (double_mag n) 63" by (rule f(3))
  show "dexp (double_mag n) < 2047" unfolding f(1) using assms(6) by (simp add: k_def)
  have "dmag (double_mag n) = w * 2 ^ (k + 1022)"
    unfolding dmag_def f using assms(2) unfolding w_def [symmetric] by simp
  also have "(2 :: nat) ^ (k + 1022) * 2 ^ t = 2 ^ 1074 * 2 ^ s" unfolding power_add [symmetric] k_def using assms(4) by simp
  then have "(w * 2 ^ (k + 1022)) * 2 ^ t = (w * 2 ^ s) * 2 ^ 1074" by (simp add: mult.assoc mult.left_commute)
  then have "(w * 2 ^ (k + 1022)) * 2 ^ t = (n * 2 ^ 1074) * 2 ^ t" unfolding nt [symmetric] by (simp only: mult.assoc mult.commute mult.left_commute)
  then have "w * 2 ^ (k + 1022) = n * 2 ^ 1074" by simp
  finally show "int (dmag (double_mag n)) = int n * dunit" by (simp add: dunit_def)
qed

lemma NaN_exp: "IsNaN x \<Longrightarrow> dexp x = 2047"
proof -
  assume "IsNaN x"
  then have "drop_bit 52 (x AND EXP754) = drop_bit 52 EXP754" by (simp only: IsNaN_def)
  moreover have "drop_bit 52 EXP754 = 0x7ff" by (simp add: EXP754_def push_bit_eq_mult drop_bit_eq_div)
  ultimately have "drop_bit 52 x AND 0x7ff = 0x7ff" by (simp add: drop_bit_and)
  then show ?thesis by (simp add: dexp_def)
qed

lemma bit_sign: "bit SIGN754 n \<longleftrightarrow> n = 63"
  unfolding SIGN754_def bit_push_bit_iff by (auto simp: bit_1_iff)

lemma signed_fields:
  "dexp (r OR SIGN754) = dexp r" "dfrac (r OR SIGN754) = dfrac r" "bit (r OR SIGN754 :: u64) 63"
proof -
  have m: "(0x7ff :: u64) = mask 11" "MAN754 = mask 52" by (simp_all add: MAN754_def mask_eq_exp_minus_1)
  have "drop_bit 52 (r OR SIGN754) AND mask 11 = drop_bit 52 r AND mask 11"
    by (rule bit_word_eqI) (auto simp: bit_simps bit_sign)
  then show "dexp (r OR SIGN754) = dexp r" by (simp only: dexp_def m)
  have "(r OR SIGN754) AND mask 52 = r AND mask 52" by (rule bit_word_eqI) (auto simp: bit_simps bit_sign)
  then show "dfrac (r OR SIGN754) = dfrac r" by (simp only: dfrac_def m)
qed (simp add: bit_simps bit_sign)

lemma signed_dmag: "dmag (r OR SIGN754) = dmag r"
  by (simp only: dmag_def signed_fields)

text \<open>The magnitudes that are converted exactly.\<close>

definition exact_mag :: "nat \<Rightarrow> bool" where
  "exact_mag n \<longleftrightarrow> n < 2 ^ 53 \<or> (\<exists>m s. n = m * 2 ^ s \<and> 2 ^ 52 \<le> m \<and> m < 2 ^ 53 \<and> s \<le> 11)"

lemma exact_mag_double:
  assumes "exact_mag n"
  shows "int (dmag (double_mag n)) = int n * dunit \<and> \<not> bit (double_mag n) 63 \<and> dexp (double_mag n) < 2047"
proof (cases "n = 0")
  case True
  then show ?thesis by (simp add: double_mag_def dmag_def dexp_def dfrac_def)
next
  case nz: False
  show ?thesis
  proof (cases "n < 2 ^ 53")
    case True
    define t where "t = 52 - log2 n"
    note b = log2_bounds [OF nz]
    have k: "log2 n \<le> 52"
    proof (rule ccontr)
      assume "\<not> ?thesis"
      then have "(2 :: nat) ^ 53 \<le> 2 ^ log2 n" by (intro power_increasing) simp_all
      with b True show False by linarith
    qed
    have e: "(2 :: nat) ^ log2 n * 2 ^ t = 2 ^ 52" unfolding power_add [symmetric] t_def using k by simp
    have lo: "2 ^ log2 n * 2 ^ t \<le> n * 2 ^ t" using b by (intro mult_le_mono1) simp
    have hi: "n * 2 ^ t < 2 ^ Suc (log2 n) * 2 ^ t" using b by (intro mult_less_mono1) simp_all
    have "2 ^ Suc (log2 n) * 2 ^ t = (2 :: nat) ^ 53" unfolding power_Suc mult.assoc e by simp
    note r = lo [unfolded e] hi [unfolded this]
    with double_mag_exact [of n n 0 t] r show ?thesis by (simp add: t_def)
  next
    case False
    with assms obtain m s where "n = m * 2 ^ s" "2 ^ 52 \<le> m" "m < 2 ^ 53" "s \<le> 11" by (auto simp: exact_mag_def)
    with double_mag_exact [of n m s 0] show ?thesis by simp
  qed
qed

lemma dval_double_of_int:
  assumes "exact_mag (nat \<bar>i\<bar>)"
  shows "dval (double_of_int i) = i * dunit" and "\<not> IsNaN (double_of_int i)"
proof -
  have p: "int (dmag (double_mag (nat \<bar>i\<bar>))) = \<bar>i\<bar> * dunit" "\<not> bit (double_mag (nat \<bar>i\<bar>)) 63"
    "dexp (double_mag (nat \<bar>i\<bar>)) < 2047" using exact_mag_double [OF assms] by simp_all
  show "dval (double_of_int i) = i * dunit"
  proof (cases "i < 0")
    case True
    with p(1) show ?thesis by (simp add: double_of_int_def dval_def signed_dmag signed_fields)
  next
    case False
    with p(1,2) show ?thesis by (simp add: double_of_int_def dval_def)
  qed
  have "dexp (double_of_int i) < 2047" using p(3) by (cases "i < 0") (simp_all add: double_of_int_def signed_fields)
  then show "\<not> IsNaN (double_of_int i)" using NaN_exp by auto
qed

text \<open>Rounding: a 64-bit integer never becomes a NaN.\<close>

lemma round_even_le:
  assumes "n < 2 ^ Suc k" and "52 \<le> k"
  shows "round_even n (k - 52) \<le> 2 ^ 53"
proof -
  have "2 ^ Suc k = (2 :: nat) ^ 53 * 2 ^ (k - 52)" unfolding power_add [symmetric] using assms(2) by simp
  then have "n div 2 ^ (k - 52) < 2 ^ 53" using assms(1) by (simp add: less_mult_imp_div_less)
  then show ?thesis unfolding round_even_def Let_def by (simp split: if_split)
qed

lemma double_mag_exp:
  assumes "n \<le> 2 ^ 63"
  shows "dexp (double_mag n) < 2047"
proof (cases "n = 0")
  case True
  then show ?thesis by (simp add: double_mag_def dexp_def)
next
  case False
  note b = log2_bounds [OF this]
  define k where "k = log2 n"
  have k: "k \<le> 63"
  proof (rule ccontr)
    assume "\<not> ?thesis"
    then have "(2 :: nat) ^ 64 \<le> 2 ^ k" by (intro power_increasing) simp_all
    with b assms show False unfolding k_def by simp
  qed
  define m where "m = (if k \<le> 52 then n * 2 ^ (52 - k) else round_even n (k - 52))"
  have m: "m \<le> 2 ^ 53"
  proof (cases "k \<le> 52")
    case True
    have "n * 2 ^ (52 - k) \<le> 2 ^ Suc k * 2 ^ (52 - k)" using b unfolding k_def by (intro mult_le_mono1) simp
    also have "\<dots> = 2 ^ 53" unfolding power_add [symmetric] using True by simp
    finally show ?thesis using True by (simp add: m_def)
  next
    case False
    then show ?thesis using b round_even_le [of n k] unfolding k_def m_def by simp
  qed
  define x where "x = (k + 1022) * 2 ^ 52 + m"
  have le: "x \<le> 1087 * 2 ^ 52" unfolding x_def using k m by simp
  have d: "double_mag n = of_nat x" using False by (simp add: double_mag_def Let_def k_def m_def x_def)
  have "unat (of_nat x :: u64) = x" unfolding unsigned_of_nat using le by (simp add: take_bit_nat_eq_self_iff)
  then have "unat (double_mag n) div 2 ^ 52 \<le> 1087" unfolding d using div_le_mono [OF le, of "2 ^ 52"] by simp
  from order.trans [OF mod_less_eq_dividend this] show ?thesis unfolding dexp_eq by (rule order.strict_trans1) simp
qed

lemma double_of_int_number:
  fixes i :: u64
  shows "\<not> IsNaN (double_of_int (sint i))"
proof -
  have "- (2 ^ 63) \<le> sint i" "sint i < 2 ^ 63" using sint_greater_eq [of i] sint_less [of i] by simp_all
  then have "nat (sint i) \<le> 2 ^ 63" "nat (- sint i) \<le> 2 ^ 63" by simp_all
  then have "dexp (double_of_int (sint i)) < 2047" using double_mag_exp by (simp add: double_of_int_def signed_fields)
  then show ?thesis using NaN_exp by auto
qed

section \<open>Cutting off\<close>

lemma dunit_pos: "0 < dunit" by (simp add: dunit_def)

lemma dval_limits: "dval two63 = 2 ^ 63 * dunit" "dval minus_two63 = - (2 ^ 63 * dunit)"
    "\<not> IsNaN two63" "\<not> IsNaN minus_two63"
proof -
  have e: "dexp two63 = 1086" "dfrac two63 = 0" "dexp minus_two63 = 1086" "dfrac minus_two63 = 0"
    by (simp_all only: dexp_eq dfrac_eq) (simp_all add: two63_def minus_two63_def)
  have m: "2 ^ 52 * 2 ^ 1085 = (2 :: int) ^ 63 * 2 ^ 1074" unfolding power_add [symmetric] by simp
  have "int (dmag two63) = 2 ^ 63 * dunit" "int (dmag minus_two63) = 2 ^ 63 * dunit"
    unfolding dmag_def e dunit_def m [symmetric] by simp_all
  moreover have "\<not> bit two63 63" "bit minus_two63 63" by (simp_all add: two63_def minus_two63_def bit_iff_odd_drop_bit drop_bit_eq_div)
  ultimately show "dval two63 = 2 ^ 63 * dunit" "dval minus_two63 = - (2 ^ 63 * dunit)" by (simp_all add: dval_def)
  show "\<not> IsNaN two63" "\<not> IsNaN minus_two63" using NaN_exp [of two63] NaN_exp [of minus_two63] e by auto
qed

lemma trunc_less:
  fixes V U i :: int
  assumes "0 < U"
  defines "y \<equiv> (if V < 0 then - (- V div U) else V div U)"
  shows "i < y \<Longrightarrow> i * U < V" and "y < i \<Longrightarrow> V < i * U"
proof -
  have d: "a div U * U \<le> a" "a < (a div U + 1) * U" for a
    using assms(1) pos_mod_sign [of U a] pos_mod_bound [of U a] div_mult_mod_eq [of a U] unfolding distrib_right by linarith+
  have p: "a * U \<le> b * U" if "a \<le> b" for a b using that assms(1) by (intro mult_right_mono) simp_all
  {
    assume "i < y"
    show "i * U < V"
    proof (cases "V < 0")
      case True
      with \<open>i < y\<close> have "i * U \<le> (- (- V div U) - 1) * U" by (intro p) (simp add: y_def)
      with d(2) [of "- V"] show ?thesis by (simp add: algebra_simps)
    next
      case False
      with \<open>i < y\<close> have "i * U \<le> (V div U - 1) * U" by (intro p) (simp add: y_def)
      with d(1) [of V] assms(1) show ?thesis by (simp add: algebra_simps)
    qed
  next
    assume "y < i"
    show "V < i * U"
    proof (cases "V < 0")
      case True
      with \<open>y < i\<close> have "(- (- V div U) + 1) * U \<le> i * U" by (intro p) (simp add: y_def)
      with d(1) [of "- V"] assms(1) show ?thesis by (simp add: algebra_simps)
    next
      case False
      with \<open>y < i\<close> have "(V div U + 1) * U \<le> i * U" by (intro p) (simp add: y_def)
      with d(2) [of V] show ?thesis by (simp add: algebra_simps)
    qed
  }
qed

text \<open>The integer a double is cut off to is converted back without rounding, when the double is not smaller than a 64-bit integer.\<close>

lemma trunc_exact:
  assumes "\<bar>dval r\<bar> \<le> 2 ^ 63 * dunit" and "int_of_double r = i"
  shows "exact_mag (nat \<bar>i\<bar>)"
proof -
  define U :: nat where "U = 2 ^ 1074"
  have u: "dunit = int U" by (simp add: dunit_def U_def)
  have U: "0 < U" by (simp add: U_def)
  have dv: "\<bar>dval r\<bar> = int (dmag r)" by (simp add: dval_def)
  have "int_of_double r = (if dval r < 0 then - int (dmag r div U) else int (dmag r div U))"
    by (simp add: int_of_double_def dval_def u zdiv_int)
  then have n: "nat \<bar>i\<bar> = dmag r div U" using assms(2) by (simp split: if_splits)
  show ?thesis
  proof (cases "dmag r < 2 ^ 53 * U")
    case True
    then have "dmag r div U < 2 ^ 53" by (rule less_mult_imp_div_less)
    then show ?thesis unfolding exact_mag_def n by blast
  next
    case False
    have "int (dmag r) \<le> int (2 ^ 63 * U)" using assms(1) unfolding dv u by simp
    then have "dmag r \<le> 2 ^ 63 * U" by (simp only: of_nat_le_iff)
    with False obtain m s where d: "dmag r = m * 2 ^ s * U" and ms: "2 ^ 52 \<le> m" "m < 2 ^ 53" "s \<le> 11"
      unfolding U_def not_less by (rule dmag_big)
    from d U have "dmag r div U = m * 2 ^ s" by simp
    with ms show ?thesis unfolding exact_mag_def n by blast
  qed
qed

text \<open>Both configurations compare the integer with the value of the double exactly; a NaN, which is NULL, is smaller.\<close>

theorem IntFloatCompare_exact:
  assumes "- (2 ^ 63) \<le> i" and "i < 2 ^ 63"
  shows "sqlite3IntFloatCompare bUseLongDouble i r = (if IsNaN r then 1 else sgn (i * dunit - dval r))"
proof (cases "IsNaN r \<or> bUseLongDouble")
  case True
  then show ?thesis by (auto simp: sqlite3IntFloatCompare_def sqlite3IsNaN_def Let_def sgn_if)
next
  case False
  then have n: "\<not> IsNaN r" and b: "bUseLongDouble = False" by simp_all
  note U = dunit_pos
  have p: "a * dunit \<le> c * dunit" if "a \<le> c" for a c using that U by (intro mult_right_mono) simp_all
  have q: "a * dunit < c * dunit" if "a < c" for a c using that U by (intro mult_strict_right_mono) simp_all
  note lim = p [OF assms(1)] q [OF assms(2)]
  consider (lo) "dval r < - (2 ^ 63 * dunit)" | (hi) "dval r \<ge> 2 ^ 63 * dunit"
    | (mid) "- (2 ^ 63 * dunit) \<le> dval r" "dval r < 2 ^ 63 * dunit" by linarith
  then show ?thesis
  proof cases
    case lo
    with n lim(1) show ?thesis by (simp add: sqlite3IntFloatCompare_def sqlite3IsNaN_def b dless_def dval_limits)
  next
    case hi
    have "\<not> dval r < - (2 ^ 63 * dunit)" using hi U by simp
    with hi n lim(2) show ?thesis by (simp add: sqlite3IntFloatCompare_def sqlite3IsNaN_def b dless_def dval_limits)
  next
    case mid
    define y where "y = int_of_double r"
    have y: "y = (if dval r < 0 then - (- dval r div dunit) else dval r div dunit)" by (simp add: y_def int_of_double_def)
    have e: "sqlite3IntFloatCompare False i r =
        (if i < y then - 1 else if i > y then 1
         else let s = double_of_int i in if dless s r then - 1 else if dless r s then 1 else 0)"
      using mid n by (simp add: sqlite3IntFloatCompare_def sqlite3IsNaN_def dless_def dval_limits y_def)
    consider "i < y" | "y < i" | "i = y" by linarith
    then show ?thesis
    proof cases
      case 1
      have "i * dunit < dval r" by (rule trunc_less(1) [OF U]) (use 1 y in simp)
      with 1 n show ?thesis by (simp add: b e)
    next
      case 2
      have "dval r < i * dunit" by (rule trunc_less(2) [OF U]) (use 2 y in simp)
      with 2 n show ?thesis by (simp add: b e)
    next
      case 3
      have "exact_mag (nat \<bar>i\<bar>)" by (rule trunc_exact [of r]) (use mid 3 y_def in auto)
      note d = dval_double_of_int [OF this]
      show ?thesis unfolding b e using 3 n d by (simp add: dless_def)
    qed
  qed
qed

end
