(* ===== verification/Vdbe_Record.thy ===== *)
theory Vdbe_Record
  imports Varint_Props Double Utf
begin

text \<open>
  Records (vdbeaux.c and vdbe.c in sqlite3.c): the serial types, OP_MakeRecord, which encodes the registers of a row
  or an index key, the decoder and the comparison of an encoded record with a decoded key, with its two fast versions.

  \<^item> A \<open>Mem\<close> is a memory cell with the flags MEM_Null, MEM_Null|MEM_Zero, MEM_Int, MEM_IntReal, MEM_Real, MEM_Str and
    MEM_Blob; the last component of a blob is \<open>u.nZero\<close>, the zero bytes at its end that are not stored
    (0 without MEM_Zero). An integer is a word read with \<open>sint\<close>, a real the bits of a double.
  \<^item> An encoded record is memory that is read at offsets (\<open>mem\<close>), of which \<open>nKey\<close> bytes belong to the record; the others hold anything.
  \<^item> Offsets are \<open>nat\<close>: a record has less than 2^31 bytes, so that no sum of the code wraps.
\<close>

definition SQLITE_TOOBIG :: int where "SQLITE_TOOBIG = 18"

datatype Mem =
    Mem_Null | Mem_NullZero | Mem_Int u64 | Mem_IntReal u64 | Mem_Real u64 | Mem_Str "byte list" | Mem_Blob "byte list" nat

definition off :: "mem \<Rightarrow> nat \<Rightarrow> mem" where
  "off m a = (\<lambda>i. m (a + i))"

definition mem_bytes :: "mem \<Rightarrow> nat \<Rightarrow> byte list" where
  "mem_bytes m n = map m [0..<n]"

section \<open>Serial types\<close>

definition sqlite3SmallTypeSizes :: "nat list" where
  "sqlite3SmallTypeSizes =
     [ 0,  1,  2,  3,  4,  6,  8,  8,  0,  0,
       0,  0,  0,  0,  1,  1,  2,  2,  3,  3,
       4,  4,  5,  5,  6,  6,  7,  7,  8,  8,
       9,  9, 10, 10, 11, 11, 12, 12, 13, 13,
      14, 14, 15, 15, 16, 16, 17, 17, 18, 18,
      19, 19, 20, 20, 21, 21, 22, 22, 23, 23,
      24, 24, 25, 25, 26, 26, 27, 27, 28, 28,
      29, 29, 30, 30, 31, 31, 32, 32, 33, 33,
      34, 34, 35, 35, 36, 36, 37, 37, 38, 38,
      39, 39, 40, 40, 41, 41, 42, 42, 43, 43,
      44, 44, 45, 45, 46, 46, 47, 47, 48, 48,
      49, 49, 50, 50, 51, 51, 52, 52, 53, 53,
      54, 54, 55, 55, 56, 56, 57, 57]"

definition sqlite3VdbeSerialTypeLen :: "u32 \<Rightarrow> nat" where
  "sqlite3VdbeSerialTypeLen serial_type =
     (if serial_type \<ge> 128 then unat ((serial_type - 12) div 2) else sqlite3SmallTypeSizes ! unat serial_type)"

definition ONE_BYTE_INT :: "mem \<Rightarrow> u32" where
  "ONE_BYTE_INT x = scast (x 0)"

definition TWO_BYTE_INT :: "mem \<Rightarrow> u32" where
  "TWO_BYTE_INT x = 256 * scast (x 0) OR ucast (x 1)"

definition THREE_BYTE_INT :: "mem \<Rightarrow> u32" where
  "THREE_BYTE_INT x = 65536 * scast (x 0) OR push_bit 8 (ucast (x 1)) OR ucast (x 2)"

definition FOUR_BYTE_UINT :: "mem \<Rightarrow> u32" where
  "FOUR_BYTE_UINT x = push_bit 24 (ucast (x 0)) OR push_bit 16 (ucast (x 1)) OR push_bit 8 (ucast (x 2)) OR ucast (x 3)"

definition FOUR_BYTE_INT :: "mem \<Rightarrow> u32" where
  "FOUR_BYTE_INT x = 16777216 * scast (x 0) OR push_bit 16 (ucast (x 1)) OR push_bit 8 (ucast (x 2)) OR ucast (x 3)"

definition eight_bytes :: "mem \<Rightarrow> u64" where
  "eight_bytes buf = push_bit 32 (ucast (FOUR_BYTE_UINT buf)) + ucast (FOUR_BYTE_UINT (off buf 4))"

definition six_bytes :: "mem \<Rightarrow> u64" where
  "six_bytes buf = ucast (FOUR_BYTE_UINT (off buf 2)) + push_bit 32 1 * scast (TWO_BYTE_INT buf)"

definition serialGet :: "mem \<Rightarrow> u32 \<Rightarrow> Mem" where
  "serialGet buf serial_type =
     (let x = eight_bytes buf
      in if serial_type = 6 then Mem_Int x else if IsNaN x then Mem_Null else Mem_Real x)"

text \<open>The answer of serialGet7, whether the value is a NaN, and the double it leaves in the cell.\<close>

definition serialGet7 :: "mem \<Rightarrow> bool \<times> u64" where
  "serialGet7 buf = (let x = eight_bytes buf in (IsNaN x, x))"

definition sqlite3VdbeSerialGet :: "mem \<Rightarrow> u32 \<Rightarrow> Mem" where
  "sqlite3VdbeSerialGet buf serial_type =
     (if serial_type = 10 then Mem_NullZero
      else if serial_type = 11 \<or> serial_type = 0 then Mem_Null
      else if serial_type = 1 then Mem_Int (scast (ONE_BYTE_INT buf))
      else if serial_type = 2 then Mem_Int (scast (TWO_BYTE_INT buf))
      else if serial_type = 3 then Mem_Int (scast (THREE_BYTE_INT buf))
      else if serial_type = 4 then Mem_Int (scast (FOUR_BYTE_INT buf))
      else if serial_type = 5 then Mem_Int (six_bytes buf)
      else if serial_type = 6 \<or> serial_type = 7 then serialGet buf serial_type
      else if serial_type = 8 \<or> serial_type = 9 then Mem_Int (ucast (serial_type - 8))
      else (let z = mem_bytes buf (unat ((serial_type - 12) div 2))
            in if serial_type AND 1 = 0 then Mem_Blob z 0 else Mem_Str z))"

section \<open>OP\_MakeRecord\<close>

text \<open>
  The first pass goes from the last register to the first. It chooses the serial types, counts the bytes of header and
  data and the zero bytes at the end of the record; a blob whose zero bytes are followed by data is expanded, which needs memory.
\<close>

definition int_type :: "int \<Rightarrow> u64 \<Rightarrow> u32 \<times> nat" where
  "int_type file_format i =
     (let uu = (if sint i < 0 then NOT i else i)
      in if uu \<le> 127 then (if i AND 1 = i \<and> file_format \<ge> 4 then (8 + ucast uu, 0) else (1, 1))
         else if uu \<le> 32767 then (2, 2)
         else if uu \<le> 8388607 then (3, 3)
         else if uu \<le> 2147483647 then (4, 4)
         else if uu \<le> 140737488355327 then (5, 6)
         else (6, 8))"

definition size_field :: "int \<Rightarrow> Mem \<Rightarrow> nat \<times> nat \<times> nat \<Rightarrow> (Mem \<times> u32) \<times> nat \<times> nat \<times> nat" where
  "size_field file_format pRec = (\<lambda>(nHdr, nData, nZero).
     case pRec of
       Mem_NullZero \<Rightarrow> ((pRec, 10), nHdr + 1, nData, nZero)
     | Mem_Null \<Rightarrow> ((pRec, 0), nHdr + 1, nData, nZero)
     | Mem_Int i \<Rightarrow> (case int_type file_format i of (t, len) \<Rightarrow> ((pRec, t), nHdr + 1, nData + len, nZero))
     | Mem_IntReal i \<Rightarrow>
         (case int_type file_format i of (t, len) \<Rightarrow>
            if t = 6 then ((Mem_Real (double_of_int (sint i)), 7), nHdr + 1, nData + 8, nZero)
            else ((pRec, t), nHdr + 1, nData + len, nZero))
     | Mem_Real r \<Rightarrow> ((pRec, 7), nHdr + 1, nData + 8, nZero)
     | Mem_Str z \<Rightarrow>
         (let t = of_nat (length z) * 2 + 12 + 1
          in ((pRec, t), nHdr + sqlite3VarintLen (ucast t), nData + length z, nZero))
     | Mem_Blob z k \<Rightarrow>
         (let t = of_nat (length z) * 2 + 12 + of_nat k * 2
          in if k > 0 \<and> nData \<noteq> 0
             then ((Mem_Blob (z @ replicate k 0) 0, t), nHdr + sqlite3VarintLen (ucast t), nData + (length z + k), nZero)
             else ((pRec, t), nHdr + sqlite3VarintLen (ucast t), nData + length z, nZero + k)))"

fun expands :: "Mem \<Rightarrow> nat \<Rightarrow> bool" where
  "expands (Mem_Blob z k) nData \<longleftrightarrow> k > 0 \<and> nData \<noteq> 0"
| "expands _ nData \<longleftrightarrow> False"

text \<open>\<open>None\<close> is running out of memory; \<open>oom\<close> says that sqlite3VdbeMemExpandBlob fails.\<close>

fun size_loop :: "int \<Rightarrow> bool \<Rightarrow> Mem list \<Rightarrow> ((Mem \<times> u32) list \<times> nat \<times> nat \<times> nat) option" where
  "size_loop file_format oom [] = Some ([], 0, 0, 0)"
| "size_loop file_format oom (pRec # rs) =
     (case size_loop file_format oom rs of
        None \<Rightarrow> None
      | Some (fs, nHdr, nData, nZero) \<Rightarrow>
          if oom \<and> expands pRec nData then None
          else (case size_field file_format pRec (nHdr, nData, nZero) of (f, s) \<Rightarrow> Some (f # fs, s)))"

definition header_size :: "nat \<Rightarrow> nat" where
  "header_size nHdr =
     (if nHdr \<le> 126 then nHdr + 1
      else (let nVarint = sqlite3VarintLen (of_nat nHdr); n = nHdr + nVarint
            in if nVarint < sqlite3VarintLen (of_nat n) then n + 1 else n))"

text \<open>The second pass writes. The switch over the length of an integer falls through from the last byte to the first.\<close>

fun mem_u :: "Mem \<Rightarrow> u64" where
  "mem_u (Mem_Int i) = i"
| "mem_u (Mem_IntReal i) = i"
| "mem_u (Mem_Real r) = r"
| "mem_u _ = 0"

fun mem_z :: "Mem \<Rightarrow> byte list" where
  "mem_z (Mem_Str z) = z"
| "mem_z (Mem_Blob z k) = z"
| "mem_z _ = []"

fun write_int :: "mem \<Rightarrow> nat \<Rightarrow> nat \<Rightarrow> u64 \<Rightarrow> mem" where
  "write_int z a 0 v = z"
| "write_int z a (Suc k) v = write_int (z(a + k := ucast (v AND 0xff))) a k (drop_bit 8 v)"

definition memcpy_to :: "mem \<Rightarrow> nat \<Rightarrow> byte list \<Rightarrow> mem" where
  "memcpy_to z a bs = (\<lambda>i. if a \<le> i \<and> i < a + length bs then bs ! (i - a) else z i)"

definition put_varint_at :: "mem \<Rightarrow> nat \<Rightarrow> u64 \<Rightarrow> nat \<times> mem" where
  "put_varint_at z a v =
     (case sqlite3PutVarint (off z a) v of (n, q) \<Rightarrow> (n, \<lambda>i. if i < a then z i else q (i - a)))"

definition write_field :: "mem \<times> nat \<times> nat \<Rightarrow> Mem \<times> u32 \<Rightarrow> mem \<times> nat \<times> nat" where
  "write_field = (\<lambda>(z, zHdr, zPayload) (pRec, serial_type).
     if serial_type \<le> 7 then
       (let z = z(zHdr := ucast serial_type)
        in if serial_type = 0 then (z, zHdr + 1, zPayload)
           else (let len = sqlite3SmallTypeSizes ! unat serial_type
                 in (write_int z zPayload len (mem_u pRec), zHdr + 1, zPayload + len)))
     else if serial_type < 0x80 then
       (let z = z(zHdr := ucast serial_type)
        in if serial_type \<ge> 14 \<and> length (mem_z pRec) > 0
           then (memcpy_to z zPayload (mem_z pRec), zHdr + 1, zPayload + length (mem_z pRec))
           else (z, zHdr + 1, zPayload))
     else
       (case put_varint_at z zHdr (ucast serial_type) of (n, z) \<Rightarrow>
          if length (mem_z pRec) \<noteq> 0
          then (memcpy_to z zPayload (mem_z pRec), zHdr + n, zPayload + length (mem_z pRec))
          else (z, zHdr + n, zPayload)))"

text \<open>
  The opcode after the affinities have been applied: \<open>szMalloc\<close> and \<open>z0\<close> are the size and the old content of the buffer
  of the output register (\<open>z0\<close> is anything when a new one is allocated), \<open>limit\<close> is SQLITE_LIMIT_LENGTH, \<open>oom1\<close> and \<open>oom2\<close> say that
  expanding a blob and allocating the buffer fail. The answer is the error, or the input registers and the output register.
\<close>

definition OP_MakeRecord :: "int \<Rightarrow> nat \<Rightarrow> nat \<Rightarrow> bool \<Rightarrow> bool \<Rightarrow> mem \<Rightarrow> Mem list \<Rightarrow> int + (Mem list \<times> Mem)" where
  "OP_MakeRecord minWriteFileFormat szMalloc limit oom1 oom2 z0 regs =
     (case size_loop minWriteFileFormat oom1 regs of
        None \<Rightarrow> Inl SQLITE_NOMEM
      | Some (fs, n, nData, nZero) \<Rightarrow>
          (let nHdr = header_size n; nByte = nHdr + nData
           in if nByte + nZero > szMalloc \<and> nByte + nZero > limit then Inl SQLITE_TOOBIG
              else if nByte + nZero > szMalloc \<and> oom2 then Inl SQLITE_NOMEM
              else
                (let (zHdr, z) = (if nHdr < 0x80 then (1, z0(0 := of_nat nHdr)) else put_varint_at z0 0 (of_nat nHdr));
                     (z, zHdr, zPayload) = foldl write_field (z, zHdr, nHdr) fs
                 in Inr (map fst fs, Mem_Blob (mem_bytes z nByte) nZero))))"

section \<open>Decoding\<close>

text \<open>The loop of sqlite3VdbeRecordUnpack: \<open>nField\<close> fields may still be stored. The answer is the cells, whose number
  is the new nField of the key, and the final \<open>d\<close>.\<close>

function unpack_loop :: "mem \<Rightarrow> nat \<Rightarrow> nat \<Rightarrow> nat \<Rightarrow> nat \<Rightarrow> nat \<Rightarrow> Mem list \<times> nat" where
  "unpack_loop aKey nKey szHdr nField idx d =
     (if idx < szHdr \<and> d \<le> nKey then
        (case getVarint32 (off aKey idx) of (n, serial_type) \<Rightarrow>
           (let pMem = sqlite3VdbeSerialGet (off aKey d) serial_type;
                d' = d + sqlite3VdbeSerialTypeLen serial_type
            in if nField \<le> 1 then ([pMem], d')
               else (case unpack_loop aKey nKey szHdr (nField - 1) (idx + n) d' of (ms, d'') \<Rightarrow> (pMem # ms, d''))))
      else ([], d))"
  by pat_completeness auto
termination
proof (relation "measure (\<lambda>(m, nKey, szHdr, nField, idx, d). szHdr - idx)", goal_cases)
  case (2 m nKey szHdr nField idx d x n t)
  then have "(x, n) = getVarint32 (off m idx)" by simp
  then have "1 \<le> x" using getVarint32_pos [of "off m idx"] by (metis fst_conv)
  with 2 show ?case by auto
qed simp

declare unpack_loop.simps [simp del]

definition sqlite3VdbeRecordUnpack :: "nat \<Rightarrow> mem \<Rightarrow> nat \<Rightarrow> Mem list" where
  "sqlite3VdbeRecordUnpack nKey aKey nField =
     (case getVarint32 aKey of (idx, szHdr) \<Rightarrow>
        (case unpack_loop aKey nKey (unat szHdr) nField idx (unat szHdr) of (ms, d) \<Rightarrow>
           if d > nKey \<and> ms \<noteq> [] then butlast ms @ [Mem_Null] else ms))"

text \<open>The rowid at the end of an index entry, whose payload of \<open>n\<close> bytes is \<open>z\<close>; an error code otherwise.\<close>

definition sqlite3VdbeIdxRowid :: "nat \<Rightarrow> mem \<Rightarrow> int + u64" where
  "sqlite3VdbeIdxRowid n z =
     (let szHdr = snd (getVarint32 z)
      in if szHdr < 3 \<or> unat szHdr > n then Inl SQLITE_CORRUPT
         else
           (let typeRowid = snd (getVarint32 (off z (unat szHdr - 1)))
            in if typeRowid < 1 \<or> typeRowid > 9 \<or> typeRowid = 7 then Inl SQLITE_CORRUPT
               else
                 (let lenRowid = sqlite3SmallTypeSizes ! unat typeRowid
                  in if n < unat szHdr + lenRowid then Inl SQLITE_CORRUPT
                     else (case sqlite3VdbeSerialGet (off z (n - lenRowid)) typeRowid of
                             Mem_Int i \<Rightarrow> Inr i | _ \<Rightarrow> Inl SQLITE_CORRUPT))))"

end
