(* ===== verification/Vdbe_Encode.thy ===== *)
theory Vdbe_Encode
  imports Vdbe_Record
begin

text \<open>
  What OP_MakeRecord writes: the encoding of a list of fields as a specification, the bytes of each serial type and that
  they are read back, and that the two passes of the opcode, whatever the buffer held, produce the encoding with its zero bytes left off.
\<close>

section \<open>Memory that holds bytes\<close>

definition holds :: "mem \<Rightarrow> nat \<Rightarrow> byte list \<Rightarrow> bool" where
  "holds m a bs \<longleftrightarrow> (\<forall>i < length bs. m (a + i) = bs ! i)"

lemma holds_append: "holds m a (xs @ ys) \<longleftrightarrow> holds m a xs \<and> holds m (a + length xs) ys"
proof
  assume h: "holds m a (xs @ ys)"
  show "holds m a xs \<and> holds m (a + length xs) ys"
  proof
    show "holds m a xs" using h by (auto simp: holds_def nth_append)
    show "holds m (a + length xs) ys" unfolding holds_def
    proof (intro allI impI)
      fix i assume "i < length ys"
      then show "m (a + length xs + i) = ys ! i" using h [unfolded holds_def, rule_format, of "length xs + i"] by (simp add: add.assoc)
    qed
  qed
next
  assume h: "holds m a xs \<and> holds m (a + length xs) ys"
  show "holds m a (xs @ ys)" unfolding holds_def
  proof (intro allI impI)
    fix i assume i: "i < length (xs @ ys)"
    show "m (a + i) = (xs @ ys) ! i"
    proof (cases "i < length xs")
      case True
      with h show ?thesis by (simp add: holds_def nth_append)
    next
      case False
      have e: "a + length xs + (i - length xs) = a + i" using False by simp
      have "m (a + length xs + (i - length xs)) = ys ! (i - length xs)"
        using h i False by (intro holds_def [THEN iffD1, rule_format]) auto
      with False show ?thesis unfolding e by (simp add: nth_append)
    qed
  qed
qed

lemma holds_off: "holds (off m a) b bs \<longleftrightarrow> holds m (a + b) bs"
  by (simp add: holds_def off_def add.assoc)

lemma holds_Nil [simp]: "holds m a []" by (simp add: holds_def)

lemma holds_Cons: "holds m a (b # bs) \<longleftrightarrow> m a = b \<and> holds m (Suc a) bs"
  using holds_append [of m a "[b]" bs] by (auto simp: holds_def)

lemma holds_mem_bytes: "holds m a bs \<Longrightarrow> mem_bytes (off m a) (length bs) = bs"
  by (auto simp: holds_def mem_bytes_def off_def intro: nth_equalityI)

lemma holds_mem_bytes_iff: "mem_bytes m (length bs) = bs \<longleftrightarrow> holds m 0 bs"
proof
  assume a: "mem_bytes m (length bs) = bs"
  show "holds m 0 bs" unfolding holds_def
  proof (intro allI impI)
    fix i assume i: "i < length bs"
    then have "mem_bytes m (length bs) ! i = m i" by (simp add: mem_bytes_def)
    with a show "m (0 + i) = bs ! i" by simp
  qed
next
  assume "holds m 0 bs"
  then show "mem_bytes m (length bs) = bs" by (auto simp: holds_def mem_bytes_def intro: nth_equalityI)
qed

section \<open>Integers\<close>

definition int_bytes :: "nat \<Rightarrow> u64 \<Rightarrow> byte list" where
  "int_bytes len v = map (\<lambda>j. ucast (drop_bit (8 * (len - 1 - j)) v)) [0..<len]"

lemma length_int_bytes [simp]: "length (int_bytes len v) = len"
  by (simp add: int_bytes_def)

lemma int_bytes_Suc: "int_bytes (Suc k) v = int_bytes k (drop_bit 8 v) @ [ucast v]"
  by (auto simp: int_bytes_def add.commute Suc_diff_le intro!: arg_cong [of _ _ "\<lambda>n. ucast (drop_bit n v)"])

lemma ucast_low_byte: "(ucast (v AND 0xff) :: byte) = ucast (v :: u64)"
proof -
  have "(0xff :: u64) = mask 8" by (simp add: mask_eq_exp_minus_1)
  then show ?thesis by (simp only: flip: take_bit_eq_mask) (rule bit_word_eqI, simp add: bit_simps)
qed

lemma write_int_eq: "write_int z a len v = memcpy_to z a (int_bytes len v)"
proof (induction len arbitrary: z v)
  case 0
  show ?case by (rule ext) (auto simp: memcpy_to_def int_bytes_def)
next
  case (Suc k)
  show ?case
    by (rule ext) (auto simp: Suc.IH memcpy_to_def int_bytes_Suc nth_append ucast_low_byte)
qed

text \<open>A value whose bits from position \<open>k\<close> on are all the sign.\<close>

definition sign_from :: "nat \<Rightarrow> u64 \<Rightarrow> bool" where
  "sign_from k v \<longleftrightarrow> (\<forall>j. k \<le> j \<longrightarrow> j < 64 \<longrightarrow> bit v j = bit v 63)"

lemma drop_bit_zero_bits: "drop_bit k (u :: u64) = 0 \<longleftrightarrow> (\<forall>j. k \<le> j \<longrightarrow> \<not> bit u j)"
proof
  assume "drop_bit k u = 0"
  then have "bit (drop_bit k u) n = bit (0 :: u64) n" for n by simp
  then have z: "\<not> bit u (k + n)" for n by (simp add: bit_drop_bit_eq)
  show "\<forall>j. k \<le> j \<longrightarrow> \<not> bit u j"
  proof (intro allI impI)
    fix j assume "k \<le> j"
    with z [of "j - k"] show "\<not> bit u j" by simp
  qed
qed (simp add: bit_eq_iff bit_drop_bit_eq)

lemma sign_from_iff: "sign_from k v \<longleftrightarrow> drop_bit k (if sint v < 0 then NOT v else v) = 0"
proof -
  have s: "sint v < 0 \<longleftrightarrow> bit v 63" by (simp add: sint_uint bit_unsigned_iff)
  have u: "bit (if sint v < 0 then NOT v else v) j \<longleftrightarrow> j < 64 \<and> bit v j \<noteq> bit v 63" for j
    using bit_imp_le_length [of v j] by (auto simp: s bit_not_iff_eq)
  show ?thesis unfolding drop_bit_zero_bits u sign_from_def by blast
qed

lemma le_drop_bit:
  "uu \<le> (127 :: u64) \<longleftrightarrow> drop_bit 7 uu = 0" "uu \<le> (32767 :: u64) \<longleftrightarrow> drop_bit 15 uu = 0"
  "uu \<le> (8388607 :: u64) \<longleftrightarrow> drop_bit 23 uu = 0" "uu \<le> (2147483647 :: u64) \<longleftrightarrow> drop_bit 31 uu = 0"
  "uu \<le> (140737488355327 :: u64) \<longleftrightarrow> drop_bit 47 uu = 0"
  using drop_bit_zero_iff [of 7 uu] drop_bit_zero_iff [of 15 uu] drop_bit_zero_iff [of 23 uu]
    drop_bit_zero_iff [of 31 uu] drop_bit_zero_iff [of 47 uu]
  by (auto simp: word_le_nat_alt word_less_nat_alt)

lemma mult_push:
  "(256 :: u32) * w = push_bit 8 w" "(65536 :: u32) * w = push_bit 16 w" "(16777216 :: u32) * w = push_bit 24 w"
  by (simp_all add: push_bit_eq_mult)

lemma six_push: "push_bit 32 1 * (w :: u64) = push_bit 32 w"
  by (simp add: push_bit_eq_mult)

lemmas int_decode = ONE_BYTE_INT_def TWO_BYTE_INT_def THREE_BYTE_INT_def FOUR_BYTE_INT_def FOUR_BYTE_UINT_def
  off_def mult_push

lemma signed_bit: "bit (scast (w :: 'a::len word) :: 'b::len word) n \<longleftrightarrow> n < LENGTH('b) \<and> bit w (min (LENGTH('a) - 1) n)"
  by (simp add: bit_signed_iff)

lemma sign_fromD: "sign_from k v \<Longrightarrow> k \<le> j \<Longrightarrow> j < 64 \<Longrightarrow> bit v j = bit v 63"
  unfolding sign_from_def by blast

lemma sbyte: "bit (scast (ucast u :: byte) :: u32) n \<longleftrightarrow> n < 32 \<and> bit (u :: u64) (min 7 n)"
  by (auto simp: signed_bit bit_ucast_iff)

lemma ubyte: "bit (ucast (ucast u :: byte) :: u32) n \<longleftrightarrow> n < 8 \<and> bit (u :: u64) n"
  by (auto simp: bit_ucast_iff)

lemma scast_sign:
  assumes "\<And>n. n < 32 \<Longrightarrow> bit (w :: u32) n = bit v n" and "sign_from 31 v"
  shows "scast w = (v :: u64)"
proof (rule bit_word_eqI)
  fix n assume n: "n < LENGTH(64)"
  show "bit (scast w :: u64) n = bit v n"
  proof (cases "n < 32")
    case True
    then have e: "min 31 n = n" by simp
    from True n assms(1) [of n] show ?thesis by (simp add: signed_bit e)
  next
    case False
    with n have "bit v n = bit v 31" using sign_fromD [OF assms(2), of n] sign_fromD [OF assms(2), of 31] by simp
    with False n assms(1) [of 31] show ?thesis by (simp add: signed_bit min_def)
  qed
qed

lemma sign_from_mono: "sign_from k v \<Longrightarrow> k \<le> k' \<Longrightarrow> sign_from k' v"
  unfolding sign_from_def by (blast intro: le_trans)

lemma holds_int_bytes:
  assumes "holds m d (int_bytes len v)" and "j < len"
  shows "m (d + j) = ucast (drop_bit (8 * (len - 1 - j)) v)"
  using assms by (simp add: holds_def int_bytes_def)

text \<open>A signed top byte above \<open>k\<close> bits gives all the bits.\<close>

lemma top_byte_bit: "sign_from (k + 7) v \<Longrightarrow> k \<le> n \<Longrightarrow> n < 64 \<Longrightarrow> bit v (k + min 7 (n - k)) = bit v n"
proof (cases "n - k \<le> 7")
  case False
  moreover assume "sign_from (k + 7) v" "n < 64"
  ultimately show ?thesis using sign_fromD [of "k + 7" v "k + 7"] sign_fromD [of "k + 7" v n] by (simp add: min_def)
qed (simp add: min_def)

lemma decode_1:
  assumes "sign_from 7 v" and "holds m d (int_bytes 1 v)"
  shows "scast (ONE_BYTE_INT (off m d)) = v"
proof (rule scast_sign)
  have b: "m d = ucast v" using holds_int_bytes [OF assms(2), of 0] by simp
  fix n :: nat assume "n < 32"
  then show "bit (ONE_BYTE_INT (off m d)) n = bit v n"
    using top_byte_bit [of 0 v n] assms(1) by (simp add: ONE_BYTE_INT_def off_def b sbyte)
qed (rule sign_from_mono [OF assms(1)], simp)

lemma two_bytes:
  assumes "m d = ucast (drop_bit 8 u)" and "m (d + 1) = ucast (u :: u64)" and "n < 32"
  shows "bit (TWO_BYTE_INT (off m d)) n = bit u (min 15 n)"
proof (cases "8 \<le> n")
  case True
  then have "8 + min 7 (n - 8) = min 15 n" by linarith
  with True assms show ?thesis unfolding TWO_BYTE_INT_def off_def mult_push bit_or_iff bit_push_bit_iff
    by (auto simp: sbyte ubyte bit_drop_bit_eq)
next
  case False
  then have "min 15 n = n" by simp
  with False assms show ?thesis unfolding TWO_BYTE_INT_def off_def mult_push bit_or_iff bit_push_bit_iff
    by (auto simp: sbyte ubyte bit_drop_bit_eq)
qed

lemma decode_2:
  assumes "sign_from 15 v" and "holds m d (int_bytes 2 v)" and "n < 32"
  shows "bit (TWO_BYTE_INT (off m d)) n = bit v n"
proof -
  have b: "m d = ucast (drop_bit 8 v)" "m (d + 1) = ucast v"
    using holds_int_bytes [OF assms(2), of 0] holds_int_bytes [OF assms(2), of 1] by simp_all
  have "bit v (min 15 n) = bit v n"
    using sign_fromD [OF assms(1), of 15] sign_fromD [OF assms(1), of n] assms(3) by (cases "n \<le> 15") (simp_all add: min_def)
  with two_bytes [OF b assms(3)] show ?thesis by simp
qed

lemma decode_3:
  assumes "sign_from 23 v" and "holds m d (int_bytes 3 v)"
  shows "n < 32 \<Longrightarrow> bit (THREE_BYTE_INT (off m d)) n = bit v n"
proof -
  have b: "m d = ucast (drop_bit 16 v)" "m (d + 1) = ucast (drop_bit 8 v)" "m (d + 2) = ucast v"
    using holds_int_bytes [OF assms(2), of 0] holds_int_bytes [OF assms(2), of 1] holds_int_bytes [OF assms(2), of 2] by simp_all
  assume "n < 32"
  then show "bit (THREE_BYTE_INT (off m d)) n = bit v n"
    using top_byte_bit [of 16 v n] assms(1) unfolding THREE_BYTE_INT_def off_def mult_push bit_or_iff bit_push_bit_iff
    by (cases "16 \<le> n"; cases "8 \<le> n") (auto simp add: b [simplified] sbyte ubyte bit_drop_bit_eq)
qed

lemma four_bytes:
  assumes "m d = ucast (drop_bit 24 u)" and "m (d + 1) = ucast (drop_bit 16 u)"
    and "m (d + 2) = ucast (drop_bit 8 u)" and "m (d + 3) = ucast (u :: u64)"
  shows "FOUR_BYTE_UINT (off m d) = ucast u" and "FOUR_BYTE_INT (off m d) = ucast u"
proof -
  show f: "FOUR_BYTE_UINT (off m d) = ucast u"
  proof (rule bit_word_eqI)
    fix n assume "n < LENGTH(32)"
    then show "bit (FOUR_BYTE_UINT (off m d)) n = bit (ucast u :: u32) n"
      unfolding FOUR_BYTE_UINT_def off_def bit_or_iff bit_push_bit_iff
      by (cases "24 \<le> n"; cases "16 \<le> n"; cases "8 \<le> n")
        (auto simp: assms [simplified] ubyte bit_drop_bit_eq bit_ucast_iff)
  qed
  have "FOUR_BYTE_INT (off m d) = FOUR_BYTE_UINT (off m d)"
  proof (rule bit_word_eqI)
    fix n assume n: "n < LENGTH(32)"
    have "bit (push_bit 24 (scast (m d) :: u32)) n = bit (push_bit 24 (ucast (m d) :: u32)) n"
    proof (cases "24 \<le> n")
      case True
      then have "min 7 (n - 24) = n - 24" using n by simp
      with n show ?thesis by (auto simp: bit_push_bit_iff bit_ucast_iff signed_bit)
    qed (simp add: bit_push_bit_iff)
    then show "bit (FOUR_BYTE_INT (off m d)) n = bit (FOUR_BYTE_UINT (off m d)) n"
      unfolding FOUR_BYTE_UINT_def FOUR_BYTE_INT_def off_def mult_push bit_or_iff by simp
  qed
  with f show "FOUR_BYTE_INT (off m d) = ucast u" by simp
qed

lemma decode_4:
  assumes "sign_from 31 v" and "holds m d (int_bytes 4 v)"
  shows "scast (FOUR_BYTE_INT (off m d)) = v" and "scast (FOUR_BYTE_UINT (off m d)) = v"
proof -
  have b: "FOUR_BYTE_UINT (off m d) = ucast v" "FOUR_BYTE_INT (off m d) = ucast v"
    using holds_int_bytes [OF assms(2), of 0] holds_int_bytes [OF assms(2), of 1]
      holds_int_bytes [OF assms(2), of 2] holds_int_bytes [OF assms(2), of 3] by (intro four_bytes; simp)+
  have "scast (ucast v :: u32) = v" by (rule scast_sign) (use assms(1) in \<open>auto simp: bit_ucast_iff\<close>)
  with b show "scast (FOUR_BYTE_INT (off m d)) = v" "scast (FOUR_BYTE_UINT (off m d)) = v" by simp_all
qed

lemma decode_5:
  assumes "sign_from 47 v" and "holds m d (int_bytes 6 v)"
  shows "six_bytes (off m d) = v"
proof -
  note hb = holds_int_bytes [OF assms(2)]
  have "m (d + 2) = ucast (drop_bit 24 v)" "m (d + 2 + 1) = ucast (drop_bit 16 v)"
    "m (d + 2 + 2) = ucast (drop_bit 8 v)" "m (d + 2 + 3) = ucast v"
    unfolding add.assoc using hb [of 2] hb [of 3] hb [of 4] hb [of 5] by simp_all
  then have b: "FOUR_BYTE_UINT (off m (d + 2)) = ucast v" by (rule four_bytes)
  have o: "off (off m d) 2 = off m (d + 2)" by (auto simp: off_def add.assoc)
  have t: "bit (TWO_BYTE_INT (off m d)) n = bit v (32 + n)" if "n < 32" for n
  proof -
    have "m d = ucast (drop_bit 8 (drop_bit 32 v))" "m (d + 1) = ucast (drop_bit 32 v)" using hb [of 0] hb [of 1] by simp_all
    then have "bit (TWO_BYTE_INT (off m d)) n = bit (drop_bit 32 v) (min 15 n)" using that by (rule two_bytes)
    also have "\<dots> = bit v (32 + min 15 n)" by (simp add: bit_drop_bit_eq)
    also have "\<dots> = bit v (32 + n)"
      using sign_fromD [OF assms(1), of 47] sign_fromD [OF assms(1), of "32 + n"] that by (cases "n \<le> 15") (simp_all add: min_def)
    finally show ?thesis .
  qed
  have d: "six_bytes (off m d) = ucast (ucast v :: u32) OR push_bit 32 (scast (TWO_BYTE_INT (off m d)))"
    unfolding six_bytes_def o b six_push by (rule disjunctive_add_eq_or) (auto simp: bit_eq_iff bit_simps)
  show ?thesis unfolding d
  proof (rule bit_word_eqI)
    fix n assume n: "n < LENGTH(64)"
    show "bit (ucast (ucast v :: u32) OR push_bit 32 (scast (TWO_BYTE_INT (off m d))) :: u64) n = bit v n"
    proof (cases "n < 32")
      case True
      then show ?thesis unfolding bit_or_iff bit_push_bit_iff by (auto simp: bit_ucast_iff)
    next
      case False
      then have "min 31 (n - 32) = n - 32" using n by simp
      with False n t [of "n - 32"] show ?thesis unfolding bit_or_iff bit_push_bit_iff by (auto simp: bit_ucast_iff signed_bit)
    qed
  qed
qed

lemma decode_8:
  assumes "holds m d (int_bytes 8 v)"
  shows "eight_bytes (off m d) = v"
proof -
  note hb = holds_int_bytes [OF assms]
  have "m d = ucast (drop_bit 24 (drop_bit 32 v))" "m (d + 1) = ucast (drop_bit 16 (drop_bit 32 v))"
    "m (d + 2) = ucast (drop_bit 8 (drop_bit 32 v))" "m (d + 3) = ucast (drop_bit 32 v)"
    using hb [of 0] hb [of 1] hb [of 2] hb [of 3] by simp_all
  then have a: "FOUR_BYTE_UINT (off m d) = ucast (drop_bit 32 v)" by (rule four_bytes)
  have "m (d + 4) = ucast (drop_bit 24 v)" "m (d + 4 + 1) = ucast (drop_bit 16 v)"
    "m (d + 4 + 2) = ucast (drop_bit 8 v)" "m (d + 4 + 3) = ucast v"
    unfolding add.assoc using hb [of 4] hb [of 5] hb [of 6] hb [of 7] by simp_all
  then have b: "FOUR_BYTE_UINT (off m (d + 4)) = ucast v" by (rule four_bytes)
  have o: "off (off m d) 4 = off m (d + 4)" by (auto simp: off_def add.assoc)
  have e: "eight_bytes (off m d) = push_bit 32 (ucast (ucast (drop_bit 32 v) :: u32)) OR ucast (ucast v :: u32)"
    unfolding eight_bytes_def o a b by (rule disjunctive_add_eq_or) (auto simp: bit_eq_iff bit_simps)
  show ?thesis unfolding e
  proof (rule bit_word_eqI)
    fix n assume "n < LENGTH(64)"
    then show "bit (push_bit 32 (ucast (ucast (drop_bit 32 v) :: u32)) OR ucast (ucast v :: u32) :: u64) n = bit v n"
      unfolding bit_or_iff bit_push_bit_iff by (cases "32 \<le> n") (auto simp: bit_ucast_iff bit_drop_bit_eq)
  qed
qed

end
