(* ===== verification/Vdbe_Make.thy ===== *)
theory Vdbe_Make
  imports Vdbe_Encode
begin

text \<open>
  OP_MakeRecord against the record format: the encoding of a list of values as a specification, and that the two passes of
  the opcode produce it, with the zero bytes at its end left off, whatever the buffer held before.
\<close>

section \<open>The format\<close>

text \<open>A register as the opcode stores it: a large integer of a REAL column becomes a double, zero bytes of a blob are bytes.\<close>

fun stored :: "Mem \<Rightarrow> Mem" where
  "stored (Mem_IntReal i) = (if fst (int_type 4 i) = 6 then Mem_Real (double_of_int (sint i)) else Mem_IntReal i)"
| "stored (Mem_Blob z k) = Mem_Blob (z @ replicate k 0) 0"
| "stored x = x"

fun type_of :: "int \<Rightarrow> Mem \<Rightarrow> u32" where
  "type_of fmt Mem_Null = 0"
| "type_of fmt Mem_NullZero = 10"
| "type_of fmt (Mem_Int i) = fst (int_type fmt i)"
| "type_of fmt (Mem_IntReal i) = fst (int_type fmt i)"
| "type_of fmt (Mem_Real r) = 7"
| "type_of fmt (Mem_Str z) = of_nat (2 * length z + 13)"
| "type_of fmt (Mem_Blob z k) = of_nat (2 * (length z + k) + 12)"

fun data_of :: "int \<Rightarrow> Mem \<Rightarrow> byte list" where
  "data_of fmt (Mem_Int i) = int_bytes (snd (int_type fmt i)) i"
| "data_of fmt (Mem_IntReal i) = int_bytes (snd (int_type fmt i)) i"
| "data_of fmt (Mem_Real r) = int_bytes 8 r"
| "data_of fmt (Mem_Str z) = z"
| "data_of fmt (Mem_Blob z k) = z @ replicate k 0"
| "data_of fmt _ = []"

definition type_bytes :: "u32 \<Rightarrow> byte list" where
  "type_bytes t = varint_bytes (ucast t)"

definition types_bytes :: "int \<Rightarrow> Mem list \<Rightarrow> byte list" where
  "types_bytes fmt xs = concat (map (\<lambda>x. type_bytes (type_of fmt x)) xs)"

definition encode :: "int \<Rightarrow> Mem list \<Rightarrow> byte list" where
  "encode fmt xs =
     varint_bytes (of_nat (header_size (length (types_bytes fmt xs)))) @ types_bytes fmt xs @ concat (map (data_of fmt) xs)"

text \<open>Lengths below SQLITE_MAX_LENGTH, so that a serial type fits 32 bits.\<close>

fun mem_len :: "Mem \<Rightarrow> nat" where
  "mem_len (Mem_Str z) = length z"
| "mem_len (Mem_Blob z k) = length z + k"
| "mem_len _ = 0"

definition short_mem :: "Mem \<Rightarrow> bool" where
  "short_mem x \<longleftrightarrow> mem_len x \<le> 1000000000"

section \<open>Writing\<close>

lemma memcpy_Nil [simp]: "memcpy_to z a [] = z"
  by (rule ext) (auto simp: memcpy_to_def)

lemma memcpy_one: "z(a := b) = memcpy_to z a [b]"
  by (auto simp: memcpy_to_def)

lemma memcpy_append: "memcpy_to (memcpy_to z a xs) (a + length xs) ys = memcpy_to z a (xs @ ys)"
  by (rule ext) (auto simp: memcpy_to_def nth_append)

lemma memcpy_swap: "a + length xs \<le> b \<Longrightarrow> memcpy_to (memcpy_to z b ys) a xs = memcpy_to (memcpy_to z a xs) b ys"
  by (rule ext) (auto simp: memcpy_to_def)

lemma holds_memcpy: "holds (memcpy_to z a bs) a bs"
  by (simp add: holds_def memcpy_to_def)

lemma holds_memcpy_other: "b + length xs \<le> a \<Longrightarrow> holds (memcpy_to z a bs) b xs \<longleftrightarrow> holds z b xs"
  by (auto simp: holds_def memcpy_to_def)

lemma drop_bit_ucast32: "32 \<le> k \<Longrightarrow> drop_bit k (ucast (t :: u32) :: u64) = 0"
  by (rule bit_word_eqI) (auto simp: bit_drop_bit_eq bit_ucast_iff dest: bit_imp_le_length)

lemma put_varint_memcpy:
  assumes "drop_bit 56 v = 0"
  shows "put_varint_at z a v = (length (varint_bytes v), memcpy_to z a (varint_bytes v))"
  unfolding put_varint_at_def put_varint_bytes [OF assms] prod.case
  by (intro arg_cong2 [where f = Pair] ext refl) (auto simp: copy_out_def memcpy_to_def off_def)

lemma type_bytes_small: "t < 0x80 \<Longrightarrow> type_bytes t = [ucast t]"
proof -
  assume t: "t < 0x80"
  have "unat (ucast t :: u64) \<le> unat t" by (simp add: unsigned_ucast_eq take_bit_nat_less_eq_self)
  with t have "(ucast t :: u64) < 128" by (simp add: word_less_nat_alt)
  moreover have "(ucast (ucast t :: u64) :: byte) = ucast t" by (rule bit_word_eqI) (auto simp: bit_ucast_iff)
  ultimately show ?thesis by (simp add: type_bytes_def varint_bytes_small)
qed

text \<open>The data of one field.\<close>

definition field_data :: "Mem \<times> u32 \<Rightarrow> byte list" where
  "field_data f = (case f of (x, t) \<Rightarrow>
     if t \<le> 7 then (if t = 0 then [] else int_bytes (sqlite3SmallTypeSizes ! unat t) (mem_u x))
     else if t < 14 then [] else mem_z x)"

lemma write_field_eq:
  "write_field (z, h, p) f =
     (memcpy_to (memcpy_to z h (type_bytes (snd f))) p (field_data f), h + length (type_bytes (snd f)), p + length (field_data f))"
proof -
  obtain x t where f: "f = (x, t)" by fastforce
  consider "t \<le> 7" | "\<not> t \<le> 7" "t < 0x80" | "\<not> t < 0x80" by blast
  then show ?thesis
  proof cases
    case 1
    then have "t < 0x80" by (simp add: word_less_nat_alt word_le_nat_alt)
    with 1 show ?thesis by (simp add: f write_field_def field_data_def type_bytes_small Let_def write_int_eq memcpy_one)
  next
    case 2
    then show ?thesis
      by (auto simp: f write_field_def field_data_def type_bytes_small Let_def memcpy_one not_le not_less)
  next
    case 3
    then have "\<not> t \<le> 7" "\<not> t < 14" by (simp_all add: word_less_nat_alt word_le_nat_alt)
    with 3 show ?thesis
      using put_varint_memcpy [of "ucast t" z h, OF drop_bit_ucast32]
      by (simp add: f write_field_def field_data_def type_bytes_def)
  qed
qed

lemma write_fields_eq:
  assumes "h + length (concat (map (\<lambda>f. type_bytes (snd f)) fs)) \<le> p"
  shows "foldl write_field (z, h, p) fs =
     (memcpy_to (memcpy_to z h (concat (map (\<lambda>f. type_bytes (snd f)) fs))) p (concat (map field_data fs)),
      h + length (concat (map (\<lambda>f. type_bytes (snd f)) fs)), p + length (concat (map field_data fs)))"
  using assms
proof (induction fs arbitrary: z h p)
  case (Cons f fs)
  let ?H = "concat (map (\<lambda>f. type_bytes (snd f)) fs)" and ?P = "concat (map field_data fs)"
  let ?z = "memcpy_to (memcpy_to z h (type_bytes (snd f))) p (field_data f)"
  have le: "h + length (type_bytes (snd f)) + length ?H \<le> p + length (field_data f)" using Cons.prems by simp
  have "memcpy_to ?z (h + length (type_bytes (snd f))) ?H = memcpy_to (memcpy_to z h (type_bytes (snd f) @ ?H)) p (field_data f)"
    using Cons.prems by (subst memcpy_swap) (simp_all add: memcpy_append)
  then show ?case by (simp add: write_field_eq Cons.IH [OF le] memcpy_append add.assoc)
qed simp

section \<open>The serial type of an integer\<close>

lemma int_type_cases:
  obtains "i = 0 \<or> i = 1" and "int_type fmt i = (8 + ucast i, 0)"
  | "int_type fmt i = (1, 1)" and "sign_from 7 i"
  | "int_type fmt i = (2, 2)" and "sign_from 15 i"
  | "int_type fmt i = (3, 3)" and "sign_from 23 i"
  | "int_type fmt i = (4, 4)" and "sign_from 31 i"
  | "int_type fmt i = (5, 6)" and "sign_from 47 i"
  | "int_type fmt i = (6, 8)"
proof -
  define uu where "uu = (if sint i < 0 then NOT i else i)"
  have d: "int_type fmt i =
     (if uu \<le> 127 then (if i AND 1 = i \<and> fmt \<ge> 4 then (8 + ucast uu, 0) else (1, 1))
      else if uu \<le> 32767 then (2, 2) else if uu \<le> 8388607 then (3, 3) else if uu \<le> 2147483647 then (4, 4)
      else if uu \<le> 140737488355327 then (5, 6) else (6, 8))" by (simp add: int_type_def uu_def Let_def)
  have s: "sign_from k i \<longleftrightarrow> drop_bit k uu = 0" for k by (simp add: sign_from_iff uu_def)
  have one: "i = 0 \<or> i = 1" if "i AND 1 = i"
  proof -
    have "i AND 1 = (if bit i 0 then 1 else 0)" by (simp add: and_one_eq mod2_eq_if bit_0)
    with that show ?thesis by (auto split: if_splits)
  qed
  have "uu = i" if "i = 0 \<or> i = 1" using that by (auto simp: uu_def)
  with d s one that show thesis by (auto simp: le_drop_bit split: if_splits)
qed

lemma small_sizes: "list_all (\<lambda>k. sqlite3SmallTypeSizes ! k = (k - 12) div 2) [12..<128]"
  by code_simp

lemma small_size: "12 \<le> k \<Longrightarrow> k < 128 \<Longrightarrow> sqlite3SmallTypeSizes ! k = (k - 12) div 2"
  using small_sizes unfolding list_all_iff set_upt by (rule bspec) simp

lemma int_sizes: "sqlite3SmallTypeSizes ! 0 = 0" "sqlite3SmallTypeSizes ! 1 = 1" "sqlite3SmallTypeSizes ! 2 = 2"
    "sqlite3SmallTypeSizes ! 3 = 3" "sqlite3SmallTypeSizes ! 4 = 4" "sqlite3SmallTypeSizes ! 5 = 6" "sqlite3SmallTypeSizes ! 6 = 8"
    "sqlite3SmallTypeSizes ! 7 = 8" "sqlite3SmallTypeSizes ! 8 = 0" "sqlite3SmallTypeSizes ! 9 = 0" "sqlite3SmallTypeSizes ! 10 = 0"
  by code_simp+

text \<open>The serial type of a text or a blob of \<open>n\<close> bytes; \<open>b\<close> is 12 or 13.\<close>

lemma long_type:
  assumes "n \<le> 1000000000" and "b = 12 \<or> b = 13"
  defines "t \<equiv> of_nat (2 * n + b) :: u32"
  shows "unat t = 2 * n + b" and "unat ((t - 12) div 2) = n" and "sqlite3VdbeSerialTypeLen t = n"
    and "t AND 1 = 0 \<longleftrightarrow> b = 12"
proof -
  have lt: "2 * n + b < 2 ^ 32" using assms(1,2) by auto
  show u: "unat t = 2 * n + b" unfolding t_def unsigned_of_nat using lt by (simp add: take_bit_nat_eq_self_iff)
  have "12 \<le> t" using u assms(2) by (auto simp: word_le_nat_alt)
  then have "unat (t - 12) = 2 * n + b - 12" by (simp add: unat_sub u)
  then show d: "unat ((t - 12) div 2) = n" using assms(2) by (auto simp: unat_div)
  show "sqlite3VdbeSerialTypeLen t = n"
  proof (cases "t \<ge> 128")
    case True
    with d show ?thesis by (simp add: sqlite3VdbeSerialTypeLen_def)
  next
    case False
    then have "unat t < 128" by (simp add: word_le_nat_alt)
    then show ?thesis using False u assms(2) small_size [of "2 * n + b"] by (auto simp: sqlite3VdbeSerialTypeLen_def)
  qed
  have "bit (unat t) 0 \<longleftrightarrow> bit t 0" unfolding bit_unsigned_iff by simp
  then have "t AND 1 = (if even (unat t) then 0 else 1)" unfolding and_one_eq mod2_eq_if by (simp add: bit_0)
  then show "t AND 1 = 0 \<longleftrightarrow> b = 12" using u assms(2) by auto
qed

lemma type_len: "short_mem x \<Longrightarrow> sqlite3VdbeSerialTypeLen (type_of fmt x) = length (data_of fmt x)"
proof -
  have i: "sqlite3VdbeSerialTypeLen (fst (int_type fmt i)) = snd (int_type fmt i)" for i
    by (rule int_type_cases [of i fmt]) (auto simp: sqlite3VdbeSerialTypeLen_def int_sizes int_sizes(2) [unfolded One_nat_def] word_le_nat_alt)
  assume "short_mem x"
  then show ?thesis
  proof (cases x)
    case (Mem_Blob z k)
    with \<open>short_mem x\<close> long_type(3) [of "length z + k" 12] show ?thesis by (simp only: short_mem_def type_of.simps data_of.simps) simp
  next
    case (Mem_Str z)
    with \<open>short_mem x\<close> long_type(3) [of "length z" 13] show ?thesis by (simp only: short_mem_def type_of.simps data_of.simps) simp
  qed (simp_all add: i sqlite3VdbeSerialTypeLen_def [of 0] sqlite3VdbeSerialTypeLen_def [of 7]
      sqlite3VdbeSerialTypeLen_def [of 10] int_sizes)
qed

text \<open>What a stored value is when it is read.\<close>

fun value_of :: "Mem \<Rightarrow> Mem" where
  "value_of (Mem_IntReal i) = Mem_Int i"
| "value_of (Mem_Real r) = (if IsNaN r then Mem_Null else Mem_Real r)"
| "value_of (Mem_Blob z k) = Mem_Blob (z @ replicate k 0) 0"
| "value_of x = x"

lemma get_int:
  assumes "holds m d (int_bytes (snd (int_type fmt i)) i)"
  shows "sqlite3VdbeSerialGet (off m d) (fst (int_type fmt i)) = Mem_Int i"
proof (rule int_type_cases [of i fmt])
  assume a: "i = 0 \<or> i = 1" "int_type fmt i = (8 + ucast i, 0)"
  from a(1) show ?thesis
  proof
    assume "i = 0"
    then have "fst (int_type fmt i) = 8" using a(2) by simp
    then show ?thesis by (simp only: sqlite3VdbeSerialGet_def \<open>i = 0\<close>) simp
  next
    assume "i = 1"
    then have "fst (int_type fmt i) = 9" using a(2) by simp
    then show ?thesis by (simp only: sqlite3VdbeSerialGet_def \<open>i = 1\<close>) simp
  qed
next
  assume a: "int_type fmt i = (1, 1)" "sign_from 7 i"
  with assms show ?thesis by (simp add: sqlite3VdbeSerialGet_def decode_1)
next
  assume a: "int_type fmt i = (2, 2)" "sign_from 15 i"
  have "scast (TWO_BYTE_INT (off m d)) = i"
    by (rule scast_sign [OF decode_2 [of i m d]]) (use a assms sign_from_mono [of 15 i 31] in simp_all)
  with a show ?thesis by (simp add: sqlite3VdbeSerialGet_def)
next
  assume a: "int_type fmt i = (3, 3)" "sign_from 23 i"
  have "scast (THREE_BYTE_INT (off m d)) = i"
    by (rule scast_sign [OF decode_3 [of i m d]]) (use a assms sign_from_mono [of 23 i 31] in simp_all)
  with a show ?thesis by (simp add: sqlite3VdbeSerialGet_def)
next
  assume a: "int_type fmt i = (4, 4)" "sign_from 31 i"
  with assms show ?thesis by (simp add: sqlite3VdbeSerialGet_def decode_4)
next
  assume a: "int_type fmt i = (5, 6)" "sign_from 47 i"
  with assms show ?thesis by (simp add: sqlite3VdbeSerialGet_def decode_5)
next
  assume a: "int_type fmt i = (6, 8)"
  with assms show ?thesis by (simp add: sqlite3VdbeSerialGet_def serialGet_def decode_8)
qed

lemma get_long:
  assumes "length z \<le> 1000000000" and "holds m d z"
  shows "sqlite3VdbeSerialGet (off m d) (of_nat (2 * length z + 12)) = Mem_Blob z 0"
    and "sqlite3VdbeSerialGet (off m d) (of_nat (2 * length z + 13)) = Mem_Str z"
proof -
  have g: "sqlite3VdbeSerialGet (off m d) t =
      (if t AND 1 = 0 then Mem_Blob (mem_bytes (off m d) (unat ((t - 12) div 2))) 0
       else Mem_Str (mem_bytes (off m d) (unat ((t - 12) div 2))))" if "12 \<le> unat t" for t
  proof -
    have "t \<noteq> k" if "unat k < 12" for k using that \<open>12 \<le> unat t\<close> by auto
    note n = this [of 0] this [of 1] this [of 2] this [of 3] this [of 4] this [of 5] this [of 6] this [of 7]
      this [of 8] this [of 9] this [of 10] this [of 11]
    from n show ?thesis unfolding sqlite3VdbeSerialGet_def Let_def by simp
  qed
  note l = long_type [OF assms(1), of 12] long_type [OF assms(1), of 13]
  show "sqlite3VdbeSerialGet (off m d) (of_nat (2 * length z + 12)) = Mem_Blob z 0"
    by (subst g) (use l holds_mem_bytes [OF assms(2)] in simp_all)
  show "sqlite3VdbeSerialGet (off m d) (of_nat (2 * length z + 13)) = Mem_Str z"
    by (subst g) (use l holds_mem_bytes [OF assms(2)] in simp_all)
qed

lemma get_value:
  assumes "short_mem x" and "holds m d (data_of fmt x)"
  shows "sqlite3VdbeSerialGet (off m d) (type_of fmt x) = value_of x"
proof (cases x)
  case (Mem_Str z)
  with assms get_long(2) [of z m d] show ?thesis by (simp add: short_mem_def)
next
  case (Mem_Blob z k)
  with assms get_long(1) [of "z @ replicate k 0" m d] show ?thesis by (simp add: short_mem_def)
next
  case (Mem_Real r)
  with assms(2) show ?thesis by (simp add: sqlite3VdbeSerialGet_def serialGet_def decode_8)
qed (use assms(2) get_int in \<open>auto simp: sqlite3VdbeSerialGet_def\<close>)

section \<open>The two passes\<close>

lemma length_type_bytes: "length (type_bytes t) = sqlite3VarintLen (ucast t)"
  by (simp add: type_bytes_def length_varint_bytes)

lemma int_type_less: "fst (int_type fmt i) < 10"
  by (rule int_type_cases [of i fmt]) (auto simp: word_less_nat_alt)

lemma length_int_type: "length (type_bytes (fst (int_type fmt i))) = 1"
  using type_bytes_small [of "fst (int_type fmt i)"] int_type_less [of fmt i] by (simp add: word_less_nat_alt)

lemma int_type_six: "fst (int_type fmt i) = 6 \<longleftrightarrow> fst (int_type fmt' i) = 6"
proof -
  have "fst (int_type f i) = 6 \<longleftrightarrow> snd (int_type f i) = 8" for f
    by (rule int_type_cases [of i f]) auto
  moreover have "snd (int_type fmt i) = 8 \<longleftrightarrow> snd (int_type fmt' i) = 8" by (simp add: int_type_def Let_def)
  ultimately show ?thesis by simp
qed

lemma int_field_data:
  "field_data (Mem_Int i, fst (int_type fmt i)) = int_bytes (snd (int_type fmt i)) i"
  "field_data (Mem_IntReal i, fst (int_type fmt i)) = int_bytes (snd (int_type fmt i)) i"
proof -
  have "field_data (x, fst (int_type fmt i)) = int_bytes (snd (int_type fmt i)) i" if "mem_u x = i" for x
    by (rule int_type_cases [of i fmt])
      (auto simp: field_data_def int_sizes int_sizes(2) [unfolded One_nat_def] that word_le_nat_alt word_less_nat_alt int_bytes_def)
  then show "field_data (Mem_Int i, fst (int_type fmt i)) = int_bytes (snd (int_type fmt i)) i"
    "field_data (Mem_IntReal i, fst (int_type fmt i)) = int_bytes (snd (int_type fmt i)) i" by simp_all
qed

lemma long_field_data:
  assumes "n \<le> 1000000000" and "b = 12 \<or> b = 13" and "length (mem_z x) \<le> n"
  shows "field_data (x, of_nat (2 * n + b)) = mem_z x"
proof -
  have u: "unat (of_nat (2 * n + b) :: u32) = 2 * n + b" by (rule long_type(1) [OF assms(1,2)])
  define t :: u32 where "t = of_nat (2 * n + b)"
  have t: "unat t = 2 * n + b" by (simp only: t_def u)
  have "\<not> t \<le> 7" "t < 14 \<longleftrightarrow> n = 0" using t assms(2) by (auto simp: word_le_nat_alt word_less_nat_alt)
  with assms(3) show ?thesis unfolding t_def [symmetric] by (auto simp: field_data_def)
qed

lemma size_field_step:
  assumes "short_mem x" and "size_field fmt x (nHdr, length D, nZero) = (f, nHdr', nData', nZero')"
  shows "snd f = type_of fmt (stored x)" and "nHdr' = nHdr + length (type_bytes (snd f))"
    and "nData' = length (field_data f @ D)"
    and "field_data f @ D @ replicate nZero' 0 = data_of fmt (stored x) @ D @ replicate nZero 0"
proof -
  have one: "length (type_bytes 0) = 1" "length (type_bytes 7) = 1" "length (type_bytes 10) = 1" by (simp_all add: type_bytes_small)
  have fd: "field_data (y, 0) = []" "field_data (Mem_Real r, 7) = int_bytes 8 r" "field_data (y, 10) = []" for y r
    by (simp_all add: field_data_def int_sizes)
  have "snd f = type_of fmt (stored x) \<and> nHdr' = nHdr + length (type_bytes (snd f)) \<and> nData' = length (field_data f @ D) \<and>
      field_data f @ D @ replicate nZero' 0 = data_of fmt (stored x) @ D @ replicate nZero 0"
  proof (cases x)
    case (Mem_Int i)
    obtain t len where e: "int_type fmt i = (t, len)" by fastforce
    with assms(2) Mem_Int int_field_data(1) [of i fmt] length_int_type [of fmt i] show ?thesis
      by (auto simp: size_field_def)
  next
    case (Mem_IntReal i)
    obtain t len where e: "int_type fmt i = (t, len)" by fastforce
    show ?thesis
    proof (cases "t = 6")
      case True
      then have "fst (int_type 4 i) = 6" using int_type_six [of fmt i 4] e by simp
      with assms(2) Mem_IntReal e True show ?thesis by (auto simp: size_field_def one [unfolded One_nat_def] fd)
    next
      case False
      then have "fst (int_type 4 i) \<noteq> 6" using int_type_six [of fmt i 4] e by simp
      with assms(2) Mem_IntReal e False int_field_data(2) [of i fmt] length_int_type [of fmt i] show ?thesis
        by (auto simp: size_field_def)
    qed
  next
    case (Mem_Str z)
    then have d: "field_data (x, of_nat (2 * length z + 13)) = z"
      using long_field_data [of "length z" 13 x] assms(1) by (simp add: short_mem_def)
    have t: "of_nat (length z) * 2 + 12 + 1 = (of_nat (2 * length z + 13) :: u32)" by simp
    from assms(2) Mem_Str have "f = (Mem_Str z, of_nat (2 * length z + 13))"
        "nHdr' = nHdr + length (type_bytes (snd f))" "nData' = length D + length z" "nZero' = nZero"
      unfolding size_field_def Let_def t by (auto simp: length_type_bytes)
    with d Mem_Str show ?thesis by simp
  next
    case (Mem_Blob z k)
    have t: "of_nat (length z) * 2 + 12 + of_nat k * 2 = (of_nat (2 * (length z + k) + 12) :: u32)" by simp
    have d: "field_data (Mem_Blob z k, of_nat (2 * (length z + k) + 12)) = z"
      "field_data (Mem_Blob (z @ replicate k 0) 0, of_nat (2 * (length z + k) + 12)) = z @ replicate k 0"
      using long_field_data [of "length z + k" 12 "Mem_Blob z k"]
        long_field_data [of "length z + k" 12 "Mem_Blob (z @ replicate k 0) 0"] assms(1) Mem_Blob by (simp_all add: short_mem_def)
    show ?thesis
    proof (cases "k > 0 \<and> D \<noteq> []")
      case True
      with assms(2) Mem_Blob have "f = (Mem_Blob (z @ replicate k 0) 0, of_nat (2 * (length z + k) + 12))"
          "nHdr' = nHdr + length (type_bytes (snd f))" "nData' = length D + (length z + k)" "nZero' = nZero"
        unfolding size_field_def Let_def t by (auto simp: length_type_bytes)
      with d(2) Mem_Blob show ?thesis by simp
    next
      case False
      with assms(2) Mem_Blob have "f = (Mem_Blob z k, of_nat (2 * (length z + k) + 12))"
          "nHdr' = nHdr + length (type_bytes (snd f))" "nData' = length D + length z" "nZero' = nZero + k"
        unfolding size_field_def Let_def t by (auto simp: length_type_bytes)
      with d(1) Mem_Blob False show ?thesis by (auto simp: replicate_add add.commute)
    qed
  qed (use assms(2) in \<open>auto simp: size_field_def one [unfolded One_nat_def] fd\<close>)
  then show "snd f = type_of fmt (stored x)" "nHdr' = nHdr + length (type_bytes (snd f))" "nData' = length (field_data f @ D)"
    "field_data f @ D @ replicate nZero' 0 = data_of fmt (stored x) @ D @ replicate nZero 0" by simp_all
qed

lemma short_stored: "short_mem x \<Longrightarrow> short_mem (stored x)"
  by (cases x) (auto simp: short_mem_def)

lemma size_loop_spec:
  assumes "size_loop fmt oom xs = Some (fs, nHdr, nData, nZero)" and "list_all short_mem xs"
  shows "map snd fs = map (\<lambda>x. type_of fmt (stored x)) xs \<and> nHdr = length (concat (map (\<lambda>f. type_bytes (snd f)) fs)) \<and>
     nData = length (concat (map field_data fs)) \<and>
     concat (map field_data fs) @ replicate nZero 0 = concat (map (\<lambda>x. data_of fmt (stored x)) xs)"
  using assms
proof (induction xs arbitrary: fs nHdr nData nZero)
  case (Cons x xs)
  obtain gs h d n where g: "size_loop fmt oom xs = Some (gs, h, d, n)" using Cons.prems(1) by (auto split: option.splits)
  obtain f h' d' n' where f: "size_field fmt x (h, d, n) = (f, h', d', n')" by (metis prod_cases4)
  from Cons.prems(1) g f have e: "fs = f # gs" "nHdr = h'" "nData = d'" "nZero = n'" by (auto split: if_splits)
  from Cons.IH [OF g] Cons.prems(2) have IH: "map snd gs = map (\<lambda>x. type_of fmt (stored x)) xs"
      "h = length (concat (map (\<lambda>f. type_bytes (snd f)) gs))" "d = length (concat (map field_data gs))"
      "concat (map field_data gs) @ replicate n 0 = concat (map (\<lambda>x. data_of fmt (stored x)) xs)" by simp_all
  from Cons.prems(2) f IH(3) have "short_mem x" "size_field fmt x (h, length (concat (map field_data gs)), n) = (f, h', d', n')" by simp_all
  note st = size_field_step [OF this]
  have "field_data f @ concat (map field_data gs) @ replicate n' 0 =
      data_of fmt (stored x) @ concat (map (\<lambda>x. data_of fmt (stored x)) xs)" unfolding st(4) IH(4) ..
  with st(1-3) IH(1,2) show ?case unfolding e by simp
qed simp

lemma size_loop_len:
  "size_loop fmt oom xs = Some (fs, nHdr, nData, nZero) \<Longrightarrow> sum_list (map mem_len xs) \<le> nData + nZero"
proof (induction xs arbitrary: fs nHdr nData nZero)
  case (Cons x xs)
  obtain gs h d n where g: "size_loop fmt oom xs = Some (gs, h, d, n)" using Cons.prems by (auto split: option.splits)
  obtain f h' d' n' where f: "size_field fmt x (h, d, n) = (f, h', d', n')" by (metis prod_cases4)
  from Cons.prems g f have e: "nData = d'" "nZero = n'" by (auto split: if_splits)
  have "mem_len x + d + n \<le> d' + n'"
    using f by (cases x) (auto simp: size_field_def Let_def split: prod.splits if_splits)
  with Cons.IH [OF g] e show ?case by simp
qed simp

lemma size_loop_short:
  assumes "size_loop fmt oom xs = Some (fs, nHdr, nData, nZero)" and "nData + nZero \<le> 1000000000"
  shows "list_all short_mem xs"
proof -
  have "mem_len x \<le> sum_list (map mem_len xs)" if "x \<in> set xs" for x using that by (intro member_le_sum_list) auto
  with size_loop_len [OF assms(1)] assms(2) show ?thesis by (force simp: list_all_iff short_mem_def)
qed

text \<open>The length of the length of the header.\<close>

lemma VarintLen_nat:
  assumes "n < 2 ^ 60" and "0 < k" and "k \<le> 8"
  shows "sqlite3VarintLen (of_nat n) \<le> k \<longleftrightarrow> n < 2 ^ (7 * k)"
proof -
  have u: "unat (of_nat n :: u64) = n" unfolding unsigned_of_nat using assms(1) by (simp add: take_bit_nat_eq_self_iff)
  have "(of_nat n :: u64) < 2 ^ (7 * k) \<longleftrightarrow> n < 2 ^ (7 * k)" using assms(3) by (simp add: word_less_nat_alt u unat_2p)
  with VarintLen_iff [of k "of_nat n"] assms(2,3) show ?thesis by simp
qed

lemma header_size_ok:
  assumes "n \<le> 1000000000"
  shows "header_size n = n + sqlite3VarintLen (of_nat (header_size n))" and "n < header_size n" and "header_size n \<le> n + 6"
proof -
  define L where "L = (\<lambda>n. sqlite3VarintLen (of_nat n))"
  have L: "L m \<le> k \<longleftrightarrow> m < 2 ^ (7 * k)" if "m \<le> 2000000000" "0 < k" "k \<le> 6" for m k
    unfolding L_def using that by (intro VarintLen_nat) simp_all
  have pos: "0 < L m" for m unfolding L_def by (rule VarintLen_pos)
  define k where "k = L n"
  have k5: "k \<le> 5" using L [of n 5] assms by (simp add: k_def)
  have n: "n < 2 ^ (7 * k)" using L [of n k] assms k5 pos [of n] by (simp add: k_def)
  have big: "(2 :: nat) ^ (7 * (k + 1)) = 128 * 2 ^ (7 * k)" by (simp add: power_add)
  have "(2 :: nat) ^ (7 * 1) \<le> 2 ^ (7 * k)" using pos [of n] by (intro power_increasing) (simp_all add: k_def)
  then have k7: "128 \<le> (2 :: nat) ^ (7 * k)" by simp
  have "header_size n = n + L (header_size n) \<and> n < header_size n \<and> header_size n \<le> n + 6"
  proof (cases "n \<le> 126")
    case True
    then have "L (n + 1) = 1" using L [of "n + 1" 1] pos [of "n + 1"] by simp
    with True show ?thesis by (simp add: header_size_def)
  next
    case False
    then have h: "header_size n = (if k < L (n + k) then n + k + 1 else n + k)"
      unfolding header_size_def L_def k_def Let_def by simp
    show ?thesis
    proof (cases "k < L (n + k)")
      case True
      have "L (n + k + 1) \<le> k + 1" using n big k7 k5 assms by (subst L) simp_all
      moreover have "\<not> L (n + k + 1) \<le> k"
      proof -
        have "\<not> n + k < 2 ^ (7 * k)" using True L [of "n + k" k] assms k5 pos [of n] by (simp add: k_def)
        then show ?thesis using L [of "n + k + 1" k] assms k5 pos [of n] by (simp add: k_def)
      qed
      ultimately have "L (n + k + 1) = k + 1" by simp
      with True k5 show ?thesis by (simp add: h)
    next
      case le: False
      have "\<not> L (n + k) < k"
      proof
        assume "L (n + k) < k"
        then have "L (n + k) \<le> k - 1" by simp
        then have k1: "0 < k - 1" using pos [of "n + k"] by simp
        with \<open>L (n + k) \<le> k - 1\<close> have "n + k < 2 ^ (7 * (k - 1))" using L [of "n + k" "k - 1"] assms k5 by simp
        then have "L n \<le> k - 1" using L [of n "k - 1"] assms k5 k1 by simp
        with k1 show False by (simp add: k_def)
      qed
      with le have "L (n + k) = k" by simp
      with k5 pos [of n] show ?thesis by (simp add: h k_def)
    qed
  qed
  then show "header_size n = n + sqlite3VarintLen (of_nat (header_size n))" "n < header_size n" "header_size n \<le> n + 6"
    by (simp_all add: L_def)
qed

section \<open>The opcode\<close>

lemma unat_small: "n < 2 ^ 32 \<Longrightarrow> unat (of_nat n :: u64) = n"
  unfolding unsigned_of_nat by (simp add: take_bit_nat_eq_self_iff)

lemma header_start:
  assumes "n < 2 ^ 32"
  shows "(if n < 0x80 then (1, z0(0 := of_nat n)) else put_varint_at z0 0 (of_nat n)) =
     (length (varint_bytes (of_nat n)), memcpy_to z0 0 (varint_bytes (of_nat n)))"
proof (cases "n < 0x80")
  case True
  then have "(of_nat n :: u64) < 128" by (simp add: word_less_nat_alt unat_small)
  moreover have "take_bit LENGTH(64) n = n" using True by (simp add: take_bit_nat_eq_self_iff)
  then have "(ucast (of_nat n :: u64) :: byte) = of_nat n" unfolding unsigned_of_nat by simp
  ultimately show ?thesis using True by (simp add: varint_bytes_small memcpy_one)
next
  case False
  have "drop_bit 56 (of_nat n :: u64) = 0"
    by (subst drop_bit_zero_iff) (use assms in \<open>simp_all add: word_less_nat_alt unat_small\<close>)
  from put_varint_memcpy [OF this] False show ?thesis by simp
qed

lemma make_spec:
  assumes "size_loop fmt oom xs = Some (fs, n, nData, nZero)" and "nData + nZero \<le> 1000000000" and "n \<le> 1000000000"
    and "nHdr = header_size n"
    and "(if nHdr < 0x80 then (1, z0(0 := of_nat nHdr)) else put_varint_at z0 0 (of_nat nHdr)) = (zHdr, z1)"
    and "foldl write_field (z1, zHdr, nHdr) fs = (z, zHdr', zPayload')"
  shows "mem_bytes z (nHdr + nData) @ replicate nZero 0 = encode fmt (map stored xs)"
proof -
  note sp = size_loop_spec [OF assms(1) size_loop_short [OF assms(1,2)]]
  define T where "T = concat (map (\<lambda>f. type_bytes (snd f)) fs)"
  define P where "P = concat (map field_data fs)"
  define V where "V = varint_bytes (of_nat nHdr :: u64)"
  from sp have T: "T = types_bytes fmt (map stored xs)"
  proof -
    have "T = concat (map type_bytes (map snd fs))" by (simp add: T_def comp_def)
    with sp show ?thesis by (simp add: types_bytes_def comp_def)
  qed
  have n: "n = length T" and P: "length P = nData" "P @ replicate nZero 0 = concat (map (data_of fmt) (map stored xs))"
    using sp by (simp_all add: T_def P_def comp_def)
  note h = header_size_ok [OF assms(3), folded assms(4)]
  have V: "length V + length T = nHdr" using h(1) by (simp add: V_def length_varint_bytes n)
  have "nHdr < 2 ^ 32" using h(3) assms(3) by simp
  from header_start [OF this, of z0, folded V_def] assms(5) have hs: "zHdr = length V" "z1 = memcpy_to z0 0 V" by simp_all
  have "z = memcpy_to (memcpy_to (memcpy_to z0 0 V) (length V) T) nHdr P"
    using assms(6) write_fields_eq [of "length V" fs nHdr "memcpy_to z0 0 V"] V by (simp add: hs T_def P_def)
  also have "memcpy_to (memcpy_to z0 0 V) (length V) T = memcpy_to z0 0 (V @ T)" using memcpy_append [of z0 0 V T] by simp
  also have "memcpy_to (memcpy_to z0 0 (V @ T)) nHdr P = memcpy_to z0 0 ((V @ T) @ P)"
    using memcpy_append [of z0 0 "V @ T" P] V by simp
  finally have "holds z 0 ((V @ T) @ P)" by (simp add: holds_memcpy)
  then have "mem_bytes z (length ((V @ T) @ P)) = (V @ T) @ P" by (simp only: holds_mem_bytes_iff)
  moreover have "length ((V @ T) @ P) = nHdr + nData" using V P(1) by simp
  ultimately have "mem_bytes z (nHdr + nData) @ replicate nZero 0 = V @ T @ (P @ replicate nZero 0)" by simp
  also have "\<dots> = encode fmt (map stored xs)" unfolding P(2) by (simp add: encode_def V_def assms(4) n T)
  finally show ?thesis .
qed

theorem MakeRecord_encode:
  assumes "OP_MakeRecord fmt szMalloc limit oom1 oom2 z0 xs = Inr (regs, pOut)"
    and "szMalloc \<le> 1000000000" and "limit \<le> 1000000000"
  obtains z nZero where "pOut = Mem_Blob z nZero" and "z @ replicate nZero 0 = encode fmt (map stored xs)"
    and "list_all short_mem xs" and "length (encode fmt (map stored xs)) \<le> 1000000000"
proof -
  obtain fs n nData nZero where g: "size_loop fmt oom1 xs = Some (fs, n, nData, nZero)"
    using assms(1) by (auto simp: OP_MakeRecord_def split: option.splits)
  define nHdr where "nHdr = header_size n"
  have le: "nHdr + nData + nZero \<le> 1000000000" using assms g
    by (auto simp: OP_MakeRecord_def nHdr_def Let_def split: if_splits prod.splits)
  have "n \<le> nHdr" unfolding nHdr_def header_size_def Let_def by auto
  with le have small: "nData + nZero \<le> 1000000000" "n \<le> 1000000000" by simp_all
  obtain zHdr z1 where a: "(if nHdr < 0x80 then (1, z0(0 := of_nat nHdr)) else put_varint_at z0 0 (of_nat nHdr)) = (zHdr, z1)" by fastforce
  obtain m zHdr' zPayload' where b: "foldl write_field (z1, zHdr, nHdr) fs = (m, zHdr', zPayload')" by (metis prod_cases3)
  have "pOut = Mem_Blob (mem_bytes m (nHdr + nData)) nZero"
    using assms(1) g a b unfolding OP_MakeRecord_def by (simp only: option.case prod.case Let_def nHdr_def [symmetric]) (simp split: if_splits)
  moreover note make_spec [OF g small nHdr_def a b]
  ultimately obtain z where "pOut = Mem_Blob z nZero" "z @ replicate nZero 0 = encode fmt (map stored xs)"
      "length z = nHdr + nData" by (simp add: mem_bytes_def)
  moreover from this have "length (encode fmt (map stored xs)) = nHdr + nData + nZero" by (metis length_append length_replicate)
  ultimately show thesis using le size_loop_short [OF g small(1)] by (intro that) simp_all
qed

end
