(* ===== verification/Vdbe_Unpack.thy ===== *)
theory Vdbe_Unpack
  imports Vdbe_Make
begin

text \<open>
  Decoding what OP_MakeRecord encoded gives the values back, and decoding anything at all, a corrupt record included, gives
  an answer that depends on no byte far beyond the record.
\<close>

section \<open>Round trip\<close>

lemma get_type:
  assumes "holds m a (type_bytes t)"
  shows "getVarint32 (off m a) = (length (type_bytes t), t)"
proof -
  have "\<forall>i < length (varint_bytes (ucast t)). off m a i = varint_bytes (ucast t) ! i"
    using assms by (simp add: holds_def off_def type_bytes_def)
  from get_varint_bytes [OF drop_bit_ucast32 this] show ?thesis by (simp add: type_bytes_def ucast_up_down)
qed

lemma unpack_loop_spec:
  assumes "holds m idx (types_bytes fmt xs)" and "holds m d (concat (map (data_of fmt) xs))"
    and "szHdr = idx + length (types_bytes fmt xs)" and "d + length (concat (map (data_of fmt) xs)) \<le> nKey"
    and "list_all short_mem xs" and "1 \<le> nField"
  shows "unpack_loop m nKey szHdr nField idx d =
     (map value_of (take nField xs), d + length (concat (map (data_of fmt) (take nField xs))))"
  using assms
proof (induction xs arbitrary: nField idx d)
  case Nil
  then show ?case by (simp add: unpack_loop.simps [of m nKey] types_bytes_def)
next
  case (Cons x xs)
  let ?t = "type_of fmt x"
  have h: "holds m idx (type_bytes ?t)" "holds m (idx + length (type_bytes ?t)) (types_bytes fmt xs)"
      "holds m d (data_of fmt x)" "holds m (d + length (data_of fmt x)) (concat (map (data_of fmt) xs))"
    using Cons.prems(1,2) by (simp_all add: types_bytes_def holds_append)
  have sx: "short_mem x" and "list_all short_mem xs" using Cons.prems(5) by simp_all
  have "0 < length (type_bytes ?t)" by (simp add: length_type_bytes VarintLen_pos)
  then have lt: "idx < szHdr" using Cons.prems(3) by (simp add: types_bytes_def)
  have step: "unpack_loop m nKey szHdr nField idx d =
      (if nField \<le> 1 then ([value_of x], d + length (data_of fmt x))
       else (case unpack_loop m nKey szHdr (nField - 1) (idx + length (type_bytes ?t)) (d + length (data_of fmt x)) of
               (ms, d') \<Rightarrow> (value_of x # ms, d')))"
    using lt Cons.prems(4) by (simp add: unpack_loop.simps [of m nKey szHdr nField] get_type [OF h(1)] get_value [OF sx h(3)] type_len [OF sx] Let_def)
  show ?case
  proof (cases "nField \<le> 1")
    case True
    with Cons.prems(6) have "nField = 1" by simp
    with step show ?thesis by simp
  next
    case False
    then obtain k where k: "nField = Suc k" "1 \<le> k" by (cases nField) auto
    have IH: "unpack_loop m nKey szHdr k (idx + length (type_bytes ?t)) (d + length (data_of fmt x)) =
        (map value_of (take k xs), d + length (data_of fmt x) + length (concat (map (data_of fmt) (take k xs))))"
      by (rule Cons.IH) (use h Cons.prems k in \<open>simp_all add: types_bytes_def\<close>)
    with step k show ?thesis by simp
  qed
qed

lemma get_header:
  assumes "holds m 0 (encode fmt xs)" and "length (encode fmt xs) \<le> 1000000000"
  defines "hv \<equiv> varint_bytes (of_nat (header_size (length (types_bytes fmt xs))))"
  shows "getVarint32 m = (length hv, of_nat (header_size (length (types_bytes fmt xs))))"
    and "unat (of_nat (header_size (length (types_bytes fmt xs))) :: u32) = length hv + length (types_bytes fmt xs)"
    and "holds m (length hv) (types_bytes fmt xs)"
    and "holds m (length hv + length (types_bytes fmt xs)) (concat (map (data_of fmt) xs))"
proof -
  define n where "n = length (types_bytes fmt xs)"
  have n: "n \<le> 1000000000" using assms(2) by (simp add: n_def encode_def)
  note h = header_size_ok [OF n]
  have lt: "header_size n < 2 ^ 32" using h(3) n by simp
  have hv: "hv = varint_bytes (of_nat (header_size n))" by (simp add: hv_def n_def)
  have "drop_bit 32 (of_nat (header_size n) :: u64) = 0"
    by (subst drop_bit_zero_iff) (use h(3) n in \<open>simp_all add: word_less_nat_alt unat_small\<close>)
  moreover have hs: "holds m 0 hv" "holds m (length hv) (types_bytes fmt xs)"
      "holds m (length hv + length (types_bytes fmt xs)) (concat (map (data_of fmt) xs))"
    using assms(1) by (simp_all add: encode_def hv_def holds_append)
  ultimately have "getVarint32 m = (length hv, ucast (of_nat (header_size n) :: u64))"
    unfolding hv by (intro get_varint_bytes) (simp_all add: holds_def)
  moreover have "take_bit LENGTH(64) (header_size n) = header_size n" using lt by (simp add: take_bit_nat_eq_self_iff)
  then have "(ucast (of_nat (header_size n) :: u64) :: u32) = of_nat (header_size n)" unfolding unsigned_of_nat by simp
  ultimately show "getVarint32 m = (length hv, of_nat (header_size (length (types_bytes fmt xs))))" by (simp add: n_def)
  have "unat (of_nat (header_size n) :: u32) = header_size n" unfolding unsigned_of_nat using lt by (simp add: take_bit_nat_eq_self_iff)
  with h(1) show "unat (of_nat (header_size (length (types_bytes fmt xs))) :: u32) = length hv + length (types_bytes fmt xs)"
    by (simp add: hv length_varint_bytes n_def)
  show "holds m (length hv) (types_bytes fmt xs)" "holds m (length hv + length (types_bytes fmt xs)) (concat (map (data_of fmt) xs))"
    by (rule hs)+
qed

lemma unpack_encode:
  assumes "holds m 0 (encode fmt xs)" and "length (encode fmt xs) \<le> 1000000000" and "list_all short_mem xs" and "1 \<le> nField"
  shows "sqlite3VdbeRecordUnpack (length (encode fmt xs)) m nField = map value_of (take nField xs)"
proof -
  note h = get_header [OF assms(1,2)]
  define hv where "hv = varint_bytes (of_nat (header_size (length (types_bytes fmt xs))) :: u64)"
  have l: "length (encode fmt xs) = length hv + length (types_bytes fmt xs) + length (concat (map (data_of fmt) xs))"
    by (simp add: encode_def hv_def)
  have "length (concat (map (data_of fmt) (take nField xs))) \<le> length (concat (map (data_of fmt) xs))"
    by (metis append_take_drop_id concat_append le_add1 length_append map_append)
  then show ?thesis
    using unpack_loop_spec [OF h(3) h(4) _ _ assms(3,4), of "length hv + length (types_bytes fmt xs)" "length (encode fmt xs)"]
    by (simp add: sqlite3VdbeRecordUnpack_def h(1,2) hv_def [symmetric] l)
qed

text \<open>
  Decoding the record OP_MakeRecord built, with its zero bytes added, gives the registers back: as they were, except that an integer of
  a REAL column that needs eight bytes is the nearest double and a NaN is NULL.
\<close>
theorem record_roundtrip:
  assumes "OP_MakeRecord fmt szMalloc limit oom1 oom2 z0 xs = Inr (regs, Mem_Blob z nZero)"
    and "szMalloc \<le> 1000000000" and "limit \<le> 1000000000"
    and "mem_bytes m (length z + nZero) = z @ replicate nZero 0" and "xs \<noteq> []" and "length xs \<le> nField"
  shows "sqlite3VdbeRecordUnpack (length z + nZero) m nField = map (\<lambda>x. value_of (stored x)) xs"
proof (rule MakeRecord_encode [OF assms(1-3)])
  fix z' nZero'
  assume a: "Mem_Blob z nZero = Mem_Blob z' nZero'" "z' @ replicate nZero' 0 = encode fmt (map stored xs)"
    and b: "list_all short_mem xs" "length (encode fmt (map stored xs)) \<le> 1000000000"
  from a have e: "z @ replicate nZero 0 = encode fmt (map stored xs)" by simp
  then have l: "length z + nZero = length (encode fmt (map stored xs))" by (metis length_append length_replicate)
  from assms(4) have "holds m 0 (encode fmt (map stored xs))" unfolding l e by (simp only: holds_mem_bytes_iff)
  moreover have "list_all short_mem (map stored xs)" using b(1) short_stored by (auto simp: list_all_iff)
  moreover have "1 \<le> nField" using assms(5,6) by (cases xs) auto
  ultimately show ?thesis unfolding l using unpack_encode [of m fmt "map stored xs" nField] b(2) assms(6) by simp
qed

section \<open>Corrupt records\<close>

lemma type_len_long: "12 \<le> unat t \<Longrightarrow> sqlite3VdbeSerialTypeLen t = unat ((t - 12) div 2)"
proof -
  assume t: "12 \<le> unat t"
  have "unat (t - 12) = unat t - 12" using t by (simp add: unat_sub word_le_nat_alt)
  then have "unat ((t - 12) div 2) = (unat t - 12) div 2" by (simp add: unat_div)
  then show ?thesis using t small_size [of "unat t"] by (auto simp: sqlite3VdbeSerialTypeLen_def word_le_nat_alt)
qed

lemma small_type: "unat (t :: u32) < 12 \<Longrightarrow>
    t = 0 \<or> t = 1 \<or> t = 2 \<or> t = 3 \<or> t = 4 \<or> t = 5 \<or> t = 6 \<or> t = 7 \<or> t = 8 \<or> t = 9 \<or> t = 10 \<or> t = 11"
  by (simp add: word_unat_eq_iff) presburger

lemma get_local:
  assumes "\<forall>j < sqlite3VdbeSerialTypeLen t. p j = q j"
  shows "sqlite3VdbeSerialGet p t = sqlite3VdbeSerialGet q t"
proof (cases "unat t < 12")
  case True
  have len: "sqlite3VdbeSerialTypeLen 1 = 1" "sqlite3VdbeSerialTypeLen 2 = 2" "sqlite3VdbeSerialTypeLen 3 = 3"
    "sqlite3VdbeSerialTypeLen 4 = 4" "sqlite3VdbeSerialTypeLen 5 = 6" "sqlite3VdbeSerialTypeLen 6 = 8" "sqlite3VdbeSerialTypeLen 7 = 8"
    by (simp_all add: sqlite3VdbeSerialTypeLen_def int_sizes int_sizes(2) [unfolded One_nat_def] word_le_nat_alt)
  from small_type [OF True] assms show ?thesis
    by (elim disjE) (simp_all add: sqlite3VdbeSerialGet_def serialGet_def eight_bytes_def six_bytes_def ONE_BYTE_INT_def
      TWO_BYTE_INT_def THREE_BYTE_INT_def FOUR_BYTE_INT_def FOUR_BYTE_UINT_def off_def len)
next
  case False
  then have "mem_bytes p (unat ((t - 12) div 2)) = mem_bytes q (unat ((t - 12) div 2))"
    using assms type_len_long [of t] by (simp add: mem_bytes_def)
  with False show ?thesis unfolding sqlite3VdbeSerialGet_def Let_def by (auto simp: serialGet_def)
qed

lemma varint_local: "\<forall>j < 9. p j = q j \<Longrightarrow> getVarint32 p = getVarint32 q"
proof -
  assume a: "\<forall>j < 9. p j = q j"
  obtain n v where g: "getVarint32 p = (n, v)" by fastforce
  have "getVarint32 q = (n, v)" using getVarint32_bounds [OF g] a by auto
  with g show ?thesis by simp
qed

lemma unpack_local:
  assumes "\<forall>j < nKey + 9. m j = q j" and "szHdr \<le> d"
    and "unpack_loop m nKey szHdr nField idx d = (ms, e)" and "unpack_loop q nKey szHdr nField idx d = (ms', e')"
  shows "e' = e \<and> length ms' = length ms \<and> butlast ms' = butlast ms \<and> (e \<le> nKey \<longrightarrow> ms' = ms) \<and> d \<le> e"
  using assms
proof (induction m nKey szHdr nField idx d arbitrary: ms e ms' e' rule: unpack_loop.induct)
  case (1 m nKey szHdr nField idx d)
  show ?case
  proof (cases "idx < szHdr \<and> d \<le> nKey")
    case False
    with 1(4,5) show ?thesis by (auto simp add: unpack_loop.simps [of m] unpack_loop.simps [of q])
  next
    case True
    obtain n t where g: "getVarint32 (off m idx) = (n, t)" by fastforce
    have "\<forall>j < 9. off m idx j = off q idx j" using 1(2,3) True by (simp add: off_def)
    with g have g': "getVarint32 (off q idx) = (n, t)" using varint_local by metis
    define d' where "d' = d + sqlite3VdbeSerialTypeLen t"
    have v: "sqlite3VdbeSerialGet (off m d) t = sqlite3VdbeSerialGet (off q d) t" if "d' \<le> nKey"
      by (rule get_local) (use 1(2) that in \<open>simp add: off_def d'_def\<close>)
    show ?thesis
    proof (cases "nField \<le> 1")
      case True': True
      with True 1(4,5) g g' v show ?thesis
        by (auto simp: unpack_loop.simps [of m] unpack_loop.simps [of q] Let_def d'_def)
    next
      case False
      obtain rs f where r: "unpack_loop m nKey szHdr (nField - 1) (idx + n) d' = (rs, f)" by fastforce
      obtain rs' f' where r': "unpack_loop q nKey szHdr (nField - 1) (idx + n) d' = (rs', f')" by fastforce
      have IH: "f' = f \<and> length rs' = length rs \<and> butlast rs' = butlast rs \<and> (f \<le> nKey \<longrightarrow> rs' = rs) \<and> d' \<le> f"
        by (rule 1(1) [OF True g [symmetric] refl d'_def False 1(2) _ r r']) (use 1(3) in \<open>simp add: d'_def\<close>)
      have e: "ms = sqlite3VdbeSerialGet (off m d) t # rs" "e = f" "ms' = sqlite3VdbeSerialGet (off q d) t # rs'" "e' = f'"
        using True False 1(4,5) g g' r r' by (simp_all add: unpack_loop.simps [of m] unpack_loop.simps [of q] Let_def d'_def)
      show ?thesis
      proof (cases "d' \<le> nKey")
        case le: True
        with IH v show ?thesis by (auto simp: e d'_def)
      next
        case gt: False
        then have "rs = []" "rs' = []" using r r' by (simp_all add: unpack_loop.simps [of m] unpack_loop.simps [of q])
        with IH gt show ?thesis by (auto simp: e d'_def)
      qed
    qed
  qed
qed

text \<open>
  Whatever the bytes of a record are, the decoder answers the same whatever lies 9 bytes or more beyond its end: a field
  that would reach past the record is answered as NULL.
\<close>
theorem unpack_bounded:
  assumes "\<forall>j < nKey + 9. m j = q j"
  shows "sqlite3VdbeRecordUnpack nKey m nField = sqlite3VdbeRecordUnpack nKey q nField"
proof -
  obtain idx h where g: "getVarint32 m = (idx, h)" by fastforce
  have "getVarint32 q = getVarint32 m" using assms by (intro varint_local) simp
  with g have g': "getVarint32 q = (idx, h)" by simp
  obtain ms e where u: "unpack_loop m nKey (unat h) nField idx (unat h) = (ms, e)" by fastforce
  obtain ms' e' where u': "unpack_loop q nKey (unat h) nField idx (unat h) = (ms', e')" by fastforce
  from unpack_local [OF assms order_refl u u'] show ?thesis
    by (auto simp: sqlite3VdbeRecordUnpack_def g g' u u')
qed

end
