(* ===== verification/Vdbe_Compare.thy ===== *)
theory Vdbe_Compare
  imports Vdbe_Unpack Str_Util
begin

text \<open>
  Comparing (vdbeaux.c in sqlite3.c): two memory cells, and an encoded record with a decoded key, by the general routine and by
  the fast ones for keys that start with an integer or a text. The answers of a comparison are compared with 0 only, so memcmp answers the
  difference of the first bytes that differ. A CollSeq is its comparison function, which the application
  may provide, and the encoding that function takes; translating a text for it does not run out of memory here.
\<close>

section \<open>Collations\<close>

fun memcmp :: "byte list \<Rightarrow> byte list \<Rightarrow> int" where
  "memcmp (a # x) (b # y) = (if a = b then memcmp x y else uint a - uint b)"
| "memcmp _ _ = 0"

definition binCollFunc :: "byte list \<Rightarrow> byte list \<Rightarrow> int" where
  "binCollFunc pKey1 pKey2 =
     (let n = min (length pKey1) (length pKey2); rc = memcmp (take n pKey1) (take n pKey2)
      in if rc = 0 then int (length pKey1) - int (length pKey2) else rc)"

definition rtrim :: "byte list \<Rightarrow> byte list" where
  "rtrim z = rev (dropWhile (\<lambda>b. b = 0x20) (rev z))"

definition rtrimCollFunc :: "byte list \<Rightarrow> byte list \<Rightarrow> int" where
  "rtrimCollFunc pKey1 pKey2 = binCollFunc (rtrim pKey1) (rtrim pKey2)"

definition nocaseCollatingFunc :: "byte list \<Rightarrow> byte list \<Rightarrow> int" where
  "nocaseCollatingFunc pKey1 pKey2 =
     (let r = sqlite3_strnicmp (Some pKey1) (Some pKey2) (int (min (length pKey1) (length pKey2)))
      in if r = 0 then int (length pKey1) - int (length pKey2) else r)"

record CollSeq =
  coll_enc :: text_enc
  xCmp :: "byte list \<Rightarrow> byte list \<Rightarrow> int"

definition vdbeCompareMemString :: "text_enc \<Rightarrow> byte list \<Rightarrow> byte list \<Rightarrow> CollSeq \<Rightarrow> int" where
  "vdbeCompareMemString enc z1 z2 pColl =
     (if enc = coll_enc pColl then xCmp pColl z1 z2
      else xCmp pColl (snd (snd (sqlite3VdbeMemTranslate False enc (coll_enc pColl) z1)))
                      (snd (snd (sqlite3VdbeMemTranslate False enc (coll_enc pColl) z2))))"

section \<open>Memory cells\<close>

definition isAllZero :: "byte list \<Rightarrow> bool" where
  "isAllZero z = list_all (\<lambda>b. b = 0) z"

fun mem_nZero :: "Mem \<Rightarrow> nat" where
  "mem_nZero (Mem_Blob z k) = k"
| "mem_nZero _ = 0"

definition sqlite3BlobCompare :: "Mem \<Rightarrow> Mem \<Rightarrow> int" where
  "sqlite3BlobCompare pB1 pB2 =
     (let n1 = length (mem_z pB1); n2 = length (mem_z pB2)
      in if mem_nZero pB1 > 0 \<or> mem_nZero pB2 > 0 then
           (if mem_nZero pB1 > 0 \<and> mem_nZero pB2 > 0 then int (mem_nZero pB1) - int (mem_nZero pB2)
            else if mem_nZero pB1 > 0 then
              (if \<not> isAllZero (mem_z pB2) then - 1 else int (mem_nZero pB1) - int n2)
            else
              (if \<not> isAllZero (mem_z pB1) then 1 else int n1 - int (mem_nZero pB2)))
         else
           (let c = memcmp (take (min n1 n2) (mem_z pB1)) (take (min n1 n2) (mem_z pB2))
            in if c \<noteq> 0 then c else int n1 - int n2))"

fun is_null :: "Mem \<Rightarrow> bool" where
  "is_null Mem_Null = True"
| "is_null Mem_NullZero = True"
| "is_null _ = False"

fun is_int :: "Mem \<Rightarrow> bool" where
  "is_int (Mem_Int i) = True"
| "is_int (Mem_IntReal i) = True"
| "is_int _ = False"

fun is_real :: "Mem \<Rightarrow> bool" where
  "is_real (Mem_Real r) = True"
| "is_real _ = False"

fun is_str :: "Mem \<Rightarrow> bool" where
  "is_str (Mem_Str z) = True"
| "is_str _ = False"

definition cmp_i64 :: "u64 \<Rightarrow> u64 \<Rightarrow> int" where
  "cmp_i64 i j = (if sint i < sint j then - 1 else if sint i > sint j then 1 else 0)"

definition cmp_double :: "u64 \<Rightarrow> u64 \<Rightarrow> int" where
  "cmp_double r s = (if dless r s then - 1 else if dless s r then 1 else 0)"

text \<open>\<open>ld\<close> is \<open>bUseLongDouble\<close>, \<open>enc\<close> the encoding of both cells.\<close>

definition sqlite3MemCompare :: "bool \<Rightarrow> text_enc \<Rightarrow> Mem \<Rightarrow> Mem \<Rightarrow> CollSeq option \<Rightarrow> int" where
  "sqlite3MemCompare ld enc pMem1 pMem2 pColl =
     (if is_null pMem1 \<or> is_null pMem2 then of_bool (is_null pMem2) - of_bool (is_null pMem1)
      else if is_int pMem1 \<or> is_real pMem1 \<or> is_int pMem2 \<or> is_real pMem2 then
        (if is_real pMem1 \<and> is_real pMem2 then cmp_double (mem_u pMem1) (mem_u pMem2)
         else if is_int pMem1 then
           (if is_real pMem2 then sqlite3IntFloatCompare ld (sint (mem_u pMem1)) (mem_u pMem2)
            else if is_int pMem2 then cmp_i64 (mem_u pMem1) (mem_u pMem2)
            else - 1)
         else if is_real pMem1 then
           (if is_int pMem2 then - sqlite3IntFloatCompare ld (sint (mem_u pMem2)) (mem_u pMem1) else - 1)
         else 1)
      else if is_str pMem1 \<or> is_str pMem2 then
        (if \<not> is_str pMem1 then 1
         else if \<not> is_str pMem2 then - 1
         else (case pColl of
                 Some c \<Rightarrow> vdbeCompareMemString enc (mem_z pMem1) (mem_z pMem2) c
               | None \<Rightarrow> sqlite3BlobCompare pMem1 pMem2))
      else sqlite3BlobCompare pMem1 pMem2)"

section \<open>Keys\<close>

record KeyInfo =
  ki_enc :: text_enc
  nAllField :: nat
  aSortFlags :: "byte list"
  aColl :: "CollSeq option list"

definition KEYINFO_ORDER_DESC :: byte where "KEYINFO_ORDER_DESC = 0x01"
definition KEYINFO_ORDER_BIGNULL :: byte where "KEYINFO_ORDER_BIGNULL = 0x02"

text \<open>\<open>aMem\<close> has \<open>nField\<close> elements; \<open>u_i\<close> and \<open>u_z\<close> cache the first for the fast routines, \<open>pr1\<close> and \<open>pr2\<close> are \<open>r1\<close> and \<open>r2\<close>.\<close>

record UnpackedRecord =
  pKeyInfo :: KeyInfo
  aMem :: "Mem list"
  u_z :: "byte list"
  u_i :: u64
  default_rc :: int
  errCode :: int
  pr1 :: int
  pr2 :: int
  eqSeen :: bool

definition vdbeRecordDecodeInt :: "u32 \<Rightarrow> mem \<Rightarrow> u64" where
  "vdbeRecordDecodeInt serial_type aKey =
     (if serial_type = 0 \<or> serial_type = 1 then scast (ONE_BYTE_INT aKey)
      else if serial_type = 2 then scast (TWO_BYTE_INT aKey)
      else if serial_type = 3 then scast (THREE_BYTE_INT aKey)
      else if serial_type = 4 then scast (FOUR_BYTE_UINT aKey)
      else if serial_type = 5 then six_bytes aKey
      else if serial_type = 6 then push_bit 32 (ucast (FOUR_BYTE_UINT aKey)) OR ucast (FOUR_BYTE_UINT (off aKey 4))
      else ucast (serial_type - 8))"

text \<open>One field: the comparison with its serial type, or \<open>None\<close> for a corrupt record.\<close>

definition compare_field :: "bool \<Rightarrow> nat \<Rightarrow> mem \<Rightarrow> KeyInfo \<Rightarrow> nat \<Rightarrow> nat \<Rightarrow> nat \<Rightarrow> Mem \<Rightarrow> (int \<times> u32) option" where
  "compare_field ld nKey1 aKey1 ki i idx1 d1 pRhs =
     (let b = ucast (aKey1 idx1) :: u32;
          t = snd (getVarint32 (off aKey1 idx1));
          n = unat ((t - 12) div 2)
      in case pRhs of
           Mem_Str z \<Rightarrow>
             (if t < 12 then Some (- 1, t)
              else if t AND 1 = 0 then Some (1, t)
              else if d1 + n > nKey1 \<or> nAllField ki \<le> i then None
              else (case aColl ki ! i of
                      Some c \<Rightarrow> Some (vdbeCompareMemString (ki_enc ki) (mem_bytes (off aKey1 d1) n) z c, t)
                    | None \<Rightarrow>
                        (let nCmp = min n (length z); rc = memcmp (mem_bytes (off aKey1 d1) nCmp) (take nCmp z)
                         in Some (if rc = 0 then int n - int (length z) else rc, t))))
         | Mem_Blob z k \<Rightarrow>
             (if t < 12 \<or> t AND 1 \<noteq> 0 then Some (- 1, t)
              else if d1 + n > nKey1 then None
              else if k > 0 then
                Some (if \<not> isAllZero (mem_bytes (off aKey1 d1) n) then 1 else int n - int k, t)
              else
                (let nCmp = min n (length z); rc = memcmp (mem_bytes (off aKey1 d1) nCmp) (take nCmp z)
                 in Some (if rc = 0 then int n - int (length z) else rc, t)))
         | Mem_Real r \<Rightarrow>
             Some (if b \<ge> 10 then (if b = 10 then - 1 else 1)
                   else if b = 0 then - 1
                   else if b = 7 then
                     (if fst (serialGet7 (off aKey1 d1)) then - 1 else cmp_double (snd (serialGet7 (off aKey1 d1))) r)
                   else sqlite3IntFloatCompare ld (sint (mem_u (sqlite3VdbeSerialGet (off aKey1 d1) b))) r, b)
         | Mem_Null \<Rightarrow> Some (if b = 0 \<or> b = 10 \<or> b = 7 \<and> fst (serialGet7 (off aKey1 d1)) then 0 else 1, b)
         | Mem_NullZero \<Rightarrow> Some (if b = 0 \<or> b = 10 \<or> b = 7 \<and> fst (serialGet7 (off aKey1 d1)) then 0 else 1, b)
         | _ \<Rightarrow>
             Some (if b \<ge> 10 then (if b = 10 then - 1 else 1)
                   else if b = 0 then - 1
                   else if b = 7 then - sqlite3IntFloatCompare ld (sint (mem_u pRhs)) (snd (serialGet7 (off aKey1 d1)))
                   else cmp_i64 (vdbeRecordDecodeInt b (off aKey1 d1)) (mem_u pRhs), b))"

definition apply_sort_flags :: "byte \<Rightarrow> bool \<Rightarrow> int \<Rightarrow> int" where
  "apply_sort_flags sortFlags null rc =
     (if sortFlags \<noteq> 0 \<and> (sortFlags AND KEYINFO_ORDER_BIGNULL = 0 \<or> (sortFlags AND KEYINFO_ORDER_DESC \<noteq> 0) \<noteq> null)
      then - rc else rc)"

fun record_compare_loop :: "bool \<Rightarrow> nat \<Rightarrow> mem \<Rightarrow> nat \<Rightarrow> UnpackedRecord \<Rightarrow> nat \<Rightarrow> nat \<Rightarrow> nat \<Rightarrow> Mem list \<Rightarrow> int \<times> UnpackedRecord" where
  "record_compare_loop ld nKey1 aKey1 szHdr1 pPKey2 i idx1 d1 [] = (default_rc pPKey2, pPKey2\<lparr>eqSeen := True\<rparr>)"
| "record_compare_loop ld nKey1 aKey1 szHdr1 pPKey2 i idx1 d1 (pRhs # rs) =
     (case compare_field ld nKey1 aKey1 (pKeyInfo pPKey2) i idx1 d1 pRhs of
        None \<Rightarrow> (0, pPKey2\<lparr>errCode := SQLITE_CORRUPT\<rparr>)
      | Some (rc, t) \<Rightarrow>
          if rc \<noteq> 0 then (apply_sort_flags (aSortFlags (pKeyInfo pPKey2) ! i) (t = 0 \<or> is_null pRhs) rc, pPKey2)
          else if rs = [] then (default_rc pPKey2, pPKey2\<lparr>eqSeen := True\<rparr>)
          else
            (let d1 = d1 + sqlite3VdbeSerialTypeLen t
             in if d1 > nKey1 then (default_rc pPKey2, pPKey2\<lparr>eqSeen := True\<rparr>)
                else
                  (let idx1 = idx1 + sqlite3VarintLen (ucast t)
                   in if idx1 \<ge> szHdr1 then (0, pPKey2\<lparr>errCode := SQLITE_CORRUPT\<rparr>)
                      else record_compare_loop ld nKey1 aKey1 szHdr1 pPKey2 (i + 1) idx1 d1 rs)))"

definition sqlite3VdbeRecordCompareWithSkip :: "bool \<Rightarrow> nat \<Rightarrow> mem \<Rightarrow> UnpackedRecord \<Rightarrow> bool \<Rightarrow> int \<times> UnpackedRecord" where
  "sqlite3VdbeRecordCompareWithSkip ld nKey1 aKey1 pPKey2 bSkip =
     (if bSkip then
        (let (n, s1) = getVarint32 (off aKey1 1);
             szHdr1 = unat (aKey1 0);
             d1 = szHdr1 + sqlite3VdbeSerialTypeLen s1
         in if d1 > nKey1 then (0, pPKey2\<lparr>errCode := SQLITE_CORRUPT\<rparr>)
            else record_compare_loop ld nKey1 aKey1 szHdr1 pPKey2 1 (1 + n) d1 (tl (aMem pPKey2)))
      else
        (let (idx1, szHdr1) = getVarint32 aKey1
         in if unat szHdr1 > nKey1 then (0, pPKey2\<lparr>errCode := SQLITE_CORRUPT\<rparr>)
            else record_compare_loop ld nKey1 aKey1 (unat szHdr1) pPKey2 0 idx1 (unat szHdr1) (aMem pPKey2)))"

definition sqlite3VdbeRecordCompare :: "bool \<Rightarrow> nat \<Rightarrow> mem \<Rightarrow> UnpackedRecord \<Rightarrow> int \<times> UnpackedRecord" where
  "sqlite3VdbeRecordCompare ld nKey1 pKey1 pPKey2 = sqlite3VdbeRecordCompareWithSkip ld nKey1 pKey1 pPKey2 False"

section \<open>The fast routines\<close>

text \<open>What both do when the first fields are equal.\<close>

definition compare_rest :: "bool \<Rightarrow> nat \<Rightarrow> mem \<Rightarrow> UnpackedRecord \<Rightarrow> int \<times> UnpackedRecord" where
  "compare_rest ld nKey1 pKey1 pPKey2 =
     (if length (aMem pPKey2) > 1 then sqlite3VdbeRecordCompareWithSkip ld nKey1 pKey1 pPKey2 True
      else (default_rc pPKey2, pPKey2\<lparr>eqSeen := True\<rparr>))"

definition vdbeRecordCompareInt :: "bool \<Rightarrow> nat \<Rightarrow> mem \<Rightarrow> UnpackedRecord \<Rightarrow> int \<times> UnpackedRecord" where
  "vdbeRecordCompareInt ld nKey1 pKey1 pPKey2 =
     (let aKey = off pKey1 (unat (pKey1 0 AND 0x3F));
          serial_type = pKey1 1
      in if serial_type = 0 \<or> serial_type = 7 \<or> serial_type > 9 then sqlite3VdbeRecordCompare ld nKey1 pKey1 pPKey2
         else
           (let lhs =
              (if serial_type = 1 then sint (ONE_BYTE_INT aKey)
               else if serial_type = 2 then sint (TWO_BYTE_INT aKey)
               else if serial_type = 3 then sint (THREE_BYTE_INT aKey)
               else if serial_type = 4 then sint (FOUR_BYTE_UINT aKey)
               else if serial_type = 5 then sint (six_bytes aKey)
               else if serial_type = 6 then
                 sint (push_bit 32 (ucast (FOUR_BYTE_UINT aKey)) OR ucast (FOUR_BYTE_UINT (off aKey 4)) :: u64)
               else if serial_type = 8 then 0
               else 1);
                v = sint (u_i pPKey2)
            in if v > lhs then (pr1 pPKey2, pPKey2)
               else if v < lhs then (pr2 pPKey2, pPKey2)
               else compare_rest ld nKey1 pKey1 pPKey2))"

definition vdbeRecordCompareString :: "bool \<Rightarrow> nat \<Rightarrow> mem \<Rightarrow> UnpackedRecord \<Rightarrow> int \<times> UnpackedRecord" where
  "vdbeRecordCompareString ld nKey1 aKey1 pPKey2 =
     (let serial_type = (if sint (aKey1 1) < 0 then sint (snd (getVarint32 (off aKey1 1))) else sint (aKey1 1))
      in if serial_type < 12 then (pr1 pPKey2, pPKey2)
         else if even serial_type then (pr2 pPKey2, pPKey2)
         else
           (let szHdr = unat (aKey1 0);
                nStr = nat ((serial_type - 12) div 2)
            in if szHdr + nStr > nKey1 then (0, pPKey2\<lparr>errCode := SQLITE_CORRUPT\<rparr>)
               else
                 (let nCmp = min (length (u_z pPKey2)) nStr;
                      res = memcmp (mem_bytes (off aKey1 szHdr) nCmp) (take nCmp (u_z pPKey2));
                      len = int nStr - int (length (u_z pPKey2))
                  in if res > 0 then (pr2 pPKey2, pPKey2)
                     else if res < 0 then (pr1 pPKey2, pPKey2)
                     else if len = 0 then compare_rest ld nKey1 aKey1 pPKey2
                     else if len > 0 then (pr2 pPKey2, pPKey2)
                     else (pr1 pPKey2, pPKey2))))"

text \<open>The routine to use for a key, and the key with the fields that routine uses set.\<close>

definition sqlite3VdbeFindCompare ::
    "UnpackedRecord \<Rightarrow> (bool \<Rightarrow> nat \<Rightarrow> mem \<Rightarrow> UnpackedRecord \<Rightarrow> int \<times> UnpackedRecord) \<times> UnpackedRecord" where
  "sqlite3VdbeFindCompare p =
     (if nAllField (pKeyInfo p) \<le> 13 then
        (let flags = aSortFlags (pKeyInfo p) ! 0
         in if flags \<noteq> 0 \<and> flags AND KEYINFO_ORDER_BIGNULL \<noteq> 0 then (sqlite3VdbeRecordCompare, p)
            else
              (let p = (if flags \<noteq> 0 then p\<lparr>pr1 := 1, pr2 := - 1\<rparr> else p\<lparr>pr1 := - 1, pr2 := 1\<rparr>)
               in case aMem p ! 0 of
                    Mem_Int i \<Rightarrow> (vdbeRecordCompareInt, p\<lparr>u_i := i\<rparr>)
                  | Mem_Str z \<Rightarrow>
                      if aColl (pKeyInfo p) ! 0 = None then (vdbeRecordCompareString, p\<lparr>u_z := z\<rparr>)
                      else (sqlite3VdbeRecordCompare, p)
                  | _ \<Rightarrow> (sqlite3VdbeRecordCompare, p)))
      else (sqlite3VdbeRecordCompare, p))"

text \<open>Comparing with the index entry of a cursor, whose payload of \<open>nCellKey\<close> bytes is \<open>m\<close>.\<close>

definition sqlite3VdbeIdxKeyCompare :: "bool \<Rightarrow> nat \<Rightarrow> mem \<Rightarrow> UnpackedRecord \<Rightarrow> int \<times> int \<times> UnpackedRecord" where
  "sqlite3VdbeIdxKeyCompare ld nCellKey m pUnpacked =
     (if nCellKey = 0 \<or> nCellKey > 0x7fffffff then (SQLITE_CORRUPT, 0, pUnpacked)
      else (case sqlite3VdbeRecordCompareWithSkip ld nCellKey m pUnpacked False of (res, p) \<Rightarrow> (SQLITE_OK, res, p)))"

end
