(* ===== verification/Vdbe_Compare_Props.thy ===== *)
theory Vdbe_Compare_Props
  imports Vdbe_Compare
begin

text \<open>
  The comparison of an encoded record with a key is the comparison of the decoded values field by field, and the fast
  routines that sqlite3VdbeFindCompare chooses agree with the general one.
\<close>

section \<open>One field\<close>

text \<open>The values a record holds (never a NaN), and those of a key: a blob with zero bytes has no others.\<close>

fun value_ok :: "Mem \<Rightarrow> bool" where
  "value_ok Mem_NullZero = False"
| "value_ok (Mem_Real r) = (\<not> IsNaN r)"
| "value_ok _ = True"

fun key_ok :: "Mem \<Rightarrow> bool" where
  "key_ok (Mem_Real r) = (\<not> IsNaN r)"
| "key_ok (Mem_Blob z k) = (k = 0 \<or> z = [])"
| "key_ok _ = True"

lemma unat_byte32: "unat (ucast (b :: byte) :: u32) = unat b"
proof -
  have "unat b < 256" using unsigned_less [of b] by simp
  then have "unat b < 2 ^ 32" by simp
  then show ?thesis unfolding unsigned_ucast_eq by (simp add: take_bit_nat_eq_self_iff)
qed

lemma first_byte:
  assumes "holds m a (type_bytes t)"
  shows "t < 128 \<Longrightarrow> ucast (m a) = t" and "\<not> t < 128 \<Longrightarrow> (ucast (m a) :: u32) \<ge> 128"
proof -
  have g: "getVarint32 (off m a) = (length (type_bytes t), t)" by (rule get_type [OF assms])
  show "ucast (m a) = t" if "t < 128"
  proof -
    have "m a = ucast t" using assms that by (simp add: type_bytes_small holds_def)
    moreover have "take_bit 8 t = t"
      using that by (simp add: word_unat_eq_iff unsigned_take_bit_eq take_bit_nat_eq_self_iff word_less_nat_alt)
    moreover have "(ucast (ucast t :: byte) :: u32) = take_bit 8 t"
      by (rule bit_word_eqI) (auto simp: bit_ucast_iff bit_take_bit_iff)
    ultimately show ?thesis by simp
  qed
  show "(ucast (m a) :: u32) \<ge> 128" if "\<not> t < 128"
  proof (rule ccontr)
    assume "\<not> ?thesis"
    then have lt: "m a < 0x80" by (simp add: word_less_nat_alt word_le_nat_alt unat_byte32)
    then have "getVarint32 (off m a) = (1, ucast (m a))" by (simp add: getVarint32_def off_def)
    with g have "t = ucast (m a)" by simp
    with lt that show False by (simp add: word_less_nat_alt unat_byte32)
  qed
qed

lemma decode_int:
  assumes "holds m d (int_bytes (snd (int_type fmt i)) i)"
  shows "vdbeRecordDecodeInt (fst (int_type fmt i)) (off m d) = i"
proof (rule int_type_cases [of i fmt])
  assume a: "i = 0 \<or> i = 1" "int_type fmt i = (8 + ucast i, 0)"
  from a(1) show ?thesis
  proof
    assume "i = 0"
    then have "fst (int_type fmt i) = 8" using a(2) by simp
    then show ?thesis by (simp only: vdbeRecordDecodeInt_def \<open>i = 0\<close>) simp
  next
    assume "i = 1"
    then have "fst (int_type fmt i) = 9" using a(2) by simp
    then show ?thesis by (simp only: vdbeRecordDecodeInt_def \<open>i = 1\<close>) simp
  qed
next
  assume a: "int_type fmt i = (1, 1)" "sign_from 7 i"
  with assms show ?thesis by (simp add: vdbeRecordDecodeInt_def decode_1)
next
  assume a: "int_type fmt i = (2, 2)" "sign_from 15 i"
  have "scast (TWO_BYTE_INT (off m d)) = i"
    by (rule scast_sign [OF decode_2 [of i m d]]) (use a assms sign_from_mono [of 15 i 31] in simp_all)
  with a show ?thesis by (simp add: vdbeRecordDecodeInt_def)
next
  assume a: "int_type fmt i = (3, 3)" "sign_from 23 i"
  have "scast (THREE_BYTE_INT (off m d)) = i"
    by (rule scast_sign [OF decode_3 [of i m d]]) (use a assms sign_from_mono [of 23 i 31] in simp_all)
  with a show ?thesis by (simp add: vdbeRecordDecodeInt_def)
next
  assume a: "int_type fmt i = (4, 4)" "sign_from 31 i"
  with assms show ?thesis by (simp add: vdbeRecordDecodeInt_def decode_4)
next
  assume a: "int_type fmt i = (5, 6)" "sign_from 47 i"
  with assms show ?thesis by (simp add: vdbeRecordDecodeInt_def decode_5)
next
  assume a: "int_type fmt i = (6, 8)"
  have "eight_bytes (off m d) = push_bit 32 (ucast (FOUR_BYTE_UINT (off m d))) OR ucast (FOUR_BYTE_UINT (off (off m d) 4))"
    unfolding eight_bytes_def by (rule disjunctive_add_eq_or) (auto simp: bit_eq_iff bit_simps dest: bit_imp_le_length)
  with a assms show ?thesis using decode_8 [of m d i] by (simp add: vdbeRecordDecodeInt_def)
qed

lemma int_type_range: "fst (int_type fmt i) < 10" "fst (int_type fmt i) \<noteq> 0" "fst (int_type fmt i) \<noteq> 7"
  by (rule int_type_cases [of i fmt]; auto simp: word_less_nat_alt)+

text \<open>The data of a text or a blob, read from the record.\<close>

lemma mem_bytes_take: "mem_bytes m n = z \<Longrightarrow> mem_bytes m (min n k) = take (min n k) z"
  by (auto simp: mem_bytes_def take_map take_upt)

lemma compare_field_spec:
  assumes "short_mem x" and "value_ok x" and "key_ok y"
    and "holds m idx (type_bytes (type_of fmt x))" and "holds m d (data_of fmt x)"
    and "d + length (data_of fmt x) \<le> nKey" and "i < nAllField ki"
  obtains t where
    "compare_field ld nKey m ki i idx d y = Some (sqlite3MemCompare ld (ki_enc ki) (value_of x) y (aColl ki ! i), t)"
    and "t = 0 \<longleftrightarrow> is_null x"
    and "sqlite3MemCompare ld (ki_enc ki) (value_of x) y (aColl ki ! i) = 0 \<Longrightarrow> t = type_of fmt x"
proof -
  let ?t = "type_of fmt x"
  define b where "b = (ucast (m idx) :: u32)"
  have g: "snd (getVarint32 (off m idx)) = ?t" using get_type [OF assms(4)] by simp
  note fb = first_byte [OF assms(4), folded b_def]
  let ?c = "sqlite3MemCompare ld (ki_enc ki) (value_of x) y (aColl ki ! i)"
  consider (null) "x = Mem_Null" | (int) j where "x = Mem_Int j \<or> x = Mem_IntReal j" | (real) r where "x = Mem_Real r"
    | (str) z where "x = Mem_Str z" | (blob) z k where "x = Mem_Blob z k" using assms(2) by (cases x) auto
  then have "\<exists>t. compare_field ld nKey m ki i idx d y = Some (?c, t) \<and> (t = 0 \<longleftrightarrow> is_null x) \<and> (?c = 0 \<longrightarrow> t = ?t)"
  proof cases
    case null
    then have "?t = 0" "b = 0" using fb(1) by simp_all
    with null g show ?thesis
      by (cases y) (auto simp: compare_field_def b_def [symmetric] sqlite3MemCompare_def Let_def)
  next
    case int
    then have t: "?t = fst (int_type fmt j)" and v: "value_of x = Mem_Int j"
      and h: "holds m d (int_bytes (snd (int_type fmt j)) j)" using assms(5) by auto
    note r = int_type_range [of fmt j, folded t]
    have lt: "?t < 128" "\<not> ?t \<ge> 10" "?t < 12" using r(1) by (simp_all add: word_less_nat_alt word_le_nat_alt)
    then have b: "b = ?t" using fb(1) by simp
    have dec: "vdbeRecordDecodeInt ?t (off m d) = j" "sqlite3VdbeSerialGet (off m d) ?t = Mem_Int j"
      using decode_int [OF h] get_int [OF h] t by simp_all
    have nn: "\<not> is_null x" using int by auto
    have b10: "?t \<noteq> 10" using lt(2) by auto
    show ?thesis
      using r(2,3) lt g b b10 nn
      by (cases y) (simp_all add: compare_field_def b_def [symmetric] Let_def sqlite3MemCompare_def v dec)
  next
    case real
    then have t: "?t = 7" and b: "b = 7" using fb(1) by simp_all
    have e: "eight_bytes (off m d) = r" and n: "\<not> IsNaN r" using assms(2,5) real decode_8 by simp_all
    show ?thesis
      using g n real
      by (cases y) (simp_all add: compare_field_def b_def [symmetric] b t Let_def sqlite3MemCompare_def serialGet7_def e)
  next
    case str
    have l: "length z \<le> 1000000000" using assms(1) str by (simp add: short_mem_def)
    have t: "?t = of_nat (2 * length z + 13)" by (simp add: str)
    have lt: "unat ?t = 2 * length z + 13" "unat ((?t - 12) div 2) = length z" "?t AND 1 \<noteq> 0"
      using long_type [OF l, of 13] unfolding t by simp_all
    have t12: "\<not> ?t < 12" using lt(1) by (simp add: word_less_nat_alt)
    have b: "\<not> b < 12" "b \<ge> 10" "b \<noteq> 0" "b \<noteq> 10" "b \<noteq> 7"
      using fb t12 by (cases "?t < 128"; auto simp: word_less_nat_alt word_le_nat_alt)+
    have v: "value_of x = Mem_Str z" "data_of fmt x = z" "\<not> is_null x" by (simp_all add: str)
    have z: "mem_bytes (off m d) (length z) = z" using holds_mem_bytes assms(5) v(2) by simp
    have t0: "?t \<noteq> 0" using t12 by auto
    show ?thesis
    proof (cases y)
      case (Mem_Str w)
      have "\<not> d + length z > nKey" "\<not> nAllField ki \<le> i" using assms(6,7) v(2) by simp_all
      then show ?thesis
        using Mem_Str g t12 lt(2,3) t0 v mem_bytes_take [OF z, of "length w"]
        by (cases "aColl ki ! i") (simp_all add: compare_field_def sqlite3MemCompare_def sqlite3BlobCompare_def Let_def z)
    qed (use g t12 lt(3) t0 v b in \<open>simp_all add: compare_field_def b_def [symmetric] sqlite3MemCompare_def Let_def\<close>)
  next
    case blob
    define w where "w = z @ replicate k 0"
    have l: "length w \<le> 1000000000" using assms(1) blob by (simp add: short_mem_def w_def)
    have t: "?t = of_nat (2 * length w + 12)" by (simp add: blob w_def)
    have lt: "unat ?t = 2 * length w + 12" "unat ((?t - 12) div 2) = length w" "?t AND 1 = 0"
      using long_type [OF l, of 12] unfolding t by simp_all
    have t12: "\<not> ?t < 12" using lt(1) by (simp add: word_less_nat_alt)
    have b: "\<not> b < 12" "b \<ge> 10" "b \<noteq> 0" "b \<noteq> 10" "b \<noteq> 7"
      using fb t12 by (cases "?t < 128"; auto simp: word_less_nat_alt word_le_nat_alt)+
    have v: "value_of x = Mem_Blob w 0" "data_of fmt x = w" "\<not> is_null x" by (simp_all add: blob w_def)
    have z: "mem_bytes (off m d) (length w) = w" using holds_mem_bytes assms(5) v(2) by simp
    have t0: "?t \<noteq> 0" using t12 by auto
    show ?thesis
    proof (cases y)
      case (Mem_Blob u j)
      have "\<not> d + length w > nKey" using assms(6) v(2) by simp
      then show ?thesis
        using Mem_Blob g t12 lt(2,3) t0 v mem_bytes_take [OF z, of "length u"]
        by (cases "j > 0") (simp_all add: compare_field_def sqlite3MemCompare_def sqlite3BlobCompare_def Let_def z)
    qed (use g t12 lt(3) t0 v b in \<open>simp_all add: compare_field_def b_def [symmetric] sqlite3MemCompare_def Let_def\<close>)
  qed
  with that show thesis by blast
qed

section \<open>A record\<close>

text \<open>
  The order of keys: the values of the record and of the key are compared in turn as memory cells. In a descending column
  the answer is negated; NULLs are also moved to the other end where the column says so. A record with fewer fields than the key is corrupt.
\<close>

definition field_order :: "byte \<Rightarrow> Mem \<Rightarrow> Mem \<Rightarrow> int \<Rightarrow> int" where
  "field_order flags x y rc =
     (let rc = (if flags AND KEYINFO_ORDER_BIGNULL \<noteq> 0 \<and> (is_null x \<or> is_null y) then - rc else rc)
      in if flags AND KEYINFO_ORDER_DESC \<noteq> 0 then - rc else rc)"

fun key_compare :: "bool \<Rightarrow> UnpackedRecord \<Rightarrow> nat \<Rightarrow> Mem list \<Rightarrow> Mem list \<Rightarrow> int \<times> UnpackedRecord" where
  "key_compare ld p i xs [] = (default_rc p, p\<lparr>eqSeen := True\<rparr>)"
| "key_compare ld p i [] ys = (0, p\<lparr>errCode := SQLITE_CORRUPT\<rparr>)"
| "key_compare ld p i (x # xs) (y # ys) =
     (let rc = sqlite3MemCompare ld (ki_enc (pKeyInfo p)) x y (aColl (pKeyInfo p) ! i)
      in if rc \<noteq> 0 then (field_order (aSortFlags (pKeyInfo p) ! i) x y rc, p)
         else key_compare ld p (i + 1) xs ys)"

text \<open>The sort flags of a key are KEYINFO\_ORDER\_DESC, KEYINFO\_ORDER\_BIGNULL, both or none.\<close>

definition flags_ok :: "KeyInfo \<Rightarrow> bool" where
  "flags_ok ki \<longleftrightarrow> list_all (\<lambda>f. f \<in> {0, 1, 2, 3}) (aSortFlags ki)"

lemma sort_flags_eq: "f \<in> {0, 1, 2, 3} \<Longrightarrow> apply_sort_flags f (is_null x \<or> is_null y) rc = field_order f x y rc"
  by (auto simp: apply_sort_flags_def field_order_def KEYINFO_ORDER_BIGNULL_def KEYINFO_ORDER_DESC_def)

lemma is_null_value: "value_ok x \<Longrightarrow> is_null (value_of x) = is_null x"
  by (cases x) auto

lemma compare_loop_spec:
  assumes "holds m idx (types_bytes fmt xs)" and "holds m d (concat (map (data_of fmt) xs))"
    and "szHdr = idx + length (types_bytes fmt xs)" and "d + length (concat (map (data_of fmt) xs)) \<le> nKey"
    and "list_all short_mem xs" and "list_all value_ok xs" and "list_all key_ok ys" and "xs \<noteq> []"
    and "i + length xs \<le> nAllField (pKeyInfo p)" and "i + length ys \<le> length (aSortFlags (pKeyInfo p))" and "flags_ok (pKeyInfo p)"
  shows "record_compare_loop ld nKey m szHdr p i idx d ys = key_compare ld p i (map value_of xs) ys"
  using assms
proof (induction ys arbitrary: xs i idx d)
  case Nil
  then show ?case by (cases xs) simp_all
next
  case (Cons y ys)
  then obtain x xs' where xs: "xs = x # xs'" by (cases xs) auto
  let ?t = "type_of fmt x" and ?ki = "pKeyInfo p"
  have h: "holds m idx (type_bytes ?t)" "holds m (idx + length (type_bytes ?t)) (types_bytes fmt xs')"
      "holds m d (data_of fmt x)" "holds m (d + length (data_of fmt x)) (concat (map (data_of fmt) xs'))"
    using Cons.prems(1,2) by (simp_all add: xs types_bytes_def holds_append)
  have ok: "short_mem x" "value_ok x" "key_ok y" using Cons.prems(5-7) by (simp_all add: xs)
  have le: "d + length (data_of fmt x) \<le> nKey" "i < nAllField ?ki" using Cons.prems(4,9) by (simp_all add: xs)
  obtain t where t: "compare_field ld nKey m ?ki i idx d y = Some (sqlite3MemCompare ld (ki_enc ?ki) (value_of x) y (aColl ?ki ! i), t)"
    "t = 0 \<longleftrightarrow> is_null x" "sqlite3MemCompare ld (ki_enc ?ki) (value_of x) y (aColl ?ki ! i) = 0 \<Longrightarrow> t = ?t"
    by (rule compare_field_spec [OF ok h(1,3) le, of ld]) blast
  let ?rc = "sqlite3MemCompare ld (ki_enc ?ki) (value_of x) y (aColl ?ki ! i)"
  show ?case
  proof (cases "?rc = 0")
    case False
    have "aSortFlags ?ki ! i \<in> {0, 1, 2, 3}" using Cons.prems(10,11) by (simp add: flags_ok_def list_all_length)
    then have "apply_sort_flags (aSortFlags ?ki ! i) (t = 0 \<or> is_null y) ?rc = field_order (aSortFlags ?ki ! i) (value_of x) y ?rc"
      using sort_flags_eq [of _ "value_of x" y] is_null_value [OF ok(2)] t(2) by simp
    with False show ?thesis by (simp add: t(1) xs)
  next
    case True
    note tt = t(3) [OF True]
    have len: "sqlite3VdbeSerialTypeLen ?t = length (data_of fmt x)" "sqlite3VarintLen (ucast ?t) = length (type_bytes ?t)"
      by (simp_all add: type_len [OF ok(1)] length_type_bytes)
    show ?thesis
    proof (cases "ys = []")
      case True': True
      with True show ?thesis by (simp add: t(1) xs)
    next
      case ne: False
      show ?thesis
      proof (cases "xs' = []")
        case True': True
        then have "szHdr = idx + length (type_bytes ?t)" using Cons.prems(3) by (simp add: xs types_bytes_def)
        with True True' ne le(1) show ?thesis by (cases ys) (simp_all add: t(1) xs tt len Let_def)
      next
        case False
        then obtain x' zs where z: "xs' = x' # zs" by (cases xs') auto
        have "0 < length (types_bytes fmt xs')" by (simp add: z types_bytes_def length_type_bytes VarintLen_pos)
        then have lt: "idx + length (type_bytes ?t) < szHdr" using Cons.prems(3) by (simp add: xs types_bytes_def)
        have IH: "record_compare_loop ld nKey m szHdr p (i + 1) (idx + length (type_bytes ?t)) (d + length (data_of fmt x)) ys =
            key_compare ld p (i + 1) (map value_of xs') ys"
          by (rule Cons.IH) (use h Cons.prems False in \<open>simp_all add: xs types_bytes_def\<close>)
        show ?thesis using True ne le(1) lt IH by (simp add: t(1) xs tt len Let_def)
      qed
    qed
  qed
qed

text \<open>
  The comparison of a record with a key is the order of the decoded values. The record is any encoding of values that fit; it
  has at least one field, as the key has, and the key says how to compare each of them.
\<close>
lemma RecordCompare_encode:
  assumes "holds m 0 (encode fmt xs)" and "length (encode fmt xs) \<le> 1000000000" and "list_all short_mem xs" and "list_all value_ok xs"
    and "xs \<noteq> []" and "list_all key_ok (aMem p)" and "length xs \<le> nAllField (pKeyInfo p)"
    and "length (aMem p) \<le> length (aSortFlags (pKeyInfo p))" and "flags_ok (pKeyInfo p)"
  shows "sqlite3VdbeRecordCompare ld (length (encode fmt xs)) m p = key_compare ld p 0 (map value_of xs) (aMem p)"
proof -
  note h = get_header [OF assms(1,2)]
  define hv where "hv = varint_bytes (of_nat (header_size (length (types_bytes fmt xs))) :: u64)"
  have l: "length (encode fmt xs) = length hv + length (types_bytes fmt xs) + length (concat (map (data_of fmt) xs))"
    by (simp add: encode_def hv_def)
  have "record_compare_loop ld (length (encode fmt xs)) m (length hv + length (types_bytes fmt xs)) p 0 (length hv)
      (length hv + length (types_bytes fmt xs)) (aMem p) = key_compare ld p 0 (map value_of xs) (aMem p)"
    by (rule compare_loop_spec [OF h(3,4) [folded hv_def]]) (use assms l in simp_all)
  with l show ?thesis
    by (simp add: sqlite3VdbeRecordCompare_def sqlite3VdbeRecordCompareWithSkip_def h(1,2) hv_def [symmetric])
qed

section \<open>The fast routines\<close>

text \<open>A record with at most 13 fields has a header of at most 66 bytes, 62 when the first field is a number.\<close>

lemma length_type_le: "length (type_bytes t) \<le> 5"
proof -
  have "(ucast t :: u64) < 2 ^ 32" using drop_bit_zero_iff [of 32 "ucast t :: u64"] drop_bit_ucast32 [of 32 t] by simp
  then have "unat (ucast t :: u64) < 2 ^ 35" by (simp add: word_less_nat_alt)
  then show ?thesis using VarintLen_nat [of "unat (ucast t :: u64)" 5] by (simp add: length_type_bytes)
qed

lemma length_types_le: "length (types_bytes fmt xs) \<le> 5 * length xs"
proof (induction xs)
  case (Cons x xs)
  then show ?case using length_type_le [of "type_of fmt x"] by (simp add: types_bytes_def)
qed (simp add: types_bytes_def)

text \<open>What the fast routines read: the header size and the first type are single bytes at the start.\<close>

lemma fast_layout:
  assumes "holds m 0 (encode fmt (x # xs))" and "length xs < 13"
  defines "n \<equiv> length (types_bytes fmt (x # xs))"
  shows "m 0 = of_nat (n + 1)" and "unat (m 0) = n + 1" and "holds m 1 (types_bytes fmt (x # xs))"
    and "holds m (n + 1) (concat (map (data_of fmt) (x # xs)))" and "n \<le> 65" and "length (type_bytes (type_of fmt x)) = 1 \<Longrightarrow> n \<le> 61"
    and "length (encode fmt (x # xs)) = n + 1 + length (concat (map (data_of fmt) (x # xs)))"
proof -
  have n: "n = length (type_bytes (type_of fmt x)) + length (types_bytes fmt xs)" by (simp add: n_def types_bytes_def)
  show n65: "n \<le> 65" and "length (type_bytes (type_of fmt x)) = 1 \<Longrightarrow> n \<le> 61"
    using n length_types_le [of fmt xs] length_type_le [of "type_of fmt x"] assms(2) by linarith+
  then have hs: "header_size n = n + 1" by (simp add: header_size_def)
  have lt: "(of_nat (n + 1) :: u64) < 128" using n65 unat_small [of "n + 1"] by (simp add: word_less_nat_alt del: of_nat_add)
  have "(ucast (of_nat (n + 1) :: u64) :: byte) = of_nat (n + 1)"
  proof -
    have "take_bit LENGTH(64) (n + 1) = n + 1" using n65 by (simp add: take_bit_nat_eq_self_iff)
    then show ?thesis unfolding unsigned_of_nat by simp
  qed
  with lt have v: "varint_bytes (of_nat (header_size n)) = [of_nat (n + 1)]" by (simp only: hs varint_bytes_small)
  have e: "encode fmt (x # xs) = [of_nat (n + 1)] @ types_bytes fmt (x # xs) @ concat (map (data_of fmt) (x # xs))"
    unfolding encode_def n_def [symmetric] v ..
  note h = assms(1) [unfolded e holds_append]
  from h show m0: "m 0 = of_nat (n + 1)" by (simp add: holds_def)
  show "unat (m 0) = n + 1" unfolding m0 unsigned_of_nat using n65 by (simp add: take_bit_nat_eq_self_iff)
  from h show "holds m 1 (types_bytes fmt (x # xs))" "holds m (n + 1) (concat (map (data_of fmt) (x # xs)))"
    by (simp_all add: n_def)
  show "length (encode fmt (x # xs)) = n + 1 + length (concat (map (data_of fmt) (x # xs)))" unfolding e by (simp add: n_def)
qed

text \<open>When the first fields are equal, the fast routines go on as the general one does.\<close>

lemma compare_rest_spec:
  assumes "holds m 0 (encode fmt (x # xs))" and "length (encode fmt (x # xs)) \<le> 1000000000"
    and "list_all short_mem (x # xs)" and "list_all value_ok (x # xs)"
    and "aMem p = y # ys" and "list_all key_ok (y # ys)" and "length ys \<le> length xs"
    and "length (x # xs) \<le> nAllField (pKeyInfo p)" and "nAllField (pKeyInfo p) \<le> 13"
    and "length (y # ys) \<le> length (aSortFlags (pKeyInfo p))" and "flags_ok (pKeyInfo p)"
  shows "compare_rest ld (length (encode fmt (x # xs))) m p = key_compare ld p 1 (map value_of xs) ys"
proof (cases "ys = []")
  case True
  then show ?thesis using assms(5) by (simp add: compare_rest_def)
next
  case False
  then have ne: "xs \<noteq> []" using assms(7) by auto
  have "length xs < 13" using assms(8,9) by simp
  note f = fast_layout [OF assms(1) this]
  let ?t = "type_of fmt x" and ?n = "length (types_bytes fmt (x # xs))"
  have h: "holds m 1 (type_bytes ?t)" "holds m (1 + length (type_bytes ?t)) (types_bytes fmt xs)"
      "holds m (?n + 1 + length (data_of fmt x)) (concat (map (data_of fmt) xs))"
    using f(3,4) by (simp_all add: types_bytes_def holds_append)
  have sx: "short_mem x" using assms(3) by simp
  have "record_compare_loop ld (length (encode fmt (x # xs))) m (?n + 1) p 1 (1 + length (type_bytes ?t))
      (?n + 1 + length (data_of fmt x)) ys = key_compare ld p 1 (map value_of xs) ys"
    by (rule compare_loop_spec [OF h(2,3)]) (use assms f ne in \<open>simp_all add: types_bytes_def\<close>)
  then show ?thesis
    using False assms(5) f(2,7) by (simp add: compare_rest_def sqlite3VdbeRecordCompareWithSkip_def get_type [OF h(1), unfolded One_nat_def] type_len [OF sx])
qed

text \<open>Answers that agree: in their sign, in the error and in whether the key was seen.\<close>

definition same_answer :: "int \<times> UnpackedRecord \<Rightarrow> int \<times> UnpackedRecord \<Rightarrow> bool" where
  "same_answer r s \<longleftrightarrow> sgn (fst r) = sgn (fst s) \<and> errCode (snd r) = errCode (snd s) \<and> eqSeen (snd r) = eqSeen (snd s)"

text \<open>A key with the fields for the fast routines set.\<close>

definition prepared :: "UnpackedRecord \<Rightarrow> UnpackedRecord \<Rightarrow> bool" where
  "prepared q p \<longleftrightarrow> pKeyInfo q = pKeyInfo p \<and> aMem q = aMem p \<and> default_rc q = default_rc p \<and> errCode q = errCode p \<and> eqSeen q = eqSeen p"

lemma prepared_simps:
  "prepared p p" "prepared (p\<lparr>pr1 := a, pr2 := b\<rparr>) p" "prepared (p\<lparr>pr1 := a, pr2 := b, u_i := i\<rparr>) p"
  "prepared (p\<lparr>pr1 := a, pr2 := b, u_z := z\<rparr>) p"
  by (simp_all add: prepared_def)

lemma key_compare_agree: "prepared q p \<Longrightarrow> same_answer (key_compare ld q i xs ys) (key_compare ld p i xs ys)"
  by (induction ld p i xs ys rule: key_compare.induct) (auto simp: prepared_def same_answer_def Let_def)

text \<open>The shape of the fast routines, where \<open>rc\<close> compares the first fields.\<close>

lemma fast_agree:
  assumes "prepared q p" and "flags AND KEYINFO_ORDER_BIGNULL = 0" and "flags \<in> {0, 1, 2, 3}"
    and "pr1 q = (if flags \<noteq> 0 then 1 else - 1)" and "pr2 q = (if flags \<noteq> 0 then - 1 else 1)"
    and "aSortFlags (pKeyInfo p) ! 0 = flags"
    and "sqlite3MemCompare ld (ki_enc (pKeyInfo p)) x y (aColl (pKeyInfo p) ! 0) = rc"
    and "rest = key_compare ld q 1 xs ys"
  shows "same_answer (if rc < 0 then (pr1 q, q) else if rc > 0 then (pr2 q, q) else rest) (key_compare ld p 0 (x # xs) (y # ys))"
proof -
  have f: "flags = 0 \<or> flags = 1" using assms(2,3) by (auto simp: KEYINFO_ORDER_BIGNULL_def)
  have "sgn (field_order flags x y rc) = (if flags \<noteq> 0 then - sgn rc else sgn rc)"
    using f by (auto simp: field_order_def KEYINFO_ORDER_BIGNULL_def KEYINFO_ORDER_DESC_def)
  moreover have "same_answer (key_compare ld q 1 xs ys) (key_compare ld p 1 xs ys)" by (rule key_compare_agree [OF assms(1)])
  ultimately show ?thesis using assms(1,4-8) by (auto simp: same_answer_def prepared_def Let_def)
qed

text \<open>A record and a key that can be compared: the record is an encoding of values that fit, the key says how to compare each of its fields.\<close>

definition comparable :: "int \<Rightarrow> mem \<Rightarrow> Mem list \<Rightarrow> UnpackedRecord \<Rightarrow> bool" where
  "comparable fmt m xs p \<longleftrightarrow>
     mem_bytes m (length (encode fmt xs)) = encode fmt xs \<and> length (encode fmt xs) \<le> 1000000000 \<and>
     list_all short_mem xs \<and> list_all value_ok xs \<and> xs \<noteq> [] \<and> list_all key_ok (aMem p) \<and> aMem p \<noteq> [] \<and>
     length xs \<le> nAllField (pKeyInfo p) \<and> length (aMem p) \<le> length (aSortFlags (pKeyInfo p)) \<and> flags_ok (pKeyInfo p)"

text \<open>
  Comparing an encoded record with a key compares the decoded values with the key's, field by field in the order of the columns.
\<close>
theorem RecordCompare_correct:
  assumes "comparable fmt m xs p"
  shows "sqlite3VdbeRecordCompare ld (length (encode fmt xs)) m p = key_compare ld p 0 (map value_of xs) (aMem p)"
  using assms unfolding comparable_def holds_mem_bytes_iff by (intro RecordCompare_encode) simp_all

lemma comparable_rest:
  assumes "comparable fmt m (x # xs) p" and "aMem p = y # ys" and "length ys \<le> length xs" and "nAllField (pKeyInfo p) \<le> 13"
    and "prepared q p"
  shows "compare_rest ld (length (encode fmt (x # xs))) m q = key_compare ld q 1 (map value_of xs) ys"
  using assms unfolding comparable_def holds_mem_bytes_iff prepared_def by (intro compare_rest_spec [where y = y]) simp_all

lemma comparable_prepared: "comparable fmt m xs p \<Longrightarrow> prepared q p \<Longrightarrow> comparable fmt m xs q"
  by (simp add: comparable_def prepared_def)

lemma general_agree:
  assumes "comparable fmt m xs p" and "prepared q p"
  shows "same_answer (sqlite3VdbeRecordCompare ld (length (encode fmt xs)) m q) (sqlite3VdbeRecordCompare ld (length (encode fmt xs)) m p)"
proof -
  have "same_answer (key_compare ld q 0 (map value_of xs) (aMem p)) (key_compare ld p 0 (map value_of xs) (aMem p))"
    by (rule key_compare_agree [OF assms(2)])
  moreover have "aMem q = aMem p" using assms(2) by (simp add: prepared_def)
  moreover have e: "key_compare ld p i ys zs = key_compare ld p i ys zs" for p i ys zs ..
  ultimately show ?thesis
    using assms RecordCompare_encode [of m fmt xs q ld] RecordCompare_encode [of m fmt xs p ld]
    unfolding comparable_def holds_mem_bytes_iff prepared_def by simp
qed

lemma sint_up: "sint (scast (w :: u32) :: u64) = sint w"
  by (simp add: is_up sint_up_scast)

text \<open>The first type is a single byte, or that byte has its top bit set.\<close>

lemma first_type_byte:
  assumes "comparable fmt m (x # xs) p" and "nAllField (pKeyInfo p) \<le> 13"
  shows "(ucast (m 1) :: u32) = type_of fmt x \<and> type_of fmt x < 128 \<or> \<not> type_of fmt x < 128 \<and> (ucast (m 1) :: u32) \<ge> 128"
    and "getVarint32 (off m 1) = (length (type_bytes (type_of fmt x)), type_of fmt x)"
proof -
  have "holds m 0 (encode fmt (x # xs))" "length xs < 13" using assms by (simp_all add: comparable_def holds_mem_bytes_iff)
  from fast_layout(3) [OF this] have h: "holds m 1 (type_bytes (type_of fmt x))" by (simp add: types_bytes_def holds_append)
  from first_byte [OF h] show "(ucast (m 1) :: u32) = type_of fmt x \<and> type_of fmt x < 128 \<or> \<not> type_of fmt x < 128 \<and> (ucast (m 1) :: u32) \<ge> 128" by blast
  show "getVarint32 (off m 1) = (length (type_bytes (type_of fmt x)), type_of fmt x)" by (rule get_type [OF h])
qed

lemma str_type: "short_mem (Mem_Str z) \<Longrightarrow> unat (type_of fmt (Mem_Str z)) = 2 * length z + 13"
  using long_type(1) [of "length z" 13] by (simp only: short_mem_def type_of.simps mem_len.simps) simp

lemma blob_type: "short_mem (Mem_Blob z k) \<Longrightarrow> unat (type_of fmt (Mem_Blob z k)) = 2 * (length z + k) + 12"
  using long_type(1) [of "length z + k" 12] by (simp only: short_mem_def type_of.simps mem_len.simps) simp

lemma CompareInt_agree:
  assumes "comparable fmt m (x # xs) p" and "aMem p = Mem_Int j # ys" and "length ys \<le> length xs" and "nAllField (pKeyInfo p) \<le> 13"
    and "prepared q p" and "u_i q = j" and "flags AND KEYINFO_ORDER_BIGNULL = 0" and "flags \<in> {0, 1, 2, 3}"
    and "pr1 q = (if flags \<noteq> 0 then 1 else - 1)" and "pr2 q = (if flags \<noteq> 0 then - 1 else 1)"
    and "aSortFlags (pKeyInfo p) ! 0 = flags"
  shows "same_answer (vdbeRecordCompareInt ld (length (encode fmt (x # xs))) m q) (sqlite3VdbeRecordCompare ld (length (encode fmt (x # xs))) m p)"
proof (cases "m 1 = 0 \<or> m 1 = 7 \<or> m 1 > 9")
  case True
  then show ?thesis using general_agree [OF assms(1,5)] by (simp add: vdbeRecordCompareInt_def)
next
  case False
  let ?t = "type_of fmt x"
  have "holds m 0 (encode fmt (x # xs))" "length xs < 13" using assms(1,4) by (simp_all add: comparable_def holds_mem_bytes_iff)
  note lay = fast_layout [OF this]
  have u: "unat (m 1) \<le> 9" using False by (simp add: word_less_nat_alt)
  have t: "(ucast (m 1) :: u32) = ?t" "?t < 128"
    using first_type_byte(1) [OF assms(1,4)] u by (auto simp: word_le_nat_alt unat_byte32)
  then have ut: "unat ?t = unat (m 1)" using unat_byte32 [of "m 1"] by simp
  have ok: "short_mem x" "value_ok x" using assms(1) by (simp_all add: comparable_def)
  have "unat (m 1) \<noteq> 0" "unat (m 1) \<noteq> 7" using False by (simp_all add: word_unat_eq_iff)
  then have "?t \<noteq> 0" "?t \<noteq> 7" "\<not> unat ?t \<ge> 12" using ut u by auto
  then obtain i where i: "x = Mem_Int i \<or> x = Mem_IntReal i"
    using ok str_type [of _ fmt] blob_type [of _ _ fmt] by (cases x) (auto simp del: type_of.simps(6,7))
  have h: "holds m (unat (m 0)) (int_bytes (snd (int_type fmt i)) i)" and tt: "?t = fst (int_type fmt i)"
    using lay(2,4) i by (auto simp: holds_append)
  have "length (type_bytes ?t) = 1" using t by (simp add: type_bytes_small)
  then have "unat (m 0) \<le> 62" using lay(2,6) by simp
  then have "take_bit 6 (m 0) = m 0" by (simp add: word_unat_eq_iff unsigned_take_bit_eq take_bit_nat_eq_self_iff)
  moreover have "(0x3F :: byte) = mask 6" by (simp add: mask_eq_exp_minus_1)
  ultimately have "m 0 AND 0x3F = m 0" by (simp only: flip: take_bit_eq_mask)
  then have key: "off m (unat (m 0 AND 0x3F)) = off m (unat (m 0))" by simp
  define a where "a = off m (unat (m 0))"
  have lhs: "(if m 1 = 1 then sint (ONE_BYTE_INT a) else if m 1 = 2 then sint (TWO_BYTE_INT a) else if m 1 = 3 then sint (THREE_BYTE_INT a)
      else if m 1 = 4 then sint (FOUR_BYTE_UINT a) else if m 1 = 5 then sint (six_bytes a)
      else if m 1 = 6 then sint (push_bit 32 (ucast (FOUR_BYTE_UINT a)) OR ucast (FOUR_BYTE_UINT (off a 4)) :: u64)
      else if m 1 = 8 then 0 else 1) = sint i"
  proof -
    have "sint (vdbeRecordDecodeInt (ucast (m 1)) a) = sint i" using decode_int [OF h] t tt by (simp add: a_def)
    moreover have "m 1 = 1 \<or> m 1 = 2 \<or> m 1 = 3 \<or> m 1 = 4 \<or> m 1 = 5 \<or> m 1 = 6 \<or> m 1 = 8 \<or> m 1 = 9"
      using u \<open>unat (m 1) \<noteq> 0\<close> \<open>unat (m 1) \<noteq> 7\<close> by (simp add: word_unat_eq_iff) presburger
    ultimately show ?thesis by (elim disjE) (simp_all add: vdbeRecordDecodeInt_def sint_up)
  qed
  have cmp: "sqlite3MemCompare ld (ki_enc (pKeyInfo p)) (value_of x) (Mem_Int j) (aColl (pKeyInfo p) ! 0) = cmp_i64 i j"
    using i by (auto simp: sqlite3MemCompare_def)
  have e: "vdbeRecordCompareInt ld (length (encode fmt (x # xs))) m q =
      (if cmp_i64 i j < 0 then (pr1 q, q) else if cmp_i64 i j > 0 then (pr2 q, q) else compare_rest ld (length (encode fmt (x # xs))) m q)"
    using False unfolding vdbeRecordCompareInt_def Let_def key a_def [symmetric] lhs assms(6) by (auto simp: cmp_i64_def)
  show ?thesis unfolding e RecordCompare_correct [OF assms(1)] assms(2) list.map
    by (rule fast_agree [OF assms(5,7-11) cmp comparable_rest [OF assms(1-5)]])
qed

text \<open>The serial type as the signed integer the routine for texts computes.\<close>

lemma type_less:
  assumes "short_mem x"
  shows "unat (type_of fmt x) < 2 ^ 31"
proof (cases x)
  case (Mem_Str z)
  with assms str_type [of z fmt] show ?thesis by (simp add: short_mem_def del: type_of.simps)
next
  case (Mem_Blob z k)
  with assms blob_type [of z k fmt] show ?thesis by (simp add: short_mem_def del: type_of.simps)
next
  case (Mem_Int i)
  with int_type_less [of fmt i] show ?thesis by (simp add: word_less_nat_alt)
next
  case (Mem_IntReal i)
  with int_type_less [of fmt i] show ?thesis by (simp add: word_less_nat_alt)
qed simp_all

lemma sint_small32: "unat (t :: u32) < 2 ^ 31 \<Longrightarrow> sint t = int (unat t)"
proof -
  assume "unat t < 2 ^ 31"
  then have "int (unat t) < int (2 ^ 31)" by (simp only: of_nat_less_iff)
  then have "uint t < 2 ^ 31" by simp
  moreover have "- (2 ^ 31) \<le> uint t" by (rule order_trans [OF _ uint_nonnegative]) simp
  ultimately show ?thesis by (simp add: sint_uint signed_take_bit_int_eq_self)
qed

lemma string_type:
  assumes "comparable fmt m (x # xs) p" and "nAllField (pKeyInfo p) \<le> 13"
  shows "(if sint (m 1) < 0 then sint (snd (getVarint32 (off m 1))) else sint (m 1)) = int (unat (type_of fmt x))"
proof -
  have sx: "short_mem x" using assms(1) by (simp add: comparable_def)
  note ft = first_type_byte [OF assms]
  have st: "sint (type_of fmt x) = int (unat (type_of fmt x))" by (rule sint_small32 [OF type_less [OF sx]])
  have sb: "sint (m 1) = (if unat (m 1) < 128 then int (unat (m 1)) else int (unat (m 1)) - 256)"
  proof -
    have u: "uint (m 1) = int (unat (m 1))" by simp
    have c: "int (unat (m 1)) < 128 \<longleftrightarrow> unat (m 1) < 128" by linarith
    show ?thesis unfolding sint_byte u c ..
  qed
  show ?thesis
  proof (cases "type_of fmt x < 128")
    case True
    then have "unat (type_of fmt x) = unat (m 1)" "unat (type_of fmt x) < 128"
      using ft(1) unat_byte32 [of "m 1"] by (auto simp: word_less_nat_alt)
    with sb show ?thesis by simp
  next
    case False
    then have "unat (m 1) \<ge> 128" using ft(1) by (auto simp: word_le_nat_alt unat_byte32)
    moreover have "unat (m 1) < 256" using unsigned_less [of "m 1"] by simp
    ultimately have "sint (m 1) < 0" unfolding sb by (simp only: not_less [symmetric] if_False)
    with ft(2) st show ?thesis by simp
  qed
qed

lemma CompareString_agree:
  assumes "comparable fmt m (x # xs) p" and "aMem p = Mem_Str w # ys" and "length ys \<le> length xs" and "nAllField (pKeyInfo p) \<le> 13"
    and "prepared q p" and "u_z q = w" and "flags AND KEYINFO_ORDER_BIGNULL = 0" and "flags \<in> {0, 1, 2, 3}"
    and "pr1 q = (if flags \<noteq> 0 then 1 else - 1)" and "pr2 q = (if flags \<noteq> 0 then - 1 else 1)"
    and "aSortFlags (pKeyInfo p) ! 0 = flags" and "aColl (pKeyInfo p) ! 0 = None"
  shows "same_answer (vdbeRecordCompareString ld (length (encode fmt (x # xs))) m q) (sqlite3VdbeRecordCompare ld (length (encode fmt (x # xs))) m p)"
proof -
  let ?t = "type_of fmt x" and ?n = "length (encode fmt (x # xs))"
  define rc where "rc = sqlite3MemCompare ld (ki_enc (pKeyInfo p)) (value_of x) (Mem_Str w) (aColl (pKeyInfo p) ! 0)"
  have "holds m 0 (encode fmt (x # xs))" "length xs < 13" using assms(1,4) by (simp_all add: comparable_def holds_mem_bytes_iff)
  note lay = fast_layout [OF this]
  have ok: "short_mem x" "value_ok x" using assms(1) by (simp_all add: comparable_def)
  note st = string_type [OF assms(1,4)]
  have low: "vdbeRecordCompareString ld ?n m q = (if rc < 0 then (pr1 q, q) else if rc > 0 then (pr2 q, q) else compare_rest ld ?n m q)"
    if "unat ?t < 12" "rc = - 1"
  proof -
    have "int (unat ?t) < 12" using that(1) by linarith
    then show ?thesis unfolding vdbeRecordCompareString_def st Let_def using that(2) by simp
  qed
  have e: "vdbeRecordCompareString ld ?n m q = (if rc < 0 then (pr1 q, q) else if rc > 0 then (pr2 q, q) else compare_rest ld ?n m q)"
  proof (cases x)
    case (Mem_Str z)
    then have l: "length z \<le> 1000000000" using ok by (simp add: short_mem_def)
    have t: "int (unat ?t) = 2 * int (length z) + 13" using str_type [of z fmt] ok Mem_Str by simp
    then have ns: "nat ((int (unat ?t) - 12) div 2) = length z" "\<not> int (unat ?t) < 12" "odd (int (unat ?t))" by simp_all
    have h: "holds m (unat (m 0)) z" "unat (m 0) + length z \<le> ?n" using lay(2,4,7) Mem_Str by (simp_all add: holds_append)
    note z = mem_bytes_take [OF holds_mem_bytes [OF h(1)], of "length w"]
    have rc: "rc = (let c = memcmp (take (min (length z) (length w)) z) (take (min (length z) (length w)) w)
        in if c \<noteq> 0 then c else int (length z) - int (length w))"
      using Mem_Str assms(12) by (simp add: rc_def sqlite3MemCompare_def sqlite3BlobCompare_def Let_def)
    show ?thesis
      using h(2) ns unfolding vdbeRecordCompareString_def st Let_def assms(6) rc min.commute [of "length w" "length z"]
      by (simp add: min.commute [of "length w" "length z"] z)
  next
    case (Mem_Blob z k)
    then have l: "length z + k \<le> 1000000000" using ok by (simp add: short_mem_def)
    have t: "int (unat ?t) = 2 * int (length z + k) + 12" using blob_type [of z k fmt] ok Mem_Blob by simp
    have rc: "rc = 1" using Mem_Blob by (simp add: rc_def sqlite3MemCompare_def)
    show ?thesis unfolding vdbeRecordCompareString_def st Let_def rc t by simp
  next
    case Mem_Null
    then show ?thesis by (intro low) (simp_all add: rc_def sqlite3MemCompare_def)
  next
    case (Mem_Real r)
    then show ?thesis using ok by (intro low) (simp_all add: rc_def sqlite3MemCompare_def)
  next
    case (Mem_Int i)
    then show ?thesis using int_type_less [of fmt i] by (intro low) (simp_all add: word_less_nat_alt rc_def sqlite3MemCompare_def)
  next
    case (Mem_IntReal i)
    then show ?thesis using int_type_less [of fmt i] by (intro low) (simp_all add: word_less_nat_alt rc_def sqlite3MemCompare_def)
  qed (use ok in simp)
  show ?thesis unfolding e RecordCompare_correct [OF assms(1)] assms(2) list.map
    by (rule fast_agree [OF assms(5,7-11) rc_def [symmetric] comparable_rest [OF assms(1-5)]])
qed

text \<open>
  The routine sqlite3VdbeFindCompare chooses for a key agrees with the general one on every record that has as many
  fields as the key: in the sign of the answer, in the error and in whether an equal key was seen.
\<close>
theorem FindCompare_correct:
  assumes "comparable fmt m xs p" and "length (aMem p) \<le> length xs" and "sqlite3VdbeFindCompare p = (f, q)"
  shows "same_answer (f ld (length (encode fmt xs)) m q) (sqlite3VdbeRecordCompare ld (length (encode fmt xs)) m p)"
proof -
  obtain x xs' where xs: "xs = x # xs'" using assms(1) by (cases xs) (auto simp: comparable_def)
  obtain y ys where ys: "aMem p = y # ys" using assms(1) by (cases "aMem p") (auto simp: comparable_def)
  define flags where "flags = aSortFlags (pKeyInfo p) ! 0"
  have "flags \<in> set (aSortFlags (pKeyInfo p))" unfolding flags_def using assms(1) ys by (intro nth_mem) (auto simp: comparable_def)
  then have fl: "flags \<in> {0, 1, 2, 3}" using assms(1) by (auto simp: comparable_def flags_ok_def list_all_iff)
  have gen: "same_answer (sqlite3VdbeRecordCompare ld (length (encode fmt xs)) m r) (sqlite3VdbeRecordCompare ld (length (encode fmt xs)) m p)"
    if "prepared r p" for r by (rule general_agree [OF assms(1) that])
  consider (general) "f = sqlite3VdbeRecordCompare" "prepared q p"
    | (int) j where "f = vdbeRecordCompareInt" "y = Mem_Int j" "u_i q = j" "prepared q p" "nAllField (pKeyInfo p) \<le> 13"
        "flags AND KEYINFO_ORDER_BIGNULL = 0" "pr1 q = (if flags \<noteq> 0 then 1 else - 1)" "pr2 q = (if flags \<noteq> 0 then - 1 else 1)"
    | (str) w where "f = vdbeRecordCompareString" "y = Mem_Str w" "u_z q = w" "prepared q p" "nAllField (pKeyInfo p) \<le> 13"
        "flags AND KEYINFO_ORDER_BIGNULL = 0" "pr1 q = (if flags \<noteq> 0 then 1 else - 1)" "pr2 q = (if flags \<noteq> 0 then - 1 else 1)"
        "aColl (pKeyInfo p) ! 0 = None"
    using assms(3) unfolding sqlite3VdbeFindCompare_def flags_def [symmetric] Let_def
    by (cases y) (auto simp: ys prepared_simps split: if_splits)
  then show ?thesis
  proof cases
    case general
    with gen show ?thesis by simp
  next
    case int
    show ?thesis unfolding xs int(1)
      by (rule CompareInt_agree [of fmt m x xs' p j ys q flags]) (use int assms(1,2) xs ys fl flags_def in simp_all)
  next
    case str
    show ?thesis unfolding xs str(1)
      by (rule CompareString_agree [of fmt m x xs' p w ys q flags]) (use str assms(1,2) xs ys fl flags_def in simp_all)
  qed
qed

end
