(* ===== verification/Vdbe_Order.thy ===== *)
theory Vdbe_Order
  imports Vdbe_Compare_Props
begin

text \<open>
  The comparisons are orders. A comparator that is antisymmetric and transitive is an interface: what holds of every one
  of them is proved once, and memcmp order, the built-in collations and, for every collation that is one, the order of memory cells are interpretations.
\<close>

section \<open>Comparators\<close>

locale comparator =
  fixes dom :: "'a \<Rightarrow> bool" and cmp :: "'a \<Rightarrow> 'a \<Rightarrow> int"
  assumes anti: "dom x \<Longrightarrow> dom y \<Longrightarrow> sgn (cmp x y) = - sgn (cmp y x)"
    and trans: "dom x \<Longrightarrow> dom y \<Longrightarrow> dom z \<Longrightarrow> cmp x y \<le> 0 \<Longrightarrow> cmp y z \<le> 0 \<Longrightarrow> cmp x z \<le> 0"
begin

lemma refl: "dom x \<Longrightarrow> cmp x x = 0"
  using anti [of x x] by (simp add: sgn_if split: if_splits)

lemma flip: "dom x \<Longrightarrow> dom y \<Longrightarrow> cmp x y \<le> 0 \<longleftrightarrow> cmp y x \<ge> 0"
  using anti [of x y] by (auto simp: sgn_if split: if_splits)

lemma total: "dom x \<Longrightarrow> dom y \<Longrightarrow> cmp x y \<le> 0 \<or> cmp y x \<le> 0"
  using flip [of x y] by linarith

lemma trans_less:
  assumes "dom x" and "dom y" and "dom z" and "cmp x y < 0" and "cmp y z \<le> 0"
  shows "cmp x z < 0"
proof (rule ccontr)
  assume "\<not> cmp x z < 0"
  then have "cmp z x \<le> 0" using flip [of z x] assms(1,3) by simp
  then have "cmp y x \<le> 0" using trans [of y z x] assms by simp
  then have "cmp x y \<ge> 0" using flip [of y x] assms(1,2) by simp
  with assms(4) show False by simp
qed

text \<open>Deciding equal ones by another comparator.\<close>

lemma then_by:
  assumes "comparator dom cmp2"
  shows "comparator dom (\<lambda>x y. if cmp x y \<noteq> 0 then cmp x y else cmp2 x y)"
proof (unfold_locales, goal_cases)
  case (1 x y)
  then show ?case using anti [of x y] comparator.anti [OF assms, of x y] by (auto simp: sgn_if split: if_splits)
next
  case (2 x y z)
  have "cmp x y \<le> 0" "cmp y z \<le> 0" using 2(4,5) by (auto split: if_splits)
  then have xz: "cmp x z \<le> 0" using trans 2(1-3) by blast
  show ?case
  proof (cases "cmp x z = 0")
    case True
    have "\<not> cmp x y < 0" using trans_less [of x y z] 2 \<open>cmp y z \<le> 0\<close> True by auto
    then have e1: "cmp x y = 0" using \<open>cmp x y \<le> 0\<close> by simp
    have "cmp z x \<le> 0" using True flip [of z x] 2(1,3) by simp
    then have "\<not> cmp y z < 0" using trans_less [of y z x] 2 flip [of x y] e1 by auto
    then have e2: "cmp y z = 0" using \<open>cmp y z \<le> 0\<close> by simp
    from 2 e1 e2 True comparator.trans [OF assms, of x y z] show ?thesis by simp
  qed (use xz in simp)
qed

text \<open>Comparing through a function, and with a comparison of the same sign.\<close>

lemma through: "(\<And>x. dom' x \<Longrightarrow> dom (f x)) \<Longrightarrow> (\<And>x y. dom' x \<Longrightarrow> dom' y \<Longrightarrow> sgn (cmp' x y) = sgn (cmp (f x) (f y))) \<Longrightarrow>
    comparator dom' cmp'"
proof (unfold_locales, goal_cases)
  case (1 x y)
  then show ?case using anti [of "f x" "f y"] by simp
next
  case (2 x y z)
  have s: "cmp' a b \<le> 0 \<longleftrightarrow> cmp (f a) (f b) \<le> 0" if "dom' a" "dom' b" for a b
    using 2(2) [OF that] by (auto simp: sgn_if split: if_splits)
  from 2 s trans [of "f x" "f y" "f z"] show ?case by simp
qed

end

section \<open>Bytes\<close>

fun bytes_order :: "byte list \<Rightarrow> byte list \<Rightarrow> int" where
  "bytes_order [] [] = 0"
| "bytes_order [] (b # y) = - 1"
| "bytes_order (a # x) [] = 1"
| "bytes_order (a # x) (b # y) = (if a = b then bytes_order x y else if uint a < uint b then - 1 else 1)"

interpretation bytes: comparator "\<lambda>_. True" bytes_order
proof (unfold_locales, goal_cases)
  case (1 x y)
  show ?case by (induction x y rule: bytes_order.induct) (auto simp: word_uint_eq_iff)
next
  case (2 x y z)
  from 2(4,5) show ?case
  proof (induction x y arbitrary: z rule: bytes_order.induct)
    case (4 a x b y)
    then show ?case by (cases z) (auto split: if_splits)
  next
    case (2 b y)
    then show ?case by (cases z) auto
  qed (case_tac z; auto)+
qed

lemma bin_bytes: "sgn (binCollFunc x y) = bytes_order x y"
proof (induction x y rule: bytes_order.induct)
  case (4 a x b y)
  show ?case
  proof (cases "a = b")
    case True
    with 4 show ?thesis by (auto simp add: binCollFunc_def Let_def split: if_splits)
  next
    case False
    then have "uint a \<noteq> uint b" by (simp add: word_uint_eq_iff)
    with False show ?thesis by (simp add: binCollFunc_def Let_def)
  qed
qed (simp_all add: binCollFunc_def)

lemma bytes_order_sgn [simp]: "sgn (bytes_order x y) = bytes_order x y"
  by (induction x y rule: bytes_order.induct) auto

interpretation bin: comparator "\<lambda>_. True" binCollFunc
  by (rule bytes.through [where f = "\<lambda>x. x"]) (simp_all add: bin_bytes)

interpretation rtrim_cmp: comparator "\<lambda>_. True" rtrimCollFunc
  by (rule bin.through [where f = rtrim]) (simp_all add: rtrimCollFunc_def)

text \<open>NOCASE looks at the bytes before the first zero byte, in lower case, and then at the lengths.\<close>

definition nocase_key :: "byte list \<Rightarrow> byte list" where
  "nocase_key x = map sqlite3Tolower (takeWhile (\<lambda>b. b \<noteq> 0) x)"

lemma strnicmp_Cons:
  "strnicmp_loop (c # a) (d # b) (int (min (length (c # a)) (length (d # b)))) =
     (if c \<noteq> 0 \<and> sqlite3Tolower c = sqlite3Tolower d then strnicmp_loop a b (int (min (length a) (length b)))
      else uint (sqlite3Tolower c) - uint (sqlite3Tolower d))"
proof -
  have "int (min (length (c # a)) (length (d # b))) - 1 = int (min (length a) (length b))" by simp
  moreover have "int (min (length (c # a)) (length (d # b))) > 0" by simp
  ultimately show ?thesis unfolding strnicmp_loop.simps [of "c # a" "d # b"] by (simp only: if_True) (simp add: chat_def)
qed

lemma nocase_loop:
  "sgn (let r = strnicmp_loop a b (int (min (length a) (length b))) in if r = 0 then int (length a) - int (length b) else r) =
   (if bytes_order (nocase_key a) (nocase_key b) \<noteq> 0 then bytes_order (nocase_key a) (nocase_key b)
    else sgn (int (length a) - int (length b)))"
proof (induction a b rule: list_induct2')
  case (4 c a d b)
  have z: "sqlite3Tolower c = 0 \<longleftrightarrow> c = 0" "sqlite3Tolower d = 0 \<longleftrightarrow> d = 0" by (simp_all add: Tolower_zero)
  have l: "int (length (c # a)) - int (length (d # b)) = int (length a) - int (length b)" by simp
  show ?case
  proof (cases "c \<noteq> 0 \<and> sqlite3Tolower c = sqlite3Tolower d")
    case True
    then have "d \<noteq> 0" using z by auto
    then have k: "nocase_key (c # a) = sqlite3Tolower c # nocase_key a" "nocase_key (d # b) = sqlite3Tolower d # nocase_key b"
      using True by (simp_all add: nocase_key_def)
    show ?thesis unfolding strnicmp_Cons k l using True 4 by simp
  next
    case False
    then consider "c = 0" "d = 0" | "c = 0" "d \<noteq> 0" | "c \<noteq> 0" "d = 0" | "c \<noteq> 0" "d \<noteq> 0" "sqlite3Tolower c \<noteq> sqlite3Tolower d" by blast
    then show ?thesis
    proof cases
      case 1
      then show ?thesis unfolding strnicmp_Cons by (simp add: nocase_key_def)
    next
      case 2
      with Tolower_pos [of d] z show ?thesis unfolding strnicmp_Cons by (simp add: nocase_key_def Tolower_0 Let_def)
    next
      case 3
      with Tolower_pos [of c] z show ?thesis unfolding strnicmp_Cons by (simp add: nocase_key_def Tolower_0 Let_def)
    next
      case 4
      then have "uint (sqlite3Tolower c) \<noteq> uint (sqlite3Tolower d)" by (simp add: word_uint_eq_iff)
      with 4 show ?thesis unfolding strnicmp_Cons by (simp add: nocase_key_def Let_def)
    qed
  qed
qed (auto simp: strnicmp_loop.simps [of _ _ 0] nocase_key_def Let_def)

lemma length_comparator: "comparator (\<lambda>_. True) (\<lambda>x y. int (length x) - int (length y))"
  by unfold_locales (simp_all add: sgn_if)

lemma keys_comparator: "comparator (\<lambda>_. True) (\<lambda>x y. bytes_order (nocase_key x) (nocase_key y))"
  by (rule bytes.through [where f = nocase_key]) simp_all

interpretation nocase: comparator "\<lambda>_. True" nocaseCollatingFunc
proof (rule comparator.through [OF comparator.then_by [OF keys_comparator length_comparator], where f = "\<lambda>x. x"])
  fix x y :: "byte list"
  show "sgn (nocaseCollatingFunc x y) =
      sgn (if bytes_order (nocase_key x) (nocase_key y) \<noteq> 0 then bytes_order (nocase_key x) (nocase_key y)
           else int (length x) - int (length y))"
    using nocase_loop [of x y] by (simp add: nocaseCollatingFunc_def sqlite3_strnicmp_def)
qed simp

section \<open>Memory cells\<close>

text \<open>NULLs first, then numbers by value, texts by the collation and blobs by their bytes.\<close>

fun mem_rank :: "Mem \<Rightarrow> int" where
  "mem_rank (Mem_Str z) = 2"
| "mem_rank (Mem_Blob z k) = 3"
| "mem_rank Mem_Null = 0"
| "mem_rank Mem_NullZero = 0"
| "mem_rank _ = 1"

fun mem_value :: "Mem \<Rightarrow> int" where
  "mem_value (Mem_Int i) = sint i * dunit"
| "mem_value (Mem_IntReal i) = sint i * dunit"
| "mem_value (Mem_Real r) = dval r"
| "mem_value _ = 0"

fun mem_text :: "Mem \<Rightarrow> byte list" where
  "mem_text (Mem_Str z) = z"
| "mem_text _ = []"

fun mem_blob :: "Mem \<Rightarrow> byte list" where
  "mem_blob (Mem_Blob z k) = z @ replicate k 0"
| "mem_blob _ = []"

lemma zeros_order:
  "bytes_order (replicate k 0) y = (if \<not> isAllZero y then - 1 else sgn (int k - int (length y)))"
proof (induction y arbitrary: k)
  case Nil
  show ?case by (cases k) (simp_all add: isAllZero_def)
next
  case (Cons b y)
  show ?case
  proof (cases k)
    case (Suc j)
    have "uint (0 :: byte) < uint b" if "b \<noteq> 0" using that by (simp add: word_neq_0_conv word_less_def)
    with Suc Cons [of j] show ?thesis by (auto simp: isAllZero_def word_uint_eq_iff)
  qed (auto simp: isAllZero_def)
qed

lemma order_zeros:
  "bytes_order y (replicate k 0) = (if \<not> isAllZero y then 1 else sgn (int (length y) - int k))"
proof -
  have "bytes_order y (replicate k 0) = - bytes_order (replicate k 0) y"
    using bytes.anti [of y "replicate k 0"] by simp
  moreover have "- sgn (int k - int (length y)) = sgn (int (length y) - int k)" by (simp add: sgn_if)
  ultimately show ?thesis by (simp add: zeros_order)
qed

lemma blob_order:
  assumes "key_ok x" and "key_ok y" and "mem_rank x = 3" and "mem_rank y = 3"
  shows "sgn (sqlite3BlobCompare x y) = bytes_order (mem_blob x) (mem_blob y)"
proof -
  obtain z k w j where x: "x = Mem_Blob z k" and y: "y = Mem_Blob w j" using assms(3,4) by (cases x; cases y) auto
  consider "k = 0" "j = 0" | "0 < k" "z = []" "j = 0" | "k = 0" "0 < j" "w = []" | "0 < k" "z = []" "0 < j" "w = []"
    using assms(1,2) x y by auto
  then show ?thesis
  proof cases
    case 1
    then show ?thesis using bin_bytes [of z w] by (simp add: x y sqlite3BlobCompare_def binCollFunc_def Let_def split: if_splits)
  next
    case 2
    then show ?thesis by (simp add: x y sqlite3BlobCompare_def zeros_order)
  next
    case 3
    then show ?thesis by (simp add: x y sqlite3BlobCompare_def order_zeros)
  next
    case 4
    have "isAllZero (replicate j 0)" by (auto simp: isAllZero_def list_all_iff)
    with 4 show ?thesis by (simp add: x y sqlite3BlobCompare_def zeros_order)
  qed
qed

text \<open>What compares texts: the collation, in its encoding, or memcmp.\<close>

definition text_compare :: "text_enc \<Rightarrow> CollSeq option \<Rightarrow> byte list \<Rightarrow> byte list \<Rightarrow> int" where
  "text_compare enc pColl z1 z2 =
     (case pColl of Some c \<Rightarrow> vdbeCompareMemString enc z1 z2 c | None \<Rightarrow> binCollFunc z1 z2)"

definition mem_compare_ref :: "text_enc \<Rightarrow> CollSeq option \<Rightarrow> Mem \<Rightarrow> Mem \<Rightarrow> int" where
  "mem_compare_ref enc pColl x y =
     (if mem_rank x \<noteq> mem_rank y then mem_rank x - mem_rank y
      else if mem_rank x = 1 then mem_value x - mem_value y
      else if mem_rank x = 2 then text_compare enc pColl (mem_text x) (mem_text y)
      else if mem_rank x = 3 then bytes_order (mem_blob x) (mem_blob y)
      else 0)"

text \<open>sqlite3MemCompare is that order, whatever the collation answers.\<close>

lemma compare_mem_ref:
  assumes "key_ok x" and "key_ok y"
  shows "sgn (sqlite3MemCompare ld enc x y pColl) = sgn (mem_compare_ref enc pColl x y)"
proof -
  have range: "- (2 ^ 63) \<le> sint i" "sint i < 2 ^ 63" for i :: u64
    using sint_greater_eq [of i] sint_less [of i] by simp_all
  have num: "sqlite3IntFloatCompare ld (sint i) r = sgn (sint i * dunit - dval r)" if "\<not> IsNaN r" for i :: u64 and r
    using IntFloatCompare_exact [OF range(1) [of i] range(2) [of i], of ld r] that by simp
  have ii: "sgn (cmp_i64 i j) = sgn (sint i * dunit - sint j * dunit)" for i j :: u64
    using dunit_pos by (simp add: cmp_i64_def sgn_mult flip: left_diff_distrib)
  have rr: "sgn (cmp_double r q) = sgn (dval r - dval q)" if "\<not> IsNaN r" "\<not> IsNaN q" for r q
    using that by (simp add: cmp_double_def dless_def)
  have neg: "- sgn (a - b) = sgn (b - a)" for a b :: int by (simp add: sgn_if)
  have str: "sqlite3MemCompare ld enc (Mem_Str z) (Mem_Str w) pColl = text_compare enc pColl z w" for z w
    by (cases pColl) (simp_all add: sqlite3MemCompare_def text_compare_def sqlite3BlobCompare_def binCollFunc_def Let_def)
  consider "mem_rank x = 3" "mem_rank y = 3" | z w where "x = Mem_Str z" "y = Mem_Str w"
    | "\<not> (mem_rank x = 3 \<and> mem_rank y = 3)" "\<not> (is_str x \<and> is_str y)"
    by (cases x; cases y) auto
  then show ?thesis
  proof cases
    case 1
    then show ?thesis using blob_order [OF assms 1]
      by (cases x; cases y) (simp_all add: sqlite3MemCompare_def mem_compare_ref_def)
  next
    case 2
    then show ?thesis using str [of z w] by (simp add: mem_compare_ref_def)
  next
    case 3
    then show ?thesis using assms
      by (cases x; cases y) (simp_all add: sqlite3MemCompare_def mem_compare_ref_def num ii rr neg)
  qed
qed

text \<open>A collation is a comparator of texts.\<close>

locale collation =
  fixes pColl :: "CollSeq option"
  assumes coll: "pColl = Some c \<Longrightarrow> comparator (\<lambda>_. True) (xCmp c)"
begin

lemma text_comparator: "comparator (\<lambda>_. True) (text_compare enc pColl)"
proof (cases pColl)
  case None
  show ?thesis by (rule bin.through [where f = "\<lambda>x. x"]) (simp_all add: text_compare_def None)
next
  case (Some c)
  show ?thesis
    by (rule comparator.through [OF coll [OF Some],
          where f = "\<lambda>z. if enc = coll_enc c then z else snd (snd (sqlite3VdbeMemTranslate False enc (coll_enc c) z))"])
      (simp_all add: text_compare_def Some vdbeCompareMemString_def)
qed

lemma compare_cases:
  "mem_compare_ref enc pColl x y =
     (if mem_rank x - mem_rank y \<noteq> 0 then mem_rank x - mem_rank y
      else if mem_value x - mem_value y \<noteq> 0 then mem_value x - mem_value y
      else if text_compare enc pColl (mem_text x) (mem_text y) \<noteq> 0 then text_compare enc pColl (mem_text x) (mem_text y)
      else bytes_order (mem_blob x) (mem_blob y))"
  using comparator.refl [OF text_comparator [of enc], of "[]"] by (cases x; cases y) (simp_all add: mem_compare_ref_def)

lemma ref_comparator: "comparator (\<lambda>_. True) (mem_compare_ref enc pColl)"
proof -
  have r: "comparator (\<lambda>_. True) (\<lambda>x y. mem_rank x - mem_rank y)" by unfold_locales (simp_all add: sgn_if)
  have v: "comparator (\<lambda>_. True) (\<lambda>x y. mem_value x - mem_value y)" by unfold_locales (simp_all add: sgn_if)
  have t: "comparator (\<lambda>_. True) (\<lambda>x y. text_compare enc pColl (mem_text x) (mem_text y))"
    by (rule comparator.through [OF text_comparator, where f = mem_text]) simp_all
  have b: "comparator (\<lambda>_. True) (\<lambda>x y. bytes_order (mem_blob x) (mem_blob y))"
    by (rule bytes.through [where f = mem_blob]) simp_all
  show ?thesis unfolding compare_cases
    by (rule comparator.then_by [OF r comparator.then_by [OF v comparator.then_by [OF t b]]])
qed

text \<open>So the order of memory cells is a comparator.\<close>

lemma mem_comparator: "comparator key_ok (\<lambda>x y. sqlite3MemCompare ld enc x y pColl)"
  by (rule comparator.through [OF ref_comparator, where f = "\<lambda>x. x"]) (simp_all add: compare_mem_ref)

end

interpretation no_coll: collation None
  by (rule collation.intro) simp

interpretation bin_coll: collation "Some \<lparr>coll_enc = e, xCmp = binCollFunc\<rparr>" for e
  by (rule collation.intro) (use bin.comparator_axioms in auto)

interpretation rtrim_coll: collation "Some \<lparr>coll_enc = e, xCmp = rtrimCollFunc\<rparr>" for e
  by (rule collation.intro) (use rtrim_cmp.comparator_axioms in auto)

interpretation nocase_coll: collation "Some \<lparr>coll_enc = e, xCmp = nocaseCollatingFunc\<rparr>" for e
  by (rule collation.intro) (use nocase.comparator_axioms in auto)

section \<open>Index keys\<close>

lemma value_ok_stored: "value_ok x \<Longrightarrow> value_ok (stored x)"
  by (cases x) (simp_all add: double_of_int_number)

text \<open>A KeyInfo has a collation and sort flags for each of its columns.\<close>

definition key_info_ok :: "KeyInfo \<Rightarrow> bool" where
  "key_info_ok ki \<longleftrightarrow> length (aColl ki) = nAllField ki \<and> length (aSortFlags ki) = nAllField ki \<and> flags_ok ki"

text \<open>A key for records of \<open>n\<close> fields.\<close>

definition key_for :: "nat \<Rightarrow> UnpackedRecord \<Rightarrow> bool" where
  "key_for n p \<longleftrightarrow> key_info_ok (pKeyInfo p) \<and> n \<le> nAllField (pKeyInfo p) \<and>
     aMem p \<noteq> [] \<and> length (aMem p) \<le> n \<and> list_all key_ok (aMem p)"

lemma field_order_sgn: "sgn rc = sgn rc' \<Longrightarrow> sgn (field_order f x y rc) = sgn (field_order f x y rc')"
  by (auto simp: field_order_def sgn_if split: if_splits)

fun key_order :: "KeyInfo \<Rightarrow> nat \<Rightarrow> Mem list \<Rightarrow> Mem list \<Rightarrow> int" where
  "key_order ki i (x # xs) (y # ys) =
     (let rc = mem_compare_ref (ki_enc ki) (aColl ki ! i) x y
      in if rc \<noteq> 0 then field_order (aSortFlags ki ! i) x y rc else key_order ki (i + 1) xs ys)"
| "key_order ki i _ _ = 0"

definition key_answer :: "UnpackedRecord \<Rightarrow> int \<Rightarrow> int \<times> UnpackedRecord \<Rightarrow> bool" where
  "key_answer p ord r \<longleftrightarrow>
     sgn (fst r) = sgn (if ord = 0 then default_rc p else ord) \<and> errCode (snd r) = errCode p \<and> eqSeen (snd r) = (eqSeen p \<or> ord = 0)"

lemma key_compare_order:
  "list_all key_ok xs \<Longrightarrow> list_all key_ok ys \<Longrightarrow> length ys \<le> length xs \<Longrightarrow>
    key_answer p (key_order (pKeyInfo p) i xs ys) (key_compare ld p i xs ys)"
proof (induction ld p i xs ys rule: key_compare.induct)
  case (3 ld p i x xs y ys)
  let ?c = "sqlite3MemCompare ld (ki_enc (pKeyInfo p)) x y (aColl (pKeyInfo p) ! i)"
  let ?r = "mem_compare_ref (ki_enc (pKeyInfo p)) (aColl (pKeyInfo p) ! i) x y"
  have s: "sgn ?c = sgn ?r" using compare_mem_ref 3(2,3) by simp
  then have z: "?c = 0 \<longleftrightarrow> ?r = 0" by (metis sgn_0_0)
  have f: "field_order fl x y rc = 0 \<longleftrightarrow> rc = 0" for fl rc by (auto simp: field_order_def)
  show ?case
  proof (cases "?r = 0")
    case True
    with z 3 show ?thesis by (simp add: Let_def)
  next
    case False
    with z field_order_sgn [OF s] show ?thesis by (simp add: Let_def key_answer_def f)
  qed
qed (simp_all add: key_answer_def)

lemma key_ok_value: "key_ok (value_of x)"
  by (cases x) simp_all

text \<open>
  C12: An index entry is found in the order of its values. Take registers without NaN (and without the NULL that marks an unchanged
  column), the record OP_MakeRecord builds from them, memory that holds the record with its zero bytes and anything after it,
  and a key with at most as many fields, none of them a NaN. The routine
  sqlite3VdbeFindCompare chooses for the key, whichever of the three it is, then answers with the sign of the first field that
  differs: NULL, numbers by their exact value, texts by the column's collation, blobs by their bytes, turned round by the column's sort flags;
  when no field of the key differs it answers default_rc and says that an equal key was seen. It reports no corruption. The
  sizes are at most SQLITE_MAX_LENGTH.
\<close>

theorem index_key_order:
  assumes "OP_MakeRecord fmt szMalloc limit oom1 oom2 z0 xs = Inr (regs, Mem_Blob z nZero)"
    and "szMalloc \<le> 1000000000" and "limit \<le> 1000000000" and "list_all value_ok xs"
    and "mem_bytes m (length z + nZero) = z @ replicate nZero 0"
    and "key_for (length xs) p" and "sqlite3VdbeFindCompare p = (f, q)"
  shows "key_answer p (key_order (pKeyInfo p) 0 (map (value_of \<circ> stored) xs) (aMem p)) (f ld (length z + nZero) m q)"
proof (rule MakeRecord_encode [OF assms(1-3)])
  fix z' nZero'
  assume a: "Mem_Blob z nZero = Mem_Blob z' nZero'" "z' @ replicate nZero' 0 = encode fmt (map stored xs)"
    and b: "list_all short_mem xs" "length (encode fmt (map stored xs)) \<le> 1000000000"
  let ?xs = "map stored xs"
  from a have e: "z @ replicate nZero 0 = encode fmt ?xs" by simp
  then have l: "length z + nZero = length (encode fmt ?xs)" by (metis length_append length_replicate)
  have "list_all short_mem ?xs" "list_all value_ok ?xs"
    using b(1) assms(4) short_stored value_ok_stored by (auto simp: list_all_iff)
  then have c: "comparable fmt m ?xs p"
    using assms(5,6) b(2) unfolding comparable_def l e key_for_def key_info_ok_def by auto
  have n: "length (aMem p) \<le> length ?xs" and k: "list_all key_ok (aMem p)" using assms(6) by (simp_all add: key_for_def)
  have "key_answer p (key_order (pKeyInfo p) 0 (map value_of ?xs) (aMem p)) (key_compare ld p 0 (map value_of ?xs) (aMem p))"
    by (rule key_compare_order) (use k n key_ok_value in \<open>simp_all add: list_all_iff\<close>)
  with FindCompare_correct [OF c n assms(7), of ld] RecordCompare_correct [OF c, of ld] show ?thesis
    unfolding l by (simp add: key_answer_def same_answer_def)
qed

definition key_regs :: "Mem list" where
  "key_regs = [Mem_Int 7, Mem_Str [0x61, 0x42], Mem_IntReal 5]"

definition key_entry :: mem where
  "key_entry = (\<lambda>i. if i < 8 then [4, 1, 17, 1, 7, 0x61, 0x42, 5] ! i else 0xff)"

definition sample_key :: UnpackedRecord where
  "sample_key =
     \<lparr>pKeyInfo = \<lparr>ki_enc = text_enc.SQLITE_UTF8, nAllField = 3, aSortFlags = [0, 1, 0],
        aColl = [None, Some \<lparr>coll_enc = text_enc.SQLITE_UTF8, xCmp = nocaseCollatingFunc\<rparr>, None]\<rparr>,
      aMem = [Mem_Int 7, Mem_Str [0x41, 0x63]], u_z = [], u_i = 0, default_rc = 0, errCode = 0, pr1 = 0, pr2 = 0, eqSeen = False\<rparr>"

lemma key_record: "OP_MakeRecord 4 100 1000 False False (\<lambda>_. 0) key_regs = Inr (key_regs, Mem_Blob [4, 1, 17, 1, 7, 0x61, 0x42, 5] 0)"
  by code_simp

text \<open>The text aB comes after Ac in the second column, which is descending and ignores case.\<close>

lemma index_key_order_witness:
  "0 < fst (vdbeRecordCompareInt True 8 key_entry (sample_key\<lparr>pr1 := - 1, pr2 := 1, u_i := 7\<rparr>))"
proof -
  have "mem_bytes key_entry (length [4, 1, 17, 1, 7, 0x61, 0x42, 5 :: byte] + 0) = [4, 1, 17, 1, 7, 0x61, 0x42, 5] @ replicate 0 0" by code_simp
  moreover have "list_all value_ok key_regs" "key_for (length key_regs) sample_key" by code_simp+
  moreover have "sqlite3VdbeFindCompare sample_key = (vdbeRecordCompareInt, sample_key\<lparr>pr1 := - 1, pr2 := 1, u_i := 7\<rparr>)"
    by (simp add: sqlite3VdbeFindCompare_def sample_key_def)
  ultimately have "key_answer sample_key (key_order (pKeyInfo sample_key) 0 (map (value_of \<circ> stored) key_regs) (aMem sample_key))
      (vdbeRecordCompareInt True (length [4, 1, 17, 1, 7, 0x61, 0x42, 5 :: byte] + 0) key_entry (sample_key\<lparr>pr1 := - 1, pr2 := 1, u_i := 7\<rparr>))"
    by (intro index_key_order [OF key_record]) simp_all
  moreover have "key_order (pKeyInfo sample_key) 0 (map (value_of \<circ> stored) key_regs) (aMem sample_key) = 1" by code_simp
  ultimately show ?thesis by (simp add: key_answer_def sgn_if eval_nat_numeral split: if_splits)
qed

end
