(* ===== verification/Wal_Frame.thy ===== *)
theory Wal_Frame
  imports Varint_Props
begin

text \<open>
  The frames of the write-ahead log (wal.c in sqlite3.c): the running checksum, the encoding and
  the decoding of a frame header. \<open>big\<close> says whether the machine is big-endian
  (SQLITE_BIGENDIAN); memory is a function from offsets, as behind a C pointer. Sizes and
  frame numbers are natural numbers, page numbers and checksums words.
\<close>

section \<open>The write-ahead log handle\<close>

record WalIndexHdr =
  iChange :: u32
  bigEndCksum :: bool
  hdr_szPage :: nat
  mxFrame :: nat
  nPage :: u32
  aFrameCksum :: "u32 \<times> u32"
  aSalt :: "byte list"

record Wal =
  hdr :: WalIndexHdr
  szPage :: nat
  readLock :: int
  bShmUnreliable :: bool
  minFrame :: nat
  iReCksum :: nat
  nCkpt :: u32

definition WAL_FRAME_HDRSIZE :: nat where "WAL_FRAME_HDRSIZE = 24"
definition WAL_HDRSIZE :: nat where "WAL_HDRSIZE = 32"

section \<open>Checksums\<close>

abbreviation (input) off :: "mem \<Rightarrow> nat \<Rightarrow> mem" where
  "off p n \<equiv> \<lambda>i. p (n + i)"

text \<open>\<open>aData[k]\<close> for \<open>u32 *aData\<close>: the four bytes in the order of the machine.\<close>

definition word32 :: "bool \<Rightarrow> mem \<Rightarrow> nat \<Rightarrow> u32" where
  "word32 big a k =
     (if big then sqlite3Get4byte (off a (4 * k))
      else push_bit 24 (ucast (a (4 * k + 3))) OR push_bit 16 (ucast (a (4 * k + 2))) OR
           push_bit 8 (ucast (a (4 * k + 1))) OR ucast (a (4 * k)))"

definition BYTESWAP32 :: "u32 \<Rightarrow> u32" where
  "BYTESWAP32 x =
     push_bit 24 (x AND 0x000000FF) + push_bit 8 (x AND 0x0000FF00) +
     drop_bit 8 (x AND 0x00FF0000) + drop_bit 24 (x AND 0xFF000000)"

fun cksum_loop :: "(nat \<Rightarrow> u32) \<Rightarrow> nat \<Rightarrow> nat \<Rightarrow> u32 \<times> u32 \<Rightarrow> u32 \<times> u32" where
  "cksum_loop aData 0 k s = s"
| "cksum_loop aData (Suc n) k (s1, s2) =
     (let s1 = s1 + (aData k + s2);
          s2 = s2 + (aData (k + 1) + s1)
      in cksum_loop aData n (k + 2) (s1, s2))"

fun cksum_loop8 :: "(nat \<Rightarrow> u32) \<Rightarrow> nat \<Rightarrow> nat \<Rightarrow> u32 \<times> u32 \<Rightarrow> u32 \<times> u32" where
  "cksum_loop8 aData 0 k s = s"
| "cksum_loop8 aData (Suc n) k (s1, s2) =
     (let s1 = s1 + (aData k + s2); s2 = s2 + (aData (k + 1) + s1);
          s1 = s1 + (aData (k + 2) + s2); s2 = s2 + (aData (k + 3) + s1);
          s1 = s1 + (aData (k + 4) + s2); s2 = s2 + (aData (k + 5) + s1);
          s1 = s1 + (aData (k + 6) + s2); s2 = s2 + (aData (k + 7) + s1);
          s1 = s1 + (aData (k + 8) + s2); s2 = s2 + (aData (k + 9) + s1);
          s1 = s1 + (aData (k + 10) + s2); s2 = s2 + (aData (k + 11) + s1);
          s1 = s1 + (aData (k + 12) + s2); s2 = s2 + (aData (k + 13) + s1);
          s1 = s1 + (aData (k + 14) + s2); s2 = s2 + (aData (k + 15) + s1)
      in cksum_loop8 aData n (k + 16) (s1, s2))"

text \<open>\<open>nByte\<close> is a positive multiple of 8, as the assertions say.\<close>

definition walChecksumBytes :: "bool \<Rightarrow> bool \<Rightarrow> mem \<Rightarrow> nat \<Rightarrow> (u32 \<times> u32) option \<Rightarrow> u32 \<times> u32" where
  "walChecksumBytes big nativeCksum a nByte aIn =
     (let s = (case aIn of Some s \<Rightarrow> s | None \<Rightarrow> (0, 0));
          aData = word32 big a
      in if \<not> nativeCksum then cksum_loop (\<lambda>k. BYTESWAP32 (aData k)) (nByte div 8) 0 s
         else if nByte mod 64 = 0 then cksum_loop8 aData (nByte div 64) 0 s
         else cksum_loop aData (nByte div 8) 0 s)"

section \<open>Frame headers\<close>

text \<open>sqlite3Put4byte at \<open>&p[n]\<close>.\<close>

definition put4_at :: "mem \<Rightarrow> nat \<Rightarrow> u32 \<Rightarrow> mem" where
  "put4_at p n v = (\<lambda>i. if i < n then p i else sqlite3Put4byte (off p n) v (i - n))"

definition set_cksum :: "Wal \<Rightarrow> u32 \<times> u32 \<Rightarrow> Wal" where
  "set_cksum pWal ck = pWal\<lparr>hdr := hdr pWal\<lparr>aFrameCksum := ck\<rparr>\<rparr>"

definition walEncodeFrame :: "bool \<Rightarrow> Wal \<Rightarrow> u32 \<Rightarrow> u32 \<Rightarrow> mem \<Rightarrow> mem \<Rightarrow> Wal \<times> mem" where
  "walEncodeFrame big pWal iPage nTruncate aData aFrame =
     (let aFrame = put4_at (put4_at aFrame 0 iPage) 4 nTruncate
      in if iReCksum pWal = 0 then
           (let aFrame = (\<lambda>i. if 8 \<le> i \<and> i < 16 then aSalt (hdr pWal) ! (i - 8) else aFrame i);
                nativeCksum = (bigEndCksum (hdr pWal) = big);
                aCksum = walChecksumBytes big nativeCksum aFrame 8 (Some (aFrameCksum (hdr pWal)));
                aCksum = walChecksumBytes big nativeCksum aData (szPage pWal) (Some aCksum)
            in (set_cksum pWal aCksum, put4_at (put4_at aFrame 16 (fst aCksum)) 20 (snd aCksum)))
         else (pWal, \<lambda>i. if 8 \<le> i \<and> i < 24 then 0 else aFrame i))"

definition walDecodeFrame :: "bool \<Rightarrow> Wal \<Rightarrow> mem \<Rightarrow> mem \<Rightarrow> Wal \<times> (u32 \<times> u32) option" where
  "walDecodeFrame big pWal aData aFrame =
     (if map (off aFrame 8) [0..<8] \<noteq> aSalt (hdr pWal) then (pWal, None)
      else
        (let pgno = sqlite3Get4byte aFrame
         in if pgno = 0 then (pWal, None)
            else
              (let nativeCksum = (bigEndCksum (hdr pWal) = big);
                   aCksum = walChecksumBytes big nativeCksum aFrame 8 (Some (aFrameCksum (hdr pWal)));
                   aCksum = walChecksumBytes big nativeCksum aData (szPage pWal) (Some aCksum);
                   pWal = set_cksum pWal aCksum
               in if fst aCksum \<noteq> sqlite3Get4byte (off aFrame 16) \<or> snd aCksum \<noteq> sqlite3Get4byte (off aFrame 20)
                  then (pWal, None)
                  else (pWal, Some (pgno, sqlite3Get4byte (off aFrame 4))))))"

section \<open>The checksum\<close>

lemma byte_bit [simp]: "8 \<le> n \<Longrightarrow> \<not> bit (b :: byte) n"
  by (auto dest: bit_imp_le_length)

lemma byteswap_word32: "BYTESWAP32 (word32 big a k) = word32 (\<not> big) a k"
proof -
  have s: "BYTESWAP32 x = push_bit 24 (x AND 0x000000FF) OR push_bit 8 (x AND 0x0000FF00) OR
     drop_bit 8 (x AND 0x00FF0000) OR drop_bit 24 (x AND 0xFF000000)" for x :: u32
  proof -
    let ?a = "push_bit 24 (x AND 0x000000FF)" and ?b = "push_bit 8 (x AND 0x0000FF00)"
      and ?c = "drop_bit 8 (x AND 0x00FF0000)" and ?d = "drop_bit 24 (x AND 0xFF000000)"
    have "?a AND ?b = 0" "(?a OR ?b) AND ?c = 0" "(?a OR ?b OR ?c) AND ?d = 0"
      by (rule bits_eq32, simp add: upt_32 bit_simps)+
    then show ?thesis by (simp add: BYTESWAP32_def disjunctive_add_eq_or or.assoc)
  qed
  show ?thesis unfolding s
    by (rule bits_eq32) (cases big; simp add: word32_def sqlite3Get4byte_def upt_32 bit_simps)
qed

text \<open>The value all three loops compute: the checksum reads words in the byte order of the log.\<close>

definition checksum :: "bool \<Rightarrow> mem \<Rightarrow> nat \<Rightarrow> u32 \<times> u32 \<Rightarrow> u32 \<times> u32" where
  "checksum bigEnd a nByte = cksum_loop (word32 bigEnd a) (nByte div 8) 0"

lemma loop8_loop: "cksum_loop8 w n k s = cksum_loop w (8 * n) k s"
proof (induction n arbitrary: k s)
  case (Suc n)
  have e: "8 * Suc n = Suc (Suc (Suc (Suc (Suc (Suc (Suc (Suc (8 * n))))))))" by simp
  show ?case unfolding e
    by (cases s) (simp only: cksum_loop.simps cksum_loop8.simps Let_def Suc.IH add.assoc [of k]
        numeral_plus_numeral numeral_plus_one add_num_simps)
qed simp

lemma walChecksum_eq: "walChecksumBytes big (be = big) a n (Some s) = checksum be a n s"
proof (cases "be = big")
  case True
  moreover have "n div 8 = 8 * (n div 64)" if "n mod 64 = 0"
  proof -
    from that obtain m where "n = 64 * m" using mod_0_imp_dvd dvdE by blast
    then show ?thesis by simp
  qed
  ultimately show ?thesis by (auto simp: walChecksumBytes_def checksum_def Let_def loop8_loop)
next
  case False
  then have b: "be = (\<not> big)" by blast
  show ?thesis unfolding b by (simp add: walChecksumBytes_def checksum_def Let_def byteswap_word32)
qed

text \<open>Each step of the checksum can be undone, so two different states stay different.\<close>

lemma cksum_step_state:
  fixes s1 s2 t1 t2 x y :: u32
  assumes "(s1 + (x + s2), s2 + (y + (s1 + (x + s2)))) = (t1 + (x + t2), t2 + (y + (t1 + (x + t2))))"
  shows "s1 = t1 \<and> s2 = t2"
proof -
  have a: "s1 + (x + s2) = t1 + (x + t2)" and b: "s2 + (y + (s1 + (x + s2))) = t2 + (y + (t1 + (x + t2)))"
    using assms by blast+
  from b have "s2 = t2" unfolding a by (rule add_right_imp_eq)
  with a show ?thesis using add_right_imp_eq by blast
qed

lemma cksum_step_data:
  fixes s1 s2 x y x' y' :: u32
  assumes "(s1 + (x + s2), s2 + (y + (s1 + (x + s2)))) = (s1 + (x' + s2), s2 + (y' + (s1 + (x' + s2))))"
  shows "x = x' \<and> y = y'"
proof -
  have a: "s1 + (x + s2) = s1 + (x' + s2)" and b: "s2 + (y + (s1 + (x + s2))) = s2 + (y' + (s1 + (x' + s2)))"
    using assms by blast+
  from a have "x = x'" using add_left_imp_eq add_right_imp_eq by blast
  moreover from b have "y = y'" unfolding a using add_left_imp_eq add_right_imp_eq by blast
  ultimately show ?thesis ..
qed

lemma cksum_loop_inj:
  "cksum_loop w n k s = cksum_loop w n k t \<Longrightarrow> s = t"
proof (induction n arbitrary: k s t)
  case (Suc n)
  obtain s1 s2 t1 t2 where st: "s = (s1, s2)" "t = (t1, t2)" by fastforce
  have "(s1 + (w k + s2), s2 + (w (k + 1) + (s1 + (w k + s2)))) = (t1 + (w k + t2), t2 + (w (k + 1) + (t1 + (w k + t2))))"
    using Suc.prems by - (rule Suc.IH, simp only: st Let_def cksum_loop.simps)
  from cksum_step_state [OF this] show ?case by (simp add: st)
qed simp

lemma cksum_loop_cong:
  "(\<And>j. k \<le> j \<Longrightarrow> j < k + 2 * n \<Longrightarrow> w j = w' j) \<Longrightarrow> cksum_loop w n k s = cksum_loop w' n k s"
proof (induction n arbitrary: k s)
  case (Suc n)
  have "w k = w' k" "w (k + 1) = w' (k + 1)" using Suc.prems by auto
  moreover have "cksum_loop w n (k + 2) t = cksum_loop w' n (k + 2) t" for t
    by (rule Suc.IH) (use Suc.prems in auto)
  ultimately show ?case by (cases s) (simp add: Let_def)
qed simp

text \<open>A change confined to two adjacent words changes the checksum.\<close>

lemma cksum_detects:
  "p < n \<Longrightarrow> (\<And>j. k \<le> j \<Longrightarrow> j < k + 2 * n \<Longrightarrow> j \<noteq> k + 2 * p \<Longrightarrow> j \<noteq> k + 2 * p + 1 \<Longrightarrow> w j = w' j) \<Longrightarrow>
   cksum_loop w n k s = cksum_loop w' n k s \<Longrightarrow> w (k + 2 * p) = w' (k + 2 * p) \<and> w (k + 2 * p + 1) = w' (k + 2 * p + 1)"
proof (induction n arbitrary: k s p)
  case (Suc n)
  obtain s1 s2 where s: "s = (s1, s2)" by fastforce
  show ?case
  proof (cases p)
    case 0
    have "cksum_loop w n (k + 2) t = cksum_loop w' n (k + 2) t" for t
      by (rule cksum_loop_cong) (use Suc.prems(2) 0 in auto)
    with Suc.prems(3) have "(s1 + (w k + s2), s2 + (w (k + 1) + (s1 + (w k + s2)))) = (s1 + (w' k + s2), s2 + (w' (k + 1) + (s1 + (w' k + s2))))"
      by - (rule cksum_loop_inj [of w' n "k + 2"], simp only: s Let_def cksum_loop.simps)
    from cksum_step_data [OF this] show ?thesis using 0 by simp
  next
    case (Suc q)
    have "w k = w' k" "w (k + 1) = w' (k + 1)" using Suc.prems(2) Suc by auto
    with Suc.prems(3) have "cksum_loop w n (k + 2) (s1 + (w k + s2), s2 + (w (k + 1) + (s1 + (w k + s2)))) =
        cksum_loop w' n (k + 2) (s1 + (w k + s2), s2 + (w (k + 1) + (s1 + (w k + s2))))"
      by (simp only: s Let_def cksum_loop.simps)
    from Suc.IH [OF _ _ this, of q] Suc.prems(1,2) Suc show ?thesis by (auto simp: add.assoc)
  qed
qed simp

lemma word32_inj:
  assumes "word32 be a k = word32 be b k" and "i < 4"
  shows "a (4 * k + i) = b (4 * k + i)"
proof -
  have bytes: "c (4 * k) = (if be then ucast (drop_bit 24 (word32 be c k)) else ucast (word32 be c k))"
    "c (4 * k + 1) = (if be then ucast (drop_bit 16 (word32 be c k)) else ucast (drop_bit 8 (word32 be c k)))"
    "c (4 * k + 2) = (if be then ucast (drop_bit 8 (word32 be c k)) else ucast (drop_bit 16 (word32 be c k)))"
    "c (4 * k + 3) = (if be then ucast (word32 be c k) else ucast (drop_bit 24 (word32 be c k)))" for c
    by (cases be; rule bit_word_eqI; auto simp: word32_def sqlite3Get4byte_def bit_simps)+
  have "i = 0 \<or> i = 1 \<or> i = 2 \<or> i = 3" using assms(2) by auto
  then show ?thesis
    by (elim disjE) (simp_all only: add_0_right bytes [of a] bytes [of b] assms(1))
qed

lemma word32_pair_inj:
  assumes "word32 be a (2 * p) = word32 be b (2 * p)" and "word32 be a (2 * p + 1) = word32 be b (2 * p + 1)"
    and "8 * p \<le> j" and "j < 8 * p + 8"
  shows "a j = b j"
proof (cases "j < 8 * p + 4")
  case True
  then have "a (4 * (2 * p) + (j - 8 * p)) = b (4 * (2 * p) + (j - 8 * p))" using assms(3) by (intro word32_inj [OF assms(1)]) auto
  then show ?thesis using assms(3) by simp
next
  case False
  have "a (4 * (2 * p + 1) + (j - (8 * p + 4))) = b (4 * (2 * p + 1) + (j - (8 * p + 4)))"
    using assms(4) by (intro word32_inj [OF assms(2)]) auto
  moreover have "4 * (2 * p + 1) + (j - (8 * p + 4)) = j" using False by simp
  ultimately show ?thesis by simp
qed

section \<open>Frames\<close>

lemma get4_cong: "(\<And>i. i < 4 \<Longrightarrow> p i = q i) \<Longrightarrow> sqlite3Get4byte p = sqlite3Get4byte q"
  by (simp add: sqlite3Get4byte_def)

lemma get4_put4: "sqlite3Get4byte (off (put4_at p n v) n) = v"
proof -
  have "sqlite3Get4byte (off (put4_at p n v) n) = sqlite3Get4byte (sqlite3Put4byte (off p n) v)"
    by (rule get4_cong) (simp add: put4_at_def)
  then show ?thesis by (simp only: get4byte_put4byte [THEN conjunct1])
qed

lemma put4_other: "i < n \<or> n + 4 \<le> i \<Longrightarrow> put4_at p n v i = p i"
  by (auto simp: put4_at_def sqlite3Put4byte_def)

lemma get4_put4_other: "m + 4 \<le> n \<or> n + 4 \<le> m \<Longrightarrow> sqlite3Get4byte (off (put4_at p n v) m) = sqlite3Get4byte (off p m)"
  by (rule get4_cong) (auto intro: put4_other)

lemma checksum_cong: "(\<And>i. i < n \<Longrightarrow> a i = b i) \<Longrightarrow> checksum be a n s = checksum be b n s"
proof -
  assume ab: "\<And>i. i < n \<Longrightarrow> a i = b i"
  have "word32 be a j = word32 be b j" if "j < 2 * (n div 8)" for j
  proof -
    have "4 * j + 3 < n" using that by linarith
    then show ?thesis using ab by (simp add: word32_def sqlite3Get4byte_def)
  qed
  then show ?thesis unfolding checksum_def by (intro cksum_loop_cong) simp
qed

text \<open>The checksum of a frame: the first eight bytes of the header, then the page.\<close>

definition frame_cksum :: "Wal \<Rightarrow> mem \<Rightarrow> mem \<Rightarrow> u32 \<times> u32" where
  "frame_cksum w aData aFrame =
     checksum (bigEndCksum (hdr w)) aData (szPage w) (checksum (bigEndCksum (hdr w)) aFrame 8 (aFrameCksum (hdr w)))"

lemma decode_eq:
  "walDecodeFrame big w aData f =
     (if map (off f 8) [0..<8] \<noteq> aSalt (hdr w) \<or> sqlite3Get4byte f = 0 then (w, None)
      else (set_cksum w (frame_cksum w aData f),
        if frame_cksum w aData f = (sqlite3Get4byte (off f 16), sqlite3Get4byte (off f 20))
        then Some (sqlite3Get4byte f, sqlite3Get4byte (off f 4)) else None))"
  by (cases "frame_cksum w aData f") (auto simp: walDecodeFrame_def walChecksum_eq frame_cksum_def Let_def)

lemma encode_frame:
  assumes "iReCksum w = 0" and "length (aSalt (hdr w)) = 8" and "walEncodeFrame big w pgno nTrunc aData buf = (w', f)"
  shows "map (off f 8) [0..<8] = aSalt (hdr w)" "sqlite3Get4byte f = pgno" "sqlite3Get4byte (off f 4) = nTrunc"
    "frame_cksum w aData f = (sqlite3Get4byte (off f 16), sqlite3Get4byte (off f 20))"
    "w' = set_cksum w (frame_cksum w aData f)"
proof -
  define g where "g = (\<lambda>i. if 8 \<le> i \<and> i < 16 then aSalt (hdr w) ! (i - 8) else put4_at (put4_at buf 0 pgno) 4 nTrunc i)"
  have f: "f = put4_at (put4_at g 16 (fst (frame_cksum w aData g))) 20 (snd (frame_cksum w aData g))"
    and w: "w' = set_cksum w (frame_cksum w aData g)"
    using assms(1,3) by (auto simp: walEncodeFrame_def g_def walChecksum_eq frame_cksum_def Let_def)
  have fg: "f i = g i" if "i < 16" for i using that by (simp add: f put4_other)
  have c: "frame_cksum w aData f = frame_cksum w aData g"
    unfolding frame_cksum_def using checksum_cong [of 8 f g] fg by simp
  show "w' = set_cksum w (frame_cksum w aData f)" by (simp add: w c)
  show "map (off f 8) [0..<8] = aSalt (hdr w)"
    using assms(2) by (intro nth_equalityI) (auto simp: fg g_def)
  have g0: "sqlite3Get4byte g = sqlite3Get4byte (off (put4_at (put4_at buf 0 pgno) 4 nTrunc) 0)"
    by (rule get4_cong) (simp add: g_def)
  have "sqlite3Get4byte f = sqlite3Get4byte g" by (rule get4_cong) (simp add: fg)
  then show "sqlite3Get4byte f = pgno"
    using get4_put4 [of buf 0 pgno] get4_put4_other [of 0 4 "put4_at buf 0 pgno" nTrunc] g0 by simp
  have "sqlite3Get4byte (off f 4) = sqlite3Get4byte (off (put4_at (put4_at buf 0 pgno) 4 nTrunc) 4)"
    by (rule get4_cong) (simp add: fg g_def)
  then show "sqlite3Get4byte (off f 4) = nTrunc" by (simp add: get4_put4)
  have "sqlite3Get4byte (off f 16) = fst (frame_cksum w aData g)" unfolding f
    using get4_put4_other [of 16 20] get4_put4 by simp
  moreover have "sqlite3Get4byte (off f 20) = snd (frame_cksum w aData g)" unfolding f by (rule get4_put4)
  ultimately show "frame_cksum w aData f = (sqlite3Get4byte (off f 16), sqlite3Get4byte (off f 20))" by (simp add: c)
qed

section \<open>The properties\<close>

text \<open>C36: a frame written by one connection is decoded by another that is at the same point of the
  log (same salt, checksum so far, page size and byte order of the log), whatever the byte orders
  of their machines: the page number and the size come back and both checksums go on alike.\<close>

theorem walFrame_roundtrip:
  assumes "iReCksum w = 0" and "length (aSalt (hdr w)) = 8" and "pgno \<noteq> 0"
    and "walEncodeFrame big1 w pgno nTruncate aData aFrame = (w', f)"
    and "bigEndCksum (hdr r) = bigEndCksum (hdr w)" and "aSalt (hdr r) = aSalt (hdr w)"
    and "aFrameCksum (hdr r) = aFrameCksum (hdr w)" and "szPage r = szPage w"
  shows "walDecodeFrame big2 r aData f = (set_cksum r (aFrameCksum (hdr w')), Some (pgno, nTruncate))"
proof -
  note e = encode_frame [OF assms(1,2,4)]
  have c: "frame_cksum r aData f = frame_cksum w aData f" using assms(5-8) by (simp add: frame_cksum_def)
  show ?thesis unfolding decode_eq c using e assms(3,6) by (simp add: set_cksum_def)
qed

text \<open>C14: a torn or corrupted frame is rejected: when a frame (header and page, as they lie in the
  file) decodes and a second one differs from it in bytes of one aligned group of eight only, the
  second one does not decode.\<close>

theorem walFrame_detects:
  assumes "snd (walDecodeFrame big w (\<lambda>i. f (24 + i)) f) \<noteq> None" and "8 dvd szPage w"
    and "u < (24 + szPage w) div 8" and "\<forall>i < 24 + szPage w. i div 8 \<noteq> u \<longrightarrow> g i = f i"
    and "8 * u \<le> j \<and> j < 8 * u + 8 \<and> g j \<noteq> f j"
  shows "snd (walDecodeFrame big w (\<lambda>i. g (24 + i)) g) = None"
proof (rule ccontr)
  assume n: "\<not> ?thesis"
  let ?be = "bigEndCksum (hdr w)" and ?h = "\<lambda>f. checksum (bigEndCksum (hdr w)) f 8 (aFrameCksum (hdr w))"
  have Sf: "map (off f 8) [0..<8] = aSalt (hdr w)" and Sg: "map (off g 8) [0..<8] = aSalt (hdr w)"
    and F: "frame_cksum w (off f 24) f = (sqlite3Get4byte (off f 16), sqlite3Get4byte (off f 20))"
    and G: "frame_cksum w (off g 24) g = (sqlite3Get4byte (off g 16), sqlite3Get4byte (off g 20))"
    using assms(1) n unfolding decode_eq by (auto simp del: upt_rec_numeral split: if_splits)
  have S: "map (off f 8) [0..<8] = map (off g 8) [0..<8]" using Sf Sg by simp
  have same: "g i = f i" if "i < 24 + szPage w" "i div 8 \<noteq> u" for i using assms(4) that by blast
  have sz: "szPage w = 8 * (szPage w div 8)" using assms(2) by simp
  have diff: "g j \<noteq> f j" "j div 8 = u" using assms(5) by auto
  have head: "?h g = ?h f" if "u \<noteq> 0" by (rule checksum_cong) (use that same in auto)
  have page: "checksum ?be (off g 24) (szPage w) s = checksum ?be (off f 24) (szPage w) s" if "u < 3" for s
    by (rule checksum_cong) (use that same in auto)
  have tail: "(sqlite3Get4byte (off g 16), sqlite3Get4byte (off g 20)) = (sqlite3Get4byte (off f 16), sqlite3Get4byte (off f 20))"
    if "u \<noteq> 2" using that same by (auto intro!: get4_cong)
  consider "u = 0" | "u = 1" | "u = 2" | "3 \<le> u" by linarith
  then show False
  proof cases
    case 1
    have "?h g = ?h f"
    proof (rule cksum_loop_inj)
      show "cksum_loop (word32 ?be (off g 24)) (szPage w div 8) 0 (?h g) = cksum_loop (word32 ?be (off g 24)) (szPage w div 8) 0 (?h f)"
        using F G tail page 1 by (simp add: frame_cksum_def checksum_def)
    qed
    then have "cksum_loop (word32 ?be g) 1 0 (aFrameCksum (hdr w)) = cksum_loop (word32 ?be f) 1 0 (aFrameCksum (hdr w))"
      by (simp add: checksum_def)
    from cksum_detects [OF _ _ this, of 0] have "word32 ?be g 0 = word32 ?be f 0" "word32 ?be g 1 = word32 ?be f 1" by auto
    then have "g j = f j" using word32_pair_inj [of ?be g 0 f j] assms(5) 1 by simp
    then show False using diff by simp
  next
    case 2
    have "g j = f j" using arg_cong [OF S, of "\<lambda>xs. xs ! (j - 8)"] assms(5) 2 by auto
    then show False using diff by simp
  next
    case 3
    have "sqlite3Get4byte (off g 16) = sqlite3Get4byte (off f 16)" "sqlite3Get4byte (off g 20) = sqlite3Get4byte (off f 20)"
      using F G head page 3 by (simp_all add: frame_cksum_def)
    then have "word32 True g 4 = word32 True f 4" "word32 True g 5 = word32 True f 5" by (simp_all add: word32_def)
    then have "g j = f j" using word32_pair_inj [of True g 2 f j] assms(5) 3 by simp
    then show False using diff by simp
  next
    case 4
    let ?p = "u - 3"
    have p: "?p < szPage w div 8" using assms(3) 4 sz by linarith
    have "cksum_loop (word32 ?be (off g 24)) (szPage w div 8) 0 (?h f) = cksum_loop (word32 ?be (off f 24)) (szPage w div 8) 0 (?h f)"
      using F G tail head 4 by (simp add: frame_cksum_def checksum_def)
    moreover have "word32 ?be (off g 24) i = word32 ?be (off f 24) i" if "i < 2 * (szPage w div 8)" "i \<noteq> 2 * ?p" "i \<noteq> 2 * ?p + 1" for i
    proof -
      have "(24 + 4 * i + k) div 8 \<noteq> u" if "k < 4" for k using that \<open>i \<noteq> 2 * ?p\<close> \<open>i \<noteq> 2 * ?p + 1\<close> 4 by linarith
      moreover have "24 + 4 * i + k < 24 + szPage w" if "k < 4" for k using that \<open>i < 2 * (szPage w div 8)\<close> sz by linarith
      ultimately have "g (24 + 4 * i + k) = f (24 + 4 * i + k)" if "k < 4" for k using same that by blast
      from this [of 0] this [of 1] this [of 2] this [of 3] show ?thesis by (simp add: word32_def sqlite3Get4byte_def add.assoc)
    qed
    ultimately have "word32 ?be (off g 24) (2 * ?p) = word32 ?be (off f 24) (2 * ?p)"
      "word32 ?be (off g 24) (2 * ?p + 1) = word32 ?be (off f 24) (2 * ?p + 1)"
      using cksum_detects [of ?p "szPage w div 8" 0 "word32 ?be (off g 24)" "word32 ?be (off f 24)" "?h f"] p by auto
    then have "off g 24 (j - 24) = off f 24 (j - 24)" by (rule word32_pair_inj) (use assms(5) 4 in auto)
    then show False using diff assms(5) 4 by simp
  qed
qed

text \<open>A handle and a page of 8 bytes on which both properties are applied.\<close>

definition demo_wal :: Wal where
  "demo_wal = \<lparr>hdr = \<lparr>iChange = 0, bigEndCksum = False, hdr_szPage = 8, mxFrame = 0, nPage = 1, aFrameCksum = (1, 2),
       aSalt = [1, 2, 3, 4, 5, 6, 7, 8]\<rparr>,
     szPage = 8, readLock = 0, bShmUnreliable = False, minFrame = 1, iReCksum = 0, nCkpt = 0\<rparr>"

lemma walFrame_roundtrip_witness:
  "walDecodeFrame True demo_wal (\<lambda>i. of_nat i) (snd (walEncodeFrame False demo_wal 7 9 (\<lambda>i. of_nat i) (\<lambda>_. 0))) =
     (set_cksum demo_wal (aFrameCksum (hdr (fst (walEncodeFrame False demo_wal 7 9 (\<lambda>i. of_nat i) (\<lambda>_. 0))))), Some (7, 9))"
  by (rule walFrame_roundtrip [of demo_wal 7 False 9 "\<lambda>i. of_nat i" "\<lambda>_. 0"]) (simp_all add: demo_wal_def)

definition demo_frame :: mem where
  "demo_frame = (\<lambda>i. if i < 24 then snd (walEncodeFrame False demo_wal 7 9 (\<lambda>i. of_nat i) (\<lambda>_. 0)) i else of_nat (i - 24))"

lemma demo_decodes: "snd (walDecodeFrame True demo_wal (off demo_frame 24) demo_frame) \<noteq> None"
proof -
  obtain w f where wf: "walEncodeFrame False demo_wal 7 9 (\<lambda>i. of_nat i) (\<lambda>_. 0) = (w, f)" by fastforce
  have d: "iReCksum demo_wal = 0" "length (aSalt (hdr demo_wal)) = 8" by (simp_all add: demo_wal_def)
  have o: "off demo_frame 24 = (\<lambda>i. of_nat i)" by (simp add: demo_frame_def)
  have f: "demo_frame i = f i" if "i < 24" for i using that wf by (simp add: demo_frame_def)
  have g: "sqlite3Get4byte (off demo_frame k) = sqlite3Get4byte (off f k)" if "k \<le> 20" for k
    by (rule get4_cong) (use that in \<open>simp add: f\<close>)
  have s: "map (off demo_frame 8) [0..<8] = map (off f 8) [0..<8]" by (rule map_cong) (auto simp: f)
  have c: "frame_cksum demo_wal (\<lambda>i. of_nat i) demo_frame = frame_cksum demo_wal (\<lambda>i. of_nat i) f"
    unfolding frame_cksum_def using checksum_cong [of 8 demo_frame f] f by simp
  show ?thesis unfolding decode_eq o s c using encode_frame [OF d wf] g [of 0] g [of 4] g [of 16] g [of 20] by simp
qed

lemma walFrame_detects_witness:
  "snd (walDecodeFrame True demo_wal (\<lambda>i. (demo_frame(25 := 99)) (24 + i)) (demo_frame(25 := 99))) = None"
  by (rule walFrame_detects [OF demo_decodes, of 3 _ 25]) (auto simp: demo_wal_def demo_frame_def)

end
