(* ===== verification/Wal_Index.thy ===== *)
theory Wal_Index
  imports Wal_Frame
begin

text \<open>
  The wal-index (wal.c in sqlite3.c): the hash tables in shared memory that map a page of the
  database to the last frame of the log that holds it. \<open>apWiData\<close> maps the number of a page of
  the wal-index to its two arrays; the header that precedes the first array is not part of it.
  \<open>map_rc\<close> is the result of walIndexPage for each page: no pointer comes with an error.
  Frame numbers are natural numbers, so the model is that of logs of fewer than 2^32 - 4096 frames.
\<close>

section \<open>Hash tables\<close>

definition HASHTABLE_NPAGE :: nat where "HASHTABLE_NPAGE = 4096"
definition HASHTABLE_HASH_1 :: nat where "HASHTABLE_HASH_1 = 383"
definition HASHTABLE_NSLOT :: nat where "HASHTABLE_NSLOT = HASHTABLE_NPAGE * 2"
definition WALINDEX_HDR_SIZE :: nat where "WALINDEX_HDR_SIZE = 48 * 2 + 40"
definition HASHTABLE_NPAGE_ONE :: nat where "HASHTABLE_NPAGE_ONE = HASHTABLE_NPAGE - WALINDEX_HDR_SIZE div 4"

lemma table_sizes [simp]:
  "HASHTABLE_NPAGE = 4096" "HASHTABLE_NSLOT = 8192" "HASHTABLE_NPAGE_ONE = 4062"
  by (simp_all add: HASHTABLE_NPAGE_def HASHTABLE_NSLOT_def HASHTABLE_NPAGE_ONE_def WALINDEX_HDR_SIZE_def)

record wi_page =
  aPgno :: "u32 list"
  aHash :: "nat list"

type_synonym wi_data = "nat \<Rightarrow> wi_page"

definition walHash :: "u32 \<Rightarrow> nat" where
  "walHash iPage = unat ((iPage * of_nat HASHTABLE_HASH_1) AND of_nat (HASHTABLE_NSLOT - 1))"

definition walNextHash :: "nat \<Rightarrow> nat" where
  "walNextHash iPriorHash = (iPriorHash + 1) AND (HASHTABLE_NSLOT - 1)"

text \<open>walHashGet: the frame number before the first one that table \<open>iHash\<close> indexes.\<close>

definition iZero :: "nat \<Rightarrow> nat" where
  "iZero iHash = (if iHash = 0 then 0 else HASHTABLE_NPAGE_ONE + (iHash - 1) * HASHTABLE_NPAGE)"

definition walHashGet :: "(nat \<Rightarrow> int) \<Rightarrow> nat \<Rightarrow> int \<times> nat" where
  "walHashGet map_rc iHash = (map_rc iHash, iZero iHash)"

definition walFramePage :: "nat \<Rightarrow> nat" where
  "walFramePage iFrame = (iFrame + HASHTABLE_NPAGE - HASHTABLE_NPAGE_ONE - 1) div HASHTABLE_NPAGE"

definition walFramePgno :: "wi_data \<Rightarrow> nat \<Rightarrow> u32" where
  "walFramePgno apWiData iFrame =
     (let iHash = walFramePage iFrame
      in if iHash = 0 then aPgno (apWiData 0) ! (iFrame - 1)
         else aPgno (apWiData iHash) ! ((iFrame - 1 - HASHTABLE_NPAGE_ONE) mod HASHTABLE_NPAGE))"

section \<open>Changing the tables\<close>

definition cleanup_table :: "nat \<Rightarrow> wi_page \<Rightarrow> wi_page" where
  "cleanup_table iLimit t =
     \<lparr>aPgno = take iLimit (aPgno t) @ replicate (length (aPgno t) - iLimit) 0,
      aHash = map (\<lambda>v. if v > iLimit then 0 else v) (aHash t)\<rparr>"

text \<open>The table of frame mxFrame is mapped already, as the source says.\<close>

definition walCleanupHash :: "Wal \<Rightarrow> wi_data \<Rightarrow> wi_data" where
  "walCleanupHash pWal apWiData =
     (if mxFrame (hdr pWal) = 0 then apWiData
      else
        (let i = walFramePage (mxFrame (hdr pWal));
             iLimit = mxFrame (hdr pWal) - iZero i
         in apWiData(i := cleanup_table iLimit (apWiData i))))"

text \<open>The first free slot from \<open>iKey\<close> on, past at most \<open>nCollide\<close> others.\<close>

fun free_key :: "nat \<Rightarrow> nat list \<Rightarrow> nat \<Rightarrow> nat option" where
  "free_key nCollide hs iKey =
     (if hs ! iKey = 0 then Some iKey
      else (case nCollide of 0 \<Rightarrow> None | Suc n \<Rightarrow> free_key n hs (walNextHash iKey)))"

declare free_key.simps [simp del]

definition zero_table :: "wi_page \<Rightarrow> wi_page" where
  "zero_table t = \<lparr>aPgno = replicate (length (aPgno t)) 0, aHash = replicate HASHTABLE_NSLOT 0\<rparr>"

definition walIndexAppend :: "(nat \<Rightarrow> int) \<Rightarrow> Wal \<Rightarrow> wi_data \<Rightarrow> nat \<Rightarrow> u32 \<Rightarrow> int \<times> wi_data" where
  "walIndexAppend map_rc pWal apWiData iFrame iPage =
     (let (rc, z) = walHashGet map_rc (walFramePage iFrame);
          i = walFramePage iFrame
      in if rc \<noteq> SQLITE_OK then (rc, apWiData)
         else
           (let idx = iFrame - z;
                apWiData = (if idx = 1 then apWiData(i := zero_table (apWiData i)) else apWiData);
                apWiData = (if aPgno (apWiData i) ! (idx - 1) \<noteq> 0 then walCleanupHash pWal apWiData else apWiData);
                t = apWiData i
            in case free_key idx (aHash t) (walHash iPage) of
                 None \<Rightarrow> (SQLITE_CORRUPT, apWiData)
               | Some iKey \<Rightarrow>
                   (SQLITE_OK, apWiData(i := \<lparr>aPgno = (aPgno t)[idx - 1 := iPage], aHash = (aHash t)[iKey := idx]\<rparr>))))"

section \<open>Finding a frame\<close>

text \<open>The inner loop, \<open>None\<close> when it has seen more slots than there are.\<close>

fun scan_table :: "Wal \<Rightarrow> u32 \<Rightarrow> nat \<Rightarrow> wi_page \<Rightarrow> nat \<Rightarrow> nat \<Rightarrow> nat \<Rightarrow> nat option" where
  "scan_table pWal pgno z t nCollide iKey iRead =
     (let iH = aHash t ! iKey
      in if iH = 0 then Some iRead
         else
           (let iFrame = iH + z;
                iRead = (if iFrame \<le> mxFrame (hdr pWal) \<and> iFrame \<ge> minFrame pWal \<and> aPgno t ! (iH - 1) = pgno
                         then iFrame else iRead)
            in case nCollide of 0 \<Rightarrow> None | Suc n \<Rightarrow> scan_table pWal pgno z t n (walNextHash iKey) iRead))"

declare scan_table.simps [simp del]

text \<open>The loop over the tables, newest first.\<close>

fun scan_tables :: "(nat \<Rightarrow> int) \<Rightarrow> Wal \<Rightarrow> wi_data \<Rightarrow> u32 \<Rightarrow> nat list \<Rightarrow> int \<times> nat" where
  "scan_tables map_rc pWal apWiData pgno [] = (SQLITE_OK, 0)"
| "scan_tables map_rc pWal apWiData pgno (iHash # hs) =
     (let (rc, z) = walHashGet map_rc iHash
      in if rc \<noteq> SQLITE_OK then (rc, 0)
         else
           (case scan_table pWal pgno z (apWiData iHash) HASHTABLE_NSLOT (walHash pgno) 0 of
              None \<Rightarrow> (SQLITE_CORRUPT, 0)
            | Some iRead \<Rightarrow> if iRead \<noteq> 0 then (SQLITE_OK, iRead) else scan_tables map_rc pWal apWiData pgno hs))"

definition walFindFrame :: "(nat \<Rightarrow> int) \<Rightarrow> Wal \<Rightarrow> wi_data \<Rightarrow> u32 \<Rightarrow> int \<times> nat" where
  "walFindFrame map_rc pWal apWiData pgno =
     (if mxFrame (hdr pWal) = 0 \<or> (readLock pWal = 0 \<and> \<not> bShmUnreliable pWal) then (SQLITE_OK, 0)
      else scan_tables map_rc pWal apWiData pgno
             (rev [walFramePage (minFrame pWal) ..< Suc (walFramePage (mxFrame (hdr pWal)))]))"

text \<open>The linear search the source checks the result against when expensive assertions are on.\<close>

fun linear_search :: "(nat \<Rightarrow> u32) \<Rightarrow> u32 \<Rightarrow> nat \<Rightarrow> nat \<Rightarrow> nat" where
  "linear_search pg pgno lo 0 = 0"
| "linear_search pg pgno lo (Suc f) =
     (if Suc f < lo then 0 else if pg (Suc f) = pgno then Suc f else linear_search pg pgno lo f)"

section \<open>Moving back\<close>

text \<open>
  sqlite3WalUndo: the header is restored from shared memory and the callback is called for the
  frames given up; \<open>xUndo\<close> is a result code for each page number.
\<close>

fun undo_loop :: "(u32 \<Rightarrow> int) \<Rightarrow> wi_data \<Rightarrow> nat list \<Rightarrow> int \<Rightarrow> int \<times> u32 list" where
  "undo_loop xUndo apWiData [] rc = (rc, [])"
| "undo_loop xUndo apWiData (iFrame # fs) rc =
     (if rc = SQLITE_OK then
        (let p = walFramePgno apWiData iFrame; (rc, ps) = undo_loop xUndo apWiData fs (xUndo p) in (rc, p # ps))
      else (rc, []))"

definition sqlite3WalUndo :: "(u32 \<Rightarrow> int) \<Rightarrow> WalIndexHdr \<Rightarrow> Wal \<Rightarrow> wi_data \<Rightarrow> int \<times> u32 list \<times> Wal \<times> wi_data" where
  "sqlite3WalUndo xUndo shared pWal apWiData =
     (let iMax = mxFrame (hdr pWal);
          pWal = pWal\<lparr>hdr := shared\<rparr>;
          (rc, ps) = undo_loop xUndo apWiData [mxFrame shared + 1 ..< Suc iMax] SQLITE_OK
      in (rc, ps, pWal, if iMax \<noteq> mxFrame shared then walCleanupHash pWal apWiData else apWiData))"

text \<open>The four values of a savepoint.\<close>

type_synonym wal_savepoint = "nat \<times> (u32 \<times> u32) \<times> u32"

definition sqlite3WalSavepoint :: "Wal \<Rightarrow> wal_savepoint" where
  "sqlite3WalSavepoint pWal = (mxFrame (hdr pWal), aFrameCksum (hdr pWal), nCkpt pWal)"

definition sqlite3WalSavepointUndo :: "wal_savepoint \<Rightarrow> Wal \<Rightarrow> wi_data \<Rightarrow> wal_savepoint \<times> Wal \<times> wi_data" where
  "sqlite3WalSavepointUndo aWalData pWal apWiData =
     (let (f, ck, n) = aWalData;
          (f, n) = (if n \<noteq> nCkpt pWal then (0, nCkpt pWal) else (f, n))
      in if f < mxFrame (hdr pWal) then
           (let pWal = pWal\<lparr>hdr := hdr pWal\<lparr>mxFrame := f, aFrameCksum := ck\<rparr>\<rparr>
            in ((f, ck, n), pWal, walCleanupHash pWal apWiData))
         else ((f, ck, n), pWal, apWiData))"

end
