(* ===== verification/Wal_Sort.thy ===== *)
theory Wal_Sort
  imports Wal_Index
begin

text \<open>
  The iterator a checkpoint uses (wal.c in sqlite3.c): a merge sort of the indices of each table of
  the wal-index by page number, in place, and the walk through the sorted tables. Sublists are
  an offset into the array that is sorted and a length.
\<close>

section \<open>Merging\<close>

definition piece :: "'a list \<Rightarrow> nat \<Rightarrow> nat \<Rightarrow> 'a list" where
  "piece xs i n = take n (drop i xs)"

definition overwrite :: "'a list \<Rightarrow> nat \<Rightarrow> 'a list \<Rightarrow> 'a list" where
  "overwrite xs i ys = take i xs @ ys @ drop (i + length ys) xs"

text \<open>The left list past an entry for page \<open>dbpage\<close>.\<close>

fun skip_left :: "u32 list \<Rightarrow> u32 \<Rightarrow> nat list \<Rightarrow> nat list" where
  "skip_left aContent dbpage [] = []"
| "skip_left aContent dbpage (l # aLeft) = (if aContent ! l = dbpage then aLeft else l # aLeft)"

lemma length_skip_left: "length (skip_left c d ls) \<le> length ls"
  by (cases ls) auto

function merge_loop :: "u32 list \<Rightarrow> nat list \<Rightarrow> nat list \<Rightarrow> nat list" where
  "merge_loop aContent [] [] = []"
| "merge_loop aContent (l # aLeft) [] = l # merge_loop aContent (skip_left aContent (aContent ! l) aLeft) []"
| "merge_loop aContent [] (r # aRight) = r # merge_loop aContent [] aRight"
| "merge_loop aContent (l # aLeft) (r # aRight) =
     (if aContent ! l < aContent ! r
      then l # merge_loop aContent (skip_left aContent (aContent ! l) aLeft) (r # aRight)
      else r # merge_loop aContent (skip_left aContent (aContent ! r) (l # aLeft)) aRight)"
  by pat_completeness auto
termination
proof (relation "measure (\<lambda>(c, ls, rs). length ls + length rs)", goal_cases)
  case (4 c l ls r rs)
  then show ?case using length_skip_left [of c "c ! l" ls] by simp
next
  case (5 c l ls r rs)
  then show ?case using length_skip_left [of c "c ! r" "l # ls"] by (simp only: in_measure prod.case length_Cons)
next
  case (2 c l ls)
  then show ?case using length_skip_left [of c "c ! l" ls] by simp
qed simp_all

text \<open>The array, and the sublist that takes the place of both.\<close>

definition walMerge :: "u32 list \<Rightarrow> nat list \<Rightarrow> nat \<times> nat \<Rightarrow> nat \<times> nat \<Rightarrow> nat list \<times> nat \<times> nat" where
  "walMerge aContent aList left right =
     (let (aLeft, nLeft) = left;
          (aRight, nRight) = right;
          aTmp = merge_loop aContent (piece aList aLeft nLeft) (piece aList aRight nRight)
      in (overwrite aList aLeft aTmp, aLeft, length aTmp))"

section \<open>Sorting\<close>

text \<open>The loop over the bits of \<open>iList\<close> that are set, from the lowest on.\<close>

function merge_up :: "u32 list \<Rightarrow> (nat \<times> nat) list \<Rightarrow> nat \<Rightarrow> nat \<Rightarrow> nat list \<Rightarrow> nat \<times> nat \<Rightarrow> nat \<times> nat list \<times> nat \<times> nat" where
  "merge_up aContent aSub iList iSub aList aMerge =
     (if bit iList iSub then
        (let (aList, aMerge) = walMerge aContent aList (aSub ! iSub) aMerge
         in merge_up aContent aSub iList (iSub + 1) aList aMerge)
      else (iSub, aList, aMerge))"
  by pat_completeness auto
termination
proof (relation "measure (\<lambda>(c, s, k, i, a, m). Suc k - i)", goal_cases)
  case (2 c s k i a m x xa y)
  have "2 ^ i \<le> k"
  proof (rule ccontr)
    assume "\<not> 2 ^ i \<le> k"
    then have "k div 2 ^ i = 0" by simp
    with 2(1) show False by (simp add: bit_iff_odd)
  qed
  then have "i < k" using less_exp [of i] by linarith
  then show ?case by simp
qed simp

declare merge_up.simps [simp del]

fun sort_steps :: "u32 list \<Rightarrow> nat list \<Rightarrow> (nat \<times> nat) list \<times> nat list \<times> nat \<times> nat \<times> nat \<Rightarrow> (nat \<times> nat) list \<times> nat list \<times> nat \<times> nat \<times> nat" where
  "sort_steps aContent [] s = s"
| "sort_steps aContent (iList # is) (aSub, aList, _) =
     (case merge_up aContent aSub iList 0 aList (iList, 1) of
        (iSub, aList, aMerge) \<Rightarrow> sort_steps aContent is (aSub[iSub := aMerge], aList, iSub, aMerge))"

fun merge_rest :: "u32 list \<Rightarrow> (nat \<times> nat) list \<Rightarrow> nat \<Rightarrow> nat list \<Rightarrow> nat list \<Rightarrow> nat \<times> nat \<Rightarrow> nat list \<times> nat \<times> nat" where
  "merge_rest aContent aSub nList [] aList aMerge = (aList, aMerge)"
| "merge_rest aContent aSub nList (iSub # is) aList aMerge =
     (if bit nList iSub then
        (let (aList, aMerge) = walMerge aContent aList (aSub ! iSub) aMerge
         in merge_rest aContent aSub nList is aList aMerge)
      else merge_rest aContent aSub nList is aList aMerge)"

text \<open>The sorted array and the number of its entries that count.\<close>

definition walMergesort :: "u32 list \<Rightarrow> nat list \<Rightarrow> nat \<Rightarrow> nat list \<times> nat" where
  "walMergesort aContent aList nList =
     (let (aSub, aList, iSub, aMerge) = sort_steps aContent [0..<nList] (replicate 13 (0, 0), aList, 0, (0, 0));
          (aList, aMerge) = merge_rest aContent aSub nList [iSub + 1..<13] aList aMerge
      in (aList, snd aMerge))"

section \<open>The iterator\<close>

text \<open>\<open>seg_aPgno\<close> is the number of the table in shared memory that the pointer of that name is to.\<close>

record WalSegment =
  iNext :: nat
  aIndex :: "nat list"
  seg_aPgno :: nat
  nEntry :: nat
  seg_iZero :: nat

record WalIterator =
  iPrior :: u32
  aSegment :: "WalSegment list"

definition seg_page :: "wi_data \<Rightarrow> WalSegment \<Rightarrow> u32" where
  "seg_page ap s = aPgno (ap (seg_aPgno s)) ! (aIndex s ! iNext s)"

text \<open>The inner loop: past the pages up to \<open>iMin\<close>.\<close>

function seg_advance :: "wi_data \<Rightarrow> u32 \<Rightarrow> WalSegment \<Rightarrow> WalSegment" where
  "seg_advance ap iMin s =
     (if iNext s < nEntry s \<and> \<not> seg_page ap s > iMin
      then seg_advance ap iMin (s\<lparr>iNext := iNext s + 1\<rparr>) else s)"
  by pat_completeness auto
termination by (relation "measure (\<lambda>(a, m, s). nEntry s - iNext s)") auto

declare seg_advance.simps [simp del]

text \<open>The loop over the segments, last first; \<open>None\<close> is a \<open>*piFrame\<close> that was not written.\<close>

fun next_loop :: "wi_data \<Rightarrow> u32 \<Rightarrow> WalSegment list \<Rightarrow> u32 \<times> nat option \<Rightarrow> WalSegment list \<times> u32 \<times> nat option" where
  "next_loop ap iMin [] r = ([], r)"
| "next_loop ap iMin (s # ss) (iRet, fr) =
     (let s = seg_advance ap iMin s;
          r = (if iNext s < nEntry s \<and> seg_page ap s < iRet
               then (seg_page ap s, Some (seg_iZero s + aIndex s ! iNext s)) else (iRet, fr));
          (ss, r) = next_loop ap iMin ss r
      in (s # ss, r))"

text \<open>The result is 0 when there is another page.\<close>

definition walIteratorNext :: "wi_data \<Rightarrow> WalIterator \<Rightarrow> int \<times> u32 \<times> nat option \<times> WalIterator" where
  "walIteratorNext ap p =
     (let (ss, iRet, fr) = next_loop ap (iPrior p) (rev (aSegment p)) (0xFFFFFFFF, None)
      in (if iRet = 0xFFFFFFFF then 1 else 0, iRet, fr, p\<lparr>iPrior := iRet, aSegment := rev ss\<rparr>))"

definition zero_segment :: WalSegment where
  "zero_segment = \<lparr>iNext = 0, aIndex = [], seg_aPgno = 0, nEntry = 0, seg_iZero = 0\<rparr>"

fun init_loop :: "(nat \<Rightarrow> int) \<Rightarrow> wi_data \<Rightarrow> nat \<Rightarrow> nat \<Rightarrow> nat list \<Rightarrow> WalSegment list \<Rightarrow> int \<times> WalSegment list" where
  "init_loop map_rc ap iLast nSegment [] segs = (SQLITE_OK, segs)"
| "init_loop map_rc ap iLast nSegment (i # is) segs =
     (let (rc, z) = walHashGet map_rc i
      in if rc \<noteq> SQLITE_OK then (rc, segs)
         else
           (let nEntry = (if i + 1 = nSegment then iLast - z else length (aPgno (ap i)));
                (aIndex, nEntry) = walMergesort (aPgno (ap i)) [0..<nEntry] nEntry
            in init_loop map_rc ap iLast nSegment is
                 (segs[i := \<lparr>iNext = 0, aIndex = aIndex, seg_aPgno = i, nEntry = nEntry, seg_iZero = z + 1\<rparr>])))"

text \<open>\<open>oom\<close> says that the allocation fails.\<close>

definition walIteratorInit :: "(nat \<Rightarrow> int) \<Rightarrow> bool \<Rightarrow> Wal \<Rightarrow> wi_data \<Rightarrow> nat \<Rightarrow> int \<times> WalIterator option" where
  "walIteratorInit map_rc oom pWal ap nBackfill =
     (let iLast = mxFrame (hdr pWal);
          nSegment = walFramePage iLast + 1
      in if oom then (SQLITE_NOMEM, None)
         else
           (case init_loop map_rc ap iLast nSegment [walFramePage (nBackfill + 1)..<nSegment] (replicate nSegment zero_segment) of
              (rc, segs) \<Rightarrow> if rc \<noteq> SQLITE_OK then (rc, None) else (rc, Some \<lparr>iPrior = 0, aSegment = segs\<rparr>)))"

section \<open>Merging is right\<close>

lemma piece_overwrite_before: "k + n \<le> i \<Longrightarrow> i \<le> length xs \<Longrightarrow> piece (overwrite xs i ys) k n = piece xs k n"
  by (simp add: piece_def overwrite_def drop_take min_absorb1)

lemma piece_overwrite_same: "i \<le> length xs \<Longrightarrow> piece (overwrite xs i ys) i (length ys) = ys"
  by (simp add: piece_def overwrite_def)

lemma nth_overwrite_after: "i + length ys \<le> j \<Longrightarrow> j < length xs \<Longrightarrow> overwrite xs i ys ! j = xs ! j"
proof -
  assume a: "i + length ys \<le> j" "j < length xs"
  then have "min (length xs) i = i" "\<not> j < i" "\<not> j - i < length ys" by linarith+
  then show ?thesis using a by (simp only: overwrite_def nth_append length_take if_False nth_drop) simp
qed

lemma length_overwrite: "i + length ys \<le> length xs \<Longrightarrow> length (overwrite xs i ys) = length xs"
  by (simp add: overwrite_def)

abbreviation key_sorted :: "u32 list \<Rightarrow> nat list \<Rightarrow> bool" where
  "key_sorted c \<equiv> sorted_wrt (\<lambda>i j. c ! i < c ! j)"

lemma skip_left_sorted:
  "key_sorted c ls \<Longrightarrow> \<forall>l \<in> set ls. d \<le> c ! l \<Longrightarrow>
     key_sorted c (skip_left c d ls) \<and> set (skip_left c d ls) = {l \<in> set ls. c ! l \<noteq> d}"
  by (cases ls) auto

lemma merge_loop_ok:
  "key_sorted c ls \<Longrightarrow> key_sorted c rs \<Longrightarrow>
     key_sorted c (merge_loop c ls rs) \<and> set (merge_loop c ls rs) = set rs \<union> {l \<in> set ls. \<forall>r \<in> set rs. c ! r \<noteq> c ! l}"
proof (induction c ls rs rule: merge_loop.induct)
  case (2 c l ls)
  have "skip_left c (c ! l) ls = ls" using 2(2) by (cases ls) auto
  with 2 show ?case by auto
next
  case (4 c l ls r rs)
  show ?case
  proof (cases "c ! l < c ! r")
    case True
    have s: "skip_left c (c ! l) ls = ls" using 4(3) by (cases ls) auto
    have IH: "key_sorted c (merge_loop c ls (r # rs))"
      "set (merge_loop c ls (r # rs)) = set (r # rs) \<union> {l \<in> set ls. \<forall>r \<in> set (r # rs). c ! r \<noteq> c ! l}"
      using 4(1) [OF True] 4(3,4) s by simp_all
    have "\<forall>x \<in> set (r # rs). c ! l < c ! x" using True 4(4) by (auto intro: less_trans)
    then have lt: "\<forall>x \<in> set (merge_loop c ls (r # rs)). c ! l < c ! x" "\<forall>x \<in> set (r # rs). c ! x \<noteq> c ! l"
      unfolding IH(2) using 4(3) by auto
    have "merge_loop c (l # ls) (r # rs) = l # merge_loop c ls (r # rs)" using True s by simp
    then show ?thesis using IH lt by (auto simp del: merge_loop.simps)
  next
    case False
    have ge: "\<forall>x \<in> set (l # ls). c ! r \<le> c ! x" using False 4(3) by auto
    have s: "key_sorted c (skip_left c (c ! r) (l # ls))" "set (skip_left c (c ! r) (l # ls)) = {x \<in> set (l # ls). c ! x \<noteq> c ! r}"
      using skip_left_sorted [OF 4(3), of "c ! r"] ge by blast+
    have IH: "key_sorted c (merge_loop c (skip_left c (c ! r) (l # ls)) rs)"
      "set (merge_loop c (skip_left c (c ! r) (l # ls)) rs) = set rs \<union> {x \<in> set (l # ls). c ! x \<noteq> c ! r \<and> (\<forall>y \<in> set rs. c ! y \<noteq> c ! x)}"
      using 4(2) [OF False] 4(4) s by (auto simp del: skip_left.simps)
    from ge have "\<forall>x \<in> set (merge_loop c (skip_left c (c ! r) (l # ls)) rs). c ! r < c ! x"
      unfolding IH(2) using 4(4) by (auto simp: order_le_less)
    moreover have "merge_loop c (l # ls) (r # rs) = r # merge_loop c (skip_left c (c ! r) (l # ls)) rs" using False by simp
    ultimately show ?thesis using IH by (auto simp del: merge_loop.simps skip_left.simps)
  qed
qed auto

text \<open>The sorted indices from \<open>a\<close> to \<open>b\<close>: the last one for each page.\<close>

definition is_index :: "u32 list \<Rightarrow> nat \<Rightarrow> nat \<Rightarrow> nat list \<Rightarrow> bool" where
  "is_index c a b xs \<longleftrightarrow>
     key_sorted c xs \<and> set xs = {i. a \<le> i \<and> i < b \<and> (\<forall>j. i < j \<and> j < b \<longrightarrow> c ! j \<noteq> c ! i)}"

lemma last_index: "a \<le> i \<Longrightarrow> i < b \<Longrightarrow> \<exists>j. a \<le> j \<and> j < b \<and> c ! j = c ! i \<and> (\<forall>k. j < k \<and> k < b \<longrightarrow> c ! k \<noteq> c ! j)"
proof (induction "b - i" arbitrary: i rule: less_induct)
  case less
  show ?case
  proof (cases "\<forall>k. i < k \<and> k < b \<longrightarrow> c ! k \<noteq> c ! i")
    case True
    with less.prems show ?thesis by (intro exI [of _ i]) auto
  next
    case False
    then obtain k where k: "i < k" "k < b" "c ! k = c ! i" by blast
    with less.hyps [of k] less.prems show ?thesis by auto
  qed
qed

lemma merge_index:
  assumes "is_index c a m ls" and "is_index c m b rs" and "a \<le> m" and "m \<le> b"
  shows "is_index c a b (merge_loop c ls rs)"
proof -
  have s: "key_sorted c (merge_loop c ls rs)" "set (merge_loop c ls rs) = set rs \<union> {l \<in> set ls. \<forall>r \<in> set rs. c ! r \<noteq> c ! l}"
    using merge_loop_ok [of c ls rs] assms(1,2) by (auto simp: is_index_def)
  have R: "(\<forall>r \<in> set rs. c ! r \<noteq> c ! l) \<longleftrightarrow> (\<forall>j. m \<le> j \<and> j < b \<longrightarrow> c ! j \<noteq> c ! l)" for l
  proof
    assume h: "\<forall>r \<in> set rs. c ! r \<noteq> c ! l"
    show "\<forall>j. m \<le> j \<and> j < b \<longrightarrow> c ! j \<noteq> c ! l"
    proof (intro allI impI)
      fix j assume "m \<le> j \<and> j < b"
      then obtain k where "m \<le> k" "k < b" "c ! k = c ! j" "\<forall>i. k < i \<and> i < b \<longrightarrow> c ! i \<noteq> c ! k"
        using last_index [of m j b c] by blast
      then have "k \<in> set rs" using assms(2) by (simp add: is_index_def)
      with h \<open>c ! k = c ! j\<close> show "c ! j \<noteq> c ! l" by auto
    qed
  next
    assume "\<forall>j. m \<le> j \<and> j < b \<longrightarrow> c ! j \<noteq> c ! l"
    then show "\<forall>r \<in> set rs. c ! r \<noteq> c ! l" using assms(2) by (simp add: is_index_def)
  qed
  have "set (merge_loop c ls rs) = {i. a \<le> i \<and> i < b \<and> (\<forall>j. i < j \<and> j < b \<longrightarrow> c ! j \<noteq> c ! i)}"
  proof (intro equalityI subsetI)
    fix i assume "i \<in> set (merge_loop c ls rs)"
    then consider "i \<in> set rs" | "i \<in> set ls" "\<forall>j. m \<le> j \<and> j < b \<longrightarrow> c ! j \<noteq> c ! i" unfolding s(2) R by blast
    then show "i \<in> {i. a \<le> i \<and> i < b \<and> (\<forall>j. i < j \<and> j < b \<longrightarrow> c ! j \<noteq> c ! i)}"
    proof cases
      case 1
      then show ?thesis using assms(2,3) by (simp add: is_index_def)
    next
      case 2
      have "c ! j \<noteq> c ! i" if "i < j" "j < b" for j
        using 2 assms(1) that by (cases "j < m") (auto simp: is_index_def)
      then show ?thesis using 2(1) assms(1,4) by (auto simp: is_index_def)
    qed
  next
    fix i assume i: "i \<in> {i. a \<le> i \<and> i < b \<and> (\<forall>j. i < j \<and> j < b \<longrightarrow> c ! j \<noteq> c ! i)}"
    show "i \<in> set (merge_loop c ls rs)"
    proof (cases "m \<le> i")
      case True
      then show ?thesis using i assms(2) unfolding s(2) by (simp add: is_index_def)
    next
      case False
      then show ?thesis using i assms(1,4) unfolding s(2) R by (auto simp: is_index_def)
    qed
  qed
  with s(1) show ?thesis by (simp add: is_index_def)
qed


section \<open>The sort\<close>

text \<open>A sublist that is the index of the entries from its offset to \<open>b\<close>.\<close>

definition sub_ok :: "u32 list \<Rightarrow> nat list \<Rightarrow> nat \<times> nat \<Rightarrow> nat \<Rightarrow> bool" where
  "sub_ok c arr s b \<longleftrightarrow> fst s + snd s \<le> length arr \<and> is_index c (fst s) b (piece arr (fst s) (snd s))"

lemma key_sorted_distinct: "key_sorted c xs \<Longrightarrow> distinct xs"
  by (induction xs) auto

lemma is_index_length: "is_index c a b xs \<Longrightarrow> length xs \<le> b - a"
proof -
  assume i: "is_index c a b xs"
  then have "set xs \<subseteq> {a..<b}" by (auto simp: is_index_def)
  then have "card (set xs) \<le> card {a..<b}" by (intro card_mono) simp_all
  moreover have "distinct xs" using i key_sorted_distinct by (auto simp: is_index_def)
  ultimately show ?thesis by (simp add: distinct_card)
qed

lemma sub_ok_length: "sub_ok c arr s b \<Longrightarrow> snd s \<le> b - fst s"
proof -
  assume s: "sub_ok c arr s b"
  then have "length (piece arr (fst s) (snd s)) = snd s" by (auto simp: sub_ok_def piece_def)
  with s is_index_length [of c "fst s" b "piece arr (fst s) (snd s)"] show ?thesis by (simp add: sub_ok_def)
qed

text \<open>What a merge leaves alone.\<close>

definition same_outside :: "nat \<Rightarrow> nat \<Rightarrow> nat list \<Rightarrow> nat list \<Rightarrow> bool" where
  "same_outside a b arr arr' \<longleftrightarrow>
     length arr' = length arr \<and> (\<forall>k n. k + n \<le> a \<longrightarrow> piece arr' k n = piece arr k n) \<and>
     (\<forall>j. b \<le> j \<and> j < length arr \<longrightarrow> arr' ! j = arr ! j)"

lemma sub_ok_outside:
  "sub_ok c arr s m \<Longrightarrow> fst s \<le> m \<Longrightarrow> m \<le> a \<Longrightarrow> same_outside a b arr arr' \<Longrightarrow> sub_ok c arr' s m"
  using sub_ok_length [of c arr s m] by (simp add: sub_ok_def same_outside_def)

lemma same_outside_trans:
  "same_outside a b arr arr' \<Longrightarrow> same_outside a' b arr' arr'' \<Longrightarrow> a' \<le> a \<Longrightarrow> same_outside a' b arr arr''"
  by (simp add: same_outside_def)

lemma walMerge_ok:
  assumes "sub_ok c arr l m" and "sub_ok c arr r b" and "fst r = m" and "fst l \<le> m" and "m \<le> b" and "b \<le> length arr"
  obtains arr' n where "walMerge c arr l r = (arr', fst l, n)" and "sub_ok c arr' (fst l, n) b" and "same_outside (fst l) b arr arr'"
proof -
  let ?t = "merge_loop c (piece arr (fst l) (snd l)) (piece arr m (snd r))"
  let ?a = "overwrite arr (fst l) ?t"
  have i: "is_index c (fst l) b ?t"
    by (rule merge_index [OF _ _ assms(4,5)]) (use assms(1-3) in \<open>simp_all add: sub_ok_def\<close>)
  have len: "fst l + length ?t \<le> b" using is_index_length [OF i] assms(4,5) by linarith
  have "walMerge c arr l r = (?a, fst l, length ?t)"
    using assms(3) by (simp add: walMerge_def split_beta Let_def)
  moreover have "sub_ok c ?a (fst l, length ?t) b"
    using i len assms(6) by (simp add: sub_ok_def piece_overwrite_same length_overwrite)
  moreover have "same_outside (fst l) b arr ?a"
    unfolding same_outside_def
  proof (intro conjI allI impI)
    show "length ?a = length arr" using len assms(6) by (simp add: length_overwrite)
    show "piece ?a k n = piece arr k n" if "k + n \<le> fst l" for k n
      by (rule piece_overwrite_before [OF that]) (use len assms(6) in linarith)
    show "?a ! j = arr ! j" if "b \<le> j \<and> j < length arr" for j
      by (rule nth_overwrite_after) (use len that in linarith)+
  qed
  ultimately show ?thesis by (rule that)
qed

text \<open>\<open>low k i\<close> is \<open>k\<close> without its lowest \<open>i\<close> bits.\<close>

definition low :: "nat \<Rightarrow> nat \<Rightarrow> nat" where
  "low k i = k div 2 ^ i * 2 ^ i"

lemma low_simps: "low k 0 = k" "low k i \<le> k"
  by (simp_all add: low_def)

lemma low_antimono: "i \<le> j \<Longrightarrow> low k j \<le> low k i"
proof -
  assume "i \<le> j"
  then obtain d where j: "j = i + d" using le_Suc_ex by blast
  have "k div 2 ^ j * 2 ^ d \<le> k div 2 ^ i" by (simp add: j power_add div_mult2_eq)
  then have "k div 2 ^ j * 2 ^ d * 2 ^ i \<le> k div 2 ^ i * 2 ^ i" by (rule mult_le_mono1)
  then show ?thesis by (simp add: low_def j power_add mult.assoc mult.commute [of "2 ^ d"])
qed

lemma low_Suc: "low k (Suc i) = (if bit k i then low k i - 2 ^ i else low k i)" "bit k i \<Longrightarrow> 2 ^ i \<le> low k i"
proof -
  have e: "k div 2 ^ Suc i = k div 2 ^ i div 2" by (simp add: div_mult2_eq mult.commute [of 2])
  have "low k (Suc i) = 2 * (k div 2 ^ i div 2) * 2 ^ i" by (simp only: low_def e) simp
  also have "2 * (k div 2 ^ i div 2) = k div 2 ^ i - of_bool (odd (k div 2 ^ i))" by (cases "even (k div 2 ^ i)") (auto elim!: evenE oddE)
  finally show "low k (Suc i) = (if bit k i then low k i - 2 ^ i else low k i)"
    by (simp add: bit_iff_odd low_def diff_mult_distrib)
  show "2 ^ i \<le> low k i" if "bit k i" using odd_pos [of "k div 2 ^ i"] that by (simp add: bit_iff_odd low_def)
qed

text \<open>The sublists of the bits of \<open>k\<close> from \<open>s\<close> on.\<close>

definition subs_ok :: "u32 list \<Rightarrow> nat list \<Rightarrow> (nat \<times> nat) list \<Rightarrow> nat \<Rightarrow> nat \<Rightarrow> bool" where
  "subs_ok c arr aSub k s \<longleftrightarrow>
     length aSub = 13 \<and> (\<forall>i. s \<le> i \<and> i < 13 \<and> bit k i \<longrightarrow> fst (aSub ! i) = low k (Suc i) \<and> sub_ok c arr (aSub ! i) (low k i))"

lemma subs_ok_mono: "subs_ok c arr aSub k s \<Longrightarrow> s \<le> s' \<Longrightarrow> subs_ok c arr aSub k s'"
  by (simp add: subs_ok_def)

lemma subs_ok_outside:
  assumes "subs_ok c arr aSub k s" and "low k s \<le> a" and "same_outside a b arr arr'"
  shows "subs_ok c arr' aSub k s"
  unfolding subs_ok_def
proof (intro conjI allI impI)
  show "length aSub = 13" using assms(1) by (simp add: subs_ok_def)
  fix i assume i: "s \<le> i \<and> i < 13 \<and> bit k i"
  then have s: "fst (aSub ! i) = low k (Suc i)" "sub_ok c arr (aSub ! i) (low k i)"
    using assms(1) by (simp_all add: subs_ok_def)
  show "fst (aSub ! i) = low k (Suc i)" by (rule s)
  show "sub_ok c arr' (aSub ! i) (low k i)"
    by (rule sub_ok_outside [OF s(2) _ _ assms(3)])
      (use s(1) low_antimono [of i "Suc i" k] low_antimono [of s i k] i assms(2) in simp_all)
qed

text \<open>\<open>k\<close> ends in \<open>s\<close> ones.\<close>

definition ones :: "nat \<Rightarrow> nat \<Rightarrow> bool" where
  "ones k s \<longleftrightarrow> low k s + 2 ^ s = k + 1"

lemma ones_0: "ones k 0"
  by (simp add: ones_def low_simps)

lemma ones_Suc: "ones k s \<Longrightarrow> bit k s \<Longrightarrow> ones k (Suc s)"
  using low_Suc(2) [of k s] by (simp add: ones_def low_Suc(1))

lemma ones_bound: "ones k s \<Longrightarrow> k < 4096 \<Longrightarrow> s < 13"
proof (rule ccontr)
  assume o: "ones k s" and k: "k < 4096" and "\<not> s < 13"
  then have "(2::nat) ^ 13 \<le> 2 ^ s" by (intro power_increasing) simp_all
  with o k show False by (simp add: ones_def)
qed

lemma merge_up_ok:
  assumes "subs_ok c arr aSub k s" and "ones k s" and "fst r = low k s" and "sub_ok c arr r (Suc k)"
    and "k < length arr" and "k < 4096"
  shows "\<exists>i arr' r'. merge_up c aSub k s arr r = (i, arr', r') \<and> subs_ok c arr' aSub k i \<and> \<not> bit k i \<and> ones k i \<and>
           fst r' = low k i \<and> sub_ok c arr' r' (Suc k) \<and> length arr' = length arr \<and>
           (\<forall>j. k < j \<and> j < length arr \<longrightarrow> arr' ! j = arr ! j)"
  using assms
proof (induction "13 - s" arbitrary: s arr r rule: less_induct)
  case less
  show ?case
  proof (cases "bit k s")
    case False
    then have "merge_up c aSub k s arr r = (s, arr, r)" by (subst merge_up.simps) simp
    with less.prems False show ?thesis by simp
  next
    case True
    have s: "s < 13" by (rule ones_bound [OF less.prems(2,6)])
    have l: "fst (aSub ! s) = low k (Suc s)" "sub_ok c arr (aSub ! s) (low k s)"
      using less.prems(1) True s by (simp_all add: subs_ok_def)
    have le: "low k (Suc s) \<le> low k s" by (rule low_antimono) simp
    obtain arr' n where m: "walMerge c arr (aSub ! s) r = (arr', fst (aSub ! s), n)" "sub_ok c arr' (fst (aSub ! s), n) (Suc k)"
      "same_outside (fst (aSub ! s)) (Suc k) arr arr'"
      by (rule walMerge_ok [OF l(2) less.prems(4,3)]) (use le l(1) low_simps(2) [of k s] less.prems(5) in simp_all)
    have len: "length arr' = length arr" using m(3) by (simp add: same_outside_def)
    have "\<exists>i arr'' r'. merge_up c aSub k (Suc s) arr' (fst (aSub ! s), n) = (i, arr'', r') \<and> subs_ok c arr'' aSub k i \<and>
       \<not> bit k i \<and> ones k i \<and> fst r' = low k i \<and> sub_ok c arr'' r' (Suc k) \<and> length arr'' = length arr' \<and>
       (\<forall>j. k < j \<and> j < length arr' \<longrightarrow> arr'' ! j = arr' ! j)"
    proof (rule less.hyps)
      show "13 - Suc s < 13 - s" using s by simp
      show "subs_ok c arr' aSub k (Suc s)"
        by (rule subs_ok_outside [OF subs_ok_mono [OF less.prems(1)] _ m(3)]) (simp_all add: l(1))
      show "ones k (Suc s)" by (rule ones_Suc [OF less.prems(2) True])
    qed (use l(1) m(2) len less.prems(5,6) in simp_all)
    moreover have "merge_up c aSub k s arr r = merge_up c aSub k (Suc s) arr' (fst (aSub ! s), n)"
      using True m(1) by (subst merge_up.simps) simp
    ultimately show ?thesis using m(3) len by (auto simp: same_outside_def)
  qed
qed

text \<open>Counting on: the lowest zero of \<open>k\<close> becomes a one.\<close>

lemma count_on:
  assumes "ones k s" and "\<not> bit k s"
  shows "j \<le> s \<Longrightarrow> low (Suc k) j = Suc k"
    and "bit (Suc k) j \<longleftrightarrow> (if j < s then False else if j = s then True else bit k j)"
    and "s < j \<Longrightarrow> low (Suc k) j = low k j"
proof -
  define q where "q = k div 2 ^ s"
  have e: "Suc k = (q + 1) * 2 ^ s" using assms(1) by (simp add: ones_def low_def q_def)
  have q: "even q" using assms(2) by (simp add: bit_iff_odd q_def)
  have hi: "Suc k div 2 ^ j = k div 2 ^ j" if "s < j" for j
  proof -
    obtain d where d: "j = s + (1 + d)" using less_imp_Suc_add [OF \<open>s < j\<close>] by auto
    have "Suc k div 2 ^ s div 2 = q div 2" unfolding e using q by simp
    then show ?thesis unfolding d power_add div_mult2_eq by (simp add: q_def)
  qed
  have lo: "low (Suc k) j = Suc k" if "j \<le> s" for j
  proof -
    obtain d where d: "s = j + d" using \<open>j \<le> s\<close> le_Suc_ex by blast
    have "(2::nat) ^ j dvd Suc k" unfolding e d power_add by simp
    then show ?thesis by (simp add: low_def)
  qed
  then show "low (Suc k) j = Suc k" if "j \<le> s" using that .
  show "bit (Suc k) j \<longleftrightarrow> (if j < s then False else if j = s then True else bit k j)"
  proof -
    have "even (Suc k div 2 ^ j)" if "j < s" for j
    proof -
      obtain d where d: "s = j + (1 + d)" using less_imp_Suc_add [OF \<open>j < s\<close>] by auto
      have "Suc k = (q + 1) * 2 ^ d * 2 * 2 ^ j" unfolding e d power_add by (simp add: algebra_simps)
      then show ?thesis by simp
    qed
    moreover have "odd (Suc k div 2 ^ s)" unfolding e using q by simp
    ultimately show ?thesis using hi [of j] by (auto simp: bit_iff_odd)
  qed
  show "low (Suc k) j = low k j" if "s < j" using hi [OF that] by (simp add: low_def)
qed

lemma subs_ok_count:
  assumes "subs_ok c arr aSub k s" and "ones k s" and "\<not> bit k s" and "s < 13"
    and "fst r = low k s" and "sub_ok c arr r (Suc k)"
  shows "subs_ok c arr (aSub[s := r]) (Suc k) 0"
  unfolding subs_ok_def
proof (intro conjI allI impI)
  have len: "length aSub = 13" using assms(1) by (simp add: subs_ok_def)
  then show "length (aSub[s := r]) = 13" by simp
  have low: "low k (Suc s) = low k s" using assms(3) by (simp add: low_Suc)
  fix j assume "0 \<le> j \<and> j < 13 \<and> bit (Suc k) j"
  then have j: "j < 13" "s \<le> j" "s < j \<longrightarrow> bit k j"
    using count_on(2) [OF assms(2,3), of j] by (auto split: if_splits)
  have "fst (aSub[s := r] ! j) = low (Suc k) (Suc j) \<and> sub_ok c arr (aSub[s := r] ! j) (low (Suc k) j)"
  proof (cases "s = j")
    case True
    then show ?thesis using assms(5,6) j len count_on(1) [OF assms(2,3), of s] count_on(3) [OF assms(2,3), of "Suc s"] low by simp
  next
    case False
    then have sj: "s < j" using j(2) by simp
    then show ?thesis using j assms(1) count_on(3) [OF assms(2,3)] by (simp add: subs_ok_def)
  qed
  then show "fst (aSub[s := r] ! j) = low (Suc k) (Suc j)" "sub_ok c arr (aSub[s := r] ! j) (low (Suc k) j)" by simp_all
qed

lemma is_index_single: "is_index c a (Suc a) [a]"
  by (auto simp: is_index_def)

lemma sort_steps_ok:
  assumes "subs_ok c arr aSub a 0" and "a + n \<le> length arr" and "a + n \<le> 4096" and "\<forall>j. a \<le> j \<and> j < length arr \<longrightarrow> arr ! j = j"
    and "0 < n"
  shows "\<exists>aSub' arr' i r. sort_steps c [a..<a + n] (aSub, arr, x) = (aSub', arr', i, r) \<and> length arr' = length arr \<and> i < 13 \<and>
           subs_ok c arr' aSub' (a + n) (Suc i) \<and> fst r = low (a + n) (Suc i) \<and> sub_ok c arr' r (a + n)"
  using assms
proof (induction n arbitrary: a arr aSub x)
  case (Suc n)
  have a: "a < length arr" using Suc.prems(2) by simp
  have "sub_ok c arr (a, 1) (Suc a)"
    using is_index_single [of c a] a Suc.prems(4) by (simp add: sub_ok_def piece_def take_Suc_conv_app_nth)
  then obtain i arr' r where m: "merge_up c aSub a 0 arr (a, 1) = (i, arr', r)" "subs_ok c arr' aSub a i" "\<not> bit a i" "ones a i"
    "fst r = low a i" "sub_ok c arr' r (Suc a)" "length arr' = length arr" "\<forall>j. a < j \<and> j < length arr \<longrightarrow> arr' ! j = arr ! j"
    using merge_up_ok [OF Suc.prems(1) ones_0, of "(a, 1)"] a Suc.prems(3) by (auto simp: low_simps)
  have i: "i < 13" by (rule ones_bound [OF m(4)]) (use Suc.prems(3) in simp)
  have sub: "subs_ok c arr' (aSub[i := r]) (Suc a) 0" by (rule subs_ok_count [OF m(2,4,3) i m(5,6)])
  have step: "sort_steps c [a..<a + Suc n] (aSub, arr, x) = sort_steps c [Suc a..<Suc a + n] (aSub[i := r], arr', i, r)"
    using m(1) by (cases x) (simp add: upt_conv_Cons del: upt_Suc)
  show ?case
  proof (cases "n = 0")
    case True
    have "low (Suc a) (Suc i) = low a i"
      using count_on(3) [OF m(4,3), of "Suc i"] low_Suc(1) [of a i] m(3) by simp
    moreover have "subs_ok c arr' (aSub[i := r]) (Suc a) (Suc i)" by (rule subs_ok_mono [OF sub]) simp
    ultimately show ?thesis using step True m(5-7) i by simp
  next
    case False
    have "\<exists>aSub'' arr'' i' r'. sort_steps c [Suc a..<Suc a + n] (aSub[i := r], arr', i, r) = (aSub'', arr'', i', r') \<and> length arr'' = length arr' \<and> i' < 13 \<and>
           subs_ok c arr'' aSub'' (Suc a + n) (Suc i') \<and> fst r' = low (Suc a + n) (Suc i') \<and> sub_ok c arr'' r' (Suc a + n)"
      by (rule Suc.IH [OF sub]) (use Suc.prems False m(7,8) in simp_all)
    then show ?thesis using step m(7) by simp
  qed
qed simp

lemma merge_rest_ok:
  assumes "subs_ok c arr aSub n s" and "fst r = low n s" and "sub_ok c arr r n" and "n \<le> length arr" and "s \<le> 13"
  shows "\<exists>arr' r'. merge_rest c aSub n [s..<13] arr r = (arr', r') \<and> length arr' = length arr \<and> fst r' = low n 13 \<and> sub_ok c arr' r' n"
  using assms
proof (induction "13 - s" arbitrary: s arr r)
  case 0
  then show ?case by simp
next
  case (Suc d)
  have s: "s < 13" using Suc.hyps(2) by simp
  then have u: "[s..<13] = s # [Suc s..<13]" by (rule upt_conv_Cons)
  show ?case
  proof (cases "bit n s")
    case False
    then show ?thesis using Suc.hyps(1) [of "Suc s" arr r] Suc.hyps(2) Suc.prems subs_ok_mono [OF Suc.prems(1), of "Suc s"] s
      by (simp add: u low_Suc)
  next
    case True
    have l: "fst (aSub ! s) = low n (Suc s)" "sub_ok c arr (aSub ! s) (low n s)"
      using Suc.prems(1) True s by (simp_all add: subs_ok_def)
    have le: "low n (Suc s) \<le> low n s" by (rule low_antimono) simp
    obtain arr' m where m: "walMerge c arr (aSub ! s) r = (arr', fst (aSub ! s), m)" "sub_ok c arr' (fst (aSub ! s), m) n"
      "same_outside (fst (aSub ! s)) n arr arr'"
      by (rule walMerge_ok [OF l(2) Suc.prems(3,2)]) (use le l(1) low_simps(2) [of n s] Suc.prems(4) in simp_all)
    have len: "length arr' = length arr" using m(3) by (simp add: same_outside_def)
    have sub: "subs_ok c arr' aSub n (Suc s)"
      by (rule subs_ok_outside [OF subs_ok_mono [OF Suc.prems(1)] _ m(3)]) (simp_all add: l(1))
    have "merge_rest c aSub n [s..<13] arr r = merge_rest c aSub n [Suc s..<13] arr' (fst (aSub ! s), m)"
      using True m(1) by (simp add: u)
    then show ?thesis using Suc.hyps(1) [OF _ sub, of "(fst (aSub ! s), m)"] Suc.hyps(2) m(2) l(1) len Suc.prems(4) s by simp
  qed
qed

lemma walMergesort_sub:
  assumes "0 < n" and "n \<le> 4096"
  shows "\<exists>arr m. walMergesort c [0..<n] n = (arr, m) \<and> length arr = n \<and> m \<le> n \<and> is_index c 0 n (take m arr)"
proof -
  have z: "subs_ok c [0..<n] (replicate 13 (0, 0)) 0 0" by (simp add: subs_ok_def)
  obtain aSub arr i r where s: "sort_steps c [0..<n] (replicate 13 (0, 0), [0..<n], 0, (0, 0)) = (aSub, arr, i, r)" "length arr = n"
    "i < 13" "subs_ok c arr aSub n (Suc i)" "fst r = low n (Suc i)" "sub_ok c arr r n"
    using sort_steps_ok [OF z, of n "(0, (0, 0))"] assms by auto
  obtain arr' r' where r: "merge_rest c aSub n [Suc i..<13] arr r = (arr', r')" "length arr' = n" "fst r' = low n 13" "sub_ok c arr' r' n"
    using merge_rest_ok [OF s(4-6)] s(2,3) by auto
  have l: "low n 13 = 0" using assms(2) by (simp add: low_def)
  have "walMergesort c [0..<n] n = (arr', snd r')" using s(1) r(1) by (simp add: walMergesort_def)
  moreover have "snd r' \<le> n" "is_index c 0 n (take (snd r') arr')"
    using r(4) unfolding sub_ok_def r(3) l by (simp_all add: r(2) piece_def)
  ultimately show ?thesis using r(2) by blast
qed

section \<open>The sort\<close>

text \<open>C38: walMergesort sorts the indices of the frames of a table by their pages and keeps one index for
  each page, that of its last frame, for every number of frames that a table can have. The array
  keeps its size.\<close>

theorem walMergesort_correct:
  assumes "0 < n" and "n \<le> 4096" and "n \<le> length aContent" and "walMergesort aContent [0..<n] n = (aList, m)"
  shows "length aList = n \<and> m \<le> n \<and> sorted_wrt (\<lambda>i j. aContent ! i < aContent ! j) (take m aList) \<and>
    (\<forall>i. i \<in> set (take m aList) \<longleftrightarrow> i < n \<and> (\<forall>j. i < j \<and> j < n \<longrightarrow> aContent ! j \<noteq> aContent ! i))"
  using walMergesort_sub [OF assms(1,2), of aContent] assms(4) by (auto simp: is_index_def)

lemma walMergesort_correct_witness:
  "walMergesort [7, 3, 7, 5, 3] [0..<5] 5 = (fst (walMergesort [7, 3, 7, 5, 3] [0..<5] 5), 3) \<and>
   take 3 (fst (walMergesort [7, 3, 7, 5, 3] [0..<5] 5)) = [4, 3, 2] \<and>
   sorted_wrt (\<lambda>i j. [7, 3, 7, 5, 3 :: u32] ! i < [7, 3, 7, 5, 3] ! j) [4, 3, 2]"
proof -
  have e: "walMergesort [7, 3, 7, 5, 3] [0..<5] 5 = (fst (walMergesort [7, 3, 7, 5, 3] [0..<5] 5), 3)"
    "take 3 (fst (walMergesort [7, 3, 7, 5, 3] [0..<5] 5)) = [4, 3, 2]" by code_simp+
  show ?thesis using walMergesort_correct [OF _ _ _ e(1)] e by simp
qed

end
