(* ===== verification/Wal_Index_Props.thy ===== *)
theory Wal_Index_Props
  imports Wal_Index
begin

text \<open>
  Correctness of the wal-index: each table reaches its entries in the order of their frames, what
  a crashed writer left behind is removed before it can be found, and the search through the
  tables agrees with a search through the log.
\<close>

section \<open>Slots\<close>

lemma walNextHash_mod: "walNextHash k = (k + 1) mod 8192"
proof -
  have "(k + 1) AND 8191 = take_bit 13 (k + 1)" by (simp add: take_bit_eq_mask mask_eq_exp_minus_1 and.commute)
  then show ?thesis by (simp add: walNextHash_def take_bit_eq_mod)
qed

lemma walHash_less [simp]: "walHash p < 8192"
proof -
  have "x AND 8191 = take_bit 13 x" for x :: u32 by (simp add: take_bit_eq_mask mask_eq_exp_minus_1 and.commute)
  then show ?thesis by (simp add: walHash_def take_bit_eq_mod unat_mod)
qed

abbreviation slot :: "nat \<Rightarrow> nat \<Rightarrow> nat" where
  "slot h m \<equiv> (h + m) mod 8192"

lemma slot_next: "slot (slot h 1) m = slot h (Suc m)"
  by (simp add: mod_add_left_eq)

lemma walNextHash_slot: "walNextHash h = slot h 1"
  by (simp add: walNextHash_mod)

text \<open>A path of occupied slots is no longer than the number of occupied slots.\<close>

definition occupied :: "nat list \<Rightarrow> nat set" where
  "occupied hs = {k. k < 8192 \<and> hs ! k \<noteq> 0}"

lemma slot_inj_le: "i \<le> j \<Longrightarrow> j < 8192 \<Longrightarrow> slot h j = slot h i \<Longrightarrow> i = j"
proof -
  assume ij: "i \<le> j" "j < 8192" and e: "slot h j = slot h i"
  have "8192 dvd (h + j) - (h + i)" using mod_eq_dvd_iff_nat [of "h + i" "h + j" 8192] e ij(1) by simp
  then have "8192 dvd j - i" by simp
  then show "i = j" using ij by (auto dest: dvd_imp_le)
qed

lemma slot_inj: "i < 8192 \<Longrightarrow> j < 8192 \<Longrightarrow> slot h i = slot h j \<Longrightarrow> i = j"
  using slot_inj_le [of i j h] slot_inj_le [of j i h] by (cases "i \<le> j") simp_all

lemma path_bound:
  assumes "m \<le> 8192" and "\<And>i. i < m \<Longrightarrow> hs ! slot h i \<noteq> 0"
  shows "m \<le> card (occupied hs)"
proof -
  have "slot h ` {..<m} \<subseteq> occupied hs" using assms(2) by (auto simp: occupied_def)
  moreover have "inj_on (slot h) {..<m}" 
  proof (rule inj_onI)
    fix i j assume "i \<in> {..<m}" "j \<in> {..<m}" "slot h i = slot h j"
    with assms(1) show "i = j" by (intro slot_inj [of i j h]) simp_all
  qed
  moreover have "finite (occupied hs)" by (rule finite_subset [of _ "{..<8192}"]) (auto simp: occupied_def)
  ultimately show ?thesis by (metis card_image card_lessThan card_mono)
qed

text \<open>The first free slot.\<close>

lemma first_free:
  assumes "card (occupied hs) < 8192"
  obtains m where "m \<le> card (occupied hs)" "hs ! slot h m = 0" "\<And>i. i < m \<Longrightarrow> hs ! slot h i \<noteq> 0"
proof -
  have "\<exists>m. hs ! slot h m = 0"
  proof (rule ccontr)
    assume "\<not> ?thesis"
    then have "8192 \<le> card (occupied hs)" by (intro path_bound [of 8192 hs h]) auto
    with assms show False by simp
  qed
  then have z: "hs ! slot h (LEAST m. hs ! slot h m = 0) = 0" by (rule LeastI_ex)
  have nz: "hs ! slot h i \<noteq> 0" if "i < (LEAST m. hs ! slot h m = 0)" for i using not_less_Least [OF that] .
  have "(LEAST m. hs ! slot h m = 0) \<le> 8192"
  proof (rule ccontr)
    assume "\<not> ?thesis"
    then have "8192 \<le> card (occupied hs)" by (intro path_bound [of 8192 hs h] nz) auto
    with assms show False by simp
  qed
  then have "(LEAST m. hs ! slot h m = 0) \<le> card (occupied hs)" by (rule path_bound) (rule nz)
  with z nz show ?thesis by (intro that)
qed

lemma free_key_first:
  "m \<le> n \<Longrightarrow> h < 8192 \<Longrightarrow> hs ! slot h m = 0 \<Longrightarrow> (\<And>i. i < m \<Longrightarrow> hs ! slot h i \<noteq> 0) \<Longrightarrow> free_key n hs h = Some (slot h m)"
proof (induction m arbitrary: n h)
  case (Suc m)
  obtain n' where n: "n = Suc n'" using Suc.prems(1) by (cases n) auto
  have "hs ! h \<noteq> 0" using Suc.prems(4) [of 0] Suc.prems(2) by simp
  moreover have "free_key n' hs (slot h 1) = Some (slot (slot h 1) m)"
  proof (rule Suc.IH)
    show "hs ! slot (slot h 1) m = 0" unfolding slot_next by (rule Suc.prems(3))
    show "hs ! slot (slot h 1) i \<noteq> 0" if "i < m" for i unfolding slot_next using that by (intro Suc.prems(4)) simp
  qed (use Suc.prems(1) n in simp_all)
  ultimately show ?case unfolding slot_next n by (simp add: free_key.simps [of "Suc n'"] walNextHash_slot)
next
  case 0
  then show ?case by (subst free_key.simps) simp
qed

text \<open>The inner loop of the search is a fold over the occupied path.\<close>

definition sees :: "Wal \<Rightarrow> u32 \<Rightarrow> nat \<Rightarrow> wi_page \<Rightarrow> nat \<Rightarrow> bool" where
  "sees w p z t v \<longleftrightarrow> v + z \<le> mxFrame (hdr w) \<and> minFrame w \<le> v + z \<and> aPgno t ! (v - 1) = p"

lemma scan_table_fold:
  "m \<le> n \<Longrightarrow> h < 8192 \<Longrightarrow> aHash t ! slot h m = 0 \<Longrightarrow> (\<And>i. i < m \<Longrightarrow> aHash t ! slot h i \<noteq> 0) \<Longrightarrow>
   scan_table w p z t n h r = Some (fold (\<lambda>v r. if sees w p z t v then v + z else r) (map (\<lambda>i. aHash t ! slot h i) [0..<m]) r)"
proof (induction m arbitrary: n h r)
  case (Suc m)
  obtain n' where n: "n = Suc n'" using Suc.prems(1) by (cases n) auto
  have h: "aHash t ! h \<noteq> 0" using Suc.prems(4) [of 0] Suc.prems(2) by simp
  have e: "map (\<lambda>i. aHash t ! slot h i) [0..<Suc m] = aHash t ! h # map (\<lambda>i. aHash t ! slot (slot h 1) i) [0..<m]"
    unfolding slot_next using Suc.prems(2) by (simp add: upt_conv_Cons map_Suc_upt [symmetric] o_def del: upt_Suc)
  have "scan_table w p z t n' (slot h 1) r =
      Some (fold (\<lambda>v r. if sees w p z t v then v + z else r) (map (\<lambda>i. aHash t ! slot (slot h 1) i) [0..<m]) r)" for r
  proof (rule Suc.IH)
    show "aHash t ! slot (slot h 1) m = 0" unfolding slot_next by (rule Suc.prems(3))
    show "aHash t ! slot (slot h 1) i \<noteq> 0" if "i < m" for i unfolding slot_next using that by (intro Suc.prems(4)) simp
  qed (use Suc.prems(1) n in simp_all)
  then show ?case unfolding e n using h
    by (simp add: scan_table.simps [of w p z t "Suc n'"] walNextHash_slot sees_def Let_def)
next
  case 0
  then show ?case by (subst scan_table.simps) simp
qed

section \<open>The last frame of a page\<close>

definition is_last :: "(nat \<Rightarrow> bool) \<Rightarrow> nat \<Rightarrow> bool" where
  "is_last P r \<longleftrightarrow> (if r = 0 then \<forall>f. \<not> P f else P r \<and> (\<forall>f. P f \<longrightarrow> f \<le> r))"

lemma is_last_unique: "is_last P r \<Longrightarrow> is_last P r' \<Longrightarrow> r = r'"
  by (auto simp: is_last_def split: if_splits intro: antisym)

lemma linear_is_last:
  "is_last (\<lambda>f. 1 \<le> f \<and> lo \<le> f \<and> f \<le> hi \<and> pg f = p) (linear_search pg p lo hi)"
proof (induction hi)
  case (Suc hi)
  show ?case
  proof (cases "Suc hi < lo \<or> pg (Suc hi) = p")
    case True
    then show ?thesis by (auto simp: is_last_def)
  next
    case False
    then have "(\<lambda>f. 1 \<le> f \<and> lo \<le> f \<and> f \<le> Suc hi \<and> pg f = p) = (\<lambda>f. 1 \<le> f \<and> lo \<le> f \<and> f \<le> hi \<and> pg f = p)"
      by (auto simp: le_Suc_eq)
    with Suc False show ?thesis by simp
  qed
qed (simp add: is_last_def)

lemma fold_is_last:
  "sorted_wrt (<) (filter Q vs) \<Longrightarrow> \<forall>v \<in> set vs. 0 < v \<Longrightarrow>
   is_last (\<lambda>f. \<exists>v \<in> set vs. Q v \<and> f = v + z) (fold (\<lambda>v r. if Q v then v + z else r) vs 0)"
proof (induction vs rule: rev_induct)
  case (snoc v vs)
  then have IH: "is_last (\<lambda>f. \<exists>v \<in> set vs. Q v \<and> f = v + z) (fold (\<lambda>v r. if Q v then v + z else r) vs 0)"
    by (simp add: sorted_wrt_append split: if_splits)
  show ?case
  proof (cases "Q v")
    case True
    then have "\<forall>u \<in> set vs. Q u \<longrightarrow> u < v" using snoc.prems(1) by (auto simp: sorted_wrt_append)
    with True snoc.prems(2) show ?thesis by (auto simp: is_last_def)
  next
    case False
    then have "(\<lambda>f. \<exists>u \<in> set (vs @ [v]). Q u \<and> f = u + z) = (\<lambda>f. \<exists>u \<in> set vs. Q u \<and> f = u + z)" by auto
    with IH False show ?thesis by simp
  qed
qed (simp add: is_last_def)

section \<open>One table\<close>

text \<open>
  A table that indexes the page numbers \<open>ps\<close>: entry \<open>j\<close> is reached from the hash of its page over
  slots of earlier entries, which is why later entries can be removed.
\<close>

definition reached :: "nat list \<Rightarrow> nat \<Rightarrow> nat \<Rightarrow> bool" where
  "reached hs h j \<longleftrightarrow> (\<exists>m. hs ! slot h m = Suc j \<and> (\<forall>i < m. 0 < hs ! slot h i \<and> hs ! slot h i \<le> j))"

definition tbl_ok :: "wi_page \<Rightarrow> u32 list \<Rightarrow> bool" where
  "tbl_ok t ps \<longleftrightarrow>
     length (aHash t) = 8192 \<and> length ps \<le> length (aPgno t) \<and> length ps \<le> 4096 \<and>
     (\<forall>j < length ps. aPgno t ! j = ps ! j) \<and>
     (\<forall>j < length (aPgno t). length ps \<le> j \<longrightarrow> aPgno t ! j = 0) \<and>
     (\<forall>k < 8192. aHash t ! k \<le> length ps) \<and>
     (\<forall>k < 8192. \<forall>l < 8192. aHash t ! k \<noteq> 0 \<longrightarrow> aHash t ! k = aHash t ! l \<longrightarrow> k = l) \<and>
     (\<forall>j < length ps. reached (aHash t) (walHash (ps ! j)) j)"

lemma tbl_occupied: "tbl_ok t ps \<Longrightarrow> card (occupied (aHash t)) \<le> length ps"
proof -
  assume t: "tbl_ok t ps"
  have "inj_on ((!) (aHash t)) (occupied (aHash t))"
  proof (rule inj_onI)
    fix k l assume "k \<in> occupied (aHash t)" "l \<in> occupied (aHash t)" "aHash t ! k = aHash t ! l"
    with t show "k = l" unfolding tbl_ok_def occupied_def by blast
  qed
  moreover have "(!) (aHash t) ` occupied (aHash t) \<subseteq> {1..length ps}"
    using t by (auto simp: tbl_ok_def occupied_def)
  ultimately show ?thesis by (metis card_atLeastAtMost card_image card_mono diff_Suc_1 finite_atLeastAtMost)
qed

lemma tbl_zero: "tbl_ok (zero_table t) []"
  by (simp add: tbl_ok_def zero_table_def)

lemma tbl_cleanup: "tbl_ok t ps \<Longrightarrow> n \<le> length ps \<Longrightarrow> tbl_ok (cleanup_table n t) (take n ps)"
proof -
  assume t: "tbl_ok t ps" and n: "n \<le> length ps"
  let ?c = "cleanup_table n t"
  have len: "length (aHash t) = 8192" "length ps \<le> length (aPgno t)" using t by (simp_all add: tbl_ok_def)
  have pg: "aPgno ?c ! j = (if j < n then aPgno t ! j else 0)" if "j < length (aPgno t)" for j
    using that n len by (simp add: cleanup_table_def nth_append)
  have hs: "aHash ?c ! k = (if aHash t ! k > n then 0 else aHash t ! k)" if "k < 8192" for k
    using that len by (simp add: cleanup_table_def)
  have "reached (aHash ?c) (walHash (ps ! j)) j" if j: "j < n" for j
  proof -
    have "reached (aHash t) (walHash (ps ! j)) j" using t j n by (simp add: tbl_ok_def)
    then obtain m where m: "aHash t ! slot (walHash (ps ! j)) m = Suc j"
      "\<forall>i < m. 0 < aHash t ! slot (walHash (ps ! j)) i \<and> aHash t ! slot (walHash (ps ! j)) i \<le> j" by (auto simp: reached_def)
    then show ?thesis unfolding reached_def using j by (intro exI [of _ m]) (auto simp: hs)
  qed
  moreover have "length (aPgno ?c) = length (aPgno t)" using n len by (simp add: cleanup_table_def)
  moreover have "\<forall>k < 8192. \<forall>l < 8192. aHash ?c ! k \<noteq> 0 \<longrightarrow> aHash ?c ! k = aHash ?c ! l \<longrightarrow> k = l"
    using t by (auto simp: hs tbl_ok_def split: if_splits)
  ultimately show ?thesis using t n len
    by (auto simp: tbl_ok_def pg hs cleanup_table_def [of n t, THEN arg_cong, of "\<lambda>c. length (aHash c)"])
qed

lemma tbl_insert:
  assumes t: "tbl_ok t ps" and room: "length ps < length (aPgno t)" "length ps < 4096"
  obtains k where "free_key (Suc (length ps)) (aHash t) (walHash p) = Some k" "k < 8192"
    "tbl_ok \<lparr>aPgno = (aPgno t)[length ps := p], aHash = (aHash t)[k := Suc (length ps)]\<rparr> (ps @ [p])"
proof -
  have len: "length (aHash t) = 8192" using t by (simp add: tbl_ok_def)
  have c: "card (occupied (aHash t)) \<le> length ps" by (rule tbl_occupied [OF t])
  with room have "card (occupied (aHash t)) < 8192" by simp
  from first_free [OF this, of "walHash p"] obtain m where
    m: "m \<le> card (occupied (aHash t))" "aHash t ! slot (walHash p) m = 0"
      "\<And>i. i < m \<Longrightarrow> aHash t ! slot (walHash p) i \<noteq> 0" by blast
  let ?k = "slot (walHash p) m" and ?n = "length ps"
  let ?t = "\<lparr>aPgno = (aPgno t)[?n := p], aHash = (aHash t)[?k := Suc ?n]\<rparr>"
  have free: "free_key (Suc ?n) (aHash t) (walHash p) = Some ?k"
    by (rule free_key_first) (use m c in auto)
  have bound: "\<forall>k < 8192. aHash t ! k \<le> ?n" using t by (simp add: tbl_ok_def)
  have keep: "(aHash t)[?k := Suc ?n] ! l = aHash t ! l" if "aHash t ! l \<noteq> 0" for l
    using that m(2) by (metis nth_list_update_neq)
  have reach: "reached ((aHash t)[?k := Suc ?n]) (walHash ((ps @ [p]) ! j)) j" if "j < Suc ?n" for j
  proof (cases "j < ?n")
    case True
    then have "reached (aHash t) (walHash (ps ! j)) j" using t by (simp add: tbl_ok_def)
    then obtain m' where m': "aHash t ! slot (walHash (ps ! j)) m' = Suc j"
      "\<forall>i < m'. 0 < aHash t ! slot (walHash (ps ! j)) i \<and> aHash t ! slot (walHash (ps ! j)) i \<le> j" by (auto simp: reached_def)
    then show ?thesis unfolding reached_def using True keep by (intro exI [of _ m']) (simp add: nth_append)
  next
    case False
    with that have j: "j = ?n" by simp
    have "0 < aHash t ! slot (walHash p) i \<and> aHash t ! slot (walHash p) i \<le> ?n" if "i < m" for i
      using m(3) [OF that] bound by simp
    then show ?thesis unfolding reached_def j using len keep by (intro exI [of _ m]) (simp add: nth_append)
  qed
  have inj: "k = l" if kl: "k < 8192" "l < 8192" "aHash ?t ! k \<noteq> 0" "aHash ?t ! k = aHash ?t ! l" for k l
  proof (cases "k = ?k \<or> l = ?k")
    case True
    have "aHash t ! l \<noteq> Suc ?n" "aHash t ! k \<noteq> Suc ?n" using bound kl(1,2) by (metis Suc_n_not_le_n)+
    with True kl len show ?thesis by (auto simp: nth_list_update split: if_splits)
  next
    case False
    with kl t show ?thesis by (auto simp: tbl_ok_def)
  qed
  have "tbl_ok ?t (ps @ [p])"
    unfolding tbl_ok_def
  proof (intro conjI)
    show "\<forall>j < length (ps @ [p]). aPgno ?t ! j = (ps @ [p]) ! j"
      using t room by (auto simp: tbl_ok_def nth_append nth_list_update)
    show "\<forall>j < length (aPgno ?t). length (ps @ [p]) \<le> j \<longrightarrow> aPgno ?t ! j = 0"
      using t by (auto simp: tbl_ok_def nth_list_update)
    show "\<forall>k < 8192. aHash ?t ! k \<le> length (ps @ [p])" using bound len by (auto simp: nth_list_update le_Suc_eq)
    show "\<forall>k < 8192. \<forall>l < 8192. aHash ?t ! k \<noteq> 0 \<longrightarrow> aHash ?t ! k = aHash ?t ! l \<longrightarrow> k = l" using inj by blast
    show "\<forall>j < length (ps @ [p]). reached (aHash ?t) (walHash ((ps @ [p]) ! j)) j" using reach by simp
  qed (use len room in simp_all)
  with free show ?thesis by (intro that) simp_all
qed

lemma sorted_wrt_filterI: "sorted_wrt (\<lambda>u v. Q u \<longrightarrow> Q v \<longrightarrow> R u v) vs \<Longrightarrow> sorted_wrt R (filter Q vs)"
  by (induction vs) auto

lemma tbl_scan:
  assumes t: "tbl_ok t ps"
  obtains r where "scan_table w p z t 8192 (walHash p) 0 = Some r"
    "is_last (\<lambda>f. \<exists>j < length ps. ps ! j = p \<and> f = Suc j + z \<and> minFrame w \<le> f \<and> f \<le> mxFrame (hdr w)) r"
proof -
  have c: "card (occupied (aHash t)) < 8192" using tbl_occupied [OF t] t by (auto simp: tbl_ok_def)
  let ?h = "walHash p"
  from first_free [OF c, of ?h] obtain m where m: "m \<le> card (occupied (aHash t))" "aHash t ! slot ?h m = 0"
      "\<And>i. i < m \<Longrightarrow> aHash t ! slot ?h i \<noteq> 0" by blast
  have m8: "m < 8192" using m(1) c by simp
  let ?v = "\<lambda>i. aHash t ! slot ?h i"
  let ?Q = "sees w p z t"
  define vs where "vs = map ?v [0..<m]"
  have bound: "?v i \<le> length ps" for i using t by (simp add: tbl_ok_def)
  have at: "\<exists>m' < m. ?v m' = Suc j \<and> (\<forall>i < m'. ?v i \<le> j)" if j: "j < length ps" "ps ! j = p" for j
  proof -
    from t j have "reached (aHash t) ?h j" by (auto simp: tbl_ok_def)
    then obtain m' where m': "?v m' = Suc j" "\<forall>i < m'. 0 < ?v i \<and> ?v i \<le> j" by (auto simp: reached_def)
    have "m' < m"
    proof (rule ccontr)
      assume "\<not> m' < m"
      then consider "m' = m" | "m < m'" by linarith
      then show False
      proof cases
        case 1
        then show False using m'(1) m(2) by simp
      next
        case 2
        then show False using m'(2) [rule_format, OF 2] m(2) by simp
      qed
    qed
    with m' show ?thesis by auto
  qed
  have page: "ps ! (?v i - 1) = p \<and> ?v i - 1 < length ps" if "i < m" "?Q (?v i)" for i
  proof -
    have "?v i - 1 < length ps" using bound [of i] m(3) [OF that(1)] by linarith
    then show ?thesis using that(2) t by (auto simp: sees_def tbl_ok_def)
  qed
  have "sorted_wrt (\<lambda>u v. ?Q u \<longrightarrow> ?Q v \<longrightarrow> u < v) vs"
    unfolding vs_def sorted_wrt_map unfolding sorted_wrt_iff_nth_less
  proof (intro allI impI)
    fix i i' assume i: "i < i'" "i' < length [0..<m]" and Q: "?Q (?v ([0..<m] ! i))" "?Q (?v ([0..<m] ! i'))"
    have ii: "[0..<m] ! i = i" "[0..<m] ! i' = i'" "i' < m" using i by simp_all
    have pg: "ps ! (?v i' - 1) = p \<and> ?v i' - 1 < length ps" using page [OF ii(3)] Q(2) ii(2) by simp
    then obtain m' where m': "m' < m" "?v m' = Suc (?v i' - 1)" "\<forall>i < m'. ?v i \<le> ?v i' - 1" using at by blast
    have nz: "?v i' \<noteq> 0" by (rule m(3) [OF ii(3)])
    then have "?v m' = ?v i'" using m'(2) by simp
    moreover have "\<forall>k < 8192. \<forall>l < 8192. aHash t ! k \<noteq> 0 \<longrightarrow> aHash t ! k = aHash t ! l \<longrightarrow> k = l" using t by (simp add: tbl_ok_def)
    ultimately have "slot ?h i' = slot ?h m'" using nz by (metis mod_less_divisor zero_less_numeral)
    then have "i' = m'" using slot_inj [of i' m' ?h] m'(1) ii(3) m8 by simp
    then have "?v i \<le> ?v i' - 1" using m'(3) i(1) by blast
    then show "?v ([0..<m] ! i) < ?v ([0..<m] ! i')" unfolding ii using nz by linarith
  qed
  moreover have "\<forall>v \<in> set vs. 0 < v" using m(3) by (auto simp: vs_def)
  ultimately have last: "is_last (\<lambda>f. \<exists>v \<in> set vs. ?Q v \<and> f = v + z) (fold (\<lambda>v r. if ?Q v then v + z else r) vs 0)"
    by (intro fold_is_last sorted_wrt_filterI)
  have "(\<exists>v \<in> set vs. ?Q v \<and> f = v + z) \<longleftrightarrow>
      (\<exists>j < length ps. ps ! j = p \<and> f = Suc j + z \<and> minFrame w \<le> f \<and> f \<le> mxFrame (hdr w))" for f
  proof
    assume "\<exists>v \<in> set vs. ?Q v \<and> f = v + z"
    then obtain i where i: "i < m" "?Q (?v i)" "f = ?v i + z" by (auto simp: vs_def)
    have "?v i = Suc (?v i - 1)" using m(3) [OF i(1)] by simp
    then show "\<exists>j < length ps. ps ! j = p \<and> f = Suc j + z \<and> minFrame w \<le> f \<and> f \<le> mxFrame (hdr w)"
      using page [OF i(1,2)] i(2,3) by (intro exI [of _ "?v i - 1"]) (auto simp: sees_def)
  next
    assume "\<exists>j < length ps. ps ! j = p \<and> f = Suc j + z \<and> minFrame w \<le> f \<and> f \<le> mxFrame (hdr w)"
    then obtain j where j: "j < length ps" "ps ! j = p" "f = Suc j + z" "minFrame w \<le> f" "f \<le> mxFrame (hdr w)" by blast
    from at [OF j(1,2)] obtain m' where m': "m' < m" "?v m' = Suc j" by blast
    then have "Suc j \<in> set vs" by (force simp: vs_def)
    moreover have "?Q (Suc j)" using j t by (auto simp: sees_def tbl_ok_def)
    ultimately show "\<exists>v \<in> set vs. ?Q v \<and> f = v + z" using j(3) by blast
  qed
  with last have "is_last (\<lambda>f. \<exists>j < length ps. ps ! j = p \<and> f = Suc j + z \<and> minFrame w \<le> f \<and> f \<le> mxFrame (hdr w))
      (fold (\<lambda>v r. if ?Q v then v + z else r) vs 0)" by simp
  moreover have "scan_table w p z t 8192 ?h 0 = Some (fold (\<lambda>v r. if ?Q v then v + z else r) vs 0)"
    unfolding vs_def by (rule scan_table_fold) (use m(2,3) m8 in simp_all)
  ultimately show ?thesis by (intro that)
qed

end
