(* ===== verification/Wal_Index_Runs.thy ===== *)
theory Wal_Index_Runs
  imports Wal_Index_Props
begin

text \<open>
  The wal-index as a whole: what the connections do to it over a sequence of transactions,
  rollbacks and crashes, and what a search answers at any time.
\<close>

section \<open>The log the tables index\<close>

definition cap :: "nat \<Rightarrow> nat" where
  "cap h = (if h = 0 then 4062 else 4096)"

lemma iZero_eq: "iZero h = (if h = 0 then 0 else 4096 * h - 34)"
  by (cases h) (simp_all add: iZero_def)

lemma framePage_iff: "1 \<le> f \<Longrightarrow> walFramePage f = h \<longleftrightarrow> iZero h < f \<and> f \<le> iZero h + cap h"
proof -
  assume f: "1 \<le> f"
  have "walFramePage f = (f + 33) div 4096" by (simp add: walFramePage_def)
  moreover have "(f + 33) div 4096 = h \<longleftrightarrow> 4096 * h \<le> f + 33 \<and> f + 33 < 4096 * h + 4096"
    by (rule iffI) linarith+
  ultimately show ?thesis using f by (auto simp: iZero_eq cap_def)
qed

lemma framePage_range: "1 \<le> f \<Longrightarrow> iZero (walFramePage f) < f \<and> f \<le> iZero (walFramePage f) + cap (walFramePage f)"
  using framePage_iff by blast

lemma framePage_mono: "f \<le> g \<Longrightarrow> walFramePage f \<le> walFramePage g"
  by (simp add: walFramePage_def div_le_mono)

lemma iZero_mono: "h < h' \<Longrightarrow> iZero h + cap h \<le> iZero h'"
  by (auto simp: iZero_eq cap_def)

text \<open>The part of a log that table \<open>h\<close> indexes.\<close>

definition chunk :: "nat \<Rightarrow> u32 list \<Rightarrow> u32 list" where
  "chunk h L = take (cap h) (drop (iZero h) L)"

lemma chunk_nth: "j < length (chunk h L) \<Longrightarrow> chunk h L ! j = L ! (iZero h + j)"
  using nth_drop [of "iZero h" L j] by (cases "iZero h \<le> length L") (simp_all add: chunk_def)

lemma length_chunk: "length (chunk h L) = min (cap h) (length L - iZero h)"
  by (simp add: chunk_def)

lemma chunk_prefix:
  assumes "iZero h + cap h \<le> n" and "n \<le> length L"
  shows "chunk h (take n L @ X) = chunk h L"
proof -
  let ?A = "take (n - iZero h) (drop (iZero h) L)"
  have "drop (iZero h) (take n L @ X) = ?A @ X" using assms by (simp add: drop_take)
  moreover have "cap h \<le> length ?A" using assms by simp
  then have "take (cap h) (?A @ X) = take (cap h) ?A" by simp
  moreover have "take (cap h) ?A = take (cap h) (drop (iZero h) L)" using assms by (simp add: min_absorb1)
  ultimately show ?thesis by (simp only: chunk_def)
qed

definition wi_ok :: "wi_data \<Rightarrow> u32 list \<Rightarrow> bool" where
  "wi_ok ap L \<longleftrightarrow>
     (\<forall>h. length (aPgno (ap h)) = cap h \<and> length (aHash (ap h)) = 8192) \<and>
     (\<forall>h. chunk h L \<noteq> [] \<longrightarrow> tbl_ok (ap h) (chunk h L)) \<and> 0 \<notin> set L"

lemma wi_ok_tbl: "wi_ok ap L \<Longrightarrow> 1 \<le> f \<Longrightarrow> f \<le> length L \<Longrightarrow> tbl_ok (ap (walFramePage f)) (chunk (walFramePage f) L)"
proof -
  assume ok: "wi_ok ap L" and f: "1 \<le> f" "f \<le> length L"
  have "length (chunk (walFramePage f) L) \<noteq> 0"
    using framePage_range [OF f(1)] f(2) by (auto simp: length_chunk)
  then have "chunk (walFramePage f) L \<noteq> []" by auto
  with ok show ?thesis by (simp add: wi_ok_def)
qed

section \<open>Appending and cutting\<close>

lemma wi_ok_cleanup:
  assumes ok: "wi_ok ap L" and m: "mxFrame (hdr w) \<le> length L"
  shows "wi_ok (walCleanupHash w ap) (if mxFrame (hdr w) = 0 then L else take (mxFrame (hdr w)) L)"
proof (cases "mxFrame (hdr w) = 0")
  case True
  with ok show ?thesis by (simp add: walCleanupHash_def)
next
  case False
  let ?m = "mxFrame (hdr w)" and ?h = "walFramePage (mxFrame (hdr w))"
  have r: "iZero ?h < ?m" "?m \<le> iZero ?h + cap ?h" using framePage_range [of ?m] False by simp_all
  have c: "chunk ?h (take ?m L) = take (?m - iZero ?h) (chunk ?h L)"
    using r by (simp add: chunk_def drop_take min_def)
  have len: "?m - iZero ?h \<le> length (chunk ?h L)" using r m by (auto simp: length_chunk)
  have t: "tbl_ok (cleanup_table (?m - iZero ?h) (ap ?h)) (chunk ?h (take ?m L))"
    unfolding c by (rule tbl_cleanup [OF wi_ok_tbl [OF ok _ m] len]) (use False in simp)
  have "tbl_ok (ap h) (chunk h (take ?m L))" if "chunk h (take ?m L) \<noteq> []" "h \<noteq> ?h" for h
  proof -
    have "iZero h < ?m" using that(1) by (auto simp: chunk_def)
    then have "h < ?h" using that(2) iZero_mono [of ?h h] r(2) by (cases h ?h rule: linorder_cases) auto
    then have "iZero h + cap h \<le> ?m" using iZero_mono [of h ?h] r(1) by simp
    then have "chunk h (take ?m L) = chunk h L" using chunk_prefix [OF _ m, where X = "[]"] by simp
    with that ok show ?thesis by (simp add: wi_ok_def)
  qed
  moreover have "length (aPgno (cleanup_table n (ap ?h))) = cap ?h \<and> length (aHash (cleanup_table n (ap ?h))) = 8192"
    if "n \<le> cap ?h" for n
    using ok that by (simp add: wi_ok_def cleanup_table_def)
  moreover have "?m - iZero ?h \<le> cap ?h" using r by simp
  moreover have "0 \<notin> set (take ?m L)" using ok by (auto simp: wi_ok_def dest: in_set_takeD)
  ultimately show ?thesis using ok t False by (auto simp: wi_ok_def walCleanupHash_def Let_def)
qed

text \<open>A frame is appended after the frames that count, whatever a writer has left behind them.\<close>

lemma wi_ok_append:
  assumes ok: "wi_ok ap L" and f: "f \<le> length L" "f = length L \<or> mxFrame (hdr w) = f" and p: "p \<noteq> 0"
    and rc: "map_rc (walFramePage (Suc f)) = SQLITE_OK"
  shows "\<exists>ap'. walIndexAppend map_rc w ap (Suc f) p = (SQLITE_OK, ap') \<and> wi_ok ap' (take f L @ [p])"
proof -
  let ?h = "walFramePage (Suc f)"
  define idx where "idx = Suc f - iZero ?h"
  have r: "iZero ?h < Suc f" "Suc f \<le> iZero ?h + cap ?h" using framePage_range [of "Suc f"] by simp_all
  then have idx: "1 \<le> idx" "idx \<le> cap ?h" "f = iZero ?h + (idx - 1)" by (auto simp: idx_def)
  have cap: "cap ?h \<le> 4096" by (simp add: cap_def)
  define ap1 where "ap1 = (if idx = 1 then ap(?h := zero_table (ap ?h)) else ap)"
  define ap2 where "ap2 = (if aPgno (ap1 ?h) ! (idx - 1) \<noteq> 0 then walCleanupHash w ap1 else ap1)"
  have shape: "length (aPgno (ap h)) = cap h" "length (aHash (ap h)) = 8192" for h using ok by (simp_all add: wi_ok_def)
  have other: "ap2 h = ap h" if "h \<noteq> ?h" for h
  proof (cases "idx = 1")
    case True
    then have "aPgno (ap1 ?h) ! (idx - 1) = 0" using shape idx(2) by (simp add: ap1_def zero_table_def)
    then show ?thesis using that True by (simp add: ap2_def ap1_def)
  next
    case False
    have "walCleanupHash w ap1 h = ap h" if m: "mxFrame (hdr w) = f"
    proof -
      have "walFramePage f = ?h" using framePage_iff [of f ?h] False idx r by auto
      then show ?thesis using that \<open>h \<noteq> ?h\<close> False m by (simp add: walCleanupHash_def ap1_def Let_def)
    qed
    moreover have "aPgno (ap1 ?h) ! (idx - 1) = 0" if "f = length L"
    proof -
      have n: "length (chunk ?h L) = idx - 1" using idx that by (simp add: length_chunk)
      then have "chunk ?h L \<noteq> []" using False idx(1) by auto
      then have "tbl_ok (ap ?h) (chunk ?h L)" using ok by (simp add: wi_ok_def)
      then show ?thesis using False n shape idx by (simp add: tbl_ok_def ap1_def)
    qed
    ultimately show ?thesis using f(2) False by (auto simp: ap2_def ap1_def)
  qed
  have tbl: "tbl_ok (ap2 ?h) (take (idx - 1) (chunk ?h L)) \<and> length (aPgno (ap2 ?h)) = cap ?h"
  proof (cases "idx = 1")
    case True
    then have "aPgno (ap1 ?h) ! (idx - 1) = 0" using shape idx(2) by (simp add: ap1_def zero_table_def)
    then have "ap2 ?h = zero_table (ap ?h)" using True by (simp add: ap2_def ap1_def)
    then show ?thesis using True tbl_zero [of "ap ?h"] shape by (simp add: zero_table_def)
  next
    case False
    have n: "idx - 1 \<le> length (chunk ?h L)" using idx f(1) unfolding length_chunk by linarith
    then have "chunk ?h L \<noteq> []" using False idx(1) by auto
    then have t: "tbl_ok (ap ?h) (chunk ?h L)" using ok by (simp add: wi_ok_def)
    show ?thesis
    proof (cases "idx - 1 = length (chunk ?h L)")
      case True
      then have "aPgno (ap ?h) ! (idx - 1) = 0" using t shape idx by (simp add: tbl_ok_def)
      then show ?thesis using True False t shape by (simp add: ap2_def ap1_def)
    next
      case less: False
      then have "aPgno (ap ?h) ! (idx - 1) = L ! f" using t n idx(3) by (simp add: tbl_ok_def chunk_nth)
      moreover have "f < length L" using less n idx by (auto simp: length_chunk)
      then have "L ! f \<noteq> 0" using ok by (metis nth_mem wi_ok_def)
      moreover have m: "mxFrame (hdr w) = f" using f(2) \<open>f < length L\<close> by simp
      moreover have "walFramePage f = ?h" "f \<noteq> 0" using framePage_iff [of f ?h] False idx r by auto
      moreover have e: "f - iZero ?h = idx - 1" using idx by linarith
      ultimately have "ap2 ?h = cleanup_table (idx - 1) (ap ?h)"
        using False e by (simp add: ap2_def ap1_def walCleanupHash_def Let_def)
      then show ?thesis using tbl_cleanup [OF t n] shape idx by (simp add: cleanup_table_def)
    qed
  qed
  have len: "length (take (idx - 1) (chunk ?h L)) = idx - 1" using idx f(1) by (simp add: length_chunk)
  have room: "idx - 1 < length (aPgno (ap2 ?h))" "idx - 1 < 4096" and s: "Suc (idx - 1) = idx" using tbl idx cap by auto
  obtain k where
    k: "free_key idx (aHash (ap2 ?h)) (walHash p) = Some k" "k < 8192"
      "tbl_ok \<lparr>aPgno = (aPgno (ap2 ?h))[idx - 1 := p], aHash = (aHash (ap2 ?h))[k := idx]\<rparr> (take (idx - 1) (chunk ?h L) @ [p])"
    by (rule tbl_insert [OF conjunct1 [OF tbl], unfolded len s, OF room, where p = p])
  let ?ap = "ap2(?h := \<lparr>aPgno = (aPgno (ap2 ?h))[idx - 1 := p], aHash = (aHash (ap2 ?h))[k := idx]\<rparr>)"
  have "walIndexAppend map_rc w ap (Suc f) p = (SQLITE_OK, ?ap)"
    using rc k(1) by (simp only: walIndexAppend_def walHashGet_def Let_def prod.case simp_thms if_False option.case
        flip: idx_def ap1_def ap2_def)
  moreover have "wi_ok ?ap (take f L @ [p])"
  proof -
    let ?L = "take f L @ [p]"
    have lf: "length (take f L) = f" using f(1) by simp
    have ch: "chunk ?h ?L = take (idx - 1) (chunk ?h L) @ [p]"
    proof -
      have z: "iZero ?h \<le> f" "f - iZero ?h = idx - 1" using idx by linarith+
      have d: "drop (iZero ?h) ?L = take (idx - 1) (drop (iZero ?h) L) @ [p]" using z lf by (simp add: drop_take)
      have l: "length (take (idx - 1) (drop (iZero ?h) L)) = idx - 1" using z idx f(1) by simp
      have "take (cap ?h) (take (idx - 1) (drop (iZero ?h) L) @ [p]) = take (idx - 1) (drop (iZero ?h) L) @ [p]"
        by (rule take_all) (use l idx in simp)
      moreover have "take (idx - 1) (take (cap ?h) (drop (iZero ?h) L)) = take (idx - 1) (drop (iZero ?h) L)"
        using idx(2) by (simp add: min_absorb1)
      ultimately show ?thesis by (simp only: chunk_def d)
    qed
    have co: "chunk h ?L = chunk h L" if h: "chunk h ?L \<noteq> []" "h \<noteq> ?h" for h
    proof -
      have "iZero h < Suc f" using h(1) lf by (auto simp: chunk_def split: if_splits)
      then have "h < ?h" using h(2) iZero_mono [of ?h h] r(2) by (cases h ?h rule: linorder_cases) auto
      then have "iZero h + cap h \<le> f" using iZero_mono [of h ?h] r(1) by simp
      then show ?thesis using f(1) by (rule chunk_prefix)
    qed
    have "tbl_ok (?ap h) (chunk h ?L)" if "chunk h ?L \<noteq> []" for h
      using k(3) ch co [OF that] ok that other by (cases "h = ?h") (auto simp: wi_ok_def)
    moreover have "length (aPgno (?ap h)) = cap h \<and> length (aHash (?ap h)) = 8192" for h
      using tbl shape other by (cases "h = ?h") (auto simp: tbl_ok_def)
    moreover have "0 \<notin> set ?L" using ok p by (auto simp: wi_ok_def dest: in_set_takeD)
    ultimately show ?thesis by (simp add: wi_ok_def)
  qed
  ultimately show ?thesis by blast
qed

section \<open>Searching\<close>

lemma framePgno_ok:
  assumes "wi_ok ap L" and "1 \<le> f" and "f \<le> length L"
  shows "walFramePgno ap f = L ! (f - 1)"
proof -
  let ?h = "walFramePage f"
  have r: "iZero ?h < f" "f \<le> iZero ?h + cap ?h" using framePage_range [OF assms(2)] by simp_all
  have t: "tbl_ok (ap ?h) (chunk ?h L)" by (rule wi_ok_tbl [OF assms])
  have j: "f - 1 - iZero ?h < length (chunk ?h L)" using r assms(2,3) unfolding length_chunk by linarith
  have "aPgno (ap ?h) ! (f - 1 - iZero ?h) = L ! (iZero ?h + (f - 1 - iZero ?h))"
    using t j by (simp add: tbl_ok_def chunk_nth)
  moreover have "iZero ?h + (f - 1 - iZero ?h) = f - 1" using r by linarith
  moreover have "(f - 1 - 4062) mod 4096 = f - 1 - iZero ?h" if "?h \<noteq> 0"
  proof -
    have z: "iZero ?h = 4062 + 4096 * (?h - 1)" "cap ?h = 4096" using that by (simp_all add: iZero_def cap_def)
    have "f - 1 - 4062 = (f - 1 - iZero ?h) + 4096 * (?h - 1)" using r z by linarith
    moreover have "f - 1 - iZero ?h < 4096" using r z by linarith
    ultimately show ?thesis by simp
  qed
  ultimately show ?thesis by (auto simp: walFramePgno_def Let_def iZero_def)
qed

lemma scan_tables_ok:
  assumes ok: "wi_ok ap L" and mx: "1 \<le> mxFrame (hdr w)" "mxFrame (hdr w) \<le> length L"
    and b: "b \<le> Suc (walFramePage (mxFrame (hdr w)))"
    and s: "scan_tables map_rc w ap p (rev [a..<b]) = (rc, f)"
  shows "if rc = SQLITE_OK
    then is_last (\<lambda>f. 1 \<le> f \<and> minFrame w \<le> f \<and> f \<le> mxFrame (hdr w) \<and> L ! (f - 1) = p \<and> a \<le> walFramePage f \<and> walFramePage f < b) f
    else \<exists>h. rc = map_rc h"
  using b s
proof (induction b)
  case (Suc b)
  let ?mx = "mxFrame (hdr w)"
  let ?P = "\<lambda>a b f. 1 \<le> f \<and> minFrame w \<le> f \<and> f \<le> ?mx \<and> L ! (f - 1) = p \<and> a \<le> walFramePage f \<and> walFramePage f < b"
  show ?case
  proof (cases "a \<le> b")
    case False
    then have e: "[a..<Suc b] = []" by simp
    from Suc.prems(2) have rf: "rc = SQLITE_OK" "f = 0" unfolding e by simp_all
    have "\<not> ?P a (Suc b) g" for g using False by linarith
    with rf show ?thesis by (simp add: is_last_def)
  next
    case True
    have z: "iZero b < ?mx"
    proof (cases "b = walFramePage ?mx")
      case True
      then show ?thesis using framePage_range [OF mx(1)] by simp
    next
      case False
      then have "b < walFramePage ?mx" using Suc.prems(1) by simp
      then show ?thesis using iZero_mono [of b "walFramePage ?mx"] framePage_range [OF mx(1)] by simp
    qed
    then have "length (chunk b L) \<noteq> 0" using mx(2) by (simp add: length_chunk cap_def)
    then have t: "tbl_ok (ap b) (chunk b L)" using ok by (auto simp: wi_ok_def)
    obtain r where r: "scan_table w p (iZero b) (ap b) 8192 (walHash p) 0 = Some r"
      "is_last (\<lambda>f. \<exists>j < length (chunk b L). chunk b L ! j = p \<and> f = Suc j + iZero b \<and> minFrame w \<le> f \<and> f \<le> ?mx) r"
      by (rule tbl_scan [OF t])
    have Q: "(\<exists>j < length (chunk b L). chunk b L ! j = p \<and> f = Suc j + iZero b \<and> minFrame w \<le> f \<and> f \<le> ?mx) \<longleftrightarrow>
        1 \<le> f \<and> minFrame w \<le> f \<and> f \<le> ?mx \<and> L ! (f - 1) = p \<and> walFramePage f = b" for f
    proof
      assume "\<exists>j < length (chunk b L). chunk b L ! j = p \<and> f = Suc j + iZero b \<and> minFrame w \<le> f \<and> f \<le> ?mx"
      then obtain j where j: "j < length (chunk b L)" "chunk b L ! j = p" "f = Suc j + iZero b" "minFrame w \<le> f" "f \<le> ?mx" by blast
      then have "walFramePage f = b" using framePage_iff [of f b] by (simp add: length_chunk)
      with j show "1 \<le> f \<and> minFrame w \<le> f \<and> f \<le> ?mx \<and> L ! (f - 1) = p \<and> walFramePage f = b"
        by (simp add: chunk_nth add.commute)
    next
      assume f: "1 \<le> f \<and> minFrame w \<le> f \<and> f \<le> ?mx \<and> L ! (f - 1) = p \<and> walFramePage f = b"
      then have i: "iZero b < f" "f \<le> iZero b + cap b" using framePage_iff by blast+
      let ?j = "f - 1 - iZero b"
      have "?j < length (chunk b L)" using i f mx(2) unfolding length_chunk by linarith
      moreover have "iZero b + ?j = f - 1" "f = Suc ?j + iZero b" using i by linarith+
      ultimately show "\<exists>j < length (chunk b L). chunk b L ! j = p \<and> f = Suc j + iZero b \<and> minFrame w \<le> f \<and> f \<le> ?mx"
        using f by (intro exI [of _ ?j]) (simp add: chunk_nth)
    qed
    note last = r(2) [unfolded Q]
    have s: "scan_tables map_rc w ap p (b # rev [a..<b]) = (rc, f)" using Suc.prems(2) True by simp
    show ?thesis
    proof (cases "map_rc b = SQLITE_OK \<and> r = 0")
      case step: True
      then have "scan_tables map_rc w ap p (rev [a..<b]) = (rc, f)" using s r(1) by (simp add: walHashGet_def)
      with Suc have IH: "if rc = SQLITE_OK then is_last (?P a b) f else \<exists>h. rc = map_rc h" by simp
      have "\<not> (1 \<le> g \<and> minFrame w \<le> g \<and> g \<le> ?mx \<and> L ! (g - 1) = p \<and> walFramePage g = b)" for g
        using last step by (simp add: is_last_def)
      then have e: "?P a (Suc b) = ?P a b" by (intro ext) (auto simp: less_Suc_eq)
      show ?thesis unfolding e by (rule IH)
    next
      case stop: False
      show ?thesis
      proof (cases "map_rc b = SQLITE_OK")
        case False
        then show ?thesis using s by (auto simp: walHashGet_def)
      next
        case mrc: True
        then have rf: "rc = SQLITE_OK" "f = r" "r \<noteq> 0" using s r(1) stop by (simp_all add: walHashGet_def)
        have R: "1 \<le> r" "minFrame w \<le> r" "r \<le> ?mx" "L ! (r - 1) = p" "walFramePage r = b" and
          max: "\<And>g. 1 \<le> g \<and> minFrame w \<le> g \<and> g \<le> ?mx \<and> L ! (g - 1) = p \<and> walFramePage g = b \<Longrightarrow> g \<le> r"
          using last rf(3) by (auto simp: is_last_def)
        have "g \<le> r" if g: "?P a (Suc b) g" for g
        proof (cases "walFramePage g = b")
          case True
          then show ?thesis using max g by blast
        next
          case False
          then have "\<not> walFramePage r \<le> walFramePage g" using g R(5) by simp
          then show ?thesis using framePage_mono [of r g] by linarith
        qed
        then show ?thesis using rf R True by (simp add: is_last_def)
      qed
    qed
  qed
qed (auto simp: is_last_def)

text \<open>The answer of the search: the linear search over the frames of the snapshot.\<close>

definition snapshot_frame :: "Wal \<Rightarrow> u32 list \<Rightarrow> u32 \<Rightarrow> nat" where
  "snapshot_frame w L p =
     (if readLock w = 0 \<and> \<not> bShmUnreliable w then 0 else linear_search (\<lambda>f. L ! (f - 1)) p (minFrame w) (mxFrame (hdr w)))"

lemma find_ok:
  assumes "wi_ok ap L" and "mxFrame (hdr w) \<le> length L" and "walFindFrame map_rc w ap p = (rc, f)"
  shows "if rc = SQLITE_OK then f = snapshot_frame w L p else \<exists>h. rc = map_rc h"
proof (cases "mxFrame (hdr w) = 0 \<or> (readLock w = 0 \<and> \<not> bShmUnreliable w)")
  case True
  then show ?thesis using assms(3) by (auto simp: walFindFrame_def snapshot_frame_def)
next
  case False
  let ?mx = "mxFrame (hdr w)" and ?lo = "walFramePage (minFrame w)"
  have s: "scan_tables map_rc w ap p (rev [?lo..<Suc (walFramePage ?mx)]) = (rc, f)"
    using assms(3) False by (simp add: walFindFrame_def)
  have e: "(\<lambda>f. 1 \<le> f \<and> minFrame w \<le> f \<and> f \<le> ?mx \<and> L ! (f - 1) = p \<and> ?lo \<le> walFramePage f \<and> walFramePage f < Suc (walFramePage ?mx)) =
      (\<lambda>f. 1 \<le> f \<and> minFrame w \<le> f \<and> f \<le> ?mx \<and> L ! (f - 1) = p)"
    using framePage_mono by (auto simp: less_Suc_eq_le)
  have "if rc = SQLITE_OK then is_last (\<lambda>f. 1 \<le> f \<and> minFrame w \<le> f \<and> f \<le> ?mx \<and> L ! (f - 1) = p) f else \<exists>h. rc = map_rc h"
    using scan_tables_ok [OF assms(1) _ assms(2) order.refl s] False unfolding e by simp
  then show ?thesis
    using is_last_unique [OF _ linear_is_last [of "minFrame w" ?mx "\<lambda>f. L ! (f - 1)" p], of f] False
    by (auto simp: snapshot_frame_def)
qed

end
