(* ===== verification/Wal_Iterator.thy ===== *)
theory Wal_Iterator
  imports Wal_Sort Wal_Index_Runs
begin

text \<open>
  What the iterator of a checkpoint returns: the pages of the log in ascending order, each with its
  last frame, although every table of the wal-index is sorted by itself.
\<close>

section \<open>Segments\<close>

text \<open>\<open>n\<close> is the last frame; the table of the last segment counts up to it.\<close>

definition entries :: "nat \<Rightarrow> nat \<Rightarrow> nat" where
  "entries n i = (if i = walFramePage n then n - iZero i else cap i)"

text \<open>What the tables say about the first \<open>n\<close> frames.\<close>

definition agree :: "wi_data \<Rightarrow> u32 list \<Rightarrow> nat \<Rightarrow> bool" where
  "agree ap L n \<longleftrightarrow>
     1 \<le> n \<and> n \<le> length L \<and>
     (\<forall>i. length (aPgno (ap i)) = cap i) \<and>
     (\<forall>i j. i \<le> walFramePage n \<and> j < entries n i \<longrightarrow> aPgno (ap i) ! j = L ! (iZero i + j))"

definition seg_ok :: "u32 list \<Rightarrow> nat \<Rightarrow> u32 \<Rightarrow> nat \<Rightarrow> WalSegment \<Rightarrow> bool" where
  "seg_ok L n q i s \<longleftrightarrow>
     seg_aPgno s = i \<and> seg_iZero s = iZero i + 1 \<and> nEntry s \<le> length (aIndex s) \<and>
     is_index (drop (iZero i) L) 0 (entries n i) (take (nEntry s) (aIndex s)) \<and>
     (\<forall>k < iNext s. k < nEntry s \<longrightarrow> L ! (iZero i + aIndex s ! k) \<le> q)"

text \<open>\<open>lo\<close> is the first table that is walked, \<open>q\<close> the last page that was returned.\<close>

definition iter_ok :: "u32 list \<Rightarrow> nat \<Rightarrow> nat \<Rightarrow> WalIterator \<Rightarrow> bool" where
  "iter_ok L n lo p \<longleftrightarrow>
     length (aSegment p) = Suc (walFramePage n) \<and>
     (\<forall>i \<le> walFramePage n. if i < lo then nEntry (aSegment p ! i) = 0 else seg_ok L n (iPrior p) i (aSegment p ! i))"

lemma entries_cap: "1 \<le> n \<Longrightarrow> i \<le> walFramePage n \<Longrightarrow> 0 < entries n i \<and> entries n i \<le> cap i"
  using framePage_range [of n] by (auto simp: entries_def cap_def)

lemma frame_entry:
  assumes "1 \<le> n"
  shows "1 \<le> f \<and> f \<le> n \<longleftrightarrow> (\<exists>i \<le> walFramePage n. \<exists>j < entries n i. f = iZero i + j + 1)"
proof
  assume f: "1 \<le> f \<and> f \<le> n"
  let ?i = "walFramePage f"
  have r: "iZero ?i < f" "f \<le> iZero ?i + cap ?i" using framePage_range [of f] f by simp_all
  have "f - iZero ?i - 1 < entries n ?i" using r f by (auto simp: entries_def)
  then show "\<exists>i \<le> walFramePage n. \<exists>j < entries n i. f = iZero i + j + 1"
    using r f framePage_mono [of f n] by (intro exI [of _ ?i] conjI exI [of _ "f - iZero ?i - 1"]) auto
next
  assume "\<exists>i \<le> walFramePage n. \<exists>j < entries n i. f = iZero i + j + 1"
  then obtain i j where i: "i \<le> walFramePage n" "j < entries n i" "f = iZero i + j + 1" by blast
  show "1 \<le> f \<and> f \<le> n"
  proof (cases "i = walFramePage n")
    case True
    then show ?thesis using i framePage_range [OF assms] by (simp add: entries_def)
  next
    case False
    then have "iZero i + cap i \<le> iZero (walFramePage n)" using iZero_mono i(1) by simp
    then show ?thesis using False i(2,3) framePage_range [OF assms] by (simp add: entries_def)
  qed
qed

lemma agree_entry: "agree ap L n \<Longrightarrow> i \<le> walFramePage n \<Longrightarrow> j < entries n i \<Longrightarrow> aPgno (ap i) ! j = L ! (iZero i + j)"
  by (simp add: agree_def)

section \<open>The inner loop\<close>

lemma seg_entry:
  assumes "agree ap L n" and "i \<le> walFramePage n" and "seg_ok L n q i s" and "k < nEntry s"
  shows "aIndex s ! k < entries n i" and "aPgno (ap i) ! (aIndex s ! k) = L ! (iZero i + aIndex s ! k)"
proof -
  have "aIndex s ! k \<in> set (take (nEntry s) (aIndex s))"
    using assms(3,4) by (auto simp: seg_ok_def in_set_conv_nth intro!: exI [of _ k])
  then show e: "aIndex s ! k < entries n i" using assms(3) by (auto simp: seg_ok_def is_index_def)
  show "aPgno (ap i) ! (aIndex s ! k) = L ! (iZero i + aIndex s ! k)" by (rule agree_entry [OF assms(1,2) e])
qed

lemma seg_advance_ok:
  assumes "agree ap L n" and "i \<le> walFramePage n" and "seg_ok L n q i s"
  shows "seg_ok L n q i (seg_advance ap q s) \<and> nEntry (seg_advance ap q s) = nEntry s \<and>
    (iNext (seg_advance ap q s) < nEntry s \<longrightarrow> q < seg_page ap (seg_advance ap q s))"
  using assms
proof (induction ap q s rule: seg_advance.induct)
  case (1 ap q s)
  show ?case
  proof (cases "iNext s < nEntry s \<and> \<not> seg_page ap s > q")
    case True
    have "L ! (iZero i + aIndex s ! iNext s) \<le> q"
      using seg_entry(2) [OF 1(2-4), of "iNext s"] True 1(4) by (auto simp: seg_page_def seg_ok_def not_less)
    then have "seg_ok L n q i (s\<lparr>iNext := iNext s + 1\<rparr>)" using 1(4) by (auto simp: seg_ok_def less_Suc_eq)
    moreover have "seg_advance ap q s = seg_advance ap q (s\<lparr>iNext := iNext s + 1\<rparr>)"
      using True by (subst seg_advance.simps) simp
    ultimately show ?thesis using 1(1) [OF True 1(2,3)] by simp
  next
    case False
    then have "seg_advance ap q s = s" by (subst seg_advance.simps) auto
    with False 1(4) show ?thesis by auto
  qed
qed

section \<open>The loop over the segments\<close>

text \<open>The best of a set of frames: the smallest page, and its last frame.\<close>

definition best :: "u32 list \<Rightarrow> nat set \<Rightarrow> u32 \<times> nat option \<Rightarrow> bool" where
  "best L C r \<longleftrightarrow>
     (if C = {} then r = (0xFFFFFFFF, None)
      else \<exists>f \<in> C. r = (L ! (f - 1), Some f) \<and> (\<forall>g \<in> C. L ! (f - 1) \<le> L ! (g - 1) \<and> (L ! (g - 1) = L ! (f - 1) \<longrightarrow> g \<le> f)))"

lemma best_union:
  assumes "best L C r" and "best L D (pg, Some f)" and "D \<noteq> {}" and "\<forall>f \<in> D. \<forall>g \<in> C. f < g" and "\<forall>f \<in> D. L ! (f - 1) < 0xFFFFFFFF"
  shows "best L (D \<union> C) (if pg < fst r then (pg, Some f) else r)"
proof -
  have f: "f \<in> D" "pg = L ! (f - 1)" "\<forall>g \<in> D. L ! (f - 1) \<le> L ! (g - 1) \<and> (L ! (g - 1) = L ! (f - 1) \<longrightarrow> g \<le> f)"
    using assms(2,3) by (auto simp: best_def)
  show ?thesis
  proof (cases "C = {}")
    case True
    then have "pg < fst r" using assms(1,5) f(1,2) by (simp add: best_def)
    with True assms(2) show ?thesis by simp
  next
    case False
    then obtain h where h: "h \<in> C" "r = (L ! (h - 1), Some h)"
      "\<forall>g \<in> C. L ! (h - 1) \<le> L ! (g - 1) \<and> (L ! (g - 1) = L ! (h - 1) \<longrightarrow> g \<le> h)"
      using assms(1) by (auto simp: best_def)
    show ?thesis
    proof (cases "L ! (f - 1) < L ! (h - 1)")
      case True
      have "\<forall>g \<in> D \<union> C. L ! (f - 1) \<le> L ! (g - 1) \<and> (L ! (g - 1) = L ! (f - 1) \<longrightarrow> g \<le> f)"
      proof
        fix g assume "g \<in> D \<union> C"
        then show "L ! (f - 1) \<le> L ! (g - 1) \<and> (L ! (g - 1) = L ! (f - 1) \<longrightarrow> g \<le> f)"
        proof
          assume g: "g \<in> C"
          then have "L ! (h - 1) \<le> L ! (g - 1)" using h(3) by blast
          with True have "L ! (f - 1) < L ! (g - 1)" by (rule less_le_trans)
          then show ?thesis by (intro conjI impI) (simp_all only: less_imp_le less_irrefl)
        qed (use f(3) in blast)
      qed
      with True f(1,2) h(2) show ?thesis by (auto simp: best_def)
    next
      case False
      have "\<forall>g \<in> D \<union> C. L ! (h - 1) \<le> L ! (g - 1) \<and> (L ! (g - 1) = L ! (h - 1) \<longrightarrow> g \<le> h)"
      proof
        fix g assume "g \<in> D \<union> C"
        then show "L ! (h - 1) \<le> L ! (g - 1) \<and> (L ! (g - 1) = L ! (h - 1) \<longrightarrow> g \<le> h)"
        proof
          assume g: "g \<in> D"
          then have "g < h" using assms(4) h(1) by blast
          with f(3) g False show ?thesis by fastforce
        qed (use h(3) in blast)
      qed
      with False f(2) h(1,2) show ?thesis by (auto simp: best_def)
    qed
  qed
qed

text \<open>The frames of table \<open>i\<close> whose pages were not returned yet.\<close>

definition cands :: "u32 list \<Rightarrow> nat \<Rightarrow> u32 \<Rightarrow> nat \<Rightarrow> nat set" where
  "cands L n q i = {f. \<exists>j < entries n i. f = iZero i + j + 1 \<and> q < L ! (iZero i + j)}"

lemma segment_best:
  assumes "agree ap L n" and "i \<le> walFramePage n" and "seg_ok L n q i s" and "iNext s < nEntry s \<longrightarrow> q < seg_page ap s"
  shows "if iNext s < nEntry s then cands L n q i \<noteq> {} \<and> best L (cands L n q i) (seg_page ap s, Some (seg_iZero s + aIndex s ! iNext s))
         else cands L n q i = {}"
proof -
  define c where "c = drop (iZero i) L"
  have ix: "is_index c 0 (entries n i) (take (nEntry s) (aIndex s))" and len: "nEntry s \<le> length (aIndex s)"
    and past: "\<forall>k < iNext s. k < nEntry s \<longrightarrow> L ! (iZero i + aIndex s ! k) \<le> q"
    using assms(3) by (simp_all add: seg_ok_def c_def)
  have c: "c ! j = L ! (iZero i + j)" for j
    using assms(1,2) entries_cap [of n i] framePage_range [of n] iZero_mono [of i "walFramePage n"]
    by (cases "i = walFramePage n") (auto simp: c_def agree_def intro!: nth_drop)
  have cover: "\<exists>k < nEntry s. iNext s \<le> k \<and> j \<le> aIndex s ! k \<and> L ! (iZero i + aIndex s ! k) = L ! (iZero i + j)"
    if j: "j < entries n i" "q < L ! (iZero i + j)" for j
  proof -
    obtain j' where j': "j \<le> j'" "j' < entries n i" "c ! j' = c ! j" "\<forall>k. j' < k \<and> k < entries n i \<longrightarrow> c ! k \<noteq> c ! j'"
      using last_index [of j j "entries n i" c] j(1) by auto
    then have "j' \<in> set (take (nEntry s) (aIndex s))" using ix by (simp add: is_index_def)
    then obtain k where k: "k < nEntry s" "aIndex s ! k = j'" using len by (auto simp: in_set_conv_nth)
    moreover have "iNext s \<le> k"
    proof (rule ccontr)
      assume "\<not> iNext s \<le> k"
      with k j' j(2) show False using past by (auto simp: c not_less [symmetric])
    qed
    ultimately show ?thesis using j'(1,3) by (auto simp: c)
  qed
  show ?thesis
  proof (cases "iNext s < nEntry s")
    case False
    then show ?thesis using cover by (fastforce simp: cands_def)
  next
    case True
    let ?j = "aIndex s ! iNext s"
    have j: "?j < entries n i" and pg: "seg_page ap s = L ! (iZero i + ?j)"
      using seg_entry [OF assms(1-3) True] assms(3) by (simp_all add: seg_page_def seg_ok_def)
    have z: "seg_iZero s + ?j = iZero i + ?j + 1" using assms(3) by (simp add: seg_ok_def)
    have mem: "iZero i + ?j + 1 \<in> cands L n q i" using j pg assms(4) True by (auto simp: cands_def)
    have "L ! (iZero i + ?j) \<le> L ! (iZero i + j) \<and> (L ! (iZero i + j) = L ! (iZero i + ?j) \<longrightarrow> j \<le> ?j)"
      if jj: "j < entries n i" "q < L ! (iZero i + j)" for j
    proof -
      obtain k where k: "k < nEntry s" "iNext s \<le> k" "j \<le> aIndex s ! k" "L ! (iZero i + aIndex s ! k) = L ! (iZero i + j)"
        using cover [OF jj] by blast
      have "c ! ?j < c ! (aIndex s ! k)" if "iNext s < k"
      proof -
        have "sorted_wrt (\<lambda>i j. c ! i < c ! j) (take (nEntry s) (aIndex s))" using ix by (simp add: is_index_def)
        from sorted_wrt_nth_less [OF this that] k(1) len that show ?thesis by simp
      qed
      with k show ?thesis by (cases "k = iNext s") (auto simp: c)
    qed
    with mem True show ?thesis
      unfolding best_def z pg by (auto simp: cands_def intro!: bexI [OF _ mem])
  qed
qed

lemma cands_apart: "f \<in> cands L n q i \<Longrightarrow> g \<in> cands L n q j \<Longrightarrow> i < j \<Longrightarrow> j \<le> walFramePage n \<Longrightarrow> 1 \<le> n \<Longrightarrow> f < g"
proof -
  assume f: "f \<in> cands L n q i" and g: "g \<in> cands L n q j" and ij: "i < j" "j \<le> walFramePage n" "1 \<le> n"
  have "entries n i \<le> cap i" using entries_cap [of n i] ij by simp
  then have "f \<le> iZero i + cap i" using f by (auto simp: cands_def)
  also have "\<dots> \<le> iZero j" by (rule iZero_mono [OF ij(1)])
  also have "\<dots> < g" using g by (auto simp: cands_def)
  finally show ?thesis .
qed

lemma next_loop_ok:
  assumes a: "agree ap L n" and mx: "\<forall>p \<in> set L. p < 0xFFFFFFFF"
    and "k \<le> length segs" and len: "length segs = Suc (walFramePage n)"
    and segs: "\<forall>i \<le> walFramePage n. if i < lo then nEntry (segs ! i) = 0 else seg_ok L n q i (segs ! i)"
    and "best L (\<Union>i \<in> {max k lo..<length segs}. cands L n q i) r"
  shows "\<exists>ss r'. next_loop ap q (rev (take k segs)) r = (rev ss, r') \<and> length ss = k \<and>
    best L (\<Union>i \<in> {lo..<length segs}. cands L n q i) r' \<and>
    (\<forall>i < k. if i < lo then nEntry (ss ! i) = 0 else seg_ok L n q i (ss ! i))"
  using assms(3,6)
proof (induction k arbitrary: r)
  case 0
  then show ?case by simp
next
  case (Suc k)
  have kn: "k \<le> walFramePage n" using Suc.prems(1) len by simp
  have n: "1 \<le> n" "n \<le> length L" using a by (simp_all add: agree_def)
  have u: "rev (take (Suc k) segs) = segs ! k # rev (take k segs)" using Suc.prems(1) by (simp add: take_Suc_conv_app_nth)
  let ?s = "seg_advance ap q (segs ! k)"
  let ?r = "if iNext ?s < nEntry ?s \<and> seg_page ap ?s < fst r then (seg_page ap ?s, Some (seg_iZero ?s + aIndex ?s ! iNext ?s)) else r"
  have step: "next_loop ap q (rev (take (Suc k) segs)) r = (case next_loop ap q (rev (take k segs)) ?r of (ss, r) \<Rightarrow> (?s # ss, r))"
    unfolding u by (cases r) (simp add: Let_def)
  have sk: "if k < lo then nEntry ?s = 0 else seg_ok L n q k ?s"
    and b: "best L (\<Union>i \<in> {max k lo..<length segs}. cands L n q i) ?r"
  proof -
    have "(if k < lo then nEntry ?s = 0 else seg_ok L n q k ?s) \<and> best L (\<Union>i \<in> {max k lo..<length segs}. cands L n q i) ?r"
    proof (cases "k < lo")
      case True
      then have z: "nEntry (segs ! k) = 0" using segs kn by auto
      then have "?s = segs ! k" by (subst seg_advance.simps) simp
      moreover have "max k lo = lo" "max (Suc k) lo = lo" using True by simp_all
      ultimately show ?thesis using True z Suc.prems(2) by simp
    next
      case False
      then have s: "seg_ok L n q k (segs ! k)" using segs kn by auto
      have s': "seg_ok L n q k ?s" "iNext ?s < nEntry ?s \<longrightarrow> q < seg_page ap ?s"
        using seg_advance_ok [OF a kn s] by simp_all
      have m: "max k lo = k" "max (Suc k) lo = Suc k" using False by simp_all
      have split: "(\<Union>i \<in> {k..<length segs}. cands L n q i) = cands L n q k \<union> (\<Union>i \<in> {Suc k..<length segs}. cands L n q i)"
      proof -
        have "{k..<length segs} = insert k {Suc k..<length segs}" using Suc.prems(1) by auto
        then show ?thesis by simp
      qed
      note sb = segment_best [OF a kn s'(1,2)]
      show ?thesis
      proof (cases "iNext ?s < nEntry ?s")
        case True
        have "best L (cands L n q k \<union> (\<Union>i \<in> {Suc k..<length segs}. cands L n q i))
            (if seg_page ap ?s < fst r then (seg_page ap ?s, Some (seg_iZero ?s + aIndex ?s ! iNext ?s)) else r)"
        proof (rule best_union)
          show "best L (\<Union>i \<in> {Suc k..<length segs}. cands L n q i) r" using Suc.prems(2) m by simp
          show "best L (cands L n q k) (seg_page ap ?s, Some (seg_iZero ?s + aIndex ?s ! iNext ?s))" "cands L n q k \<noteq> {}"
            using sb True by simp_all
          show "\<forall>f \<in> cands L n q k. \<forall>g \<in> (\<Union>i \<in> {Suc k..<length segs}. cands L n q i). f < g"
            using cands_apart n(1) len by fastforce
          show "\<forall>f \<in> cands L n q k. L ! (f - 1) < 0xFFFFFFFF"
          proof
            fix f assume "f \<in> cands L n q k"
            then have "1 \<le> f \<and> f \<le> n" using frame_entry [OF n(1)] kn by (auto simp: cands_def)
            then have "L ! (f - 1) \<in> set L" using n(2) by (intro nth_mem) linarith
            with mx show "L ! (f - 1) < 0xFFFFFFFF" by blast
          qed
        qed
        with True False s'(1) m split show ?thesis by simp
      next
        case nx: False
        then have "cands L n q k = {}" using sb by simp
        with nx False s'(1) m split Suc.prems(2) show ?thesis by simp
      qed
    qed
    then show "if k < lo then nEntry ?s = 0 else seg_ok L n q k ?s" "best L (\<Union>i \<in> {max k lo..<length segs}. cands L n q i) ?r" by simp_all
  qed
  obtain ss r' where ih: "next_loop ap q (rev (take k segs)) ?r = (rev ss, r')" "length ss = k"
    "best L (\<Union>i \<in> {lo..<length segs}. cands L n q i) r'" "\<forall>i < k. if i < lo then nEntry (ss ! i) = 0 else seg_ok L n q i (ss ! i)"
    using Suc.IH [OF _ b] Suc.prems(1) by auto
  have "next_loop ap q (rev (take (Suc k) segs)) r = (rev (ss @ [?s]), r')" unfolding step ih(1) by simp
  moreover have "\<forall>i < Suc k. if i < lo then nEntry ((ss @ [?s]) ! i) = 0 else seg_ok L n q i ((ss @ [?s]) ! i)"
    using ih(2,4) sk by (auto simp: nth_append less_Suc_eq)
  ultimately show ?case using ih(2,3) by (intro exI [of _ "ss @ [?s]"] exI [of _ r']) simp
qed

section \<open>The iterator\<close>

lemma cands_frames:
  assumes "1 \<le> n"
  shows "f \<in> (\<Union>i \<in> {lo..<Suc (walFramePage n)}. cands L n q i) \<longleftrightarrow>
    1 \<le> f \<and> f \<le> n \<and> lo \<le> walFramePage f \<and> q < L ! (f - 1)"
proof -
  have page: "walFramePage (iZero i + j + 1) = i" if "i \<le> walFramePage n" "j < entries n i" for i j
    using that entries_cap [OF assms that(1)] framePage_iff [of "iZero i + j + 1" i] by simp
  show ?thesis
  proof
    assume "f \<in> (\<Union>i \<in> {lo..<Suc (walFramePage n)}. cands L n q i)"
    then obtain i j where i: "lo \<le> i" "i \<le> walFramePage n" "j < entries n i" "f = iZero i + j + 1" "q < L ! (f - 1)"
      by (auto simp: cands_def)
    then show "1 \<le> f \<and> f \<le> n \<and> lo \<le> walFramePage f \<and> q < L ! (f - 1)"
      using frame_entry [OF assms, of f] page [OF i(2,3)] by auto
  next
    assume f: "1 \<le> f \<and> f \<le> n \<and> lo \<le> walFramePage f \<and> q < L ! (f - 1)"
    then obtain i j where i: "i \<le> walFramePage n" "j < entries n i" "f = iZero i + j + 1"
      using frame_entry [OF assms, of f] by blast
    with f page [OF i(1,2)] show "f \<in> (\<Union>i \<in> {lo..<Suc (walFramePage n)}. cands L n q i)"
      by (auto simp: cands_def intro!: bexI [of _ i])
  qed
qed

lemma seg_ok_mono: "seg_ok L n q i s \<Longrightarrow> q \<le> q' \<Longrightarrow> seg_ok L n q' i s"
  by (auto simp: seg_ok_def)

lemma iteratorNext_ok:
  assumes "agree ap L n" and "\<forall>p \<in> set L. p < 0xFFFFFFFF" and "iter_ok L n lo p" and "walIteratorNext ap p = (rc, pg, fr, p')"
  shows "if rc = 0 then
       iter_ok L n lo p' \<and> iPrior p' = pg \<and>
       (\<exists>f. fr = Some f \<and> 1 \<le> f \<and> f \<le> n \<and> lo \<le> walFramePage f \<and> L ! (f - 1) = pg \<and> iPrior p < pg \<and>
         (\<forall>g. 1 \<le> g \<and> g \<le> n \<and> lo \<le> walFramePage g \<and> iPrior p < L ! (g - 1) \<longrightarrow>
            pg \<le> L ! (g - 1) \<and> (L ! (g - 1) = pg \<longrightarrow> g \<le> f)))
     else rc = 1 \<and> (\<forall>g. 1 \<le> g \<and> g \<le> n \<and> lo \<le> walFramePage g \<longrightarrow> L ! (g - 1) \<le> iPrior p)"
proof -
  let ?segs = "aSegment p" and ?q = "iPrior p"
  have n: "1 \<le> n" "n \<le> length L" using assms(1) by (simp_all add: agree_def)
  have len: "length ?segs = Suc (walFramePage n)" using assms(3) by (simp add: iter_ok_def)
  let ?C = "\<Union>i \<in> {lo..<Suc (walFramePage n)}. cands L n ?q i"
  have C: "f \<in> ?C \<longleftrightarrow> 1 \<le> f \<and> f \<le> n \<and> lo \<le> walFramePage f \<and> ?q < L ! (f - 1)" for f by (rule cands_frames [OF n(1)])
  have e: "(\<Union>i \<in> {max (length ?segs) lo..<length ?segs}. cands L n ?q i) = {}" by auto
  have s: "\<forall>i \<le> walFramePage n. if i < lo then nEntry (?segs ! i) = 0 else seg_ok L n ?q i (?segs ! i)"
    using assms(3) by (simp add: iter_ok_def)
  obtain ss r' where l: "next_loop ap ?q (rev ?segs) (0xFFFFFFFF, None) = (rev ss, r')" "length ss = length ?segs"
    "best L ?C r'" "\<forall>i < length ?segs. if i < lo then nEntry (ss ! i) = 0 else seg_ok L n ?q i (ss ! i)"
    using next_loop_ok [OF assms(1,2) order_refl len s, of "(0xFFFFFFFF, None)"] e len by (auto simp: best_def)
  have res: "rc = (if fst r' = 0xFFFFFFFF then 1 else 0)" "pg = fst r'" "fr = snd r'" "p' = p\<lparr>iPrior := pg, aSegment := ss\<rparr>"
    using assms(4) l(1) by (auto simp: walIteratorNext_def split: prod.splits)
  show ?thesis
  proof (cases "?C = {}")
    case True
    then have "rc = 1" using l(3) res by (simp add: best_def)
    moreover have "L ! (g - 1) \<le> ?q" if "1 \<le> g \<and> g \<le> n \<and> lo \<le> walFramePage g" for g
      using C [of g] True that by (auto simp: not_less [symmetric])
    ultimately show ?thesis by simp
  next
    case False
    then obtain f where f: "f \<in> ?C" "r' = (L ! (f - 1), Some f)"
      "\<forall>g \<in> ?C. L ! (f - 1) \<le> L ! (g - 1) \<and> (L ! (g - 1) = L ! (f - 1) \<longrightarrow> g \<le> f)"
      using l(3) unfolding best_def if_not_P [OF False] by blast
    have fC: "1 \<le> f" "f \<le> n" "lo \<le> walFramePage f" "?q < L ! (f - 1)" using f(1) C by simp_all
    have "L ! (f - 1) \<in> set L" using fC(1,2) n(2) by (intro nth_mem) linarith
    then have "L ! (f - 1) \<noteq> 0xFFFFFFFF" using assms(2) by fastforce
    then have rc: "rc = 0" "pg = L ! (f - 1)" "fr = Some f" using res f(2) by simp_all
    have "iter_ok L n lo p'"
      unfolding iter_ok_def res(4)
      using l(2,4) len seg_ok_mono [OF _ less_imp_le [OF fC(4)]] rc(2) by (auto simp: less_Suc_eq_le)
    moreover have "pg \<le> L ! (g - 1) \<and> (L ! (g - 1) = pg \<longrightarrow> g \<le> f)"
      if "1 \<le> g \<and> g \<le> n \<and> lo \<le> walFramePage g \<and> ?q < L ! (g - 1)" for g
      using f(3) C [of g] that rc(2) by auto
    ultimately show ?thesis using rc fC res(4) by auto
  qed
qed

lemma init_loop_ok:
  assumes a: "agree ap L n" and "\<forall>j \<in> set is. j \<le> walFramePage n" and "length segs = Suc (walFramePage n)" and "\<forall>i. map_rc i = SQLITE_OK"
  shows "\<exists>segs'. init_loop map_rc ap n (Suc (walFramePage n)) is segs = (SQLITE_OK, segs') \<and> length segs' = length segs \<and>
    (\<forall>i \<le> walFramePage n. if i \<in> set is then seg_ok L n q i (segs' ! i) else segs' ! i = segs ! i)"
  using assms(2,3)
proof (induction "is" arbitrary: segs)
  case (Cons i "is")
  have n: "1 \<le> n" "n \<le> length L" using a by (simp_all add: agree_def)
  have i: "i \<le> walFramePage n" using Cons.prems(1) by simp
  have len: "length (aPgno (ap i)) = cap i" using a by (simp add: agree_def)
  have ent: "(if i + 1 = Suc (walFramePage n) then n - iZero i else length (aPgno (ap i))) = entries n i"
    by (simp add: entries_def len)
  have e: "0 < entries n i" "entries n i \<le> 4096" using entries_cap [OF n(1) i] by (auto simp: cap_def split: if_splits)
  obtain arr m where m: "walMergesort (aPgno (ap i)) [0..<entries n i] (entries n i) = (arr, m)" "length arr = entries n i" "m \<le> entries n i"
    "is_index (aPgno (ap i)) 0 (entries n i) (take m arr)"
    using walMergesort_sub [OF e] by blast
  let ?s = "\<lparr>iNext = 0, aIndex = arr, seg_aPgno = i, nEntry = m, seg_iZero = iZero i + 1\<rparr>"
  have z: "iZero i \<le> length L" using framePage_range [OF n(1)] iZero_mono [of i "walFramePage n"] i n(2) by (cases "i = walFramePage n") auto
  have eq: "aPgno (ap i) ! j = drop (iZero i) L ! j" if "j < entries n i" for j
    using agree_entry [OF a i that] nth_drop [OF z] by simp
  have "is_index (drop (iZero i) L) 0 (entries n i) (take m arr)"
  proof -
    have S: "set (take m arr) = {j. j < entries n i \<and> (\<forall>k. j < k \<and> k < entries n i \<longrightarrow> aPgno (ap i) ! k \<noteq> aPgno (ap i) ! j)}"
      and so: "sorted_wrt (\<lambda>i' j. aPgno (ap i) ! i' < aPgno (ap i) ! j) (take m arr)"
      using m(4) by (simp_all add: is_index_def)
    have "sorted_wrt (\<lambda>i' j. drop (iZero i) L ! i' < drop (iZero i) L ! j) (take m arr)"
    proof (rule sorted_wrt_mono_rel [OF _ so])
      fix x y assume "x \<in> set (take m arr)" "y \<in> set (take m arr)" "aPgno (ap i) ! x < aPgno (ap i) ! y"
      then show "drop (iZero i) L ! x < drop (iZero i) L ! y" using eq [of x] eq [of y] unfolding S by simp
    qed
    moreover have "set (take m arr) = {j. j < entries n i \<and> (\<forall>k. j < k \<and> k < entries n i \<longrightarrow> drop (iZero i) L ! k \<noteq> drop (iZero i) L ! j)}"
      unfolding S by (rule Collect_cong) (metis eq)
    ultimately show ?thesis by (simp add: is_index_def)
  qed
  then have sok: "seg_ok L n q i ?s" using m(2,3) by (simp add: seg_ok_def)
  have step: "init_loop map_rc ap n (Suc (walFramePage n)) (i # is) segs = init_loop map_rc ap n (Suc (walFramePage n)) is (segs[i := ?s])"
    using m(1) ent assms(4) by (simp add: walHashGet_def Let_def)
  obtain segs' where ih: "init_loop map_rc ap n (Suc (walFramePage n)) is (segs[i := ?s]) = (SQLITE_OK, segs')" "length segs' = length segs"
    "\<forall>j \<le> walFramePage n. if j \<in> set is then seg_ok L n q j (segs' ! j) else segs' ! j = segs[i := ?s] ! j"
    using Cons.IH [of "segs[i := ?s]"] Cons.prems by auto
  have "\<forall>j \<le> walFramePage n. if j \<in> set (i # is) then seg_ok L n q j (segs' ! j) else segs' ! j = segs ! j"
  proof (intro allI impI)
    fix j assume j: "j \<le> walFramePage n"
    with ih(3) have h: "if j \<in> set is then seg_ok L n q j (segs' ! j) else segs' ! j = segs[i := ?s] ! j" by blast
    show "if j \<in> set (i # is) then seg_ok L n q j (segs' ! j) else segs' ! j = segs ! j"
      using h sok Cons.prems(2) j by (cases "j \<in> set is"; cases "i = j") simp_all
  qed
  then show ?case unfolding step using ih by (intro exI [of _ segs']) simp
qed simp

lemma iteratorInit_ok:
  assumes "agree ap L n" and "\<forall>i. map_rc i = SQLITE_OK" and "mxFrame (hdr w) = n" and "walIteratorInit map_rc oom w ap b = (rc, it)"
  shows "if oom then rc = SQLITE_NOMEM \<and> it = None
     else rc = SQLITE_OK \<and> (\<exists>p. it = Some p \<and> iPrior p = 0 \<and> iter_ok L n (walFramePage (b + 1)) p)"
proof (cases oom)
  case False
  let ?lo = "walFramePage (b + 1)" and ?m = "Suc (walFramePage n)"
  obtain segs where s: "init_loop map_rc ap n ?m [?lo..<?m] (replicate ?m zero_segment) = (SQLITE_OK, segs)" "length segs = ?m"
    "\<forall>i \<le> walFramePage n. if i \<in> set [?lo..<?m] then seg_ok L n 0 i (segs ! i) else segs ! i = replicate ?m zero_segment ! i"
    using init_loop_ok [OF assms(1), where q = 0 and map_rc = map_rc, of "[?lo..<?m]" "replicate ?m zero_segment"] assms(2)
    by (auto simp del: upt_Suc replicate_Suc)
  have "iter_ok L n ?lo \<lparr>iPrior = 0, aSegment = segs\<rparr>"
    unfolding iter_ok_def
  proof (intro conjI allI impI)
    fix i assume i: "i \<le> walFramePage n"
    with s(3) have h: "if i \<in> set [?lo..<?m] then seg_ok L n 0 i (segs ! i) else segs ! i = replicate ?m zero_segment ! i" by blast
    show "if i < ?lo then nEntry (aSegment \<lparr>iPrior = 0, aSegment = segs\<rparr> ! i) = 0
        else seg_ok L n (iPrior \<lparr>iPrior = 0, aSegment = segs\<rparr>) i (aSegment \<lparr>iPrior = 0, aSegment = segs\<rparr> ! i)"
      using h i nth_replicate [of i ?m zero_segment] by (auto simp: zero_segment_def simp del: replicate_Suc upt_Suc split: if_splits)
  qed (use s(2) in simp)
  then show ?thesis using assms(3,4) s(1) False by (auto simp: walIteratorInit_def Let_def simp del: upt_Suc replicate_Suc)
qed (use assms in \<open>simp add: walIteratorInit_def Let_def\<close>)

end
