(* ===== verification/Wal_Index_History.thy ===== *)
theory Wal_Index_History
  imports Wal_Index_Runs
begin

text \<open>
  Runs of the wal-index: the end of walFrames, which enters the frames of a transaction, rollback,
  rollback to a savepoint, a writer that dies, and the restart of the log. The contract of an index
  (\<open>log_index\<close>) gives what a reader relies on; the model of the code is its instance.
\<close>

section \<open>Entering the frames of a transaction\<close>

fun append_pages :: "(nat \<Rightarrow> int) \<Rightarrow> Wal \<Rightarrow> wi_data \<Rightarrow> nat \<Rightarrow> u32 list \<Rightarrow> int \<times> wi_data" where
  "append_pages map_rc pWal ap iFrame [] = (SQLITE_OK, ap)"
| "append_pages map_rc pWal ap iFrame (p # ps) =
     (case walIndexAppend map_rc pWal ap (Suc iFrame) p of
        (rc, ap) \<Rightarrow> if rc = SQLITE_OK then append_pages map_rc pWal ap (Suc iFrame) ps else (rc, ap))"

text \<open>The handle of the writer, the header in shared memory, the tables.\<close>

type_synonym wal_state = "Wal \<times> WalIndexHdr \<times> wi_data"

text \<open>
  The end of walFrames; \<open>ps\<close> are the pages of the frames that were appended to the log, with the
  copies of the last one that pad the transaction.
\<close>

definition walFrames_index :: "(nat \<Rightarrow> int) \<Rightarrow> nat \<Rightarrow> u32 list \<Rightarrow> u32 \<Rightarrow> bool \<Rightarrow> wal_state \<Rightarrow> int \<times> wal_state" where
  "walFrames_index map_rc szp ps nTruncate isCommit s =
     (let (pWal, shared, ap) = s;
          (rc, ap) = append_pages map_rc pWal ap (mxFrame (hdr pWal)) ps
      in if rc = SQLITE_OK then
           (let h = hdr pWal\<lparr>hdr_szPage := (szp AND 0xff00) OR drop_bit 16 szp,
                      mxFrame := mxFrame (hdr pWal) + length ps\<rparr>;
                h = (if isCommit then h\<lparr>iChange := iChange h + 1, nPage := nTruncate\<rparr> else h)
            in (rc, pWal\<lparr>hdr := h\<rparr>, if isCommit then h else shared, ap))
         else (rc, pWal, shared, ap))"

text \<open>walRestartHdr, for the fields of the header; the salts are bytes in big-endian order.\<close>

definition walRestartHdr :: "byte list \<Rightarrow> wal_state \<Rightarrow> wal_state" where
  "walRestartHdr salt1 s =
     (let (pWal, shared, ap) = s;
          m = (\<lambda>i. aSalt (hdr pWal) ! i);
          m' = sqlite3Put4byte m (1 + sqlite3Get4byte m);
          h = hdr pWal\<lparr>mxFrame := 0, aSalt := map m' [0..<4] @ salt1\<rparr>
      in (pWal\<lparr>hdr := h, nCkpt := nCkpt pWal + 1\<rparr>, h, ap))"

section \<open>Operations\<close>

text \<open>
  \<open>Frames\<close> is walFrames; \<open>Savepoint_undo k\<close> goes back to a savepoint that was opened when the
  transaction had \<open>k\<close> frames; \<open>Crash\<close> is a writer that dies while it enters frames, and a new one that
  reads the shared header.
\<close>

datatype wal_op =
    Frames "nat \<Rightarrow> int" nat "u32 list" u32 bool
  | Undo "u32 \<Rightarrow> int"
  | Savepoint_undo nat "u32 \<times> u32"
  | Crash "nat \<Rightarrow> int" "u32 list"
  | Restart "byte list"

fun wal_step :: "wal_op \<Rightarrow> wal_state \<Rightarrow> int \<times> wal_state" where
  "wal_step (Frames map_rc szp ps nTruncate isCommit) s = walFrames_index map_rc szp ps nTruncate isCommit s"
| "wal_step (Undo xUndo) (w, shared, ap) =
     (case sqlite3WalUndo xUndo shared w ap of (rc, ps, w, ap) \<Rightarrow> (rc, w, shared, ap))"
| "wal_step (Savepoint_undo k ck) (w, shared, ap) =
     (case sqlite3WalSavepointUndo (mxFrame shared + k, ck, nCkpt w) w ap of (sp, w, ap) \<Rightarrow> (SQLITE_OK, w, shared, ap))"
| "wal_step (Crash map_rc ps) (w, shared, ap) =
     (case append_pages map_rc w ap (mxFrame (hdr w)) ps of (rc, ap) \<Rightarrow> (SQLITE_OK, w\<lparr>hdr := shared\<rparr>, shared, ap))"
| "wal_step (Restart salt1) s = (SQLITE_OK, walRestartHdr salt1 s)"

fun op_pages :: "wal_op \<Rightarrow> u32 list" where
  "op_pages (Frames map_rc szp ps nTruncate isCommit) = ps"
| "op_pages (Crash map_rc ps) = ps"
| "op_pages _ = []"

text \<open>The same on logs: the committed one and the one of the writer, given the result code.\<close>

fun log_step :: "wal_op \<Rightarrow> int \<Rightarrow> u32 list \<times> u32 list \<Rightarrow> u32 list \<times> u32 list" where
  "log_step (Frames map_rc szp ps nTruncate isCommit) rc (C, W) =
     (if rc = SQLITE_OK then (if isCommit then W @ ps else C, W @ ps) else (C, W))"
| "log_step (Undo xUndo) rc (C, W) = (C, C)"
| "log_step (Savepoint_undo k ck) rc (C, W) = (C, take (length C + k) W)"
| "log_step (Crash map_rc ps) rc (C, W) = (C, C)"
| "log_step (Restart salt1) rc (C, W) = ([], [])"

section \<open>The contract of an index\<close>

locale log_index =
  fixes sim :: "'s \<Rightarrow> u32 list \<times> u32 list \<Rightarrow> bool"
    and step :: "wal_op \<Rightarrow> 's \<Rightarrow> int \<times> 's"
    and find :: "'s \<Rightarrow> Wal \<Rightarrow> u32 \<Rightarrow> nat"
  assumes step_sim: "sim s l \<Longrightarrow> 0 \<notin> set (op_pages op) \<Longrightarrow> step op s = (rc, s') \<Longrightarrow> sim s' (log_step op rc l)"
    and find_law: "sim s (C, W) \<Longrightarrow> mxFrame (hdr r) \<le> length W \<Longrightarrow> find s r p = snapshot_frame r W p"
    and sim_prefix: "sim s (C, W) \<Longrightarrow> \<exists>P. W = C @ P"
begin

fun run :: "wal_op list \<Rightarrow> 's \<Rightarrow> u32 list \<times> u32 list \<Rightarrow> 's \<times> (u32 list \<times> u32 list)" where
  "run [] s l = (s, l)"
| "run (op # ops) s l = (case step op s of (rc, s') \<Rightarrow> run ops s' (log_step op rc l))"

lemma run_sim: "sim s l \<Longrightarrow> \<forall>op \<in> set ops. 0 \<notin> set (op_pages op) \<Longrightarrow> run ops s l = (s', l') \<Longrightarrow> sim s' l'"
proof (induction ops arbitrary: s l)
  case (Cons op ops)
  obtain rc t where t: "step op s = (rc, t)" by fastforce
  with step_sim [OF Cons.prems(1)] Cons.prems(2) have "sim t (log_step op rc l)" by auto
  with Cons t show ?case by simp
qed simp

lemma run_committed:
  "sim s (C, W) \<Longrightarrow> \<forall>op \<in> set ops. 0 \<notin> set (op_pages op) \<and> (\<forall>b. op \<noteq> Restart b) \<Longrightarrow> run ops s (C, W) = (s', C', W') \<Longrightarrow> \<exists>D. C' = C @ D"
proof (induction ops arbitrary: s C W)
  case (Cons op ops)
  obtain rc t where t: "step op s = (rc, t)" by fastforce
  obtain C1 W1 where l: "log_step op rc (C, W) = (C1, W1)" by fastforce
  with step_sim [OF Cons.prems(1) _ t] Cons.prems(2) have "sim t (C1, W1)" by auto
  moreover have "run ops t (C1, W1) = (s', C', W')" using Cons.prems(3) t l by simp
  ultimately obtain D where D: "C' = C1 @ D" using Cons.IH [of t C1 W1] Cons.prems(2) by auto
  obtain P where "W = C @ P" using sim_prefix [OF Cons.prems(1)] by blast
  then have "\<exists>E. C1 = C @ E" using l Cons.prems(2) by (cases op) (auto split: if_splits)
  with D show ?case by auto
qed simp

text \<open>What a reader sees does not change.\<close>

lemma snapshot_stable:
  assumes "sim s (C, W)" and "mxFrame (hdr r) \<le> length C"
    and "\<forall>op \<in> set ops. 0 \<notin> set (op_pages op) \<and> (\<forall>b. op \<noteq> Restart b)" and "run ops s (C, W) = (s', l')"
  shows "find s' r p = snapshot_frame r C p"
proof -
  obtain C' W' where l': "l' = (C', W')" by fastforce
  obtain D where D: "C' = C @ D" using run_committed [OF assms(1,3)] assms(4) l' by blast
  have s: "sim s' (C', W')" by (rule run_sim [OF assms(1)]) (use assms(3,4) l' in auto)
  then obtain P where P: "W' = C' @ P" using sim_prefix by blast
  have "find s' r p = snapshot_frame r W' p" by (rule find_law [OF s]) (use assms(2) D P in simp)
  also have "\<dots> = snapshot_frame r C p"
  proof -
    have "linear_search (\<lambda>f. W' ! (f - 1)) p lo m = linear_search (\<lambda>f. C ! (f - 1)) p lo m" if "m \<le> length C" for lo m
      using that by (induction m) (auto simp: D P nth_append)
    with assms(2) show ?thesis by (simp add: snapshot_frame_def)
  qed
  finally show ?thesis .
qed

end

section \<open>The tables implement it\<close>

definition wal_sim :: "wal_state \<Rightarrow> u32 list \<times> u32 list \<Rightarrow> bool" where
  "wal_sim s l =
     (let (w, shared, ap) = s; (C, W) = l
      in \<exists>L P. wi_ok ap L \<and> W = C @ P \<and> take (length W) L = W \<and> mxFrame (hdr w) = length W \<and> mxFrame shared = length C)"

lemma take_prefix: "W = C @ P \<Longrightarrow> take (length W) L = W \<Longrightarrow> take (length C) L = C"
proof -
  assume W: "W = C @ P" "take (length W) L = W"
  have "take (length C) L = take (length C) (take (length W) L)" using W(1) by (simp add: min_absorb1)
  also have "\<dots> = C" unfolding W(2) by (simp add: W(1))
  finally show ?thesis .
qed

lemma take_length_le: "take n L = W \<Longrightarrow> n = length W \<Longrightarrow> length W \<le> length L"
  by (cases "n \<le> length L") auto

lemma append_pages_ok:
  "wi_ok ap L \<Longrightarrow> f \<le> length L \<Longrightarrow> f = length L \<or> mxFrame (hdr w) = f \<Longrightarrow> 0 \<notin> set ps \<Longrightarrow> append_pages map_rc w ap f ps = (rc, ap') \<Longrightarrow>
   \<exists>L'. wi_ok ap' L' \<and> take f L' = take f L \<and> f \<le> length L' \<and> (rc = SQLITE_OK \<longrightarrow> take (f + length ps) L' = take f L @ ps) \<and>
     (rc \<noteq> SQLITE_OK \<longrightarrow> (\<exists>h. rc = map_rc h))"
proof (induction ps arbitrary: ap L f)
  case (Cons p ps)
  show ?case
  proof (cases "map_rc (walFramePage (Suc f)) = SQLITE_OK")
    case True
    obtain ap1 where ap1: "walIndexAppend map_rc w ap (Suc f) p = (SQLITE_OK, ap1)" "wi_ok ap1 (take f L @ [p])"
      using wi_ok_append [where map_rc = map_rc, OF Cons.prems(1-3) _ True, of p] Cons.prems(4) by auto
    let ?L = "take f L @ [p]"
    have len: "length ?L = Suc f" using Cons.prems(2) by simp
    have "append_pages map_rc w ap1 (Suc f) ps = (rc, ap')" using Cons.prems(5) ap1(1) by simp
    from Cons.IH [OF ap1(2) _ _ _ this] len Cons.prems(2,4) obtain L' where
      L': "wi_ok ap' L'" "take (Suc f) L' = take (Suc f) ?L" "Suc f \<le> length L'"
        "rc = SQLITE_OK \<longrightarrow> take (Suc f + length ps) L' = take (Suc f) ?L @ ps" "rc \<noteq> SQLITE_OK \<longrightarrow> (\<exists>h. rc = map_rc h)" by auto
    have "take (Suc f) ?L = ?L" using len by simp
    moreover have "take f L' = take f (take (Suc f) L')" by (simp add: min_absorb1)
    moreover have "take f ?L = take f L" using Cons.prems(2) by simp
    ultimately show ?thesis using L' by (intro exI [of _ L']) auto
  next
    case False
    then have "rc = map_rc (walFramePage (Suc f))" "ap' = ap"
      using Cons.prems(5) by (auto simp: walIndexAppend_def walHashGet_def)
    with False Cons.prems(1,2) show ?thesis by blast
  qed
qed auto

lemma cleanup_sim:
  assumes "wi_ok ap L" and "mxFrame (hdr w) \<le> length L"
  shows "\<exists>L'. wi_ok (walCleanupHash w ap) L' \<and> take (mxFrame (hdr w)) L' = take (mxFrame (hdr w)) L"
  using wi_ok_cleanup [OF assms] by (cases "mxFrame (hdr w) = 0") auto

interpretation wi: log_index wal_sim wal_step "\<lambda>(w, shared, ap) r p. snd (walFindFrame (\<lambda>_. SQLITE_OK) r ap p)"
proof
  fix s l op rc s'
  assume sim: "wal_sim s l" and nz: "0 \<notin> set (op_pages op)" and st: "wal_step op s = (rc, s')"
  obtain w shared ap C W where s: "s = (w, shared, ap)" "l = (C, W)" by (metis surj_pair)
  from sim obtain L P where L: "wi_ok ap L" "W = C @ P" "take (length W) L = W" "mxFrame (hdr w) = length W" "mxFrame shared = length C"
    by (auto simp: wal_sim_def s)
  have WL: "length W \<le> length L" using take_length_le [OF L(3)] by simp
  have CL: "take (length C) L = C" by (rule take_prefix [OF L(2,3)])
  have CW: "length C \<le> length W" using L(2) by simp
  show "wal_sim s' (log_step op rc l)"
  proof (cases op)
    case (Frames map_rc szp ps nTruncate isCommit)
    obtain rc1 ap1 where a: "append_pages map_rc w ap (mxFrame (hdr w)) ps = (rc1, ap1)" by fastforce
    from append_pages_ok [OF L(1) _ _ _ a] WL L(4) nz Frames obtain L' where
      L': "wi_ok ap1 L'" "take (length W) L' = W" "rc1 = SQLITE_OK \<longrightarrow> take (length W + length ps) L' = W @ ps"
      using L(3) by auto
    show ?thesis using st L' L a
      by (auto simp: Frames s walFrames_index_def wal_sim_def Let_def add.assoc split: if_splits)
  next
    case (Undo xUndo)
    let ?w = "w\<lparr>hdr := shared\<rparr>"
    obtain L' where L': "wi_ok (walCleanupHash ?w ap) L'" "take (length C) L' = take (length C) L"
      using cleanup_sim [OF L(1), of ?w] CW WL L(5) by auto
    show ?thesis using st L L' CL
      by (auto simp: Undo s sqlite3WalUndo_def wal_sim_def Let_def split: if_splits prod.splits)
  next
    case (Savepoint_undo k ck)
    let ?f = "length C + k"
    let ?w = "w\<lparr>hdr := hdr w\<lparr>mxFrame := ?f, aFrameCksum := ck\<rparr>\<rparr>"
    show ?thesis
    proof (cases "?f < length W")
      case True
      obtain L' where L': "wi_ok (walCleanupHash ?w ap) L'" "take ?f L' = take ?f L"
        using cleanup_sim [OF L(1), of ?w] True WL by auto
      have t: "take ?f L = take ?f W" using True L(3) by (metis less_imp_le_nat min_absorb1 take_take)
      have p: "take ?f W = C @ take k P" using L(2) by simp
      have n: "length (take ?f W) = ?f" using True by simp
      have "s' = (?w, shared, walCleanupHash ?w ap)"
        using st True L(4,5) by (simp add: Savepoint_undo s sqlite3WalSavepointUndo_def Let_def)
      then show ?thesis using L' t p n L(5)
        by (auto simp: Savepoint_undo s wal_sim_def Let_def)
    next
      case False
      then have "s' = s" "take ?f W = W" using st L(4,5) by (auto simp: Savepoint_undo s sqlite3WalSavepointUndo_def Let_def)
      then show ?thesis using sim by (simp add: Savepoint_undo s)
    qed
  next
    case (Crash map_rc ps)
    obtain rc1 ap1 where a: "append_pages map_rc w ap (mxFrame (hdr w)) ps = (rc1, ap1)" by fastforce
    from append_pages_ok [OF L(1) _ _ _ a] WL L(4) nz Crash obtain L' where
      L': "wi_ok ap1 L'" "take (length W) L' = W"
      using L(3) by auto
    have "take (length C) L' = C" by (rule take_prefix [OF L(2) L'(2)])
    then show ?thesis using st L'(1) L(5) a by (auto simp: Crash s wal_sim_def Let_def)
  next
    case (Restart salt1)
    show ?thesis using st L(1) by (auto simp: Restart s walRestartHdr_def wal_sim_def Let_def)
  qed
next
  fix s C W p and r :: Wal assume sim: "wal_sim s (C, W)" and m: "mxFrame (hdr r) \<le> length W"
  obtain w shared ap where s: "s = (w, shared, ap)" by (metis surj_pair)
  from sim obtain L where L: "wi_ok ap L" "take (length W) L = W" by (auto simp: wal_sim_def s)
  have WL: "length W \<le> length L" using take_length_le [OF L(2)] by simp
  obtain rc f where f: "walFindFrame (\<lambda>_. SQLITE_OK) r ap p = (rc, f)" by fastforce
  have "f = snapshot_frame r L p" using find_ok [OF L(1) _ f] m WL by (auto split: if_splits)
  also have "\<dots> = snapshot_frame r W p"
  proof -
    have "linear_search (\<lambda>f. L ! (f - 1)) p lo k = linear_search (\<lambda>f. W ! (f - 1)) p lo k" if "k \<le> length W" for lo k
      using that by (induction k) (auto simp: nth_take [of _ "length W" L, unfolded L(2)])
    with m show ?thesis by (simp add: snapshot_frame_def)
  qed
  finally show "(case s of (w, shared, ap) \<Rightarrow> \<lambda>r p. snd (walFindFrame (\<lambda>_. SQLITE_OK) r ap p)) r p = snapshot_frame r W p"
    using f by (simp add: s)
next
  fix s C W assume "wal_sim s (C, W)"
  then show "\<exists>P. W = C @ P" by (auto simp: wal_sim_def split: prod.splits)
qed

text \<open>A search that maps all the pages it needs answers as if none could fail.\<close>

lemma find_mapped: "walFindFrame map_rc r ap p = (SQLITE_OK, f) \<Longrightarrow> walFindFrame (\<lambda>_. SQLITE_OK) r ap p = (SQLITE_OK, f)"
proof -
  have "scan_tables map_rc r ap p hs = (SQLITE_OK, f) \<Longrightarrow> scan_tables (\<lambda>_. SQLITE_OK) r ap p hs = (SQLITE_OK, f)" for hs
    by (induction hs) (auto simp: walHashGet_def split: if_splits option.splits)
  then show "walFindFrame map_rc r ap p = (SQLITE_OK, f) \<Longrightarrow> ?thesis" by (auto simp: walFindFrame_def simp del: upt_Suc split: if_splits)
qed

section \<open>The properties\<close>

fun wal_run :: "wal_op list \<Rightarrow> wal_state \<Rightarrow> u32 list \<times> u32 list \<Rightarrow> wal_state \<times> (u32 list \<times> u32 list)" where
  "wal_run [] s l = (s, l)"
| "wal_run (op # ops) s l = (case wal_step op s of (rc, s') \<Rightarrow> wal_run ops s' (log_step op rc l))"

lemma wal_run_eq: "wal_run ops s l = wi.run ops s l"
  by (induction ops arbitrary: s l) (auto split: prod.splits)

text \<open>A fresh wal-index: no frame, tables with any content.\<close>

definition fresh :: "wal_state \<Rightarrow> bool" where
  "fresh s =
     (let (w, shared, ap) = s
      in mxFrame (hdr w) = 0 \<and> mxFrame shared = 0 \<and> (\<forall>h. length (aPgno (ap h)) = cap h \<and> length (aHash (ap h)) = 8192))"

lemma fresh_sim: "fresh s \<Longrightarrow> wal_sim s ([], [])"
proof -
  assume "fresh s"
  moreover obtain w shared ap where s: "s = (w, shared, ap)" by (metis surj_pair)
  ultimately have "wi_ok ap []" "mxFrame (hdr w) = 0" "mxFrame shared = 0" by (auto simp: fresh_def wi_ok_def chunk_def)
  then show ?thesis unfolding s by (auto simp: wal_sim_def)
qed

text \<open>C6: a reader's snapshot of the log is stable. Take any transactions, rollbacks, savepoints,
  crashes of writers (with the entries they leave behind in the tables) and restarts, with any
  pages of the wal-index that cannot be mapped, which lead to the committed log \<open>C\<close>; let a
  reader open a snapshot of frames of \<open>C\<close>; then whatever is done after that, restarts of the log
  aside, its search for a page answers what a linear search through its frames of \<open>C\<close> answers,
  whenever it can map the tables it needs. And the writer finds its own frames.\<close>

theorem wal_snapshot_stable:
  assumes "fresh s0" and "\<forall>op \<in> set (ops1 @ ops2). 0 \<notin> set (op_pages op)" and "\<forall>op \<in> set ops2. \<forall>b. op \<noteq> Restart b"
    and "wal_run ops1 s0 ([], []) = (s1, C, W)" and "wal_run ops2 s1 (C, W) = ((w2, shared2, ap2), C2, W2)"
    and "mxFrame (hdr r) \<le> length C" and "walFindFrame map_rc r ap2 p = (SQLITE_OK, f)"
  shows "f = snapshot_frame r C p \<and>
    snd (walFindFrame (\<lambda>_. SQLITE_OK) w2 ap2 p) = snapshot_frame w2 W2 p \<and> mxFrame (hdr w2) = length W2"
proof -
  have s1: "wal_sim s1 (C, W)"
    by (rule wi.run_sim [OF fresh_sim [OF assms(1)], of ops1]) (use assms(2,4) in \<open>auto simp: wal_run_eq\<close>)
  have ok2: "\<forall>op \<in> set ops2. 0 \<notin> set (op_pages op) \<and> (\<forall>b. op \<noteq> Restart b)" using assms(2,3) by simp
  have run2: "wi.run ops2 s1 (C, W) = ((w2, shared2, ap2), C2, W2)" using assms(5) by (simp add: wal_run_eq)
  have s2: "wal_sim (w2, shared2, ap2) (C2, W2)" by (rule wi.run_sim [OF s1 _ run2]) (use ok2 in blast)
  have "f = snapshot_frame r C p"
    using wi.snapshot_stable [OF s1 assms(6) ok2 run2, of p] find_mapped [OF assms(7)] by simp
  moreover have m: "mxFrame (hdr w2) = length W2" using s2 by (auto simp: wal_sim_def)
  moreover have "snd (walFindFrame (\<lambda>_. SQLITE_OK) w2 ap2 p) = snapshot_frame w2 W2 p"
    using wi.find_law [OF s2, of w2 p] m by simp
  ultimately show ?thesis by blast
qed

text \<open>The search through the hash tables is the linear search through the log that the source
  uses to check it, for any log of any length that was entered frame by frame in one transaction,
  and it reports SQLITE_CORRUPT never: an error code is that of a page that cannot be mapped.\<close>

theorem walFindFrame_linear:
  assumes "fresh (w, shared, ap)" and "0 \<notin> set ps" and "append_pages (\<lambda>_. SQLITE_OK) w ap 0 ps = (rc, ap')"
    and "mxFrame (hdr r) \<le> length ps" and "readLock r \<noteq> 0" and "walFindFrame map_rc r ap' p = (rc', f)"
  shows "rc = SQLITE_OK \<and>
    (if rc' = SQLITE_OK then f = linear_search (walFramePgno ap') p (minFrame r) (mxFrame (hdr r)) else \<exists>h. rc' = map_rc h)"
proof -
  have "wi_ok ap []" using assms(1) by (auto simp: fresh_def wi_ok_def chunk_def)
  from append_pages_ok [OF this _ _ assms(2) assms(3)] obtain L where
    L: "wi_ok ap' L" "rc = SQLITE_OK \<longrightarrow> take (length ps) L = ps" "rc \<noteq> SQLITE_OK \<longrightarrow> rc = SQLITE_OK" by auto
  then have n: "length ps \<le> length L" by (metis nat_le_linear take_all)
  have "if rc' = SQLITE_OK then f = snapshot_frame r L p else \<exists>h. rc' = map_rc h"
    using find_ok [OF L(1) _ assms(6)] assms(4) n by simp
  moreover have "linear_search (\<lambda>f. L ! (f - 1)) p lo m = linear_search (walFramePgno ap') p lo m" if "m \<le> length L" for lo m
    using that by (induction m) (auto simp: framePgno_ok [OF L(1)])
  ultimately show ?thesis using L(3) assms(4,5) n by (auto simp: snapshot_frame_def)
qed

section \<open>A run\<close>

definition demo_hdr :: WalIndexHdr where
  "demo_hdr = \<lparr>iChange = 0, bigEndCksum = False, hdr_szPage = 1024, mxFrame = 0, nPage = 1, aFrameCksum = (1, 2),
     aSalt = [1, 2, 3, 4, 5, 6, 7, 8]\<rparr>"

definition demo_handle :: Wal where
  "demo_handle = \<lparr>hdr = demo_hdr, szPage = 1024, readLock = 1, bShmUnreliable = False, minFrame = 1, iReCksum = 0, nCkpt = 0\<rparr>"

definition demo_tables :: wi_data where
  "demo_tables = (\<lambda>h. \<lparr>aPgno = replicate (cap h) 0, aHash = replicate 8192 0\<rparr>)"

definition demo_reader :: Wal where
  "demo_reader = demo_handle\<lparr>hdr := demo_hdr\<lparr>mxFrame := 3\<rparr>\<rparr>"

abbreviation mapped :: "nat \<Rightarrow> int" where
  "mapped \<equiv> \<lambda>_. SQLITE_OK"

lemma demo_fresh: "fresh (demo_handle, demo_hdr, demo_tables)"
  by (simp add: fresh_def demo_handle_def demo_hdr_def demo_tables_def)

lemma find_rc: "wi_ok ap L \<Longrightarrow> mxFrame (hdr r) \<le> length L \<Longrightarrow> walFindFrame mapped r ap p = (SQLITE_OK, snd (walFindFrame mapped r ap p))"
  using find_ok [of ap L r mapped p] by (metis prod.collapse)

lemma mapped_frames: "0 \<notin> set ps \<Longrightarrow> wal_step (Frames mapped szp ps n c) (w, shared, ap) = (rc, s') \<Longrightarrow> wal_sim (w, shared, ap) (C, W) \<Longrightarrow> rc = SQLITE_OK"
proof -
  assume ps: "0 \<notin> set ps" and st: "wal_step (Frames mapped szp ps n c) (w, shared, ap) = (rc, s')" and sim: "wal_sim (w, shared, ap) (C, W)"
  from sim obtain L where L: "wi_ok ap L" "take (length W) L = W" "mxFrame (hdr w) = length W" by (auto simp: wal_sim_def)
  obtain rc1 ap1 where a: "append_pages mapped w ap (mxFrame (hdr w)) ps = (rc1, ap1)" by fastforce
  from append_pages_ok [OF L(1) _ _ ps a] L(3) take_length_le [OF L(2)] have "rc1 = SQLITE_OK" by auto
  with st a show ?thesis by (simp add: walFrames_index_def Let_def split: if_splits)
qed

lemma wal_snapshot_stable_witness:
  "case wal_run [Frames mapped 1024 [5, 7, 5] 9 True] (demo_handle, demo_hdr, demo_tables) ([], []) of
     (s1, l) \<Rightarrow> case wal_run [Frames mapped 1024 [5] 9 False, Undo (\<lambda>_. 0), Crash mapped [8, 5], Frames mapped 1024 [5] 9 True] s1 l of
     ((w2, shared2, ap2), l2) \<Rightarrow> snd (walFindFrame mapped demo_reader ap2 5) = 3"
proof -
  let ?ops1 = "[Frames mapped 1024 [5, 7, 5] 9 True]"
  let ?ops2 = "[Frames mapped 1024 [5] 9 False, Undo (\<lambda>_. 0), Crash mapped [8, 5], Frames mapped 1024 [5] 9 True]"
  let ?s0 = "(demo_handle, demo_hdr, demo_tables)"
  obtain rc s1 where st: "wal_step (Frames mapped 1024 [5, 7, 5] 9 True) ?s0 = (rc, s1)" by (metis surj_pair)
  have "rc = SQLITE_OK" by (rule mapped_frames [OF _ st fresh_sim [OF demo_fresh]]) simp
  then have r1: "wal_run ?ops1 ?s0 ([], []) = (s1, [5, 7, 5], [5, 7, 5])" using st by simp
  obtain w2 shared2 ap2 C2 W2 where r2: "wal_run ?ops2 s1 ([5, 7, 5], [5, 7, 5]) = ((w2, shared2, ap2), C2, W2)" by (metis surj_pair)
  have ok: "\<forall>op \<in> set (?ops1 @ ?ops2). 0 \<notin> set (op_pages op)" "\<forall>op \<in> set ?ops2. \<forall>b. op \<noteq> Restart b" by simp_all
  have "wal_sim ((w2, shared2, ap2)) (C2, W2)"
    using wi.run_sim [OF fresh_sim [OF demo_fresh], of "?ops1 @ ?ops2" "(w2, shared2, ap2)" "(C2, W2)"] ok(1) r1 r2
    by (simp add: wal_run_eq split: prod.splits)
  then obtain L P where L: "wi_ok ap2 L" "W2 = C2 @ P" "take (length W2) L = W2" by (auto simp: wal_sim_def)
  have "\<exists>D. C2 = [5, 7, 5] @ D"
    using wi.run_committed [of s1 "[5, 7, 5]" "[5, 7, 5]" ?ops2 "(w2, shared2, ap2)" C2 W2] ok r2
      wi.run_sim [OF fresh_sim [OF demo_fresh], of ?ops1 s1 "([5, 7, 5], [5, 7, 5])"] r1 by (simp add: wal_run_eq)
  then have len: "mxFrame (hdr demo_reader) \<le> length L"
    using L(2) take_length_le [OF L(3)] by (auto simp: demo_reader_def)
  have "snd (walFindFrame mapped demo_reader ap2 5) = snapshot_frame demo_reader [5, 7, 5] 5"
    using wal_snapshot_stable [OF demo_fresh ok r1 r2 _ find_rc [OF L(1) len]] by (simp add: demo_reader_def)
  also have "\<dots> = 3" by (simp add: snapshot_frame_def demo_reader_def demo_handle_def numeral_3_eq_3)
  finally show ?thesis unfolding r1 prod.case r2 .
qed

lemma walFindFrame_linear_witness:
  "\<exists>ap'. append_pages mapped demo_handle demo_tables 0 [5, 7, 5] = (SQLITE_OK, ap') \<and>
     snd (walFindFrame mapped demo_reader ap' 7) = linear_search (walFramePgno ap') 7 1 3"
proof -
  obtain rc ap' where a: "append_pages mapped demo_handle demo_tables 0 [5, 7, 5] = (rc, ap')" by fastforce
  obtain rc' f where f: "walFindFrame mapped demo_reader ap' 7 = (rc', f)" by fastforce
  have "0 \<notin> set [5, 7, 5 :: u32]" "mxFrame (hdr demo_reader) \<le> length [5, 7, 5 :: u32]" "readLock demo_reader \<noteq> 0"
    by (simp_all add: demo_reader_def demo_handle_def)
  from walFindFrame_linear [OF demo_fresh this(1) a this(2,3) f] have
    "rc = SQLITE_OK" "f = linear_search (walFramePgno ap') 7 (minFrame demo_reader) (mxFrame (hdr demo_reader))"
    by (auto split: if_splits)
  with a f show ?thesis by (simp add: demo_reader_def demo_handle_def)
qed

end
