(* ===== verification/Shm_Lock.thy ===== *)
theory Shm_Lock
  imports Prelude
begin

text \<open>
  The locks on shared memory (unixShmLock of os_unix.c in sqlite3.c) that serialise the users of
  the write-ahead log. All connections of one process share a node with a counter for each of the 8
  locks; each connection keeps two masks of what it holds. \<open>sys\<close> is the result of
  unixShmSystemLock, which asks the system for the lock of the process. The routine implements a
  table of locks, each with its holders.
\<close>

section \<open>The routine\<close>

definition SQLITE_SHM_NLOCK :: nat where "SQLITE_SHM_NLOCK = 8"
definition SQLITE_IOERR_SHMLOCK :: int where "SQLITE_IOERR_SHMLOCK = 10 + 20 * 256"

record unixShm =
  sharedMask :: u16
  exclMask :: u16

text \<open>\<open>pShm\<close> is the state of each connection, \<open>None\<close> where there is no shared memory.\<close>

record unixShmNode =
  aLock :: "int list"
  pShm :: "nat \<Rightarrow> unixShm option"

datatype shm_flags = Lock_shared | Lock_exclusive | Unlock_shared | Unlock_exclusive

datatype flock_type = F_UNLCK | F_RDLCK | F_WRLCK

definition lock_mask :: "nat \<Rightarrow> nat \<Rightarrow> u16" where
  "lock_mask ofst n = push_bit (ofst + n) 1 - push_bit ofst 1"

text \<open>\<open>memset\<close> and the loop that fills a range of \<open>aLock\<close>.\<close>

definition fill :: "int list \<Rightarrow> nat \<Rightarrow> nat \<Rightarrow> int \<Rightarrow> int list" where
  "fill xs ofst n v = take ofst xs @ replicate n v @ drop (ofst + n) xs"

definition shm_unlock :: "(flock_type \<Rightarrow> nat \<Rightarrow> nat \<Rightarrow> int) \<Rightarrow> nat \<Rightarrow> unixShm \<Rightarrow> nat \<Rightarrow> nat \<Rightarrow> bool \<Rightarrow> unixShmNode \<Rightarrow> int \<times> unixShmNode" where
  "shm_unlock sys fd p ofst n isShared node =
     (let m = lock_mask ofst n
      in if isShared \<and> aLock node ! ofst > 1 then
           (SQLITE_OK, node\<lparr>aLock := (aLock node)[ofst := aLock node ! ofst - 1],
                            pShm := (pShm node)(fd := Some (p\<lparr>sharedMask := sharedMask p AND NOT m\<rparr>))\<rparr>)
         else
           (let rc = sys F_UNLCK ofst n
            in if rc = SQLITE_OK then
                 (rc, node\<lparr>aLock := fill (aLock node) ofst n 0,
                           pShm := (pShm node)(fd := Some \<lparr>sharedMask = sharedMask p AND NOT m, exclMask = exclMask p AND NOT m\<rparr>)\<rparr>)
               else (rc, node)))"

definition shm_lock_shared :: "(flock_type \<Rightarrow> nat \<Rightarrow> nat \<Rightarrow> int) \<Rightarrow> nat \<Rightarrow> unixShm \<Rightarrow> nat \<Rightarrow> nat \<Rightarrow> unixShmNode \<Rightarrow> int \<times> unixShmNode" where
  "shm_lock_shared sys fd p ofst n node =
     (let rc = (if aLock node ! ofst < 0 then SQLITE_BUSY
                else if aLock node ! ofst = 0 then sys F_RDLCK ofst n else SQLITE_OK)
      in if rc = SQLITE_OK then
           (rc, node\<lparr>aLock := (aLock node)[ofst := aLock node ! ofst + 1],
                     pShm := (pShm node)(fd := Some (p\<lparr>sharedMask := sharedMask p OR lock_mask ofst n\<rparr>))\<rparr>)
         else (rc, node))"

definition shm_lock_exclusive :: "(flock_type \<Rightarrow> nat \<Rightarrow> nat \<Rightarrow> int) \<Rightarrow> nat \<Rightarrow> unixShm \<Rightarrow> nat \<Rightarrow> nat \<Rightarrow> unixShmNode \<Rightarrow> int \<times> unixShmNode" where
  "shm_lock_exclusive sys fd p ofst n node =
     (let rc = (if list_ex (\<lambda>ii. aLock node ! ii \<noteq> 0) [ofst..<ofst + n] then SQLITE_BUSY else sys F_WRLCK ofst n)
      in if rc = SQLITE_OK then
           (rc, node\<lparr>aLock := fill (aLock node) ofst n (-1),
                     pShm := (pShm node)(fd := Some (p\<lparr>exclMask := exclMask p OR lock_mask ofst n\<rparr>))\<rparr>)
         else (rc, node))"

definition unixShmLock :: "(flock_type \<Rightarrow> nat \<Rightarrow> nat \<Rightarrow> int) \<Rightarrow> nat \<Rightarrow> nat \<Rightarrow> nat \<Rightarrow> shm_flags \<Rightarrow> unixShmNode \<Rightarrow> int \<times> unixShmNode" where
  "unixShmLock sys fd ofst n flags node =
     (case pShm node fd of
        None \<Rightarrow> (SQLITE_IOERR_SHMLOCK, node)
      | Some p \<Rightarrow>
          (let m = lock_mask ofst n
           in case flags of
                Lock_shared \<Rightarrow> if sharedMask p AND m = 0 then shm_lock_shared sys fd p ofst n node else (SQLITE_OK, node)
              | Lock_exclusive \<Rightarrow> shm_lock_exclusive sys fd p ofst n node
              | Unlock_shared \<Rightarrow> if (exclMask p OR sharedMask p) AND m \<noteq> 0 then shm_unlock sys fd p ofst n True node else (SQLITE_OK, node)
              | Unlock_exclusive \<Rightarrow> if (exclMask p OR sharedMask p) AND m \<noteq> 0 then shm_unlock sys fd p ofst n False node else (SQLITE_OK, node)))"

section \<open>The table of locks\<close>

text \<open>For each lock the connection that holds it exclusively, or those that share it.\<close>

record lock_table =
  excl :: "nat \<Rightarrow> nat option"
  shared :: "nat \<Rightarrow> nat list"

definition free :: "lock_table \<Rightarrow> nat \<Rightarrow> bool" where
  "free t i \<longleftrightarrow> excl t i = None \<and> shared t i = []"

definition lock_shared :: "nat \<Rightarrow> nat \<Rightarrow> lock_table \<Rightarrow> int \<times> lock_table" where
  "lock_shared p i t =
     (if excl t i \<noteq> None then (SQLITE_BUSY, t) else (SQLITE_OK, t\<lparr>shared := (shared t)(i := p # shared t i)\<rparr>))"

definition unlock_shared :: "nat \<Rightarrow> nat \<Rightarrow> lock_table \<Rightarrow> lock_table" where
  "unlock_shared p i t = t\<lparr>shared := (shared t)(i := remove1 p (shared t i))\<rparr>"

definition lock_exclusive :: "nat \<Rightarrow> nat \<Rightarrow> nat \<Rightarrow> lock_table \<Rightarrow> int \<times> lock_table" where
  "lock_exclusive p i n t =
     (if list_all (free t) [i..<i + n] then (SQLITE_OK, t\<lparr>excl := \<lambda>j. if i \<le> j \<and> j < i + n then Some p else excl t j\<rparr>)
      else (SQLITE_BUSY, t))"

definition unlock_exclusive :: "nat \<Rightarrow> nat \<Rightarrow> lock_table \<Rightarrow> lock_table" where
  "unlock_exclusive i n t = t\<lparr>excl := \<lambda>j. if i \<le> j \<and> j < i + n then None else excl t j\<rparr>"

text \<open>What the assertions of the source ask of a call.\<close>

definition lock_call :: "nat \<Rightarrow> nat \<Rightarrow> nat \<Rightarrow> shm_flags \<Rightarrow> lock_table \<Rightarrow> bool" where
  "lock_call fd ofst n flags t \<longleftrightarrow>
     1 \<le> n \<and> ofst + n \<le> SQLITE_SHM_NLOCK \<and>
     (case flags of
        Lock_shared \<Rightarrow> n = 1 \<and> fd \<notin> set (shared t ofst)
      | Unlock_shared \<Rightarrow> n = 1 \<and> fd \<in> set (shared t ofst)
      | Lock_exclusive \<Rightarrow> True
      | Unlock_exclusive \<Rightarrow> (\<forall>i. ofst \<le> i \<and> i < ofst + n \<longrightarrow> excl t i = Some fd))"

fun table_lock :: "nat \<Rightarrow> nat \<Rightarrow> nat \<Rightarrow> shm_flags \<Rightarrow> lock_table \<Rightarrow> int \<times> lock_table" where
  "table_lock fd ofst n Lock_shared t = lock_shared fd ofst t"
| "table_lock fd ofst n Unlock_shared t = (SQLITE_OK, unlock_shared fd ofst t)"
| "table_lock fd ofst n Lock_exclusive t = lock_exclusive fd ofst n t"
| "table_lock fd ofst n Unlock_exclusive t = (SQLITE_OK, unlock_exclusive ofst n t)"

text \<open>The node holds the table.\<close>

definition lock_sim :: "unixShmNode \<Rightarrow> lock_table \<Rightarrow> bool" where
  "lock_sim node t \<longleftrightarrow>
     length (aLock node) = SQLITE_SHM_NLOCK \<and>
     (\<forall>i < SQLITE_SHM_NLOCK.
        distinct (shared t i) \<and> (excl t i = None \<or> shared t i = []) \<and>
        aLock node ! i = (if excl t i = None then int (length (shared t i)) else -1)) \<and>
     (\<forall>fd. case pShm node fd of None \<Rightarrow> \<forall>i < SQLITE_SHM_NLOCK. excl t i \<noteq> Some fd \<and> fd \<notin> set (shared t i)
        | Some p \<Rightarrow> \<forall>i < SQLITE_SHM_NLOCK. bit (sharedMask p) i = (fd \<in> set (shared t i)) \<and> bit (exclMask p) i = (excl t i = Some fd))"

lemma bit_lock_mask: "ofst + n \<le> 8 \<Longrightarrow> bit (lock_mask ofst n) i \<longleftrightarrow> ofst \<le> i \<and> i < ofst + n"
proof -
  assume b: "ofst + n \<le> 8"
  have "lock_mask ofst n = push_bit ofst (mask n)"
    by (simp add: lock_mask_def mask_eq_exp_minus_1 push_bit_eq_mult power_add algebra_simps)
  then show ?thesis using b by (auto simp: bit_push_bit_iff bit_mask_iff)
qed

lemma fill_nth: "ofst + n \<le> length xs \<Longrightarrow> i < length xs \<Longrightarrow> fill xs ofst n v ! i = (if ofst \<le> i \<and> i < ofst + n then v else xs ! i)"
  by (auto simp: fill_def nth_append min_def)

lemma length_fill: "ofst + n \<le> length xs \<Longrightarrow> length (fill xs ofst n v) = length xs"
  by (simp add: fill_def)

lemma mask_disjoint: "ofst + n \<le> 8 \<Longrightarrow> m AND lock_mask ofst n = 0 \<longleftrightarrow> (\<forall>i. ofst \<le> i \<and> i < ofst + n \<longrightarrow> \<not> bit m i)"
proof -
  assume b: "ofst + n \<le> 8"
  have "m AND lock_mask ofst n = 0 \<longleftrightarrow> (\<forall>i < 16. \<not> (bit m i \<and> ofst \<le> i \<and> i < ofst + n))"
    by (auto simp: bit_eq_iff bit_and_iff bit_lock_mask [OF b])
  also have "\<dots> \<longleftrightarrow> (\<forall>i. ofst \<le> i \<and> i < ofst + n \<longrightarrow> \<not> bit m i)"
  proof (intro iffI allI impI)
    fix i assume h: "\<forall>i < 16. \<not> (bit m i \<and> ofst \<le> i \<and> i < ofst + n)" and i: "ofst \<le> i \<and> i < ofst + n"
    then have "i < 16" using b by linarith
    with h i show "\<not> bit m i" by blast
  qed blast
  finally show ?thesis .
qed

section \<open>The routine implements the table\<close>

definition upd :: "unixShmNode \<Rightarrow> nat \<Rightarrow> int list \<Rightarrow> unixShm \<Rightarrow> unixShmNode" where
  "upd node fd a p = node\<lparr>aLock := a, pShm := (pShm node)(fd := Some p)\<rparr>"

lemma sim_upd:
  assumes "lock_sim node t" and "length a = 8"
    and "\<And>i. i < 8 \<Longrightarrow> distinct (shared t' i) \<and> (excl t' i = None \<or> shared t' i = []) \<and>
           a ! i = (if excl t' i = None then int (length (shared t' i)) else -1)"
    and "\<And>i. i < 8 \<Longrightarrow> bit (sharedMask p) i = (fd \<in> set (shared t' i)) \<and> bit (exclMask p) i = (excl t' i = Some fd)"
    and "\<And>i q. i < 8 \<Longrightarrow> q \<noteq> fd \<Longrightarrow> (q \<in> set (shared t' i)) = (q \<in> set (shared t i)) \<and> (excl t' i = Some q) = (excl t i = Some q)"
  shows "lock_sim (upd node fd a p) t'"
proof -
  have "case (pShm (upd node fd a p)) q of None \<Rightarrow> \<forall>i < SQLITE_SHM_NLOCK. excl t' i \<noteq> Some q \<and> q \<notin> set (shared t' i)
        | Some p \<Rightarrow> \<forall>i < SQLITE_SHM_NLOCK. bit (sharedMask p) i = (q \<in> set (shared t' i)) \<and> bit (exclMask p) i = (excl t' i = Some q)" for q
  proof (cases "q = fd")
    case True
    then show ?thesis using assms(4) by (simp add: upd_def SQLITE_SHM_NLOCK_def)
  next
    case False
    then have "pShm (upd node fd a p) q = pShm node q" by (simp add: upd_def)
    moreover have "case pShm node q of None \<Rightarrow> \<forall>i < SQLITE_SHM_NLOCK. excl t i \<noteq> Some q \<and> q \<notin> set (shared t i)
        | Some p \<Rightarrow> \<forall>i < SQLITE_SHM_NLOCK. bit (sharedMask p) i = (q \<in> set (shared t i)) \<and> bit (exclMask p) i = (excl t i = Some q)"
      using assms(1) by (simp add: lock_sim_def)
    ultimately show ?thesis using assms(5) [OF _ False] by (auto simp: SQLITE_SHM_NLOCK_def split: option.splits)
  qed
  then show ?thesis using assms(2,3) by (simp add: lock_sim_def upd_def SQLITE_SHM_NLOCK_def)
qed

lemma sim_entry:
  assumes "lock_sim node t" and "i < 8"
  shows "distinct (shared t i)" and "excl t i = None \<or> shared t i = []" and "aLock node ! i = (if excl t i = None then int (length (shared t i)) else -1)"
  using assms by (auto simp: lock_sim_def SQLITE_SHM_NLOCK_def)

lemma sim_masks:
  assumes "lock_sim node t" and "pShm node fd = Some p" and "i < 8"
  shows "bit (sharedMask p) i = (fd \<in> set (shared t i))" and "bit (exclMask p) i = (excl t i = Some fd)"
proof -
  have "case pShm node fd of None \<Rightarrow> \<forall>i < SQLITE_SHM_NLOCK. excl t i \<noteq> Some fd \<and> fd \<notin> set (shared t i)
        | Some p \<Rightarrow> \<forall>i < SQLITE_SHM_NLOCK. bit (sharedMask p) i = (fd \<in> set (shared t i)) \<and> bit (exclMask p) i = (excl t i = Some fd)"
    using assms(1) by (simp add: lock_sim_def)
  with assms(2,3) show "bit (sharedMask p) i = (fd \<in> set (shared t i))" "bit (exclMask p) i = (excl t i = Some fd)"
    by (simp_all add: SQLITE_SHM_NLOCK_def)
qed

lemma sim_len: "lock_sim node t \<Longrightarrow> length (aLock node) = 8"
  by (simp add: lock_sim_def SQLITE_SHM_NLOCK_def)

lemma sim_free: "lock_sim node t \<Longrightarrow> i < 8 \<Longrightarrow> aLock node ! i = 0 \<longleftrightarrow> free t i"
  using sim_entry [of node t i] by (auto simp: free_def)

lemma shared_refines:
  assumes sim: "lock_sim node t" and p: "pShm node fd = Some p" and i: "ofst < 8" "fd \<notin> set (shared t ofst)"
    and r: "shm_lock_shared sys fd p ofst 1 node = (rc, node')"
  shows "(rc = fst (lock_shared fd ofst t) \<and> lock_sim node' (snd (lock_shared fd ofst t))) \<or> (node' = node \<and> rc = sys F_RDLCK ofst 1 \<and> rc \<noteq> SQLITE_OK)"
proof (cases "excl t ofst = None")
  case False
  then have "aLock node ! ofst < 0" using sim_entry(3) [OF sim i(1)] by simp
  then have "(rc, node') = (SQLITE_BUSY, node)" using r by (simp add: shm_lock_shared_def SQLITE_BUSY_def SQLITE_OK_def)
  with False sim show ?thesis by (simp add: lock_shared_def)
next
  case True
  then have a: "aLock node ! ofst = int (length (shared t ofst))" using sim_entry(3) [OF sim i(1)] by simp
  show ?thesis
  proof (cases "aLock node ! ofst = 0 \<and> sys F_RDLCK ofst 1 \<noteq> SQLITE_OK")
    case fail: True
    then show ?thesis using r by (auto simp: shm_lock_shared_def Let_def)
  next
    case ok: False
    have n: "rc = SQLITE_OK" "node' = upd node fd ((aLock node)[ofst := aLock node ! ofst + 1]) (p\<lparr>sharedMask := sharedMask p OR lock_mask ofst 1\<rparr>)"
      using r a ok by (auto simp: shm_lock_shared_def Let_def upd_def split: if_splits)
    have "lock_sim node' (t\<lparr>shared := (shared t)(ofst := fd # shared t ofst)\<rparr>)"
      unfolding n(2)
    proof (rule sim_upd [OF sim])
      fix j :: nat assume j: "j < 8"
      show "bit (sharedMask (p\<lparr>sharedMask := sharedMask p OR lock_mask ofst 1\<rparr>)) j = (fd \<in> set (shared (t\<lparr>shared := (shared t)(ofst := fd # shared t ofst)\<rparr>) j)) \<and>
        bit (exclMask (p\<lparr>sharedMask := sharedMask p OR lock_mask ofst 1\<rparr>)) j = (excl (t\<lparr>shared := (shared t)(ofst := fd # shared t ofst)\<rparr>) j = Some fd)"
        using sim_masks [OF sim p j] bit_lock_mask [of ofst 1 j] i(1) j by (auto simp: bit_or_iff)
    qed (use sim_entry [OF sim] sim_len [OF sim] a True i in \<open>auto simp: nth_list_update\<close>)
    with n(1) True show ?thesis by (simp add: lock_shared_def)
  qed
qed

lemma unlock_shared_refines:
  assumes sim: "lock_sim node t" and p: "pShm node fd = Some p" and i: "ofst < 8" "fd \<in> set (shared t ofst)"
    and r: "shm_unlock sys fd p ofst 1 True node = (rc, node')"
  shows "(rc = SQLITE_OK \<and> lock_sim node' (unlock_shared fd ofst t)) \<or> (node' = node \<and> rc = sys F_UNLCK ofst 1 \<and> rc \<noteq> SQLITE_OK)"
proof -
  let ?t = "unlock_shared fd ofst t"
  have e: "excl t ofst = None" "distinct (shared t ofst)" using sim_entry [OF sim i(1)] i(2) by auto
  then have a: "aLock node ! ofst = int (length (shared t ofst))" using sim_entry(3) [OF sim i(1)] by simp
  have len: "length (shared t ofst) = Suc (length (remove1 fd (shared t ofst)))"
    using i(2) length_pos_if_in_set [OF i(2)] by (simp add: length_remove1)
  have ex: "excl ?t = excl t" by (simp add: unlock_shared_def)
  have sh: "shared ?t j = (if j = ofst then remove1 fd (shared t ofst) else shared t j)" for j by (simp add: unlock_shared_def)
  have bits: "bit (sharedMask p AND NOT (lock_mask ofst 1)) j = (fd \<in> set (shared ?t j))"
    "bit (exclMask p) j = (excl ?t j = Some fd)" "bit (exclMask p AND NOT (lock_mask ofst 1)) j = (excl ?t j = Some fd)" if j: "j < 8" for j
  proof -
    have m: "bit (lock_mask ofst 1) j \<longleftrightarrow> j = ofst" using bit_lock_mask [of ofst 1 j] i(1) by auto
    have "bit (NOT (lock_mask ofst 1)) j \<longleftrightarrow> j \<noteq> ofst" using m j by (simp add: bit_not_iff)
    then show "bit (sharedMask p AND NOT (lock_mask ofst 1)) j = (fd \<in> set (shared ?t j))"
      "bit (exclMask p) j = (excl ?t j = Some fd)" "bit (exclMask p AND NOT (lock_mask ofst 1)) j = (excl ?t j = Some fd)"
      using sim_masks [OF sim p j] e by (auto simp: bit_and_iff sh ex)
  qed
  have others: "(q \<in> set (shared ?t j)) = (q \<in> set (shared t j)) \<and> (excl ?t j = Some q) = (excl t j = Some q)" if "q \<noteq> fd" for q j
    using that by (simp add: sh ex)
  have ent: "distinct (shared ?t j) \<and> (excl ?t j = None \<or> shared ?t j = []) \<and>
     (aLock node)[ofst := aLock node ! ofst - 1] ! j = (if excl ?t j = None then int (length (shared ?t j)) else -1)" if j: "j < 8" for j
    using sim_entry [OF sim j] e a len sim_len [OF sim] j by (auto simp: sh ex nth_list_update)
  show ?thesis
  proof (cases "aLock node ! ofst > 1")
    case True
    then have n: "rc = SQLITE_OK" "node' = upd node fd ((aLock node)[ofst := aLock node ! ofst - 1]) (p\<lparr>sharedMask := sharedMask p AND NOT (lock_mask ofst 1)\<rparr>)"
      using r by (auto simp: shm_unlock_def Let_def upd_def)
    have "lock_sim node' ?t" unfolding n(2)
      by (rule sim_upd [OF sim]) (use ent bits others sim_len [OF sim] in auto)
    with n(1) show ?thesis by simp
  next
    case False
    show ?thesis
    proof (cases "sys F_UNLCK ofst 1 = SQLITE_OK")
      case ok: True
      have "fill (aLock node) ofst 1 0 = (aLock node)[ofst := aLock node ! ofst - 1]"
        using False a len sim_len [OF sim] i(1) by (simp add: fill_def upd_conv_take_nth_drop)
      then have n: "rc = SQLITE_OK" "node' = upd node fd ((aLock node)[ofst := aLock node ! ofst - 1])
          \<lparr>sharedMask = sharedMask p AND NOT (lock_mask ofst 1), exclMask = exclMask p AND NOT (lock_mask ofst 1)\<rparr>"
        using r False ok by (auto simp: shm_unlock_def Let_def upd_def)
      have "lock_sim node' ?t" unfolding n(2)
        by (rule sim_upd [OF sim]) (use ent bits others sim_len [OF sim] in auto)
      with n(1) show ?thesis by simp
    next
      case False
      with r \<open>\<not> aLock node ! ofst > 1\<close> show ?thesis by (auto simp: shm_unlock_def Let_def)
    qed
  qed
qed

lemma exclusive_refines:
  assumes sim: "lock_sim node t" and p: "pShm node fd = Some p" and i: "ofst + n \<le> 8"
    and r: "shm_lock_exclusive sys fd p ofst n node = (rc, node')"
  shows "(rc = fst (lock_exclusive fd ofst n t) \<and> lock_sim node' (snd (lock_exclusive fd ofst n t))) \<or>
    (node' = node \<and> rc = sys F_WRLCK ofst n \<and> rc \<noteq> SQLITE_OK)"
proof -
  have "list_ex (\<lambda>ii. aLock node ! ii \<noteq> 0) [ofst..<ofst + n] \<longleftrightarrow> \<not> list_all (free t) [ofst..<ofst + n]"
    using sim_free [OF sim] i by (auto simp: list_ex_iff list_all_iff)
  moreover have "lock_sim (upd node fd (fill (aLock node) ofst n (-1)) (p\<lparr>exclMask := exclMask p OR lock_mask ofst n\<rparr>))
      (t\<lparr>excl := \<lambda>j. if ofst \<le> j \<and> j < ofst + n then Some fd else excl t j\<rparr>)" (is "lock_sim ?n ?t")
    if f: "list_all (free t) [ofst..<ofst + n]"
  proof (rule sim_upd [OF sim])
    have f': "excl t j = None \<and> shared t j = []" if "ofst \<le> j \<and> j < ofst + n" for j
      using f that by (auto simp: list_all_iff free_def)
    show "length (fill (aLock node) ofst n (-1)) = 8" using sim_len [OF sim] i by (simp add: length_fill)
    fix j :: nat assume j: "j < 8"
    show "distinct (shared ?t j) \<and> (excl ?t j = None \<or> shared ?t j = []) \<and>
       fill (aLock node) ofst n (-1) ! j = (if excl ?t j = None then int (length (shared ?t j)) else -1)"
      using sim_entry [OF sim j] f' [of j] fill_nth [of ofst n "aLock node" j "-1"] sim_len [OF sim] i j by auto
    show "bit (sharedMask (p\<lparr>exclMask := exclMask p OR lock_mask ofst n\<rparr>)) j = (fd \<in> set (shared ?t j)) \<and>
       bit (exclMask (p\<lparr>exclMask := exclMask p OR lock_mask ofst n\<rparr>)) j = (excl ?t j = Some fd)"
      using sim_masks [OF sim p j] bit_lock_mask [OF i, of j] by (auto simp: bit_or_iff)
    show "(q \<in> set (shared ?t j)) = (q \<in> set (shared t j)) \<and> (excl ?t j = Some q) = (excl t j = Some q)" if "q \<noteq> fd" for q
      using f' [of j] that by auto
  qed
  ultimately show ?thesis
    using r sim by (auto simp: shm_lock_exclusive_def Let_def lock_exclusive_def upd_def SQLITE_OK_def SQLITE_BUSY_def split: if_splits)
qed

lemma unlock_exclusive_refines:
  assumes sim: "lock_sim node t" and p: "pShm node fd = Some p" and i: "ofst + n \<le> 8" "\<forall>j. ofst \<le> j \<and> j < ofst + n \<longrightarrow> excl t j = Some fd"
    and r: "shm_unlock sys fd p ofst n False node = (rc, node')"
  shows "(rc = SQLITE_OK \<and> lock_sim node' (unlock_exclusive ofst n t)) \<or> (node' = node \<and> rc = sys F_UNLCK ofst n \<and> rc \<noteq> SQLITE_OK)"
proof (cases "sys F_UNLCK ofst n = SQLITE_OK")
  case True
  let ?p = "\<lparr>sharedMask = sharedMask p AND NOT (lock_mask ofst n), exclMask = exclMask p AND NOT (lock_mask ofst n)\<rparr>"
  let ?t = "unlock_exclusive ofst n t"
  have n: "rc = SQLITE_OK" "node' = upd node fd (fill (aLock node) ofst n 0) ?p"
    using r True by (auto simp: shm_unlock_def Let_def upd_def)
  have "lock_sim node' ?t" unfolding n(2)
  proof (rule sim_upd [OF sim])
    show "length (fill (aLock node) ofst n 0) = 8" using sim_len [OF sim] i(1) by (simp add: length_fill)
    fix j :: nat assume j: "j < 8"
    have s: "shared t j = []" if "ofst \<le> j \<and> j < ofst + n" using sim_entry(2) [OF sim j] i(2) that by auto
    show "distinct (shared ?t j) \<and> (excl ?t j = None \<or> shared ?t j = []) \<and>
       fill (aLock node) ofst n 0 ! j = (if excl ?t j = None then int (length (shared ?t j)) else -1)"
      using sim_entry [OF sim j] s fill_nth [of ofst n "aLock node" j 0] sim_len [OF sim] i(1) j by (auto simp: unlock_exclusive_def)
    have "bit (NOT (lock_mask ofst n)) j \<longleftrightarrow> \<not> (ofst \<le> j \<and> j < ofst + n)" using bit_lock_mask [OF i(1), of j] j by (simp add: bit_not_iff)
    then show "bit (sharedMask ?p) j = (fd \<in> set (shared ?t j)) \<and> bit (exclMask ?p) j = (excl ?t j = Some fd)"
      using sim_masks [OF sim p j] s by (auto simp: bit_and_iff unlock_exclusive_def)
    show "(q \<in> set (shared ?t j)) = (q \<in> set (shared t j)) \<and> (excl ?t j = Some q) = (excl t j = Some q)" if "q \<noteq> fd" for q
      using i(2) that by (auto simp: unlock_exclusive_def)
  qed
  with n(1) show ?thesis by simp
next
  case False
  with r show ?thesis by (auto simp: shm_unlock_def Let_def)
qed

text \<open>The masks of the caller, as the assertions of the source give them.\<close>

lemma call_masks:
  assumes sim: "lock_sim node t" and q: "pShm node fd = Some q" and c: "lock_call fd ofst n flags t"
  shows "flags = Lock_shared \<Longrightarrow> sharedMask q AND lock_mask ofst n = 0"
    and "flags = Unlock_shared \<or> flags = Unlock_exclusive \<Longrightarrow> (exclMask q OR sharedMask q) AND lock_mask ofst n \<noteq> 0"
proof -
  have o8: "ofst + n \<le> 8" "1 \<le> n" using c by (simp_all add: lock_call_def SQLITE_SHM_NLOCK_def)
  then have l8: "ofst < 8" by simp
  have m: "bit (exclMask q OR sharedMask q) ofst \<longleftrightarrow> excl t ofst = Some fd \<or> fd \<in> set (shared t ofst)"
    using sim_masks [OF sim q l8] by (auto simp: bit_or_iff)
  show "sharedMask q AND lock_mask ofst n = 0" if "flags = Lock_shared"
  proof -
    have i: "n = 1" "fd \<notin> set (shared t ofst)" using c that by (simp_all add: lock_call_def)
    then have "j = ofst" if "ofst \<le> j \<and> j < ofst + n" for j using that by linarith
    then show ?thesis unfolding mask_disjoint [OF o8(1)] using sim_masks(1) [OF sim q l8] i(2) by blast
  qed
  show "(exclMask q OR sharedMask q) AND lock_mask ofst n \<noteq> 0" if "flags = Unlock_shared \<or> flags = Unlock_exclusive"
  proof -
    have "excl t ofst = Some fd \<or> fd \<in> set (shared t ofst)" using c that o8 by (auto simp: lock_call_def)
    with m have "bit (exclMask q OR sharedMask q) ofst" by simp
    then show ?thesis unfolding mask_disjoint [OF o8(1)] using o8(2) by auto
  qed
qed

lemma shm_call_refines:
  assumes sim: "lock_sim node t" and p: "pShm node fd \<noteq> None" and c: "lock_call fd ofst n flags t"
    and r: "unixShmLock sys fd ofst n flags node = (rc, node')"
  shows "(rc = fst (table_lock fd ofst n flags t) \<and> lock_sim node' (snd (table_lock fd ofst n flags t))) \<or>
    (node' = node \<and> (\<exists>ty. rc = sys ty ofst n) \<and> rc \<noteq> SQLITE_OK)"
proof -
  obtain q where q: "pShm node fd = Some q" using p by blast
  have o8: "ofst + n \<le> 8" "1 \<le> n" using c by (simp_all add: lock_call_def SQLITE_SHM_NLOCK_def)
  show ?thesis
  proof (cases flags)
    case Lock_shared
    then have i: "n = 1" "ofst < 8" "fd \<notin> set (shared t ofst)" using c o8 by (simp_all add: lock_call_def)
    have "sharedMask q AND lock_mask ofst n = 0" by (rule call_masks(1) [OF sim q c Lock_shared])
    then have "shm_lock_shared sys fd q ofst 1 node = (rc, node')" using r Lock_shared q i(1) by (simp add: unixShmLock_def)
    from shared_refines [OF sim q i(2,3) this] show ?thesis using Lock_shared i(1) by auto
  next
    case Unlock_shared
    then have i: "n = 1" "ofst < 8" "fd \<in> set (shared t ofst)" using c o8 by (simp_all add: lock_call_def)
    have "(exclMask q OR sharedMask q) AND lock_mask ofst n \<noteq> 0" using call_masks(2) [OF sim q c] Unlock_shared by blast
    then have "shm_unlock sys fd q ofst 1 True node = (rc, node')" using r Unlock_shared q i(1) by (simp add: unixShmLock_def)
    from unlock_shared_refines [OF sim q i(2,3) this] show ?thesis using Unlock_shared i(1) by auto
  next
    case Lock_exclusive
    then have "shm_lock_exclusive sys fd q ofst n node = (rc, node')" using r q by (simp add: unixShmLock_def)
    from exclusive_refines [OF sim q o8(1) this] show ?thesis using Lock_exclusive by auto
  next
    case Unlock_exclusive
    then have i: "\<forall>j. ofst \<le> j \<and> j < ofst + n \<longrightarrow> excl t j = Some fd" using c by (simp add: lock_call_def)
    have "(exclMask q OR sharedMask q) AND lock_mask ofst n \<noteq> 0" using call_masks(2) [OF sim q c] Unlock_exclusive by blast
    then have "shm_unlock sys fd q ofst n False node = (rc, node')" using r Unlock_exclusive q by (simp add: unixShmLock_def)
    from unlock_exclusive_refines [OF sim q o8(1) i this] show ?thesis using Unlock_exclusive by auto
  qed
qed

section \<open>The answer of the system\<close>

text \<open>
  The system is asked only when the process as a whole takes a lock or gives one up: for a
  lock that nobody in the process has, and when its last holder lets it go. A refusal is the
  result of the call and changes nothing.
\<close>

definition asks_system :: "nat \<Rightarrow> nat \<Rightarrow> nat \<Rightarrow> shm_flags \<Rightarrow> lock_table \<Rightarrow> flock_type option" where
  "asks_system fd ofst n flags t =
     (case flags of
        Lock_shared \<Rightarrow> if free t ofst then Some F_RDLCK else None
      | Lock_exclusive \<Rightarrow> if list_all (free t) [ofst..<ofst + n] then Some F_WRLCK else None
      | Unlock_shared \<Rightarrow> if shared t ofst = [fd] then Some F_UNLCK else None
      | Unlock_exclusive \<Rightarrow> Some F_UNLCK)"

definition table_call :: "(flock_type \<Rightarrow> nat \<Rightarrow> nat \<Rightarrow> int) \<Rightarrow> nat \<Rightarrow> nat \<Rightarrow> nat \<Rightarrow> shm_flags \<Rightarrow> lock_table \<Rightarrow> int \<times> lock_table" where
  "table_call sys fd ofst n flags t =
     (case asks_system fd ofst n flags t of
        None \<Rightarrow> table_lock fd ofst n flags t
      | Some ty \<Rightarrow> if sys ty ofst n = SQLITE_OK then table_lock fd ofst n flags t else (sys ty ofst n, t))"

abbreviation grant :: "flock_type \<Rightarrow> nat \<Rightarrow> nat \<Rightarrow> int" where
  "grant \<equiv> \<lambda>_ _ _. SQLITE_OK"

lemma sole_holder:
  assumes "lock_sim node t" and "ofst < 8" and "fd \<in> set (shared t ofst)"
  shows "aLock node ! ofst > 1 \<longleftrightarrow> shared t ofst \<noteq> [fd]"
proof -
  have e: "distinct (shared t ofst)" "excl t ofst = None" "aLock node ! ofst = int (length (shared t ofst))"
    using sim_entry [OF assms(1,2)] assms(3) by auto
  show ?thesis
  proof (cases "shared t ofst")
    case (Cons x xs)
    with e assms(3) show ?thesis by (cases xs) auto
  qed (use assms(3) in simp)
qed

lemma shm_call_system:
  assumes sim: "lock_sim node t" and q: "pShm node fd = Some q" and c: "lock_call fd ofst n flags t"
  shows "unixShmLock sys fd ofst n flags node =
    (case asks_system fd ofst n flags t of
       None \<Rightarrow> unixShmLock grant fd ofst n flags node
     | Some ty \<Rightarrow> if sys ty ofst n = SQLITE_OK then unixShmLock grant fd ofst n flags node else (sys ty ofst n, node))"
proof -
  have o8: "ofst + n \<le> 8" "1 \<le> n" using c by (simp_all add: lock_call_def SQLITE_SHM_NLOCK_def)
  note m = call_masks [OF sim q c]
  show ?thesis
  proof (cases flags)
    case Lock_shared
    then have "aLock node ! ofst = 0 \<longleftrightarrow> free t ofst" using sim_free [OF sim, of ofst] o8 by simp
    with Lock_shared q m(1) show ?thesis
      by (auto simp: unixShmLock_def shm_lock_shared_def asks_system_def Let_def)
  next
    case Lock_exclusive
    have "list_ex (\<lambda>ii. aLock node ! ii \<noteq> 0) [ofst..<ofst + n] \<longleftrightarrow> \<not> list_all (free t) [ofst..<ofst + n]"
      using sim_free [OF sim] o8 by (auto simp: list_ex_iff list_all_iff)
    with Lock_exclusive q show ?thesis
      by (auto simp: unixShmLock_def shm_lock_exclusive_def asks_system_def Let_def)
  next
    case Unlock_shared
    then have "aLock node ! ofst > 1 \<longleftrightarrow> shared t ofst \<noteq> [fd]"
      using sole_holder [OF sim, of ofst fd] c o8 by (simp add: lock_call_def)
    with Unlock_shared q m(2) show ?thesis
      by (auto simp: unixShmLock_def shm_unlock_def asks_system_def Let_def)
  next
    case Unlock_exclusive
    with q m(2) show ?thesis
      by (auto simp: unixShmLock_def shm_unlock_def asks_system_def Let_def)
  qed
qed

lemma shm_call_table:
  assumes sim: "lock_sim node t" and p: "pShm node fd \<noteq> None" and c: "lock_call fd ofst n flags t"
    and r: "unixShmLock sys fd ofst n flags node = (rc, node')"
  shows "rc = fst (table_call sys fd ofst n flags t) \<and> lock_sim node' (snd (table_call sys fd ofst n flags t))"
proof -
  obtain q where q: "pShm node fd = Some q" using p by blast
  obtain rc1 node1 where g: "unixShmLock grant fd ofst n flags node = (rc1, node1)" by fastforce
  have "rc1 = fst (table_lock fd ofst n flags t) \<and> lock_sim node1 (snd (table_lock fd ofst n flags t))"
    using shm_call_refines [OF sim p c g] by auto
  then show ?thesis
    using r sim shm_call_system [OF sim q c, of sys] unfolding g table_call_def
    by (auto split: option.splits if_splits)
qed

section \<open>Runs of calls\<close>

text \<open>A call comes with the answers the system would give at that moment.\<close>

type_synonym shm_call = "(flock_type \<Rightarrow> nat \<Rightarrow> nat \<Rightarrow> int) \<times> nat \<times> nat \<times> nat \<times> shm_flags"

fun shm_run :: "shm_call list \<Rightarrow> unixShmNode \<Rightarrow> int list \<times> unixShmNode" where
  "shm_run [] node = ([], node)"
| "shm_run ((sys, fd, ofst, n, flags) # cs) node =
     (case unixShmLock sys fd ofst n flags node of
        (rc, node) \<Rightarrow> (case shm_run cs node of (rcs, node) \<Rightarrow> (rc # rcs, node)))"

fun table_run :: "shm_call list \<Rightarrow> lock_table \<Rightarrow> int list \<times> lock_table" where
  "table_run [] t = ([], t)"
| "table_run ((sys, fd, ofst, n, flags) # cs) t =
     (case table_call sys fd ofst n flags t of
        (rc, t) \<Rightarrow> (case table_run cs t of (rcs, t) \<Rightarrow> (rc # rcs, t)))"

fun calls_ok :: "shm_call list \<Rightarrow> lock_table \<Rightarrow> bool" where
  "calls_ok [] t = True"
| "calls_ok ((sys, fd, ofst, n, flags) # cs) t =
     (lock_call fd ofst n flags t \<and> calls_ok cs (snd (table_call sys fd ofst n flags t)))"

definition no_locks :: lock_table where
  "no_locks = \<lparr>excl = \<lambda>_. None, shared = \<lambda>_. []\<rparr>"

definition fresh_node :: unixShmNode where
  "fresh_node = \<lparr>aLock = replicate 8 0, pShm = \<lambda>_. Some \<lparr>sharedMask = 0, exclMask = 0\<rparr>\<rparr>"

lemma fresh_node_sim: "lock_sim fresh_node no_locks"
  by (simp add: lock_sim_def fresh_node_def no_locks_def SQLITE_SHM_NLOCK_def)

lemma unixShmLock_attached: "unixShmLock sys fd ofst n flags node = (rc, node') \<Longrightarrow> \<forall>q. pShm node q \<noteq> None \<Longrightarrow> pShm node' q \<noteq> None"
  by (auto simp: unixShmLock_def shm_lock_shared_def shm_lock_exclusive_def shm_unlock_def Let_def split: option.splits shm_flags.splits if_splits)

lemma shm_run_refines:
  "lock_sim node t \<Longrightarrow> \<forall>q. pShm node q \<noteq> None \<Longrightarrow> calls_ok cs t \<Longrightarrow> shm_run cs node = (rcs, node') \<Longrightarrow>
    rcs = fst (table_run cs t) \<and> lock_sim node' (snd (table_run cs t)) \<and> (\<forall>q. pShm node' q \<noteq> None)"
proof (induction cs arbitrary: node t rcs)
  case (Cons c cs)
  obtain sys fd ofst n flags where c: "c = (sys, fd, ofst, n, flags)" by (metis surj_pair)
  obtain rc node1 where l: "unixShmLock sys fd ofst n flags node = (rc, node1)" by fastforce
  obtain rcs1 where r: "shm_run cs node1 = (rcs1, node')" "rcs = rc # rcs1"
    using Cons.prems(4) l by (auto simp: c split: prod.splits)
  have k: "lock_call fd ofst n flags t" "calls_ok cs (snd (table_call sys fd ofst n flags t))" using Cons.prems(3) by (simp_all add: c)
  have s: "rc = fst (table_call sys fd ofst n flags t)" "lock_sim node1 (snd (table_call sys fd ofst n flags t))"
    using shm_call_table [OF Cons.prems(1) _ k(1) l] Cons.prems(2) by auto
  have "\<forall>q. pShm node1 q \<noteq> None" using unixShmLock_attached [OF l Cons.prems(2)] by blast
  from Cons.IH [OF s(2) this k(2) r(1)] s(1) r(2) show ?case by (simp add: c split_beta)
qed simp

text \<open>
  C37: unixShmLock implements a table of locks. Whatever the connections of a process ask for,
  in any order that the assertions of the source allow, and whatever the system answers to
  the lock requests of the process: a call is refused with SQLITE_BUSY where the table of the
  process has a conflicting holder; the system is asked exactly when the process takes a lock
  nobody in it has, or its last holder (or its exclusive holder) gives it up, and its refusal
  is the result of the call, which then changes nothing; every other call succeeds. The
  masks of a connection are its entries in the table, and no two connections hold a lock
  that one of them holds exclusively.
\<close>

theorem unixShmLock_table:
  assumes "calls_ok cs no_locks" and "shm_run cs fresh_node = (rcs, node)"
    and "table_run cs no_locks = (rcs', t)" and "i < SQLITE_SHM_NLOCK" and "pShm node fd = Some p" and "pShm node fd' = Some p'"
  shows "rcs = rcs' \<and>
    bit (exclMask p) i = (excl t i = Some fd) \<and> bit (sharedMask p) i = (fd \<in> set (shared t i)) \<and>
    (bit (exclMask p) i \<and> (bit (exclMask p') i \<or> bit (sharedMask p') i) \<longrightarrow> fd = fd')"
proof -
  have "\<forall>q. pShm fresh_node q \<noteq> None" by (simp add: fresh_node_def)
  from shm_run_refines [OF fresh_node_sim this assms(1,2)] assms(3)
  have s: "rcs = rcs'" "lock_sim node t" by simp_all
  have i: "i < 8" using assms(4) by (simp add: SQLITE_SHM_NLOCK_def)
  show ?thesis
    using s(1) sim_masks [OF s(2) assms(5) i] sim_masks [OF s(2) assms(6) i] sim_entry(2) [OF s(2) i] by auto
qed

text \<open>The system refuses the first request: another process has the lock.\<close>

definition demo_shm :: "shm_call list" where
  "demo_shm = [(\<lambda>_ _ _. SQLITE_BUSY, 1, 4, 1, Lock_shared), (grant, 1, 4, 1, Lock_shared), (grant, 2, 4, 4, Lock_exclusive),
     (grant, 1, 4, 1, Unlock_shared), (grant, 2, 4, 4, Lock_exclusive)]"

lemma unixShmLock_table_witness:
  "\<exists>rcs node p. shm_run demo_shm fresh_node = (rcs, node) \<and>
     rcs = [SQLITE_BUSY, SQLITE_OK, SQLITE_BUSY, SQLITE_OK, SQLITE_OK] \<and> pShm node 2 = Some p \<and> bit (exclMask p) 5"
proof -
  note defs = demo_shm_def table_call_def asks_system_def no_locks_def SQLITE_SHM_NLOCK_def lock_shared_def
    lock_exclusive_def unlock_shared_def free_def SQLITE_OK_def SQLITE_BUSY_def
  obtain rcs node where r: "shm_run demo_shm fresh_node = (rcs, node)" by fastforce
  have ok: "calls_ok demo_shm no_locks" by (simp add: defs lock_call_def upt_rec)
  obtain rcs' t where t: "table_run demo_shm no_locks = (rcs', t)" by fastforce
  have e: "excl t 5 = Some 2" "rcs' = [SQLITE_BUSY, SQLITE_OK, SQLITE_BUSY, SQLITE_OK, SQLITE_OK]"
    using t by (auto simp: defs upt_rec)
  have "\<forall>q. pShm fresh_node q \<noteq> None" by (simp add: fresh_node_def)
  from shm_run_refines [OF fresh_node_sim this ok r] obtain p where p: "pShm node 2 = Some p" by blast
  have "rcs = rcs' \<and> bit (exclMask p) 5"
    using unixShmLock_table [OF ok r t _ p p, of 5] e by (simp add: SQLITE_SHM_NLOCK_def)
  with p r e show ?thesis by simp
qed

end
