(* ===== verification/Wal_Protocol.thy ===== *)
theory Wal_Protocol
  imports Wal_Iterator Wal_Index_History Shm_Lock
begin

text \<open>
  The protocol of the write-ahead log (wal.c in sqlite3.c): connections that begin and end read
  transactions, write, restart the log and run checkpoints, concurrently, on one shared memory,
  one log file and one database file. A step of a connection is one access to shared memory, to a
  lock or to a file, with the local work before the next one; the release of a lock on an error
  path goes with the access before it. Coarser than that are: the header, whose two copies are read and
  written as one; the hash tables, which one walIndexAppend, walFindFrame, walCleanupHash or
  walIteratorInit (with the two reads of nBackfill around it) takes in one step; and \<open>read_page\<close>, the
  search and the read of the page, which are taken in one state. A write or a truncation that fails leaves the
  file as it was. A connection is in normal locking mode and its shared memory is reliable and writable.
\<close>

section \<open>State\<close>

type_synonym page = "byte list"

text \<open>Shared memory, the table of its locks, and the two files by page: \<open>walFd n\<close> is the page in frame
  \<open>n\<close>, \<open>dbFd\<close> is \<open>None\<close> past the end of the database file.\<close>

record shm =
  live :: WalIndexHdr
  nBackfill :: nat
  aReadMark :: "nat list"
  apWiData :: wi_data
  locks :: lock_table
  walFd :: "nat \<Rightarrow> page"
  dbFd :: "u32 \<Rightarrow> page option"

definition READMARK_NOT_USED :: nat where "READMARK_NOT_USED = 0xffffffff"
definition WAL_NREADER :: nat where "WAL_NREADER = SQLITE_SHM_NLOCK - 3"
definition WAL_WRITE_LOCK :: nat where "WAL_WRITE_LOCK = 0"
definition WAL_CKPT_LOCK :: nat where "WAL_CKPT_LOCK = 1"
definition WAL_READ_LOCK :: "nat \<Rightarrow> nat" where "WAL_READ_LOCK i = 3 + i"
definition SQLITE_INTERRUPT :: int where "SQLITE_INTERRUPT = 9"
definition WAL_RETRY_PROTOCOL_LIMIT :: nat where "WAL_RETRY_PROTOCOL_LIMIT = 100"

lemma lock_numbers [simp]:
  "WAL_NREADER = 5" "WAL_WRITE_LOCK = 0" "WAL_CKPT_LOCK = 1" "WAL_READ_LOCK i = 3 + i"
  by (simp_all add: WAL_NREADER_def SQLITE_SHM_NLOCK_def WAL_WRITE_LOCK_def WAL_CKPT_LOCK_def WAL_READ_LOCK_def)

datatype mode = PASSIVE | FULL | RESTART | TRUNCATE

text \<open>Where a connection is in walTryBeginRead: \<open>Scan i mxReadMark mxI\<close> is the first loop, \<open>Try_mark\<close>
  the second one.\<close>

datatype read_pc =
    Read_hdr
  | Load_backfill
  | Lock_zero
  | Check_zero
  | Scan nat nat nat
  | Try_mark nat nat nat
  | Set_mark nat
  | Drop_mark nat
  | Lock_mark nat nat
  | Set_min nat nat
  | Check_mark nat nat
  | Check_hdr nat nat

text \<open>The writer: the start of a transaction, walRestartLog, the loops of walFrames.\<close>

datatype write_pc =
    Lock_write
  | Check_write
  | Frames_start
  | Restart_load
  | Restart_lock
  | Restart_unlock
  | Restart_drop
  | Write_frames "(u32 \<times> page) list" "u32 list"
  | Index_frames "u32 list" nat
  | Write_error

text \<open>walRestartHdr, of a writer or of a checkpoint.\<close>

datatype restart_pc =
    Publish
  | Zero_backfill
  | Reset_mark nat

text \<open>sqlite3WalCheckpoint and walCheckpoint.\<close>

datatype ckpt_pc =
    Ck_lock
  | Ck_write
  | Ck_hdr
  | Ck_load
  | Ck_mark nat
  | Ck_lock_mark nat nat
  | Ck_set_mark nat
  | Ck_drop_mark nat
  | Ck_iter
  | Ck_lock_zero
  | Ck_backfill
  | Ck_sync
  | Ck_next
  | Ck_copy u32 nat
  | Ck_put u32 page
  | Ck_size
  | Ck_truncate
  | Ck_store
  | Ck_drop_zero int
  | Ck_tail
  | Ck_lock_all
  | Ck_truncate_log
  | Ck_drop_all
  | Ck_end_write
  | Ck_end

datatype pc =
    Idle
  | Begin_read read_pc
  | Reading
  | Writing
  | Write write_pc
  | Restarting restart_pc
  | Ckpt ckpt_pc
  | Ending

record conn =
  pc :: pc
  pWal :: Wal
  writeLock :: bool
  ckptLock :: bool
  useWal :: bool
  cnt :: nat
  todo :: "(u32 \<times> page) list"
  isCommit :: bool
  nTruncate :: u32
  iFirst :: nat
  eMode :: mode
  xBusy :: bool
  mxSafeFrame :: nat
  mxPage :: u32
  pIter :: "WalIterator option"
  ck_nBackfill :: nat

text \<open>
  What the environment supplies to a step: the request of the client, the result of a file operation
  or of mapping a page, whether an allocation fails, whether the busy handler says to try again
  and whether the connection was interrupted, the random salt of a restart and that of a new log, and the checksum of the last frame.
\<close>

datatype request =
    Do_begin_read
  | Do_end_read
  | Do_begin_write
  | Do_frames "(u32 \<times> page) list" bool u32
  | Do_undo
  | Do_end_write
  | Do_checkpoint mode bool

record inp =
  req :: request
  io :: int
  oom :: bool
  again :: bool
  interrupted :: bool
  salt1 :: "byte list"
  salts :: "byte list"
  cksum :: "u32 \<times> u32"

definition goto :: "pc \<Rightarrow> conn \<Rightarrow> conn" where
  "goto l c = c\<lparr>pc := l\<rparr>"

abbreviation hdr_of :: "conn \<Rightarrow> WalIndexHdr" where
  "hdr_of c \<equiv> hdr (pWal c)"

definition set_hdr :: "WalIndexHdr \<Rightarrow> conn \<Rightarrow> conn" where
  "set_hdr h c = c\<lparr>pWal := (pWal c)\<lparr>hdr := h\<rparr>\<rparr>"

section \<open>Beginning to read\<close>

text \<open>WAL_RETRY: the loop around walTryBeginRead, until the limit of tries.\<close>

definition begin_try :: "conn \<Rightarrow> conn" where
  "begin_try c =
     (if cnt c + 1 > WAL_RETRY_PROTOCOL_LIMIT then goto (if useWal c then Write Write_error else Idle) c
      else goto (Begin_read (if useWal c then Scan 1 0 0 else Read_hdr)) (c\<lparr>cnt := cnt c + 1\<rparr>))"

definition begin_fail :: "conn \<Rightarrow> conn" where
  "begin_fail c = goto (if useWal c then Write Write_error else Idle) c"

definition begin_done :: "int \<Rightarrow> conn \<Rightarrow> conn" where
  "begin_done i c =
     goto (if useWal c then Write (Write_frames (todo c) []) else Reading) (c\<lparr>pWal := (pWal c)\<lparr>readLock := i\<rparr>\<rparr>)"

text \<open>The end of the first loop, and of the second one.\<close>

definition after_scan :: "nat \<Rightarrow> nat \<Rightarrow> conn \<Rightarrow> conn" where
  "after_scan mxReadMark mxI c =
     goto (Begin_read (if mxReadMark < mxFrame (hdr_of c) \<or> mxI = 0 then Try_mark 1 mxReadMark mxI else Lock_mark mxReadMark mxI)) c"

definition after_try :: "nat \<Rightarrow> nat \<Rightarrow> conn \<Rightarrow> conn" where
  "after_try mxReadMark mxI c = (if mxI = 0 then begin_try c else goto (Begin_read (Lock_mark mxReadMark mxI)) c)"

fun begin_read_step :: "inp \<Rightarrow> nat \<Rightarrow> read_pc \<Rightarrow> conn \<Rightarrow> shm \<Rightarrow> conn \<times> shm" where
  "begin_read_step i p Read_hdr c s =
     (if io i \<noteq> SQLITE_OK then (if io i = SQLITE_BUSY then begin_try c else begin_fail c, s)
      else (goto (Begin_read Load_backfill) (set_hdr (live s) c), s))"
| "begin_read_step i p Load_backfill c s =
     (goto (Begin_read (if nBackfill s = mxFrame (hdr_of c) then Lock_zero else Scan 1 0 0)) c, s)"
| "begin_read_step i p Lock_zero c s =
     (if io i \<noteq> SQLITE_OK then (begin_fail c, s)
      else (case lock_shared p (WAL_READ_LOCK 0) (locks s) of
        (rc, l) \<Rightarrow> (goto (Begin_read (if rc = SQLITE_OK then Check_zero else Scan 1 0 0)) c, s\<lparr>locks := l\<rparr>)))"
| "begin_read_step i p Check_zero c s =
     (if live s \<noteq> hdr_of c then (begin_try c, s\<lparr>locks := unlock_shared p (WAL_READ_LOCK 0) (locks s)\<rparr>)
      else (begin_done 0 c, s))"
| "begin_read_step i p (Scan n mxReadMark mxI) c s =
     (let thisMark = aReadMark s ! n;
          (m, x) = (if mxReadMark \<le> thisMark \<and> thisMark \<le> mxFrame (hdr_of c) then (thisMark, n) else (mxReadMark, mxI))
      in (if n + 1 < WAL_NREADER then goto (Begin_read (Scan (n + 1) m x)) c else after_scan m x c, s))"
| "begin_read_step i p (Try_mark n mxReadMark mxI) c s =
     (if io i \<noteq> SQLITE_OK then (begin_fail c, s)
      else (case lock_exclusive p (WAL_READ_LOCK n) 1 (locks s) of
        (rc, l) \<Rightarrow>
          if rc = SQLITE_OK then (goto (Begin_read (Set_mark n)) c, s\<lparr>locks := l\<rparr>)
          else (if n + 1 < WAL_NREADER then goto (Begin_read (Try_mark (n + 1) mxReadMark mxI)) c else after_try mxReadMark mxI c, s)))"
| "begin_read_step i p (Set_mark n) c s =
     (goto (Begin_read (Drop_mark n)) c, s\<lparr>aReadMark := (aReadMark s)[n := mxFrame (hdr_of c)]\<rparr>)"
| "begin_read_step i p (Drop_mark n) c s =
     (goto (Begin_read (Lock_mark (mxFrame (hdr_of c)) n)) c, s\<lparr>locks := unlock_exclusive (WAL_READ_LOCK n) 1 (locks s)\<rparr>)"
| "begin_read_step i p (Lock_mark mxReadMark mxI) c s =
     (if io i \<noteq> SQLITE_OK then (begin_fail c, s)
      else (case lock_shared p (WAL_READ_LOCK mxI) (locks s) of
        (rc, l) \<Rightarrow> if rc = SQLITE_OK then (goto (Begin_read (Set_min mxReadMark mxI)) c, s\<lparr>locks := l\<rparr>) else (begin_try c, s)))"
| "begin_read_step i p (Set_min mxReadMark mxI) c s =
     (goto (Begin_read (Check_mark mxReadMark mxI)) (c\<lparr>pWal := (pWal c)\<lparr>minFrame := nBackfill s + 1\<rparr>\<rparr>), s)"
| "begin_read_step i p (Check_mark mxReadMark mxI) c s =
     (if aReadMark s ! mxI \<noteq> mxReadMark then (begin_try c, s\<lparr>locks := unlock_shared p (WAL_READ_LOCK mxI) (locks s)\<rparr>)
      else (goto (Begin_read (Check_hdr mxReadMark mxI)) c, s))"
| "begin_read_step i p (Check_hdr mxReadMark mxI) c s =
     (if live s \<noteq> hdr_of c then (begin_try c, s\<lparr>locks := unlock_shared p (WAL_READ_LOCK mxI) (locks s)\<rparr>)
      else (begin_done (int mxI) c, s))"

section \<open>Restarting the log\<close>

text \<open>walRestartHdr: the new header, and the stores that follow its publication.\<close>

definition restarted :: "byte list \<Rightarrow> shm \<Rightarrow> conn \<Rightarrow> Wal" where
  "restarted salt c_shm c = fst (walRestartHdr salt (pWal c, live c_shm, apWiData c_shm))"

definition after_restart :: "conn \<Rightarrow> conn" where
  "after_restart c = goto (if ckptLock c then Ckpt Ck_truncate_log else Write Restart_unlock) c"

fun restart_step :: "inp \<Rightarrow> restart_pc \<Rightarrow> conn \<Rightarrow> shm \<Rightarrow> conn \<times> shm" where
  "restart_step i Publish c s =
     (let w = restarted (salt1 i) s c
      in (goto (Restarting Zero_backfill) (c\<lparr>pWal := w\<rparr>), s\<lparr>live := hdr w\<rparr>))"
| "restart_step i Zero_backfill c s = (goto (Restarting (Reset_mark 1)) c, s\<lparr>nBackfill := 0\<rparr>)"
| "restart_step i (Reset_mark n) c s =
     (if n + 1 < WAL_NREADER then goto (Restarting (Reset_mark (n + 1))) c else after_restart c,
      s\<lparr>aReadMark := (aReadMark s)[n := if n = 1 then 0 else READMARK_NOT_USED]\<rparr>)"

section \<open>Writing\<close>

text \<open>
  walFrames: \<open>todo\<close> are the pages still to be written, \<open>new\<close> the pages of the frames that were appended.
  A page that the transaction wrote to the log before is written over, unless it is the one that
  carries the commit mark.
\<close>

definition prior_frame :: "inp \<Rightarrow> u32 \<Rightarrow> bool \<Rightarrow> conn \<Rightarrow> shm \<Rightarrow> nat" where
  "prior_frame i p isLast c s =
     (if iFirst c \<noteq> 0 \<and> (\<not> isLast \<or> \<not> isCommit c)
      then snd (walFindFrame (\<lambda>_. if oom i then SQLITE_NOMEM else SQLITE_OK) (pWal c) (apWiData s) p) else 0)"

definition write_frame :: "inp \<Rightarrow> u32 \<times> page \<Rightarrow> (u32 \<times> page) list \<Rightarrow> u32 list \<Rightarrow> conn \<Rightarrow> shm \<Rightarrow> conn \<times> shm" where
  "write_frame i pd rest new c s =
     (let (p, d) = pd;
          iWrite = prior_frame i p (rest = []) c s
      in if io i \<noteq> SQLITE_OK then (goto (Write Write_error) c, s)
         else if iFirst c \<noteq> 0 \<and> iWrite \<ge> iFirst c
         then (goto (Write (Write_frames rest new)) c, s\<lparr>walFd := (walFd s)(iWrite := d)\<rparr>)
         else (goto (Write (Write_frames rest (new @ [p]))) c,
               s\<lparr>walFd := (walFd s)(mxFrame (hdr_of c) + length new + 1 := d)\<rparr>))"

definition commit_hdr :: "inp \<Rightarrow> nat \<Rightarrow> conn \<Rightarrow> WalIndexHdr" where
  "commit_hdr i n c =
     (let h = hdr_of c\<lparr>mxFrame := mxFrame (hdr_of c) + n, aFrameCksum := cksum i,
                       aSalt := if mxFrame (hdr_of c) = 0 \<and> nCkpt (pWal c) = 0 then salts i else aSalt (hdr_of c)\<rparr>
      in if isCommit c then h\<lparr>iChange := iChange h + 1, nPage := nTruncate c\<rparr> else h)"

text \<open>sqlite3WalBeginWriteTransaction: the lock, then the comparison of the headers.\<close>

definition begin_write_lock :: "inp \<Rightarrow> nat \<Rightarrow> conn \<Rightarrow> shm \<Rightarrow> conn \<times> shm" where
  [simp]: "begin_write_lock i p c s =
     (case lock_exclusive p WAL_WRITE_LOCK 1 (locks s) of
        (rc, l) \<Rightarrow> if io i = SQLITE_OK \<and> rc = SQLITE_OK
                  then (goto (Write Check_write) (c\<lparr>writeLock := True\<rparr>), s\<lparr>locks := l\<rparr>) else (goto Reading c, s))"

definition begin_write_check :: "conn \<Rightarrow> shm \<Rightarrow> conn \<times> shm" where
  [simp]: "begin_write_check c s =
     (if hdr_of c \<noteq> live s then
        (goto Reading (c\<lparr>writeLock := False\<rparr>), s\<lparr>locks := unlock_exclusive WAL_WRITE_LOCK 1 (locks s)\<rparr>)
      else (goto Writing c, s))"

text \<open>sqlite3WalUndo.\<close>

definition undo_frames :: "conn \<Rightarrow> shm \<Rightarrow> conn \<times> shm" where
  [simp]: "undo_frames c s =
     (let c' = set_hdr (live s) c
      in (c', if mxFrame (hdr_of c) \<noteq> mxFrame (live s) then s\<lparr>apWiData := walCleanupHash (pWal c') (apWiData s)\<rparr> else s))"

text \<open>
  walFrames before and after the loop over the pages: where overwriting may start; the sync; a round
  of the loop that appends to the index; the publication of the header.
\<close>

definition frames_start :: "conn \<Rightarrow> shm \<Rightarrow> conn \<times> shm" where
  [simp]: "frames_start c s =
     (goto (Write (if readLock (pWal c) = 0 then Restart_load else Write_frames (todo c) []))
        (c\<lparr>iFirst := if hdr_of c \<noteq> live s then mxFrame (live s) + 1 else 0\<rparr>), s)"

definition frames_sync :: "inp \<Rightarrow> u32 list \<Rightarrow> conn \<Rightarrow> shm \<Rightarrow> conn \<times> shm" where
  [simp]: "frames_sync i new c s = (goto (Write (if io i \<noteq> SQLITE_OK then Write_error else Index_frames new 0)) c, s)"

definition frames_index :: "inp \<Rightarrow> u32 \<Rightarrow> u32 list \<Rightarrow> nat \<Rightarrow> conn \<Rightarrow> shm \<Rightarrow> conn \<times> shm" where
  [simp]: "frames_index i pg ps k c s =
     (case walIndexAppend (\<lambda>_. io i) (pWal c) (apWiData s) (mxFrame (hdr_of c) + k + 1) pg of
        (rc, ap) \<Rightarrow> (goto (Write (if rc = SQLITE_OK then Index_frames ps (k + 1) else Write_error)) c, s\<lparr>apWiData := ap\<rparr>))"

definition frames_publish :: "inp \<Rightarrow> nat \<Rightarrow> conn \<Rightarrow> shm \<Rightarrow> conn \<times> shm" where
  [simp]: "frames_publish i k c s =
     (let h = commit_hdr i k c
      in (goto Writing (set_hdr h c), if isCommit c then s\<lparr>live := h\<rparr> else s))"

text \<open>The steps of a writer; the \<open>Restart\<close> ones are walRestartLog.\<close>

fun write_step :: "inp \<Rightarrow> nat \<Rightarrow> write_pc \<Rightarrow> conn \<Rightarrow> shm \<Rightarrow> conn \<times> shm" where
  "write_step i p Lock_write c s = begin_write_lock i p c s"
| "write_step i p Check_write c s = begin_write_check c s"
| "write_step i p Frames_start c s = frames_start c s"
| "write_step i p Restart_load c s = (goto (Write (if nBackfill s > 0 then Restart_lock else Restart_drop)) c, s)"
| "write_step i p Restart_lock c s =
     (if io i \<noteq> SQLITE_OK then (goto (Write Write_error) c, s)
      else (case lock_exclusive p (WAL_READ_LOCK 1) (WAL_NREADER - 1) (locks s) of
        (rc, l) \<Rightarrow> if rc = SQLITE_OK then (goto (Restarting Publish) c, s\<lparr>locks := l\<rparr>) else (goto (Write Restart_drop) c, s)))"
| "write_step i p Restart_unlock c s =
     (goto (Write Restart_drop) c, s\<lparr>locks := unlock_exclusive (WAL_READ_LOCK 1) (WAL_NREADER - 1) (locks s)\<rparr>)"
| "write_step i p Restart_drop c s =
     (begin_try (c\<lparr>pWal := (pWal c)\<lparr>readLock := -1\<rparr>, useWal := True, cnt := 0\<rparr>),
      s\<lparr>locks := unlock_shared p (WAL_READ_LOCK 0) (locks s)\<rparr>)"
| "write_step i p (Write_frames [] new) c s = frames_sync i new c s"
| "write_step i p (Write_frames (pd # rest) new) c s = write_frame i pd rest new c s"
| "write_step i p (Index_frames (pg # ps) k) c s = frames_index i pg ps k c s"
| "write_step i p (Index_frames [] k) c s = frames_publish i k c s"
| "write_step i p Write_error c s =
     (case req i of
        Do_undo \<Rightarrow> undo_frames c s
      | Do_end_write \<Rightarrow> (goto Ending (c\<lparr>writeLock := False\<rparr>), s\<lparr>locks := unlock_exclusive WAL_WRITE_LOCK 1 (locks s)\<rparr>)
      | _ \<Rightarrow> (c, s))"

section \<open>Checkpoints\<close>

text \<open>The end of the loop over the marks of readers, or its next round.\<close>

definition next_mark :: "nat \<Rightarrow> conn \<Rightarrow> conn" where
  "next_mark n c = goto (Ckpt (if n + 1 < WAL_NREADER then Ck_mark (n + 1) else Ck_iter)) c"

text \<open>After the backfill, with its result: BUSY is not reported.\<close>

definition ck_result :: "int \<Rightarrow> conn \<Rightarrow> conn" where
  "ck_result rc c = goto (Ckpt (if rc = SQLITE_OK \<or> rc = SQLITE_BUSY then Ck_tail else Ck_end_write)) c"

fun ckpt_step :: "inp \<Rightarrow> nat \<Rightarrow> ckpt_pc \<Rightarrow> conn \<Rightarrow> shm \<Rightarrow> conn \<times> shm" where
  "ckpt_step i p Ck_lock c s =
     (case lock_exclusive p WAL_CKPT_LOCK 1 (locks s) of
        (rc, l) \<Rightarrow> if io i = SQLITE_OK \<and> rc = SQLITE_OK
                  then (goto (Ckpt (if eMode c = PASSIVE then Ck_hdr else Ck_write)) (c\<lparr>ckptLock := True\<rparr>), s\<lparr>locks := l\<rparr>)
                  else (goto Idle c, s))"
| "ckpt_step i p Ck_write c s =
     (if io i \<noteq> SQLITE_OK then (goto (Ckpt Ck_end) c, s)
      else (case lock_exclusive p WAL_WRITE_LOCK 1 (locks s) of
        (rc, l) \<Rightarrow>
          if rc = SQLITE_OK then (goto (Ckpt Ck_hdr) (c\<lparr>writeLock := True\<rparr>), s\<lparr>locks := l\<rparr>)
          else if xBusy c \<and> again i then (c, s)
          else (goto (Ckpt Ck_hdr) (c\<lparr>eMode := PASSIVE, xBusy := False\<rparr>), s)))"
| "ckpt_step i p Ck_hdr c s =
     (if io i \<noteq> SQLITE_OK then (goto (Ckpt Ck_end_write) c, s) else (goto (Ckpt Ck_load) (set_hdr (live s) c), s))"
| "ckpt_step i p Ck_load c s =
     (if nBackfill s < mxFrame (hdr_of c)
      then (goto (Ckpt (Ck_mark 1)) (c\<lparr>mxSafeFrame := mxFrame (hdr_of c), mxPage := nPage (hdr_of c), pIter := None\<rparr>), s)
      else (goto (Ckpt Ck_tail) c, s))"
| "ckpt_step i p (Ck_mark n) c s =
     (let y = aReadMark s ! n
      in (if mxSafeFrame c > y then goto (Ckpt (Ck_lock_mark n y)) c else next_mark n c, s))"
| "ckpt_step i p (Ck_lock_mark n y) c s =
     (if io i \<noteq> SQLITE_OK then (goto (Ckpt Ck_end_write) c, s)
      else (case lock_exclusive p (WAL_READ_LOCK n) 1 (locks s) of
        (rc, l) \<Rightarrow>
          if rc = SQLITE_OK then (goto (Ckpt (Ck_set_mark n)) c, s\<lparr>locks := l\<rparr>)
          else if xBusy c \<and> again i then (c, s)
          else (next_mark n (c\<lparr>mxSafeFrame := y, xBusy := False\<rparr>), s)))"
| "ckpt_step i p (Ck_set_mark n) c s =
     (goto (Ckpt (Ck_drop_mark n)) c, s\<lparr>aReadMark := (aReadMark s)[n := if n = 1 then mxSafeFrame c else READMARK_NOT_USED]\<rparr>)"
| "ckpt_step i p (Ck_drop_mark n) c s =
     (next_mark n c, s\<lparr>locks := unlock_exclusive (WAL_READ_LOCK n) 1 (locks s)\<rparr>)"
| "ckpt_step i p Ck_iter c s =
     (if nBackfill s < mxSafeFrame c then
        (case walIteratorInit (\<lambda>_. io i) (oom i) (pWal c) (apWiData s) (nBackfill s) of
           (rc, it) \<Rightarrow> (case it of None \<Rightarrow> ck_result rc c | Some _ \<Rightarrow> goto (Ckpt Ck_lock_zero) (c\<lparr>pIter := it\<rparr>), s))
      else (goto (Ckpt Ck_tail) c, s))"
| "ckpt_step i p Ck_lock_zero c s =
     (if io i \<noteq> SQLITE_OK then (ck_result (io i) c, s)
      else (case lock_exclusive p (WAL_READ_LOCK 0) 1 (locks s) of
        (rc, l) \<Rightarrow>
          if rc = SQLITE_OK then (goto (Ckpt Ck_backfill) c, s\<lparr>locks := l\<rparr>)
          else if xBusy c \<and> again i then (c, s)
          else (ck_result rc c, s)))"
| "ckpt_step i p Ck_backfill c s = (goto (Ckpt Ck_sync) (c\<lparr>ck_nBackfill := nBackfill s\<rparr>), s)"
| "ckpt_step i p Ck_sync c s = (goto (Ckpt (if io i = SQLITE_OK then Ck_next else Ck_drop_zero (io i))) c, s)"
| "ckpt_step i p Ck_next c s =
     (case pIter c of
        None \<Rightarrow> (goto (Ckpt (Ck_drop_zero SQLITE_NOMEM)) c, s)
      | Some it \<Rightarrow>
          (case walIteratorNext (apWiData s) it of
             (rc, pg, fr, it') \<Rightarrow>
               (let c' = c\<lparr>pIter := Some it'\<rparr>
                in if rc \<noteq> 0 then (goto (Ckpt Ck_size) c', s)
                   else if interrupted i then (goto (Ckpt (Ck_drop_zero SQLITE_INTERRUPT)) c', s)
                   else
                     (case fr of
                        None \<Rightarrow> (c', s)
                      | Some f \<Rightarrow>
                          if f \<le> ck_nBackfill c \<or> f > mxSafeFrame c \<or> pg > mxPage c then (c', s)
                          else (goto (Ckpt (Ck_copy pg f)) c', s)))))"
| "ckpt_step i p (Ck_copy pg f) c s =
     (if io i \<noteq> SQLITE_OK then (goto (Ckpt (Ck_drop_zero (io i))) c, s)
      else (goto (Ckpt (Ck_put pg (walFd s f))) c, s))"
| "ckpt_step i p (Ck_put pg d) c s =
     (if io i \<noteq> SQLITE_OK then (goto (Ckpt (Ck_drop_zero (io i))) c, s)
      else (goto (Ckpt Ck_next) c, s\<lparr>dbFd := (dbFd s)(pg := Some d)\<rparr>))"
| "ckpt_step i p Ck_size c s = (goto (Ckpt (if mxSafeFrame c = mxFrame (live s) then Ck_truncate else Ck_store)) c, s)"
| "ckpt_step i p Ck_truncate c s =
     (if io i \<noteq> SQLITE_OK then (goto (Ckpt (Ck_drop_zero (io i))) c, s)
      else (goto (Ckpt Ck_store) c, s\<lparr>dbFd := (\<lambda>pg. if pg > nPage (hdr_of c) then None else dbFd s pg)\<rparr>))"
| "ckpt_step i p Ck_store c s =
     (if io i \<noteq> SQLITE_OK then (goto (Ckpt (Ck_drop_zero (io i))) c, s)
      else (goto (Ckpt (Ck_drop_zero SQLITE_OK)) c, s\<lparr>nBackfill := mxSafeFrame c\<rparr>))"
| "ckpt_step i p (Ck_drop_zero rc) c s =
     (ck_result rc c, s\<lparr>locks := unlock_exclusive (WAL_READ_LOCK 0) 1 (locks s)\<rparr>)"
| "ckpt_step i p Ck_tail c s =
     (goto (Ckpt (if eMode c = PASSIVE \<or> nBackfill s < mxFrame (hdr_of c) \<or> eMode c = FULL then Ck_end_write else Ck_lock_all)) c, s)"
| "ckpt_step i p Ck_lock_all c s =
     (if io i \<noteq> SQLITE_OK then (goto (Ckpt Ck_end_write) c, s)
      else (case lock_exclusive p (WAL_READ_LOCK 1) (WAL_NREADER - 1) (locks s) of
        (rc, l) \<Rightarrow>
          if rc = SQLITE_OK then (goto (if eMode c = TRUNCATE then Restarting Publish else Ckpt Ck_drop_all) c, s\<lparr>locks := l\<rparr>)
          else if xBusy c \<and> again i then (c, s)
          else (goto (Ckpt Ck_end_write) c, s)))"
| "ckpt_step i p Ck_truncate_log c s =
     (goto (Ckpt Ck_drop_all) c, if io i = SQLITE_OK then s\<lparr>walFd := \<lambda>_. []\<rparr> else s)"
| "ckpt_step i p Ck_drop_all c s =
     (goto (Ckpt Ck_end_write) c, s\<lparr>locks := unlock_exclusive (WAL_READ_LOCK 1) (WAL_NREADER - 1) (locks s)\<rparr>)"
| "ckpt_step i p Ck_end_write c s =
     (goto (Ckpt Ck_end) (c\<lparr>writeLock := False\<rparr>),
      if writeLock c then s\<lparr>locks := unlock_exclusive WAL_WRITE_LOCK 1 (locks s)\<rparr> else s)"
| "ckpt_step i p Ck_end c s =
     (goto Idle (c\<lparr>ckptLock := False\<rparr>), s\<lparr>locks := unlock_exclusive WAL_CKPT_LOCK 1 (locks s)\<rparr>)"

section \<open>A connection\<close>

text \<open>
  What the pager asks for, in the states that allow it, and the end of a read transaction
  (sqlite3WalEndReadTransaction). A write transaction ends committed or rolled back.
\<close>

definition idle_step :: "inp \<Rightarrow> conn \<Rightarrow> conn" where
  "idle_step i c =
     (case req i of
        Do_begin_read \<Rightarrow> begin_try (c\<lparr>useWal := False, cnt := 0\<rparr>)
      | Do_checkpoint m b \<Rightarrow> goto (Ckpt Ck_lock) (c\<lparr>eMode := m, xBusy := (b \<and> m \<noteq> PASSIVE)\<rparr>)
      | _ \<Rightarrow> c)"

definition reading_step :: "inp \<Rightarrow> conn \<Rightarrow> conn" where
  "reading_step i c =
     (case req i of Do_end_read \<Rightarrow> goto Ending c | Do_begin_write \<Rightarrow> goto (Write Lock_write) c | _ \<Rightarrow> c)"

definition writing_step :: "inp \<Rightarrow> conn \<Rightarrow> shm \<Rightarrow> conn \<times> shm" where
  "writing_step i c s =
     (case req i of
        Do_frames ps b n \<Rightarrow> (goto (Write Frames_start) (c\<lparr>todo := ps, isCommit := b, nTruncate := n\<rparr>), s)
      | Do_undo \<Rightarrow> undo_frames c s
      | Do_end_write \<Rightarrow>
          if hdr_of c \<noteq> live s then (c, s)
          else (goto Reading (c\<lparr>writeLock := False\<rparr>), s\<lparr>locks := unlock_exclusive WAL_WRITE_LOCK 1 (locks s)\<rparr>)
      | _ \<Rightarrow> (c, s))"

definition ending_step :: "nat \<Rightarrow> conn \<Rightarrow> shm \<Rightarrow> conn \<times> shm" where
  "ending_step p c s =
     (if readLock (pWal c) \<ge> 0
      then (goto Idle (c\<lparr>pWal := (pWal c)\<lparr>readLock := -1\<rparr>\<rparr>),
            s\<lparr>locks := unlock_shared p (WAL_READ_LOCK (nat (readLock (pWal c)))) (locks s)\<rparr>)
      else (goto Idle c, s))"

definition conn_step :: "inp \<Rightarrow> nat \<Rightarrow> conn \<Rightarrow> shm \<Rightarrow> conn \<times> shm" where
  "conn_step i p c s =
     (case pc c of
        Idle \<Rightarrow> (idle_step i c, s)
      | Begin_read l \<Rightarrow> begin_read_step i p l c s
      | Reading \<Rightarrow> (reading_step i c, s)
      | Writing \<Rightarrow> writing_step i c s
      | Write l \<Rightarrow> write_step i p l c s
      | Restarting l \<Rightarrow> restart_step i l c s
      | Ckpt l \<Rightarrow> ckpt_step i p l c s
      | Ending \<Rightarrow> ending_step p c s)"

text \<open>What a reader gets for a page: sqlite3WalFindFrame, then the log or the database file.\<close>

definition read_page :: "conn \<Rightarrow> shm \<Rightarrow> u32 \<Rightarrow> page option" where
  "read_page c s p =
     (let f = snd (walFindFrame (\<lambda>_. SQLITE_OK) (pWal c) (apWiData s) p)
      in if f \<noteq> 0 then Some (walFd s f) else dbFd s p)"

end
