(* ===== verification/Wal_System.thy ===== *)
theory Wal_System
  imports Wal_Protocol
begin

text \<open>
  The connections together, and what their steps mean: beside the memory and the connections a state
  records the headers that were published, the frames that are committed, the contents of the
  database as of the last commit, and for each connection the contents when its read transaction
  began. A run takes one step of one connection at a time, in any order.
\<close>

section \<open>The system\<close>

record sys =
  mem :: shm
  conns :: "nat \<Rightarrow> conn"
  hist :: "WalIndexHdr list"
  log :: "(u32 \<times> page) list"
  truth :: "u32 \<Rightarrow> page option"
  points :: "(nat \<times> u32) list"
  epoch :: "nat \<Rightarrow> nat"
  snapFrame :: "nat \<Rightarrow> nat"
  snapSize :: "nat \<Rightarrow> u32"
  snapshot :: "nat \<Rightarrow> u32 \<Rightarrow> page option"
  txn :: "nat \<Rightarrow> (u32 \<times> page) list"

text \<open>The last version of a page in a list of frames, and a database after a transaction.\<close>

definition last_of :: "(u32 \<times> page) list \<Rightarrow> u32 \<Rightarrow> page option" where
  "last_of fs pg = map_of (rev fs) pg"

definition apply_txn :: "(u32 \<times> page) list \<Rightarrow> u32 \<Rightarrow> (u32 \<Rightarrow> page option) \<Rightarrow> u32 \<Rightarrow> page option" where
  "apply_txn fs n db pg = (if pg > n then None else (case last_of fs pg of Some d \<Rightarrow> Some d | None \<Rightarrow> db pg))"

text \<open>What a step of a connection is, for the record.\<close>

definition restarts :: "conn \<Rightarrow> bool" where
  "restarts c \<longleftrightarrow> pc c = Restarting Publish"

definition commits :: "conn \<Rightarrow> bool" where
  "commits c \<longleftrightarrow> isCommit c \<and> (case pc c of Write (Index_frames ps k) \<Rightarrow> ps = [] | _ \<Rightarrow> False)"

definition reads_hdr :: "conn \<Rightarrow> bool" where
  "reads_hdr c \<longleftrightarrow> pc c = Begin_read Read_hdr \<or> pc c = Ckpt Ck_hdr"

definition begins :: "conn \<Rightarrow> conn \<Rightarrow> bool" where
  "begins c c' \<longleftrightarrow> readLock (pWal c) < 0 \<and> readLock (pWal c') \<ge> 0"

definition txn_after :: "inp \<Rightarrow> conn \<Rightarrow> conn \<Rightarrow> shm \<Rightarrow> (u32 \<times> page) list \<Rightarrow> (u32 \<times> page) list" where
  "txn_after i c c' m t =
     (case pc c of
        Write (Write_frames fs new) \<Rightarrow>
          (case fs of [] \<Rightarrow> t
           | pd # rest \<Rightarrow>
               if pc c' = Write Write_error then t
               else if pc c' = Write (Write_frames rest new)
               then t[prior_frame i (fst pd) (rest = []) c m - mxFrame (live m) - 1 := pd] else t @ [pd])
      | Write Check_write \<Rightarrow> []
      | Write Write_error \<Rightarrow> if req i = Do_undo then [] else t
      | Writing \<Rightarrow> if req i = Do_undo then [] else t
      | _ \<Rightarrow> if restarts c \<or> commits c then [] else t)"

definition sys_step :: "inp \<Rightarrow> nat \<Rightarrow> sys \<Rightarrow> sys" where
  "sys_step i p s =
     (let c = conns s p;
          (c', m') = conn_step i p c (mem s);
          pub = restarts c \<or> commits c;
          tr = (if commits c then apply_txn (txn s p) (nTruncate c) (truth s) else truth s);
          new = (begins c c' \<or> commits c)
      in \<lparr>mem = m', conns = (conns s)(p := c'),
          hist = (if pub then live m' # hist s else hist s),
          log = (if restarts c then [] else if commits c then log s @ txn s p else log s),
          truth = tr,
          points = (if restarts c then [(0, nPage (live m'))]
                    else if commits c then (mxFrame (live m'), nPage (live m')) # points s else points s),
          epoch = (epoch s)(p := if pub then Suc (length (hist s)) else if reads_hdr c then length (hist s) else epoch s p),
          snapFrame = (snapFrame s)(p := if new then mxFrame (live m') else snapFrame s p),
          snapSize = (snapSize s)(p := if new then nPage (live m') else snapSize s p),
          snapshot = (snapshot s)(p := if new then tr else snapshot s p),
          txn = (txn s)(p := txn_after i c c' (mem s) (txn s p))\<rparr>)"

section \<open>Runs\<close>

text \<open>
  What the pager keeps to: pages have valid numbers, and a transaction that makes the database
  larger writes every page that it adds.
\<close>

definition covers :: "u32 \<Rightarrow> u32 \<Rightarrow> u32 list \<Rightarrow> bool" where
  "covers m n ps \<longleftrightarrow> list_all (\<lambda>k. of_nat k \<in> set ps) [unat m + 1..<unat n + 1]"

definition request_ok :: "inp \<Rightarrow> nat \<Rightarrow> sys \<Rightarrow> bool" where
  "request_ok i p s \<longleftrightarrow>
     (case req i of
        Do_frames ps b n \<Rightarrow>
          pc (conns s p) = Writing \<longrightarrow>
            ps \<noteq> [] \<and> list_all (\<lambda>(pg, d). pg \<noteq> 0 \<and> pg < 0xFFFFFFFF) ps \<and>
            (b \<longrightarrow> covers (nPage (live (mem s))) n (map fst (txn s p @ ps)))
      | _ \<Rightarrow> True)"

text \<open>
  A writer publishes the header of a restarted log while a checkpoint has read the header but
  not yet the number of frames that were backfilled.
\<close>

definition reset_race :: "nat \<Rightarrow> sys \<Rightarrow> bool" where
  "reset_race p s \<longleftrightarrow> pc (conns s p) = Restarting Publish \<and> (\<exists>q. q \<noteq> p \<and> pc (conns s q) = Ckpt Ck_load)"

definition initial :: "sys \<Rightarrow> bool" where
  "initial s \<longleftrightarrow>
     mxFrame (live (mem s)) = 0 \<and> nBackfill (mem s) = 0 \<and> length (aReadMark (mem s)) = WAL_NREADER \<and>
     wi_ok (apWiData (mem s)) [] \<and> locks (mem s) = no_locks \<and>
     (\<forall>p. pc (conns s p) = Idle \<and> readLock (pWal (conns s p)) = -1 \<and> \<not> bShmUnreliable (pWal (conns s p)) \<and>
          \<not> writeLock (conns s p) \<and> \<not> ckptLock (conns s p) \<and> epoch s p = 0) \<and>
     hist s = [live (mem s)] \<and> log s = [] \<and> truth s = dbFd (mem s) \<and> points s = [(0, nPage (live (mem s)))]"

text \<open>\<open>guarded\<close> runs are those without the race.\<close>

inductive reach :: "bool \<Rightarrow> sys \<Rightarrow> sys \<Rightarrow> bool" for guarded :: bool and s0 :: sys where
  start: "initial s0 \<Longrightarrow> reach guarded s0 s0"
| step: "reach guarded s0 s \<Longrightarrow> request_ok i p s \<Longrightarrow> guarded \<longrightarrow> \<not> reset_race p s \<Longrightarrow> reach guarded s0 (sys_step i p s)"

inductive_cases reachE: "reach guarded s0 s"

section \<open>Frames\<close>

lemma last_of_Nil [simp]: "last_of [] pg = None"
  by (simp add: last_of_def)

lemma last_of_append: "last_of (xs @ ys) pg = (case last_of ys pg of Some d \<Rightarrow> Some d | None \<Rightarrow> last_of xs pg)"
  by (cases "map_of (rev ys) pg") (simp_all add: last_of_def map_add_def)

lemma last_of_None: "last_of xs pg = None \<longleftrightarrow> pg \<notin> fst ` set xs"
  by (simp add: last_of_def map_of_eq_None_iff)

lemma last_of_index:
  assumes "f < length xs" and "fst (xs ! f) = pg" and "\<forall>g. f < g \<and> g < length xs \<longrightarrow> fst (xs ! g) \<noteq> pg"
  shows "last_of xs pg = Some (snd (xs ! f))"
proof -
  have xs: "xs = take f xs @ xs ! f # drop (Suc f) xs" using assms(1) by (simp add: id_take_nth_drop)
  have "last_of (drop (Suc f) xs) pg = None"
    unfolding last_of_None
  proof
    assume "pg \<in> fst ` set (drop (Suc f) xs)"
    then obtain j where "j < length xs - Suc f" "fst (xs ! (Suc f + j)) = pg" by (auto simp: in_set_conv_nth)
    with assms(3) show False by (metis add_Suc less_add_Suc1 less_diff_conv2 add.commute not_less_iff_gr_or_eq le_add1 less_diff_conv)
  qed
  moreover have "last_of [xs ! f] pg = Some (snd (xs ! f))" using assms(2) by (cases "xs ! f") (simp add: last_of_def)
  ultimately have "last_of (take f xs @ ([xs ! f] @ drop (Suc f) xs)) pg = Some (snd (xs ! f))"
    by (simp only: last_of_append option.case)
  then show ?thesis using xs by simp
qed

lemma last_of_mono:
  assumes "last_of (drop b (take m xs)) pg \<noteq> None" and "b' \<le> b" and "m \<le> m'"
  shows "last_of (drop b' (take m' xs)) pg \<noteq> None"
proof -
  have "set (drop b (take m xs)) \<subseteq> set (drop b' (take m' xs))"
  proof
    fix x assume "x \<in> set (drop b (take m xs))"
    then obtain j where j: "j < length (drop b (take m xs))" "x = drop b (take m xs) ! j" by (metis in_set_conv_nth)
    then have m: "b + j < m" "b + j < length xs" by auto
    then have "drop b (take m xs) ! j = take m xs ! (b + j)" by (intro nth_drop) simp
    with j m have "x = xs ! (b + j)" "b + j < m" "b + j < length xs" by simp_all
    then show "x \<in> set (drop b' (take m' xs))"
      using assms(2,3) by (auto simp: in_set_conv_nth intro!: exI [of _ "b + j - b'"])
  qed
  with assms(1) show ?thesis unfolding last_of_None by blast
qed

lemma covers_iff: "covers m n ps \<longleftrightarrow> (\<forall>pg. m < pg \<and> pg \<le> n \<longrightarrow> pg \<in> set ps)"
proof -
  have "(\<forall>k. unat m + 1 \<le> k \<and> k < unat n + 1 \<longrightarrow> (of_nat k :: u32) \<in> set ps) \<longleftrightarrow> (\<forall>pg. m < pg \<and> pg \<le> n \<longrightarrow> pg \<in> set ps)"
  proof (intro iffI allI impI)
    fix pg assume a: "\<forall>k. unat m + 1 \<le> k \<and> k < unat n + 1 \<longrightarrow> (of_nat k :: u32) \<in> set ps" and "m < pg \<and> pg \<le> n"
    then have "unat m + 1 \<le> unat pg \<and> unat pg < unat n + 1" by (simp add: word_less_nat_alt word_le_nat_alt)
    with a have "(of_nat (unat pg) :: u32) \<in> set ps" by blast
    then show "pg \<in> set ps" by simp
  next
    fix k assume a: "\<forall>pg. m < pg \<and> pg \<le> n \<longrightarrow> pg \<in> set ps" and k: "unat m + 1 \<le> k \<and> k < unat n + 1"
    then have "k < 2 ^ 32" using unsigned_less [of n, where ?'a = nat] by simp
    then have "unat (of_nat k :: u32) = k" by (simp add: unsigned_of_nat take_bit_nat_eq_self_iff)
    then have "m < of_nat k" "of_nat k \<le> n" using k by (simp_all add: word_less_nat_alt word_le_nat_alt)
    with a show "(of_nat k :: u32) \<in> set ps" by blast
  qed
  then show ?thesis by (auto simp: covers_def list_all_iff)
qed

end
