(* ===== verification/Wal_Locks.thy ===== *)
theory Wal_Locks
  imports Wal_System
begin

text \<open>
  The control state of a connection and the locks it holds: each state has its locks, each step
  that needs a lock takes it, and none is left behind.
\<close>

section \<open>The states of a connection\<close>

definition reading_lock :: "conn \<Rightarrow> bool" where
  "reading_lock c \<longleftrightarrow> 0 \<le> readLock (pWal c) \<and> readLock (pWal c) \<le> 4"

fun read_shape :: "conn \<Rightarrow> read_pc \<Rightarrow> bool" where
  "read_shape c (Scan n m x) = (1 \<le> n \<and> n \<le> 4 \<and> x \<le> 4)"
| "read_shape c (Try_mark n m x) = (1 \<le> n \<and> n \<le> 4 \<and> x \<le> 4)"
| "read_shape c (Set_mark n) = (1 \<le> n \<and> n \<le> 4)"
| "read_shape c (Drop_mark n) = (1 \<le> n \<and> n \<le> 4)"
| "read_shape c (Lock_mark m x) = (1 \<le> x \<and> x \<le> 4)"
| "read_shape c (Set_min m x) = (1 \<le> x \<and> x \<le> 4)"
| "read_shape c (Check_mark m x) = (1 \<le> x \<and> x \<le> 4)"
| "read_shape c (Check_hdr m x) = (1 \<le> x \<and> x \<le> 4)"
| "read_shape c Read_hdr = (\<not> useWal c)"
| "read_shape c Load_backfill = (\<not> useWal c)"
| "read_shape c Lock_zero = (\<not> useWal c)"
| "read_shape c Check_zero = (\<not> useWal c)"

fun write_shape :: "conn \<Rightarrow> write_pc \<Rightarrow> bool" where
  "write_shape c Lock_write = (reading_lock c \<and> \<not> writeLock c)"
| "write_shape c Check_write = (reading_lock c \<and> writeLock c)"
| "write_shape c Frames_start = (reading_lock c \<and> writeLock c)"
| "write_shape c (Write_frames fs new) = (reading_lock c \<and> readLock (pWal c) \<noteq> 0 \<and> writeLock c)"
| "write_shape c (Index_frames ps k) = (reading_lock c \<and> readLock (pWal c) \<noteq> 0 \<and> writeLock c)"
| "write_shape c Write_error = ((reading_lock c \<or> readLock (pWal c) = -1) \<and> writeLock c)"
| "write_shape c Restart_load = (readLock (pWal c) = 0 \<and> writeLock c)"
| "write_shape c Restart_lock = (readLock (pWal c) = 0 \<and> writeLock c)"
| "write_shape c Restart_unlock = (readLock (pWal c) = 0 \<and> writeLock c)"
| "write_shape c Restart_drop = (readLock (pWal c) = 0 \<and> writeLock c)"

fun ckpt_shape :: "conn \<Rightarrow> ckpt_pc \<Rightarrow> bool" where
  "ckpt_shape c Ck_lock = (\<not> ckptLock c \<and> \<not> writeLock c)"
| "ckpt_shape c Ck_write = (ckptLock c \<and> \<not> writeLock c \<and> eMode c \<noteq> PASSIVE)"
| "ckpt_shape c Ck_end = (ckptLock c \<and> \<not> writeLock c)"
| "ckpt_shape c (Ck_mark n) = (ckptLock c \<and> writeLock c = (eMode c \<noteq> PASSIVE) \<and> 1 \<le> n \<and> n \<le> 4)"
| "ckpt_shape c (Ck_lock_mark n y) = (ckptLock c \<and> writeLock c = (eMode c \<noteq> PASSIVE) \<and> 1 \<le> n \<and> n \<le> 4)"
| "ckpt_shape c (Ck_set_mark n) = (ckptLock c \<and> writeLock c = (eMode c \<noteq> PASSIVE) \<and> 1 \<le> n \<and> n \<le> 4)"
| "ckpt_shape c (Ck_drop_mark n) = (ckptLock c \<and> writeLock c = (eMode c \<noteq> PASSIVE) \<and> 1 \<le> n \<and> n \<le> 4)"
| "ckpt_shape c Ck_lock_all = (ckptLock c \<and> writeLock c \<and> eMode c \<noteq> PASSIVE)"
| "ckpt_shape c Ck_truncate_log = (ckptLock c \<and> writeLock c \<and> eMode c \<noteq> PASSIVE)"
| "ckpt_shape c Ck_drop_all = (ckptLock c \<and> writeLock c \<and> eMode c \<noteq> PASSIVE)"
| "ckpt_shape c l = (ckptLock c \<and> writeLock c = (eMode c \<noteq> PASSIVE))"

fun restart_shape :: "restart_pc \<Rightarrow> bool" where
  "restart_shape (Reset_mark n) = (1 \<le> n \<and> n \<le> 4)"
| "restart_shape l = True"

definition shape :: "conn \<Rightarrow> bool" where
  "shape c \<longleftrightarrow> \<not> bShmUnreliable (pWal c) \<and>
     (case pc c of
        Idle \<Rightarrow> readLock (pWal c) = -1 \<and> \<not> writeLock c \<and> \<not> ckptLock c
      | Begin_read l \<Rightarrow> readLock (pWal c) = -1 \<and> writeLock c = useWal c \<and> \<not> ckptLock c \<and> read_shape c l
      | Reading \<Rightarrow> reading_lock c \<and> \<not> writeLock c \<and> \<not> ckptLock c
      | Writing \<Rightarrow> reading_lock c \<and> writeLock c \<and> \<not> ckptLock c
      | Write l \<Rightarrow> \<not> ckptLock c \<and> write_shape c l
      | Restarting l \<Rightarrow> writeLock c \<and> restart_shape l \<and>
          (if ckptLock c then readLock (pWal c) = -1 \<and> eMode c \<noteq> PASSIVE else readLock (pWal c) = 0)
      | Ckpt l \<Rightarrow> readLock (pWal c) = -1 \<and> ckpt_shape c l
      | Ending \<Rightarrow> (reading_lock c \<or> readLock (pWal c) = -1) \<and> \<not> writeLock c \<and> \<not> ckptLock c)"

lemmas pc_steps = conn_step_def idle_step_def reading_step_def writing_step_def ending_step_def
  begin_try_def begin_fail_def begin_done_def after_scan_def after_try_def after_restart_def next_mark_def
  ck_result_def goto_def set_hdr_def write_frame_def

lemma restarted_fields [simp]:
  "readLock (restarted salt m c) = readLock (pWal c)" "bShmUnreliable (restarted salt m c) = bShmUnreliable (pWal c)"
  "minFrame (restarted salt m c) = minFrame (pWal c)"
  "mxFrame (hdr (restarted salt m c)) = 0" "nPage (hdr (restarted salt m c)) = nPage (hdr_of c)"
  by (simp_all add: restarted_def walRestartHdr_def Let_def)

lemma begin_read_shape: "shape c \<Longrightarrow> pc c = Begin_read l \<Longrightarrow> shape (fst (begin_read_step i p l c m))"
  by (cases l) (auto simp: shape_def pc_steps reading_lock_def Let_def split: prod.splits if_splits)

lemma restart_shape_step: "shape c \<Longrightarrow> pc c = Restarting l \<Longrightarrow> shape (fst (restart_step i l c m))"
  by (cases l) (auto simp: shape_def pc_steps reading_lock_def Let_def split: prod.splits if_splits)

lemma write_shape_step: "shape c \<Longrightarrow> pc c = Write l \<Longrightarrow> shape (fst (write_step i p l c m))"
proof (cases "(i, p, l, c, m)" rule: write_step.cases)
qed (auto simp: shape_def pc_steps reading_lock_def Let_def split: prod.splits if_splits request.splits)

lemma ckpt_shape_step: "shape c \<Longrightarrow> pc c = Ckpt l \<Longrightarrow> shape (fst (ckpt_step i p l c m))"
  by (cases l) (auto simp: shape_def pc_steps reading_lock_def Let_def split: prod.splits if_splits option.splits mode.splits)

lemma shape_step: "shape c \<Longrightarrow> shape (fst (conn_step i p c m))"
proof (cases "pc c")
  case (Begin_read l)
  then show "shape c \<Longrightarrow> ?thesis" using begin_read_shape [of c l] by (simp add: conn_step_def)
next
  case (Write l)
  then show "shape c \<Longrightarrow> ?thesis" using write_shape_step [of c l] by (simp add: conn_step_def)
next
  case (Restarting l)
  then show "shape c \<Longrightarrow> ?thesis" using restart_shape_step [of c l] by (simp add: conn_step_def)
next
  case (Ckpt l)
  then show "shape c \<Longrightarrow> ?thesis" using ckpt_shape_step [of c l] by (simp add: conn_step_def)
qed (auto simp: shape_def pc_steps reading_lock_def Let_def split: request.splits)

section \<open>The locks of a connection\<close>

text \<open>The exclusive and the shared locks that a state holds, beside those of the fields.\<close>

fun ex_read :: "read_pc \<Rightarrow> nat \<Rightarrow> bool" where
  "ex_read (Set_mark n) j = (j = 3 + n)"
| "ex_read (Drop_mark n) j = (j = 3 + n)"
| "ex_read _ j = False"

fun sh_read :: "read_pc \<Rightarrow> nat \<Rightarrow> bool" where
  "sh_read Check_zero j = (j = 3)"
| "sh_read (Set_min m x) j = (j = 3 + x)"
| "sh_read (Check_mark m x) j = (j = 3 + x)"
| "sh_read (Check_hdr m x) j = (j = 3 + x)"
| "sh_read _ j = False"

fun ex_ckpt :: "ckpt_pc \<Rightarrow> nat \<Rightarrow> bool" where
  "ex_ckpt (Ck_set_mark n) j = (j = 3 + n)"
| "ex_ckpt (Ck_drop_mark n) j = (j = 3 + n)"
| "ex_ckpt Ck_backfill j = (j = 3)"
| "ex_ckpt Ck_sync j = (j = 3)"
| "ex_ckpt Ck_next j = (j = 3)"
| "ex_ckpt (Ck_copy pg f) j = (j = 3)"
| "ex_ckpt (Ck_put pg d) j = (j = 3)"
| "ex_ckpt Ck_size j = (j = 3)"
| "ex_ckpt Ck_truncate j = (j = 3)"
| "ex_ckpt Ck_store j = (j = 3)"
| "ex_ckpt (Ck_drop_zero rc) j = (j = 3)"
| "ex_ckpt Ck_truncate_log j = (4 \<le> j \<and> j < 8)"
| "ex_ckpt Ck_drop_all j = (4 \<le> j \<and> j < 8)"
| "ex_ckpt _ j = False"

definition ex_held :: "conn \<Rightarrow> nat \<Rightarrow> bool" where
  "ex_held c j \<longleftrightarrow> (j = 0 \<and> writeLock c) \<or> (j = 1 \<and> ckptLock c) \<or>
     (case pc c of
        Begin_read l \<Rightarrow> ex_read l j
      | Write l \<Rightarrow> l = Restart_unlock \<and> 4 \<le> j \<and> j < 8
      | Restarting l \<Rightarrow> 4 \<le> j \<and> j < 8
      | Ckpt l \<Rightarrow> ex_ckpt l j
      | _ \<Rightarrow> False)"

definition sh_held :: "conn \<Rightarrow> nat \<Rightarrow> bool" where
  "sh_held c j \<longleftrightarrow> (0 \<le> readLock (pWal c) \<and> j = 3 + nat (readLock (pWal c))) \<or>
     (case pc c of Begin_read l \<Rightarrow> sh_read l j | _ \<Rightarrow> False)"

text \<open>The table of locks is what the connections hold.\<close>

definition table_ok :: "lock_table \<Rightarrow> (nat \<Rightarrow> conn) \<Rightarrow> bool" where
  "table_ok t cs \<longleftrightarrow>
     (\<forall>j. distinct (shared t j) \<and> (excl t j = None \<or> shared t j = [])) \<and>
     (\<forall>j p. (excl t j = Some p \<longleftrightarrow> ex_held (cs p) j) \<and> (p \<in> set (shared t j) \<longleftrightarrow> sh_held (cs p) j))"

lemma table_same:
  "table_ok (locks m) cs \<Longrightarrow> (\<forall>j. ex_held c j = ex_held (cs p) j) \<Longrightarrow> (\<forall>j. sh_held c j = sh_held (cs p) j) \<Longrightarrow>
   table_ok (locks m) (cs(p := c))"
  by (simp add: table_ok_def)

lemma table_lock_exclusive:
  assumes "table_ok t cs" and "lock_exclusive p a n t = (SQLITE_OK, t')"
    and "\<forall>j. ex_held c j \<longleftrightarrow> ex_held (cs p) j \<or> (a \<le> j \<and> j < a + n)" and "\<forall>j. sh_held c j = sh_held (cs p) j"
  shows "table_ok t' (cs(p := c))"
proof -
  have f: "\<forall>j. a \<le> j \<and> j < a + n \<longrightarrow> excl t j = None \<and> shared t j = []"
    using assms(2) by (auto simp: lock_exclusive_def free_def list_all_iff SQLITE_OK_def SQLITE_BUSY_def split: if_splits)
  have t': "t' = t\<lparr>excl := \<lambda>j. if a \<le> j \<and> j < a + n then Some p else excl t j\<rparr>"
    using assms(2) by (auto simp: lock_exclusive_def SQLITE_OK_def SQLITE_BUSY_def split: if_splits)
  have "\<not> ex_held (cs q) j \<and> \<not> sh_held (cs q) j" if "a \<le> j \<and> j < a + n" for q j
    using f [rule_format, OF that] assms(1) by (metis empty_iff list.set(1) option.distinct(1) table_ok_def)
  then show ?thesis
    using assms(1,3,4) f unfolding table_ok_def t' by auto
qed

lemma table_unlock_exclusive:
  assumes "table_ok t cs" and "\<forall>j. a \<le> j \<and> j < a + n \<longrightarrow> ex_held (cs p) j"
    and "\<forall>j. ex_held c j \<longleftrightarrow> ex_held (cs p) j \<and> \<not> (a \<le> j \<and> j < a + n)" and "\<forall>j. sh_held c j = sh_held (cs p) j"
  shows "table_ok (unlock_exclusive a n t) (cs(p := c))"
proof -
  have "\<not> ex_held (cs q) j" if "a \<le> j \<and> j < a + n" "q \<noteq> p" for q j
    using assms(1,2) that by (metis option.inject table_ok_def)
  then show ?thesis using assms unfolding table_ok_def unlock_exclusive_def by auto
qed

lemma table_lock_shared:
  assumes "table_ok t cs" and "lock_shared p a t = (SQLITE_OK, t')" and "\<not> sh_held (cs p) a"
    and "\<forall>j. ex_held c j = ex_held (cs p) j" and "\<forall>j. sh_held c j \<longleftrightarrow> sh_held (cs p) j \<or> j = a"
  shows "table_ok t' (cs(p := c))"
proof -
  have f: "excl t a = None" and t': "t' = t\<lparr>shared := (shared t)(a := p # shared t a)\<rparr>"
    using assms(2) by (auto simp: lock_shared_def SQLITE_OK_def SQLITE_BUSY_def split: if_splits)
  show ?thesis using assms(1,3-5) f unfolding table_ok_def t' by auto
qed

lemma table_unlock_shared:
  assumes "table_ok t cs" and "\<forall>j. ex_held c j = ex_held (cs p) j" and "\<forall>j. sh_held c j \<longleftrightarrow> sh_held (cs p) j \<and> j \<noteq> a"
  shows "table_ok (unlock_shared p a t) (cs(p := c))"
  using assms unfolding table_ok_def unlock_shared_def by (auto simp: set_remove1_eq distinct_remove1)

lemma lock_fail: "lock_exclusive p a n t = (rc, t') \<Longrightarrow> rc \<noteq> SQLITE_OK \<Longrightarrow> t' = t" "lock_shared p a t = (rc, t') \<Longrightarrow> rc \<noteq> SQLITE_OK \<Longrightarrow> t' = t"
  by (auto simp: lock_exclusive_def lock_shared_def split: if_splits)

lemmas held_defs = ex_held_def sh_held_def

lemma locks_begin:
  assumes "table_ok (locks m) cs" and "shape (cs p)" and "pc (cs p) = Begin_read l"
  shows "table_ok (locks (snd (begin_read_step i p l (cs p) m))) (cs(p := fst (begin_read_step i p l (cs p) m)))"
proof (cases l)
  case Check_zero
  then show ?thesis using assms
    by (auto simp: pc_steps shape_def held_defs intro!: table_same table_unlock_shared)
next
  case Lock_zero
  then show ?thesis using assms lock_fail(2) [of p 3 "locks m"]
    by (auto simp: pc_steps shape_def held_defs split: prod.split intro!: table_same intro: table_lock_shared)
next
  case (Try_mark n mx x)
  then show ?thesis using assms lock_fail(1) [of p "3 + n" 1 "locks m"]
    by (auto simp: pc_steps shape_def held_defs split: prod.split intro!: table_same intro: table_lock_exclusive)
next
  case (Drop_mark n)
  then show ?thesis using assms
    by (auto simp: pc_steps shape_def held_defs intro!: table_unlock_exclusive)
next
  case (Lock_mark mx x)
  then show ?thesis using assms lock_fail(2) [of p "3 + x" "locks m"]
    by (auto simp: pc_steps shape_def held_defs split: prod.split intro!: table_same intro: table_lock_shared)
next
  case (Check_mark mx x)
  then show ?thesis using assms
    by (auto simp: pc_steps shape_def held_defs intro!: table_same table_unlock_shared)
next
  case (Check_hdr mx x)
  then show ?thesis using assms
    by (auto simp: pc_steps shape_def held_defs intro!: table_same table_unlock_shared)
qed (use assms in \<open>auto simp: pc_steps shape_def held_defs Let_def split: prod.split intro!: table_same\<close>)

lemma locks_restart:
  assumes "table_ok (locks m) cs" and "shape (cs p)" and "pc (cs p) = Restarting l"
  shows "table_ok (locks (snd (restart_step i l (cs p) m))) (cs(p := fst (restart_step i l (cs p) m)))"
  using assms by (cases l) (auto simp: pc_steps shape_def held_defs Let_def intro!: table_same)

lemma locks_write:
  assumes "table_ok (locks m) cs" and "shape (cs p)" and "pc (cs p) = Write l"
  shows "table_ok (locks (snd (write_step i p l (cs p) m))) (cs(p := fst (write_step i p l (cs p) m)))"
proof (cases "(i, p, l, cs p, m)" rule: write_step.cases)
  case (1 i p c s)
  then show ?thesis using assms lock_fail(1) [of p 0 1 "locks m"]
    by (auto simp: pc_steps shape_def held_defs split: prod.split intro!: table_same intro: table_lock_exclusive)
next
  case (2 i p c s)
  then show ?thesis using assms
    by (auto simp: pc_steps shape_def held_defs intro!: table_same table_unlock_exclusive)
next
  case (5 i p c s)
  then show ?thesis using assms lock_fail(1) [of p 4 4 "locks m"]
    by (auto simp: pc_steps shape_def held_defs split: prod.split intro!: table_same intro: table_lock_exclusive)
next
  case (6 i p c s)
  then show ?thesis using assms
    by (auto simp: pc_steps shape_def held_defs intro!: table_unlock_exclusive)
next
  case (7 i p c s)
  then show ?thesis using assms
    by (auto simp: pc_steps shape_def held_defs intro!: table_unlock_shared)
next
  case (12 i p c s)
  then show ?thesis using assms
    by (auto simp: pc_steps shape_def held_defs Let_def split: request.split intro!: table_same table_unlock_exclusive)
qed (use assms in \<open>auto simp: pc_steps shape_def held_defs Let_def split: prod.split intro!: table_same\<close>)

lemma locks_ckpt:
  assumes "table_ok (locks m) cs" and "shape (cs p)" and "pc (cs p) = Ckpt l"
  shows "table_ok (locks (snd (ckpt_step i p l (cs p) m))) (cs(p := fst (ckpt_step i p l (cs p) m)))"
proof (cases l)
  case Ck_lock
  then show ?thesis using assms lock_fail(1) [of p 1 1 "locks m"]
    by (auto simp: pc_steps shape_def held_defs split: prod.split intro!: table_same intro: table_lock_exclusive)
next
  case Ck_write
  then show ?thesis using assms lock_fail(1) [of p 0 1 "locks m"]
    by (auto simp: pc_steps shape_def held_defs split: prod.split intro!: table_same intro: table_lock_exclusive)
next
  case (Ck_lock_mark n y)
  then show ?thesis using assms lock_fail(1) [of p "3 + n" 1 "locks m"]
    by (auto simp: pc_steps shape_def held_defs split: prod.split intro!: table_same intro: table_lock_exclusive)
next
  case (Ck_drop_mark n)
  then show ?thesis using assms
    by (auto simp: pc_steps shape_def held_defs intro!: table_unlock_exclusive)
next
  case Ck_lock_zero
  then show ?thesis using assms lock_fail(1) [of p 3 1 "locks m"]
    by (auto simp: pc_steps shape_def held_defs split: prod.split intro!: table_same intro: table_lock_exclusive)
next
  case (Ck_drop_zero rc)
  then show ?thesis using assms
    by (auto simp: pc_steps shape_def held_defs intro!: table_unlock_exclusive)
next
  case Ck_lock_all
  then show ?thesis using assms lock_fail(1) [of p 4 4 "locks m"]
    by (auto simp: pc_steps shape_def held_defs split: prod.split intro!: table_same intro: table_lock_exclusive)
next
  case Ck_drop_all
  then show ?thesis using assms
    by (auto simp: pc_steps shape_def held_defs intro!: table_unlock_exclusive)
next
  case Ck_end_write
  then show ?thesis using assms
    by (auto simp: pc_steps shape_def held_defs intro!: table_same table_unlock_exclusive)
next
  case Ck_end
  then show ?thesis using assms
    by (auto simp: pc_steps shape_def held_defs intro!: table_unlock_exclusive)
next
  case Ck_next
  then show ?thesis using assms
    by (auto simp: pc_steps shape_def held_defs Let_def split: prod.split option.split intro!: table_same)
qed (use assms in \<open>auto simp: pc_steps shape_def held_defs Let_def split: prod.split option.split intro!: table_same\<close>)

lemma locks_step:
  assumes "table_ok (locks m) cs" and "shape (cs p)"
  shows "table_ok (locks (snd (conn_step i p (cs p) m))) (cs(p := fst (conn_step i p (cs p) m)))"
proof (cases "pc (cs p)")
  case (Begin_read l)
  then show ?thesis using locks_begin [OF assms Begin_read] by (simp add: conn_step_def)
next
  case (Write l)
  then show ?thesis using locks_write [OF assms Write] by (simp add: conn_step_def)
next
  case (Restarting l)
  then show ?thesis using locks_restart [OF assms Restarting] by (simp add: conn_step_def)
next
  case (Ckpt l)
  then show ?thesis using locks_ckpt [OF assms Ckpt] by (simp add: conn_step_def)
next
  case Ending
  then show ?thesis using assms
    by (auto simp: pc_steps shape_def held_defs intro!: table_same table_unlock_shared)
next
  case Writing
  then show ?thesis using assms
    by (auto simp: pc_steps shape_def held_defs Let_def split: request.split intro!: table_same table_unlock_exclusive)
next
  case Reading
  then show ?thesis using assms
    by (auto simp: pc_steps shape_def held_defs split: request.split intro!: table_same)
next
  case Idle
  then show ?thesis using assms
    by (auto simp: pc_steps shape_def held_defs split: request.split intro!: table_same)
qed

section \<open>What the locks exclude\<close>

lemma excluded:
  assumes "table_ok t cs" and "ex_held (cs p) j"
  shows "ex_held (cs q) j \<Longrightarrow> q = p" and "\<not> sh_held (cs q) j"
proof -
  have e: "excl t j = Some p" using assms by (simp add: table_ok_def)
  then show "ex_held (cs q) j \<Longrightarrow> q = p" using assms(1) by (metis option.inject table_ok_def)
  have "shared t j = []" using e assms(1) by (metis option.distinct(1) table_ok_def)
  then show "\<not> sh_held (cs q) j" using assms(1) by (metis empty_iff list.set(1) table_ok_def)
qed

lemma one_writer: "table_ok t cs \<Longrightarrow> writeLock (cs p) \<Longrightarrow> writeLock (cs q) \<Longrightarrow> q = p"
  by (rule excluded(1) [of t cs p 0]) (simp_all add: ex_held_def)

lemma one_checkpoint: "table_ok t cs \<Longrightarrow> ckptLock (cs p) \<Longrightarrow> ckptLock (cs q) \<Longrightarrow> q = p"
  by (rule excluded(1) [of t cs p 1]) (simp_all add: ex_held_def)

lemma no_reader:
  assumes "table_ok t cs" and "ex_held (cs p) (3 + n)"
  shows "readLock (pWal (cs q)) \<noteq> int n"
  using excluded(2) [OF assms, of q] by (auto simp: sh_held_def)

end
