(* ===== verification/Wal_Safety.thy ===== *)
theory Wal_Safety
  imports Wal_Locks
begin

text \<open>
  The invariant of the protocol, in parts: the memory and the files against the record of what was
  committed; what a reader sees; what a connection knows at each of its steps; and what a checkpoint
  knows of the readers.
\<close>

section \<open>The invariant\<close>

definition N :: "sys \<Rightarrow> nat" where
  "N s = length (log s)"

text \<open>What the frames from \<open>m\<close> to \<open>M\<close> and the database file say of a page.\<close>

definition seen :: "sys \<Rightarrow> nat \<Rightarrow> nat \<Rightarrow> u32 \<Rightarrow> page option" where
  "seen s m M pg = (case last_of (drop (m - 1) (take M (log s))) pg of Some d \<Rightarrow> Some d | None \<Rightarrow> dbFd (mem s) pg)"

text \<open>The commits since the restart: a page that the database gained in between is in the log.\<close>

definition points_ok :: "sys \<Rightarrow> bool" where
  "points_ok s \<longleftrightarrow>
     (N s, nPage (live (mem s))) \<in> set (points s) \<and>
     (\<forall>x n. (x, n) \<in> set (points s) \<longrightarrow> x \<le> N s) \<and>
     (\<forall>x n y m pg. (x, n) \<in> set (points s) \<and> (y, m) \<in> set (points s) \<and> x \<le> y \<and> n < pg \<and> pg \<le> m \<longrightarrow>
        (\<exists>f. x \<le> f \<and> f < y \<and> fst (log s ! f) = pg))"

definition files_ok :: "sys \<Rightarrow> bool" where
  "files_ok s \<longleftrightarrow>
     (\<forall>f < N s. walFd (mem s) (Suc f) = snd (log s ! f)) \<and>
     (\<forall>pg d. pg \<le> nPage (live (mem s)) \<and> last_of (log s) pg = Some d \<longrightarrow> truth s pg = Some d) \<and>
     (\<forall>pg. pg \<le> nPage (live (mem s)) \<and> last_of (drop (nBackfill (mem s)) (log s)) pg = None \<longrightarrow> dbFd (mem s) pg = truth s pg) \<and>
     (\<forall>pg d. (pg, d) \<in> set (log s) \<longrightarrow> pg \<noteq> 0 \<and> pg < 0xFFFFFFFF)"

definition memory_ok :: "sys \<Rightarrow> bool" where
  "memory_ok s \<longleftrightarrow>
     length (aReadMark (mem s)) = 5 \<and> hist s \<noteq> [] \<and> hd (hist s) = live (mem s) \<and> mxFrame (live (mem s)) = N s \<and>
     (nBackfill (mem s) \<le> N s \<or> (\<exists>p. pc (conns s p) = Restarting Zero_backfill))"

text \<open>What a connection with a read lock relies on.\<close>

definition reader_ok :: "sys \<Rightarrow> nat \<Rightarrow> bool" where
  "reader_ok s p \<longleftrightarrow>
     (let r = readLock (pWal (conns s p)); m = minFrame (pWal (conns s p))
      in (r = 0 \<longrightarrow>
            (\<forall>pg \<le> snapSize s p. dbFd (mem s) pg = snapshot s p pg) \<and>
            (epoch s p = length (hist s) \<and> pc (conns s p) \<noteq> Restarting Zero_backfill \<longrightarrow> nBackfill (mem s) = N s)) \<and>
         (r > 0 \<longrightarrow>
            aReadMark (mem s) ! nat r \<le> snapFrame s p \<and> 1 \<le> m \<and> m \<le> nBackfill (mem s) + 1 \<and>
            (snapFrame s p, snapSize s p) \<in> set (points s) \<and>
            (\<forall>pg \<le> snapSize s p. seen s m (snapFrame s p) pg = snapshot s p pg)))"

text \<open>The header of a connection is one that was published.\<close>

definition hdr_known :: "sys \<Rightarrow> nat \<Rightarrow> bool" where
  "hdr_known s p \<longleftrightarrow> 1 \<le> epoch s p \<and> epoch s p \<le> length (hist s) \<and> hdr_of (conns s p) = rev (hist s) ! (epoch s p - 1)"

fun read_ok :: "sys \<Rightarrow> nat \<Rightarrow> read_pc \<Rightarrow> bool" where
  "read_ok s p Read_hdr = True"
| "read_ok s p Load_backfill = True"
| "read_ok s p Lock_zero = (epoch s p = length (hist s) \<longrightarrow> nBackfill (mem s) = mxFrame (hdr_of (conns s p)))"
| "read_ok s p Check_zero = (epoch s p = length (hist s) \<longrightarrow> nBackfill (mem s) = mxFrame (hdr_of (conns s p)))"
| "read_ok s p (Scan n m x) = (m \<le> mxFrame (hdr_of (conns s p)))"
| "read_ok s p (Try_mark n m x) = (m \<le> mxFrame (hdr_of (conns s p)))"
| "read_ok s p (Set_mark n) = True"
| "read_ok s p (Drop_mark n) = True"
| "read_ok s p (Lock_mark m x) = (m \<le> mxFrame (hdr_of (conns s p)))"
| "read_ok s p (Set_min m x) = (m \<le> mxFrame (hdr_of (conns s p)))"
| "read_ok s p (Check_mark m x) =
     (m \<le> mxFrame (hdr_of (conns s p)) \<and> 1 \<le> minFrame (pWal (conns s p)) \<and>
      (epoch s p = length (hist s) \<longrightarrow> minFrame (pWal (conns s p)) \<le> nBackfill (mem s) + 1))"
| "read_ok s p (Check_hdr m x) =
     (m \<le> mxFrame (hdr_of (conns s p)) \<and> 1 \<le> minFrame (pWal (conns s p)) \<and>
      (epoch s p = length (hist s) \<longrightarrow> minFrame (pWal (conns s p)) \<le> nBackfill (mem s) + 1) \<and>
      aReadMark (mem s) ! x = m)"

text \<open>What the checkpoint has copied: the last frames of the pages up to \<open>q\<close>, where they are safe.\<close>

definition last_frame :: "sys \<Rightarrow> nat \<Rightarrow> u32 \<Rightarrow> nat \<Rightarrow> bool" where
  "last_frame s n pg f \<longleftrightarrow>
     1 \<le> f \<and> f \<le> n \<and> fst (log s ! (f - 1)) = pg \<and> (\<forall>g. f < g \<and> g \<le> n \<longrightarrow> fst (log s ! (g - 1)) \<noteq> pg)"

definition wanted :: "sys \<Rightarrow> nat \<Rightarrow> u32 \<Rightarrow> nat \<Rightarrow> bool" where
  "wanted s p pg f \<longleftrightarrow>
     last_frame s (mxFrame (hdr_of (conns s p))) pg f \<and> nBackfill (mem s) < f \<and> f \<le> mxSafeFrame (conns s p) \<and> pg \<le> mxPage (conns s p)"

definition copied :: "sys \<Rightarrow> nat \<Rightarrow> (u32 \<Rightarrow> bool) \<Rightarrow> bool" where
  "copied s p P \<longleftrightarrow> (\<forall>pg f. P pg \<and> wanted s p pg f \<longrightarrow> dbFd (mem s) pg = Some (snd (log s ! (f - 1))))"

text \<open>The iterator walks the committed frames up to those of the header of the checkpoint.\<close>

definition walking :: "sys \<Rightarrow> nat \<Rightarrow> u32 \<Rightarrow> bool" where
  "walking s p q \<longleftrightarrow>
     (\<exists>it. pIter (conns s p) = Some it \<and> iPrior it = q \<and>
        iter_ok (map fst (log s)) (mxFrame (hdr_of (conns s p))) (walFramePage (nBackfill (mem s) + 1)) it)"

definition ck_point :: "sys \<Rightarrow> nat \<Rightarrow> bool" where
  "ck_point s p \<longleftrightarrow> (mxFrame (hdr_of (conns s p)), nPage (hdr_of (conns s p))) \<in> set (points s)"

definition ck_busy :: "sys \<Rightarrow> nat \<Rightarrow> bool" where
  "ck_busy s p \<longleftrightarrow> ck_point s p \<and> nBackfill (mem s) < mxFrame (hdr_of (conns s p)) \<and>
     mxSafeFrame (conns s p) \<le> mxFrame (hdr_of (conns s p)) \<and> mxPage (conns s p) = nPage (hdr_of (conns s p))"

fun ckpt_ok :: "sys \<Rightarrow> nat \<Rightarrow> ckpt_pc \<Rightarrow> bool" where
  "ckpt_ok s p Ck_lock = True"
| "ckpt_ok s p Ck_write = True"
| "ckpt_ok s p Ck_hdr = True"
| "ckpt_ok s p Ck_load = ck_point s p"
| "ckpt_ok s p (Ck_mark n) = ck_busy s p"
| "ckpt_ok s p (Ck_lock_mark n y) = (ck_busy s p \<and> y < mxSafeFrame (conns s p))"
| "ckpt_ok s p (Ck_set_mark n) = ck_busy s p"
| "ckpt_ok s p (Ck_drop_mark n) = ck_busy s p"
| "ckpt_ok s p Ck_iter = ck_busy s p"
| "ckpt_ok s p Ck_lock_zero = (ck_busy s p \<and> nBackfill (mem s) < mxSafeFrame (conns s p) \<and> walking s p 0)"
| "ckpt_ok s p Ck_backfill = (ck_busy s p \<and> nBackfill (mem s) < mxSafeFrame (conns s p) \<and> walking s p 0)"
| "ckpt_ok s p Ck_sync = (ck_busy s p \<and> nBackfill (mem s) < mxSafeFrame (conns s p) \<and> walking s p 0 \<and> ck_nBackfill (conns s p) = nBackfill (mem s))"
| "ckpt_ok s p Ck_next =
     (ck_busy s p \<and> nBackfill (mem s) < mxSafeFrame (conns s p) \<and> ck_nBackfill (conns s p) = nBackfill (mem s) \<and>
      (\<exists>q. walking s p q \<and> copied s p (\<lambda>pg. pg \<le> q)))"
| "ckpt_ok s p (Ck_copy pg f) =
     (ck_busy s p \<and> nBackfill (mem s) < mxSafeFrame (conns s p) \<and> ck_nBackfill (conns s p) = nBackfill (mem s) \<and>
      walking s p pg \<and> wanted s p pg f \<and> copied s p (\<lambda>pg'. pg' < pg))"
| "ckpt_ok s p (Ck_put pg d) =
     (ck_busy s p \<and> nBackfill (mem s) < mxSafeFrame (conns s p) \<and> ck_nBackfill (conns s p) = nBackfill (mem s) \<and>
      walking s p pg \<and> (\<exists>f. wanted s p pg f \<and> d = snd (log s ! (f - 1))) \<and> copied s p (\<lambda>pg'. pg' < pg))"
| "ckpt_ok s p Ck_size = (ck_busy s p \<and> nBackfill (mem s) < mxSafeFrame (conns s p) \<and> copied s p (\<lambda>pg. True))"
| "ckpt_ok s p Ck_truncate =
     (ck_busy s p \<and> nBackfill (mem s) < mxSafeFrame (conns s p) \<and> copied s p (\<lambda>pg. True) \<and> mxSafeFrame (conns s p) = mxFrame (hdr_of (conns s p)))"
| "ckpt_ok s p Ck_store = (ck_busy s p \<and> nBackfill (mem s) < mxSafeFrame (conns s p) \<and> copied s p (\<lambda>pg. True))"
| "ckpt_ok s p (Ck_drop_zero rc) = True"
| "ckpt_ok s p Ck_tail = True"
| "ckpt_ok s p Ck_lock_all = (nBackfill (mem s) = N s)"
| "ckpt_ok s p Ck_truncate_log = (log s = [])"
| "ckpt_ok s p Ck_drop_all = True"
| "ckpt_ok s p Ck_end_write = True"
| "ckpt_ok s p Ck_end = True"

text \<open>A checkpoint that holds the write lock has the header that is live.\<close>

fun has_live :: "ckpt_pc \<Rightarrow> bool" where
  "has_live Ck_lock = False"
| "has_live Ck_write = False"
| "has_live Ck_hdr = False"
| "has_live Ck_end_write = False"
| "has_live Ck_end = False"
| "has_live _ = True"

fun restart_ok :: "sys \<Rightarrow> nat \<Rightarrow> restart_pc \<Rightarrow> bool" where
  "restart_ok s p Publish = (nBackfill (mem s) = N s)"
| "restart_ok s p Zero_backfill = (log s = [])"
| "restart_ok s p (Reset_mark n) = (log s = [])"

definition at_snapshot :: "sys \<Rightarrow> nat \<Rightarrow> bool" where
  "at_snapshot s p \<longleftrightarrow> hdr_known s p \<and> mxFrame (hdr_of (conns s p)) = snapFrame s p \<and> nPage (hdr_of (conns s p)) = snapSize s p"

definition local_ok :: "sys \<Rightarrow> nat \<Rightarrow> bool" where
  "local_ok s p \<longleftrightarrow>
     (case pc (conns s p) of
        Begin_read l \<Rightarrow> (l \<noteq> Read_hdr \<longrightarrow> hdr_known s p) \<and> read_ok s p l
      | Reading \<Rightarrow> at_snapshot s p
      | Write l \<Rightarrow> (l = Lock_write \<or> l = Check_write \<longrightarrow> at_snapshot s p)
      | Restarting l \<Rightarrow> hdr_of (conns s p) = live (mem s) \<and> restart_ok s p l
      | Ckpt l \<Rightarrow> ckpt_ok s p l \<and> (writeLock (conns s p) \<and> has_live l \<longrightarrow> hdr_of (conns s p) = live (mem s))
      | _ \<Rightarrow> True)"

text \<open>The marks a checkpoint has passed, and the readers that use them.\<close>

fun passed :: "ckpt_pc \<Rightarrow> nat" where
  "passed (Ck_mark n) = n"
| "passed (Ck_lock_mark n y) = n"
| "passed (Ck_set_mark n) = n"
| "passed (Ck_drop_mark n) = n"
| "passed Ck_iter = 5"
| "passed Ck_lock_zero = 5"
| "passed Ck_backfill = 5"
| "passed Ck_sync = 5"
| "passed Ck_next = 5"
| "passed (Ck_copy pg f) = 5"
| "passed (Ck_put pg d) = 5"
| "passed Ck_size = 5"
| "passed Ck_truncate = 5"
| "passed Ck_store = 5"
| "passed _ = 0"

definition safe_for :: "sys \<Rightarrow> nat \<Rightarrow> nat \<Rightarrow> bool" where
  "safe_for s p q \<longleftrightarrow>
     (case pc (conns s p) of
        Ckpt l \<Rightarrow>
          (let r = readLock (pWal (conns s q))
           in (0 < r \<and> nat r < passed l \<longrightarrow> mxSafeFrame (conns s p) \<le> snapFrame s q) \<and>
              (\<forall>n y. l = Ck_lock_mark n y \<and> r = int n \<longrightarrow> y \<le> snapFrame s q))
      | _ \<Rightarrow> True)"

section \<open>The writer\<close>

text \<open>
  The frames of a transaction: \<open>txn\<close> is in the log file behind the committed frames; the tables
  index it up to \<open>k\<close> frames past the header, and \<open>ps\<close> are the pages that they do not index yet.
\<close>

definition pages_valid :: "(u32 \<times> page) list \<Rightarrow> bool" where
  "pages_valid fs \<longleftrightarrow> (\<forall>pg d. (pg, d) \<in> set fs \<longrightarrow> pg \<noteq> 0 \<and> pg < 0xFFFFFFFF)"

definition txn_ok :: "sys \<Rightarrow> nat \<Rightarrow> u32 list \<Rightarrow> nat \<Rightarrow> u32 list \<Rightarrow> bool" where
  "txn_ok s p L k ps \<longleftrightarrow>
     (let h = mxFrame (hdr_of (conns s p)) + k; t = txn s p
      in N s \<le> mxFrame (hdr_of (conns s p)) \<and> h + length ps = N s + length t \<and> h \<le> length L \<and>
         take h L = map fst (log s) @ map fst (take (h - N s) t) \<and> map fst (drop (h - N s) t) = ps \<and>
         (0 < k \<longrightarrow> length L = h) \<and> (\<forall>j < length t. walFd (mem s) (Suc (N s + j)) = snd (t ! j)) \<and> pages_valid t)"

definition request_in :: "sys \<Rightarrow> nat \<Rightarrow> (u32 \<times> page) list \<Rightarrow> bool" where
  "request_in s p fs \<longleftrightarrow> pages_valid fs \<and>
     (isCommit (conns s p) \<longrightarrow> covers (nPage (live (mem s))) (nTruncate (conns s p)) (map fst (txn s p @ fs)))"

definition at_live :: "sys \<Rightarrow> nat \<Rightarrow> bool" where
  "at_live s p \<longleftrightarrow> hdr_of (conns s p) = live (mem s)"

definition snap_live :: "sys \<Rightarrow> nat \<Rightarrow> bool" where
  "snap_live s p \<longleftrightarrow> snapFrame s p = N s \<and> snapSize s p = nPage (live (mem s))"

definition pending :: "sys \<Rightarrow> nat \<Rightarrow> u32 list \<Rightarrow> bool" where
  "pending s p L \<longleftrightarrow> txn_ok s p L 0 [] \<and> request_in s p (todo (conns s p)) \<and> todo (conns s p) \<noteq> []"

fun write_ok :: "sys \<Rightarrow> nat \<Rightarrow> u32 list \<Rightarrow> write_pc \<Rightarrow> bool" where
  "write_ok s p L Lock_write = True"
| "write_ok s p L Check_write = True"
| "write_ok s p L Frames_start = (pending s p L \<and> snap_live s p \<and> (readLock (pWal (conns s p)) = 0 \<longrightarrow> at_live s p))"
| "write_ok s p L Restart_load = (pending s p L \<and> at_live s p \<and> iFirst (conns s p) = 0)"
| "write_ok s p L Restart_lock = (pending s p L \<and> at_live s p \<and> iFirst (conns s p) = 0)"
| "write_ok s p L Restart_unlock = (pending s p L \<and> at_live s p \<and> iFirst (conns s p) = 0)"
| "write_ok s p L Restart_drop = (pending s p L \<and> at_live s p \<and> iFirst (conns s p) = 0)"
| "write_ok s p L (Write_frames fs new) =
     (txn_ok s p L 0 new \<and> request_in s p fs \<and> snap_live s p \<and> (iFirst (conns s p) = 0 \<or> iFirst (conns s p) = N s + 1) \<and>
      (fs = [] \<longrightarrow> txn s p \<noteq> []))"
| "write_ok s p L (Index_frames ps k) = (txn_ok s p L k ps \<and> request_in s p [] \<and> snap_live s p \<and> txn s p \<noteq> [])"
| "write_ok s p L Write_error = True"

definition writer_ok :: "sys \<Rightarrow> u32 list \<Rightarrow> nat \<Rightarrow> bool" where
  "writer_ok s L p \<longleftrightarrow>
     (case pc (conns s p) of
        Writing \<Rightarrow> epoch s p = length (hist s) \<and> txn_ok s p L 0 [] \<and> snap_live s p \<and> (readLock (pWal (conns s p)) = 0 \<longrightarrow> at_live s p)
      | Write l \<Rightarrow> (l \<notin> {Lock_write, Check_write, Write_error} \<longrightarrow> epoch s p = length (hist s)) \<and> write_ok s p L l
      | Restarting l \<Rightarrow> \<not> ckptLock (conns s p) \<longrightarrow> epoch s p = length (hist s) \<and> pending s p L \<and> iFirst (conns s p) = 0
      | Begin_read l \<Rightarrow> useWal (conns s p) \<longrightarrow> epoch s p = length (hist s) \<and> pending s p L \<and> at_live s p \<and> iFirst (conns s p) = 0
      | _ \<Rightarrow> True)"

definition index_ok :: "sys \<Rightarrow> bool" where
  "index_ok s \<longleftrightarrow> (\<exists>L. wi_ok (apWiData (mem s)) L \<and> N s \<le> length L \<and> take (N s) L = map fst (log s) \<and> (\<forall>p. writer_ok s L p))"

definition inv :: "sys \<Rightarrow> bool" where
  "inv s \<longleftrightarrow>
     (\<forall>p. shape (conns s p)) \<and> table_ok (locks (mem s)) (conns s) \<and> memory_ok s \<and> files_ok s \<and> points_ok s \<and>
     (\<forall>p. reader_ok s p) \<and> (\<forall>p. local_ok s p) \<and> (\<forall>p q. safe_for s p q) \<and> index_ok s"

section \<open>The fields after a step\<close>

abbreviation conn' :: "inp \<Rightarrow> nat \<Rightarrow> sys \<Rightarrow> conn" where
  "conn' i p s \<equiv> fst (conn_step i p (conns s p) (mem s))"

abbreviation mem' :: "inp \<Rightarrow> nat \<Rightarrow> sys \<Rightarrow> shm" where
  "mem' i p s \<equiv> snd (conn_step i p (conns s p) (mem s))"

lemma sys_step_fields:
  "mem (sys_step i p s) = mem' i p s"
  "conns (sys_step i p s) = (conns s)(p := conn' i p s)"
  "hist (sys_step i p s) = (if restarts (conns s p) \<or> commits (conns s p) then live (mem' i p s) # hist s else hist s)"
  "log (sys_step i p s) = (if restarts (conns s p) then [] else if commits (conns s p) then log s @ txn s p else log s)"
  "truth (sys_step i p s) = (if commits (conns s p) then apply_txn (txn s p) (nTruncate (conns s p)) (truth s) else truth s)"
  "points (sys_step i p s) = (if restarts (conns s p) then [(0, nPage (live (mem' i p s)))]
     else if commits (conns s p) then (mxFrame (live (mem' i p s)), nPage (live (mem' i p s))) # points s else points s)"
  "epoch (sys_step i p s) = (epoch s)(p := if restarts (conns s p) \<or> commits (conns s p) then Suc (length (hist s))
     else if reads_hdr (conns s p) then length (hist s) else epoch s p)"
  "txn (sys_step i p s) = (txn s)(p := txn_after i (conns s p) (conn' i p s) (mem s) (txn s p))"
  by (simp_all add: sys_step_def split_beta Let_def)

lemma sys_step_snap:
  "snapFrame (sys_step i p s) = (snapFrame s)(p := if begins (conns s p) (conn' i p s) \<or> commits (conns s p) then mxFrame (live (mem' i p s)) else snapFrame s p)"
  "snapSize (sys_step i p s) = (snapSize s)(p := if begins (conns s p) (conn' i p s) \<or> commits (conns s p) then nPage (live (mem' i p s)) else snapSize s p)"
  "snapshot (sys_step i p s) = (snapshot s)(p := if begins (conns s p) (conn' i p s) \<or> commits (conns s p) then truth (sys_step i p s) else snapshot s p)"
  by (simp_all add: sys_step_def split_beta Let_def)

lemmas sys_fields = sys_step_fields sys_step_snap

section \<open>Steps that change no more than locks and tables\<close>

text \<open>What \<open>p\<close> leaves alone of what the others see.\<close>

definition quiet :: "nat \<Rightarrow> sys \<Rightarrow> sys \<Rightarrow> bool" where
  "quiet p s s' \<longleftrightarrow>
     live (mem s') = live (mem s) \<and> nBackfill (mem s') = nBackfill (mem s) \<and> aReadMark (mem s') = aReadMark (mem s) \<and>
     walFd (mem s') = walFd (mem s) \<and> dbFd (mem s') = dbFd (mem s) \<and>
     hist s' = hist s \<and> log s' = log s \<and> truth s' = truth s \<and> points s' = points s"

definition others :: "nat \<Rightarrow> sys \<Rightarrow> sys \<Rightarrow> bool" where
  "others p s s' \<longleftrightarrow>
     (\<forall>q. q \<noteq> p \<longrightarrow> conns s' q = conns s q \<and> epoch s' q = epoch s q \<and> snapFrame s' q = snapFrame s q \<and>
        snapSize s' q = snapSize s q \<and> snapshot s' q = snapshot s q \<and> txn s' q = txn s q)"

lemma others_step: "others p s (sys_step i p s)"
  by (simp add: others_def sys_fields)

lemma quiet_files: "quiet p s s' \<Longrightarrow> files_ok s = files_ok s'"
  by (simp add: quiet_def files_ok_def N_def)

lemma quiet_points: "quiet p s s' \<Longrightarrow> points_ok s = points_ok s'"
  by (simp add: quiet_def points_ok_def N_def)

lemma quiet_memory: "quiet p s s' \<Longrightarrow> others p s s' \<Longrightarrow> pc (conns s p) \<noteq> Restarting Zero_backfill \<Longrightarrow> memory_ok s \<Longrightarrow> memory_ok s'"
  unfolding memory_ok_def quiet_def others_def N_def by metis

text \<open>Facts of a connection whose own fields stay.\<close>

definition same_conn :: "nat \<Rightarrow> sys \<Rightarrow> sys \<Rightarrow> bool" where
  "same_conn q s s' \<longleftrightarrow> conns s' q = conns s q \<and> epoch s' q = epoch s q \<and> snapFrame s' q = snapFrame s q \<and>
     snapSize s' q = snapSize s q \<and> snapshot s' q = snapshot s q \<and> txn s' q = txn s q"

lemma others_same: "others p s s' \<Longrightarrow> q \<noteq> p \<Longrightarrow> same_conn q s s'"
  by (simp add: others_def same_conn_def)

lemma quiet_reader: "quiet p s s' \<Longrightarrow> same_conn q s s' \<Longrightarrow> reader_ok s' q = reader_ok s q"
  by (simp add: quiet_def same_conn_def reader_ok_def seen_def N_def cong: option.case_cong)

lemma quiet_known: "quiet p s s' \<Longrightarrow> same_conn q s s' \<Longrightarrow> hdr_known s' q = hdr_known s q"
  by (simp add: quiet_def same_conn_def hdr_known_def)

lemma quiet_read: "quiet p s s' \<Longrightarrow> same_conn q s s' \<Longrightarrow> read_ok s' q l = read_ok s q l"
  by (cases l) (simp_all add: quiet_def same_conn_def)

lemma quiet_ckpt: "quiet p s s' \<Longrightarrow> same_conn q s s' \<Longrightarrow> ckpt_ok s' q l = ckpt_ok s q l"
  by (cases l) (simp_all add: quiet_def same_conn_def ck_busy_def ck_point_def walking_def copied_def wanted_def last_frame_def N_def)

lemma quiet_restart: "quiet p s s' \<Longrightarrow> restart_ok s' q l = restart_ok s q l"
  by (cases l) (simp_all add: quiet_def N_def)

lemma quiet_local: "quiet p s s' \<Longrightarrow> same_conn q s s' \<Longrightarrow> local_ok s' q = local_ok s q"
  by (simp add: local_ok_def quiet_read quiet_ckpt quiet_restart quiet_known at_snapshot_def split: pc.splits)
     (simp add: quiet_def same_conn_def)

lemma quiet_safe: "same_conn q s s' \<Longrightarrow> same_conn r s s' \<Longrightarrow> safe_for s' q r = safe_for s q r"
  by (simp add: same_conn_def safe_for_def cong: pc.case_cong)

lemma quiet_txn: "quiet p s s' \<Longrightarrow> same_conn q s s' \<Longrightarrow> txn_ok s' q L k ps = txn_ok s q L k ps"
  by (simp add: quiet_def same_conn_def txn_ok_def N_def)

lemma quiet_request: "quiet p s s' \<Longrightarrow> same_conn q s s' \<Longrightarrow> request_in s' q fs = request_in s q fs"
  by (simp add: quiet_def same_conn_def request_in_def)

lemma quiet_live: "quiet p s s' \<Longrightarrow> same_conn q s s' \<Longrightarrow> at_live s' q = at_live s q \<and> snap_live s' q = snap_live s q \<and> epoch s' q = epoch s q \<and>
    hist s' = hist s \<and> N s' = N s \<and> conns s' q = conns s q \<and> txn s' q = txn s q"
  by (simp add: quiet_def same_conn_def at_live_def snap_live_def N_def)

lemma quiet_pending: "quiet p s s' \<Longrightarrow> same_conn q s s' \<Longrightarrow> pending s' q L = pending s q L"
  using quiet_live [of p s s' q] by (simp add: pending_def quiet_txn quiet_request)

lemma quiet_write: "quiet p s s' \<Longrightarrow> same_conn q s s' \<Longrightarrow> write_ok s' q L l = write_ok s q L l"
  using quiet_live [of p s s' q] by (cases l) (simp_all add: quiet_txn quiet_request quiet_pending)

lemma quiet_writer: "quiet p s s' \<Longrightarrow> same_conn q s s' \<Longrightarrow> writer_ok s' L q = writer_ok s L q"
  using quiet_live [of p s s' q] by (simp add: writer_ok_def quiet_write quiet_txn quiet_pending cong: pc.case_cong)

section \<open>What the invariant gives\<close>

lemma inv_parts:
  assumes "inv s"
  shows "shape (conns s p)" "table_ok (locks (mem s)) (conns s)" "memory_ok s" "files_ok s" "points_ok s"
    "reader_ok s p" "local_ok s p" "safe_for s p q" "index_ok s"
  using assms by (simp_all add: inv_def)

lemma memory_facts:
  assumes "memory_ok s"
  shows "length (aReadMark (mem s)) = 5" "hist s \<noteq> []" "hd (hist s) = live (mem s)" "mxFrame (live (mem s)) = N s"
  using assms by (simp_all add: memory_ok_def)

text \<open>From a point at or before the first frame that is not in the database, a reader sees the truth.\<close>

lemma seen_truth:
  assumes "files_ok s" and "1 \<le> m" and "m \<le> nBackfill (mem s) + 1" and "pg \<le> nPage (live (mem s))"
  shows "seen s m (N s) pg = truth s pg"
proof (cases "last_of (drop (m - 1) (log s)) pg")
  case (Some d)
  have "last_of (take (m - 1) (log s) @ drop (m - 1) (log s)) pg = Some d" by (simp only: last_of_append Some option.case)
  then have "last_of (log s) pg = Some d" by simp
  then have "truth s pg = Some d" using assms(1,4) by (simp add: files_ok_def)
  with Some show ?thesis by (simp add: seen_def N_def)
next
  case None
  have "m - 1 \<le> nBackfill (mem s)" using assms(3) by simp
  with None have "last_of (drop (nBackfill (mem s)) (log s)) pg = None"
    using last_of_mono [of "nBackfill (mem s)" "length (log s)" "log s" pg "m - 1" "length (log s)"]
    by (cases "last_of (drop (nBackfill (mem s)) (log s)) pg") auto
  then have "dbFd (mem s) pg = truth s pg" using assms(1,4) by (simp add: files_ok_def)
  with None show ?thesis by (simp add: seen_def N_def)
qed

text \<open>A header that is live was published last.\<close>

lemma known_current:
  assumes "memory_ok s" and "hdr_known s p" and "hdr_of (conns s p) = live (mem s)" and "distinct (hist s)"
  shows "epoch s p = length (hist s)"
proof -
  let ?e = "epoch s p - 1" and ?n = "length (hist s) - 1"
  have e: "1 \<le> epoch s p" "epoch s p \<le> length (hist s)" "hdr_of (conns s p) = rev (hist s) ! ?e"
    using assms(2) by (simp_all add: hdr_known_def)
  have "rev (hist s) ! ?n = hd (hist s)" using memory_facts(2) [OF assms(1)] by (simp add: rev_nth hd_conv_nth)
  then have "rev (hist s) ! ?e = rev (hist s) ! ?n" using e(3) assms(3) memory_facts(3) [OF assms(1)] by simp
  moreover have "?e < length (rev (hist s))" "?n < length (rev (hist s))" using e(1,2) by simp_all
  ultimately have "?e = ?n" using assms(4) by (metis distinct_rev nth_eq_iff_index_eq)
  with e(1,2) show ?thesis by simp
qed

lemma current_live:
  assumes "memory_ok s" and "hdr_known s p" and "epoch s p = length (hist s)"
  shows "hdr_of (conns s p) = live (mem s)"
proof -
  have "rev (hist s) ! (length (hist s) - 1) = hd (hist s)" using memory_facts(2) [OF assms(1)] by (simp add: rev_nth hd_conv_nth)
  then show ?thesis using assms memory_facts(3) [OF assms(1)] by (simp add: hdr_known_def)
qed

lemma live_known: "memory_ok s \<Longrightarrow> hdr_of (conns s p) = live (mem s) \<Longrightarrow> epoch s p = length (hist s) \<Longrightarrow> hdr_known s p"
  using memory_facts(2,3) [of s] by (cases "hist s") (simp_all add: hdr_known_def nth_append)

lemma point_bound: "points_ok s \<Longrightarrow> ck_point s p \<Longrightarrow> mxFrame (hdr_of (conns s p)) \<le> N s"
  by (auto simp: points_ok_def ck_point_def)

lemma busy_bound: "points_ok s \<Longrightarrow> ck_busy s p \<Longrightarrow> mxSafeFrame (conns s p) \<le> N s \<and> nBackfill (mem s) < N s"
  using point_bound [of s p] by (auto simp: ck_busy_def)

text \<open>A step of \<open>p\<close> leaves what \<open>p\<close> must show for itself.\<close>

lemma quiet_inv:
  assumes inv: "inv s" and q: "quiet p s (sys_step i p s)" and pc: "pc (conns s p) \<noteq> Restarting Zero_backfill"
    and "reader_ok (sys_step i p s) p" and "local_ok (sys_step i p s) p"
    and "\<And>r. safe_for (sys_step i p s) p r" and "\<And>r. r \<noteq> p \<Longrightarrow> safe_for (sys_step i p s) r p"
    and ix: "\<And>L. wi_ok (apWiData (mem s)) L \<Longrightarrow> N s \<le> length L \<Longrightarrow> take (N s) L = map fst (log s) \<Longrightarrow> writer_ok s L p \<Longrightarrow>
      \<exists>L'. wi_ok (apWiData (mem (sys_step i p s))) L' \<and> N s \<le> length L' \<and> take (N s) L' = map fst (log s) \<and>
        writer_ok (sys_step i p s) L' p \<and> (L' = L \<or> writeLock (conns s p))"
  shows "inv (sys_step i p s)"
proof -
  let ?s = "sys_step i p s"
  note o = others_step [of p s i]
  have same: "same_conn r s ?s" if "r \<noteq> p" for r by (rule others_same [OF o that])
  have sh: "shape (conns ?s r)" for r using inv_parts(1) [OF inv] shape_step by (simp add: sys_fields)
  have lk: "table_ok (locks (mem ?s)) (conns ?s)"
    using locks_step [OF inv_parts(2,1) [OF inv]] by (simp add: sys_fields)
  have rd: "reader_ok ?s r" for r using quiet_reader [OF q same, of r] inv_parts(6) [OF inv] assms(4) by (cases "r = p") auto
  have lo: "local_ok ?s r" for r using quiet_local [OF q same, of r] inv_parts(7) [OF inv] assms(5) by (cases "r = p") auto
  have sf: "safe_for ?s r r'" for r r'
    using quiet_safe [OF same same, of r r'] inv_parts(8) [OF inv] assms(6,7) by (cases "r = p"; cases "r' = p") auto
  obtain L where L: "wi_ok (apWiData (mem s)) L" "N s \<le> length L" "take (N s) L = map fst (log s)" "\<forall>r. writer_ok s L r"
    using inv_parts(9) [OF inv] by (auto simp: index_ok_def)
  obtain L' where L': "wi_ok (apWiData (mem ?s)) L'" "N s \<le> length L'" "take (N s) L' = map fst (log s)" "writer_ok ?s L' p"
    "L' = L \<or> writeLock (conns s p)"
    using ix [OF L(1-3)] L(4) by blast
  have "writer_ok ?s L' r" for r
  proof (cases "r = p")
    case False
    have "writer_ok s L' r"
    proof (cases "L' = L")
      case True
      then show ?thesis using L(4) by simp
    next
      case nL: False
      then have "writeLock (conns s p)" using L'(5) by simp
      then have nw: "\<not> writeLock (conns s r)" using one_writer [OF inv_parts(2) [OF inv]] False by blast
      with inv_parts(1) [OF inv, of r] show ?thesis
        by (auto simp: writer_ok_def shape_def split: pc.splits elim!: write_shape.elims)
    qed
    then show ?thesis using quiet_writer [OF q same [OF False]] by simp
  qed (use L'(4) in simp)
  moreover have "N ?s = N s" "log ?s = log s" using q by (simp_all add: quiet_def N_def)
  ultimately have "index_ok ?s" using L' unfolding index_ok_def by auto
  then show ?thesis
    unfolding inv_def
    using sh lk quiet_memory [OF q o pc inv_parts(3) [OF inv]] quiet_files [OF q] quiet_points [OF q] inv_parts(4,5) [OF inv] rd lo sf
    by blast
qed

section \<open>Beginning to read\<close>

lemma reader_none: "readLock (pWal (conns s p)) < 0 \<Longrightarrow> reader_ok s p"
  by (simp add: reader_ok_def Let_def)

lemma safe_none: "readLock (pWal (conns s q)) < 0 \<Longrightarrow> safe_for s p q"
  by (auto simp: safe_for_def Let_def split: pc.splits)

lemma safe_low: "readLock (pWal (conns s q)) \<le> 0 \<Longrightarrow> shape (conns s p) \<Longrightarrow> safe_for s p q"
  by (auto simp: safe_for_def Let_def shape_def split: pc.splits)

lemma safe_not_ckpt: "\<forall>l. pc (conns s p) \<noteq> Ckpt l \<Longrightarrow> safe_for s p q"
  by (simp add: safe_for_def split: pc.splits)

text \<open>The steps that neither begin a read transaction nor set a mark.\<close>

definition begin_quiet :: "read_pc \<Rightarrow> bool" where
  "begin_quiet l \<longleftrightarrow> (\<forall>n. l \<noteq> Set_mark n)"

lemmas begin_defs = goto_def set_hdr_def begin_try_def begin_fail_def begin_done_def after_scan_def after_try_def

lemma begin_mem:
  "begin_quiet l \<Longrightarrow> snd (begin_read_step i p l c m) = m\<lparr>locks := locks (snd (begin_read_step i p l c m))\<rparr>"
  by (cases l) (simp_all add: begin_quiet_def Let_def split: prod.split)

lemma begin_not_special:
  "pc c = Begin_read l \<Longrightarrow> \<not> restarts c \<and> \<not> commits c \<and> txn_after i c c' m t = t"
  by (simp add: restarts_def commits_def txn_after_def)

lemma begin_step_quiet:
  assumes "pc (conns s p) = Begin_read l" and "begin_quiet l"
  shows "quiet p s (sys_step i p s) \<and> apWiData (mem (sys_step i p s)) = apWiData (mem s)"
proof -
  have e: "mem' i p s = snd (begin_read_step i p l (conns s p) (mem s))" using assms(1) by (simp add: conn_step_def)
  have "mem' i p s = (mem s)\<lparr>locks := locks (mem' i p s)\<rparr>"
    unfolding e by (rule begin_mem [OF assms(2)])
  then obtain t where "mem' i p s = (mem s)\<lparr>locks := t\<rparr>" by blast
  then show ?thesis using begin_not_special [OF assms(1)] by (simp add: quiet_def sys_fields)
qed

text \<open>What a step makes of the connection: where it goes, and the fields that change.\<close>

lemma begin_local:
  assumes m: "memory_ok s" and sh: "shape (conns s p)" and pc: "pc (conns s p) = Begin_read l" and l: "begin_quiet l"
    and k: "l \<noteq> Read_hdr \<longrightarrow> hdr_known s p" and r: "read_ok s p l"
    and q: "quiet p s s'" and c: "conns s' p = fst (begin_read_step i p l (conns s p) (mem s))"
    and e: "epoch s' p = (if l = Read_hdr then length (hist s) else epoch s p)"
    and no: "readLock (pWal (conns s' p)) < 0"
  shows "local_ok s' p"
proof -
  have q': "hist s' = hist s" "live (mem s') = live (mem s)" "nBackfill (mem s') = nBackfill (mem s)" "aReadMark (mem s') = aReadMark (mem s)"
    using q by (simp_all add: quiet_def)
  note d = local_ok_def c begin_defs hdr_known_def q'
  have h: "hist s \<noteq> []" "hd (hist s) = live (mem s)" using memory_facts [OF m] by simp_all
  then have "Suc 0 \<le> length (hist s)" by (cases "hist s") simp_all
  note h = h this
  have u: "\<not> ckptLock (conns s p)" "readLock (pWal (conns s p)) = -1" "read_shape (conns s p) l"
    using sh pc by (simp_all add: shape_def)
  show ?thesis
  proof (cases l)
    case Read_hdr
    then show ?thesis using h u by (simp add: d e rev_nth hd_conv_nth)
  next
    case Load_backfill
    then show ?thesis using k u by (simp add: d e)
  next
    case Lock_zero
    then show ?thesis using k r u by (simp add: d e split: prod.split)
  next
    case Check_zero
    then show ?thesis using k r no u by (simp add: d e split: if_splits)
  next
    case (Scan n mx x)
    then show ?thesis using k r u by (simp add: d e Let_def)
  next
    case (Try_mark n mx x)
    then show ?thesis using k r u by (simp add: d e split: prod.split)
  next
    case (Set_mark n)
    then show ?thesis using l by (simp add: begin_quiet_def)
  next
    case (Drop_mark n)
    then show ?thesis using k r u by (simp add: d e)
  next
    case (Lock_mark mx x)
    then show ?thesis using k r u by (simp add: d e split: prod.split)
  next
    case (Set_min mx x)
    then show ?thesis using k r u by (simp add: d e)
  next
    case (Check_mark mx x)
    then show ?thesis using k r u by (simp add: d e)
  next
    case (Check_hdr mx x)
    then show ?thesis using k r no u by (simp add: d e split: if_splits)
  qed
qed

text \<open>A read transaction begins: the header is the live one, so the snapshot is what is committed.\<close>

lemma begin_active:
  assumes inv: "inv s" and dist: "distinct (hist s)" and pc: "pc (conns s p) = Begin_read l"
    and q: "quiet p s s'" and o: "others p s s'" and e: "epoch s' p = epoch s p"
    and c: "conns s' p = begin_done (int x) (conns s p)" and l: "(l = Check_zero \<and> x = 0) \<or> (\<exists>m. l = Check_hdr m x)"
    and live: "live (mem s) = hdr_of (conns s p)"
    and sn: "snapFrame s' p = mxFrame (live (mem s))" "snapSize s' p = nPage (live (mem s))" "snapshot s' p = truth s"
  shows "reader_ok s' p \<and> local_ok s' p \<and> snap_live s' p \<and> (\<forall>r. r \<noteq> p \<longrightarrow> safe_for s' r p)"
proof -
  have m: "memory_ok s" and f: "files_ok s" and pt: "points_ok s" and sh: "shape (conns s p)"
    using inv_parts [OF inv] by simp_all
  have lo: "hdr_known s p" "read_ok s p l" using inv_parts(7) [OF inv, of p] l pc by (auto simp: local_ok_def)
  have q': "hist s' = hist s" "live (mem s') = live (mem s)" "nBackfill (mem s') = nBackfill (mem s)" "aReadMark (mem s') = aReadMark (mem s)"
    "dbFd (mem s') = dbFd (mem s)" "log s' = log s" "points s' = points s"
    using q by (simp_all add: quiet_def)
  have n: "N s' = N s" by (simp add: N_def q')
  have cur: "epoch s p = length (hist s)" by (rule known_current [OF m lo(1) live [symmetric] dist])
  have mx: "mxFrame (live (mem s)) = N s" by (rule memory_facts(4) [OF m])
  have u: "read_shape (conns s p) l" "\<not> ckptLock (conns s p)" using sh pc by (simp_all add: shape_def)
  have rl: "readLock (pWal (conns s' p)) = int x" "minFrame (pWal (conns s' p)) = minFrame (pWal (conns s p))"
    "pc (conns s' p) = (if useWal (conns s p) then Write (Write_frames (todo (conns s p)) []) else Reading)"
    "hdr_of (conns s' p) = hdr_of (conns s p)"
    by (simp_all add: c begin_done_def goto_def)
  have "reader_ok s' p"
  proof (cases "x = 0")
    case True
    then have "nBackfill (mem s) = N s" using l lo(2) u(1) cur live mx by (auto simp: )
    moreover from this have "\<forall>pg \<le> nPage (live (mem s)). dbFd (mem s) pg = truth s pg" using f by (simp add: files_ok_def N_def)
    ultimately show ?thesis using True rl sn by (simp add: reader_ok_def Let_def q' n)
  next
    case False
    then obtain mk where mk: "l = Check_hdr mk x" using l by blast
    then have r: "mk \<le> N s" "1 \<le> minFrame (pWal (conns s p))" "minFrame (pWal (conns s p)) \<le> nBackfill (mem s) + 1"
      "aReadMark (mem s) ! x = mk"
      using lo(2) cur live mx by simp_all
    have "seen s' m M pg = seen s m M pg" for m M pg by (simp add: seen_def q' cong: option.case_cong)
    then have "\<forall>pg \<le> nPage (live (mem s)). seen s' (minFrame (pWal (conns s p))) (N s) pg = truth s pg"
      using seen_truth [OF f r(2,3)] by simp
    moreover have "(N s, nPage (live (mem s))) \<in> set (points s)" using pt by (simp add: points_ok_def)
    ultimately show ?thesis using False rl sn r mx by (simp add: reader_ok_def Let_def q')
  qed
  moreover have "local_ok s' p"
    using lo(1) rl sn live e by (simp add: local_ok_def at_snapshot_def hdr_known_def q')
  moreover have "snap_live s' p" using sn mx by (simp add: snap_live_def q' n)
  moreover have "safe_for s' r p" if "r \<noteq> p" for r
  proof -
    have cr: "conns s' r = conns s r" using o that by (simp add: others_def)
    have "mxSafeFrame (conns s r) \<le> N s" if "pc (conns s r) = Ckpt k" "passed k \<noteq> 0" for k
      using inv_parts(7) [OF inv, of r] that busy_bound [OF pt, of r] by (cases k) (auto simp: local_ok_def)
    moreover have "y \<le> N s" if "pc (conns s r) = Ckpt (Ck_lock_mark j y)" for j y
      using inv_parts(7) [OF inv, of r] that busy_bound [OF pt, of r] by (auto simp: local_ok_def)
    ultimately show ?thesis using sn mx by (auto simp: safe_for_def cr Let_def split: pc.splits)
  qed
  ultimately show ?thesis by blast
qed

text \<open>The transaction of a connection depends on few fields.\<close>

lemma txn_ok_cong:
  "mxFrame (hdr_of (conns s' p)) = mxFrame (hdr_of (conns s p)) \<Longrightarrow> txn s' p = txn s p \<Longrightarrow> log s' = log s \<Longrightarrow> walFd (mem s') = walFd (mem s) \<Longrightarrow>
   txn_ok s' p L k ps = txn_ok s p L k ps"
  by (simp add: txn_ok_def N_def)

lemma request_in_cong:
  "isCommit (conns s' p) = isCommit (conns s p) \<Longrightarrow> nTruncate (conns s' p) = nTruncate (conns s p) \<Longrightarrow> txn s' p = txn s p \<Longrightarrow>
   live (mem s') = live (mem s) \<Longrightarrow> request_in s' p fs = request_in s p fs"
  by (simp add: request_in_def)

text \<open>The request of a writer that looks for a read lock.\<close>

lemma begin_writer:
  assumes q: "quiet p s s'" and pc: "pc (conns s p) = Begin_read l" and sh: "shape (conns s p)" and w: "writer_ok s L p"
    and e: "useWal (conns s p) \<longrightarrow> epoch s' p = epoch s p" and t: "txn s' p = txn s p"
    and c: "conns s' p = fst (begin_read_step i p l (conns s p) (mem s))"
    and sn: "0 \<le> readLock (pWal (conns s' p)) \<longrightarrow> snap_live s' p"
  shows "writer_ok s' L p"
proof (cases "useWal (conns s p)")
  case False
  then show ?thesis
    by (cases l) (auto simp: writer_ok_def c begin_defs Let_def split: prod.split)
next
  case True
  have q': "hist s' = hist s" "live (mem s') = live (mem s)" "log s' = log s" "walFd (mem s') = walFd (mem s)"
    using q by (simp_all add: quiet_def)
  have n: "N s' = N s" by (simp add: N_def q')
  have w': "epoch s p = length (hist s)" "pending s p L" "at_live s p" "iFirst (conns s p) = 0" and u: "read_shape (conns s p) l"
    using w True pc sh by (simp_all add: writer_ok_def shape_def)
  have same: "hdr_of (conns s' p) = hdr_of (conns s p)" "isCommit (conns s' p) = isCommit (conns s p)"
    "nTruncate (conns s' p) = nTruncate (conns s p)" "todo (conns s' p) = todo (conns s p)" "iFirst (conns s' p) = iFirst (conns s p)"
    using u True by (cases l; simp add: c begin_defs Let_def split: prod.split)+
  have x: "txn_ok s' p L 0 ps = txn_ok s p L 0 ps" "request_in s' p fs = request_in s p fs" for ps fs
    by (rule txn_ok_cong, simp_all add: same t q') (rule request_in_cong, simp_all add: same t q')
  then have "pending s' p L" "at_live s' p" using w' by (simp_all add: pending_def at_live_def same q')
  note f = this x same w' q'
  note d = writer_ok_def pending_def at_live_def
  have "pc (conns s' p) = Write Write_error \<or> (\<exists>l. pc (conns s' p) = Begin_read l) \<or>
    (pc (conns s' p) = Write (Write_frames (todo (conns s p)) []) \<and> 0 \<le> readLock (pWal (conns s' p)))"
    using u True by (cases l; simp add: c begin_defs Let_def split: prod.split)+
  then show ?thesis using f True e sn by (auto simp: d)
qed

lemma begin_starts:
  assumes sh: "shape c" and pc: "pc c = Begin_read l" and a: "0 \<le> readLock (pWal (fst (begin_read_step i p l c m)))"
  shows "live m = hdr_of c \<and> (\<exists>x. fst (begin_read_step i p l c m) = begin_done (int x) c \<and> ((l = Check_zero \<and> x = 0) \<or> (\<exists>mk. l = Check_hdr mk x)))"
proof -
  have r: "readLock (pWal c) = -1" using sh pc by (simp add: shape_def)
  show ?thesis
  proof (cases l)
    case Check_zero
    have "live m = hdr_of c"
    proof (rule ccontr)
      assume "live m \<noteq> hdr_of c"
      with a r Check_zero show False by (simp add: begin_defs split: if_splits)
    qed
    with Check_zero show ?thesis by auto
  next
    case (Check_hdr mk x)
    have "live m = hdr_of c"
    proof (rule ccontr)
      assume "live m \<noteq> hdr_of c"
      with a r Check_hdr show False by (simp add: begin_defs split: if_splits)
    qed
    with Check_hdr show ?thesis by auto
  qed (use a r in \<open>simp_all add: begin_defs Let_def split: prod.splits if_splits\<close>)
qed

lemma begin_inv:
  assumes inv: "inv s" and dist: "distinct (hist s)" and pc: "pc (conns s p) = Begin_read l" and l: "begin_quiet l"
  shows "inv (sys_step i p s)"
proof -
  let ?s = "sys_step i p s"
  have q: "quiet p s ?s" and ap: "apWiData (mem ?s) = apWiData (mem s)" using begin_step_quiet [OF pc l] by simp_all
  note o = others_step [of p s i]
  note ns = begin_not_special [OF pc]
  have sh: "shape (conns s p)" and m: "memory_ok s" using inv_parts [OF inv] by simp_all
  have lo: "l \<noteq> Read_hdr \<longrightarrow> hdr_known s p" "read_ok s p l" using inv_parts(7) [OF inv, of p] pc by (simp_all add: local_ok_def)
  have c: "conns ?s p = fst (begin_read_step i p l (conns s p) (mem s))" using pc by (simp add: conn_step_def sys_fields)
  have e: "epoch ?s p = (if l = Read_hdr then length (hist s) else epoch s p)" using ns pc by (simp add: reads_hdr_def sys_fields)
  have t: "txn ?s p = txn s p" using ns by (simp add: sys_fields)
  have nock: "\<forall>k. pc (conns ?s p) \<noteq> Ckpt k" unfolding c
    by (cases l) (auto simp: begin_defs Let_def split: prod.split)
  have old: "readLock (pWal (conns s p)) < 0" using sh pc by (simp add: shape_def)
  show ?thesis
  proof (cases "readLock (pWal (conns ?s p)) < 0")
    case True
    have w: "writer_ok ?s L p" if "writer_ok s L p" for L
      by (rule begin_writer [OF q pc sh that _ t c]) (use e sh pc True in \<open>auto simp: shape_def\<close>)
    show ?thesis
    proof (rule quiet_inv [OF inv q])
      show "reader_ok ?s p" by (rule reader_none [OF True])
      show "local_ok ?s p" by (rule begin_local [OF m sh pc l lo q c e True])
      show "safe_for ?s p r" for r by (rule safe_not_ckpt [OF nock])
      show "safe_for ?s r p" for r by (rule safe_none [OF True])
    qed (use pc ap w in auto)
  next
    case False
    then obtain x where x: "live (mem s) = hdr_of (conns s p)" "conns ?s p = begin_done (int x) (conns s p)"
      "(l = Check_zero \<and> x = 0) \<or> (\<exists>mk. l = Check_hdr mk x)"
      using begin_starts [OF sh pc, of i p "mem s"] c by auto
    have b: "begins (conns s p) (conn' i p s)" using old False by (simp add: begins_def sys_fields)
    have sn: "snapFrame ?s p = mxFrame (live (mem s))" "snapSize ?s p = nPage (live (mem s))" "snapshot ?s p = truth s"
      using b ns q by (simp_all add: quiet_def sys_fields)
    have e': "epoch ?s p = epoch s p" using e x(3) by auto
    note act = begin_active [OF inv dist pc q o e' x(2,3,1) sn]
    have w: "writer_ok ?s L p" if "writer_ok s L p" for L
      by (rule begin_writer [OF q pc sh that _ t c]) (use e' act in auto)
    show ?thesis
    proof (rule quiet_inv [OF inv q])
      show "safe_for ?s p r" for r by (rule safe_not_ckpt [OF nock])
    qed (use pc ap w act in auto)
  qed
qed

section \<open>Setting a mark\<close>

lemma mark_inv:
  assumes inv: "inv s" and n: "1 \<le> n" "n \<le> 4" and ex: "ex_held (conns s p) (3 + n)"
    and m': "mem (sys_step i p s) = (mem s)\<lparr>aReadMark := (aReadMark (mem s))[n := v]\<rparr>"
    and ns: "\<not> restarts (conns s p)" "\<not> commits (conns s p)" "\<not> reads_hdr (conns s p)"
    and t: "txn (sys_step i p s) p = txn s p"
    and rl: "readLock (pWal (conns s p)) \<le> 0" "readLock (pWal (conns (sys_step i p s) p)) = readLock (pWal (conns s p))"
    and pc: "pc (conns s p) \<noteq> Restarting Zero_backfill"
    and lo: "local_ok (sys_step i p s) p" and sf: "\<And>r. safe_for (sys_step i p s) p r"
    and w: "\<And>L. writer_ok s L p \<Longrightarrow> writer_ok (sys_step i p s) L p"
  shows "inv (sys_step i p s)"
proof -
  let ?s = "sys_step i p s"
  note o = others_step [of p s i]
  have same: "same_conn r s ?s" if "r \<noteq> p" for r by (rule others_same [OF o that])
  have tb: "table_ok (locks (mem s)) (conns s)" by (rule inv_parts(2) [OF inv])
  have f: "hist ?s = hist s" "log ?s = log s" "truth ?s = truth s" "points ?s = points s"
    "live (mem ?s) = live (mem s)" "nBackfill (mem ?s) = nBackfill (mem s)" "walFd (mem ?s) = walFd (mem s)" "dbFd (mem ?s) = dbFd (mem s)"
    "apWiData (mem ?s) = apWiData (mem s)"
    using ns by (simp_all add: m') (simp_all add: sys_fields)
  have N: "N ?s = N s" by (simp add: N_def f)
  have mk: "aReadMark (mem ?s) ! x = aReadMark (mem s) ! x" if "x \<noteq> n" for x using that by (simp add: m')
  have seen: "seen ?s a b pg = seen s a b pg" for a b pg by (simp add: seen_def f cong: option.case_cong)
  have rd: "reader_ok ?s r" for r
  proof (cases "r = p")
    case False
    have "readLock (pWal (conns s r)) \<noteq> int n" by (rule no_reader [OF tb ex])
    then have "nat (readLock (pWal (conns s r))) \<noteq> n" if "0 < readLock (pWal (conns s r))" using that by auto
    then show ?thesis using inv_parts(6) [OF inv, of r] same [OF False]
      by (auto simp: reader_ok_def Let_def same_conn_def f N seen mk)
  next
    case True
    have "\<not> begins (conns s p) (conn' i p s)" using rl by (simp add: begins_def sys_fields)
    then have "snapSize ?s p = snapSize s p" "snapshot ?s p = snapshot s p" "epoch ?s p = epoch s p" using ns by (simp_all add: sys_fields)
    then show ?thesis using True inv_parts(6) [OF inv, of p] rl pc
      by (auto simp: reader_ok_def Let_def f N)
  qed
  have lc: "local_ok ?s r" for r
  proof (cases "r = p")
    case False
    have "\<not> sh_held (conns s r) (3 + n)" by (rule excluded(2) [OF tb ex])
    then have x: "x \<noteq> n" if "pc (conns s r) = Begin_read (Check_hdr mx x)" for mx x using that by (auto simp: sh_held_def)
    have sc: "conns ?s r = conns s r" "epoch ?s r = epoch s r" "snapFrame ?s r = snapFrame s r" "snapSize ?s r = snapSize s r"
      using same [OF False] by (simp_all add: same_conn_def)
    have "hdr_known ?s r = hdr_known s r" "at_snapshot ?s r = at_snapshot s r"
      by (simp_all add: hdr_known_def at_snapshot_def sc f)
    moreover have "read_ok ?s r l = read_ok s r l" if "pc (conns s r) = Begin_read l" for l
      using x that mk by (cases l) (simp_all add: sc f)
    moreover have "ckpt_ok ?s r l = ckpt_ok s r l" for l
      by (cases l) (simp_all add: sc f N ck_busy_def ck_point_def walking_def copied_def wanted_def last_frame_def)
    moreover have "restart_ok ?s r l = restart_ok s r l" for l by (cases l) (simp_all add: f N)
    ultimately show ?thesis using inv_parts(7) [OF inv, of r]
      by (simp add: local_ok_def sc f split: pc.splits)
  qed (use lo in simp)
  have sff: "safe_for ?s r r'" for r r'
  proof (cases "r = p")
    case False
    show ?thesis
    proof (cases "r' = p")
      case True
      have "shape (conns ?s r)" using inv_parts(1) [OF inv] shape_step by (simp add: sys_fields)
      with True show ?thesis using rl safe_low [of ?s p r] by simp
    next
      case nr: False
      show ?thesis using quiet_safe [OF same [OF False] same [OF nr]] inv_parts(8) [OF inv] by simp
    qed
  qed (use sf in simp)
  have wr: "writer_ok ?s L r" if "writer_ok s L r" for L r
  proof (cases "r = p")
    case False
    have sc: "conns ?s r = conns s r" "epoch ?s r = epoch s r" "snapFrame ?s r = snapFrame s r" "snapSize ?s r = snapSize s r" "txn ?s r = txn s r"
      using same [OF False] by (simp_all add: same_conn_def)
    have a: "txn_ok ?s r L k ps = txn_ok s r L k ps" "request_in ?s r fs = request_in s r fs" "at_live ?s r = at_live s r" "snap_live ?s r = snap_live s r" for L k ps fs
      by (simp_all only: txn_ok_def request_in_def at_live_def snap_live_def sc f N)
    have "write_ok ?s r L l = write_ok s r L l" for l
      by (cases l) (simp_all only: write_ok.simps pending_def a sc N)
    with that a show ?thesis
      by (simp add: writer_ok_def pending_def sc f split: pc.splits)
  qed (use that w in simp)
  have "memory_ok ?s"
  proof -
    have "length (aReadMark (mem ?s)) = length (aReadMark (mem s))" by (simp add: m')
    then show ?thesis using inv_parts(3) [OF inv] o pc unfolding memory_ok_def f N others_def by metis
  qed
  moreover have "files_ok ?s" using inv_parts(4) [OF inv] unfolding files_ok_def f N .
  moreover have "points_ok ?s" using inv_parts(5) [OF inv] unfolding points_ok_def f N .
  moreover have "index_ok ?s" using inv_parts(9) [OF inv] wr unfolding index_ok_def f N by blast
  moreover have "\<forall>r. shape (conns ?s r)" using inv_parts(1) [OF inv] shape_step by (simp add: sys_fields)
  moreover have "table_ok (locks (mem ?s)) (conns ?s)" using locks_step [OF tb inv_parts(1) [OF inv]] by (simp add: sys_fields)
  ultimately show ?thesis using rd lc sff unfolding inv_def by blast
qed

section \<open>The writer\<close>

definition write_quiet :: "conn \<Rightarrow> write_pc \<Rightarrow> bool" where
  "write_quiet c l \<longleftrightarrow> (\<forall>fs new. l = Write_frames fs new \<longrightarrow> fs = []) \<and> \<not> commits c"

lemma write_mem:
  "pc c = Write l \<Longrightarrow> write_quiet c l \<Longrightarrow>
   snd (write_step i p l c m) = m\<lparr>locks := locks (snd (write_step i p l c m)), apWiData := apWiData (snd (write_step i p l c m))\<rparr>"
  by (cases "(i, p, l, c, m)" rule: write_step.cases)
    (simp_all add: write_quiet_def commits_def Let_def split: prod.split request.split)

lemma write_step_quiet:
  assumes "pc (conns s p) = Write l" and "write_quiet (conns s p) l"
  shows "quiet p s (sys_step i p s)"
proof -
  have e: "mem' i p s = snd (write_step i p l (conns s p) (mem s))" using assms(1) by (simp add: conn_step_def)
  have "mem' i p s = (mem s)\<lparr>locks := locks (mem' i p s), apWiData := apWiData (mem' i p s)\<rparr>"
    unfolding e by (rule write_mem [OF assms])
  then obtain t a where "mem' i p s = (mem s)\<lparr>locks := t, apWiData := a\<rparr>" by blast
  then show ?thesis using assms by (simp add: quiet_def sys_fields restarts_def write_quiet_def)
qed

text \<open>A step that leaves the read lock of \<open>p\<close> alone.\<close>

lemma reader_kept:
  assumes "quiet p s s'" and "reader_ok s p" and "pc (conns s p) \<noteq> Restarting Zero_backfill" and "readLock (pWal (conns s' p)) = readLock (pWal (conns s p))"
    and "minFrame (pWal (conns s' p)) = minFrame (pWal (conns s p))"
    and "epoch s' p = epoch s p" "snapFrame s' p = snapFrame s p" "snapSize s' p = snapSize s p" "snapshot s' p = snapshot s p"
  shows "reader_ok s' p"
proof -
  have "seen s' m M pg = seen s m M pg" for m M pg using assms(1) by (simp add: quiet_def seen_def cong: option.case_cong)
  then show ?thesis using assms by (simp add: reader_ok_def Let_def quiet_def N_def)
qed

lemma safe_kept:
  "safe_for s r p \<Longrightarrow> conns s' r = conns s r \<Longrightarrow> readLock (pWal (conns s' p)) = readLock (pWal (conns s p)) \<Longrightarrow> snapFrame s' p = snapFrame s p \<Longrightarrow>
   safe_for s' r p"
  by (simp add: safe_for_def cong: pc.case_cong)

text \<open>The steps of the control of a writer: \<open>p\<close> keeps its read lock.\<close>

lemma kept_inv:
  assumes inv: "inv s" and q: "quiet p s (sys_step i p s)" and pc: "pc (conns s p) \<noteq> Restarting Zero_backfill"
    and np: "\<not> restarts (conns s p)" "\<not> commits (conns s p)" "\<not> reads_hdr (conns s p)"
    and rl: "readLock (pWal (conns (sys_step i p s) p)) = readLock (pWal (conns s p))"
    and mf: "minFrame (pWal (conns (sys_step i p s) p)) = minFrame (pWal (conns s p))"
    and nc: "\<forall>l. pc (conns (sys_step i p s) p) \<noteq> Ckpt l"
    and lo: "epoch (sys_step i p s) p = epoch s p \<Longrightarrow> snapFrame (sys_step i p s) p = snapFrame s p \<Longrightarrow> snapSize (sys_step i p s) p = snapSize s p \<Longrightarrow>
      local_ok (sys_step i p s) p"
    and ix: "\<And>L. epoch (sys_step i p s) p = epoch s p \<Longrightarrow> snapFrame (sys_step i p s) p = snapFrame s p \<Longrightarrow> snapSize (sys_step i p s) p = snapSize s p \<Longrightarrow>
      wi_ok (apWiData (mem s)) L \<Longrightarrow> N s \<le> length L \<Longrightarrow> take (N s) L = map fst (log s) \<Longrightarrow> writer_ok s L p \<Longrightarrow>
      \<exists>L'. wi_ok (apWiData (mem (sys_step i p s))) L' \<and> N s \<le> length L' \<and> take (N s) L' = map fst (log s) \<and>
        writer_ok (sys_step i p s) L' p \<and> (L' = L \<or> writeLock (conns s p))"
  shows "inv (sys_step i p s)"
proof -
  let ?s = "sys_step i p s"
  have "\<not> begins (conns s p) (conn' i p s)" using rl by (simp add: begins_def sys_fields)
  then have f: "epoch ?s p = epoch s p" "snapFrame ?s p = snapFrame s p" "snapSize ?s p = snapSize s p" "snapshot ?s p = snapshot s p"
    using np by (simp_all add: sys_fields)
  show ?thesis
  proof (rule quiet_inv [OF inv q pc])
    show "reader_ok ?s p" by (rule reader_kept [OF q inv_parts(6) [OF inv] pc rl mf f])
    show "local_ok ?s p" by (rule lo [OF f(1-3)])
    show "safe_for ?s p r" for r by (rule safe_not_ckpt [OF nc])
    show "safe_for ?s r p" if "r \<noteq> p" for r
      by (rule safe_kept [OF inv_parts(8) [OF inv] _ rl f(2)]) (use that in \<open>simp add: sys_fields\<close>)
  qed (rule ix [OF f(1-3)])
qed

end
