(* ===== verification/Wal_Write_Safety.thy ===== *)
theory Wal_Write_Safety
  imports Wal_Safety
begin

text \<open>
  The steps of a writer keep the invariant: its transaction grows behind the committed frames, in
  the file and in the tables, and a commit makes it part of them.
\<close>

section \<open>Control\<close>

lemmas write_defs = goto_def set_hdr_def begin_try_def

lemma txn_start:
  assumes "memory_ok s" and "hdr_of (conns s' p) = live (mem s)" and "log s' = log s" and "txn s' p = []"
    and "N s \<le> length L" and "take (N s) L = map fst (log s)"
  shows "txn_ok s' p L 0 []"
  using assms(2-) memory_facts(4) [OF assms(1)] by (simp add: txn_ok_def N_def pages_valid_def)

lemma write_control_inv:
  assumes inv: "inv s" and dist: "distinct (hist s)" and pc: "pc (conns s p) = Write l"
    and l: "l \<in> {Lock_write, Check_write, Frames_start, Restart_load, Restart_lock, Restart_unlock}"
  shows "inv (sys_step i p s)"
proof -
  let ?s = "sys_step i p s"
  have q: "quiet p s ?s" by (rule write_step_quiet [OF pc]) (use l pc in \<open>auto simp: write_quiet_def commits_def\<close>)
  have np: "\<not> restarts (conns s p)" "\<not> commits (conns s p)" "\<not> reads_hdr (conns s p)"
    using pc l by (auto simp: restarts_def commits_def reads_hdr_def)
  have sh: "shape (conns s p)" and m: "memory_ok s" and lo: "local_ok s p" and rd: "reader_ok s p" using inv_parts [OF inv] by simp_all
  have c: "conns ?s p = fst (write_step i p l (conns s p) (mem s))" using pc by (simp add: conn_step_def sys_fields)
  have t: "txn ?s p = (if l = Check_write then [] else txn s p)" using pc l by (auto simp: sys_fields txn_after_def restarts_def commits_def)
  have q': "hist ?s = hist s" "live (mem ?s) = live (mem s)" "log ?s = log s" "walFd (mem ?s) = walFd (mem s)" "nBackfill (mem ?s) = nBackfill (mem s)"
    using q by (simp_all add: quiet_def)
  have ap: "apWiData (mem ?s) = apWiData (mem s)"
    using l pc by (auto simp: sys_fields conn_step_def split: prod.split)
  have n: "N ?s = N s" by (simp add: N_def q')
  have w: "pWal (conns ?s p) = pWal (conns s p)" "todo (conns ?s p) = todo (conns s p)" "isCommit (conns ?s p) = isCommit (conns s p)"
    "nTruncate (conns ?s p) = nTruncate (conns s p)"
    using l by (elim insertE emptyE; simp add: c write_defs split: prod.split)+
  have x: "txn_ok ?s p L 0 ps = txn_ok s p L 0 ps" "request_in ?s p fs = request_in s p fs" if "l \<noteq> Check_write" for L ps fs
    by (rule txn_ok_cong, simp_all add: w t q' that) (rule request_in_cong, simp_all add: w t q' that)
  show ?thesis
  proof (rule kept_inv [OF inv q _ np])
    show "\<forall>k. pc (conns ?s p) \<noteq> Ckpt k" using l by (elim insertE emptyE; simp add: c write_defs split: prod.split)
    assume f: "epoch ?s p = epoch s p" "snapFrame ?s p = snapFrame s p" "snapSize ?s p = snapSize s p"
    have known: "hdr_known ?s p = hdr_known s p" by (simp add: hdr_known_def w f q')
    show "local_ok ?s p"
    proof (cases "l = Restart_lock")
      case False
      have sn: "at_snapshot ?s p = at_snapshot s p" by (simp add: at_snapshot_def known w f)
      have "(\<exists>k. pc (conns ?s p) = Write k \<and> (k = Check_write \<longrightarrow> l = Lock_write) \<and> k \<noteq> Lock_write) \<or> pc (conns ?s p) = Writing \<or>
          (pc (conns ?s p) = Reading \<and> l \<in> {Lock_write, Check_write})"
        using l False by (elim insertE emptyE; simp add: c write_defs split: prod.split)
      then show ?thesis using sn lo pc by (auto simp: local_ok_def)
    next
      case True
      obtain L where L: "writer_ok s L p" using inv_parts(9) [OF inv] by (auto simp: index_ok_def)
      then have wl: "at_live s p" "epoch s p = length (hist s)" using pc True by (simp_all add: writer_ok_def)
      have "readLock (pWal (conns s p)) = 0" using sh pc True by (simp add: shape_def)
      then have "nBackfill (mem s) = N s" using rd wl(2) pc by (simp add: reader_ok_def)
      then show ?thesis using wl(1) True
        by (simp add: local_ok_def c write_defs at_live_def q' n split: prod.split)
    qed
    fix L assume L: "wi_ok (apWiData (mem s)) L" "N s \<le> length L" "take (N s) L = map fst (log s)" and wr: "writer_ok s L p"
    have lv: "at_live ?s p = at_live s p" "snap_live ?s p = snap_live s p" by (simp_all add: at_live_def snap_live_def w q' f n)
    have "writer_ok ?s L p"
    proof (cases "l = Check_write")
      case True
      show ?thesis
      proof (cases "hdr_of (conns s p) = live (mem s)")
        case False
        then show ?thesis using True by (simp add: writer_ok_def c write_defs)
      next
        case eq: True
        have as: "at_snapshot s p" using lo pc True by (simp add: local_ok_def)
        then have "epoch s p = length (hist s)" using known_current [OF m _ eq dist] by (simp add: at_snapshot_def)
        moreover have "txn_ok ?s p L 0 []" by (rule txn_start [OF m]) (use eq L True in \<open>simp_all add: w q' t\<close>)
        moreover have "snap_live s p" using as eq memory_facts(4) [OF m] by (simp add: snap_live_def at_snapshot_def)
        moreover have "pc (conns ?s p) = Writing" using True eq by (simp add: c write_defs)
        ultimately show ?thesis using eq lv f by (simp add: writer_ok_def at_live_def q')
      qed
    next
      case False
      note x = x [OF False]
      have p: "pending ?s p L = pending s p L" by (simp add: pending_def x w)
      have "l = Lock_write \<or> (l = Frames_start \<and> pending s p L \<and> snap_live s p \<and> (readLock (pWal (conns s p)) = 0 \<longrightarrow> at_live s p) \<and> epoch s p = length (hist s)) \<or>
         (l \<in> {Restart_load, Restart_lock, Restart_unlock} \<and> pending s p L \<and> at_live s p \<and> iFirst (conns s p) = 0 \<and> epoch s p = length (hist s))"
        using wr pc l False by (auto simp: writer_ok_def)
      moreover have "pc (conns ?s p) \<in> {Reading, Write Check_write}" if "l = Lock_write" using that by (simp add: c write_defs split: prod.split)
      moreover have "(pc (conns ?s p) = Write Restart_load \<and> readLock (pWal (conns s p)) = 0 \<or> pc (conns ?s p) = Write (Write_frames (todo (conns s p)) [])) \<and>
          iFirst (conns ?s p) = (if at_live s p then 0 else N s + 1)" if "l = Frames_start"
        using that memory_facts(4) [OF m] by (auto simp: c write_defs at_live_def)
      moreover have "pc (conns ?s p) \<in> {Write Restart_lock, Write Restart_drop, Write Write_error, Restarting Publish} \<and> iFirst (conns ?s p) = iFirst (conns s p)"
        if "l \<in> {Restart_load, Restart_lock, Restart_unlock}" using that by (elim insertE emptyE; simp add: c write_defs split: prod.split)
      moreover have "txn_ok ?s p L 0 [] \<and> request_in ?s p (todo (conns s p)) \<and> todo (conns s p) \<noteq> []" if "pending s p L"
        using that x by (simp add: pending_def)
      ultimately show ?thesis using f lv p q'(1) n by (auto simp: writer_ok_def)
    qed
    then show "\<exists>L'. wi_ok (apWiData (mem ?s)) L' \<and> N s \<le> length L' \<and> take (N s) L' = map fst (log s) \<and>
        writer_ok ?s L' p \<and> (L' = L \<or> writeLock (conns s p))"
      using L ap by auto
  qed (use pc w in simp_all)
qed

lemma write_drop_inv:
  assumes inv: "inv s" and pc: "pc (conns s p) = Write Restart_drop"
  shows "inv (sys_step i p s)"
proof -
  let ?s = "sys_step i p s"
  have q: "quiet p s ?s" by (rule write_step_quiet [OF pc]) (use pc in \<open>auto simp: write_quiet_def commits_def\<close>)
  have np: "\<not> restarts (conns s p)" "\<not> commits (conns s p)" "\<not> reads_hdr (conns s p)"
    using pc by (auto simp: restarts_def commits_def reads_hdr_def)
  have sh: "shape (conns s p)" and m: "memory_ok s" using inv_parts [OF inv] by simp_all
  have c: "conns ?s p = begin_try ((conns s p)\<lparr>pWal := (pWal (conns s p))\<lparr>readLock := -1\<rparr>, useWal := True, cnt := 0\<rparr>)"
    using pc by (simp add: conn_step_def sys_fields)
  have cs: "pc (conns ?s p) = Begin_read (Scan 1 0 0)" "readLock (pWal (conns ?s p)) = -1" "hdr_of (conns ?s p) = hdr_of (conns s p)"
    "todo (conns ?s p) = todo (conns s p)" "isCommit (conns ?s p) = isCommit (conns s p)" "nTruncate (conns ?s p) = nTruncate (conns s p)"
    "iFirst (conns ?s p) = iFirst (conns s p)"
    by (simp_all add: c write_defs WAL_RETRY_PROTOCOL_LIMIT_def)
  have t: "txn ?s p = txn s p" and e: "epoch ?s p = epoch s p" using pc np by (simp_all add: sys_fields txn_after_def)
  have q': "hist ?s = hist s" "live (mem ?s) = live (mem s)" "log ?s = log s" "walFd (mem ?s) = walFd (mem s)"
    using q by (simp_all add: quiet_def)
  have ap: "apWiData (mem ?s) = apWiData (mem s)" using pc by (simp add: sys_fields conn_step_def)
  have x: "txn_ok ?s p L 0 ps = txn_ok s p L 0 ps" "request_in ?s p fs = request_in s p fs" for L ps fs
    by (rule txn_ok_cong, simp_all add: cs t q') (rule request_in_cong, simp_all add: cs t q')
  have w: "writer_ok ?s L p" if "writer_ok s L p" for L
    using that pc by (simp add: writer_ok_def cs e q' pending_def x at_live_def)
  obtain L where "writer_ok s L p" using inv_parts(9) [OF inv] by (auto simp: index_ok_def)
  then have lv: "at_live s p" "epoch s p = length (hist s)" using pc by (simp_all add: writer_ok_def)
  show ?thesis
  proof (rule quiet_inv [OF inv q])
    show "reader_ok ?s p" by (rule reader_none) (simp add: cs)
    have "hdr_known s p" by (rule live_known [OF m]) (use lv in \<open>simp_all add: at_live_def\<close>)
    then show "local_ok ?s p" by (simp add: local_ok_def cs hdr_known_def q' e)
    show "safe_for ?s p r" for r by (rule safe_not_ckpt) (simp add: cs)
    show "safe_for ?s r p" for r by (rule safe_none) (simp add: cs)
  qed (use pc ap w in auto)
qed

section \<open>The frames\<close>

lemma index_frame_inv:
  assumes inv: "inv s" and pc: "pc (conns s p) = Write (Index_frames (pg # ps) k)"
  shows "inv (sys_step i p s)"
proof -
  let ?s = "sys_step i p s" and ?w = "pWal (conns s p)" and ?f = "mxFrame (hdr_of (conns s p)) + k"
  have q: "quiet p s ?s" by (rule write_step_quiet [OF pc]) (use pc in \<open>auto simp: write_quiet_def commits_def\<close>)
  have np: "\<not> restarts (conns s p)" "\<not> commits (conns s p)" "\<not> reads_hdr (conns s p)"
    using pc by (auto simp: restarts_def commits_def reads_hdr_def)
  obtain rc ap where a: "walIndexAppend (\<lambda>_. io i) ?w (apWiData (mem s)) (Suc ?f) pg = (rc, ap)" by fastforce
  have c: "conns ?s p = goto (Write (if rc = SQLITE_OK then Index_frames ps (k + 1) else Write_error)) (conns s p)"
    and ap: "apWiData (mem ?s) = ap"
    using pc a by (simp_all add: conn_step_def sys_fields)
  have t: "txn ?s p = txn s p" using pc np by (simp add: sys_fields txn_after_def)
  have q': "hist ?s = hist s" "live (mem ?s) = live (mem s)" "log ?s = log s" "walFd (mem ?s) = walFd (mem s)"
    using q by (simp_all add: quiet_def)
  have n: "N ?s = N s" by (simp add: N_def q')
  have w: "pWal (conns ?s p) = ?w" "isCommit (conns ?s p) = isCommit (conns s p)" "nTruncate (conns ?s p) = nTruncate (conns s p)"
    by (simp_all add: c goto_def)
  show ?thesis
  proof (rule kept_inv [OF inv q _ np])
    show "local_ok ?s p" by (simp add: local_ok_def c goto_def)
    assume f: "epoch ?s p = epoch s p" "snapFrame ?s p = snapFrame s p" "snapSize ?s p = snapSize s p"
    fix L assume L: "wi_ok (apWiData (mem s)) L" "N s \<le> length L" "take (N s) L = map fst (log s)" and wr: "writer_ok s L p"
    have tx: "txn_ok s p L k (pg # ps)" "request_in s p []" "snap_live s p" "txn s p \<noteq> []" "epoch s p = length (hist s)"
      using wr pc by (simp_all add: writer_ok_def)
    have h: "N s \<le> mxFrame (hdr_of (conns s p))" "?f + Suc (length ps) = N s + length (txn s p)" "?f \<le> length L"
      "take ?f L = map fst (log s) @ map fst (take (?f - N s) (txn s p))" "map fst (drop (?f - N s) (txn s p)) = pg # ps"
      "0 < k \<Longrightarrow> length L = ?f" "\<forall>j < length (txn s p). walFd (mem s) (Suc (N s + j)) = snd (txn s p ! j)" "pages_valid (txn s p)"
      using tx(1) by (simp_all add: txn_ok_def Let_def)
    have sn: "snap_live ?s p" using tx(3) by (simp add: snap_live_def f q' n)
    have rq: "request_in ?s p []" using tx(2) request_in_cong [of ?s p s] w t q' by simp
    show "\<exists>L'. wi_ok (apWiData (mem ?s)) L' \<and> N s \<le> length L' \<and> take (N s) L' = map fst (log s) \<and>
        writer_ok ?s L' p \<and> (L' = L \<or> writeLock (conns s p))"
    proof (cases "io i = SQLITE_OK")
      case False
      then have "rc \<noteq> SQLITE_OK" "ap = apWiData (mem s)"
        using a by (auto simp: walIndexAppend_def walHashGet_def Let_def split: prod.splits)
      then show ?thesis using L by (intro exI [of _ L]) (simp add: ap writer_ok_def c goto_def)
    next
      case True
      let ?j = "?f - N s"
      have j: "?j < length (txn s p)" using h(1,2) by linarith
      have "fst (txn s p ! ?j) = pg" "map fst (drop (Suc ?j) (txn s p)) = ps"
        using h(5) by (simp_all add: Cons_nth_drop_Suc [OF j, symmetric])
      note pg = this
      then have "pg \<noteq> 0" using h(8) j unfolding pages_valid_def by (metis nth_mem surj_pair fst_conv)
      moreover have "?f = length L \<or> mxFrame (hdr ?w) = ?f" using h(6) by (cases k) auto
      ultimately have A: "rc = SQLITE_OK" "wi_ok ap (take ?f L @ [pg])"
        using wi_ok_append [OF L(1) h(3), of ?w pg "\<lambda>_. io i"] True a by auto
      let ?L = "take ?f L @ [pg]"
      have ts: "take (Suc ?j) (txn s p) = take ?j (txn s p) @ [txn s p ! ?j]" by (rule take_Suc_conv_app_nth [OF j])
      have sj: "Suc ?f - N s = Suc ?j" using h(1) by (simp add: Suc_diff_le)
      have len: "length ?L = Suc ?f" "take (Suc ?f) ?L = ?L" using h(3) by simp_all
      have eq: "?L = map fst (log s) @ map fst (take (Suc ?j) (txn s p))" by (simp only: h(4) ts map_append list.map pg append_assoc)
      define L' where "L' = ?L"
      have "txn_ok ?s p L' (Suc k) ps"
        using h(1,2,7,8) pg(2) sj len eq by (simp add: txn_ok_def Let_def w t q' n flip: L'_def del: take_Suc)
      then have "txn_ok ?s p ?L (Suc k) ps" by (simp only: L'_def)
      moreover have "pc (conns ?s p) = Write (Index_frames ps (Suc k))" using A(1) by (simp add: c goto_def)
      ultimately have "writer_ok ?s ?L p" using rq sn tx(4,5) by (simp add: writer_ok_def f q' t)
      moreover have "take (N s) ?L = map fst (log s)" using h(1,4) L(2,3) by (simp add: min_def N_def)
      moreover have "writeLock (conns s p)" using inv_parts(1) [OF inv, of p] pc by (simp add: shape_def)
      ultimately show ?thesis using A(2) h(1,3) by (intro exI [of _ ?L]) (simp add: ap)
    qed
  qed (use pc w c in \<open>simp_all add: goto_def\<close>)
qed

lemma frames_done_inv:
  assumes inv: "inv s" and pc: "pc (conns s p) = Write (Write_frames [] new)"
  shows "inv (sys_step i p s)"
proof -
  let ?s = "sys_step i p s"
  have q: "quiet p s ?s" by (rule write_step_quiet [OF pc]) (use pc in \<open>auto simp: write_quiet_def commits_def\<close>)
  have np: "\<not> restarts (conns s p)" "\<not> commits (conns s p)" "\<not> reads_hdr (conns s p)"
    using pc by (auto simp: restarts_def commits_def reads_hdr_def)
  have c: "conns ?s p = goto (Write (if io i \<noteq> SQLITE_OK then Write_error else Index_frames new 0)) (conns s p)"
    and ap: "apWiData (mem ?s) = apWiData (mem s)" and t: "txn ?s p = txn s p"
    using pc np by (simp_all add: conn_step_def sys_fields txn_after_def)
  have q': "hist ?s = hist s" "live (mem ?s) = live (mem s)" "log ?s = log s" "walFd (mem ?s) = walFd (mem s)"
    using q by (simp_all add: quiet_def)
  have w: "pWal (conns ?s p) = pWal (conns s p)" "isCommit (conns ?s p) = isCommit (conns s p)" "nTruncate (conns ?s p) = nTruncate (conns s p)"
    by (simp_all add: c goto_def)
  show ?thesis
  proof (rule kept_inv [OF inv q _ np])
    show "local_ok ?s p" by (simp add: local_ok_def c goto_def)
    assume f: "epoch ?s p = epoch s p" "snapFrame ?s p = snapFrame s p" "snapSize ?s p = snapSize s p"
    fix L assume L: "wi_ok (apWiData (mem s)) L" "N s \<le> length L" "take (N s) L = map fst (log s)" and wr: "writer_ok s L p"
    have "txn_ok ?s p L 0 new = txn_ok s p L 0 new" "request_in ?s p [] = request_in s p []"
      by (rule txn_ok_cong, simp_all add: w t q') (rule request_in_cong, simp_all add: w t q')
    moreover have "snap_live ?s p = snap_live s p" by (simp add: snap_live_def f q' N_def)
    ultimately have "writer_ok ?s L p" using wr pc by (auto simp: writer_ok_def c goto_def f q' t)
    then show "\<exists>L'. wi_ok (apWiData (mem ?s)) L' \<and> N s \<le> length L' \<and> take (N s) L' = map fst (log s) \<and>
        writer_ok ?s L' p \<and> (L' = L \<or> writeLock (conns s p))" using L ap by auto
  qed (use pc w c in \<open>simp_all add: goto_def\<close>)
qed

text \<open>Frames that do not commit: the header of the connection counts them.\<close>

lemma spill_inv:
  assumes inv: "inv s" and pc: "pc (conns s p) = Write (Index_frames [] k)" and nc: "\<not> isCommit (conns s p)"
  shows "inv (sys_step i p s)"
proof -
  let ?s = "sys_step i p s"
  have np: "\<not> restarts (conns s p)" "\<not> commits (conns s p)" "\<not> reads_hdr (conns s p)"
    using pc nc by (auto simp: restarts_def commits_def reads_hdr_def)
  have q: "quiet p s ?s" by (rule write_step_quiet [OF pc]) (use pc np in \<open>auto simp: write_quiet_def\<close>)
  have c: "conns ?s p = goto Writing (set_hdr (commit_hdr i k (conns s p)) (conns s p))"
    and ap: "apWiData (mem ?s) = apWiData (mem s)" and t: "txn ?s p = txn s p"
    using pc np nc by (simp_all add: conn_step_def sys_fields txn_after_def)
  have q': "hist ?s = hist s" "live (mem ?s) = live (mem s)" "log ?s = log s" "walFd (mem ?s) = walFd (mem s)"
    using q by (simp_all add: quiet_def)
  have n: "N ?s = N s" by (simp add: N_def q')
  have w: "readLock (pWal (conns ?s p)) = readLock (pWal (conns s p))" "minFrame (pWal (conns ?s p)) = minFrame (pWal (conns s p))"
    "mxFrame (hdr_of (conns ?s p)) = mxFrame (hdr_of (conns s p)) + k" "pc (conns ?s p) = Writing"
    using nc by (simp_all add: c goto_def set_hdr_def commit_hdr_def)
  have rl: "readLock (pWal (conns s p)) \<noteq> 0" using inv_parts(1) [OF inv, of p] pc by (simp add: shape_def)
  show ?thesis
  proof (rule kept_inv [OF inv q _ np])
    show "local_ok ?s p" by (simp add: local_ok_def w)
    assume f: "epoch ?s p = epoch s p" "snapFrame ?s p = snapFrame s p" "snapSize ?s p = snapSize s p"
    fix L assume L: "wi_ok (apWiData (mem s)) L" "N s \<le> length L" "take (N s) L = map fst (log s)" and wr: "writer_ok s L p"
    have "txn_ok ?s p L 0 []" using wr pc by (auto simp: writer_ok_def txn_ok_def Let_def w n t q')
    moreover have "snap_live ?s p = snap_live s p" by (simp add: snap_live_def f q' n)
    ultimately have "writer_ok ?s L p" using wr pc rl by (auto simp: writer_ok_def w f q' t)
    then show "\<exists>L'. wi_ok (apWiData (mem ?s)) L' \<and> N s \<le> length L' \<and> take (N s) L' = map fst (log s) \<and>
        writer_ok ?s L' p \<and> (L' = L \<or> writeLock (conns s p))" using L ap by auto
  qed (use pc w in simp_all)
qed

section \<open>Undo and the end of a transaction\<close>

text \<open>A log that is cut back to the committed frames.\<close>

lemma undo_index:
  assumes "wi_ok ap L" and "N s \<le> length L" and "take (N s) L = map fst (log s)" and "mxFrame (hdr w) = N s"
  shows "\<exists>L'. wi_ok (walCleanupHash w ap) L' \<and> N s \<le> length L' \<and> take (N s) L' = map fst (log s)"
  using wi_ok_cleanup [OF assms(1), of w] assms(2-4)
  by (intro exI [of _ "if N s = 0 then L else take (N s) L"]) (auto simp: N_def)

lemma undo_step:
  assumes inv: "inv s" and pc: "pc (conns s p) = Writing \<or> pc (conns s p) = Write Write_error" and r: "req i = Do_undo"
  shows "inv (sys_step i p s)"
proof -
  let ?s = "sys_step i p s" and ?c = "set_hdr (live (mem s)) (conns s p)"
  have np: "\<not> restarts (conns s p)" "\<not> commits (conns s p)" "\<not> reads_hdr (conns s p)"
    using pc by (auto simp: restarts_def commits_def reads_hdr_def)
  have c: "conns ?s p = ?c" and t: "txn ?s p = []"
    and m: "mem ?s = (if mxFrame (hdr_of (conns s p)) \<noteq> mxFrame (live (mem s)) then (mem s)\<lparr>apWiData := walCleanupHash (pWal ?c) (apWiData (mem s))\<rparr> else mem s)"
    using pc r np by (auto simp: conn_step_def sys_fields writing_step_def Let_def txn_after_def)
  have q: "quiet p s ?s" using np m by (simp add: quiet_def sys_fields)
  have q': "hist ?s = hist s" "live (mem ?s) = live (mem s)" "log ?s = log s" "walFd (mem ?s) = walFd (mem s)"
    using q by (simp_all add: quiet_def)
  have n: "N ?s = N s" by (simp add: N_def q')
  have mx: "mxFrame (live (mem s)) = N s" by (rule memory_facts(4) [OF inv_parts(3) [OF inv]])
  show ?thesis
  proof (rule kept_inv [OF inv q _ np])
    show "local_ok ?s p" using pc by (auto simp: local_ok_def c set_hdr_def)
    assume f: "epoch ?s p = epoch s p" "snapFrame ?s p = snapFrame s p" "snapSize ?s p = snapSize s p"
    fix L assume L: "wi_ok (apWiData (mem s)) L" "N s \<le> length L" "take (N s) L = map fst (log s)" and wr: "writer_ok s L p"
    obtain L' where L': "wi_ok (apWiData (mem ?s)) L'" "N s \<le> length L'" "take (N s) L' = map fst (log s)"
    proof (cases "mxFrame (hdr_of (conns s p)) \<noteq> mxFrame (live (mem s))")
      case True
      then show ?thesis using undo_index [OF L, of "pWal ?c"] that mx m by (auto simp: set_hdr_def)
    qed (use that L m in simp)
    have "txn_ok ?s p L' 0 []"
      using txn_start [OF inv_parts(3) [OF inv], of ?s p L'] L' by (simp add: c set_hdr_def q' t)
    moreover have "snap_live ?s p = snap_live s p" by (simp add: snap_live_def f q' n)
    moreover have "at_live ?s p" by (simp add: at_live_def c set_hdr_def q')
    ultimately have "writer_ok ?s L' p" using wr pc by (auto simp: writer_ok_def c set_hdr_def f q')
    moreover have "writeLock (conns s p)" using inv_parts(1) [OF inv, of p] pc by (auto simp: shape_def)
    ultimately show "\<exists>L'. wi_ok (apWiData (mem ?s)) L' \<and> N s \<le> length L' \<and> take (N s) L' = map fst (log s) \<and>
        writer_ok ?s L' p \<and> (L' = L \<or> writeLock (conns s p))" using L' by blast
  qed (use pc in \<open>auto simp: c set_hdr_def\<close>)
qed

lemma error_inv:
  assumes inv: "inv s" and pc: "pc (conns s p) = Write Write_error"
  shows "inv (sys_step i p s)"
proof (cases "req i = Do_undo")
  case True
  with inv pc show ?thesis by (simp add: undo_step)
next
  case False
  let ?s = "sys_step i p s"
  have q: "quiet p s ?s" by (rule write_step_quiet [OF pc]) (use pc in \<open>auto simp: write_quiet_def commits_def\<close>)
  have np: "\<not> restarts (conns s p)" "\<not> commits (conns s p)" "\<not> reads_hdr (conns s p)"
    using pc by (auto simp: restarts_def commits_def reads_hdr_def)
  have c: "conns ?s p = (if req i = Do_end_write then goto Ending ((conns s p)\<lparr>writeLock := False\<rparr>) else conns s p)"
    and ap: "apWiData (mem ?s) = apWiData (mem s)"
    using pc False by (simp_all add: conn_step_def sys_fields split: request.splits)
  show ?thesis
  proof (rule kept_inv [OF inv q _ np])
    fix L assume "wi_ok (apWiData (mem s)) L" "N s \<le> length L" "take (N s) L = map fst (log s)" and wr: "writer_ok s L p"
    then show "\<exists>L'. wi_ok (apWiData (mem ?s)) L' \<and> N s \<le> length L' \<and> take (N s) L' = map fst (log s) \<and>
        writer_ok ?s L' p \<and> (L' = L \<or> writeLock (conns s p))"
      using pc ap by (intro exI [of _ L]) (simp add: writer_ok_def c goto_def)
  qed (use pc c in \<open>simp_all add: goto_def local_ok_def\<close>)
qed

lemma writing_inv:
  assumes inv: "inv s" and pc: "pc (conns s p) = Writing" and ok: "request_ok i p s"
  shows "inv (sys_step i p s)"
proof (cases "req i = Do_undo")
  case True
  with inv pc show ?thesis by (simp add: undo_step)
next
  case False
  let ?s = "sys_step i p s" and ?c = "conns s p"
  have np: "\<not> restarts ?c" "\<not> commits ?c" "\<not> reads_hdr ?c"
    using pc by (auto simp: restarts_def commits_def reads_hdr_def)
  have t: "txn ?s p = txn s p" using pc np False by (simp add: sys_fields txn_after_def)
  have c: "conns ?s p = fst (writing_step i ?c (mem s))" and m: "mem ?s = snd (writing_step i ?c (mem s))"
    using pc by (simp_all add: conn_step_def sys_fields)
  have mq: "snd (writing_step i ?c (mem s)) = (mem s)\<lparr>locks := locks (snd (writing_step i ?c (mem s)))\<rparr>"
    using False by (simp add: writing_step_def Let_def split: request.split)
  obtain tb where "mem' i p s = (mem s)\<lparr>locks := tb\<rparr>" using mq m by (simp add: sys_fields)
  then have q: "quiet p s ?s" "apWiData (mem ?s) = apWiData (mem s)" using np by (simp_all add: quiet_def sys_fields)
  have q': "hist ?s = hist s" "live (mem ?s) = live (mem s)" "log ?s = log s" "walFd (mem ?s) = walFd (mem s)"
    using q(1) by (simp_all add: quiet_def)
  have n: "N ?s = N s" by (simp add: N_def q')
  have k: "(\<exists>ps b n. req i = Do_frames ps b n) \<or> (req i = Do_end_write \<and> hdr_of ?c = live (mem s)) \<or> conns ?s p = ?c"
    using False c by (cases "req i") (auto simp: writing_step_def)
  have cs: "pWal (conns ?s p) = pWal ?c \<and> (\<forall>l. pc (conns ?s p) \<noteq> Ckpt l)"
    using k c by (elim disjE exE conjE) (simp_all add: writing_step_def goto_def pc)
  then have w: "pWal (conns ?s p) = pWal ?c" by simp
  obtain L0 where "writer_ok s L0 p" using inv_parts(9) [OF inv] by (auto simp: index_ok_def)
  then have base: "epoch s p = length (hist s)" "snap_live s p" using pc by (simp_all add: writer_ok_def)
  show ?thesis
  proof (rule kept_inv [OF inv q(1) _ np])
    assume f: "epoch ?s p = epoch s p" "snapFrame ?s p = snapFrame s p" "snapSize ?s p = snapSize s p"
    have lv: "snap_live ?s p = snap_live s p" "at_live ?s p = at_live s p"
      by (simp_all add: snap_live_def at_live_def f q' n w)
    show "local_ok ?s p"
      using k
    proof (elim disjE exE conjE)
      fix ps b n assume frames: "req i = Do_frames ps b n"
      then show ?thesis by (simp add: local_ok_def c writing_step_def goto_def)
    next
      assume ends: "req i = Do_end_write" "hdr_of ?c = live (mem s)"
      then have h: "hdr_known s p" using live_known [OF inv_parts(3) [OF inv]] base(1) by simp
      have "mxFrame (live (mem s)) = N s" by (rule memory_facts(4) [OF inv_parts(3) [OF inv]])
      then have "at_snapshot ?s p" using h base(2) ends(2) by (simp add: at_snapshot_def hdr_known_def snap_live_def f q' w)
      then show ?thesis using ends by (simp add: local_ok_def c writing_step_def goto_def)
    next
      assume none: "conns ?s p = ?c"
      then show ?thesis using pc by (simp add: local_ok_def)
    qed
    fix L assume L: "wi_ok (apWiData (mem s)) L" "N s \<le> length L" "take (N s) L = map fst (log s)" and wr: "writer_ok s L p"
    have tx: "txn_ok ?s p L 0 []" "txn_ok s p L 0 []" using wr pc txn_ok_cong [of ?s p s] by (simp_all add: writer_ok_def w t q')
    have "writer_ok ?s L p"
      using k
    proof (elim disjE exE conjE)
      fix ps b n assume frames: "req i = Do_frames ps b n"
      then have r: "ps \<noteq> []" "pages_valid ps" "b \<longrightarrow> covers (nPage (live (mem s))) n (map fst (txn s p @ ps))"
        using ok pc by (auto simp: request_ok_def list_all_iff pages_valid_def)
      have cf: "conns ?s p = goto (Write Frames_start) (?c\<lparr>todo := ps, isCommit := b, nTruncate := n\<rparr>)"
        using frames by (simp add: c writing_step_def)
      have "pending ?s p L" using tx(1) r by (simp add: pending_def request_in_def cf goto_def t q')
      then show ?thesis using base lv wr pc by (auto simp: writer_ok_def cf goto_def f q')
    next
      assume ends: "req i = Do_end_write" "hdr_of ?c = live (mem s)"
      then show ?thesis by (simp add: writer_ok_def c writing_step_def goto_def)
    next
      assume none: "conns ?s p = ?c"
      then show ?thesis using wr pc lv tx by (simp add: writer_ok_def f q')
    qed
    then show "\<exists>L'. wi_ok (apWiData (mem ?s)) L' \<and> N s \<le> length L' \<and> take (N s) L' = map fst (log s) \<and>
        writer_ok ?s L' p \<and> (L' = L \<or> writeLock ?c)" using L q(2) by auto
  qed (use pc cs in simp_all)
qed

section \<open>Between transactions\<close>

lemma quiet_step:
  assumes "mem' i p s = (mem s)\<lparr>locks := tb, apWiData := ap\<rparr>" and "\<not> restarts (conns s p)" and "\<not> commits (conns s p)"
  shows "quiet p s (sys_step i p s)"
  using assms by (simp add: quiet_def sys_fields)

lemma idle_inv:
  assumes inv: "inv s" and pc: "pc (conns s p) = Idle"
  shows "inv (sys_step i p s)"
proof -
  let ?s = "sys_step i p s"
  have np: "\<not> restarts (conns s p)" "\<not> commits (conns s p)" using pc by (auto simp: restarts_def commits_def)
  have m: "mem' i p s = (mem s)\<lparr>locks := locks (mem s), apWiData := apWiData (mem s)\<rparr>" using pc by (simp add: conn_step_def)
  have q: "quiet p s ?s" by (rule quiet_step [OF m np])
  have ap: "apWiData (mem ?s) = apWiData (mem s)" using m by (simp add: sys_fields)
  have c: "conns ?s p = idle_step i (conns s p)" using pc by (simp add: conn_step_def sys_fields)
  have rl: "readLock (pWal (conns ?s p)) = -1"
    using inv_parts(1) [OF inv, of p] pc by (simp add: c idle_step_def begin_defs shape_def split: request.split)
  have st: "pc (conns ?s p) \<in> {Idle, Begin_read Read_hdr, Ckpt Ck_lock}" "pc (conns ?s p) = Begin_read Read_hdr \<longrightarrow> \<not> useWal (conns ?s p)"
    using pc by (simp_all add: c idle_step_def begin_defs WAL_RETRY_PROTOCOL_LIMIT_def split: request.split)
  show ?thesis
  proof (rule quiet_inv [OF inv q])
    show "reader_ok ?s p" by (rule reader_none) (simp add: rl)
    show "local_ok ?s p" using st by (auto simp: local_ok_def)
    show "safe_for ?s p r" for r using st by (auto simp: safe_for_def Let_def)
    show "safe_for ?s r p" for r by (rule safe_none) (simp add: rl)
    fix L assume "wi_ok (apWiData (mem s)) L" "N s \<le> length L" "take (N s) L = map fst (log s)"
    moreover have "writer_ok ?s L p" using st by (auto simp: writer_ok_def)
    ultimately show "\<exists>L'. wi_ok (apWiData (mem ?s)) L' \<and> N s \<le> length L' \<and> take (N s) L' = map fst (log s) \<and>
        writer_ok ?s L' p \<and> (L' = L \<or> writeLock (conns s p))" using ap by auto
  qed (use pc in simp)
qed

lemma reading_inv:
  assumes inv: "inv s" and pc: "pc (conns s p) = Reading"
  shows "inv (sys_step i p s)"
proof -
  let ?s = "sys_step i p s"
  have np: "\<not> restarts (conns s p)" "\<not> commits (conns s p)" "\<not> reads_hdr (conns s p)"
    using pc by (auto simp: restarts_def commits_def reads_hdr_def)
  have m: "mem' i p s = (mem s)\<lparr>locks := locks (mem s), apWiData := apWiData (mem s)\<rparr>" using pc by (simp add: conn_step_def)
  have q: "quiet p s ?s" by (rule quiet_step [OF m np(1,2)])
  have ap: "apWiData (mem ?s) = apWiData (mem s)" using m by (simp add: sys_fields)
  have c: "pWal (conns ?s p) = pWal (conns s p)" "pc (conns ?s p) \<in> {Reading, Ending, Write Lock_write}"
    using pc by (simp_all add: conn_step_def sys_fields reading_step_def goto_def split: request.split)
  show ?thesis
  proof (rule kept_inv [OF inv q _ np])
    assume f: "epoch ?s p = epoch s p" "snapFrame ?s p = snapFrame s p" "snapSize ?s p = snapSize s p"
    have "hist ?s = hist s" using q by (simp add: quiet_def)
    then have "at_snapshot ?s p = at_snapshot s p" by (simp add: at_snapshot_def hdr_known_def c f)
    then show "local_ok ?s p" using inv_parts(7) [OF inv, of p] pc c by (auto simp: local_ok_def)
    fix L assume "wi_ok (apWiData (mem s)) L" "N s \<le> length L" "take (N s) L = map fst (log s)"
    moreover have "writer_ok ?s L p" using c by (auto simp: writer_ok_def)
    ultimately show "\<exists>L'. wi_ok (apWiData (mem ?s)) L' \<and> N s \<le> length L' \<and> take (N s) L' = map fst (log s) \<and>
        writer_ok ?s L' p \<and> (L' = L \<or> writeLock (conns s p))" using ap by auto
  qed (use pc c in auto)
qed

lemma ending_inv:
  assumes inv: "inv s" and pc: "pc (conns s p) = Ending"
  shows "inv (sys_step i p s)"
proof -
  let ?s = "sys_step i p s"
  have np: "\<not> restarts (conns s p)" "\<not> commits (conns s p)" using pc by (auto simp: restarts_def commits_def)
  have m: "mem' i p s = (mem s)\<lparr>locks := locks (mem' i p s), apWiData := apWiData (mem s)\<rparr>"
    using pc by (simp add: conn_step_def ending_step_def)
  have q: "quiet p s ?s" by (rule quiet_step [OF m np])
  have ap: "apWiData (mem ?s) = apWiData (mem s)" using pc by (simp add: conn_step_def ending_step_def sys_fields)
  have c: "readLock (pWal (conns ?s p)) = -1" "pc (conns ?s p) = Idle"
    using inv_parts(1) [OF inv, of p] pc
    by (auto simp: conn_step_def sys_fields ending_step_def goto_def shape_def reading_lock_def)
  show ?thesis
  proof (rule quiet_inv [OF inv q])
    show "reader_ok ?s p" by (rule reader_none) (simp add: c)
    show "local_ok ?s p" by (simp add: local_ok_def c)
    show "safe_for ?s p r" for r by (rule safe_not_ckpt) (simp add: c)
    show "safe_for ?s r p" for r by (rule safe_none) (simp add: c)
    fix L assume "wi_ok (apWiData (mem s)) L" "N s \<le> length L" "take (N s) L = map fst (log s)"
    then show "\<exists>L'. wi_ok (apWiData (mem ?s)) L' \<and> N s \<le> length L' \<and> take (N s) L' = map fst (log s) \<and>
        writer_ok ?s L' p \<and> (L' = L \<or> writeLock (conns s p))" using ap by (intro exI [of _ L]) (simp add: writer_ok_def c)
  qed (use pc in simp)
qed

section \<open>The frames in the file\<close>

lemma scan_tables_fail: "fst (scan_tables map_rc w ap pg hs) \<noteq> SQLITE_OK \<Longrightarrow> snd (scan_tables map_rc w ap pg hs) = 0"
  by (induction hs) (auto simp: Let_def split: prod.splits option.splits)

lemma find_fail: "fst (walFindFrame map_rc w ap pg) \<noteq> SQLITE_OK \<Longrightarrow> snd (walFindFrame map_rc w ap pg) = 0"
  unfolding walFindFrame_def by (auto simp del: upt_Suc intro: scan_tables_fail split: if_splits)

lemma find_frame:
  assumes "wi_ok ap L" and "mxFrame (hdr w) \<le> length L" and f: "snd (walFindFrame map_rc w ap pg) = f" "f \<noteq> 0"
  shows "minFrame w \<le> f" "1 \<le> f" "f \<le> mxFrame (hdr w)" "L ! (f - 1) = pg"
proof -
  have "fst (walFindFrame map_rc w ap pg) = SQLITE_OK"
    using f find_fail [of map_rc w ap pg] by auto
  then have "f = snapshot_frame w L pg" using find_ok [OF assms(1,2), of map_rc pg] f(1) by (metis prod.collapse)
  then have "is_last (\<lambda>f. 1 \<le> f \<and> minFrame w \<le> f \<and> f \<le> mxFrame (hdr w) \<and> L ! (f - 1) = pg) f"
    using f(2) linear_is_last [of "minFrame w" "mxFrame (hdr w)" "\<lambda>f. L ! (f - 1)" pg] by (auto simp: snapshot_frame_def split: if_splits)
  then show "minFrame w \<le> f" "1 \<le> f" "f \<le> mxFrame (hdr w)" "L ! (f - 1) = pg" using f(2) by (simp_all add: is_last_def)
qed

text \<open>What the steps of this section and of the next leave alone.\<close>

definition view :: "sys \<Rightarrow> sys \<Rightarrow> bool" where
  "view s s' \<longleftrightarrow>
     live (mem s') = live (mem s) \<and> nBackfill (mem s') = nBackfill (mem s) \<and> aReadMark (mem s') = aReadMark (mem s) \<and>
     dbFd (mem s') = dbFd (mem s) \<and> hist s' = hist s \<and> log s' = log s \<and> truth s' = truth s \<and> points s' = points s"

lemma view_N: "view s s' \<Longrightarrow> N s' = N s"
  by (simp add: view_def N_def)

lemma view_local: "view s s' \<Longrightarrow> same_conn q s s' \<Longrightarrow> local_ok s' q = local_ok s q"
proof -
  assume v: "view s s'" and c: "same_conn q s s'"
  have "hdr_known s' q = hdr_known s q" "at_snapshot s' q = at_snapshot s q"
    using v c by (simp_all add: view_def same_conn_def hdr_known_def at_snapshot_def)
  moreover have "read_ok s' q l = read_ok s q l" for l using v c by (cases l) (simp_all add: view_def same_conn_def)
  moreover have "ckpt_ok s' q l = ckpt_ok s q l" for l using v c view_N [OF v]
    by (cases l) (simp_all add: view_def same_conn_def ck_busy_def ck_point_def walking_def copied_def wanted_def last_frame_def)
  moreover have "restart_ok s' q l = restart_ok s q l" for l using v view_N [OF v] by (cases l) (simp_all add: view_def)
  ultimately show ?thesis using v c by (simp add: local_ok_def view_def same_conn_def split: pc.splits)
qed

lemma view_reader:
  assumes "view s s'" and "readLock (pWal (conns s' q)) = readLock (pWal (conns s q))" "minFrame (pWal (conns s' q)) = minFrame (pWal (conns s q))"
    and "epoch s' q = epoch s q" "snapFrame s' q = snapFrame s q" "snapSize s' q = snapSize s q" "snapshot s' q = snapshot s q"
    and "(pc (conns s' q) = Restarting Zero_backfill) = (pc (conns s q) = Restarting Zero_backfill)"
  shows "reader_ok s' q = reader_ok s q"
proof -
  have "seen s' m M pg = seen s m M pg" for m M pg using assms(1) by (simp add: view_def seen_def cong: option.case_cong)
  then show ?thesis using assms view_N [OF assms(1)] by (simp add: reader_ok_def Let_def view_def)
qed

lemma not_writer: "shape (conns s p) \<Longrightarrow> \<not> writeLock (conns s p) \<Longrightarrow> writer_ok s L p"
  by (auto simp: writer_ok_def shape_def split: pc.splits elim!: write_shape.elims)

lemma view_memory:
  assumes "view s s'" and "others p s s'" and "pc (conns s p) \<noteq> Restarting Zero_backfill" and "memory_ok s"
  shows "memory_ok s'"
proof -
  have "\<exists>q. pc (conns s' q) = Restarting Zero_backfill" if "pc (conns s q) = Restarting Zero_backfill" for q
    using that assms(2,3) by (intro exI [of _ q]) (auto simp: others_def)
  then show ?thesis using assms(1,4) view_N [OF assms(1)] by (auto simp: memory_ok_def view_def)
qed

lemma frame_file_inv:
  assumes inv: "inv s" and pc: "pc (conns s p) = Write (Write_frames fs new)"
    and m: "mem' i p s = (mem s)\<lparr>walFd := (walFd (mem s))(f := d)\<rparr>" and f: "N s < f"
    and c: "conn' i p s = goto (Write (Write_frames fs' new')) (conns s p)"
    and w: "\<And>L. wi_ok (apWiData (mem s)) L \<Longrightarrow> N s \<le> length L \<Longrightarrow> take (N s) L = map fst (log s) \<Longrightarrow> writer_ok s L p \<Longrightarrow> writer_ok (sys_step i p s) L p"
  shows "inv (sys_step i p s)"
proof -
  let ?s = "sys_step i p s"
  note o = others_step [of p s i]
  have same: "same_conn r s ?s" if "r \<noteq> p" for r by (rule others_same [OF o that])
  have np: "\<not> restarts (conns s p)" "\<not> commits (conns s p)" "\<not> reads_hdr (conns s p)"
    using pc by (auto simp: restarts_def commits_def reads_hdr_def)
  have v: "view s ?s" and ap: "apWiData (mem ?s) = apWiData (mem s)" and fd: "walFd (mem ?s) = (walFd (mem s))(f := d)"
    using np m by (simp_all add: view_def sys_fields)
  have v': "live (mem ?s) = live (mem s)" "nBackfill (mem ?s) = nBackfill (mem s)" "dbFd (mem ?s) = dbFd (mem s)" "hist ?s = hist s" "log ?s = log s"
    "truth ?s = truth s" "points ?s = points s" "aReadMark (mem ?s) = aReadMark (mem s)"
    using v by (simp_all add: view_def)
  have n: "N ?s = N s" by (rule view_N [OF v])
  have cs: "conns ?s p = goto (Write (Write_frames fs' new')) (conns s p)" using c by (simp add: sys_fields)
  have pw: "pWal (conns ?s p) = pWal (conns s p)" by (simp add: cs goto_def)
  have "\<not> begins (conns s p) (conn' i p s)" by (simp add: begins_def c goto_def)
  then have e: "epoch ?s p = epoch s p" "snapFrame ?s p = snapFrame s p" "snapSize ?s p = snapSize s p" "snapshot ?s p = snapshot s p"
    using np by (simp_all add: sys_fields)
  have sh: "shape (conns ?s r)" for r using inv_parts(1) [OF inv] shape_step by (simp add: sys_fields)
  have tb: "table_ok (locks (mem ?s)) (conns ?s)" using locks_step [OF inv_parts(2,1) [OF inv]] by (simp add: sys_fields)
  have wl: "writeLock (conns ?s p)" using sh [of p] by (simp add: cs goto_def shape_def)
  have rd: "reader_ok ?s r" for r
    using view_reader [OF v, of r] same [of r] inv_parts(6) [OF inv, of r] pw e by (cases "r = p") (simp_all add: same_conn_def pc cs goto_def)
  have lo: "local_ok ?s r" for r
    using view_local [OF v same] inv_parts(7) [OF inv, of r] by (cases "r = p") (simp_all add: local_ok_def [of ?s p] cs goto_def)
  have sf: "safe_for ?s r r'" for r r'
  proof (cases "r = p")
    case True
    then show ?thesis by (simp add: safe_not_ckpt cs goto_def)
  next
    case False
    then show ?thesis using quiet_safe [OF same same] inv_parts(8) [OF inv, of r r'] safe_kept [of s r p ?s] same [OF False] pw e(2)
      by (cases "r' = p") (simp_all add: same_conn_def)
  qed
  have "memory_ok ?s" by (rule view_memory [OF v o _ inv_parts(3) [OF inv]]) (simp add: pc)
  moreover have "files_ok ?s"
  proof -
    have "walFd (mem ?s) (Suc j) = walFd (mem s) (Suc j)" if "j < N s" for j using that f by (simp add: fd)
    then show ?thesis using inv_parts(4) [OF inv] unfolding files_ok_def v' n by simp
  qed
  moreover have "points_ok ?s" using inv_parts(5) [OF inv] unfolding points_ok_def v' n .
  moreover have "index_ok ?s"
  proof -
    obtain L where L: "wi_ok (apWiData (mem s)) L" "N s \<le> length L" "take (N s) L = map fst (log s)" "\<forall>r. writer_ok s L r"
      using inv_parts(9) [OF inv] by (auto simp: index_ok_def)
    have "writer_ok ?s L r" for r
    proof (cases "r = p")
      case False
      then show ?thesis using one_writer [OF tb wl] by (intro not_writer [OF sh]) blast
    qed (use w [OF L(1-3)] L(4) in simp)
    then show ?thesis using L(1-3) unfolding index_ok_def ap n v' by blast
  qed
  ultimately show ?thesis using sh tb rd lo sf unfolding inv_def by blast
qed

lemma frame_write_inv:
  assumes inv: "inv s" and pc: "pc (conns s p) = Write (Write_frames ((pg, d) # rest) new)"
  shows "inv (sys_step i p s)"
proof -
  let ?s = "sys_step i p s" and ?c = "conns s p"
  let ?mx = "mxFrame (hdr_of (conns s p))" and ?f = "prior_frame i pg (rest = []) (conns s p) (mem s)"
  have np: "\<not> restarts ?c" "\<not> commits ?c" "\<not> reads_hdr ?c"
    using pc by (auto simp: restarts_def commits_def reads_hdr_def)
  have mxl: "mxFrame (live (mem s)) = N s" by (rule memory_facts(4) [OF inv_parts(3) [OF inv]])
  have e: "conn_step i p ?c (mem s) = write_frame i (pg, d) rest new ?c (mem s)" using pc by (simp add: conn_step_def)
  obtain L0 where L0: "wi_ok (apWiData (mem s)) L0" "N s \<le> length L0" "take (N s) L0 = map fst (log s)" "writer_ok s L0 p"
    using inv_parts(9) [OF inv] by (auto simp: index_ok_def)
  have facts: "txn_ok s p L 0 new" "request_in s p ((pg, d) # rest)" "snap_live s p" "iFirst ?c = 0 \<or> iFirst ?c = N s + 1" "epoch s p = length (hist s)"
    if "writer_ok s L p" for L using that pc by (simp_all add: writer_ok_def)
  note h0 = facts [OF L0(4)]
  have pgv: "pg \<noteq> 0" "pg < 0xFFFFFFFF" using h0(2) by (simp_all add: request_in_def pages_valid_def)
  consider (error) "io i \<noteq> SQLITE_OK" | (over) "io i = SQLITE_OK" "iFirst ?c \<noteq> 0" "iFirst ?c \<le> ?f"
    | (append) "io i = SQLITE_OK" "\<not> (iFirst ?c \<noteq> 0 \<and> iFirst ?c \<le> ?f)" by blast
  then show ?thesis
  proof cases
    case error
    then have m: "mem' i p s = (mem s)\<lparr>locks := locks (mem s), apWiData := apWiData (mem s)\<rparr>" and c: "conns ?s p = goto (Write Write_error) ?c"
      by (simp_all add: e write_frame_def Let_def sys_fields)
    have q: "quiet p s ?s" by (rule quiet_step [OF m np(1,2)])
    have ap: "apWiData (mem ?s) = apWiData (mem s)" using m by (simp add: sys_fields)
    show ?thesis
    proof (rule kept_inv [OF inv q _ np])
      fix L assume "wi_ok (apWiData (mem s)) L" "N s \<le> length L" "take (N s) L = map fst (log s)"
      then show "\<exists>L'. wi_ok (apWiData (mem ?s)) L' \<and> N s \<le> length L' \<and> take (N s) L' = map fst (log s) \<and>
        writer_ok ?s L' p \<and> (L' = L \<or> writeLock ?c)" using ap by (intro exI [of _ L]) (simp add: writer_ok_def c goto_def)
    qed (use pc c in \<open>simp_all add: goto_def local_ok_def\<close>)
  next
    case append
    let ?at = "?mx + length new + 1"
    have m: "mem' i p s = (mem s)\<lparr>walFd := (walFd (mem s))(?at := d)\<rparr>" and c: "conn' i p s = goto (Write (Write_frames rest (new @ [pg]))) ?c"
      using append by (auto simp: e write_frame_def Let_def)
    have at: "?at = Suc (N s + length (txn s p))" using h0(1) by (simp add: txn_ok_def Let_def)
    have t: "txn ?s p = txn s p @ [(pg, d)]" using pc by (simp add: sys_fields txn_after_def c [unfolded sys_fields] goto_def)
    show ?thesis
    proof (rule frame_file_inv [OF inv pc m _ c])
      fix L assume L: "take (N s) L = map fst (log s)" and w: "writer_ok s L p"
      note h = facts [OF w]
      have fd: "walFd (mem ?s) = (walFd (mem s))(?at := d)" "log ?s = log s" "live (mem ?s) = live (mem s)" "hist ?s = hist s"
        using m np by (simp_all add: sys_fields)
      have cs: "conns ?s p = goto (Write (Write_frames rest (new @ [pg]))) ?c" using c by (simp add: sys_fields)
      have nb: "\<not> begins ?c (conn' i p s)" by (simp add: begins_def c goto_def)
      have "txn_ok ?s p L 0 (new @ [pg])"
      proof -
        have k: "?mx - N s \<le> length (txn s p)" using h(1) by (auto simp: txn_ok_def Let_def)
        have "walFd (mem ?s) (Suc (N s + j)) = snd (txn ?s p ! j)" if "j < length (txn ?s p)" for j
          using that h(1) unfolding fd(1) at t by (cases "j = length (txn s p)") (auto simp: txn_ok_def Let_def nth_append)
        moreover have "pages_valid (txn ?s p)" using h(1) pgv by (auto simp: txn_ok_def Let_def t pages_valid_def)
        ultimately show ?thesis using h(1) k by (simp add: txn_ok_def Let_def N_def fd(2) t cs goto_def)
      qed
      moreover have "request_in ?s p rest" using h(2) by (simp add: request_in_def t cs goto_def fd pages_valid_def)
      moreover have "snap_live ?s p" using h(3) nb np by (simp add: snap_live_def sys_fields N_def fd [unfolded sys_fields])
      ultimately show "writer_ok ?s L p"
        using h(4,5) np by (simp add: writer_ok_def cs goto_def t fd N_def) (simp add: sys_fields)
    qed (use at in linarith)
  next
    case over
    let ?w = "pWal ?c"
    have fN: "N s < ?f" using over h0(4) by simp
    then have f0: "?f \<noteq> 0" by simp
    then have ff: "snd (walFindFrame (\<lambda>_. if oom i then SQLITE_NOMEM else SQLITE_OK) ?w (apWiData (mem s)) pg) = ?f"
      by (simp add: prior_frame_def split: if_splits)
    have m: "mem' i p s = (mem s)\<lparr>walFd := (walFd (mem s))(?f := d)\<rparr>" and c: "conn' i p s = goto (Write (Write_frames rest new)) ?c"
      using over by (simp_all add: e write_frame_def Let_def)
    let ?j = "?f - N s - 1"
    have t: "txn ?s p = (txn s p)[?j := (pg, d)]" using pc by (simp add: sys_fields txn_after_def c [unfolded sys_fields] goto_def mxl)
    show ?thesis
    proof (rule frame_file_inv [OF inv pc m fN c])
      fix L assume L: "wi_ok (apWiData (mem s)) L" "take (N s) L = map fst (log s)" and w: "writer_ok s L p"
      note h = facts [OF w]
      have fd: "walFd (mem ?s) = (walFd (mem s))(?f := d)" "log ?s = log s" "live (mem ?s) = live (mem s)" "hist ?s = hist s"
        using m np by (simp_all add: sys_fields)
      have cs: "conns ?s p = goto (Write (Write_frames rest new)) ?c" using c by (simp add: sys_fields)
      have nb: "\<not> begins ?c (conn' i p s)" by (simp add: begins_def c goto_def)
      have tx: "N s \<le> ?mx" "?mx + length new = N s + length (txn s p)" "?mx \<le> length L"
        "take ?mx L = map fst (log s) @ map fst (take (?mx - N s) (txn s p))"
        using h(1) by (simp_all add: txn_ok_def Let_def)
      have fnd: "?f \<le> ?mx" "L ! (?f - 1) = pg" using find_frame [OF L(1) tx(3) ff f0] by simp_all
      have j: "?j < ?mx - N s" "?mx - N s \<le> length (txn s p)" "?f = Suc (N s + ?j)" using fnd(1) fN tx(2) by simp_all
      have "take ?mx L ! (N s + ?j) = pg" using fnd j by simp
      then have pj: "fst (txn s p ! ?j) = pg" using j(1,2) by (simp add: tx(4) nth_append N_def)
      have mf: "map fst (txn ?s p) = map fst (txn s p)"
        using pj j by (simp add: t map_update list_update_same_conv)
      have "txn_ok ?s p L 0 new"
      proof -
        have "walFd (mem ?s) (Suc (N s + k)) = snd (txn ?s p ! k)" if "k < length (txn ?s p)" for k
          using that h(1) j(1,2) unfolding fd(1) t by (subst j(3)) (auto simp: txn_ok_def Let_def nth_list_update)
        moreover have "pages_valid (txn ?s p)" using h(1) pgv set_update_subset_insert [of "txn s p" ?j "(pg, d)"]
          by (auto simp: txn_ok_def Let_def t pages_valid_def)
        moreover have "map fst (take k (txn ?s p)) = map fst (take k (txn s p))" "map fst (drop k (txn ?s p)) = map fst (drop k (txn s p))" for k
          using mf by (simp_all add: take_map [symmetric] drop_map [symmetric])
        moreover have "length (txn ?s p) = length (txn s p)" by (simp add: t)
        ultimately show ?thesis using h(1) by (simp add: txn_ok_def Let_def N_def fd(2) cs goto_def)
      qed
      moreover have "request_in ?s p rest"
      proof -
        have "pg \<in> set (map fst (txn s p))" using pj nth_mem [of ?j "txn s p"] j(1,2) by (auto simp: image_iff intro!: bexI [of _ "txn s p ! ?j"])
        then have "set (map fst (txn ?s p @ rest)) = set (map fst (txn s p @ (pg, d) # rest))" using arg_cong [OF mf, of set] by auto
        then show ?thesis using h(2) by (simp only: request_in_def covers_iff cs goto_def fd) (simp add: pages_valid_def)
      qed
      moreover have "snap_live ?s p" using h(3) nb np by (simp add: snap_live_def sys_fields N_def fd [unfolded sys_fields])
      moreover have "txn ?s p \<noteq> []" using j by (auto simp: t)
      ultimately show "writer_ok ?s L p"
        using h(4,5) np by (simp add: writer_ok_def cs goto_def fd N_def) (simp add: sys_fields)
    qed
  qed
qed

section \<open>A commit\<close>

text \<open>The database and its log after the frames of \<open>t\<close>, a transaction that leaves \<open>n\<close> pages.\<close>

lemma commit_points:
  assumes pt: "points_ok s" and t: "t \<noteq> []" and cv: "covers (nPage (live (mem s))) n (map fst t)"
    and s': "log s' = log s @ t" "points s' = (N s', n) # points s" "nPage (live (mem s')) = n"
  shows "points_ok s'"
proof -
  let ?n0 = "nPage (live (mem s))"
  have N': "N s' = N s + length t" by (simp add: N_def s'(1))
  have old: "(N s, ?n0) \<in> set (points s)" "\<And>x n. (x, n) \<in> set (points s) \<Longrightarrow> x \<le> N s"
    "\<And>x n y m pg. (x, n) \<in> set (points s) \<Longrightarrow> (y, m) \<in> set (points s) \<Longrightarrow> x \<le> y \<Longrightarrow> n < pg \<Longrightarrow> pg \<le> m \<Longrightarrow> \<exists>f. x \<le> f \<and> f < y \<and> fst (log s ! f) = pg"
    using pt unfolding points_ok_def by blast+
  have "\<exists>f. x \<le> f \<and> f < y \<and> fst (log s' ! f) = pg"
    if xn: "(x, n1) \<in> set (points s')" and ym: "(y, m1) \<in> set (points s')" and xy: "x \<le> y" and pg: "n1 < pg" "pg \<le> m1" for x n1 y m1 pg
  proof (cases "(x, n1) \<in> set (points s)")
    case False
    then have x: "x = N s'" "n1 = n" using xn by (simp_all add: s'(2))
    have "(y, m1) \<notin> set (points s)" using old(2) [of y m1] x xy N' t by (cases t) auto
    then have "m1 = n" using ym by (simp add: s'(2))
    then show ?thesis using pg x by simp
  next
    case True
    have first: "\<exists>f. x \<le> f \<and> f < y' \<and> fst (log s' ! f) = pg" if a: "(y', m') \<in> set (points s)" "x \<le> y'" "pg \<le> m'" for y' m'
    proof -
      obtain f where f: "x \<le> f" "f < y'" "fst (log s ! f) = pg" using old(3) [OF True a(1,2) pg(1) a(3)] by blast
      then have "f < length (log s)" using old(2) [OF a(1)] by (simp add: N_def)
      then show ?thesis using f by (intro exI [of _ f]) (simp add: s'(1) nth_append)
    qed
    show ?thesis
    proof (cases "(y, m1) \<in> set (points s)")
      case old_y: True
      show ?thesis by (rule first [OF old_y xy pg(2)])
    next
      case False
      then have y: "y = N s'" "m1 = n" using ym by (simp_all add: s'(2))
      have xN: "x \<le> N s" by (rule old(2) [OF True])
      show ?thesis
      proof (cases "pg \<le> ?n0")
        case le: True
        show ?thesis using first [OF old(1) xN le] y N' by auto
      next
        case gt: False
        then have "pg \<in> set (map fst t)" using cv pg(2) y by (simp add: covers_iff not_le)
        then obtain j where j: "j < length t" "fst (t ! j) = pg" by (auto simp: in_set_conv_nth)
        then show ?thesis using xN y N' by (intro exI [of _ "N s + j"]) (simp add: s'(1) nth_append N_def)
      qed
    qed
  qed
  moreover have "\<forall>x n. (x, n) \<in> set (points s') \<longrightarrow> x \<le> N s'" using old(2) N' by (auto simp: s'(2)) (meson le_add1 le_trans)
  moreover have "(N s', nPage (live (mem s'))) \<in> set (points s')" by (simp add: s'(2,3))
  ultimately show ?thesis unfolding points_ok_def by blast
qed

lemma commit_files:
  assumes fl: "files_ok s" and nb: "nBackfill (mem s) \<le> N s" and cv: "covers (nPage (live (mem s))) n (map fst t)"
    and fd: "\<forall>j < length t. walFd (mem s') (Suc (N s + j)) = snd (t ! j)" "\<forall>j < N s. walFd (mem s') (Suc j) = walFd (mem s) (Suc j)" and pv: "pages_valid t"
    and s': "log s' = log s @ t" "nPage (live (mem s')) = n" "truth s' = apply_txn t n (truth s)" "nBackfill (mem s') = nBackfill (mem s)" "dbFd (mem s') = dbFd (mem s)"
  shows "files_ok s'"
proof -
  let ?n0 = "nPage (live (mem s))"
  have N': "N s' = N s + length t" by (simp add: N_def s'(1))
  have f: "\<And>j. j < N s \<Longrightarrow> walFd (mem s) (Suc j) = snd (log s ! j)"
    "\<And>pg d. pg \<le> ?n0 \<Longrightarrow> last_of (log s) pg = Some d \<Longrightarrow> truth s pg = Some d"
    "\<And>pg. pg \<le> ?n0 \<Longrightarrow> last_of (drop (nBackfill (mem s)) (log s)) pg = None \<Longrightarrow> dbFd (mem s) pg = truth s pg"
    "\<And>pg d. (pg, d) \<in> set (log s) \<Longrightarrow> pg \<noteq> 0 \<and> pg < 0xFFFFFFFF"
    using fl unfolding files_ok_def by blast+
  have small: "pg \<le> ?n0" if "pg \<le> n" "last_of t pg = None" for pg
    using that cv unfolding last_of_None by (auto simp: covers_iff not_le intro: ccontr)
  have "walFd (mem s') (Suc j) = snd (log s' ! j)" if "j < N s'" for j
  proof (cases "j < N s")
    case True
    then show ?thesis using f(1) fd(2) by (simp add: s'(1) nth_append N_def)
  next
    case False
    then show ?thesis using fd(1) [rule_format, of "j - N s"] that N' by (simp add: s'(1) nth_append N_def)
  qed
  moreover have "truth s' pg = Some d" if "pg \<le> n" "last_of (log s') pg = Some d" for pg d
    using that small [OF that(1)] f(2) [of pg d] by (auto simp: s' apply_txn_def last_of_append not_less split: option.splits)
  moreover have "dbFd (mem s') pg = truth s' pg" if "pg \<le> n" "last_of (drop (nBackfill (mem s')) (log s')) pg = None" for pg
  proof -
    have "drop (nBackfill (mem s)) (log s @ t) = drop (nBackfill (mem s)) (log s) @ t" using nb by (simp add: N_def)
    then have "last_of t pg = None" "last_of (drop (nBackfill (mem s)) (log s)) pg = None"
      using that(2) by (simp_all add: s' last_of_append split: option.splits)
    then show ?thesis using small [OF that(1)] f(3) [of pg] leD [OF that(1)] by (simp add: s' apply_txn_def)
  qed
  moreover have "\<forall>pg d. (pg, d) \<in> set (log s') \<longrightarrow> pg \<noteq> 0 \<and> pg < 0xFFFFFFFF" using f(4) pv by (auto simp: s'(1) pages_valid_def)
  ultimately show ?thesis unfolding files_ok_def s'(2) by blast
qed

text \<open>The iterator of a checkpoint does not see the new frames.\<close>

lemma iter_ok_append: "1 \<le> n \<Longrightarrow> n \<le> length L \<Longrightarrow> iter_ok (L @ X) n lo it = iter_ok L n lo it"
proof -
  assume n: "1 \<le> n" "n \<le> length L"
  have eq: "(L @ X) ! (iZero i + j) = L ! (iZero i + j)" "iZero i + j < length L" if "i \<le> walFramePage n" "j < entries n i" for i j
  proof -
    have "iZero i + j + 1 \<le> n" using frame_entry [OF n(1), of "iZero i + j + 1"] that by auto
    then show "(L @ X) ! (iZero i + j) = L ! (iZero i + j)" "iZero i + j < length L" using n(2) by (simp_all add: nth_append)
  qed
  have z: "iZero i \<le> length L" if "i \<le> walFramePage n" for i
    using eq(2) [OF that, of 0] entries_cap [OF n(1) that] by simp
  have dr: "drop (iZero i) (L @ X) ! j = drop (iZero i) L ! j" if "i \<le> walFramePage n" "j < entries n i" for i j
    using eq(2) [OF that] z [OF that(1)] by (simp add: nth_append less_diff_conv add.commute)
  have idx: "is_index (drop (iZero i) (L @ X)) 0 (entries n i) xs = is_index (drop (iZero i) L) 0 (entries n i) xs" if i: "i \<le> walFramePage n" for i xs
  proof -
    let ?S = "\<lambda>M. {k. k < entries n i \<and> (\<forall>j. k < j \<and> j < entries n i \<longrightarrow> drop (iZero i) M ! j \<noteq> drop (iZero i) M ! k)}"
    have S: "?S (L @ X) = ?S L" by (rule Collect_cong) (metis dr [OF i])
    have "sorted_wrt (\<lambda>a b. drop (iZero i) (L @ X) ! a < drop (iZero i) (L @ X) ! b) xs = sorted_wrt (\<lambda>a b. drop (iZero i) L ! a < drop (iZero i) L ! b) xs"
      if sub: "set xs \<subseteq> {k. k < entries n i}"
    proof -
      have e: "drop (iZero i) (L @ X) ! a = drop (iZero i) L ! a" if "a \<in> set xs" for a using sub that dr [OF i] by blast
      show ?thesis by (rule iffI; erule sorted_wrt_mono_rel [rotated]) (simp_all add: e del: drop_append)
    qed
    moreover have "set xs \<subseteq> {k. k < entries n i}" if "set xs = ?S L" using that by auto
    ultimately show ?thesis using S by (auto simp: is_index_def)
  qed
  have "seg_ok (L @ X) n q i sg = seg_ok L n q i sg" if i: "i \<le> walFramePage n" for q i sg
  proof -
    have "L ! (iZero i + aIndex sg ! k) = (L @ X) ! (iZero i + aIndex sg ! k)"
      if "is_index (drop (iZero i) L) 0 (entries n i) (take (nEntry sg) (aIndex sg))" "k < nEntry sg" "nEntry sg \<le> length (aIndex sg)" for k
    proof -
      have "aIndex sg ! k \<in> set (take (nEntry sg) (aIndex sg))" using that(2,3) by (auto simp: in_set_conv_nth intro!: exI [of _ k])
      then have "aIndex sg ! k < entries n i" using that(1) by (auto simp: is_index_def)
      then show ?thesis using eq(1) [OF i] by simp
    qed
    then show ?thesis unfolding seg_ok_def idx [OF i] by metis
  qed
  then show ?thesis by (simp add: iter_ok_def)
qed

text \<open>What the others know survives: they hold no write lock and their headers are older.\<close>

lemma commit_other:
  assumes sc: "same_conn r s s'" and nw: "\<not> writeLock (conns s r)" and sh: "shape (conns s r)" and ep: "epoch s r \<le> length (hist s)" and pt: "points_ok s"
    and s': "hist s' = h # hist s" "log s' = log s @ t" "points s' = x # points s" "nBackfill (mem s') = nBackfill (mem s)" "dbFd (mem s') = dbFd (mem s)"
      "aReadMark (mem s') = aReadMark (mem s)"
  shows "local_ok s r \<Longrightarrow> local_ok s' r" and "reader_ok s r \<Longrightarrow> reader_ok s' r"
proof -
  have c: "conns s' r = conns s r" "epoch s' r = epoch s r" "snapFrame s' r = snapFrame s r" "snapSize s' r = snapSize s r" "snapshot s' r = snapshot s r"
    using sc by (simp_all add: same_conn_def)
  have known: "hdr_known s' r" if "hdr_known s r" using that ep by (auto simp: hdr_known_def c s'(1) nth_append)
  have ep': "epoch s r \<noteq> length (hist s')" using ep by (simp add: s'(1))
  have rd: "read_ok s' r l" if "read_ok s r l" for l using that ep' by (cases l) (simp_all add: c s'(6))
  let ?n = "mxFrame (hdr_of (conns s r))"
  have ck: "ckpt_ok s' r l" if k: "ckpt_ok s r l" and l: "pc (conns s r) = Ckpt l" for l
  proof -
    have nl: "l \<noteq> Ck_lock_all" "l \<noteq> Ck_truncate_log" using nw sh l by (auto simp: shape_def)
    have pts: "ck_point s r \<Longrightarrow> ck_point s' r" by (simp add: ck_point_def c s'(3))
    have busy: "ck_busy s r \<Longrightarrow> ck_busy s' r" using pts by (simp add: ck_busy_def c s'(4))
    have le: "ck_busy s r \<Longrightarrow> 1 \<le> ?n \<and> ?n \<le> N s" using point_bound [OF pt, of r] by (auto simp: ck_busy_def)
    have nth: "log s' ! (f - 1) = log s ! (f - 1)" if "1 \<le> f" "f \<le> N s" for f
      using that by (cases f) (simp_all add: s'(2) nth_append N_def)
    have lf: "last_frame s' ?n pg f = last_frame s ?n pg f" if b: "ck_busy s r" for pg f
    proof -
      have "fst (log s' ! (g - 1)) = fst (log s ! (g - 1))" if "g \<le> ?n" for g
        using that le [OF b] nth [of g] nth [of 1] by (cases g) auto
      then show ?thesis by (auto simp: last_frame_def)
    qed
    have wt: "wanted s' r pg f = wanted s r pg f" if "ck_busy s r" for pg f
      using lf [OF that] by (simp add: wanted_def c s'(4))
    have rng: "1 \<le> f \<and> f \<le> N s" if "ck_busy s r" "wanted s r pg f" for pg f
      using that le [OF that(1)] by (auto simp: wanted_def last_frame_def)
    have cp: "copied s' r P = copied s r P" if "ck_busy s r" for P
      using wt [OF that] rng [OF that] nth by (auto simp: copied_def s'(5))
    have wk: "walking s' r q = walking s r q" if "ck_busy s r" for q
      using iter_ok_append [of ?n "map fst (log s)"] le [OF that] by (simp add: walking_def c s' N_def)
    have put: "\<exists>f. wanted s' r pg f \<and> d = snd (log s' ! (f - 1))" if "ck_busy s r" "wanted s r pg f" "d = snd (log s ! (f - 1))" for pg d f
      using that wt [OF that(1)] nth rng [OF that(1,2)] by (intro exI [of _ f]) simp
    show ?thesis
      using k nl pts busy wt cp wk put by (cases l) (auto simp: c s'(4))
  qed
  show "local_ok s r \<Longrightarrow> local_ok s' r"
  proof (cases "pc (conns s r)")
    case (Restarting l)
    then show ?thesis using nw sh by (simp add: shape_def)
  next
    case (Ckpt l)
    then show "local_ok s r \<Longrightarrow> ?thesis" using ck nw by (simp add: local_ok_def c)
  qed (use known rd in \<open>auto simp: local_ok_def c at_snapshot_def\<close>)
  assume ok: "reader_ok s r"
  have sn: "seen s' m (snapFrame s r) pg = seen s m (snapFrame s r) pg" if "(snapFrame s r, snapSize s r) \<in> set (points s)" for m pg
  proof -
    have "snapFrame s r \<le> length (log s)" using pt that unfolding points_ok_def N_def by blast
    then show ?thesis by (simp add: seen_def s' cong: option.case_cong)
  qed
  show "reader_ok s' r" using ok sn ep' unfolding reader_ok_def Let_def c s'(3-6) by auto
qed

lemma commit_inv:
  assumes inv: "inv s" and pc: "pc (conns s p) = Write (Index_frames [] k)" and ci: "isCommit (conns s p)"
    and ep: "\<forall>r. epoch s r \<le> length (hist s)"
  shows "inv (sys_step i p s)"
proof -
  let ?s = "sys_step i p s" and ?c = "conns s p" and ?t = "txn s p"
  let ?h = "commit_hdr i k ?c" and ?n = "nTruncate ?c"
  note o = others_step [of p s i]
  have same: "same_conn r s ?s" if "r \<noteq> p" for r by (rule others_same [OF o that])
  have np: "\<not> restarts ?c" "commits ?c" using pc ci by (auto simp: restarts_def commits_def)
  have m: "mem' i p s = (mem s)\<lparr>live := ?h\<rparr>" and c: "conn' i p s = goto Writing (set_hdr ?h ?c)" using pc ci by (simp_all add: conn_step_def Let_def)
  have h: "mxFrame ?h = mxFrame (hdr_of ?c) + k" "nPage ?h = ?n" using ci by (simp_all add: commit_hdr_def)
  have s': "hist ?s = ?h # hist s" "log ?s = log s @ ?t" "truth ?s = apply_txn ?t ?n (truth s)" "points ?s = (mxFrame ?h, nPage ?h) # points s"
    "live (mem ?s) = ?h" "nBackfill (mem ?s) = nBackfill (mem s)" "dbFd (mem ?s) = dbFd (mem s)" "aReadMark (mem ?s) = aReadMark (mem s)"
    "walFd (mem ?s) = walFd (mem s)" "apWiData (mem ?s) = apWiData (mem s)"
    using np by (simp_all add: sys_fields m)
  have own: "conns ?s p = goto Writing (set_hdr ?h ?c)" "epoch ?s p = length (hist ?s)" "txn ?s p = []"
    "snapFrame ?s p = mxFrame ?h" "snapSize ?s p = ?n" "snapshot ?s p = truth ?s"
    using np h pc by (simp_all add: sys_fields m c txn_after_def)
  have sh: "shape (conns ?s r)" for r using inv_parts(1) [OF inv] shape_step by (simp add: sys_fields)
  have tb: "table_ok (locks (mem ?s)) (conns ?s)" using locks_step [OF inv_parts(2,1) [OF inv]] by (simp add: sys_fields)
  have wl: "writeLock ?c" "readLock (pWal ?c) \<noteq> 0" "reading_lock ?c" using inv_parts(1) [OF inv, of p] pc by (simp_all add: shape_def)
  have nw: "\<not> writeLock (conns s r)" if "r \<noteq> p" for r using one_writer [OF inv_parts(2) [OF inv] wl(1)] that by blast
  obtain L where L: "wi_ok (apWiData (mem s)) L" "N s \<le> length L" "take (N s) L = map fst (log s)" "writer_ok s L p"
    using inv_parts(9) [OF inv] by (auto simp: index_ok_def)
  have w: "txn_ok s p L k []" "request_in s p []" "snap_live s p" "?t \<noteq> []" using L(4) pc by (simp_all add: writer_ok_def)
  have "mxFrame (hdr_of ?c) + k - N s = length ?t" "mxFrame (hdr_of ?c) + k = N s + length ?t"
    using w(1) by (auto simp: txn_ok_def Let_def)
  note l = this
  have tx: "mxFrame ?h = N s + length ?t" "mxFrame ?h \<le> length L" "take (mxFrame ?h) L = map fst (log s) @ map fst ?t"
    "\<forall>j < length ?t. walFd (mem s) (Suc (N s + j)) = snd (?t ! j)" "pages_valid ?t"
    using w(1) unfolding txn_ok_def Let_def h(1) l by simp_all
  have N': "N ?s = mxFrame ?h" by (simp add: N_def s'(2) tx(1))
  have cv: "covers (nPage (live (mem s))) ?n (map fst ?t)" using w(2) ci by (simp add: request_in_def)
  have nb: "nBackfill (mem s) \<le> N s"
  proof (rule ccontr)
    assume "\<not> nBackfill (mem s) \<le> N s"
    then obtain q where "pc (conns s q) = Restarting Zero_backfill" using inv_parts(3) [OF inv] by (auto simp: memory_ok_def)
    then show False using nw [of q] inv_parts(1) [OF inv, of q] pc by (cases "q = p") (simp_all add: shape_def)
  qed
  have pt: "points_ok ?s" by (rule commit_points [OF inv_parts(5) [OF inv] w(4) cv s'(2)]) (simp_all add: s' h N')
  have fl: "files_ok ?s" by (rule commit_files [OF inv_parts(4) [OF inv] nb cv _ _ tx(5) s'(2)]) (use tx(4) in \<open>simp_all add: s' h\<close>)
  have mm: "memory_ok ?s" using inv_parts(3) [OF inv] nb tx(1) by (simp add: memory_ok_def s' N')
  have old: "reader_ok s p" "snapFrame s p = N s" using inv_parts(6) [OF inv] w(3) by (simp_all add: snap_live_def)
  have rdp: "reader_ok ?s p"
  proof -
    have r: "readLock (pWal (conns ?s p)) = readLock (pWal ?c)" "minFrame (pWal (conns ?s p)) = minFrame (pWal ?c)"
      by (simp_all add: own goto_def set_hdr_def)
    have r0: "0 < readLock (pWal ?c)" using wl(2,3) by (simp add: reading_lock_def)
    then have o': "aReadMark (mem s) ! nat (readLock (pWal ?c)) \<le> N s" "1 \<le> minFrame (pWal ?c)" "minFrame (pWal ?c) \<le> nBackfill (mem s) + 1"
      using old by (simp_all add: reader_ok_def Let_def)
    have "seen ?s (minFrame (pWal ?c)) (mxFrame ?h) pg = truth ?s pg" if "pg \<le> ?n" for pg
      using seen_truth [OF fl o'(2), of pg] o'(3) that by (simp add: s' N' h)
    then show ?thesis using r0 o' tx(1) by (simp add: reader_ok_def Let_def r own(2-6) s'(4,6,8) h)
  qed
  have rd: "reader_ok ?s r" for r
    using rdp commit_other(2) [OF same nw inv_parts(1) [OF inv] ep [rule_format] inv_parts(5) [OF inv] s'(1,2,4,6,7,8)] inv_parts(6) [OF inv]
    by (cases "r = p") auto
  have lo: "local_ok ?s r" for r
    using commit_other(1) [OF same nw inv_parts(1) [OF inv] ep [rule_format] inv_parts(5) [OF inv] s'(1,2,4,6,7,8)] inv_parts(7) [OF inv]
    by (cases "r = p") (auto simp: local_ok_def [of ?s p] own goto_def)
  have sf: "safe_for ?s r r'" for r r'
  proof (cases "r = p")
    case True
    then show ?thesis by (simp add: safe_not_ckpt own goto_def)
  next
    case r: False
    show ?thesis
    proof (cases "r' = p")
      case False
      then show ?thesis using quiet_safe [OF same [OF r] same] inv_parts(8) [OF inv, of r r'] by simp
    next
      case True
      have "safe_for s r p" by (rule inv_parts(8) [OF inv])
      then show ?thesis using True same [OF r] old(2) tx(1)
        by (auto simp: safe_for_def same_conn_def own goto_def set_hdr_def Let_def split: pc.splits)
    qed
  qed
  have ix: "index_ok ?s"
  proof -
    have "writer_ok ?s L r" for r
    proof (cases "r = p")
      case False
      then show ?thesis using nw same [OF False] by (intro not_writer [OF sh]) (simp add: same_conn_def)
    next
      case True
      have "txn_ok ?s p L 0 []" using tx by (simp add: txn_ok_def Let_def own goto_def set_hdr_def N' s'(2) pages_valid_def)
      then show ?thesis using True wl(2) h by (simp add: writer_ok_def own goto_def set_hdr_def snap_live_def N' s'(5))
    qed
    then show ?thesis using L(1) tx(2,3) by (auto simp: index_ok_def s'(10) N' s'(2))
  qed
  show ?thesis using sh tb rd lo sf ix mm fl pt unfolding inv_def by blast
qed

end
