(* ===== verification/Wal_Restart_Safety.thy ===== *)
theory Wal_Restart_Safety
  imports Wal_Write_Safety
begin

text \<open>
  The steps that restart the log keep the invariant: a writer or a checkpoint that holds every lock
  of readers publishes the header of an empty log and resets the marks.
\<close>

section \<open>Publishing the header\<close>

text \<open>A checkpoint that still has frames to copy excludes a log that is copied completely.\<close>

lemma not_busy: "points_ok s \<Longrightarrow> nBackfill (mem s) = N s \<Longrightarrow> \<not> ck_busy s r"
  using busy_bound [of s r] by auto

lemma passed_busy: "ckpt_ok s r l \<Longrightarrow> \<not> ck_busy s r \<Longrightarrow> passed l = 0 \<and> (\<forall>n y. l \<noteq> Ck_lock_mark n y)"
  by (cases l) auto

lemma restart_locks:
  assumes inv: "inv s" and pc: "pc (conns s p) = Restarting l"
  shows "readLock (pWal (conns s r)) \<le> 0" and "r \<noteq> p \<Longrightarrow> \<not> writeLock (conns s r)" and "writeLock (conns s p)"
    and "1 \<le> x \<Longrightarrow> x \<le> 4 \<Longrightarrow> \<not> sh_held (conns s r) (3 + x)"
proof -
  have tb: "table_ok (locks (mem s)) (conns s)" and sh: "shape (conns s q)" for q using inv_parts [OF inv] by simp_all
  have ex: "ex_held (conns s p) (3 + x)" if "1 \<le> x" "x \<le> 4" for x using pc that by (simp add: ex_held_def)
  then show "1 \<le> x \<Longrightarrow> x \<le> 4 \<Longrightarrow> \<not> sh_held (conns s r) (3 + x)" using excluded(2) [OF tb] by blast
  show w: "writeLock (conns s p)" using sh [of p] pc by (simp add: shape_def)
  then show "r \<noteq> p \<Longrightarrow> \<not> writeLock (conns s r)" using one_writer [OF tb w] by blast
  show "readLock (pWal (conns s r)) \<le> 0"
  proof (rule ccontr)
    assume a: "\<not> readLock (pWal (conns s r)) \<le> 0"
    have "readLock (pWal (conns s r)) \<le> 4"
      using sh [of r] a by (auto simp: shape_def reading_lock_def split: pc.splits if_splits elim!: write_shape.elims)
    then have "\<not> sh_held (conns s r) (3 + nat (readLock (pWal (conns s r))))" using a by (intro excluded(2) [OF tb ex [of "nat (readLock (pWal (conns s r)))"]]) auto
    then show False using a by (simp add: sh_held_def)
  qed
qed

lemma publish_inv:
  assumes inv: "inv s" and pc: "pc (conns s p) = Restarting Publish" and race: "\<not> reset_race p s" and ep: "\<forall>r. epoch s r \<le> length (hist s)"
  shows "inv (sys_step i p s)"
proof -
  let ?s = "sys_step i p s" and ?c = "conns s p" and ?w = "restarted (salt1 i) (mem s) (conns s p)"
  note o = others_step [of p s i]
  have same: "same_conn r s ?s" if "r \<noteq> p" for r by (rule others_same [OF o that])
  have np: "restarts ?c" "\<not> commits ?c" using pc by (simp_all add: restarts_def commits_def)
  have m: "mem' i p s = (mem s)\<lparr>live := hdr ?w\<rparr>" and c: "conn' i p s = goto (Restarting Zero_backfill) (?c\<lparr>pWal := ?w\<rparr>)"
    using pc by (simp_all add: conn_step_def Let_def)
  have nb: "\<not> begins ?c (conn' i p s)" by (simp add: begins_def c goto_def)
  have s': "hist ?s = hdr ?w # hist s" "log ?s = []" "truth ?s = truth s" "points ?s = [(0, nPage (hdr_of ?c))]"
    "live (mem ?s) = hdr ?w" "nBackfill (mem ?s) = nBackfill (mem s)" "dbFd (mem ?s) = dbFd (mem s)" "aReadMark (mem ?s) = aReadMark (mem s)"
    "apWiData (mem ?s) = apWiData (mem s)"
    using np by (simp_all add: sys_fields m)
  have own: "conns ?s p = goto (Restarting Zero_backfill) (?c\<lparr>pWal := ?w\<rparr>)" "epoch ?s p = length (hist ?s)" "txn ?s p = []"
    "snapFrame ?s p = snapFrame s p" "snapSize ?s p = snapSize s p" "snapshot ?s p = snapshot s p"
    using np nb pc by (simp_all add: sys_fields c txn_after_def)
  have N': "N ?s = 0" by (simp add: N_def s'(2))
  have sh: "shape (conns ?s r)" for r using inv_parts(1) [OF inv] shape_step by (simp add: sys_fields)
  have tb: "table_ok (locks (mem ?s)) (conns ?s)" using locks_step [OF inv_parts(2,1) [OF inv]] by (simp add: sys_fields)
  note lk = restart_locks [OF inv pc]
  have lp: "hdr_of ?c = live (mem s)" "nBackfill (mem s) = N s" using inv_parts(7) [OF inv, of p] pc by (simp_all add: local_ok_def)
  have busy: "\<not> ck_busy s r" for r by (rule not_busy [OF inv_parts(5) [OF inv] lp(2)])
  have "points_ok ?s" by (auto simp: points_ok_def N' s'(4,5))
  moreover have "files_ok ?s" using inv_parts(4) [OF inv] lp by (simp add: files_ok_def N' s' N_def)
  moreover have "memory_ok ?s"
  proof -
    have "pc (conns ?s p) = Restarting Zero_backfill" by (simp add: own goto_def)
    then show ?thesis using inv_parts(3) [OF inv] unfolding memory_ok_def N' s' by (simp add: restarted_fields) blast
  qed
  moreover have "reader_ok ?s r" for r
  proof (cases "r = p")
    case True
    then show ?thesis using inv_parts(6) [OF inv, of p] lk(1) [of p] by (simp add: reader_ok_def Let_def own(4-6) s' N') (simp add: own(1) goto_def)
  next
    case False
    then show ?thesis using inv_parts(6) [OF inv, of r] lk(1) [of r] same [OF False] ep [rule_format, of r]
      by (auto simp: reader_ok_def Let_def same_conn_def s')
  qed
  moreover have "local_ok ?s r" for r
  proof (cases "r = p")
    case True
    then show ?thesis by (simp add: local_ok_def own goto_def s')
  next
    case False
    have cr: "conns ?s r = conns s r" "epoch ?s r = epoch s r" "snapFrame ?s r = snapFrame s r" "snapSize ?s r = snapSize s r"
      using same [OF False] by (simp_all add: same_conn_def)
    have known: "hdr_known ?s r" if "hdr_known s r" using that ep [rule_format, of r] by (auto simp: hdr_known_def cr s'(1) nth_append)
    have ep': "epoch s r \<noteq> length (hist ?s)" using ep [rule_format, of r] by (simp add: s'(1))
    have rd: "read_ok ?s r l" if "read_ok s r l" for l using that ep' by (cases l) (simp_all add: cr s'(8))
    have ck: "ckpt_ok ?s r l" if "ckpt_ok s r l" "pc (conns s r) = Ckpt l" for l
    proof -
      have "l \<noteq> Ck_load" using race that(2) pc False by (auto simp: reset_race_def)
      moreover have "l \<noteq> Ck_lock_all" "l \<noteq> Ck_truncate_log" using lk(2) [OF False] inv_parts(1) [OF inv, of r] that(2) by (auto simp: shape_def)
      ultimately show ?thesis using that(1) busy by (cases l) simp_all
    qed
    have "pc (conns s r) \<noteq> Restarting l" for l using lk(2) [OF False] inv_parts(1) [OF inv, of r] by (auto simp: shape_def)
    then show ?thesis using inv_parts(7) [OF inv, of r] known rd ck lk(2) [OF False]
      by (auto simp: local_ok_def cr at_snapshot_def split: pc.splits)
  qed
  moreover have "safe_for ?s r r'" for r r'
    by (rule safe_low [OF _ sh]) (use lk(1) [of r'] same [of r'] in \<open>cases "r' = p"; simp add: own goto_def same_conn_def\<close>)
  moreover have "index_ok ?s"
  proof -
    obtain L where L: "wi_ok (apWiData (mem s)) L" "writer_ok s L p" using inv_parts(9) [OF inv] by (auto simp: index_ok_def)
    have "writer_ok ?s L r" for r
    proof (cases "r = p")
      case False
      then show ?thesis using lk(2) [OF False] same [OF False] by (intro not_writer [OF sh]) (simp add: same_conn_def)
    next
      case True
      show ?thesis
      proof (cases "ckptLock ?c")
        case True
        then show ?thesis using \<open>r = p\<close> by (simp add: writer_ok_def own goto_def)
      next
        case ck: False
        have pd: "pending s p L" "iFirst ?c = 0" using L(2) pc ck by (simp_all add: writer_ok_def)
        have "mxFrame (hdr_of ?c) = N s" using lp(1) memory_facts(4) [OF inv_parts(3) [OF inv]] by simp
        then have "txn s p = []" using pd(1) by (simp add: pending_def txn_ok_def Let_def)
        then have "pending ?s p L" using pd(1) lp(1)
          by (simp add: pending_def txn_ok_def Let_def request_in_def own goto_def N' s' pages_valid_def)
        then show ?thesis using pd(2) \<open>r = p\<close> by (simp add: writer_ok_def own goto_def)
      qed
    qed
    then show ?thesis using L(1) by (auto simp: index_ok_def s' N')
  qed
  ultimately show ?thesis using sh tb unfolding inv_def by blast
qed

section \<open>The stores that follow\<close>

lemma zero_backfill_inv:
  assumes inv: "inv s" and pc: "pc (conns s p) = Restarting Zero_backfill"
  shows "inv (sys_step i p s)"
proof -
  let ?s = "sys_step i p s" and ?c = "conns s p"
  note o = others_step [of p s i]
  have same: "same_conn r s ?s" if "r \<noteq> p" for r by (rule others_same [OF o that])
  have np: "\<not> restarts ?c" "\<not> commits ?c" "\<not> reads_hdr ?c" using pc by (simp_all add: restarts_def commits_def reads_hdr_def)
  have m: "mem' i p s = (mem s)\<lparr>nBackfill := 0\<rparr>" and c: "conn' i p s = goto (Restarting (Reset_mark 1)) ?c"
    using pc by (simp_all add: conn_step_def)
  have nb: "\<not> begins ?c (conn' i p s)" by (simp add: begins_def c goto_def)
  have s': "hist ?s = hist s" "log ?s = log s" "truth ?s = truth s" "points ?s = points s" "live (mem ?s) = live (mem s)" "nBackfill (mem ?s) = 0"
    "dbFd (mem ?s) = dbFd (mem s)" "aReadMark (mem ?s) = aReadMark (mem s)" "apWiData (mem ?s) = apWiData (mem s)" "walFd (mem ?s) = walFd (mem s)"
    using np by (simp_all add: sys_fields m)
  have own: "conns ?s p = goto (Restarting (Reset_mark 1)) ?c" "epoch ?s p = epoch s p" "txn ?s p = txn s p"
    "snapFrame ?s p = snapFrame s p" "snapSize ?s p = snapSize s p" "snapshot ?s p = snapshot s p"
    using np nb pc by (simp_all add: sys_fields c txn_after_def)
  have sh: "shape (conns ?s r)" for r using inv_parts(1) [OF inv] shape_step by (simp add: sys_fields)
  have tb: "table_ok (locks (mem ?s)) (conns ?s)" using locks_step [OF inv_parts(2,1) [OF inv]] by (simp add: sys_fields)
  note lk = restart_locks [OF inv pc]
  have lp: "hdr_of ?c = live (mem s)" "log s = []" using inv_parts(7) [OF inv, of p] pc by (simp_all add: local_ok_def)
  have N: "N s = 0" "N ?s = 0" by (simp_all add: N_def s'(2) lp(2))
  have mx: "mxFrame (live (mem s)) = 0" using memory_facts(4) [OF inv_parts(3) [OF inv]] N(1) by simp
  have busy: "\<not> ck_busy s r" for r using busy_bound [OF inv_parts(5) [OF inv], of r] N(1) by auto
  have "points_ok ?s" using inv_parts(5) [OF inv] unfolding points_ok_def s' N .
  moreover have "files_ok ?s" using inv_parts(4) [OF inv] unfolding files_ok_def s' N lp(2) by simp
  moreover have "memory_ok ?s" using inv_parts(3) [OF inv] unfolding memory_ok_def s' N by simp
  moreover have "reader_ok ?s r" for r
  proof (cases "r = p")
    case True
    then show ?thesis using inv_parts(6) [OF inv, of p] lk(1) [of p] by (simp add: reader_ok_def Let_def own(2-6) s' N) (simp add: own(1) goto_def)
  next
    case False
    then show ?thesis using inv_parts(6) [OF inv, of r] lk(1) [of r] same [OF False]
      by (auto simp: reader_ok_def Let_def same_conn_def s' N)
  qed
  moreover have "local_ok ?s r" for r
  proof (cases "r = p")
    case True
    then show ?thesis using lp by (simp add: local_ok_def own goto_def s')
  next
    case False
    have cr: "conns ?s r = conns s r" "epoch ?s r = epoch s r" "snapFrame ?s r = snapFrame s r" "snapSize ?s r = snapSize s r"
      using same [OF False] by (simp_all add: same_conn_def)
    have known: "hdr_known ?s r = hdr_known s r" by (simp add: hdr_known_def cr s'(1))
    have zero: "mxFrame (hdr_of (conns s r)) = 0" if "hdr_known s r" "epoch s r = length (hist s)"
      using current_live [OF inv_parts(3) [OF inv] that] mx by simp
    have rd: "read_ok ?s r l" if k: "read_ok s r l" and l: "pc (conns s r) = Begin_read l" and h: "l \<noteq> Read_hdr \<longrightarrow> hdr_known s r" for l
    proof -
      have "\<not> sh_read l (3 + x)" if "1 \<le> x" "x \<le> 4" for x using lk(4) [OF that, of r] l by (auto simp: sh_held_def)
      moreover have "read_shape (conns s r) l" using inv_parts(1) [OF inv, of r] l by (simp add: shape_def)
      ultimately show ?thesis using k h zero by (cases l) (auto simp: cr s')
    qed
    have ck: "ckpt_ok ?s r l" if "ckpt_ok s r l" "pc (conns s r) = Ckpt l" for l
      using that busy by (cases l) (simp_all add: ck_point_def cr s' N)
    have "pc (conns s r) \<noteq> Restarting l" for l using lk(2) [OF False] inv_parts(1) [OF inv, of r] by (auto simp: shape_def)
    then show ?thesis using inv_parts(7) [OF inv, of r] known rd ck lk(2) [OF False]
      by (auto simp: local_ok_def cr at_snapshot_def split: pc.splits)
  qed
  moreover have "safe_for ?s r r'" for r r'
    by (rule safe_low [OF _ sh]) (use lk(1) [of r'] same [of r'] in \<open>cases "r' = p"; simp add: own goto_def same_conn_def\<close>)
  moreover have "index_ok ?s"
  proof -
    obtain L where L: "wi_ok (apWiData (mem s)) L" "writer_ok s L p" using inv_parts(9) [OF inv] by (auto simp: index_ok_def)
    have "writer_ok ?s L r" for r
    proof (cases "r = p")
      case False
      then show ?thesis using lk(2) [OF False] same [OF False] by (intro not_writer [OF sh]) (simp add: same_conn_def)
    next
      case True
      have "txn_ok ?s p L 0 [] = txn_ok s p L 0 []" "request_in ?s p fs = request_in s p fs" for fs
        by (rule txn_ok_cong, simp_all add: own goto_def s') (rule request_in_cong, simp_all add: own goto_def s')
      then show ?thesis using L(2) True pc by (simp add: writer_ok_def own goto_def pending_def s')
    qed
    then show ?thesis using L(1) by (auto simp: index_ok_def s' N lp(2))
  qed
  ultimately show ?thesis using sh tb unfolding inv_def by blast
qed

lemma reset_mark_inv:
  assumes inv: "inv s" and pc: "pc (conns s p) = Restarting (Reset_mark n)"
  shows "inv (sys_step i p s)"
proof -
  let ?s = "sys_step i p s" and ?c = "conns s p"
  have ns: "\<not> restarts ?c" "\<not> commits ?c" "\<not> reads_hdr ?c" using pc by (simp_all add: restarts_def commits_def reads_hdr_def)
  have m: "mem ?s = (mem s)\<lparr>aReadMark := (aReadMark (mem s))[n := if n = 1 then 0 else READMARK_NOT_USED]\<rparr>"
    and c: "conns ?s p = (if n + 1 < WAL_NREADER then goto (Restarting (Reset_mark (n + 1))) ?c else after_restart ?c)"
    using pc by (simp_all add: conn_step_def sys_fields)
  have n: "1 \<le> n" "n \<le> 4" using inv_parts(1) [OF inv, of p] pc by (simp_all add: shape_def)
  have ex: "ex_held ?c (3 + n)" using pc n by (simp add: ex_held_def)
  have t: "txn ?s p = txn s p" "epoch ?s p = epoch s p" using pc ns by (simp_all add: sys_fields txn_after_def)
  have s': "hist ?s = hist s" "log ?s = log s" "live (mem ?s) = live (mem s)" "walFd (mem ?s) = walFd (mem s)" using ns m by (simp_all add: sys_fields)
  have lp: "hdr_of ?c = live (mem s)" "log s = []" using inv_parts(7) [OF inv, of p] pc by (simp_all add: local_ok_def)
  have w: "pWal (conns ?s p) = pWal ?c" "todo (conns ?s p) = todo ?c" "isCommit (conns ?s p) = isCommit ?c" "nTruncate (conns ?s p) = nTruncate ?c"
    "iFirst (conns ?s p) = iFirst ?c" "ckptLock (conns ?s p) = ckptLock ?c"
    and st: "pc (conns ?s p) = Restarting (Reset_mark (n + 1)) \<or> pc (conns ?s p) = (if ckptLock ?c then Ckpt Ck_truncate_log else Write Restart_unlock)"
    by (simp_all add: c after_restart_def goto_def)
  show ?thesis
  proof (rule mark_inv [OF inv n ex m ns t(1)])
    show "local_ok ?s p" using st lp by (auto simp: local_ok_def w s')
    show "safe_for ?s p r" for r using st by (auto simp: safe_for_def Let_def)
    fix L assume "writer_ok s L p"
    moreover have "txn_ok ?s p L 0 [] = txn_ok s p L 0 []" "request_in ?s p fs = request_in s p fs" for fs
      by (rule txn_ok_cong, simp_all add: w t s') (rule request_in_cong, simp_all add: w t s')
    ultimately show "writer_ok ?s L p"
      using pc st lp(1) by (auto simp: writer_ok_def pending_def at_live_def w t s')
  qed (use restart_locks(1) [OF inv pc, of p] pc in \<open>simp_all add: w\<close>)
qed

section \<open>A reader that sets a mark\<close>

lemma begin_mark_inv:
  assumes inv: "inv s" and pc: "pc (conns s p) = Begin_read (Set_mark n)"
  shows "inv (sys_step i p s)"
proof -
  let ?s = "sys_step i p s" and ?c = "conns s p"
  have ns: "\<not> restarts ?c" "\<not> commits ?c" "\<not> reads_hdr ?c" using pc by (simp_all add: restarts_def commits_def reads_hdr_def)
  have m: "mem ?s = (mem s)\<lparr>aReadMark := (aReadMark (mem s))[n := mxFrame (hdr_of ?c)]\<rparr>"
    and c: "conns ?s p = goto (Begin_read (Drop_mark n)) ?c"
    using pc by (simp_all add: conn_step_def sys_fields)
  have n: "1 \<le> n" "n \<le> 4" and rl: "readLock (pWal ?c) = -1" using inv_parts(1) [OF inv, of p] pc by (simp_all add: shape_def)
  have ex: "ex_held ?c (3 + n)" using pc n by (simp add: ex_held_def)
  have t: "txn ?s p = txn s p" "epoch ?s p = epoch s p" using pc ns by (simp_all add: sys_fields txn_after_def)
  have s': "hist ?s = hist s" "log ?s = log s" "live (mem ?s) = live (mem s)" "walFd (mem ?s) = walFd (mem s)" using ns m by (simp_all add: sys_fields)
  have known: "hdr_known ?s p" using inv_parts(7) [OF inv, of p] pc by (simp add: local_ok_def hdr_known_def c goto_def t s')
  show ?thesis
  proof (rule mark_inv [OF inv n ex m ns t(1)])
    show "local_ok ?s p" using known by (simp add: local_ok_def c goto_def)
    show "safe_for ?s p r" for r by (rule safe_not_ckpt) (simp add: c goto_def)
    fix L assume "writer_ok s L p"
    moreover have "txn_ok ?s p L 0 [] = txn_ok s p L 0 []" "request_in ?s p fs = request_in s p fs" for fs
      by (rule txn_ok_cong, simp_all add: c goto_def t s') (rule request_in_cong, simp_all add: c goto_def t s')
    ultimately show "writer_ok ?s L p"
      using pc by (simp add: writer_ok_def pending_def at_live_def c goto_def t s')
  qed (use rl pc in \<open>simp_all add: c goto_def\<close>)
qed

end
