(* ===== verification/Wal_Ckpt_Safety.thy ===== *)
theory Wal_Ckpt_Safety
  imports Wal_Restart_Safety
begin

text \<open>
  The steps of a checkpoint keep the invariant: it computes a frame that is safe for every reader,
  copies the last version of each page up to it, and only then says so.
\<close>

section \<open>Steps that change no more than locks\<close>

text \<open>A checkpoint holds no lock of a reader.\<close>

lemma ckpt_no_read:
  assumes inv: "inv s" and pc: "pc (conns s p) = Ckpt l"
  shows "readLock (pWal (conns s p)) = -1" "\<not> restarts (conns s p)" "\<not> commits (conns s p)"
    "txn (sys_step i p s) p = txn s p"
  using inv_parts(1) [OF inv, of p] pc by (simp_all add: shape_def restarts_def commits_def sys_fields txn_after_def)

lemma ckpt_readLock: "readLock (pWal (fst (ckpt_step i p l c m))) = readLock (pWal c)"
  by (cases l) (simp_all add: pc_steps Let_def split: prod.split option.split)

lemma ckpt_quiet_inv:
  assumes inv: "inv s" and pc: "pc (conns s p) = Ckpt l"
    and m: "mem' i p s = (mem s)\<lparr>locks := tb\<rparr>" and lo: "local_ok (sys_step i p s) p" and sf: "\<And>r. safe_for (sys_step i p s) p r"
    and w: "\<And>L. writer_ok (sys_step i p s) L p"
  shows "inv (sys_step i p s)"
proof -
  let ?s = "sys_step i p s"
  note nr = ckpt_no_read [OF inv pc]
  have q: "quiet p s ?s" by (rule quiet_step [where tb = tb and ap = "apWiData (mem s)", OF _ nr(2,3)]) (simp add: m)
  have ap: "apWiData (mem ?s) = apWiData (mem s)" using m by (simp add: sys_fields)
  have rl: "readLock (pWal (conns ?s p)) < 0" using nr(1) pc ckpt_readLock by (simp add: conn_step_def sys_fields)
  show ?thesis
  proof (rule quiet_inv [OF inv q])
    show "reader_ok ?s p" by (rule reader_none [OF rl])
    show "safe_for ?s r p" for r by (rule safe_none [OF rl])
  qed (use pc lo sf w ap in auto)
qed

text \<open>What a step needs of the memory that did not change.\<close>

lemma ckpt_quiet_fields:
  assumes "mem' i p s = (mem s)\<lparr>locks := tb\<rparr>" and "\<not> restarts (conns s p)" and "\<not> commits (conns s p)"
  shows "hist (sys_step i p s) = hist s" "log (sys_step i p s) = log s" "points (sys_step i p s) = points s" "live (mem (sys_step i p s)) = live (mem s)"
    "nBackfill (mem (sys_step i p s)) = nBackfill (mem s)" "dbFd (mem (sys_step i p s)) = dbFd (mem s)" "N (sys_step i p s) = N s"
  using assms by (simp_all add: sys_fields N_def)

lemma ckpt_cong:
  assumes "mem' i p s = (mem s)\<lparr>locks := tb\<rparr>" and "\<not> restarts (conns s p)" and "\<not> commits (conns s p)"
    and "hdr_of (conns (sys_step i p s) p) = hdr_of (conns s p)"
  shows "ck_point (sys_step i p s) p = ck_point s p"
    and "mxSafeFrame (conns (sys_step i p s) p) \<le> mxSafeFrame (conns s p) \<Longrightarrow> mxPage (conns (sys_step i p s) p) = mxPage (conns s p) \<Longrightarrow> ck_busy s p \<Longrightarrow> ck_busy (sys_step i p s) p"
    and "pIter (conns (sys_step i p s) p) = pIter (conns s p) \<Longrightarrow> walking (sys_step i p s) p q = walking s p q"
    and "mxSafeFrame (conns (sys_step i p s) p) = mxSafeFrame (conns s p) \<Longrightarrow> mxPage (conns (sys_step i p s) p) = mxPage (conns s p) \<Longrightarrow>
      wanted (sys_step i p s) p pg f = wanted s p pg f"
    and "mxSafeFrame (conns (sys_step i p s) p) = mxSafeFrame (conns s p) \<Longrightarrow> mxPage (conns (sys_step i p s) p) = mxPage (conns s p) \<Longrightarrow>
      copied (sys_step i p s) p P = copied s p P"
  using ckpt_quiet_fields [OF assms(1-3)] assms(4)
  by (simp_all add: ck_point_def ck_busy_def walking_def wanted_def copied_def last_frame_def)

text \<open>The readers that a checkpoint does not get past stay behind it.\<close>

lemma safe_next:
  assumes sf: "safe_for s p r" and pc: "pc (conns s p) = Ckpt l" and pc': "pc (conns s' p) = Ckpt l'"
    and c: "conns s' r = conns s r" "snapFrame s' r = snapFrame s r" and mx: "mxSafeFrame (conns s' p) \<le> mxSafeFrame (conns s p)"
    and n: "passed l' \<le> Suc (passed l)" "\<forall>n y. l' \<noteq> Ck_lock_mark n y"
    and new: "passed l' = Suc (passed l) \<Longrightarrow> readLock (pWal (conns s r)) = int (passed l) \<Longrightarrow> 0 < passed l \<Longrightarrow> mxSafeFrame (conns s' p) \<le> snapFrame s r"
  shows "safe_for s' p r"
proof -
  let ?r = "readLock (pWal (conns s r))"
  have "mxSafeFrame (conns s' p) \<le> snapFrame s r" if "0 < ?r" "nat ?r < passed l'"
  proof (cases "nat ?r < passed l")
    case True
    then have "mxSafeFrame (conns s p) \<le> snapFrame s r" using sf pc that(1) by (simp add: safe_for_def Let_def)
    with mx show ?thesis by simp
  next
    case False
    then have "nat ?r = passed l" "passed l' = Suc (passed l)" using that(2) n(1) by simp_all
    then show ?thesis using new that(1) by auto
  qed
  then show ?thesis using pc' n(2) by (simp add: safe_for_def Let_def c)
qed

section \<open>The control of a checkpoint\<close>

text \<open>The steps that leave the connection's view of the log alone; \<open>l'\<close> is where they go.\<close>

definition plain :: "ckpt_pc \<Rightarrow> bool" where
  "plain l \<longleftrightarrow> l \<in> {Ck_lock, Ck_write, Ck_hdr, Ck_lock_zero, Ck_backfill, Ck_sync, Ck_size, Ck_tail, Ck_lock_all, Ck_drop_all, Ck_end_write, Ck_end} \<or>
     (\<exists>rc. l = Ck_drop_zero rc) \<or> (\<exists>pg f. l = Ck_copy pg f)"

lemmas ckpt_defs = goto_def set_hdr_def next_mark_def ck_result_def

lemma plain_mem: "plain l \<Longrightarrow> snd (ckpt_step i p l c m) = m\<lparr>locks := locks (snd (ckpt_step i p l c m))\<rparr>"
  by (auto simp: plain_def split: prod.split)

lemma no_page_zero: "files_ok s \<Longrightarrow> points_ok s \<Longrightarrow> ck_busy s p \<Longrightarrow> \<not> wanted s p 0 f"
proof
  assume fl: "files_ok s" and pt: "points_ok s" and b: "ck_busy s p" and w: "wanted s p 0 f"
  have "1 \<le> f" "f \<le> N s" "fst (log s ! (f - 1)) = 0" using w point_bound [OF pt, of p] b by (auto simp: wanted_def last_frame_def ck_busy_def)
  moreover from this have "log s ! (f - 1) \<in> set (log s)" by (intro nth_mem) (simp add: N_def)
  ultimately show False using fl unfolding files_ok_def by (metis prod.collapse)
qed

lemma all_backfilled:
  assumes inv: "inv s" and w: "writeLock (conns s p)" and pc: "\<forall>l. pc (conns s p) \<noteq> Restarting l"
  shows "nBackfill (mem s) \<le> N s"
proof (rule ccontr)
  assume "\<not> nBackfill (mem s) \<le> N s"
  then obtain q where q: "pc (conns s q) = Restarting Zero_backfill" using inv_parts(3) [OF inv] by (auto simp: memory_ok_def)
  then have "writeLock (conns s q)" using inv_parts(1) [OF inv, of q] by (simp add: shape_def)
  then have "q = p" using one_writer [OF inv_parts(2) [OF inv] w] by blast
  then show False using q pc by simp
qed

lemma plain_inv:
  assumes inv: "inv s" and pc: "pc (conns s p) = Ckpt l" and l: "plain l"
  shows "inv (sys_step i p s)"
proof -
  let ?s = "sys_step i p s" and ?c = "conns s p"
  note nr = ckpt_no_read [OF inv pc]
  have "mem' i p s = (mem s)\<lparr>locks := locks (mem' i p s)\<rparr>" using plain_mem [OF l, of i p ?c "mem s"] pc by (simp add: conn_step_def)
  then obtain tb where m: "mem' i p s = (mem s)\<lparr>locks := tb\<rparr>" by blast
  note f = ckpt_quiet_fields [OF m nr(2,3)]
  have c: "conns ?s p = fst (ckpt_step i p l ?c (mem s))" using pc by (simp add: conn_step_def sys_fields)
  have sh: "shape ?c" and mm: "memory_ok s" and fl: "files_ok s" and pt: "points_ok s" using inv_parts [OF inv] by simp_all
  have lo: "ckpt_ok s p l" "writeLock ?c \<and> has_live l \<longrightarrow> hdr_of ?c = live (mem s)" using inv_parts(7) [OF inv, of p] pc by (simp_all add: local_ok_def)
  have hd: "l \<noteq> Ck_hdr \<Longrightarrow> hdr_of (conns ?s p) = hdr_of ?c" and pg: "mxPage (conns ?s p) = mxPage ?c" "pIter (conns ?s p) = pIter ?c"
    "mxSafeFrame (conns ?s p) = mxSafeFrame ?c"
    using l by (auto simp: plain_def c ckpt_defs split: prod.split)
  note cg = ckpt_cong [OF m nr(2,3) hd]
  have busy: "l \<noteq> Ck_hdr \<Longrightarrow> ck_busy s p \<Longrightarrow> ck_busy ?s p" by (rule cg(2)) (simp_all add: pg)
  have same: "l \<noteq> Ck_hdr \<Longrightarrow> walking ?s p q = walking s p q" "l \<noteq> Ck_hdr \<Longrightarrow> copied ?s p P = copied s p P" "l \<noteq> Ck_hdr \<Longrightarrow> wanted ?s p pg' g = wanted s p pg' g" for q P pg' g
    by (rule cg(3), simp_all add: pg) (rule cg(5), simp_all add: pg, rule cg(4), simp_all add: pg)
  have cs: "l = Ck_lock \<or> (ckptLock ?c \<and> ckpt_shape ?c l)" using sh pc by (cases l) (simp_all add: shape_def)
  show ?thesis
  proof (rule ckpt_quiet_inv [OF inv pc m])
    have "(\<forall>l'. pc (conns ?s p) \<noteq> Ckpt l') \<or> (\<exists>l'. pc (conns ?s p) = Ckpt l' \<and> passed l' \<le> passed l \<and> (\<forall>n y. l' \<noteq> Ck_lock_mark n y))"
      using l pc by (cases l) (simp_all add: plain_def c ckpt_defs split: prod.split)
    then show "safe_for ?s p r" for r
    proof (elim disjE exE conjE)
      fix l' assume l': "pc (conns ?s p) = Ckpt l'" "passed l' \<le> passed l" "\<forall>n y. l' \<noteq> Ck_lock_mark n y"
      show ?thesis
      proof (cases "r = p")
        case True
        then show ?thesis using nr(1) ckpt_readLock [of i p l ?c "mem s"] by (intro safe_none) (simp add: c)
      next
        case False
        then show ?thesis using safe_next [OF inv_parts(8) [OF inv] pc l'(1), of r] l'(2,3) pg(3) by (simp add: sys_fields)
      qed
    qed (rule safe_not_ckpt)
    show "writer_ok ?s L p" for L
      using cs l pc by (cases l) (simp_all add: plain_def writer_ok_def c ckpt_defs split: prod.split)
    show "local_ok ?s p"
    proof (cases l)
      case Ck_hdr
      have "(N s, nPage (live (mem s))) \<in> set (points s)" using pt by (simp add: points_ok_def)
      then show ?thesis using Ck_hdr memory_facts(4) [OF mm] by (simp add: local_ok_def c ckpt_defs ck_point_def f)
    next
      case Ck_lock_zero
      then show ?thesis using lo busy same hd pc by (simp add: local_ok_def c ckpt_defs f split: prod.split)
    next
      case Ck_backfill
      then show ?thesis using lo busy same hd by (simp add: local_ok_def c ckpt_defs f)
    next
      case Ck_sync
      have z: "copied s p (\<lambda>pg. pg \<le> 0)" if "ck_busy s p" using no_page_zero [OF fl pt that] by (simp add: copied_def)
      show ?thesis using Ck_sync lo busy same hd z by (auto simp: local_ok_def c ckpt_defs f intro!: exI [of _ 0])
    next
      case (Ck_copy pg' g)
      have "walFd (mem s) g = snd (log s ! (g - 1))" if "ck_busy s p" "wanted s p pg' g"
      proof -
        have "1 \<le> g" "g \<le> N s" using that point_bound [OF pt, of p] by (auto simp: wanted_def last_frame_def ck_busy_def)
        then show ?thesis using fl by (cases g) (simp_all add: files_ok_def)
      qed
      then show ?thesis using Ck_copy lo busy same hd by (auto simp: local_ok_def c ckpt_defs f intro!: exI [of _ g])
    next
      case Ck_size
      have "mxSafeFrame ?c = mxFrame (hdr_of ?c)" if "ck_busy s p" "mxSafeFrame ?c = mxFrame (live (mem s))"
        using that point_bound [OF pt, of p] memory_facts(4) [OF mm] by (auto simp: ck_busy_def)
      then show ?thesis using Ck_size lo busy same hd by (simp add: local_ok_def c ckpt_defs f)
    next
      case Ck_tail
      have "nBackfill (mem s) = N s" if "eMode ?c \<noteq> PASSIVE" "\<not> nBackfill (mem s) < mxFrame (hdr_of ?c)"
      proof -
        have w: "writeLock ?c" using that(1) cs Ck_tail by simp
        then have "hdr_of ?c = live (mem s)" using lo(2) Ck_tail by simp
        then show ?thesis using all_backfilled [OF inv w] that(2) memory_facts(4) [OF mm] pc by simp
      qed
      then show ?thesis using Ck_tail lo hd by (simp add: local_ok_def c ckpt_defs f)
    next
      case Ck_lock_all
      then show ?thesis using lo hd cs pc by (simp add: local_ok_def c ckpt_defs f split: prod.split)
    qed (use l lo hd cs pc in \<open>simp_all add: plain_def local_ok_def c ckpt_defs f split: prod.split\<close>)
  qed
qed

section \<open>The frame that is safe\<close>

text \<open>The loop over the marks: past a mark, either nobody reads with it or its readers see the safe frame.\<close>

definition marking :: "ckpt_pc \<Rightarrow> bool" where
  "marking l \<longleftrightarrow> l = Ck_load \<or> (\<exists>n. l = Ck_mark n) \<or> (\<exists>n y. l = Ck_lock_mark n y) \<or> (\<exists>n. l = Ck_drop_mark n)"

lemma marking_mem: "marking l \<Longrightarrow> snd (ckpt_step i p l c m) = m\<lparr>locks := locks (snd (ckpt_step i p l c m))\<rparr>"
  by (auto simp: marking_def Let_def split: prod.split)

lemma reader_mark:
  assumes inv: "inv s" and r: "readLock (pWal (conns s q)) = int n" and n: "1 \<le> n"
  shows "aReadMark (mem s) ! n \<le> snapFrame s q"
  using inv_parts(6) [OF inv, of q] r n by (simp add: reader_ok_def Let_def)

lemma marking_inv:
  assumes inv: "inv s" and pc: "pc (conns s p) = Ckpt l" and l: "marking l"
  shows "inv (sys_step i p s)"
proof -
  let ?s = "sys_step i p s" and ?c = "conns s p"
  note nr = ckpt_no_read [OF inv pc]
  have "mem' i p s = (mem s)\<lparr>locks := locks (mem' i p s)\<rparr>" using marking_mem [OF l, of i p ?c "mem s"] pc by (simp add: conn_step_def)
  then obtain tb where m: "mem' i p s = (mem s)\<lparr>locks := tb\<rparr>" by blast
  note f = ckpt_quiet_fields [OF m nr(2,3)]
  have c: "conns ?s p = fst (ckpt_step i p l ?c (mem s))" using pc by (simp add: conn_step_def sys_fields)
  have sh: "ckpt_shape ?c l" using inv_parts(1) [OF inv, of p] pc by (simp add: shape_def)
  have tb: "table_ok (locks (mem s)) (conns s)" by (rule inv_parts(2) [OF inv])
  have lo: "ckpt_ok s p l" "writeLock ?c \<and> has_live l \<longrightarrow> hdr_of ?c = live (mem s)" using inv_parts(7) [OF inv, of p] pc by (simp_all add: local_ok_def)
  have keep: "pWal (conns ?s p) = pWal ?c" "writeLock (conns ?s p) = writeLock ?c" "ckptLock (conns ?s p) = ckptLock ?c"
    using l unfolding marking_def by (elim disjE exE; simp add: c ckpt_defs Let_def split: prod.split)+
  have others: "conns ?s r = conns s r" "snapFrame ?s r = snapFrame s r" if "r \<noteq> p" for r using that by (simp_all add: sys_fields)
  have ckl: "ckptLock ?c" using sh l by (auto simp: marking_def)
  have live: "writeLock ?c \<Longrightarrow> hdr_of ?c = live (mem s)" using lo(2) l by (auto simp: marking_def)
  have own: "safe_for ?s p p" by (rule safe_none) (use nr(1) keep in simp)
  have goal: "inv ?s" if pc': "pc (conns ?s p) = Ckpt l'" and ok: "ckpt_ok ?s p l'" and sf: "\<And>r. r \<noteq> p \<Longrightarrow> safe_for ?s p r" for l'
  proof (rule ckpt_quiet_inv [OF inv pc m])
    show "local_ok ?s p" using pc' ok live by (simp add: local_ok_def keep f)
    show "safe_for ?s p r" for r using sf own by (cases "r = p") auto
    show "writer_ok ?s L p" for L using pc' by (simp add: writer_ok_def)
  qed
  have busy: "ck_busy ?s p" if "ck_busy s p" "mxSafeFrame (conns ?s p) \<le> mxSafeFrame ?c" "mxPage (conns ?s p) = mxPage ?c"
    by (rule ckpt_cong(2) [OF m nr(2,3)]) (simp_all add: that keep)
  consider (load) "l = Ck_load" | (mark) n where "l = Ck_mark n" | (lockm) n y where "l = Ck_lock_mark n y" | (dropm) n where "l = Ck_drop_mark n"
    using l by (auto simp: marking_def)
  then show ?thesis
  proof cases
    case load
    show ?thesis
    proof (cases "nBackfill (mem s) < mxFrame (hdr_of ?c)")
      case True
      have "ck_busy ?s p" using lo(1) load True by (simp add: ck_busy_def ck_point_def f c goto_def)
      then show ?thesis using load True by (intro goal [of "Ck_mark 1"]) (simp_all add: c goto_def safe_for_def Let_def)
    next
      case False
      then show ?thesis using load by (intro goal [of Ck_tail]) (simp_all add: c goto_def safe_for_def Let_def)
    qed
  next
    case (mark n)
    let ?y = "aReadMark (mem s) ! n"
    have n: "1 \<le> n" "n \<le> 4" using sh mark by simp_all
    have b: "ck_busy ?s p" using lo(1) mark by (intro busy) (simp_all add: c ckpt_defs Let_def)
    have mx: "mxSafeFrame (conns ?s p) = mxSafeFrame ?c" using mark by (simp add: c ckpt_defs Let_def)
    show ?thesis
    proof (cases "mxSafeFrame ?c > ?y")
      case True
      have pc': "pc (conns ?s p) = Ckpt (Ck_lock_mark n ?y)" using mark True by (simp add: c ckpt_defs Let_def)
      show ?thesis
      proof (rule goal [OF pc'])
        fix r assume r: "r \<noteq> p"
        have "safe_for s p r" by (rule inv_parts(8) [OF inv])
        then show "safe_for ?s p r" using reader_mark [OF inv, of r n] n pc mark pc' others [OF r] mx by (simp add: safe_for_def Let_def)
      qed (use b mx True in simp)
    next
      case False
      let ?l = "if n + 1 < 5 then Ck_mark (n + 1) else Ck_iter"
      have pc': "pc (conns ?s p) = Ckpt ?l" using mark False by (simp add: c ckpt_defs Let_def)
      show ?thesis
      proof (rule goal [OF pc'])
        fix r assume r: "r \<noteq> p"
        have "mxSafeFrame ?c \<le> snapFrame s r" if "readLock (pWal (conns s r)) = int n"
          using reader_mark [OF inv that n(1)] False by simp
        then show "safe_for ?s p r"
          using safe_next [OF inv_parts(8) [OF inv] pc pc' others [OF r]] mark n mx by simp
      qed (use b in simp)
    qed
  next
    case (lockm n y)
    have n: "1 \<le> n" "n \<le> 4" and y: "ck_busy s p" "y < mxSafeFrame ?c" using sh lo(1) lockm by simp_all
    have st: "(pc (conns ?s p) = Ckpt Ck_end_write) \<or> (pc (conns ?s p) = Ckpt (Ck_set_mark n) \<and> mxSafeFrame (conns ?s p) = mxSafeFrame ?c) \<or>
        (conns ?s p = ?c) \<or> (pc (conns ?s p) = Ckpt (if n + 1 < 5 then Ck_mark (n + 1) else Ck_iter) \<and> mxSafeFrame (conns ?s p) = y)"
      and pg: "mxPage (conns ?s p) = mxPage ?c"
      using lockm by (simp_all add: c ckpt_defs split: prod.split)
    have at: "y \<le> snapFrame s r" if "readLock (pWal (conns s r)) = int n" for r
      using inv_parts(8) [OF inv, of p r] pc lockm that by (simp add: safe_for_def Let_def)
    from st show ?thesis
    proof (elim disjE conjE)
      assume "pc (conns ?s p) = Ckpt Ck_end_write"
      then show ?thesis by (rule goal) (simp_all add: safe_for_def Let_def \<open>pc (conns ?s p) = Ckpt Ck_end_write\<close>)
    next
      assume a: "pc (conns ?s p) = Ckpt (Ck_set_mark n)" "mxSafeFrame (conns ?s p) = mxSafeFrame ?c"
      show ?thesis
      proof (rule goal [OF a(1)])
        show "ckpt_ok ?s p (Ck_set_mark n)" using busy [OF y(1)] a(2) pg by simp
        show "safe_for ?s p r" if "r \<noteq> p" for r
          by (rule safe_next [OF inv_parts(8) [OF inv] pc a(1) others [OF that]]) (use lockm a(2) in simp_all)
      qed
    next
      assume a: "conns ?s p = ?c"
      show ?thesis
      proof (rule goal [of l])
        show "ckpt_ok ?s p l" using busy [OF y(1)] y(2) a lockm by simp
        show "safe_for ?s p r" if "r \<noteq> p" for r
          using inv_parts(8) [OF inv, of p r] others [OF that] pc by (simp add: safe_for_def a)
      qed (use a pc in simp)
    next
      assume a: "pc (conns ?s p) = Ckpt (if n + 1 < 5 then Ck_mark (n + 1) else Ck_iter)" "mxSafeFrame (conns ?s p) = y"
      show ?thesis
      proof (rule goal [OF a(1)])
        show "ckpt_ok ?s p (if n + 1 < 5 then Ck_mark (n + 1) else Ck_iter)" using busy [OF y(1)] y(2) a(2) pg by simp
        show "safe_for ?s p r" if "r \<noteq> p" for r
          by (rule safe_next [OF inv_parts(8) [OF inv] pc a(1) others [OF that]]) (use lockm a(2) n y(2) at in simp_all)
      qed
    qed
  next
    case (dropm n)
    have n: "1 \<le> n" "n \<le> 4" using sh dropm by simp_all
    have ex: "ex_held ?c (3 + n)" using pc dropm by (simp add: ex_held_def)
    let ?l = "if n + 1 < 5 then Ck_mark (n + 1) else Ck_iter"
    have pc': "pc (conns ?s p) = Ckpt ?l" and mx: "mxSafeFrame (conns ?s p) = mxSafeFrame ?c" and b: "ck_busy ?s p"
      using dropm lo(1) busy by (simp_all add: c ckpt_defs)
    show ?thesis
    proof (rule goal [OF pc'])
      show "safe_for ?s p r" if "r \<noteq> p" for r
        by (rule safe_next [OF inv_parts(8) [OF inv] pc pc' others [OF that]]) (use dropm mx n no_reader [OF tb ex, of r] in simp_all)
    qed (use b in simp)
  qed
qed

lemma set_mark_inv:
  assumes inv: "inv s" and pc: "pc (conns s p) = Ckpt (Ck_set_mark n)"
  shows "inv (sys_step i p s)"
proof -
  let ?s = "sys_step i p s" and ?c = "conns s p"
  note nr = ckpt_no_read [OF inv pc]
  have ns: "\<not> reads_hdr ?c" using pc by (simp add: reads_hdr_def)
  have m: "mem ?s = (mem s)\<lparr>aReadMark := (aReadMark (mem s))[n := if n = 1 then mxSafeFrame ?c else READMARK_NOT_USED]\<rparr>"
    and c: "conns ?s p = goto (Ckpt (Ck_drop_mark n)) ?c"
    using pc by (simp_all add: conn_step_def sys_fields)
  have n: "1 \<le> n" "n \<le> 4" using inv_parts(1) [OF inv, of p] pc by (simp_all add: shape_def)
  have ex: "ex_held ?c (3 + n)" using pc by (simp add: ex_held_def)
  have lo: "ck_busy s p" "writeLock ?c \<longrightarrow> hdr_of ?c = live (mem s)" using inv_parts(7) [OF inv, of p] pc by (simp_all add: local_ok_def)
  have b: "ck_busy ?s p" using lo(1) nr m by (simp add: ck_busy_def ck_point_def c goto_def) (simp add: sys_fields)
  show ?thesis
  proof (rule mark_inv [OF inv n ex m nr(2,3) ns nr(4)])
    show "local_ok ?s p" using b lo(2) by (simp add: local_ok_def c goto_def m)
    show "safe_for ?s p r" for r
    proof (cases "r = p")
      case True
      then show ?thesis using nr(1) by (intro safe_none) (simp add: c goto_def)
    next
      case False
      show ?thesis
        by (rule safe_next [OF inv_parts(8) [OF inv] pc, of ?s "Ck_drop_mark n"]) (use False in \<open>simp_all add: c goto_def, simp_all add: sys_fields\<close>)
    qed
    show "writer_ok ?s L p" for L by (simp add: writer_ok_def c goto_def)
  qed (use nr(1) pc in \<open>simp_all add: c goto_def\<close>)
qed

section \<open>The iterator\<close>

lemma index_agree:
  assumes ok: "wi_ok ap L" and L: "N s \<le> length L" "take (N s) L = map fst (log s)" and n: "1 \<le> n" "n \<le> N s"
  shows "agree ap (map fst (log s)) n"
proof -
  have "aPgno (ap h) ! j = map fst (log s) ! (iZero h + j)" if h: "h \<le> walFramePage n" "j < entries n h" for h j
  proof -
    have f: "iZero h + j + 1 \<le> n" using frame_entry [OF n(1), of "iZero h + j + 1"] h by auto
    have "j < cap h" using entries_cap [OF n(1) h(1)] h(2) by simp
    then have j: "j < length (chunk h L)" using f n(2) L(1) by (simp add: length_chunk)
    then have "chunk h L \<noteq> []" by auto
    then have "aPgno (ap h) ! j = chunk h L ! j" using ok j by (simp add: wi_ok_def tbl_ok_def)
    also have "\<dots> = L ! (iZero h + j)" by (rule chunk_nth [OF j])
    also have "\<dots> = take (N s) L ! (iZero h + j)" using f n(2) by simp
    finally show ?thesis using L(2) by simp
  qed
  then show ?thesis using ok n by (simp add: agree_def wi_ok_def N_def)
qed

lemma ckpt_agree:
  assumes inv: "inv s" and b: "ck_busy s p"
  shows "agree (apWiData (mem s)) (map fst (log s)) (mxFrame (hdr_of (conns s p)))"
proof -
  obtain L where "wi_ok (apWiData (mem s)) L" "N s \<le> length L" "take (N s) L = map fst (log s)"
    using inv_parts(9) [OF inv] by (auto simp: index_ok_def)
  then show ?thesis using b point_bound [OF inv_parts(5) [OF inv], of p] by (intro index_agree) (auto simp: ck_busy_def)
qed

lemma init_fails: "rc \<noteq> SQLITE_OK \<Longrightarrow> b + 1 \<le> mxFrame (hdr w) \<Longrightarrow> snd (walIteratorInit (\<lambda>_. rc) failed w ap b) = None"
proof -
  assume rc: "rc \<noteq> SQLITE_OK" and b: "b + 1 \<le> mxFrame (hdr w)"
  let ?n = "walFramePage (mxFrame (hdr w)) + 1"
  have "walFramePage (b + 1) < ?n" using framePage_mono [OF b] by simp
  then have "[walFramePage (b + 1)..<?n] = walFramePage (b + 1) # [Suc (walFramePage (b + 1))..<?n]" by (rule upt_conv_Cons)
  then show ?thesis using rc by (simp add: walIteratorInit_def Let_def walHashGet_def del: upt_Suc replicate_Suc)
qed

lemma ckpt_keeps:
  assumes inv: "inv s" and pc: "pc (conns s p) = Ckpt l" and m: "mem' i p s = mem s"
    and w: "pWal (conns (sys_step i p s) p) = pWal (conns s p)" "writeLock (conns (sys_step i p s) p) = writeLock (conns s p)"
      "mxSafeFrame (conns (sys_step i p s) p) = mxSafeFrame (conns s p)"
    and pc': "pc (conns (sys_step i p s) p) = Ckpt l'" and l': "passed l' \<le> passed l" "\<forall>n y. l' \<noteq> Ck_lock_mark n y" "has_live l"
    and ok: "ckpt_ok (sys_step i p s) p l'"
  shows "inv (sys_step i p s)"
proof -
  let ?s = "sys_step i p s"
  note nr = ckpt_no_read [OF inv pc]
  have m': "mem' i p s = (mem s)\<lparr>locks := locks (mem s)\<rparr>" by (simp add: m)
  note f = ckpt_quiet_fields [OF m' nr(2,3)]
  show ?thesis
  proof (rule ckpt_quiet_inv [OF inv pc m'])
    show "local_ok ?s p" using ok l'(3) inv_parts(7) [OF inv, of p] pc by (simp add: local_ok_def pc' w f)
    show "safe_for ?s p r" for r
    proof (cases "r = p")
      case True
      then show ?thesis using nr(1) by (intro safe_none) (simp add: w)
    next
      case False
      show ?thesis
        by (rule safe_next [OF inv_parts(8) [OF inv] pc pc']) (use False l' in \<open>simp_all add: w, simp_all add: sys_fields\<close>)
    qed
    show "writer_ok ?s L p" for L by (simp add: writer_ok_def pc')
  qed
qed

lemma iter_inv:
  assumes inv: "inv s" and pc: "pc (conns s p) = Ckpt Ck_iter"
  shows "inv (sys_step i p s)"
proof -
  let ?s = "sys_step i p s" and ?c = "conns s p"
  note nr = ckpt_no_read [OF inv pc]
  have b: "ck_busy s p" using inv_parts(7) [OF inv, of p] pc by (simp add: local_ok_def)
  have m: "mem' i p s = mem s" using pc by (simp add: conn_step_def split: prod.split)
  have m': "mem' i p s = (mem s)\<lparr>locks := locks (mem s)\<rparr>" by (simp add: m)
  note f = ckpt_quiet_fields [OF m' nr(2,3)]
  obtain rc it where it: "walIteratorInit (\<lambda>_. io i) (oom i) (pWal ?c) (apWiData (mem s)) (nBackfill (mem s)) = (rc, it)" by fastforce
  have c: "conns ?s p = (if nBackfill (mem s) < mxSafeFrame ?c then (case it of None \<Rightarrow> ck_result rc ?c | Some _ \<Rightarrow> goto (Ckpt Ck_lock_zero) (?c\<lparr>pIter := it\<rparr>))
      else goto (Ckpt Ck_tail) ?c)"
    using pc it by (simp add: conn_step_def sys_fields split: option.split)
  have keep: "pWal (conns ?s p) = pWal ?c" "writeLock (conns ?s p) = writeLock ?c" "mxSafeFrame (conns ?s p) = mxSafeFrame ?c" "mxPage (conns ?s p) = mxPage ?c"
    by (simp_all add: c ckpt_defs split: option.split)
  consider (got) p' where "it = Some p'" "nBackfill (mem s) < mxSafeFrame ?c" | (none) "\<not> (nBackfill (mem s) < mxSafeFrame ?c \<and> it \<noteq> None)"
    by (cases it) auto
  then show ?thesis
  proof cases
    case none
    have "\<exists>l'. pc (conns ?s p) = Ckpt l' \<and> l' \<in> {Ck_tail, Ck_end_write}"
      using none by (auto simp: c ckpt_defs split: option.split)
    then show ?thesis using pc keep by (auto intro: ckpt_keeps [OF inv pc m])
  next
    case got
    let ?n = "mxFrame (hdr_of ?c)"
    have n: "nBackfill (mem s) + 1 \<le> ?n" using b by (simp add: ck_busy_def)
    have io: "io i = SQLITE_OK" using init_fails [OF _ n, of "io i" "oom i" "apWiData (mem s)"] it got(1) by (cases "io i = SQLITE_OK") auto
    have p': "iPrior p' = 0" "iter_ok (map fst (log s)) ?n (walFramePage (nBackfill (mem s) + 1)) p'"
      using iteratorInit_ok [OF ckpt_agree [OF inv b] _ refl it] io got(1) by (auto split: if_splits)
    have cs: "conns ?s p = goto (Ckpt Ck_lock_zero) (?c\<lparr>pIter := Some p'\<rparr>)" using c got by simp
    have w: "walking ?s p 0" using p' by (simp add: walking_def cs goto_def f)
    have "ck_busy ?s p" by (rule ckpt_cong(2) [OF m' nr(2,3)]) (simp_all add: keep b)
    then show ?thesis using w got(2)
      by (intro ckpt_keeps [OF inv pc m, of Ck_lock_zero]) (simp_all add: cs goto_def f)
  qed
qed

lemma next_inv:
  assumes inv: "inv s" and pc: "pc (conns s p) = Ckpt Ck_next"
  shows "inv (sys_step i p s)"
proof -
  let ?s = "sys_step i p s" and ?c = "conns s p" and ?n = "mxFrame (hdr_of (conns s p))" and ?lo = "walFramePage (nBackfill (mem s) + 1)"
  let ?L = "map fst (log s)"
  note nr = ckpt_no_read [OF inv pc]
  have lo: "ck_busy s p" "nBackfill (mem s) < mxSafeFrame ?c" "ck_nBackfill ?c = nBackfill (mem s)"
    using inv_parts(7) [OF inv, of p] pc by (simp_all add: local_ok_def)
  obtain q it where q: "pIter ?c = Some it" "iPrior it = q" "iter_ok ?L ?n ?lo it" "copied s p (\<lambda>pg. pg \<le> q)"
    using inv_parts(7) [OF inv, of p] pc by (auto simp: local_ok_def walking_def)
  have nN: "?n \<le> N s" using point_bound [OF inv_parts(5) [OF inv], of p] lo(1) by (simp add: ck_busy_def)
  obtain rc pg fr it' where nx: "walIteratorNext (apWiData (mem s)) it = (rc, pg, fr, it')" by (metis surj_pair)
  have pages: "\<forall>x \<in> set ?L. x < 0xFFFFFFFF" using inv_parts(4) [OF inv] by (auto simp: files_ok_def)
  note step = iteratorNext_ok [OF ckpt_agree [OF inv lo(1)] pages q(3) nx]
  have fst_nth: "?L ! (f - 1) = fst (log s ! (f - 1))" if "1 \<le> f" "f \<le> ?n" for f using that nN by (simp add: N_def)
  have page: "?lo \<le> walFramePage f" if "nBackfill (mem s) < f" for f using that by (intro framePage_mono) simp
  have m: "mem' i p s = mem s" using pc q(1) nx by (simp add: conn_step_def Let_def split: option.split)
  have m': "mem' i p s = (mem s)\<lparr>locks := locks (mem s)\<rparr>" by (simp add: m)
  note f = ckpt_quiet_fields [OF m' nr(2,3)]
  have c: "conns ?s p = fst (ckpt_step i p Ck_next ?c (mem s))" using pc by (simp add: conn_step_def sys_fields)
  have keep: "pWal (conns ?s p) = pWal ?c" "writeLock (conns ?s p) = writeLock ?c" "mxSafeFrame (conns ?s p) = mxSafeFrame ?c" "mxPage (conns ?s p) = mxPage ?c"
    "ck_nBackfill (conns ?s p) = ck_nBackfill ?c" "pIter (conns ?s p) = Some it'"
    using q(1) nx by (simp_all add: c ckpt_defs Let_def split: option.split)
  have b: "ck_busy ?s p" by (rule ckpt_cong(2) [OF m' nr(2,3)]) (simp_all add: keep lo)
  have wt: "wanted ?s p x g = wanted s p x g" for x g by (rule ckpt_cong(4) [OF m' nr(2,3)]) (simp_all add: keep)
  have cp: "copied ?s p P = copied s p P" for P by (rule ckpt_cong(5) [OF m' nr(2,3)]) (simp_all add: keep)
  show ?thesis
  proof (cases "rc = 0")
    case False
    have pc': "pc (conns ?s p) = Ckpt Ck_size" using q(1) nx False by (simp add: c ckpt_defs)
    have "copied s p (\<lambda>pg. True)"
      unfolding copied_def
    proof (intro allI impI)
      fix x g assume "True \<and> wanted s p x g"
      then have w: "wanted s p x g" by simp
      then have g: "1 \<le> g" "g \<le> ?n" "nBackfill (mem s) < g" "fst (log s ! (g - 1)) = x" by (simp_all add: wanted_def last_frame_def)
      have "\<forall>g. 1 \<le> g \<and> g \<le> ?n \<and> ?lo \<le> walFramePage g \<longrightarrow> ?L ! (g - 1) \<le> q" using step False q(2) by simp
      then have "?L ! (g - 1) \<le> q" using g(1,2) page [OF g(3)] by blast
      then have "x \<le> q" using fst_nth [OF g(1,2)] g(4) by simp
      then show "dbFd (mem s) x = Some (snd (log s ! (g - 1)))" using q(4) w by (auto simp: copied_def)
    qed
    then show ?thesis using pc pc' keep b cp lo f by (intro ckpt_keeps [OF inv pc m, of Ck_size]) simp_all
  next
    case True
    obtain fm where fm: "fr = Some fm" "1 \<le> fm" "fm \<le> ?n" "?lo \<le> walFramePage fm" "?L ! (fm - 1) = pg" "q < pg"
      "\<forall>g. 1 \<le> g \<and> g \<le> ?n \<and> ?lo \<le> walFramePage g \<and> q < ?L ! (g - 1) \<longrightarrow> pg \<le> ?L ! (g - 1) \<and> (?L ! (g - 1) = pg \<longrightarrow> g \<le> fm)"
      and it': "iter_ok ?L ?n ?lo it'" "iPrior it' = pg"
      using step True q(2) by auto
    have walk: "walking ?s p pg" using it' by (simp add: walking_def keep f)
    have least: "pg \<le> x" "x = pg \<Longrightarrow> g \<le> fm" if "wanted s p x g" "q < x" for x g
    proof -
      have "1 \<le> g" "g \<le> ?n" "nBackfill (mem s) < g" "fst (log s ! (g - 1)) = x" using that(1) by (simp_all add: wanted_def last_frame_def)
      then show "pg \<le> x" "x = pg \<Longrightarrow> g \<le> fm" using fm(7) page fst_nth that(2) by metis+
    qed
    have below: "copied s p (\<lambda>x. x < pg)"
      unfolding copied_def
    proof (intro allI impI)
      fix x g assume a: "x < pg \<and> wanted s p x g"
      then have "x \<le> q" using least(1) [of x g] by (meson leD linorder_not_le)
      then show "dbFd (mem s) x = Some (snd (log s ! (g - 1)))" using q(4) a by (auto simp: copied_def)
    qed
    have last: "g = fm" if "wanted s p pg g" for g
    proof -
      have "g \<le> fm" using least(2) [OF that fm(6)] by simp
      moreover have "\<not> g < fm" using that fm(3,5) fst_nth [OF fm(2,3)] by (auto simp: wanted_def last_frame_def)
      ultimately show ?thesis by simp
    qed
    consider (intr) "interrupted i" | (skip) "\<not> interrupted i" "fm \<le> ck_nBackfill ?c \<or> fm > mxSafeFrame ?c \<or> pg > mxPage ?c"
      | (copy) "\<not> interrupted i" "\<not> (fm \<le> ck_nBackfill ?c \<or> fm > mxSafeFrame ?c \<or> pg > mxPage ?c)" by blast
    then show ?thesis
    proof cases
      case intr
      then have pc': "pc (conns ?s p) = Ckpt (Ck_drop_zero SQLITE_INTERRUPT)" using q(1) nx True by (simp add: c ckpt_defs)
      show ?thesis using keep by (intro ckpt_keeps [OF inv pc m _ _ _ pc']) simp_all
    next
      case skip
      have pc': "pc (conns ?s p) = Ckpt Ck_next" using q(1) nx True skip fm(1) pc by (simp add: c ckpt_defs)
      have nw: "\<not> wanted s p pg g" for g using last [of g] skip(2) lo(3) by (auto simp: wanted_def)
      have "copied s p (\<lambda>x. x \<le> pg)" using below nw by (auto simp: copied_def order_le_less)
      then show ?thesis using keep b lo f cp walk by (intro ckpt_keeps [OF inv pc m _ _ _ pc']) auto
    next
      case copy
      have pc': "pc (conns ?s p) = Ckpt (Ck_copy pg fm)" using q(1) nx True copy fm(1) by (simp add: c ckpt_defs)
      have "last_frame s ?n pg fm"
        unfolding last_frame_def
      proof (intro conjI allI impI)
        fix g assume g: "fm < g \<and> g \<le> ?n"
        then have lg: "1 \<le> g" "?lo \<le> walFramePage g" using framePage_mono [of fm g] fm(2,4) by auto
        have "?L ! (g - 1) \<noteq> pg"
        proof
          assume e: "?L ! (g - 1) = pg"
          then have "g \<le> fm" using fm(7) [rule_format, of g] lg g fm(6) by simp
          then show False using g by simp
        qed
        then show "fst (log s ! (g - 1)) \<noteq> pg" using fst_nth [OF lg(1)] g by simp
      qed (use fm fst_nth in auto)
      then have "wanted s p pg fm" using copy lo(3) by (simp add: wanted_def not_le not_less)
      then show ?thesis using keep b lo f cp walk wt below by (intro ckpt_keeps [OF inv pc m _ _ _ pc']) auto
    qed
  qed
qed

section \<open>Stores to the database file\<close>

text \<open>
  A checkpoint that backfills holds the lock of the readers of the database file and is ahead of no
  reader of the log; what it stores must be right for the readers and for the record.
\<close>

lemma only_checkpoint: "inv s \<Longrightarrow> pc (conns s p) = Ckpt l \<Longrightarrow> ckptLock (conns s p) \<Longrightarrow> pc (conns s r) = Ckpt l' \<Longrightarrow> r \<noteq> p \<Longrightarrow> l' = Ck_lock"
  using one_checkpoint [OF inv_parts(2), of s p r] inv_parts(1) [of s r] by (cases l') (auto simp: shape_def)

lemma ckpt_store_inv:
  assumes inv: "inv s" and pc: "pc (conns s p) = Ckpt l" and b: "ck_busy s p" and ex: "ex_held (conns s p) 3"
    and m: "mem' i p s = (mem s)\<lparr>dbFd := D, nBackfill := B\<rparr>" and B: "nBackfill (mem s) \<le> B" "B \<le> N s"
    and c: "conn' i p s = goto (Ckpt l') (conns s p)" and l': "passed l' \<le> passed l" "\<forall>n y. l' \<noteq> Ck_lock_mark n y" "has_live l"
    and lo: "ckpt_ok (sys_step i p s) p l'"
    and fl: "\<And>pg. pg \<le> nPage (live (mem s)) \<Longrightarrow> last_of (drop B (log s)) pg = None \<Longrightarrow> D pg = truth s pg"
    and rd: "\<And>r pg m. 0 < readLock (pWal (conns s r)) \<Longrightarrow> (snapFrame s r, snapSize s r) \<in> set (points s) \<Longrightarrow> m \<le> nBackfill (mem s) + 1 \<Longrightarrow>
      mxSafeFrame (conns s p) \<le> snapFrame s r \<Longrightarrow> pg \<le> snapSize s r \<Longrightarrow> last_of (drop (m - 1) (take (snapFrame s r) (log s))) pg = None \<Longrightarrow> D pg = dbFd (mem s) pg"
    and five: "passed l = 5"
  shows "inv (sys_step i p s)"
proof -
  let ?s = "sys_step i p s" and ?c = "conns s p"
  note nr = ckpt_no_read [OF inv pc]
  have nh: "\<not> reads_hdr ?c" using pc l'(3) by (auto simp: reads_hdr_def)
  note o = others_step [of p s i]
  have same: "same_conn r s ?s" if "r \<noteq> p" for r by (rule others_same [OF o that])
  have s': "hist ?s = hist s" "log ?s = log s" "truth ?s = truth s" "points ?s = points s" "live (mem ?s) = live (mem s)" "nBackfill (mem ?s) = B"
    "dbFd (mem ?s) = D" "aReadMark (mem ?s) = aReadMark (mem s)" "apWiData (mem ?s) = apWiData (mem s)" "walFd (mem ?s) = walFd (mem s)"
    using nr m by (simp_all add: sys_fields)
  have cp: "conns ?s p = goto (Ckpt l') ?c" using c by (simp add: sys_fields)
  have N: "N ?s = N s" by (simp add: N_def s')
  have sh: "shape (conns ?s r)" for r using inv_parts(1) [OF inv] shape_step by (simp add: sys_fields)
  have tb0: "table_ok (locks (mem s)) (conns s)" by (rule inv_parts(2) [OF inv])
  have tb: "table_ok (locks (mem ?s)) (conns ?s)" using locks_step [OF tb0 inv_parts(1) [OF inv]] by (simp add: sys_fields)
  have zero: "readLock (pWal (conns s r)) \<noteq> 0" for r using no_reader [OF tb0, of p 0 r] ex by simp
  have ck: "ckptLock ?c" using inv_parts(1) [OF inv, of p] pc l'(3) by (cases l) (simp_all add: shape_def)
  have nN: "nBackfill (mem s) < N s" using busy_bound [OF inv_parts(5) [OF inv] b] by simp
  have "points_ok ?s" using inv_parts(5) [OF inv] unfolding points_ok_def s' N .
  moreover have "files_ok ?s" using inv_parts(4) [OF inv] fl unfolding files_ok_def s' N by simp
  moreover have "memory_ok ?s" using inv_parts(3) [OF inv] B(2) unfolding memory_ok_def s' N by simp
  moreover have rdr: "reader_ok ?s r" for r
  proof (cases "r = p")
    case True
    then show ?thesis using nr(1) by (intro reader_none) (simp add: cp goto_def)
  next
    case False
    let ?r = "readLock (pWal (conns s r))" and ?m = "minFrame (pWal (conns s r))"
    have cr: "conns ?s r = conns s r" "epoch ?s r = epoch s r" "snapFrame ?s r = snapFrame s r" "snapSize ?s r = snapSize s r" "snapshot ?s r = snapshot s r"
      using same [OF False] by (simp_all add: same_conn_def)
    show ?thesis
    proof (cases "0 < ?r")
      case neg: False
      then show ?thesis using zero [of r] by (intro reader_none) (simp add: cr)
    next
      case pos: True
      have old: "aReadMark (mem s) ! nat ?r \<le> snapFrame s r" "1 \<le> ?m" "?m \<le> nBackfill (mem s) + 1" "(snapFrame s r, snapSize s r) \<in> set (points s)"
        "\<forall>pg \<le> snapSize s r. seen s ?m (snapFrame s r) pg = snapshot s r pg"
        using inv_parts(6) [OF inv, of r] pos by (simp_all add: reader_ok_def Let_def)
      have "?r \<le> 4" using inv_parts(1) [OF inv, of r] pos by (auto simp: shape_def reading_lock_def split: pc.splits if_splits elim!: write_shape.elims)
      then have sf: "mxSafeFrame ?c \<le> snapFrame s r" using inv_parts(8) [OF inv, of p r] pc pos five by (simp add: safe_for_def Let_def)
      have "seen ?s ?m (snapFrame s r) pg = seen s ?m (snapFrame s r) pg" if "pg \<le> snapSize s r" for pg
        using rd [OF pos old(4,3) sf that] by (cases "last_of (drop (?m - 1) (take (snapFrame s r) (log s))) pg") (simp_all add: seen_def s')
      then show ?thesis using old B(1) pos by (simp add: reader_ok_def Let_def cr s')
    qed
  qed
  moreover have "local_ok ?s r" for r
  proof (cases "r = p")
    case True
    then show ?thesis using lo l'(3) inv_parts(7) [OF inv, of p] pc by (simp add: local_ok_def cp goto_def s')
  next
    case False
    have cr: "conns ?s r = conns s r" "epoch ?s r = epoch s r" "snapFrame ?s r = snapFrame s r" "snapSize ?s r = snapSize s r"
      using same [OF False] by (simp_all add: same_conn_def)
    have known: "hdr_known ?s r = hdr_known s r" by (simp add: hdr_known_def cr s')
    have cur: "nBackfill (mem s) \<noteq> mxFrame (hdr_of (conns s r))" if "hdr_known s r" "epoch s r = length (hist s)"
      using current_live [OF inv_parts(3) [OF inv] that] memory_facts(4) [OF inv_parts(3) [OF inv]] nN by simp
    have rd: "read_ok ?s r l" if "read_ok s r l" "l \<noteq> Read_hdr \<longrightarrow> hdr_known s r" for l
      using that cur B(1) by (cases l) (auto simp: cr s')
    have ckr: "ckpt_ok ?s r k" if "pc (conns s r) = Ckpt k" for k
      using only_checkpoint [OF inv pc ck that False] by simp
    have rs: "pc (conns s r) \<noteq> Restarting k" for k
    proof
      assume a: "pc (conns s r) = Restarting k"
      then have "restart_ok s r k" using inv_parts(7) [OF inv, of r] by (simp add: local_ok_def)
      then show False using nN by (cases k) (simp_all add: N_def)
    qed
    show ?thesis using inv_parts(7) [OF inv, of r] known rd ckr rs
      by (auto simp: local_ok_def cr at_snapshot_def s' split: pc.splits)
  qed
  moreover have "safe_for ?s r r'" for r r'
  proof (cases "r' = p")
    case True
    then show ?thesis using nr(1) by (intro safe_none) (simp add: cp goto_def)
  next
    case r': False
    show ?thesis
    proof (cases "r = p")
      case True
      have "safe_for ?s p r'"
        by (rule safe_next [OF inv_parts(8) [OF inv] pc, of ?s l']) (use same [OF r'] l' in \<open>simp_all add: cp goto_def same_conn_def\<close>)
      then show ?thesis using True by simp
    next
      case False
      then show ?thesis using quiet_safe [OF same [OF False] same [OF r']] inv_parts(8) [OF inv] by simp
    qed
  qed
  moreover have "index_ok ?s"
  proof -
    obtain L where L: "wi_ok (apWiData (mem s)) L" "N s \<le> length L" "take (N s) L = map fst (log s)" "\<forall>r. writer_ok s L r"
      using inv_parts(9) [OF inv] by (auto simp: index_ok_def)
    have "writer_ok ?s L r" for r
    proof (cases "r = p")
      case True
      then show ?thesis by (simp add: writer_ok_def cp goto_def)
    next
      case False
      have sc: "conns ?s r = conns s r" "epoch ?s r = epoch s r" "snapFrame ?s r = snapFrame s r" "snapSize ?s r = snapSize s r" "txn ?s r = txn s r"
        using same [OF False] by (simp_all add: same_conn_def)
      have a: "txn_ok ?s r L k ps = txn_ok s r L k ps" "request_in ?s r fs = request_in s r fs" "at_live ?s r = at_live s r" "snap_live ?s r = snap_live s r" for k ps fs
        by (simp_all only: txn_ok_def request_in_def at_live_def snap_live_def sc s' N)
      have "write_ok ?s r L k = write_ok s r L k" for k
        by (cases k) (simp_all only: write_ok.simps pending_def a sc N)
      with L(4) a show ?thesis
        by (simp add: writer_ok_def pending_def sc s' split: pc.splits) metis
    qed
    then show ?thesis using L(1-3) unfolding index_ok_def s' N by blast
  qed
  ultimately show ?thesis using sh tb unfolding inv_def by blast
qed

text \<open>A frame that the checkpoint copies is in the part of the log that its readers use.\<close>

lemma in_log: "f < length xs \<Longrightarrow> b \<le> f \<Longrightarrow> f < m \<Longrightarrow> fst (xs ! f) = pg \<Longrightarrow> last_of (drop b (take m xs)) pg \<noteq> None"
  unfolding last_of_None by (auto simp: in_set_conv_nth image_iff intro!: bexI [of _ "xs ! f"] exI [of _ "f - b"])

lemma wanted_frame:
  assumes "inv s" and "ck_busy s p" and "wanted s p pg f"
  shows "1 \<le> f" "f \<le> N s" "fst (log s ! (f - 1)) = pg" "nBackfill (mem s) < f" "f \<le> mxSafeFrame (conns s p)"
  using assms point_bound [OF inv_parts(5) [OF assms(1)], of p] by (auto simp: ck_busy_def wanted_def last_frame_def)

lemma last_frame_unique: "last_frame s n pg f \<Longrightarrow> last_frame s n pg g \<Longrightarrow> f = g"
  by (cases f g rule: linorder_cases) (auto simp: last_frame_def)

lemma put_inv:
  assumes inv: "inv s" and pc: "pc (conns s p) = Ckpt (Ck_put pg d)"
  shows "inv (sys_step i p s)"
proof (cases "io i = SQLITE_OK")
  case False
  have "conns (sys_step i p s) p = goto (Ckpt (Ck_drop_zero (io i))) (conns s p)" "mem' i p s = mem s"
    using pc False by (simp_all add: conn_step_def sys_fields)
  then show ?thesis by (intro ckpt_keeps [OF inv pc, of i "Ck_drop_zero (io i)"]) (simp_all add: goto_def)
next
  case True
  let ?s = "sys_step i p s" and ?c = "conns s p"
  note nr = ckpt_no_read [OF inv pc]
  have m: "mem' i p s = (mem s)\<lparr>dbFd := (dbFd (mem s))(pg := Some d), nBackfill := nBackfill (mem s)\<rparr>" and c: "conn' i p s = goto (Ckpt Ck_next) ?c"
    using pc True by (simp_all add: conn_step_def)
  have lo: "ck_busy s p" "nBackfill (mem s) < mxSafeFrame ?c" "ck_nBackfill ?c = nBackfill (mem s)" "walking s p pg" "copied s p (\<lambda>pg'. pg' < pg)"
    using inv_parts(7) [OF inv, of p] pc by (simp_all add: local_ok_def)
  obtain f where f: "wanted s p pg f" "d = snd (log s ! (f - 1))" using inv_parts(7) [OF inv, of p] pc by (auto simp: local_ok_def)
  note w = wanted_frame [OF inv lo(1) f(1)]
  have nB: "nBackfill (mem s) \<le> N s" using w by simp
  have s': "hist ?s = hist s" "log ?s = log s" "points ?s = points s" "live (mem ?s) = live (mem s)" "nBackfill (mem ?s) = nBackfill (mem s)"
    "dbFd (mem ?s) = (dbFd (mem s))(pg := Some d)" "conns ?s p = goto (Ckpt Ck_next) ?c"
    using nr m c by (simp_all add: sys_fields)
  show ?thesis
  proof (rule ckpt_store_inv [OF inv pc lo(1) _ m _ nB c])
    show "ex_held ?c 3" using pc by (simp add: ex_held_def)
    have wt: "wanted ?s p x g = wanted s p x g" for x g by (simp add: wanted_def last_frame_def s' goto_def)
    have "copied ?s p (\<lambda>x. x \<le> pg)"
      unfolding copied_def
    proof (intro allI impI)
      fix x g assume a: "x \<le> pg \<and> wanted ?s p x g"
      show "dbFd (mem ?s) x = Some (snd (log ?s ! (g - 1)))"
      proof (cases "x = pg")
        case True
        then have "g = f" using a f(1) wt by (auto simp: wanted_def intro: last_frame_unique)
        then show ?thesis using True f(2) by (simp add: s')
      next
        case False
        then show ?thesis using a lo(5) wt by (auto simp: copied_def s')
      qed
    qed
    then show "ckpt_ok ?s p Ck_next" using lo by (auto simp: ck_busy_def ck_point_def walking_def s' goto_def)
    fix x
    show "((dbFd (mem s))(pg := Some d)) x = truth s x" if "x \<le> nPage (live (mem s))" "last_of (drop (nBackfill (mem s)) (log s)) x = None"
    proof -
      have "last_of (drop (nBackfill (mem s)) (take (N s) (log s))) pg \<noteq> None" by (rule in_log [of "f - 1"]) (use w in \<open>auto simp: N_def\<close>)
      then have "x \<noteq> pg" using that(2) by (auto simp: N_def)
      then show ?thesis using that inv_parts(4) [OF inv] by (simp add: files_ok_def)
    qed
    fix r m
    assume a: "(snapFrame s r, snapSize s r) \<in> set (points s)" "m \<le> nBackfill (mem s) + 1" "mxSafeFrame ?c \<le> snapFrame s r"
      "last_of (drop (m - 1) (take (snapFrame s r) (log s))) x = None"
    have "last_of (drop (m - 1) (take (snapFrame s r) (log s))) pg \<noteq> None" by (rule in_log [of "f - 1"]) (use w a in \<open>auto simp: N_def\<close>)
    then have "x \<noteq> pg" using a(4) by auto
    then show "((dbFd (mem s))(pg := Some d)) x = dbFd (mem s) x" by simp
  qed simp_all
qed

lemma truncate_inv:
  assumes inv: "inv s" and pc: "pc (conns s p) = Ckpt Ck_truncate"
  shows "inv (sys_step i p s)"
proof (cases "io i = SQLITE_OK")
  case False
  have "conns (sys_step i p s) p = goto (Ckpt (Ck_drop_zero (io i))) (conns s p)" "mem' i p s = mem s"
    using pc False by (simp_all add: conn_step_def sys_fields)
  then show ?thesis by (intro ckpt_keeps [OF inv pc, of i "Ck_drop_zero (io i)"]) (simp_all add: goto_def)
next
  case True
  let ?s = "sys_step i p s" and ?c = "conns s p" and ?n = "mxFrame (hdr_of (conns s p))" and ?z = "nPage (hdr_of (conns s p))"
  let ?D = "\<lambda>pg. if pg > ?z then None else dbFd (mem s) pg"
  note nr = ckpt_no_read [OF inv pc]
  have m: "mem' i p s = (mem s)\<lparr>dbFd := ?D, nBackfill := nBackfill (mem s)\<rparr>" and c: "conn' i p s = goto (Ckpt Ck_store) ?c"
    using pc True by (simp_all add: conn_step_def)
  have lo: "ck_busy s p" "nBackfill (mem s) < mxSafeFrame ?c" "copied s p (\<lambda>pg. True)" "mxSafeFrame ?c = ?n"
    using inv_parts(7) [OF inv, of p] pc by (simp_all add: local_ok_def)
  have nB: "nBackfill (mem s) \<le> N s" using busy_bound [OF inv_parts(5) [OF inv] lo(1)] by simp
  have pt: "(?n, ?z) \<in> set (points s)" "(N s, nPage (live (mem s))) \<in> set (points s)" "?n \<le> N s"
    "\<And>y z pg. (y, z) \<in> set (points s) \<Longrightarrow> ?n \<le> y \<Longrightarrow> ?z < pg \<Longrightarrow> pg \<le> z \<Longrightarrow> y \<le> N s \<and> (\<exists>f. ?n \<le> f \<and> f < y \<and> fst (log s ! f) = pg)"
    using lo(1) inv_parts(5) [OF inv] unfolding ck_busy_def ck_point_def points_ok_def by blast+
  have s': "hist ?s = hist s" "log ?s = log s" "points ?s = points s" "live (mem ?s) = live (mem s)" "nBackfill (mem ?s) = nBackfill (mem s)"
    "dbFd (mem ?s) = ?D" "conns ?s p = goto (Ckpt Ck_store) ?c"
    using nr m c by (simp_all add: sys_fields)
  show ?thesis
  proof (rule ckpt_store_inv [OF inv pc lo(1) _ m _ nB c])
    show "ex_held ?c 3" using pc by (simp add: ex_held_def)
    have wt: "wanted ?s p x g = wanted s p x g" for x g by (simp add: wanted_def last_frame_def s' goto_def)
    have "\<not> ?z < x" if "wanted s p x g" for x g using that lo(1) by (simp add: wanted_def ck_busy_def not_less)
    then have "copied ?s p (\<lambda>pg. True)" using lo(3) wt by (auto simp: copied_def s')
    then show "ckpt_ok ?s p Ck_store" using lo by (simp add: ck_busy_def ck_point_def s' goto_def)
    fix x
    show "?D x = truth s x" if z: "x \<le> nPage (live (mem s))" "last_of (drop (nBackfill (mem s)) (log s)) x = None"
    proof (cases "?z < x")
      case True
      obtain f where "?n \<le> f" "f < N s" "fst (log s ! f) = x" using pt(4) [OF pt(2,3) True z(1)] by blast
      then show ?thesis using z(2) in_log [of f "log s" "nBackfill (mem s)" "N s" x] lo(2,4) by (auto simp: N_def)
    next
      case False
      then show ?thesis using that inv_parts(4) [OF inv] by (simp add: files_ok_def)
    qed
    fix r m
    assume a: "(snapFrame s r, snapSize s r) \<in> set (points s)" "m \<le> nBackfill (mem s) + 1" "mxSafeFrame ?c \<le> snapFrame s r" "x \<le> snapSize s r"
      "last_of (drop (m - 1) (take (snapFrame s r) (log s))) x = None"
    show "?D x = dbFd (mem s) x"
    proof (cases "?z < x")
      case True
      obtain f where f: "?n \<le> f" "f < snapFrame s r" "fst (log s ! f) = x" "snapFrame s r \<le> N s"
        using pt(4) [OF a(1) _ True a(4)] a(3) lo(4) by auto
      then have "last_of (drop (m - 1) (take (snapFrame s r) (log s))) x \<noteq> None" by (intro in_log [of f]) (use a(2) lo(2,4) in \<open>auto simp: N_def\<close>)
      then show ?thesis using a(5) by simp
    qed simp
  qed simp_all
qed

end
