(* ===== verification/Wal_Snapshot.thy ===== *)
theory Wal_Snapshot
  imports Wal_Ckpt_Safety
begin

text \<open>
  Snapshot isolation: in every run without the race, what a reader gets for a page is what was
  committed when its transaction began, whatever writers and checkpoints do meanwhile.
\<close>

section \<open>The last stores of a checkpoint\<close>

lemma store_inv:
  assumes inv: "inv s" and pc: "pc (conns s p) = Ckpt Ck_store"
  shows "inv (sys_step i p s)"
proof (cases "io i = SQLITE_OK")
  case False
  have "conns (sys_step i p s) p = goto (Ckpt (Ck_drop_zero (io i))) (conns s p)" "mem' i p s = mem s"
    using pc False by (simp_all add: conn_step_def sys_fields)
  then show ?thesis by (intro ckpt_keeps [OF inv pc, of i "Ck_drop_zero (io i)"]) (simp_all add: goto_def)
next
  case True
  let ?c = "conns s p" and ?n = "mxFrame (hdr_of (conns s p))" and ?z = "nPage (hdr_of (conns s p))" and ?B = "mxSafeFrame (conns s p)"
  have m: "mem' i p s = (mem s)\<lparr>dbFd := dbFd (mem s), nBackfill := ?B\<rparr>" and c: "conn' i p s = goto (Ckpt (Ck_drop_zero SQLITE_OK)) ?c"
    using pc True by (simp_all add: conn_step_def)
  have lo: "ck_busy s p" "nBackfill (mem s) < ?B" "copied s p (\<lambda>pg. True)" using inv_parts(7) [OF inv, of p] pc by (simp_all add: local_ok_def)
  have B: "?B \<le> N s" "?B \<le> ?n" using busy_bound [OF inv_parts(5) [OF inv] lo(1)] lo(1) by (simp_all add: ck_busy_def)
  have fl: "\<And>pg d. pg \<le> nPage (live (mem s)) \<Longrightarrow> last_of (log s) pg = Some d \<Longrightarrow> truth s pg = Some d"
    "\<And>pg. pg \<le> nPage (live (mem s)) \<Longrightarrow> last_of (drop (nBackfill (mem s)) (log s)) pg = None \<Longrightarrow> dbFd (mem s) pg = truth s pg"
    using inv_parts(4) [OF inv] unfolding files_ok_def by blast+
  have grow: "\<exists>f. ?n \<le> f \<and> f < N s \<and> fst (log s ! f) = pg" if "?z < pg" "pg \<le> nPage (live (mem s))" for pg
  proof -
    have "(?n, ?z) \<in> set (points s)" "(N s, nPage (live (mem s))) \<in> set (points s)" "?n \<le> N s"
      using lo(1) inv_parts(5) [OF inv] unfolding ck_busy_def ck_point_def points_ok_def by blast+
    then show ?thesis using that inv_parts(5) [OF inv] unfolding points_ok_def by blast
  qed
  show ?thesis
  proof (rule ckpt_store_inv [OF inv pc lo(1) _ m _ B(1) c])
    show "ex_held ?c 3" using pc by (simp add: ex_held_def)
    fix pg assume pg: "pg \<le> nPage (live (mem s))" and none: "last_of (drop ?B (log s)) pg = None"
    show "dbFd (mem s) pg = truth s pg"
    proof (cases "last_of (drop (nBackfill (mem s)) (log s)) pg")
      case None
      with fl(2) pg show ?thesis by blast
    next
      case (Some d)
      then have "pg \<in> fst ` set (drop (nBackfill (mem s)) (log s))" using last_of_None by (metis option.distinct(1))
      then obtain j where j: "j < N s - nBackfill (mem s)" "fst (log s ! (nBackfill (mem s) + j)) = pg"
        by (auto simp: in_set_conv_nth N_def)
      let ?P = "\<lambda>f. f < N s \<and> fst (log s ! f) = pg"
      let ?f = "Max {f. ?P f}"
      have fin: "finite {f. ?P f}" "nBackfill (mem s) + j \<in> {f. ?P f}" using j by simp_all
      have f: "?P ?f" "nBackfill (mem s) + j \<le> ?f" "\<And>g. ?P g \<Longrightarrow> g \<le> ?f"
        using Max_in [OF fin(1)] Max_ge [OF fin] Max_ge [OF fin(1)] fin(2) by blast+
      have after: "fst (log s ! g) \<noteq> pg" if "?B \<le> g" "g < N s" for g
        using none in_log [of g "log s" ?B "N s" pg] that by (auto simp: N_def)
      have fB: "?f < ?B" using after f(1) by (meson not_le)
      have "\<not> ?z < pg"
      proof
        assume "?z < pg"
        then obtain g where "?n \<le> g" "g < N s" "fst (log s ! g) = pg" using grow pg by blast
        then show False using after [of g] B(2) by simp
      qed
      moreover have "fst (log s ! (g - 1)) \<noteq> pg" if "Suc ?f < g" "g \<le> ?n" for g
      proof
        assume "fst (log s ! (g - 1)) = pg"
        then have "g - 1 \<le> ?f" using that lo(1) point_bound [OF inv_parts(5) [OF inv], of p] by (intro f(3)) (auto simp: ck_busy_def)
        then show False using that(1) by simp
      qed
      ultimately have "wanted s p pg (Suc ?f)"
        using f(1,2) fB B(2) lo(1) by (auto simp: wanted_def last_frame_def ck_busy_def)
      then have "dbFd (mem s) pg = Some (snd (log s ! ?f))" using lo(3) by (auto simp: copied_def)
      moreover have "last_of (log s) pg = Some (snd (log s ! ?f))"
      proof (rule last_of_index)
        show "\<forall>g. ?f < g \<and> g < length (log s) \<longrightarrow> fst (log s ! g) \<noteq> pg" using f(3) by (auto simp: N_def not_le [symmetric])
      qed (use f(1) in \<open>simp_all add: N_def\<close>)
      ultimately show ?thesis using fl(1) [OF pg] by simp
    qed
  qed (use lo in simp_all)
qed

lemma truncate_log_inv:
  assumes inv: "inv s" and pc: "pc (conns s p) = Ckpt Ck_truncate_log"
  shows "inv (sys_step i p s)"
proof -
  let ?s = "sys_step i p s" and ?c = "conns s p"
  note nr = ckpt_no_read [OF inv pc]
  have nh: "\<not> reads_hdr ?c" using pc by (simp add: reads_hdr_def)
  note o = others_step [of p s i]
  have same: "same_conn r s ?s" if "r \<noteq> p" for r by (rule others_same [OF o that])
  have cp: "conns ?s p = goto (Ckpt Ck_drop_all) ?c" using pc by (simp add: conn_step_def sys_fields)
  have lo: "log s = []" "hdr_of ?c = live (mem s)" "writeLock ?c"
    using inv_parts(7) [OF inv, of p] inv_parts(1) [OF inv, of p] pc by (simp_all add: local_ok_def shape_def)
  have m: "mem' i p s = (if io i = SQLITE_OK then (mem s)\<lparr>walFd := \<lambda>_. []\<rparr> else mem s)" using pc by (simp add: conn_step_def)
  have v: "view s ?s" and ap: "apWiData (mem ?s) = apWiData (mem s)" using nr m by (simp_all add: view_def sys_fields)
  have v': "live (mem ?s) = live (mem s)" "nBackfill (mem ?s) = nBackfill (mem s)" "dbFd (mem ?s) = dbFd (mem s)" "hist ?s = hist s" "log ?s = log s"
    "truth ?s = truth s" "points ?s = points s" using v by (simp_all add: view_def)
  have n: "N ?s = 0" "N s = 0" using lo(1) by (simp_all add: N_def v')
  have sh: "shape (conns ?s r)" for r using inv_parts(1) [OF inv] shape_step by (simp add: sys_fields)
  have tb: "table_ok (locks (mem ?s)) (conns ?s)" using locks_step [OF inv_parts(2,1) [OF inv]] by (simp add: sys_fields)
  have nw: "\<not> writeLock (conns s r)" if "r \<noteq> p" for r using one_writer [OF inv_parts(2) [OF inv] lo(3)] that by blast
  have "reader_ok ?s r" for r
  proof (cases "r = p")
    case True
    then show ?thesis using nr(1) by (intro reader_none) (simp add: cp goto_def)
  next
    case False
    then show ?thesis using view_reader [OF v, of r] same [of r] inv_parts(6) [OF inv, of r] by (simp add: same_conn_def)
  qed
  moreover have "local_ok ?s r" for r
    using view_local [OF v same] inv_parts(7) [OF inv, of r] lo(2) by (cases "r = p") (simp_all add: local_ok_def [of ?s p] cp goto_def v')
  moreover have "safe_for ?s r r'" for r r'
  proof (cases "r = p \<or> r' = p")
    case True
    then show ?thesis
    proof
      assume "r = p"
      then show ?thesis by (simp add: safe_for_def cp goto_def Let_def)
    next
      assume "r' = p"
      then show ?thesis using nr(1) by (intro safe_none) (simp add: cp goto_def)
    qed
  next
    case False
    then show ?thesis using quiet_safe [OF same same] inv_parts(8) [OF inv, of r r'] by simp
  qed
  moreover have "memory_ok ?s" by (rule view_memory [OF v o _ inv_parts(3) [OF inv]]) (simp add: pc)
  moreover have "files_ok ?s" using inv_parts(4) [OF inv] unfolding files_ok_def v' n by simp
  moreover have "points_ok ?s" using inv_parts(5) [OF inv] unfolding points_ok_def v' n .
  moreover have "index_ok ?s"
  proof -
    obtain L where L: "wi_ok (apWiData (mem s)) L" using inv_parts(9) [OF inv] by (auto simp: index_ok_def)
    have "writer_ok ?s L r" for r
    proof (cases "r = p")
      case True
      then show ?thesis by (simp add: writer_ok_def cp goto_def)
    next
      case False
      then show ?thesis using nw same [OF False] by (intro not_writer [OF sh]) (simp add: same_conn_def)
    qed
    then show ?thesis using L lo(1) by (auto simp: index_ok_def ap n v')
  qed
  ultimately show ?thesis using sh tb unfolding inv_def by blast
qed

section \<open>Every step\<close>

lemma inv_step:
  assumes inv: "inv s" and dist: "distinct (hist s)" and ep: "\<forall>r. epoch s r \<le> length (hist s)"
    and ok: "request_ok i p s" and race: "\<not> reset_race p s"
  shows "inv (sys_step i p s)"
proof (cases "pc (conns s p)")
  case Idle
  then show ?thesis by (rule idle_inv [OF inv])
next
  case (Begin_read l)
  then show ?thesis
    using begin_inv [OF inv dist] begin_mark_inv [OF inv] by (cases "begin_quiet l") (auto simp: begin_quiet_def)
next
  case Reading
  then show ?thesis by (rule reading_inv [OF inv])
next
  case Writing
  then show ?thesis by (rule writing_inv [OF inv _ ok])
next
  case (Write l)
  then show ?thesis
  proof (cases l)
    case Restart_drop
    then show ?thesis using Write write_drop_inv [OF inv] by simp
  next
    case (Write_frames fs new)
    then show ?thesis using Write frames_done_inv [OF inv] frame_write_inv [OF inv] by (cases fs) auto
  next
    case (Index_frames ps k)
    then show ?thesis using Write index_frame_inv [OF inv] spill_inv [OF inv] commit_inv [OF inv _ _ ep] by (cases ps; cases "isCommit (conns s p)") auto
  next
    case Write_error
    then show ?thesis using Write error_inv [OF inv] by simp
  qed (use write_control_inv [OF inv dist Write] in simp_all)
next
  case (Restarting l)
  then show ?thesis
    using publish_inv [OF inv _ race ep] zero_backfill_inv [OF inv] reset_mark_inv [OF inv] by (cases l) auto
next
  case (Ckpt l)
  consider "plain l" | "marking l" | n where "l = Ck_set_mark n" | "l = Ck_iter" | "l = Ck_next" | pg d where "l = Ck_put pg d"
    | "l = Ck_truncate" | "l = Ck_store" | "l = Ck_truncate_log"
    by (cases l) (auto simp: plain_def marking_def)
  then show ?thesis
  proof cases
    case 1
    then show ?thesis by (rule plain_inv [OF inv Ckpt])
  next
    case 2
    then show ?thesis by (rule marking_inv [OF inv Ckpt])
  qed (use Ckpt set_mark_inv [OF inv] iter_inv [OF inv] next_inv [OF inv] put_inv [OF inv]
      truncate_inv [OF inv] store_inv [OF inv] truncate_log_inv [OF inv] in simp_all)
next
  case Ending
  then show ?thesis by (rule ending_inv [OF inv])
qed

lemma epoch_step: "\<forall>r. epoch s r \<le> length (hist s) \<Longrightarrow> epoch (sys_step i p s) r \<le> length (hist (sys_step i p s))"
  by (simp add: sys_fields le_SucI)

lemma distinct_step: "distinct (hist (sys_step i p s)) \<Longrightarrow> distinct (hist s)"
  by (simp add: sys_fields split: if_splits)

section \<open>Reachable states\<close>

lemma initial_inv:
  assumes "initial s"
  shows "inv s" and "\<forall>r. epoch s r \<le> length (hist s)"
proof -
  note i = assms [unfolded initial_def]
  have c: "pc (conns s p) = Idle" "readLock (pWal (conns s p)) = -1" "\<not> bShmUnreliable (pWal (conns s p))" "\<not> writeLock (conns s p)" "\<not> ckptLock (conns s p)" for p
    using i by simp_all
  have N: "N s = 0" using i by (simp add: N_def)
  have "shape (conns s p)" for p using c [of p] by (simp add: shape_def)
  moreover have "table_ok (locks (mem s)) (conns s)" using i c by (auto simp: table_ok_def no_locks_def ex_held_def sh_held_def)
  moreover have "memory_ok s" using i N by (simp add: memory_ok_def)
  moreover have "files_ok s" using i N by (simp add: files_ok_def)
  moreover have "points_ok s" using i N by (auto simp: points_ok_def)
  moreover have "reader_ok s p" for p using c(2) [of p] by (intro reader_none) simp
  moreover have "local_ok s p" for p using c(1) [of p] by (simp add: local_ok_def)
  moreover have "safe_for s p q" for p q using c(1) [of p] by (intro safe_not_ckpt) simp
  moreover have "writer_ok s [] p" for p using c(1) [of p] by (simp add: writer_ok_def)
  then have "index_ok s" unfolding index_ok_def using i N by (intro exI [of _ "[]"] conjI allI) simp_all
  ultimately show "inv s" unfolding inv_def by blast
  show "\<forall>r. epoch s r \<le> length (hist s)" using i by simp
qed

lemma reach_inv: "reach g s0 s \<Longrightarrow> g \<Longrightarrow> distinct (hist s) \<Longrightarrow> inv s \<and> (\<forall>r. epoch s r \<le> length (hist s))"
proof (induction rule: reach.induct)
  case start
  then show ?case using initial_inv by blast
next
  case (step s i p)
  have "distinct (hist s)" by (rule distinct_step [OF step.prems(2)])
  with step show ?case using inv_step epoch_step by blast
qed

lemma reading_locks:
  assumes inv: "inv s" and pc: "pc (conns s p) = Reading \<or> pc (conns s p) = Writing"
  shows "0 \<le> readLock (pWal (conns s p))" "\<not> bShmUnreliable (pWal (conns s p))"
  using inv_parts(1) [OF inv, of p] pc by (auto simp: shape_def reading_lock_def)

text \<open>The last version of a page in the frames from \<open>m\<close> to \<open>n\<close>.\<close>

lemma last_of_search:
  assumes "n \<le> length xs" and "f = linear_search (\<lambda>k. map fst xs ! (k - 1)) pg m n" and "1 \<le> m"
  shows "last_of (drop (m - 1) (take n xs)) pg = (if f = 0 then None else Some (snd (xs ! (f - 1))))"
proof -
  let ?ys = "drop (m - 1) (take n xs)"
  have l: "is_last (\<lambda>k. 1 \<le> k \<and> m \<le> k \<and> k \<le> n \<and> map fst xs ! (k - 1) = pg) f" unfolding assms(2) by (rule linear_is_last)
  have nth: "?ys ! j = xs ! (m - 1 + j)" if "j < length ?ys" for j using that assms(1) by simp
  show ?thesis
  proof (cases "f = 0")
    case True
    have "pg \<notin> fst ` set ?ys"
    proof
      assume "pg \<in> fst ` set ?ys"
      then obtain j where j: "j < length ?ys" "fst (?ys ! j) = pg" by (auto simp: in_set_conv_nth)
      then have "m + j \<le> n" "map fst xs ! (m + j - 1) = pg" using assms(1,3) nth [OF j(1)] by (auto simp: nth_map)
      then show False using l True assms(3) by (auto simp: is_last_def)
    qed
    then show ?thesis using True last_of_None by simp
  next
    case False
    have f: "m \<le> f" "f \<le> n" "map fst xs ! (f - 1) = pg" "\<And>k. m \<le> k \<Longrightarrow> k \<le> n \<Longrightarrow> map fst xs ! (k - 1) = pg \<Longrightarrow> k \<le> f"
      using l False assms(3) by (auto simp: is_last_def)
    have j: "f - m < length ?ys" "?ys ! (f - m) = xs ! (f - 1)" using f(1,2) assms(1,3) by auto
    have "last_of ?ys pg = Some (snd (?ys ! (f - m)))"
    proof (rule last_of_index [OF j(1)])
      show "fst (?ys ! (f - m)) = pg" using j(2) f(1-3) assms(1,3) by (simp add: nth_map)
      show "\<forall>g. f - m < g \<and> g < length ?ys \<longrightarrow> fst (?ys ! g) \<noteq> pg"
      proof (intro allI impI notI)
        fix g assume g: "f - m < g \<and> g < length ?ys" "fst (?ys ! g) = pg"
        then have "map fst xs ! (m + g - 1) = pg" "m + g \<le> n" using assms(1,3) nth [of g] by (auto simp: nth_map)
        then have "m + g \<le> f" using f(4) [of "m + g"] by simp
        then show False using g(1) f(1) by linarith
      qed
    qed
    then show ?thesis using False j(2) by simp
  qed
qed

text \<open>The search of a connection that reads, on the frames it counts.\<close>

lemma read_frames:
  assumes ok: "wi_ok (apWiData (mem s)) L" and n: "mxFrame (hdr_of (conns s p)) \<le> length L"
    and xs: "take (mxFrame (hdr_of (conns s p))) L = map fst xs" "length xs = mxFrame (hdr_of (conns s p))"
    and fd: "\<forall>f < length xs. walFd (mem s) (Suc f) = snd (xs ! f)"
    and lk: "0 < readLock (pWal (conns s p))" and m: "1 \<le> minFrame (pWal (conns s p))"
  shows "read_page (conns s p) (mem s) pg =
    (case last_of (drop (minFrame (pWal (conns s p)) - 1) xs) pg of Some d \<Rightarrow> Some d | None \<Rightarrow> dbFd (mem s) pg)"
proof -
  let ?w = "pWal (conns s p)" and ?n = "mxFrame (hdr_of (conns s p))"
  define f where "f = snd (walFindFrame (\<lambda>_. SQLITE_OK) ?w (apWiData (mem s)) pg)"
  have "f = snapshot_frame ?w L pg"
    using find_ok [OF ok n, of "\<lambda>_. SQLITE_OK" pg "fst (walFindFrame (\<lambda>_. SQLITE_OK) ?w (apWiData (mem s)) pg)" f] by (auto simp: f_def split: if_splits)
  then have fL: "f = linear_search (\<lambda>k. L ! (k - 1)) pg (minFrame ?w) ?n" using lk by (simp add: snapshot_frame_def)
  have "linear_search (\<lambda>k. L ! (k - 1)) pg lo k = linear_search (\<lambda>k. map fst xs ! (k - 1)) pg lo k" if "k \<le> ?n" for lo k
    using that by (induction k) (auto simp flip: xs(1))
  then have fx: "f = linear_search (\<lambda>k. map fst xs ! (k - 1)) pg (minFrame ?w) ?n" using fL by simp
  have le: "f \<le> ?n" using linear_is_last [of "minFrame ?w" ?n "\<lambda>k. map fst xs ! (k - 1)" pg] fx by (cases "f = 0") (auto simp: is_last_def)
  have "last_of (drop (minFrame ?w - 1) (take ?n xs)) pg = (if f = 0 then None else Some (snd (xs ! (f - 1))))"
    by (rule last_of_search [OF _ fx m]) (simp add: xs(2))
  moreover have "take ?n xs = xs" using xs(2) by simp
  moreover have "walFd (mem s) f = snd (xs ! (f - 1))" if "f \<noteq> 0" using fd le that xs(2) by (cases f) simp_all
  ultimately show ?thesis by (simp add: read_page_def f_def [symmetric])
qed

lemma read_database:
  assumes "readLock (pWal (conns s p)) = 0" and "\<not> bShmUnreliable (pWal (conns s p))"
  shows "read_page (conns s p) (mem s) pg = dbFd (mem s) pg"
  using assms by (simp add: read_page_def walFindFrame_def)

lemma reader_snapshot:
  assumes inv: "inv s" and pc: "pc (conns s p) = Reading" and pg: "pg \<le> nPage (hdr_of (conns s p))"
  shows "read_page (conns s p) (mem s) pg = snapshot s p pg"
proof -
  let ?w = "pWal (conns s p)" and ?n = "mxFrame (hdr_of (conns s p))"
  have at: "?n = snapFrame s p" "nPage (hdr_of (conns s p)) = snapSize s p" using inv_parts(7) [OF inv, of p] pc by (simp_all add: local_ok_def at_snapshot_def)
  note rl = reading_locks [OF inv disjI1 [OF pc]]
  have rd: "reader_ok s p" by (rule inv_parts(6) [OF inv])
  show ?thesis
  proof (cases "readLock ?w = 0")
    case True
    then show ?thesis using rd read_database [OF True rl(2)] pg at by (simp add: reader_ok_def Let_def)
  next
    case False
    then have lk: "0 < readLock ?w" using rl(1) by simp
    then have r: "1 \<le> minFrame ?w" "(snapFrame s p, snapSize s p) \<in> set (points s)" "seen s (minFrame ?w) (snapFrame s p) pg = snapshot s p pg"
      using rd pg at by (simp_all add: reader_ok_def Let_def)
    have nN: "?n \<le> N s" using r(2) at inv_parts(5) [OF inv] unfolding points_ok_def by metis
    obtain L where L: "wi_ok (apWiData (mem s)) L" "N s \<le> length L" "take (N s) L = map fst (log s)"
      using inv_parts(9) [OF inv] by (auto simp: index_ok_def)
    have "take ?n L = map fst (take ?n (log s))" using L(3) nN by (metis min.absorb1 take_map take_take)
    then have "read_page (conns s p) (mem s) pg = (case last_of (drop (minFrame ?w - 1) (take ?n (log s))) pg of Some d \<Rightarrow> Some d | None \<Rightarrow> dbFd (mem s) pg)"
      using read_frames [OF L(1) _ _ _ _ lk r(1), of "take ?n (log s)" pg] nN L(2) inv_parts(4) [OF inv] by (simp add: N_def files_ok_def)
    then show ?thesis using r(3) at by (simp add: seen_def)
  qed
qed

text \<open>A writer reads its own frames first; its snapshot is what is committed.\<close>

lemma writer_snapshot:
  assumes inv: "inv s" and pc: "pc (conns s p) = Writing" and pg: "pg \<le> nPage (live (mem s))"
  shows "snapshot s p pg = truth s pg"
    and "read_page (conns s p) (mem s) pg = (case last_of (txn s p) pg of Some d \<Rightarrow> Some d | None \<Rightarrow> truth s pg)"
proof -
  let ?w = "pWal (conns s p)" and ?n = "mxFrame (hdr_of (conns s p))"
  obtain L where L: "wi_ok (apWiData (mem s)) L" "N s \<le> length L" "take (N s) L = map fst (log s)" "writer_ok s L p"
    using inv_parts(9) [OF inv] by (auto simp: index_ok_def)
  have w: "epoch s p = length (hist s)" "txn_ok s p L 0 []" "snap_live s p" "readLock ?w = 0 \<longrightarrow> at_live s p" using L(4) pc by (simp_all add: writer_ok_def)
  note rl = reading_locks [OF inv disjI2 [OF pc]]
  have rd: "reader_ok s p" and fl: "files_ok s" using inv_parts [OF inv] by simp_all
  have mxl: "mxFrame (live (mem s)) = N s" by (rule memory_facts(4) [OF inv_parts(3) [OF inv]])
  have sz: "snapFrame s p = N s" "pg \<le> snapSize s p" using w(3) pg by (simp_all add: snap_live_def)
  have tx: "?n = N s + length (txn s p)" "?n \<le> length L" "take ?n L = map fst (log s @ txn s p)" "\<forall>j < length (txn s p). walFd (mem s) (Suc (N s + j)) = snd (txn s p ! j)"
    using w(2) by (auto simp: txn_ok_def Let_def)
  have "snapshot s p pg = truth s pg \<and> read_page (conns s p) (mem s) pg = (case last_of (txn s p) pg of Some d \<Rightarrow> Some d | None \<Rightarrow> truth s pg)"
  proof (cases "readLock ?w = 0")
    case True
    have "dbFd (mem s) pg = snapshot s p pg" "nBackfill (mem s) = N s" using rd True sz w(1) pc by (simp_all add: reader_ok_def Let_def)
    moreover have "dbFd (mem s) pg = truth s pg" using fl pg calculation(2) by (simp add: files_ok_def N_def)
    moreover have "txn s p = []" using w(4) True tx(1) mxl by (simp add: at_live_def)
    ultimately show ?thesis using read_database [OF True rl(2)] by simp
  next
    case False
    then have lk: "0 < readLock ?w" using rl(1) by simp
    then have r: "1 \<le> minFrame ?w" "minFrame ?w \<le> nBackfill (mem s) + 1" "seen s (minFrame ?w) (N s) pg = snapshot s p pg"
      using rd sz by (simp_all add: reader_ok_def Let_def)
    have sn: "seen s (minFrame ?w) (N s) pg = truth s pg" by (rule seen_truth [OF fl r(1,2) pg])
    have nb: "nBackfill (mem s) \<le> N s"
      by (rule all_backfilled [OF inv, of p]) (use inv_parts(1) [OF inv, of p] pc in \<open>simp_all add: shape_def\<close>)
    let ?xs = "log s @ txn s p"
    have fd: "\<forall>f < length ?xs. walFd (mem s) (Suc f) = snd (?xs ! f)"
    proof (intro allI impI)
      fix f assume "f < length ?xs"
      then show "walFd (mem s) (Suc f) = snd (?xs ! f)"
        using fl tx(4) [rule_format, of "f - N s"] by (cases "f < N s") (simp_all add: nth_append N_def files_ok_def)
    qed
    have "read_page (conns s p) (mem s) pg = (case last_of (drop (minFrame ?w - 1) ?xs) pg of Some d \<Rightarrow> Some d | None \<Rightarrow> dbFd (mem s) pg)"
      by (rule read_frames [OF L(1) tx(2,3) _ fd lk r(1)]) (simp add: tx(1) N_def)
    moreover have "drop (minFrame ?w - 1) ?xs = drop (minFrame ?w - 1) (log s) @ txn s p" using r(2) nb by (simp add: N_def)
    moreover have "take (N s) (log s) = log s" by (simp add: N_def)
    ultimately show ?thesis using sn r(3) by (simp add: last_of_append seen_def split: option.splits)
  qed
  then show "snapshot s p pg = truth s pg" "read_page (conns s p) (mem s) pg = (case last_of (txn s p) pg of Some d \<Rightarrow> Some d | None \<Rightarrow> truth s pg)" by simp_all
qed

end
