(* ===== verification/Wal_Runs.thy ===== *)
theory Wal_Runs
  imports Wal_Snapshot
begin

text \<open>
  Concrete runs of the write-ahead log, evaluated step by step: one in which a writer commits a page
  while another connection reads it. The tables of the wal-index are kept folded; what is added
  to them comes from lemmas.
\<close>

section \<open>Playing a run\<close>

text \<open>The steps of a run, each of one connection; \<open>P\<close> is asked of the state at its end.\<close>

fun plays :: "bool \<Rightarrow> (nat \<times> inp) list \<Rightarrow> sys \<Rightarrow> (sys \<Rightarrow> bool) \<Rightarrow> bool" where
  "plays guarded [] s P \<longleftrightarrow> P s"
| "plays guarded ((p, i) # es) s P \<longleftrightarrow> request_ok i p s \<and> (guarded \<longrightarrow> \<not> reset_race p s) \<and> plays guarded es (sys_step i p s) P"

lemma plays_reach: "plays guarded es s P \<Longrightarrow> reach guarded s0 s \<Longrightarrow> \<exists>s'. reach guarded s0 s' \<and> P s'"
proof (induction es arbitrary: s)
  case (Cons e es)
  then show ?case using reach.step by (cases e) auto
qed auto

section \<open>A small system\<close>

definition calls :: "request \<Rightarrow> inp" where
  "calls r = \<lparr>req = r, io = SQLITE_OK, oom = False, again = False, interrupted = False, salt1 = [9, 9, 9, 9], salts = [8, 8, 8, 8, 8, 8, 8, 8], cksum = (3, 4)\<rparr>"

definition calm_handle :: Wal where
  "calm_handle = demo_handle\<lparr>readLock := -1\<rparr>"

definition demo_conn :: conn where
  "demo_conn = \<lparr>pc = Idle, pWal = calm_handle, writeLock = False, ckptLock = False, useWal = False, cnt = 0, todo = [], isCommit = False,
     nTruncate = 0, iFirst = 0, eMode = PASSIVE, xBusy = False, mxSafeFrame = 0, mxPage = 0, pIter = None, ck_nBackfill = 0\<rparr>"

definition demo_memory :: shm where
  "demo_memory = \<lparr>live = demo_hdr, nBackfill = 0, aReadMark = [0, 0, READMARK_NOT_USED, READMARK_NOT_USED, READMARK_NOT_USED],
     apWiData = demo_tables, locks = no_locks, walFd = \<lambda>_. [], dbFd = \<lambda>pg. if pg = 1 then Some [0] else None\<rparr>"

definition demo_sys :: sys where
  "demo_sys = \<lparr>mem = demo_memory, conns = \<lambda>_. demo_conn, hist = [demo_hdr], log = [], truth = dbFd demo_memory, points = [(0, 1)],
     epoch = \<lambda>_. 0, snapFrame = \<lambda>_. 0, snapSize = \<lambda>_. 0, snapshot = \<lambda>_ _. None, txn = \<lambda>_. []\<rparr>"

lemma demo_initial: "initial demo_sys"
  by (simp add: initial_def demo_sys_def demo_memory_def demo_conn_def calm_handle_def demo_handle_def demo_hdr_def demo_tables_def wi_ok_def chunk_def)

section \<open>Evaluation\<close>

text \<open>A page is written to the first frame, whatever the table held.\<close>

lemma append_first:
  assumes "length (aPgno (ap 0)) = 4062" and "mr 0 = SQLITE_OK"
  shows "walIndexAppend mr w ap (Suc 0) pg =
    (SQLITE_OK, ap(0 := \<lparr>aPgno = (replicate 4062 0)[0 := pg], aHash = (replicate 8192 0)[walHash pg := 1]\<rparr>))"
proof -
  have "walHash pg < 8192" by simp
  then have "free_key (Suc 0) (replicate 8192 0) (walHash pg) = Some (walHash pg)" by (subst free_key.simps) simp
  then show ?thesis using assms by (simp add: walIndexAppend_def walHashGet_def walFramePage_def iZero_def zero_table_def Let_def)
qed

definition tables_1 :: wi_data where
  "tables_1 = demo_tables(0 := \<lparr>aPgno = (replicate 4062 0)[0 := 1], aHash = (replicate 8192 0)[walHash 1 := 1]\<rparr>)"

lemma append_1: "walIndexAppend (\<lambda>_. SQLITE_OK) w demo_tables (Suc 0) 1 = (SQLITE_OK, tables_1)"
  by (subst append_first) (simp_all add: tables_1_def demo_tables_def cap_def)

lemma append_1_again: "walIndexAppend (\<lambda>_. SQLITE_OK) w tables_1 (Suc 0) 1 = (SQLITE_OK, tables_1)"
  by (subst append_first) (simp_all add: tables_1_def)

definition tables_2 :: "Wal \<Rightarrow> wi_data" where
  "tables_2 w = snd (walIndexAppend (\<lambda>_. SQLITE_OK) w tables_1 (Suc (Suc 0)) 1)"

lemma append_2: "walIndexAppend (\<lambda>_. SQLITE_OK) w tables_1 (Suc (Suc 0)) 1 = (SQLITE_OK, tables_2 w)"
proof -
  have 0: "wi_ok demo_tables []" by (simp add: demo_tables_def wi_ok_def chunk_def)
  have 1: "wi_ok tables_1 [1]" using wi_ok_append [OF 0, of 0 w 1 "\<lambda>_. SQLITE_OK"] append_1 by auto
  have "\<exists>ap'. walIndexAppend (\<lambda>_. SQLITE_OK) w tables_1 (Suc (Suc 0)) 1 = (SQLITE_OK, ap')"
    using wi_ok_append [OF 1, of 1 w 1 "\<lambda>_. SQLITE_OK"] by auto
  then show ?thesis by (auto simp: tables_2_def)
qed

lemma lock_one:
  "lock_exclusive p i (Suc 0) t = (if free t i then (SQLITE_OK, t\<lparr>excl := (excl t)(i := Some p)\<rparr>) else (SQLITE_BUSY, t))"
  "unlock_exclusive i (Suc 0) t = t\<lparr>excl := (excl t)(i := None)\<rparr>"
  by (auto simp: lock_exclusive_def unlock_exclusive_def le_less_Suc_eq intro!: lock_table.equality ext)

lemma lock_marks:
  "lock_exclusive p 4 4 t =
    (if free t 4 \<and> free t 5 \<and> free t 6 \<and> free t 7
     then (SQLITE_OK, t\<lparr>excl := (excl t)(4 := Some p, 5 := Some p, 6 := Some p, 7 := Some p)\<rparr>) else (SQLITE_BUSY, t))"
  "unlock_exclusive 4 4 t = t\<lparr>excl := (excl t)(4 := None, 5 := None, 6 := None, 7 := None)\<rparr>"
proof -
  have r: "4 \<le> j \<and> j < 4 + 4 \<longleftrightarrow> j = 4 \<or> j = 5 \<or> j = 6 \<or> j = (7 :: nat)" for j by auto
  have l: "[4..<4 + 4] = [4, 5, 6, 7 :: nat]" by (simp add: upt_rec)
  show "lock_exclusive p 4 4 t =
    (if free t 4 \<and> free t 5 \<and> free t 6 \<and> free t 7
     then (SQLITE_OK, t\<lparr>excl := (excl t)(4 := Some p, 5 := Some p, 6 := Some p, 7 := Some p)\<rparr>) else (SQLITE_BUSY, t))"
    "unlock_exclusive 4 4 t = t\<lparr>excl := (excl t)(4 := None, 5 := None, 6 := None, 7 := None)\<rparr>"
    unfolding lock_exclusive_def unlock_exclusive_def r l by (auto intro!: lock_table.equality ext)
qed

lemmas step_simps = sys_step_def conn_step_def idle_step_def reading_step_def writing_step_def ending_step_def begin_try_def begin_done_def begin_fail_def
  after_scan_def after_try_def write_frame_def prior_frame_def commit_hdr_def goto_def set_hdr_def calls_def Let_def
  lock_shared_def unlock_shared_def lock_one lock_marks free_def no_locks_def request_ok_def reset_race_def
  restarts_def commits_def reads_hdr_def begins_def txn_after_def WAL_RETRY_PROTOCOL_LIMIT_def covers_def

definition turns :: "nat \<Rightarrow> nat \<Rightarrow> request \<Rightarrow> (nat \<times> inp) list" where
  "turns n p r = replicate n (p, calls r)"

lemma replicate_numeral: "replicate (numeral k) x = x # replicate (pred_numeral k) x"
  by (simp add: numeral_eq_Suc)

lemmas demo_simps = demo_sys_def demo_conn_def demo_memory_def calm_handle_def demo_handle_def demo_hdr_def turns_def replicate_numeral
  READMARK_NOT_USED_def append_1 append_1_again append_2

text \<open>Connection 1 commits page 1 and ends; connection 2 begins to read; connection 1 commits the page again.\<close>

definition demo_commit :: "(nat \<times> inp) list" where
  "demo_commit = turns 5 1 Do_begin_read @ turns 3 1 Do_begin_write @ turns 16 1 (Do_frames [(1, [1])] True 1) @ turns 1 1 Do_end_write @ turns 2 1 Do_end_read"

definition demo_again :: "(nat \<times> inp) list" where
  "demo_again = turns 14 2 Do_begin_read @ turns 11 1 Do_begin_read @ turns 3 1 Do_begin_write @ turns 6 1 (Do_frames [(1, [2])] True 1)"



lemma demo_plays: "plays True (demo_commit @ demo_again) demo_sys
   (\<lambda>s. distinct (hist s) \<and> pc (conns s 2) = Reading \<and> nPage (hdr_of (conns s 2)) = 1 \<and> snapshot s 2 1 = Some [1] \<and> truth s 1 = Some [2] \<and>
     pc (conns s 1) = Writing \<and> txn s 1 = [] \<and> nPage (live (mem s)) = 1 \<and> mxFrame (live (mem s)) = 2)"
  by (simp add: demo_simps demo_commit_def demo_again_def step_simps apply_txn_def last_of_def del: if_split)

end
