(* ===== verification/Wal_Isolation.thy ===== *)
theory Wal_Isolation
  imports Wal_Runs
begin

text \<open>
  The guarantees of the write-ahead log for every run of any number of connections: which locks
  exclude each other, what a reader and a writer see, what the two files hold, and that the
  beginning of a read transaction ends, whatever the others do.
\<close>

section \<open>The committed contents\<close>

text \<open>What recovery and a new reader rely on: the last frame of a page, or else the database file.\<close>

definition stored_page :: "shm \<Rightarrow> u32 \<Rightarrow> page option" where
  "stored_page m pg =
     (let f = linear_search (walFramePgno (apWiData m)) pg 1 (mxFrame (live m))
      in if f \<noteq> 0 then Some (walFd m f) else dbFd m pg)"

lemma stored_truth:
  assumes inv: "inv s" and pg: "pg \<le> nPage (live (mem s))"
  shows "stored_page (mem s) pg = truth s pg"
proof -
  have fl: "files_ok s" and mx: "mxFrame (live (mem s)) = N s" using inv_parts [OF inv] memory_facts(4) [OF inv_parts(3) [OF inv]] by simp_all
  obtain L where L: "wi_ok (apWiData (mem s)) L" "N s \<le> length L" "take (N s) L = map fst (log s)"
    using inv_parts(9) [OF inv] by (auto simp: index_ok_def)
  have eq: "linear_search (walFramePgno (apWiData (mem s))) pg lo n = linear_search (\<lambda>k. map fst (log s) ! (k - 1)) pg lo n" if "n \<le> N s" for lo n
    using that
  proof (induction n)
    case (Suc n)
    have "walFramePgno (apWiData (mem s)) (Suc n) = take (N s) L ! n"
      using framePgno_ok [OF L(1), of "Suc n"] Suc.prems L(2) by simp
    then show ?case using Suc unfolding L(3) by simp
  qed simp
  let ?f = "linear_search (walFramePgno (apWiData (mem s))) pg 1 (mxFrame (live (mem s)))"
  have f: "?f = linear_search (\<lambda>k. map fst (log s) ! (k - 1)) pg 1 (N s)" using eq mx by simp
  have last: "last_of (log s) pg = (if ?f = 0 then None else Some (snd (log s ! (?f - 1))))"
    using last_of_search [OF _ f] by (simp add: N_def)
  have "?f \<le> N s" using linear_is_last [of 1 "N s" "\<lambda>k. map fst (log s) ! (k - 1)" pg] f by (cases "?f = 0") (auto simp: is_last_def)
  show ?thesis
  proof (cases "?f = 0")
    case True
    then have "last_of (drop (nBackfill (mem s)) (log s)) pg = None" using last by (auto simp: last_of_None dest: in_set_dropD)
    then show ?thesis using True fl pg by (simp add: stored_page_def files_ok_def)
  next
    case False
    then have "truth s pg = Some (snd (log s ! (?f - 1)))" using last fl pg by (simp add: files_ok_def)
    moreover have "walFd (mem s) ?f = snd (log s ! (?f - 1))" using fl False \<open>?f \<le> N s\<close> by (cases ?f) (simp_all add: files_ok_def)
    ultimately show ?thesis using False by (simp add: stored_page_def)
  qed
qed

section \<open>Locks\<close>

lemma reach_locks: "reach g s0 s \<Longrightarrow> (\<forall>p. shape (conns s p)) \<and> table_ok (locks (mem s)) (conns s)"
proof (induction rule: reach.induct)
  case start
  then show ?case using initial_inv inv_parts(1,2) by blast
next
  case (step s i p)
  then have "table_ok (locks (mem' i p s)) ((conns s)(p := conn' i p s))" by (intro locks_step) simp_all
  then show ?case using step shape_step by (simp add: sys_fields fun_upd_def)
qed

lemma mark_bound: "shape c \<Longrightarrow> readLock (pWal c) \<le> 4"
proof (cases "pc c")
  case (Write l)
  then show "shape c \<Longrightarrow> readLock (pWal c) \<le> 4" by (cases l) (auto simp: shape_def reading_lock_def)
qed (auto simp: shape_def reading_lock_def split: if_splits)

text \<open>C5: In every run, with any interleaving of the steps of any number of connections, at most one
  connection has the write lock and at most one the checkpoint lock; while the log is restarted no
  other connection reads from it, and while a checkpoint writes to the database file none reads from
  that file alone.\<close>

theorem wal_mutual_exclusion:
  assumes "reach guarded s0 s"
  shows "(writeLock (conns s p) \<longrightarrow> {q. writeLock (conns s q)} = {p}) \<and>
    (ckptLock (conns s p) \<longrightarrow> {q. ckptLock (conns s q)} = {p}) \<and>
    (pc (conns s p) = Restarting l \<longrightarrow> readLock (pWal (conns s q)) \<le> 0) \<and>
    (pc (conns s p) = Ckpt (Ck_put pg d) \<longrightarrow> readLock (pWal (conns s q)) \<noteq> 0)"
proof (intro conjI impI)
  note sh = reach_locks [OF assms, THEN conjunct1, rule_format] and tb = reach_locks [OF assms, THEN conjunct2]
  show "{q. writeLock (conns s q)} = {p}" if "writeLock (conns s p)" using one_writer [OF tb] that by blast
  show "{q. ckptLock (conns s q)} = {p}" if "ckptLock (conns s p)" using one_checkpoint [OF tb] that by blast
  show "readLock (pWal (conns s q)) \<le> 0" if pc: "pc (conns s p) = Restarting l"
  proof (rule ccontr)
    assume r: "\<not> readLock (pWal (conns s q)) \<le> 0"
    define n where "n = nat (readLock (pWal (conns s q)))"
    have n: "readLock (pWal (conns s q)) = int n" "1 \<le> n" "n \<le> 4" using r mark_bound [OF sh [of q]] by (simp_all add: n_def)
    have "ex_held (conns s p) (3 + n)" using pc n by (simp add: ex_held_def)
    from no_reader [OF tb this, of q] n(1) show False by simp
  qed
  show "readLock (pWal (conns s q)) \<noteq> 0" if "pc (conns s p) = Ckpt (Ck_put pg d)"
    using no_reader [OF tb, of p 0 q] that by (simp add: ex_held_def)
qed

lemma wal_mutual_exclusion_witness: "\<exists>s. reach True demo_sys s \<and> writeLock (conns s 1) \<and> {q. writeLock (conns s q)} = {1}"
proof -
  obtain s where s: "reach True demo_sys s" "pc (conns s 1) = Writing"
    using plays_reach [OF demo_plays reach.start [OF demo_initial]] by blast
  then have "writeLock (conns s 1)" using reach_locks [OF s(1)] by (auto simp: shape_def dest: spec [of _ 1])
  then show ?thesis using wal_mutual_exclusion [OF s(1), of 1] s(1) by blast
qed

section \<open>Snapshots\<close>

text \<open>C2: Snapshot isolation. In every run without the race of a reset, in which no two published headers
  are equal, a connection in a read transaction gets for every page of its database what was
  committed when the transaction began, whatever writers, restarts of the log and checkpoints have done since.\<close>

theorem wal_snapshot_isolation:
  assumes "reach True s0 s" and "distinct (hist s)" and "pc (conns s p) = Reading" and "pg \<le> nPage (hdr_of (conns s p))"
  shows "read_page (conns s p) (mem s) pg = snapshot s p pg"
  using reach_inv [OF assms(1) TrueI assms(2)] reader_snapshot [OF _ assms(3,4)] by blast

lemma wal_snapshot_isolation_witness:
  "\<exists>s. reach True demo_sys s \<and> pc (conns s 2) = Reading \<and> read_page (conns s 2) (mem s) 1 = Some [1] \<and> truth s 1 = Some [2]"
proof -
  obtain s where s: "reach True demo_sys s" "distinct (hist s)" "pc (conns s 2) = Reading" "nPage (hdr_of (conns s 2)) = 1"
    "snapshot s 2 1 = Some [1]" "truth s 1 = Some [2]"
    using plays_reach [OF demo_plays reach.start [OF demo_initial]] by blast
  then show ?thesis using wal_snapshot_isolation [OF s(1-3), of 1] by auto
qed

text \<open>C17: In every run without the race of a reset, in which no two published headers are equal (without
  these conditions it fails: see \<open>Wal_Reset\<close>), a connection in a write transaction works on what
  is committed: it began with the contents as of the last commit, reads the frames it wrote
  itself, and for every other page of the database the committed contents.\<close>

theorem wal_writer_view:
  assumes "reach True s0 s" and "distinct (hist s)" and "pc (conns s p) = Writing" and "pg \<le> nPage (live (mem s))"
  shows "snapshot s p pg = truth s pg \<and>
    read_page (conns s p) (mem s) pg = (case last_of (txn s p) pg of Some d \<Rightarrow> Some d | None \<Rightarrow> truth s pg)"
  using reach_inv [OF assms(1) TrueI assms(2)] writer_snapshot [OF _ assms(3,4)] by blast

lemma wal_writer_view_witness:
  "\<exists>s. reach True demo_sys s \<and> pc (conns s 1) = Writing \<and> read_page (conns s 1) (mem s) 1 = Some [2]"
proof -
  obtain s where s: "reach True demo_sys s" "distinct (hist s)" "pc (conns s 1) = Writing" "nPage (live (mem s)) = 1"
    "truth s 1 = Some [2]" "txn s 1 = []"
    using plays_reach [OF demo_plays reach.start [OF demo_initial]] by blast
  then show ?thesis using wal_writer_view [OF s(1-3), of 1] by auto
qed

text \<open>C3: Durability. At every moment of such a run the log and the database file hold the committed
  contents: the last frame of a page that the index finds among the committed ones, or else the
  database file; and once all frames are backfilled the database file alone holds them.\<close>

theorem wal_durability:
  assumes "reach True s0 s" and "distinct (hist s)" and "pg \<le> nPage (live (mem s))"
  shows "stored_page (mem s) pg = truth s pg \<and> (mxFrame (live (mem s)) \<le> nBackfill (mem s) \<longrightarrow> dbFd (mem s) pg = truth s pg)"
proof -
  have inv: "inv s" using reach_inv [OF assms(1) TrueI assms(2)] by blast
  have "dbFd (mem s) pg = truth s pg" if "mxFrame (live (mem s)) \<le> nBackfill (mem s)"
    using that inv_parts(4) [OF inv] memory_facts(4) [OF inv_parts(3) [OF inv]] assms(3) by (simp add: files_ok_def N_def)
  then show ?thesis using stored_truth [OF inv assms(3)] by blast
qed

lemma wal_durability_witness: "\<exists>s. reach True demo_sys s \<and> mxFrame (live (mem s)) = 2 \<and> stored_page (mem s) 1 = Some [2]"
proof -
  obtain s where s: "reach True demo_sys s" "distinct (hist s)" "nPage (live (mem s)) = 1" "mxFrame (live (mem s)) = 2" "truth s 1 = Some [2]"
    using plays_reach [OF demo_plays reach.start [OF demo_initial]] by blast
  then show ?thesis using wal_durability [OF s(1,2), of 1] by auto
qed

section \<open>The beginning of a read transaction\<close>

fun read_rank :: "read_pc \<Rightarrow> nat" where
  "read_rank Read_hdr = 19"
| "read_rank Load_backfill = 18"
| "read_rank Lock_zero = 17"
| "read_rank Check_zero = 16"
| "read_rank (Scan n m x) = 16 - n"
| "read_rank (Try_mark n m x) = 11 - n"
| "read_rank (Set_mark n) = 6"
| "read_rank (Drop_mark n) = 5"
| "read_rank (Lock_mark m x) = 4"
| "read_rank (Set_min m x) = 3"
| "read_rank (Check_mark m x) = 2"
| "read_rank (Check_hdr m x) = 1"

definition begin_rank :: "conn \<Rightarrow> nat" where
  "begin_rank c = (case pc c of Begin_read l \<Rightarrow> (100 - cnt c) * 20 + read_rank l | _ \<Rightarrow> 0)"

definition begin_ok :: "conn \<Rightarrow> bool" where
  "begin_ok c \<longleftrightarrow> (case pc c of Begin_read l \<Rightarrow> cnt c \<le> 100 \<and> read_shape c l | _ \<Rightarrow> False)"

text \<open>Where the beginning of a read transaction ends: of a reader, or of a writer that restarted the log.\<close>

definition begin_ends :: "conn \<Rightarrow> pc set" where
  "begin_ends c = (if useWal c then {Write Write_error, Write (Write_frames (todo c) [])} else {Idle, Reading})"

text \<open>The steps of one connection, each on the memory that the others left it.\<close>

fun alone :: "nat \<Rightarrow> (inp \<times> shm) list \<Rightarrow> conn \<Rightarrow> conn" where
  "alone p [] c = c"
| "alone p ((i, m) # es) c = (case pc c of Begin_read l \<Rightarrow> alone p es (fst (conn_step i p c m)) | _ \<Rightarrow> c)"

lemma begin_step_rank:
  assumes "begin_ok c"
  shows "begin_ok (fst (conn_step i p c m)) \<and> begin_rank (fst (conn_step i p c m)) < begin_rank c \<and>
      begin_ends (fst (conn_step i p c m)) = begin_ends c \<or>
    pc (fst (conn_step i p c m)) \<in> begin_ends c"
proof -
  obtain l where l: "pc c = Begin_read l" "cnt c \<le> 100" "read_shape c l" using assms by (auto simp: begin_ok_def split: pc.splits)
  then show ?thesis
    by (cases l) (auto simp: pc_steps begin_ok_def begin_rank_def begin_ends_def WAL_RETRY_PROTOCOL_LIMIT_def Let_def split: prod.splits)
qed

lemma alone_ended: "pc c \<in> begin_ends c' \<Longrightarrow> alone p es c = c"
  by (cases es) (auto simp: begin_ends_def split: pc.splits if_splits prod.splits)

lemma rank_positive: "read_shape c l \<Longrightarrow> 0 < read_rank l"
  by (cases l) auto

lemma alone_ends: "begin_ok c \<Longrightarrow> begin_rank c \<le> length es \<Longrightarrow> pc (alone p es c) \<in> begin_ends c"
proof (induction es arbitrary: c)
  case Nil
  then obtain l where "pc c = Begin_read l" "read_shape c l" by (auto simp: begin_ok_def split: pc.splits)
  with Nil show ?case using rank_positive [of c l] by (simp add: begin_rank_def)
next
  case (Cons e es)
  obtain i m where e: "e = (i, m)" by (cases e)
  let ?c = "fst (conn_step i p c m)"
  have a: "alone p (e # es) c = alone p es ?c" using Cons.prems(1) by (auto simp: e begin_ok_def split: pc.splits)
  consider "begin_ok ?c" "begin_rank ?c < begin_rank c" "begin_ends ?c = begin_ends c" | "pc ?c \<in> begin_ends c"
    using begin_step_rank [OF Cons.prems(1)] by blast
  then show ?case
  proof cases
    case 1
    then show ?thesis using Cons.IH [of ?c] Cons.prems(2) a by simp
  next
    case 2
    then show ?thesis using alone_ended [OF 2] a by simp
  qed
qed

text \<open>C18: walTryBeginRead and the loop around it return: whatever the other connections do to the
  memory and the locks between two of its steps, a connection that begins to read has begun or given
  up after at most 1999 of its own steps, and so has a writer that takes its read lock again.\<close>

theorem begin_read_returns:
  assumes "1999 \<le> length es"
  shows "pc (alone p es (begin_try (c\<lparr>useWal := b, cnt := 0\<rparr>))) \<in> (if b then {Write Write_error, Write (Write_frames (todo c) [])} else {Idle, Reading})"
proof -
  let ?c = "begin_try (c\<lparr>useWal := b, cnt := 0\<rparr>)"
  have "begin_ok ?c" "begin_rank ?c \<le> 1999" "begin_ends ?c = (if b then {Write Write_error, Write (Write_frames (todo c) [])} else {Idle, Reading})"
    by (simp_all add: begin_ok_def begin_rank_def begin_ends_def begin_try_def goto_def WAL_RETRY_PROTOCOL_LIMIT_def)
  then show ?thesis using alone_ends [of ?c es p] assms by simp
qed

lemma begin_read_returns_witness:
  "pc (alone 0 (replicate 2000 (calls Do_begin_read, demo_memory)) (begin_try (demo_conn\<lparr>useWal := False, cnt := 0\<rparr>))) \<in> {Idle, Reading}"
  using begin_read_returns [where es = "replicate 2000 (calls Do_begin_read, demo_memory)" and c = demo_conn and b = False] by simp

end
