(* ===== verification/Wal_Reset.thy ===== *)
theory Wal_Reset
  imports Wal_Runs
begin

text \<open>
  The race that the other theorems on runs exclude: the header that a checkpoint copied is that of a log
  which a writer has restarted meanwhile. The run is evaluated step by step.
\<close>

section \<open>The iterator on one frame\<close>

lemma merge_rest_one: "\<forall>i \<in> set is. 0 < i \<Longrightarrow> merge_rest c aSub (Suc 0) is arr r = (arr, r)"
  by (induction "is") (auto simp: bit_1_iff simp flip: One_nat_def)

lemma sort_one: "walMergesort c [0] (Suc 0) = ([0], Suc 0)"
proof -
  have "merge_up c aSub 0 0 arr r = (0, arr, r)" for aSub arr r by (subst merge_up.simps) simp
  moreover have "merge_rest c aSub (Suc 0) [Suc 0..<13] arr r = (arr, r)" for aSub arr r by (rule merge_rest_one) simp
  moreover have "[0..<Suc 0] = [0]" by simp
  ultimately show ?thesis by (simp add: walMergesort_def del: upt_Suc)
qed

definition seg_1 :: WalSegment where
  "seg_1 = \<lparr>iNext = 0, aIndex = [0], seg_aPgno = 0, nEntry = 1, seg_iZero = 1\<rparr>"

definition iter_1 :: WalIterator where
  "iter_1 = \<lparr>iPrior = 0, aSegment = [seg_1]\<rparr>"

lemma frame_1_page: "walFramePage (Suc 0) = 0"
  by (simp add: walFramePage_def)

lemma iterator_1: "mxFrame (hdr w) = Suc 0 \<Longrightarrow> walIteratorInit (\<lambda>_. SQLITE_OK) False w tables_1 0 = (SQLITE_OK, Some iter_1)"
  by (simp add: walIteratorInit_def frame_1_page Let_def walHashGet_def sort_one iter_1_def seg_1_def iZero_def upt_rec)

lemma next_1: "walIteratorNext tables_1 iter_1 = (0, 1, Some 1, iter_1\<lparr>iPrior := 1\<rparr>)"
  by (simp add: walIteratorNext_def iter_1_def seg_1_def tables_1_def seg_page_def seg_advance.simps)

lemma next_2: "walIteratorNext tables_1 (iter_1\<lparr>iPrior := 1\<rparr>) = (1, 0xFFFFFFFF, None, \<lparr>iPrior = 0xFFFFFFFF, aSegment = [seg_1\<lparr>iNext := 1\<rparr>]\<rparr>)"
  by (simp add: walIteratorNext_def iter_1_def seg_1_def tables_1_def seg_page_def seg_advance.simps)

section \<open>The run\<close>

text \<open>
  Connection 0 runs a checkpoint that backfills the log, and starts another one: it copies the header
  and is about to load the number of backfilled frames. Connection 1 restarts the log for a
  transaction, before it writes a frame. The checkpoint finds no frame backfilled, copies the old
  first frame again and counts it. Then connection 1 writes the new first frame and commits, and
  connection 2 begins to read.
\<close>

definition race_steps :: "(nat \<times> inp) list" where
  "race_steps =
     turns 26 0 (Do_checkpoint PASSIVE False) @ turns 3 0 (Do_checkpoint PASSIVE False) @
     turns 5 1 Do_begin_read @ turns 3 1 Do_begin_write @ turns 12 1 (Do_frames [(1, [2])] True 1) @
     turns 22 0 (Do_checkpoint PASSIVE False) @ turns 15 1 Do_begin_read @ turns 5 2 Do_begin_read"

lemma cut: "(\<lambda>pg. if n < pg then None else db pg) = apply_txn [] n db"
  by (rule ext) (simp add: apply_txn_def)

lemma race_plays: "plays False (demo_commit @ race_steps) demo_sys
   (\<lambda>s. distinct (hist s) \<and> pc (conns s 2) = Reading \<and> nPage (hdr_of (conns s 2)) = 1 \<and>
        snapshot s 2 1 = Some [2] \<and> truth s 1 = Some [2] \<and> mxFrame (live (mem s)) = 1 \<and> nBackfill (mem s) = 1 \<and>
        read_page (conns s 2) (mem s) 1 = Some [1] \<and> dbFd (mem s) 1 = Some [1])"
  by (simp add: demo_simps demo_commit_def race_steps_def step_simps last_of_def ck_result_def next_mark_def cut iterator_1 next_1 next_2 apply_txn_def
    after_restart_def restarted_def walRestartHdr_def read_page_def walFindFrame_def del: if_split)

text \<open>C4: Without the guard of \<open>reset_race\<close> snapshot isolation and durability fail although no operation
  fails and all published headers differ: page 1 was committed with the contents 2, its only frame counts as backfilled
  while the database file holds the contents 1, and a connection that begins to read after the
  commit gets 1. The transaction is lost.\<close>

theorem wal_reset_race:
  "\<exists>s. reach False demo_sys s \<and> distinct (hist s) \<and> pc (conns s 2) = Reading \<and> nPage (hdr_of (conns s 2)) = 1 \<and>
     snapshot s 2 1 = Some [2] \<and> truth s 1 = Some [2] \<and> read_page (conns s 2) (mem s) 1 = Some [1] \<and>
     dbFd (mem s) 1 = Some [1] \<and> nBackfill (mem s) = mxFrame (live (mem s))"
  using plays_reach [OF race_plays reach.start [OF demo_initial]] by auto

end
