(* ===== verification/Spec2Isabelle.thy ===== *)
theory Spec2Isabelle
  imports Nif_Contract Varint_Props Int_Util Hash_Props Complete Unix_Lock_Runs Rowset_Props Bitvec_Runs Like_Props Vdbe_Order Wal_Isolation Wal_Reset
begin

text \<open>
  Verification of the C code of Ridge, a language that compiles to Erlang. The C code is the
  native SQLite binding of its runtime, under
  src/crates/ridge-codegen-erl/runtime/native: the bridge \<open>sqlite_nif.c\<close> and the database engine
  it is linked with, the amalgamation \<open>sqlite3.c\<close>, compiled with SQLITE_THREADSAFE=1 on a 64-bit
  POSIX system.

  \<^bold>\<open>How the parts interact.\<close> An Erlang process calls the five functions the bridge exports. They check
  the connection resource, bind the parameters, step a statement and decode the rows; each of
  them ends in calls of the sqlite3 interface, which are a parameter of the model of the bridge
  (the record \<open>env\<close>). Inside the engine the parts that are modelled here serve each other:
  records and log frames use the big-endian integers and varints, literals use the text routines, strings the encodings and LIKE,
  schema names the hash table and the case-folding comparison, the pager the bitmaps, the
  file locks and the write-ahead log.

  \<^bold>\<open>Theories.\<close>
  \<^item> \<open>Prelude\<close>: C integer types as words, memory behind a pointer as a function from offsets, result
    codes, lemmas on words and lists that the components share.
  \<^item> \<open>Nif_Bridge\<close>, \<open>Nif_Props\<close>, \<open>Nif_Contract\<close>: sqlite\_nif.c. Terms are a datatype, a call returns its
    term with the new state, every call of SQLite or of the BEAM, the column reads and error queries included, goes
    into a trace, and each \<open>c->db\<close> is read from the state at the moment of its use. A monitor over that
    trace knows the open statement, the allocated blocks and the open handles; the locale \<open>call_relation\<close> lifts
    a relation on states from the library calls to the exported functions, and is interpreted on the
    monitor, on the frame and on the growth of the trace. The properties: the monitor accepts every run (nothing
    is used after its finalization or close), handles balance, a closed connection stays closed,
    parameters and cells arrive unchanged, the rows are those of the steps in order and fit their array, and what a close
    on another scheduler does to a running call. Exported calls are atomic except in that last property.
    \<open>exec_loop\<close> and \<open>query_loop\<close> are partial functions, \<open>None\<close> when the statement answers SQLITE\_ROW for
    ever; exec\_loop is shown to return exactly when it does not.
  \<^item> \<open>Varint\<close>, \<open>Varint_Props\<close>: the variable-length and the four-byte integers of util.c.
  \<^item> \<open>Int_Util\<close>, \<open>Ctype\<close>, \<open>Int_Text\<close>, \<open>Str_Util\<close>: checked arithmetic (the portable bodies and those with the
    GCC builtins) and LogEst, the
    character tables, conversions between integers, hexadecimal and text, comparison and quoting.
  \<^item> \<open>Utf\<close>, \<open>Utf_Props\<close>: utf.c, reading and writing UTF-8 and UTF-16, malformed text included, and
    the translation of strings with the size of its buffer.
  \<^item> \<open>Like\<close>, \<open>Like_Props\<close>: LIKE and GLOB of func.c. patternCompare works on bytes; it is compared with
    a matcher on tokens and characters that tries every position after a wildcard.
  \<^item> \<open>Double\<close>: doubles as their 64 bits, with the exact value of each as an integer multiple of the smallest; the
    comparison of an integer with a double is exact, with and without a long double.
  \<^item> \<open>Vdbe_Record\<close>, \<open>Vdbe_Encode\<close>, \<open>Vdbe_Make\<close>, \<open>Vdbe_Unpack\<close>: the record format of vdbe.c and vdbeaux.c. The two passes of
    OP\_MakeRecord produce the encoding \<open>encode\<close>, decoding gives the values back, and what the decoder
    answers for any bytes, corrupt ones included, depends on none that lies 9 bytes or more beyond the record.
  \<^item> \<open>Vdbe_Compare\<close>, \<open>Vdbe_Compare_Props\<close>, \<open>Vdbe_Order\<close>: comparing values, records and index keys. Comparing an encoded
    record is comparing its values, the two fast routines agree with the general one, and the values are compared by a
    reference order. The locale \<open>comparator\<close> (antisymmetric, transitive) is interpreted on the order of bytes and on the collations BINARY, RTRIM and
    NOCASE; for every collation that is one (locale \<open>collation\<close>) sqlite3MemCompare is one on cells without NaN.
  \<^item> \<open>Hash\<close>, \<open>Hash_Props\<close>: hash.c, with its elements in a store addressed by numbers, since the buckets and the
    list of all elements share them. The locale of maps is interpreted on it.
  \<^item> \<open>Complete\<close>: complete.c, the state machine behind sqlite3\_complete, against a grammar of statements.
  \<^item> \<open>Unix_Lock\<close>, \<open>Unix_Lock_Props\<close>, \<open>Unix_Lock_Safety\<close>, \<open>Unix_Lock_Runs\<close>: the advisory locks of
    os\_unix.c. A call is a tree of system calls, the steps of all processes interleave over a
    kernel lock table, and the invariants are proved by induction over the runs. Safety and liveness are
    proved under \<open>safe_config\<close>, and runs show that each of its conditions is needed.
  \<^item> \<open>Rowset\<close>, \<open>Rowset_Props\<close>: rowset.c, sets of rowids as lists, merged buckets and trees; the locale
    of batched sets is interpreted on it.
  \<^item> \<open>Bitvec\<close>, \<open>Bitvec_Props\<close>, \<open>Bitvec_Runs\<close>: bitvec.c, a bitmap as a bit array, a hash table or a tree of smaller bitmaps.
    \<open>set_fuel\<close> is 10; \<open>size_fuel_max\<close> shows that 9 is enough for every 32-bit size. The
    locale \<open>bit_vector\<close> is interpreted for every pattern of failing allocations.
  \<^item> \<open>Wal_Frame\<close>: the frames of wal.c and their checksum, for both byte orders.
  \<^item> \<open>Wal_Index\<close>, \<open>Wal_Index_Props\<close>, \<open>Wal_Index_Runs\<close>, \<open>Wal_Index_History\<close>: the hash tables of the
    wal-index. \<open>wi_ok\<close> relates the tables to the log they index; the contract \<open>log_index\<close> gives the
    stability of a reader's snapshot.
  \<^item> \<open>Wal_Sort\<close>, \<open>Wal_Iterator\<close>: the merge sort of a checkpoint and the walk over the pages of the log in
    ascending order, each with its last frame.
  \<^item> \<open>Shm_Lock\<close>: unixShmLock, which implements a table of shared and exclusive locks, whatever the system answers to
    the requests of the process. In the protocol below the table stands for the locks of all processes.
  \<^item> \<open>Wal_Protocol\<close>: the connections of wal.c. The state of a connection is a record with a program
    counter; a step is one access to the header, the marks, nBackfill, a lock or a page of a file. The hash tables are
    coarser: one append, search, clean-up or iterator is one step, and \<open>read_page\<close> is the search and the
    read of the page in one state (a reader of the log holds a read mark, which keeps both fixed). A write or
    truncation that fails leaves the file as it was. The check of nBuf and the clearing of the private header at the
    end of sqlite3WalCheckpoint are left out: the next read transaction loads the header again. walTryBeginRead,
    walRestartLog, walRestartHdr, walFrames, walCheckpoint and the ends of transactions are step functions over the
    memory they share; the file operations and the answers of the busy handler are inputs.
  \<^item> \<open>Wal_System\<close>: all connections together. A run (\<open>reach\<close>) takes the steps of any connections in any order. Ghost
    fields record the published headers, the committed frames and contents, and the contents
    that a transaction began with.
  \<^item> \<open>Wal_Locks\<close>, \<open>Wal_Safety\<close>, \<open>Wal_Write_Safety\<close>, \<open>Wal_Restart_Safety\<close>, \<open>Wal_Ckpt_Safety\<close>, \<open>Wal_Snapshot\<close>: the
    invariant \<open>inv\<close> of the runs and that each step keeps it: \<open>shape\<close> and \<open>table_ok\<close> for the locks, \<open>files_ok\<close> and
    \<open>index_ok\<close> for the files and the index, \<open>reader_ok\<close> and \<open>safe_for\<close> for what a reader needs of a checkpoint.
  \<^item> \<open>Wal_Runs\<close>, \<open>Wal_Isolation\<close>, \<open>Wal_Reset\<close>: mutual exclusion, snapshot isolation, what a writer sees,
    durability, and the end of the loop that begins a read transaction, for every run; and the run in
    which a checkpoint and the restart of the log race, a transaction is lost, and the next reader gets stale data.

  \<^bold>\<open>What the theorems on runs assume.\<close> Headers that are published are pairwise different (\<open>distinct (hist s)\<close>):
    a header has a change counter and random salts, and the code takes equal headers to be the same one.
    The race of a reset (\<open>reset_race\<close>) does not happen; \<open>Wal_Reset\<close> shows why that has to be assumed. Connections
    are in normal locking mode with reliable shared memory, and the pager asks for what \<open>request_ok\<close> says.

  \<^bold>\<open>Conventions.\<close> Definitions have the names of the C functions; a loop or a part of a function has a name
  of its own. Errors are result codes or \<open>None\<close>; a failing allocation is an argument. A loop is
  structural recursion, or has a termination proof, or runs on fuel with a lemma that says how much is enough. Assertions of
  the source are preconditions. Machine integers are words where
  overflow matters; sizes and frame numbers are natural numbers.

  \<^bold>\<open>Not modelled.\<close> In wal.c: recovery after a crash, the two copies of the header and the barrier between them (they
  are read and written as one; recovery repairs them), rollback to a savepoint in the runs (it is in
  \<open>Wal_Index\<close>), padding frames, read-only shared memory and snapshots opened by handle.
  In OP\_MakeRecord the application of the affinities, and running out of memory while a text is translated for a collation.
  The virtual machine beyond its records, the SQL parser, code generator and query planner, B-trees, the pager's journal, the
  extensions, the VFS beyond its locks: each is larger than the whole of what is modelled here, and nearly all of it
  works on shared mutable structures that have to come first. The generated tables of the
  parser and the glue of the public interface are left out for good. The front end, the type checker and the
  code generators of Ridge are written in Rust, its runtime in Erlang; this development is about the C code.
\<close>

end
